(* ===== verification/Prelude.thy ===== *)
theory Prelude
  imports Main "HOL-Library.Monad_Syntax"
begin

text \<open>
  What every component shares: Go's slice accesses, whose run-time panic is the value
  \<^term>\<open>None\<close>, the binary search of Go's \<^verbatim>\<open>sort\<close> package, and generic facts on lists,
  sorted lists and majorities.  Go's \<^verbatim>\<open>int\<close> is the type \<^typ>\<open>int\<close>: terms, log indices and
  counters of the program are bounded by the length of a run and never come near 2^63.

  A slice expression whose upper bound lies between the length and the capacity of the
  slice is reported as a panic too: Go would expose the spare cells of the backing array
  there, so a theorem that says "no panic" also says that this never happens.
\<close>

named_theorems go_simps \<open>unfolding rules for Go's slice operations\<close>

section \<open>Slices\<close>

definition go_index :: "'a list \<Rightarrow> int \<Rightarrow> 'a option" where
  "go_index xs i = (if 0 \<le> i \<and> i < int (length xs) then Some (xs ! nat i) else None)"

definition go_set :: "'a list \<Rightarrow> int \<Rightarrow> 'a \<Rightarrow> 'a list option" where
  "go_set xs i v = (if 0 \<le> i \<and> i < int (length xs) then Some (xs[nat i := v]) else None)"

definition go_from :: "'a list \<Rightarrow> int \<Rightarrow> 'a list option" where
  "go_from xs i = (if 0 \<le> i \<and> i \<le> int (length xs) then Some (drop (nat i) xs) else None)"

definition go_upto :: "'a list \<Rightarrow> int \<Rightarrow> 'a list option" where
  "go_upto xs j = (if 0 \<le> j \<and> j \<le> int (length xs) then Some (take (nat j) xs) else None)"

definition go_slice :: "'a list \<Rightarrow> int \<Rightarrow> int \<Rightarrow> 'a list option" where
  "go_slice xs i j =
     (if 0 \<le> i \<and> i \<le> j \<and> j \<le> int (length xs) then Some (take (nat (j - i)) (drop (nat i) xs))
      else None)"

text \<open>The positions of a slice, as the loop header \<^verbatim>\<open>for i := range xs\<close> visits them.\<close>

definition go_range :: "'a list \<Rightarrow> int list" where
  "go_range xs = map int [0..<length xs]"

text \<open>
  \<^verbatim>\<open>sort.Search(n, f)\<close>: the binary search loop \<^verbatim>\<open>for i < j { h := (i+j)/2; ... }\<close>.
\<close>

function go_search_loop :: "(nat \<Rightarrow> bool) \<Rightarrow> nat \<Rightarrow> nat \<Rightarrow> nat" where
  "go_search_loop f i j =
     (if i < j
      then (let h = (i + j) div 2
            in if \<not> f h then go_search_loop f (h + 1) j else go_search_loop f i h)
      else i)"
  by pat_completeness auto
termination
  by (relation "measure (\<lambda>(f, i, j). j - i)") auto

declare go_search_loop.simps [simp del]

definition go_search :: "nat \<Rightarrow> (nat \<Rightarrow> bool) \<Rightarrow> nat" where
  "go_search n f = go_search_loop f 0 n"

section \<open>Lemmas on slices\<close>

lemma go_index_Some [go_simps]:
  "go_index xs i = Some x \<longleftrightarrow> 0 \<le> i \<and> i < int (length xs) \<and> x = xs ! nat i"
  by (auto simp: go_index_def)

lemma go_index_None [go_simps]:
  "go_index xs i = None \<longleftrightarrow> i < 0 \<or> int (length xs) \<le> i"
  by (auto simp: go_index_def)

lemma go_set_Some [go_simps]:
  "go_set xs i v = Some ys \<longleftrightarrow> 0 \<le> i \<and> i < int (length xs) \<and> ys = xs[nat i := v]"
  by (auto simp: go_set_def)

lemma go_from_Some [go_simps]:
  "go_from xs i = Some ys \<longleftrightarrow> 0 \<le> i \<and> i \<le> int (length xs) \<and> ys = drop (nat i) xs"
  by (auto simp: go_from_def)

lemma go_upto_Some [go_simps]:
  "go_upto xs i = Some ys \<longleftrightarrow> 0 \<le> i \<and> i \<le> int (length xs) \<and> ys = take (nat i) xs"
  by (auto simp: go_upto_def)

lemma go_slice_Some [go_simps]:
  "go_slice xs i j = Some ys \<longleftrightarrow>
     0 \<le> i \<and> i \<le> j \<and> j \<le> int (length xs) \<and> ys = take (nat (j - i)) (drop (nat i) xs)"
  by (auto simp: go_slice_def)

lemma go_set_length: "go_set xs i v = Some ys \<Longrightarrow> length ys = length xs"
  by (auto simp: go_simps)

lemma go_index_0 [simp]: "xs \<noteq> [] \<Longrightarrow> go_index xs 0 = Some (hd xs)"
  by (cases xs) (auto simp: go_index_def)

lemma go_index_last: "xs \<noteq> [] \<Longrightarrow> go_index xs (int (length xs) - 1) = Some (last xs)"
  by (cases xs) (auto simp: go_index_def last_conv_nth nat_diff_distrib)

lemma go_search_loop_bounds:
  "i \<le> j \<Longrightarrow> i \<le> go_search_loop f i j \<and> go_search_loop f i j \<le> j"
proof (induction f i j rule: go_search_loop.induct)
  case (1 f i j)
  show ?case
  proof (cases "i < j")
    case True
    define h where "h = (i + j) div 2"
    have h: "i \<le> h" "h < j" using True by (auto simp: h_def)
    have "f h \<Longrightarrow> i \<le> go_search_loop f i h \<and> go_search_loop f i h \<le> h"
      using "1.IH"(2)[OF True h_def] h by simp
    moreover have "\<not> f h \<Longrightarrow> h + 1 \<le> go_search_loop f (h + 1) j \<and> go_search_loop f (h + 1) j \<le> j"
      using "1.IH"(1)[OF True h_def] h by simp
    ultimately show ?thesis using True h
      by (auto simp: go_search_loop.simps[of f i j] Let_def h_def [symmetric])
  next
    case False
    then have "go_search_loop f i j = i" by (simp add: go_search_loop.simps)
    with "1.prems" False show ?thesis by simp
  qed
qed

text \<open>
  On a predicate that never turns from true to false, the search returns the first position
  where it holds.
\<close>

lemma go_search_loop_least:
  assumes "i \<le> j" and "\<forall>a b. a \<le> b \<longrightarrow> b < n \<longrightarrow> f a \<longrightarrow> f b" and "j \<le> n"
    and "\<forall>k < i. \<not> f k" and "\<forall>k \<ge> j. k < n \<longrightarrow> f k"
  shows "(\<forall>k < go_search_loop f i j. \<not> f k) \<and> (\<forall>k \<ge> go_search_loop f i j. k < n \<longrightarrow> f k)"
  using assms
proof (induction f i j rule: go_search_loop.induct)
  case (1 f i j)
  show ?case
  proof (cases "i < j")
    case True
    define h where "h = (i + j) div 2"
    have h: "i \<le> h" "h < j" using True by (auto simp: h_def)
    have eq: "go_search_loop f i j =
        (if \<not> f h then go_search_loop f (h + 1) j else go_search_loop f i h)"
      using True by (subst go_search_loop.simps) (simp add: Let_def h_def)
    show ?thesis
    proof (cases "f h")
      case fh: True
      have "\<forall>k \<ge> h. k < n \<longrightarrow> f k" using "1.prems"(2) fh by blast
      moreover have "\<not> \<not> f h" using fh by blast
      moreover have "go_search_loop f i j = go_search_loop f i h" using eq fh by presburger
      ultimately show ?thesis
        using "1.IH"(2)[OF True h_def _ h(1) "1.prems"(2) _ "1.prems"(4)] h(2) "1.prems"(3)
        by (metis less_imp_le order_trans)
    next
      case nfh: False
      have lo: "\<forall>k < h + 1. \<not> f k"
        using nfh "1.prems"(2,3) h(2) by (metis Suc_eq_plus1 less_Suc_eq_le order_less_le_trans)
      have "h + 1 \<le> j" using h by simp
      moreover have "go_search_loop f i j = go_search_loop f (h + 1) j" using eq nfh by presburger
      ultimately show ?thesis
        using "1.IH"(1)[OF True h_def nfh _ "1.prems"(2,3) lo "1.prems"(5)] by metis
    qed
  next
    case False
    then have "go_search_loop f i j = i" by (simp add: go_search_loop.simps)
    with "1.prems" False show ?thesis by simp
  qed
qed

text \<open>What \<^verbatim>\<open>sort.Search\<close> returns: the boundary between the positions without and with \<open>f\<close>.\<close>

lemma go_search_le: "go_search n f \<le> n"
  using go_search_loop_bounds[of 0 n f] by (simp add: go_search_def)

lemma go_search_boundary:
  assumes "\<forall>a b. a \<le> b \<longrightarrow> b < n \<longrightarrow> f a \<longrightarrow> f b"
  shows "k < go_search n f \<Longrightarrow> \<not> f k" and "go_search n f \<le> k \<Longrightarrow> k < n \<Longrightarrow> f k"
  using go_search_loop_least[of 0 n n f] assms by (auto simp: go_search_def)

declare Let_def [simp]

section \<open>Results of code that may panic\<close>

text \<open>
  \<^term>\<open>pred_option P m\<close>: whatever \<open>m\<close> returns satisfies \<open>P\<close>.  The rules below take such a goal
  apart along the code.
\<close>

named_theorems go_wp \<open>rules that take a goal about the result of code apart\<close>

lemma pred_option_Some [go_wp]: "P x \<Longrightarrow> pred_option P (Some x)"
  by simp

lemma pred_option_bind [go_wp]:
  "(\<And>x. m = Some x \<Longrightarrow> pred_option P (f x)) \<Longrightarrow> pred_option P (m \<bind> f)"
  by (cases m) auto

lemma pred_option_if [go_wp]:
  "(b \<Longrightarrow> pred_option P x) \<Longrightarrow> (\<not> b \<Longrightarrow> pred_option P y) \<Longrightarrow> pred_option P (if b then x else y)"
  by simp

lemma pred_option_map [go_wp]: "pred_option (\<lambda>x. P (f x)) m \<Longrightarrow> pred_option P (map_option f m)"
  by (cases m) auto

lemma pred_optionD: "pred_option P m \<Longrightarrow> m = Some x \<Longrightarrow> P x"
  by simp

lemma nth_mem_drop: "m \<le> k \<Longrightarrow> k < length xs \<Longrightarrow> xs ! k \<in> set (drop m xs)"
  using nth_mem[of "k - m" "drop m xs"] by simp

section \<open>Functions that may panic or block\<close>

text \<open>
  The result of a function that can also block for good: \<open>Panic\<close> where Go panics (or the process
  exits), \<open>Blocked\<close> where the goroutine waits for something that cannot happen any more.
\<close>

datatype 'a Run = Ret 'a | Panic | Blocked

section \<open>Majorities\<close>

text \<open>Two sets of more than half of the servers share a server.\<close>

lemma majorities_meet:
  assumes "finite E" "S \<subseteq> E" "T \<subseteq> E" "card E div 2 < card S" "card E div 2 < card T"
  shows "\<exists>p. p \<in> S \<and> p \<in> T"
proof (rule ccontr)
  assume "\<not> ?thesis"
  then have "S \<inter> T = {}" by blast
  then have "card (S \<union> T) = card S + card T"
    using assms by (simp add: card_Un_disjoint finite_subset)
  moreover have "card (S \<union> T) \<le> card E" using assms by (simp add: card_mono)
  ultimately show False using assms by linarith
qed

end
