(* ===== verification/Persister.thy ===== *)
theory Persister
  imports Prelude
begin

text \<open>
  Stable storage (\<^verbatim>\<open>src/raft/persister.go\<close>): the encoded Raft state and the snapshot of the
  service, saved together.  Both are sequences of cells; the element types are parameters,
  since the persister never looks inside.  The mutex makes each method atomic, so each
  method is one function on the record.
\<close>

record ('r, 'b) Persister =
  raftstate :: "'r list"
  snapshot :: "'b list"

definition MakePersister :: "('r, 'b) Persister" where
  "MakePersister = \<lparr>raftstate = [], snapshot = []\<rparr>"

text \<open>\<^verbatim>\<open>make([]byte, len(orig))\<close> followed by \<^verbatim>\<open>copy\<close>: a fresh slice with the same cells.\<close>

definition clone :: "'a list \<Rightarrow> 'a list" where
  "clone orig = map (\<lambda>i. orig ! i) [0..<length orig]"

definition Copy :: "('r, 'b) Persister \<Rightarrow> ('r, 'b) Persister" where
  "Copy ps = (let np = MakePersister in np\<lparr>raftstate := raftstate ps, snapshot := snapshot ps\<rparr>)"

definition ReadRaftState :: "('r, 'b) Persister \<Rightarrow> 'r list" where
  "ReadRaftState ps = clone (raftstate ps)"

text \<open>
  Sizes are in bytes; \<open>sz\<close> is the number of bytes of one cell (it is \<open>\<lambda>_. 1\<close> when the cells
  are bytes, and the size of an encoded value when they are encoded values).
\<close>

definition PersisterRaftStateSize :: "('r \<Rightarrow> nat) \<Rightarrow> ('r, 'b) Persister \<Rightarrow> int" where
  "PersisterRaftStateSize sz ps = int (sum_list (map sz (raftstate ps)))"

definition Save :: "('r, 'b) Persister \<Rightarrow> 'r list \<Rightarrow> 'b list \<Rightarrow> ('r, 'b) Persister" where
  "Save ps rs sn = ps\<lparr>raftstate := clone rs, snapshot := clone sn\<rparr>"

definition ReadSnapshot :: "('r, 'b) Persister \<Rightarrow> 'b list" where
  "ReadSnapshot ps = clone (snapshot ps)"

definition SnapshotSize :: "('b \<Rightarrow> nat) \<Rightarrow> ('r, 'b) Persister \<Rightarrow> int" where
  "SnapshotSize sz ps = int (sum_list (map sz (snapshot ps)))"

lemma clone_id [simp]: "clone xs = xs"
  by (simp add: clone_def map_nth)

lemma Copy_id [simp]: "Copy ps = ps"
  by (simp add: Copy_def MakePersister_def)

lemma Save_reads [simp]:
  "ReadRaftState (Save ps rs sn) = rs" "ReadSnapshot (Save ps rs sn) = sn"
  "raftstate (Save ps rs sn) = rs" "snapshot (Save ps rs sn) = sn"
  by (simp_all add: ReadRaftState_def ReadSnapshot_def Save_def)

end
