(* ===== verification/RaftTypes.thy ===== *)
theory RaftTypes
  imports Persister
begin

text \<open>
  The data of a Raft peer (\<^verbatim>\<open>src/raft/raftUtil.go\<close> and the struct declarations of
  \<^verbatim>\<open>src/raft/raft.go\<close>): log entries, the messages of the three RPCs, the peer itself, and
  the stream of encoded values it keeps in its persister.

  Type parameters: \<open>'c\<close> is the type of commands (Go's \<^verbatim>\<open>interface{}\<close>, so a command is an
  option with \<^term>\<open>None\<close> for \<^verbatim>\<open>nil\<close>), \<open>'b\<close> the type of the cells of a snapshot.
\<close>

section \<open>raftUtil.go\<close>

text \<open>\<^verbatim>\<open>240 + rand.Int63() % 720\<close> milliseconds; the random number is an argument.\<close>

definition randomizedElectionTimeout :: "nat \<Rightarrow> nat" where
  "randomizedElectionTimeout rnd = 240 + rnd mod 720"

definition HEARTBEATETIME :: nat where
  "HEARTBEATETIME = 60"

datatype RaftState = LEADER | CANDIDATE | FOLLOWER

datatype BroadcastType = HEARTBEAT | REPLICATE

record 'c LogEntry =
  Term :: int
  Command :: "'c option"
  Index :: int

definition shrinkEntriesArray :: "'c LogEntry list \<Rightarrow> 'c LogEntry list" where
  "shrinkEntriesArray log = [] @ log"

fun maxInt :: "int \<Rightarrow> int list \<Rightarrow> int" where
  "maxInt maxNum [] = maxNum"
| "maxInt maxNum (num # nums) = maxInt (if num > maxNum then num else maxNum) nums"

fun minInt :: "int \<Rightarrow> int list \<Rightarrow> int" where
  "minInt minNum [] = minNum"
| "minInt minNum (num # nums) = minInt (if num < minNum then num else minNum) nums"

section \<open>Messages\<close>

text \<open>
  An \<^verbatim>\<open>ApplyMsg\<close> is sent in two shapes only: a command with its index and term, or a
  snapshot with its index and term; the two validity flags tell them apart.
\<close>

record ('c, 'b) ApplyMsg =
  CommandValid :: bool
  amCommand :: "'c option"
  CommandIndex :: int
  CommandTerm :: int
  SnapshotValid :: bool
  amSnapshot :: "'b list"
  SnapshotTerm :: int
  SnapshotIndex :: int

definition commandMsg :: "'c LogEntry \<Rightarrow> ('c, 'b) ApplyMsg" where
  "commandMsg entry =
     \<lparr>CommandValid = True, amCommand = Command entry, CommandIndex = Index entry,
      CommandTerm = Term entry, SnapshotValid = False, amSnapshot = [], SnapshotTerm = 0,
      SnapshotIndex = 0\<rparr>"

definition snapshotMsg :: "'b list \<Rightarrow> int \<Rightarrow> int \<Rightarrow> ('c, 'b) ApplyMsg" where
  "snapshotMsg snap index term =
     \<lparr>CommandValid = False, amCommand = None, CommandIndex = 0, CommandTerm = 0,
      SnapshotValid = True, amSnapshot = snap, SnapshotTerm = term, SnapshotIndex = index\<rparr>"

record RequestVoteArgs =
  rvTerm :: int
  rvCandidateId :: int
  rvLastLogIndex :: int
  rvLastLogTerm :: int

record RequestVoteReply =
  rvrTerm :: int
  rvrVoteGranted :: bool

record 'c AppendEntriesArgs =
  aeTerm :: int
  aeLeaderId :: int
  aePrevLogIndex :: int
  aePrevLogTerm :: int
  aeEntries :: "'c LogEntry list"
  aeLeaderCommit :: int

record AppendEntriesReply =
  aerTerm :: int
  aerSuccess :: bool
  aerXTerm :: int
  aerXIndex :: int
  aerXLen :: int

record 'b InstallSnapshotArgs =
  isTerm :: int
  isLeaderId :: int
  isLastIncludedIndex :: int
  isLastIncludedTerm :: int
  isData :: "'b list"

record InstallSnapshotReply =
  isrTerm :: int

section \<open>The persisted stream\<close>

text \<open>
  The raft state is written with \<^verbatim>\<open>labgob\<close>: each \<^verbatim>\<open>Encode\<close> appends one self-describing value
  to the buffer, each \<^verbatim>\<open>Decode\<close> takes the next value and fails at the end of the buffer or
  on a value of another type.  The buffer is the list of the values written.
\<close>

datatype 'c gobValue = GobInt int | GobLog "'c LogEntry list"

definition gobEncode :: "'c gobValue list \<Rightarrow> 'c gobValue \<Rightarrow> 'c gobValue list" where
  "gobEncode w v = w @ [v]"

fun gobDecodeInt :: "'c gobValue list \<Rightarrow> (int \<times> 'c gobValue list) option" where
  "gobDecodeInt (GobInt i # r) = Some (i, r)"
| "gobDecodeInt _ = None"

fun gobDecodeLog :: "'c gobValue list \<Rightarrow> ('c LogEntry list \<times> 'c gobValue list) option" where
  "gobDecodeLog (GobLog l # r) = Some (l, r)"
| "gobDecodeLog _ = None"

section \<open>The peer\<close>

text \<open>
  \<open>peers\<close> is \<^verbatim>\<open>len(rf.peers)\<close>.  The last three fields hold what the peer's goroutines keep
  between two critical sections: snapshots waiting to be pushed on \<^verbatim>\<open>applyCh\<close>, indices of
  snapshots pushed but not yet recorded in \<open>LastApplied\<close>, and the slice the applier took
  under the lock with the commit index it saw.
\<close>

record ('c, 'b) Raft =
  peers :: nat
  me :: int
  dead :: bool
  CurrentTerm :: int
  VotedFor :: int
  Log :: "'c LogEntry list"
  CommitIndex :: int
  LastApplied :: int
  state :: RaftState
  nextIndex :: "int list"
  matchIndex :: "int list"
  persister :: "('c gobValue, 'b) Persister"
  snapshotsToPush :: "('b list \<times> int \<times> int) list"
  snapshotsPushed :: "int list"
  applying :: "('c LogEntry list \<times> int) option"

section \<open>Lemmas\<close>

lemma shrinkEntriesArray_id [simp]: "shrinkEntriesArray l = l"
  by (simp add: shrinkEntriesArray_def)

lemma maxInt_Max: "maxInt a xs = Max (set (a # xs))"
proof (induction xs arbitrary: a)
  case (Cons x xs)
  have "maxInt a (x # xs) = Max (insert (max a x) (set xs))"
    using Cons.IH[of "if a < x then x else a"] by (auto simp: max_def not_less antisym_conv2)
  also have "\<dots> = Max (set (a # x # xs))"
    by (cases "xs = []") (auto simp: max.assoc)
  finally show ?case .
qed simp

lemma minInt_Min: "minInt a xs = Min (set (a # xs))"
proof (induction xs arbitrary: a)
  case (Cons x xs)
  have "minInt a (x # xs) = Min (insert (min a x) (set xs))"
    using Cons.IH[of "if x < a then x else a"] by (auto simp: min_def not_less antisym_conv2)
  also have "\<dots> = Min (set (a # x # xs))"
    by (cases "xs = []") (auto simp: min.assoc)
  finally show ?case .
qed simp

lemma maxInt_2 [simp]: "maxInt a [b] = max a b"
  by simp

lemma minInt_2 [simp]: "minInt a [b] = min a b"
  by simp

declare maxInt.simps [simp del] minInt.simps [simp del]

lemma randomizedElectionTimeout_bounds:
  "240 \<le> randomizedElectionTimeout r \<and> randomizedElectionTimeout r < 960"
proof -
  have "r mod 720 < 720" by simp
  then show ?thesis by (simp add: randomizedElectionTimeout_def)
qed

end
