(* ===== verification/RaftNode.thy ===== *)
theory RaftNode
  imports RaftTypes
begin

text \<open>
  The peer's code (\<^verbatim>\<open>src/raft/raft.go\<close>), one definition per function.  Every function runs
  under \<^verbatim>\<open>rf.mu\<close>, so it is one step from a peer to a peer; \<^term>\<open>None\<close> is a Go run-time panic
  (an index out of range).  Timers and condition variables carry no data and are left to the
  environment, which may run any enabled step at any time.  A goroutine that a function
  starts is part of its result: the peers to which a message is to be sent.
\<close>

section \<open>Log access and persistence\<close>

definition getFirstLog :: "('c, 'b) Raft \<Rightarrow> 'c LogEntry option" where
  "getFirstLog rf = go_index (Log rf) 0"

definition getLastLog :: "('c, 'b) Raft \<Rightarrow> 'c LogEntry option" where
  "getLastLog rf = (let lastIndex = int (length (Log rf)) - 1 in go_index (Log rf) lastIndex)"

definition encodeRaftState :: "('c, 'b) Raft \<Rightarrow> 'c gobValue list" where
  "encodeRaftState rf =
     (let w = [];
          w = gobEncode w (GobInt (CurrentTerm rf));
          w = gobEncode w (GobInt (VotedFor rf));
          w = gobEncode w (GobLog (Log rf))
      in w)"

definition persist :: "('c, 'b) Raft \<Rightarrow> ('c, 'b) Raft" where
  "persist rf =
     rf\<lparr>persister := Save (persister rf) (encodeRaftState rf) (ReadSnapshot (persister rf))\<rparr>"

text \<open>
  The three \<^verbatim>\<open>Decode\<close> calls of \<^verbatim>\<open>readPersist\<close>: a failing one is only logged, and the
  variables not yet decoded keep their zero values.
\<close>

definition decodeRaftState :: "'c gobValue list \<Rightarrow> int \<times> int \<times> 'c LogEntry list" where
  "decodeRaftState r =
     (case gobDecodeInt r of None \<Rightarrow> (0, 0, [])
      | Some (term, r1) \<Rightarrow>
          (case gobDecodeInt r1 of None \<Rightarrow> (term, 0, [])
           | Some (vote, r2) \<Rightarrow>
               (case gobDecodeLog r2 of None \<Rightarrow> (term, vote, []) | Some (logs, _) \<Rightarrow> (term, vote, logs))))"

definition readPersist :: "('c, 'b) Raft \<Rightarrow> 'c gobValue list \<Rightarrow> ('c, 'b) Raft option" where
  "readPersist rf data =
     (if data = [] then Some rf
      else
        let (term, vote, logs) = decodeRaftState data;
            rf = rf\<lparr>CurrentTerm := term, VotedFor := vote, Log := logs\<rparr>
        in do {
          first \<leftarrow> getFirstLog rf;
          let rf = rf\<lparr>CommitIndex := Index first\<rparr>;
          let snap = ReadSnapshot (persister rf);
          Some (if length snap > 1
                then rf\<lparr>snapshotsToPush := snapshotsToPush rf @ [(snap, Index first, Term first)]\<rparr>
                else rf)
        })"

definition Make :: "nat \<Rightarrow> int \<Rightarrow> ('c gobValue, 'b) Persister \<Rightarrow> ('c, 'b) Raft option" where
  "Make npeers my ps =
     (let rf = \<lparr>peers = npeers, me = my, dead = False, CurrentTerm = 0, VotedFor = -1,
                Log = [\<lparr>Term = 0, Command = None, Index = 0\<rparr>], CommitIndex = 0, LastApplied = 0,
                state = FOLLOWER, nextIndex = replicate npeers 0, matchIndex = replicate npeers 0,
                persister = ps, snapshotsToPush = [], snapshotsPushed = [], applying = None\<rparr>
      in do {
        rf \<leftarrow> readPersist rf (ReadRaftState ps);
        lastLog \<leftarrow> getLastLog rf;
        Some (rf\<lparr>matchIndex := map (\<lambda>_. 0) [0..<npeers],
                 nextIndex := map (\<lambda>_. Index lastLog + 1) [0..<npeers]\<rparr>)
      })"

definition GetState :: "('c, 'b) Raft \<Rightarrow> int \<times> bool" where
  "GetState rf = (CurrentTerm rf, state rf = LEADER)"

definition RaftStateSize :: "('c gobValue \<Rightarrow> nat) \<Rightarrow> ('c, 'b) Raft \<Rightarrow> int" where
  "RaftStateSize sz rf = PersisterRaftStateSize sz (persister rf)"

definition Snapshot :: "('c, 'b) Raft \<Rightarrow> int \<Rightarrow> 'b list \<Rightarrow> ('c, 'b) Raft option" where
  "Snapshot rf lastIncludedIndex snap = do {
     first \<leftarrow> getFirstLog rf;
     let snapshotIndex = Index first;
     if lastIncludedIndex \<le> snapshotIndex then Some rf
     else do {
       rest \<leftarrow> go_from (Log rf) (lastIncludedIndex - snapshotIndex);
       let rf = rf\<lparr>Log := shrinkEntriesArray rest\<rparr>;
       Some (rf\<lparr>persister := Save (persister rf) (encodeRaftState rf) snap\<rparr>)
     }
   }"

section \<open>Voting\<close>

definition isLogUpToDate :: "('c, 'b) Raft \<Rightarrow> int \<Rightarrow> int \<Rightarrow> bool option" where
  "isLogUpToDate rf requestLastLogTerm requestLastLogIndex = do {
     last \<leftarrow> getLastLog rf;
     let curLastLogIndex = Index last;
     let curLastLogTerm = Term last;
     Some (curLastLogTerm < requestLastLogTerm \<or>
           (requestLastLogTerm = curLastLogTerm \<and> curLastLogIndex \<le> requestLastLogIndex))
   }"

definition RequestVote ::
  "('c, 'b) Raft \<Rightarrow> RequestVoteArgs \<Rightarrow> (('c, 'b) Raft \<times> RequestVoteReply) option" where
  "RequestVote rf args =
     (if rvTerm args < CurrentTerm rf \<or>
         (rvTerm args = CurrentTerm rf \<and> VotedFor rf \<noteq> -1 \<and> VotedFor rf \<noteq> rvCandidateId args)
      then Some (rf, \<lparr>rvrTerm = 0, rvrVoteGranted = False\<rparr>)
      else
        let rf = (if rvTerm args > CurrentTerm rf
                  then rf\<lparr>state := FOLLOWER, CurrentTerm := rvTerm args, VotedFor := -1\<rparr>
                  else rf)
        in do {
          upToDate \<leftarrow> isLogUpToDate rf (rvLastLogTerm args) (rvLastLogIndex args);
          if \<not> upToDate
          then Some (persist rf, \<lparr>rvrTerm = CurrentTerm rf, rvrVoteGranted = False\<rparr>)
          else
            let rf = rf\<lparr>VotedFor := rvCandidateId args\<rparr>
            in Some (persist rf, \<lparr>rvrTerm = CurrentTerm rf, rvrVoteGranted = True\<rparr>)
        })"

text \<open>The loop of \<^verbatim>\<open>changeState(LEADER)\<close> over the positions of \<^verbatim>\<open>rf.nextIndex\<close>.\<close>

fun leaderIndices :: "('c, 'b) Raft \<Rightarrow> int list \<Rightarrow> ('c, 'b) Raft option" where
  "leaderIndices rf [] = Some rf"
| "leaderIndices rf (i # is) = do {
     last \<leftarrow> getLastLog rf;
     if i \<noteq> me rf
     then do {
       ni \<leftarrow> go_set (nextIndex rf) i (Index last + 1);
       mi \<leftarrow> go_set (matchIndex rf) i 0;
       leaderIndices (rf\<lparr>nextIndex := ni, matchIndex := mi\<rparr>) is
     }
     else do {
       mi \<leftarrow> go_set (matchIndex rf) i (Index last);
       leaderIndices (rf\<lparr>matchIndex := mi\<rparr>) is
     }
   }"

definition changeState :: "('c, 'b) Raft \<Rightarrow> RaftState \<Rightarrow> ('c, 'b) Raft option" where
  "changeState rf st =
     (case st of
        LEADER \<Rightarrow> leaderIndices (rf\<lparr>state := LEADER\<rparr>) (go_range (nextIndex rf))
      | CANDIDATE \<Rightarrow> Some (rf\<lparr>state := CANDIDATE\<rparr>)
      | FOLLOWER \<Rightarrow> Some (rf\<lparr>state := FOLLOWER\<rparr>))"

text \<open>The other peers, in the order of \<^verbatim>\<open>for peer := range rf.peers\<close>.\<close>

definition otherPeers :: "('c, 'b) Raft \<Rightarrow> int list" where
  "otherPeers rf = filter (\<lambda>p. p \<noteq> me rf) (map int [0..<peers rf])"

text \<open>
  \<^verbatim>\<open>broadcast\<close>: for HEARTBEAT the peers that get a \<^verbatim>\<open>replicateOneRound\<close> goroutine, for REPLICATE
  the peers whose replicator is signalled.
\<close>

definition broadcast :: "('c, 'b) Raft \<Rightarrow> BroadcastType \<Rightarrow> int list" where
  "broadcast rf broadcastType =
     (if state rf \<noteq> LEADER then []
      else case broadcastType of HEARTBEAT \<Rightarrow> otherPeers rf | REPLICATE \<Rightarrow> otherPeers rf)"

text \<open>
  \<^verbatim>\<open>startElect\<close>: the peer after the term is incremented, and the request each goroutine sends.
  The vote counter starts at 1.
\<close>

definition startElect ::
  "('c, 'b) Raft \<Rightarrow> (('c, 'b) Raft \<times> (int \<times> RequestVoteArgs) list) option" where
  "startElect rf =
     (let rf = rf\<lparr>VotedFor := me rf\<rparr>;
          rf = rf\<lparr>CurrentTerm := CurrentTerm rf + 1\<rparr>
      in do {
        lastLogEntry \<leftarrow> getLastLog rf;
        let rf = persist rf;
        Some (rf, map (\<lambda>peer. (peer, \<lparr>rvTerm = CurrentTerm rf, rvCandidateId = me rf,
                                      rvLastLogIndex = Index lastLogEntry,
                                      rvLastLogTerm = Term lastLogEntry\<rparr>))
                      (otherPeers rf))
      })"

text \<open>
  The body of the goroutine of \<^verbatim>\<open>startElect\<close> after a reply arrived: the new peer, the new value
  of the closure's \<^verbatim>\<open>voteCnt\<close>, and the peers of the heartbeat broadcast.
\<close>

definition handleRequestVoteReply ::
  "('c, 'b) Raft \<Rightarrow> int \<Rightarrow> RequestVoteReply \<Rightarrow> (('c, 'b) Raft \<times> int \<times> int list) option" where
  "handleRequestVoteReply rf voteCnt reply =
     (if rvrTerm reply > CurrentTerm rf
      then do {
        rf \<leftarrow> changeState rf FOLLOWER;
        let rf = rf\<lparr>CurrentTerm := rvrTerm reply, VotedFor := -1\<rparr>;
        Some (persist rf, voteCnt, [])
      }
      else if rvrTerm reply = CurrentTerm rf \<and> rvrVoteGranted reply
      then
        let voteCnt = voteCnt + 1
        in if voteCnt > int (peers rf div 2) \<and> state rf \<noteq> LEADER
           then do {
             rf \<leftarrow> changeState rf LEADER;
             Some (rf, voteCnt, broadcast rf HEARTBEAT)
           }
           else Some (rf, voteCnt, [])
      else Some (rf, voteCnt, []))"

section \<open>Log replication: the follower\<close>

definition isLogMatched :: "('c, 'b) Raft \<Rightarrow> int \<Rightarrow> int \<Rightarrow> bool option" where
  "isLogMatched rf requestPrevLogTerm requestPrevLogIndex = do {
     first \<leftarrow> getFirstLog rf;
     last \<leftarrow> getLastLog rf;
     if requestPrevLogIndex < Index first then Some True
     else if requestPrevLogIndex \<le> Index last
     then do {
       e \<leftarrow> go_index (Log rf) (requestPrevLogIndex - Index first);
       Some (Term e = requestPrevLogTerm)
     }
     else Some False
   }"

definition advanceCommitIndexForFollower ::
  "('c, 'b) Raft \<Rightarrow> int \<Rightarrow> int \<Rightarrow> ('c, 'b) Raft option" where
  "advanceCommitIndexForFollower rf currentTerm leaderCommit = do {
     last \<leftarrow> getLastLog rf;
     Some (if Term last = currentTerm
           then rf\<lparr>CommitIndex := minInt leaderCommit [Index last]\<rparr>
           else rf)
   }"

text \<open>
  \<^verbatim>\<open>for index >= firstIndex && rf.Log[index-firstIndex].Term == reply.XTerm { index-- }\<close>
\<close>

function conflictScan :: "'c LogEntry list \<Rightarrow> int \<Rightarrow> int \<Rightarrow> int \<Rightarrow> int option" where
  "conflictScan log firstIndex xterm index =
     (if index \<ge> firstIndex
      then (case go_index log (index - firstIndex) of
              None \<Rightarrow> None
            | Some e \<Rightarrow> if Term e = xterm then conflictScan log firstIndex xterm (index - 1)
                        else Some index)
      else Some index)"
  by pat_completeness auto
termination
  by (relation "measure (\<lambda>(log, firstIndex, xterm, index). nat (index - firstIndex + 1))") auto

declare conflictScan.simps [simp del]

text \<open>
  The loop over \<^verbatim>\<open>args.Entries\<close>: the third argument is \<^verbatim>\<open>args.Entries[index:]\<close>.
\<close>

fun mergeEntries ::
  "'c LogEntry list \<Rightarrow> int \<Rightarrow> 'c LogEntry list \<Rightarrow> 'c LogEntry list option" where
  "mergeEntries log firstIndex [] = Some log"
| "mergeEntries log firstIndex (entry # rest) =
     (if Index entry \<ge> firstIndex
      then if Index entry - firstIndex \<ge> int (length log)
           then do {
             pre \<leftarrow> go_upto log (Index entry - firstIndex);
             Some (shrinkEntriesArray (pre @ (entry # rest)))
           }
           else do {
             e \<leftarrow> go_index log (Index entry - firstIndex);
             if Term e \<noteq> Term entry
             then do {
               pre \<leftarrow> go_upto log (Index entry - firstIndex);
               Some (shrinkEntriesArray (pre @ (entry # rest)))
             }
             else mergeEntries log firstIndex rest
           }
      else mergeEntries log firstIndex rest)"

definition emptyAppendEntriesReply :: AppendEntriesReply where
  "emptyAppendEntriesReply =
     \<lparr>aerTerm = 0, aerSuccess = False, aerXTerm = 0, aerXIndex = 0, aerXLen = 0\<rparr>"

definition AppendEntries ::
  "('c, 'b) Raft \<Rightarrow> 'c AppendEntriesArgs \<Rightarrow> (('c, 'b) Raft \<times> AppendEntriesReply) option" where
  "AppendEntries rf args =
     (let reply = emptyAppendEntriesReply in
      if aeTerm args < CurrentTerm rf
      then Some (rf, reply\<lparr>aerTerm := CurrentTerm rf, aerSuccess := False\<rparr>)
      else
        let rf = (if aeTerm args > CurrentTerm rf
                  then rf\<lparr>CurrentTerm := aeTerm args, VotedFor := -1\<rparr> else rf)
        in do {
          rf \<leftarrow> changeState rf FOLLOWER;
          matched \<leftarrow> isLogMatched rf (aePrevLogTerm args) (aePrevLogIndex args);
          first \<leftarrow> getFirstLog rf;
          let firstIndex = Index first;
          if \<not> matched
          then do {
            last \<leftarrow> getLastLog rf;
            let lastIndex = Index last;
            let reply = reply\<lparr>aerTerm := CurrentTerm rf, aerSuccess := False\<rparr>;
            if aePrevLogIndex args > lastIndex
            then Some (persist rf,
                       reply\<lparr>aerXTerm := -1, aerXIndex := lastIndex + 1, aerXLen := firstIndex + 1\<rparr>)
            else do {
              e \<leftarrow> go_index (Log rf) (aePrevLogIndex args - firstIndex);
              index \<leftarrow> conflictScan (Log rf) firstIndex (Term e) (aePrevLogIndex args - 1);
              Some (persist rf, reply\<lparr>aerXTerm := Term e, aerXIndex := index + 1\<rparr>)
            }
          }
          else do {
            log \<leftarrow> mergeEntries (Log rf) firstIndex (aeEntries args);
            rf \<leftarrow> advanceCommitIndexForFollower (rf\<lparr>Log := log\<rparr>) (aeTerm args) (aeLeaderCommit args);
            Some (persist rf, reply\<lparr>aerTerm := CurrentTerm rf, aerSuccess := True\<rparr>)
          }
        })"

definition InstallSnapshot ::
  "('c, 'b) Raft \<Rightarrow> 'b InstallSnapshotArgs \<Rightarrow> (('c, 'b) Raft \<times> InstallSnapshotReply) option" where
  "InstallSnapshot rf args =
     (let reply = \<lparr>isrTerm = CurrentTerm rf\<rparr> in
      if isTerm args < CurrentTerm rf then Some (rf, reply)
      else
        let rf = (if isTerm args > CurrentTerm rf
                  then persist (rf\<lparr>CurrentTerm := isTerm args, VotedFor := -1\<rparr>) else rf);
            rf = rf\<lparr>state := FOLLOWER\<rparr>
        in do {
          first \<leftarrow> getFirstLog rf;
          if isLastIncludedIndex args \<le> CommitIndex rf \<or> isLastIncludedIndex args \<le> Index first
          then Some (rf, reply)
          else do {
            last \<leftarrow> getLastLog rf;
            let fresh = [\<lparr>Term = isLastIncludedTerm args, Command = None,
                          Index = isLastIncludedIndex args\<rparr>];
            log \<leftarrow> (if isLastIncludedIndex args > Index last then Some fresh
                   else do {
                     e \<leftarrow> go_index (Log rf) (isLastIncludedIndex args - Index first);
                     if Term e = isLastIncludedTerm args
                     then map_option shrinkEntriesArray
                            (go_from (Log rf) (isLastIncludedIndex args - Index first))
                     else Some fresh
                   });
            let rf = rf\<lparr>Log := log, CommitIndex := isLastIncludedIndex args\<rparr>;
            let rf = rf\<lparr>persister := Save (persister rf) (encodeRaftState rf) (isData args)\<rparr>;
            Some (rf\<lparr>snapshotsToPush := snapshotsToPush rf @
                       [(isData args, isLastIncludedIndex args, isLastIncludedTerm args)]\<rparr>,
                  reply)
          }
        })"

section \<open>Log replication: the leader\<close>

definition appendNewLogEntry ::
  "('c, 'b) Raft \<Rightarrow> 'c option \<Rightarrow> (('c, 'b) Raft \<times> 'c LogEntry) option" where
  "appendNewLogEntry rf command = do {
     last \<leftarrow> getLastLog rf;
     let newLogEntry = \<lparr>Term = CurrentTerm rf, Command = command, Index = Index last + 1\<rparr>;
     let rf = rf\<lparr>Log := Log rf @ [newLogEntry]\<rparr>;
     mi \<leftarrow> go_set (matchIndex rf) (me rf) (Index newLogEntry);
     Some (persist (rf\<lparr>matchIndex := mi\<rparr>), newLogEntry)
   }"

text \<open>\<^verbatim>\<open>Start\<close>: the new peer, the peers whose replicator is signalled, and the three results.\<close>

definition Start ::
  "('c, 'b) Raft \<Rightarrow> 'c option \<Rightarrow> (('c, 'b) Raft \<times> int list \<times> int \<times> int \<times> bool) option" where
  "Start rf command =
     (if state rf \<noteq> LEADER then Some (rf, [], -1, -1, False)
      else do {
        (rf, newLogEntry) \<leftarrow> appendNewLogEntry rf command;
        Some (rf, broadcast rf REPLICATE, Index newLogEntry, Term newLogEntry, True)
      })"

text \<open>The loop that looks for \<^verbatim>\<open>prevLogIndex\<close> in the log: the last match, or 0.\<close>

fun findPrev :: "'c LogEntry list \<Rightarrow> int \<Rightarrow> int \<Rightarrow> int \<Rightarrow> int" where
  "findPrev [] i prevLogIndex index = index"
| "findPrev (e # es) i prevLogIndex index =
     findPrev es (i + 1) prevLogIndex (if Index e = prevLogIndex then i else index)"

definition createAppendEntriesArgs :: "('c, 'b) Raft \<Rightarrow> int \<Rightarrow> 'c AppendEntriesArgs option" where
  "createAppendEntriesArgs rf prevLogIndex = do {
     let index = findPrev (Log rf) 0 prevLogIndex 0;
     e \<leftarrow> go_index (Log rf) index;
     entries \<leftarrow> go_from (Log rf) (index + 1);
     Some \<lparr>aeTerm = CurrentTerm rf, aeLeaderId = me rf, aePrevLogIndex = prevLogIndex,
           aePrevLogTerm = Term e, aeEntries = entries, aeLeaderCommit = CommitIndex rf\<rparr>
   }"

definition createInstallSnapshotArgs :: "('c, 'b) Raft \<Rightarrow> 'b InstallSnapshotArgs option" where
  "createInstallSnapshotArgs rf = do {
     first \<leftarrow> getFirstLog rf;
     Some \<lparr>isTerm = CurrentTerm rf, isLeaderId = me rf, isLastIncludedIndex = Index first,
           isLastIncludedTerm = Term first, isData = ReadSnapshot (persister rf)\<rparr>
   }"

datatype ('c, 'b) RoundMsg =
    NoMsg
  | SendAppendEntries "'c AppendEntriesArgs"
  | SendInstallSnapshot "'b InstallSnapshotArgs"

text \<open>
  \<^verbatim>\<open>replicateOneRound\<close> up to the RPC call: what the read-locked section decides to send.  The
  rest of the function hands the reply to one of the two handlers below.
\<close>

definition replicateOneRound :: "('c, 'b) Raft \<Rightarrow> int \<Rightarrow> ('c, 'b) RoundMsg option" where
  "replicateOneRound rf peer =
     (if state rf \<noteq> LEADER then Some NoMsg
      else do {
        ni \<leftarrow> go_index (nextIndex rf) peer;
        let prevLogIndex = ni - 1;
        first \<leftarrow> getFirstLog rf;
        if prevLogIndex < Index first
        then map_option SendInstallSnapshot (createInstallSnapshotArgs rf)
        else map_option SendAppendEntries (createAppendEntriesArgs rf prevLogIndex)
      })"

definition handleInstallSnapshotResponse ::
  "('c, 'b) Raft \<Rightarrow> int \<Rightarrow> 'b InstallSnapshotArgs \<Rightarrow> InstallSnapshotReply \<Rightarrow> ('c, 'b) Raft option"
  where
  "handleInstallSnapshotResponse rf peer args reply =
     (if isTerm args \<noteq> CurrentTerm rf \<or> state rf \<noteq> LEADER then Some rf
      else if isrTerm reply > CurrentTerm rf
      then do {
        rf \<leftarrow> changeState rf FOLLOWER;
        Some (persist (rf\<lparr>CurrentTerm := isrTerm reply, VotedFor := -1\<rparr>))
      }
      else do {
        m \<leftarrow> go_index (matchIndex rf) peer;
        mi \<leftarrow> go_set (matchIndex rf) peer (maxInt m [isLastIncludedIndex args]);
        n \<leftarrow> go_index (nextIndex rf) peer;
        ni \<leftarrow> go_set (nextIndex rf) peer (maxInt n [isLastIncludedIndex args + 1]);
        Some (rf\<lparr>matchIndex := mi, nextIndex := ni\<rparr>)
      })"

text \<open>\<^verbatim>\<open>for _, v := range rf.matchIndex { if v >= N { cnt++ } }\<close>\<close>

fun countAtLeast :: "int list \<Rightarrow> int \<Rightarrow> int \<Rightarrow> int" where
  "countAtLeast [] N cnt = cnt"
| "countAtLeast (v # vs) N cnt = countAtLeast vs N (if v \<ge> N then cnt + 1 else cnt)"

definition hasBeenAppendedMajority :: "('c, 'b) Raft \<Rightarrow> int \<Rightarrow> bool option" where
  "hasBeenAppendedMajority rf N = do {
     first \<leftarrow> getFirstLog rf;
     let firstIndex = Index first;
     if N \<le> firstIndex then Some True
     else if countAtLeast (matchIndex rf) N 0 > int (peers rf div 2)
     then do {
       e \<leftarrow> go_index (Log rf) (N - firstIndex);
       Some (Term e = CurrentTerm rf)
     }
     else Some False
   }"

text \<open>\<^verbatim>\<open>for N := right; N >= left; N-- { if majority(N) { CommitIndex = max; break } }\<close>\<close>

function commitLoop :: "('c, 'b) Raft \<Rightarrow> int \<Rightarrow> int \<Rightarrow> ('c, 'b) Raft option" where
  "commitLoop rf left N =
     (if N \<ge> left
      then (case hasBeenAppendedMajority rf N of
              None \<Rightarrow> None
            | Some True \<Rightarrow> Some (rf\<lparr>CommitIndex := maxInt (CommitIndex rf) [N]\<rparr>)
            | Some False \<Rightarrow> commitLoop rf left (N - 1))
      else Some rf)"
  by pat_completeness auto
termination
  by (relation "measure (\<lambda>(rf, left, N). nat (N - left + 1))") auto

declare commitLoop.simps [simp del]

definition handleReplicateOneRoundResponse ::
  "('c, 'b) Raft \<Rightarrow> int \<Rightarrow> 'c AppendEntriesArgs \<Rightarrow> AppendEntriesReply \<Rightarrow> ('c, 'b) Raft option"
  where
  "handleReplicateOneRoundResponse rf peer args reply =
     (if aeTerm args \<noteq> CurrentTerm rf \<or> state rf \<noteq> LEADER then Some rf
      else if aerTerm reply > CurrentTerm rf
      then do {
        rf \<leftarrow> changeState rf FOLLOWER;
        Some (persist (rf\<lparr>CurrentTerm := aerTerm reply, VotedFor := -1\<rparr>))
      }
      else if aerSuccess reply
      then do {
        let acked = aePrevLogIndex args + int (length (aeEntries args));
        m \<leftarrow> go_index (matchIndex rf) peer;
        mi \<leftarrow> go_set (matchIndex rf) peer (maxInt m [acked]);
        n \<leftarrow> go_index (nextIndex rf) peer;
        ni \<leftarrow> go_set (nextIndex rf) peer (maxInt n [acked + 1]);
        let rf = rf\<lparr>matchIndex := mi, nextIndex := ni\<rparr>;
        last \<leftarrow> getLastLog rf;
        commitLoop rf (CommitIndex rf + 1) (Index last)
      }
      else if aerXTerm reply = -1
      then do {
        ni \<leftarrow> go_set (nextIndex rf) peer (aerXLen reply);
        Some (rf\<lparr>nextIndex := ni\<rparr>)
      }
      else do {
        let i = go_search (length (Log rf)) (\<lambda>i. Term (Log rf ! i) > aerXTerm reply);
        let found = (i > 0 \<and> Term (Log rf ! (i - 1)) = aerXTerm reply);
        next \<leftarrow> (if found then map_option Index (go_index (Log rf) (int i))
                else Some (aerXIndex reply));
        ni \<leftarrow> go_set (nextIndex rf) peer next;
        Some (rf\<lparr>nextIndex := ni\<rparr>)
      })"

section \<open>Timers, replicator, applier, shutdown\<close>

text \<open>The two cases of the \<^verbatim>\<open>select\<close> in \<^verbatim>\<open>ticker\<close>.\<close>

definition electionTimeout ::
  "('c, 'b) Raft \<Rightarrow> (('c, 'b) Raft \<times> (int \<times> RequestVoteArgs) list) option" where
  "electionTimeout rf =
     (if state rf \<noteq> LEADER
      then do {
        rf \<leftarrow> changeState rf CANDIDATE;
        startElect rf
      }
      else Some (rf, []))"

definition heartbeatTimeout :: "('c, 'b) Raft \<Rightarrow> int list" where
  "heartbeatTimeout rf = (if state rf = LEADER then broadcast rf HEARTBEAT else [])"

definition needReplicatingLog :: "('c, 'b) Raft \<Rightarrow> int \<Rightarrow> bool option" where
  "needReplicatingLog rf peer =
     (if state rf = LEADER
      then do {
        m \<leftarrow> go_index (matchIndex rf) peer;
        last \<leftarrow> getLastLog rf;
        Some (m < Index last)
      }
      else Some False)"

text \<open>One turn of the loop of \<^verbatim>\<open>replicator\<close>: nothing is sent while there is nothing to replicate.\<close>

definition replicator :: "('c, 'b) Raft \<Rightarrow> int \<Rightarrow> ('c, 'b) RoundMsg option" where
  "replicator rf peer =
     (if dead rf then Some NoMsg
      else do {
        need \<leftarrow> needReplicatingLog rf peer;
        if need then replicateOneRound rf peer else Some NoMsg
      })"

definition needApplyingLog :: "('c, 'b) Raft \<Rightarrow> bool option" where
  "needApplyingLog rf =
     (if CommitIndex rf > LastApplied rf
      then do { first \<leftarrow> getFirstLog rf; Some (LastApplied rf \<ge> Index first) }
      else Some False)"

text \<open>
  One turn of the loop of \<^verbatim>\<open>applier\<close> has three parts: under the lock it takes the slice to
  apply, without the lock it pushes the entries one by one, under the lock again it records
  the commit index it saw.
\<close>

definition applierTake :: "('c, 'b) Raft \<Rightarrow> ('c, 'b) Raft option" where
  "applierTake rf = do {
     need \<leftarrow> needApplyingLog rf;
     if need \<and> \<not> dead rf \<and> applying rf = None
     then do {
       first \<leftarrow> getFirstLog rf;
       let firstIndex = Index first;
       entries \<leftarrow> go_slice (Log rf) (LastApplied rf + 1 - firstIndex) (CommitIndex rf + 1 - firstIndex);
       Some (rf\<lparr>applying := Some (entries, CommitIndex rf)\<rparr>)
     }
     else Some rf
   }"

definition applierPush :: "('c, 'b) Raft \<Rightarrow> (('c, 'b) Raft \<times> ('c, 'b) ApplyMsg) option" where
  "applierPush rf =
     (case applying rf of
        Some (entry # rest, commitIndex) \<Rightarrow>
          Some (rf\<lparr>applying := Some (rest, commitIndex)\<rparr>, commandMsg entry)
      | _ \<Rightarrow> None)"

definition applierDone :: "('c, 'b) Raft \<Rightarrow> ('c, 'b) Raft" where
  "applierDone rf =
     (case applying rf of
        Some ([], commitIndex) \<Rightarrow>
          rf\<lparr>LastApplied := maxInt (LastApplied rf) [commitIndex], applying := None\<rparr>
      | _ \<Rightarrow> rf)"

text \<open>A whole turn of the loop of \<^verbatim>\<open>applier\<close> when nothing else happens in between.\<close>

fun applierPushes :: "nat \<Rightarrow> ('c, 'b) Raft \<Rightarrow> (('c, 'b) Raft \<times> ('c, 'b) ApplyMsg list) option" where
  "applierPushes 0 rf = Some (rf, [])"
| "applierPushes (Suc n) rf = do {
     (rf, m) \<leftarrow> applierPush rf;
     (rf, ms) \<leftarrow> applierPushes n rf;
     Some (rf, m # ms)
   }"

definition applierTurn :: "('c, 'b) Raft \<Rightarrow> (('c, 'b) Raft \<times> ('c, 'b) ApplyMsg list) option" where
  "applierTurn rf = do {
     rf \<leftarrow> applierTake rf;
     (rf, ms) \<leftarrow> applierPushes (case applying rf of Some (es, _) \<Rightarrow> length es | None \<Rightarrow> 0) rf;
     Some (applierDone rf, ms)
   }"

text \<open>
  The goroutine that hands a snapshot to the service, started by \<^verbatim>\<open>readPersist\<close> and
  \<^verbatim>\<open>InstallSnapshot\<close>: the push, then the update of \<^verbatim>\<open>LastApplied\<close>.
\<close>

definition snapshotPush :: "('c, 'b) Raft \<Rightarrow> nat \<Rightarrow> (('c, 'b) Raft \<times> ('c, 'b) ApplyMsg) option" where
  "snapshotPush rf k =
     (if k < length (snapshotsToPush rf)
      then let (snap, index, term) = snapshotsToPush rf ! k
           in Some (rf\<lparr>snapshotsToPush := take k (snapshotsToPush rf) @ drop (k + 1) (snapshotsToPush rf),
                       snapshotsPushed := snapshotsPushed rf @ [index]\<rparr>,
                    snapshotMsg snap index term)
      else None)"

definition snapshotDone :: "('c, 'b) Raft \<Rightarrow> nat \<Rightarrow> ('c, 'b) Raft" where
  "snapshotDone rf k =
     (if k < length (snapshotsPushed rf)
      then rf\<lparr>LastApplied := maxInt (LastApplied rf) [snapshotsPushed rf ! k],
              snapshotsPushed := take k (snapshotsPushed rf) @ drop (k + 1) (snapshotsPushed rf)\<rparr>
      else rf)"

definition Kill :: "('c, 'b) Raft \<Rightarrow> ('c, 'b) Raft" where
  "Kill rf = rf\<lparr>dead := True\<rparr>"

definition killed :: "('c, 'b) Raft \<Rightarrow> bool" where
  "killed rf = dead rf"

end
