(* ===== verification/LabRpc.thy ===== *)
theory LabRpc
  imports Prelude "HOL-Library.Word"
begin

text \<open>
  The simulated network of \<^verbatim>\<open>src/labrpc/labrpc.go\<close>: client ends, the network with its switches, servers
  and services, and the goroutine that takes one request through the network.

  Names of ends and of servers are types \<open>'e\<close> and \<open>'n\<close>.  A pointer to a server is a number: the
  network compares pointers, so a server that was deleted and added again is another one.  What
  the methods of a service read and change is a type \<open>'w\<close>, a decoded argument or reply is a type \<open>'a\<close>,
  and the encoder and decoder are a parameter (\<^verbatim>\<open>encoding/gob\<close>).  A map from names to pointers reads
  nil for a missing name, so it is a total function into an option.  \<open>log.Fatalf\<close> ends the process:
  \<open>Panic\<close>.  Random numbers, and what the network looks like whenever the goroutine takes its lock,
  are arguments.
\<close>

section \<open>Messages and codecs\<close>

type_synonym bytes = "8 word list"

record 'e reqMsg =
  endname :: 'e
  svcMeth :: string
  argsType :: string
  args :: bytes

record replyMsg =
  ok :: bool
  reply :: bytes

record 'a codec =
  encode :: "'a \<Rightarrow> bytes option"
  decode :: "bytes \<Rightarrow> 'a option"
  typeName :: "'a \<Rightarrow> string"
  zeroValue :: "string \<Rightarrow> 'a"

section \<open>Services\<close>

record ('a, 'w) Method =
  mName :: string
  pkgPath :: string
  numIn :: nat
  in2Ptr :: bool
  numOut :: nat
  func :: "'a \<Rightarrow> 'w \<Rightarrow> 'w \<times> 'a"

record ('a, 'w) Service =
  svcName :: string
  methods :: "string \<rightharpoonup> ('a, 'w) Method"

fun suitableMethods :: "('a, 'w) Method list \<Rightarrow> (string \<rightharpoonup> ('a, 'w) Method) \<Rightarrow> (string \<rightharpoonup> ('a, 'w) Method)" where
  "suitableMethods [] ms = ms"
| "suitableMethods (meth # rest) ms =
     (if pkgPath meth \<noteq> [] \<or> numIn meth \<noteq> 3 \<or> \<not> in2Ptr meth \<or> numOut meth \<noteq> 0
      then suitableMethods rest ms
      else suitableMethods rest (ms(mName meth \<mapsto> meth)))"

definition MakeService :: "string \<Rightarrow> ('a, 'w) Method list \<Rightarrow> ('a, 'w) Service" where
  "MakeService typName ms = \<lparr>svcName = typName, methods = suitableMethods ms (\<lambda>_. None)\<rparr>"

text \<open>Errors of decoding the argument and of encoding the reply are ignored: the argument keeps its
  zero value, the reply is empty.\<close>

definition serviceDispatch :: "'a codec \<Rightarrow> ('a, 'w) Service \<Rightarrow> string \<Rightarrow> 'e reqMsg \<Rightarrow> 'w \<Rightarrow> ('w \<times> replyMsg) Run" where
  "serviceDispatch cdc svc methname req w =
     (case methods svc methname of
        Some meth \<Rightarrow>
          let a = (case decode cdc (args req) of Some v \<Rightarrow> v | None \<Rightarrow> zeroValue cdc (argsType req));
              (w', r) = func meth a w;
              rb = (case encode cdc r of Some b \<Rightarrow> b | None \<Rightarrow> [])
          in Ret (w', \<lparr>ok = True, reply = rb\<rparr>)
      | None \<Rightarrow> Panic)"

section \<open>Servers\<close>

record ('a, 'w) Server =
  services :: "string \<rightharpoonup> ('a, 'w) Service"
  srvCount :: int

definition MakeServer :: "('a, 'w) Server" where
  "MakeServer = \<lparr>services = (\<lambda>_. None), srvCount = 0\<rparr>"

definition AddService :: "('a, 'w) Server \<Rightarrow> ('a, 'w) Service \<Rightarrow> ('a, 'w) Server" where
  "AddService rs svc = rs\<lparr>services := (services rs)(svcName svc \<mapsto> svc)\<rparr>"

text \<open>\<^verbatim>\<open>strings.LastIndex\<close> of a dot.\<close>

fun lastDot :: "string \<Rightarrow> nat option" where
  "lastDot [] = None"
| "lastDot (c # s) =
     (case lastDot s of Some i \<Rightarrow> Some (Suc i) | None \<Rightarrow> if c = CHR ''.'' then Some 0 else None)"

text \<open>Without a dot, slicing with \<open>-1\<close> panics.\<close>

definition serverDispatch ::
  "'a codec \<Rightarrow> ('a, 'w) Server \<Rightarrow> 'e reqMsg \<Rightarrow> 'w \<Rightarrow> (('a, 'w) Server \<times> 'w \<times> replyMsg) Run" where
  "serverDispatch cdc rs req w =
     (let rs = rs\<lparr>srvCount := srvCount rs + 1\<rparr> in
      case lastDot (svcMeth req) of
        None \<Rightarrow> Panic
      | Some dot \<Rightarrow>
          let serviceName = take dot (svcMeth req);
              methodName = drop (dot + 1) (svcMeth req)
          in case services rs serviceName of
               None \<Rightarrow> Panic
             | Some service \<Rightarrow>
                 (case serviceDispatch cdc service methodName req w of
                    Ret (w', r) \<Rightarrow> Ret (rs, w', r)
                  | Panic \<Rightarrow> Panic
                  | Blocked \<Rightarrow> Blocked))"

definition ServerGetCount :: "('a, 'w) Server \<Rightarrow> int" where
  "ServerGetCount rs = srvCount rs"

section \<open>The network\<close>

record 'e ClientEnd =
  ceName :: 'e

record ('e, 'n) Network =
  reliable :: bool
  longDelays :: bool
  longReordering :: bool
  ends :: "'e \<rightharpoonup> 'e ClientEnd"
  enabled :: "'e \<Rightarrow> bool"
  servers :: "'n \<Rightarrow> nat option"
  connections :: "'e \<Rightarrow> 'n option"
  doneClosed :: bool
  netCount :: "32 word"
  netBytes :: "64 word"

definition MakeNetwork :: "('e, 'n) Network" where
  "MakeNetwork = \<lparr>reliable = True, longDelays = False, longReordering = False, ends = (\<lambda>_. None),
     enabled = (\<lambda>_. False), servers = (\<lambda>_. None), connections = (\<lambda>_. None), doneClosed = False,
     netCount = 0, netBytes = 0\<rparr>"

text \<open>The goroutine of the network, when it takes a request.\<close>

definition netReceive :: "('e, 'n) Network \<Rightarrow> 'e reqMsg \<Rightarrow> ('e, 'n) Network" where
  "netReceive rn xreq = rn\<lparr>netCount := netCount rn + 1, netBytes := netBytes rn + of_nat (length (args xreq))\<rparr>"

text \<open>Closing a closed channel panics.\<close>

definition Cleanup :: "('e, 'n) Network \<Rightarrow> ('e, 'n) Network Run" where
  "Cleanup rn = (if doneClosed rn then Panic else Ret (rn\<lparr>doneClosed := True\<rparr>))"

definition Reliable :: "('e, 'n) Network \<Rightarrow> bool \<Rightarrow> ('e, 'n) Network" where
  "Reliable rn yes = rn\<lparr>reliable := yes\<rparr>"

definition LongReordering :: "('e, 'n) Network \<Rightarrow> bool \<Rightarrow> ('e, 'n) Network" where
  "LongReordering rn yes = rn\<lparr>longReordering := yes\<rparr>"

definition LongDelays :: "('e, 'n) Network \<Rightarrow> bool \<Rightarrow> ('e, 'n) Network" where
  "LongDelays rn yes = rn\<lparr>longDelays := yes\<rparr>"

definition readEndnameInfo :: "('e, 'n) Network \<Rightarrow> 'e \<Rightarrow> bool \<times> 'n option \<times> nat option \<times> bool \<times> bool" where
  "readEndnameInfo rn e =
     (let servername = connections rn e
      in (enabled rn e, servername, (case servername of None \<Rightarrow> None | Some n \<Rightarrow> servers rn n),
          reliable rn, longReordering rn))"

definition isServerDead :: "('e, 'n) Network \<Rightarrow> 'e \<Rightarrow> 'n \<Rightarrow> nat \<Rightarrow> bool" where
  "isServerDead rn e servername server =
     (if enabled rn e = False \<or> servers rn servername \<noteq> Some server then True else False)"

definition MakeEnd :: "('e, 'n) Network \<Rightarrow> 'e \<Rightarrow> (('e, 'n) Network \<times> 'e ClientEnd) Run" where
  "MakeEnd rn e =
     (if ends rn e \<noteq> None then Panic
      else let ce = \<lparr>ceName = e\<rparr> in
        Ret (rn\<lparr>ends := (ends rn)(e \<mapsto> ce), enabled := (enabled rn)(e := False),
                connections := (connections rn)(e := None)\<rparr>, ce))"

definition DeleteEnd :: "('e, 'n) Network \<Rightarrow> 'e \<Rightarrow> ('e, 'n) Network Run" where
  "DeleteEnd rn e =
     (if ends rn e = None then Panic
      else Ret (rn\<lparr>ends := (ends rn)(e := None), enabled := (enabled rn)(e := False),
                   connections := (connections rn)(e := None)\<rparr>))"

definition AddServer :: "('e, 'n) Network \<Rightarrow> 'n \<Rightarrow> nat \<Rightarrow> ('e, 'n) Network" where
  "AddServer rn servername rs = rn\<lparr>servers := (servers rn)(servername := Some rs)\<rparr>"

definition DeleteServer :: "('e, 'n) Network \<Rightarrow> 'n \<Rightarrow> ('e, 'n) Network" where
  "DeleteServer rn servername = rn\<lparr>servers := (servers rn)(servername := None)\<rparr>"

definition Connect :: "('e, 'n) Network \<Rightarrow> 'e \<Rightarrow> 'n \<Rightarrow> ('e, 'n) Network" where
  "Connect rn e servername = rn\<lparr>connections := (connections rn)(e := Some servername)\<rparr>"

definition Enable :: "('e, 'n) Network \<Rightarrow> 'e \<Rightarrow> bool \<Rightarrow> ('e, 'n) Network" where
  "Enable rn e yes = rn\<lparr>enabled := (enabled rn)(e := yes)\<rparr>"

text \<open>The count of a missing server dereferences nil.\<close>

definition GetCount :: "(nat \<Rightarrow> ('a, 'w) Server) \<Rightarrow> ('e, 'n) Network \<Rightarrow> 'n \<Rightarrow> int option" where
  "GetCount store rn servername =
     (case servers rn servername of None \<Rightarrow> None | Some p \<Rightarrow> Some (ServerGetCount (store p)))"

definition GetTotalCount :: "('e, 'n) Network \<Rightarrow> int" where
  "GetTotalCount rn = sint (netCount rn)"

definition GetTotalBytes :: "('e, 'n) Network \<Rightarrow> int" where
  "GetTotalBytes rn = sint (netBytes rn)"

section \<open>A request on its way\<close>

text \<open>The servers behind the pointers, and what their methods read and change.\<close>

record ('a, 'w) Hosts =
  hosts :: "nat \<Rightarrow> ('a, 'w) Server"
  world :: 'w

text \<open>What happens while a request is on its way: the goroutine of the handler runs \<^verbatim>\<open>dispatch\<close>, the waiting loop takes the
  answer from the channel \<^verbatim>\<open>ech\<close>, it looks at the network after 100 milliseconds, or others change the servers and what they
  share.\<close>

datatype ('e, 'n, 'a, 'w) Moment = HandlerRuns | TakeAnswer | Poll "('e, 'n) Network" | Others "('a, 'w) Hosts \<Rightarrow> ('a, 'w) Hosts"

text \<open>What others do in the meantime.\<close>

fun elapse :: "('e, 'n, 'a, 'w) Moment list \<Rightarrow> ('a, 'w) Hosts \<Rightarrow> ('a, 'w) Hosts" where
  "elapse [] st = st"
| "elapse (Others f # ms) st = elapse ms (f st)"
| "elapse (_ # ms) st = elapse ms st"

text \<open>The goroutine of the handler; \<open>ech\<close> is the answer it holds for the channel once \<^verbatim>\<open>dispatch\<close> has returned, and it ends
  there.\<close>

definition runHandler ::
  "'a codec \<Rightarrow> 'e reqMsg \<Rightarrow> nat \<Rightarrow> ('a, 'w) Hosts \<Rightarrow> replyMsg option \<Rightarrow> (('a, 'w) Hosts \<times> replyMsg option) Run" where
  "runHandler cdc req server st ech =
     (case ech of
        Some r \<Rightarrow> Ret (st, ech)
      | None \<Rightarrow>
          (case serverDispatch cdc (hosts st server) req (world st) of
             Ret (rs, w, r) \<Rightarrow> Ret (st\<lparr>hosts := (hosts st)(server := rs), world := w\<rparr>, Some r)
           | Panic \<Rightarrow> Panic
           | Blocked \<Rightarrow> Blocked))"

text \<open>After the loop the handler may still run: its answer is drained and dropped.\<close>

fun drain :: "'a codec \<Rightarrow> 'e reqMsg \<Rightarrow> nat \<Rightarrow> ('e, 'n, 'a, 'w) Moment list \<Rightarrow> ('a, 'w) Hosts \<Rightarrow> replyMsg option \<Rightarrow> ('a, 'w) Hosts Run" where
  "drain cdc req server [] st ech = Ret st"
| "drain cdc req server (HandlerRuns # ms) st ech =
     (case runHandler cdc req server st ech of
        Ret (st, ech) \<Rightarrow> drain cdc req server ms st ech
      | Panic \<Rightarrow> Panic
      | Blocked \<Rightarrow> Blocked)"
| "drain cdc req server (Others f # ms) st ech = drain cdc req server ms (f st) ech"
| "drain cdc req server (_ # ms) st ech = drain cdc req server ms st ech"

text \<open>The waiting loop: the answer, or a server found dead, or neither yet, and the servers after all moments.\<close>

datatype Waited = Waiting | Replied replyMsg | ServerDead

fun awaitReply ::
  "'a codec \<Rightarrow> 'e reqMsg \<Rightarrow> 'n \<Rightarrow> nat \<Rightarrow> ('e, 'n, 'a, 'w) Moment list \<Rightarrow> ('a, 'w) Hosts \<Rightarrow> replyMsg option \<Rightarrow> (('a, 'w) Hosts \<times> Waited) Run" where
  "awaitReply cdc req servername server [] st ech = Ret (st, Waiting)"
| "awaitReply cdc req servername server (HandlerRuns # ms) st ech =
     (case runHandler cdc req server st ech of
        Ret (st, ech) \<Rightarrow> awaitReply cdc req servername server ms st ech
      | Panic \<Rightarrow> Panic
      | Blocked \<Rightarrow> Blocked)"
| "awaitReply cdc req servername server (TakeAnswer # ms) st ech =
     (case ech of
        Some r \<Rightarrow>
          (case drain cdc req server ms st ech of
             Ret st \<Rightarrow> Ret (st, Replied r)
           | Panic \<Rightarrow> Panic
           | Blocked \<Rightarrow> Blocked)
      | None \<Rightarrow> awaitReply cdc req servername server ms st ech)"
| "awaitReply cdc req servername server (Poll rn # ms) st ech =
     (if isServerDead rn (endname req) servername server then
        (case drain cdc req server ms st ech of
           Ret st \<Rightarrow> Ret (st, ServerDead)
         | Panic \<Rightarrow> Panic
         | Blocked \<Rightarrow> Blocked)
      else awaitReply cdc req servername server ms st ech)"
| "awaitReply cdc req servername server (Others f # ms) st ech = awaitReply cdc req servername server ms (f st) ech"

text \<open>Non-negative random numbers, one per use.\<close>

record Dice =
  diceShort :: nat
  diceRequest :: nat
  diceReply :: nat
  diceOrder :: nat
  diceDelay1 :: nat
  diceDelay2 :: nat
  diceFail :: nat

text \<open>A reply that is sent after a number of milliseconds.\<close>

datatype Delivery = Deliver nat replyMsg

definition failed :: replyMsg where
  "failed = \<lparr>ok = False, reply = []\<rparr>"

text \<open>Whether the request reaches the server, which then runs the handler.\<close>

definition reaches :: "('e, 'n) Network \<Rightarrow> 'e reqMsg \<Rightarrow> Dice \<Rightarrow> ('n \<times> nat) option" where
  "reaches rn req dice =
     (let (en, servername, server, rel, longre) = readEndnameInfo rn (endname req) in
      case (servername, server) of
        (Some n, Some p) \<Rightarrow>
          if en then if rel = False \<and> diceRequest dice mod 1000 < 100 then None else Some (n, p) else None
      | _ \<Rightarrow> None)"

text \<open>The goroutine as a whole, with the network at its start, the moments of its waiting loop and
  the network at its end: the servers afterwards and, once there is a reply, its delivery and what it adds to the bytes sent.\<close>

definition processReq ::
  "'a codec \<Rightarrow> ('e, 'n) Network \<Rightarrow> 'e reqMsg \<Rightarrow> Dice \<Rightarrow> ('e, 'n, 'a, 'w) Moment list \<Rightarrow> ('e, 'n) Network \<Rightarrow> ('a, 'w) Hosts \<Rightarrow>
   (('a, 'w) Hosts \<times> (Delivery \<times> nat) option) Run" where
  "processReq cdc rn req dice moments rnEnd st =
     (let (en, servername, server, rel, longre) = readEndnameInfo rn (endname req) in
      case (servername, server) of
        (Some n, Some p) \<Rightarrow>
          if en then
            let short = (if rel = False then diceShort dice mod 27 else 0) in
            if rel = False \<and> diceRequest dice mod 1000 < 100 then Ret (elapse moments st, Some (Deliver short failed, 0))
            else
              (case awaitReply cdc req n p moments st None of
                 Panic \<Rightarrow> Panic
               | Blocked \<Rightarrow> Blocked
               | Ret (st, waited) \<Rightarrow>
                   let serverDead = isServerDead rnEnd (endname req) n p in
                   (case waited of
                      Waiting \<Rightarrow> Ret (st, None)
                    | ServerDead \<Rightarrow> Ret (st, Some (Deliver short failed, 0))
                    | Replied r \<Rightarrow>
                        if serverDead then Ret (st, Some (Deliver short failed, 0))
                        else if rel = False \<and> diceReply dice mod 1000 < 100 then Ret (st, Some (Deliver short failed, 0))
                        else if longre \<and> diceOrder dice mod 900 < 600 then
                          let ms = 200 + diceDelay2 dice mod (1 + diceDelay1 dice mod 2000)
                          in Ret (st, Some (Deliver (short + ms) r, length (reply r)))
                        else Ret (st, Some (Deliver short r, length (reply r)))))
          else Ret (elapse moments st, Some (Deliver (if longDelays rn then diceFail dice mod 7000 else diceFail dice mod 100) failed, 0))
      | _ \<Rightarrow> Ret (elapse moments st, Some (Deliver (if longDelays rn then diceFail dice mod 7000 else diceFail dice mod 100) failed, 0)))"

section \<open>Calls\<close>

definition callRequest :: "'a codec \<Rightarrow> 'e ClientEnd \<Rightarrow> string \<Rightarrow> 'a \<Rightarrow> 'e reqMsg option" where
  "callRequest cdc e meth a =
     (case encode cdc a of
        None \<Rightarrow> None
      | Some b \<Rightarrow> Some \<lparr>endname = ceName e, svcMeth = meth, argsType = typeName cdc a, args = b\<rparr>)"

definition callReply :: "'a codec \<Rightarrow> replyMsg \<Rightarrow> 'a option Run" where
  "callReply cdc rep =
     (if ok rep then (case decode cdc (reply rep) of Some v \<Rightarrow> Ret (Some v) | None \<Rightarrow> Panic) else Ret None)"

text \<open>A call as a whole: the request is encoded (an error panics), handed to the network unless that
  has been cleaned up, and the reply decoded.  \<open>Some None\<close> is the result false, \<open>None\<close>: no reply yet.\<close>

definition ClientCall ::
  "'a codec \<Rightarrow> 'e ClientEnd \<Rightarrow> ('e, 'n) Network \<Rightarrow> string \<Rightarrow> 'a \<Rightarrow> Dice \<Rightarrow> ('e, 'n, 'a, 'w) Moment list \<Rightarrow> ('e, 'n) Network \<Rightarrow> ('a, 'w) Hosts \<Rightarrow>
   (('a, 'w) Hosts \<times> 'a option option) Run" where
  "ClientCall cdc e rn meth a dice moments rnEnd st =
     (case callRequest cdc e meth a of
        None \<Rightarrow> Panic
      | Some req \<Rightarrow>
          if doneClosed rn then Ret (elapse moments st, Some None)
          else
            (case processReq cdc (netReceive rn req) req dice moments rnEnd st of
               Panic \<Rightarrow> Panic
             | Blocked \<Rightarrow> Blocked
             | Ret (st, None) \<Rightarrow> Ret (st, None)
             | Ret (st, Some (Deliver ms rep, sent)) \<Rightarrow>
                 (case callReply cdc rep of
                    Ret v \<Rightarrow> Ret (st, Some v)
                  | Panic \<Rightarrow> Panic
                  | Blocked \<Rightarrow> Blocked)))"

end
