(* ===== verification/RaftConfig.thy ===== *)
theory RaftConfig
  imports RaftNode LabRpc
begin

text \<open>
  The test harness of Raft, \<^verbatim>\<open>src/raft/config.go\<close>: it starts, crashes and restarts peers on the
  simulated network, cuts and restores their connections, records what each peer delivers
  and checks it.  \<^term>\<open>None\<close> is a panic or a failed test (\<^verbatim>\<open>t.Fatalf\<close>, \<^verbatim>\<open>log.Fatalf\<close>).

  \<^verbatim>\<open>cfg.saved[i]\<close> points to the persister that the running peer \<open>i\<close> writes to, so its content is read off the
  peer while there is one.  Random names are arguments.  A check that takes a while reads the
  peers and the recorded logs at several moments: its argument is the list of what it reads.
\<close>

section \<open>The state\<close>

text \<open>What a snapshot of the tester holds, value by value.\<close>

datatype 'c testSnap = SnapIndex int | SnapLog "'c option list"

text \<open>What can be wrong with a delivered message; the empty string is no error.\<close>

datatype 'c ApplyError =
    CommitMismatch int int "'c option" int "'c option"
  | ApplyOutOfOrder int int
  | UnexpectedIndex int int int
  | SnapshotIndexMismatch int

record 'c config =
  finished :: bool
  cfgNet :: "(string, int) Network"
  cfgN :: nat
  rafts :: "('c, 'c testSnap) Raft option list"
  applyErr :: "'c ApplyError option list"
  connected :: "bool list"
  saved :: "('c gobValue, 'c testSnap) Persister option list"
  endnames :: "string list option list"
  logs :: "(int \<rightharpoonup> 'c option) list"
  cfgLastApplied :: "int list"
  rpcs0 :: int
  cmds0 :: int
  bytes0 :: int
  maxIndex :: int
  maxIndex0 :: int

text \<open>A row of names that was not allocated yet is nil, and indexing it panics.\<close>

definition endAt :: "'c config \<Rightarrow> int \<Rightarrow> int \<Rightarrow> string option" where
  "endAt cfg i j = do {
     row \<leftarrow> go_index (endnames cfg) i;
     row \<leftarrow> row;
     go_index row j
   }"

definition enableEnd :: "'c config \<Rightarrow> string \<Rightarrow> bool \<Rightarrow> 'c config" where
  "enableEnd cfg e yes = cfg\<lparr>cfgNet := Enable (cfgNet cfg) e yes\<rparr>"

section \<open>Connections\<close>

text \<open>
  The loops over the other peers: \<open>pick\<close> gives the name of the end to switch on or off, if any, or
  panics.
\<close>

fun eachEnd :: "('c config \<Rightarrow> int \<Rightarrow> string option option) \<Rightarrow> bool \<Rightarrow> 'c config \<Rightarrow> int list \<Rightarrow> 'c config option" where
  "eachEnd pick yes cfg [] = Some cfg"
| "eachEnd pick yes cfg (j # js) = do {
     e \<leftarrow> pick cfg j;
     eachEnd pick yes (case e of None \<Rightarrow> cfg | Some e \<Rightarrow> enableEnd cfg e yes) js
   }"

text \<open>Outgoing and incoming ends to connected peers.\<close>

definition outToConnected :: "int \<Rightarrow> 'c config \<Rightarrow> int \<Rightarrow> string option option" where
  "outToConnected i cfg j = do {
     c \<leftarrow> go_index (connected cfg) j;
     if c then map_option Some (endAt cfg i j) else Some None
   }"

definition inFromConnected :: "int \<Rightarrow> 'c config \<Rightarrow> int \<Rightarrow> string option option" where
  "inFromConnected i cfg j = do {
     c \<leftarrow> go_index (connected cfg) j;
     if c then map_option Some (endAt cfg j i) else Some None
   }"

definition connect :: "'c config \<Rightarrow> int \<Rightarrow> 'c config option" where
  "connect cfg i = do {
     con \<leftarrow> go_set (connected cfg) i True;
     let cfg = cfg\<lparr>connected := con\<rparr>;
     cfg \<leftarrow> eachEnd (outToConnected i) True cfg (map int [0..<cfgN cfg]);
     eachEnd (inFromConnected i) True cfg (map int [0..<cfgN cfg])
   }"

text \<open>Outgoing and incoming ends that have been allocated.\<close>

definition outAllocated :: "int \<Rightarrow> 'c config \<Rightarrow> int \<Rightarrow> string option option" where
  "outAllocated i cfg j = do {
     row \<leftarrow> go_index (endnames cfg) i;
     case row of None \<Rightarrow> Some None | Some row \<Rightarrow> map_option Some (go_index row j)
   }"

definition inAllocated :: "int \<Rightarrow> 'c config \<Rightarrow> int \<Rightarrow> string option option" where
  "inAllocated i cfg j = do {
     row \<leftarrow> go_index (endnames cfg) j;
     case row of None \<Rightarrow> Some None | Some row \<Rightarrow> map_option Some (go_index row i)
   }"

definition disconnect :: "'c config \<Rightarrow> int \<Rightarrow> 'c config option" where
  "disconnect cfg i = do {
     con \<leftarrow> go_set (connected cfg) i False;
     let cfg = cfg\<lparr>connected := con\<rparr>;
     cfg \<leftarrow> eachEnd (outAllocated i) False cfg (map int [0..<cfgN cfg]);
     eachEnd (inAllocated i) False cfg (map int [0..<cfgN cfg])
   }"

section \<open>What the peers deliver\<close>

definition lookupLog :: "(int \<rightharpoonup> 'c option) \<Rightarrow> int \<Rightarrow> 'c option" where
  "lookupLog log k = (case log k of None \<Rightarrow> None | Some v \<Rightarrow> v)"

text \<open>The loop over all recorded logs: the last disagreement is the one reported.\<close>

fun findMismatch ::
  "int \<Rightarrow> ('c, 'b) ApplyMsg \<Rightarrow> int \<Rightarrow> (int \<rightharpoonup> 'c option) list \<Rightarrow> 'c ApplyError option \<Rightarrow> 'c ApplyError option" where
  "findMismatch i m j [] err = err"
| "findMismatch i m j (log # rest) err =
     findMismatch i m (j + 1) rest
       (case log (CommandIndex m) of
          Some old \<Rightarrow> if old \<noteq> amCommand m then Some (CommitMismatch (CommandIndex m) i (amCommand m) j old) else err
        | None \<Rightarrow> err)"

definition checkLogs ::
  "'c config \<Rightarrow> int \<Rightarrow> ('c, 'c testSnap) ApplyMsg \<Rightarrow> ('c config \<times> 'c ApplyError option \<times> bool) option" where
  "checkLogs cfg i m = do {
     let err = findMismatch i m 0 (logs cfg) None;
     own \<leftarrow> go_index (logs cfg) i;
     let prevok = (own (CommandIndex m - 1) \<noteq> None);
     logs' \<leftarrow> go_set (logs cfg) i (own(CommandIndex m \<mapsto> amCommand m));
     let cfg = cfg\<lparr>logs := logs',
                   maxIndex := (if CommandIndex m > maxIndex cfg then CommandIndex m else maxIndex cfg)\<rparr>;
     Some (cfg, err, prevok)
   }"

text \<open>One turn of the loop of \<^verbatim>\<open>applier\<close>.\<close>

definition readerStep :: "'c config \<Rightarrow> int \<Rightarrow> ('c, 'c testSnap) ApplyMsg \<Rightarrow> 'c config option" where
  "readerStep cfg i m =
     (if CommandValid m = False then Some cfg
      else do {
        (cfg, err, prevok) \<leftarrow> checkLogs cfg i m;
        let err = (if CommandIndex m > 1 \<and> prevok = False then Some (ApplyOutOfOrder i (CommandIndex m)) else err);
        if err \<noteq> None then None else Some cfg
      })"

section \<open>Snapshots\<close>

text \<open>The loop that fills a log from the entries of a snapshot.\<close>

fun fillLog :: "int \<Rightarrow> 'c option list \<Rightarrow> (int \<rightharpoonup> 'c option) \<Rightarrow> (int \<rightharpoonup> 'c option)" where
  "fillLog j [] log = log"
| "fillLog j (x # xs) log = fillLog (j + 1) xs (log(j \<mapsto> x))"

text \<open>A snapshot that does not decode fails the test; one for another index is reported.\<close>

definition ingestSnap ::
  "'c config \<Rightarrow> int \<Rightarrow> 'c testSnap list \<Rightarrow> int \<Rightarrow> ('c config \<times> 'c ApplyError option) option" where
  "ingestSnap cfg i snap index =
     (case snap of
        SnapIndex lastIncludedIndex # SnapLog xlog # rest \<Rightarrow>
          if index \<noteq> -1 \<and> index \<noteq> lastIncludedIndex then Some (cfg, Some (SnapshotIndexMismatch i))
          else do {
            logs' \<leftarrow> go_set (logs cfg) i (fillLog 0 xlog Map.empty);
            la \<leftarrow> go_set (cfgLastApplied cfg) i lastIncludedIndex;
            Some (cfg\<lparr>logs := logs', cfgLastApplied := la\<rparr>, None)
          }
      | _ \<Rightarrow> None)"

definition SnapShotInterval :: int where
  "SnapShotInterval = 10"

definition encodeTestSnap :: "(int \<rightharpoonup> 'c option) \<Rightarrow> int \<Rightarrow> 'c testSnap list" where
  "encodeTestSnap log index = [SnapIndex index, SnapLog (map (lookupLog log) (map int [0..<nat (index + 1)]))]"

text \<open>One turn of the loop of \<^verbatim>\<open>applierSnap\<close>, with the peer that was started with it.\<close>

definition readerSnapStep ::
  "'c config \<Rightarrow> ('c, 'c testSnap) Raft \<Rightarrow> int \<Rightarrow> ('c, 'c testSnap) ApplyMsg \<Rightarrow>
   ('c config \<times> ('c, 'c testSnap) Raft) option" where
  "readerSnapStep cfg rf i m =
     (if SnapshotValid m
      then do {
        (cfg, err) \<leftarrow> ingestSnap cfg i (amSnapshot m) (SnapshotIndex m);
        if err \<noteq> None then None else Some (cfg, rf)
      }
      else if CommandValid m
      then do {
        la \<leftarrow> go_index (cfgLastApplied cfg) i;
        let err = (if CommandIndex m \<noteq> la + 1 then Some (UnexpectedIndex i (la + 1) (CommandIndex m)) else None);
        (cfg, err) \<leftarrow>
          (if err = None
           then do {
             (cfg, err, prevok) \<leftarrow> checkLogs cfg i m;
             Some (cfg, if CommandIndex m > 1 \<and> prevok = False then Some (ApplyOutOfOrder i (CommandIndex m)) else err)
           }
           else Some (cfg, err));
        la' \<leftarrow> go_set (cfgLastApplied cfg) i (CommandIndex m);
        let cfg = cfg\<lparr>cfgLastApplied := la'\<rparr>;
        rf \<leftarrow> (if (CommandIndex m + 1) mod SnapShotInterval = 0
              then do {
                own \<leftarrow> go_index (logs cfg) i;
                Snapshot rf (CommandIndex m) (encodeTestSnap own (CommandIndex m))
              }
              else Some rf);
        if err \<noteq> None then None else Some (cfg, rf)
      }
      else Some (cfg, rf))"

section \<open>Starting and crashing peers\<close>

text \<open>The content of \<^verbatim>\<open>cfg.saved[i]\<close>: that of the running peer's persister, if there is one.\<close>

definition savedAt :: "'c config \<Rightarrow> int \<Rightarrow> ('c gobValue, 'c testSnap) Persister option option" where
  "savedAt cfg i = do {
     sv \<leftarrow> go_index (saved cfg) i;
     rf \<leftarrow> go_index (rafts cfg) i;
     Some (case sv of None \<Rightarrow> None | Some p \<Rightarrow> (case rf of None \<Rightarrow> Some p | Some rf \<Rightarrow> Some (persister rf)))
   }"

text \<open>The killed peer is the second result: it is no longer the harness's, but it goes on.\<close>

definition crash1 :: "'c config \<Rightarrow> int \<Rightarrow> ('c config \<times> ('c, 'c testSnap) Raft option) option" where
  "crash1 cfg i = do {
     cfg \<leftarrow> disconnect cfg i;
     let cfg = cfg\<lparr>cfgNet := DeleteServer (cfgNet cfg) i\<rparr>;
     sv \<leftarrow> savedAt cfg i;
     let sv = map_option Copy sv;
     rf \<leftarrow> go_index (rafts cfg) i;
     let killed = map_option Kill rf;
     rafts' \<leftarrow> go_set (rafts cfg) i None;
     let cfg = cfg\<lparr>rafts := rafts'\<rparr>;
     let sv = map_option (\<lambda>p. Save \<lparr>raftstate = [], snapshot = []\<rparr> (ReadRaftState p) (ReadSnapshot p)) sv;
     saved' \<leftarrow> go_set (saved cfg) i sv;
     Some (cfg\<lparr>saved := saved'\<rparr>, killed)
   }"

text \<open>The loop that makes the ends of a peer; a name that is taken fails the test.\<close>

fun makeEnds :: "'c config \<Rightarrow> int \<Rightarrow> string list \<Rightarrow> 'c config option" where
  "makeEnds cfg j [] = Some cfg"
| "makeEnds cfg j (e # es) =
     (case MakeEnd (cfgNet cfg) e of
        Ret (rn, ce) \<Rightarrow> makeEnds (cfg\<lparr>cfgNet := Connect rn e j\<rparr>) (j + 1) es
      | _ \<Rightarrow> None)"

text \<open>\<open>names\<close> are the random names of the outgoing ends, \<open>srv\<close> the new server object.\<close>

definition start1 ::
  "'c config \<Rightarrow> int \<Rightarrow> string list \<Rightarrow> nat \<Rightarrow> ('c config \<times> ('c, 'c testSnap) Raft option) option" where
  "start1 cfg i names srv = do {
     (cfg, killed) \<leftarrow> crash1 cfg i;
     endnames' \<leftarrow> go_set (endnames cfg) i (Some names);
     let cfg = cfg\<lparr>endnames := endnames'\<rparr>;
     cfg \<leftarrow> makeEnds cfg 0 names;
     la \<leftarrow> go_set (cfgLastApplied cfg) i 0;
     let cfg = cfg\<lparr>cfgLastApplied := la\<rparr>;
     sv \<leftarrow> savedAt cfg i;
     (cfg, p) \<leftarrow>
       (case sv of
          None \<Rightarrow> Some (cfg, MakePersister)
        | Some p \<Rightarrow>
            let p = Copy p; snap = ReadSnapshot p in
            if length snap > 0
            then do {
              (cfg, err) \<leftarrow> ingestSnap cfg i snap (-1);
              if err \<noteq> None then None else Some (cfg, p)
            }
            else Some (cfg, p));
     saved' \<leftarrow> go_set (saved cfg) i (Some p);
     rf \<leftarrow> Make (cfgN cfg) i p;
     rafts' \<leftarrow> go_set (rafts cfg) i (Some rf);
     let cfg = cfg\<lparr>saved := saved', rafts := rafts', cfgNet := AddServer (cfgNet cfg) i srv\<rparr>;
     Some (cfg, killed)
   }"

definition setunreliable :: "'c config \<Rightarrow> bool \<Rightarrow> 'c config" where
  "setunreliable cfg unrel = cfg\<lparr>cfgNet := Reliable (cfgNet cfg) (\<not> unrel)\<rparr>"

definition setlongreordering :: "'c config \<Rightarrow> bool \<Rightarrow> 'c config" where
  "setlongreordering cfg longrel = cfg\<lparr>cfgNet := LongReordering (cfgNet cfg) longrel\<rparr>"

definition emptyConfig :: "nat \<Rightarrow> 'c config" where
  "emptyConfig n =
     \<lparr>finished = False, cfgNet = MakeNetwork, cfgN = n, rafts = replicate n None, applyErr = replicate n None,
      connected = replicate n False, saved = replicate n None, endnames = replicate n None,
      logs = replicate n Map.empty, cfgLastApplied = replicate n 0, rpcs0 = 0, cmds0 = 0, bytes0 = 0,
      maxIndex = 0, maxIndex0 = 0\<rparr>"

fun startAll :: "'c config \<Rightarrow> int \<Rightarrow> string list list \<Rightarrow> 'c config option" where
  "startAll cfg i [] = Some cfg"
| "startAll cfg i (names # rest) = do {
     logs' \<leftarrow> go_set (logs cfg) i Map.empty;
     (cfg, killed) \<leftarrow> start1 (cfg\<lparr>logs := logs'\<rparr>) i names (nat i);
     startAll cfg (i + 1) rest
   }"

fun connectAll :: "'c config \<Rightarrow> int list \<Rightarrow> 'c config option" where
  "connectAll cfg [] = Some cfg"
| "connectAll cfg (i # is) = do { cfg \<leftarrow> connect cfg i; connectAll cfg is }"

text \<open>\<open>names\<close> has a row of random names for each peer.\<close>

definition make_config :: "string list list \<Rightarrow> bool \<Rightarrow> 'c config option" where
  "make_config names unreliable = do {
     let cfg = setunreliable (emptyConfig (length names)) unreliable;
     let cfg = cfg\<lparr>cfgNet := LongDelays (cfgNet cfg) True\<rparr>;
     cfg \<leftarrow> startAll cfg 0 names;
     connectAll cfg (map int [0..<cfgN cfg])
   }"

definition checkFinished :: "'c config \<Rightarrow> bool" where
  "checkFinished cfg = finished cfg"

definition cleanup :: "'c config \<Rightarrow> 'c config option" where
  "cleanup cfg =
     (let cfg = cfg\<lparr>finished := True, rafts := map (map_option Kill) (rafts cfg)\<rparr> in
      case Cleanup (cfgNet cfg) of Ret rn \<Rightarrow> Some (cfg\<lparr>cfgNet := rn\<rparr>) | _ \<Rightarrow> None)"

definition rpcTotal :: "'c config \<Rightarrow> int" where
  "rpcTotal cfg = GetTotalCount (cfgNet cfg)"

definition bytesTotal :: "'c config \<Rightarrow> int" where
  "bytesTotal cfg = GetTotalBytes (cfgNet cfg)"

definition beginTest :: "'c config \<Rightarrow> 'c config" where
  "beginTest cfg = cfg\<lparr>rpcs0 := rpcTotal cfg, bytes0 := bytesTotal cfg, cmds0 := 0, maxIndex0 := maxIndex cfg\<rparr>"

text \<open>The numbers that \<^verbatim>\<open>end\<close> prints: peers, RPCs, bytes and agreements.\<close>

definition endTest :: "'c config \<Rightarrow> nat \<times> int \<times> int \<times> int" where
  "endTest cfg = (cfgN cfg, rpcTotal cfg - rpcs0 cfg, bytesTotal cfg - bytes0 cfg, maxIndex cfg - maxIndex0 cfg)"

fun logSizeLoop :: "('c gobValue \<Rightarrow> nat) \<Rightarrow> 'c config \<Rightarrow> int list \<Rightarrow> int \<Rightarrow> int option" where
  "logSizeLoop sz cfg [] logsize = Some logsize"
| "logSizeLoop sz cfg (i # is) logsize = do {
     sv \<leftarrow> savedAt cfg i;
     p \<leftarrow> sv;
     let n = PersisterRaftStateSize sz p;
     logSizeLoop sz cfg is (if n > logsize then n else logsize)
   }"

definition LogSize :: "('c gobValue \<Rightarrow> nat) \<Rightarrow> 'c config \<Rightarrow> int option" where
  "LogSize sz cfg = logSizeLoop sz cfg (map int [0..<cfgN cfg]) 0"

section \<open>Checks\<close>

text \<open>
  \<open>peers\<close> are the peers as one pass of a check reads them, each at its own moment.  A peer that is nil
  panics when it is asked.
\<close>

type_synonym 'c Reading = "('c, 'c testSnap) Raft option list"

definition askPeer :: "'c Reading \<Rightarrow> int \<Rightarrow> (int \<times> bool) option" where
  "askPeer ps i = do { rf \<leftarrow> go_index ps i; rf \<leftarrow> rf; Some (GetState rf) }"

text \<open>\<^verbatim>\<open>leaders[term] = append(leaders[term], i)\<close>, with the terms in the order in which they come up.\<close>

fun addLeader :: "int \<Rightarrow> int \<Rightarrow> (int \<times> int list) list \<Rightarrow> (int \<times> int list) list" where
  "addLeader term i [] = [(term, [i])]"
| "addLeader term i ((t, is) # rest) =
     (if t = term then (t, is @ [i]) # rest else (t, is) # addLeader term i rest)"

fun collectLeaders ::
  "'c config \<Rightarrow> 'c Reading \<Rightarrow> int list \<Rightarrow> (int \<times> int list) list \<Rightarrow> (int \<times> int list) list option" where
  "collectLeaders cfg ps [] leaders = Some leaders"
| "collectLeaders cfg ps (i # is) leaders = do {
     c \<leftarrow> go_index (connected cfg) i;
     leaders \<leftarrow> (if c
                 then do { (term, leader) \<leftarrow> askPeer ps i; Some (if leader then addLeader term i leaders else leaders) }
                 else Some leaders);
     collectLeaders cfg ps is leaders
   }"

text \<open>The loop over the map: two leaders in a term fail the test; the result is the largest term.\<close>

fun largestTerm :: "(int \<times> int list) list \<Rightarrow> int \<Rightarrow> int option" where
  "largestTerm [] lastTerm = Some lastTerm"
| "largestTerm ((term, is) # rest) lastTerm =
     (if length is > 1 then None else largestTerm rest (if term > lastTerm then term else lastTerm))"

text \<open>One pass, and up to ten of them.\<close>

definition leaderPass :: "'c config \<Rightarrow> 'c Reading \<Rightarrow> int option option" where
  "leaderPass cfg ps = do {
     leaders \<leftarrow> collectLeaders cfg ps (map int [0..<cfgN cfg]) [];
     lastTerm \<leftarrow> largestTerm leaders (-1);
     if leaders \<noteq> []
     then do { is \<leftarrow> map_of leaders lastTerm; i \<leftarrow> go_index is 0; Some (Some i) }
     else Some None
   }"

fun leaderLoop :: "'c config \<Rightarrow> 'c Reading list \<Rightarrow> int option" where
  "leaderLoop cfg [] = None"
| "leaderLoop cfg (ps # rest) = do {
     found \<leftarrow> leaderPass cfg ps;
     case found of Some i \<Rightarrow> Some i | None \<Rightarrow> leaderLoop cfg rest
   }"

definition checkOneLeader :: "'c config \<Rightarrow> 'c Reading list \<Rightarrow> int option" where
  "checkOneLeader cfg readings = leaderLoop cfg (take 10 readings)"

fun termsLoop :: "'c config \<Rightarrow> 'c Reading \<Rightarrow> int list \<Rightarrow> int \<Rightarrow> int option" where
  "termsLoop cfg ps [] term = Some term"
| "termsLoop cfg ps (i # is) term = do {
     c \<leftarrow> go_index (connected cfg) i;
     if c
     then do {
       (xterm, leader) \<leftarrow> askPeer ps i;
       if term = -1 then termsLoop cfg ps is xterm
       else if term \<noteq> xterm then None
       else termsLoop cfg ps is term
     }
     else termsLoop cfg ps is term
   }"

definition checkTerms :: "'c config \<Rightarrow> 'c Reading \<Rightarrow> int option" where
  "checkTerms cfg ps = termsLoop cfg ps (map int [0..<cfgN cfg]) (-1)"

fun noLeaderLoop :: "'c config \<Rightarrow> 'c Reading \<Rightarrow> int list \<Rightarrow> unit option" where
  "noLeaderLoop cfg ps [] = Some ()"
| "noLeaderLoop cfg ps (i # is) = do {
     c \<leftarrow> go_index (connected cfg) i;
     if c
     then do { (term, is_leader) \<leftarrow> askPeer ps i; if is_leader then None else noLeaderLoop cfg ps is }
     else noLeaderLoop cfg ps is
   }"

definition checkNoLeader :: "'c config \<Rightarrow> 'c Reading \<Rightarrow> unit option" where
  "checkNoLeader cfg ps = noLeaderLoop cfg ps (map int [0..<cfgN cfg])"

fun committedLoop :: "'c config \<Rightarrow> int \<Rightarrow> int list \<Rightarrow> int \<Rightarrow> 'c option \<Rightarrow> (int \<times> 'c option) option" where
  "committedLoop cfg index [] count cmd = Some (count, cmd)"
| "committedLoop cfg index (i # is) count cmd = do {
     err \<leftarrow> go_index (applyErr cfg) i;
     if err \<noteq> None then None
     else do {
       log \<leftarrow> go_index (logs cfg) i;
       case log index of
         Some cmd1 \<Rightarrow>
           if count > 0 \<and> cmd \<noteq> cmd1 then None else committedLoop cfg index is (count + 1) cmd1
       | None \<Rightarrow> committedLoop cfg index is count cmd
     }
   }"

definition nCommitted :: "'c config \<Rightarrow> int \<Rightarrow> (int \<times> 'c option) option" where
  "nCommitted cfg index = committedLoop cfg index (go_range (rafts cfg)) 0 None"

text \<open>
  \<^verbatim>\<open>wait\<close>: a turn looks at the recorded logs, sleeps, and looks at the peers; after the last turn it
  looks at the logs once more.  The result \<^verbatim>\<open>-1\<close> is \<open>MovedOn\<close>.
\<close>

datatype 'c WaitResult = MovedOn | Decided "'c option"

fun movedOn :: "'c Reading \<Rightarrow> int \<Rightarrow> bool option" where
  "movedOn [] startTerm = Some False"
| "movedOn (r # rs) startTerm = do { rf \<leftarrow> r; if fst (GetState rf) > startTerm then Some True else movedOn rs startTerm }"

fun waitLoop :: "('c config \<times> 'c Reading) list \<Rightarrow> int \<Rightarrow> int \<Rightarrow> int \<Rightarrow> bool option" where
  "waitLoop [] index n startTerm = Some False"
| "waitLoop ((cfg, ps) # turns) index n startTerm = do {
     (nd, cmd) \<leftarrow> nCommitted cfg index;
     if nd \<ge> n then Some False
     else do {
       moved \<leftarrow> (if startTerm > -1 then movedOn ps startTerm else Some False);
       if moved then Some True else waitLoop turns index n startTerm
     }
   }"

definition wait :: "('c config \<times> 'c Reading) list \<Rightarrow> 'c config \<Rightarrow> int \<Rightarrow> int \<Rightarrow> int \<Rightarrow> 'c WaitResult option" where
  "wait turns cfg index n startTerm = do {
     moved \<leftarrow> waitLoop (take 30 turns) index n startTerm;
     if moved then Some MovedOn
     else do {
       (nd, cmd) \<leftarrow> nCommitted cfg index;
       if nd < n then None else Some (Decided cmd)
     }
   }"

text \<open>
  \<^verbatim>\<open>one\<close>: a round asks the peers in turn to start the command, each at its own moment, and, when one has,
  polls the recorded logs for two seconds.  The rounds are those of ten seconds.
\<close>

record 'c Round =
  tries :: "'c config list"
  polls :: "'c config list"

fun tryStart :: "'c config list \<Rightarrow> int \<Rightarrow> nat \<Rightarrow> 'c option \<Rightarrow> (int \<times> int) option" where
  "tryStart [] starts n cmd = Some (starts, -1)"
| "tryStart (cfg # moments) starts n cmd = do {
     let starts = (starts + 1) mod int n;
     c \<leftarrow> go_index (connected cfg) starts;
     rf \<leftarrow> (if c then go_index (rafts cfg) starts else Some None);
     case rf of
       None \<Rightarrow> tryStart moments starts n cmd
     | Some rf \<Rightarrow> do {
         (rf', signalled, index1, term, ok) \<leftarrow> Start rf cmd;
         if ok then Some (starts, index1) else tryStart moments starts n cmd
       }
   }"

fun pollCommitted :: "'c config list \<Rightarrow> int \<Rightarrow> int \<Rightarrow> 'c option \<Rightarrow> bool option" where
  "pollCommitted [] index expectedServers cmd = Some False"
| "pollCommitted (cfg # moments) index expectedServers cmd = do {
     (nd, cmd1) \<leftarrow> nCommitted cfg index;
     if nd > 0 \<and> nd \<ge> expectedServers \<and> cmd1 = cmd then Some True
     else pollCommitted moments index expectedServers cmd
   }"

fun oneLoop :: "'c Round list \<Rightarrow> bool \<Rightarrow> int \<Rightarrow> nat \<Rightarrow> 'c option \<Rightarrow> int \<Rightarrow> bool \<Rightarrow> int option" where
  "oneLoop [] fin starts n cmd expectedServers retry = (if fin = False then None else Some (-1))"
| "oneLoop (r # rs) fin starts n cmd expectedServers retry = do {
     (starts, index) \<leftarrow> tryStart (take n (tries r)) starts n cmd;
     if index \<noteq> -1
     then do {
       agreed \<leftarrow> pollCommitted (polls r) index expectedServers cmd;
       if agreed then Some index
       else if retry = False then None
       else oneLoop rs fin starts n cmd expectedServers retry
     }
     else oneLoop rs fin starts n cmd expectedServers retry
   }"

text \<open>\<open>fin\<close> says whether the test was over when the rounds were.\<close>

definition oneCommand :: "'c Round list \<Rightarrow> bool \<Rightarrow> nat \<Rightarrow> 'c option \<Rightarrow> int \<Rightarrow> bool \<Rightarrow> int option" where
  "oneCommand rounds fin n cmd expectedServers retry = oneLoop rounds fin 0 n cmd expectedServers retry"

end
