(* ===== verification/RaftConfigNet.thy ===== *)
theory RaftConfigNet
  imports RaftConfig
begin

text \<open>
  The connections that the harness keeps: in every configuration that its operations make, the end from
  one peer to another is switched on exactly while both are connected, and leads to that peer.
\<close>

section \<open>The loops over the peers\<close>

definition switch :: "'c config \<Rightarrow> (string \<Rightarrow> bool) \<Rightarrow> 'c config" where
  "switch cfg f = cfg\<lparr>cfgNet := (cfgNet cfg)\<lparr>enabled := f\<rparr>\<rparr>"

lemma switch_simps [simp]:
  "connected (switch cfg f) = connected cfg" "endnames (switch cfg f) = endnames cfg" "cfgN (switch cfg f) = cfgN cfg"
  "rafts (switch cfg f) = rafts cfg" "saved (switch cfg f) = saved cfg" "logs (switch cfg f) = logs cfg"
  "cfgLastApplied (switch cfg f) = cfgLastApplied cfg"
  "enabled (cfgNet (switch cfg f)) = f" "ends (cfgNet (switch cfg f)) = ends (cfgNet cfg)"
  "connections (cfgNet (switch cfg f)) = connections (cfgNet cfg)" "servers (cfgNet (switch cfg f)) = servers (cfgNet cfg)"
  "switch (switch cfg f) g = switch cfg g" "endAt (switch cfg f) = endAt cfg"
  by (simp_all add: switch_def endAt_def fun_eq_iff)

lemma enableEnd_switch: "enableEnd cfg e b = switch cfg ((enabled (cfgNet cfg))(e := b))"
  by (simp add: enableEnd_def switch_def Enable_def)

lemma switch_self [simp]: "switch cfg (enabled (cfgNet cfg)) = cfg"
  by (simp add: switch_def)

lemma eachEnd_effect:
  assumes "eachEnd pick b cfg js = Some cfg'" "\<And>cfg f. pick (switch cfg f) = pick cfg"
  shows "cfg' = switch cfg (\<lambda>e. if \<exists>j \<in> set js. pick cfg j = Some (Some e) then b else enabled (cfgNet cfg) e)"
  using assms(1)
proof (induction js arbitrary: cfg)
  case (Cons j js)
  then obtain x where x: "pick cfg j = Some x" by (cases "pick cfg j") auto
  let ?c = "case x of None \<Rightarrow> cfg | Some e \<Rightarrow> enableEnd cfg e b"
  define f where "f e = (if x = Some e then b else enabled (cfgNet cfg) e)" for e
  have c: "?c = switch cfg f"
  proof (cases x)
    case None
    then have "f = enabled (cfgNet cfg)" by (simp add: f_def fun_eq_iff)
    then show ?thesis using None by simp
  next
    case (Some e)
    then show ?thesis by (auto simp: enableEnd_switch f_def fun_eq_iff intro!: arg_cong[where f = "switch cfg"])
  qed
  show ?case using Cons.IH[of ?c] Cons.prems x
    by (auto simp: c f_def assms(2) intro!: arg_cong[where f = "switch cfg"])
qed simp

lemma picks_switch [simp]:
  "outToConnected i (switch cfg f) = outToConnected i cfg" "inFromConnected i (switch cfg f) = inFromConnected i cfg"
  "outAllocated i (switch cfg f) = outAllocated i cfg" "inAllocated i (switch cfg f) = inAllocated i cfg"
  by (simp_all add: fun_eq_iff outToConnected_def inFromConnected_def outAllocated_def inAllocated_def cong: if_cong)

lemma picks_Some:
  "outToConnected i cfg j = Some (Some e) \<longleftrightarrow> go_index (connected cfg) j = Some True \<and> endAt cfg i j = Some e"
  "inFromConnected i cfg j = Some (Some e) \<longleftrightarrow> go_index (connected cfg) j = Some True \<and> endAt cfg j i = Some e"
  "outAllocated i cfg j = Some (Some e) \<longleftrightarrow> endAt cfg i j = Some e"
  "inAllocated i cfg j = Some (Some e) \<longleftrightarrow> endAt cfg j i = Some e"
  by (auto simp: outToConnected_def inFromConnected_def outAllocated_def inAllocated_def endAt_def bind_eq_Some_conv
      split: option.splits)

section \<open>Configurations in good order\<close>

text \<open>All slices have their length; ends that have names are made, have different names, lead where they
  should, and are on exactly between connected peers; a peer has a server exactly while it runs.\<close>

definition shapeOk :: "'c config \<Rightarrow> bool" where
  "shapeOk cfg \<longleftrightarrow>
     length (connected cfg) = cfgN cfg \<and> length (endnames cfg) = cfgN cfg \<and> length (rafts cfg) = cfgN cfg \<and>
     length (saved cfg) = cfgN cfg \<and> length (logs cfg) = cfgN cfg \<and> length (cfgLastApplied cfg) = cfgN cfg \<and>
     (\<forall>i row. i < cfgN cfg \<and> endnames cfg ! i = Some row \<longrightarrow> length row = cfgN cfg)"

definition linksOk :: "'c config \<Rightarrow> bool" where
  "linksOk cfg \<longleftrightarrow>
     (\<forall>i j e. endAt cfg i j = Some e \<longrightarrow>
        ends (cfgNet cfg) e \<noteq> None \<and> connections (cfgNet cfg) e = Some j \<and>
        enabled (cfgNet cfg) e = (connected cfg ! nat i \<and> connected cfg ! nat j)) \<and>
     (\<forall>i j i' j' e. endAt cfg i j = Some e \<and> endAt cfg i' j' = Some e \<longrightarrow> i' = i \<and> j' = j)"

definition serversOk :: "'c config \<Rightarrow> bool" where
  "serversOk cfg \<longleftrightarrow> (\<forall>i < cfgN cfg. servers (cfgNet cfg) (int i) \<noteq> None \<longleftrightarrow> rafts cfg ! i \<noteq> None)"

definition configOk :: "'c config \<Rightarrow> bool" where
  "configOk cfg \<longleftrightarrow> shapeOk cfg \<and> linksOk cfg \<and> serversOk cfg"

lemma endAt_range:
  assumes "shapeOk cfg" "endAt cfg i j = Some e"
  shows "0 \<le> i" "i < int (cfgN cfg)" "0 \<le> j" "j < int (cfgN cfg)"
  using assms by (auto simp: endAt_def shapeOk_def bind_eq_Some_conv go_simps) (metis nat_less_iff)+

lemma connect_keeps:
  assumes ok: "configOk cfg" and c: "connect cfg i = Some cfg'"
  shows "configOk cfg' \<and> connected cfg' = (connected cfg)[nat i := True] \<and> cfgN cfg' = cfgN cfg"
proof -
  obtain con c1 where con: "go_set (connected cfg) i True = Some con"
    and c1: "eachEnd (outToConnected i) True (cfg\<lparr>connected := con\<rparr>) (map int [0..<cfgN cfg]) = Some c1"
    and c2: "eachEnd (inFromConnected i) True c1 (map int [0..<cfgN c1]) = Some cfg'"
    using c by (auto simp: connect_def bind_eq_Some_conv)
  let ?c = "cfg\<lparr>connected := con\<rparr>"
  have con': "con = (connected cfg)[nat i := True]" "0 \<le> i" "i < int (cfgN cfg)"
    using con ok by (auto simp: go_simps configOk_def shapeOk_def)
  have e: "endAt ?c = endAt cfg" by (simp add: endAt_def fun_eq_iff)
  define on where "on e = (\<exists>j \<in> set (map int [0..<cfgN cfg]). go_index con j = Some True \<and> (endAt cfg i j = Some e \<or> endAt cfg j i = Some e))" for e
  have r: "cfg' = switch ?c (\<lambda>e. on e \<or> enabled (cfgNet cfg) e)"
    using eachEnd_effect[OF c2] unfolding eachEnd_effect[OF c1, simplified]
    by (auto simp: picks_Some e on_def intro!: arg_cong[where f = "switch ?c"])
  have sh: "shapeOk cfg'" using ok con' by (simp add: r configOk_def shapeOk_def)
  have "on e \<or> enabled (cfgNet cfg) e \<longleftrightarrow> con ! nat k \<and> con ! nat l" if kl: "endAt cfg k l = Some e" for k l e
  proof -
    have sk: "shapeOk cfg" and inj: "\<And>i' j'. endAt cfg i' j' = Some e \<Longrightarrow> i' = k \<and> j' = l"
      and en: "enabled (cfgNet cfg) e = (connected cfg ! nat k \<and> connected cfg ! nat l)"
      using ok kl unfolding configOk_def linksOk_def by blast+
    note rg = endAt_range[OF sk kl]
    have "on e \<longleftrightarrow> (k = i \<and> con ! nat l) \<or> (l = i \<and> con ! nat k)"
    proof
      assume "on e"
      then obtain j where "go_index con j = Some True" "endAt cfg i j = Some e \<or> endAt cfg j i = Some e"
        by (auto simp: on_def)
      then show "(k = i \<and> con ! nat l) \<or> (l = i \<and> con ! nat k)" using inj by (auto simp: go_simps)
    next
      have "length con = cfgN cfg" using con'(1) sk by (simp add: shapeOk_def)
      moreover assume "(k = i \<and> con ! nat l) \<or> (l = i \<and> con ! nat k)"
      ultimately have "\<exists>j. 0 \<le> j \<and> j < int (cfgN cfg) \<and> go_index con j = Some True \<and> (endAt cfg i j = Some e \<or> endAt cfg j i = Some e)"
        using kl rg by (auto simp: go_index_def)
      then show "on e" by (auto simp: on_def image_iff intro!: bexI[of _ "nat _"])
    qed
    then show ?thesis using en con' rg sk by (auto simp: nth_list_update shapeOk_def)
  qed
  then have "linksOk cfg'" using ok e unfolding configOk_def linksOk_def r by simp
  moreover have "serversOk cfg'" using ok by (simp add: r configOk_def serversOk_def)
  ultimately show ?thesis using sh con' by (simp add: configOk_def) (simp add: r)
qed

lemma disconnect_keeps:
  assumes ok: "configOk cfg" and c: "disconnect cfg i = Some cfg'"
  shows "configOk cfg'" "connected cfg' = (connected cfg)[nat i := False]"
    "cfgN cfg' = cfgN cfg" "endnames cfg' = endnames cfg" "rafts cfg' = rafts cfg" "saved cfg' = saved cfg"
    "logs cfg' = logs cfg" "0 \<le> i" "i < int (cfgN cfg)"
proof -
  obtain con c1 where con: "go_set (connected cfg) i False = Some con"
    and c1: "eachEnd (outAllocated i) False (cfg\<lparr>connected := con\<rparr>) (map int [0..<cfgN cfg]) = Some c1"
    and c2: "eachEnd (inAllocated i) False c1 (map int [0..<cfgN c1]) = Some cfg'"
    using c by (auto simp: disconnect_def bind_eq_Some_conv)
  let ?c = "cfg\<lparr>connected := con\<rparr>"
  have sk: "shapeOk cfg" using ok by (simp add: configOk_def)
  have con': "con = (connected cfg)[nat i := False]" "0 \<le> i" "i < int (cfgN cfg)"
    using con sk by (auto simp: go_simps shapeOk_def)
  have e: "endAt ?c = endAt cfg" by (simp add: endAt_def fun_eq_iff)
  define off where "off e = (\<exists>j \<in> set (map int [0..<cfgN cfg]). endAt cfg i j = Some e \<or> endAt cfg j i = Some e)" for e
  have r: "cfg' = switch ?c (\<lambda>e. \<not> off e \<and> enabled (cfgNet cfg) e)"
    using eachEnd_effect[OF c2] unfolding eachEnd_effect[OF c1, simplified]
    by (auto simp: picks_Some e off_def intro!: arg_cong[where f = "switch ?c"])
  have "\<not> off e \<and> enabled (cfgNet cfg) e \<longleftrightarrow> con ! nat k \<and> con ! nat l" if kl: "endAt cfg k l = Some e" for k l e
  proof -
    have inj: "\<And>i' j'. endAt cfg i' j' = Some e \<Longrightarrow> i' = k \<and> j' = l"
      and en: "enabled (cfgNet cfg) e = (connected cfg ! nat k \<and> connected cfg ! nat l)"
      using ok kl unfolding configOk_def linksOk_def by blast+
    note rg = endAt_range[OF sk kl]
    have "off e \<longleftrightarrow> k = i \<or> l = i"
    proof
      assume "off e"
      then show "k = i \<or> l = i" using inj by (auto simp: off_def)
    next
      assume "k = i \<or> l = i"
      then have "\<exists>j. 0 \<le> j \<and> j < int (cfgN cfg) \<and> (endAt cfg i j = Some e \<or> endAt cfg j i = Some e)"
        using kl rg by auto
      then show "off e" by (auto simp: off_def image_iff intro!: bexI[of _ "nat _"])
    qed
    then show ?thesis using en con' rg sk by (auto simp: nth_list_update shapeOk_def)
  qed
  then have "linksOk cfg'" using ok e unfolding configOk_def linksOk_def r by simp
  moreover have "serversOk cfg'" using ok by (simp add: r configOk_def serversOk_def)
  moreover have "shapeOk cfg'" using sk con' by (simp add: r shapeOk_def)
  ultimately show "configOk cfg'" by (simp add: configOk_def)
  show "connected cfg' = (connected cfg)[nat i := False]" "cfgN cfg' = cfgN cfg" "endnames cfg' = endnames cfg"
    "rafts cfg' = rafts cfg" "saved cfg' = saved cfg" "logs cfg' = logs cfg" "0 \<le> i" "i < int (cfgN cfg)"
    using con' by (simp_all add: r)
qed

section \<open>Crashes and restarts\<close>

lemma crash1_keeps:
  assumes ok: "configOk cfg" and c: "crash1 cfg i = Some (cfg', old)"
  shows "configOk cfg'" "connected cfg' = (connected cfg)[nat i := False]" "rafts cfg' = (rafts cfg)[nat i := None]"
    "cfgN cfg' = cfgN cfg" "endnames cfg' = endnames cfg" "0 \<le> i" "i < int (cfgN cfg)" "logs cfg' = logs cfg"
proof -
  obtain c1 where c1: "disconnect cfg i = Some c1" using c by (auto simp: crash1_def bind_eq_Some_conv)
  note d = disconnect_keeps[OF ok c1]
  have "cfgNet cfg' = DeleteServer (cfgNet c1) i \<and> rafts cfg' = (rafts c1)[nat i := None] \<and> cfgN cfg' = cfgN c1 \<and>
      endnames cfg' = endnames c1 \<and> connected cfg' = connected c1 \<and> logs cfg' = logs c1 \<and>
      cfgLastApplied cfg' = cfgLastApplied c1 \<and> length (saved cfg') = length (saved c1)"
    using c unfolding crash1_def c1 by (auto simp: bind_eq_Some_conv go_simps)
  then have x: "cfgNet cfg' = DeleteServer (cfgNet c1) i" "rafts cfg' = (rafts c1)[nat i := None]" "cfgN cfg' = cfgN c1"
      "endnames cfg' = endnames c1" "connected cfg' = connected c1" "logs cfg' = logs c1"
      "cfgLastApplied cfg' = cfgLastApplied c1" "length (saved cfg') = length (saved c1)" by auto
  have e: "endAt cfg' = endAt c1" by (simp add: x endAt_def fun_eq_iff)
  have "linksOk cfg'" using d(1) e by (simp add: configOk_def linksOk_def x DeleteServer_def)
  moreover have "shapeOk cfg'" using d(1) by (simp add: configOk_def shapeOk_def x)
  moreover have "serversOk cfg'" using d(1,3,8,9)
    by (auto simp: configOk_def serversOk_def shapeOk_def x DeleteServer_def nth_list_update)
  ultimately show "configOk cfg'" by (simp add: configOk_def)
  show "connected cfg' = (connected cfg)[nat i := False]" "rafts cfg' = (rafts cfg)[nat i := None]"
    "cfgN cfg' = cfgN cfg" "endnames cfg' = endnames cfg" "0 \<le> i" "i < int (cfgN cfg)" "logs cfg' = logs cfg"
    using d by (simp_all add: x)
qed

text \<open>Making the ends of a peer: the names are new and different, or the test fails.\<close>

lemma makeEnds_effect:
  assumes "makeEnds cfg j es = Some cfg'"
  shows "\<exists>rn. cfg' = cfg\<lparr>cfgNet := rn\<rparr> \<and> servers rn = servers (cfgNet cfg) \<and> distinct es \<and>
    (\<forall>e \<in> set es. ends (cfgNet cfg) e = None) \<and>
    (\<forall>e. e \<notin> set es \<longrightarrow> ends rn e = ends (cfgNet cfg) e \<and> enabled rn e = enabled (cfgNet cfg) e \<and>
       connections rn e = connections (cfgNet cfg) e) \<and>
    (\<forall>k < length es. ends rn (es ! k) \<noteq> None \<and> \<not> enabled rn (es ! k) \<and> connections rn (es ! k) = Some (j + int k))"
  using assms
proof (induction es arbitrary: cfg j)
  case Nil
  then show ?case by (auto intro!: exI[of _ "cfgNet cfg"])
next
  case (Cons e es)
  have new: "ends (cfgNet cfg) e = None" using Cons.prems by (auto simp: MakeEnd_def split: if_splits)
  define c1 where "c1 = cfg\<lparr>cfgNet := Connect ((cfgNet cfg)\<lparr>ends := (ends (cfgNet cfg))(e \<mapsto> \<lparr>ceName = e\<rparr>),
    enabled := (enabled (cfgNet cfg))(e := False), connections := (connections (cfgNet cfg))(e := None)\<rparr>) e j\<rparr>"
  have m: "makeEnds c1 (j + 1) es = Some cfg'" using Cons.prems new by (simp add: MakeEnd_def c1_def)
  then obtain rn where rn: "cfg' = c1\<lparr>cfgNet := rn\<rparr>" "servers rn = servers (cfgNet c1)" "distinct es"
    "\<forall>e \<in> set es. ends (cfgNet c1) e = None"
    "\<forall>e. e \<notin> set es \<longrightarrow> ends rn e = ends (cfgNet c1) e \<and> enabled rn e = enabled (cfgNet c1) e \<and>
       connections rn e = connections (cfgNet c1) e"
    "\<forall>k < length es. ends rn (es ! k) \<noteq> None \<and> \<not> enabled rn (es ! k) \<and> connections rn (es ! k) = Some (j + 1 + int k)"
    using Cons.IH[OF m] by blast
  have fresh: "e \<notin> set es" "\<And>x. x \<in> set es \<Longrightarrow> ends (cfgNet cfg) x = None"
    using rn(4) by (auto simp: c1_def Connect_def split: if_splits)
  have "ends rn ((e # es) ! k) \<noteq> None \<and> \<not> enabled rn ((e # es) ! k) \<and> connections rn ((e # es) ! k) = Some (j + int k)"
    if "k < length (e # es)" for k
    using that rn(5,6) fresh by (cases k) (auto simp: c1_def Connect_def)
  then show ?case using rn fresh new
    by (intro exI[of _ rn]) (auto simp: c1_def Connect_def)
qed

text \<open>What is left of \<^const>\<open>start1\<close> after the ends are made touches neither ends nor connections.\<close>

lemma ingestSnap_fields:
  "ingestSnap cfg i snap k = Some (cfg', err) \<Longrightarrow>
   cfgNet cfg' = cfgNet cfg \<and> rafts cfg' = rafts cfg \<and> cfgN cfg' = cfgN cfg \<and> endnames cfg' = endnames cfg \<and>
   connected cfg' = connected cfg \<and> saved cfg' = saved cfg \<and> length (logs cfg') = length (logs cfg) \<and>
   length (cfgLastApplied cfg') = length (cfgLastApplied cfg)"
  by (auto simp: ingestSnap_def bind_eq_Some_conv go_simps split: list.splits testSnap.splits if_splits)

definition sameNet :: "'c config \<Rightarrow> 'c config \<Rightarrow> bool" where
  "sameNet c d \<longleftrightarrow> cfgNet d = cfgNet c \<and> cfgN d = cfgN c \<and> endnames d = endnames c \<and> connected d = connected c \<and>
     rafts d = rafts c \<and> length (saved d) = length (saved c) \<and> length (logs d) = length (logs c) \<and>
     length (cfgLastApplied d) = length (cfgLastApplied c)"

lemma start1_parts:
  assumes "start1 cfg i names srv = Some (cfg', old)"
  shows "\<exists>c1 c2 c3 rf. crash1 cfg i = Some (c1, old) \<and>
    makeEnds (c1\<lparr>endnames := (endnames c1)[nat i := Some names]\<rparr>) 0 names = Some c2 \<and> sameNet c2 c3 \<and>
    cfgNet cfg' = AddServer (cfgNet c3) i srv \<and> rafts cfg' = (rafts c3)[nat i := Some rf] \<and>
    cfgN cfg' = cfgN c3 \<and> endnames cfg' = endnames c3 \<and> connected cfg' = connected c3 \<and>
    length (saved cfg') = length (saved c3) \<and> logs cfg' = logs c3 \<and> cfgLastApplied cfg' = cfgLastApplied c3"
proof -
  obtain c1 old' where c1: "crash1 cfg i = Some (c1, old')" using assms by (auto simp: start1_def bind_eq_Some_conv)
  obtain en c2 la sv where c2: "go_set (endnames c1) i (Some names) = Some en" "makeEnds (c1\<lparr>endnames := en\<rparr>) 0 names = Some c2"
    "go_set (cfgLastApplied c2) i 0 = Some la" "savedAt (c2\<lparr>cfgLastApplied := la\<rparr>) i = Some sv"
    using assms c1 by (auto simp: start1_def bind_eq_Some_conv)
  let ?c = "c2\<lparr>cfgLastApplied := la\<rparr>"
  let ?read = "case sv of
          None \<Rightarrow> Some (?c, MakePersister)
        | Some p \<Rightarrow>
            let p = Copy p; snap = ReadSnapshot p in
            if length snap > 0
            then do {
              (cfg, err) \<leftarrow> ingestSnap ?c i snap (-1);
              if err \<noteq> None then None else Some (cfg, p)
            }
            else Some (?c, p)"
  obtain c3 p where c3: "?read = Some (c3, p)" using assms c1 c2 by (auto simp: start1_def bind_eq_Some_conv)
  have "sameNet ?c c3" using c3 ingestSnap_fields[of ?c i]
    by (auto simp: sameNet_def bind_eq_Some_conv split: option.splits if_splits)
  then have "sameNet c2 c3" using c2(3) by (auto simp: sameNet_def go_simps)
  moreover have "en = (endnames c1)[nat i := Some names]" using c2(1) by (auto simp: go_simps)
  moreover have "\<exists>rf. cfgNet cfg' = AddServer (cfgNet c3) i srv \<and> rafts cfg' = (rafts c3)[nat i := Some rf] \<and>
    cfgN cfg' = cfgN c3 \<and> endnames cfg' = endnames c3 \<and> connected cfg' = connected c3 \<and>
    length (saved cfg') = length (saved c3) \<and> logs cfg' = logs c3 \<and> cfgLastApplied cfg' = cfgLastApplied c3 \<and> old = old'"
    using assms unfolding start1_def c1 bind.simps prod.case c2 Let_def c3[unfolded Let_def] by (auto simp: bind_eq_Some_conv go_simps)
  ultimately show ?thesis using c1 c2(2) by metis
qed

lemma start1_keeps:
  assumes ok: "configOk cfg" and s: "start1 cfg i names srv = Some (cfg', old)" and n: "length names = cfgN cfg"
  shows "configOk cfg'" "connected cfg' = (connected cfg)[nat i := False]" "cfgN cfg' = cfgN cfg"
    "rafts cfg' ! nat i \<noteq> None" "\<And>j. j \<noteq> nat i \<Longrightarrow> rafts cfg' ! j = rafts cfg ! j"
    "endnames cfg' = (endnames cfg)[nat i := Some names]" "0 \<le> i" "i < int (cfgN cfg)"
proof -
  obtain c1 c2 c3 rf where c1: "crash1 cfg i = Some (c1, old)"
    and c2: "makeEnds (c1\<lparr>endnames := (endnames c1)[nat i := Some names]\<rparr>) 0 names = Some c2" and c3: "sameNet c2 c3"
    and f: "cfgNet cfg' = AddServer (cfgNet c3) i srv" "rafts cfg' = (rafts c3)[nat i := Some rf]"
    "cfgN cfg' = cfgN c3" "endnames cfg' = endnames c3" "connected cfg' = connected c3"
    "length (saved cfg') = length (saved c3)" "logs cfg' = logs c3" "cfgLastApplied cfg' = cfgLastApplied c3"
    using start1_parts[OF s] by blast
  note k = crash1_keeps[OF ok c1]
  obtain rn where rn: "c2 = c1\<lparr>endnames := (endnames c1)[nat i := Some names], cfgNet := rn\<rparr>" "servers rn = servers (cfgNet c1)"
    "distinct names" "\<forall>e \<in> set names. ends (cfgNet c1) e = None"
    "\<forall>e. e \<notin> set names \<longrightarrow> ends rn e = ends (cfgNet c1) e \<and> enabled rn e = enabled (cfgNet c1) e \<and>
       connections rn e = connections (cfgNet c1) e"
    "\<forall>k < length names. ends rn (names ! k) \<noteq> None \<and> \<not> enabled rn (names ! k) \<and> connections rn (names ! k) = Some (0 + int k)"
    using makeEnds_effect[OF c2] by auto
  have net: "ends (cfgNet cfg') = ends rn" "enabled (cfgNet cfg') = enabled rn" "connections (cfgNet cfg') = connections rn"
    "servers (cfgNet cfg') = (servers rn)(i := Some srv)"
    using c3 rn(1) f(1) by (simp_all add: sameNet_def AddServer_def)
  have g: "connected cfg' = (connected cfg)[nat i := False]" "cfgN cfg' = cfgN cfg"
    "rafts cfg' = (rafts cfg)[nat i := Some rf]" "endnames cfg' = (endnames cfg)[nat i := Some names]"
    using k f c3 rn(1) by (simp_all add: sameNet_def)
  have sk: "shapeOk c1" and lk: "linksOk c1" using k(1) by (simp_all add: configOk_def)
  have "length row = cfgN cfg" if "j < cfgN cfg" "endnames cfg' ! j = Some row" for j row
    using that sk n g(4) k(4,5) by (cases "j = nat i") (auto simp: shapeOk_def)
  then have sh: "shapeOk cfg'"
    using sk g f(6-8) c3 rn(1) k(2-5) unfolding shapeOk_def sameNet_def by (intro conjI allI impI) (simp_all, metis)
  have at: "endAt cfg' a b = (if a = i then go_index names b else endAt c1 a b)" for a b
    using k(4-7) sk g(4) by (auto simp: endAt_def go_index_def shapeOk_def nth_list_update)
  have old: "ends (cfgNet c1) e \<noteq> None \<and> e \<notin> set names" if "endAt c1 a b = Some e" for a b e
    using lk that rn(4) unfolding linksOk_def by blast
  have "ends (cfgNet cfg') e \<noteq> None \<and> connections (cfgNet cfg') e = Some b \<and>
        enabled (cfgNet cfg') e = (connected cfg' ! nat a \<and> connected cfg' ! nat b)" if e: "endAt cfg' a b = Some e" for a b e
  proof (cases "a = i")
    case True
    then have "0 \<le> b" "nat b < length names" "e = names ! nat b" using e at by (auto simp: go_simps)
    moreover have "\<not> connected cfg' ! nat a" using g(1) True k(6,7) sk k(2,4) by (simp add: shapeOk_def)
    ultimately show ?thesis using rn(6) net by simp
  next
    case False
    then have "endAt c1 a b = Some e" using e at by simp
    moreover from old[OF this] have "e \<notin> set names" by blast
    moreover have "connected cfg' = connected c1" using g(1) k(2) by simp
    ultimately show ?thesis using lk rn(5) net unfolding linksOk_def by auto
  qed
  moreover have "a' = a \<and> b' = b" if e: "endAt cfg' a b = Some e" "endAt cfg' a' b' = Some e" for a b a' b' e
  proof (cases "a = i \<longleftrightarrow> a' = i")
    case True
    show ?thesis
    proof (cases "a = i")
      case ai: True
      then have "go_index names b = Some e" "go_index names b' = Some e" using e True at by auto
      then have "b' = b" using rn(3) by (auto simp: go_simps nth_eq_iff_index_eq)
      then show ?thesis using ai True by simp
    next
      case False
      then show ?thesis using e True at lk unfolding linksOk_def by metis
    qed
  next
    case False
    then have "\<exists>x y z. endAt c1 x y = Some e \<and> go_index names z = Some e" using e at by (metis (full_types))
    then show ?thesis using old by (fastforce simp: go_simps)
  qed
  ultimately have "linksOk cfg'" unfolding linksOk_def by blast
  moreover have "serversOk cfg'"
    using k(1,4,6,7) g net(4) rn(2) k(3) unfolding configOk_def serversOk_def shapeOk_def by (auto simp: nth_list_update)
  ultimately show "configOk cfg'" using sh by (simp add: configOk_def)
  have "nat i < length (rafts cfg)" using ok k(6,7) by (simp add: configOk_def shapeOk_def)
  then show "rafts cfg' ! nat i \<noteq> None" "\<And>j. j \<noteq> nat i \<Longrightarrow> rafts cfg' ! j = rafts cfg ! j" using g(3) by simp_all
  show "connected cfg' = (connected cfg)[nat i := False]" "cfgN cfg' = cfgN cfg"
    "endnames cfg' = (endnames cfg)[nat i := Some names]" "0 \<le> i" "i < int (cfgN cfg)" using g k by auto
qed

section \<open>Everything the harness does\<close>

text \<open>The configurations of a test of \<open>n\<close> peers.  Between these operations the peers run and messages are
  delivered, which changes peers and recorded logs only.\<close>

inductive configured :: "nat \<Rightarrow> 'c config \<Rightarrow> bool" for n where
  made: "make_config names unreliable = Some cfg \<Longrightarrow> length names = n \<Longrightarrow> \<forall>row \<in> set names. length row = n \<Longrightarrow>
    configured n cfg"
| connects: "configured n cfg \<Longrightarrow> connect cfg i = Some cfg' \<Longrightarrow> configured n cfg'"
| disconnects: "configured n cfg \<Longrightarrow> disconnect cfg i = Some cfg' \<Longrightarrow> configured n cfg'"
| crashes: "configured n cfg \<Longrightarrow> crash1 cfg i = Some (cfg', old) \<Longrightarrow> configured n cfg'"
| starts: "configured n cfg \<Longrightarrow> start1 cfg i names srv = Some (cfg', old) \<Longrightarrow> length names = n \<Longrightarrow> configured n cfg'"
| runs: "configured n cfg \<Longrightarrow> length rs = n \<Longrightarrow> \<forall>i < n. rs ! i = None \<longleftrightarrow> rafts cfg ! i = None \<Longrightarrow>
    length ls = n \<Longrightarrow> configured n (cfg\<lparr>rafts := rs, logs := ls, maxIndex := k\<rparr>)"
| switches: "configured n cfg \<Longrightarrow> configured n (setunreliable (setlongreordering cfg b) c)"

lemma emptyConfig_ok: "configOk (emptyConfig n :: 'c config)"
proof -
  have "endAt (emptyConfig n :: 'c config) i j = None" for i j by (auto simp: endAt_def emptyConfig_def go_index_def)
  then have "linksOk (emptyConfig n :: 'c config)" by (simp add: linksOk_def)
  moreover have "shapeOk (emptyConfig n :: 'c config)" by (auto simp: shapeOk_def emptyConfig_def)
  moreover have "serversOk (emptyConfig n :: 'c config)" by (simp add: serversOk_def emptyConfig_def MakeNetwork_def)
  ultimately show ?thesis by (simp add: configOk_def)
qed

lemma configOk_frame:
  assumes "configOk cfg" "cfgN cfg' = cfgN cfg" "connected cfg' = connected cfg" "endnames cfg' = endnames cfg"
    "length (saved cfg') = length (saved cfg)" "length (logs cfg') = length (logs cfg)"
    "length (cfgLastApplied cfg') = length (cfgLastApplied cfg)" "length (rafts cfg') = length (rafts cfg)"
    "\<forall>i < cfgN cfg. rafts cfg' ! i = None \<longleftrightarrow> rafts cfg ! i = None"
    "ends (cfgNet cfg') = ends (cfgNet cfg)" "connections (cfgNet cfg') = connections (cfgNet cfg)"
    "enabled (cfgNet cfg') = enabled (cfgNet cfg)" "servers (cfgNet cfg') = servers (cfgNet cfg)"
  shows "configOk cfg'"
proof -
  have "endAt cfg' = endAt cfg" using assms by (simp add: endAt_def fun_eq_iff)
  then show ?thesis using assms by (simp add: configOk_def shapeOk_def linksOk_def serversOk_def)
qed

lemma startAll_keeps:
  assumes "startAll cfg i names = Some cfg'" "configOk cfg" "\<forall>row \<in> set names. length row = cfgN cfg"
  shows "configOk cfg' \<and> cfgN cfg' = cfgN cfg"
  using assms
proof (induction names arbitrary: cfg i)
  case (Cons row names)
  obtain ls c1 old where ls: "go_set (logs cfg) i Map.empty = Some ls"
    and c1: "start1 (cfg\<lparr>logs := ls\<rparr>) i row (nat i) = Some (c1, old)" and c': "startAll c1 (i + 1) names = Some cfg'"
    using Cons.prems(1) by (auto simp: bind_eq_Some_conv)
  have "configOk (cfg\<lparr>logs := ls\<rparr>)" by (rule configOk_frame[OF Cons.prems(2)]) (use ls in \<open>auto simp: go_simps\<close>)
  then have "configOk c1" "cfgN c1 = cfgN cfg" using start1_keeps(1,3)[OF _ c1] Cons.prems(3) by auto
  then show ?case using Cons.IH[OF c'] Cons.prems(3) by simp
qed simp

lemma connectAll_keeps:
  "connectAll cfg is = Some cfg' \<Longrightarrow> configOk cfg \<Longrightarrow> configOk cfg' \<and> cfgN cfg' = cfgN cfg"
  by (induction "is" arbitrary: cfg) (auto simp: bind_eq_Some_conv dest: connect_keeps)

lemma configured_ok: "configured n cfg \<Longrightarrow> configOk cfg \<and> cfgN cfg = n"
proof (induction rule: configured.induct)
  case (made names unreliable cfg)
  let ?c = "(setunreliable (emptyConfig (length names) :: 'c config) unreliable)\<lparr>cfgNet := LongDelays (cfgNet (setunreliable (emptyConfig (length names) :: 'c config) unreliable)) True\<rparr>"
  obtain c1 where c1: "startAll ?c 0 names = Some c1" "connectAll c1 (map int [0..<cfgN c1]) = Some cfg"
    using made(1) by (auto simp: make_config_def bind_eq_Some_conv)
  have ok: "configOk ?c" by (rule configOk_frame[OF emptyConfig_ok[of "length names"]])
      (simp_all add: setunreliable_def Reliable_def LongDelays_def)
  have n: "cfgN ?c = n" using made(2) by (simp add: setunreliable_def emptyConfig_def)
  have "configOk c1 \<and> cfgN c1 = n" using startAll_keeps[OF c1(1) ok, unfolded n, OF made(3)] .
  then show ?case using connectAll_keeps[OF c1(2)] by simp
next
  case connects then show ?case using connect_keeps by metis
next
  case disconnects then show ?case using disconnect_keeps(1,3) by metis
next
  case crashes then show ?case using crash1_keeps(1,4) by metis
next
  case starts then show ?case using start1_keeps(1,3) by metis
next
  case (runs cfg rs ls k)
  then have "length (rafts cfg) = n" "length (logs cfg) = n" by (auto simp: configOk_def shapeOk_def)
  then show ?case using runs configOk_frame[of cfg "cfg\<lparr>rafts := rs, logs := ls, maxIndex := k\<rparr>"] by auto
next
  case (switches cfg b c)
  then show ?case using configOk_frame[of cfg "setunreliable (setlongreordering cfg b) c"]
    by (simp add: setunreliable_def setlongreordering_def Reliable_def LongReordering_def)
qed

end
