(* ===== verification/RaftInv.thy ===== *)
theory RaftInv
  imports RaftNode
begin

text \<open>
  The well-formedness of one peer and that every function of \<^verbatim>\<open>raft.go\<close> keeps it: the log is
  never empty, its indices are consecutive from the snapshot index on, its terms never
  decrease and never exceed the current term, and the leader's index tables have one cell
  per peer.  On a well-formed peer the handlers of well-formed messages do not panic.
\<close>

section \<open>Definitions\<close>

fun contig :: "int \<Rightarrow> 'c LogEntry list \<Rightarrow> bool" where
  "contig i [] = True"
| "contig i (e # es) = (Index e = i \<and> contig (i + 1) es)"

definition firstIdx :: "'c LogEntry list \<Rightarrow> int" where
  "firstIdx log = Index (hd log)"

definition lastIdx :: "'c LogEntry list \<Rightarrow> int" where
  "lastIdx log = firstIdx log + int (length log) - 1"

text \<open>The term at an absolute log index.\<close>

definition termAt :: "'c LogEntry list \<Rightarrow> int \<Rightarrow> int" where
  "termAt log i = Term (log ! nat (i - firstIdx log))"

definition wfLog :: "'c LogEntry list \<Rightarrow> int \<Rightarrow> bool" where
  "wfLog log term \<longleftrightarrow>
     log \<noteq> [] \<and> contig (firstIdx log) log \<and> sorted (map Term log) \<and>
     (\<forall>e \<in> set log. 0 \<le> Term e \<and> Term e \<le> term) \<and> 0 \<le> firstIdx log"

definition wfRaft :: "('c, 'b) Raft \<Rightarrow> bool" where
  "wfRaft rf \<longleftrightarrow>
     wfLog (Log rf) (CurrentTerm rf) \<and> 0 \<le> me rf \<and> me rf < int (peers rf) \<and>
     length (nextIndex rf) = peers rf \<and> length (matchIndex rf) = peers rf"

text \<open>
  A well-formed AppendEntries request: consecutive entries after \<^verbatim>\<open>PrevLogIndex\<close>, terms that
  do not decrease from \<^verbatim>\<open>PrevLogTerm\<close> on and do not exceed the leader's term.
\<close>

definition wfAppendEntries :: "'c AppendEntriesArgs \<Rightarrow> bool" where
  "wfAppendEntries args \<longleftrightarrow>
     contig (aePrevLogIndex args + 1) (aeEntries args) \<and>
     sorted (aePrevLogTerm args # map Term (aeEntries args)) \<and>
     (\<forall>e \<in> set (aeEntries args). Term e \<le> aeTerm args) \<and> 0 \<le> aePrevLogTerm args"

definition wfInstallSnapshot :: "'b InstallSnapshotArgs \<Rightarrow> bool" where
  "wfInstallSnapshot args \<longleftrightarrow>
     0 \<le> isLastIncludedTerm args \<and> isLastIncludedTerm args \<le> isTerm args"

text \<open>
  What a peer would read back from its persister: the persisted variables, or their initial
  values when nothing was ever written.
\<close>

definition recovered :: "('c gobValue, 'b) Persister \<Rightarrow> int \<times> int \<times> 'c LogEntry list" where
  "recovered ps =
     (if raftstate ps = [] then (0, -1, [\<lparr>Term = 0, Command = None, Index = 0\<rparr>])
      else decodeRaftState (raftstate ps))"

definition durable :: "('c, 'b) Raft \<Rightarrow> bool" where
  "durable rf \<longleftrightarrow> recovered (persister rf) = (CurrentTerm rf, VotedFor rf, Log rf)"

text \<open>The discipline of terms and votes: terms never fall, a vote is never changed in its term.\<close>

definition voteStep :: "('c, 'b) Raft \<Rightarrow> ('c, 'b) Raft \<Rightarrow> bool" where
  "voteStep rf rf' \<longleftrightarrow>
     me rf' = me rf \<and> peers rf' = peers rf \<and> CurrentTerm rf \<le> CurrentTerm rf' \<and>
     (CurrentTerm rf' = CurrentTerm rf \<and> VotedFor rf \<noteq> -1 \<longrightarrow> VotedFor rf' = VotedFor rf)"

text \<open>
  A step that casts no vote and wins no election: the vote stays as it is within the term,
  and a leader after the step was a leader of the same term before it.
\<close>

definition quiet :: "('c, 'b) Raft \<Rightarrow> ('c, 'b) Raft \<Rightarrow> bool" where
  "quiet rf rf' \<longleftrightarrow>
     me rf' = me rf \<and> peers rf' = peers rf \<and> CurrentTerm rf \<le> CurrentTerm rf' \<and>
     (CurrentTerm rf' = CurrentTerm rf \<longrightarrow> VotedFor rf' = VotedFor rf) \<and>
     (state rf' = LEADER \<longrightarrow> state rf = LEADER \<and> CurrentTerm rf' = CurrentTerm rf)"

text \<open>A peer in good order: well-formed, with its persistent variables on disk.\<close>

definition sound :: "('c, 'b) Raft \<Rightarrow> bool" where
  "sound rf \<longleftrightarrow> wfRaft rf \<and> durable rf"

section \<open>Log lemmas\<close>

lemma contig_append:
  "contig i (xs @ ys) \<longleftrightarrow> contig i xs \<and> contig (i + int (length xs)) ys"
  by (induction xs arbitrary: i) (auto simp: algebra_simps)

lemma contig_nth: "contig i xs \<Longrightarrow> k < length xs \<Longrightarrow> Index (xs ! k) = i + int k"
proof (induction xs arbitrary: i k)
  case (Cons x xs)
  then show ?case by (cases k) auto
qed simp

lemma contig_take: "contig i xs \<Longrightarrow> contig i (take k xs)"
  by (metis append_take_drop_id contig_append)

lemma contig_drop: "contig i xs \<Longrightarrow> k \<le> length xs \<Longrightarrow> contig (i + int k) (drop k xs)"
  by (metis append_take_drop_id contig_append length_take min.absorb2)

lemma wfLog_nonempty [simp]: "wfLog log t \<Longrightarrow> log \<noteq> []"
  by (simp add: wfLog_def)

lemma wfLog_length: "wfLog log t \<Longrightarrow> 0 < length log"
  by (simp add: wfLog_def)

lemma wfLog_mono: "wfLog log t \<Longrightarrow> t \<le> t' \<Longrightarrow> wfLog log t'"
  by (auto simp: wfLog_def)

lemma wfLog_last: "wfLog log t \<Longrightarrow> Index (last log) = lastIdx log"
proof -
  assume a: "wfLog log t"
  then have "Index (log ! (length log - 1)) = firstIdx log + int (length log - 1)"
    by (intro contig_nth) (auto simp: wfLog_def)
  with a show ?thesis
    by (simp add: last_conv_nth lastIdx_def of_nat_diff Suc_leI wfLog_length)
qed

lemma wfLog_first_le_last: "wfLog log t \<Longrightarrow> firstIdx log \<le> lastIdx log"
  using wfLog_length by (fastforce simp: lastIdx_def)

lemma getFirstLog_Some [simp]: "Log rf \<noteq> [] \<Longrightarrow> getFirstLog rf = Some (hd (Log rf))"
  by (simp add: getFirstLog_def)

lemma getLastLog_Some [simp]: "Log rf \<noteq> [] \<Longrightarrow> getLastLog rf = Some (last (Log rf))"
  by (simp add: getLastLog_def go_index_last)

lemma wfLog_index:
  assumes "wfLog log t" "firstIdx log \<le> i" "i \<le> lastIdx log"
  shows "go_index log (i - firstIdx log) = Some (log ! nat (i - firstIdx log))"
  using assms by (auto simp: go_simps lastIdx_def)

lemma wfLog_index_term:
  assumes "wfLog log t" "firstIdx log \<le> i" "i \<le> lastIdx log"
  shows "Index (log ! nat (i - firstIdx log)) = i" "termAt log i \<le> t" "0 \<le> termAt log i"
proof -
  have k: "nat (i - firstIdx log) < length log" using assms by (auto simp: lastIdx_def)
  then show "Index (log ! nat (i - firstIdx log)) = i"
    using contig_nth[of "firstIdx log" log "nat (i - firstIdx log)"] assms
    by (auto simp: wfLog_def)
  show "termAt log i \<le> t" "0 \<le> termAt log i"
    using k assms(1) by (auto simp: termAt_def wfLog_def)
qed

lemma wfLog_termAt_mono:
  assumes "wfLog log t" "firstIdx log \<le> i" "i \<le> j" "j \<le> lastIdx log"
  shows "termAt log i \<le> termAt log j"
proof -
  have "nat (i - firstIdx log) \<le> nat (j - firstIdx log)" "nat (j - firstIdx log) < length log"
    using assms by (auto simp: lastIdx_def)
  then show ?thesis
    using assms(1) sorted_nth_mono[of "map Term log"] by (auto simp: termAt_def wfLog_def)
qed

text \<open>Cutting a well-formed log at \<open>k\<close> and appending entries that fit there.\<close>

lemma wfLog_splice:
  assumes wf: "wfLog log t" and k: "k \<le> length log"
    and es: "es \<noteq> []" "contig (firstIdx log + int k) es" "sorted (map Term es)"
      "\<forall>e \<in> set es. 0 \<le> Term e \<and> Term e \<le> t"
    and join: "0 < k \<Longrightarrow> Term (log ! (k - 1)) \<le> Term (hd es)"
  shows "wfLog (take k log @ es) t" and "firstIdx (take k log @ es) = firstIdx log"
proof -
  show first: "firstIdx (take k log @ es) = firstIdx log"
    using es wf by (cases k; cases log; cases es) (auto simp: firstIdx_def)
  have le: "Term x \<le> Term y" if x: "x \<in> set (take k log)" and y: "y \<in> set es" for x y
  proof -
    have k0: "0 < k" using x by (cases k) auto
    from x obtain i where i: "i < k" "i < length log" "x = log ! i"
      by (auto simp: in_set_conv_nth)
    have "Term x \<le> Term (log ! (k - 1))"
      using i k wf sorted_nth_mono[of "map Term log" i "k - 1"] by (auto simp: wfLog_def)
    also have "\<dots> \<le> Term (hd es)" by (rule join [OF k0])
    also have "\<dots> \<le> Term y" using es(1,3) y by (cases es) auto
    finally show ?thesis .
  qed
  have "sorted (map Term (take k log))"
    using wf by (simp add: wfLog_def take_map [symmetric] sorted_wrt_take)
  then have "sorted (map Term (take k log @ es))"
    using es(3) le by (auto simp: sorted_append)
  moreover have "contig (firstIdx log) (take k log @ es)"
    using wf es(2) k by (auto simp: contig_append wfLog_def contig_take min.absorb2)
  moreover have "\<forall>e \<in> set (take k log @ es). 0 \<le> Term e \<and> Term e \<le> t"
    using wf es(4) by (auto simp: wfLog_def dest: in_set_takeD)
  ultimately show "wfLog (take k log @ es) t"
    using es(1) wf by (simp add: wfLog_def first)
qed

lemma wfLog_drop:
  assumes "wfLog log t" "k < length log"
  shows "wfLog (drop k log) t" and "firstIdx (drop k log) = firstIdx log + int k"
proof -
  have "Index (log ! k) = firstIdx log + int k"
    using assms by (intro contig_nth) (auto simp: wfLog_def)
  then show first: "firstIdx (drop k log) = firstIdx log + int k"
    using assms by (simp add: firstIdx_def hd_drop_conv_nth)
  show "wfLog (drop k log) t"
    using assms by (auto simp: wfLog_def first drop_map [symmetric] sorted_wrt_drop
        intro: contig_drop dest: in_set_dropD)
qed

lemma wfLog_singleton:
  "0 \<le> tm \<Longrightarrow> tm \<le> t \<Longrightarrow> 0 \<le> i \<Longrightarrow> wfLog [\<lparr>Term = tm, Command = c, Index = i\<rparr>] t"
  by (simp add: wfLog_def firstIdx_def)

lemma firstIdx_Cons [simp]: "firstIdx (e # es) = Index e"
  by (simp add: firstIdx_def)

lemma firstIdx_append: "log \<noteq> [] \<Longrightarrow> firstIdx (log @ es) = firstIdx log"
  by (simp add: firstIdx_def)

lemma Index_hd [simp]: "Index (hd log) = firstIdx log"
  by (simp add: firstIdx_def)

section \<open>Persistence\<close>

lemma encode_decode [simp]:
  "decodeRaftState (encodeRaftState rf) = (CurrentTerm rf, VotedFor rf, Log rf)"
  "encodeRaftState rf \<noteq> []"
  by (simp_all add: decodeRaftState_def encodeRaftState_def gobEncode_def)

lemma persist_fields [simp]:
  "peers (persist rf) = peers rf" "me (persist rf) = me rf" "dead (persist rf) = dead rf"
  "CurrentTerm (persist rf) = CurrentTerm rf" "VotedFor (persist rf) = VotedFor rf"
  "Log (persist rf) = Log rf" "CommitIndex (persist rf) = CommitIndex rf"
  "LastApplied (persist rf) = LastApplied rf" "state (persist rf) = state rf"
  "nextIndex (persist rf) = nextIndex rf" "matchIndex (persist rf) = matchIndex rf"
  "snapshotsToPush (persist rf) = snapshotsToPush rf"
  "snapshotsPushed (persist rf) = snapshotsPushed rf" "applying (persist rf) = applying rf"
  "snapshot (persister (persist rf)) = snapshot (persister rf)"
  by (simp_all add: persist_def ReadSnapshot_def)

lemma durable_persist [simp]: "durable (persist rf)"
  by (simp add: durable_def recovered_def persist_def encodeRaftState_def gobEncode_def
      decodeRaftState_def)

lemma recovered_persist [simp]:
  "recovered (persister (persist rf)) = (CurrentTerm rf, VotedFor rf, Log rf)"
  using durable_persist[of rf] by (simp add: durable_def)

lemma wfRaft_persist [simp]: "wfRaft (persist rf) = wfRaft rf"
  by (simp add: wfRaft_def)

lemma durable_Save:
  "durable (rf\<lparr>persister := Save (persister rf) (encodeRaftState rf) sn\<rparr>)"
  by (simp add: durable_def recovered_def encodeRaftState_def gobEncode_def decodeRaftState_def)

lemma quiet_voteStep: "quiet rf rf' \<Longrightarrow> voteStep rf rf'"
  by (auto simp: quiet_def voteStep_def)

lemma quiet_refl [simp]: "quiet rf rf"
  by (simp add: quiet_def)

lemma soundD: "sound rf \<Longrightarrow> wfRaft rf" "sound rf \<Longrightarrow> durable rf"
  by (simp_all add: sound_def)

text \<open>Updates of fields that neither well-formedness nor the disk state depends on.\<close>

lemma sound_frame:
  "sound rf \<Longrightarrow> CurrentTerm rf' = CurrentTerm rf \<Longrightarrow> VotedFor rf' = VotedFor rf \<Longrightarrow> Log rf' = Log rf \<Longrightarrow>
   persister rf' = persister rf \<Longrightarrow> me rf' = me rf \<Longrightarrow> peers rf' = peers rf \<Longrightarrow>
   length (nextIndex rf') = peers rf \<Longrightarrow> length (matchIndex rf') = peers rf \<Longrightarrow> sound rf'"
  by (simp add: sound_def wfRaft_def durable_def)

end
