(* ===== verification/RaftHandlers.thy ===== *)
theory RaftHandlers
  imports RaftInv
begin

text \<open>
  What each function of \<^verbatim>\<open>raft.go\<close> does to a well-formed peer: it does not panic, keeps the
  peer well-formed and its persistent variables on disk, never lowers the term and never
  changes a vote within a term.
\<close>

section \<open>The merge of AppendEntries\<close>

text \<open>
  \<open>mergeFits log p pt\<close>: the follower's log agrees with the request on the entry before the
  entries at hand, or that entry is already covered by its snapshot.
\<close>

definition mergeFits :: "'c LogEntry list \<Rightarrow> int \<Rightarrow> int \<Rightarrow> bool" where
  "mergeFits log p pt \<longleftrightarrow> p < firstIdx log \<or> (p \<le> lastIdx log \<and> termAt log p = pt)"

text \<open>What a merge guarantees of its result, \<open>p\<close> being the index before the first entry.\<close>

definition mergeResult ::
  "'c LogEntry list \<Rightarrow> int \<Rightarrow> int \<Rightarrow> 'c LogEntry list \<Rightarrow> 'c LogEntry list \<Rightarrow> bool" where
  "mergeResult log t p es log' \<longleftrightarrow>
     wfLog log' t \<and> firstIdx log' = firstIdx log \<and>
     take (nat (p + 1 - firstIdx log)) log' = take (nat (p + 1 - firstIdx log)) log \<and>
     (\<forall>e \<in> set es. firstIdx log \<le> Index e \<longrightarrow>
        Index e \<le> lastIdx log' \<and> termAt log' (Index e) = Term e) \<and>
     (log' = log \<or> lastIdx log' = p + int (length es))"

lemma contig_Index_ge: "contig i es \<Longrightarrow> e \<in> set es \<Longrightarrow> i \<le> Index e"
  by (induction es arbitrary: i) fastforce+

lemma spliced_terms:
  assumes wf: "wfLog (take k log @ es) t" and k: "k \<le> length log" and e: "e \<in> set es"
    and first: "firstIdx (take k log @ es) = firstIdx log" and c: "contig (firstIdx log + int k) es"
  shows "Index e \<le> lastIdx (take k log @ es)" "termAt (take k log @ es) (Index e) = Term e"
proof -
  obtain j where j: "j < length es" "e = es ! j" using e by (auto simp: in_set_conv_nth)
  have i: "Index e = firstIdx log + int (k + j)" using contig_nth[OF c j(1)] j by simp
  then show "Index e \<le> lastIdx (take k log @ es)"
    using j k by (simp add: lastIdx_def first)
  have "(take k log @ es) ! (k + j) = e" using j k by (simp add: nth_append)
  moreover have "nat (Index e - firstIdx log) = k + j" using i by simp
  ultimately show "termAt (take k log @ es) (Index e) = Term e"
    by (simp only: termAt_def first)
qed

lemma mergeResult_splice:
  assumes wf: "wfLog log t" and es: "es \<noteq> []" "contig (p + 1) es" "sorted (pt # map Term es)"
      "\<forall>e \<in> set es. Term e \<le> t" and pt: "0 \<le> pt"
    and fits: "mergeFits log p pt" and p: "firstIdx log \<le> p + 1"
  shows "p + 1 - firstIdx log \<le> int (length log)"
    and "mergeResult log t p es (take (nat (p + 1 - firstIdx log)) log @ es)"
proof -
  define k where "k = nat (p + 1 - firstIdx log)"
  have len: "0 < length log" using wf by (rule wfLog_length)
  show bound: "p + 1 - firstIdx log \<le> int (length log)"
    using fits p len by (auto simp: mergeFits_def lastIdx_def)
  then have k: "k \<le> length log" "p + 1 = firstIdx log + int k" using p by (auto simp: k_def)
  have c: "contig (firstIdx log + int k) es" using es(2) k(2) by simp
  have terms: "sorted (map Term es)" "\<forall>e \<in> set es. 0 \<le> Term e \<and> Term e \<le> t"
    using es pt by (auto dest: order_trans)
  have join: "Term (log ! (k - 1)) \<le> Term (hd es)" if "0 < k"
  proof -
    have "\<not> p < firstIdx log" using that k(2) by simp
    then have "termAt log p = pt" using fits by (auto simp: mergeFits_def)
    moreover have "nat (p - firstIdx log) = k - 1" using that k(2) by simp
    ultimately show ?thesis using es(1,3) by (cases es) (auto simp: termAt_def)
  qed
  note splice = wfLog_splice[OF wf k(1) es(1) c terms join]
  have "lastIdx (take k log @ es) = p + int (length es)"
    using k by (simp add: lastIdx_def splice(2))
  then show "mergeResult log t p es (take (nat (p + 1 - firstIdx log)) log @ es)"
    unfolding mergeResult_def k_def [symmetric]
    using splice spliced_terms[OF splice(1) k(1) _ splice(2) c] k(1) by auto
qed

lemma mergeResult_Cons:
  assumes r: "mergeResult log t (p + 1) es log'" and e: "Index e = p + 1"
    and m: "firstIdx log \<le> p + 1 \<Longrightarrow> p + 1 \<le> lastIdx log \<and> termAt log (p + 1) = Term e"
  shows "mergeResult log t p (e # es) log'"
proof -
  define k where "k = nat (p + 1 + 1 - firstIdx log)"
  have tk: "take k log' = take k log" and first: "firstIdx log' = firstIdx log"
    using r by (auto simp: mergeResult_def k_def)
  have n: "nat (p + 1 - firstIdx log) \<le> k" unfolding k_def by (rule nat_mono) simp
  have "take (nat (p + 1 - firstIdx log)) log' = take (nat (p + 1 - firstIdx log)) log"
    using arg_cong[OF tk, of "take (nat (p + 1 - firstIdx log))"] n
    by (simp only: take_take min.absorb1)
  moreover have "p + 1 \<le> lastIdx log' \<and> termAt log' (p + 1) = Term e" if f: "firstIdx log \<le> p + 1"
  proof -
    have lt: "nat (p + 1 - firstIdx log) < k" "k \<le> length log"
      using m[OF f] f by (auto simp: k_def lastIdx_def)
    then have "length (take k log') = k" by (simp add: tk)
    then have "k \<le> length log'" by simp
    then have "p + 1 \<le> lastIdx log'" unfolding lastIdx_def first using lt(1) f by linarith
    moreover have "log' ! nat (p + 1 - firstIdx log) = log ! nat (p + 1 - firstIdx log)"
      using lt nth_take[of _ k log'] nth_take[of _ k log] by (simp add: tk)
    ultimately show ?thesis
      using m[OF f] by (simp only: termAt_def first)
  qed
  moreover have "log' = log \<or> lastIdx log' = p + int (length (e # es))"
    using r by (simp add: mergeResult_def add.assoc)
  moreover have "\<forall>e \<in> set es. firstIdx log \<le> Index e \<longrightarrow>
      Index e \<le> lastIdx log' \<and> termAt log' (Index e) = Term e" "wfLog log' t"
    using r unfolding mergeResult_def by blast+
  ultimately show ?thesis
    unfolding mergeResult_def using first e by simp
qed

lemma mergeEntries_ok:
  assumes "wfLog log t" "contig (p + 1) es" "sorted (pt # map Term es)"
    "\<forall>e \<in> set es. Term e \<le> t" "0 \<le> pt" "mergeFits log p pt"
  shows "\<exists>log'. mergeEntries log (firstIdx log) es = Some log' \<and> mergeResult log t p es log'"
  using assms
proof (induction es arbitrary: p pt)
  case Nil
  then show ?case by (auto simp: mergeResult_def)
next
  case (Cons e es)
  have e: "Index e = p + 1" using Cons.prems by simp
  have rest: "contig (p + 1 + 1) es" "sorted (Term e # map Term es)" "\<forall>e \<in> set es. Term e \<le> t"
    "0 \<le> Term e"
    using Cons.prems by auto
  show ?case
  proof (cases "firstIdx log \<le> p + 1 \<and> (p + 1 > lastIdx log \<or> termAt log (p + 1) \<noteq> Term e)")
    case True
    note spl = mergeResult_splice[OF Cons.prems(1) _ Cons.prems(2-6)]
    have "mergeEntries log (firstIdx log) (e # es) =
        Some (take (nat (p + 1 - firstIdx log)) log @ e # es)"
      using True spl(1) e by (auto simp: go_upto_def go_index_def lastIdx_def termAt_def)
    then show ?thesis using spl(2) True by auto
  next
    case False
    have m: "p + 1 \<le> lastIdx log \<and> termAt log (p + 1) = Term e" if "firstIdx log \<le> p + 1"
      using False that by auto
    then have "mergeFits log (p + 1) (Term e)" by (auto simp: mergeFits_def)
    then obtain log' where
      l: "mergeEntries log (firstIdx log) es = Some log'" "mergeResult log t (p + 1) es log'"
      using Cons.IH[OF Cons.prems(1) rest(1,2,3,4)] by auto
    have "mergeEntries log (firstIdx log) (e # es) = mergeEntries log (firstIdx log) es"
      using m e by (auto simp: go_index_def lastIdx_def termAt_def)
    then show ?thesis using l mergeResult_Cons[OF l(2) e m] by auto
  qed
qed

section \<open>RequestVote and elections\<close>

lemma isLogUpToDate_Some:
  "Log rf \<noteq> [] \<Longrightarrow> isLogUpToDate rf lt li =
     Some (Term (last (Log rf)) < lt \<or> (lt = Term (last (Log rf)) \<and> Index (last (Log rf)) \<le> li))"
  by (simp add: isLogUpToDate_def)

lemma wfRaft_Log [simp]: "wfRaft rf \<Longrightarrow> Log rf \<noteq> []"
  using wfLog_nonempty by (auto simp: wfRaft_def)

lemma wfRaft_term:
  "wfRaft rf \<Longrightarrow> CurrentTerm rf \<le> t \<Longrightarrow> wfRaft (rf\<lparr>CurrentTerm := t, VotedFor := v\<rparr>)"
  by (auto simp: wfRaft_def intro: wfLog_mono)

lemma wfRaft_state [simp]: "wfRaft (rf\<lparr>state := s\<rparr>) = wfRaft rf"
  by (simp add: wfRaft_def)

lemma RequestVote_no_panic:
  assumes "wfRaft rf"
  shows "RequestVote rf args \<noteq> None"
  using assms by (auto simp: RequestVote_def isLogUpToDate_Some Let_def)

lemma RequestVote_keeps:
  assumes "RequestVote rf args = Some (rf', reply)" "wfRaft rf" "durable rf"
  shows "wfRaft rf'" "durable rf'" "voteStep rf rf'"
  using assms
  by (auto simp: RequestVote_def isLogUpToDate_Some Let_def voteStep_def split: if_splits;
      auto simp: wfRaft_def intro: wfLog_mono)+

section \<open>AppendEntries\<close>

lemma conflictScan_Some:
  assumes "wfLog log t" "firstIdx log \<le> index + 1" "index \<le> lastIdx log"
  shows "\<exists>j. conflictScan log (firstIdx log) x index = Some j \<and> firstIdx log \<le> j + 1 \<and> j \<le> index \<and>
      (\<forall>i. j < i \<and> i \<le> index \<longrightarrow> termAt log i = x) \<and> (j < firstIdx log \<or> termAt log j \<noteq> x)"
  using assms
proof (induction log "firstIdx log" x index rule: conflictScan.induct)
  case (1 log x index)
  show ?case
  proof (cases "firstIdx log \<le> index \<and> termAt log index = x")
    case True
    have idx: "go_index log (index - firstIdx log) = Some (log ! nat (index - firstIdx log))"
      using wfLog_index[OF "1.prems"(1)] True "1.prems" by simp
    obtain j where j: "conflictScan log (firstIdx log) x (index - 1) = Some j" "firstIdx log \<le> j + 1"
      "j \<le> index - 1" "\<forall>i. j < i \<and> i \<le> index - 1 \<longrightarrow> termAt log i = x"
      "j < firstIdx log \<or> termAt log j \<noteq> x"
      using "1.hyps"[OF _ idx] True "1.prems" by (auto simp: termAt_def)
    have "\<forall>i. j < i \<and> i \<le> index \<longrightarrow> termAt log i = x"
      using j(4) True by (metis zle_diff1_eq order_le_less)
    moreover have "conflictScan log (firstIdx log) x index = Some j"
      using j(1) True idx by (simp add: conflictScan.simps[of log _ x index] termAt_def)
    ultimately show ?thesis using j by auto
  next
    case False
    have "conflictScan log (firstIdx log) x index = Some index"
      using False wfLog_index[OF "1.prems"(1)] "1.prems"
      by (auto simp: conflictScan.simps[of log _ x index] termAt_def)
    then show ?thesis using False "1.prems" by auto
  qed
qed

lemma isLogMatched_Some:
  assumes "wfLog (Log rf) t"
  shows "isLogMatched rf pt p = Some (mergeFits (Log rf) p pt)"
proof -
  have "Index (last (Log rf)) = lastIdx (Log rf)" using assms by (rule wfLog_last)
  then show ?thesis
    using assms wfLog_index[OF assms, of p]
    by (auto simp: isLogMatched_def mergeFits_def termAt_def)
qed

text \<open>The peer after the term check and \<^verbatim>\<open>changeState(FOLLOWER)\<close> of AppendEntries.\<close>

definition stepDown :: "('c, 'b) Raft \<Rightarrow> int \<Rightarrow> ('c, 'b) Raft" where
  "stepDown rf t =
     (if t > CurrentTerm rf then rf\<lparr>CurrentTerm := t, VotedFor := -1, state := FOLLOWER\<rparr>
      else rf\<lparr>state := FOLLOWER\<rparr>)"

lemma stepDown_simps [simp]:
  "Log (stepDown rf t) = Log rf" "me (stepDown rf t) = me rf" "peers (stepDown rf t) = peers rf"
  "state (stepDown rf t) = FOLLOWER" "CurrentTerm (stepDown rf t) = max (CurrentTerm rf) t"
  "nextIndex (stepDown rf t) = nextIndex rf" "matchIndex (stepDown rf t) = matchIndex rf"
  "CommitIndex (stepDown rf t) = CommitIndex rf" "LastApplied (stepDown rf t) = LastApplied rf"
  "persister (stepDown rf t) = persister rf" "applying (stepDown rf t) = applying rf"
  "snapshotsToPush (stepDown rf t) = snapshotsToPush rf"
  "snapshotsPushed (stepDown rf t) = snapshotsPushed rf"
  by (simp_all add: stepDown_def)

lemma quiet_stepDown:
  "me rf' = me rf \<Longrightarrow> peers rf' = peers rf \<Longrightarrow> CurrentTerm rf' = CurrentTerm (stepDown rf t) \<Longrightarrow>
   VotedFor rf' = VotedFor (stepDown rf t) \<Longrightarrow> state rf' = FOLLOWER \<Longrightarrow> quiet rf rf'"
  by (auto simp: quiet_def stepDown_def split: if_splits)

lemma AppendEntries_eq:
  "AppendEntries rf args =
     (if aeTerm args < CurrentTerm rf
      then Some (rf, emptyAppendEntriesReply\<lparr>aerTerm := CurrentTerm rf, aerSuccess := False\<rparr>)
      else do {
        let rf = stepDown rf (aeTerm args);
        matched \<leftarrow> isLogMatched rf (aePrevLogTerm args) (aePrevLogIndex args);
        first \<leftarrow> getFirstLog rf;
        if \<not> matched
        then do {
          last \<leftarrow> getLastLog rf;
          let reply = emptyAppendEntriesReply\<lparr>aerTerm := CurrentTerm rf, aerSuccess := False\<rparr>;
          if aePrevLogIndex args > Index last
          then Some (persist rf, reply\<lparr>aerXTerm := -1, aerXIndex := Index last + 1,
                                       aerXLen := Index first + 1\<rparr>)
          else do {
            e \<leftarrow> go_index (Log rf) (aePrevLogIndex args - Index first);
            index \<leftarrow> conflictScan (Log rf) (Index first) (Term e) (aePrevLogIndex args - 1);
            Some (persist rf, reply\<lparr>aerXTerm := Term e, aerXIndex := index + 1\<rparr>)
          }
        }
        else do {
          log \<leftarrow> mergeEntries (Log rf) (Index first) (aeEntries args);
          rf \<leftarrow> advanceCommitIndexForFollower (rf\<lparr>Log := log\<rparr>) (aeTerm args) (aeLeaderCommit args);
          Some (persist rf, emptyAppendEntriesReply\<lparr>aerTerm := CurrentTerm rf, aerSuccess := True\<rparr>)
        }
      })"
  by (simp add: AppendEntries_def stepDown_def changeState_def cong: if_cong)

lemma AppendEntries_short:
  assumes wf: "wfRaft rf" and t: "CurrentTerm rf \<le> aeTerm args"
    and short: "lastIdx (Log rf) < aePrevLogIndex args"
  shows "AppendEntries rf args =
    Some (persist (stepDown rf (aeTerm args)),
          \<lparr>aerTerm = aeTerm args, aerSuccess = False, aerXTerm = -1, aerXIndex = lastIdx (Log rf) + 1,
           aerXLen = firstIdx (Log rf) + 1\<rparr>)"
proof -
  have wl: "wfLog (Log rf) (CurrentTerm rf)" using wf by (simp add: wfRaft_def)
  have "\<not> mergeFits (Log rf) (aePrevLogIndex args) (aePrevLogTerm args)"
    using short wfLog_first_le_last[OF wl] by (auto simp: mergeFits_def)
  moreover have "isLogMatched (stepDown rf (aeTerm args)) (aePrevLogTerm args) (aePrevLogIndex args) =
      Some (mergeFits (Log rf) (aePrevLogIndex args) (aePrevLogTerm args))"
    using isLogMatched_Some[of "stepDown rf (aeTerm args)"] wl by simp
  ultimately show ?thesis
    using wf t short by (simp add: AppendEntries_eq wfLog_last[OF wl] emptyAppendEntriesReply_def)
qed

lemma AppendEntries_conflict:
  assumes wf: "wfRaft rf" and t: "CurrentTerm rf \<le> aeTerm args"
    and p: "firstIdx (Log rf) \<le> aePrevLogIndex args" "aePrevLogIndex args \<le> lastIdx (Log rf)"
    and c: "termAt (Log rf) (aePrevLogIndex args) \<noteq> aePrevLogTerm args"
  shows "\<exists>x. AppendEntries rf args =
      Some (persist (stepDown rf (aeTerm args)),
            \<lparr>aerTerm = aeTerm args, aerSuccess = False,
             aerXTerm = termAt (Log rf) (aePrevLogIndex args), aerXIndex = x, aerXLen = 0\<rparr>) \<and>
    firstIdx (Log rf) \<le> x \<and> x \<le> aePrevLogIndex args \<and>
    (\<forall>i. x \<le> i \<and> i \<le> aePrevLogIndex args \<longrightarrow>
         termAt (Log rf) i = termAt (Log rf) (aePrevLogIndex args)) \<and>
    (x = firstIdx (Log rf) \<or> termAt (Log rf) (x - 1) \<noteq> termAt (Log rf) (aePrevLogIndex args))"
proof -
  have wl: "wfLog (Log rf) (CurrentTerm rf)" using wf by (simp add: wfRaft_def)
  let ?p = "aePrevLogIndex args" and ?x = "termAt (Log rf) (aePrevLogIndex args)"
  obtain j where j: "conflictScan (Log rf) (firstIdx (Log rf)) ?x (?p - 1) = Some j"
    "firstIdx (Log rf) \<le> j + 1" "j \<le> ?p - 1" "\<forall>i. j < i \<and> i \<le> ?p - 1 \<longrightarrow> termAt (Log rf) i = ?x"
    "j < firstIdx (Log rf) \<or> termAt (Log rf) j \<noteq> ?x"
    using conflictScan_Some[OF wl, of "?p - 1" ?x] p by auto
  have "isLogMatched (stepDown rf (aeTerm args)) (aePrevLogTerm args) ?p = Some False"
    using isLogMatched_Some[of "stepDown rf (aeTerm args)"] wl p c by (simp add: mergeFits_def)
  then have "AppendEntries rf args =
      Some (persist (stepDown rf (aeTerm args)),
            \<lparr>aerTerm = aeTerm args, aerSuccess = False, aerXTerm = ?x, aerXIndex = j + 1, aerXLen = 0\<rparr>)"
    using wf t p j(1) wfLog_index[OF wl p]
    by (simp add: AppendEntries_eq wfLog_last[OF wl] emptyAppendEntriesReply_def termAt_def)
  moreover have "\<forall>i. j + 1 \<le> i \<and> i \<le> ?p \<longrightarrow> termAt (Log rf) i = ?x"
    using j(4) by (metis add1_zle_eq zle_diff1_eq order_le_less)
  moreover have "j + 1 = firstIdx (Log rf) \<or> termAt (Log rf) (j + 1 - 1) \<noteq> ?x"
    using j(2,5) by (simp only: add_diff_cancel) linarith
  moreover have "j + 1 \<le> ?p" using j(3) by linarith
  ultimately show ?thesis using j(2) by blast
qed

lemma AppendEntries_success:
  assumes wf: "wfRaft rf" and t: "CurrentTerm rf \<le> aeTerm args" and ae: "wfAppendEntries args"
    and fits: "mergeFits (Log rf) (aePrevLogIndex args) (aePrevLogTerm args)"
  shows "\<exists>log'. mergeResult (Log rf) (aeTerm args) (aePrevLogIndex args) (aeEntries args) log' \<and>
    mergeEntries (Log rf) (firstIdx (Log rf)) (aeEntries args) = Some log' \<and>
    AppendEntries rf args =
      Some (persist ((stepDown rf (aeTerm args))\<lparr>Log := log',
              CommitIndex := (if Term (last log') = aeTerm args
                              then min (aeLeaderCommit args) (lastIdx log')
                              else CommitIndex rf)\<rparr>),
            \<lparr>aerTerm = aeTerm args, aerSuccess = True, aerXTerm = 0, aerXIndex = 0, aerXLen = 0\<rparr>)"
proof -
  have wl: "wfLog (Log rf) (aeTerm args)" using wf t by (auto simp: wfRaft_def intro: wfLog_mono)
  obtain log' where
    m: "mergeEntries (Log rf) (firstIdx (Log rf)) (aeEntries args) = Some log'" and
    r: "mergeResult (Log rf) (aeTerm args) (aePrevLogIndex args) (aeEntries args) log'"
    using mergeEntries_ok[OF wl _ _ _ _ fits, of "aeEntries args"] ae by (auto simp: wfAppendEntries_def)
  have wl': "wfLog log' (aeTerm args)" using r by (simp add: mergeResult_def)
  have "isLogMatched (stepDown rf (aeTerm args)) (aePrevLogTerm args) (aePrevLogIndex args) = Some True"
    using isLogMatched_Some[of "stepDown rf (aeTerm args)"] wl fits by simp
  then have eq: "AppendEntries rf args =
      Some (persist (if Term (last log') = aeTerm args
              then (stepDown rf (aeTerm args))\<lparr>Log := log',
                     CommitIndex := min (aeLeaderCommit args) (lastIdx log')\<rparr>
              else (stepDown rf (aeTerm args))\<lparr>Log := log'\<rparr>),
            \<lparr>aerTerm = aeTerm args, aerSuccess = True, aerXTerm = 0, aerXIndex = 0, aerXLen = 0\<rparr>)"
    using wf t m wl' wfLog_last[OF wl']
    by (simp add: AppendEntries_eq emptyAppendEntriesReply_def advanceCommitIndexForFollower_def)
  have same: "(if Term (last log') = aeTerm args
       then (stepDown rf (aeTerm args))\<lparr>Log := log',
              CommitIndex := min (aeLeaderCommit args) (lastIdx log')\<rparr>
       else (stepDown rf (aeTerm args))\<lparr>Log := log'\<rparr>) =
      (stepDown rf (aeTerm args))\<lparr>Log := log',
         CommitIndex := (if Term (last log') = aeTerm args
                         then min (aeLeaderCommit args) (lastIdx log') else CommitIndex rf)\<rparr>"
    by (rule Raft.equality) simp_all
  show ?thesis using eq[unfolded same] m r by blast
qed

lemma AppendEntries_cases:
  assumes "wfRaft rf"
  obtains (stale) "aeTerm args < CurrentTerm rf"
  | (short) "CurrentTerm rf \<le> aeTerm args" "lastIdx (Log rf) < aePrevLogIndex args"
  | (conflict) "CurrentTerm rf \<le> aeTerm args" "firstIdx (Log rf) \<le> aePrevLogIndex args"
      "aePrevLogIndex args \<le> lastIdx (Log rf)"
      "termAt (Log rf) (aePrevLogIndex args) \<noteq> aePrevLogTerm args"
  | (success) "CurrentTerm rf \<le> aeTerm args"
      "mergeFits (Log rf) (aePrevLogIndex args) (aePrevLogTerm args)"
  using assms by (auto simp: mergeFits_def) (metis not_le)

lemma wfRaft_stepDown: "wfRaft rf \<Longrightarrow> wfRaft (stepDown rf t)"
  by (auto simp: wfRaft_def intro: wfLog_mono)

lemma AppendEntries_keeps:
  assumes wf: "wfRaft rf" and d: "durable rf" and ae: "wfAppendEntries args"
  shows "\<exists>rf' reply. AppendEntries rf args = Some (rf', reply) \<and> sound rf' \<and> quiet rf rf'"
  using wf
proof (cases rule: AppendEntries_cases[where args = args])
  case stale
  then show ?thesis using wf d by (simp add: AppendEntries_eq sound_def)
next
  case short
  then show ?thesis
    using AppendEntries_short[OF wf] wfRaft_stepDown[OF wf]
    by (auto simp: sound_def intro!: quiet_stepDown)
next
  case conflict
  then obtain reply where
    "AppendEntries rf args = Some (persist (stepDown rf (aeTerm args)), reply)"
    using AppendEntries_conflict[OF wf] by blast
  then show ?thesis using wfRaft_stepDown[OF wf] by (auto simp: sound_def intro!: quiet_stepDown)
next
  case success
  obtain log' where r: "mergeResult (Log rf) (aeTerm args) (aePrevLogIndex args) (aeEntries args) log'"
    and eq: "AppendEntries rf args =
      Some (persist ((stepDown rf (aeTerm args))\<lparr>Log := log',
              CommitIndex := (if Term (last log') = aeTerm args
                              then min (aeLeaderCommit args) (lastIdx log')
                              else CommitIndex rf)\<rparr>),
            \<lparr>aerTerm = aeTerm args, aerSuccess = True, aerXTerm = 0, aerXIndex = 0, aerXLen = 0\<rparr>)"
    using AppendEntries_success[OF wf success(1) ae success(2)] by auto
  have "wfLog log' (aeTerm args)" using r by (simp add: mergeResult_def)
  then show ?thesis
    using wf eq success
    by (auto simp: sound_def wfRaft_def max_absorb2 intro!: quiet_stepDown[where t = "aeTerm args"])
qed

section \<open>InstallSnapshot and Snapshot\<close>

lemma InstallSnapshot_eq:
  assumes wf: "wfRaft rf" and t: "CurrentTerm rf \<le> isTerm args"
  shows "InstallSnapshot rf args =
    (let reply = \<lparr>isrTerm = CurrentTerm rf\<rparr>;
         rf1 = (if isTerm args > CurrentTerm rf
                then persist (rf\<lparr>CurrentTerm := isTerm args, VotedFor := -1\<rparr>) else rf)\<lparr>state := FOLLOWER\<rparr>;
         i = isLastIncludedIndex args
     in if i \<le> CommitIndex rf \<or> i \<le> firstIdx (Log rf) then Some (rf1, reply)
        else
          let log = (if i \<le> lastIdx (Log rf) \<and> termAt (Log rf) i = isLastIncludedTerm args
                     then drop (nat (i - firstIdx (Log rf))) (Log rf)
                     else [\<lparr>Term = isLastIncludedTerm args, Command = None, Index = i\<rparr>]);
              rf2 = rf1\<lparr>Log := log, CommitIndex := i\<rparr>;
              rf3 = rf2\<lparr>persister := Save (persister rf2) (encodeRaftState rf2) (isData args)\<rparr>
          in Some (rf3\<lparr>snapshotsToPush := snapshotsToPush rf @ [(isData args, i, isLastIncludedTerm args)]\<rparr>,
                   reply))"
proof -
  have wl: "wfLog (Log rf) (CurrentTerm rf)" using wf by (simp add: wfRaft_def)
  have go: "firstIdx (Log rf) \<le> i \<Longrightarrow> i \<le> lastIdx (Log rf) \<Longrightarrow>
      go_from (Log rf) (i - firstIdx (Log rf)) = Some (drop (nat (i - firstIdx (Log rf))) (Log rf))" for i
    by (simp add: go_from_def lastIdx_def)
  show ?thesis
    using wf t wfLog_index[OF wl, of "isLastIncludedIndex args"] go[of "isLastIncludedIndex args"]
    by (auto simp: InstallSnapshot_def wfLog_last[OF wl] termAt_def)
qed

lemma InstallSnapshot_keeps:
  assumes s: "sound rf" and a: "wfInstallSnapshot args"
  shows "\<exists>rf' reply. InstallSnapshot rf args = Some (rf', reply) \<and> sound rf' \<and> quiet rf rf'"
proof (cases "isTerm args < CurrentTerm rf")
  case True
  then show ?thesis using s by (simp add: InstallSnapshot_def)
next
  case False
  then have t: "CurrentTerm rf \<le> isTerm args" by simp
  have wf: "wfRaft rf" and d: "durable rf" using s by (simp_all add: sound_def)
  have wl: "wfLog (Log rf) (isTerm args)" using wf t by (auto simp: wfRaft_def intro: wfLog_mono)
  let ?i = "isLastIncludedIndex args"
  let ?l = "drop (nat (?i - firstIdx (Log rf))) (Log rf)"
  have dropped: "wfLog ?l (isTerm args)" if "firstIdx (Log rf) \<le> ?i" "?i \<le> lastIdx (Log rf)"
    using wfLog_drop(1)[OF wl, of "nat (?i - firstIdx (Log rf))"] that by (simp add: lastIdx_def)
  have fresh: "wfLog [\<lparr>Term = isLastIncludedTerm args, Command = None, Index = ?i\<rparr>] (isTerm args)"
    if "firstIdx (Log rf) \<le> ?i"
    using a that wl by (auto simp: wfInstallSnapshot_def wfLog_def)
  define rf1 where "rf1 = (if isTerm args > CurrentTerm rf
      then persist (rf\<lparr>CurrentTerm := isTerm args, VotedFor := -1\<rparr>) else rf)\<lparr>state := FOLLOWER\<rparr>"
  have rf1: "Log rf1 = Log rf" "CurrentTerm rf1 = isTerm args" "me rf1 = me rf" "peers rf1 = peers rf"
    "state rf1 = FOLLOWER" "nextIndex rf1 = nextIndex rf" "matchIndex rf1 = matchIndex rf"
    using t by (auto simp: rf1_def)
  have "durable rf1"
    using d durable_persist[of "rf\<lparr>CurrentTerm := isTerm args, VotedFor := -1\<rparr>"]
    by (simp add: rf1_def durable_def)
  then have s1: "sound rf1" using wf wl by (simp add: sound_def wfRaft_def rf1)
  have q1: "quiet rf rf1" using t by (auto simp: quiet_def rf1_def)
  show ?thesis
  proof (cases "?i \<le> CommitIndex rf \<or> ?i \<le> firstIdx (Log rf)")
    case True
    then show ?thesis using s1 q1 by (simp add: InstallSnapshot_eq[OF wf t] rf1_def [symmetric])
  next
    case ins: False
    define log where "log = (if ?i \<le> lastIdx (Log rf) \<and> termAt (Log rf) ?i = isLastIncludedTerm args
       then ?l else [\<lparr>Term = isLastIncludedTerm args, Command = None, Index = ?i\<rparr>])"
    define rf2 where "rf2 = rf1\<lparr>Log := log, CommitIndex := ?i\<rparr>"
    define rf' where "rf' = rf2\<lparr>persister := Save (persister rf2) (encodeRaftState rf2) (isData args),
       snapshotsToPush := snapshotsToPush rf @ [(isData args, ?i, isLastIncludedTerm args)]\<rparr>"
    have wl': "wfLog log (isTerm args)" using dropped fresh ins by (auto simp: log_def)
    have eq: "InstallSnapshot rf args = Some (rf', \<lparr>isrTerm = CurrentTerm rf\<rparr>)"
      using ins by (simp add: InstallSnapshot_eq[OF wf t] rf1_def [symmetric] log_def rf2_def rf'_def)
    have "sound rf'"
      using wf wl' by (simp add: sound_def wfRaft_def durable_def recovered_def rf'_def rf2_def rf1)
    moreover have "quiet rf rf'" using q1 by (simp add: quiet_def rf'_def rf2_def)
    ultimately show ?thesis using eq by blast
  qed
qed

lemma Snapshot_eq:
  assumes wf: "wfRaft rf" and i: "i \<le> lastIdx (Log rf)"
  shows "Snapshot rf i snap =
    Some (if i \<le> firstIdx (Log rf) then rf
          else (let rf' = rf\<lparr>Log := drop (nat (i - firstIdx (Log rf))) (Log rf)\<rparr>
                in rf'\<lparr>persister := Save (persister rf') (encodeRaftState rf') snap\<rparr>))"
  using wf i by (auto simp: Snapshot_def go_from_def lastIdx_def)

lemma Snapshot_keeps:
  assumes s: "sound rf" and i: "i \<le> lastIdx (Log rf)"
  shows "\<exists>rf'. Snapshot rf i snap = Some rf' \<and> sound rf' \<and> quiet rf rf'"
proof -
  have wf: "wfRaft rf" using s by (simp add: sound_def)
  have wl: "wfLog (Log rf) (CurrentTerm rf)" using wf by (simp add: wfRaft_def)
  have "wfLog (drop (nat (i - firstIdx (Log rf))) (Log rf)) (CurrentTerm rf)" if "firstIdx (Log rf) < i"
    using wfLog_drop(1)[OF wl, of "nat (i - firstIdx (Log rf))"] that i by (simp add: lastIdx_def)
  then show ?thesis
    using s by (auto simp: Snapshot_eq[OF wf i] sound_def wfRaft_def quiet_def durable_def recovered_def)
qed

section \<open>The leader\<close>

lemma wfLog_snoc:
  assumes "wfLog log t"
  shows "wfLog (log @ [\<lparr>Term = t, Command = c, Index = lastIdx log + 1\<rparr>]) t"
proof -
  have "0 \<le> t" using assms by (cases log) (auto simp: wfLog_def)
  moreover have "Term (log ! (length log - 1)) \<le> t"
    using assms wfLog_length[OF assms] by (simp add: wfLog_def)
  ultimately show ?thesis
    using wfLog_splice(1)[OF assms order_refl, of "[\<lparr>Term = t, Command = c, Index = lastIdx log + 1\<rparr>]"]
    by (simp add: lastIdx_def)
qed

lemma Start_leader:
  assumes wf: "wfRaft rf" and l: "state rf = LEADER"
  shows "Start rf c =
    (let e = \<lparr>Term = CurrentTerm rf, Command = c, Index = lastIdx (Log rf) + 1\<rparr>;
         rf' = persist (rf\<lparr>Log := Log rf @ [e], matchIndex := (matchIndex rf)[nat (me rf) := Index e]\<rparr>)
     in Some (rf', otherPeers rf, lastIdx (Log rf) + 1, CurrentTerm rf, True))"
proof -
  have wl: "wfLog (Log rf) (CurrentTerm rf)" using wf by (simp add: wfRaft_def)
  show ?thesis
    using wf l by (auto simp: Start_def appendNewLogEntry_def wfLog_last[OF wl] go_set_def wfRaft_def
        broadcast_def otherPeers_def)
qed

lemma Start_keeps:
  assumes s: "sound rf"
  shows "\<exists>rf' out. Start rf c = Some (rf', out) \<and> sound rf' \<and> quiet rf rf'"
proof (cases "state rf = LEADER")
  case True
  have wf: "wfRaft rf" using s by (simp add: sound_def)
  then have "wfLog (Log rf @ [\<lparr>Term = CurrentTerm rf, Command = c, Index = lastIdx (Log rf) + 1\<rparr>])
      (CurrentTerm rf)"
    by (auto simp: wfRaft_def intro: wfLog_snoc)
  then show ?thesis
    using wf by (auto simp: Start_leader[OF wf True] sound_def wfRaft_def quiet_def)
next
  case False
  then have "Start rf c = Some (rf, [], -1, -1, False)" by (simp add: Start_def)
  then show ?thesis using s quiet_refl by blast
qed

lemma leaderIndices_Some:
  assumes "Log rf \<noteq> []" "length (matchIndex rf) = length (nextIndex rf)"
    "\<forall>i \<in> set is. 0 \<le> i \<and> i < int (length (nextIndex rf))"
  shows "\<exists>ni mi. leaderIndices rf is = Some (rf\<lparr>nextIndex := ni, matchIndex := mi\<rparr>) \<and>
    length ni = length (nextIndex rf) \<and> length mi = length (nextIndex rf) \<and>
    (\<forall>j < length ni. ni ! j = (if int j \<in> set is \<and> int j \<noteq> me rf then Index (last (Log rf)) + 1
                             else nextIndex rf ! j) \<and>
                    mi ! j = (if int j \<in> set is
                              then (if int j = me rf then Index (last (Log rf)) else 0)
                              else matchIndex rf ! j))"
  using assms
proof (induction "is" arbitrary: rf)
  case Nil
  then show ?case by (intro exI[of _ "nextIndex rf"] exI[of _ "matchIndex rf"]) simp
next
  case (Cons i "is")
  define rf1 where "rf1 = (if i \<noteq> me rf
      then rf\<lparr>nextIndex := (nextIndex rf)[nat i := Index (last (Log rf)) + 1],
              matchIndex := (matchIndex rf)[nat i := 0]\<rparr>
      else rf\<lparr>matchIndex := (matchIndex rf)[nat i := Index (last (Log rf))]\<rparr>)"
  have rf1: "Log rf1 = Log rf" "me rf1 = me rf" "length (nextIndex rf1) = length (nextIndex rf)"
    "length (matchIndex rf1) = length (nextIndex rf)"
    using Cons.prems by (auto simp: rf1_def)
  have step: "leaderIndices rf (i # is) = leaderIndices rf1 is"
    using Cons.prems by (auto simp: rf1_def go_set_def)
  obtain ni mi where r: "leaderIndices rf1 is = Some (rf1\<lparr>nextIndex := ni, matchIndex := mi\<rparr>)"
    and len: "length ni = length (nextIndex rf)" "length mi = length (nextIndex rf)"
    and v: "\<forall>j < length ni.
       ni ! j = (if int j \<in> set is \<and> int j \<noteq> me rf then Index (last (Log rf)) + 1 else nextIndex rf1 ! j) \<and>
       mi ! j = (if int j \<in> set is then (if int j = me rf then Index (last (Log rf)) else 0)
                 else matchIndex rf1 ! j)"
    using Cons.IH[of rf1] Cons.prems by (auto simp: rf1)
  have "rf1\<lparr>nextIndex := ni, matchIndex := mi\<rparr> = rf\<lparr>nextIndex := ni, matchIndex := mi\<rparr>"
    by (simp add: rf1_def)
  moreover have "nextIndex rf1 ! j = (if int j = i \<and> i \<noteq> me rf then Index (last (Log rf)) + 1
       else nextIndex rf ! j) \<and>
     matchIndex rf1 ! j = (if int j = i then (if i = me rf then Index (last (Log rf)) else 0)
       else matchIndex rf ! j)" if "j < length ni" for j
    using that len Cons.prems by (auto simp: rf1_def nth_list_update)
  ultimately show ?case using step r len v by (intro exI[of _ ni] exI[of _ mi]) auto
qed

lemma go_range_set: "i \<in> set (go_range xs) \<longleftrightarrow> 0 \<le> i \<and> i < int (length xs)"
  by (auto simp: go_range_def image_iff intro!: bexI[of _ "nat i"])

lemma changeState_LEADER:
  assumes "wfRaft rf"
  shows "\<exists>ni mi. changeState rf LEADER = Some (rf\<lparr>state := LEADER, nextIndex := ni, matchIndex := mi\<rparr>) \<and>
    length ni = peers rf \<and> length mi = peers rf \<and>
    (\<forall>j < peers rf. (int j \<noteq> me rf \<longrightarrow> ni ! j = lastIdx (Log rf) + 1 \<and> mi ! j = 0) \<and>
                    (int j = me rf \<longrightarrow> mi ! j = lastIdx (Log rf)))"
proof -
  have wl: "wfLog (Log rf) (CurrentTerm rf)" using assms by (simp add: wfRaft_def)
  have len: "length (nextIndex rf) = peers rf" "length (matchIndex rf) = peers rf"
    using assms by (simp_all add: wfRaft_def)
  obtain ni mi where
    "leaderIndices (rf\<lparr>state := LEADER\<rparr>) (go_range (nextIndex rf)) =
       Some (rf\<lparr>state := LEADER, nextIndex := ni, matchIndex := mi\<rparr>)"
    "length ni = peers rf" "length mi = peers rf"
    "\<forall>j < peers rf. ni ! j = (if int j \<noteq> me rf then lastIdx (Log rf) + 1 else nextIndex rf ! j) \<and>
       mi ! j = (if int j = me rf then lastIdx (Log rf) else 0)"
    using leaderIndices_Some[of "rf\<lparr>state := LEADER\<rparr>" "go_range (nextIndex rf)"] assms len
    by (auto simp: go_range_set wfLog_last[OF wl])
  then show ?thesis
    by (intro exI[of _ ni] exI[of _ mi]) (simp add: changeState_def)
qed

end
