(* ===== verification/RaftLeader.thy ===== *)
theory RaftLeader
  imports RaftHandlers
begin

text \<open>
  Elections, the leader's handling of replies, the applier and restart, on a peer in good
  order (\<^const>\<open>sound\<close>): what each step returns and that it keeps the peer in good order.
\<close>

section \<open>Elections\<close>

lemma electionTimeout_cases:
  assumes s: "sound rf" and l: "state rf \<noteq> LEADER"
  shows "\<exists>rf'. electionTimeout rf =
      Some (rf', map (\<lambda>peer. (peer, \<lparr>rvTerm = CurrentTerm rf + 1, rvCandidateId = me rf,
                                     rvLastLogIndex = lastIdx (Log rf),
                                     rvLastLogTerm = Term (last (Log rf))\<rparr>)) (otherPeers rf)) \<and>
    sound rf' \<and> CurrentTerm rf' = CurrentTerm rf + 1 \<and> VotedFor rf' = me rf \<and> state rf' = CANDIDATE \<and>
    me rf' = me rf \<and> peers rf' = peers rf \<and> Log rf' = Log rf \<and> CommitIndex rf' = CommitIndex rf"
proof -
  have wf: "wfRaft rf" using s by (simp add: sound_def)
  have wl: "wfLog (Log rf) (CurrentTerm rf)" using wf by (simp add: wfRaft_def)
  define rf' where
    "rf' = persist (rf\<lparr>state := CANDIDATE, VotedFor := me rf, CurrentTerm := CurrentTerm rf + 1\<rparr>)"
  have "wfLog (Log rf) (CurrentTerm rf + 1)" using wl by (rule wfLog_mono) simp
  then have "sound rf'" using wf by (simp add: rf'_def sound_def wfRaft_def)
  then show ?thesis
    using wf l by (intro exI[of _ rf'])
      (simp add: electionTimeout_def changeState_def startElect_def rf'_def otherPeers_def wfLog_last[OF wl])
qed

lemma electionTimeout_leader: "state rf = LEADER \<Longrightarrow> electionTimeout rf = Some (rf, [])"
  by (simp add: electionTimeout_def)

text \<open>The three outcomes of a vote reply.\<close>

lemma handleRequestVoteReply_newer:
  assumes "sound rf" "rvrTerm reply > CurrentTerm rf"
  shows "\<exists>rf'. handleRequestVoteReply rf cnt reply = Some (rf', cnt, []) \<and> sound rf' \<and> quiet rf rf'"
proof -
  define rf' where "rf' = persist (rf\<lparr>state := FOLLOWER, CurrentTerm := rvrTerm reply, VotedFor := -1\<rparr>)"
  have "wfLog (Log rf) (rvrTerm reply)"
    using assms by (auto simp: sound_def wfRaft_def intro: wfLog_mono)
  then have "sound rf'" using assms(1) by (simp add: rf'_def sound_def wfRaft_def)
  moreover have "quiet rf rf'" using assms(2) by (simp add: rf'_def quiet_def)
  ultimately show ?thesis
    using assms(2) by (simp add: handleRequestVoteReply_def changeState_def rf'_def)
qed

lemma handleRequestVoteReply_win:
  assumes s: "sound rf" and r: "rvrTerm reply = CurrentTerm rf" "rvrVoteGranted reply"
    and w: "cnt + 1 > int (peers rf div 2)" "state rf \<noteq> LEADER"
  shows "\<exists>rf' hb. handleRequestVoteReply rf cnt reply = Some (rf', cnt + 1, hb) \<and> sound rf' \<and>
    state rf' = LEADER \<and> CurrentTerm rf' = CurrentTerm rf \<and> VotedFor rf' = VotedFor rf \<and>
    me rf' = me rf \<and> peers rf' = peers rf \<and> Log rf' = Log rf \<and> CommitIndex rf' = CommitIndex rf"
proof -
  obtain ni mi where
    c: "changeState rf LEADER = Some (rf\<lparr>state := LEADER, nextIndex := ni, matchIndex := mi\<rparr>)"
    and len: "length ni = peers rf" "length mi = peers rf"
    using changeState_LEADER[OF soundD(1)[OF s]] by blast
  have "sound (rf\<lparr>state := LEADER, nextIndex := ni, matchIndex := mi\<rparr>)"
    by (rule sound_frame[OF s]) (simp_all add: len)
  then show ?thesis using r w c by (simp add: handleRequestVoteReply_def)
qed

lemma handleRequestVoteReply_count:
  assumes "rvrTerm reply = CurrentTerm rf" "rvrVoteGranted reply"
    "\<not> (cnt + 1 > int (peers rf div 2) \<and> state rf \<noteq> LEADER)"
  shows "handleRequestVoteReply rf cnt reply = Some (rf, cnt + 1, [])"
  using assms by (auto simp: handleRequestVoteReply_def)

lemma handleRequestVoteReply_ignore:
  assumes "rvrTerm reply \<le> CurrentTerm rf" "rvrTerm reply = CurrentTerm rf \<longrightarrow> \<not> rvrVoteGranted reply"
  shows "handleRequestVoteReply rf cnt reply = Some (rf, cnt, [])"
  using assms by (auto simp: handleRequestVoteReply_def)

lemmas handleRequestVoteReply_outcomes =
  handleRequestVoteReply_newer handleRequestVoteReply_win handleRequestVoteReply_count
  handleRequestVoteReply_ignore

section \<open>Replies to replication\<close>

text \<open>A reply with a newer term makes the leader a follower of that term.\<close>

lemma newer_term_steps_down:
  assumes "sound rf" "t > CurrentTerm rf"
  shows "sound (persist (rf\<lparr>state := FOLLOWER, CurrentTerm := t, VotedFor := -1\<rparr>))"
    and "quiet rf (persist (rf\<lparr>state := FOLLOWER, CurrentTerm := t, VotedFor := -1\<rparr>))"
proof -
  have "wfLog (Log rf) t" using assms by (auto simp: sound_def wfRaft_def intro: wfLog_mono)
  then show "sound (persist (rf\<lparr>state := FOLLOWER, CurrentTerm := t, VotedFor := -1\<rparr>))"
    using assms(1) by (simp add: sound_def wfRaft_def)
  show "quiet rf (persist (rf\<lparr>state := FOLLOWER, CurrentTerm := t, VotedFor := -1\<rparr>))"
    using assms(2) by (simp add: quiet_def)
qed

text \<open>A change of the leader's tables and of the commit index only.\<close>

lemma tables_keep:
  assumes "sound rf" "length ni = peers rf" "length mi = peers rf"
  shows "sound (rf\<lparr>matchIndex := mi, nextIndex := ni\<rparr>)"
    and "quiet rf (rf\<lparr>matchIndex := mi, nextIndex := ni, CommitIndex := c\<rparr>)"
  using sound_frame[OF assms(1), of "rf\<lparr>matchIndex := mi, nextIndex := ni\<rparr>"] assms
  by (simp_all add: quiet_def)

lemma sound_CommitIndex [simp]: "sound (rf\<lparr>CommitIndex := c\<rparr>) = sound rf"
  by (simp add: sound_def wfRaft_def durable_def)

lemma sound_tables:
  assumes "sound rf"
  shows "length (nextIndex rf) = peers rf" "length (matchIndex rf) = peers rf"
  using assms by (simp_all add: sound_def wfRaft_def)

lemma go_table:
  assumes "0 \<le> peer" "peer < int (length xs)"
  shows "go_index xs peer = Some (xs ! nat peer)" "go_set xs peer v = Some (xs[nat peer := v])"
  using assms by (simp_all add: go_index_def go_set_def)

lemma handleInstallSnapshotResponse_keeps:
  assumes s: "sound rf" and p: "0 \<le> peer" "peer < int (peers rf)"
  shows "\<exists>rf'. handleInstallSnapshotResponse rf peer args reply = Some rf' \<and> sound rf' \<and> quiet rf rf'"
proof -
  note tab = go_table[of peer "nextIndex rf"] go_table[of peer "matchIndex rf"] sound_tables[OF s]
  consider (stale) "isTerm args \<noteq> CurrentTerm rf \<or> state rf \<noteq> LEADER"
    | (newer) "\<not> (isTerm args \<noteq> CurrentTerm rf \<or> state rf \<noteq> LEADER)" "isrTerm reply > CurrentTerm rf"
    | (upd) "\<not> (isTerm args \<noteq> CurrentTerm rf \<or> state rf \<noteq> LEADER)" "\<not> isrTerm reply > CurrentTerm rf"
    by blast
  then show ?thesis
  proof cases
    case stale
    then show ?thesis using s by (auto simp: handleInstallSnapshotResponse_def)
  next
    case newer
    then show ?thesis using newer_term_steps_down[OF s newer(2)]
      by (simp add: handleInstallSnapshotResponse_def changeState_def)
  next
    case upd
    define mi where "mi = (matchIndex rf)[nat peer := max (matchIndex rf ! nat peer) (isLastIncludedIndex args)]"
    define ni where "ni = (nextIndex rf)[nat peer := max (nextIndex rf ! nat peer) (isLastIncludedIndex args + 1)]"
    have "handleInstallSnapshotResponse rf peer args reply = Some (rf\<lparr>matchIndex := mi, nextIndex := ni\<rparr>)"
      using upd tab p by (simp add: handleInstallSnapshotResponse_def mi_def ni_def)
    moreover have "length mi = peers rf" "length ni = peers rf" using tab by (simp_all add: mi_def ni_def)
    moreover have "quiet rf (rf\<lparr>matchIndex := mi, nextIndex := ni\<rparr>)" by (simp add: quiet_def)
    ultimately show ?thesis using tables_keep(1)[OF s] by blast
  qed
qed

lemma countAtLeast_card: "countAtLeast vs N cnt = cnt + int (length (filter (\<lambda>v. N \<le> v) vs))"
  by (induction vs arbitrary: cnt) auto

lemma hasBeenAppendedMajority_Some:
  assumes "sound rf" "N \<le> lastIdx (Log rf)"
  shows "hasBeenAppendedMajority rf N =
    Some (N \<le> firstIdx (Log rf) \<or>
          (length (filter (\<lambda>v. N \<le> v) (matchIndex rf)) > peers rf div 2 \<and>
           termAt (Log rf) N = CurrentTerm rf))"
proof -
  have wl: "wfLog (Log rf) (CurrentTerm rf)" using assms by (simp add: sound_def wfRaft_def)
  show ?thesis
    using wl wfLog_index[OF wl _ assms(2)]
    by (auto simp: hasBeenAppendedMajority_def countAtLeast_card termAt_def)
qed

text \<open>
  The commit loop: the commit index stays, or moves to the largest index above it that a
  majority has stored and whose entry is of the current term (or that the leader's own
  snapshot covers).
\<close>

definition committable :: "('c, 'b) Raft \<Rightarrow> int \<Rightarrow> bool" where
  "committable rf N \<longleftrightarrow>
     N \<le> firstIdx (Log rf) \<or>
     (length (filter (\<lambda>v. N \<le> v) (matchIndex rf)) > peers rf div 2 \<and> termAt (Log rf) N = CurrentTerm rf)"

lemma commitLoop_Some:
  assumes s: "sound rf" and N: "N \<le> lastIdx (Log rf)" and left: "left = CommitIndex rf + 1"
  shows "\<exists>c. commitLoop rf left N = Some (rf\<lparr>CommitIndex := c\<rparr>) \<and>
    (c = CommitIndex rf \<and> (\<forall>M. CommitIndex rf < M \<and> M \<le> N \<longrightarrow> \<not> committable rf M) \<or>
     CommitIndex rf < c \<and> c \<le> N \<and> committable rf c \<and> (\<forall>M. c < M \<and> M \<le> N \<longrightarrow> \<not> committable rf M))"
  using s N left
proof (induction rf left N rule: commitLoop.induct)
  case (1 rf left N)
  have maj: "hasBeenAppendedMajority rf N = Some (committable rf N)"
    using hasBeenAppendedMajority_Some[OF "1.prems"(1,2)] by (simp add: committable_def)
  show ?case
  proof (cases "left \<le> N")
    case False
    then show ?thesis using "1.prems"(3)
      by (intro exI[of _ "CommitIndex rf"]) (auto simp: commitLoop.simps[of rf "CommitIndex rf + 1" N])
  next
    case ge: True
    show ?thesis
    proof (cases "committable rf N")
      case True
      then have "commitLoop rf left N = Some (rf\<lparr>CommitIndex := N\<rparr>)"
        using ge maj "1.prems"(3)
        by (simp add: commitLoop.simps[of rf "CommitIndex rf + 1" N] max_absorb2)
      then show ?thesis using True ge "1.prems"(3) by (intro exI[of _ N]) auto
    next
      case False
      then have eq: "commitLoop rf left N = commitLoop rf left (N - 1)"
        using ge maj by (simp add: commitLoop.simps[of rf left N])
      have below: "M \<le> N - 1" if "M \<le> N" "committable rf M" for M
        using that False by (cases "M = N") auto
      have "hasBeenAppendedMajority rf N = Some False" using maj False by simp
      then obtain c where c: "commitLoop rf left (N - 1) = Some (rf\<lparr>CommitIndex := c\<rparr>)"
        "c = CommitIndex rf \<and> (\<forall>M. CommitIndex rf < M \<and> M \<le> N - 1 \<longrightarrow> \<not> committable rf M) \<or>
         CommitIndex rf < c \<and> c \<le> N - 1 \<and> committable rf c \<and>
         (\<forall>M. c < M \<and> M \<le> N - 1 \<longrightarrow> \<not> committable rf M)"
        using "1.IH"[OF ge _ _ "1.prems"(1) _ "1.prems"(3)] "1.prems"(2) by auto
      moreover have "\<forall>M. a < M \<and> M \<le> N \<longrightarrow> \<not> committable rf M"
        if "\<forall>M. a < M \<and> M \<le> N - 1 \<longrightarrow> \<not> committable rf M" for a
        using that below by blast
      moreover have "c \<le> N - 1 \<Longrightarrow> c \<le> N" by simp
      ultimately show ?thesis unfolding eq by (intro exI[of _ c]) blast
    qed
  qed
qed

text \<open>
  The index the leader backs up to after a conflict: the first entry of its own log after
  the last one of the conflicting term, or the follower's hint.
\<close>

lemma sorted_terms_search:
  fixes x :: int
  assumes "wfLog log t"
  defines "i \<equiv> go_search (length log) (\<lambda>i. Term (log ! i) > x)"
  shows "i \<le> length log" "\<forall>k < i. Term (log ! k) \<le> x" "\<forall>k. i \<le> k \<and> k < length log \<longrightarrow> x < Term (log ! k)"
proof -
  have mono: "\<forall>a b. a \<le> b \<longrightarrow> b < length log \<longrightarrow> Term (log ! a) > x \<longrightarrow> Term (log ! b) > x"
    using assms(1) sorted_nth_mono[of "map Term log"]
    by (auto simp: wfLog_def) (metis le_less_trans less_le_trans)
  show "i \<le> length log" unfolding i_def by (rule go_search_le)
  show "\<forall>k < i. Term (log ! k) \<le> x"
    using go_search_boundary(1)[OF mono] unfolding i_def by (auto simp: not_less)
  show "\<forall>k. i \<le> k \<and> k < length log \<longrightarrow> x < Term (log ! k)"
    using go_search_boundary(2)[OF mono] unfolding i_def by auto
qed

text \<open>
  A conflict reply panics exactly when the conflicting term is the term of the leader's last
  entry: the search then returns the length of the log, and \<^verbatim>\<open>rf.Log[i]\<close> is out of range.
\<close>

definition conflictReply :: "('c, 'b) Raft \<Rightarrow> 'c AppendEntriesArgs \<Rightarrow> AppendEntriesReply \<Rightarrow> bool" where
  "conflictReply rf args reply \<longleftrightarrow>
     aeTerm args = CurrentTerm rf \<and> state rf = LEADER \<and> aerTerm reply \<le> CurrentTerm rf \<and>
     \<not> aerSuccess reply \<and> aerXTerm reply \<noteq> -1"

lemma search_found_last:
  fixes x :: int
  assumes wl: "wfLog log t"
  defines "i \<equiv> go_search (length log) (\<lambda>i. Term (log ! i) > x)"
  shows "(i > 0 \<and> Term (log ! (i - 1)) = x \<and> i = length log) \<longleftrightarrow> Term (last log) = x"
proof -
  note b = sorted_terms_search[OF wl, where x = x, folded i_def]
  have len: "0 < length log" using wl by (rule wfLog_length)
  have last: "last log = log ! (length log - 1)" using len by (simp add: last_conv_nth)
  show ?thesis
  proof
    assume "Term (last log) = x"
    then have "\<not> i \<le> length log - 1" using b(3) len by (auto simp: last)
    then have "i = length log" using b(1) by linarith
    then show "i > 0 \<and> Term (log ! (i - 1)) = x \<and> i = length log"
      using \<open>Term (last log) = x\<close> len by (simp add: last)
  qed (auto simp: last)
qed

lemma handleReplicateOneRoundResponse_conflict:
  assumes s: "sound rf" and c: "conflictReply rf args reply" and p: "0 \<le> peer" "peer < int (peers rf)"
  defines "i \<equiv> go_search (length (Log rf)) (\<lambda>i. Term (Log rf ! i) > aerXTerm reply)"
  shows "handleReplicateOneRoundResponse rf peer args reply =
    (if Term (last (Log rf)) = aerXTerm reply then None
     else Some (rf\<lparr>nextIndex := (nextIndex rf)[nat peer :=
            (if i > 0 \<and> Term (Log rf ! (i - 1)) = aerXTerm reply then firstIdx (Log rf) + int i
             else aerXIndex reply)]\<rparr>))"
proof -
  have wl: "wfLog (Log rf) (CurrentTerm rf)" using s by (simp add: sound_def wfRaft_def)
  note b = sorted_terms_search[OF wl, where x = "aerXTerm reply", folded i_def]
  note fl = search_found_last[OF wl, where x = "aerXTerm reply", folded i_def]
  note tab = go_table[of peer "nextIndex rf"] sound_tables[OF s]
  have idx: "Index (Log rf ! i) = firstIdx (Log rf) + int i" if "i < length (Log rf)"
    using contig_nth[OF _ that, of "firstIdx (Log rf)"] wl by (simp add: wfLog_def)
  have "go_index (Log rf) (int i) = (if i = length (Log rf) then None else Some (Log rf ! i))"
    using b(1) by (auto simp: go_index_def)
  then show ?thesis
    using c tab p fl idx b(1)
    by (auto simp: handleReplicateOneRoundResponse_def conflictReply_def i_def [symmetric])
qed

lemma handleReplicateOneRoundResponse_success:
  assumes s: "sound rf" and a: "aeTerm args = CurrentTerm rf" "state rf = LEADER"
    "aerTerm reply \<le> CurrentTerm rf" "aerSuccess reply" and p: "0 \<le> peer" "peer < int (peers rf)"
  defines "acked \<equiv> aePrevLogIndex args + int (length (aeEntries args))"
  defines "mi \<equiv> (matchIndex rf)[nat peer := max (matchIndex rf ! nat peer) acked]"
  defines "ni \<equiv> (nextIndex rf)[nat peer := max (nextIndex rf ! nat peer) (acked + 1)]"
  shows "handleReplicateOneRoundResponse rf peer args reply =
    commitLoop (rf\<lparr>matchIndex := mi, nextIndex := ni\<rparr>) (CommitIndex rf + 1) (lastIdx (Log rf))"
proof -
  have wl: "wfLog (Log rf) (CurrentTerm rf)" using s by (simp add: sound_def wfRaft_def)
  note tab = go_table[of peer "nextIndex rf"] go_table[of peer "matchIndex rf"] sound_tables[OF s]
  show ?thesis
    using a p tab wfRaft_Log[OF soundD(1)[OF s]] wfLog_last[OF wl]
    by (simp add: handleReplicateOneRoundResponse_def acked_def mi_def ni_def)
qed

lemma handleReplicateOneRoundResponse_keeps:
  assumes s: "sound rf" and p: "0 \<le> peer" "peer < int (peers rf)"
    and ok: "\<not> (conflictReply rf args reply \<and> Term (last (Log rf)) = aerXTerm reply)"
  shows "\<exists>rf'. handleReplicateOneRoundResponse rf peer args reply = Some rf' \<and> sound rf' \<and> quiet rf rf'"
proof -
  consider (stale) "aeTerm args \<noteq> CurrentTerm rf \<or> state rf \<noteq> LEADER"
    | (newer) "aeTerm args = CurrentTerm rf" "state rf = LEADER" "aerTerm reply > CurrentTerm rf"
    | (success) "aeTerm args = CurrentTerm rf" "state rf = LEADER" "aerTerm reply \<le> CurrentTerm rf"
        "aerSuccess reply"
    | (short) "aeTerm args = CurrentTerm rf" "state rf = LEADER" "aerTerm reply \<le> CurrentTerm rf"
        "\<not> aerSuccess reply" "aerXTerm reply = -1"
    | (conflict) "conflictReply rf args reply"
    unfolding conflictReply_def by (metis not_le)
  then show ?thesis
  proof cases
    case stale
    then show ?thesis using s by (auto simp: handleReplicateOneRoundResponse_def)
  next
    case newer
    then show ?thesis using newer_term_steps_down[OF s newer(3)]
      by (simp add: handleReplicateOneRoundResponse_def changeState_def)
  next
    case success
    define acked where "acked = aePrevLogIndex args + int (length (aeEntries args))"
    define rf1 where "rf1 = rf\<lparr>
        matchIndex := (matchIndex rf)[nat peer := max (matchIndex rf ! nat peer) acked],
        nextIndex := (nextIndex rf)[nat peer := max (nextIndex rf ! nat peer) (acked + 1)]\<rparr>"
    have s1: "sound rf1" unfolding rf1_def using sound_tables[OF s] by (intro tables_keep(1)[OF s]) simp_all
    have "handleReplicateOneRoundResponse rf peer args reply =
        commitLoop rf1 (CommitIndex rf1 + 1) (lastIdx (Log rf1))"
      using handleReplicateOneRoundResponse_success[OF s success p] by (simp add: rf1_def acked_def)
    then obtain c where "handleReplicateOneRoundResponse rf peer args reply = Some (rf1\<lparr>CommitIndex := c\<rparr>)"
      using commitLoop_Some[OF s1 order_refl refl] by auto
    moreover have "quiet rf (rf1\<lparr>CommitIndex := c\<rparr>)" by (simp add: quiet_def rf1_def)
    ultimately show ?thesis using s1 by auto
  next
    case short
    have "handleReplicateOneRoundResponse rf peer args reply =
        Some (rf\<lparr>nextIndex := (nextIndex rf)[nat peer := aerXLen reply]\<rparr>)"
      using short p go_table[of peer "nextIndex rf"] sound_tables[OF s]
      by (simp add: handleReplicateOneRoundResponse_def)
    moreover have "sound (rf\<lparr>nextIndex := (nextIndex rf)[nat peer := aerXLen reply]\<rparr>)"
      by (rule sound_frame[OF s]) (simp_all add: sound_tables[OF s])
    ultimately show ?thesis by (auto simp: quiet_def)
  next
    case conflict
    obtain x where "handleReplicateOneRoundResponse rf peer args reply =
        Some (rf\<lparr>nextIndex := (nextIndex rf)[nat peer := x]\<rparr>)"
      using handleReplicateOneRoundResponse_conflict[OF s conflict p] ok conflict by auto
    moreover have "sound (rf\<lparr>nextIndex := (nextIndex rf)[nat peer := x]\<rparr>)"
      by (rule sound_frame[OF s]) (simp_all add: sound_tables[OF s])
    ultimately show ?thesis by (auto simp: quiet_def)
  qed
qed

lemma handleReplicateOneRoundResponse_commits:
  assumes s: "sound rf" and a: "aeTerm args = CurrentTerm rf" "state rf = LEADER"
    "aerTerm reply \<le> CurrentTerm rf" "aerSuccess reply" and p: "0 \<le> peer" "peer < int (peers rf)"
  shows "\<exists>rf'. handleReplicateOneRoundResponse rf peer args reply = Some rf' \<and> sound rf' \<and>
    matchIndex rf' = (matchIndex rf)[nat peer := max (matchIndex rf ! nat peer)
                                          (aePrevLogIndex args + int (length (aeEntries args)))] \<and>
    Log rf' = Log rf \<and> CommitIndex rf \<le> CommitIndex rf' \<and>
    (CommitIndex rf < CommitIndex rf' \<longrightarrow> CommitIndex rf' \<le> lastIdx (Log rf) \<and> committable rf' (CommitIndex rf')) \<and>
    (\<forall>N \<in> {CommitIndex rf' <.. lastIdx (Log rf)}. \<not> committable rf' N)"
proof -
  define acked where "acked = aePrevLogIndex args + int (length (aeEntries args))"
  define rf1 where "rf1 = rf\<lparr>matchIndex := (matchIndex rf)[nat peer := max (matchIndex rf ! nat peer) acked],
     nextIndex := (nextIndex rf)[nat peer := max (nextIndex rf ! nat peer) (acked + 1)]\<rparr>"
  have s1: "sound rf1" unfolding rf1_def using sound_tables[OF s] by (intro tables_keep(1)[OF s]) simp_all
  have eq: "handleReplicateOneRoundResponse rf peer args reply =
      commitLoop rf1 (CommitIndex rf1 + 1) (lastIdx (Log rf1))"
    using handleReplicateOneRoundResponse_success[OF s a p] by (simp add: rf1_def acked_def)
  have comm: "committable (rf1\<lparr>CommitIndex := c\<rparr>) = committable rf1" for c
    by (rule ext) (simp add: committable_def)
  have fields: "CommitIndex rf1 = CommitIndex rf" "Log rf1 = Log rf" by (simp_all add: rf1_def)
  obtain c where c: "handleReplicateOneRoundResponse rf peer args reply = Some (rf1\<lparr>CommitIndex := c\<rparr>)"
    "c = CommitIndex rf \<and> (\<forall>M. CommitIndex rf < M \<and> M \<le> lastIdx (Log rf) \<longrightarrow> \<not> committable rf1 M) \<or>
     CommitIndex rf < c \<and> c \<le> lastIdx (Log rf) \<and> committable rf1 c \<and>
     (\<forall>M. c < M \<and> M \<le> lastIdx (Log rf) \<longrightarrow> \<not> committable rf1 M)"
    using commitLoop_Some[OF s1 order_refl refl] unfolding eq fields by blast
  show ?thesis
    using c s1 unfolding c(1)
    by (intro exI[of _ "rf1\<lparr>CommitIndex := c\<rparr>"]) (auto simp: comm, simp_all add: rf1_def acked_def)
qed

section \<open>The applier, snapshots handed to the service, restart\<close>

text \<open>None of the goroutines' steps touches anything but \<open>LastApplied\<close> and their own state.\<close>

lemma sound_goroutines [simp]:
  "sound (rf\<lparr>applying := a\<rparr>) = sound rf" "sound (rf\<lparr>LastApplied := l\<rparr>) = sound rf"
  "sound (rf\<lparr>snapshotsToPush := p\<rparr>) = sound rf" "sound (rf\<lparr>snapshotsPushed := q\<rparr>) = sound rf"
  "sound (rf\<lparr>dead := d\<rparr>) = sound rf"
  by (simp_all add: sound_def wfRaft_def durable_def)

lemma applierTake_keeps:
  assumes "applierTake rf = Some rf'" "sound rf"
  shows "sound rf'" "quiet rf rf'"
  using assms by (auto simp: applierTake_def quiet_def bind_eq_Some_conv split: if_splits)

lemma applierPush_keeps:
  assumes "applierPush rf = Some (rf', m)" "sound rf"
  shows "sound rf'" "quiet rf rf'"
  using assms by (auto simp: applierPush_def quiet_def split: option.splits prod.splits list.splits)

lemma applierDone_keeps:
  assumes "sound rf"
  shows "sound (applierDone rf)" "quiet rf (applierDone rf)"
  using assms by (auto simp: applierDone_def quiet_def split: option.splits prod.splits list.splits)

lemma snapshotPush_keeps:
  assumes "snapshotPush rf k = Some (rf', m)" "sound rf"
  shows "sound rf'" "quiet rf rf'"
  using assms by (auto simp: snapshotPush_def quiet_def split: if_splits prod.splits)

lemma snapshotDone_keeps:
  assumes "sound rf"
  shows "sound (snapshotDone rf k)" "quiet rf (snapshotDone rf k)"
  using assms by (auto simp: snapshotDone_def quiet_def)

lemma Kill_keeps: "sound rf \<Longrightarrow> sound (Kill rf)" "quiet rf (Kill rf)"
  by (simp_all add: Kill_def quiet_def)

text \<open>
  A peer made from the persister of a peer in good order has that peer's term, vote and log;
  everything else starts afresh.
\<close>

lemma Make_recovers:
  assumes ps: "recovered ps = (term, vote, log)" and wl: "wfLog log term"
    and my: "0 \<le> my" "my < int n"
  shows "\<exists>rf. Make n my ps = Some rf \<and> sound rf \<and> CurrentTerm rf = term \<and> VotedFor rf = vote \<and> Log rf = log \<and>
    state rf = FOLLOWER \<and> me rf = my \<and> peers rf = n \<and> persister rf = ps \<and> LastApplied rf = 0 \<and>
    CommitIndex rf = firstIdx log \<and> applying rf = None \<and> snapshotsPushed rf = [] \<and>
    snapshotsToPush rf = (if raftstate ps \<noteq> [] \<and> length (snapshot ps) > 1
                          then [(snapshot ps, firstIdx log, Term (hd log))] else [])"
proof -
  define rf0 where "rf0 = \<lparr>peers = n, me = my, dead = False, CurrentTerm = 0, VotedFor = -1,
     Log = [\<lparr>Term = 0, Command = None, Index = 0\<rparr>], CommitIndex = 0, LastApplied = 0,
     state = FOLLOWER, nextIndex = replicate n 0, matchIndex = replicate n 0,
     persister = ps, snapshotsToPush = [], snapshotsPushed = [], applying = None\<rparr>"
  define rf1 where "rf1 = rf0\<lparr>CurrentTerm := term, VotedFor := vote, Log := log, CommitIndex := firstIdx log,
     snapshotsToPush := (if raftstate ps \<noteq> [] \<and> length (snapshot ps) > 1
                         then [(snapshot ps, firstIdx log, Term (hd log))] else [])\<rparr>"
  define rf where "rf = rf1\<lparr>matchIndex := map (\<lambda>_. 0) [0..<n], nextIndex := map (\<lambda>_. lastIdx log + 1) [0..<n]\<rparr>"
  have ne: "log \<noteq> []" using wl by simp
  have "readPersist rf0 (ReadRaftState ps) = Some rf1"
  proof (cases "raftstate ps = []")
    case True
    then show ?thesis using ps by (auto simp: readPersist_def ReadRaftState_def rf0_def rf1_def recovered_def)
  next
    case False
    then show ?thesis using ps ne
      by (auto simp: readPersist_def ReadRaftState_def ReadSnapshot_def rf0_def rf1_def recovered_def)
  qed
  moreover have "Log rf1 = log" by (simp add: rf1_def)
  ultimately have mk: "Make n my ps = Some rf"
    using ne wfLog_last[OF wl] by (simp add: Make_def rf0_def [symmetric] rf_def)
  have f: "CurrentTerm rf = term" "VotedFor rf = vote" "Log rf = log" "state rf = FOLLOWER" "me rf = my"
    "peers rf = n" "persister rf = ps" "LastApplied rf = 0" "CommitIndex rf = firstIdx log"
    "applying rf = None" "snapshotsPushed rf = []" "length (nextIndex rf) = n" "length (matchIndex rf) = n"
    by (simp_all add: rf_def rf1_def rf0_def)
  have "sound rf" using ps wl my by (simp add: sound_def wfRaft_def durable_def f)
  then show ?thesis using mk f by (simp add: rf_def rf1_def)
qed

text \<open>The very first start, from an empty persister.\<close>

lemma recovered_fresh: "recovered MakePersister = (0, -1, [\<lparr>Term = 0, Command = None, Index = 0\<rparr>])"
  by (simp add: recovered_def MakePersister_def)


section \<open>What a leader sends\<close>

lemma findPrev_miss: "\<forall>e \<in> set es. Index e \<noteq> p \<Longrightarrow> findPrev es i p d = d"
  by (induction es arbitrary: i) auto

lemma findPrev_hit:
  assumes "contig k es" "k \<le> p" "p < k + int (length es)"
  shows "findPrev es i p d = i + (p - k)"
  using assms
proof (induction es arbitrary: i k d)
  case (Cons e es)
  show ?case
  proof (cases "p = k")
    case True
    then have "\<forall>e \<in> set es. Index e \<noteq> p" using Cons.prems contig_Index_ge[of "k + 1" es] by fastforce
    then show ?thesis using True Cons.prems by (simp add: findPrev_miss)
  next
    case False
    then show ?thesis using Cons.IH[of "k + 1" "i + 1"] Cons.prems by (simp add: algebra_simps)
  qed
qed simp

text \<open>
  A round to a peer whose next index is not beyond the end of the leader's log: the snapshot
  when the entry before it is compacted away, otherwise every entry from it on.
\<close>

definition roundTo :: "('c, 'b) Raft \<Rightarrow> int \<Rightarrow> ('c, 'b) RoundMsg" where
  "roundTo rf prev =
     (if prev < firstIdx (Log rf)
      then SendInstallSnapshot \<lparr>isTerm = CurrentTerm rf, isLeaderId = me rf, isLastIncludedIndex = firstIdx (Log rf),
             isLastIncludedTerm = Term (hd (Log rf)), isData = snapshot (persister rf)\<rparr>
      else SendAppendEntries \<lparr>aeTerm = CurrentTerm rf, aeLeaderId = me rf, aePrevLogIndex = prev,
             aePrevLogTerm = termAt (Log rf) prev, aeEntries = drop (nat (prev + 1 - firstIdx (Log rf))) (Log rf),
             aeLeaderCommit = CommitIndex rf\<rparr>)"

lemma replicateOneRound_sends:
  assumes s: "sound rf" and l: "state rf = LEADER" and p: "0 \<le> peer" "peer < int (peers rf)"
    and n: "nextIndex rf ! nat peer \<le> lastIdx (Log rf) + 1"
  shows "replicateOneRound rf peer = Some (roundTo rf (nextIndex rf ! nat peer - 1))"
proof -
  have wl: "wfLog (Log rf) (CurrentTerm rf)" using s by (simp add: sound_def wfRaft_def)
  define prev where "prev = nextIndex rf ! nat peer - 1"
  have idx: "go_index (nextIndex rf) peer = Some (prev + 1)"
    using p sound_tables[OF s] by (simp add: go_table(1) prev_def)
  have ne: "Log rf \<noteq> []" using wl by simp
  have f: "findPrev (Log rf) 0 prev 0 = prev - firstIdx (Log rf)" if "firstIdx (Log rf) \<le> prev"
    using findPrev_hit[of "firstIdx (Log rf)" "Log rf" prev 0 0] wl that n
    by (simp add: wfLog_def prev_def lastIdx_def)
  have e: "go_index (Log rf) (prev - firstIdx (Log rf)) = Some (Log rf ! nat (prev - firstIdx (Log rf)))"
    "go_from (Log rf) (prev - firstIdx (Log rf) + 1) = Some (drop (nat (prev + 1 - firstIdx (Log rf))) (Log rf))"
    if "firstIdx (Log rf) \<le> prev"
  proof -
    have "prev \<le> lastIdx (Log rf)" using n by (simp add: prev_def)
    then show "go_index (Log rf) (prev - firstIdx (Log rf)) = Some (Log rf ! nat (prev - firstIdx (Log rf)))"
      "go_from (Log rf) (prev - firstIdx (Log rf) + 1) = Some (drop (nat (prev + 1 - firstIdx (Log rf))) (Log rf))"
      using wfLog_index[OF wl that] that
      by (simp_all add: go_from_def lastIdx_def diff_add_eq [symmetric] del: diff_add_eq)
  qed
  have fl: "getFirstLog rf = Some (hd (Log rf))" "Index (hd (Log rf)) = firstIdx (Log rf)"
    using ne by simp_all
  have "replicateOneRound rf peer = Some (roundTo rf prev)"
  proof (cases "prev < firstIdx (Log rf)")
    case True
    then show ?thesis using l
      by (simp add: replicateOneRound_def idx fl roundTo_def createInstallSnapshotArgs_def ReadSnapshot_def)
  next
    case False
    then have g: "firstIdx (Log rf) \<le> prev" by simp
    show ?thesis using l False
      by (simp add: replicateOneRound_def idx fl roundTo_def createAppendEntriesArgs_def f[OF g] e[OF g] termAt_def)
  qed
  then show ?thesis by (simp add: prev_def)
qed

lemma roundTo_admissible:
  assumes s: "sound rf" and n: "prev \<le> lastIdx (Log rf)"
  shows "roundTo rf prev = SendAppendEntries args \<Longrightarrow> wfAppendEntries args"
    and "roundTo rf prev = SendInstallSnapshot sargs \<Longrightarrow> wfInstallSnapshot sargs"
proof -
  have wl: "wfLog (Log rf) (CurrentTerm rf)" using s by (simp add: sound_def wfRaft_def)
  have ne: "Log rf \<noteq> []" using wl by simp
  show "wfInstallSnapshot sargs" if "roundTo rf prev = SendInstallSnapshot sargs"
    using that wl ne by (auto simp: roundTo_def wfInstallSnapshot_def wfLog_def split: if_splits)
  show "wfAppendEntries args" if r: "roundTo rf prev = SendAppendEntries args"
  proof -
    have g: "firstIdx (Log rf) \<le> prev" using r by (auto simp: roundTo_def split: if_splits)
    define k where "k = nat (prev - firstIdx (Log rf))"
    have k: "k < length (Log rf)" "nat (prev + 1 - firstIdx (Log rf)) = Suc k" "prev = firstIdx (Log rf) + int k"
      using g n by (auto simp: k_def lastIdx_def)
    have "sorted (map Term (drop k (Log rf)))" using wl by (simp add: wfLog_def drop_map [symmetric] sorted_wrt_drop)
    moreover have "drop k (Log rf) = Log rf ! k # drop (Suc k) (Log rf)" using k(1) by (simp add: Cons_nth_drop_Suc)
    moreover have "contig (prev + 1) (drop (Suc k) (Log rf))"
      using contig_drop[of "firstIdx (Log rf)" "Log rf" "Suc k"] wl k by (simp add: wfLog_def algebra_simps)
    moreover have "\<forall>e \<in> set (drop (Suc k) (Log rf)). Term e \<le> CurrentTerm rf" "0 \<le> Term (Log rf ! k)"
      using wl k(1) by (auto simp: wfLog_def dest: in_set_dropD)
    ultimately show ?thesis
      using r g k(2) by (auto simp: roundTo_def wfAppendEntries_def termAt_def k_def [symmetric])
  qed
qed

end
