(* ===== verification/RaftContract.thy ===== *)
theory RaftContract
  imports RaftLeader
begin

text \<open>
  The contract of the peer's RPC handlers, as a locale: on a peer in good order and an
  admissible request a handler answers (no panic) and leaves the peer in good order; and
  whatever the request, an answer leaves the persistent variables on disk and keeps the
  discipline of terms and votes.  The three handlers of \<^verbatim>\<open>raft.go\<close> are instances, and so is
  the peer as a whole, which serves the three kinds of requests in any order.
\<close>

section \<open>The peer as an RPC service\<close>

datatype ('c, 'b) RaftRequest =
    ReqVote RequestVoteArgs
  | ReqAppend "'c AppendEntriesArgs"
  | ReqSnapshot "'b InstallSnapshotArgs"

datatype RaftReply =
    RepVote RequestVoteReply
  | RepAppend AppendEntriesReply
  | RepSnapshot InstallSnapshotReply

fun serveRequest ::
  "('c, 'b) Raft \<Rightarrow> ('c, 'b) RaftRequest \<Rightarrow> (('c, 'b) Raft \<times> RaftReply) option" where
  "serveRequest rf (ReqVote args) = map_option (\<lambda>(rf, r). (rf, RepVote r)) (RequestVote rf args)"
| "serveRequest rf (ReqAppend args) = map_option (\<lambda>(rf, r). (rf, RepAppend r)) (AppendEntries rf args)"
| "serveRequest rf (ReqSnapshot args) =
     map_option (\<lambda>(rf, r). (rf, RepSnapshot r)) (InstallSnapshot rf args)"

fun admissibleRequest :: "('c, 'b) RaftRequest \<Rightarrow> bool" where
  "admissibleRequest (ReqVote args) = True"
| "admissibleRequest (ReqAppend args) = wfAppendEntries args"
| "admissibleRequest (ReqSnapshot args) = wfInstallSnapshot args"

text \<open>Serving a list of requests one after the other, collecting the answers.\<close>

fun serveAll :: "('s \<Rightarrow> 'a \<Rightarrow> ('s \<times> 'r) option) \<Rightarrow> 's \<Rightarrow> 'a list \<Rightarrow> ('s \<times> 'r list) option" where
  "serveAll h s [] = Some (s, [])"
| "serveAll h s (a # as) =
     (case h s a of None \<Rightarrow> None
      | Some (s', r) \<Rightarrow> map_option (\<lambda>(s'', rs). (s'', r # rs)) (serveAll h s' as))"

section \<open>Effects that hold for every request\<close>

lemma voteStep_refl [simp]: "voteStep rf rf"
  by (simp add: voteStep_def)

lemma voteStep_trans: "voteStep a b \<Longrightarrow> voteStep b c \<Longrightarrow> voteStep a c"
  by (auto simp: voteStep_def)

lemma AppendEntries_result:
  "pred_option (\<lambda>(rf', reply). (durable rf \<longrightarrow> durable rf') \<and> quiet rf rf') (AppendEntries rf args)"
  unfolding AppendEntries_eq advanceCommitIndexForFollower_def Let_def
  by (intro go_wp)
    (auto simp: quiet_stepDown [where t = "aeTerm args"] bind_eq_Some_conv split: if_splits)

lemma InstallSnapshot_result:
  "pred_option (\<lambda>(rf', reply). (durable rf \<longrightarrow> durable rf') \<and> quiet rf rf') (InstallSnapshot rf args)"
proof -
  define rf1 where "rf1 = (if isTerm args > CurrentTerm rf
      then persist (rf\<lparr>CurrentTerm := isTerm args, VotedFor := -1\<rparr>) else rf)\<lparr>state := FOLLOWER\<rparr>"
  have d1: "durable rf \<Longrightarrow> durable rf1"
    using durable_persist[of "rf\<lparr>CurrentTerm := isTerm args, VotedFor := -1\<rparr>"]
    by (simp add: rf1_def durable_def)
  have q1: "quiet rf rf1" if "\<not> isTerm args < CurrentTerm rf"
    using that by (auto simp: rf1_def quiet_def)
  show ?thesis
    unfolding InstallSnapshot_def Let_def rf1_def [symmetric]
    by (intro go_wp) (use d1 q1 in \<open>simp_all add: durable_Save [unfolded durable_def] durable_def quiet_def recovered_def\<close>)
qed

lemma RequestVote_effect:
  assumes "RequestVote rf args = Some (rf', reply)"
  shows "durable rf \<Longrightarrow> durable rf'" "voteStep rf rf'"
    "state rf' = LEADER \<longrightarrow> state rf = LEADER \<and> CurrentTerm rf' = CurrentTerm rf"
    "rvrVoteGranted reply \<Longrightarrow> VotedFor rf' = rvCandidateId args \<and> CurrentTerm rf' = rvTerm args \<and>
       rvrTerm reply = rvTerm args"
  using assms
  by (auto simp: RequestVote_def isLogUpToDate_def bind_eq_Some_conv voteStep_def split: if_splits)

section \<open>The contract\<close>

locale raft_rpc =
  fixes handler :: "('c, 'b) Raft \<Rightarrow> 'a \<Rightarrow> (('c, 'b) Raft \<times> 'r) option"
    and admissible :: "'a \<Rightarrow> bool"
  assumes answers: "sound rf \<Longrightarrow> admissible a \<Longrightarrow> handler rf a \<noteq> None"
    and keeps_sound: "sound rf \<Longrightarrow> admissible a \<Longrightarrow> handler rf a = Some (rf', r) \<Longrightarrow> sound rf'"
    and keeps_durable: "durable rf \<Longrightarrow> handler rf a = Some (rf', r) \<Longrightarrow> durable rf'"
    and keeps_votes: "handler rf a = Some (rf', r) \<Longrightarrow> voteStep rf rf'"
begin

lemma serves_all:
  assumes "sound rf" "list_all admissible as"
  shows "\<exists>rf' rs. serveAll handler rf as = Some (rf', rs) \<and> sound rf' \<and> length rs = length as"
  using assms
proof (induction as arbitrary: rf)
  case (Cons a as)
  obtain rf1 r where h: "handler rf a = Some (rf1, r)" using answers Cons.prems by fastforce
  have "sound rf1" using keeps_sound[OF _ _ h] Cons.prems by simp
  then show ?case using Cons.IH[of rf1] Cons.prems h by fastforce
qed simp

lemma run_votes:
  assumes "serveAll handler rf as = Some (rf', rs)"
  shows "voteStep rf rf'" "durable rf \<Longrightarrow> durable rf'"
proof -
  have "voteStep rf rf' \<and> (durable rf \<longrightarrow> durable rf')"
    using assms
  proof (induction as arbitrary: rf rs)
    case (Cons a as)
    obtain rf1 r rs1 where h: "handler rf a = Some (rf1, r)" "serveAll handler rf1 as = Some (rf', rs1)"
      using Cons.prems by (auto split: option.splits)
    show ?case
      using Cons.IH[OF h(2)] keeps_votes[OF h(1)] keeps_durable[OF _ h(1)] voteStep_trans by blast
  qed simp
  then show "voteStep rf rf'" "durable rf \<Longrightarrow> durable rf'" by simp_all
qed

end

interpretation vote: raft_rpc RequestVote "\<lambda>_. True"
proof unfold_locales
  fix rf :: "('a, 'b) Raft" and a assume "sound rf"
  then show "RequestVote rf a \<noteq> None" by (intro RequestVote_no_panic) (simp add: sound_def)
next
  fix rf rf' :: "('a, 'b) Raft" and a r
  assume "sound rf" "RequestVote rf a = Some (rf', r)"
  then show "sound rf'" using RequestVote_keeps[of rf a rf' r] by (simp add: sound_def)
qed (auto dest: RequestVote_effect)

interpretation append: raft_rpc AppendEntries wfAppendEntries
proof unfold_locales
  fix rf :: "('a, 'b) Raft" and a :: "'a AppendEntriesArgs"
  assume "sound rf" "wfAppendEntries a"
  then show "AppendEntries rf a \<noteq> None" using AppendEntries_keeps[of rf a] by (auto simp: sound_def)
next
  fix rf rf' :: "('a, 'b) Raft" and a :: "'a AppendEntriesArgs" and r
  assume "sound rf" "wfAppendEntries a" "AppendEntries rf a = Some (rf', r)"
  then show "sound rf'" using AppendEntries_keeps[of rf a] by (auto simp: sound_def)
next
  fix rf rf' :: "('a, 'b) Raft" and a :: "'a AppendEntriesArgs" and r
  assume h: "AppendEntries rf a = Some (rf', r)"
  show "voteStep rf rf'" using pred_optionD[OF AppendEntries_result h] by (auto intro: quiet_voteStep)
  show "durable rf \<Longrightarrow> durable rf'" using pred_optionD[OF AppendEntries_result h] by auto
qed

interpretation install: raft_rpc InstallSnapshot wfInstallSnapshot
proof unfold_locales
  fix rf :: "('a, 'b) Raft" and a :: "'b InstallSnapshotArgs"
  assume "sound rf" "wfInstallSnapshot a"
  then show "InstallSnapshot rf a \<noteq> None" using InstallSnapshot_keeps[of rf a] by auto
next
  fix rf rf' :: "('a, 'b) Raft" and a :: "'b InstallSnapshotArgs" and r
  assume "sound rf" "wfInstallSnapshot a" "InstallSnapshot rf a = Some (rf', r)"
  then show "sound rf'" using InstallSnapshot_keeps[of rf a] by auto
next
  fix rf rf' :: "('a, 'b) Raft" and a :: "'b InstallSnapshotArgs" and r
  assume h: "InstallSnapshot rf a = Some (rf', r)"
  show "voteStep rf rf'" using pred_optionD[OF InstallSnapshot_result h] by (auto intro: quiet_voteStep)
  show "durable rf \<Longrightarrow> durable rf'" using pred_optionD[OF InstallSnapshot_result h] by auto
qed

interpretation peer: raft_rpc serveRequest admissibleRequest
proof unfold_locales
  fix rf :: "('a, 'b) Raft" and a :: "('a, 'b) RaftRequest"
  assume "sound rf" "admissibleRequest a"
  then show "serveRequest rf a \<noteq> None"
    using vote.answers append.answers install.answers by (cases a) auto
next
  fix rf rf' :: "('a, 'b) Raft" and a :: "('a, 'b) RaftRequest" and r
  assume "sound rf" "admissibleRequest a" "serveRequest rf a = Some (rf', r)"
  then show "sound rf'"
    using vote.keeps_sound append.keeps_sound install.keeps_sound by (cases a) auto
next
  fix rf rf' :: "('a, 'b) Raft" and a :: "('a, 'b) RaftRequest" and r
  assume h: "serveRequest rf a = Some (rf', r)"
  show "voteStep rf rf'"
    using h vote.keeps_votes append.keeps_votes install.keeps_votes by (cases a) auto
  show "durable rf \<Longrightarrow> durable rf'"
    using h vote.keeps_durable append.keeps_durable install.keeps_durable by (cases a) auto
qed

end
