(* ===== verification/RaftCluster.thy ===== *)
theory RaftCluster
  imports RaftContract
begin

text \<open>
  A cluster of peers over an unreliable network, as an inductive step relation: a peer's
  election timer fires, a request reaches a peer, a reply reaches the goroutine that waits
  for it, the leader sends a round of replication, a client submits a command, the service
  takes a snapshot, a goroutine pushes to the service, a peer crashes and restarts from its
  persister.  Every step runs the function of \<^verbatim>\<open>raft.go\<close> that the code runs there.

  Messages may be delayed forever (lost) and overtaken.  A vote request is delivered at most
  once and a vote reply is handed over at most once, as \<^verbatim>\<open>labrpc\<close> does for every call; the
  replication messages may even be delivered again, which is more than the network can do.
  A crash ends the goroutines of the peer, so its vote counters disappear.  The service takes a
  snapshot up to a command that the peer has delivered to it, as \<^verbatim>\<open>raft.go\<close> asks of it.

  \<open>votes\<close> and \<open>counted\<close> are history variables: who ever granted a vote to whom in which term,
  and whose votes a candidate has counted.  No step depends on them.
\<close>

record ('c, 'b) Cluster =
  csize :: nat
  node :: "int \<Rightarrow> ('c, 'b) Raft"
  rvRequests :: "(int \<times> RequestVoteArgs) set"
  rvReplies :: "(int \<times> RequestVoteArgs \<times> RequestVoteReply) set"
  voteCnt :: "int \<times> int \<Rightarrow> int option"
  aeRequests :: "(int \<times> 'c AppendEntriesArgs) set"
  aeReplies :: "(int \<times> 'c AppendEntriesArgs \<times> AppendEntriesReply) set"
  isRequests :: "(int \<times> 'b InstallSnapshotArgs) set"
  isReplies :: "(int \<times> 'b InstallSnapshotArgs \<times> InstallSnapshotReply) set"
  delivered :: "int \<Rightarrow> ('c, 'b) ApplyMsg list"
  votes :: "(int \<times> int \<times> int) set"
  counted :: "int \<times> int \<Rightarrow> int set"

definition ids :: "('c, 'b) Cluster \<Rightarrow> int set" where
  "ids s = {0..<int (csize s)}"

definition electionKey :: "RequestVoteArgs \<Rightarrow> int \<times> int" where
  "electionKey args = (rvCandidateId args, rvTerm args)"

definition setNode :: "('c, 'b) Cluster \<Rightarrow> int \<Rightarrow> ('c, 'b) Raft \<Rightarrow> ('c, 'b) Cluster" where
  "setNode s i rf = s\<lparr>node := (node s)(i := rf)\<rparr>"

definition deliver :: "('c, 'b) Cluster \<Rightarrow> int \<Rightarrow> ('c, 'b) ApplyMsg \<Rightarrow> ('c, 'b) Cluster" where
  "deliver s i m = s\<lparr>delivered := (delivered s)(i := delivered s i @ [m])\<rparr>"

definition bootCluster :: "nat \<Rightarrow> ('c, 'b) Cluster" where
  "bootCluster n =
     \<lparr>csize = n, node = (\<lambda>i. the (Make n i MakePersister)), rvRequests = {}, rvReplies = {},
      voteCnt = Map.empty, aeRequests = {}, aeReplies = {}, isRequests = {}, isReplies = {},
      delivered = (\<lambda>_. []), votes = {}, counted = (\<lambda>_. {})\<rparr>"

inductive clusterStep :: "('c, 'b) Cluster \<Rightarrow> ('c, 'b) Cluster \<Rightarrow> bool" where
  elect: "\<lbrakk>i \<in> ids s; state (node s i) \<noteq> LEADER; electionTimeout (node s i) = Some (rf, reqs)\<rbrakk> \<Longrightarrow>
    clusterStep s ((setNode s i rf)\<lparr>rvRequests := rvRequests s \<union> set reqs,
       voteCnt := (voteCnt s)((i, CurrentTerm rf) \<mapsto> 1),
       votes := insert (i, CurrentTerm rf, i) (votes s),
       counted := (counted s)((i, CurrentTerm rf) := {})\<rparr>)"
| voteRequest: "\<lbrakk>(p, args) \<in> rvRequests s; p \<in> ids s; RequestVote (node s p) args = Some (rf, reply)\<rbrakk> \<Longrightarrow>
    clusterStep s ((setNode s p rf)\<lparr>rvRequests := rvRequests s - {(p, args)},
       rvReplies := insert (p, args, reply) (rvReplies s),
       votes := (if rvrVoteGranted reply
                 then insert (p, rvTerm args, rvCandidateId args) (votes s) else votes s)\<rparr>)"
| voteReply: "\<lbrakk>(p, args, reply) \<in> rvReplies s; c = rvCandidateId args; c \<in> ids s;
     voteCnt s (electionKey args) = Some cnt;
     handleRequestVoteReply (node s c) cnt reply = Some (rf, cnt', hb)\<rbrakk> \<Longrightarrow>
    clusterStep s ((setNode s c rf)\<lparr>rvReplies := rvReplies s - {(p, args, reply)},
       voteCnt := (voteCnt s)(electionKey args \<mapsto> cnt'),
       counted := (if rvrTerm reply = CurrentTerm (node s c) \<and> rvrVoteGranted reply
                   then (counted s)(electionKey args := insert p (counted s (electionKey args)))
                   else counted s)\<rparr>)"
| sendAppend: "\<lbrakk>i \<in> ids s; p \<in> ids s; p \<noteq> i;
     replicateOneRound (node s i) p = Some (SendAppendEntries args)\<rbrakk> \<Longrightarrow>
    clusterStep s (s\<lparr>aeRequests := insert (p, args) (aeRequests s)\<rparr>)"
| sendSnapshot: "\<lbrakk>i \<in> ids s; p \<in> ids s; p \<noteq> i;
     replicateOneRound (node s i) p = Some (SendInstallSnapshot sargs)\<rbrakk> \<Longrightarrow>
    clusterStep s (s\<lparr>isRequests := insert (p, sargs) (isRequests s)\<rparr>)"
| appendRequest: "\<lbrakk>(p, args) \<in> aeRequests s; AppendEntries (node s p) args = Some (rf, reply)\<rbrakk> \<Longrightarrow>
    clusterStep s ((setNode s p rf)\<lparr>aeReplies := insert (p, args, reply) (aeReplies s)\<rparr>)"
| appendReply: "\<lbrakk>(p, args, reply) \<in> aeReplies s; i = aeLeaderId args;
     handleReplicateOneRoundResponse (node s i) p args reply = Some rf\<rbrakk> \<Longrightarrow>
    clusterStep s (setNode s i rf)"
| snapshotRequest: "\<lbrakk>(p, sargs) \<in> isRequests s; InstallSnapshot (node s p) sargs = Some (rf, reply)\<rbrakk> \<Longrightarrow>
    clusterStep s ((setNode s p rf)\<lparr>isReplies := insert (p, sargs, reply) (isReplies s)\<rparr>)"
| snapshotReply: "\<lbrakk>(p, sargs, reply) \<in> isReplies s; i = isLeaderId sargs;
     handleInstallSnapshotResponse (node s i) p sargs reply = Some rf\<rbrakk> \<Longrightarrow>
    clusterStep s (setNode s i rf)"
| clientStart: "\<lbrakk>i \<in> ids s; Start (node s i) c = Some (rf, signalled, result)\<rbrakk> \<Longrightarrow>
    clusterStep s (setNode s i rf)"
| takeSnapshot: "\<lbrakk>i \<in> ids s; \<exists>m \<in> set (delivered s i). CommandValid m \<and> CommandIndex m = k;
     Snapshot (node s i) k snap = Some rf\<rbrakk> \<Longrightarrow> clusterStep s (setNode s i rf)"
| applyTake: "\<lbrakk>i \<in> ids s; applierTake (node s i) = Some rf\<rbrakk> \<Longrightarrow> clusterStep s (setNode s i rf)"
| applyPush: "\<lbrakk>i \<in> ids s; applierPush (node s i) = Some (rf, m)\<rbrakk> \<Longrightarrow>
    clusterStep s (deliver (setNode s i rf) i m)"
| applyDone: "i \<in> ids s \<Longrightarrow> clusterStep s (setNode s i (applierDone (node s i)))"
| snapPush: "\<lbrakk>i \<in> ids s; snapshotPush (node s i) j = Some (rf, m)\<rbrakk> \<Longrightarrow>
    clusterStep s (deliver (setNode s i rf) i m)"
| snapDone: "i \<in> ids s \<Longrightarrow> clusterStep s (setNode s i (snapshotDone (node s i) j))"
| kill: "i \<in> ids s \<Longrightarrow> clusterStep s (setNode s i (Kill (node s i)))"
| restart: "\<lbrakk>i \<in> ids s; Make (csize s) i (Copy (persister (node s i))) = Some rf\<rbrakk> \<Longrightarrow>
    clusterStep s ((setNode s i rf)\<lparr>voteCnt := (\<lambda>(c, t). if c = i then None else voteCnt s (c, t)),
       delivered := (delivered s)(i := [])\<rparr>)"

inductive reachable :: "nat \<Rightarrow> ('c, 'b) Cluster \<Rightarrow> bool" for n where
  boot: "reachable n (bootCluster n)"
| step: "\<lbrakk>reachable n s; clusterStep s t\<rbrakk> \<Longrightarrow> reachable n t"

section \<open>The invariant behind election safety\<close>

text \<open>Peers know who they are and have their persistent variables on disk.\<close>

definition invNodes :: "('c, 'b) Cluster \<Rightarrow> bool" where
  "invNodes s \<longleftrightarrow>
     (\<forall>i \<in> ids s. durable (node s i) \<and> me (node s i) = i \<and> peers (node s i) = csize s)"

text \<open>A vote once cast is still in the peer's current term, or the term has moved on.\<close>

definition invVotes :: "('c, 'b) Cluster \<Rightarrow> bool" where
  "invVotes s \<longleftrightarrow>
     (\<forall>v t c. (v, t, c) \<in> votes s \<longrightarrow>
        v \<in> ids s \<and> c \<in> ids s \<and> t \<le> CurrentTerm (node s v) \<and>
        (CurrentTerm (node s v) = t \<longrightarrow> VotedFor (node s v) = c)) \<and>
     (\<forall>v t c c'. (v, t, c) \<in> votes s \<and> (v, t, c') \<in> votes s \<longrightarrow> c = c')"

text \<open>Requests in flight belong to an election their candidate has started and not yet counted.\<close>

definition requestOk :: "('c, 'b) Cluster \<Rightarrow> int \<Rightarrow> RequestVoteArgs \<Rightarrow> bool" where
  "requestOk s p args \<longleftrightarrow>
     p \<in> ids s \<and> rvCandidateId args \<in> ids s \<and> p \<noteq> rvCandidateId args \<and>
     rvTerm args \<le> CurrentTerm (node s (rvCandidateId args)) \<and>
     p \<notin> counted s (electionKey args) \<and>
     (\<forall>args' r. (p, args', r) \<in> rvReplies s \<longrightarrow> electionKey args' \<noteq> electionKey args) \<and>
     (\<forall>args'. (p, args') \<in> rvRequests s \<and> electionKey args' = electionKey args \<longrightarrow> args' = args)"

definition invRequests :: "('c, 'b) Cluster \<Rightarrow> bool" where
  "invRequests s \<longleftrightarrow> (\<forall>p args. (p, args) \<in> rvRequests s \<longrightarrow> requestOk s p args)"

text \<open>A granted reply in flight stands for a vote that was cast and is not yet counted.\<close>

definition replyOk :: "('c, 'b) Cluster \<Rightarrow> int \<Rightarrow> RequestVoteArgs \<Rightarrow> RequestVoteReply \<Rightarrow> bool" where
  "replyOk s p args r \<longleftrightarrow>
     p \<in> ids s \<and> p \<noteq> rvCandidateId args \<and> rvCandidateId args \<in> ids s \<and>
     rvTerm args \<le> CurrentTerm (node s (rvCandidateId args)) \<and>
     p \<notin> counted s (electionKey args) \<and>
     (rvrVoteGranted r \<longrightarrow> (p, rvTerm args, rvCandidateId args) \<in> votes s \<and> rvrTerm r = rvTerm args) \<and>
     (\<forall>args' r'. (p, args', r') \<in> rvReplies s \<and> electionKey args' = electionKey args \<longrightarrow>
        args' = args \<and> r' = r)"

definition invReplies :: "('c, 'b) Cluster \<Rightarrow> bool" where
  "invReplies s \<longleftrightarrow> (\<forall>p args r. (p, args, r) \<in> rvReplies s \<longrightarrow> replyOk s p args r)"

text \<open>A live vote counter counts the candidate itself and the peers in \<^const>\<open>counted\<close>.\<close>

definition invCount :: "('c, 'b) Cluster \<Rightarrow> bool" where
  "invCount s \<longleftrightarrow>
     (\<forall>c t cnt. voteCnt s (c, t) = Some cnt \<longrightarrow>
        c \<in> ids s \<and> t \<le> CurrentTerm (node s c) \<and> (c, t, c) \<in> votes s \<and>
        counted s (c, t) \<subseteq> {p \<in> ids s. (p, t, c) \<in> votes s \<and> p \<noteq> c} \<and>
        cnt = 1 + int (card (counted s (c, t))))"

definition voters :: "('c, 'b) Cluster \<Rightarrow> int \<Rightarrow> int \<Rightarrow> int set" where
  "voters s t c = {p \<in> ids s. (p, t, c) \<in> votes s}"

text \<open>A leader has the votes of a majority in its term.\<close>

definition invLeader :: "('c, 'b) Cluster \<Rightarrow> bool" where
  "invLeader s \<longleftrightarrow>
     (\<forall>i \<in> ids s. state (node s i) = LEADER \<longrightarrow>
        csize s div 2 < card (voters s (CurrentTerm (node s i)) i))"

definition electionInv :: "('c, 'b) Cluster \<Rightarrow> bool" where
  "electionInv s \<longleftrightarrow>
     invNodes s \<and> invVotes s \<and> invRequests s \<and> invReplies s \<and> invCount s \<and> invLeader s"

lemmas inv_defs =
  invNodes_def invVotes_def invRequests_def requestOk_def invReplies_def replyOk_def invCount_def
  invLeader_def voters_def

section \<open>Preservation\<close>

lemma ids_setNode [simp]: "ids (setNode s i rf) = ids s"
  by (simp add: ids_def setNode_def)

lemma setNode_fields [simp]:
  "csize (setNode s i rf) = csize s" "node (setNode s i rf) = (node s)(i := rf)"
  "rvRequests (setNode s i rf) = rvRequests s" "rvReplies (setNode s i rf) = rvReplies s"
  "voteCnt (setNode s i rf) = voteCnt s" "votes (setNode s i rf) = votes s"
  "counted (setNode s i rf) = counted s"
  by (simp_all add: setNode_def)

lemma setNode_network [simp]:
  "delivered (setNode s i rf) = delivered s" "aeReplies (setNode s i rf) = aeReplies s"
  "isReplies (setNode s i rf) = isReplies s" "aeRequests (setNode s i rf) = aeRequests s"
  "isRequests (setNode s i rf) = isRequests s"
  by (simp_all add: setNode_def)

lemma ids_updates [simp]:
  "ids (s\<lparr>node := f\<rparr>) = ids s" "ids (s\<lparr>rvRequests := a\<rparr>) = ids s" "ids (s\<lparr>rvReplies := b\<rparr>) = ids s"
  "ids (s\<lparr>voteCnt := c\<rparr>) = ids s" "ids (s\<lparr>votes := d\<rparr>) = ids s" "ids (s\<lparr>counted := e\<rparr>) = ids s"
  "ids (s\<lparr>aeRequests := g\<rparr>) = ids s" "ids (s\<lparr>aeReplies := h\<rparr>) = ids s"
  "ids (s\<lparr>isRequests := k\<rparr>) = ids s" "ids (s\<lparr>isReplies := l\<rparr>) = ids s"
  "ids (s\<lparr>delivered := m\<rparr>) = ids s"
  by (simp_all add: ids_def)

lemma finite_ids [simp]: "finite (ids s)"
  by (simp add: ids_def)

lemma card_ids [simp]: "card (ids s) = csize s"
  by (simp add: ids_def)

text \<open>The fields that the election invariant does not read.\<close>

lemma electionInv_frame [simp]:
  "electionInv (s\<lparr>aeRequests := a\<rparr>) = electionInv s" "electionInv (s\<lparr>aeReplies := b\<rparr>) = electionInv s"
  "electionInv (s\<lparr>isRequests := c\<rparr>) = electionInv s" "electionInv (s\<lparr>isReplies := d\<rparr>) = electionInv s"
  "electionInv (s\<lparr>delivered := e\<rparr>) = electionInv s" "electionInv (deliver s i m) = electionInv s"
  by (simp_all add: electionInv_def inv_defs deliver_def)

lemma electionInv_quiet:
  assumes inv: "electionInv s" and q: "quiet (node s i) rf" and d: "durable (node s i) \<longrightarrow> durable rf"
  shows "electionInv (setNode s i rf)"
proof -
  have q': "me rf = me (node s i)" "peers rf = peers (node s i)" "CurrentTerm (node s i) \<le> CurrentTerm rf"
    "CurrentTerm rf = CurrentTerm (node s i) \<Longrightarrow> VotedFor rf = VotedFor (node s i)"
    "state rf = LEADER \<Longrightarrow> state (node s i) = LEADER \<and> CurrentTerm rf = CurrentTerm (node s i)"
    using q by (auto simp: quiet_def)
  have mono: "t \<le> CurrentTerm (node s j) \<Longrightarrow> t \<le> CurrentTerm (((node s)(i := rf)) j)" for t j
    using q'(3) by auto
  have "invNodes (setNode s i rf)" using inv d q'(1,2) by (auto simp: electionInv_def invNodes_def)
  moreover have "invVotes (setNode s i rf)"
    using inv q'(3,4) by (fastforce simp: electionInv_def invVotes_def)
  moreover have "invRequests (setNode s i rf)"
    using inv by (auto simp: electionInv_def invRequests_def requestOk_def simp del: fun_upd_apply intro!: mono)
  moreover have "invReplies (setNode s i rf)"
    using inv by (auto simp: electionInv_def invReplies_def replyOk_def simp del: fun_upd_apply intro!: mono)
  moreover have "invCount (setNode s i rf)"
    using inv by (auto simp: electionInv_def invCount_def simp del: fun_upd_apply intro!: mono)
  moreover have "invLeader (setNode s i rf)"
    using inv q'(5) by (auto simp: electionInv_def invLeader_def voters_def)
  ultimately show ?thesis by (simp add: electionInv_def)
qed

text \<open>Every step that neither votes nor wins is quiet.\<close>

lemma handleInstallSnapshotResponse_result:
  "pred_option (\<lambda>rf'. (durable rf \<longrightarrow> durable rf') \<and> quiet rf rf')
     (handleInstallSnapshotResponse rf peer args reply)"
  unfolding handleInstallSnapshotResponse_def changeState_def Let_def
  by (intro go_wp) (auto simp: quiet_def durable_def)

lemma commitLoop_result:
  "pred_option (\<lambda>rf'. \<exists>c. rf' = rf\<lparr>CommitIndex := c\<rparr>) (commitLoop rf left N)"
proof (induction rf left N rule: commitLoop.induct)
  case (1 rf left N)
  have "rf = rf\<lparr>CommitIndex := CommitIndex rf\<rparr>" by simp
  then have self: "\<exists>c. rf = rf\<lparr>CommitIndex := c\<rparr>" by blast
  show ?case
  proof (cases "left \<le> N")
    case True
    then show ?thesis
      using "1.IH"[OF True]
      by (subst commitLoop.simps) (cases "hasBeenAppendedMajority rf N", auto split: bool.splits)
  next
    case False
    then have "commitLoop rf left N = Some rf" by (subst commitLoop.simps) simp
    then show ?thesis using self by (simp only: option.pred_inject)
  qed
qed

lemma handleReplicateOneRoundResponse_result:
  "pred_option (\<lambda>rf'. (durable rf \<longrightarrow> durable rf') \<and> quiet rf rf')
     (handleReplicateOneRoundResponse rf peer args reply)"
proof -
  have cl: "pred_option (\<lambda>rf'. (durable rf \<longrightarrow> durable rf') \<and> quiet rf rf') (commitLoop rf1 left N)"
    if "quiet rf rf1" "durable rf \<longrightarrow> durable rf1" for rf1 left N
    using commitLoop_result[of rf1 left N] that
    by (cases "commitLoop rf1 left N") (auto simp: quiet_def durable_def)
  show ?thesis
    unfolding handleReplicateOneRoundResponse_def changeState_def Let_def
    by (intro go_wp cl) (auto simp: quiet_def durable_def)
qed

lemma Start_result:
  "pred_option (\<lambda>(rf', out). (durable rf \<longrightarrow> durable rf') \<and> quiet rf rf') (Start rf c)"
  unfolding Start_def appendNewLogEntry_def Let_def bind_assoc
  by (intro go_wp) (auto simp: quiet_def)

lemma Snapshot_result:
  "pred_option (\<lambda>rf'. (durable rf \<longrightarrow> durable rf') \<and> quiet rf rf') (Snapshot rf k snap)"
  unfolding Snapshot_def Let_def
  by (intro go_wp) (auto simp: quiet_def durable_def recovered_def)

lemma applier_result:
  "applierTake rf = Some rf' \<Longrightarrow> quiet rf rf' \<and> (durable rf \<longrightarrow> durable rf')"
  "applierPush rf = Some (rf', m) \<Longrightarrow> quiet rf rf' \<and> (durable rf \<longrightarrow> durable rf')"
  "quiet rf (applierDone rf) \<and> (durable rf \<longrightarrow> durable (applierDone rf))"
  "snapshotPush rf k = Some (rf', m) \<Longrightarrow> quiet rf rf' \<and> (durable rf \<longrightarrow> durable rf')"
  "quiet rf (snapshotDone rf k) \<and> (durable rf \<longrightarrow> durable (snapshotDone rf k))"
  by (auto simp: applierTake_def applierPush_def applierDone_def snapshotPush_def snapshotDone_def
      quiet_def durable_def bind_eq_Some_conv split: if_splits option.splits prod.splits list.splits)

text \<open>The steps of an election, one by one.\<close>

lemma otherPeers_ids: "me rf = i \<Longrightarrow> peers rf = csize s \<Longrightarrow> p \<in> set (otherPeers rf) \<longleftrightarrow> p \<in> ids s \<and> p \<noteq> i"
  by (auto simp: otherPeers_def ids_def image_iff intro!: bexI[of _ "nat p"])

lemma electionTimeout_result:
  assumes "electionTimeout rf = Some (rf', reqs)" "state rf \<noteq> LEADER"
  shows "CurrentTerm rf' = CurrentTerm rf + 1" "VotedFor rf' = me rf" "me rf' = me rf" "peers rf' = peers rf"
    "state rf' = CANDIDATE" "durable rf'"
    "\<exists>li lt. reqs = map (\<lambda>p. (p, \<lparr>rvTerm = CurrentTerm rf + 1, rvCandidateId = me rf,
        rvLastLogIndex = li, rvLastLogTerm = lt\<rparr>)) (otherPeers rf)"
  using assms
  by (auto simp: electionTimeout_def changeState_def startElect_def bind_eq_Some_conv otherPeers_def)

lemma elect_keeps:
  assumes inv: "electionInv s" and i: "i \<in> ids s" and nl: "state (node s i) \<noteq> LEADER"
    and e: "electionTimeout (node s i) = Some (rf, reqs)"
  shows "electionInv ((setNode s i rf)\<lparr>rvRequests := rvRequests s \<union> set reqs,
       voteCnt := (voteCnt s)((i, CurrentTerm rf) \<mapsto> 1),
       votes := insert (i, CurrentTerm rf, i) (votes s),
       counted := (counted s)((i, CurrentTerm rf) := {})\<rparr>)" (is "electionInv ?t")
proof -
  let ?T = "CurrentTerm (node s i) + 1"
  note r = electionTimeout_result[OF e nl]
  have me: "me (node s i) = i" "peers (node s i) = csize s"
    using inv i by (auto simp: electionInv_def invNodes_def)
  obtain li lt where reqs: "reqs = map (\<lambda>p. (p, \<lparr>rvTerm = ?T, rvCandidateId = i,
        rvLastLogIndex = li, rvLastLogTerm = lt\<rparr>)) (otherPeers (node s i))"
    using r(7) me by auto
  have mem: "(p, a) \<in> set reqs \<longleftrightarrow> p \<in> ids s \<and> p \<noteq> i \<and>
      a = \<lparr>rvTerm = ?T, rvCandidateId = i, rvLastLogIndex = li, rvLastLogTerm = lt\<rparr>" for p a
    using otherPeers_ids[OF me] by (auto simp: reqs)
  have mono: "t \<le> CurrentTerm (node s j) \<Longrightarrow> t \<le> CurrentTerm (((node s)(i := rf)) j)" for t j
    using r(1) by auto
  have newreq: "electionKey a \<noteq> (i, ?T)" if "(p, a) \<in> rvRequests s" for p a
    using inv that by (fastforce simp: electionInv_def invRequests_def requestOk_def electionKey_def)
  have newrep: "electionKey a \<noteq> (i, ?T)" if "(p, a, x) \<in> rvReplies s" for p a x
    using inv that by (fastforce simp: electionInv_def invReplies_def replyOk_def electionKey_def)
  have newvote: "(i, ?T, c) \<notin> votes s" for c
    using inv by (fastforce simp: electionInv_def invVotes_def)
  have newkey: "electionKey a = (i, ?T)" if "(p, a) \<in> set reqs" for p a
    using that by (simp add: mem electionKey_def)
  have "invNodes ?t" using inv r me by (auto simp: electionInv_def invNodes_def)
  moreover have "invVotes ?t"
    using inv r me i newvote by (fastforce simp: electionInv_def invVotes_def)
  moreover have "invRequests ?t"
    unfolding invRequests_def
  proof (intro allI impI)
    fix p a assume "(p, a) \<in> rvRequests ?t"
    then consider (old) "(p, a) \<in> rvRequests s" | (new) "(p, a) \<in> set reqs" by auto
    then show "requestOk ?t p a"
    proof cases
      case old
      then have "requestOk s p a" using inv by (simp add: electionInv_def invRequests_def)
      then show ?thesis
        using newreq[OF old] newkey r(1) mono[of "rvTerm a" "rvCandidateId a"]
        unfolding requestOk_def by (auto simp del: fun_upd_apply simp: fun_upd_other) 
    next
      case new
      then show ?thesis
        using newreq newrep i r(1) newkey[OF new] new mem unfolding requestOk_def by auto
    qed
  qed
  moreover have "invReplies ?t"
    unfolding invReplies_def
  proof (intro allI impI)
    fix p a x assume "(p, a, x) \<in> rvReplies ?t"
    then have old: "(p, a, x) \<in> rvReplies s" by simp
    then have "replyOk s p a x" using inv by (simp add: electionInv_def invReplies_def)
    then show "replyOk ?t p a x"
      using newrep[OF old] r(1) mono[of "rvTerm a" "rvCandidateId a"]
      unfolding replyOk_def by (auto simp del: fun_upd_apply simp: fun_upd_other)
  qed
  moreover have "invCount ?t"
    using inv i r(1) by (fastforce simp: electionInv_def invCount_def split: if_splits)
  moreover have "invLeader ?t"
    unfolding invLeader_def
  proof (intro ballI impI)
    fix j assume j: "j \<in> ids ?t" "state (node ?t j) = LEADER"
    then have "j \<noteq> i" using r(5) by auto
    then have "csize s div 2 < card (voters s (CurrentTerm (node s j)) j)"
      using inv j by (simp add: electionInv_def invLeader_def)
    also have "\<dots> \<le> card (voters ?t (CurrentTerm (node ?t j)) j)"
      using \<open>j \<noteq> i\<close> by (intro card_mono) (auto simp: voters_def)
    finally show "csize ?t div 2 < card (voters ?t (CurrentTerm (node ?t j)) j)" by simp
  qed
  ultimately show ?thesis by (simp add: electionInv_def)
qed


lemma electionInvD:
  assumes "electionInv s"
  shows "(p, args) \<in> rvRequests s \<Longrightarrow> requestOk s p args" "(p, args, r) \<in> rvReplies s \<Longrightarrow> replyOk s p args r"
  using assms by (auto simp: electionInv_def invRequests_def invReplies_def)

lemma voters_mono: "ids t = ids s \<Longrightarrow> votes s \<subseteq> votes t \<Longrightarrow> card (voters s k c) \<le> card (voters t k c)"
  by (intro card_mono) (auto simp: voters_def)

lemma voteRequest_keeps:
  assumes inv: "electionInv s" and a: "(p, args) \<in> rvRequests s" and p: "p \<in> ids s"
    and h: "RequestVote (node s p) args = Some (rf, reply)"
  shows "electionInv ((setNode s p rf)\<lparr>rvRequests := rvRequests s - {(p, args)},
       rvReplies := insert (p, args, reply) (rvReplies s),
       votes := (if rvrVoteGranted reply
                 then insert (p, rvTerm args, rvCandidateId args) (votes s) else votes s)\<rparr>)" (is "electionInv ?t")
proof -
  note e = RequestVote_effect[OF h]
  have vs: "me rf = me (node s p)" "peers rf = peers (node s p)" "CurrentTerm (node s p) \<le> CurrentTerm rf"
    "CurrentTerm rf = CurrentTerm (node s p) \<Longrightarrow> VotedFor (node s p) \<noteq> -1 \<Longrightarrow> VotedFor rf = VotedFor (node s p)"
    using e(2) by (auto simp: voteStep_def)
  have ok: "requestOk s p args" using electionInvD(1)[OF inv a] .
  have mono: "t \<le> CurrentTerm (node s j) \<Longrightarrow> t \<le> CurrentTerm (((node s)(p := rf)) j)" for t j
    using vs(3) by auto
  have pos: "c \<in> ids s \<Longrightarrow> c \<noteq> -1" for c by (auto simp: ids_def)
  have old: "t \<le> CurrentTerm rf \<and> (CurrentTerm rf = t \<longrightarrow> VotedFor rf = c)" if "(p, t, c) \<in> votes s" for t c
  proof -
    have "t \<le> CurrentTerm (node s p)" "CurrentTerm (node s p) = t \<longrightarrow> VotedFor (node s p) = c" "c \<in> ids s"
      using inv that by (auto simp: electionInv_def invVotes_def)
    then show ?thesis using vs(3,4) pos by force
  qed
  have "invNodes ?t" using inv e(1) vs p by (auto simp: electionInv_def invNodes_def)
  moreover have "invVotes ?t"
    using inv e(4) old p ok unfolding electionInv_def invVotes_def requestOk_def by (auto; metis)
  moreover have "invRequests ?t"
    unfolding invRequests_def
  proof (intro allI impI)
    fix q b assume "(q, b) \<in> rvRequests ?t"
    then have b: "(q, b) \<in> rvRequests s" "(q, b) \<noteq> (p, args)" by auto
    show "requestOk ?t q b"
      using electionInvD(1)[OF inv b(1)] b(2) ok a mono[of "rvTerm b" "rvCandidateId b"]
      unfolding requestOk_def by (auto simp del: fun_upd_apply)
  qed
  moreover have "invReplies ?t"
    unfolding invReplies_def
  proof (intro allI impI)
    fix q b x assume "(q, b, x) \<in> rvReplies ?t"
    then consider (new) "(q, b, x) = (p, args, reply)" | (old) "(q, b, x) \<in> rvReplies s" by auto
    then show "replyOk ?t q b x"
    proof cases
      case new
      then show ?thesis using ok e(4) mono[of "rvTerm args" "rvCandidateId args"]
        unfolding requestOk_def replyOk_def by (auto simp del: fun_upd_apply)
    next
      case old
      have "\<not> (q = p \<and> electionKey b = electionKey args)" using ok old by (force simp: requestOk_def)
      then show ?thesis using electionInvD(2)[OF inv old] mono[of "rvTerm b" "rvCandidateId b"]
        unfolding replyOk_def by (auto simp del: fun_upd_apply)
    qed
  qed
  moreover have "invCount ?t"
    using inv unfolding electionInv_def invCount_def
    by (auto simp del: fun_upd_apply intro!: mono)
  moreover have "invLeader ?t"
    unfolding invLeader_def
  proof (intro ballI impI)
    fix j assume j: "j \<in> ids ?t" "state (node ?t j) = LEADER"
    then have "state (node s j) = LEADER \<and> CurrentTerm (node ?t j) = CurrentTerm (node s j)"
      using e(3) by (auto split: if_splits)
    then show "csize ?t div 2 < card (voters ?t (CurrentTerm (node ?t j)) j)"
      using inv j voters_mono[of ?t s "CurrentTerm (node s j)" j]
      by (fastforce simp: electionInv_def invLeader_def)
  qed
  ultimately show ?thesis by (simp add: electionInv_def)
qed

lemma leaderIndices_result:
  "pred_option (\<lambda>rf'. \<exists>ni mi. rf' = rf\<lparr>nextIndex := ni, matchIndex := mi\<rparr>) (leaderIndices rf is)"
proof (induction rf "is" rule: leaderIndices.induct)
  case (1 rf)
  have "rf = rf\<lparr>nextIndex := nextIndex rf, matchIndex := matchIndex rf\<rparr>" by simp
  then show ?case by (simp only: leaderIndices.simps option.pred_inject) blast
next
  case (2 rf i "is")
  show ?case
    unfolding leaderIndices.simps
    by (intro go_wp) (use 2 in \<open>fastforce simp: option.pred_set\<close>)+
qed

text \<open>What a vote reply does to the peer, without assuming the peer in good order.\<close>

lemma handleRequestVoteReply_result:
  assumes "handleRequestVoteReply rf cnt reply = Some (rf', cnt', hb)"
  shows "me rf' = me rf" "peers rf' = peers rf" "CurrentTerm rf \<le> CurrentTerm rf'"
    "CurrentTerm rf' = CurrentTerm rf \<Longrightarrow> VotedFor rf' = VotedFor rf" "durable rf \<Longrightarrow> durable rf'"
    "cnt' = (if rvrTerm reply = CurrentTerm rf \<and> rvrVoteGranted reply then cnt + 1 else cnt)"
    "state rf' = LEADER \<Longrightarrow> CurrentTerm rf' = CurrentTerm rf \<and>
       (state rf = LEADER \<or> rvrTerm reply = CurrentTerm rf \<and> rvrVoteGranted reply \<and> cnt' > int (peers rf div 2))"
  using assms
  by (auto simp: handleRequestVoteReply_def changeState_def bind_eq_Some_conv durable_def split: if_splits
      dest!: pred_optionD[OF leaderIndices_result])

lemma voteReply_keeps:
  assumes inv: "electionInv s" and a: "(p, args, reply) \<in> rvReplies s" and c: "c = rvCandidateId args" "c \<in> ids s"
    and cnt: "voteCnt s (electionKey args) = Some cnt"
    and h: "handleRequestVoteReply (node s c) cnt reply = Some (rf, cnt', hb)"
  shows "electionInv ((setNode s c rf)\<lparr>rvReplies := rvReplies s - {(p, args, reply)},
       voteCnt := (voteCnt s)(electionKey args \<mapsto> cnt'),
       counted := (if rvrTerm reply = CurrentTerm (node s c) \<and> rvrVoteGranted reply
                   then (counted s)(electionKey args := insert p (counted s (electionKey args)))
                   else counted s)\<rparr>)" (is "electionInv ?t")
proof -
  let ?k = "electionKey args"
  let ?hit = "rvrTerm reply = CurrentTerm (node s c) \<and> rvrVoteGranted reply"
  note r = handleRequestVoteReply_result[OF h]
  have ok: "replyOk s p args reply" using electionInvD(2)[OF inv a] .
  have k: "?k = (c, rvTerm args)" by (simp add: electionKey_def c)
  have mono: "t \<le> CurrentTerm (node s j) \<Longrightarrow> t \<le> CurrentTerm (((node s)(c := rf)) j)" for t j
    using r(3) by auto
  have old: "t \<le> CurrentTerm rf \<and> (CurrentTerm rf = t \<longrightarrow> VotedFor rf = d)" if "(c, t, d) \<in> votes s" for t d
    using inv that r(3,4) by (fastforce simp: electionInv_def invVotes_def)
  have key: "(c, rvTerm args, c) \<in> votes s" "cnt = 1 + int (card (counted s ?k))"
    "counted s ?k \<subseteq> {p \<in> ids s. (p, rvTerm args, c) \<in> votes s \<and> p \<noteq> c}"
    using inv cnt k by (auto simp: electionInv_def invCount_def)
  have fin: "finite (counted s ?k)" using key(3) by (rule finite_subset) simp
  have newp: "p \<notin> counted s ?k" "p \<noteq> c" "p \<in> ids s" using ok c by (auto simp: replyOk_def)
  have hit: "(p, rvTerm args, c) \<in> votes s" "rvTerm args = CurrentTerm (node s c)" if ?hit
    using ok that c by (auto simp: replyOk_def)
  have cp: "card (insert p (counted s ?k)) = Suc (card (counted s ?k))" using fin newp by simp
  have "invNodes ?t" using inv r(1,2,5) c by (auto simp: electionInv_def invNodes_def)
  moreover have "invVotes ?t" using inv old unfolding electionInv_def invVotes_def by (auto; metis)
  moreover have "invRequests ?t"
    unfolding invRequests_def
  proof (intro allI impI)
    fix q b assume "(q, b) \<in> rvRequests ?t"
    then have b: "(q, b) \<in> rvRequests s" by simp
    have "\<not> (q = p \<and> electionKey b = ?k)" using electionInvD(1)[OF inv b] a by (force simp: requestOk_def)
    then show "requestOk ?t q b"
      using electionInvD(1)[OF inv b] mono[of "rvTerm b" "rvCandidateId b"]
      unfolding requestOk_def by (auto simp del: fun_upd_apply simp: fun_upd_def)
  qed
  moreover have "invReplies ?t"
    unfolding invReplies_def
  proof (intro allI impI)
    fix q b x assume "(q, b, x) \<in> rvReplies ?t"
    then have b: "(q, b, x) \<in> rvReplies s" "(q, b, x) \<noteq> (p, args, reply)" by auto
    have "\<not> (q = p \<and> electionKey b = ?k)" using electionInvD(2)[OF inv b(1)] b(2) a by (force simp: replyOk_def)
    then show "replyOk ?t q b x"
      using electionInvD(2)[OF inv b(1)] mono[of "rvTerm b" "rvCandidateId b"]
      unfolding replyOk_def by (auto simp del: fun_upd_apply simp: fun_upd_def)
  qed
  moreover have "invCount ?t"
    unfolding invCount_def
  proof (intro allI impI)
    fix d t m assume m: "voteCnt ?t (d, t) = Some m"
    show "d \<in> ids ?t \<and> t \<le> CurrentTerm (node ?t d) \<and> (d, t, d) \<in> votes ?t \<and>
        counted ?t (d, t) \<subseteq> {p \<in> ids ?t. (p, t, d) \<in> votes ?t \<and> p \<noteq> d} \<and>
        m = 1 + int (card (counted ?t (d, t)))"
    proof (cases "(d, t) = ?k")
      case True
      then have dt: "d = c" "t = rvTerm args" using k by auto
      have "rvTerm args \<le> CurrentTerm (node s c)" using ok c by (simp add: replyOk_def)
      then have "rvTerm args \<le> CurrentTerm rf" using r(3) by simp
      then show ?thesis
        using m True dt c key newp hit r(6) cp k by auto
    next
      case False
      then have "voteCnt s (d, t) = Some m" using m by simp
      then show ?thesis
        using inv False mono[of t d] unfolding electionInv_def invCount_def
        by (auto simp del: fun_upd_apply simp: fun_upd_other)
    qed
  qed
  moreover have "invLeader ?t"
    unfolding invLeader_def
  proof (intro ballI impI)
    fix j assume j: "j \<in> ids ?t" "state (node ?t j) = LEADER"
    have vt: "voters ?t u d = voters s u d" for u d by (simp add: voters_def)
    consider (old) "state (node s j) = LEADER" "CurrentTerm (node ?t j) = CurrentTerm (node s j)"
      | (win) "j = c" ?hit "cnt' > int (csize s div 2)" "CurrentTerm rf = CurrentTerm (node s c)"
      using j r(7) inv c by (auto simp: electionInv_def invNodes_def split: if_splits)
    then show "csize ?t div 2 < card (voters ?t (CurrentTerm (node ?t j)) j)"
    proof cases
      case old
      then show ?thesis using inv j vt by (auto simp: electionInv_def invLeader_def simp del: fun_upd_apply)
    next
      case win
      have "insert c (insert p (counted s ?k)) \<subseteq> voters s (rvTerm args) c"
        using key hit[OF win(2)] newp c by (auto simp: voters_def)
      then have "card (insert c (insert p (counted s ?k))) \<le> card (voters s (rvTerm args) c)"
        by (intro card_mono) (auto simp: voters_def)
      moreover have "c \<notin> insert p (counted s ?k)" using key(3) newp by auto
      ultimately have "cnt' \<le> int (card (voters s (rvTerm args) c))"
        using fin cp key(2) r(6) win(2) by simp
      then show ?thesis using win hit(2)[OF win(2)] vt by simp
    qed
  qed
  ultimately show ?thesis by (simp add: electionInv_def)
qed


lemma Make_result:
  assumes "Make n i ps = Some rf"
  shows "recovered ps = (CurrentTerm rf, VotedFor rf, Log rf)" "persister rf = ps" "me rf = i" "peers rf = n"
    "state rf = FOLLOWER"
  using assms
  by (auto simp: Make_def readPersist_def ReadRaftState_def ReadSnapshot_def recovered_def bind_eq_Some_conv
      split: if_splits prod.splits)

text \<open>Losing vote counters is harmless.\<close>

lemma electionInv_forget:
  assumes inv: "electionInv s" and v: "\<And>k. v k = None \<or> v k = voteCnt s k"
  shows "electionInv (s\<lparr>voteCnt := v\<rparr>)"
proof -
  have "voteCnt s k = Some cnt" if "v k = Some cnt" for k cnt using v[of k] that by auto
  then have "invCount (s\<lparr>voteCnt := v\<rparr>)" using inv
    unfolding electionInv_def invCount_def by simp blast
  moreover have "invNodes (s\<lparr>voteCnt := v\<rparr>) = invNodes s" "invVotes (s\<lparr>voteCnt := v\<rparr>) = invVotes s"
    "invRequests (s\<lparr>voteCnt := v\<rparr>) = invRequests s" "invReplies (s\<lparr>voteCnt := v\<rparr>) = invReplies s"
    "invLeader (s\<lparr>voteCnt := v\<rparr>) = invLeader s"
    by (simp_all add: inv_defs)
  ultimately show ?thesis using inv by (simp only: electionInv_def)
qed

lemma restart_keeps:
  assumes inv: "electionInv s" and i: "i \<in> ids s" and m: "Make (csize s) i (Copy (persister (node s i))) = Some rf"
  shows "electionInv ((setNode s i rf)\<lparr>voteCnt := (\<lambda>(c, t). if c = i then None else voteCnt s (c, t)),
       delivered := d\<rparr>)"
proof -
  note r = Make_result[OF m]
  have n: "durable (node s i)" "me (node s i) = i" "peers (node s i) = csize s"
    using inv i by (auto simp: electionInv_def invNodes_def)
  have "quiet (node s i) rf" "durable rf" using r n by (auto simp: quiet_def durable_def Copy_id)
  then have "electionInv (setNode s i rf)" using electionInv_quiet[OF inv] by blast
  then show ?thesis unfolding electionInv_frame by (rule electionInv_forget) auto
qed

lemma quiet_result:
  "electionInv s \<Longrightarrow> pred_option (\<lambda>rf'. (durable (node s i) \<longrightarrow> durable rf') \<and> quiet (node s i) rf') m \<Longrightarrow>
   m = Some rf \<Longrightarrow> electionInv (setNode s i rf)"
  by (auto dest: pred_optionD intro: electionInv_quiet)

lemma clusterStep_keeps: "clusterStep s t \<Longrightarrow> electionInv s \<Longrightarrow> electionInv t"
proof (induction rule: clusterStep.induct)
  case elect then show ?case by (intro elect_keeps)
next
  case voteRequest then show ?case by (intro voteRequest_keeps)
next
  case voteReply then show ?case by (intro voteReply_keeps)
next
  case (appendRequest p args s rf reply)
  then show ?case using pred_optionD[OF AppendEntries_result appendRequest(2)] by (auto intro: electionInv_quiet)
next
  case appendReply
  then show ?case by (auto intro: quiet_result handleReplicateOneRoundResponse_result)
next
  case (snapshotRequest p sargs s rf reply)
  then show ?case using pred_optionD[OF InstallSnapshot_result snapshotRequest(2)] by (auto intro: electionInv_quiet)
next
  case snapshotReply
  then show ?case by (auto intro: quiet_result handleInstallSnapshotResponse_result)
next
  case (clientStart i s c rf signalled result)
  then show ?case using pred_optionD[OF Start_result clientStart(2)] by (auto intro: electionInv_quiet)
next
  case takeSnapshot then show ?case by (auto intro: quiet_result Snapshot_result)
next
  case applyTake then show ?case using applier_result(1) by (blast intro: electionInv_quiet)
next
  case applyPush then show ?case using applier_result(2) by (auto intro!: electionInv_quiet)
next
  case applyDone then show ?case using applier_result(3) by (blast intro: electionInv_quiet)
next
  case snapPush then show ?case using applier_result(4) by (auto intro!: electionInv_quiet)
next
  case snapDone then show ?case using applier_result(5) by (blast intro: electionInv_quiet)
next
  case kill then show ?case by (intro electionInv_quiet) (auto simp: Kill_def quiet_def durable_def)
next
  case restart then show ?case by (intro restart_keeps)
qed simp_all

lemma bootNode:
  assumes "0 \<le> i" "i < int n"
  obtains rf :: "('c, 'b) Raft" where "Make n i MakePersister = Some rf" "sound rf" "CurrentTerm rf = 0"
    "state rf = FOLLOWER" "me rf = i" "peers rf = n"
proof -
  have "wfLog [\<lparr>Term = 0, Command = None, Index = 0\<rparr>] 0" by (simp add: wfLog_def firstIdx_def)
  from Make_recovers[OF recovered_fresh this assms] show thesis using that by blast
qed

lemma bootCluster_inv: "electionInv (bootCluster n :: ('c, 'b) Cluster)"
proof -
  have "durable (node (bootCluster n :: ('c, 'b) Cluster) i) \<and> me (node (bootCluster n :: ('c, 'b) Cluster) i) = i \<and>
      peers (node (bootCluster n :: ('c, 'b) Cluster) i) = n \<and> state (node (bootCluster n :: ('c, 'b) Cluster) i) = FOLLOWER"
    if "0 \<le> i" "i < int n" for i
    using that by (rule bootNode[where 'c = 'c and 'b = 'b]) (simp add: bootCluster_def sound_def)
  then show ?thesis
    unfolding electionInv_def inv_defs ids_def by (auto simp: bootCluster_def)
qed

lemma reachable_inv: "reachable n s \<Longrightarrow> electionInv s"
  by (induction rule: reachable.induct) (auto intro: bootCluster_inv clusterStep_keeps)

lemma clusterStep_size: "clusterStep s t \<Longrightarrow> csize t = csize s"
  by (induction rule: clusterStep.induct) (simp_all add: deliver_def)

lemma reachable_size: "reachable n s \<Longrightarrow> csize s = n"
  by (induction rule: reachable.induct) (simp_all add: bootCluster_def clusterStep_size)

section \<open>Election safety\<close>

lemma leaders_agree:
  assumes inv: "electionInv s" and ij: "i \<in> ids s" "j \<in> ids s"
    and l: "state (node s i) = LEADER" "state (node s j) = LEADER"
    and t: "CurrentTerm (node s i) = CurrentTerm (node s j)"
  shows "i = j"
proof -
  let ?t = "CurrentTerm (node s i)"
  have "csize s div 2 < card (voters s ?t i)" "csize s div 2 < card (voters s ?t j)"
    using inv ij l unfolding electionInv_def invLeader_def t by (metis t, metis)
  then obtain v where "v \<in> voters s ?t i" "v \<in> voters s ?t j"
    using majorities_meet[of "ids s" "voters s ?t i" "voters s ?t j"] by (auto simp: voters_def)
  then show ?thesis using inv unfolding electionInv_def invVotes_def voters_def by blast
qed

end
