(* ===== verification/RaftHistory.thy ===== *)
theory RaftHistory
  imports RaftCluster
begin

text \<open>
  The history of a cluster, as far as the safety of the log depends on it: the complete log of the
  leader of each term, who led, who elected it with which log, and who acknowledged which entries.
  No step of the program reads any of this; the invariant says that a history exists that
  fits the state of the cluster.  This theory holds the part that speaks of the
  history alone, and its consequence: an entry that a majority has acknowledged in its own term
  is in the log of every later leader.
\<close>

section \<open>Lists that agree up to an index\<close>

definition agree :: "nat \<Rightarrow> 'a list \<Rightarrow> 'a list \<Rightarrow> bool" where
  "agree n a b \<longleftrightarrow> n < length a \<and> n < length b \<and> (\<forall>k \<le> n. a ! k = b ! k)"

lemma agree_refl: "n < length a \<Longrightarrow> agree n a a"
  by (simp add: agree_def)

lemma agree_sym: "agree n a b \<Longrightarrow> agree n b a"
  by (simp add: agree_def)

lemma agree_trans: "agree n a b \<Longrightarrow> agree n b c \<Longrightarrow> agree n a c"
  by (simp add: agree_def)

lemma agree_le: "agree n a b \<Longrightarrow> m \<le> n \<Longrightarrow> agree m a b"
  by (auto simp: agree_def)

lemma agree_nth: "agree n a b \<Longrightarrow> k \<le> n \<Longrightarrow> a ! k = b ! k"
  by (simp add: agree_def)

lemma agree_length: "agree n a b \<Longrightarrow> n < length a" "agree n a b \<Longrightarrow> n < length b"
  by (simp_all add: agree_def)

definition initial :: "'a list \<Rightarrow> 'a list \<Rightarrow> bool" where
  "initial a b \<longleftrightarrow> length a \<le> length b \<and> (\<forall>k < length a. a ! k = b ! k)"

lemma initial_refl [simp]: "initial a a" "initial a (a @ b)" "initial [] b"
  by (simp_all add: initial_def nth_append)

lemma initial_agree: "initial a b \<Longrightarrow> n < length a \<Longrightarrow> agree n a b"
  by (auto simp: initial_def agree_def)

lemma agree_initial: "agree n a b \<Longrightarrow> initial b b' \<Longrightarrow> agree n a b'"
  by (auto simp: initial_def agree_def)

lemma initial_trans: "initial a b \<Longrightarrow> initial b c \<Longrightarrow> initial a c"
  by (auto simp: initial_def)

section \<open>The history\<close>

record 'c History =
  leaderOf :: "int \<Rightarrow> int option"
  termLog :: "int \<Rightarrow> 'c LogEntry list"
  electors :: "int \<Rightarrow> int set"
  fullLog :: "int \<Rightarrow> 'c LogEntry list"
  acks :: "(int \<times> int \<times> nat) set"
  voterLog :: "int \<times> int \<Rightarrow> 'c LogEntry list"
  candidateLog :: "int \<times> int \<Rightarrow> 'c LogEntry list"

definition origin :: "'c LogEntry" where
  "origin = \<lparr>Term = 0, Command = None, Index = 0\<rparr>"

text \<open>
  The logs of the terms: indices are positions, terms never fall, and up to an entry of term \<open>u\<close>
  a log is that of the leader of \<open>u\<close>.
\<close>

definition canonOk :: "(int \<Rightarrow> 'c LogEntry list) \<Rightarrow> bool" where
  "canonOk C \<longleftrightarrow>
     C 0 = [origin] \<and> (\<forall>t. C t \<noteq> [] \<longrightarrow> C t ! 0 = origin) \<and>
     (\<forall>t k. k < length (C t) \<longrightarrow>
        Index (C t ! k) = int k \<and> 0 \<le> Term (C t ! k) \<and> Term (C t ! k) \<le> t \<and>
        agree k (C (Term (C t ! k))) (C t) \<and> (\<forall>j \<le> k. Term (C t ! j) \<le> Term (C t ! k)))"

text \<open>A complete log whose last entry is of term \<open>u\<close> is a beginning of the log of \<open>u\<close>.\<close>

definition canonical :: "(int \<Rightarrow> 'c LogEntry list) \<Rightarrow> 'c LogEntry list \<Rightarrow> bool" where
  "canonical C l \<longleftrightarrow> l \<noteq> [] \<and> initial l (C (Term (last l)))"

lemma canonOkD:
  assumes "canonOk C" "k < length (C t)"
  shows "Index (C t ! k) = int k" "0 \<le> Term (C t ! k)" "Term (C t ! k) \<le> t"
    "agree k (C (Term (C t ! k))) (C t)" "j \<le> k \<Longrightarrow> Term (C t ! j) \<le> Term (C t ! k)"
  using assms by (auto simp: canonOk_def)

lemma canonical_last: "l \<noteq> [] \<Longrightarrow> last l = l ! (length l - 1)"
  by (simp add: last_conv_nth)

lemma canonical_nth:
  assumes c: "canonOk C" and l: "canonical C l" and k: "k < length l"
  shows "agree k l (C (Term (l ! k)))" "Index (l ! k) = int k" "0 \<le> Term (l ! k)"
    "Term (l ! k) \<le> Term (last l)" "j \<le> k \<Longrightarrow> Term (l ! j) \<le> Term (l ! k)"
proof -
  define T where "T = Term (last l)"
  have a: "initial l (C T)" using l by (simp add: canonical_def T_def)
  have lk: "l ! k = C T ! k" "k < length (C T)" using a k by (auto simp: initial_def)
  note d = canonOkD[OF c lk(2), folded lk(1)]
  show "agree k l (C (Term (l ! k)))" using agree_trans[OF initial_agree[OF a k] agree_sym[OF d(4)]] .
  show "Index (l ! k) = int k" "0 \<le> Term (l ! k)" using d by simp_all
  show "j \<le> k \<Longrightarrow> Term (l ! j) \<le> Term (l ! k)" using d(5)[of j] a k by (auto simp: initial_def)
  have ne: "l \<noteq> []" using l by (simp add: canonical_def)
  then have m: "length l - 1 < length l" "last l = l ! (length l - 1)" by (simp_all add: last_conv_nth)
  then have n: "length l - 1 < length (C T)" "last l = C T ! (length l - 1)"
    using initial_agree[OF a m(1)] by (simp_all add: agree_def)
  have "Term (C T ! k) \<le> Term (C T ! (length l - 1))" using canonOkD(5)[OF c n(1), of k] k by simp
  then show "Term (l ! k) \<le> Term (last l)" by (simp only: lk(1) n(2))
qed

lemma canonical_origin: "canonOk C \<Longrightarrow> canonical C l \<Longrightarrow> l ! 0 = origin"
  unfolding canonOk_def canonical_def initial_def by (metis le_zero_eq length_0_conv length_greater_0_conv)

text \<open>Two complete logs with the same term at an index agree up to it.\<close>

lemma canonical_agree:
  assumes "canonOk C" "canonical C l" "canonical C m" "k < length l" "k < length m" "Term (l ! k) = Term (m ! k)"
  shows "agree k l m"
  using canonical_nth(1)[OF assms(1,2,4)] canonical_nth(1)[OF assms(1,3,5)] assms(6)
  by (metis agree_sym agree_trans)

lemma canonical_termLog:
  assumes "canonOk C" "C t \<noteq> []" "k < length (C t)"
  shows "canonical C (take (Suc k) (C t))"
proof -
  let ?l = "take (Suc k) (C t)"
  have "last ?l = C t ! k" using assms(3) by (simp add: take_Suc_conv_app_nth)
  moreover have "agree k (C (Term (C t ! k))) (C t)" using canonOkD(4)[OF assms(1,3)] .
  ultimately show ?thesis using assms(3) by (auto simp: canonical_def initial_def agree_def)
qed

section \<open>The invariant of the history\<close>

text \<open>A later leader whose log does not contain entry \<open>n\<close> of term \<open>t\<close>.\<close>

definition misses :: "'c History \<Rightarrow> int \<Rightarrow> int \<Rightarrow> nat \<Rightarrow> bool" where
  "misses g u t n \<longleftrightarrow> t < u \<and> leaderOf g u \<noteq> None \<and> \<not> agree n (termLog g u) (termLog g t)"

definition upToDate :: "'c LogEntry list \<Rightarrow> 'c LogEntry list \<Rightarrow> bool" where
  "upToDate a b \<longleftrightarrow>
     Term (last a) < Term (last b) \<or> (Term (last a) = Term (last b) \<and> length a \<le> length b)"

text \<open>
  What a vote in term \<open>u\<close> says of the voter's log at that time: no more up to date than
  the candidate's, and it had every entry the voter had acknowledged, unless a leader between
  the two terms had already misses it.
\<close>

definition voteOk :: "'c History \<Rightarrow> int \<Rightarrow> int \<Rightarrow> int \<Rightarrow> bool" where
  "voteOk g q u c \<longleftrightarrow>
     canonical (termLog g) (voterLog g (q, u)) \<and> upToDate (voterLog g (q, u)) (candidateLog g (c, u)) \<and>
     (\<forall>t n. (q, t, n) \<in> acks g \<and> t < u \<longrightarrow>
        agree n (voterLog g (q, u)) (termLog g t) \<or> (\<exists>v < u. misses g v t n))"

definition candidateOk :: "'c History \<Rightarrow> int \<Rightarrow> int \<Rightarrow> bool" where
  "candidateOk g u c \<longleftrightarrow>
     0 < u \<and> canonical (termLog g) (candidateLog g (c, u)) \<and> Term (last (candidateLog g (c, u))) < u"

definition electedOk :: "'c History \<Rightarrow> nat \<Rightarrow> int set \<Rightarrow> int \<Rightarrow> int \<Rightarrow> bool" where
  "electedOk g n I u c \<longleftrightarrow>
     candidateOk g u c \<and> initial (candidateLog g (c, u)) (termLog g u) \<and>
     (\<forall>k. length (candidateLog g (c, u)) \<le> k \<and> k < length (termLog g u) \<longrightarrow> Term (termLog g u ! k) = u) \<and>
     c \<in> electors g u \<and> electors g u \<subseteq> I \<and> n div 2 < card (electors g u) \<and> (\<forall>q \<in> electors g u. voteOk g q u c)"

definition acksOk :: "'c History \<Rightarrow> int set \<Rightarrow> bool" where
  "acksOk g I \<longleftrightarrow>
     (\<forall>q t n. (q, t, n) \<in> acks g \<longrightarrow>
        q \<in> I \<and> leaderOf g t \<noteq> None \<and> n < length (termLog g t) \<and> (\<forall>k \<le> n. (q, t, k) \<in> acks g))"

definition historyOk :: "'c History \<Rightarrow> nat \<Rightarrow> int set \<Rightarrow> bool" where
  "historyOk g n I \<longleftrightarrow>
     canonOk (termLog g) \<and> (\<forall>t. leaderOf g t = None \<and> t \<noteq> 0 \<longrightarrow> termLog g t = []) \<and>
     (\<forall>u c. leaderOf g u = Some c \<longrightarrow> electedOk g n I u c) \<and> acksOk g I"

text \<open>An entry is chosen when a majority has acknowledged it in its own term.\<close>

definition chosen :: "'c History \<Rightarrow> nat \<Rightarrow> int set \<Rightarrow> int \<Rightarrow> nat \<Rightarrow> bool" where
  "chosen g n I t k \<longleftrightarrow>
     leaderOf g t \<noteq> None \<and> k < length (termLog g t) \<and> Term (termLog g t ! k) = t \<and>
     n div 2 < card {q \<in> I. (q, t, k) \<in> acks g}"

section \<open>Leader completeness\<close>

lemma electedOkD:
  assumes "historyOk g n I" "leaderOf g u = Some c"
  shows "electedOk g n I u c"
  using assms by (simp add: historyOk_def)

text \<open>The step of the induction: no leader between the terms misses the entry.\<close>

lemma next_leader_complete:
  assumes h: "historyOk g n I" and I: "finite I" "card I = n" and ch: "chosen g n I t k"
    and u: "leaderOf g u = Some c" "t < u"
    and between: "\<And>v. t < v \<Longrightarrow> v < u \<Longrightarrow> leaderOf g v \<noteq> None \<Longrightarrow> agree k (termLog g v) (termLog g t)"
  shows "agree k (termLog g u) (termLog g t)"
proof -
  let ?C = "termLog g" and ?b = "candidateLog g (c, u)"
  have C: "canonOk ?C" using h by (simp add: historyOk_def)
  note e = electedOkD[OF h u(1), unfolded electedOk_def]
  let ?A = "{q \<in> I. (q, t, k) \<in> acks g}"
  have "n div 2 < card ?A" "n div 2 < card (electors g u)" "electors g u \<subseteq> I" "?A \<subseteq> I"
    using ch e by (auto simp: chosen_def)
  then obtain q where q: "q \<in> electors g u" "(q, t, k) \<in> acks g"
    using majorities_meet[of I ?A "electors g u"] I by auto
  let ?a = "voterLog g (q, u)"
  have v: "voteOk g q u c" using e q(1) by blast
  have a: "canonical ?C ?a" and ud: "upToDate ?a ?b" using v by (auto simp: voteOk_def)
  have b: "canonical ?C ?b" "Term (last ?b) < u" "initial ?b (?C u)" using e by (auto simp: candidateOk_def)
  have at: "agree k ?a (?C t)" using v q(2) u(2) between unfolding voteOk_def misses_def by blast
  have k: "k < length (?C t)" "Term (?C t ! k) = t" "leaderOf g t \<noteq> None" using ch by (auto simp: chosen_def)
  have ak: "k < length ?a" "Term (?a ! k) = t" using at k by (auto simp: agree_def)
  have la: "t \<le> Term (last ?a)" using canonical_nth(4)[OF C a ak(1)] ak(2) by simp
  have "agree k ?b (?C t)"
  proof (cases "Term (last ?a) = Term (last ?b)")
    case True
    then have len: "length ?a \<le> length ?b" using ud by (auto simp: upToDate_def)
    have "initial ?a (?C (Term (last ?b)))" "initial ?b (?C (Term (last ?b)))"
      using a b True by (auto simp: canonical_def)
    then have "agree k ?a ?b" using len ak(1) by (auto simp: initial_def agree_def)
    then show ?thesis using at agree_sym agree_trans by blast
  next
    case False
    let ?T = "Term (last ?b)"
    have T: "t < ?T" "?T < u" using False ud la b(2) by (auto simp: upToDate_def)
    have t0: "0 \<le> t" using canonOkD(2)[OF C k(1)] k(2) by simp
    have "?C ?T \<noteq> []" using b(1) by (auto simp: canonical_def initial_def)
    then have "leaderOf g ?T \<noteq> None" using h T t0 by (auto simp: historyOk_def)
    from between[OF T this] have TT: "agree k (?C ?T) (?C t)" .
    have ib: "initial ?b (?C ?T)" "?b \<noteq> []" using b(1) by (auto simp: canonical_def)
    have "k < length ?b"
    proof (rule ccontr)
      assume "\<not> k < length ?b"
      then have j: "length ?b - 1 \<le> k" by simp
      have "Term (?b ! (length ?b - 1)) = Term (?C t ! (length ?b - 1))"
        using ib TT j by (auto simp: initial_def agree_def)
      also have "\<dots> \<le> t" using canonOkD(3)[OF C, of "length ?b - 1" t] k(1) j by simp
      finally show False using T(1) ib(2) by (simp add: last_conv_nth)
    qed
    then have "agree k ?b (?C ?T)" using initial_agree[OF ib(1)] by simp
    then show ?thesis using TT agree_trans by blast
  qed
  then have "agree k (?C u) ?b" using agree_sym initial_agree[OF b(3)] by (auto simp: agree_def)
  then show ?thesis using \<open>agree k ?b (?C t)\<close> agree_trans by blast
qed

lemma leader_complete:
  assumes h: "historyOk g n I" and I: "finite I" "card I = n" and ch: "chosen g n I t k"
    and u: "leaderOf g u \<noteq> None" "t \<le> u"
  shows "agree k (termLog g u) (termLog g t)"
  using u
proof (induction "nat (u - t)" arbitrary: u rule: less_induct)
  case less
  show ?case
  proof (cases "t = u")
    case True
    then show ?thesis using ch by (auto simp: chosen_def agree_def)
  next
    case False
    then have tu: "t < u" using less.prems by simp
    obtain c where c: "leaderOf g u = Some c" using less.prems by blast
    show ?thesis
    proof (rule next_leader_complete[OF h I ch c tu])
      fix v assume "t < v" "v < u" "leaderOf g v \<noteq> None"
      then show "agree k (termLog g v) (termLog g t)" using less.hyps[of v] by simp
    qed
  qed
qed

section \<open>Committed beginnings of a log\<close>

text \<open>Up to index \<open>k\<close> the log \<open>l\<close> is committed as of term \<open>T\<close>.\<close>

definition committed :: "'c History \<Rightarrow> nat \<Rightarrow> int set \<Rightarrow> int \<Rightarrow> 'c LogEntry list \<Rightarrow> nat \<Rightarrow> bool" where
  "committed g n I T l k \<longleftrightarrow>
     k < length l \<and> l ! 0 = origin \<and>
     (k = 0 \<or> (\<exists>t m. chosen g n I t m \<and> t \<le> T \<and> k \<le> m \<and> agree k l (termLog g t)))"

lemma committed_le: "committed g n I T l k \<Longrightarrow> j \<le> k \<Longrightarrow> committed g n I T l j"
  unfolding committed_def by (auto intro: agree_le dest: le_trans)

lemma committed_term: "committed g n I T l k \<Longrightarrow> T \<le> T' \<Longrightarrow> committed g n I T' l k"
  unfolding committed_def by (meson order_trans)

lemma committed_agree: "committed g n I T l k \<Longrightarrow> agree k l m \<Longrightarrow> committed g n I T m k"
  unfolding committed_def by (metis agree_sym agree_trans agree_nth agree_length(2) le0)

text \<open>The leader of a later term has the committed entries.\<close>

lemma committed_leader:
  assumes h: "historyOk g n I" and I: "finite I" "card I = n" and c: "committed g n I T l k"
    and u: "leaderOf g u \<noteq> None" "T \<le> u"
  shows "agree k l (termLog g u)"
proof -
  have C: "canonOk (termLog g)" using h by (simp add: historyOk_def)
  obtain d where "leaderOf g u = Some d" using u(1) by blast
  from electedOkD[OF h this] have ne: "termLog g u \<noteq> []"
    by (auto simp: electedOk_def candidateOk_def canonical_def initial_def)
  show ?thesis
  proof (cases "k = 0")
    case True
    then show ?thesis using c C ne by (auto simp: committed_def agree_def canonOk_def)
  next
    case False
    then obtain t m where t: "chosen g n I t m" "t \<le> T" "k \<le> m" "agree k l (termLog g t)"
      using c by (auto simp: committed_def)
    from leader_complete[OF h I t(1) u(1)] t(2) u(2) have "agree m (termLog g u) (termLog g t)" by simp
    then show ?thesis using t(3,4) by (meson agree_le agree_sym agree_trans)
  qed
qed

text \<open>Two committed logs agree as far as both are committed.\<close>

lemma committed_same:
  assumes h: "historyOk g n I" and I: "finite I" "card I = n"
    and c: "committed g n I T l k" "committed g n I T' l' k"
  shows "agree k l l'"
proof (cases "k = 0")
  case True
  then show ?thesis using c by (auto simp: committed_def agree_def)
next
  case False
  obtain t m where t: "chosen g n I t m" "k \<le> m" "agree k l (termLog g t)" using c(1) False by (auto simp: committed_def)
  obtain t' m' where t': "chosen g n I t' m'" "k \<le> m'" "agree k l' (termLog g t')" using c(2) False by (auto simp: committed_def)
  have "agree k (termLog g t) (termLog g t')"
  proof (cases "t \<le> t'")
    case True
    from leader_complete[OF h I t(1) _ True] t'(1) t(2) show ?thesis
      by (meson agree_le agree_sym chosen_def)
  next
    case False
    then have "t' \<le> t" by simp
    from leader_complete[OF h I t'(1) _ this] t(1) t'(2) show ?thesis
      by (meson agree_le agree_sym chosen_def)
  qed
  then show ?thesis using t(3) t'(3) by (meson agree_sym agree_trans)
qed

end
