(* ===== verification/RaftReplica.thy ===== *)
theory RaftReplica
  imports RaftHistory
begin

text \<open>
  The log of a peer as the end of a complete log: what compaction keeps, and what the merge of
  AppendEntries makes of it when the request holds a part of a leader's log.
\<close>

section \<open>A compacted log stands for a complete one\<close>

text \<open>The first entry of a log only has the term of the entry it stands for.\<close>

definition represents :: "'c LogEntry list \<Rightarrow> 'c LogEntry list \<Rightarrow> bool" where
  "represents log l \<longleftrightarrow>
     int (length l) = lastIdx log + 1 \<and>
     (\<forall>j < length log. Term (log ! j) = Term (l ! (nat (firstIdx log) + j)) \<and>
        (0 < j \<longrightarrow> log ! j = l ! (nat (firstIdx log) + j)))"

lemma representsD:
  assumes "represents log l" "wfLog log t" "firstIdx log \<le> k" "k \<le> lastIdx log"
  shows "termAt log k = Term (l ! nat k)" "firstIdx log < k \<Longrightarrow> log ! nat (k - firstIdx log) = l ! nat k"
    "nat k < length l"
proof -
  have j: "nat (k - firstIdx log) < length log" "nat (firstIdx log) + nat (k - firstIdx log) = nat k"
    using assms(2-4) by (auto simp: lastIdx_def wfLog_def)
  then show "termAt log k = Term (l ! nat k)" "firstIdx log < k \<Longrightarrow> log ! nat (k - firstIdx log) = l ! nat k"
    using assms(1) unfolding represents_def termAt_def by (metis, metis zero_less_nat_eq diff_gt_0_iff_gt)
  show "nat k < length l" using assms by (auto simp: represents_def wfLog_def)
qed

lemma represents_length:
  assumes "represents log l" "wfLog log t"
  shows "nat (lastIdx log) < length l" "length l - 1 = nat (lastIdx log)" "0 \<le> lastIdx log" "l \<noteq> []"
    "int (length l) = lastIdx log + 1"
proof -
  have "0 \<le> firstIdx log" "firstIdx log \<le> lastIdx log" using assms(2) wfLog_first_le_last by (auto simp: wfLog_def)
  then show "nat (lastIdx log) < length l" "length l - 1 = nat (lastIdx log)" "0 \<le> lastIdx log" "l \<noteq> []"
    "int (length l) = lastIdx log + 1"
    using assms(1) by (auto simp: represents_def)
qed

lemma represents_last:
  assumes r: "represents log l" "wfLog log t"
  shows "Term (last l) = Term (last log)"
proof -
  have "firstIdx log \<le> lastIdx log" using wfLog_first_le_last[OF r(2)] .
  then have "termAt log (lastIdx log) = Term (l ! nat (lastIdx log))" using representsD(1)[OF r] by simp
  moreover have "termAt log (lastIdx log) = Term (last log)"
  proof -
    have "nat (lastIdx log - firstIdx log) = length log - 1" unfolding lastIdx_def by linarith
    then show ?thesis using wfLog_nonempty[OF r(2)] by (simp add: termAt_def last_conv_nth)
  qed
  moreover have "last l = l ! nat (lastIdx log)" using represents_length[OF r] by (simp add: last_conv_nth)
  ultimately show ?thesis by simp
qed

lemma represents_drop:
  assumes r: "represents log l" "wfLog log t" and k: "k < length log"
  shows "represents (drop k log) l"
proof -
  have f: "firstIdx (drop k log) = firstIdx log + int k" using wfLog_drop(2)[OF r(2) k] .
  have "0 \<le> firstIdx log" using r(2) by (simp add: wfLog_def)
  then have n: "nat (firstIdx log + int k) + j = nat (firstIdx log) + (k + j)" for j by simp
  show ?thesis
    using r(1) k unfolding represents_def f n by (auto simp: lastIdx_def f of_nat_diff)
qed

lemma represents_snoc:
  assumes r: "represents log l" "wfLog log t" and e: "Index e = lastIdx log + 1"
  shows "represents (log @ [e]) (l @ [e])"
proof -
  have f: "firstIdx (log @ [e]) = firstIdx log" using r(2) by (simp add: firstIdx_append)
  have "0 \<le> firstIdx log" using r(2) by (simp add: wfLog_def)
  then have n: "nat (firstIdx log) + length log = length l"
    using r(1) by (auto simp: represents_def lastIdx_def)
  show ?thesis
    using r(1) n unfolding represents_def f by (auto simp: lastIdx_def f nth_append less_Suc_eq)
qed

lemma represents_single:
  assumes "0 \<le> i" "nat i < length c"
  shows "represents [\<lparr>Term = Term (c ! nat i), Command = x, Index = i\<rparr>] (take (Suc (nat i)) c)"
  using assms by (simp add: represents_def lastIdx_def)

text \<open>A log fits a leader's log at an index: it agrees with it up to there.\<close>

lemma fits_agree:
  assumes C: "canonOk C" "canonical C l" and r: "represents log l" "wfLog log t"
    and first: "agree (nat (firstIdx log)) l (C u)" and p: "0 \<le> p" "nat p < length (C u)"
    and fits: "mergeFits log p (Term (C u ! nat p))"
  shows "agree (nat p) l (C u)"
proof (cases "p < firstIdx log")
  case True
  then show ?thesis using first p(1) by (auto intro: agree_le)
next
  case False
  then have k: "firstIdx log \<le> p" "p \<le> lastIdx log" "termAt log p = Term (C u ! nat p)"
    using fits by (auto simp: mergeFits_def)
  have l: "nat p < length l" "Term (l ! nat p) = Term (C u ! nat p)"
    using representsD(1,3)[OF r k(1,2)] k(3) by simp_all
  have "agree (nat p) (C (Term (C u ! nat p))) (C u)" using canonOkD(4)[OF C(1) p(2)] .
  then show ?thesis using canonical_nth(1)[OF C l(1)] l(2) agree_trans by metis
qed

section \<open>The merge\<close>

text \<open>
  The loop over the entries either finds them all in the log or cuts the log at the first one that is
  missing or different, having found the ones before it.  \<open>T\<close> gives the terms of the leader's log.
\<close>

lemma mergeEntries_split:
  assumes "mergeEntries log (firstIdx log) es = Some log'" "contig (p + 1) es"
    "\<forall>k < length es. Term (es ! k) = T (p + 1 + int k)" "mergeFits log p (T p)"
  shows "log' = log \<and> mergeFits log (p + int (length es)) (T (p + int (length es))) \<or>
    (\<exists>k < length es. log' = take (nat (p + 1 + int k - firstIdx log)) log @ drop k es \<and>
       firstIdx log \<le> p + 1 + int k \<and> p + 1 + int k \<le> lastIdx log + 1 \<and> mergeFits log (p + int k) (T (p + int k)) \<and>
       (lastIdx log < p + 1 + int k \<or> termAt log (p + 1 + int k) \<noteq> T (p + 1 + int k)))"
  using assms
proof (induction es arbitrary: p)
  case (Cons e es)
  have e: "Index e = p + 1" "Term e = T (p + 1)" using Cons.prems(2) spec[OF Cons.prems(3), of 0] by auto
  show ?case
  proof (cases "firstIdx log \<le> p + 1 \<and> (lastIdx log < p + 1 \<or> termAt log (p + 1) \<noteq> T (p + 1))")
    case True
    have "p + 1 - firstIdx log \<le> int (length log) \<and> log' = take (nat (p + 1 - firstIdx log)) log @ e # es"
      using Cons.prems(1) True e
      by (auto simp: go_upto_def go_index_def lastIdx_def termAt_def bind_eq_Some_conv split: if_splits)
    then show ?thesis using True Cons.prems(4) by (intro disjI2 exI[of _ 0]) (auto simp: lastIdx_def)
  next
    case False
    then have fits: "mergeFits log (p + 1) (T (p + 1))" by (auto simp: mergeFits_def)
    have m: "mergeEntries log (firstIdx log) es = Some log'"
      using Cons.prems(1) False e
      by (auto simp: go_index_def lastIdx_def termAt_def bind_eq_Some_conv split: if_splits)
    have ts: "\<forall>k < length es. Term (es ! k) = T (p + 1 + 1 + int k)"
    proof (intro allI impI)
      fix k assume "k < length es"
      then show "Term (es ! k) = T (p + 1 + 1 + int k)" using spec[OF Cons.prems(3), of "Suc k"] by (simp add: algebra_simps)
    qed
    have "contig (p + 1 + 1) es" using Cons.prems(2) by simp
    from Cons.IH[OF m this ts fits]
    consider (same) "log' = log" "mergeFits log (p + 1 + int (length es)) (T (p + 1 + int (length es)))"
      | (cut) k where "k < length es" "log' = take (nat (p + 1 + 1 + int k - firstIdx log)) log @ drop k es"
        "firstIdx log \<le> p + 1 + 1 + int k" "p + 1 + 1 + int k \<le> lastIdx log + 1"
        "mergeFits log (p + 1 + int k) (T (p + 1 + int k))"
        "lastIdx log < p + 1 + 1 + int k \<or> termAt log (p + 1 + 1 + int k) \<noteq> T (p + 1 + 1 + int k)"
      by blast
    then show ?thesis
    proof cases
      case same
      then show ?thesis by (simp add: algebra_simps)
    next
      case cut
      have "p + 1 + 1 + int k = p + 1 + int (Suc k)" "p + 1 + int k = p + int (Suc k)" by simp_all
      with cut show ?thesis
        by (intro disjI2 exI[of _ "Suc k"]) (simp only: drop_Suc_Cons length_Cons Suc_less_eq simp_thms)
    qed
  qed
qed simp

text \<open>
  A request that holds a part of the log of the leader of term \<open>u\<close>: the entry before and the
  entries after it.
\<close>

definition partOf :: "'c AppendEntriesArgs \<Rightarrow> 'c LogEntry list \<Rightarrow> bool" where
  "partOf args c \<longleftrightarrow>
     0 \<le> aePrevLogIndex args \<and> nat (aePrevLogIndex args) + length (aeEntries args) < length c \<and>
     aePrevLogTerm args = Term (c ! nat (aePrevLogIndex args)) \<and>
     (\<forall>k < length (aeEntries args). aeEntries args ! k = c ! (nat (aePrevLogIndex args) + 1 + k))"

lemma contigI: "(\<And>k. k < length es \<Longrightarrow> Index (es ! k) = i + int k) \<Longrightarrow> contig i es"
proof (induction es arbitrary: i)
  case (Cons e es)
  have "Index (es ! k) = i + 1 + int k" if "k < length es" for k using Cons.prems[of "Suc k"] that by simp
  then show ?case using Cons.IH[of "i + 1"] Cons.prems[of 0] by simp
qed simp

lemma partOf_wf:
  assumes C: "canonOk C" and p: "partOf args (C u)" and u: "aeTerm args = u"
  shows "wfAppendEntries args"
proof -
  let ?p = "nat (aePrevLogIndex args)" and ?es = "aeEntries args"
  have p0: "int ?p = aePrevLogIndex args" "?p < length (C u)" using p by (auto simp: partOf_def)
  have es: "?es ! k = C u ! (?p + 1 + k)" "?p + 1 + k < length (C u)" if "k < length ?es" for k
    using p that by (auto simp: partOf_def)
  have "contig (aePrevLogIndex args + 1) ?es"
    using es canonOkD(1)[OF C] p0(1) by (intro contigI) simp
  moreover have "sorted (map Term ?es)"
  proof (unfold sorted_iff_nth_mono, intro allI impI)
    fix i j assume "i \<le> j" "j < length (map Term ?es)"
    then show "map Term ?es ! i \<le> map Term ?es ! j"
      using es[of i] es[of j] canonOkD(5)[OF C es(2)[of j], of "?p + 1 + i"] by simp
  qed
  moreover have "aePrevLogTerm args \<le> Term e" "Term e \<le> u" if e: "e \<in> set ?es" for e
  proof -
    obtain k where k: "k < length ?es" "e = ?es ! k" using e by (auto simp: in_set_conv_nth)
    show "aePrevLogTerm args \<le> Term e"
      using k es[OF k(1)] canonOkD(5)[OF C es(2)[OF k(1)], of ?p] p by (simp add: partOf_def)
    show "Term e \<le> u" using k es[OF k(1)] canonOkD(3)[OF C es(2)[OF k(1)]] by simp
  qed
  moreover have "0 \<le> aePrevLogTerm args" using p canonOkD(2)[OF C p0(2)] by (simp add: partOf_def)
  ultimately show ?thesis by (auto simp: wfAppendEntries_def u)
qed

text \<open>
  The merge as a whole, on a peer whose snapshot the leader has: afterwards the peer's log is one that
  agrees with the leader's up to the last entry of the request, and loses nothing it shares with the leader's log.
\<close>

lemma merge_replica:
  assumes C: "canonOk C" "canonical C l" and r: "represents log l" "wfLog log t" and wt: "t \<le> u"
    and first: "agree (nat (firstIdx log)) l (C u)" and a: "partOf args (C u)"
    and m: "mergeEntries log (firstIdx log) (aeEntries args) = Some log'"
    and fits: "mergeFits log (aePrevLogIndex args) (aePrevLogTerm args)"
  defines "N \<equiv> nat (aePrevLogIndex args) + length (aeEntries args)"
  shows "\<exists>l'. represents log' l' \<and> canonical C l' \<and> agree N l' (C u) \<and> (\<forall>k. agree k l (C u) \<longrightarrow> agree k l' (C u))"
proof -
  let ?p = "aePrevLogIndex args" and ?es = "aeEntries args"
  define T where "T = (\<lambda>i. Term (C u ! nat i))"
  have p: "0 \<le> ?p" "nat ?p + length ?es < length (C u)" "aePrevLogTerm args = T ?p"
    and es: "\<And>k. k < length ?es \<Longrightarrow> ?es ! k = C u ! (nat ?p + 1 + k)"
    using a by (auto simp: partOf_def T_def)
  have idx: "nat (?p + int k) = nat ?p + k" "nat (?p + 1 + int k) = nat ?p + 1 + k" for k using p(1) by simp_all
  have c: "contig (?p + 1) ?es"
    using es canonOkD(1)[OF C(1)] p by (intro contigI) simp
  have ts: "\<forall>k < length ?es. Term (?es ! k) = T (?p + 1 + int k)" using es by (simp add: T_def idx)
  note ag = fits_agree[OF C r first, of]
  from mergeEntries_split[OF m c ts] fits[unfolded p(3)]
  consider (same) "log' = log" "mergeFits log (?p + int (length ?es)) (T (?p + int (length ?es)))"
    | (cut) k where "k < length ?es" "log' = take (nat (?p + 1 + int k - firstIdx log)) log @ drop k ?es"
      "firstIdx log \<le> ?p + 1 + int k" "?p + 1 + int k \<le> lastIdx log + 1" "mergeFits log (?p + int k) (T (?p + int k))"
      "lastIdx log < ?p + 1 + int k \<or> termAt log (?p + 1 + int k) \<noteq> T (?p + 1 + int k)"
    by blast
  then show ?thesis
  proof cases
    case same
    have "agree (nat (?p + int (length ?es))) l (C u)"
      using same(2) p idx by (intro fits_agree[OF C r first]) (simp_all add: T_def)
    then show ?thesis using same(1) r(1) C(2) by (intro exI[of _ l]) (simp add: N_def idx)
  next
    case cut
    define j where "j = nat ?p + 1 + k"
    define f where "f = nat (firstIdx log)"
    have f: "int f = firstIdx log" using r(2) by (simp add: f_def wfLog_def)
    have jj: "int j = ?p + 1 + int k" "j \<le> N" "N < length (C u)" "f \<le> j"
      using p cut(1,3) f by (auto simp: j_def N_def)
    have before: "agree (j - 1) l (C u)"
    proof -
      have "agree (nat (?p + int k)) l (C u)"
        using cut(1,5) p idx by (intro fits_agree[OF C r first]) (simp_all add: T_def)
      then show ?thesis by (simp add: idx j_def)
    qed
    have conflict: "\<not> agree j l (C u)"
    proof
      assume aj: "agree j l (C u)"
      then have "j < length l" "l ! j = C u ! j" by (auto simp: agree_def)
      then have "int j \<le> lastIdx log" "Term (l ! j) = T (int j)"
        using represents_length(5)[OF r] by (auto simp: T_def)
      moreover have "termAt log (int j) = Term (l ! j)"
        using representsD(1)[OF r, of "int j"] cut(3) \<open>int j \<le> lastIdx log\<close> unfolding jj(1) [symmetric] by simp
      ultimately show False using cut(6) jj(1) by auto
    qed
    have fj: "f < j" using first conflict jj(4) by (cases "f = j") (auto simp: f_def)
    define l' where "l' = take (Suc N) (C u)"
    have len': "length l' = Suc N" using jj(3) by (simp add: l'_def)
    have nth': "l' ! k = C u ! k" if "k \<le> N" for k using that by (simp add: l'_def)
    have agN: "agree N l' (C u)" using jj(3) by (simp add: agree_def l'_def)
    have cl': "canonical C l'" unfolding l'_def using jj(3) by (intro canonical_termLog[OF C(1)]) auto
    have jf: "nat (?p + 1 + int k - firstIdx log) = j - f" using jj(1) f fj by simp
    have log': "log' = take (j - f) log @ drop k ?es" using cut(2) by (simp add: jf)
    have lenlog: "j - f \<le> length log" using cut(4) jj(1) f by (simp add: lastIdx_def)
    have "hd log' = hd log" using fj wfLog_nonempty[OF r(2)] by (simp add: log' hd_append)
    then have first': "firstIdx log' = firstIdx log" by (simp only: firstIdx_def)
    have last': "lastIdx log' = int N"
    proof -
      have "length log' = (j - f) + (length ?es - k)" using lenlog by (simp add: log')
      then show ?thesis using cut(1) f fj by (simp add: lastIdx_def first' N_def j_def)
    qed
    have "represents log' l'"
      unfolding represents_def last' first' f_def [symmetric]
    proof (intro conjI allI impI)
      show "int (length l') = int N + 1" using len' by simp
      fix i assume i: "i < length log'"
      have iN: "f + i \<le> N" using i lenlog cut(1) fj unfolding log' by (simp add: N_def j_def)
      have val: "Term (log' ! i) = Term (C u ! (f + i)) \<and> (0 < i \<longrightarrow> log' ! i = C u ! (f + i))"
      proof (cases "i < j - f")
        case True
        then have "log' ! i = log ! i" "i < length log" using lenlog by (simp_all add: log' nth_append)
        moreover have "l ! (f + i) = C u ! (f + i)" using before True by (auto simp: agree_def)
        ultimately show ?thesis using r(1) by (auto simp: represents_def f_def)
      next
        case False
        then have "log' ! i = ?es ! (k + (i - (j - f)))" "k + (i - (j - f)) < length ?es"
          using i lenlog unfolding log' by (auto simp: nth_append)
        moreover have "nat ?p + 1 + (k + (i - (j - f))) = f + i" using False fj by (simp add: j_def)
        ultimately show ?thesis using es by simp
      qed
      show "Term (log' ! i) = Term (l' ! (f + i))" "0 < i \<Longrightarrow> log' ! i = l' ! (f + i)"
        using val nth'[OF iN] by auto
    qed
    moreover have "agree k l' (C u)" if k: "agree k l (C u)" for k
    proof -
      have "k < j" using conflict k agree_le by (metis not_le)
      then show ?thesis using agN jj(2) by (auto intro: agree_le)
    qed
    ultimately show ?thesis using cl' agN by blast
  qed
qed

end
