(* ===== verification/RaftSafety.thy ===== *)
theory RaftSafety
  imports RaftReplica
begin

text \<open>
  The invariant behind the safety of the replicated log: the state of the cluster fits a history.
  It is stated in parts, one for what a peer holds, one for a leader's tables, one for votes, one for
  acknowledgements and one for the messages of the network.
\<close>

section \<open>The parts of the invariant\<close>

text \<open>An entry that the peer has taken out of its log to deliver it.\<close>

definition taken :: "'c History \<Rightarrow> nat \<Rightarrow> int set \<Rightarrow> int \<Rightarrow> 'c LogEntry list \<Rightarrow> 'c LogEntry \<Rightarrow> bool" where
  "taken g n I T l e \<longleftrightarrow> 0 \<le> Index e \<and> committed g n I T l (nat (Index e)) \<and> l ! nat (Index e) = e"

definition logHeld :: "'c History \<Rightarrow> nat \<Rightarrow> int set \<Rightarrow> 'c LogEntry list \<Rightarrow> ('c, 'b) Raft \<Rightarrow> bool" where
  "logHeld g n I l rf \<longleftrightarrow>
     represents (Log rf) l \<and> canonical (termLog g) l \<and> 0 \<le> CommitIndex rf \<and>
     committed g n I (CurrentTerm rf) l (nat (CommitIndex rf)) \<and>
     committed g n I (CurrentTerm rf) l (nat (firstIdx (Log rf)))"

definition applyingOk :: "'c History \<Rightarrow> nat \<Rightarrow> int set \<Rightarrow> 'c LogEntry list \<Rightarrow> ('c, 'b) Raft \<Rightarrow> bool" where
  "applyingOk g n I l rf \<longleftrightarrow>
     (\<forall>es c. applying rf = Some (es, c) \<longrightarrow> (\<forall>e \<in> set es. taken g n I (CurrentTerm rf) l e))"

definition deliveredOk ::
  "'c History \<Rightarrow> nat \<Rightarrow> int set \<Rightarrow> int \<Rightarrow> 'c LogEntry list \<Rightarrow> ('c, 'b) ApplyMsg list \<Rightarrow> bool" where
  "deliveredOk g n I T l ms \<longleftrightarrow>
     (\<forall>m \<in> set ms. CommandValid m \<longrightarrow> (\<exists>e. m = commandMsg e \<and> taken g n I T l e))"

definition peerOk :: "'c History \<Rightarrow> ('c, 'b) Cluster \<Rightarrow> int \<Rightarrow> bool" where
  "peerOk g s i \<longleftrightarrow>
     sound (node s i) \<and> logHeld g (csize s) (ids s) (fullLog g i) (node s i) \<and>
     applyingOk g (csize s) (ids s) (fullLog g i) (node s i) \<and>
     deliveredOk g (csize s) (ids s) (CurrentTerm (node s i)) (fullLog g i) (delivered s i)"

definition tablesOk :: "'c History \<Rightarrow> ('c, 'b) Raft \<Rightarrow> bool" where
  "tablesOk g rf \<longleftrightarrow>
     (\<forall>p < peers rf. (int p \<noteq> me rf \<longrightarrow> nextIndex rf ! p \<le> lastIdx (Log rf) + 1) \<and>
        (matchIndex rf ! p \<le> 0 \<or> (int p, CurrentTerm rf, nat (matchIndex rf ! p)) \<in> acks g))"

definition leadOk :: "'c History \<Rightarrow> int \<Rightarrow> ('c, 'b) Raft \<Rightarrow> bool" where
  "leadOk g i rf \<longleftrightarrow>
     (state rf = LEADER \<longrightarrow>
        leaderOf g (CurrentTerm rf) = Some i \<and> termLog g (CurrentTerm rf) = fullLog g i \<and> tablesOk g rf)"

text \<open>A leader of the past has moved on to a later term, or leads still, or has lost its vote counter.\<close>

definition termsOk :: "'c History \<Rightarrow> ('c, 'b) Cluster \<Rightarrow> bool" where
  "termsOk g s \<longleftrightarrow>
     (\<forall>u c. leaderOf g u = Some c \<longrightarrow>
        c \<in> ids s \<and> u \<le> CurrentTerm (node s c) \<and>
        (u = CurrentTerm (node s c) \<and> state (node s c) \<noteq> LEADER \<longrightarrow> voteCnt s (c, u) = None) \<and>
        (\<forall>q \<in> electors g u. (q, u, c) \<in> votes s))"

definition candidatesOk :: "'c History \<Rightarrow> ('c, 'b) Cluster \<Rightarrow> bool" where
  "candidatesOk g s \<longleftrightarrow>
     (\<forall>c u. voteCnt s (c, u) \<noteq> None \<and> u = CurrentTerm (node s c) \<and> leaderOf g u = None \<longrightarrow>
        fullLog g c = candidateLog g (c, u))"

definition votesOk :: "'c History \<Rightarrow> ('c, 'b) Cluster \<Rightarrow> bool" where
  "votesOk g s \<longleftrightarrow>
     (\<forall>q u c. (q, u, c) \<in> votes s \<longrightarrow>
        candidateOk g u c \<and> u \<le> CurrentTerm (node s c) \<and> (leaderOf g u = None \<longrightarrow> voteOk g q u c))"

definition voteRequestsOk :: "'c History \<Rightarrow> ('c, 'b) Cluster \<Rightarrow> bool" where
  "voteRequestsOk g s \<longleftrightarrow>
     (\<forall>p args. (p, args) \<in> rvRequests s \<longrightarrow>
        (rvCandidateId args, rvTerm args, rvCandidateId args) \<in> votes s \<and>
        rvLastLogTerm args = Term (last (candidateLog g (electionKey args))) \<and>
        rvLastLogIndex args = int (length (candidateLog g (electionKey args))) - 1)"

definition acksHeld :: "'c History \<Rightarrow> ('c, 'b) Cluster \<Rightarrow> bool" where
  "acksHeld g s \<longleftrightarrow>
     (\<forall>q t k. (q, t, k) \<in> acks g \<longrightarrow>
        t \<le> CurrentTerm (node s q) \<and>
        (agree k (fullLog g q) (termLog g t) \<or> (\<exists>v \<le> CurrentTerm (node s q). misses g v t k)))"

text \<open>The messages of replication.\<close>

definition appendOk :: "'c History \<Rightarrow> ('c, 'b) Cluster \<Rightarrow> int \<Rightarrow> 'c AppendEntriesArgs \<Rightarrow> bool" where
  "appendOk g s p args \<longleftrightarrow>
     p \<in> ids s \<and> leaderOf g (aeTerm args) = Some (aeLeaderId args) \<and> p \<noteq> aeLeaderId args \<and>
     partOf args (termLog g (aeTerm args)) \<and>
     0 \<le> aeLeaderCommit args \<and> aeLeaderCommit args \<le> aePrevLogIndex args + int (length (aeEntries args)) \<and>
     committed g (csize s) (ids s) (aeTerm args) (termLog g (aeTerm args)) (nat (aeLeaderCommit args))"

text \<open>The follower that reported a conflict held an entry of the reported term, not the leader's, at the previous index.\<close>

definition conflictKnown :: "'c History \<Rightarrow> 'c AppendEntriesArgs \<Rightarrow> AppendEntriesReply \<Rightarrow> bool" where
  "conflictKnown g args reply \<longleftrightarrow>
     aerXTerm reply \<noteq> aePrevLogTerm args \<and> nat (aePrevLogIndex args) < length (termLog g (aerXTerm reply)) \<and>
     Term (termLog g (aerXTerm reply) ! nat (aePrevLogIndex args)) = aerXTerm reply"

definition appendReplyOk :: "'c History \<Rightarrow> ('c, 'b) Cluster \<Rightarrow> int \<Rightarrow> 'c AppendEntriesArgs \<Rightarrow> AppendEntriesReply \<Rightarrow> bool" where
  "appendReplyOk g s p args reply \<longleftrightarrow>
     appendOk g s p args \<and>
     (if aerSuccess reply then (p, aeTerm args, nat (aePrevLogIndex args) + length (aeEntries args)) \<in> acks g
      else aerXLen reply \<le> aePrevLogIndex args \<and> aerXIndex reply \<le> aePrevLogIndex args + 1 \<and>
        (aerXTerm reply = -1 \<or> aeTerm args < aerTerm reply \<or> conflictKnown g args reply))"

definition installOk :: "'c History \<Rightarrow> ('c, 'b) Cluster \<Rightarrow> int \<Rightarrow> 'b InstallSnapshotArgs \<Rightarrow> bool" where
  "installOk g s p args \<longleftrightarrow>
     p \<in> ids s \<and> leaderOf g (isTerm args) = Some (isLeaderId args) \<and> p \<noteq> isLeaderId args \<and>
     0 \<le> isLastIncludedIndex args \<and>
     committed g (csize s) (ids s) (isTerm args) (termLog g (isTerm args)) (nat (isLastIncludedIndex args)) \<and>
     isLastIncludedTerm args = Term (termLog g (isTerm args) ! nat (isLastIncludedIndex args))"

definition installReplyOk :: "'c History \<Rightarrow> ('c, 'b) Cluster \<Rightarrow> int \<Rightarrow> 'b InstallSnapshotArgs \<Rightarrow> InstallSnapshotReply \<Rightarrow> bool" where
  "installReplyOk g s p args reply \<longleftrightarrow>
     installOk g s p args \<and>
     (isrTerm reply \<le> isTerm args \<longrightarrow> (p, isTerm args, nat (isLastIncludedIndex args)) \<in> acks g)"

definition networkOk :: "'c History \<Rightarrow> ('c, 'b) Cluster \<Rightarrow> bool" where
  "networkOk g s \<longleftrightarrow>
     (\<forall>p args. (p, args) \<in> aeRequests s \<longrightarrow> appendOk g s p args) \<and>
     (\<forall>p args reply. (p, args, reply) \<in> aeReplies s \<longrightarrow> appendReplyOk g s p args reply) \<and>
     (\<forall>p args. (p, args) \<in> isRequests s \<longrightarrow> installOk g s p args) \<and>
     (\<forall>p args reply. (p, args, reply) \<in> isReplies s \<longrightarrow> installReplyOk g s p args reply)"

definition safetyInv :: "'c History \<Rightarrow> ('c, 'b) Cluster \<Rightarrow> bool" where
  "safetyInv g s \<longleftrightarrow>
     historyOk g (csize s) (ids s) \<and> (\<forall>i \<in> ids s. peerOk g s i \<and> leadOk g i (node s i)) \<and>
     termsOk g s \<and> candidatesOk g s \<and> votesOk g s \<and> voteRequestsOk g s \<and> acksHeld g s \<and> networkOk g s"

lemma safetyInvD:
  assumes "safetyInv g s"
  shows "historyOk g (csize s) (ids s)" "i \<in> ids s \<Longrightarrow> peerOk g s i" "i \<in> ids s \<Longrightarrow> leadOk g i (node s i)"
    "termsOk g s" "candidatesOk g s" "votesOk g s" "voteRequestsOk g s" "acksHeld g s" "networkOk g s"
    "canonOk (termLog g)"
  using assms by (auto simp: safetyInv_def historyOk_def)

section \<open>Histories grow\<close>

text \<open>What every step does to the history: leaders stay, logs of terms and acknowledgements only grow.\<close>

definition grows :: "'c History \<Rightarrow> 'c History \<Rightarrow> bool" where
  "grows g g' \<longleftrightarrow>
     (\<forall>u c. leaderOf g u = Some c \<longrightarrow> leaderOf g' u = Some c) \<and>
     (\<forall>t. initial (termLog g t) (termLog g' t)) \<and> acks g \<subseteq> acks g' \<and>
     (\<forall>u t k. misses g u t k \<and> k < length (termLog g t) \<longrightarrow> misses g' u t k)"

lemma grows_refl [simp]: "grows g g"
  by (simp add: grows_def)

lemma grows_trans: "grows g g' \<Longrightarrow> grows g' g'' \<Longrightarrow> grows g g''"
  unfolding grows_def by (meson initial_trans initial_def order_trans less_le_trans)

text \<open>A change that leaves leaders and logs of terms as they are.\<close>

lemma growsI: "leaderOf g' = leaderOf g \<Longrightarrow> termLog g' = termLog g \<Longrightarrow> acks g \<subseteq> acks g' \<Longrightarrow> grows g g'"
  by (simp add: grows_def misses_def)

lemma grows_agree: "grows g g' \<Longrightarrow> agree k l (termLog g t) \<Longrightarrow> agree k l (termLog g' t)"
  unfolding grows_def by (meson agree_initial)

lemma grows_canonical: "grows g g' \<Longrightarrow> canonical (termLog g) l \<Longrightarrow> canonical (termLog g') l"
  unfolding grows_def canonical_def by (meson initial_trans)

lemma grows_acks: "grows g g' \<Longrightarrow> a \<in> acks g \<Longrightarrow> a \<in> acks g'"
  by (auto simp: grows_def)

lemma grows_chosen:
  assumes "grows g g'" "finite I" "chosen g n I t k"
  shows "chosen g' n I t k"
proof -
  have "card {q \<in> I. (q, t, k) \<in> acks g} \<le> card {q \<in> I. (q, t, k) \<in> acks g'}"
    using assms(1,2) by (intro card_mono) (auto simp: grows_def)
  moreover have "k < length (termLog g' t) \<and> termLog g' t ! k = termLog g t ! k"
    using assms(1,3) by (auto simp: grows_def chosen_def initial_def dest: less_le_trans)
  moreover have "leaderOf g' t \<noteq> None" using assms(1,3) by (auto simp: grows_def chosen_def)
  ultimately show ?thesis using assms(3) by (auto simp: chosen_def)
qed

lemma grows_committed:
  assumes "grows g g'" "finite I" "committed g n I T l k"
  shows "committed g' n I T l k"
  using assms(3) grows_chosen[OF assms(1,2)] grows_agree[OF assms(1)] unfolding committed_def by blast

lemma grows_taken: "grows g g' \<Longrightarrow> finite I \<Longrightarrow> taken g n I T l e \<Longrightarrow> taken g' n I T l e"
  unfolding taken_def by (blast intro: grows_committed)

lemma grows_logHeld: "grows g g' \<Longrightarrow> finite I \<Longrightarrow> logHeld g n I l rf \<Longrightarrow> logHeld g' n I l rf"
  unfolding logHeld_def by (blast intro: grows_committed grows_canonical)

lemma grows_applyingOk: "grows g g' \<Longrightarrow> finite I \<Longrightarrow> applyingOk g n I l rf \<Longrightarrow> applyingOk g' n I l rf"
  unfolding applyingOk_def by (blast intro: grows_taken)

lemma grows_deliveredOk: "grows g g' \<Longrightarrow> finite I \<Longrightarrow> deliveredOk g n I T l ms \<Longrightarrow> deliveredOk g' n I T l ms"
  unfolding deliveredOk_def by (blast intro: grows_taken)

lemma grows_tablesOk: "grows g g' \<Longrightarrow> tablesOk g rf \<Longrightarrow> tablesOk g' rf"
  unfolding tablesOk_def grows_def by blast

lemma grows_peerOk:
  "grows g g' \<Longrightarrow> fullLog g' i = fullLog g i \<Longrightarrow> peerOk g s i \<Longrightarrow> peerOk g' s i"
  unfolding peerOk_def by (simp add: grows_logHeld grows_applyingOk grows_deliveredOk)

lemma grows_candidateOk:
  "grows g g' \<Longrightarrow> candidateLog g' (c, u) = candidateLog g (c, u) \<Longrightarrow> candidateOk g u c \<Longrightarrow> candidateOk g' u c"
  unfolding candidateOk_def by (auto intro: grows_canonical)

text \<open>A vote stays valid when the voter acknowledges nothing below its term any more.\<close>

lemma grows_voteOk:
  assumes gr: "grows g g'" and logs: "voterLog g' (q, u) = voterLog g (q, u)" "candidateLog g' (c, u) = candidateLog g (c, u)"
    and acksOk: "acksOk g I" and new: "\<And>t k. (q, t, k) \<in> acks g' \<Longrightarrow> (q, t, k) \<notin> acks g \<Longrightarrow> u \<le> t"
    and v: "voteOk g q u c"
  shows "voteOk g' q u c"
  unfolding voteOk_def logs
proof (intro conjI allI impI)
  show "canonical (termLog g') (voterLog g (q, u))" "upToDate (voterLog g (q, u)) (candidateLog g (c, u))"
    using v grows_canonical[OF gr] by (auto simp: voteOk_def)
  fix t k assume a: "(q, t, k) \<in> acks g' \<and> t < u"
  then have old: "(q, t, k) \<in> acks g" using new by fastforce
  then have "k < length (termLog g t)" using acksOk by (auto simp: acksOk_def)
  then show "agree k (voterLog g (q, u)) (termLog g' t) \<or> (\<exists>v < u. misses g' v t k)"
    using v old a grows_agree[OF gr] gr unfolding voteOk_def grows_def by blast
qed

lemma grows_appendOk: "grows g g' \<Longrightarrow> appendOk g s p args \<Longrightarrow> appendOk g' s p args"
proof -
  assume gr: "grows g g'" and a: "appendOk g s p args"
  let ?C = "termLog g (aeTerm args)" and ?D = "termLog g' (aeTerm args)"
  have i: "initial ?C ?D" using gr by (simp add: grows_def)
  have "partOf args ?D" using a i by (auto simp: appendOk_def partOf_def initial_def)
  moreover have "committed g' (csize s) (ids s) (aeTerm args) ?D (nat (aeLeaderCommit args))"
  proof -
    have c: "committed g (csize s) (ids s) (aeTerm args) ?C (nat (aeLeaderCommit args))" using a by (simp add: appendOk_def)
    then have "nat (aeLeaderCommit args) < length ?C" by (simp add: committed_def)
    then show ?thesis using committed_agree[OF grows_committed[OF gr _ c] initial_agree[OF i]] by simp
  qed
  ultimately show ?thesis using a gr by (auto simp: appendOk_def grows_def)
qed

lemma grows_installOk: "grows g g' \<Longrightarrow> installOk g s p args \<Longrightarrow> installOk g' s p args"
proof -
  assume gr: "grows g g'" and a: "installOk g s p args"
  let ?C = "termLog g (isTerm args)" and ?D = "termLog g' (isTerm args)" and ?k = "nat (isLastIncludedIndex args)"
  have i: "initial ?C ?D" using gr by (simp add: grows_def)
  have k: "?k < length ?C" using a by (auto simp: installOk_def committed_def)
  then have "?D ! ?k = ?C ! ?k" using i by (simp add: initial_def)
  moreover have "committed g' (csize s) (ids s) (isTerm args) ?D ?k"
    using a grows_committed[OF gr] by (intro committed_agree[OF _ initial_agree[OF i k]]) (auto simp: installOk_def)
  ultimately show ?thesis using a gr by (auto simp: installOk_def grows_def)
qed

lemma grows_conflictKnown: "grows g g' \<Longrightarrow> conflictKnown g args reply \<Longrightarrow> conflictKnown g' args reply"
  unfolding conflictKnown_def grows_def initial_def by (metis order_less_le_trans)

lemma grows_appendReplyOk: "grows g g' \<Longrightarrow> appendReplyOk g s p args reply \<Longrightarrow> appendReplyOk g' s p args reply"
  unfolding appendReplyOk_def by (cases "aerSuccess reply") (auto intro: grows_appendOk grows_acks grows_conflictKnown)

lemma grows_installReplyOk: "grows g g' \<Longrightarrow> installReplyOk g s p args reply \<Longrightarrow> installReplyOk g' s p args reply"
  unfolding installReplyOk_def by (auto intro: grows_installOk grows_acks)

lemma grows_networkOk: "grows g g' \<Longrightarrow> networkOk g s \<Longrightarrow> networkOk g' s"
  unfolding networkOk_def
  by (blast intro: grows_appendOk grows_installOk grows_appendReplyOk grows_installReplyOk)

section \<open>Frames\<close>

text \<open>Fields that the invariant does not read.\<close>

lemma networkOk_frame [simp]:
  "networkOk g (setNode s i rf) = networkOk g s" "networkOk g (s\<lparr>rvRequests := a\<rparr>) = networkOk g s"
  "networkOk g (s\<lparr>rvReplies := b\<rparr>) = networkOk g s" "networkOk g (s\<lparr>voteCnt := c\<rparr>) = networkOk g s"
  "networkOk g (s\<lparr>votes := d\<rparr>) = networkOk g s" "networkOk g (s\<lparr>counted := e\<rparr>) = networkOk g s"
  "networkOk g (s\<lparr>delivered := f\<rparr>) = networkOk g s"
  by (simp_all add: networkOk_def appendReplyOk_def installReplyOk_def appendOk_def installOk_def setNode_def)

lemma safetyInv_frame [simp]:
  "safetyInv g (s\<lparr>rvReplies := b\<rparr>) = safetyInv g s" "safetyInv g (s\<lparr>counted := e\<rparr>) = safetyInv g s"
  by (simp_all add: safetyInv_def peerOk_def termsOk_def candidatesOk_def votesOk_def voteRequestsOk_def acksHeld_def)

lemma appendOk_frame [simp]:
  "appendOk g (setNode s i rf) = appendOk g s" "appendOk g (s\<lparr>aeRequests := a\<rparr>) = appendOk g s"
  "appendOk g (s\<lparr>aeReplies := b\<rparr>) = appendOk g s" "installOk g (setNode s i rf) = installOk g s"
  "installOk g (s\<lparr>isRequests := c\<rparr>) = installOk g s" "installOk g (s\<lparr>isReplies := d\<rparr>) = installOk g s"
  "appendReplyOk g (s\<lparr>aeReplies := b\<rparr>) = appendReplyOk g s" "installReplyOk g (s\<lparr>isReplies := d\<rparr>) = installReplyOk g s"
  "appendReplyOk g (setNode s i rf) = appendReplyOk g s" "installReplyOk g (setNode s i rf) = installReplyOk g s"
  by (auto simp: fun_eq_iff appendOk_def installOk_def appendReplyOk_def installReplyOk_def)

text \<open>A message joins the network.\<close>

lemma safetyInv_sends:
  assumes "safetyInv g s"
  shows "appendOk g s p args \<Longrightarrow> safetyInv g (s\<lparr>aeRequests := insert (p, args) (aeRequests s)\<rparr>)"
    "appendReplyOk g s p args reply \<Longrightarrow> safetyInv g (s\<lparr>aeReplies := insert (p, args, reply) (aeReplies s)\<rparr>)"
    "installOk g s p sargs \<Longrightarrow> safetyInv g (s\<lparr>isRequests := insert (p, sargs) (isRequests s)\<rparr>)"
    "installReplyOk g s p sargs sreply \<Longrightarrow> safetyInv g (s\<lparr>isReplies := insert (p, sargs, sreply) (isReplies s)\<rparr>)"
  using assms
  by (simp_all add: safetyInv_def peerOk_def termsOk_def candidatesOk_def votesOk_def voteRequestsOk_def acksHeld_def
      networkOk_def appendReplyOk_def installReplyOk_def appendOk_def installOk_def)

lemma taken_term: "taken g n I T l e \<Longrightarrow> T \<le> T' \<Longrightarrow> taken g n I T' l e"
  unfolding taken_def by (blast intro: committed_term)

lemma deliveredOk_term: "deliveredOk g n I T l ms \<Longrightarrow> T \<le> T' \<Longrightarrow> deliveredOk g n I T' l ms"
  unfolding deliveredOk_def by (blast intro: taken_term)

text \<open>The parts of \<^const>\<open>peerOk\<close> under a change of the peer's other fields.\<close>

lemma logHeld_frame:
  "logHeld g n I l rf \<Longrightarrow> Log rf' = Log rf \<Longrightarrow> CommitIndex rf' = CommitIndex rf \<Longrightarrow> CurrentTerm rf \<le> CurrentTerm rf' \<Longrightarrow>
   logHeld g n I l rf'"
  unfolding logHeld_def by (auto intro: committed_term)

lemma applyingOk_frame:
  "applyingOk g n I l rf \<Longrightarrow> applying rf' = applying rf \<Longrightarrow> CurrentTerm rf \<le> CurrentTerm rf' \<Longrightarrow> applyingOk g n I l rf'"
  unfolding applyingOk_def by (auto intro: taken_term)

end
