(* ===== verification/RaftSafetySteps.thy ===== *)
theory RaftSafetySteps
  imports RaftSafety
begin

text \<open>
  Every step of the cluster keeps the safety invariant, with a history that grows.  Two lemmas carry most of
  the steps: a calm step of one peer, which keeps its complete log, and a step in which a
  peer follows the leader of a term.
\<close>

section \<open>Calm steps\<close>

lemma calm_keeps:
  assumes inv: "safetyInv g s" and e: "electionInv s" and i: "i \<in> ids s"
    and q: "quiet (node s i) rf" and so: "sound rf"
    and h: "logHeld g (csize s) (ids s) (fullLog g i) rf" and ap: "applyingOk g (csize s) (ids s) (fullLog g i) rf"
    and dl: "deliveredOk g (csize s) (ids s) (CurrentTerm rf) (fullLog g i) d"
    and lead: "state rf = LEADER \<Longrightarrow> tablesOk g rf"
    and down: "state (node s i) = LEADER \<Longrightarrow> state rf \<noteq> LEADER \<Longrightarrow> CurrentTerm rf = CurrentTerm (node s i) \<Longrightarrow>
      v (i, CurrentTerm rf) = None"
    and v: "\<And>k. v k \<noteq> None \<Longrightarrow> voteCnt s k \<noteq> None"
  shows "safetyInv g ((setNode s i rf)\<lparr>voteCnt := v, delivered := (delivered s)(i := d)\<rparr>)" (is "safetyInv g ?t")
proof -
  have q': "CurrentTerm (node s i) \<le> CurrentTerm rf" "me rf = me (node s i)" "peers rf = peers (node s i)"
    "state rf = LEADER \<Longrightarrow> state (node s i) = LEADER \<and> CurrentTerm rf = CurrentTerm (node s i)"
    using q by (auto simp: quiet_def)
  have mono: "t \<le> CurrentTerm (node s j) \<Longrightarrow> t \<le> CurrentTerm (((node s)(i := rf)) j)" for t j using q'(1) by auto
  have "peerOk g ?t j" if "j \<in> ids s" for j
    using safetyInvD(2)[OF inv that] so h ap dl by (cases "j = i") (simp_all add: peerOk_def)
  moreover have "leadOk g j (node ?t j)" if "j \<in> ids s" for j
    using safetyInvD(3)[OF inv that] lead q'(4) by (cases "j = i") (auto simp: leadOk_def)
  moreover have "termsOk g ?t"
    unfolding termsOk_def
  proof (intro allI impI)
    fix u c assume l: "leaderOf g u = Some c"
    have old: "c \<in> ids s" "u \<le> CurrentTerm (node s c)"
      "u = CurrentTerm (node s c) \<and> state (node s c) \<noteq> LEADER \<longrightarrow> voteCnt s (c, u) = None"
      "\<forall>q \<in> electors g u. (q, u, c) \<in> votes s"
      using safetyInvD(4)[OF inv] l by (auto simp: termsOk_def)
    have vn: "voteCnt s k = None \<Longrightarrow> v k = None" for k using v by blast
    have "v (c, u) = None" if "u = CurrentTerm (node ?t c)" "state (node ?t c) \<noteq> LEADER"
    proof (cases "c = i")
      case True
      then have "u = CurrentTerm (node s i)" using that(1) old(2) q'(1) by simp
      then show ?thesis using that True old(3) down vn by (cases "state (node s i) = LEADER") auto
    qed (use that old(3) vn in simp)
    then show "c \<in> ids ?t \<and> u \<le> CurrentTerm (node ?t c) \<and>
        (u = CurrentTerm (node ?t c) \<and> state (node ?t c) \<noteq> LEADER \<longrightarrow> voteCnt ?t (c, u) = None) \<and>
        (\<forall>q \<in> electors g u. (q, u, c) \<in> votes ?t)"
      using old mono[OF old(2)] by (simp del: fun_upd_apply)
  qed
  moreover have "candidatesOk g ?t"
    unfolding candidatesOk_def
  proof (intro allI impI)
    fix c u assume a: "voteCnt ?t (c, u) \<noteq> None \<and> u = CurrentTerm (node ?t c) \<and> leaderOf g u = None"
    have "v (c, u) \<noteq> None" using conjunct1[OF a] by simp
    then have vs: "voteCnt s (c, u) \<noteq> None" by (rule v)
    then have "u \<le> CurrentTerm (node s c)" using e by (auto simp: electionInv_def invCount_def)
    then have "u = CurrentTerm (node s c)" using a q'(1) by (cases "c = i") auto
    then show "fullLog g c = candidateLog g (c, u)" using safetyInvD(5)[OF inv] vs a by (auto simp: candidatesOk_def)
  qed
  moreover have "votesOk g ?t"
    using safetyInvD(6)[OF inv] unfolding votesOk_def by (auto simp del: fun_upd_apply intro: mono)
  moreover have "voteRequestsOk g ?t" using safetyInvD(7)[OF inv] by (simp add: voteRequestsOk_def)
  moreover have "acksHeld g ?t"
    using safetyInvD(8)[OF inv] unfolding acksHeld_def
    by (simp del: fun_upd_apply) (meson mono)
  ultimately show ?thesis using inv by (simp add: safetyInv_def)
qed

text \<open>The common case: vote counters and what the service has received stay as they are.\<close>

lemma calm_setNode:
  assumes inv: "safetyInv g s" and e: "electionInv s" and i: "i \<in> ids s"
    and q: "quiet (node s i) rf" and so: "sound rf"
    and h: "logHeld g (csize s) (ids s) (fullLog g i) rf" and ap: "applyingOk g (csize s) (ids s) (fullLog g i) rf"
    and lead: "state rf = LEADER \<Longrightarrow> tablesOk g rf"
    and down: "state (node s i) = LEADER \<Longrightarrow> state rf = LEADER \<or> CurrentTerm (node s i) < CurrentTerm rf"
  shows "safetyInv g (setNode s i rf)"
proof -
  have "CurrentTerm (node s i) \<le> CurrentTerm rf" using q by (simp add: quiet_def)
  then have "deliveredOk g (csize s) (ids s) (CurrentTerm rf) (fullLog g i) (delivered s i)"
    using safetyInvD(2)[OF inv i] by (auto simp: peerOk_def intro: deliveredOk_term)
  then have "safetyInv g ((setNode s i rf)\<lparr>voteCnt := voteCnt s, delivered := (delivered s)(i := delivered s i)\<rparr>)"
    using down by (intro calm_keeps[OF inv e i q so h ap _ lead]) auto
  then show ?thesis by (simp add: setNode_def)
qed

section \<open>Following a leader\<close>

text \<open>What a committed beginning of a log keeps when the peer's log is replaced.\<close>

lemma committed_kept:
  assumes h: "historyOk g (csize s) (ids s)" and c: "committed g (csize s) (ids s) T l k"
    and u: "leaderOf g u \<noteq> None" "T \<le> u" and keep: "\<And>k. agree k l (termLog g u) \<Longrightarrow> agree k l' (termLog g u)"
  shows "committed g (csize s) (ids s) T l' k" "agree k l l'"
proof -
  have a: "agree k l (termLog g u)" using committed_leader[OF h _ _ c u] by simp
  then show "agree k l l'" using keep agree_sym agree_trans by blast
  then show "committed g (csize s) (ids s) T l' k" using committed_agree[OF c] by blast
qed

lemma taken_kept:
  assumes h: "historyOk g (csize s) (ids s)" and c: "taken g (csize s) (ids s) T l e"
    and u: "leaderOf g u \<noteq> None" "T \<le> u" and keep: "\<And>k. agree k l (termLog g u) \<Longrightarrow> agree k l' (termLog g u)"
  shows "taken g (csize s) (ids s) T l' e"
  using committed_kept[OF h _ u keep] c unfolding taken_def by (metis agree_nth order_refl)

text \<open>The history after peer \<open>p\<close> acknowledged the log of term \<open>u\<close> up to \<open>N\<close>.\<close>

definition acknowledge :: "'c History \<Rightarrow> int \<Rightarrow> int \<Rightarrow> nat \<Rightarrow> 'c LogEntry list \<Rightarrow> 'c History" where
  "acknowledge g p u N l = g\<lparr>fullLog := (fullLog g)(p := l), acks := acks g \<union> {(p, u, k) | k. k \<le> N}\<rparr>"

lemma acknowledge_simps [simp]:
  "leaderOf (acknowledge g p u N l) = leaderOf g" "termLog (acknowledge g p u N l) = termLog g"
  "electors (acknowledge g p u N l) = electors g" "voterLog (acknowledge g p u N l) = voterLog g"
  "candidateLog (acknowledge g p u N l) = candidateLog g" "fullLog (acknowledge g p u N l) = (fullLog g)(p := l)"
  "acks (acknowledge g p u N l) = acks g \<union> {(p, u, k) | k. k \<le> N}"
  by (simp_all add: acknowledge_def)

lemma acknowledge_grows: "grows g (acknowledge g p u N l)"
  by (rule growsI) auto

lemma acknowledge_misses [simp]: "misses (acknowledge g p u N l) = misses g"
  by (simp add: fun_eq_iff misses_def)

text \<open>Votes the peer has cast are not for terms after the acknowledged one.\<close>

lemma acknowledge_history:
  assumes inv: "safetyInv g s" and e: "electionInv s" and p: "p \<in> ids s" and u: "leaderOf g u \<noteq> None"
    and t: "CurrentTerm (node s p) \<le> u" and N: "N < length (termLog g u)"
  shows "historyOk (acknowledge g p u N l) (csize s) (ids s)"
    and "\<And>q w c. (q, w, c) \<in> votes s \<Longrightarrow> voteOk g q w c \<Longrightarrow> voteOk (acknowledge g p u N l) q w c"
proof -
  let ?g = "acknowledge g p u N l"
  have h: "historyOk g (csize s) (ids s)" using safetyInvD(1)[OF inv] .
  have ao: "acksOk g (ids s)" using h by (simp add: historyOk_def)
  show vk: "voteOk ?g q w c" if v: "(q, w, c) \<in> votes s" "voteOk g q w c" for q w c
  proof -
    have "w \<le> CurrentTerm (node s q)" using e v(1) by (auto simp: electionInv_def invVotes_def)
    then show ?thesis using t by (intro grows_voteOk[OF acknowledge_grows _ _ ao _ v(2)]) auto
  qed
  have "electedOk ?g (csize s) (ids s) w c" if l: "leaderOf g w = Some c" for w c
  proof -
    have el: "electedOk g (csize s) (ids s) w c" using electedOkD[OF h l] .
    have "\<forall>q \<in> electors g w. (q, w, c) \<in> votes s" using safetyInvD(4)[OF inv] l by (auto simp: termsOk_def)
    then show ?thesis using el vk by (auto simp: electedOk_def candidateOk_def)
  qed
  moreover have "acksOk ?g (ids s)" using ao p u N by (auto simp: acksOk_def)
  ultimately show "historyOk ?g (csize s) (ids s)" using h by (simp add: historyOk_def)
qed

lemma follow_keeps:
  assumes inv: "safetyInv g s" and e: "electionInv s" and p: "p \<in> ids s"
    and u: "leaderOf g u = Some c" "c \<noteq> p" "CurrentTerm (node s p) \<le> u"
    and q: "quiet (node s p) rf" "sound rf" "CurrentTerm rf = u" "state rf = FOLLOWER" "applying rf = applying (node s p)"
    and h: "logHeld g (csize s) (ids s) l rf" and N: "agree N l (termLog g u)"
    and keep: "\<And>k. agree k (fullLog g p) (termLog g u) \<Longrightarrow> agree k l (termLog g u)"
  shows "safetyInv (acknowledge g p u N l) (setNode s p rf)" (is "safetyInv ?g ?t")
proof -
  note gr = acknowledge_grows[of g p u N l]
  have lu: "leaderOf g u \<noteq> None" using u(1) by simp
  have hist: "historyOk g (csize s) (ids s)" using safetyInvD(1)[OF inv] .
  note ah = acknowledge_history[OF inv e p lu u(3) agree_length(2)[OF N], where l = l]
  have mono: "t \<le> CurrentTerm (node s j) \<Longrightarrow> t \<le> CurrentTerm (((node s)(p := rf)) j)" for t j using u(3) q(3) by auto
  note tk = taken_kept[OF hist _ lu _ keep]
  have pp: "peerOk g s p" using safetyInvD(2)[OF inv p] .
  have "peerOk ?g ?t j" if j: "j \<in> ids s" for j
  proof (cases "j = p")
    case True
    have "applyingOk g (csize s) (ids s) l rf"
      using pp tk u(3) q(3,5) unfolding peerOk_def applyingOk_def by (metis taken_term)
    moreover have "deliveredOk g (csize s) (ids s) u l (delivered s p)"
      using pp tk u(3) unfolding peerOk_def deliveredOk_def by (metis taken_term)
    ultimately show ?thesis
      using True q(2,3) h unfolding peerOk_def
      by (simp add: setNode_def grows_logHeld[OF gr] grows_applyingOk[OF gr] grows_deliveredOk[OF gr])
  next
    case False
    then show ?thesis
      using safetyInvD(2)[OF inv j] unfolding peerOk_def
      by (simp add: setNode_def grows_logHeld[OF gr] grows_applyingOk[OF gr] grows_deliveredOk[OF gr])
  qed
  moreover have "leadOk ?g j (node ?t j)" if j: "j \<in> ids s" for j
    using safetyInvD(3)[OF inv j] q(4) grows_tablesOk[OF gr] by (cases "j = p") (auto simp: leadOk_def)
  moreover have "termsOk ?g ?t"
    using safetyInvD(4)[OF inv] u q(3) unfolding termsOk_def
    by (auto simp del: fun_upd_apply intro!: mono) (auto split: if_splits)
  moreover have "candidatesOk ?g ?t"
    using safetyInvD(5)[OF inv] u(1) q(3) unfolding candidatesOk_def by (auto split: if_splits)
  moreover have "votesOk ?g ?t"
    unfolding votesOk_def
  proof (intro allI impI)
    fix v w d assume a: "(v, w, d) \<in> votes ?t"
    then have "candidateOk g w d" "w \<le> CurrentTerm (node s d)" "leaderOf g w = None \<longrightarrow> voteOk g v w d"
      using safetyInvD(6)[OF inv] by (auto simp: votesOk_def)
    then show "candidateOk ?g w d \<and> w \<le> CurrentTerm (node ?t d) \<and> (leaderOf ?g w = None \<longrightarrow> voteOk ?g v w d)"
      using a ah(2) mono by (simp add: candidateOk_def del: fun_upd_apply)
  qed
  moreover have "voteRequestsOk ?g ?t" using safetyInvD(7)[OF inv] by (simp add: voteRequestsOk_def)
  moreover have "acksHeld ?g ?t"
    unfolding acksHeld_def
  proof (intro allI impI)
    fix v t k assume a: "(v, t, k) \<in> acks ?g"
    show "t \<le> CurrentTerm (node ?t v) \<and> (agree k (fullLog ?g v) (termLog ?g t) \<or> (\<exists>w \<le> CurrentTerm (node ?t v). misses ?g w t k))"
    proof (cases "(v, t, k) \<in> acks g")
      case True
      then have old: "t \<le> CurrentTerm (node s v)" "agree k (fullLog g v) (termLog g t) \<or> (\<exists>w \<le> CurrentTerm (node s v). misses g w t k)"
        using safetyInvD(8)[OF inv] by (auto simp: acksHeld_def)
      have len: "k < length (termLog g t)" using True hist by (auto simp: historyOk_def acksOk_def)
      show ?thesis
      proof (cases "v = p")
        case vp: True
        have "agree k l (termLog g t) \<or> misses g u t k" if ag: "agree k (fullLog g p) (termLog g t)"
        proof (cases "agree k (termLog g u) (termLog g t)")
          case True
          then show ?thesis using keep ag agree_sym agree_trans by meson
        next
          case False
          then have "t \<noteq> u" using len by (auto simp: agree_refl)
          then show ?thesis using False old(1) u(1,3) vp by (simp add: misses_def)
        qed
        then show ?thesis using old vp u(3) q(3) by (simp; meson order_trans order_refl)
      qed (use old in simp)
    next
      case False
      then have "v = p" "t = u" "k \<le> N" using a by auto
      then show ?thesis using N q(3) by (auto intro: agree_le)
    qed
  qed
  moreover have "networkOk ?g ?t" using grows_networkOk[OF gr safetyInvD(9)[OF inv]] by simp
  moreover have "historyOk ?g (csize ?t) (ids ?t)" using ah(1) by simp
  ultimately show ?thesis by (simp add: safetyInv_def)
qed

end
