(* ===== verification/RaftSafetyLocal.thy ===== *)
theory RaftSafetyLocal
  imports RaftSafetySteps
begin

text \<open>
  The steps of a single peer that keep its complete log: delivering to the service, compaction,
  restart, sending a round of replication and handling its replies.
\<close>

section \<open>A peer of the cluster\<close>

lemma peer_facts:
  assumes inv: "safetyInv g s" and e: "electionInv s" and i: "i \<in> ids s"
  shows "sound (node s i)" "me (node s i) = i" "peers (node s i) = csize s" "0 \<le> i" "i < int (csize s)"
    "wfLog (Log (node s i)) (CurrentTerm (node s i))" "represents (Log (node s i)) (fullLog g i)"
    "canonical (termLog g) (fullLog g i)" "0 \<le> CommitIndex (node s i)"
    "committed g (csize s) (ids s) (CurrentTerm (node s i)) (fullLog g i) (nat (CommitIndex (node s i)))"
    "committed g (csize s) (ids s) (CurrentTerm (node s i)) (fullLog g i) (nat (firstIdx (Log (node s i))))"
    "logHeld g (csize s) (ids s) (fullLog g i) (node s i)" "applyingOk g (csize s) (ids s) (fullLog g i) (node s i)"
    "deliveredOk g (csize s) (ids s) (CurrentTerm (node s i)) (fullLog g i) (delivered s i)"
  using safetyInvD(2)[OF inv i] e i
  by (auto simp: peerOk_def logHeld_def electionInv_def invNodes_def ids_def sound_def wfRaft_def)

text \<open>A step that only touches the goroutines' own state.\<close>

lemma local_keeps:
  assumes inv: "safetyInv g s" and e: "electionInv s" and i: "i \<in> ids s"
    and rf: "sound rf" "quiet (node s i) rf" "Log rf = Log (node s i)" "CommitIndex rf = CommitIndex (node s i)"
      "state rf = state (node s i)" "nextIndex rf = nextIndex (node s i)" "matchIndex rf = matchIndex (node s i)"
      "CurrentTerm rf = CurrentTerm (node s i)"
    and ap: "applyingOk g (csize s) (ids s) (fullLog g i) rf"
    and d: "deliveredOk g (csize s) (ids s) (CurrentTerm rf) (fullLog g i) d"
  shows "safetyInv g ((setNode s i rf)\<lparr>delivered := (delivered s)(i := d)\<rparr>)"
proof -
  note f = peer_facts[OF inv e i]
  have "tablesOk g rf" if "state rf = LEADER"
    using safetyInvD(3)[OF inv i] that rf by (auto simp: leadOk_def tablesOk_def quiet_def)
  moreover have "logHeld g (csize s) (ids s) (fullLog g i) rf" using logHeld_frame[OF f(12) rf(3,4)] rf(8) by simp
  ultimately have "safetyInv g ((setNode s i rf)\<lparr>voteCnt := voteCnt s, delivered := (delivered s)(i := d)\<rparr>)"
    using rf(5) by (intro calm_keeps[OF inv e i rf(2,1) _ ap d]) auto
  then show ?thesis by (simp add: setNode_def)
qed

lemma local_setNode:
  assumes inv: "safetyInv g s" and e: "electionInv s" and i: "i \<in> ids s"
    and rf: "sound rf" "quiet (node s i) rf" "Log rf = Log (node s i)" "CommitIndex rf = CommitIndex (node s i)"
      "state rf = state (node s i)" "nextIndex rf = nextIndex (node s i)" "matchIndex rf = matchIndex (node s i)"
      "CurrentTerm rf = CurrentTerm (node s i)"
    and ap: "applyingOk g (csize s) (ids s) (fullLog g i) rf"
  shows "safetyInv g (setNode s i rf)"
proof -
  have "safetyInv g ((setNode s i rf)\<lparr>delivered := (delivered s)(i := delivered s i)\<rparr>)"
    using peer_facts(14)[OF inv e i] rf(8) by (intro local_keeps[OF inv e i rf ap]) simp
  then show ?thesis by (simp add: setNode_def)
qed

section \<open>Delivery\<close>

lemma applierTake_cases:
  assumes "Log rf \<noteq> []" "applierTake rf = Some rf'"
  shows "rf' = rf \<or> (\<exists>es. firstIdx (Log rf) \<le> LastApplied rf \<and> rf' = rf\<lparr>applying := Some (es, CommitIndex rf)\<rparr> \<and>
    go_slice (Log rf) (LastApplied rf + 1 - firstIdx (Log rf)) (CommitIndex rf + 1 - firstIdx (Log rf)) = Some es)"
proof (cases "CommitIndex rf > LastApplied rf \<and> LastApplied rf \<ge> firstIdx (Log rf) \<and> \<not> dead rf \<and> applying rf = None")
  case True
  then show ?thesis using assms by (simp add: applierTake_def needApplyingLog_def bind_eq_Some_conv) blast
next
  case False
  then have "applierTake rf = Some rf" using assms(1) by (auto simp: applierTake_def needApplyingLog_def)
  then show ?thesis using assms(2) by simp
qed

lemma applierDone_cases:
  obtains a b where "applierDone rf = rf\<lparr>LastApplied := a, applying := b\<rparr>" "b = None \<or> b = applying rf"
proof (cases "\<exists>c. applying rf = Some ([], c)")
  case True
  then show ?thesis using that[of None] by (auto simp: applierDone_def)
next
  case False
  then have "applierDone rf = rf\<lparr>LastApplied := LastApplied rf, applying := applying rf\<rparr>"
    by (auto simp: applierDone_def split: option.splits prod.splits list.splits)
  then show ?thesis using that by blast
qed

lemma snapshotPush_cases:
  assumes "snapshotPush rf k = Some (rf', m)"
  obtains a b where "rf' = rf\<lparr>snapshotsToPush := a, snapshotsPushed := b\<rparr>" "\<not> CommandValid m"
proof -
  obtain snap index tm where x: "snapshotsToPush rf ! k = (snap, index, tm)" by (metis surj_pair)
  have "k < length (snapshotsToPush rf)" using assms by (simp add: snapshotPush_def split: if_splits)
  then have r: "rf' = rf\<lparr>snapshotsToPush := take k (snapshotsToPush rf) @ drop (k + 1) (snapshotsToPush rf),
      snapshotsPushed := snapshotsPushed rf @ [index]\<rparr>" "m = snapshotMsg snap index tm"
    using assms x by (simp_all add: snapshotPush_def)
  show ?thesis by (rule that[OF r(1)]) (simp add: r(2) snapshotMsg_def)
qed

lemma applierTake_safe:
  assumes inv: "safetyInv g s" and e: "electionInv s" and i: "i \<in> ids s" and t: "applierTake (node s i) = Some rf"
  shows "safetyInv g (setNode s i rf)"
proof -
  note f = peer_facts[OF inv e i]
  let ?rf = "node s i" and ?l = "fullLog g i"
  have ne: "Log ?rf \<noteq> []" using f(6) by simp
  have k: "sound rf" "quiet ?rf rf" using applierTake_keeps[OF t f(1)] .
  from applierTake_cases[OF ne t] consider (no) "rf = ?rf"
    | (yes) es where "firstIdx (Log ?rf) \<le> LastApplied ?rf" "rf = ?rf\<lparr>applying := Some (es, CommitIndex ?rf)\<rparr>"
      "go_slice (Log ?rf) (LastApplied ?rf + 1 - firstIdx (Log ?rf)) (CommitIndex ?rf + 1 - firstIdx (Log ?rf)) = Some es"
    by blast
  then show ?thesis
  proof cases
    case no
    then show ?thesis using inv by (simp add: setNode_def)
  next
    case yes
    let ?F = "firstIdx (Log ?rf)"
    have es: "es = take (nat (CommitIndex ?rf - LastApplied ?rf)) (drop (nat (LastApplied ?rf + 1 - ?F)) (Log ?rf))"
      "0 \<le> LastApplied ?rf + 1 - ?F" "LastApplied ?rf \<le> CommitIndex ?rf" "CommitIndex ?rf + 1 - ?F \<le> int (length (Log ?rf))"
      using yes(3) by (auto simp: go_slice_def split: if_splits)
    have "taken g (csize s) (ids s) (CurrentTerm ?rf) ?l x" if x: "x \<in> set es" for x
    proof -
      obtain j where j: "j < nat (CommitIndex ?rf - LastApplied ?rf)" "nat (LastApplied ?rf + 1 - ?F) + j < length (Log ?rf)"
        "x = Log ?rf ! (nat (LastApplied ?rf + 1 - ?F) + j)"
        using x by (auto simp: es(1) in_set_conv_nth)
      define k where "k = LastApplied ?rf + 1 + int j"
      have k: "nat (LastApplied ?rf + 1 - ?F) + j = nat (k - ?F)" "?F < k" "k \<le> lastIdx (Log ?rf)" "k \<le> CommitIndex ?rf" "0 \<le> k"
        using j(1,2) yes(1) es(2,4) f(6) by (auto simp: k_def lastIdx_def wfLog_def)
      have "x = ?l ! nat k" using representsD(2)[OF f(7,6) less_imp_le[OF k(2)] k(3,2)] j(3) k(1) by simp
      moreover have "Index x = k" using wfLog_index_term(1)[OF f(6) less_imp_le[OF k(2)] k(3)] j(3) k(1) by simp
      ultimately show ?thesis using k(4,5) committed_le[OF f(10), of "nat k"] by (simp add: taken_def)
    qed
    then have "applyingOk g (csize s) (ids s) ?l rf" using yes(2) by (simp add: applyingOk_def)
    then show ?thesis using k yes(2) by (intro local_setNode[OF inv e i]) simp_all
  qed
qed

lemma applierPush_safe:
  assumes inv: "safetyInv g s" and e: "electionInv s" and i: "i \<in> ids s" and t: "applierPush (node s i) = Some (rf, m)"
  shows "safetyInv g (deliver (setNode s i rf) i m)"
proof -
  note f = peer_facts[OF inv e i]
  obtain x es c where a: "applying (node s i) = Some (x # es, c)" "rf = (node s i)\<lparr>applying := Some (es, c)\<rparr>" "m = commandMsg x"
    using t by (auto simp: applierPush_def split: option.splits prod.splits list.splits)
  have ap: "applyingOk g (csize s) (ids s) (fullLog g i) rf" using f(13) a by (auto simp: applyingOk_def)
  have "deliveredOk g (csize s) (ids s) (CurrentTerm rf) (fullLog g i) (delivered s i @ [m])"
    using f(13,14) a by (auto simp: applyingOk_def deliveredOk_def)
  then have "safetyInv g ((setNode s i rf)\<lparr>delivered := (delivered s)(i := delivered s i @ [m])\<rparr>)"
    using a(2) applierPush_keeps[OF t f(1)] by (intro local_keeps[OF inv e i _ _ _ _ _ _ _ _ ap]) simp_all
  then show ?thesis by (simp add: deliver_def)
qed

lemma snapshotPush_safe:
  assumes inv: "safetyInv g s" and e: "electionInv s" and i: "i \<in> ids s" and t: "snapshotPush (node s i) k = Some (rf, m)"
  shows "safetyInv g (deliver (setNode s i rf) i m)"
proof -
  note f = peer_facts[OF inv e i]
  obtain a b where rf: "rf = (node s i)\<lparr>snapshotsToPush := a, snapshotsPushed := b\<rparr>" "\<not> CommandValid m"
    using snapshotPush_cases[OF t] .
  have ap: "applyingOk g (csize s) (ids s) (fullLog g i) rf" using f(13) rf by (simp add: applyingOk_def)
  have "deliveredOk g (csize s) (ids s) (CurrentTerm rf) (fullLog g i) (delivered s i @ [m])"
    using f(14) rf by (simp add: deliveredOk_def)
  then have "safetyInv g ((setNode s i rf)\<lparr>delivered := (delivered s)(i := delivered s i @ [m])\<rparr>)"
    using rf snapshotPush_keeps[OF t f(1)] by (intro local_keeps[OF inv e i _ _ _ _ _ _ _ _ ap]) simp_all
  then show ?thesis by (simp add: deliver_def)
qed

lemma goroutines_safe:
  assumes inv: "safetyInv g s" and e: "electionInv s" and i: "i \<in> ids s"
  shows "safetyInv g (setNode s i (applierDone (node s i)))" "safetyInv g (setNode s i (snapshotDone (node s i) k))"
    "safetyInv g (setNode s i (Kill (node s i)))"
proof -
  note f = peer_facts[OF inv e i]
  obtain a b where ad: "applierDone (node s i) = (node s i)\<lparr>LastApplied := a, applying := b\<rparr>" "b = None \<or> b = applying (node s i)"
    using applierDone_cases .
  have "applyingOk g (csize s) (ids s) (fullLog g i) (applierDone (node s i))"
    using f(13) ad(2) unfolding ad(1) by (elim disjE) (simp_all add: applyingOk_def)
  then show "safetyInv g (setNode s i (applierDone (node s i)))"
    using applierDone_keeps[OF f(1)] ad by (intro local_setNode[OF inv e i]) simp_all
  obtain a b where "snapshotDone (node s i) k = (node s i)\<lparr>LastApplied := a, snapshotsPushed := b\<rparr>"
  proof (cases "k < length (snapshotsPushed (node s i))")
    case False
    then have "snapshotDone (node s i) k = (node s i)\<lparr>LastApplied := LastApplied (node s i), snapshotsPushed := snapshotsPushed (node s i)\<rparr>"
      by (simp add: snapshotDone_def)
    then show ?thesis using that by blast
  qed (use that in \<open>simp add: snapshotDone_def\<close>)
  then show "safetyInv g (setNode s i (snapshotDone (node s i) k))"
    using snapshotDone_keeps[OF f(1), of k] f(13) by (intro local_setNode[OF inv e i]) (simp_all add: applyingOk_def)
  show "safetyInv g (setNode s i (Kill (node s i)))"
    using f(1,13) by (intro local_setNode[OF inv e i]) (simp_all add: applyingOk_def Kill_def quiet_def)
qed

section \<open>Compaction and restart\<close>

lemma Snapshot_safe:
  assumes inv: "safetyInv g s" and e: "electionInv s" and i: "i \<in> ids s"
    and d: "\<exists>m \<in> set (delivered s i). CommandValid m \<and> CommandIndex m = k" and t: "Snapshot (node s i) k snap = Some rf"
  shows "safetyInv g (setNode s i rf)"
proof -
  note f = peer_facts[OF inv e i]
  let ?rf = "node s i"
  have wf: "wfRaft ?rf" using f(1) by (simp add: sound_def)
  obtain x where x: "taken g (csize s) (ids s) (CurrentTerm ?rf) (fullLog g i) x" "Index x = k"
    using d f(14) by (auto simp: deliveredOk_def commandMsg_def)
  then have "nat k < length (fullLog g i)" "0 \<le> k" by (auto simp: taken_def committed_def)
  then have kl: "k \<le> lastIdx (Log ?rf)" using represents_length(5)[OF f(7,6)] by simp
  have k: "sound rf" "quiet ?rf rf" using Snapshot_keeps[OF f(1) kl, of snap] t by auto
  show ?thesis
  proof (cases "k \<le> firstIdx (Log ?rf)")
    case True
    then have "rf = ?rf" using t Snapshot_eq[OF wf kl, of snap] by simp
    then show ?thesis using inv by (simp add: setNode_def)
  next
    case False
    define j where "j = nat (k - firstIdx (Log ?rf))"
    have j: "j < length (Log ?rf)" using False kl by (simp add: j_def lastIdx_def)
    have "\<exists>ps. rf = ?rf\<lparr>Log := drop j (Log ?rf), persister := ps\<rparr>"
      using t Snapshot_eq[OF wf kl, of snap] False by (auto simp: j_def)
    then obtain ps where rf: "rf = ?rf\<lparr>Log := drop j (Log ?rf), persister := ps\<rparr>" by blast
    have fi: "firstIdx (drop j (Log ?rf)) = k" using wfLog_drop(2)[OF f(6) j] False by (simp add: j_def)
    have la: "lastIdx (drop j (Log ?rf)) = lastIdx (Log ?rf)"
      using j wfLog_drop(2)[OF f(6) j] by (simp add: lastIdx_def of_nat_diff)
    have "logHeld g (csize s) (ids s) (fullLog g i) rf"
      using f x represents_drop[OF f(7,6) j] fi by (auto simp: logHeld_def rf taken_def)
    moreover have "tablesOk g rf" if "state rf = LEADER"
      using safetyInvD(3)[OF inv i] that by (auto simp: leadOk_def tablesOk_def rf la)
    ultimately show ?thesis using k f(13) by (intro calm_setNode[OF inv e i]) (auto simp: rf applyingOk_def)
  qed
qed

lemma restart_safe:
  assumes inv: "safetyInv g s" and e: "electionInv s" and i: "i \<in> ids s"
    and m: "Make (csize s) i (Copy (persister (node s i))) = Some rf"
  shows "safetyInv g ((setNode s i rf)\<lparr>voteCnt := (\<lambda>(c, t). if c = i then None else voteCnt s (c, t)),
       delivered := (delivered s)(i := [])\<rparr>)"
proof -
  note f = peer_facts[OF inv e i]
  have "recovered (Copy (persister (node s i))) = (CurrentTerm (node s i), VotedFor (node s i), Log (node s i))"
    using f(1) by (simp add: sound_def durable_def Copy_id)
  from Make_recovers[OF this f(6,4,5)] m have r: "sound rf" "CurrentTerm rf = CurrentTerm (node s i)"
    "VotedFor rf = VotedFor (node s i)" "Log rf = Log (node s i)" "state rf = FOLLOWER" "me rf = i" "peers rf = csize s"
    "CommitIndex rf = firstIdx (Log (node s i))" "applying rf = None" by auto
  have "quiet (node s i) rf" using r f by (simp add: quiet_def)
  moreover have "logHeld g (csize s) (ids s) (fullLog g i) rf"
    using f r by (auto simp: logHeld_def wfLog_def)
  ultimately show ?thesis
    using r by (intro calm_keeps[OF inv e i]) (auto simp: applyingOk_def deliveredOk_def split: prod.splits if_splits)
qed

end
