(* ===== verification/RaftSafetyNet.thy ===== *)
theory RaftSafetyNet
  imports RaftSafetyLocal
begin

text \<open>
  The steps of replication: what a leader sends, what a follower makes of it and how the leader
  takes the replies.
\<close>

section \<open>Sending\<close>

lemma leader_facts:
  assumes inv: "safetyInv g s" and i: "i \<in> ids s" and l: "state (node s i) = LEADER"
  shows "leaderOf g (CurrentTerm (node s i)) = Some i" "termLog g (CurrentTerm (node s i)) = fullLog g i" "tablesOk g (node s i)"
  using safetyInvD(3)[OF inv i] l by (auto simp: leadOk_def)

lemma round_sends:
  assumes inv: "safetyInv g s" and e: "electionInv s" and i: "i \<in> ids s" and p: "p \<in> ids s" "p \<noteq> i"
    and r: "replicateOneRound (node s i) p = Some m" "m \<noteq> NoMsg"
  shows "state (node s i) = LEADER" "m = roundTo (node s i) (nextIndex (node s i) ! nat p - 1)"
    "nextIndex (node s i) ! nat p - 1 \<le> lastIdx (Log (node s i))"
proof -
  note f = peer_facts[OF inv e i]
  show l: "state (node s i) = LEADER" using r by (auto simp: replicateOneRound_def split: if_splits)
  have np: "0 \<le> p" "p < int (peers (node s i))" using p f(3) by (auto simp: ids_def)
  then have n: "nextIndex (node s i) ! nat p \<le> lastIdx (Log (node s i)) + 1"
    using leader_facts(3)[OF inv i l] p(2) f(2) unfolding tablesOk_def by (metis int_nat_eq nat_less_iff)
  then show "nextIndex (node s i) ! nat p - 1 \<le> lastIdx (Log (node s i))" by simp
  show "m = roundTo (node s i) (nextIndex (node s i) ! nat p - 1)"
    using replicateOneRound_sends[OF f(1) l np n] r(1) by simp
qed

lemma sendAppend_safe:
  assumes inv: "safetyInv g s" and e: "electionInv s" and i: "i \<in> ids s" and p: "p \<in> ids s" "p \<noteq> i"
    and r: "replicateOneRound (node s i) p = Some (SendAppendEntries args)"
  shows "safetyInv g (s\<lparr>aeRequests := insert (p, args) (aeRequests s)\<rparr>)"
proof (rule safetyInv_sends(1)[OF inv])
  note f = peer_facts[OF inv e i]
  let ?rf = "node s i" and ?l = "fullLog g i"
  let ?F = "firstIdx (Log ?rf)"
  define prev where "prev = nextIndex ?rf ! nat p - 1"
  note rs = round_sends[OF inv e i p r, simplified, folded prev_def]
  note lf = leader_facts[OF inv i rs(1)]
  have a: "?F \<le> prev" "aeTerm args = CurrentTerm ?rf" "aeLeaderId args = i" "aePrevLogIndex args = prev"
    "aePrevLogTerm args = termAt (Log ?rf) prev" "aeEntries args = drop (nat (prev + 1 - ?F)) (Log ?rf)"
    "aeLeaderCommit args = CommitIndex ?rf"
    using rs(2) f(2) by (auto simp: roundTo_def split: if_splits)
  have F0: "0 \<le> ?F" using f(6) by (simp add: wfLog_def)
  have len: "length (aeEntries args) = nat (lastIdx (Log ?rf) - prev)"
    using a(1,6) by (simp add: lastIdx_def nat_diff_distrib)
  have last: "prev + int (length (aeEntries args)) = lastIdx (Log ?rf)" using len rs(3) by simp
  have "aeEntries args ! k = ?l ! (nat prev + 1 + k)" if k: "k < length (aeEntries args)" for k
  proof -
    have j: "?F \<le> prev + 1 + int k" "prev + 1 + int k \<le> lastIdx (Log ?rf)" "?F < prev + 1 + int k"
      using k a(1) last by auto
    have "aeEntries args ! k = Log ?rf ! (nat (prev + 1 - ?F) + k)" using k a(6) by simp
    also have "nat (prev + 1 - ?F) + k = nat (prev + 1 + int k - ?F)" using a(1) by simp
    also have "Log ?rf ! \<dots> = ?l ! nat (prev + 1 + int k)" using representsD(2)[OF f(7,6) j] .
    also have "nat (prev + 1 + int k) = nat prev + 1 + k" using a(1) F0 by simp
    finally show ?thesis .
  qed
  moreover have "nat prev + length (aeEntries args) < length ?l"
    using last represents_length(5)[OF f(7,6)] a(1) F0 by simp
  moreover have "termAt (Log ?rf) prev = Term (?l ! nat prev)" using representsD(1)[OF f(7,6) a(1) rs(3)] .
  ultimately have "partOf args ?l" using a F0 by (simp add: partOf_def)
  moreover have "CommitIndex ?rf \<le> lastIdx (Log ?rf)"
  proof -
    have "nat (CommitIndex ?rf) < length ?l" using f(10) unfolding committed_def by blast
    then show ?thesis using represents_length(5)[OF f(7,6)] f(9) by linarith
  qed
  ultimately show "appendOk g s p args"
    using a lf p f(9,10) last by (simp add: appendOk_def)
qed

lemma sendSnapshot_safe:
  assumes inv: "safetyInv g s" and e: "electionInv s" and i: "i \<in> ids s" and p: "p \<in> ids s" "p \<noteq> i"
    and r: "replicateOneRound (node s i) p = Some (SendInstallSnapshot args)"
  shows "safetyInv g (s\<lparr>isRequests := insert (p, args) (isRequests s)\<rparr>)"
proof (rule safetyInv_sends(3)[OF inv])
  note f = peer_facts[OF inv e i]
  let ?rf = "node s i"
  let ?F = "firstIdx (Log ?rf)"
  note rs = round_sends[OF inv e i p r, simplified]
  note lf = leader_facts[OF inv i rs(1)]
  have a: "isTerm args = CurrentTerm ?rf" "isLeaderId args = i" "isLastIncludedIndex args = ?F"
    "isLastIncludedTerm args = Term (hd (Log ?rf))"
    using rs(2) f(2) by (auto simp: roundTo_def split: if_splits)
  have "termAt (Log ?rf) ?F = Term (fullLog g i ! nat ?F)"
    using representsD(1)[OF f(7,6) order_refl wfLog_first_le_last[OF f(6)]] .
  moreover have "termAt (Log ?rf) ?F = Term (hd (Log ?rf))" using f(6) by (simp add: termAt_def hd_conv_nth)
  ultimately show "installOk g s p args" using a lf p f(6,11) by (simp add: installOk_def wfLog_def)
qed

section \<open>The follower\<close>

lemma replies_join:
  "safetyInv g (setNode s p rf) \<Longrightarrow> appendReplyOk g s p args reply \<Longrightarrow>
   safetyInv g ((setNode s p rf)\<lparr>aeReplies := insert (p, args, reply) (aeReplies s)\<rparr>)"
  "safetyInv g (setNode s p rf) \<Longrightarrow> installReplyOk g s p sargs sreply \<Longrightarrow>
   safetyInv g ((setNode s p rf)\<lparr>isReplies := insert (p, sargs, sreply) (isReplies s)\<rparr>)"
  using safetyInv_sends(2)[of g "setNode s p rf"] safetyInv_sends(4)[of g "setNode s p rf"] by simp_all

text \<open>The receiver of a message of term \<open>u\<close> does not lead that term.\<close>

lemma receiver_follows:
  assumes inv: "safetyInv g s" and p: "p \<in> ids s" and l: "leaderOf g u = Some c" "p \<noteq> c"
    and st: "state (node s p) = LEADER" "CurrentTerm (node s p) \<le> u"
  shows "CurrentTerm (node s p) < u"
  using leader_facts(1)[OF inv p st(1)] l st(2) by (cases "CurrentTerm (node s p) = u") auto

lemma AppendEntries_safe:
  assumes inv: "safetyInv g s" and e: "electionInv s" and a: "(p, args) \<in> aeRequests s"
    and h: "AppendEntries (node s p) args = Some (rf, reply)"
  shows "\<exists>g'. grows g g' \<and> safetyInv g' ((setNode s p rf)\<lparr>aeReplies := insert (p, args, reply) (aeReplies s)\<rparr>)"
proof -
  let ?rf = "node s p" and ?l = "fullLog g p" and ?u = "aeTerm args"
  have ok: "appendOk g s p args" using safetyInvD(9)[OF inv] a by (auto simp: networkOk_def)
  have p: "p \<in> ids s" and ld: "leaderOf g ?u = Some (aeLeaderId args)" "p \<noteq> aeLeaderId args"
    and part: "partOf args (termLog g ?u)" using ok by (auto simp: appendOk_def)
  note f = peer_facts[OF inv e p]
  note C = safetyInvD(10)[OF inv]
  have wf: "wfRaft ?rf" "durable ?rf" using f(1) by (simp_all add: sound_def)
  have pv: "0 \<le> aePrevLogIndex args" using part by (simp add: partOf_def)
  have wa: "wfAppendEntries args" using partOf_wf[OF C part] by simp
  have q: "sound rf" "quiet ?rf rf" using AppendEntries_keeps[OF wf wa] h by auto
  show ?thesis
    using wf(1)
  proof (cases rule: AppendEntries_cases[where args = args])
    case stale
    then have r: "rf = ?rf" "aerSuccess reply = False" "aerXLen reply = 0" "aerXIndex reply = 0" "?u < aerTerm reply"
      using h stale by (auto simp: AppendEntries_eq emptyAppendEntriesReply_def)
    have "appendReplyOk g s p args reply" using ok r pv by (simp add: appendReplyOk_def)
    then show ?thesis using safetyInv_sends(2)[OF inv] r(1) by (intro exI[of _ g]) (simp add: setNode_def)
  next
    case short
    then have r: "rf = persist (stepDown ?rf ?u)" "appendReplyOk g s p args reply"
      using h AppendEntries_short[OF wf(1) short] ok wfLog_first_le_last[OF f(6)] by (auto simp: appendReplyOk_def)
    have "safetyInv g (setNode s p rf)"
      using receiver_follows[OF inv p ld _ short(1)] q short(1)
      by (intro calm_setNode[OF inv e p] logHeld_frame[OF f(12)] applyingOk_frame[OF f(13)]) (auto simp: r(1))
    then show ?thesis using replies_join(1)[OF _ r(2)] by (intro exI[of _ g]) simp
  next
    case conflict
    let ?k = "aePrevLogIndex args"
    from AppendEntries_conflict[OF wf(1) conflict] obtain x where x: "x \<le> ?k"
      "AppendEntries ?rf args = Some (persist (stepDown ?rf ?u),
         \<lparr>aerTerm = ?u, aerSuccess = False, aerXTerm = termAt (Log ?rf) ?k, aerXIndex = x, aerXLen = 0\<rparr>)" by blast
    note d = representsD[OF f(7,6) conflict(2,3)]
    have ag: "agree (nat ?k) ?l (termLog g (termAt (Log ?rf) ?k))" using canonical_nth(1)[OF C f(8) d(3)] unfolding d(1) .
    have at: "nat ?k < length (termLog g (termAt (Log ?rf) ?k))" "Term (termLog g (termAt (Log ?rf) ?k) ! nat ?k) = termAt (Log ?rf) ?k"
      using agree_length(2)[OF ag] trans[OF arg_cong[where f = Term, OF agree_nth[OF ag order_refl, symmetric]] d(1)[symmetric]] .
    have re: "rf = persist (stepDown ?rf ?u)" "aerSuccess reply = False" "aerXTerm reply = termAt (Log ?rf) ?k"
      "aerXIndex reply = x" "aerXLen reply = 0" using x(2) h by simp_all
    have "conflictKnown g args reply" unfolding conflictKnown_def re(3) using at conflict(4) by blast
    then have r: "rf = persist (stepDown ?rf ?u)" "appendReplyOk g s p args reply"
      using re ok x(1) pv by (simp_all add: appendReplyOk_def)
    have "safetyInv g (setNode s p rf)"
      using receiver_follows[OF inv p ld _ conflict(1)] q conflict(1)
      by (intro calm_setNode[OF inv e p] logHeld_frame[OF f(12)] applyingOk_frame[OF f(13)]) (auto simp: r(1))
    then show ?thesis using replies_join(1)[OF _ r(2)] by (intro exI[of _ g]) simp
  next
    case success
    define N where "N = nat (aePrevLogIndex args) + length (aeEntries args)"
    have hist: "historyOk g (csize s) (ids s)" and lu: "leaderOf g ?u \<noteq> None" using safetyInvD(1)[OF inv] ld by auto
    obtain log' where m: "mergeEntries (Log ?rf) (firstIdx (Log ?rf)) (aeEntries args) = Some log'"
      "mergeResult (Log ?rf) ?u (aePrevLogIndex args) (aeEntries args) log'"
      and eq: "rf = persist ((stepDown ?rf ?u)\<lparr>Log := log',
              CommitIndex := (if Term (last log') = ?u then min (aeLeaderCommit args) (lastIdx log') else CommitIndex ?rf)\<rparr>)"
        "aerSuccess reply"
      using AppendEntries_success[OF wf(1) success(1) wa success(2)] h by auto
    have first: "agree (nat (firstIdx (Log ?rf))) ?l (termLog g ?u)"
      using committed_leader[OF hist _ _ f(11) lu success(1)] by simp
    from merge_replica[OF C f(8) f(7,6) success(1) first part m(1) success(2)]
    obtain l' where l': "represents log' l'" "canonical (termLog g) l'" "agree N l' (termLog g ?u)"
      and keep: "\<And>k. agree k ?l (termLog g ?u) \<Longrightarrow> agree k l' (termLog g ?u)"
      unfolding N_def by blast
    have wl': "wfLog log' ?u" "firstIdx log' = firstIdx (Log ?rf)" using m(2) by (auto simp: mergeResult_def)
    note ck = committed_kept[OF hist _ lu success(1) keep]
    have lc: "committed g (csize s) (ids s) ?u l' (nat (aeLeaderCommit args))"
    proof -
      have "nat (aeLeaderCommit args) \<le> N" using ok pv by (auto simp: appendOk_def N_def)
      then have "agree (nat (aeLeaderCommit args)) (termLog g ?u) l'" using l'(3) by (auto intro: agree_le agree_sym)
      then show ?thesis using ok by (auto simp: appendOk_def intro: committed_agree)
    qed
    have ci: "0 \<le> CommitIndex rf" "committed g (csize s) (ids s) ?u l' (nat (CommitIndex rf))"
    proof -
      have "0 \<le> lastIdx log'" using represents_length(3)[OF l'(1) wl'(1)] .
      then show "0 \<le> CommitIndex rf" using f(9) ok by (auto simp: eq(1) appendOk_def)
      show "committed g (csize s) (ids s) ?u l' (nat (CommitIndex rf))"
        using ck(1)[OF f(10)] success(1) committed_le[OF lc] by (auto simp: eq(1) intro: committed_term nat_mono)
    qed
    have held: "logHeld g (csize s) (ids s) l' rf"
      using l'(1,2) ci ck(1)[OF f(11)] success(1) wl'(2) by (auto simp: logHeld_def eq(1) max_absorb2 intro: committed_term)
    have "safetyInv (acknowledge g p ?u N l') (setNode s p rf)"
      using q success(1) by (intro follow_keeps[OF inv e p ld(1) ld(2)[symmetric] success(1) _ _ _ _ _ held l'(3) keep])
        (auto simp: eq(1) max_absorb2)
    moreover have "appendReplyOk (acknowledge g p ?u N l') s p args reply"
      using grows_appendOk[OF acknowledge_grows ok] eq(2) by (simp add: appendReplyOk_def N_def)
    ultimately show ?thesis using acknowledge_grows replies_join(1) by blast
  qed
qed

lemma InstallSnapshot_safe:
  assumes inv: "safetyInv g s" and e: "electionInv s" and a: "(p, args) \<in> isRequests s"
    and h: "InstallSnapshot (node s p) args = Some (rf, reply)"
  shows "\<exists>g'. grows g g' \<and> safetyInv g' ((setNode s p rf)\<lparr>isReplies := insert (p, args, reply) (isReplies s)\<rparr>)"
proof -
  let ?rf = "node s p" and ?l = "fullLog g p" and ?u = "isTerm args" and ?i = "isLastIncludedIndex args"
  let ?c = "termLog g (isTerm args)"
  have ok: "installOk g s p args" using safetyInvD(9)[OF inv] a by (auto simp: networkOk_def)
  have p: "p \<in> ids s" and ld: "leaderOf g ?u = Some (isLeaderId args)" "p \<noteq> isLeaderId args"
    and i: "0 \<le> ?i" "committed g (csize s) (ids s) ?u ?c (nat ?i)" "isLastIncludedTerm args = Term (?c ! nat ?i)"
    using ok by (auto simp: installOk_def)
  note f = peer_facts[OF inv e p]
  note C = safetyInvD(10)[OF inv]
  have wf: "wfRaft ?rf" using f(1) by (simp add: sound_def)
  have ic: "nat ?i < length ?c" using i(2) unfolding committed_def by blast
  have wi: "wfInstallSnapshot args" using i(3) canonOkD(2,3)[OF C ic] by (simp add: wfInstallSnapshot_def)
  have q: "sound rf" "quiet ?rf rf" using InstallSnapshot_keeps[OF f(1) wi] h by auto
  show ?thesis
  proof (cases "?u < CurrentTerm ?rf")
    case True
    then have r: "rf = ?rf" "isrTerm reply = CurrentTerm ?rf" using h by (auto simp: InstallSnapshot_def)
    have "installReplyOk g s p args reply" using ok r True by (simp add: installReplyOk_def)
    then show ?thesis using replies_join(2)[of g s p rf] inv r(1) by (intro exI[of _ g]) (simp add: setNode_def)
  next
    case False
    then have t: "CurrentTerm ?rf \<le> ?u" by simp
    have hist: "historyOk g (csize s) (ids s)" and lu: "leaderOf g ?u \<noteq> None" using safetyInvD(1)[OF inv] ld by auto
    have lead: "agree k ?l ?c" if "committed g (csize s) (ids s) (CurrentTerm ?rf) ?l k" for k
      using committed_leader[OF hist _ _ that lu t] by simp
    define rf1 where "rf1 = (if ?u > CurrentTerm ?rf
        then persist (?rf\<lparr>CurrentTerm := ?u, VotedFor := -1\<rparr>) else ?rf)\<lparr>state := FOLLOWER\<rparr>"
    have rf1: "Log rf1 = Log ?rf" "CurrentTerm rf1 = ?u" "CommitIndex rf1 = CommitIndex ?rf" "applying rf1 = applying ?rf" "state rf1 = FOLLOWER"
      using t by (auto simp: rf1_def)
    define log where "log = (if ?i \<le> lastIdx (Log ?rf) \<and> termAt (Log ?rf) ?i = isLastIncludedTerm args
       then drop (nat (?i - firstIdx (Log ?rf))) (Log ?rf) else [\<lparr>Term = isLastIncludedTerm args, Command = None, Index = ?i\<rparr>])"
    note eq = InstallSnapshot_eq[OF wf t, folded rf1_def]
    have "\<exists>l'. logHeld g (csize s) (ids s) l' rf \<and> agree (nat ?i) l' ?c \<and> (\<forall>k. agree k ?l ?c \<longrightarrow> agree k l' ?c) \<and>
        CurrentTerm rf = ?u \<and> state rf = FOLLOWER \<and> applying rf = applying ?rf \<and> isrTerm reply = CurrentTerm ?rf"
    proof (cases "?i \<le> CommitIndex ?rf \<or> ?i \<le> firstIdx (Log ?rf)")
      case True
      then have "rf = rf1" "isrTerm reply = CurrentTerm ?rf" using h eq by auto
      moreover have "agree (nat ?i) ?l ?c"
        using True lead[OF f(10)] lead[OF f(11)] by (auto intro: agree_le nat_mono)
      moreover have "logHeld g (csize s) (ids s) ?l rf1" using rf1 t by (intro logHeld_frame[OF f(12)]) simp_all
      ultimately show ?thesis using rf1 by (intro exI[of _ ?l]) simp
    next
      case ins: False
      then have fields: "Log rf = log" "CommitIndex rf = ?i" "CurrentTerm rf = ?u" "state rf = FOLLOWER"
        "applying rf = applying ?rf" "isrTerm reply = CurrentTerm ?rf"
        using h eq rf1 by (auto simp: log_def)
      have heldI: "logHeld g (csize s) (ids s) l' rf"
        if "represents log l'" "canonical (termLog g) l'" "agree (nat ?i) l' ?c" "firstIdx log = ?i" for l'
        using that committed_agree[OF i(2) agree_sym[OF that(3)]] i(1) by (simp add: logHeld_def fields)
      show ?thesis
      proof (cases "?i \<le> lastIdx (Log ?rf) \<and> termAt (Log ?rf) ?i = isLastIncludedTerm args")
        case True
        define j where "j = nat (?i - firstIdx (Log ?rf))"
        have j: "j < length (Log ?rf)" using True ins by (auto simp: j_def lastIdx_def)
        have log: "log = drop j (Log ?rf)" using True by (simp add: log_def j_def)
        have "mergeFits (Log ?rf) ?i (Term (?c ! nat ?i))" using True unfolding mergeFits_def i(3) by simp
        then have "agree (nat ?i) ?l ?c" by (rule fits_agree[OF C f(8) f(7,6) lead[OF f(11)] i(1) ic])
        moreover have "firstIdx log = ?i" using wfLog_drop(2)[OF f(6) j] ins by (simp add: log j_def)
        ultimately show ?thesis
          using heldI[of ?l] represents_drop[OF f(7,6) j] f(8) fields by (intro exI[of _ ?l]) (simp add: log)
      next
        case False
        define l' where "l' = take (Suc (nat ?i)) ?c"
        have log: "log = [\<lparr>Term = Term (?c ! nat ?i), Command = None, Index = ?i\<rparr>]" using False i(3) by (auto simp: log_def)
        have "represents log l'" unfolding log l'_def using i(1) ic by (rule represents_single)
        moreover have "canonical (termLog g) l'" unfolding l'_def using ic by (intro canonical_termLog[OF C]) auto
        moreover have ag: "agree (nat ?i) l' ?c" using ic by (simp add: agree_def l'_def)
        moreover have "agree k l' ?c" if k: "agree k ?l ?c" for k
        proof -
          have "k < nat ?i"
          proof (rule ccontr)
            assume "\<not> k < nat ?i"
            then have ai: "agree (nat ?i) ?l ?c" using k by (auto intro: agree_le)
            then have "?i \<le> lastIdx (Log ?rf)" using agree_length(1)[OF ai] represents_length(5)[OF f(7,6)] i(1) by linarith
            moreover from this have "termAt (Log ?rf) ?i = Term (?l ! nat ?i)" using representsD(1)[OF f(7,6)] ins by simp
            ultimately show False using False i(3) agree_nth[OF ai order_refl] by simp
          qed
          then show ?thesis using ag by (auto intro: agree_le)
        qed
        ultimately show ?thesis using heldI[of l'] fields by (intro exI[of _ l']) (simp add: log)
      qed
    qed
    then obtain l' where l': "logHeld g (csize s) (ids s) l' rf" "agree (nat ?i) l' ?c" "\<And>k. agree k ?l ?c \<Longrightarrow> agree k l' ?c"
      "CurrentTerm rf = ?u" "state rf = FOLLOWER" "applying rf = applying ?rf" "isrTerm reply = CurrentTerm ?rf" by blast
    let ?g = "acknowledge g p ?u (nat ?i) l'"
    have "safetyInv ?g (setNode s p rf)"
      using follow_keeps[OF inv e p ld(1) ld(2)[symmetric] t q(2,1) l'(4-6,1-3)] .
    moreover have "installReplyOk ?g s p args reply"
      using grows_installOk[OF acknowledge_grows ok] by (simp add: installReplyOk_def)
    ultimately show ?thesis using acknowledge_grows replies_join(2) by blast
  qed
qed

section \<open>The leader\<close>

lemma tablesOkD:
  assumes "tablesOk g rf" "0 \<le> p" "p < int (peers rf)"
  shows "p \<noteq> me rf \<Longrightarrow> nextIndex rf ! nat p \<le> lastIdx (Log rf) + 1"
    "matchIndex rf ! nat p \<le> 0 \<or> (p, CurrentTerm rf, nat (matchIndex rf ! nat p)) \<in> acks g"
proof -
  have "nat p < peers rf" "int (nat p) = p" using assms(2,3) by auto
  then show "p \<noteq> me rf \<Longrightarrow> nextIndex rf ! nat p \<le> lastIdx (Log rf) + 1"
    "matchIndex rf ! nat p \<le> 0 \<or> (p, CurrentTerm rf, nat (matchIndex rf ! nat p)) \<in> acks g"
    using assms(1) unfolding tablesOk_def by metis+
qed

lemma tables_update:
  assumes "tablesOk g rf" "int p \<noteq> me rf \<Longrightarrow> n \<le> lastIdx (Log rf) + 1" "m \<le> 0 \<or> (int p, CurrentTerm rf, nat m) \<in> acks g"
    "length (nextIndex rf) = peers rf" "length (matchIndex rf) = peers rf"
  shows "tablesOk g (rf\<lparr>matchIndex := (matchIndex rf)[p := m], nextIndex := (nextIndex rf)[p := n]\<rparr>)"
    (is "tablesOk g ?r")
  unfolding tablesOk_def
proof (intro allI impI)
  fix k assume k: "k < peers ?r"
  show "(int k \<noteq> me ?r \<longrightarrow> nextIndex ?r ! k \<le> lastIdx (Log ?r) + 1) \<and>
      (matchIndex ?r ! k \<le> 0 \<or> (int k, CurrentTerm ?r, nat (matchIndex ?r ! k)) \<in> acks g)"
    using assms k by (cases "k = p") (auto simp: tablesOk_def)
qed

text \<open>A majority of acknowledgements for an entry of the leader's own term: the entry is chosen.\<close>

lemma majority_chosen:
  assumes inv: "safetyInv g s" and e: "electionInv s" and i: "i \<in> ids s" and l: "state (node s i) = LEADER"
    and tab: "tablesOk g rf" "peers rf = csize s" "CurrentTerm rf = CurrentTerm (node s i)" "length (matchIndex rf) = csize s"
    and c: "0 < c" "c \<le> lastIdx (Log (node s i))" "firstIdx (Log (node s i)) \<le> c" "termAt (Log (node s i)) c = CurrentTerm (node s i)"
    and maj: "csize s div 2 < length (filter (\<lambda>v. c \<le> v) (matchIndex rf))"
  shows "committed g (csize s) (ids s) (CurrentTerm (node s i)) (fullLog g i) (nat c)"
proof -
  note f = peer_facts[OF inv e i]
  note lf = leader_facts[OF inv i l]
  let ?T = "CurrentTerm (node s i)"
  have d: "termAt (Log (node s i)) c = Term (fullLog g i ! nat c)" "nat c < length (fullLog g i)"
    using representsD(1,3)[OF f(7,6) c(3,2)] .
  have down: "(q, t, k) \<in> acks g \<Longrightarrow> j \<le> k \<Longrightarrow> (q, t, j) \<in> acks g" for q t k j
    using safetyInvD(1)[OF inv] by (auto simp: historyOk_def acksOk_def)
  let ?S = "{p. p < csize s \<and> c \<le> matchIndex rf ! p}"
  have "int ` ?S \<subseteq> {q \<in> ids s. (q, ?T, nat c) \<in> acks g}"
  proof (safe)
    fix p assume p: "p < csize s" "c \<le> matchIndex rf ! p"
    show "int p \<in> ids s" using p by (simp add: ids_def)
    have "(int p, ?T, nat (matchIndex rf ! p)) \<in> acks g" using tab p c(1) by (auto simp: tablesOk_def)
    then show "(int p, ?T, nat c) \<in> acks g" by (rule down) (use p in simp)
  qed
  then have "card (int ` ?S) \<le> card {q \<in> ids s. (q, ?T, nat c) \<in> acks g}" by (intro card_mono) auto
  moreover have "card (int ` ?S) = length (filter (\<lambda>v. c \<le> v) (matchIndex rf))"
    using tab(4) by (simp add: card_image length_filter_conv_card)
  ultimately have "chosen g (csize s) (ids s) ?T (nat c)"
    using maj lf d c(4) by (auto simp: chosen_def)
  moreover have "agree (nat c) (fullLog g i) (termLog g ?T)" using lf(2) d(2) by (simp add: agree_refl)
  ultimately show ?thesis
    using d(2) canonical_origin[OF safetyInvD(10)[OF inv] f(8)] unfolding committed_def by blast
qed

text \<open>A leader that learns of a newer term.\<close>

lemma newer_safe:
  assumes inv: "safetyInv g s" and e: "electionInv s" and i: "i \<in> ids s" and t: "CurrentTerm (node s i) < t"
  shows "safetyInv g (setNode s i (persist ((node s i)\<lparr>state := FOLLOWER, CurrentTerm := t, VotedFor := -1\<rparr>)))"
proof -
  note f = peer_facts[OF inv e i]
  show ?thesis
    using newer_term_steps_down[OF f(1) t] t
    by (intro calm_setNode[OF inv e i] logHeld_frame[OF f(12)] applyingOk_frame[OF f(13)]) auto
qed

text \<open>A change of a leader's tables and commit index only.\<close>

lemma tables_safe:
  assumes inv: "safetyInv g s" and e: "electionInv s" and i: "i \<in> ids s" and l: "state (node s i) = LEADER"
    and len: "length ni = csize s" "length mi = csize s"
    and tab: "tablesOk g ((node s i)\<lparr>matchIndex := mi, nextIndex := ni\<rparr>)"
    and c: "0 \<le> c" "committed g (csize s) (ids s) (CurrentTerm (node s i)) (fullLog g i) (nat c)"
  shows "safetyInv g (setNode s i ((node s i)\<lparr>matchIndex := mi, nextIndex := ni, CommitIndex := c\<rparr>))"
proof -
  note f = peer_facts[OF inv e i]
  have "sound ((node s i)\<lparr>matchIndex := mi, nextIndex := ni, CommitIndex := c\<rparr>)"
    using sound_frame[OF f(1), of "(node s i)\<lparr>matchIndex := mi, nextIndex := ni, CommitIndex := c\<rparr>"] len f(3) by simp
  moreover have "logHeld g (csize s) (ids s) (fullLog g i) ((node s i)\<lparr>matchIndex := mi, nextIndex := ni, CommitIndex := c\<rparr>)"
    using f(12) c by (simp add: logHeld_def)
  ultimately show ?thesis
    using f(13) tab l by (intro calm_setNode[OF inv e i]) (auto simp: quiet_def applyingOk_def tablesOk_def)
qed

lemma nextIndex_safe:
  assumes inv: "safetyInv g s" and e: "electionInv s" and i: "i \<in> ids s" and l: "state (node s i) = LEADER"
    and n: "n \<le> lastIdx (Log (node s i)) + 1" and p: "0 \<le> p" "p < int (csize s)"
  shows "safetyInv g (setNode s i ((node s i)\<lparr>nextIndex := (nextIndex (node s i))[nat p := n]\<rparr>))"
proof -
  note f = peer_facts[OF inv e i]
  note tab = sound_tables[OF f(1)]
  have m: "matchIndex (node s i) ! nat p \<le> 0 \<or>
      (int (nat p), CurrentTerm (node s i), nat (matchIndex (node s i) ! nat p)) \<in> acks g"
    using tablesOkD(2)[OF leader_facts(3)[OF inv i l] p(1)] p f(3) by simp
  have "tablesOk g ((node s i)\<lparr>matchIndex := matchIndex (node s i), nextIndex := (nextIndex (node s i))[nat p := n]\<rparr>)"
    using tables_update[OF leader_facts(3)[OF inv i l] n m tab] by simp
  from tables_safe[OF inv e i l _ _ this f(9,10)] show ?thesis using tab f(3) by simp
qed

lemma appendReply_safe:
  assumes inv: "safetyInv g s" and e: "electionInv s" and a: "(p, args, reply) \<in> aeReplies s" and ii: "i = aeLeaderId args"
    and h: "handleReplicateOneRoundResponse (node s i) p args reply = Some rf"
  shows "safetyInv g (setNode s i rf)"
proof -
  let ?rf = "node s i" and ?acked = "aePrevLogIndex args + int (length (aeEntries args))"
  have ok: "appendReplyOk g s p args reply" using safetyInvD(9)[OF inv] a by (auto simp: networkOk_def)
  have p: "p \<in> ids s" and ld: "leaderOf g (aeTerm args) = Some i" and part: "partOf args (termLog g (aeTerm args))"
    using ok ii by (auto simp: appendReplyOk_def appendOk_def)
  have i: "i \<in> ids s" using safetyInvD(4)[OF inv] ld by (auto simp: termsOk_def)
  note f = peer_facts[OF inv e i]
  note tab = sound_tables[OF f(1)]
  have np: "0 \<le> p" "p < int (peers ?rf)" "p < int (csize s)" "int (nat p) = p" using p f(3) by (auto simp: ids_def)
  consider (stale) "aeTerm args \<noteq> CurrentTerm ?rf \<or> state ?rf \<noteq> LEADER"
    | (newer) "aeTerm args = CurrentTerm ?rf" "state ?rf = LEADER" "aerTerm reply > CurrentTerm ?rf"
    | (success) "aeTerm args = CurrentTerm ?rf" "state ?rf = LEADER" "aerTerm reply \<le> CurrentTerm ?rf" "aerSuccess reply"
    | (short) "aeTerm args = CurrentTerm ?rf" "state ?rf = LEADER" "aerTerm reply \<le> CurrentTerm ?rf" "\<not> aerSuccess reply" "aerXTerm reply = -1"
    | (conflict) "aeTerm args = CurrentTerm ?rf" "state ?rf = LEADER" "conflictReply ?rf args reply"
    unfolding conflictReply_def by (metis not_le)
  then show ?thesis
  proof cases
    case stale
    then have "rf = ?rf" using h by (auto simp: handleReplicateOneRoundResponse_def)
    then show ?thesis using inv by (simp add: setNode_def)
  next
    case newer
    then have "rf = persist (?rf\<lparr>state := FOLLOWER, CurrentTerm := aerTerm reply, VotedFor := -1\<rparr>)"
      using h by (simp add: handleReplicateOneRoundResponse_def changeState_def)
    then show ?thesis using newer_safe[OF inv e i newer(3)] by simp
  next
    case success
    note lf = leader_facts[OF inv i success(2)]
    have len: "nat (aePrevLogIndex args) + length (aeEntries args) < length (fullLog g i)" "0 \<le> aePrevLogIndex args"
      using part lf(2) success(1) by (auto simp: partOf_def)
    then have al: "?acked \<le> lastIdx (Log ?rf)" "nat ?acked = nat (aePrevLogIndex args) + length (aeEntries args)"
      using represents_length(5)[OF f(7,6)] by (auto simp: nat_add_distrib)
    have ack: "(p, CurrentTerm ?rf, nat ?acked) \<in> acks g" using ok success al(2) by (simp add: appendReplyOk_def)
    define mi where "mi = (matchIndex ?rf)[nat p := max (matchIndex ?rf ! nat p) ?acked]"
    define ni where "ni = (nextIndex ?rf)[nat p := max (nextIndex ?rf ! nat p) (?acked + 1)]"
    define rf1 where "rf1 = ?rf\<lparr>matchIndex := mi, nextIndex := ni\<rparr>"
    have lens: "length ni = csize s" "length mi = csize s" using tab f(3) by (simp_all add: mi_def ni_def)
    note old = tablesOkD[OF lf(3) np(1,2)]
    have t1: "tablesOk g rf1"
      using tables_update[OF lf(3) _ _ tab, of "nat p" "max (nextIndex ?rf ! nat p) (?acked + 1)" "max (matchIndex ?rf ! nat p) ?acked"]
        old al(1) ack np(4) by (auto simp: rf1_def mi_def ni_def max_def)
    have s1: "sound rf1" unfolding rf1_def using lens f(3) by (intro tables_keep(1)[OF f(1)]) simp_all
    have "handleReplicateOneRoundResponse ?rf p args reply = commitLoop rf1 (CommitIndex rf1 + 1) (lastIdx (Log rf1))"
      using handleReplicateOneRoundResponse_success[OF f(1) success np(1,2)] by (simp add: rf1_def mi_def ni_def)
    with commitLoop_Some[OF s1 order_refl refl] h obtain c where c: "rf = rf1\<lparr>CommitIndex := c\<rparr>"
      "c = CommitIndex ?rf \<or> CommitIndex ?rf < c \<and> c \<le> lastIdx (Log ?rf) \<and> committable rf1 c"
      by (auto simp: rf1_def)
    have F0: "0 \<le> firstIdx (Log ?rf)" using f(6) by (simp add: wfLog_def)
    have "0 \<le> c \<and> committed g (csize s) (ids s) (CurrentTerm ?rf) (fullLog g i) (nat c)"
    proof (cases "c = CommitIndex ?rf")
      case True
      then show ?thesis using f(9,10) by simp
    next
      case False
      then have cc: "CommitIndex ?rf < c" "c \<le> lastIdx (Log ?rf)" "committable rf1 c" using c(2) by auto
      show ?thesis
      proof (cases "c \<le> firstIdx (Log ?rf)")
        case True
        then show ?thesis using cc(1) f(9) committed_le[OF f(11), of "nat c"] by (simp add: nat_mono)
      next
        case False
        then have "csize s div 2 < length (filter (\<lambda>v. c \<le> v) (matchIndex rf1))" "termAt (Log ?rf) c = CurrentTerm ?rf"
          using cc(3) f(3) by (auto simp: committable_def rf1_def)
        then show ?thesis
          using majority_chosen[OF inv e i success(2) t1] False cc(2) F0 lens f(3) by (simp add: rf1_def)
      qed
    qed
    then have "safetyInv g (setNode s i (?rf\<lparr>matchIndex := mi, nextIndex := ni, CommitIndex := c\<rparr>))"
      using tables_safe[OF inv e i success(2) lens t1[unfolded rf1_def]] by blast
    then show ?thesis by (simp add: c(1) rf1_def)
  next
    case short
    then have "rf = ?rf\<lparr>nextIndex := (nextIndex ?rf)[nat p := aerXLen reply]\<rparr>"
      using h go_table[of p "nextIndex ?rf"] np tab by (simp add: handleReplicateOneRoundResponse_def)
    moreover have "aerXLen reply \<le> lastIdx (Log ?rf) + 1"
      using ok short(1,4) part leader_facts(2)[OF inv i short(2)] represents_length(5)[OF f(7,6)]
      by (auto simp: appendReplyOk_def partOf_def)
    ultimately show ?thesis using nextIndex_safe[OF inv e i short(2) _ np(1,3)] by simp
  next
    case conflict
    define j where "j = go_search (length (Log ?rf)) (\<lambda>k. Term (Log ?rf ! k) > aerXTerm reply)"
    define x where "x = (if j > 0 \<and> Term (Log ?rf ! (j - 1)) = aerXTerm reply then firstIdx (Log ?rf) + int j else aerXIndex reply)"
    have "handleReplicateOneRoundResponse ?rf p args reply = Some (?rf\<lparr>nextIndex := (nextIndex ?rf)[nat p := x]\<rparr>)"
      using handleReplicateOneRoundResponse_conflict[OF f(1) conflict(3) np(1,2)] h
      unfolding j_def [symmetric] x_def by auto
    then have "rf = ?rf\<lparr>nextIndex := (nextIndex ?rf)[nat p := x]\<rparr>" using h by simp
    moreover have "x \<le> lastIdx (Log ?rf) + 1"
    proof -
      have "j \<le> length (Log ?rf)" unfolding j_def by (rule go_search_le)
      moreover have "aerXIndex reply \<le> lastIdx (Log ?rf) + 1"
        using ok conflict part leader_facts(2)[OF inv i conflict(2)] represents_length(5)[OF f(7,6)]
        by (auto simp: appendReplyOk_def partOf_def conflictReply_def)
      ultimately show ?thesis by (auto simp: x_def lastIdx_def)
    qed
    ultimately show ?thesis using nextIndex_safe[OF inv e i conflict(2) _ np(1,3)] by simp
  qed
qed

lemma snapshotReply_safe:
  assumes inv: "safetyInv g s" and e: "electionInv s" and a: "(p, args, reply) \<in> isReplies s" and ii: "i = isLeaderId args"
    and h: "handleInstallSnapshotResponse (node s i) p args reply = Some rf"
  shows "safetyInv g (setNode s i rf)"
proof -
  let ?rf = "node s i" and ?x = "isLastIncludedIndex args"
  have ok: "installReplyOk g s p args reply" using safetyInvD(9)[OF inv] a by (auto simp: networkOk_def)
  have p: "p \<in> ids s" and ld: "leaderOf g (isTerm args) = Some i" and x0: "0 \<le> ?x"
    and x: "nat ?x < length (termLog g (isTerm args))"
    using ok ii by (auto simp: installReplyOk_def installOk_def committed_def)
  have i: "i \<in> ids s" using safetyInvD(4)[OF inv] ld by (auto simp: termsOk_def)
  note f = peer_facts[OF inv e i]
  note tab = sound_tables[OF f(1)]
  have np: "0 \<le> p" "p < int (peers ?rf)" "p < int (csize s)" "int (nat p) = p" using p f(3) by (auto simp: ids_def)
  consider (stale) "isTerm args \<noteq> CurrentTerm ?rf \<or> state ?rf \<noteq> LEADER"
    | (newer) "isTerm args = CurrentTerm ?rf" "state ?rf = LEADER" "isrTerm reply > CurrentTerm ?rf"
    | (upd) "isTerm args = CurrentTerm ?rf" "state ?rf = LEADER" "isrTerm reply \<le> CurrentTerm ?rf" by linarith
  then show ?thesis
  proof cases
    case stale
    then have "rf = ?rf" using h by (auto simp: handleInstallSnapshotResponse_def)
    then show ?thesis using inv by (simp add: setNode_def)
  next
    case newer
    then have "rf = persist (?rf\<lparr>state := FOLLOWER, CurrentTerm := isrTerm reply, VotedFor := -1\<rparr>)"
      using h by (simp add: handleInstallSnapshotResponse_def changeState_def)
    then show ?thesis using newer_safe[OF inv e i newer(3)] by simp
  next
    case upd
    note lf = leader_facts[OF inv i upd(2)]
    have al: "?x \<le> lastIdx (Log ?rf)" using x x0 lf(2) upd(1) represents_length(5)[OF f(7,6)] by simp
    have ack: "(p, CurrentTerm ?rf, nat ?x) \<in> acks g" using ok upd by (simp add: installReplyOk_def)
    define mi where "mi = (matchIndex ?rf)[nat p := max (matchIndex ?rf ! nat p) ?x]"
    define ni where "ni = (nextIndex ?rf)[nat p := max (nextIndex ?rf ! nat p) (?x + 1)]"
    have lens: "length ni = csize s" "length mi = csize s" using tab f(3) by (simp_all add: mi_def ni_def)
    note old = tablesOkD[OF lf(3) np(1,2)]
    have t1: "tablesOk g (?rf\<lparr>matchIndex := mi, nextIndex := ni\<rparr>)"
      using tables_update[OF lf(3) _ _ tab, of "nat p" "max (nextIndex ?rf ! nat p) (?x + 1)" "max (matchIndex ?rf ! nat p) ?x"]
        old al ack np(4) by (auto simp: mi_def ni_def max_def)
    have "?rf\<lparr>matchIndex := mi, nextIndex := ni\<rparr> = rf"
      using h upd go_table[of p "nextIndex ?rf"] go_table[of p "matchIndex ?rf"] np tab
      by (simp add: handleInstallSnapshotResponse_def mi_def ni_def)
    moreover have "?rf\<lparr>matchIndex := mi, nextIndex := ni, CommitIndex := CommitIndex ?rf\<rparr> = ?rf\<lparr>matchIndex := mi, nextIndex := ni\<rparr>"
      by simp
    ultimately show ?thesis using tables_safe[OF inv e i upd(2) lens t1 f(9,10)] by metis
  qed
qed

end
