(* ===== verification/RaftSafetyElect.thy ===== *)
theory RaftSafetyElect
  imports RaftSafetyNet
begin

text \<open>
  The steps of an election, in which the history itself moves,
  by a vote or by a new leader.
\<close>

section \<open>Votes\<close>

lemma requests_fewer:
  "safetyInv g s \<Longrightarrow> R \<subseteq> rvRequests s \<Longrightarrow> safetyInv g (s\<lparr>rvRequests := R\<rparr>)"
  by (auto simp: safetyInv_def peerOk_def termsOk_def candidatesOk_def votesOk_def voteRequestsOk_def acksHeld_def)

text \<open>A leader has voted for itself.\<close>

lemma leader_own_vote:
  assumes inv: "safetyInv g s" and l: "leaderOf g u = Some c"
  shows "(c, u, c) \<in> votes s"
  using electedOkD[OF safetyInvD(1)[OF inv] l] safetyInvD(4)[OF inv] l by (auto simp: electedOk_def termsOk_def)

text \<open>
  Peer \<open>p\<close> votes for the first time in term \<open>u\<close>, with the log it has, for a candidate whose log is at least
  as up to date.  \<open>cl\<close> are the logs of the candidates, \<open>v\<close> the vote counters and \<open>R\<close> the requests afterwards.
\<close>

definition cast :: "'c History \<Rightarrow> int \<Rightarrow> int \<Rightarrow> (int \<times> int \<Rightarrow> 'c LogEntry list) \<Rightarrow> 'c History" where
  "cast g p u cl = g\<lparr>voterLog := (voterLog g)((p, u) := fullLog g p), candidateLog := cl\<rparr>"

lemma cast_simps [simp]:
  "leaderOf (cast g p u cl) = leaderOf g" "termLog (cast g p u cl) = termLog g" "electors (cast g p u cl) = electors g"
  "fullLog (cast g p u cl) = fullLog g" "acks (cast g p u cl) = acks g" "candidateLog (cast g p u cl) = cl"
  "voterLog (cast g p u cl) = (voterLog g)((p, u) := fullLog g p)"
  by (simp_all add: cast_def)

lemma cast_same [simp]: "misses (cast g p u cl) = misses g"
  by (simp add: fun_eq_iff misses_def)

lemma cast_grows: "grows g (cast g p u cl)"
  by (rule growsI) auto

lemma cast_kept:
  assumes "(q, w) \<noteq> (p, u)" "cl (d, w) = candidateLog g (d, w)"
  shows "voteOk (cast g p u cl) q w d = voteOk g q w d" "candidateOk (cast g p u cl) w d = candidateOk g w d"
  using assms by (simp_all add: voteOk_def candidateOk_def fun_upd_other del: fun_upd_apply)

lemma cast_new_vote:
  assumes inv: "safetyInv g s" and e: "electionInv s" and p: "p \<in> ids s" and t: "CurrentTerm (node s p) \<le> u"
    and l: "leaderOf g u = None" and ud: "upToDate (fullLog g p) (cl (c, u))"
  shows "voteOk (cast g p u cl) p u c"
  unfolding voteOk_def
proof (intro conjI allI impI)
  show "canonical (termLog (cast g p u cl)) (voterLog (cast g p u cl) (p, u))" using peer_facts(8)[OF inv e p] by simp
  show "upToDate (voterLog (cast g p u cl) (p, u)) (candidateLog (cast g p u cl) (c, u))" using ud by simp
  fix w k assume a: "(p, w, k) \<in> acks (cast g p u cl) \<and> w < u"
  then have "agree k (fullLog g p) (termLog g w) \<or> (\<exists>v \<le> CurrentTerm (node s p). misses g v w k)"
    using safetyInvD(8)[OF inv] by (auto simp: acksHeld_def)
  moreover have "v < u" if "v \<le> CurrentTerm (node s p)" "misses g v w k" for v
    using that l t by (cases "v = u") (auto simp: misses_def)
  ultimately show "agree k (voterLog (cast g p u cl) (p, u)) (termLog (cast g p u cl) w) \<or> (\<exists>v < u. misses (cast g p u cl) v w k)"
    by auto
qed

lemma cast_history:
  assumes inv: "safetyInv g s" and fresh: "\<And>d. (p, u, d) \<notin> votes s"
    and cl: "\<And>q w d. (q, w, d) \<in> votes s \<Longrightarrow> cl (d, w) = candidateLog g (d, w)"
  shows "historyOk (cast g p u cl) (csize s) (ids s)"
proof -
  have h: "historyOk g (csize s) (ids s)" using safetyInvD(1)[OF inv] .
  have "electedOk (cast g p u cl) (csize s) (ids s) w d" if l: "leaderOf g w = Some d" for w d
  proof -
    have el: "electedOk g (csize s) (ids s) w d" using electedOkD[OF h l] .
    have v: "(q, w, d) \<in> votes s" if "q \<in> electors g w" for q
      using safetyInvD(4)[OF inv] l that by (auto simp: termsOk_def)
    have c: "cl (d, w) = candidateLog g (d, w)" using cl[OF leader_own_vote[OF inv l]] .
    have "voteOk (cast g p u cl) q w d" if q: "q \<in> electors g w" for q
    proof -
      have "(q, w) \<noteq> (p, u)" using v[OF q] fresh by auto
      then show ?thesis using el q cast_kept(1)[of q w p u cl d g] c by (auto simp: electedOk_def)
    qed
    then show ?thesis using el c by (simp add: electedOk_def candidateOk_def)
  qed
  then show ?thesis using h by (simp add: historyOk_def acksOk_def)
qed

lemma cast_keeps:
  assumes inv: "safetyInv g s" and e: "electionInv s" and p: "p \<in> ids s" and t: "CurrentTerm (node s p) \<le> u"
    and fresh: "\<And>d. (p, u, d) \<notin> votes s"
    and rf: "sound rf" "CurrentTerm rf = u" "state rf \<noteq> LEADER" "Log rf = Log (node s p)"
      "CommitIndex rf = CommitIndex (node s p)" "applying rf = applying (node s p)"
    and down: "state (node s p) = LEADER \<Longrightarrow> CurrentTerm (node s p) < u"
    and cl: "\<And>q w d. (q, w, d) \<in> votes s \<Longrightarrow> cl (d, w) = candidateLog g (d, w)"
    and cand: "candidateOk (cast g p u cl) u c" "u \<le> CurrentTerm (((node s)(p := rf)) c)"
    and ud: "upToDate (fullLog g p) (cl (c, u))"
    and v: "\<And>k. k \<noteq> (p, u) \<Longrightarrow> v k = voteCnt s k" "v (p, u) \<noteq> None \<Longrightarrow> CurrentTerm (node s p) < u \<and> cl (p, u) = fullLog g p \<or> voteCnt s (p, u) \<noteq> None"
    and R: "\<And>q a. (q, a) \<in> R \<Longrightarrow> (q, a) \<in> rvRequests s \<or> (rvCandidateId a, rvTerm a, rvCandidateId a) = (p, u, c) \<and>
      rvLastLogTerm a = Term (last (cl (c, u))) \<and> rvLastLogIndex a = int (length (cl (c, u))) - 1"
  shows "safetyInv (cast g p u cl)
    ((setNode s p rf)\<lparr>rvRequests := R, voteCnt := v, votes := insert (p, u, c) (votes s)\<rparr>)" (is "safetyInv ?g ?t")
proof -
  note gr = cast_grows[of g p u cl]
  have mono: "w \<le> CurrentTerm (node s j) \<Longrightarrow> w \<le> CurrentTerm (((node s)(p := rf)) j)" for w j using t rf(2) by auto
  have nov: "voteCnt s (p, u) = None" using e fresh[of p] unfolding electionInv_def invCount_def by (metis not_None_eq)
  note f = peer_facts[OF inv e p]
  have "peerOk ?g ?t j" if j: "j \<in> ids s" for j
  proof (cases "j = p")
    case True
    have "logHeld g (csize s) (ids s) (fullLog g p) rf" using logHeld_frame[OF f(12) rf(4,5)] t rf(2) by simp
    moreover have "applyingOk g (csize s) (ids s) (fullLog g p) rf" using applyingOk_frame[OF f(13) rf(6)] t rf(2) by simp
    moreover have "deliveredOk g (csize s) (ids s) u (fullLog g p) (delivered s p)" using deliveredOk_term[OF f(14) t] .
    ultimately show ?thesis using True rf(1,2) unfolding peerOk_def
      by (simp add: grows_logHeld[OF gr] grows_applyingOk[OF gr] grows_deliveredOk[OF gr])
  next
    case False
    then show ?thesis using safetyInvD(2)[OF inv j] unfolding peerOk_def
      by (simp add: grows_logHeld[OF gr] grows_applyingOk[OF gr] grows_deliveredOk[OF gr])
  qed
  moreover have "leadOk ?g j (node ?t j)" if j: "j \<in> ids s" for j
    using safetyInvD(3)[OF inv j] rf(3) by (cases "j = p") (auto simp: leadOk_def tablesOk_def)
  moreover have "termsOk ?g ?t"
    unfolding termsOk_def
  proof (intro allI impI)
    fix w d assume l: "leaderOf ?g w = Some d"
    have old: "d \<in> ids s" "w \<le> CurrentTerm (node s d)"
      "w = CurrentTerm (node s d) \<and> state (node s d) \<noteq> LEADER \<longrightarrow> voteCnt s (d, w) = None"
      "\<forall>q \<in> electors g w. (q, w, d) \<in> votes s"
      using safetyInvD(4)[OF inv] l by (auto simp: termsOk_def)
    have "v (d, w) = None" if "w = CurrentTerm (node ?t d)" "state (node ?t d) \<noteq> LEADER"
    proof (cases "d = p")
      case True
      then have "w = u" "\<not> CurrentTerm (node s p) < u" using that(1) old(2) rf(2) by auto
      then show ?thesis using v(2) nov True by blast
    qed (use that old(3) v(1) in auto)
    then show "d \<in> ids ?t \<and> w \<le> CurrentTerm (node ?t d) \<and>
        (w = CurrentTerm (node ?t d) \<and> state (node ?t d) \<noteq> LEADER \<longrightarrow> voteCnt ?t (d, w) = None) \<and>
        (\<forall>q \<in> electors ?g w. (q, w, d) \<in> votes ?t)"
      using old mono[OF old(2)] by (simp del: fun_upd_apply)
  qed
  moreover have "candidatesOk ?g ?t"
    unfolding candidatesOk_def
  proof (intro allI impI)
    fix d w assume a: "voteCnt ?t (d, w) \<noteq> None \<and> w = CurrentTerm (node ?t d) \<and> leaderOf ?g w = None"
    show "fullLog ?g d = candidateLog ?g (d, w)"
    proof (cases "d = p")
      case True
      then show ?thesis using a rf(2) v(2) nov by auto
    next
      case False
      then have vs: "voteCnt s (d, w) \<noteq> None" "w = CurrentTerm (node s d)" "leaderOf g w = None" using a v(1) by auto
      then have "(d, w, d) \<in> votes s" using e by (auto simp: electionInv_def invCount_def)
      then show ?thesis using vs safetyInvD(5)[OF inv] cl by (auto simp: candidatesOk_def)
    qed
  qed
  moreover have "votesOk ?g ?t"
    unfolding votesOk_def
  proof (intro allI impI)
    fix q w d assume a: "(q, w, d) \<in> votes ?t"
    show "candidateOk ?g w d \<and> w \<le> CurrentTerm (node ?t d) \<and> (leaderOf ?g w = None \<longrightarrow> voteOk ?g q w d)"
    proof (cases "(q, w, d) = (p, u, c)")
      case True
      then show ?thesis using cand cast_new_vote[where cl = cl and c = c, OF inv e p t _ ud] by simp
    next
      case False
      then have old: "(q, w, d) \<in> votes s" using a by auto
      have "(q, w) \<noteq> (p, u)" using old fresh by auto
      then show ?thesis
        using safetyInvD(6)[OF inv] old cast_kept[where cl = cl and d = d and w = w, OF _ cl[OF old]] mono[of w d]
        by (simp add: votesOk_def del: fun_upd_apply)
    qed
  qed
  moreover have "voteRequestsOk ?g ?t"
    unfolding voteRequestsOk_def
  proof (intro allI impI)
    fix q a assume a: "(q, a) \<in> rvRequests ?t"
    then consider (old) "(q, a) \<in> rvRequests s" | (new) "(rvCandidateId a, rvTerm a, rvCandidateId a) = (p, u, c) \<and>
      rvLastLogTerm a = Term (last (cl (c, u))) \<and> rvLastLogIndex a = int (length (cl (c, u))) - 1"
      using R[of q a] by auto
    then show "(rvCandidateId a, rvTerm a, rvCandidateId a) \<in> votes ?t \<and>
        rvLastLogTerm a = Term (last (candidateLog ?g (electionKey a))) \<and>
        rvLastLogIndex a = int (length (candidateLog ?g (electionKey a))) - 1"
    proof cases
      case old
      then have o: "(rvCandidateId a, rvTerm a, rvCandidateId a) \<in> votes s"
        "rvLastLogTerm a = Term (last (candidateLog g (electionKey a)))"
        "rvLastLogIndex a = int (length (candidateLog g (electionKey a))) - 1"
        using safetyInvD(7)[OF inv] by (auto simp: voteRequestsOk_def)
      have "cl (electionKey a) = candidateLog g (electionKey a)" using cl[OF o(1)] by (simp add: electionKey_def)
      then show ?thesis using o by simp
    next
      case new
      then show ?thesis by (auto simp: electionKey_def)
    qed
  qed
  moreover have "acksHeld ?g ?t"
    using safetyInvD(8)[OF inv] unfolding acksHeld_def by (simp del: fun_upd_apply) (meson mono)
  moreover have "networkOk ?g ?t" using grows_networkOk[OF gr safetyInvD(9)[OF inv]] by simp
  moreover have "historyOk ?g (csize ?t) (ids ?t)" using cast_history[OF inv fresh cl] by simp
  ultimately show ?thesis by (simp add: safetyInv_def)
qed

lemma electionTimeout_applying: "electionTimeout rf = Some (rf', reqs) \<Longrightarrow> applying rf' = applying rf"
  by (auto simp: electionTimeout_def changeState_def startElect_def bind_eq_Some_conv split: if_splits)

lemma last_term:
  assumes inv: "safetyInv g s" and e: "electionInv s" and i: "i \<in> ids s"
  shows "Term (last (fullLog g i)) = Term (last (Log (node s i)))" "Term (last (Log (node s i))) \<le> CurrentTerm (node s i)"
    "0 \<le> CurrentTerm (node s i)" "int (length (fullLog g i)) - 1 = lastIdx (Log (node s i))"
proof -
  note f = peer_facts[OF inv e i]
  show "Term (last (fullLog g i)) = Term (last (Log (node s i)))" using represents_last[OF f(7,6)] .
  have "last (Log (node s i)) \<in> set (Log (node s i))" using f(6) by simp
  then show "Term (last (Log (node s i))) \<le> CurrentTerm (node s i)" "0 \<le> CurrentTerm (node s i)"
    using f(6) unfolding wfLog_def by (blast, meson order_trans)
  show "int (length (fullLog g i)) - 1 = lastIdx (Log (node s i))" using represents_length(5)[OF f(7,6)] by simp
qed

lemma elect_safe:
  assumes inv: "safetyInv g s" and e: "electionInv s" and i: "i \<in> ids s" and nl: "state (node s i) \<noteq> LEADER"
    and el: "electionTimeout (node s i) = Some (rf, reqs)"
  shows "\<exists>g'. grows g g' \<and> safetyInv g' ((setNode s i rf)\<lparr>rvRequests := rvRequests s \<union> set reqs,
       voteCnt := (voteCnt s)((i, CurrentTerm rf) \<mapsto> 1), votes := insert (i, CurrentTerm rf, i) (votes s),
       counted := (counted s)((i, CurrentTerm rf) := {})\<rparr>)"
proof -
  note f = peer_facts[OF inv e i]
  note lt = last_term[OF inv e i]
  let ?u = "CurrentTerm (node s i) + 1"
  define cl where "cl = (candidateLog g)((i, ?u) := fullLog g i)"
  have r: "sound rf" "CurrentTerm rf = ?u" "state rf = CANDIDATE" "Log rf = Log (node s i)"
    "CommitIndex rf = CommitIndex (node s i)"
    and reqs: "reqs = map (\<lambda>peer. (peer, \<lparr>rvTerm = ?u, rvCandidateId = i, rvLastLogIndex = lastIdx (Log (node s i)),
        rvLastLogTerm = Term (last (Log (node s i)))\<rparr>)) (otherPeers (node s i))"
    using electionTimeout_cases[OF f(1) nl] el f(2) by auto
  have old: "w < ?u \<or> d \<noteq> i" if "(q, w, d) \<in> votes s" for q w d
    using safetyInvD(6)[OF inv] that by (fastforce simp: votesOk_def)
  have "(i, ?u, d) \<notin> votes s" for d using e by (fastforce simp: electionInv_def invVotes_def)
  moreover have "cl (d, w) = candidateLog g (d, w)" if "(q, w, d) \<in> votes s" for q w d
    using old[OF that] by (auto simp: cl_def)
  moreover have "candidateOk (cast g i ?u cl) ?u i"
    using f(8) lt by (simp add: candidateOk_def cl_def)
  moreover have "(q, a) \<in> rvRequests s \<or> (rvCandidateId a, rvTerm a, rvCandidateId a) = (i, ?u, i) \<and>
      rvLastLogTerm a = Term (last (cl (i, ?u))) \<and> rvLastLogIndex a = int (length (cl (i, ?u))) - 1"
    if "(q, a) \<in> rvRequests s \<union> set reqs" for q a
    using that lt by (auto simp: reqs cl_def)
  ultimately have "safetyInv (cast g i ?u cl) ((setNode s i rf)\<lparr>rvRequests := rvRequests s \<union> set reqs,
       voteCnt := (voteCnt s)((i, ?u) \<mapsto> 1), votes := insert (i, ?u, i) (votes s)\<rparr>)"
    using r nl electionTimeout_applying[OF el]
    by (intro cast_keeps[OF inv e i]) (auto simp: upToDate_def cl_def)
  then show ?thesis using cast_grows r(2) by (auto intro!: exI[of _ "cast g i ?u cl"])
qed

text \<open>What a vote request can make of a peer.\<close>

lemma RequestVote_cases:
  fixes rf :: "('c, 'b) Raft" and args :: RequestVoteArgs
  assumes so: "sound rf"
  defines "r1 \<equiv> (if CurrentTerm rf < rvTerm args
      then rf\<lparr>state := FOLLOWER, CurrentTerm := rvTerm args, VotedFor := -1\<rparr> else rf)"
  obtains (stale) "RequestVote rf args = Some (rf, \<lparr>rvrTerm = 0, rvrVoteGranted = False\<rparr>)"
  | (refused) "CurrentTerm rf \<le> rvTerm args"
      "RequestVote rf args = Some (persist r1, \<lparr>rvrTerm = CurrentTerm r1, rvrVoteGranted = False\<rparr>)"
  | (granted) "CurrentTerm rf \<le> rvTerm args"
      "CurrentTerm rf = rvTerm args \<longrightarrow> VotedFor rf = -1 \<or> VotedFor rf = rvCandidateId args"
      "Term (last (Log rf)) < rvLastLogTerm args \<or>
        rvLastLogTerm args = Term (last (Log rf)) \<and> lastIdx (Log rf) \<le> rvLastLogIndex args"
      "RequestVote rf args = Some (persist (r1\<lparr>VotedFor := rvCandidateId args\<rparr>),
        \<lparr>rvrTerm = CurrentTerm r1, rvrVoteGranted = True\<rparr>)"
proof -
  have wf: "wfRaft rf" using so by (simp add: sound_def)
  have L: "Log r1 = Log rf" "Log rf \<noteq> []" using wf by (simp_all add: r1_def)
  have i: "Index (last (Log rf)) = lastIdx (Log rf)" using wf wfLog_last by (auto simp: wfRaft_def)
  let ?stale = "rvTerm args < CurrentTerm rf \<or>
         (rvTerm args = CurrentTerm rf \<and> VotedFor rf \<noteq> -1 \<and> VotedFor rf \<noteq> rvCandidateId args)"
  have eq: "RequestVote rf args = do {
          upToDate \<leftarrow> isLogUpToDate r1 (rvLastLogTerm args) (rvLastLogIndex args);
          if \<not> upToDate
          then Some (persist r1, \<lparr>rvrTerm = CurrentTerm r1, rvrVoteGranted = False\<rparr>)
          else Some (persist (r1\<lparr>VotedFor := rvCandidateId args\<rparr>), \<lparr>rvrTerm = CurrentTerm r1, rvrVoteGranted = True\<rparr>) }"
    if "\<not> ?stale"
    unfolding RequestVote_def r1_def Let_def if_not_P[OF that] by (simp cong: if_cong)
  show thesis
  proof (cases ?stale)
    case True
    then show thesis using stale by (simp add: RequestVote_def)
  next
    case False
    let ?up = "Term (last (Log rf)) < rvLastLogTerm args \<or>
        rvLastLogTerm args = Term (last (Log rf)) \<and> lastIdx (Log rf) \<le> rvLastLogIndex args"
    have up: "isLogUpToDate r1 (rvLastLogTerm args) (rvLastLogIndex args) = Some ?up"
      using isLogUpToDate_Some[of r1] L i by simp
    show thesis
    proof (cases ?up)
      case True
      with eq[OF False] show thesis unfolding up using False by (intro granted) auto
    next
      case nup: False
      with eq[OF False] show thesis unfolding up using False by (intro refused) auto
    qed
  qed
qed

lemma one_vote: "electionInv s \<Longrightarrow> (p, u, d) \<in> votes s \<Longrightarrow> (p, u, c) \<in> votes s \<Longrightarrow> d = c"
  unfolding electionInv_def invVotes_def by blast

lemma votes_same: "V = votes s \<Longrightarrow> s\<lparr>votes := V\<rparr> = s"
  by simp

lemma reply_joins:
  "safetyInv g (s\<lparr>rvReplies := b, votes := V\<rparr>) = safetyInv g (s\<lparr>votes := V\<rparr>)"
  "safetyInv g (s\<lparr>rvReplies := b, voteCnt := v\<rparr>) = safetyInv g (s\<lparr>voteCnt := v\<rparr>)"
  by (simp_all add: safetyInv_def peerOk_def termsOk_def candidatesOk_def votesOk_def voteRequestsOk_def acksHeld_def)

lemma voteRequest_safe:
  assumes inv: "safetyInv g s" and e: "electionInv s" and a: "(p, args) \<in> rvRequests s" and p: "p \<in> ids s"
    and h: "RequestVote (node s p) args = Some (rf, reply)"
  shows "\<exists>g'. grows g g' \<and> safetyInv g' ((setNode s p rf)\<lparr>rvRequests := rvRequests s - {(p, args)},
       rvReplies := insert (p, args, reply) (rvReplies s),
       votes := (if rvrVoteGranted reply
                 then insert (p, rvTerm args, rvCandidateId args) (votes s) else votes s)\<rparr>)"
proof -
  note f = peer_facts[OF inv e p]
  let ?rf = "node s p" and ?u = "rvTerm args" and ?c = "rvCandidateId args"
  have q: "sound rf" using RequestVote_keeps[OF h] f(1) by (simp add: sound_def)
  have fewer: "rvRequests s - {(p, args)} \<subseteq> rvRequests (setNode s p rf)" by auto
  have calm: ?thesis if "safetyInv g (setNode s p rf)" "rvrVoteGranted reply \<longrightarrow> (p, ?u, ?c) \<in> votes s"
  proof -
    have "(if rvrVoteGranted reply then insert (p, ?u, ?c) (votes s) else votes s) = votes (setNode s p rf)"
      using that(2) by auto
    then show ?thesis using requests_fewer[OF that(1) fewer]
      by (intro exI[of _ g] conjI grows_refl, subst votes_same) simp_all
  qed
  show ?thesis
  proof (rule RequestVote_cases[OF f(1), of args])
    assume "RequestVote ?rf args = Some (?rf, \<lparr>rvrTerm = 0, rvrVoteGranted = False\<rparr>)"
    then have "rf = ?rf" "\<not> rvrVoteGranted reply" using h by auto
    then show ?thesis using inv by (intro calm) (simp_all add: setNode_def)
  next
    let ?r = "if CurrentTerm ?rf < ?u then ?rf\<lparr>state := FOLLOWER, CurrentTerm := ?u, VotedFor := -1\<rparr> else ?rf"
    assume "CurrentTerm ?rf \<le> ?u" "RequestVote ?rf args = Some (persist ?r, \<lparr>rvrTerm = CurrentTerm ?r, rvrVoteGranted = False\<rparr>)"
    then have r: "rf = persist ?r" "\<not> rvrVoteGranted reply" using h by auto
    have "safetyInv g (setNode s p rf)"
    proof (cases "CurrentTerm ?rf < ?u")
      case True
      then show ?thesis using newer_safe[OF inv e p True] r(1) by simp
    next
      case False
      then show ?thesis using local_setNode[OF inv e p q] f(13) r(1) by (auto simp: quiet_def applyingOk_def)
    qed
    then show ?thesis using r(2) by (intro calm) auto
  next
    let ?r = "if CurrentTerm ?rf < ?u then ?rf\<lparr>state := FOLLOWER, CurrentTerm := ?u, VotedFor := -1\<rparr> else ?rf"
    let ?n = "persist (?r\<lparr>VotedFor := ?c\<rparr>)"
    assume t: "CurrentTerm ?rf \<le> ?u" and vf: "CurrentTerm ?rf = ?u \<longrightarrow> VotedFor ?rf = -1 \<or> VotedFor ?rf = ?c"
      and ud: "Term (last (Log ?rf)) < rvLastLogTerm args \<or>
        rvLastLogTerm args = Term (last (Log ?rf)) \<and> lastIdx (Log ?rf) \<le> rvLastLogIndex args"
      and "RequestVote ?rf args = Some (?n, \<lparr>rvrTerm = CurrentTerm ?r, rvrVoteGranted = True\<rparr>)"
    then have r: "rf = ?n" "rvrVoteGranted reply" using h by auto
    have rf: "Log rf = Log ?rf" "CommitIndex rf = CommitIndex ?rf" "applying rf = applying ?rf" "CurrentTerm rf = ?u"
      "state rf = (if CurrentTerm ?rf < ?u then FOLLOWER else state ?rf)" "nextIndex rf = nextIndex ?rf"
      "matchIndex rf = matchIndex ?rf" "me rf = me ?rf" "peers rf = peers ?rf" "VotedFor rf = ?c"
      using t by (simp_all add: r(1))
    have ok: "requestOk s p args" using electionInvD(1)[OF e a] .
    have down: "CurrentTerm ?rf < ?u" if l: "state ?rf = LEADER"
    proof (rule ccontr)
      assume "\<not> CurrentTerm ?rf < ?u"
      then have "CurrentTerm ?rf = ?u" using t by simp
      moreover have "(p, CurrentTerm ?rf, p) \<in> votes s" using leader_own_vote[OF inv leader_facts(1)[OF inv p l]] .
      ultimately have "VotedFor ?rf = p" using e by (auto simp: electionInv_def invVotes_def)
      then show False using \<open>CurrentTerm ?rf = ?u\<close> vf ok f(4) by (auto simp: requestOk_def)
    qed
    have vreq: "(?c, ?u, ?c) \<in> votes s" "rvLastLogTerm args = Term (last (candidateLog g (?c, ?u)))"
      "rvLastLogIndex args = int (length (candidateLog g (?c, ?u))) - 1"
      using safetyInvD(7)[OF inv] a by (auto simp: voteRequestsOk_def electionKey_def)
    show ?thesis
    proof (cases "\<exists>d. (p, ?u, d) \<in> votes s")
      case True
      then obtain d where d: "(p, ?u, d) \<in> votes s" by blast
      have dc: "d = ?c" using one_vote[OF voteRequest_keeps[OF e a p h], of p ?u d ?c] d r(2) by simp
      have "?u \<le> CurrentTerm ?rf" "CurrentTerm ?rf = ?u \<longrightarrow> VotedFor ?rf = d"
        using e d unfolding electionInv_def invVotes_def by blast+
      then have "CurrentTerm ?rf = ?u" "VotedFor ?rf = d" using t by auto
      then have "safetyInv g (setNode s p rf)"
        using local_setNode[OF inv e p q] f(13) rf dc by (auto simp: quiet_def applyingOk_def)
      then show ?thesis using d dc by (intro calm) auto
    next
      case False
      let ?g = "cast g p ?u (candidateLog g)"
      have nov: "voteCnt s (p, ?u) \<noteq> None \<Longrightarrow> False" using e False unfolding electionInv_def invCount_def by (metis not_None_eq)
      have nl: "state rf \<noteq> LEADER" using rf(5) down by (auto split: if_splits)
      have fresh: "\<And>d. (p, ?u, d) \<notin> votes s" using False by blast
      have co: "candidateOk ?g ?u ?c" "?u \<le> CurrentTerm (((node s)(p := rf)) ?c)"
        using safetyInvD(6)[OF inv] vreq(1) rf(4) by (auto simp: votesOk_def candidateOk_def)
      have ud': "upToDate (fullLog g p) (candidateLog g (?c, ?u))"
        using ud vreq(2,3) last_term(1,4)[OF inv e p] by (auto simp: upToDate_def)
      have "safetyInv ?g ((setNode s p rf)\<lparr>rvRequests := rvRequests s - {(p, args)}, voteCnt := voteCnt s,
          votes := insert (p, ?u, ?c) (votes s)\<rparr>)"
        by (rule cast_keeps[OF inv e p t fresh q rf(4) nl rf(1-3) down refl co ud' refl]) auto
      then show ?thesis using r(2) cast_grows by (auto intro!: exI[of _ ?g] simp: reply_joins setNode_def)
    qed
  qed
qed

section \<open>A new leader\<close>

text \<open>Votes stay valid when the history grows by acknowledgements of one peer in its current term.\<close>

lemma votes_kept:
  assumes inv: "safetyInv g s" and e: "electionInv s" and gr: "grows g g'"
    and logs: "voterLog g' = voterLog g" "candidateLog g' = candidateLog g"
    and new: "\<And>q t k. (q, t, k) \<in> acks g' \<Longrightarrow> (q, t, k) \<in> acks g \<or> q = p \<and> CurrentTerm (node s p) \<le> t"
    and v: "(q, w, c) \<in> votes s" "voteOk g q w c"
  shows "voteOk g' q w c"
proof -
  have "w \<le> CurrentTerm (node s q)" using e v(1) by (auto simp: electionInv_def invVotes_def)
  moreover have "acksOk g (ids s)" using safetyInvD(1)[OF inv] by (simp add: historyOk_def)
  ultimately show ?thesis using new logs by (intro grows_voteOk[OF gr _ _ _ _ v(2)]) fastforce+
qed

lemma elected_kept:
  assumes inv: "safetyInv g s" and l: "leaderOf g w = Some c" and gr: "grows g g'"
    and same: "candidateLog g' = candidateLog g" "electors g' w = electors g w"
    and ext: "\<And>k. length (termLog g w) \<le> k \<Longrightarrow> k < length (termLog g' w) \<Longrightarrow> Term (termLog g' w ! k) = w"
    and vk: "\<And>q. (q, w, c) \<in> votes s \<Longrightarrow> voteOk g q w c \<Longrightarrow> voteOk g' q w c"
  shows "electedOk g' (csize s) (ids s) w c"
proof -
  have el: "electedOk g (csize s) (ids s) w c" using electedOkD[OF safetyInvD(1)[OF inv] l] .
  have v: "\<forall>q \<in> electors g w. (q, w, c) \<in> votes s" using safetyInvD(4)[OF inv] l by (auto simp: termsOk_def)
  have i: "initial (termLog g w) (termLog g' w)" using gr by (simp add: grows_def)
  have "Term (termLog g' w ! k) = w" if "length (candidateLog g (c, w)) \<le> k" "k < length (termLog g' w)" for k
    using that el i ext[of k] by (cases "k < length (termLog g w)") (auto simp: electedOk_def initial_def)
  then show ?thesis
    using el v vk same i grows_candidateOk[OF gr] by (auto simp: electedOk_def intro: initial_trans)
qed

definition crown :: "'c History \<Rightarrow> int \<Rightarrow> int \<Rightarrow> int set \<Rightarrow> 'c History" where
  "crown g c u Q = g\<lparr>leaderOf := (leaderOf g)(u := Some c), termLog := (termLog g)(u := fullLog g c),
     electors := (electors g)(u := Q), acks := acks g \<union> {(c, u, k) | k. k < length (fullLog g c)}\<rparr>"

lemma crown_simps [simp]:
  "leaderOf (crown g c u Q) = (leaderOf g)(u := Some c)" "termLog (crown g c u Q) = (termLog g)(u := fullLog g c)"
  "electors (crown g c u Q) = (electors g)(u := Q)" "voterLog (crown g c u Q) = voterLog g"
  "candidateLog (crown g c u Q) = candidateLog g" "fullLog (crown g c u Q) = fullLog g"
  "acks (crown g c u Q) = acks g \<union> {(c, u, k) | k. k < length (fullLog g c)}"
  by (simp_all add: crown_def)

lemma crown_grows:
  assumes "leaderOf g u = None" "termLog g u = []"
  shows "grows g (crown g c u Q)"
  unfolding grows_def using assms by (auto simp: misses_def)

lemma crown_canonOk:
  assumes c: "canonOk C" and u: "C u = []" "0 < u" and l: "canonical C l" "Term (last l) < u"
  shows "canonOk (C(u := l))"
  unfolding canonOk_def
proof (intro conjI allI impI)
  let ?D = "C(u := l)"
  show "?D 0 = [origin]" using c u by (simp add: canonOk_def)
  show "?D t ! 0 = origin" if "?D t \<noteq> []" for t
    using that c canonical_origin[OF c l(1)] by (cases "t = u") (auto simp: canonOk_def)
  fix t k assume k: "k < length (?D t)"
  have other: "Term (?D t ! k) \<noteq> u \<and> agree k (C (Term (?D t ! k))) (?D t)"
  proof (cases "t = u")
    case True
    then have "k < length l" using k by simp
    then show ?thesis using canonical_nth(1,4)[OF c l(1), of k] l(2) True by (auto intro: agree_sym)
  next
    case False
    then have "agree k (C (Term (C t ! k))) (C t)" using canonOkD(4)[OF c, of k t] k by simp
    then show ?thesis using False u(1) by (auto simp: agree_def)
  qed
  then show "agree k (?D (Term (?D t ! k))) (?D t)" by (simp del: fun_upd_apply add: fun_upd_other)
  show "Index (?D t ! k) = int k" "0 \<le> Term (?D t ! k)" "Term (?D t ! k) \<le> t"
    using canonOkD(1-3)[OF c, of k t] canonical_nth(2-4)[OF c l(1), of k] l(2) k by (cases "t = u"; simp)+
  show "Term (?D t ! j) \<le> Term (?D t ! k)" if "j \<le> k" for j
    using canonOkD(5)[OF c, of k t j] canonical_nth(5)[OF c l(1), of k j] k that by (cases "t = u") simp_all
qed

lemma no_leader_yet:
  assumes inv: "safetyInv g s" and e: "electionInv s" and c: "c \<in> ids s" "state (node s c) \<noteq> LEADER"
    and v: "voteCnt s (c, CurrentTerm (node s c)) \<noteq> None"
    and m: "csize s div 2 < card (voters s (CurrentTerm (node s c)) c)"
  shows "leaderOf g (CurrentTerm (node s c)) = None"
proof (rule ccontr)
  let ?u = "CurrentTerm (node s c)"
  assume "leaderOf g ?u \<noteq> None"
  then obtain d where d: "leaderOf g ?u = Some d" by blast
  have el: "electors g ?u \<subseteq> ids s" "csize s div 2 < card (electors g ?u)"
    using electedOkD[OF safetyInvD(1)[OF inv] d] by (auto simp: electedOk_def)
  then obtain q where q: "q \<in> electors g ?u" "q \<in> voters s ?u c"
    using m majorities_meet[of "ids s" "electors g ?u" "voters s ?u c"] by (auto simp: voters_def)
  have "(q, ?u, d) \<in> votes s" using safetyInvD(4)[OF inv] d q(1) by (auto simp: termsOk_def)
  moreover have "(q, ?u, c) \<in> votes s" using q(2) by (simp add: voters_def)
  ultimately have "d = c" by (rule one_vote[OF e])
  then show False using safetyInvD(4)[OF inv] d c v by (auto simp: termsOk_def)
qed

lemma crown_history:
  assumes inv: "safetyInv g s" and e: "electionInv s" and c: "c \<in> ids s" and u: "u = CurrentTerm (node s c)"
    and no: "leaderOf g u = None" and l: "fullLog g c = candidateLog g (c, u)"
    and m: "csize s div 2 < card (voters s u c)" and own: "(c, u, c) \<in> votes s"
  shows "historyOk (crown g c u (voters s u c)) (csize s) (ids s)" "grows g (crown g c u (voters s u c))"
    and "\<And>q w d. (q, w, d) \<in> votes s \<Longrightarrow> voteOk g q w d \<Longrightarrow> voteOk (crown g c u (voters s u c)) q w d"
proof -
  let ?g = "crown g c u (voters s u c)"
  have h: "historyOk g (csize s) (ids s)" using safetyInvD(1)[OF inv] .
  have cand: "candidateOk g u c" using safetyInvD(6)[OF inv] own by (auto simp: votesOk_def)
  then have co: "0 < u" "canonical (termLog g) (fullLog g c)" "Term (last (fullLog g c)) < u"
    by (simp_all add: candidateOk_def l)
  have empty: "termLog g u = []" using h no co(1) by (auto simp: historyOk_def)
  have noack: "(q, u, k) \<notin> acks g" for q k using h no unfolding historyOk_def acksOk_def by blast
  show gr: "grows g ?g" using crown_grows[OF no empty] .
  show vk: "voteOk ?g q w d" if "(q, w, d) \<in> votes s" "voteOk g q w d" for q w d
    by (rule votes_kept[OF inv e gr _ _ _ that, where p = c]) (auto simp: u)
  have "electedOk ?g (csize s) (ids s) u c"
  proof -
    have "voteOk ?g q u c" if "q \<in> voters s u c" for q
      using that safetyInvD(6)[OF inv] no by (intro vk) (auto simp: voters_def votesOk_def)
    moreover have "c \<in> voters s u c" using own c by (simp add: voters_def)
    moreover have "candidateOk ?g u c" using grows_candidateOk[OF gr _ cand] by simp
    ultimately show ?thesis using m by (auto simp: electedOk_def l voters_def)
  qed
  moreover have "electedOk ?g (csize s) (ids s) w d" if "leaderOf g w = Some d" for w d
  proof -
    have "w \<noteq> u" using that no by auto
    then show ?thesis using vk by (intro elected_kept[OF inv that gr]) auto
  qed
  moreover have "acksOk ?g (ids s)" using h c noack by (auto simp: historyOk_def acksOk_def)
  moreover have "canonOk (termLog ?g)" using crown_canonOk[OF safetyInvD(10)[OF inv] empty co] by simp
  ultimately show "historyOk ?g (csize s) (ids s)" using h by (auto simp: historyOk_def)
qed

lemma crown_keeps:
  assumes inv: "safetyInv g s" and e: "electionInv s" and c: "c \<in> ids s" and u: "u = CurrentTerm (node s c)"
    and nl: "state (node s c) \<noteq> LEADER" and cnt: "voteCnt s (c, u) \<noteq> None" and m: "csize s div 2 < card (voters s u c)"
    and rf: "sound rf" "CurrentTerm rf = u" "Log rf = Log (node s c)" "CommitIndex rf = CommitIndex (node s c)"
      "applying rf = applying (node s c)" "state rf = LEADER"
    and tab: "tablesOk (crown g c u (voters s u c)) rf" and v: "\<And>k. v k \<noteq> None \<Longrightarrow> voteCnt s k \<noteq> None"
  shows "grows g (crown g c u (voters s u c))"
    "safetyInv (crown g c u (voters s u c)) ((setNode s c rf)\<lparr>voteCnt := v\<rparr>)" (is "safetyInv ?g ?t")
proof -
  have no: "leaderOf g u = None" using no_leader_yet[OF inv e c nl] cnt m u by simp
  have l: "fullLog g c = candidateLog g (c, u)" using safetyInvD(5)[OF inv] cnt no u by (auto simp: candidatesOk_def)
  have own: "(c, u, c) \<in> votes s" using e cnt by (auto simp: electionInv_def invCount_def)
  note ch = crown_history[OF inv e c u no l m own]
  show gr: "grows g ?g" using ch(2) .
  note f = peer_facts[OF inv e c]
  have len: "k < length (termLog g t)" if "(q, t, k) \<in> acks g" for q t k
    using that safetyInvD(1)[OF inv] by (auto simp: historyOk_def acksOk_def)
  have "peerOk ?g ?t j" if j: "j \<in> ids s" for j
  proof (cases "j = c")
    case True
    have "logHeld g (csize s) (ids s) (fullLog g c) rf" using logHeld_frame[OF f(12) rf(3,4)] rf(2) u by simp
    moreover have "applyingOk g (csize s) (ids s) (fullLog g c) rf" using applyingOk_frame[OF f(13) rf(5)] rf(2) u by simp
    ultimately show ?thesis using True rf(1,2) f(14)[folded u] unfolding peerOk_def
      by (simp add: grows_logHeld[OF gr] grows_applyingOk[OF gr] grows_deliveredOk[OF gr])
  next
    case False
    then show ?thesis using safetyInvD(2)[OF inv j] unfolding peerOk_def
      by (simp add: grows_logHeld[OF gr] grows_applyingOk[OF gr] grows_deliveredOk[OF gr])
  qed
  moreover have "leadOk ?g j (node ?t j)" if j: "j \<in> ids s" for j
  proof (cases "j = c")
    case True
    then show ?thesis using rf(2,6) tab by (simp add: leadOk_def)
  next
    case False
    have "CurrentTerm (node s j) \<noteq> u" if "state (node s j) = LEADER"
      using leader_facts(1)[OF inv j that] no by auto
    then show ?thesis using safetyInvD(3)[OF inv j] False grows_tablesOk[OF gr] by (auto simp: leadOk_def)
  qed
  moreover have "termsOk ?g ?t"
    unfolding termsOk_def
  proof (intro allI impI)
    fix w d assume ld: "leaderOf ?g w = Some d"
    show "d \<in> ids ?t \<and> w \<le> CurrentTerm (node ?t d) \<and>
        (w = CurrentTerm (node ?t d) \<and> state (node ?t d) \<noteq> LEADER \<longrightarrow> voteCnt ?t (d, w) = None) \<and>
        (\<forall>q \<in> electors ?g w. (q, w, d) \<in> votes ?t)"
    proof (cases "w = u")
      case True
      then show ?thesis using ld c rf by (auto simp: voters_def)
    next
      case False
      then have "leaderOf g w = Some d" using ld by simp
      then have old: "d \<in> ids s" "w \<le> CurrentTerm (node s d)"
        "w = CurrentTerm (node s d) \<and> state (node s d) \<noteq> LEADER \<longrightarrow> voteCnt s (d, w) = None"
        "\<forall>q \<in> electors g w. (q, w, d) \<in> votes s"
        using safetyInvD(4)[OF inv] by (auto simp: termsOk_def)
      have "voteCnt s k = None \<Longrightarrow> v k = None" for k using v by blast
      then show ?thesis using old rf(2) u False by (cases "d = c") auto
    qed
  qed
  moreover have "candidatesOk ?g ?t"
    unfolding candidatesOk_def
  proof (intro allI impI)
    fix d w assume a: "voteCnt ?t (d, w) \<noteq> None \<and> w = CurrentTerm (node ?t d) \<and> leaderOf ?g w = None"
    then have wu: "w \<noteq> u" "leaderOf g w = None" by (auto split: if_splits)
    have "d \<noteq> c" using a wu(1) rf(2) by auto
    moreover have "voteCnt s (d, w) \<noteq> None" using conjunct1[OF a] by (intro v) simp
    ultimately show "fullLog ?g d = candidateLog ?g (d, w)"
      using a wu(2) safetyInvD(5)[OF inv] by (auto simp: candidatesOk_def)
  qed
  moreover have "votesOk ?g ?t"
    unfolding votesOk_def
  proof (intro allI impI)
    fix q w d assume "(q, w, d) \<in> votes ?t"
    then have a: "(q, w, d) \<in> votes s" by simp
    then have o: "candidateOk g w d" "w \<le> CurrentTerm (node s d)" "leaderOf g w = None \<longrightarrow> voteOk g q w d"
      using safetyInvD(6)[OF inv] by (auto simp: votesOk_def)
    then show "candidateOk ?g w d \<and> w \<le> CurrentTerm (node ?t d) \<and> (leaderOf ?g w = None \<longrightarrow> voteOk ?g q w d)"
      using ch(3)[OF a] grows_candidateOk[OF gr _ o(1)] rf(2) u by auto
  qed
  moreover have "voteRequestsOk ?g ?t" using safetyInvD(7)[OF inv] by (simp add: voteRequestsOk_def)
  moreover have "acksHeld ?g ?t"
    unfolding acksHeld_def
  proof (intro allI impI)
    fix q t k assume a: "(q, t, k) \<in> acks ?g"
    have same: "CurrentTerm (node ?t q) = CurrentTerm (node s q)" using rf(2) u by simp
    show "t \<le> CurrentTerm (node ?t q) \<and> (agree k (fullLog ?g q) (termLog ?g t) \<or> (\<exists>w \<le> CurrentTerm (node ?t q). misses ?g w t k))"
    proof (cases "(q, t, k) \<in> acks g")
      case True
      then have "t \<le> CurrentTerm (node s q)" "agree k (fullLog g q) (termLog g t) \<or> (\<exists>w \<le> CurrentTerm (node s q). misses g w t k)"
        using safetyInvD(8)[OF inv] by (auto simp: acksHeld_def)
      moreover have "misses g w t k \<Longrightarrow> misses ?g w t k" for w using gr len[OF True] unfolding grows_def by blast
      ultimately show ?thesis using grows_agree[OF gr] unfolding same by (simp only: crown_simps) blast
    next
      case False
      then show ?thesis using a same u by (auto simp: agree_refl)
    qed
  qed
  moreover have "networkOk ?g ?t" using grows_networkOk[OF gr safetyInvD(9)[OF inv]] by simp
  moreover have "historyOk ?g (csize ?t) (ids ?t)" using ch(1) by simp
  ultimately show "safetyInv ?g ?t" by (simp add: safetyInv_def)
qed

lemma counters_safe:
  assumes inv: "safetyInv g s" and v: "\<And>k. v k \<noteq> None \<Longrightarrow> voteCnt s k \<noteq> None"
  shows "safetyInv g (s\<lparr>voteCnt := v\<rparr>)"
proof -
  have vn: "voteCnt s k = None \<Longrightarrow> v k = None" for k using v by blast
  have "termsOk g (s\<lparr>voteCnt := v\<rparr>)" using safetyInvD(4)[OF inv] vn by (simp add: termsOk_def)
  moreover have "candidatesOk g (s\<lparr>voteCnt := v\<rparr>)"
    using safetyInvD(5)[OF inv] v unfolding candidatesOk_def by simp
  ultimately show ?thesis using inv
    by (simp add: safetyInv_def peerOk_def votesOk_def voteRequestsOk_def acksHeld_def)
qed

lemma win_tables:
  assumes so: "sound rf" and l: "represents (Log rf) (fullLog g (me rf))"
    and ch: "changeState rf LEADER = Some rf'"
  shows "sound rf'" "CurrentTerm rf' = CurrentTerm rf" "Log rf' = Log rf" "CommitIndex rf' = CommitIndex rf"
    "applying rf' = applying rf" "state rf' = LEADER" "tablesOk (crown g (me rf) (CurrentTerm rf) Q) rf'"
proof -
  have wf: "wfRaft rf" using so by (simp add: sound_def)
  obtain ni mi where r: "rf' = rf\<lparr>state := LEADER, nextIndex := ni, matchIndex := mi\<rparr>"
    and len: "length ni = peers rf" "length mi = peers rf"
    and tab: "\<forall>j < peers rf. (int j \<noteq> me rf \<longrightarrow> ni ! j = lastIdx (Log rf) + 1 \<and> mi ! j = 0) \<and>
      (int j = me rf \<longrightarrow> mi ! j = lastIdx (Log rf))"
    using changeState_LEADER[OF wf] ch by auto
  show "sound rf'" unfolding r by (rule sound_frame[OF so]) (simp_all add: len)
  show "CurrentTerm rf' = CurrentTerm rf" "Log rf' = Log rf" "CommitIndex rf' = CommitIndex rf"
    "applying rf' = applying rf" "state rf' = LEADER" by (simp_all add: r)
  have "wfLog (Log rf) (CurrentTerm rf)" using wf by (simp add: wfRaft_def)
  then have "nat (lastIdx (Log rf)) < length (fullLog g (me rf))" using represents_length(1)[OF l] by blast
  then show "tablesOk (crown g (me rf) (CurrentTerm rf) Q) rf'" using tab by (auto simp: tablesOk_def r)
qed

lemma voteReply_safe:
  assumes inv: "safetyInv g s" and e: "electionInv s" and a: "(p, args, reply) \<in> rvReplies s"
    and c: "c = rvCandidateId args" "c \<in> ids s" and cnt: "voteCnt s (electionKey args) = Some cnt"
    and h: "handleRequestVoteReply (node s c) cnt reply = Some (rf, cnt', hb)"
  shows "\<exists>g'. grows g g' \<and> safetyInv g' ((setNode s c rf)\<lparr>rvReplies := R,
       voteCnt := (voteCnt s)(electionKey args \<mapsto> cnt'), counted := C\<rparr>)"
proof -
  note f = peer_facts[OF inv e c(2)]
  let ?rf = "node s c" and ?v = "(voteCnt s)(electionKey args \<mapsto> cnt')"
  let ?u = "CurrentTerm ?rf"
  have v: "?v k \<noteq> None \<Longrightarrow> voteCnt s k \<noteq> None" for k using cnt by (auto split: if_splits)
  have join: "\<exists>g'. grows g g' \<and> safetyInv g' ((setNode s c rf)\<lparr>rvReplies := R, voteCnt := ?v, counted := C\<rparr>)"
    if "grows g g'" "safetyInv g' ((setNode s c rf)\<lparr>voteCnt := ?v\<rparr>)" for g'
    using that by (intro exI[of _ g']) (simp add: reply_joins)
  have calm: ?thesis if "safetyInv g (setNode s c rf)"
    using join[OF grows_refl counters_safe[OF that]] v by simp
  consider (newer) "rvrTerm reply > ?u"
    | (win) "rvrTerm reply = ?u" "rvrVoteGranted reply" "cnt + 1 > int (peers ?rf div 2)" "state ?rf \<noteq> LEADER"
    | (count) "rvrTerm reply = ?u" "rvrVoteGranted reply" "\<not> (cnt + 1 > int (peers ?rf div 2) \<and> state ?rf \<noteq> LEADER)"
    | (ignore) "rvrTerm reply \<le> ?u" "rvrTerm reply = ?u \<longrightarrow> \<not> rvrVoteGranted reply" by fastforce
  then show ?thesis
  proof cases
    case newer
    then have "rf = persist (?rf\<lparr>state := FOLLOWER, CurrentTerm := rvrTerm reply, VotedFor := -1\<rparr>)"
      using h by (simp add: handleRequestVoteReply_def changeState_def)
    then show ?thesis using newer_safe[OF inv e c(2) newer] by (intro calm) simp
  next
    case win
    have key: "electionKey args = (c, ?u)"
      using electionInvD(2)[OF e a] win(1,2) c(1) by (simp add: replyOk_def electionKey_def)
    have ch: "changeState ?rf LEADER = Some rf" "cnt' = cnt + 1"
      using h win by (auto simp: handleRequestVoteReply_def bind_eq_Some_conv)
    have "electionInv ((setNode s c rf)\<lparr>rvReplies := rvReplies s - {(p, args, reply)}, voteCnt := ?v,
       counted := (if rvrTerm reply = CurrentTerm ?rf \<and> rvrVoteGranted reply
                   then (counted s)(electionKey args := insert p (counted s (electionKey args))) else counted s)\<rparr>)"
      using voteReply_keeps[OF e a c cnt h] .
    moreover note w = win_tables[OF f(1) _ ch(1), of g, unfolded f(2), OF f(7)]
    ultimately have m: "csize s div 2 < card (voters s ?u c)"
      using c(2) by (auto simp: electionInv_def invLeader_def voters_def)
    note k = crown_keeps[OF inv e c(2) refl win(4) _ m w, of ?v]
    show ?thesis using k v cnt key by (intro join) auto
  next
    case count
    then have "rf = ?rf" using handleRequestVoteReply_count[OF count] h by simp
    then show ?thesis using inv by (intro calm) (simp add: setNode_def)
  next
    case ignore
    then have "rf = ?rf" using handleRequestVoteReply_ignore[OF ignore] h by simp
    then show ?thesis using inv by (intro calm) (simp add: setNode_def)
  qed
qed

end
