(* ===== verification/RaftSafetyStart.thy ===== *)
theory RaftSafetyStart
  imports RaftSafetyElect
begin

text \<open>
  A client's command: the leader appends an entry of its term, the log of that term grows by it.  With it
  every step of the cluster is covered, and every reachable state fits a history.
\<close>

section \<open>A new entry\<close>

definition propose :: "'c History \<Rightarrow> int \<Rightarrow> int \<Rightarrow> 'c LogEntry \<Rightarrow> 'c History" where
  "propose g i u e = g\<lparr>termLog := (termLog g)(u := termLog g u @ [e]), fullLog := (fullLog g)(i := fullLog g i @ [e]),
     acks := acks g \<union> {(i, u, k) | k. k \<le> length (fullLog g i)}\<rparr>"

lemma propose_simps [simp]:
  "leaderOf (propose g i u e) = leaderOf g" "termLog (propose g i u e) = (termLog g)(u := termLog g u @ [e])"
  "electors (propose g i u e) = electors g" "voterLog (propose g i u e) = voterLog g"
  "candidateLog (propose g i u e) = candidateLog g" "fullLog (propose g i u e) = (fullLog g)(i := fullLog g i @ [e])"
  "acks (propose g i u e) = acks g \<union> {(i, u, k) | k. k \<le> length (fullLog g i)}"
  by (simp_all add: propose_def)

lemma agree_snoc:
  "k < length b \<Longrightarrow> agree k a (b @ [e]) = agree k a b" "k < length b \<Longrightarrow> agree k (b @ [e]) a = agree k b a"
  by (auto simp: agree_def nth_append)

text \<open>The new entry has the term of its leader, so an entry a later leader missed is still missing.\<close>

lemma propose_grows:
  assumes C: "canonOk (termLog g)" and e: "Term e = u"
  shows "grows g (propose g i u e)"
proof -
  have "misses (propose g i u e) v t k" if m: "misses g v t k" "k < length (termLog g t)" for v t k
  proof -
    have tv: "t < v" "leaderOf g v \<noteq> None" "\<not> agree k (termLog g v) (termLog g t)" using m(1) by (auto simp: misses_def)
    have "\<not> agree k (termLog (propose g i u e) v) (termLog (propose g i u e) t)"
    proof
      assume a: "agree k (termLog (propose g i u e) v) (termLog (propose g i u e) t)"
      show False
      proof (cases "v = u")
        case True
        then have b: "agree k (termLog g v @ [e]) (termLog g t)" using a tv(1) by simp
        show False
        proof (cases "k < length (termLog g v)")
          case True
          then show False using b tv(3) by (simp add: agree_snoc)
        next
          case False
          then have "k = length (termLog g v)" using b by (auto simp: agree_def)
          then have "termLog g t ! k = e" using b by (auto simp: agree_def)
          then show False using canonOkD(3)[OF C m(2)] e True tv(1) by simp
        qed
      next
        case False
        then show False using a tv(3) m(2) by (cases "t = u") (simp_all add: agree_snoc)
      qed
    qed
    then show ?thesis using tv by (simp add: misses_def)
  qed
  then show ?thesis by (auto simp: grows_def)
qed

lemma propose_canonOk:
  assumes c: "canonOk C" and u: "0 < u" "C u \<noteq> []" and e: "Term e = u" "Index e = int (length (C u))"
  shows "canonOk (C(u := C u @ [e]))"
  unfolding canonOk_def
proof (intro conjI allI impI)
  let ?D = "C(u := C u @ [e])"
  have ext: "initial (C t) (?D t)" for t by simp
  show "?D 0 = [origin]" using c u by (simp add: canonOk_def)
  show "?D t ! 0 = origin" if "?D t \<noteq> []" for t
    using that c u(2) by (cases "t = u") (auto simp: canonOk_def nth_append)
  fix t k assume k: "k < length (?D t)"
  have all: "Index (?D t ! k) = int k \<and> 0 \<le> Term (?D t ! k) \<and> Term (?D t ! k) \<le> t \<and>
      agree k (?D (Term (?D t ! k))) (?D t) \<and> (\<forall>j \<le> k. Term (?D t ! j) \<le> Term (?D t ! k))"
  proof (cases "k < length (C t)")
    case True
    note d = canonOkD[OF c True]
    have same: "?D t ! j = C t ! j" if "j \<le> k" for j using ext[of t] that True by (simp add: initial_def del: fun_upd_apply)
    have "agree k (?D (Term (C t ! k))) (?D t)"
      using agree_initial[OF agree_sym[OF agree_initial[OF d(4) ext]] ext] agree_sym by blast
    then show ?thesis using d same by (simp del: fun_upd_apply)
  next
    case False
    then have tu: "t = u" "k = length (C u)" using k by (auto split: if_splits)
    have "Term (C u ! j) \<le> u" if "j < length (C u)" for j using canonOkD(3)[OF c that] .
    then show ?thesis using e u(1) tu by (auto simp: nth_append agree_refl)
  qed
  show "Index (?D t ! k) = int k" "0 \<le> Term (?D t ! k)" "Term (?D t ! k) \<le> t"
    "agree k (?D (Term (?D t ! k))) (?D t)" "\<And>j. j \<le> k \<Longrightarrow> Term (?D t ! j) \<le> Term (?D t ! k)"
    using all by (simp_all del: fun_upd_apply)
qed

lemma propose_history:
  assumes inv: "safetyInv g s" and el: "electionInv s" and i: "i \<in> ids s" and u: "u = CurrentTerm (node s i)"
    and l: "leaderOf g u = Some i" "termLog g u = fullLog g i" and e: "Term e = u" "Index e = int (length (fullLog g i))"
  shows "historyOk (propose g i u e) (csize s) (ids s)" "grows g (propose g i u e)"
    and "\<And>q w d. (q, w, d) \<in> votes s \<Longrightarrow> voteOk g q w d \<Longrightarrow> voteOk (propose g i u e) q w d"
proof -
  let ?g = "propose g i u e"
  have h: "historyOk g (csize s) (ids s)" using safetyInvD(1)[OF inv] .
  note C = safetyInvD(10)[OF inv]
  have ne: "fullLog g i \<noteq> []" using peer_facts(8)[OF inv el i] by (simp add: canonical_def)
  have u0: "0 < u" using electedOkD[OF h l(1)] by (simp add: electedOk_def candidateOk_def)
  show gr: "grows g ?g" using propose_grows[OF C e(1)] .
  show vk: "voteOk ?g q w d" if "(q, w, d) \<in> votes s" "voteOk g q w d" for q w d
    by (rule votes_kept[OF inv el gr _ _ _ that, where p = i]) (auto simp: u)
  have "electedOk ?g (csize s) (ids s) w d" if "leaderOf g w = Some d" for w d
    using vk e(1) by (intro elected_kept[OF inv that gr]) (auto simp: nth_append split: if_splits)
  moreover have "acksOk ?g (ids s)"
  proof -
    have old: "n \<le> length (fullLog g i)" if "(q, u, n) \<in> acks g" for q n
      using h that l(2) unfolding historyOk_def acksOk_def by (metis less_imp_le)
    then show ?thesis using h i l unfolding historyOk_def acksOk_def by (auto simp: less_Suc_eq_le)
  qed
  moreover have "canonOk (termLog ?g)" using propose_canonOk[OF C u0, of e] ne e l(2) by simp
  ultimately show "historyOk ?g (csize s) (ids s)" using h l(1) by (auto simp: historyOk_def)
qed

lemma propose_keeps:
  assumes inv: "safetyInv g s" and el: "electionInv s" and i: "i \<in> ids s" and u: "u = CurrentTerm (node s i)"
    and st: "state (node s i) = LEADER" and e: "Term e = u" "Index e = lastIdx (Log (node s i)) + 1"
    and rf: "sound rf" "CurrentTerm rf = u" "Log rf = Log (node s i) @ [e]" "CommitIndex rf = CommitIndex (node s i)"
      "applying rf = applying (node s i)" "state rf = LEADER" "me rf = i" "peers rf = peers (node s i)"
      "nextIndex rf = nextIndex (node s i)" "matchIndex rf = (matchIndex (node s i))[nat i := Index e]"
  shows "grows g (propose g i u e)" "safetyInv (propose g i u e) (setNode s i rf)" (is "safetyInv ?g ?t")
proof -
  note f = peer_facts[OF inv el i]
  note lf = leader_facts[OF inv i st, folded u]
  let ?l = "fullLog g i"
  have len: "Index e = int (length ?l)" using e(2) represents_length(5)[OF f(7,6)] by simp
  note ph = propose_history[OF inv el i u lf(1,2) e(1) len]
  show gr: "grows g ?g" using ph(2) .
  have lens: "k < length (termLog g t)" if "(q, t, k) \<in> acks g" for q t k
    using that safetyInvD(1)[OF inv] by (auto simp: historyOk_def acksOk_def)
  have cm: "committed ?g (csize s) (ids s) T (?l @ [e]) k" if c: "committed g (csize s) (ids s) T ?l k" for T k
  proof -
    have k: "k < length ?l" using c by (simp add: committed_def)
    show ?thesis by (rule committed_agree[OF grows_committed[OF gr _ c] initial_agree[OF initial_refl(2) k]]) simp
  qed
  have tk: "taken ?g (csize s) (ids s) T (?l @ [e]) x" if x: "taken g (csize s) (ids s) T ?l x" for T x
  proof -
    have "nat (Index x) < length ?l" using x by (simp add: taken_def committed_def)
    then show ?thesis using x cm by (simp add: taken_def nth_append)
  qed
  have first: "firstIdx (Log rf) = firstIdx (Log (node s i))" using f(6) by (simp add: rf(3) firstIdx_append)
  have can: "canonical (termLog ?g) (?l @ [e])" using e(1) lf(2) by (simp add: canonical_def)
  have "peerOk ?g ?t j" if j: "j \<in> ids s" for j
  proof (cases "j = i")
    case True
    have "logHeld ?g (csize s) (ids s) (?l @ [e]) rf"
      using represents_snoc[OF f(7,6) e(2)] can cm f(9-11) first rf(2-4) u by (simp add: logHeld_def)
    moreover have "applyingOk ?g (csize s) (ids s) (?l @ [e]) rf"
      using f(13) tk rf(2,5) u by (auto simp: applyingOk_def)
    moreover have "deliveredOk ?g (csize s) (ids s) u (?l @ [e]) (delivered s i)"
      using f(14)[folded u] tk unfolding deliveredOk_def by blast
    ultimately show ?thesis using True rf(1,2) unfolding peerOk_def by simp
  next
    case False
    then show ?thesis using safetyInvD(2)[OF inv j] unfolding peerOk_def
      by (simp add: grows_logHeld[OF gr] grows_applyingOk[OF gr] grows_deliveredOk[OF gr])
  qed
  moreover have "leadOk ?g j (node ?t j)" if j: "j \<in> ids s" for j
  proof (cases "j = i")
    case True
    have "tablesOk ?g rf"
      unfolding tablesOk_def
    proof (intro allI impI)
      fix p assume p: "p < peers rf"
      have last: "lastIdx (Log rf) = lastIdx (Log (node s i)) + 1" by (simp add: rf(3) lastIdx_def first[unfolded rf(3)])
      have "length (matchIndex (node s i)) = peers rf" using sound_tables[OF f(1)] rf(8) by simp
      then have mi: "matchIndex rf ! p = (if int p = i then Index e else matchIndex (node s i) ! p)"
        using p f(4) by (auto simp: rf(10) nth_list_update)
      have old: "(int p \<noteq> i \<longrightarrow> nextIndex rf ! p \<le> lastIdx (Log (node s i)) + 1) \<and>
          (matchIndex (node s i) ! p \<le> 0 \<or> (int p, u, nat (matchIndex (node s i) ! p)) \<in> acks g)"
        using lf(3) p rf(8,9) f(2) unfolding tablesOk_def u by simp
      show "(int p \<noteq> me rf \<longrightarrow> nextIndex rf ! p \<le> lastIdx (Log rf) + 1) \<and>
          (matchIndex rf ! p \<le> 0 \<or> (int p, CurrentTerm rf, nat (matchIndex rf ! p)) \<in> acks ?g)"
        unfolding mi rf(2,7) last using old len by auto
    qed
    then show ?thesis using True rf(2,6) lf by (simp add: leadOk_def)
  next
    case False
    have "CurrentTerm (node s j) \<noteq> u" if "state (node s j) = LEADER"
      using leader_facts(1)[OF inv j that] lf(1) False by auto
    then show ?thesis using safetyInvD(3)[OF inv j] False grows_tablesOk[OF gr] by (auto simp: leadOk_def)
  qed
  moreover have "termsOk ?g ?t" using safetyInvD(4)[OF inv] rf(2,6) u by (auto simp: termsOk_def)
  moreover have "candidatesOk ?g ?t"
    using safetyInvD(5)[OF inv] rf(2) lf(1) unfolding candidatesOk_def by (auto split: if_splits)
  moreover have "votesOk ?g ?t"
    unfolding votesOk_def
  proof (intro allI impI)
    fix q w d assume "(q, w, d) \<in> votes ?t"
    then have a: "(q, w, d) \<in> votes s" by simp
    then have o: "candidateOk g w d" "w \<le> CurrentTerm (node s d)" "leaderOf g w = None \<longrightarrow> voteOk g q w d"
      using safetyInvD(6)[OF inv] by (auto simp: votesOk_def)
    then show "candidateOk ?g w d \<and> w \<le> CurrentTerm (node ?t d) \<and> (leaderOf ?g w = None \<longrightarrow> voteOk ?g q w d)"
      using ph(3)[OF a] grows_candidateOk[OF gr _ o(1)] rf(2) u by auto
  qed
  moreover have "voteRequestsOk ?g ?t" using safetyInvD(7)[OF inv] by (simp add: voteRequestsOk_def)
  moreover have "acksHeld ?g ?t"
    unfolding acksHeld_def
  proof (intro allI impI)
    fix q t k assume a: "(q, t, k) \<in> acks ?g"
    have same: "CurrentTerm (node ?t q) = CurrentTerm (node s q)" using rf(2) u by simp
    show "t \<le> CurrentTerm (node ?t q) \<and> (agree k (fullLog ?g q) (termLog ?g t) \<or> (\<exists>w \<le> CurrentTerm (node ?t q). misses ?g w t k))"
    proof (cases "(q, t, k) \<in> acks g")
      case True
      then have old: "t \<le> CurrentTerm (node s q)" "agree k (fullLog g q) (termLog g t) \<or> (\<exists>w \<le> CurrentTerm (node s q). misses g w t k)"
        using safetyInvD(8)[OF inv] by (auto simp: acksHeld_def)
      have "agree k (fullLog ?g q) (termLog ?g t)" if ag: "agree k (fullLog g q) (termLog g t)"
        using grows_agree[OF gr ag] agree_length(1)[OF ag] by (cases "q = i") (simp_all add: agree_snoc del: fun_upd_apply add: fun_upd_same fun_upd_other)
      moreover have "misses g w t k \<Longrightarrow> misses ?g w t k" for w using gr lens[OF True] unfolding grows_def by blast
      ultimately show ?thesis using old unfolding same by blast
    next
      case False
      then show ?thesis using a same u lf(2) by (auto simp: agree_refl)
    qed
  qed
  moreover have "networkOk ?g ?t" using grows_networkOk[OF gr safetyInvD(9)[OF inv]] by simp
  moreover have "historyOk ?g (csize ?t) (ids ?t)" using ph(1) by simp
  ultimately show "safetyInv ?g ?t" by (simp add: safetyInv_def)
qed

lemma Start_safe:
  assumes inv: "safetyInv g s" and e: "electionInv s" and i: "i \<in> ids s" and h: "Start (node s i) x = Some (rf, signalled, result)"
  shows "\<exists>g'. grows g g' \<and> safetyInv g' (setNode s i rf)"
proof (cases "state (node s i) = LEADER")
  case True
  note f = peer_facts[OF inv e i]
  let ?e = "\<lparr>Term = CurrentTerm (node s i), Command = x, Index = lastIdx (Log (node s i)) + 1\<rparr>"
  let ?rf = "persist ((node s i)\<lparr>Log := Log (node s i) @ [?e], matchIndex := (matchIndex (node s i))[nat (me (node s i)) := Index ?e]\<rparr>)"
  have "wfRaft (node s i)" using f(1) by (simp add: sound_def)
  from Start_leader[OF this True, of x] have r: "rf = ?rf" using h by simp
  have "sound rf" using Start_keeps[OF f(1), of x] h by auto
  then show ?thesis
    using propose_keeps[OF inv e i refl True, of ?e rf] f(2) True by (auto simp: r)
next
  case False
  then have "rf = node s i" using h by (simp add: Start_def)
  then show ?thesis using inv by (auto intro!: exI[of _ g] simp: setNode_def)
qed

section \<open>Every step\<close>

lemma still: "safetyInv g t \<Longrightarrow> \<exists>g'. grows g g' \<and> safetyInv g' t"
  using grows_refl by blast

lemma clusterStep_safe:
  "clusterStep s t \<Longrightarrow> safetyInv g s \<Longrightarrow> electionInv s \<Longrightarrow> \<exists>g'. grows g g' \<and> safetyInv g' t"
proof (induction rule: clusterStep.induct)
  case elect then show ?case by (intro elect_safe)
next
  case voteRequest then show ?case by (intro voteRequest_safe)
next
  case voteReply then show ?case by (intro voteReply_safe)
next
  case sendAppend then show ?case by (intro still sendAppend_safe)
next
  case sendSnapshot then show ?case by (intro still sendSnapshot_safe)
next
  case appendRequest then show ?case by (intro AppendEntries_safe)
next
  case appendReply then show ?case by (intro still appendReply_safe)
next
  case snapshotRequest then show ?case by (intro InstallSnapshot_safe)
next
  case snapshotReply then show ?case by (intro still snapshotReply_safe)
next
  case clientStart then show ?case by (intro Start_safe)
next
  case takeSnapshot then show ?case by (intro still Snapshot_safe)
next
  case applyTake then show ?case by (intro still applierTake_safe)
next
  case applyPush then show ?case by (intro still applierPush_safe)
next
  case applyDone then show ?case by (intro still goroutines_safe)
next
  case snapPush then show ?case by (intro still snapshotPush_safe)
next
  case snapDone then show ?case by (intro still goroutines_safe)
next
  case kill then show ?case by (intro still goroutines_safe)
next
  case restart then show ?case by (intro still restart_safe)
qed

definition bootHistory :: "'c History" where
  "bootHistory = \<lparr>leaderOf = (\<lambda>_. None), termLog = (\<lambda>t. if t = 0 then [origin] else []), electors = (\<lambda>_. {}),
     fullLog = (\<lambda>_. [origin]), acks = {}, voterLog = (\<lambda>_. []), candidateLog = (\<lambda>_. [])\<rparr>"

lemma boot_safe: "safetyInv bootHistory (bootCluster n :: ('c, 'b) Cluster)"
proof -
  let ?s = "bootCluster n :: ('c, 'b) Cluster"
  have "peerOk bootHistory ?s i \<and> state (node ?s i) \<noteq> LEADER" if i: "i \<in> ids ?s" for i
  proof -
    have b: "0 \<le> i" "i < int n" using i by (auto simp: ids_def bootCluster_def)
    obtain rf :: "('c, 'b) Raft" where rf: "Make n i MakePersister = Some rf" "sound rf" "state rf = FOLLOWER"
      by (rule bootNode[OF b])
    have r: "Log rf = [origin]" "CommitIndex rf = 0" "applying rf = None" "CurrentTerm rf = 0"
      using rf(1) by (auto simp: Make_def readPersist_def ReadRaftState_def ReadSnapshot_def MakePersister_def origin_def
          bind_eq_Some_conv split: if_splits prod.splits)
    have "represents [origin] [origin :: 'c LogEntry]" by (simp add: represents_def lastIdx_def origin_def)
    then show ?thesis
      using rf r by (auto simp: peerOk_def logHeld_def applyingOk_def deliveredOk_def bootCluster_def bootHistory_def
          canonical_def committed_def origin_def)
  qed
  moreover have "historyOk (bootHistory :: 'c History) n (ids ?s)"
    by (auto simp: historyOk_def bootHistory_def canonOk_def acksOk_def agree_def origin_def)
  ultimately show ?thesis
    by (auto simp: safetyInv_def leadOk_def termsOk_def candidatesOk_def votesOk_def voteRequestsOk_def acksHeld_def
        networkOk_def bootCluster_def bootHistory_def)
qed

lemma reachable_safe: "reachable n s \<Longrightarrow> \<exists>g. safetyInv g s"
  by (induction rule: reachable.induct) (auto intro: boot_safe dest: clusterStep_safe reachable_inv)

lemma steps_safe:
  assumes "clusterStep\<^sup>*\<^sup>* s t" "safetyInv g s" "electionInv s"
  shows "\<exists>g'. grows g g' \<and> safetyInv g' t \<and> electionInv t"
  using assms
proof (induction rule: rtranclp_induct)
  case base
  then show ?case by (meson grows_refl)
next
  case (step t v)
  then obtain g' where "grows g g'" "safetyInv g' t" "electionInv t" by blast
  moreover from this step.hyps(2) obtain g'' where "grows g' g''" "safetyInv g'' v" using clusterStep_safe by blast
  ultimately show ?case using clusterStep_keeps[OF step.hyps(2)] grows_trans by blast
qed

end
