(* ===== verification/RaftProps.thy ===== *)
theory RaftProps
  imports RaftCluster
begin

text \<open>
  The properties of the Raft library: election safety of the cluster, the contract of the RPC
  service of one peer, recovery after a crash, and the behaviour of each operation on a peer
  in good order (\<^const>\<open>sound\<close>).  Every property with a hypothesis is followed by its use at a
  concrete peer.
\<close>

section \<open>Concrete peers\<close>

text \<open>A peer 0 of three with a given term, role and log, with its state on disk.\<close>

definition demoPeer :: "int \<Rightarrow> RaftState \<Rightarrow> nat LogEntry list \<Rightarrow> (nat, nat) Raft" where
  "demoPeer t st log = persist
     \<lparr>peers = 3, me = 0, dead = False, CurrentTerm = t, VotedFor = -1, Log = log,
      CommitIndex = 0, LastApplied = 0, state = st, nextIndex = [1, 2, 2], matchIndex = [2, 0, 0],
      persister = MakePersister, snapshotsToPush = [], snapshotsPushed = [], applying = None\<rparr>"

definition entry :: "int \<Rightarrow> int \<Rightarrow> nat LogEntry" where
  "entry t i = \<lparr>Term = t, Command = (if i = 0 then None else Some (nat i)), Index = i\<rparr>"

lemma demoPeer_fields [simp]:
  "Log (demoPeer t st log) = log" "CurrentTerm (demoPeer t st log) = t" "state (demoPeer t st log) = st"
  "CommitIndex (demoPeer t st log) = 0" "me (demoPeer t st log) = 0" "peers (demoPeer t st log) = 3"
  "matchIndex (demoPeer t st log) = [2, 0, 0]" "nextIndex (demoPeer t st log) = [1, 2, 2]"
  "VotedFor (demoPeer t st log) = -1" "LastApplied (demoPeer t st log) = 0" "dead (demoPeer t st log) = False"
  "applying (demoPeer t st log) = None"
  by (simp_all add: demoPeer_def)

lemma demoPeer_sound [simp]: "sound (demoPeer t st log) = wfLog log t"
  by (simp add: demoPeer_def sound_def wfRaft_def)

section \<open>The cluster\<close>

text \<open>C3. Election safety: in every reachable cluster at most one peer leads in a term,
  whatever requests and replies were lost, delayed or reordered and whichever peers crashed
  and restarted from their persisters.\<close>

theorem election_safety:
  "reachable n s \<Longrightarrow> card {i \<in> ids s. state (node s i) = LEADER \<and> CurrentTerm (node s i) = t} \<le> 1"
  using leaders_agree[OF reachable_inv[of n s]] by (auto intro!: card_le_Suc0_iff_eq[THEN iffD2])

text \<open>A run of three peers in which peer 0 wins term 1 with the vote of peer 1.\<close>

definition demoArgs :: RequestVoteArgs where
  "demoArgs = \<lparr>rvTerm = 1, rvCandidateId = 0, rvLastLogIndex = 0, rvLastLogTerm = 0\<rparr>"

definition demoGrant :: RequestVoteReply where
  "demoGrant = \<lparr>rvrTerm = 1, rvrVoteGranted = True\<rparr>"

definition electedPeer :: "('c, 'b) Raft" where
  "electedPeer = fst (the (handleRequestVoteReply (fst (the (electionTimeout (the (Make 3 0 MakePersister))))) 1 demoGrant))"

definition electedVoter :: "('c, 'b) Raft" where
  "electedVoter = fst (the (RequestVote (the (Make 3 1 MakePersister)) demoArgs))"

text \<open>A set of states with the boot state that is closed under steps of a single peer that deliver nothing
  and queue no snapshot.\<close>

definition quietlyClosed :: "nat \<Rightarrow> (('c, 'b) Cluster \<Rightarrow> bool) \<Rightarrow> bool" where
  "quietlyClosed n P \<longleftrightarrow> P (bootCluster n) \<and>
     (\<forall>s t i rf. P s \<and> clusterStep s t \<and> node t = (node s)(i := rf) \<and> snapshotsToPush rf = [] \<and> snapshotsPushed rf = [] \<and>
        delivered t = delivered s \<longrightarrow> P t)"

lemma quietlyClosed_step:
  "quietlyClosed n P \<Longrightarrow> P s \<Longrightarrow> clusterStep s t \<Longrightarrow> node t = (node s)(i := rf) \<Longrightarrow>
   snapshotsToPush rf = [] \<and> snapshotsPushed rf = [] \<Longrightarrow> delivered t = delivered s \<Longrightarrow> P t"
  unfolding quietlyClosed_def by blast

lemma quietlyClosed_boot: "quietlyClosed n P \<Longrightarrow> P (bootCluster n)"
  by (simp add: quietlyClosed_def)

lemma reachable_closed: "quietlyClosed n (reachable n)"
  unfolding quietlyClosed_def using reachable.boot reachable.step by blast

lemma demo_run:
  assumes P: "quietlyClosed 3 (P :: ('c :: equal, 'b :: equal) Cluster \<Rightarrow> bool)"
  shows "\<exists>s. P s \<and> csize s = 3 \<and> node s 0 = electedPeer \<and> node s 1 = electedVoter \<and> delivered s = (\<lambda>_. [])"
proof -
  let ?s0 = "bootCluster 3 :: ('c, 'b) Cluster"
  define rf0 where "rf0 = fst (the (electionTimeout (node ?s0 0)))"
  define s1 where "s1 = (setNode ?s0 0 rf0)\<lparr>rvRequests := rvRequests ?s0 \<union> set [(1, demoArgs), (2, demoArgs)],
       voteCnt := (voteCnt ?s0)((0, CurrentTerm rf0) \<mapsto> 1),
       votes := insert (0, CurrentTerm rf0, 0) (votes ?s0),
       counted := (counted ?s0)((0, CurrentTerm rf0) := {})\<rparr>"
  have e: "electionTimeout (node ?s0 0) = Some (rf0, [(1, demoArgs), (2, demoArgs)])"
    "state (node ?s0 0) = FOLLOWER"
    unfolding rf0_def by code_simp+
  have s1: "P s1"
  proof (rule quietlyClosed_step[OF P quietlyClosed_boot[OF P], where rf = rf0])
    show "clusterStep ?s0 s1" unfolding s1_def using e by (intro clusterStep.elect) (auto simp: ids_def bootCluster_def)
    show "snapshotsToPush rf0 = [] \<and> snapshotsPushed rf0 = []" unfolding rf0_def by code_simp
  qed (simp_all add: s1_def setNode_def)
  define rf1 where "rf1 = fst (the (RequestVote (node ?s0 1) demoArgs))"
  let ?yes = demoGrant
  have v: "RequestVote (node s1 1) demoArgs = Some (rf1, ?yes)"
    by (simp add: s1_def rf1_def) code_simp
  define s2 where "s2 = (setNode s1 1 rf1)\<lparr>rvRequests := rvRequests s1 - {(1, demoArgs)},
       rvReplies := insert (1, demoArgs, ?yes) (rvReplies s1),
       votes := (if rvrVoteGranted ?yes
                 then insert (1, rvTerm demoArgs, rvCandidateId demoArgs) (votes s1) else votes s1)\<rparr>"
  have s2: "P s2"
  proof (rule quietlyClosed_step[OF P s1, where rf = rf1])
    show "clusterStep s1 s2" unfolding s2_def using v
      by (intro clusterStep.voteRequest) (auto simp: s1_def ids_def bootCluster_def)
    show "snapshotsToPush rf1 = [] \<and> snapshotsPushed rf1 = []" unfolding rf1_def by code_simp
  qed (simp_all add: s2_def setNode_def)
  have c: "CurrentTerm rf0 = 1" unfolding rf0_def by code_simp
  define rf2 where "rf2 = fst (the (handleRequestVoteReply rf0 1 ?yes))"
  have w: "handleRequestVoteReply (node s2 0) 1 ?yes = Some (rf2, 2, [1, 2])"
    by (simp add: s2_def s1_def rf2_def rf0_def) code_simp
  define s3 where "s3 = (setNode s2 0 rf2)\<lparr>rvReplies := rvReplies s2 - {(1, demoArgs, ?yes)},
       voteCnt := (voteCnt s2)(electionKey demoArgs \<mapsto> 2),
       counted := (if rvrTerm ?yes = CurrentTerm (node s2 0) \<and> rvrVoteGranted ?yes
                   then (counted s2)(electionKey demoArgs := insert 1 (counted s2 (electionKey demoArgs)))
                   else counted s2)\<rparr>"
  have "P s3"
  proof (rule quietlyClosed_step[OF P s2, where rf = rf2])
    show "clusterStep s2 s3" unfolding s3_def using w c by (intro clusterStep.voteReply)
      (auto simp: s2_def s1_def ids_def bootCluster_def demoArgs_def electionKey_def)
    show "snapshotsToPush rf2 = [] \<and> snapshotsPushed rf2 = []" unfolding rf2_def rf0_def by code_simp
  qed (simp_all add: s3_def setNode_def)
  moreover have "rf2 = electedPeer" "rf1 = electedVoter"
    by (simp_all add: rf2_def rf1_def rf0_def electedPeer_def electedVoter_def bootCluster_def)
  ultimately show ?thesis
    by (intro exI[of _ s3]) (simp add: s3_def s2_def s1_def bootCluster_def setNode_def)
qed

theorem election_safety_witness:
  "\<exists>s :: (nat, nat) Cluster. reachable 3 s \<and>
     card {i \<in> ids s. state (node s i) = LEADER \<and> CurrentTerm (node s i) = 1} = 1"
proof -
  obtain s :: "(nat, nat) Cluster" where r: "reachable 3 s" "csize s = 3" "node s 0 = electedPeer"
    using demo_run[OF reachable_closed] by blast
  have "state (electedPeer :: (nat, nat) Raft) = LEADER" "CurrentTerm (electedPeer :: (nat, nat) Raft) = 1" by code_simp+
  then have s: "reachable 3 s" "csize s = 3" "state (node s 0) = LEADER" "CurrentTerm (node s 0) = 1"
    using r by simp_all
  let ?L = "{i \<in> ids s. state (node s i) = LEADER \<and> CurrentTerm (node s i) = 1}"
  have "0 \<in> ?L" using s by (simp add: ids_def)
  then have "card ?L \<noteq> 0" by auto
  then have "card ?L = 1" using election_safety[OF s(1), of 1] by linarith
  then show ?thesis using s(1) by blast
qed


section \<open>One peer as a service\<close>

text \<open>A peer in good order answers every sequence of admissible requests of the three kinds,
  in any order, with one reply each and no panic, and is in good order afterwards.\<close>

lemma peer_serves_all:
  "sound rf \<Longrightarrow> list_all admissibleRequest reqs \<Longrightarrow>
   \<exists>rf' replies. serveAll serveRequest rf reqs = Some (rf', replies) \<and> sound rf' \<and>
     length replies = length reqs"
  by (rule peer.serves_all)

definition demoRequests :: "(nat, nat) RaftRequest list" where
  "demoRequests =
     [ReqVote \<lparr>rvTerm = 3, rvCandidateId = 1, rvLastLogIndex = 2, rvLastLogTerm = 1\<rparr>,
      ReqAppend \<lparr>aeTerm = 3, aeLeaderId = 1, aePrevLogIndex = 1, aePrevLogTerm = 1,
                 aeEntries = [entry 3 2, entry 3 3], aeLeaderCommit = 2\<rparr>,
      ReqSnapshot \<lparr>isTerm = 3, isLeaderId = 1, isLastIncludedIndex = 3, isLastIncludedTerm = 3, isData = [5, 6]\<rparr>]"

definition demoFollower :: "(nat, nat) Raft" where
  "demoFollower = demoPeer 2 FOLLOWER [entry 0 0, entry 1 1, entry 1 2]"

lemma demoFollower_sound [simp]: "sound demoFollower"
  by (simp add: demoFollower_def wfLog_def firstIdx_def entry_def)

lemma demoRequests_admissible [simp]: "list_all admissibleRequest demoRequests"
  by (simp add: demoRequests_def wfAppendEntries_def wfInstallSnapshot_def entry_def)

lemma demoRequests_length [simp]: "length demoRequests = 3"
  by (simp add: demoRequests_def)

text \<open>Whatever requests a peer serves, its term never falls, and a vote once given in a
  term is not changed in that term.\<close>

lemma votes_are_final:
  assumes "serveAll serveRequest rf reqs = Some (rf', replies)"
  shows "CurrentTerm rf \<le> CurrentTerm rf' \<and>
    (CurrentTerm rf' = CurrentTerm rf \<and> VotedFor rf \<noteq> -1 \<longrightarrow> VotedFor rf' = VotedFor rf)"
  using peer.run_votes(1)[OF assms] by (simp add: voteStep_def)

text \<open>C8. Crash recovery: a peer that has served any admissible requests and is then remade from
  a copy of its persister has the term, the vote and the log it had, and is in good order.\<close>

theorem crash_recovery:
  assumes s: "sound rf" and a: "list_all admissibleRequest reqs"
    and r: "serveAll serveRequest rf reqs = Some (rf', replies)"
  shows "\<exists>rf''. Make (peers rf) (me rf) (Copy (persister rf')) = Some rf'' \<and>
    CurrentTerm rf'' = CurrentTerm rf' \<and> VotedFor rf'' = VotedFor rf' \<and> Log rf'' = Log rf' \<and>
    state rf'' = FOLLOWER \<and> sound rf''"
proof -
  have s': "sound rf'" using peer.serves_all[OF s a] r by auto
  have "me rf' = me rf" "peers rf' = peers rf" using peer.run_votes(1)[OF r] by (auto simp: voteStep_def)
  moreover have "0 \<le> me rf'" "me rf' < int (peers rf')" "wfLog (Log rf') (CurrentTerm rf')"
    using s' by (auto simp: sound_def wfRaft_def)
  moreover have "recovered (persister rf') = (CurrentTerm rf', VotedFor rf', Log rf')"
    using s' by (simp add: sound_def durable_def)
  ultimately show ?thesis using Make_recovers[of "persister rf'"] by (simp add: Copy_id) blast
qed

theorem crash_recovery_witness:
  "\<exists>rf' replies rf''. serveAll serveRequest demoFollower demoRequests = Some (rf', replies) \<and>
     Make 3 0 (Copy (persister rf')) = Some rf'' \<and> Log rf'' = Log rf' \<and> sound rf''"
proof -
  obtain rf' replies where r: "serveAll serveRequest demoFollower demoRequests = Some (rf', replies)"
    using peer.serves_all[OF demoFollower_sound demoRequests_admissible] by blast
  from crash_recovery[OF demoFollower_sound demoRequests_admissible r] r show ?thesis
    by (auto simp: demoFollower_def)
qed

section \<open>Voting\<close>

text \<open>A vote is granted exactly when the request's term is not old, the peer has not voted for
  another candidate in it, and the candidate's log is at least as up to date as the peer's;
  a grant is on disk when the reply is sent.\<close>

lemma RequestVote_grants_iff:
  assumes "sound rf"
  shows "\<exists>rf' reply. RequestVote rf args = Some (rf', reply) \<and> sound rf' \<and>
    (rvrVoteGranted reply \<longleftrightarrow>
       (CurrentTerm rf < rvTerm args \<or>
        rvTerm args = CurrentTerm rf \<and> (VotedFor rf = -1 \<or> VotedFor rf = rvCandidateId args)) \<and>
       (Term (last (Log rf)) < rvLastLogTerm args \<or>
        Term (last (Log rf)) = rvLastLogTerm args \<and> lastIdx (Log rf) \<le> rvLastLogIndex args)) \<and>
    (rvrVoteGranted reply \<longrightarrow>
       rvrTerm reply = rvTerm args \<and> recovered (persister rf') = (rvTerm args, rvCandidateId args, Log rf))"
proof -
  have wl: "wfLog (Log rf) (CurrentTerm rf)" using assms by (simp add: sound_def wfRaft_def)
  obtain rf' reply where h: "RequestVote rf args = Some (rf', reply)" using vote.answers[OF assms, of args] by auto
  have s': "sound rf'" using vote.keeps_sound[OF assms _ h] by simp
  have d: "recovered (persister rf') = (CurrentTerm rf', VotedFor rf', Log rf')"
    using s' by (simp add: sound_def durable_def)
  have "rvrVoteGranted reply \<longleftrightarrow>
       (CurrentTerm rf < rvTerm args \<or>
        rvTerm args = CurrentTerm rf \<and> (VotedFor rf = -1 \<or> VotedFor rf = rvCandidateId args)) \<and>
       (Term (last (Log rf)) < rvLastLogTerm args \<or>
        Term (last (Log rf)) = rvLastLogTerm args \<and> lastIdx (Log rf) \<le> rvLastLogIndex args)"
    "Log rf' = Log rf"
    using h wl wfLog_last[OF wl]
    by (auto simp: RequestVote_def isLogUpToDate_Some split: if_splits)
  then show ?thesis using h s' d RequestVote_effect(4)[OF h] by auto
qed

section \<open>Log replication\<close>

text \<open>C31. A follower whose log fits the request (it has the previous entry, or its snapshot covers
  it) accepts: its log is unchanged up to the previous entry, has every entry of the request
  that its snapshot does not cover at its index, keeps entries beyond the request's only when
  nothing conflicted, and what it replied is on disk.\<close>

theorem AppendEntries_accepts:
  assumes s: "sound rf" and t: "CurrentTerm rf \<le> aeTerm args" and ae: "wfAppendEntries args"
    and fits: "mergeFits (Log rf) (aePrevLogIndex args) (aePrevLogTerm args)"
  shows "\<exists>rf' reply. AppendEntries rf args = Some (rf', reply) \<and> aerSuccess reply \<and> sound rf' \<and>
    CurrentTerm rf' = aeTerm args \<and> state rf' = FOLLOWER \<and> firstIdx (Log rf') = firstIdx (Log rf) \<and>
    (\<forall>k < nat (aePrevLogIndex args + 1 - firstIdx (Log rf)). k < length (Log rf) \<longrightarrow> Log rf' ! k = Log rf ! k) \<and>
    (\<forall>e \<in> set (aeEntries args). firstIdx (Log rf) \<le> Index e \<longrightarrow>
       Index e \<le> lastIdx (Log rf') \<and> termAt (Log rf') (Index e) = Term e) \<and>
    (Log rf' = Log rf \<or> lastIdx (Log rf') = aePrevLogIndex args + int (length (aeEntries args))) \<and>
    recovered (persister rf') = (aeTerm args, VotedFor rf', Log rf')"
proof -
  have wf: "wfRaft rf" using s by (simp add: sound_def)
  obtain rf' reply where h: "AppendEntries rf args = Some (rf', reply)" "sound rf'"
    using AppendEntries_keeps[OF wf soundD(2)[OF s] ae] by blast
  obtain log' where m: "mergeResult (Log rf) (aeTerm args) (aePrevLogIndex args) (aeEntries args) log'"
    and eq: "Log rf' = log'" "aerSuccess reply" "CurrentTerm rf' = aeTerm args" "state rf' = FOLLOWER"
    using AppendEntries_success[OF wf t ae fits] h(1) t by (auto simp: max_absorb2)
  let ?k = "nat (aePrevLogIndex args + 1 - firstIdx (Log rf))"
  have "take ?k log' = take ?k (Log rf)" using m by (simp add: mergeResult_def)
  then have "\<forall>k < ?k. k < length (Log rf) \<longrightarrow> log' ! k = Log rf ! k" by (metis nth_take)
  moreover have "recovered (persister rf') = (CurrentTerm rf', VotedFor rf', Log rf')"
    using h(2) by (simp add: sound_def durable_def)
  ultimately show ?thesis using h m eq by (intro exI[of _ rf'] exI[of _ reply]) (simp add: mergeResult_def)
qed

definition demoAppend :: "nat AppendEntriesArgs" where
  "demoAppend = \<lparr>aeTerm = 3, aeLeaderId = 1, aePrevLogIndex = 1, aePrevLogTerm = 1,
                 aeEntries = [entry 3 2, entry 3 3], aeLeaderCommit = 2\<rparr>"

lemma demoAppend_wf [simp]: "wfAppendEntries demoAppend"
  by (simp add: demoAppend_def wfAppendEntries_def entry_def)

lemma demoAppend_fits [simp]:
  "mergeFits (Log demoFollower) (aePrevLogIndex demoAppend) (aePrevLogTerm demoAppend)"
  by (simp add: demoAppend_def demoFollower_def mergeFits_def firstIdx_def lastIdx_def termAt_def entry_def)

theorem AppendEntries_accepts_witness:
  "\<exists>rf' reply. AppendEntries demoFollower demoAppend = Some (rf', reply) \<and> aerSuccess reply \<and>
     termAt (Log rf') 3 = 3 \<and> sound rf'"
proof -
  have t: "CurrentTerm demoFollower \<le> aeTerm demoAppend" by (simp add: demoFollower_def demoAppend_def)
  obtain rf' reply where r: "AppendEntries demoFollower demoAppend = Some (rf', reply)" "aerSuccess reply" "sound rf'"
    "\<forall>e \<in> set (aeEntries demoAppend). firstIdx (Log demoFollower) \<le> Index e \<longrightarrow>
       Index e \<le> lastIdx (Log rf') \<and> termAt (Log rf') (Index e) = Term e"
    using AppendEntries_accepts[OF demoFollower_sound t demoAppend_wf demoAppend_fits] by blast
  have e: "entry 3 3 \<in> set (aeEntries demoAppend)" by (simp add: demoAppend_def)
  have "firstIdx (Log demoFollower) \<le> Index (entry 3 3)" by (simp add: demoFollower_def firstIdx_def entry_def)
  then have "termAt (Log rf') (Index (entry 3 3)) = Term (entry 3 3)" using bspec[OF r(4) e] by blast
  then show ?thesis using r(1-3) by (simp add: entry_def)
qed

text \<open>C32. A follower that lacks the previous entry, or has it with another term, refuses without
  touching its log, and its hint is exact: a short log reports where it ends and where it
  begins, a conflict reports the conflicting term and the first index the follower has of it.\<close>

theorem AppendEntries_refuses:
  assumes s: "sound rf" and t: "CurrentTerm rf \<le> aeTerm args"
    and nofit: "\<not> mergeFits (Log rf) (aePrevLogIndex args) (aePrevLogTerm args)"
  shows "\<exists>rf' reply. AppendEntries rf args = Some (rf', reply) \<and> \<not> aerSuccess reply \<and>
    Log rf' = Log rf \<and> CommitIndex rf' = CommitIndex rf \<and> CurrentTerm rf' = aeTerm args \<and> durable rf' \<and>
    (if lastIdx (Log rf) < aePrevLogIndex args
     then aerXTerm reply = -1 \<and> aerXIndex reply = lastIdx (Log rf) + 1 \<and> aerXLen reply = firstIdx (Log rf) + 1
     else aerXTerm reply = termAt (Log rf) (aePrevLogIndex args) \<and>
          firstIdx (Log rf) \<le> aerXIndex reply \<and> aerXIndex reply \<le> aePrevLogIndex args \<and>
          (\<forall>i \<in> {aerXIndex reply..aePrevLogIndex args}. termAt (Log rf) i = aerXTerm reply) \<and>
          (aerXIndex reply = firstIdx (Log rf) \<or> termAt (Log rf) (aerXIndex reply - 1) \<noteq> aerXTerm reply))"
proof (cases "lastIdx (Log rf) < aePrevLogIndex args")
  case True
  then show ?thesis using AppendEntries_short[OF soundD(1)[OF s] t True] t by (simp add: max_absorb2)
next
  case False
  then have p: "firstIdx (Log rf) \<le> aePrevLogIndex args" "aePrevLogIndex args \<le> lastIdx (Log rf)"
    "termAt (Log rf) (aePrevLogIndex args) \<noteq> aePrevLogTerm args"
    using nofit by (auto simp: mergeFits_def)
  define X where "X = termAt (Log rf) (aePrevLogIndex args)"
  from AppendEntries_conflict[OF soundD(1)[OF s] t p, folded X_def] obtain x where
    h: "AppendEntries rf args = Some (persist (stepDown rf (aeTerm args)),
            \<lparr>aerTerm = aeTerm args, aerSuccess = False, aerXTerm = X, aerXIndex = x, aerXLen = 0\<rparr>)"
    and x: "firstIdx (Log rf) \<le> x" "x \<le> aePrevLogIndex args"
      "\<forall>i. x \<le> i \<and> i \<le> aePrevLogIndex args \<longrightarrow> termAt (Log rf) i = X"
      "x = firstIdx (Log rf) \<or> termAt (Log rf) (x - 1) \<noteq> X"
    by blast
  show ?thesis unfolding h X_def [symmetric] using x t False by (simp add: max_absorb2)
qed

theorem AppendEntries_refuses_witness:
  "\<exists>rf' reply. AppendEntries demoFollower (demoAppend\<lparr>aePrevLogIndex := 2, aePrevLogTerm := 2\<rparr>) = Some (rf', reply) \<and>
     aerXTerm reply = 1 \<and> Log rf' = Log demoFollower"
proof -
  let ?a = "demoAppend\<lparr>aePrevLogIndex := 2, aePrevLogTerm := 2\<rparr>"
  have d: "\<not> mergeFits (Log demoFollower) (aePrevLogIndex ?a) (aePrevLogTerm ?a)"
    "\<not> lastIdx (Log demoFollower) < aePrevLogIndex ?a" "termAt (Log demoFollower) (aePrevLogIndex ?a) = 1"
    "CurrentTerm demoFollower \<le> aeTerm ?a"
    by (simp_all add: demoFollower_def mergeFits_def firstIdx_def lastIdx_def termAt_def entry_def demoAppend_def)
  show ?thesis using AppendEntries_refuses[OF demoFollower_sound d(4,1)] unfolding if_not_P[OF d(2)] d(3) by blast
qed

text \<open>C14. The commit rule: a successful reply raises the follower's match index to the last entry
  sent, and the leader's commit index becomes the largest index above it, up to the end of
  its log, that a majority of the match indices has reached and whose entry is of the current
  term (or that its snapshot covers); it stays where it is when there is none.\<close>

theorem commit_rule:
  assumes s: "sound rf" and a: "aeTerm args = CurrentTerm rf" "state rf = LEADER"
    "aerTerm reply \<le> CurrentTerm rf" "aerSuccess reply" and p: "0 \<le> peer" "peer < int (peers rf)"
  shows "\<exists>rf'. handleReplicateOneRoundResponse rf peer args reply = Some rf' \<and> sound rf' \<and>
    matchIndex rf' = (matchIndex rf)[nat peer := max (matchIndex rf ! nat peer)
                                          (aePrevLogIndex args + int (length (aeEntries args)))] \<and>
    Log rf' = Log rf \<and> CommitIndex rf \<le> CommitIndex rf' \<and>
    (CommitIndex rf < CommitIndex rf' \<longrightarrow> CommitIndex rf' \<le> lastIdx (Log rf) \<and> committable rf' (CommitIndex rf')) \<and>
    (\<forall>N \<in> {CommitIndex rf' <.. lastIdx (Log rf)}. \<not> committable rf' N)"
  by (rule handleReplicateOneRoundResponse_commits[OF assms])

definition demoLeader :: "(nat, nat) Raft" where
  "demoLeader = demoPeer 2 LEADER [entry 0 0, entry 1 1, entry 2 2]"

lemma demoLeader_sound [simp]: "sound demoLeader"
  by (simp add: demoLeader_def wfLog_def firstIdx_def entry_def)

definition demoAcked :: "nat AppendEntriesArgs" where
  "demoAcked = \<lparr>aeTerm = 2, aeLeaderId = 0, aePrevLogIndex = 1, aePrevLogTerm = 1,
                aeEntries = [entry 2 2], aeLeaderCommit = 0\<rparr>"

theorem commit_rule_witness:
  "\<exists>rf'. handleReplicateOneRoundResponse demoLeader 1 demoAcked
     \<lparr>aerTerm = 2, aerSuccess = True, aerXTerm = 0, aerXIndex = 0, aerXLen = 0\<rparr> = Some rf' \<and> CommitIndex rf' = 2"
proof -
  let ?r = "\<lparr>aerTerm = 2, aerSuccess = True, aerXTerm = 0, aerXIndex = 0, aerXLen = 0\<rparr>"
  have d: "aeTerm demoAcked = CurrentTerm demoLeader" "state demoLeader = LEADER" "aerTerm ?r \<le> CurrentTerm demoLeader"
    "aerSuccess ?r" "(0::int) \<le> 1" "1 < int (peers demoLeader)" "lastIdx (Log demoLeader) = 2" "CommitIndex demoLeader = 0"
    "(matchIndex demoLeader)[nat 1 := max (matchIndex demoLeader ! nat 1)
        (aePrevLogIndex demoAcked + int (length (aeEntries demoAcked)))] = [2, 2, 0]"
    by (simp_all add: demoAcked_def demoLeader_def lastIdx_def firstIdx_def entry_def)
  obtain rf' where r: "handleReplicateOneRoundResponse demoLeader 1 demoAcked ?r = Some rf'" "Log rf' = Log demoLeader"
    "matchIndex rf' = [2, 2, 0]" "0 < CommitIndex rf' \<longrightarrow> CommitIndex rf' \<le> 2" "0 \<le> CommitIndex rf'"
    "\<forall>N \<in> {CommitIndex rf' <.. 2}. \<not> committable rf' N"
    using commit_rule[OF demoLeader_sound d(1-6)] unfolding d(7-9) by blast
  have c: "CurrentTerm (the (handleReplicateOneRoundResponse demoLeader 1 demoAcked ?r)) = 2"
    "peers (the (handleReplicateOneRoundResponse demoLeader 1 demoAcked ?r)) = 3"
    by code_simp+
  have "committable rf' 2" using r c by (simp add: committable_def demoLeader_def termAt_def entry_def firstIdx_def)
  then have "\<not> 2 \<in> {CommitIndex rf' <.. 2}" using r(6) by blast
  then show ?thesis using r by auto
qed


text \<open>What a leader sends in a round to a peer whose next index is not beyond the end of its
  log: its snapshot when the entry before the next index is compacted away, otherwise all
  entries from the next index on with the true term of the entry before them; either way a
  request that its receiver can serve.\<close>

lemma leader_round_admissible:
  assumes s: "sound rf" and l: "state rf = LEADER" and p: "0 \<le> peer" "peer < int (peers rf)"
    and n: "nextIndex rf ! nat peer \<le> lastIdx (Log rf) + 1"
  shows "\<exists>msg. replicateOneRound rf peer = Some msg \<and>
    (if nextIndex rf ! nat peer - 1 < firstIdx (Log rf)
     then \<exists>sargs. msg = SendInstallSnapshot sargs \<and> admissibleRequest (ReqSnapshot sargs :: ('c, 'b) RaftRequest) \<and>
            isLastIncludedIndex sargs = firstIdx (Log rf) \<and> isData sargs = snapshot (persister rf)
     else \<exists>args. msg = SendAppendEntries args \<and> admissibleRequest (ReqAppend args :: ('c, 'b) RaftRequest) \<and>
            aePrevLogIndex args = nextIndex rf ! nat peer - 1 \<and>
            aePrevLogTerm args = termAt (Log rf) (nextIndex rf ! nat peer - 1) \<and>
            aePrevLogIndex args + int (length (aeEntries args)) = lastIdx (Log rf) \<and>
            (\<forall>e \<in> set (aeEntries args). termAt (Log rf) (Index e) = Term e))"
proof -
  define prev where "prev = nextIndex rf ! nat peer - 1"
  have pl: "prev \<le> lastIdx (Log rf)" using n by (simp add: prev_def)
  have wl: "wfLog (Log rf) (CurrentTerm rf)" using s by (simp add: sound_def wfRaft_def)
  have r: "replicateOneRound rf peer = Some (roundTo rf prev)"
    using replicateOneRound_sends[OF s l p n] by (simp add: prev_def)
  note adm = roundTo_admissible[OF s pl]
  have terms: "\<forall>e \<in> set (Log rf). termAt (Log rf) (Index e) = Term e"
    using contig_nth[of "firstIdx (Log rf)" "Log rf"] wl by (auto simp: termAt_def wfLog_def in_set_conv_nth)
  show ?thesis
    unfolding r prev_def [symmetric] using adm pl terms
    by (cases "prev < firstIdx (Log rf)")
      (auto simp: roundTo_def lastIdx_def dest: in_set_dropD)
qed

text \<open>C34. Backing up after a conflict: the leader moves the peer's next index to just behind its
  own last entry of the conflicting term, which is one more than the comment beside that line says, or to the peer's hint when it has no
  entry of that term.  The handler panics (index out of range on the log) exactly when the leader's last
  entry is of the conflicting term, which does not happen in a reachable cluster.\<close>

theorem conflict_backup:
  assumes s: "sound rf" and c: "conflictReply rf args reply" and p: "0 \<le> peer" "peer < int (peers rf)"
  shows "case handleReplicateOneRoundResponse rf peer args reply of
      None \<Rightarrow> Term (last (Log rf)) = aerXTerm reply
    | Some rf' \<Rightarrow> Term (last (Log rf)) \<noteq> aerXTerm reply \<and>
        (\<exists>n. rf' = rf\<lparr>nextIndex := (nextIndex rf)[nat peer := n]\<rparr> \<and>
          (if \<exists>e \<in> set (Log rf). Term e = aerXTerm reply
           then firstIdx (Log rf) < n \<and> n \<le> lastIdx (Log rf) \<and> termAt (Log rf) (n - 1) = aerXTerm reply \<and>
                aerXTerm reply < termAt (Log rf) n
           else n = aerXIndex reply))"
proof -
  have wl: "wfLog (Log rf) (CurrentTerm rf)" using s by (simp add: sound_def wfRaft_def)
  define X where "X = aerXTerm reply"
  define i where "i = go_search (length (Log rf)) (\<lambda>i. Term (Log rf ! i) > X)"
  note b = sorted_terms_search[OF wl, where x = X, folded i_def]
  note fl = search_found_last[OF wl, where x = X, folded i_def]
  have found: "(\<exists>e \<in> set (Log rf). Term e = X) \<longleftrightarrow> i > 0 \<and> Term (Log rf ! (i - 1)) = X"
  proof
    assume "\<exists>e \<in> set (Log rf). Term e = X"
    then obtain k where k: "k < length (Log rf)" "Term (Log rf ! k) = X" by (auto simp: in_set_conv_nth)
    then have ki: "k < i" using b(3) by (metis less_irrefl not_le)
    have "Term (Log rf ! k) \<le> Term (Log rf ! (i - 1))"
      using wl ki b(1) sorted_nth_mono[of "map Term (Log rf)" k "i - 1"] by (auto simp: wfLog_def)
    moreover have "Term (Log rf ! (i - 1)) \<le> X" using b(2) ki by simp
    ultimately show "i > 0 \<and> Term (Log rf ! (i - 1)) = X" using ki k by simp
  next
    assume a: "i > 0 \<and> Term (Log rf ! (i - 1)) = X"
    then have "Log rf ! (i - 1) \<in> set (Log rf)" using b(1) by (intro nth_mem) auto
    then show "\<exists>e \<in> set (Log rf). Term e = X" using a by blast
  qed
  show ?thesis
    using handleReplicateOneRoundResponse_conflict[OF s c p, folded X_def, folded i_def]
  proof (cases "Term (last (Log rf)) = X")
    case False
    define n where "n = (if i > 0 \<and> Term (Log rf ! (i - 1)) = X then firstIdx (Log rf) + int i else aerXIndex reply)"
    have "firstIdx (Log rf) < n \<and> n \<le> lastIdx (Log rf) \<and> termAt (Log rf) (n - 1) = X \<and> X < termAt (Log rf) n"
      if "i > 0 \<and> Term (Log rf ! (i - 1)) = X"
    proof -
      have "i < length (Log rf)" using fl False that b(1) by auto
      moreover have "nat (int i - 1) = i - 1" by simp
      ultimately show ?thesis using that b(3) by (simp add: n_def lastIdx_def termAt_def)
    qed
    then show ?thesis
      using handleReplicateOneRoundResponse_conflict[OF s c p, folded X_def, folded i_def] False
      by (auto simp: found n_def X_def [symmetric])
  qed (simp add: X_def)
qed

theorem conflict_backup_witness:
  "\<exists>rf'. handleReplicateOneRoundResponse demoLeader 1 demoAcked
       \<lparr>aerTerm = 2, aerSuccess = False, aerXTerm = 1, aerXIndex = 1, aerXLen = 0\<rparr> = Some rf' \<and>
     nextIndex rf' = [1, 2, 2]"
proof -
  let ?r = "\<lparr>aerTerm = 2, aerSuccess = False, aerXTerm = 1, aerXIndex = 1, aerXLen = 0\<rparr>"
  have d: "conflictReply demoLeader demoAcked ?r" "(0::int) \<le> 1" "1 < int (peers demoLeader)"
    "Term (last (Log demoLeader)) \<noteq> aerXTerm ?r"
    by (simp_all add: conflictReply_def demoLeader_def demoAcked_def entry_def)
  obtain rf' where r: "handleReplicateOneRoundResponse demoLeader 1 demoAcked ?r = Some rf'"
    using conflict_backup[OF demoLeader_sound d(1-3)] d(4)
    by (cases "handleReplicateOneRoundResponse demoLeader 1 demoAcked ?r") simp_all
  moreover have "nextIndex (the (handleReplicateOneRoundResponse demoLeader 1 demoAcked ?r)) = [1, 2, 2]"
    by code_simp
  ultimately show ?thesis by simp
qed


text \<open>C15. One round of replication, from the leader's message through the follower's handler to
  the leader's handler: when the follower's log fits, it ends up with the leader's terms at
  all indices of the round that its snapshot does not cover, and the leader records that the
  follower has its whole log.\<close>

theorem replication_round:
  assumes L: "sound ld" "state ld = LEADER" "0 \<le> peer" "peer < int (peers ld)"
    and F: "sound fo" "CurrentTerm fo \<le> CurrentTerm ld"
    and n: "firstIdx (Log ld) < nextIndex ld ! nat peer" "nextIndex ld ! nat peer \<le> lastIdx (Log ld) + 1"
    and fits: "mergeFits (Log fo) (nextIndex ld ! nat peer - 1) (termAt (Log ld) (nextIndex ld ! nat peer - 1))"
  shows "\<exists>args fo' reply ld'. replicateOneRound ld peer = Some (SendAppendEntries args) \<and>
    AppendEntries fo args = Some (fo', reply) \<and>
    handleReplicateOneRoundResponse ld peer args reply = Some ld' \<and> sound fo' \<and> sound ld' \<and>
    lastIdx (Log ld) \<le> matchIndex ld' ! nat peer \<and>
    (\<forall>i \<in> {nextIndex ld ! nat peer..lastIdx (Log ld)}. firstIdx (Log fo) \<le> i \<longrightarrow>
       i \<le> lastIdx (Log fo') \<and> termAt (Log fo') i = termAt (Log ld) i)"
proof -
  define prev where "prev = nextIndex ld ! nat peer - 1"
  have pl: "firstIdx (Log ld) \<le> prev" "prev \<le> lastIdx (Log ld)" using n by (simp_all add: prev_def)
  have wl: "wfLog (Log ld) (CurrentTerm ld)" using L(1) by (simp add: sound_def wfRaft_def)
  define args where "args = \<lparr>aeTerm = CurrentTerm ld, aeLeaderId = me ld, aePrevLogIndex = prev,
     aePrevLogTerm = termAt (Log ld) prev, aeEntries = drop (nat (prev + 1 - firstIdx (Log ld))) (Log ld),
     aeLeaderCommit = CommitIndex ld\<rparr>"
  have rt: "roundTo ld prev = SendAppendEntries args" using pl(1) by (simp add: roundTo_def args_def)
  have r: "replicateOneRound ld peer = Some (SendAppendEntries args)"
    using replicateOneRound_sends[OF L n(2)] rt by (simp add: prev_def)
  have ae: "wfAppendEntries args" using roundTo_admissible(1)[OF L(1) pl(2) rt] .
  have t: "CurrentTerm fo \<le> aeTerm args" using F(2) by (simp add: args_def)
  have ft: "mergeFits (Log fo) (aePrevLogIndex args) (aePrevLogTerm args)"
    using fits by (simp add: args_def prev_def)
  obtain log' where m: "mergeResult (Log fo) (aeTerm args) (aePrevLogIndex args) (aeEntries args) log'"
    and h: "AppendEntries fo args = Some (persist ((stepDown fo (aeTerm args))\<lparr>Log := log',
              CommitIndex := (if Term (last log') = aeTerm args
                              then min (aeLeaderCommit args) (lastIdx log') else CommitIndex fo)\<rparr>),
            \<lparr>aerTerm = aeTerm args, aerSuccess = True, aerXTerm = 0, aerXIndex = 0, aerXLen = 0\<rparr>)"
    (is "_ = Some (?fo, ?re)")
    using AppendEntries_success[OF soundD(1)[OF F(1)] t ae ft] by blast
  have "sound ?fo" using append.keeps_sound[OF F(1) ae h] .
  have a: "aeTerm args = CurrentTerm ld" "aerTerm ?re \<le> CurrentTerm ld" "aerSuccess ?re" by (simp_all add: args_def)
  have len: "aePrevLogIndex args + int (length (aeEntries args)) = lastIdx (Log ld)"
    using pl by (simp add: args_def lastIdx_def)
  obtain ld' where hl: "handleReplicateOneRoundResponse ld peer args ?re = Some ld'" "sound ld'"
    "matchIndex ld' = (matchIndex ld)[nat peer := max (matchIndex ld ! nat peer) (lastIdx (Log ld))]"
    using handleReplicateOneRoundResponse_commits[OF L(1) a(1) L(2) a(2,3) L(3,4)] unfolding len by blast
  have mi: "lastIdx (Log ld) \<le> matchIndex ld' ! nat peer" using hl(3) L(3,4) sound_tables[OF L(1)] by simp
  have "i \<le> lastIdx (Log ?fo) \<and> termAt (Log ?fo) i = termAt (Log ld) i"
    if i: "prev + 1 \<le> i" "i \<le> lastIdx (Log ld)" "firstIdx (Log fo) \<le> i" for i
  proof -
    define k where "k = nat (i - firstIdx (Log ld))"
    have k: "k < length (Log ld)" "nat (prev + 1 - firstIdx (Log ld)) \<le> k" "Index (Log ld ! k) = i"
      using i pl contig_nth[of "firstIdx (Log ld)" "Log ld" k] wl by (auto simp: k_def lastIdx_def wfLog_def)
    then have "Log ld ! k \<in> set (aeEntries args)" by (auto simp: args_def intro: nth_mem_drop)
    then show ?thesis using m i(3) k(3) by (auto simp: mergeResult_def termAt_def k_def)
  qed
  then show ?thesis using r h hl mi \<open>sound ?fo\<close> unfolding prev_def atLeastAtMost_iff Ball_def
    by (intro exI[of _ args] exI[of _ ?fo] exI[of _ ?re] exI[of _ ld']) auto
qed


theorem replication_round_witness:
  "\<exists>args fo' reply ld'. replicateOneRound demoLeader 1 = Some (SendAppendEntries args) \<and>
    AppendEntries demoFollower args = Some (fo', reply) \<and>
    handleReplicateOneRoundResponse demoLeader 1 args reply = Some ld' \<and> termAt (Log fo') 2 = 2"
proof -
  have d: "state demoLeader = LEADER" "(0::int) \<le> 1" "1 < int (peers demoLeader)"
    "CurrentTerm demoFollower \<le> CurrentTerm demoLeader" "firstIdx (Log demoLeader) < nextIndex demoLeader ! nat 1"
    "nextIndex demoLeader ! nat 1 \<le> lastIdx (Log demoLeader) + 1"
    "mergeFits (Log demoFollower) (nextIndex demoLeader ! nat 1 - 1) (termAt (Log demoLeader) (nextIndex demoLeader ! nat 1 - 1))"
    "2 \<in> {nextIndex demoLeader ! nat 1..lastIdx (Log demoLeader)}" "firstIdx (Log demoFollower) \<le> 2"
    "termAt (Log demoLeader) 2 = 2"
    by (simp_all add: demoLeader_def demoFollower_def lastIdx_def firstIdx_def entry_def mergeFits_def termAt_def)
  obtain args fo' reply ld' where r: "replicateOneRound demoLeader 1 = Some (SendAppendEntries args)"
    "AppendEntries demoFollower args = Some (fo', reply)"
    "handleReplicateOneRoundResponse demoLeader 1 args reply = Some ld'"
    "\<forall>i \<in> {nextIndex demoLeader ! nat 1..lastIdx (Log demoLeader)}. firstIdx (Log demoFollower) \<le> i \<longrightarrow>
       i \<le> lastIdx (Log fo') \<and> termAt (Log fo') i = termAt (Log demoLeader) i"
    using replication_round[OF demoLeader_sound d(1-3) demoFollower_sound d(4-7)] by blast
  have "termAt (Log fo') 2 = 2" using bspec[OF r(4) d(8)] d(9,10) by simp
  then show ?thesis using r(1-3) by blast
qed

section \<open>Clients, snapshots, the applier\<close>

text \<open>A leader appends a command at the next index with its term, has it on disk before it
  returns, and wakes the replicators of all other peers; any other peer refuses and changes
  nothing.\<close>

lemma Start_appends:
  assumes s: "sound rf"
  shows "if state rf = LEADER
    then \<exists>rf'. Start rf c = Some (rf', otherPeers rf, lastIdx (Log rf) + 1, CurrentTerm rf, True) \<and> sound rf' \<and>
           Log rf' = Log rf @ [\<lparr>Term = CurrentTerm rf, Command = c, Index = lastIdx (Log rf) + 1\<rparr>] \<and>
           recovered (persister rf') = (CurrentTerm rf, VotedFor rf, Log rf') \<and>
           matchIndex rf' ! nat (me rf) = lastIdx (Log rf')
    else Start rf c = Some (rf, [], -1, -1, False)"
proof (cases "state rf = LEADER")
  case True
  obtain rf' out where k: "Start rf c = Some (rf', out)" "sound rf'" using Start_keeps[OF s] by blast
  have "me rf < int (length (matchIndex rf))" "0 \<le> me rf" using s by (auto simp: sound_def wfRaft_def)
  moreover have "lastIdx (Log rf @ [e]) = lastIdx (Log rf) + 1" for e
    using wfRaft_Log[OF soundD(1)[OF s]] by (simp add: lastIdx_def firstIdx_append)
  ultimately show ?thesis
    using True k Start_leader[OF soundD(1)[OF s] True, of c] sound_tables[OF s] by auto
qed (simp add: Start_def)

text \<open>Compaction keeps what the log says: a snapshot at an index the log still has drops the
  entries before it and nothing else (every index from it on keeps its entry), saves the
  snapshot together with the shortened log, and changes neither term, vote nor commit index.\<close>

lemma Snapshot_compacts:
  assumes s: "sound rf" and i: "firstIdx (Log rf) < i" "i \<le> lastIdx (Log rf)"
  shows "\<exists>rf'. Snapshot rf i snap = Some rf' \<and> sound rf' \<and> firstIdx (Log rf') = i \<and>
    lastIdx (Log rf') = lastIdx (Log rf) \<and>
    (\<forall>j \<in> {i..lastIdx (Log rf)}. Log rf' ! nat (j - i) = Log rf ! nat (j - firstIdx (Log rf))) \<and>
    snapshot (persister rf') = snap \<and>
    recovered (persister rf') = (CurrentTerm rf, VotedFor rf, Log rf') \<and> CommitIndex rf' = CommitIndex rf"
proof -
  have wl: "wfLog (Log rf) (CurrentTerm rf)" using s by (simp add: sound_def wfRaft_def)
  let ?k = "nat (i - firstIdx (Log rf))"
  have k: "?k < length (Log rf)" using i by (simp add: lastIdx_def)
  obtain rf' where r: "Snapshot rf i snap = Some rf'" "sound rf'" using Snapshot_keeps[OF s i(2)] by blast
  have eq: "Log rf' = drop ?k (Log rf)" "snapshot (persister rf') = snap" "CurrentTerm rf' = CurrentTerm rf"
    "VotedFor rf' = VotedFor rf" "CommitIndex rf' = CommitIndex rf"
    using r(1) Snapshot_eq[OF soundD(1)[OF s] i(2), of snap] i(1) by (auto simp: Save_def)
  have f1: "firstIdx (drop ?k (Log rf)) = i" using wfLog_drop(2)[OF wl k] i(1) by simp
  have f2: "lastIdx (drop ?k (Log rf)) = lastIdx (Log rf)" unfolding lastIdx_def f1 using k i(1) by simp
  have "Log rf' ! nat (j - i) = Log rf ! nat (j - firstIdx (Log rf))" if "i \<le> j" "j \<le> lastIdx (Log rf)" for j
  proof -
    have "?k + nat (j - i) = nat (j - firstIdx (Log rf))" using that i(1) by simp
    then show ?thesis using k by (simp add: eq(1))
  qed
  then show ?thesis using r eq f1 f2 soundD(2)[OF r(2)] by (auto simp: durable_def)
qed

text \<open>C33. A snapshot from a leader whose term is not old is taken exactly when it is ahead of the follower's commit
  index and of its own snapshot.  Then the log starts at the snapshot's last index, keeps the
  entries behind it only if the follower had that very entry, log and snapshot are saved
  together, the commit index moves there and the snapshot is queued for the service.
  Otherwise log, snapshot and commit index stay.\<close>

theorem InstallSnapshot_installs:
  assumes s: "sound rf" and t: "CurrentTerm rf \<le> isTerm args" and a: "wfInstallSnapshot args"
  shows "\<exists>rf' reply. InstallSnapshot rf args = Some (rf', reply) \<and> sound rf' \<and> CurrentTerm rf' = isTerm args \<and>
    (if isLastIncludedIndex args \<le> CommitIndex rf \<or> isLastIncludedIndex args \<le> firstIdx (Log rf)
     then Log rf' = Log rf \<and> CommitIndex rf' = CommitIndex rf \<and>
          snapshot (persister rf') = snapshot (persister rf) \<and> snapshotsToPush rf' = snapshotsToPush rf
     else firstIdx (Log rf') = isLastIncludedIndex args \<and> CommitIndex rf' = isLastIncludedIndex args \<and>
          Log rf' = (if isLastIncludedIndex args \<le> lastIdx (Log rf) \<and>
                        termAt (Log rf) (isLastIncludedIndex args) = isLastIncludedTerm args
                     then drop (nat (isLastIncludedIndex args - firstIdx (Log rf))) (Log rf)
                     else [\<lparr>Term = isLastIncludedTerm args, Command = None, Index = isLastIncludedIndex args\<rparr>]) \<and>
          snapshot (persister rf') = isData args \<and>
          recovered (persister rf') = (isTerm args, VotedFor rf', Log rf') \<and>
          snapshotsToPush rf' = snapshotsToPush rf @ [(isData args, isLastIncludedIndex args, isLastIncludedTerm args)])"
proof -
  have wl: "wfLog (Log rf) (CurrentTerm rf)" using s by (simp add: sound_def wfRaft_def)
  obtain rf' reply where h: "InstallSnapshot rf args = Some (rf', reply)" and s': "sound rf'"
    using InstallSnapshot_keeps[OF s a] by blast
  have d: "recovered (persister rf') = (CurrentTerm rf', VotedFor rf', Log rf')" using soundD(2)[OF s'] by (simp add: durable_def)
  have f: "firstIdx (drop (nat (isLastIncludedIndex args - firstIdx (Log rf))) (Log rf)) = isLastIncludedIndex args"
    if "firstIdx (Log rf) < isLastIncludedIndex args" "isLastIncludedIndex args \<le> lastIdx (Log rf)"
    using wfLog_drop(2)[OF wl, of "nat (isLastIncludedIndex args - firstIdx (Log rf))"] that by (simp add: lastIdx_def)
  note eq = h[unfolded InstallSnapshot_eq[OF soundD(1)[OF s] t] Let_def]
  show ?thesis
  proof (cases "isLastIncludedIndex args \<le> CommitIndex rf \<or> isLastIncludedIndex args \<le> firstIdx (Log rf)")
    case True
    then show ?thesis using h s' eq[unfolded if_P[OF True]] t
      by (intro exI[of _ rf'] exI[of _ reply]) (auto simp: Save_def persist_def ReadSnapshot_def)
  next
    case False
    then have g: "firstIdx (Log rf) < isLastIncludedIndex args" by simp
    have e: "Log rf' = (if isLastIncludedIndex args \<le> lastIdx (Log rf) \<and>
          termAt (Log rf) (isLastIncludedIndex args) = isLastIncludedTerm args
          then drop (nat (isLastIncludedIndex args - firstIdx (Log rf))) (Log rf)
          else [\<lparr>Term = isLastIncludedTerm args, Command = None, Index = isLastIncludedIndex args\<rparr>])"
      "CommitIndex rf' = isLastIncludedIndex args" "snapshot (persister rf') = isData args"
      "snapshotsToPush rf' = snapshotsToPush rf @ [(isData args, isLastIncludedIndex args, isLastIncludedTerm args)]"
      "CurrentTerm rf' = isTerm args"
      using eq[unfolded if_not_P[OF False]] t by (auto simp: Save_def)
    have "firstIdx (Log rf') = isLastIncludedIndex args" using f[OF g] unfolding e(1) by simp
    then show ?thesis unfolding if_not_P[OF False] using h s' e d by (intro exI[of _ rf'] exI[of _ reply]) simp
  qed
qed

definition demoSnapshot :: "nat InstallSnapshotArgs" where
  "demoSnapshot = \<lparr>isTerm = 3, isLeaderId = 1, isLastIncludedIndex = 2, isLastIncludedTerm = 1, isData = [5, 6]\<rparr>"

theorem InstallSnapshot_installs_witness:
  "\<exists>rf' reply. InstallSnapshot demoFollower demoSnapshot = Some (rf', reply) \<and> Log rf' = [entry 1 2] \<and>
     snapshot (persister rf') = [5, 6]"
proof -
  let ?i = "isLastIncludedIndex demoSnapshot"
  have d: "CurrentTerm demoFollower \<le> isTerm demoSnapshot" "wfInstallSnapshot demoSnapshot"
    "\<not> (?i \<le> CommitIndex demoFollower \<or> ?i \<le> firstIdx (Log demoFollower))"
    "?i \<le> lastIdx (Log demoFollower) \<and> termAt (Log demoFollower) ?i = isLastIncludedTerm demoSnapshot"
    "drop (nat (?i - firstIdx (Log demoFollower))) (Log demoFollower) = [entry 1 2]" "isData demoSnapshot = [5, 6]"
    by (simp_all add: demoFollower_def demoSnapshot_def wfInstallSnapshot_def lastIdx_def termAt_def entry_def)
  show ?thesis
    using InstallSnapshot_installs[OF demoFollower_sound d(1,2)] unfolding if_not_P[OF d(3)] if_P[OF d(4)] d(5,6) by blast
qed

lemma applierPushes_all:
  "applying rf = Some (es, k) \<Longrightarrow>
   applierPushes (length es) rf = Some (rf\<lparr>applying := Some ([], k)\<rparr>, map commandMsg es)"
proof (induction es arbitrary: rf)
  case Nil
  then have "rf\<lparr>applying := Some ([], k)\<rparr> = rf" by (intro Raft.equality) simp_all
  then show ?case by simp
qed (simp add: applierPush_def)

text \<open>A turn of the applier hands the service exactly the committed entries that were not yet
  applied, one message per index in increasing order with the entry's own command and term,
  and then counts them as applied.\<close>

lemma applier_in_order:
  assumes s: "sound rf" and a: "applying rf = None" "\<not> dead rf"
    and i: "firstIdx (Log rf) \<le> LastApplied rf" "LastApplied rf < CommitIndex rf" "CommitIndex rf \<le> lastIdx (Log rf)"
  shows "\<exists>rf' ms. applierTurn rf = Some (rf', ms) \<and> LastApplied rf' = CommitIndex rf \<and> applying rf' = None \<and>
    Log rf' = Log rf \<and> length ms = nat (CommitIndex rf - LastApplied rf) \<and>
    (\<forall>j < length ms. ms ! j = commandMsg (Log rf ! nat (LastApplied rf + 1 + int j - firstIdx (Log rf))) \<and>
       CommandIndex (ms ! j) = LastApplied rf + 1 + int j)"
proof -
  have wl: "wfLog (Log rf) (CurrentTerm rf)" using s by (simp add: sound_def wfRaft_def)
  let ?a = "nat (LastApplied rf + 1 - firstIdx (Log rf))"
  define es where "es = take (nat (CommitIndex rf - LastApplied rf)) (drop ?a (Log rf))"
  have len: "length es = nat (CommitIndex rf - LastApplied rf)" using i by (simp add: es_def lastIdx_def)
  have sl: "go_slice (Log rf) (LastApplied rf + 1 - firstIdx (Log rf)) (CommitIndex rf + 1 - firstIdx (Log rf)) = Some es"
    using i by (simp add: go_slice_def es_def lastIdx_def)
  have take: "applierTake rf = Some (rf\<lparr>applying := Some (es, CommitIndex rf)\<rparr>)"
    using a i sl wl by (simp add: applierTake_def needApplyingLog_def)
  have nth: "es ! j = Log rf ! nat (LastApplied rf + 1 + int j - firstIdx (Log rf))"
    "Index (es ! j) = LastApplied rf + 1 + int j" if "j < length es" for j
  proof -
    have k: "?a + j = nat (LastApplied rf + 1 + int j - firstIdx (Log rf))" using i(1) by simp
    have "?a + j < length (Log rf)" using that len i by (simp add: lastIdx_def)
    moreover have "es ! j = Log rf ! (?a + j)" using that i by (simp add: es_def lastIdx_def nth_drop)
    ultimately show "es ! j = Log rf ! nat (LastApplied rf + 1 + int j - firstIdx (Log rf))"
      "Index (es ! j) = LastApplied rf + 1 + int j"
      using contig_nth[of "firstIdx (Log rf)" "Log rf" "?a + j"] wl k i(1) by (simp_all add: wfLog_def)
  qed
  have turn: "applierTurn rf =
      Some (applierDone (rf\<lparr>applying := Some ([], CommitIndex rf)\<rparr>), map commandMsg es)"
    using take applierPushes_all[of "rf\<lparr>applying := Some (es, CommitIndex rf)\<rparr>" es "CommitIndex rf"]
    by (simp add: applierTurn_def)
  show ?thesis
    unfolding turn using i nth len
    by (intro exI[of _ "applierDone (rf\<lparr>applying := Some ([], CommitIndex rf)\<rparr>)"] exI[of _ "map commandMsg es"])
      (auto simp: applierDone_def maxInt_2 commandMsg_def)
qed

text \<open>A follower's commit index can fall: an older AppendEntries of the same term that arrives
  after a newer one carries a smaller leader commit, which the follower adopts as it is
  (\<^verbatim>\<open>advanceCommitIndexForFollower\<close> takes the minimum with its last index but not the maximum
  with what it has).\<close>

lemma follower_commit_can_fall:
  "\<exists>(rf :: (nat, nat) Raft) args rf' reply. sound rf \<and> wfAppendEntries args \<and> CommitIndex rf \<le> lastIdx (Log rf) \<and>
     AppendEntries rf args = Some (rf', reply) \<and> aerSuccess reply \<and> CommitIndex rf' < CommitIndex rf"
proof -
  let ?f = "(demoPeer 2 FOLLOWER [entry 0 0, entry 2 1, entry 2 2])\<lparr>CommitIndex := 2\<rparr>"
  let ?a = "\<lparr>aeTerm = 2, aeLeaderId = 1, aePrevLogIndex = 2, aePrevLogTerm = 2, aeEntries = [], aeLeaderCommit = 1\<rparr>"
  have "sound ?f" "wfAppendEntries ?a" "CommitIndex ?f \<le> lastIdx (Log ?f)"
    by (simp_all add: wfLog_def wfAppendEntries_def lastIdx_def entry_def)
  moreover have "(case AppendEntries ?f ?a of Some (rf', reply) \<Rightarrow> aerSuccess reply \<and> CommitIndex rf' = 1 | None \<Rightarrow> False)"
    by code_simp
  then obtain rf' reply where "AppendEntries ?f ?a = Some (rf', reply)" "aerSuccess reply" "CommitIndex rf' < CommitIndex ?f"
    by (auto split: option.splits)
  ultimately show ?thesis by blast
qed

end
