(* ===== verification/RaftRuns.thy ===== *)
theory RaftRuns
  imports RaftProps
begin

text \<open>
  Runs in which no snapshot is handed to a service, and a concrete one of three peers: peer 0 wins term 1,
  replicates a command to peer 1, and both deliver it.
\<close>

section \<open>Runs without snapshots\<close>

text \<open>No peer has a snapshot to hand to its service, as in the tests that take none.\<close>

definition noSnapshots :: "('c, 'b) Cluster \<Rightarrow> bool" where
  "noSnapshots s \<longleftrightarrow> (\<forall>i \<in> ids s. snapshotsToPush (node s i) = [] \<and> snapshotsPushed (node s i) = [])"

definition plainStep :: "('c, 'b) Cluster \<Rightarrow> ('c, 'b) Cluster \<Rightarrow> bool" where
  "plainStep s t \<longleftrightarrow> clusterStep s t \<and> noSnapshots t"

lemma plain_steps: "plainStep\<^sup>*\<^sup>* s t \<Longrightarrow> clusterStep\<^sup>*\<^sup>* s t"
  by (erule rtranclp_mono[THEN predicate2D, rotated]) (auto simp: plainStep_def)

lemma steps_reachable: "clusterStep\<^sup>*\<^sup>* s t \<Longrightarrow> reachable n s \<Longrightarrow> reachable n t"
  by (induction rule: rtranclp_induct) (auto intro: reachable.step)

lemma plain_reachable: "plainStep\<^sup>*\<^sup>* (bootCluster n) s \<Longrightarrow> reachable n s"
  using steps_reachable[OF plain_steps reachable.boot] .

text \<open>A step of a single peer that queues no snapshot.\<close>

lemma plainStepI:
  assumes "clusterStep s t" "noSnapshots s" "node t = (node s)(i := rf)" "snapshotsToPush rf = [] \<and> snapshotsPushed rf = []"
  shows "plainStep s t"
  using assms clusterStep_size[OF assms(1)] by (auto simp: plainStep_def noSnapshots_def ids_def)

lemma boot_noSnapshots: "noSnapshots (bootCluster n :: ('c, 'b) Cluster)"
  unfolding noSnapshots_def
proof
  fix i assume "i \<in> ids (bootCluster n :: ('c, 'b) Cluster)"
  then have "0 \<le> i" "i < int n" by (auto simp: ids_def bootCluster_def)
  then obtain rf :: "('c, 'b) Raft" where rf: "Make n i MakePersister = Some rf" using bootNode by blast
  then have "snapshotsToPush rf = [] \<and> snapshotsPushed rf = []" by (auto simp: Make_def readPersist_def ReadRaftState_def
        ReadSnapshot_def MakePersister_def bind_eq_Some_conv split: if_splits prod.splits)
  then show "snapshotsToPush (node (bootCluster n :: ('c, 'b) Cluster) i) = [] \<and> snapshotsPushed (node (bootCluster n :: ('c, 'b) Cluster) i) = []"
    using rf by (auto simp: bootCluster_def)
qed

lemma plain_closed: "quietlyClosed n (\<lambda>s. plainStep\<^sup>*\<^sup>* (bootCluster n) s \<and> noSnapshots s)"
proof -
  have "plainStep s t" if "clusterStep s t" "noSnapshots s" "node t = (node s)(i := rf)" "snapshotsToPush rf = []" "snapshotsPushed rf = []"
    for s t i rf using plainStepI[OF that(1-3)] that(4,5) by blast
  then show ?thesis unfolding quietlyClosed_def
    using boot_noSnapshots by (metis plainStep_def rtranclp.rtrancl_into_rtrancl rtranclp.rtrancl_refl)
qed

section \<open>A run in which two peers deliver a command\<close>

text \<open>The messages that follow \<^verbatim>\<open>demo_run\<close>, and its leader and its voter, step by step.\<close>

definition args1 :: "'c \<Rightarrow> 'c AppendEntriesArgs" where
  "args1 c = \<lparr>aeTerm = 1, aeLeaderId = 0, aePrevLogIndex = 0, aePrevLogTerm = 0,
     aeEntries = [\<lparr>Term = 1, Command = Some c, Index = 1\<rparr>], aeLeaderCommit = 0\<rparr>"

definition args2 :: "'c AppendEntriesArgs" where
  "args2 = \<lparr>aeTerm = 1, aeLeaderId = 0, aePrevLogIndex = 1, aePrevLogTerm = 1, aeEntries = [], aeLeaderCommit = 1\<rparr>"

definition reply1 :: AppendEntriesReply where
  "reply1 = \<lparr>aerTerm = 1, aerSuccess = True, aerXTerm = 0, aerXIndex = 0, aerXLen = 0\<rparr>"

definition lead1 :: "'c \<Rightarrow> ('c, 'b) Raft" where "lead1 c = fst (the (Start electedPeer (Some c)))"
definition follow1 :: "'c \<Rightarrow> ('c, 'b) Raft" where "follow1 c = fst (the (AppendEntries electedVoter (args1 c)))"
definition lead2 :: "'c \<Rightarrow> ('c, 'b) Raft" where "lead2 c = the (handleReplicateOneRoundResponse (lead1 c) 1 (args1 c) reply1)"
definition lead3 :: "'c \<Rightarrow> ('c, 'b) Raft" where "lead3 c = the (applierTake (lead2 c))"
definition lead4 :: "'c \<Rightarrow> ('c, 'b) Raft" where "lead4 c = fst (the (applierPush (lead3 c)))"
definition follow2 :: "'c \<Rightarrow> ('c, 'b) Raft" where "follow2 c = fst (the (AppendEntries (follow1 c) args2))"
definition follow3 :: "'c \<Rightarrow> ('c, 'b) Raft" where "follow3 c = the (applierTake (follow2 c))"
definition follow4 :: "'c \<Rightarrow> ('c, 'b) Raft" where "follow4 c = fst (the (applierPush (follow3 c)))"

definition firstMsg :: "'c \<Rightarrow> ('c, 'b) ApplyMsg" where
  "firstMsg c = commandMsg \<lparr>Term = 1, Command = Some c, Index = 1\<rparr>"

lemma firstMsg_simps [simp]: "CommandValid (firstMsg c :: ('c, 'b) ApplyMsg)" "CommandIndex (firstMsg c :: ('c, 'b) ApplyMsg) = 1"
  by (simp_all add: firstMsg_def commandMsg_def)

lemma demo_steps:
  fixes c :: "'c :: equal" and unused :: "'b :: equal"
  shows
  "Start electedPeer (Some c) = Some (lead1 c :: ('c, 'b) Raft, [1, 2], 1, 1, True)"
  "replicateOneRound (lead1 c :: ('c, 'b) Raft) 1 = Some (SendAppendEntries (args1 c))"
  "AppendEntries electedVoter (args1 c) = Some (follow1 c :: ('c, 'b) Raft, reply1)"
  "handleReplicateOneRoundResponse (lead1 c) 1 (args1 c) reply1 = Some (lead2 c :: ('c, 'b) Raft)"
  "applierTake (lead2 c) = Some (lead3 c :: ('c, 'b) Raft)" "applierPush (lead3 c) = Some (lead4 c :: ('c, 'b) Raft, firstMsg c)"
  "replicateOneRound (lead4 c :: ('c, 'b) Raft) 1 = Some (SendAppendEntries args2)"
  "AppendEntries (follow1 c) args2 = Some (follow2 c :: ('c, 'b) Raft, reply1)"
  "applierTake (follow2 c) = Some (follow3 c :: ('c, 'b) Raft)" "applierPush (follow3 c) = Some (follow4 c :: ('c, 'b) Raft, firstMsg c)"
  "aeLeaderId (args1 c) = 0" "state (lead4 c :: ('c, 'b) Raft) = LEADER" "CurrentTerm (lead4 c :: ('c, 'b) Raft) = 1"
  "CurrentTerm (follow4 c :: ('c, 'b) Raft) = 1"
  "Log (lead4 c :: ('c, 'b) Raft) = [\<lparr>Term = 0, Command = None, Index = 0\<rparr>, \<lparr>Term = 1, Command = Some c, Index = 1\<rparr>]"
  "Log (follow4 c :: ('c, 'b) Raft) = [\<lparr>Term = 0, Command = None, Index = 0\<rparr>, \<lparr>Term = 1, Command = Some c, Index = 1\<rparr>]"
  by code_simp+

lemma demo_quiet:
  fixes c :: "'c :: equal" and unused :: "'b :: equal"
  shows
  "snapshotsToPush (electedPeer :: ('c, 'b) Raft) = [] \<and> snapshotsPushed (electedPeer :: ('c, 'b) Raft) = []"
  "snapshotsToPush (lead1 c :: ('c, 'b) Raft) = [] \<and> snapshotsPushed (lead1 c :: ('c, 'b) Raft) = []"
  "snapshotsToPush (follow1 c :: ('c, 'b) Raft) = [] \<and> snapshotsPushed (follow1 c :: ('c, 'b) Raft) = []"
  "snapshotsToPush (lead2 c :: ('c, 'b) Raft) = [] \<and> snapshotsPushed (lead2 c :: ('c, 'b) Raft) = []"
  "snapshotsToPush (lead3 c :: ('c, 'b) Raft) = [] \<and> snapshotsPushed (lead3 c :: ('c, 'b) Raft) = []"
  "snapshotsToPush (lead4 c :: ('c, 'b) Raft) = [] \<and> snapshotsPushed (lead4 c :: ('c, 'b) Raft) = []"
  "snapshotsToPush (follow2 c :: ('c, 'b) Raft) = [] \<and> snapshotsPushed (follow2 c :: ('c, 'b) Raft) = []"
  "snapshotsToPush (follow3 c :: ('c, 'b) Raft) = [] \<and> snapshotsPushed (follow3 c :: ('c, 'b) Raft) = []"
  "snapshotsToPush (follow4 c :: ('c, 'b) Raft) = [] \<and> snapshotsPushed (follow4 c :: ('c, 'b) Raft) = []"
  by code_simp+

text \<open>Up to the moment when the leader is about to deliver.\<close>

lemma demo_taken:
  assumes P: "quietlyClosed 3 (P :: ('c :: equal, 'b :: equal) Cluster \<Rightarrow> bool)"
  shows "\<exists>s. P s \<and> csize s = 3 \<and> node s 0 = lead3 c \<and> node s 1 = follow1 c \<and> delivered s = (\<lambda>_. [])"
proof -
  note d = demo_steps and step = quietlyClosed_step[OF P]
  obtain s0 :: "('c, 'b) Cluster" where s0: "P s0" "csize s0 = 3" "node s0 0 = electedPeer"
    "node s0 1 = electedVoter" "delivered s0 = (\<lambda>_. [])" using demo_run[OF P] by blast
  define s1 where "s1 = setNode s0 0 (lead1 c)"
  have "clusterStep s0 s1" unfolding s1_def using s0 d(1) by (intro clusterStep.clientStart) (auto simp: ids_def)
  then have p1: "P s1" by (rule step[OF s0(1) _ _ demo_quiet(2)]) (simp_all add: s1_def)
  define s2 where "s2 = s1\<lparr>aeRequests := insert (1, args1 c) (aeRequests s1)\<rparr>"
  have "clusterStep s1 s2" unfolding s2_def using s0 d(2)
    by (intro clusterStep.sendAppend[of 0]) (auto simp: s1_def ids_def)
  then have p2: "P s2" by (rule step[OF p1 _ _ demo_quiet(2), where i = 0]) (simp_all add: s2_def s1_def)
  define s3 where "s3 = (setNode s2 1 (follow1 c))\<lparr>aeReplies := insert (1, args1 c, reply1) (aeReplies s2)\<rparr>"
  have "clusterStep s2 s3" unfolding s3_def using s0 d(3)
    by (intro clusterStep.appendRequest) (auto simp: s2_def s1_def)
  then have p3: "P s3" by (rule step[OF p2 _ _ demo_quiet(3)]) (simp_all add: s3_def)
  define s4 where "s4 = setNode s3 0 (lead2 c)"
  have "clusterStep s3 s4" unfolding s4_def using d(4,11)
    by (intro clusterStep.appendReply[of 1 "args1 c" reply1]) (auto simp: s3_def s2_def s1_def)
  then have p4: "P s4" by (rule step[OF p3 _ _ demo_quiet(4)]) (simp_all add: s4_def)
  define s5 where "s5 = setNode s4 0 (lead3 c)"
  have "clusterStep s4 s5" unfolding s5_def using s0 d(5)
    by (intro clusterStep.applyTake) (auto simp: s4_def s3_def s2_def s1_def ids_def)
  then have p5: "P s5" by (rule step[OF p4 _ _ demo_quiet(5)]) (simp_all add: s5_def)
  have "csize s5 = 3" "node s5 0 = lead3 c" "node s5 1 = follow1 c" "delivered s5 = (\<lambda>_. [])"
    using s0 by (simp_all add: s5_def s4_def s3_def s2_def s1_def)
  then show ?thesis using p5 by blast
qed

lemma demo_delivery:
  fixes c :: "'c :: equal"
  shows "\<exists>s t :: ('c, 'b :: equal) Cluster. plainStep\<^sup>*\<^sup>* (bootCluster 3) s \<and> plainStep\<^sup>*\<^sup>* s t \<and> csize s = 3 \<and>
     CurrentTerm (node s 0) = 1 \<and> delivered s 0 = [firstMsg c] \<and> delivered t 1 = [firstMsg c] \<and>
     node s 0 = lead4 c \<and> node t 0 = lead4 c \<and> node t 1 = follow4 c"
proof -
  note d = demo_steps and q = demo_quiet
  let ?P = "\<lambda>s :: ('c, 'b) Cluster. plainStep\<^sup>*\<^sup>* (bootCluster 3) s \<and> noSnapshots s"
  obtain s5 where s5: "?P s5" "csize s5 = 3" "node s5 0 = lead3 c" "node s5 1 = follow1 c" "delivered s5 = (\<lambda>_. [])"
    using demo_taken[OF plain_closed] by blast
  define s6 where "s6 = deliver (setNode s5 0 (lead4 c)) 0 (firstMsg c)"
  have "clusterStep s5 s6" unfolding s6_def using s5 d(6) by (intro clusterStep.applyPush) (auto simp: ids_def)
  from plainStepI[OF this _ _ q(6)] s5(1) have s6: "plainStep s5 s6" "noSnapshots s6" by (auto simp: s6_def deliver_def plainStep_def)
  have f6: "node s6 0 = lead4 c" "node s6 1 = follow1 c" "csize s6 = 3" "delivered s6 0 = [firstMsg c]" "delivered s6 1 = []"
    using s5 by (simp_all add: s6_def deliver_def)
  define s7 where "s7 = s6\<lparr>aeRequests := insert (1, args2) (aeRequests s6)\<rparr>"
  have "clusterStep s6 s7" unfolding s7_def using f6 d(7) by (intro clusterStep.sendAppend[of 0]) (auto simp: ids_def)
  then have s7: "plainStep s6 s7" "noSnapshots s7" using s6(2) by (auto simp: plainStep_def noSnapshots_def s7_def)
  define s8 where "s8 = (setNode s7 1 (follow2 c))\<lparr>aeReplies := insert (1, args2, reply1) (aeReplies s7)\<rparr>"
  have "clusterStep s7 s8" unfolding s8_def using f6 d(8) by (intro clusterStep.appendRequest) (auto simp: s7_def)
  from plainStepI[OF this s7(2) _ q(7), of 1] have s8: "plainStep s7 s8" "noSnapshots s8" by (auto simp: s8_def plainStep_def)
  define s9 where "s9 = setNode s8 1 (follow3 c)"
  have "clusterStep s8 s9" unfolding s9_def using f6 d(9)
    by (intro clusterStep.applyTake) (auto simp: s8_def s7_def ids_def)
  from plainStepI[OF this s8(2) _ q(8), of 1] have s9: "plainStep s8 s9" "noSnapshots s9" by (auto simp: s9_def plainStep_def)
  define t where "t = deliver (setNode s9 1 (follow4 c)) 1 (firstMsg c)"
  have "clusterStep s9 t" unfolding t_def using f6 d(10)
    by (intro clusterStep.applyPush) (auto simp: s9_def s8_def s7_def ids_def)
  from plainStepI[OF this s9(2) _ q(9), of 1] have t: "plainStep s9 t" by (auto simp: t_def deliver_def plainStep_def)
  have "plainStep\<^sup>*\<^sup>* (bootCluster 3) s6" using s5(1) s6(1) by (meson rtranclp.rtrancl_into_rtrancl)
  moreover have "plainStep\<^sup>*\<^sup>* s6 t" using s7(1) s8(1) s9(1) t by (meson converse_rtranclp_into_rtranclp rtranclp.rtrancl_refl)
  moreover have "node t 0 = lead4 c" "node t 1 = follow4 c" "delivered t 1 = [firstMsg c]"
    using f6 by (simp_all add: t_def s9_def s8_def s7_def deliver_def setNode_def)
  ultimately show ?thesis using f6 d(13) by (intro exI[of _ s6] exI[of _ t]) simp
qed

end
