(* ===== verification/RaftSafetyProps.thy ===== *)
theory RaftSafetyProps
  imports RaftSafetyStart RaftRuns
begin

text \<open>
  What the safety invariant says of the program: the services of all peers are handed the same
  commands, leaders have every command that was handed out before, and logs that agree on the term
  of an entry agree on the commands up to it.
\<close>

section \<open>What was handed to the service\<close>

lemma delivered_taken:
  assumes "safetyInv g s" "electionInv s" "i \<in> ids s" "m \<in> set (delivered s i)" "CommandValid m"
  obtains e where "m = commandMsg e" "CommandIndex m = Index e"
    "taken g (csize s) (ids s) (CurrentTerm (node s i)) (fullLog g i) e"
  using peer_facts(14)[OF assms(1-3)] assms(4,5) that unfolding deliveredOk_def by (force simp: commandMsg_def)

lemma steps_size: "clusterStep\<^sup>*\<^sup>* s t \<Longrightarrow> csize t = csize s \<and> ids t = ids s"
  by (induction rule: rtranclp_induct) (auto simp: ids_def clusterStep_size)

text \<open>A state and a later one, with histories of which the second extends the first.\<close>

lemma run_histories:
  assumes "reachable n s" "clusterStep\<^sup>*\<^sup>* s t"
  obtains g g' where "safetyInv g s" "electionInv s" "safetyInv g' t" "electionInv t" "grows g g'"
proof -
  obtain g where g: "safetyInv g s" using reachable_safe[OF assms(1)] by blast
  have e: "electionInv s" using reachable_inv[OF assms(1)] .
  obtain g' where "grows g g'" "safetyInv g' t" "electionInv t" using steps_safe[OF assms(2) g e] by blast
  then show thesis using that g e by blast
qed

lemma delivered_later:
  assumes "safetyInv g s" "electionInv s" "grows g g'" "ids t = ids s" "csize t = csize s"
    "i \<in> ids s" "m \<in> set (delivered s i)" "CommandValid m"
  obtains e where "m = commandMsg e" "CommandIndex m = Index e"
    "taken g' (csize t) (ids t) (CurrentTerm (node s i)) (fullLog g i) e"
proof -
  obtain e where e: "m = commandMsg e" "CommandIndex m = Index e"
    "taken g (csize s) (ids s) (CurrentTerm (node s i)) (fullLog g i) e"
    using delivered_taken[OF assms(1,2,6-8)] .
  then have "taken g' (csize t) (ids t) (CurrentTerm (node s i)) (fullLog g i) e"
    using grows_taken[OF assms(3) _ e(3)] assms(4,5) by simp
  then show thesis using that e by blast
qed

lemma taken_same:
  assumes h: "historyOk g (csize s) (ids s)" and e: "taken g (csize s) (ids s) T l e" and f: "taken g (csize s) (ids s) T' l' f"
    and i: "Index e = Index f"
  shows "e = f"
proof -
  have "agree (nat (Index e)) l l'" using committed_same[OF h _ _ _ _, of T l _ T' l'] e f i by (simp add: taken_def)
  then show ?thesis using e f i agree_nth[of "nat (Index e)" l l'] by (simp add: taken_def)
qed

section \<open>The properties\<close>

text \<open>C1. State machine safety: in every run, under loss, delay, reordering and crashes, if one peer
  hands its service a command at an index, then no peer, at that time or ever after, hands its
  service another command at that index.\<close>

theorem state_machine_safety:
  assumes r: "reachable n s" "clusterStep\<^sup>*\<^sup>* s t" and ij: "i \<in> ids s" "j \<in> ids s"
    and m: "m \<in> set (delivered s i)" "CommandValid m" and m': "m' \<in> set (delivered t j)" "CommandValid m'"
    and idx: "CommandIndex m = CommandIndex m'"
  shows "m = m'"
proof -
  obtain g g' where g: "safetyInv g s" "electionInv s" "safetyInv g' t" "electionInv t" "grows g g'"
    using run_histories[OF r] .
  note z = steps_size[OF r(2)]
  obtain e where e: "m = commandMsg e" "CommandIndex m = Index e"
    "taken g' (csize t) (ids t) (CurrentTerm (node s i)) (fullLog g i) e"
    using delivered_later[OF g(1,2,5) _ _ ij(1) m] z by blast
  obtain f where f: "m' = commandMsg f" "CommandIndex m' = Index f"
    "taken g' (csize t) (ids t) (CurrentTerm (node t j)) (fullLog g' j) f"
    using delivered_taken[OF g(3,4) _ m'] ij(2) z by blast
  show ?thesis using taken_same[OF safetyInvD(1)[OF g(3)] e(3) f(3)] e f idx by simp
qed

text \<open>C9. Leader completeness: a command that a peer has handed to its service is in the log of
  every leader of that or a later term, at its index, unless the leader has compacted its
  log beyond it.\<close>

theorem leader_completeness:
  assumes r: "reachable n s" "clusterStep\<^sup>*\<^sup>* s t" and ij: "i \<in> ids s" "j \<in> ids s"
    and m: "m \<in> set (delivered s i)" "CommandValid m"
    and l: "state (node t j) = LEADER" "CurrentTerm (node s i) \<le> CurrentTerm (node t j)"
  shows "CommandIndex m \<le> lastIdx (Log (node t j)) \<and>
    (firstIdx (Log (node t j)) < CommandIndex m \<longrightarrow>
      commandMsg (Log (node t j) ! nat (CommandIndex m - firstIdx (Log (node t j)))) = m)"
proof -
  obtain g g' where g: "safetyInv g s" "electionInv s" "safetyInv g' t" "electionInv t" "grows g g'"
    using run_histories[OF r] .
  note z = steps_size[OF r(2)]
  have j: "j \<in> ids t" using ij(2) z by simp
  note f = peer_facts[OF g(3,4) j] and lf = leader_facts[OF g(3) j l(1)]
  obtain e where e: "m = commandMsg e" "CommandIndex m = Index e"
    "taken g' (csize t) (ids t) (CurrentTerm (node s i)) (fullLog g i) e"
    using delivered_later[OF g(1,2,5) _ _ ij(1) m] z by blast
  let ?k = "nat (Index e)"
  have k: "0 \<le> Index e" "fullLog g i ! ?k = e"
    and c: "committed g' (csize t) (ids t) (CurrentTerm (node s i)) (fullLog g i) ?k" using e(3) by (auto simp: taken_def)
  have ag: "agree ?k (fullLog g i) (fullLog g' j)"
    using committed_leader[OF safetyInvD(1)[OF g(3)] _ _ c _ l(2)] lf(1,2) by simp
  then have "?k < length (fullLog g' j)" "fullLog g' j ! ?k = e" using k(2) by (auto simp: agree_def)
  moreover have "Index e \<le> lastIdx (Log (node t j))"
    using represents_length(5)[OF f(7,6)] k(1) \<open>?k < length (fullLog g' j)\<close> by simp
  ultimately show ?thesis using representsD(2)[OF f(7,6), of "Index e"] e(1,2) by simp
qed

text \<open>C21. Log matching: if the logs of two peers have the same term at an index they both hold, then
  they hold the same entries up to that index, as far as neither has compacted them away.\<close>

theorem log_matching:
  assumes r: "reachable n s" and ij: "i \<in> ids s" "j \<in> ids s"
    and k: "firstIdx (Log (node s i)) \<le> k" "k \<le> lastIdx (Log (node s i))"
      "firstIdx (Log (node s j)) \<le> k" "k \<le> lastIdx (Log (node s j))"
    and tm: "termAt (Log (node s i)) k = termAt (Log (node s j)) k"
    and q: "firstIdx (Log (node s i)) < q" "firstIdx (Log (node s j)) < q" "q \<le> k"
  shows "Log (node s i) ! nat (q - firstIdx (Log (node s i))) = Log (node s j) ! nat (q - firstIdx (Log (node s j)))"
proof -
  obtain g where g: "safetyInv g s" using reachable_safe[OF r] by blast
  note f = peer_facts[OF g reachable_inv[OF r] ij(1)] and f' = peer_facts[OF g reachable_inv[OF r] ij(2)]
  note d = representsD[OF f(7,6) k(1,2)] and d' = representsD[OF f'(7,6) k(3,4)]
  have "agree (nat k) (fullLog g i) (fullLog g j)"
    using canonical_agree[OF safetyInvD(10)[OF g] f(8) f'(8) d(3) d'(3)] d(1) d'(1) tm by simp
  then have "fullLog g i ! nat q = fullLog g j ! nat q" by (rule agree_nth) (use q(3) in simp)
  then show ?thesis
    using representsD(2)[OF f(7,6), of q] representsD(2)[OF f'(7,6), of q] q k by simp
qed

theorem state_machine_safety_witness:
  "\<exists>(s :: (nat, nat) Cluster) t m m'. reachable 3 s \<and> clusterStep\<^sup>*\<^sup>* s t \<and>
     m \<in> set (delivered s 0) \<and> m' \<in> set (delivered t 1) \<and> CommandIndex m = 1 \<and> m = m'"
proof -
  obtain s t :: "(nat, nat) Cluster" where r: "reachable 3 s" "clusterStep\<^sup>*\<^sup>* s t" "csize s = 3"
    "delivered s 0 = [firstMsg 7]" "delivered t 1 = [firstMsg 7]" using demo_delivery[of 7] plain_reachable plain_steps by blast
  have "(firstMsg 7 :: (nat, nat) ApplyMsg) = firstMsg 7"
    by (rule state_machine_safety[OF r(1,2), of 0 1]) (use r(3-5) in \<open>simp_all add: ids_def\<close>)
  then show ?thesis using r by (intro exI[of _ s] exI[of _ t] exI[of _ "firstMsg 7"]) simp
qed

theorem leader_completeness_witness:
  "\<exists>(s :: (nat, nat) Cluster) t m. reachable 3 s \<and> clusterStep\<^sup>*\<^sup>* s t \<and> m \<in> set (delivered s 0) \<and>
     state (node t 0) = LEADER \<and> firstIdx (Log (node t 0)) < CommandIndex m \<and>
     commandMsg (Log (node t 0) ! nat (CommandIndex m - firstIdx (Log (node t 0)))) = m"
proof -
  obtain s t :: "(nat, nat) Cluster" where r: "reachable 3 s" "clusterStep\<^sup>*\<^sup>* s t" "csize s = 3"
    "CurrentTerm (node s 0) = 1" "delivered s 0 = [firstMsg 7]" "node t 0 = lead4 7" using demo_delivery[of 7] plain_reachable plain_steps by blast
  have f: "firstIdx (Log (lead4 7 :: (nat, nat) Raft)) = 0" by (simp add: demo_steps firstIdx_def)
  have "commandMsg (Log (node t 0) ! nat (1 - firstIdx (Log (node t 0)))) = (firstMsg 7 :: (nat, nat) ApplyMsg)"
    using leader_completeness[OF r(1,2), of 0 0 "firstMsg 7"] r f by (simp add: ids_def demo_steps(12,13))
  then show ?thesis using r f by (intro exI[of _ s] exI[of _ t] exI[of _ "firstMsg 7"]) (simp add: demo_steps(12))
qed

theorem log_matching_witness:
  "\<exists>t :: (nat, nat) Cluster. reachable 3 t \<and> termAt (Log (node t 0)) 1 = 1 \<and> termAt (Log (node t 1)) 1 = 1 \<and>
     Log (node t 0) ! 1 = Log (node t 1) ! 1"
proof -
  obtain s t :: "(nat, nat) Cluster" where r: "reachable 3 s" "clusterStep\<^sup>*\<^sup>* s t" "csize s = 3"
    "node t 0 = lead4 7" "node t 1 = follow4 7" using demo_delivery[of 7] plain_reachable plain_steps by blast
  have "reachable 3 t" using steps_reachable[OF r(2,1)] .
  moreover have "csize t = 3" using steps_size[OF r(2)] r(3) by simp
  moreover have f: "Log (node t 0) = Log (node t 1)" "firstIdx (Log (node t 1)) = 0" "lastIdx (Log (node t 1)) = 1"
    "termAt (Log (node t 1)) 1 = 1" unfolding r(4,5)
    by (simp_all add: demo_steps firstIdx_def lastIdx_def termAt_def)
  ultimately show ?thesis using log_matching[of 3 t 0 1 1 1] by (intro exI[of _ t]) (simp add: ids_def)
qed

end
