(* ===== verification/RaftOrder.thy ===== *)
theory RaftOrder
  imports RaftSafetyProps
begin

text \<open>
  The order of delivery: as long as no snapshot is handed to a service, a peer delivers the entries of
  its log one after the other from the first, and what two peers have delivered is one log as
  far as the slower of the two has come.
\<close>

section \<open>What the handlers leave to the applier\<close>

definition sameApplied :: "('c, 'b) Raft \<Rightarrow> ('c, 'b) Raft \<Rightarrow> bool" where
  "sameApplied rf rf' \<longleftrightarrow> LastApplied rf' = LastApplied rf \<and> applying rf' = applying rf"

lemma sameApplied_refl [simp]: "sameApplied rf rf"
  by (simp add: sameApplied_def)

lemma sameApplied_persist [simp]: "sameApplied rf (persist rf') = sameApplied rf rf'"
  by (simp add: sameApplied_def)

lemma leaderIndices_applied: "leaderIndices rf is = Some rf' \<Longrightarrow> sameApplied rf rf'"
  using pred_optionD[OF leaderIndices_result, of rf "is" rf'] by (auto simp: sameApplied_def)

lemma commitLoop_applied: "commitLoop rf left N = Some rf' \<Longrightarrow> sameApplied rf rf'"
  using pred_optionD[OF commitLoop_result, of rf left N rf'] by (auto simp: sameApplied_def)

lemma electionTimeout_applied: "pred_option (\<lambda>(rf', reqs). sameApplied rf rf') (electionTimeout rf)"
  unfolding electionTimeout_def changeState_def startElect_def Let_def bind_assoc
  by (intro go_wp) (auto simp: sameApplied_def)

lemma RequestVote_applied: "pred_option (\<lambda>(rf', reply). sameApplied rf rf') (RequestVote rf vargs)"
  unfolding RequestVote_def Let_def by (intro go_wp) (auto simp: sameApplied_def)

lemma handleRequestVoteReply_applied:
  "pred_option (\<lambda>(rf', out). sameApplied rf rf') (handleRequestVoteReply rf cnt vreply)"
  unfolding handleRequestVoteReply_def changeState_def Let_def bind_assoc
  by (intro go_wp) (auto simp: sameApplied_def dest!: leaderIndices_applied)

lemma Start_applied: "pred_option (\<lambda>(rf', out). sameApplied rf rf') (Start rf cmd)"
  unfolding Start_def appendNewLogEntry_def Let_def bind_assoc
  by (intro go_wp) (auto simp: sameApplied_def)

lemma Snapshot_applied: "pred_option (sameApplied rf) (Snapshot rf k snap)"
  unfolding Snapshot_def Let_def by (intro go_wp) (auto simp: sameApplied_def)

lemma handleInstallSnapshotResponse_applied: "pred_option (sameApplied rf) (handleInstallSnapshotResponse rf p sargs sreply)"
  unfolding handleInstallSnapshotResponse_def changeState_def Let_def by (intro go_wp) (auto simp: sameApplied_def)

lemma InstallSnapshot_applied: "pred_option (\<lambda>(rf', reply). sameApplied rf rf') (InstallSnapshot rf sargs)"
  unfolding InstallSnapshot_def Let_def by (intro go_wp) (auto simp: sameApplied_def)

lemma AppendEntries_applied: "pred_option (\<lambda>(rf', reply). sameApplied rf rf') (AppendEntries rf aargs)"
  unfolding AppendEntries_def advanceCommitIndexForFollower_def changeState_def Let_def bind_assoc
  by (intro go_wp) (auto simp: sameApplied_def split: if_splits)

lemma handleReplicateOneRoundResponse_applied: "pred_option (sameApplied rf) (handleReplicateOneRoundResponse rf p aargs areply)"
proof -
  have cl: "pred_option (sameApplied rf) (commitLoop rf1 left N)" if "sameApplied rf rf1" for rf1 left N
    using commitLoop_applied[of rf1 left N] that by (cases "commitLoop rf1 left N") (auto simp: sameApplied_def)
  show ?thesis
    unfolding handleReplicateOneRoundResponse_def changeState_def Let_def
    by (intro go_wp cl) (auto simp: sameApplied_def)
qed

lemma Make_applied: "Make n i ps = Some rf \<Longrightarrow> LastApplied rf = 0 \<and> applying rf = None"
  by (auto simp: Make_def readPersist_def bind_eq_Some_conv split: if_splits prod.splits)

text \<open>The entries that the applier takes out of the log follow what it has applied.\<close>

lemma taken_slice:
  assumes wl: "wfLog (Log rf) (CurrentTerm rf)" and f: "firstIdx (Log rf) \<le> LastApplied rf"
    and sl: "go_slice (Log rf) (LastApplied rf + 1 - firstIdx (Log rf)) (CommitIndex rf + 1 - firstIdx (Log rf)) = Some es"
  shows "contig (LastApplied rf + 1) es" "LastApplied rf + int (length es) = CommitIndex rf" "LastApplied rf \<le> CommitIndex rf"
proof -
  let ?i = "nat (LastApplied rf + 1 - firstIdx (Log rf))"
  have b: "0 \<le> LastApplied rf + 1 - firstIdx (Log rf)" "LastApplied rf \<le> CommitIndex rf"
    "CommitIndex rf + 1 - firstIdx (Log rf) \<le> int (length (Log rf))"
    "es = take (nat (CommitIndex rf - LastApplied rf)) (drop ?i (Log rf))"
    using sl by (auto simp: go_simps)
  show "LastApplied rf + int (length es) = CommitIndex rf" "LastApplied rf \<le> CommitIndex rf" using b by simp_all
  have "contig (firstIdx (Log rf)) (Log rf)" using wl by (simp add: wfLog_def)
  from contig_take[OF contig_drop[OF this, of ?i]] show "contig (LastApplied rf + 1) es"
    using b(1-3) unfolding b(4) by simp
qed

section \<open>What a step does to the applier of a peer\<close>

text \<open>The applier of a peer and the list of what it has delivered, before and after a step.\<close>

definition peerStep ::
  "('c, 'b) Raft \<Rightarrow> ('c, 'b) ApplyMsg list \<Rightarrow> ('c, 'b) Raft \<Rightarrow> ('c, 'b) ApplyMsg list \<Rightarrow> bool" where
  "peerStep rf ds rf' ds' \<longleftrightarrow>
     sameApplied rf rf' \<and> ds' = ds \<or> applierTake rf = Some rf' \<and> ds' = ds \<or>
     (\<exists>m. applierPush rf = Some (rf', m) \<and> ds' = ds @ [m]) \<or> rf' = applierDone rf \<and> ds' = ds \<or>
     LastApplied rf' = 0 \<and> applying rf' = None \<and> ds' = []"

lemma peerStep_cases:
  assumes "peerStep rf ds rf' ds'"
  obtains (same) "sameApplied rf rf'" "ds' = ds"
  | (takes) "applierTake rf = Some rf'" "ds' = ds"
  | (pushes) m where "applierPush rf = Some (rf', m)" "ds' = ds @ [m]"
  | (finishes) "rf' = applierDone rf" "ds' = ds"
  | (restarts) "LastApplied rf' = 0" "applying rf' = None" "ds' = []"
  using assms unfolding peerStep_def by (elim disjE exE conjE)

lemma peerStep_same: "sameApplied rf rf' \<Longrightarrow> peerStep rf ds rf' ds"
  by (simp add: peerStep_def)

text \<open>The other peers stay as they are.\<close>

lemma peerStep_at:
  "(j = i \<Longrightarrow> peerStep (node s i) ds rf ds') \<Longrightarrow> (j \<noteq> i \<Longrightarrow> ds' = ds) \<Longrightarrow> peerStep (node s i) ds (((node s)(j := rf)) i) ds'"
  by (cases "j = i") (auto intro: peerStep_same)

lemma clusterStep_peer:
  assumes "clusterStep s t" "safetyInv g s" "electionInv s" "noSnapshots s" "i \<in> ids s"
  shows "peerStep (node s i) (delivered s i) (node t i) (delivered t i)"
  using assms
proof (induction rule: clusterStep.induct)
  case (elect j s rf reqs)
  then show ?case using pred_optionD[OF electionTimeout_applied elect(3)] by (auto intro!: peerStep_at peerStep_same)
next
  case (voteRequest p args s rf reply)
  then show ?case using pred_optionD[OF RequestVote_applied voteRequest(3)] by (auto intro!: peerStep_at peerStep_same)
next
  case (voteReply p args reply s c cnt rf cnt' hb)
  then show ?case using pred_optionD[OF handleRequestVoteReply_applied voteReply(5)] by (auto intro!: peerStep_at peerStep_same)
next
  case (appendRequest p args s rf reply)
  then show ?case using pred_optionD[OF AppendEntries_applied appendRequest(2)] by (auto intro!: peerStep_at peerStep_same)
next
  case (appendReply p args reply s j rf)
  then show ?case using pred_optionD[OF handleReplicateOneRoundResponse_applied appendReply(3)] by (auto intro!: peerStep_at peerStep_same)
next
  case (snapshotRequest p sargs s rf reply)
  then show ?case using pred_optionD[OF InstallSnapshot_applied snapshotRequest(2)] by (auto intro!: peerStep_at peerStep_same)
next
  case (snapshotReply p sargs reply s j rf)
  then show ?case using pred_optionD[OF handleInstallSnapshotResponse_applied snapshotReply(3)] by (auto intro!: peerStep_at peerStep_same)
next
  case (clientStart j s c rf signalled result)
  then show ?case using pred_optionD[OF Start_applied clientStart(2)] by (auto intro!: peerStep_at peerStep_same)
next
  case (takeSnapshot j s k snap rf)
  then show ?case using pred_optionD[OF Snapshot_applied takeSnapshot(3)] by (auto intro!: peerStep_at peerStep_same)
next
  case (applyTake j s rf)
  then show ?case by (auto intro!: peerStep_at simp: peerStep_def)
next
  case (applyPush j s rf m)
  then show ?case by (cases "j = i") (auto simp: deliver_def peerStep_def)
next
  case (applyDone j s)
  then show ?case by (auto intro!: peerStep_at simp: peerStep_def)
next
  case (snapPush j s k rf m)
  then show ?case by (auto simp: noSnapshots_def snapshotPush_def)
next
  case (snapDone j s k)
  then show ?case by (auto intro!: peerStep_at peerStep_same simp: noSnapshots_def snapshotDone_def)
next
  case (kill j s)
  then show ?case by (auto intro!: peerStep_at peerStep_same simp: Kill_def sameApplied_def)
next
  case (restart j s rf)
  then show ?case using Make_applied[OF restart(2)] by (auto intro!: peerStep_at simp: peerStep_def)
qed (simp_all add: peerStep_same)

text \<open>A step that delivers a message is a turn of an applier: it pushes an entry it has taken.\<close>

lemma delivering_step:
  assumes "clusterStep s t" "noSnapshots s" "i \<in> ids s" "delivered t i = delivered s i @ [m]"
  shows "\<exists>rf. applierPush (node s i) = Some (rf, m) \<and> t = deliver (setNode s i rf) i m"
  using assms
proof (induction rule: clusterStep.induct)
  case (applyPush j s rf x)
  then have "j = i \<and> x = m" by (cases "j = i") (auto simp: deliver_def)
  then show ?case using applyPush by blast
next
  case (snapPush j s k rf x)
  then show ?case by (auto simp: noSnapshots_def snapshotPush_def)
next
  case (restart j s rf)
  then show ?case by (cases "j = i") auto
qed simp_all

section \<open>Delivery in order\<close>

text \<open>What a peer has delivered are the entries from index 1 on, and what it is about to deliver comes next.\<close>

definition inOrder :: "('c, 'b) Raft \<Rightarrow> ('c, 'b) ApplyMsg list \<Rightarrow> bool" where
  "inOrder rf ds \<longleftrightarrow>
     (\<forall>k < length ds. CommandValid (ds ! k) \<and> CommandIndex (ds ! k) = int k + 1) \<and>
     (case applying rf of
        None \<Rightarrow> LastApplied rf = int (length ds)
      | Some (es, c) \<Rightarrow> contig (int (length ds) + 1) es \<and> int (length ds) + int (length es) = c \<and> LastApplied rf \<le> int (length ds))"

lemma inOrder_same: "sameApplied rf rf' \<Longrightarrow> inOrder rf ds \<Longrightarrow> inOrder rf' ds"
  by (auto simp: sameApplied_def inOrder_def split: option.splits)

lemma inOrder_take:
  assumes so: "sound rf" and t: "applierTake rf = Some rf'" and o: "inOrder rf ds"
  shows "inOrder rf' ds"
proof (cases "applying rf = None")
  case True
  have wl: "wfLog (Log rf) (CurrentTerm rf)" using so by (simp add: sound_def wfRaft_def)
  from applierTake_cases[OF wfLog_nonempty[OF wl] t] show ?thesis
  proof (elim disjE exE conjE)
    assume "rf' = rf"
    then show ?thesis using o by simp
  next
    fix es assume f: "firstIdx (Log rf) \<le> LastApplied rf" and r: "rf' = rf\<lparr>applying := Some (es, CommitIndex rf)\<rparr>"
      and sl: "go_slice (Log rf) (LastApplied rf + 1 - firstIdx (Log rf)) (CommitIndex rf + 1 - firstIdx (Log rf)) = Some es"
    show ?thesis using taken_slice[OF wl f sl] o True by (simp add: inOrder_def r)
  qed
next
  case False
  then have "rf' = rf" using t by (auto simp: applierTake_def bind_eq_Some_conv split: if_splits)
  then show ?thesis using o by simp
qed

lemma inOrder_push:
  assumes p: "applierPush rf = Some (rf', m)" and o: "inOrder rf ds"
  shows "inOrder rf' (ds @ [m])"
proof -
  obtain e es c where a: "applying rf = Some (e # es, c)" "rf' = rf\<lparr>applying := Some (es, c)\<rparr>" "m = commandMsg e"
    using p by (auto simp: applierPush_def split: option.splits prod.splits list.splits)
  then show ?thesis using o by (auto simp: inOrder_def nth_append commandMsg_def algebra_simps)
qed

lemma inOrder_done: "inOrder rf ds \<Longrightarrow> inOrder (applierDone rf) ds"
  by (auto simp: inOrder_def applierDone_def max_def split: option.splits list.splits prod.splits)

lemma inOrder_step:
  assumes st: "clusterStep s t" and inv: "safetyInv g s" "electionInv s" "noSnapshots s" and i: "i \<in> ids s"
    and o: "inOrder (node s i) (delivered s i)"
  shows "inOrder (node t i) (delivered t i)"
  using clusterStep_peer[OF st inv i]
proof (cases rule: peerStep_cases)
  case same then show ?thesis using inOrder_same o by metis
next
  case takes then show ?thesis using inOrder_take[OF peer_facts(1)[OF inv(1,2) i] _ o] by simp
next
  case pushes then show ?thesis using inOrder_push o by metis
next
  case finishes then show ?thesis using inOrder_done o by metis
next
  case restarts then show ?thesis by (simp add: inOrder_def)
qed

section \<open>Runs without snapshots\<close>

definition plainInv :: "'c History \<Rightarrow> ('c, 'b) Cluster \<Rightarrow> bool" where
  "plainInv g s \<longleftrightarrow>
     safetyInv g s \<and> electionInv s \<and> noSnapshots s \<and> (\<forall>i \<in> ids s. inOrder (node s i) (delivered s i))"

lemma plainInv_boot: "plainInv bootHistory (bootCluster n :: ('c, 'b) Cluster)"
proof -
  let ?s = "bootCluster n :: ('c, 'b) Cluster"
  have "inOrder (node ?s i) []" if i: "i \<in> ids ?s" for i
  proof -
    have "0 \<le> i" "i < int n" using i by (auto simp: ids_def bootCluster_def)
    then obtain rf :: "('c, 'b) Raft" where rf: "Make n i MakePersister = Some rf" using bootNode by blast
    then show ?thesis using Make_applied[OF rf] by (auto simp: bootCluster_def inOrder_def)
  qed
  then show ?thesis using boot_safe[of n, where 'b = 'b] reachable_inv[OF reachable.boot] boot_noSnapshots
    by (auto simp: plainInv_def bootCluster_def)
qed

lemma plainInv_steps:
  assumes "plainStep\<^sup>*\<^sup>* s t" "plainInv g s"
  shows "\<exists>g'. grows g g' \<and> plainInv g' t \<and> csize t = csize s \<and> ids t = ids s"
  using assms
proof (induction rule: rtranclp_induct)
  case base
  then show ?case by (meson grows_refl)
next
  case (step t v)
  then obtain g' where g': "grows g g'" "plainInv g' t" "csize t = csize s" "ids t = ids s" by blast
  have st: "clusterStep t v" "noSnapshots v" using step.hyps(2) by (auto simp: plainStep_def)
  have inv: "safetyInv g' t" "electionInv t" "noSnapshots t" using g'(2) by (auto simp: plainInv_def)
  obtain g'' where g'': "grows g' g''" "safetyInv g'' v" using clusterStep_safe[OF st(1) inv(1,2)] by blast
  have z: "csize v = csize t" "ids v = ids t" using clusterStep_size[OF st(1)] by (simp_all add: ids_def)
  then have "plainInv g'' v" using g''(2) g'(2) clusterStep_keeps[OF st(1) inv(2)] st(2) inOrder_step[OF st(1) inv]
    by (auto simp: plainInv_def)
  then show ?case using grows_trans[OF g'(1) g''(1)] z g'(3,4) by auto
qed

text \<open>What one peer has delivered now and another at some later time: the shorter list is the beginning of
  the longer.\<close>

lemma delivered_same:
  assumes s: "plainInv g s" and t: "plainInv g' t" "grows g g'" "csize t = csize s" "ids t = ids s"
    and ij: "i \<in> ids s" "j \<in> ids s" and k: "k < length (delivered s i)" "k < length (delivered t j)"
  shows "delivered s i ! k = delivered t j ! k"
proof -
  have o: "CommandValid (delivered s i ! k)" "CommandIndex (delivered s i ! k) = int k + 1"
    "CommandValid (delivered t j ! k)" "CommandIndex (delivered t j ! k) = int k + 1"
    using s t(1,4) ij k by (auto simp: plainInv_def inOrder_def)
  have inv: "safetyInv g s" "electionInv s" "safetyInv g' t" "electionInv t" using s t(1) by (auto simp: plainInv_def)
  have ij': "i \<in> ids s" "j \<in> ids t" using ij t(4) by auto
  obtain e where e: "delivered s i ! k = commandMsg e" "CommandIndex (delivered s i ! k) = Index e"
    "taken g' (csize t) (ids t) (CurrentTerm (node s i)) (fullLog g i) e"
    using delivered_later[OF inv(1,2) t(2,4,3) ij'(1) nth_mem[OF k(1)] o(1)] .
  obtain f where f: "delivered t j ! k = commandMsg f" "CommandIndex (delivered t j ! k) = Index f"
    "taken g' (csize t) (ids t) (CurrentTerm (node t j)) (fullLog g' j) f"
    using delivered_taken[OF inv(3,4) ij'(2) nth_mem[OF k(2)] o(3)] .
  have "e = f" using taken_same[OF safetyInvD(1)[OF inv(3)] e(3) f(3)] e(2) f(2) o by simp
  then show ?thesis using e(1) f(1) by simp
qed

lemma delivered_agree:
  assumes "plainStep\<^sup>*\<^sup>* (bootCluster n) s" "plainStep\<^sup>*\<^sup>* s t" "i \<in> ids s" "j \<in> ids s"
    "k \<le> length (delivered s i)" "k \<le> length (delivered t j)"
  shows "take k (delivered s i) = take k (delivered t j)"
proof -
  obtain g where g: "plainInv g s" using plainInv_steps[OF assms(1) plainInv_boot] by blast
  obtain g' where "grows g g'" "plainInv g' t" "csize t = csize s" "ids t = ids s" using plainInv_steps[OF assms(2) g] by blast
  then show ?thesis using delivered_same[OF g, of g' t i j] assms(3-6) by (intro nth_equalityI) auto
qed

lemma delivered_order:
  assumes "plainStep\<^sup>*\<^sup>* (bootCluster n) s" "i \<in> ids s" "k < length (delivered s i)"
  shows "CommandValid (delivered s i ! k) \<and> CommandIndex (delivered s i ! k) = int k + 1"
proof -
  obtain g where "plainInv g s" using plainInv_steps[OF assms(1) plainInv_boot] by blast
  then show ?thesis using assms(2,3) by (auto simp: plainInv_def inOrder_def)
qed

end
