(* ===== verification/RaftConfigRun.thy ===== *)
theory RaftConfigRun
  imports RaftConfigNet RaftOrder
begin

text \<open>
  The harness and the cluster together: a run of the cluster in which the reader goroutine of each peer
  takes every message the peer delivers and checks it against all it has recorded.  The readers of
  the tests without snapshots never find anything wrong: no two peers deliver different commands for
  an index, and no peer skips one.
\<close>

section \<open>A test run\<close>

text \<open>A step delivers nothing (a crash takes the channel away with what it held), or one message, which the
  reader of that peer takes.\<close>

inductive testRun :: "nat \<Rightarrow> ('c, 'c testSnap) Cluster \<Rightarrow> 'c config \<Rightarrow> bool" for n where
  boots: "logs cfg = replicate n Map.empty \<Longrightarrow> applyErr cfg = replicate n None \<Longrightarrow> length (rafts cfg) = n \<Longrightarrow>
    testRun n (bootCluster n) cfg"
| silent: "testRun n s cfg \<Longrightarrow> clusterStep s t \<Longrightarrow> noSnapshots t \<Longrightarrow>
    \<forall>i. delivered t i = delivered s i \<or> delivered t i = [] \<Longrightarrow> testRun n t cfg"
| reads: "testRun n s cfg \<Longrightarrow> clusterStep s t \<Longrightarrow> noSnapshots t \<Longrightarrow> i \<in> ids s \<Longrightarrow>
    delivered t i = delivered s i @ [m] \<Longrightarrow> readerStep cfg i m = Some cfg' \<Longrightarrow> testRun n t cfg'"

section \<open>Order\<close>

text \<open>Everything a peer has applied is recorded, and so is everything before the entry it delivers next.\<close>

definition recordedTo :: "(int \<rightharpoonup> 'c option) \<Rightarrow> int \<Rightarrow> bool" where
  "recordedTo log a \<longleftrightarrow> (\<forall>k. 1 \<le> k \<and> k \<le> a \<longrightarrow> log k \<noteq> None)"

definition orderOk :: "(int \<rightharpoonup> 'c option) \<Rightarrow> ('c, 'b) Raft \<Rightarrow> bool" where
  "orderOk log rf \<longleftrightarrow>
     recordedTo log (LastApplied rf) \<and>
     (\<forall>es c. applying rf = Some (es, c) \<longrightarrow>
        (\<exists>a. contig (a + 1) es \<and> a + int (length es) = c \<and> recordedTo log a))"

lemma orderOk_same: "sameApplied rf rf' \<Longrightarrow> orderOk log rf \<Longrightarrow> orderOk log rf'"
  by (simp add: sameApplied_def orderOk_def)

lemma recordedTo_upd: "recordedTo log a \<Longrightarrow> recordedTo (log(k \<mapsto> v)) a"
  by (auto simp: recordedTo_def)

lemma recordedTo_next: "recordedTo log a \<Longrightarrow> recordedTo (log(a + 1 \<mapsto> v)) (a + 1)"
  by (auto simp: recordedTo_def)

lemma orderOk_upd: "orderOk log rf \<Longrightarrow> orderOk (log(k \<mapsto> v)) rf"
  unfolding orderOk_def by (meson recordedTo_upd)

lemma orderOk_take:
  assumes so: "sound rf" and t: "applierTake rf = Some rf'" and o: "orderOk log rf"
  shows "orderOk log rf'"
proof -
  have wl: "wfLog (Log rf) (CurrentTerm rf)" using so by (simp add: sound_def wfRaft_def)
  from applierTake_cases[OF wfLog_nonempty[OF wl] t] show ?thesis
  proof (elim disjE exE conjE)
    assume "rf' = rf"
    then show ?thesis using o by simp
  next
    fix es assume f: "firstIdx (Log rf) \<le> LastApplied rf" and r: "rf' = rf\<lparr>applying := Some (es, CommitIndex rf)\<rparr>"
      and sl: "go_slice (Log rf) (LastApplied rf + 1 - firstIdx (Log rf)) (CommitIndex rf + 1 - firstIdx (Log rf)) = Some es"
    show ?thesis using taken_slice[OF wl f sl] o unfolding orderOk_def r by (auto intro!: exI[of _ "LastApplied rf"])
  qed
qed

lemma orderOk_push:
  assumes p: "applierPush rf = Some (rf', m)" and o: "orderOk log rf"
  shows "CommandValid m \<and> (1 < CommandIndex m \<longrightarrow> log (CommandIndex m - 1) \<noteq> None) \<and>
    orderOk (log(CommandIndex m \<mapsto> amCommand m)) rf'"
proof -
  obtain e es c where a: "applying rf = Some (e # es, c)" "rf' = rf\<lparr>applying := Some (es, c)\<rparr>" "m = commandMsg e"
    using p by (auto simp: applierPush_def split: option.splits prod.splits list.splits)
  obtain b where b: "contig (b + 1) (e # es)" "b + int (length (e # es)) = c" "recordedTo log b"
    using o a(1) by (auto simp: orderOk_def)
  have i: "Index e = b + 1" using b(1) by simp
  have "contig (b + 1 + 1) es" using b(1) by simp
  then have "orderOk (log(b + 1 \<mapsto> v)) rf'" for v
    using o b(2) recordedTo_next[OF b(3), of v] recordedTo_upd[of log "LastApplied rf" "b + 1" v] unfolding orderOk_def a(2)
    by (auto intro!: exI[of _ "b + 1"])
  moreover have "1 < b + 1 \<longrightarrow> log b \<noteq> None" using b(3) unfolding recordedTo_def by auto
  ultimately show ?thesis using i by (auto simp: a(3) commandMsg_def)
qed

lemma orderOk_done: "orderOk log rf \<Longrightarrow> orderOk log (applierDone rf)"
  by (auto simp: orderOk_def applierDone_def max_def split: option.splits list.splits prod.splits)

section \<open>The invariant of a test run\<close>

definition recorded :: "'c History \<Rightarrow> ('c, 'b) Cluster \<Rightarrow> (int \<rightharpoonup> 'c option) list \<Rightarrow> bool" where
  "recorded g s ls \<longleftrightarrow>
     (\<forall>j k v. j < length ls \<and> (ls ! j) k = Some v \<longrightarrow>
        (\<exists>T l e. taken g (csize s) (ids s) T l e \<and> Index e = k \<and> Command e = v))"

definition ordered :: "('c, 'b) Cluster \<Rightarrow> (int \<rightharpoonup> 'c option) list \<Rightarrow> bool" where
  "ordered s ls \<longleftrightarrow> (\<forall>i \<in> ids s. orderOk (ls ! nat i) (node s i))"

lemma recorded_grows:
  "recorded g s ls \<Longrightarrow> grows g g' \<Longrightarrow> csize t = csize s \<Longrightarrow> ids t = ids s \<Longrightarrow> recorded g' t ls"
  unfolding recorded_def by (metis grows_taken finite_ids)

text \<open>A step that delivers nothing leaves every peer in order.\<close>

lemma silent_ordered:
  assumes st: "clusterStep s t" and inv: "safetyInv g s" "electionInv s" "noSnapshots s" and o: "ordered s ls"
    and d: "\<forall>i. delivered t i = delivered s i \<or> delivered t i = []"
  shows "ordered t ls"
  unfolding ordered_def
proof
  fix i assume "i \<in> ids t"
  then have i: "i \<in> ids s" using clusterStep_size[OF st] by (simp add: ids_def)
  then have oi: "orderOk (ls ! nat i) (node s i)" using o by (simp add: ordered_def)
  from clusterStep_peer[OF st inv i] show "orderOk (ls ! nat i) (node t i)"
  proof (cases rule: peerStep_cases)
    case same then show ?thesis using orderOk_same[OF _ oi] by blast
  next
    case takes then show ?thesis using orderOk_take[OF peer_facts(1)[OF inv(1,2) i] _ oi] by blast
  next
    case (pushes m) then show ?thesis using d[rule_format, of i] by auto
  next
    case finishes then show ?thesis using orderOk_done[OF oi] by simp
  next
    case restarts then show ?thesis by (auto simp: orderOk_def recordedTo_def)
  qed
qed

definition testInv :: "nat \<Rightarrow> ('c, 'c testSnap) Cluster \<Rightarrow> 'c config \<Rightarrow> bool" where
  "testInv n s cfg \<longleftrightarrow>
     csize s = n \<and> length (logs cfg) = n \<and> applyErr cfg = replicate n None \<and> length (rafts cfg) = n \<and> electionInv s \<and> noSnapshots s \<and> ordered s (logs cfg) \<and>
     (\<exists>g. safetyInv g s \<and> recorded g s (logs cfg))"

lemma findMismatch_None:
  assumes "\<And>k. k < length ls \<Longrightarrow> (ls ! k) (CommandIndex m) \<in> {None, Some (amCommand m)}"
  shows "findMismatch i m j ls None = None"
  using assms
proof (induction ls arbitrary: j)
  case (Cons l ls)
  have "l (CommandIndex m) \<in> {None, Some (amCommand m)}" using Cons.prems[of 0] by simp
  moreover have "findMismatch i m (j + 1) ls None = None" using Cons.prems[of "Suc _"] by (intro Cons.IH) auto
  ultimately show ?case by auto
qed simp

text \<open>The reader accepts what the applier pushes: it agrees with all that is recorded and comes in order.\<close>

lemma push_accepted:
  assumes inv: "testInv n s cfg" and i: "i \<in> ids s" and p: "applierPush (node s i) = Some (rf, m)"
  shows "\<exists>cfg'. readerStep cfg i m = Some cfg' \<and> applyErr cfg' = applyErr cfg \<and> rafts cfg' = rafts cfg \<and>
    logs cfg' = (logs cfg)[nat i := (logs cfg ! nat i)(CommandIndex m \<mapsto> amCommand m)]"
proof -
  obtain g where g: "safetyInv g s" "recorded g s (logs cfg)" using inv by (auto simp: testInv_def)
  have e: "electionInv s" and o: "orderOk (logs cfg ! nat i) (node s i)" and n: "length (logs cfg) = csize s"
    using inv i by (auto simp: testInv_def ordered_def)
  note f = peer_facts[OF g(1) e i]
  obtain x es c where a: "applying (node s i) = Some (x # es, c)" "m = commandMsg x"
    using p by (auto simp: applierPush_def split: option.splits prod.splits list.splits)
  have tk: "taken g (csize s) (ids s) (CurrentTerm (node s i)) (fullLog g i) x" using f(13) a(1) by (auto simp: applyingOk_def)
  have "findMismatch i m 0 (logs cfg) None = None"
  proof (rule findMismatch_None)
    fix k assume k: "k < length (logs cfg)"
    show "(logs cfg ! k) (CommandIndex m) \<in> {None, Some (amCommand m)}"
    proof (cases "(logs cfg ! k) (CommandIndex m)")
      case (Some v)
      then obtain T l y where y: "taken g (csize s) (ids s) T l y" "Index y = CommandIndex m" "Command y = v"
        using g(2) k unfolding recorded_def by blast
      have "y = x" using taken_same[OF safetyInvD(1)[OF g(1)] y(1) tk] y(2) a(2) by (simp add: commandMsg_def)
      then show ?thesis using Some y(3) a(2) by (simp add: commandMsg_def)
    qed simp
  qed
  moreover have "CommandValid m" "1 < CommandIndex m \<longrightarrow> (logs cfg ! nat i) (CommandIndex m - 1) \<noteq> None"
    using orderOk_push[OF p o] by auto
  moreover have "go_index (logs cfg) i = Some (logs cfg ! nat i)"
    "\<And>x. go_set (logs cfg) i x = Some ((logs cfg)[nat i := x])" using f(4,5) n by (auto simp: go_simps)
  ultimately show ?thesis by (auto simp: readerStep_def checkLogs_def)
qed

lemma boot_test:
  assumes "logs cfg = replicate n Map.empty" "applyErr cfg = replicate n None" "length (rafts cfg) = n"
  shows "testInv n (bootCluster n) cfg"
proof -
  let ?s = "bootCluster n :: ('a, 'a testSnap) Cluster"
  have p: "plainInv bootHistory ?s" by (rule plainInv_boot)
  have "orderOk (logs cfg ! nat i) (node ?s i)" if i: "i \<in> ids ?s" for i
  proof -
    have "inOrder (node ?s i) []" using p i by (simp add: plainInv_def bootCluster_def)
    then show ?thesis by (auto simp: inOrder_def orderOk_def recordedTo_def split: option.splits)
  qed
  then show ?thesis using assms p by (auto simp: testInv_def plainInv_def ordered_def recorded_def bootCluster_def)
qed

lemma testInv_push:
  assumes inv: "testInv n s cfg" and st: "clusterStep s t" and ns: "noSnapshots t" and i: "i \<in> ids s"
    and d: "delivered t i = delivered s i @ [m]" and r: "readerStep cfg i m = Some cfg'"
  shows "testInv n t cfg'"
proof -
  obtain rf where p: "applierPush (node s i) = Some (rf, m)" and t: "t = deliver (setNode s i rf) i m"
    using delivering_step[OF st _ i d] inv by (auto simp: testInv_def)
  let ?upd = "\<lambda>log. log(CommandIndex m \<mapsto> amCommand m)"
  have l: "logs cfg' = (logs cfg)[nat i := ?upd (logs cfg ! nat i)]" "applyErr cfg' = applyErr cfg" "rafts cfg' = rafts cfg" using push_accepted[OF inv i p] r by auto
  obtain g where g: "safetyInv g s" "recorded g s (logs cfg)" using inv by (auto simp: testInv_def)
  have e: "electionInv s" and n: "csize s = n" "length (logs cfg) = n" "ordered s (logs cfg)" using inv by (auto simp: testInv_def)
  obtain g' where g': "grows g g'" "safetyInv g' t" using clusterStep_safe[OF st g(1) e] by blast
  have et: "electionInv t" using clusterStep_keeps[OF st e] .
  have ii: "csize t = csize s" "ids t = ids s" by (simp_all add: t deliver_def)
  have rc: "recorded g' t (logs cfg)" by (rule recorded_grows[OF g(2) g'(1)]) (use ii in auto)
  have il: "nat i < length (logs cfg)" using i n by (auto simp: ids_def)
  have v: "CommandValid m" using orderOk_push[OF p] n(3) i by (auto simp: ordered_def)
  have "m \<in> set (delivered t i)" using d by simp
  then obtain x where x: "m = commandMsg x" "CommandIndex m = Index x"
    "taken g' (csize t) (ids t) (CurrentTerm (node t i)) (fullLog g' i) x"
    using delivered_taken[OF g'(2) et _ _ v] i ii by blast
  have "recorded g' t (logs cfg')" unfolding recorded_def l(1)
  proof (intro allI impI)
    fix j k w assume a: "j < length ((logs cfg)[nat i := ?upd (logs cfg ! nat i)]) \<and>
      ((logs cfg)[nat i := ?upd (logs cfg ! nat i)] ! j) k = Some w"
    show "\<exists>T l e. taken g' (csize t) (ids t) T l e \<and> Index e = k \<and> Command e = w"
    proof (cases "nat i = j \<and> k = CommandIndex m")
      case True
      then have "w = amCommand m" using a il by (auto simp: nth_list_update split: if_splits)
      then show ?thesis using True x by (auto simp: commandMsg_def)
    next
      case False
      then have "j < length (logs cfg)" "(logs cfg ! j) k = Some w" using a il by (auto simp: nth_list_update split: if_splits)
      then show ?thesis using rc by (auto simp: recorded_def)
    qed
  qed
  moreover have "orderOk (logs cfg' ! nat j) (node t j)" if j: "j \<in> ids s" for j
  proof (cases "j = i")
    case True
    then show ?thesis using il orderOk_push[OF p] n(3) i by (simp add: ordered_def l(1) t deliver_def)
  next
    case False
    then have "nat j \<noteq> nat i" using i j by (auto simp: ids_def)
    then show ?thesis using False n(3) j by (simp add: ordered_def l(1) t deliver_def)
  qed
  ultimately show ?thesis using inv ns et g'(2) n ii l unfolding testInv_def ordered_def by auto
qed

lemma testRun_inv: "testRun n s cfg \<Longrightarrow> testInv n s cfg"
proof (induction rule: testRun.induct)
  case (boots cfg)
  then show ?case by (rule boot_test)
next
  case (silent s cfg t)
  obtain g where g: "safetyInv g s" "recorded g s (logs cfg)" using silent.IH by (auto simp: testInv_def)
  have e: "electionInv s" "noSnapshots s" "ordered s (logs cfg)" using silent.IH by (auto simp: testInv_def)
  obtain g' where g': "grows g g'" "safetyInv g' t" using clusterStep_safe[OF silent.hyps(2) g(1) e(1)] by blast
  have c: "csize t = csize s" using clusterStep_size[OF silent.hyps(2)] .
  then have "recorded g' t (logs cfg)" by (intro recorded_grows[OF g(2) g'(1)]) (auto simp: ids_def)
  then show ?case using silent_ordered[OF silent.hyps(2) g(1) e silent.hyps(4)] g'(2) clusterStep_keeps[OF silent.hyps(2) e(1)]
      silent.IH silent.hyps(3) c by (auto simp: testInv_def)
next
  case reads
  then show ?case using testInv_push by blast
qed

end
