(* ===== verification/LabRpcProps.thy ===== *)
theory LabRpcProps
  imports LabRpc
begin

text \<open>
  What the clients of the network rely on: a positive reply is the answer of a handler that was run
  once, on a server that is still there, and a call over a network in good order returns it.
\<close>

section \<open>Waiting for the handler\<close>

text \<open>One execution of the method on a server.\<close>

definition executeOn :: "'a codec \<Rightarrow> 'e reqMsg \<Rightarrow> nat \<Rightarrow> ('a, 'w) Hosts \<Rightarrow> ('a, 'w) Hosts \<Rightarrow> replyMsg \<Rightarrow> bool" where
  "executeOn cdc req p st st' r \<longleftrightarrow>
     (\<exists>rs w. serverDispatch cdc (hosts st p) req (world st) = Ret (rs, w, r) \<and> st' = st\<lparr>hosts := (hosts st)(p := rs), world := w\<rparr>)"

lemma runHandler_first: "runHandler cdc req p st None = Ret (st', ech) \<longleftrightarrow> (\<exists>r. ech = Some r \<and> executeOn cdc req p st st' r)"
  by (auto simp: runHandler_def executeOn_def split: Run.splits)

lemma runHandler_again [simp]: "runHandler cdc req p st (Some r) = Ret (st, Some r)"
  by (simp add: runHandler_def)

lemma elapse_append [simp]: "elapse (a @ b) st = elapse b (elapse a st)"
  by (induction a st rule: elapse.induct) auto

text \<open>Once the handler has run, nothing of the request happens to the servers any more.\<close>

lemma drain_after: "drain cdc req p ms st (Some r) = Ret (elapse ms st)"
  by (induction ms st rule: elapse.induct) auto

lemma awaitReply_after:
  assumes "awaitReply cdc req n p ms st (Some r) = Ret (st', w)"
  shows "st' = elapse ms st \<and> (w = Replied r' \<longrightarrow> r' = r \<and> (\<exists>mid rest. ms = mid @ TakeAnswer # rest \<and>
    (\<forall>q. Poll q \<in> set mid \<longrightarrow> \<not> isServerDead q (endname req) n p)))"
  using assms
proof (induction ms arbitrary: st)
  case (Cons m ms)
  show ?case
  proof (cases m)
    case HandlerRuns
    then show ?thesis using Cons by auto (metis append_Cons set_ConsD Moment.distinct(3))
  next
    case TakeAnswer
    then show ?thesis using Cons.prems by (auto simp: drain_after intro: exI[of _ "[]"])
  next
    case (Poll q)
    show ?thesis
    proof (cases "isServerDead q (endname req) n p")
      case True
      then show ?thesis using Cons.prems Poll by (simp add: drain_after)
    next
      case False
      then show ?thesis using Cons Poll by auto (metis append_Cons set_ConsD Moment.inject(1))
    qed
  next
    case (Others f)
    then show ?thesis using Cons by auto (metis append_Cons set_ConsD Moment.distinct(11))
  qed
qed simp

text \<open>Until then others are alone; a request whose server was found dead may still run.\<close>

definition onceAt :: "'a codec \<Rightarrow> 'e reqMsg \<Rightarrow> nat \<Rightarrow> ('e, 'n, 'a, 'w) Moment list \<Rightarrow> ('e, 'n, 'a, 'w) Moment list \<Rightarrow> ('a, 'w) Hosts \<Rightarrow> ('a, 'w) Hosts \<Rightarrow> replyMsg \<Rightarrow> bool" where
  "onceAt cdc req p before rest st st' r \<longleftrightarrow>
     HandlerRuns \<notin> set before \<and> (\<exists>s. executeOn cdc req p (elapse before st) s r \<and> st' = elapse rest s)"

lemma onceAt_run: "onceAt cdc req p [] ms st st' r \<longleftrightarrow> (\<exists>s. executeOn cdc req p st s r \<and> st' = elapse ms s)"
  by (simp add: onceAt_def)

lemma onceAt_Cons:
  "onceAt cdc req p (m # before) rest st st' r \<longleftrightarrow> m \<noteq> HandlerRuns \<and> onceAt cdc req p before rest (elapse [m] st) st' r"
  by (cases m) (auto simp: onceAt_def)

lemma drain_once:
  assumes "drain cdc req p ms st None = Ret st'"
  shows "HandlerRuns \<notin> set ms \<and> st' = elapse ms st \<or> (\<exists>before rest r. ms = before @ HandlerRuns # rest \<and> onceAt cdc req p before rest st st' r)"
  using assms
proof (induction ms arbitrary: st)
  case (Cons m ms)
  show ?case
  proof (cases "m = HandlerRuns")
    case True
    then obtain s r where "executeOn cdc req p st s r" "st' = elapse ms s"
      using Cons.prems by (auto simp: runHandler_first drain_after split: Run.splits)
    then show ?thesis using True onceAt_run by blast
  next
    case False
    then have "drain cdc req p ms (elapse [m] st) None = Ret st'" using Cons.prems by (cases m) auto
    moreover have "elapse ms (elapse [m] st) = elapse (m # ms) st" by (cases m) auto
    ultimately show ?thesis using Cons.IH[of "elapse [m] st"] False
      by simp (metis append_Cons onceAt_Cons elapse.simps(1))
  qed
qed simp

text \<open>The loop: the handler has not run and there is no reply, or it has run once, and a reply is its answer.\<close>

lemma awaitReply_once:
  assumes "awaitReply cdc req n p ms st None = Ret (st', w)"
  shows "HandlerRuns \<notin> set ms \<and> st' = elapse ms st \<and> (\<forall>r. w \<noteq> Replied r) \<or>
    (\<exists>before rest r. ms = before @ HandlerRuns # rest \<and> onceAt cdc req p before rest st st' r \<and>
      (\<forall>r'. w = Replied r' \<longrightarrow> r' = r \<and> (\<exists>mid rest'. rest = mid @ TakeAnswer # rest' \<and>
        (\<forall>q. Poll q \<in> set (before @ mid) \<longrightarrow> \<not> isServerDead q (endname req) n p))))"
  using assms
proof (induction ms arbitrary: st)
  case (Cons m ms)
  consider (run) "m = HandlerRuns" | (dead) q where "m = Poll q" "isServerDead q (endname req) n p"
    | (other) "m \<noteq> HandlerRuns" "\<And>q. m = Poll q \<Longrightarrow> \<not> isServerDead q (endname req) n p" by blast
  then show ?case
  proof cases
    case run
    then obtain s r where s: "executeOn cdc req p st s r" "awaitReply cdc req n p ms s (Some r) = Ret (st', w)"
      using Cons.prems by (auto simp: runHandler_first split: Run.splits)
    then have "onceAt cdc req p [] ms st st' r" using awaitReply_after[OF s(2)] onceAt_run by blast
    then show ?thesis using run awaitReply_after[OF s(2)] by (metis append_Nil)
  next
    case dead
    then have d: "drain cdc req p ms st None = Ret st'" "w = ServerDead" using Cons.prems by (auto split: Run.splits)
    then show ?thesis using drain_once[OF d(1)] dead(1)
      by simp (metis append_Cons onceAt_Cons elapse.simps(1,5) Moment.distinct(3))
  next
    case other
    then have "awaitReply cdc req n p ms (elapse [m] st) None = Ret (st', w)" using Cons.prems by (cases m) auto
    from Cons.IH[OF this] show ?thesis
    proof
      assume "HandlerRuns \<notin> set ms \<and> st' = elapse ms (elapse [m] st) \<and> (\<forall>r. w \<noteq> Replied r)"
      moreover have "elapse ms (elapse [m] st) = elapse (m # ms) st" by (cases m) auto
      ultimately show ?thesis using other(1) by auto
    next
      assume "\<exists>before rest r. ms = before @ HandlerRuns # rest \<and> onceAt cdc req p before rest (elapse [m] st) st' r \<and>
        (\<forall>r'. w = Replied r' \<longrightarrow> r' = r \<and> (\<exists>mid rest'. rest = mid @ TakeAnswer # rest' \<and>
          (\<forall>q. Poll q \<in> set (before @ mid) \<longrightarrow> \<not> isServerDead q (endname req) n p)))"
      then obtain before rest r where h: "ms = before @ HandlerRuns # rest" "onceAt cdc req p before rest (elapse [m] st) st' r"
        "\<forall>r'. w = Replied r' \<longrightarrow> r' = r \<and> (\<exists>mid rest'. rest = mid @ TakeAnswer # rest' \<and>
          (\<forall>q. Poll q \<in> set (before @ mid) \<longrightarrow> \<not> isServerDead q (endname req) n p))" by blast
      have "\<forall>r'. w = Replied r' \<longrightarrow> r' = r \<and> (\<exists>mid rest'. rest = mid @ TakeAnswer # rest' \<and>
          (\<forall>q. Poll q \<in> set ((m # before) @ mid) \<longrightarrow> \<not> isServerDead q (endname req) n p))"
        using h(3) other(2) by (metis append_Cons set_ConsD)
      moreover have "onceAt cdc req p (m # before) rest st st' r" using h(2) other(1) by (simp add: onceAt_Cons)
      moreover have "m # ms = (m # before) @ HandlerRuns # rest" using h(1) by simp
      ultimately show ?thesis by blast
    qed
  qed
qed simp

text \<open>Conversely, a handler that runs while the server lives gives the reply.\<close>

lemma awaitReply_taken:
  assumes "\<forall>q. Poll q \<in> set mid \<longrightarrow> \<not> isServerDead q (endname req) n p"
  shows "awaitReply cdc req n p (mid @ TakeAnswer # rest) st (Some r) = Ret (elapse (mid @ rest) st, Replied r)"
  using assms by (induction mid st rule: elapse.induct) (auto simp: drain_after)

lemma awaitReply_runs:
  assumes "HandlerRuns \<notin> set before" "\<forall>q. Poll q \<in> set (before @ mid) \<longrightarrow> \<not> isServerDead q (endname req) n p"
    "executeOn cdc req p (elapse before st) s r"
  shows "awaitReply cdc req n p (before @ HandlerRuns # mid @ TakeAnswer # rest) st None = Ret (elapse (mid @ rest) s, Replied r)"
  using assms
proof (induction before st rule: elapse.induct)
  case (1 st)
  then have "runHandler cdc req p st None = Ret (s, Some r)" by (simp add: runHandler_first)
  then show ?case using 1 by (simp add: awaitReply_taken)
qed auto

section \<open>The goroutine of a request\<close>

lemma reaches_info:
  "reaches rn req dice = Some (n, p) \<longleftrightarrow>
     connections rn (endname req) = Some n \<and> servers rn n = Some p \<and> enabled rn (endname req) \<and>
     (reliable rn \<or> \<not> diceRequest dice mod 1000 < 100)"
  by (auto simp: reaches_def readEndnameInfo_def split: option.splits if_splits)


lemma processReq_unreached:
  assumes "reaches rn req dice = None"
  shows "\<exists>ms. processReq cdc rn req dice moments rnEnd st = Ret (elapse moments st, Some (Deliver ms failed, 0))"
  using assms by (auto simp: reaches_def processReq_def readEndnameInfo_def split: option.splits if_splits)

lemma processReq_reached:
  assumes "reaches rn req dice = Some (n, p)"
  shows "\<exists>short. processReq cdc rn req dice moments rnEnd st =
    (case awaitReply cdc req n p moments st None of
       Panic \<Rightarrow> Panic
     | Blocked \<Rightarrow> Blocked
     | Ret (st, Waiting) \<Rightarrow> Ret (st, None)
     | Ret (st, ServerDead) \<Rightarrow> Ret (st, Some (Deliver short failed, 0))
     | Ret (st, Replied r) \<Rightarrow>
         if isServerDead rnEnd (endname req) n p \<or> \<not> reliable rn \<and> diceReply dice mod 1000 < 100 then Ret (st, Some (Deliver short failed, 0))
         else if longReordering rn \<and> diceOrder dice mod 900 < 600
         then Ret (st, Some (Deliver (short + (200 + diceDelay2 dice mod (1 + diceDelay1 dice mod 2000))) r, length (reply r)))
         else Ret (st, Some (Deliver short r, length (reply r))))"
proof -
  have "connections rn (endname req) = Some n" "servers rn n = Some p" "enabled rn (endname req)"
    "reliable rn \<or> \<not> diceRequest dice mod 1000 < 100" using assms by (simp_all add: reaches_info)
  then show ?thesis
    by (intro exI[of _ "if reliable rn then 0 else diceShort dice mod 27"])
      (auto simp: processReq_def readEndnameInfo_def split: Run.split Waited.split)
qed

text \<open>Whatever the network does to a request, its method runs at most once, and on the server the end was connected to.\<close>

lemma processReq_at_most_once:
  assumes "processReq cdc rn req dice moments rnEnd st = Ret (st', d)"
  shows "st' = elapse moments st \<or>
    (\<exists>n p before rest r. reaches rn req dice = Some (n, p) \<and> moments = before @ HandlerRuns # rest \<and> onceAt cdc req p before rest st st' r)"
proof (cases "reaches rn req dice")
  case None
  then show ?thesis using processReq_unreached[OF None, of cdc moments rnEnd st] assms by auto
next
  case (Some np)
  obtain n p where np: "np = (n, p)" by (cases np)
  obtain w where "awaitReply cdc req n p moments st None = Ret (st', w)"
  proof (cases "awaitReply cdc req n p moments st None")
    case (Ret x)
    then show thesis using processReq_reached[OF Some[unfolded np], of cdc moments rnEnd st] assms that
      by (cases x; cases "snd x") (auto split: if_splits)
  qed (use processReq_reached[OF Some[unfolded np], of cdc moments rnEnd st] assms in auto)
  from awaitReply_once[OF this] show ?thesis using Some np by blast
qed

lemma processReq_reply:
  assumes "processReq cdc rn req dice moments rnEnd st = Ret (st', Some (Deliver ms r, sent))" "ok r"
  obtains n p where "reaches rn req dice = Some (n, p)" "awaitReply cdc req n p moments st None = Ret (st', Replied r)"
    "\<not> isServerDead rnEnd (endname req) n p" "sent = length (reply r)"
proof (cases "reaches rn req dice")
  case None
  then show thesis using processReq_unreached[OF None, of cdc moments rnEnd st] assms by (auto simp: failed_def)
next
  case (Some np)
  obtain n p where np: "np = (n, p)" by (cases np)
  show thesis
  proof (cases "awaitReply cdc req n p moments st None")
    case (Ret x)
    then show thesis using processReq_reached[OF Some[unfolded np], of cdc moments rnEnd st] assms Some np that[of n p]
      by (cases x; cases "snd x") (auto simp: failed_def split: if_splits)
  qed (use processReq_reached[OF Some[unfolded np], of cdc moments rnEnd st] assms in auto)
qed

section \<open>Properties\<close>

text \<open>C40. A positive reply is never made up: whatever the dice and whatever happens to the network and the servers while
  the request is on its way, a request that is answered with success reached a server, the answer
  is the one \<^const>\<open>serverDispatch\<close> returned on that server, in the state others had left, it ran once, so that all that happened afterwards
  is what others did, the server was alive at every look in between
  and was still registered and connected at the end, and the bytes of the reply are counted.  In
  particular no reply comes from a server after it has been deleted.\<close>

theorem positive_reply_from_live_server:
  assumes "processReq cdc rn req dice moments rnEnd st = Ret (st', Some (Deliver ms r, sent))" "ok r"
  shows "\<exists>n p before mid rest rs w. reaches rn req dice = Some (n, p) \<and>
    moments = before @ HandlerRuns # mid @ TakeAnswer # rest \<and> HandlerRuns \<notin> set before \<and>
    (\<forall>q. Poll q \<in> set (before @ mid) \<longrightarrow> \<not> isServerDead q (endname req) n p) \<and>
    (let s = elapse before st in
      serverDispatch cdc (hosts s p) req (world s) = Ret (rs, w, r) \<and>
      st' = elapse (mid @ rest) (s\<lparr>hosts := (hosts s)(p := rs), world := w\<rparr>)) \<and>
    enabled rnEnd (endname req) \<and> servers rnEnd n = Some p \<and> sent = length (reply r)"
proof -
  obtain n p where np: "reaches rn req dice = Some (n, p)" "awaitReply cdc req n p moments st None = Ret (st', Replied r)"
    "\<not> isServerDead rnEnd (endname req) n p" "sent = length (reply r)"
    using processReq_reply[OF assms] by metis
  from awaitReply_once[OF np(2)] obtain before mid rest where h:
    "moments = before @ HandlerRuns # mid @ TakeAnswer # rest" "onceAt cdc req p before (mid @ TakeAnswer # rest) st st' r"
    "\<forall>q. Poll q \<in> set (before @ mid) \<longrightarrow> \<not> isServerDead q (endname req) n p" by auto
  moreover obtain rs w where "serverDispatch cdc (hosts (elapse before st) p) req (world (elapse before st)) = Ret (rs, w, r)"
    "st' = elapse (mid @ rest) (elapse before st\<lparr>hosts := (hosts (elapse before st))(p := rs), world := w\<rparr>)" "HandlerRuns \<notin> set before"
    using h(2) by (auto simp: onceAt_def executeOn_def)
  moreover have "enabled rnEnd (endname req)" "servers rnEnd n = Some p" using np(3) by (simp_all add: isServerDead_def split: if_splits)
  ultimately show ?thesis using np(1,4) unfolding Let_def by blast
qed

definition demoCodec :: "bytes codec" where
  "demoCodec = \<lparr>encode = Some, decode = Some, typeName = (\<lambda>_. []), zeroValue = (\<lambda>_. [])\<rparr>"

definition demoMethod :: "(bytes, nat) Method" where
  "demoMethod = \<lparr>mName = ''M'', pkgPath = [], numIn = 3, in2Ptr = True, numOut = 0, func = (\<lambda>a w. (w + 1, 9 # a))\<rparr>"

definition demoSrv :: "(bytes, nat) Server" where
  "demoSrv = AddService MakeServer (MakeService ''S'' [demoMethod])"

definition demoHosts :: "(bytes, nat) Hosts" where
  "demoHosts = \<lparr>hosts = (\<lambda>_. demoSrv), world = 4\<rparr>"

definition demoNet :: "(nat, nat) Network" where
  "demoNet = Enable (Connect (AddServer MakeNetwork 7 3) 1 7) 1 True"

definition demoReq :: "nat reqMsg" where
  "demoReq = \<lparr>endname = 1, svcMeth = ''S.M'', argsType = [], args = [5]\<rparr>"

definition demoDice :: Dice where
  "demoDice = \<lparr>diceShort = 0, diceRequest = 500, diceReply = 500, diceOrder = 0, diceDelay1 = 0, diceDelay2 = 0, diceFail = 0\<rparr>"

definition demoReply :: replyMsg where
  "demoReply = \<lparr>ok = True, reply = [9, 5]\<rparr>"

definition demoMoments :: "(nat, nat, bytes, nat) Moment list" where
  "demoMoments = [Poll demoNet, Others (\<lambda>st. st\<lparr>world := world st * 2\<rparr>), HandlerRuns, Poll demoNet, TakeAnswer]"

definition demoAfter :: "(bytes, nat) Hosts" where
  "demoAfter = demoHosts\<lparr>hosts := (hosts demoHosts)(3 := demoSrv\<lparr>srvCount := 1\<rparr>), world := 9\<rparr>"

lemmas demo_simps = demoNet_def demoReq_def demoDice_def demoReply_def Enable_def Connect_def AddServer_def MakeNetwork_def
  Reliable_def processReq_def readEndnameInfo_def isServerDead_def demoMoments_def demoAfter_def demoHosts_def demoSrv_def
  AddService_def MakeServer_def MakeService_def demoMethod_def demoCodec_def runHandler_def serverDispatch_def serviceDispatch_def

theorem positive_reply_from_live_server_witness:
  "processReq demoCodec (Reliable demoNet False) demoReq demoDice demoMoments demoNet demoHosts = Ret (demoAfter, Some (Deliver 0 demoReply, 2)) \<and>
   servers demoNet 7 = Some 3"
proof -
  have c: "processReq demoCodec (Reliable demoNet False) demoReq demoDice demoMoments demoNet demoHosts = Ret (demoAfter, Some (Deliver 0 demoReply, 2))"
    by (simp add: demo_simps)
  have "ok demoReply" by (simp add: demoReply_def)
  from positive_reply_from_live_server[OF c this] obtain n p where
    "reaches (Reliable demoNet False) demoReq demoDice = Some (n, p)" "servers demoNet n = Some p" by blast
  then have "servers demoNet 7 = Some 3"
    by (auto simp: reaches_info demo_simps split: if_splits)
  then show ?thesis using c by blast
qed

lemma lastDot_suffix: "CHR ''.'' \<notin> set m \<Longrightarrow> lastDot (CHR ''.'' # m) = Some 0 \<and> lastDot m = None"
  by (induction m) auto

lemma lastDot_append: "lastDot t = Some i \<Longrightarrow> lastDot (s @ t) = Some (length s + i)"
  by (induction s) auto

lemma lastDot_name: "CHR ''.'' \<notin> set m \<Longrightarrow> lastDot (s @ ''.'' @ m) = Some (length s)"
  using lastDot_append[of "CHR ''.'' # m" 0 s] lastDot_suffix[of m] by simp

text \<open>C18. A call over a network in good order is one call of the method: on a reliable network without
  long reordering, over an enabled end connected to a registered server that stays there, with anything others do to the servers before,
  while and after the handler runs, the request finds service
  and method by its name on that server, the method runs on the argument that was sent, and on nothing else and not again, the server counts
  one request more, and the call returns what the method returned.\<close>

theorem reliable_call:
  assumes net: "reliable rn" "\<not> longReordering rn" "\<not> doneClosed rn" "connections rn (ceName e) = Some n" "servers rn n = Some p" "enabled rn (ceName e)"
    and live: "\<forall>q. Poll q \<in> set (before @ mid) \<longrightarrow> \<not> isServerDead q (ceName e) n p" "\<not> isServerDead rnEnd (ceName e) n p"
    and first: "HandlerRuns \<notin> set before" "s0 = elapse before st"
    and cdc: "encode cdc a = Some ab" "decode cdc ab = Some a" "encode cdc r = Some rb" "decode cdc rb = Some r"
    and svc: "services (hosts s0 p) s = Some service" "methods service meth = Some f" "CHR ''.'' \<notin> set meth" "func f a (world s0) = (w', r)"
  shows "ClientCall cdc e rn (s @ ''.'' @ meth) a dice (before @ HandlerRuns # mid @ TakeAnswer # rest) rnEnd st =
    Ret (elapse (mid @ rest) (s0\<lparr>hosts := (hosts s0)(p := (hosts s0 p)\<lparr>srvCount := srvCount (hosts s0 p) + 1\<rparr>), world := w'\<rparr>), Some (Some r))"
    (is "ClientCall cdc e rn _ a dice ?ms rnEnd st = Ret (elapse _ ?s1, _)")
proof -
  let ?req = "\<lparr>endname = ceName e, svcMeth = s @ ''.'' @ meth, argsType = typeName cdc a, args = ab\<rparr>"
  let ?rep = "\<lparr>ok = True, reply = rb\<rparr>"
  have c: "callRequest cdc e (s @ ''.'' @ meth) a = Some ?req" using cdc(1) by (simp add: callRequest_def)
  have d: "executeOn cdc ?req p (elapse before st) ?s1 ?rep"
    using svc cdc lastDot_name[OF svc(3), of s] by (simp add: executeOn_def serverDispatch_def serviceDispatch_def first(2)[symmetric])
  have re: "reaches (netReceive rn ?req) ?req dice = Some (n, p)" using net by (simp add: reaches_info netReceive_def)
  have aw: "awaitReply cdc ?req n p ?ms st None = Ret (elapse (mid @ rest) ?s1, Replied ?rep)"
    using awaitReply_runs[OF first(1) _ d] live(1) by simp
  obtain short where "processReq cdc (netReceive rn ?req) ?req dice ?ms rnEnd st = Ret (elapse (mid @ rest) ?s1, Some (Deliver short ?rep, length rb))"
    using processReq_reached[OF re, of cdc ?ms rnEnd st] aw live(2) net(1,2) by (auto simp: netReceive_def)
  then show ?thesis using c net(3) cdc(4) by (simp add: ClientCall_def callReply_def)
qed

theorem reliable_call_witness:
  "ClientCall demoCodec \<lparr>ceName = 1\<rparr> demoNet (''S'' @ ''.'' @ ''M'') [5] demoDice demoMoments demoNet demoHosts = Ret (demoAfter, Some (Some [9, 5]))"
proof -
  let ?before = "[Poll demoNet, Others (\<lambda>st. st\<lparr>world := world st * 2\<rparr>)]" and ?mid = "[Poll demoNet]"
  let ?s0 = "elapse ?before demoHosts"
  have n: "reliable demoNet" "\<not> longReordering demoNet" "\<not> doneClosed demoNet" "connections demoNet (ceName \<lparr>ceName = 1\<rparr>) = Some 7"
    "servers demoNet 7 = Some 3" "enabled demoNet (ceName \<lparr>ceName = 1\<rparr>)" by (simp_all add: demo_simps)
  have l: "\<forall>q. Poll q \<in> set (?before @ ?mid) \<longrightarrow> \<not> isServerDead q (ceName \<lparr>ceName = 1\<rparr>) 7 3" "\<not> isServerDead demoNet (ceName \<lparr>ceName = 1\<rparr>) 7 3"
    by (simp_all add: demo_simps)
  have c: "encode demoCodec [5] = Some [5]" "decode demoCodec [5] = Some [5]" "encode demoCodec [9, 5] = Some [9, 5]" "decode demoCodec [9, 5] = Some [9, 5]"
    by (simp_all add: demoCodec_def)
  have s: "services (hosts ?s0 3) ''S'' = Some (MakeService ''S'' [demoMethod])" "methods (MakeService ''S'' [demoMethod]) ''M'' = Some demoMethod"
    "CHR ''.'' \<notin> set ''M''" "func demoMethod [5] (world ?s0) = (9, [9, 5])"
    by (simp_all add: demo_simps)
  have m: "demoMoments = ?before @ HandlerRuns # ?mid @ TakeAnswer # []" by (simp add: demoMoments_def)
  have a: "elapse (?mid @ []) (?s0\<lparr>hosts := (hosts ?s0)(3 := (hosts ?s0 3)\<lparr>srvCount := srvCount (hosts ?s0 3) + 1\<rparr>), world := 9\<rparr>) = demoAfter"
    by (simp add: demo_simps)
  have f: "HandlerRuns \<notin> set ?before" by simp
  show ?thesis unfolding m using reliable_call[OF n l f refl c s, of demoDice "[]"] unfolding a .
qed

end
