(* ===== verification/RaftConfigProps.thy ===== *)
theory RaftConfigProps
  imports RaftConfigRun LabRpcProps
begin

text \<open>
  What the test harness of Raft promises to the tests: its readers and its checks accept what the modelled
  peers do, and its switches cut exactly the links they name.
\<close>

section \<open>Counting the peers that have a command\<close>

text \<open>No two peers have recorded different commands at index \<open>k\<close>.\<close>

lemma recorded_same:
  assumes "testRun n s cfg" "i < n" "j < n" "(logs cfg ! i) k = Some v" "(logs cfg ! j) k = Some w"
  shows "v = w"
proof -
  obtain g where g: "safetyInv g s" "recorded g s (logs cfg)" and n: "length (logs cfg) = n"
    using testRun_inv[OF assms(1)] by (auto simp: testInv_def)
  obtain T l e where e: "taken g (csize s) (ids s) T l e" "Index e = k" "Command e = v"
    using g(2) n assms(2,4) unfolding recorded_def by blast
  obtain T' l' f where f: "taken g (csize s) (ids s) T' l' f" "Index f = k" "Command f = w"
    using g(2) n assms(3,5) unfolding recorded_def by blast
  show ?thesis using taken_same[OF safetyInvD(1)[OF g(1)] e(1) f(1)] e f by simp
qed

definition having :: "'c config \<Rightarrow> int \<Rightarrow> int list \<Rightarrow> int list" where
  "having cfg k is = filter (\<lambda>i. (logs cfg ! nat i) k \<noteq> None) is"

lemma committedLoop_counts:
  assumes "\<forall>i \<in> set is. 0 \<le> i \<and> i < int (length (logs cfg)) \<and> (logs cfg ! nat i) k \<in> {None, Some v}"
    "applyErr cfg = replicate (length (logs cfg)) None" "0 \<le> count" "count > 0 \<longrightarrow> cmd = v"
  shows "\<exists>cmd'. committedLoop cfg k is count cmd = Some (count + int (length (having cfg k is)), cmd') \<and>
    (count + int (length (having cfg k is)) > 0 \<longrightarrow> cmd' = v)"
  using assms(1,3,4)
proof (induction "is" arbitrary: count cmd)
  case (Cons i "is")
  have i: "go_index (applyErr cfg) i = Some None" "go_index (logs cfg) i = Some (logs cfg ! nat i)"
    using Cons.prems(1) assms(2) by (auto simp: go_index_def)
  show ?case
  proof (cases "(logs cfg ! nat i) k")
    case None
    then show ?thesis using Cons i by (simp add: having_def)
  next
    case (Some w)
    then have "w = v" using Cons.prems(1) by simp
    then show ?thesis using Some Cons.IH[of "count + 1" v] Cons.prems i by (auto simp: having_def algebra_simps)
  qed
qed (simp add: having_def)

section \<open>Leaders that a pass sees\<close>

text \<open>A pass reads the peers one after the other while the cluster runs: \<open>ss\<close> are the states at these moments.\<close>

definition observed :: "nat \<Rightarrow> 'c Reading \<Rightarrow> bool" where
  "observed n ps \<longleftrightarrow>
     (\<exists>ss. length ss = n \<and> (\<forall>i < n. reachable n (ss ! i)) \<and>
        (\<forall>i j. i \<le> j \<and> j < n \<longrightarrow> clusterStep\<^sup>*\<^sup>* (ss ! i) (ss ! j)) \<and>
        ps = map (\<lambda>i. Some (node (ss ! i) (int i))) [0..<n])"

definition leads :: "'c config \<Rightarrow> 'c Reading \<Rightarrow> int \<Rightarrow> int \<Rightarrow> bool" where
  "leads cfg ps t i \<longleftrightarrow> go_index (connected cfg) i = Some True \<and> askPeer ps i = Some (t, True)"

text \<open>The only leader of the largest term with a leader.\<close>

definition newestLeader :: "'c config \<Rightarrow> 'c Reading \<Rightarrow> int \<Rightarrow> bool" where
  "newestLeader cfg ps i \<longleftrightarrow>
     (\<exists>t. leads cfg ps t i \<and> (\<forall>u j. leads cfg ps u j \<longrightarrow> u \<le> t \<and> (u = t \<longrightarrow> j = i)))"

definition leaderless :: "'c config \<Rightarrow> 'c Reading \<Rightarrow> bool" where
  "leaderless cfg ps \<longleftrightarrow> (\<forall>t i. \<not> leads cfg ps t i)"

text \<open>Two leaders of a term that are seen at different moments are the same peer.\<close>

lemma leaders_over_time:
  assumes "reachable n s" "clusterStep\<^sup>*\<^sup>* s t" "i \<in> ids s" "j \<in> ids s"
    "state (node s i) = LEADER" "state (node t j) = LEADER" "CurrentTerm (node s i) = CurrentTerm (node t j)"
  shows "i = j"
proof -
  obtain g g' where g: "safetyInv g s" "safetyInv g' t" "grows g g'" using run_histories[OF assms(1,2)] by blast
  have "j \<in> ids t" using assms(4) steps_size[OF assms(2)] by simp
  then have "leaderOf g' (CurrentTerm (node t j)) = Some j" using leader_facts(1)[OF g(2) _ assms(6)] by simp
  moreover have "leaderOf g' (CurrentTerm (node s i)) = Some i"
    using leader_facts(1)[OF g(1) assms(3,5)] g(3) by (simp add: grows_def)
  ultimately show ?thesis using assms(7) by simp
qed

lemma leader_term_positive:
  assumes "reachable n s" "i \<in> ids s" "state (node s i) = LEADER"
  shows "0 < CurrentTerm (node s i)"
proof -
  obtain g where g: "safetyInv g s" using reachable_safe[OF assms(1)] by blast
  then have "candidateOk g (CurrentTerm (node s i)) i"
    using leader_facts(1)[OF g assms(2,3)] electedOkD safetyInvD(1)[OF g] by (fastforce simp: electedOk_def)
  then show ?thesis by (simp add: candidateOk_def)
qed

lemma ids_reachable: "reachable n s \<Longrightarrow> ids s = {0..<int n}"
  using reachable_size by (auto simp: ids_def)

lemma observed_leads:
  assumes o: "observed n ps" and l: "leads cfg ps t i" "leads cfg ps t j"
  shows "i = j \<and> 0 < t"
proof -
  obtain ss where ss: "length ss = n" "\<And>i. i < n \<Longrightarrow> reachable n (ss ! i)"
    "\<And>i j. i \<le> j \<Longrightarrow> j < n \<Longrightarrow> clusterStep\<^sup>*\<^sup>* (ss ! i) (ss ! j)"
    "ps = map (\<lambda>i. Some (node (ss ! i) (int i))) [0..<n]" using o by (auto simp: observed_def)
  have at: "0 \<le> k \<and> nat k < n \<and> k \<in> ids (ss ! nat k') \<and> state (node (ss ! nat k) k) = LEADER \<and> CurrentTerm (node (ss ! nat k) k) = t"
    if "leads cfg ps t k" "nat k' < n" for k k'
    using that by (auto simp: leads_def askPeer_def GetState_def ss(4) go_simps bind_eq_Some_conv ids_reachable[OF ss(2)])
  have r: "nat i < n" "nat j < n" "0 \<le> i" "0 \<le> j" using l by (auto simp: leads_def askPeer_def ss(4) go_simps bind_eq_Some_conv)
  note ai = at[OF l(1)] and aj = at[OF l(2)]
  have "i = j"
  proof (cases "nat i \<le> nat j")
    case True
    show ?thesis by (rule leaders_over_time[OF ss(2)[OF r(1)] ss(3)[OF True r(2)]]) (use ai aj r in auto)
  next
    case False
    then have "nat j \<le> nat i" by simp
    have "j = i" by (rule leaders_over_time[OF ss(2)[OF r(2)] ss(3)[OF \<open>nat j \<le> nat i\<close> r(1)]]) (use ai aj r in auto)
    then show ?thesis by simp
  qed
  then show ?thesis using leader_term_positive[OF ss(2)[OF r(1)], of i] ai r by auto
qed

subsection \<open>The table of leaders\<close>

definition entries :: "(int \<times> int list) list \<Rightarrow> (int \<times> int) set" where
  "entries ls = {(t, i). \<exists>is. (t, is) \<in> set ls \<and> i \<in> set is}"

definition tableOk :: "(int \<times> int list) list \<Rightarrow> bool" where
  "tableOk ls \<longleftrightarrow> distinct (map fst ls) \<and> (\<forall>(t, is) \<in> set ls. is \<noteq> [] \<and> distinct is)"

lemma addLeader_entries: "entries (addLeader t i ls) = insert (t, i) (entries ls)"
  by (induction t i ls rule: addLeader.induct) (auto simp: entries_def)

lemma addLeader_terms: "fst ` set (addLeader t i ls) = insert t (fst ` set ls)"
  by (induction t i ls rule: addLeader.induct) auto

lemma addLeader_ok: "tableOk ls \<Longrightarrow> (t, i) \<notin> entries ls \<Longrightarrow> tableOk (addLeader t i ls)"
proof (induction t i ls rule: addLeader.induct)
  case (2 t i u "is" rest)
  then have r: "tableOk rest" "(t, i) \<notin> entries rest" by (auto simp: tableOk_def entries_def)
  show ?case
  proof (cases "u = t")
    case True
    then show ?thesis using 2 by (auto simp: tableOk_def entries_def)
  next
    case False
    then have "u \<notin> fst ` set (addLeader t i rest)" using 2(2) by (simp add: addLeader_terms tableOk_def)
    then show ?thesis using 2(1)[OF False r] 2(2) False by (simp add: tableOk_def)
  qed
qed (simp add: tableOk_def)

lemma collectLeaders_table:
  assumes "\<forall>i \<in> set is. 0 \<le> i \<and> i < int (length (connected cfg)) \<and> i < int (length ps)" "\<forall>p \<in> set ps. p \<noteq> None"
    "tableOk ls" "distinct is" "\<forall>(t, i) \<in> entries ls. i \<notin> set is"
  shows "\<exists>ls'. collectLeaders cfg ps is ls = Some ls' \<and> tableOk ls' \<and>
    entries ls' = entries ls \<union> {(t, i). i \<in> set is \<and> leads cfg ps t i}"
  using assms(1,3-5)
proof (induction "is" arbitrary: ls)
  case (Cons i "is")
  obtain rf where rf: "ps ! nat i = Some rf" using Cons.prems(1) assms(2) nth_mem[of "nat i" ps] by (cases "ps ! nat i") auto
  let ?c = "connected cfg ! nat i"
  have c: "go_index (connected cfg) i = Some ?c" "askPeer ps i = Some (GetState rf)"
    using Cons.prems(1) rf by (simp_all add: askPeer_def go_index_def)
  define l1 where "l1 = (if ?c \<and> snd (GetState rf) then addLeader (fst (GetState rf)) i ls else ls)"
  have l: "{t. leads cfg ps t i} = (if ?c \<and> snd (GetState rf) then {fst (GetState rf)} else {})"
    using c by (auto simp: leads_def prod_eq_iff)
  have e: "entries l1 = entries ls \<union> {(t, i) | t. leads cfg ps t i}" using l by (auto simp: l1_def addLeader_entries)
  have "tableOk l1" using Cons.prems(2,4) by (auto simp: l1_def intro!: addLeader_ok)
  moreover have "\<forall>(t, j) \<in> entries l1. j \<notin> set is" using Cons.prems(3,4) by (auto simp: e)
  ultimately obtain l2 where l2: "collectLeaders cfg ps is l1 = Some l2" "tableOk l2"
    "entries l2 = entries l1 \<union> {(t, i). i \<in> set is \<and> leads cfg ps t i}"
    using Cons.IH[of l1] Cons.prems(1,3) by auto
  have "collectLeaders cfg ps (i # is) ls = Some l2" using c l2(1) by (cases "GetState rf") (auto simp: l1_def)
  moreover have "entries l2 = entries ls \<union> {(t, j). j \<in> set (i # is) \<and> leads cfg ps t j}" using l2(3) e by auto
  ultimately show ?case using l2(2) by blast
qed simp

lemma largestTerm_max:
  assumes "\<forall>(t, is) \<in> set ls. length is \<le> 1"
  shows "\<exists>m. largestTerm ls lo = Some m \<and> lo \<le> m \<and> (\<forall>t \<in> fst ` set ls. t \<le> m) \<and> (m = lo \<or> m \<in> fst ` set ls)"
  using assms
proof (induction ls arbitrary: lo)
  case (Cons x ls)
  obtain t ts where x: "x = (t, ts)" by (cases x)
  obtain m where "largestTerm ls (if t > lo then t else lo) = Some m" "(if t > lo then t else lo) \<le> m"
    "\<forall>t \<in> fst ` set ls. t \<le> m" "m = (if t > lo then t else lo) \<or> m \<in> fst ` set ls"
    using Cons.IH[of "if t > lo then t else lo"] Cons.prems by auto
  then show ?case using Cons.prems x by (auto split: if_splits)
qed simp

lemma entries_empty: "tableOk ls \<Longrightarrow> entries ls = {} \<longleftrightarrow> ls = []"
proof (cases ls)
  case (Cons x rest)
  assume "tableOk ls"
  then have "hd (snd x) \<in> set (snd x)" using Cons by (cases x) (auto simp: tableOk_def)
  then show ?thesis using Cons by (cases x) (auto simp: entries_def)
qed (simp add: entries_def)

lemma leaderPass_result:
  assumes o: "observed n ps" and n: "cfgN cfg = n" "length (connected cfg) = n"
  shows "(leaderPass cfg ps = Some None \<and> leaderless cfg ps) \<or> (\<exists>i. leaderPass cfg ps = Some (Some i) \<and> newestLeader cfg ps i)"
proof -
  have ps: "length ps = n" "\<forall>p \<in> set ps. p \<noteq> None" using o by (auto simp: observed_def)
  have "\<exists>ls. collectLeaders cfg ps (map int [0..<n]) [] = Some ls \<and> tableOk ls \<and>
    entries ls = entries [] \<union> {(t, i). i \<in> set (map int [0..<n]) \<and> leads cfg ps t i}"
    by (rule collectLeaders_table) (use ps n in \<open>auto simp: tableOk_def entries_def distinct_map\<close>)
  moreover have "i \<in> set (map int [0..<n])" if "leads cfg ps t i" for t i
    using that n(2) by (auto simp: leads_def go_simps image_iff intro!: bexI[of _ "nat i"])
  then have "entries [] \<union> {(t, i). i \<in> set (map int [0..<n]) \<and> leads cfg ps t i} = {(t, i). leads cfg ps t i}"
    by (auto simp: entries_def)
  ultimately obtain ls where ls: "collectLeaders cfg ps (map int [0..<n]) [] = Some ls" "tableOk ls"
    "entries ls = {(t, i). leads cfg ps t i}" by metis
  have one: "\<exists>i. x = (fst x, [i]) \<and> leads cfg ps (fst x) i" if "x \<in> set ls" for x
  proof -
    obtain t xs where x: "x = (t, xs)" by (cases x)
    have d: "distinct xs" "xs \<noteq> []" using that ls(2) by (auto simp: x tableOk_def)
    have l: "leads cfg ps t i" if "i \<in> set xs" for i using ls(3) \<open>x \<in> set ls\<close> that by (auto simp: x entries_def)
    then have "set xs \<subseteq> {hd xs}" using observed_leads[OF o l l] d(2) by auto
    then have "xs = [hd xs]" using d by (cases xs; cases "tl xs") auto
    then show ?thesis using l[of "hd xs"] x d(2) by auto
  qed
  then have "\<forall>(t, is) \<in> set ls. length is \<le> 1" by fastforce
  from largestTerm_max[OF this, of "-1"] obtain m where m: "largestTerm ls (-1) = Some m"
    "\<forall>t \<in> fst ` set ls. t \<le> m" "m = -1 \<or> m \<in> fst ` set ls" by blast
  show ?thesis
  proof (cases "ls = []")
    case True
    then have "leaderPass cfg ps = Some None" using ls(1) n by (simp add: leaderPass_def)
    then show ?thesis using ls(3) True by (auto simp: entries_def leaderless_def)
  next
    case False
    then obtain x where "x \<in> set ls" by (cases ls) auto
    then have "0 < fst x" "fst x \<le> m" using one observed_leads[OF o] m(2) by blast+
    then have "m \<in> fst ` set ls" using m(3) by auto
    then obtain y where y: "y \<in> set ls" "fst y = m" by blast
    obtain i where "y = (fst y, [i])" "leads cfg ps (fst y) i" using one[OF y(1)] by blast
    then have i: "(m, [i]) \<in> set ls" "leads cfg ps m i" using y by metis+
    have "map_of ls m = Some [i]" using i(1) ls(2) by (intro map_of_is_SomeI) (auto simp: tableOk_def)
    then have "leaderPass cfg ps = Some (Some i)" using ls(1) m(1) n False by (simp add: leaderPass_def go_index_def)
    moreover have "u \<le> m" if "leads cfg ps u j" for u j
    proof -
      have "(u, j) \<in> entries ls" using that ls(3) by simp
      then show ?thesis using m(2) by (force simp: entries_def)
    qed
    moreover have "j = i" if "leads cfg ps m j" for j using observed_leads[OF o that i(2)] by simp
    ultimately show ?thesis using i(2) unfolding newestLeader_def by blast
  qed
qed

lemma leaderLoop_result:
  assumes "\<forall>ps \<in> set readings. observed n ps" "cfgN cfg = n" "length (connected cfg) = n"
  shows "case leaderLoop cfg readings of
     None \<Rightarrow> \<forall>ps \<in> set readings. leaderless cfg ps
   | Some i \<Rightarrow> \<exists>ps \<in> set readings. newestLeader cfg ps i"
  using assms(1)
proof (induction readings)
  case (Cons ps rest)
  from Cons.prems have o: "observed n ps" by simp
  from leaderPass_result[OF o assms(2,3)] Cons show ?case by (auto split: option.splits)
qed simp

section \<open>The properties\<close>

text \<open>C22. The readers of the test harness accept every run: in a test without snapshots, whatever the
  network loses or reorders and whichever peers crash and restart, the message that a peer delivers next
  is never reported as a mismatch with what any peer has delivered before nor as out of order,
  and the reader records it for that peer.\<close>

theorem readers_accept:
  assumes r: "testRun n s cfg" and st: "clusterStep s t" and i: "i \<in> ids s" and d: "delivered t i = delivered s i @ [m]"
  shows "\<exists>cfg'. readerStep cfg i m = Some cfg' \<and> CommandValid m \<and>
    logs cfg' = (logs cfg)[nat i := (logs cfg ! nat i)(CommandIndex m \<mapsto> amCommand m)]"
proof -
  have inv: "testInv n s cfg" using testRun_inv[OF r] .
  then have "noSnapshots s" "orderOk (logs cfg ! nat i) (node s i)" using i by (auto simp: testInv_def ordered_def)
  moreover from this obtain rf where "applierPush (node s i) = Some (rf, m)" using delivering_step[OF st _ i d] by blast
  ultimately show ?thesis using push_accepted[OF inv i] orderOk_push by metis
qed

text \<open>Asking how many peers have delivered a command at an index never fails a test: the answer is
  the number of peers with an entry there, and the command is the one all of them have.\<close>

lemma nCommitted_counts:
  assumes r: "testRun n s cfg"
  shows "\<exists>cmd. nCommitted cfg k = Some (int (card {i. i < n \<and> (logs cfg ! i) k \<noteq> None}), cmd) \<and>
    (\<forall>i < n. (logs cfg ! i) k \<noteq> None \<longrightarrow> (logs cfg ! i) k = Some cmd)"
proof -
  have inv: "length (logs cfg) = n" "applyErr cfg = replicate n None" "length (rafts cfg) = n"
    using testRun_inv[OF r] by (auto simp: testInv_def)
  define v where "v = (SOME v. \<exists>i < n. (logs cfg ! i) k = Some v)"
  have v: "(logs cfg ! i) k = Some w \<Longrightarrow> i < n \<Longrightarrow> w = v" for i w
    using someI_ex[of "\<lambda>v. \<exists>i < n. (logs cfg ! i) k = Some v"] recorded_same[OF r, of i] unfolding v_def by blast
  have "\<forall>i \<in> set (map int [0..<n]). 0 \<le> i \<and> i < int (length (logs cfg)) \<and> (logs cfg ! nat i) k \<in> {None, Some v}"
    using v inv(1) by fastforce
  from committedLoop_counts[OF this, of 0 None] inv obtain cmd where cmd:
    "nCommitted cfg k = Some (int (length (having cfg k (map int [0..<n]))), cmd)"
    "length (having cfg k (map int [0..<n])) > 0 \<longrightarrow> cmd = v" by (auto simp: nCommitted_def go_range_def)
  have l: "length (having cfg k (map int [0..<n])) = card {i. i < n \<and> (logs cfg ! i) k \<noteq> None}"
    by (simp add: having_def filter_map o_def) (subst distinct_card[symmetric], auto intro!: arg_cong[where f = card])
  moreover have "cmd = v" if "i < n" "(logs cfg ! i) k \<noteq> None" for i
  proof -
    have "card {i. i < n \<and> (logs cfg ! i) k \<noteq> None} > 0" using that by (subst card_gt_0_iff) auto
    then show ?thesis using cmd(2) l by simp
  qed
  ultimately show ?thesis using cmd(1) v by (intro exI[of _ cmd]) fastforce
qed

text \<open>C23. The check for one leader: reading the peers one after the other while the cluster runs, it never
  reports two leaders of a term; it fails only when none of its ten passes sees a connected leader,
  and the peer it returns is the only leader of the largest term that its pass saw.\<close>

theorem checkOneLeader_correct:
  assumes o: "\<forall>ps \<in> set readings. observed n ps" and n: "cfgN cfg = n" "length (connected cfg) = n"
  shows "case checkOneLeader cfg readings of
     None \<Rightarrow> \<forall>ps \<in> set (take 10 readings). leaderless cfg ps
   | Some i \<Rightarrow> \<exists>ps \<in> set (take 10 readings). newestLeader cfg ps i"
  unfolding checkOneLeader_def by (rule leaderLoop_result[OF _ n]) (use o set_take_subset in fast)

text \<open>C24. The switches of the harness: in every configuration of a test, over a reliable network, a request on
  the end that peer \<open>i\<close> has for peer \<open>j\<close> reaches a server exactly when both are connected and \<open>j\<close> runs, and
  then the server of \<open>j\<close>, however often peers were connected, disconnected, crashed and restarted before.\<close>

theorem links_follow_connections:
  assumes c: "configured n cfg" and e: "endAt cfg i j = Some (endname req)" and rel: "reliable (cfgNet cfg)"
  shows "(\<exists>p. reaches (cfgNet cfg) req dice = Some (k, p)) \<longleftrightarrow>
    k = j \<and> connected cfg ! nat i \<and> connected cfg ! nat j \<and> rafts cfg ! nat j \<noteq> None"
proof -
  have ok: "shapeOk cfg" "linksOk cfg" "serversOk cfg" using configured_ok[OF c] by (auto simp: configOk_def)
  note r = endAt_range[OF ok(1) e]
  have "connections (cfgNet cfg) (endname req) = Some j"
    "enabled (cfgNet cfg) (endname req) = (connected cfg ! nat i \<and> connected cfg ! nat j)"
    using ok(2) e by (auto simp: linksOk_def)
  moreover have "servers (cfgNet cfg) j \<noteq> None \<longleftrightarrow> rafts cfg ! nat j \<noteq> None" using ok(3) r(3,4) unfolding serversOk_def
    by (metis nat_0_le nat_less_iff)
  ultimately show ?thesis using rel by (auto simp: reaches_info)
qed

section \<open>The properties at concrete runs\<close>

text \<open>Three peers, of which peer 0 is about to deliver its first command.\<close>

lemma testRun_closed:
  assumes "logs cfg = replicate n Map.empty" "applyErr cfg = replicate n None" "length (rafts cfg) = n"
  shows "quietlyClosed n (\<lambda>s. testRun n s cfg)"
proof -
  have "noSnapshots t" if r: "testRun n s cfg" and st: "clusterStep s t" and nd: "node t = (node s)(i := rf)"
    and q: "snapshotsToPush rf = []" "snapshotsPushed rf = []" for s t i rf
    using testRun_inv[OF r] clusterStep_size[OF st] nd q by (auto simp: testInv_def noSnapshots_def ids_def)
  then show ?thesis using testRun.boots[OF assms] testRun.silent unfolding quietlyClosed_def by metis
qed

definition demoConfig :: "nat config" where
  "demoConfig = (emptyConfig 3)\<lparr>connected := [True, True, True]\<rparr>"

lemma demoConfig_fields: "logs demoConfig = replicate 3 Map.empty" "applyErr demoConfig = replicate 3 None"
  "length (rafts demoConfig) = 3" "connected demoConfig = [True, True, True]" "cfgN demoConfig = 3"
  by (simp_all add: demoConfig_def emptyConfig_def)

lemma demo_test:
  "\<exists>s t :: (nat, nat testSnap) Cluster. testRun 3 s demoConfig \<and> clusterStep s t \<and> csize s = 3 \<and> noSnapshots t \<and>
     delivered s 0 = [] \<and> delivered t 0 = [firstMsg 7]"
proof -
  obtain s :: "(nat, nat testSnap) Cluster" where s: "testRun 3 s demoConfig" "csize s = 3" "node s 0 = lead3 7"
    "delivered s = (\<lambda>_. [])" using demo_taken[OF testRun_closed, of demoConfig 7] demoConfig_fields by blast
  define t where "t = deliver (setNode s 0 (lead4 7)) 0 (firstMsg 7)"
  have "clusterStep s t" unfolding t_def using s demo_steps(6) by (intro clusterStep.applyPush) (auto simp: ids_def)
  moreover have "noSnapshots t" using testRun_inv[OF s(1)] demo_quiet(6) by (auto simp: testInv_def noSnapshots_def t_def deliver_def ids_def)
  moreover have "delivered t 0 = [firstMsg 7]" using s(4) by (simp add: t_def deliver_def)
  ultimately show ?thesis using s by (intro exI[of _ s] exI[of _ t]) simp
qed

theorem readers_accept_witness:
  "\<exists>(s :: (nat, nat testSnap) Cluster) t cfg'. testRun 3 s demoConfig \<and> clusterStep s t \<and> delivered t 0 = [firstMsg 7] \<and>
     readerStep demoConfig 0 (firstMsg 7) = Some cfg' \<and> (logs cfg' ! 0) 1 = Some (Some 7)"
proof -
  obtain s t :: "(nat, nat testSnap) Cluster" where s: "testRun 3 s demoConfig" "clusterStep s t" "csize s = 3"
    "delivered s 0 = []" "delivered t 0 = [firstMsg 7]" using demo_test by blast
  obtain cfg' where "readerStep demoConfig 0 (firstMsg 7) = Some cfg'"
    "logs cfg' = (logs demoConfig)[nat 0 := (logs demoConfig ! nat 0)(CommandIndex (firstMsg 7 :: (nat, nat testSnap) ApplyMsg) \<mapsto>
       amCommand (firstMsg 7 :: (nat, nat testSnap) ApplyMsg))]"
    using readers_accept[OF s(1,2), of 0 "firstMsg 7"] s(3-5) by (auto simp: ids_def)
  then show ?thesis using s by (intro exI[of _ s] exI[of _ t] exI[of _ cfg'])
      (simp add: demoConfig_fields firstMsg_def commandMsg_def)
qed

theorem checkOneLeader_correct_witness:
  "\<exists>(s :: (nat, nat testSnap) Cluster) ps. reachable 3 s \<and> ps = [Some (node s 0), Some (node s 1), Some (node s 2)] \<and>
     leads demoConfig ps 1 0 \<and> (\<exists>i. checkOneLeader demoConfig [ps] = Some i \<and> newestLeader demoConfig ps i)"
proof -
  obtain s :: "(nat, nat testSnap) Cluster" where s: "reachable 3 s" "csize s = 3" "node s 0 = electedPeer"
    using demo_run[OF reachable_closed] by blast
  let ?ps = "[Some (node s 0), Some (node s 1), Some (node s 2)]"
  have "?ps = map (\<lambda>i. Some (node ([s, s, s] ! i) (int i))) [0..<3]" by (simp add: upt_rec)
  moreover have "\<forall>i < 3. [s, s, s] ! i = s" by (auto simp: less_Suc_eq numeral_3_eq_3)
  ultimately have o: "observed 3 ?ps" unfolding observed_def using s(1) by (intro exI[of _ "[s, s, s]"]) simp
  have "state (electedPeer :: (nat, nat testSnap) Raft) = LEADER" "CurrentTerm (electedPeer :: (nat, nat testSnap) Raft) = 1"
    by code_simp+
  then have l: "leads demoConfig ?ps 1 0" using s(3) by (simp add: leads_def askPeer_def go_index_def GetState_def demoConfig_fields)
  have "case checkOneLeader demoConfig [?ps] of None \<Rightarrow> \<forall>ps \<in> set (take 10 [?ps]). leaderless demoConfig ps
   | Some i \<Rightarrow> \<exists>ps \<in> set (take 10 [?ps]). newestLeader demoConfig ps i"
    by (rule checkOneLeader_correct[where n = 3]) (use o in \<open>simp_all add: demoConfig_fields\<close>)
  then have "\<exists>i. checkOneLeader demoConfig [?ps] = Some i \<and> newestLeader demoConfig ?ps i"
    using l by (cases "checkOneLeader demoConfig [?ps]") (auto simp: leaderless_def)
  then show ?thesis using s(1) l by blast
qed

text \<open>Two peers, of which one is cut off.\<close>

definition madeConfig :: "nat config" where
  "madeConfig = the (make_config [[''00'', ''01''], [''10'', ''11'']] False)"

definition cutConfig :: "nat config" where
  "cutConfig = the (disconnect madeConfig 1)"

definition demoRequest :: "string reqMsg" where
  "demoRequest = \<lparr>endname = ''01'', svcMeth = ''Raft.AppendEntries'', argsType = [], args = []\<rparr>"

theorem links_follow_connections_witness:
  "configured 2 madeConfig \<and> configured 2 cutConfig \<and> (\<exists>p. reaches (cfgNet madeConfig) demoRequest demoDice = Some (1, p)) \<and>
   \<not> (\<exists>p. reaches (cfgNet cutConfig) demoRequest demoDice = Some (1, p))"
proof -
  have "make_config [[''00'', ''01''], [''10'', ''11'']] False \<noteq> (None :: nat config option)" by code_simp
  then have "make_config [[''00'', ''01''], [''10'', ''11'']] False = Some madeConfig" by (auto simp: madeConfig_def)
  then have c: "configured 2 madeConfig" by (rule configured.made) simp_all
  have "disconnect madeConfig 1 \<noteq> None" by code_simp
  then have "disconnect madeConfig 1 = Some cutConfig" by (auto simp: cutConfig_def)
  then have d: "configured 2 cutConfig" by (rule configured.disconnects[OF c])
  have "endAt madeConfig 0 1 = Some (endname demoRequest)" "reliable (cfgNet madeConfig)" "connected madeConfig ! nat 0"
    "connected madeConfig ! nat 1" "rafts madeConfig ! nat 1 \<noteq> None"
    "endAt cutConfig 0 1 = Some (endname demoRequest)" "reliable (cfgNet cutConfig)" "\<not> connected cutConfig ! nat 1" by code_simp+
  then show ?thesis using links_follow_connections[OF c, of 0 1 demoRequest demoDice 1]
      links_follow_connections[OF d, of 0 1 demoRequest demoDice 1] c d by blast
qed

end
