(* ===== verification/RaftNoPanic.thy ===== *)
theory RaftNoPanic
  imports RaftSafetyProps
begin

text \<open>
  Nothing that can happen to a reachable cluster makes a peer panic: every handler, timer and client
  call returns.  Where a function indexes its log without a check of its own, the safety
  invariant says why the index is in range.
\<close>

section \<open>What can happen to one peer\<close>

lemma electionTimeout_returns: "sound rf \<Longrightarrow> electionTimeout rf \<noteq> None"
proof (cases "state rf = LEADER")
  case False
  assume "sound rf"
  from electionTimeout_cases[OF this False] obtain rf' reqs where "electionTimeout rf = Some (rf', reqs)" by blast
  then show ?thesis by simp
qed (simp add: electionTimeout_leader)

lemma handleRequestVoteReply_returns:
  assumes "sound rf"
  shows "handleRequestVoteReply rf cnt vreply \<noteq> None"
proof -
  consider "rvrTerm vreply > CurrentTerm rf"
    | "rvrTerm vreply = CurrentTerm rf" "rvrVoteGranted vreply" "cnt + 1 > int (peers rf div 2) \<and> state rf \<noteq> LEADER"
    | "rvrTerm vreply = CurrentTerm rf" "rvrVoteGranted vreply" "\<not> (cnt + 1 > int (peers rf div 2) \<and> state rf \<noteq> LEADER)"
    | "rvrTerm vreply \<le> CurrentTerm rf" "rvrTerm vreply = CurrentTerm rf \<longrightarrow> \<not> rvrVoteGranted vreply" by linarith
  then show ?thesis
  proof cases
    case 1 then show ?thesis using handleRequestVoteReply_newer[OF assms] by fastforce
  next
    case 2 then show ?thesis using handleRequestVoteReply_win[OF assms] by fastforce
  next
    case 3 from handleRequestVoteReply_count[OF this] show ?thesis by simp
  next
    case 4 from handleRequestVoteReply_ignore[OF this] show ?thesis by simp
  qed
qed

lemma Make_returns: "sound rf \<Longrightarrow> 0 \<le> i \<Longrightarrow> i < int n \<Longrightarrow> Make n i (Copy (persister rf)) \<noteq> None"
  using Make_recovers[of "Copy (persister rf)" "CurrentTerm rf" "VotedFor rf" "Log rf" i n]
  by (auto simp: sound_def durable_def wfRaft_def Copy_id)

lemma applierTake_returns:
  assumes "sound rf" "CommitIndex rf \<le> lastIdx (Log rf)"
  shows "applierTake rf \<noteq> None"
proof -
  have wl: "wfLog (Log rf) (CurrentTerm rf)" using assms(1) by (simp add: sound_def wfRaft_def)
  show ?thesis
    using assms(2) wfLog_nonempty[OF wl]
    by (auto simp: applierTake_def needApplyingLog_def go_slice_def lastIdx_def)
qed

section \<open>What can happen to a peer of a cluster\<close>

lemma peer_returns:
  assumes inv: "safetyInv g s" and e: "electionInv s" and i: "i \<in> ids s"
  shows "electionTimeout (node s i) \<noteq> None" "applierTake (node s i) \<noteq> None" "Start (node s i) c \<noteq> None"
    "Make (csize s) i (Copy (persister (node s i))) \<noteq> None"
    "p \<in> ids s \<Longrightarrow> p \<noteq> i \<Longrightarrow> replicateOneRound (node s i) p \<noteq> None"
    "m \<in> set (delivered s i) \<Longrightarrow> CommandValid m \<Longrightarrow> Snapshot (node s i) (CommandIndex m) snap \<noteq> None"
proof -
  note f = peer_facts[OF inv e i]
  note len = represents_length(5)[OF f(7,6)]
  show "electionTimeout (node s i) \<noteq> None" using electionTimeout_returns[OF f(1)] .
  show "Start (node s i) c \<noteq> None" using Start_keeps[OF f(1), of c] by fastforce
  show "Make (csize s) i (Copy (persister (node s i))) \<noteq> None" using Make_returns[OF f(1,4,5)] .
  have "nat (CommitIndex (node s i)) < length (fullLog g i)" using f(10) by (simp add: committed_def)
  then show "applierTake (node s i) \<noteq> None" using applierTake_returns[OF f(1)] len f(9) by linarith
  show "replicateOneRound (node s i) p \<noteq> None" if p: "p \<in> ids s" "p \<noteq> i"
  proof (cases "state (node s i) = LEADER")
    case True
    have np: "0 \<le> p" "p < int (peers (node s i))" using p(1) f(3) by (auto simp: ids_def)
    then have "nextIndex (node s i) ! nat p \<le> lastIdx (Log (node s i)) + 1"
      using tablesOkD(1)[OF leader_facts(3)[OF inv i True] np] p(2) f(2) by simp
    then show ?thesis using replicateOneRound_sends[OF f(1) True np] by simp
  qed (simp add: replicateOneRound_def)
  show "Snapshot (node s i) (CommandIndex m) snap \<noteq> None" if m: "m \<in> set (delivered s i)" "CommandValid m"
  proof -
    obtain x where x: "CommandIndex m = Index x" "taken g (csize s) (ids s) (CurrentTerm (node s i)) (fullLog g i) x"
      using delivered_taken[OF inv e i m] by blast
    then have "nat (CommandIndex m) < length (fullLog g i)" by (auto simp: taken_def committed_def)
    then have "CommandIndex m \<le> lastIdx (Log (node s i))" using len by linarith
    then show ?thesis using Snapshot_keeps[OF f(1), of "CommandIndex m" snap] by fastforce
  qed
qed

lemma requests_return:
  assumes inv: "safetyInv g s" and e: "electionInv s"
  shows "p \<in> ids s \<Longrightarrow> RequestVote (node s p) vargs \<noteq> None"
    "(p, aargs) \<in> aeRequests s \<Longrightarrow> AppendEntries (node s p) aargs \<noteq> None"
    "(p, sargs) \<in> isRequests s \<Longrightarrow> InstallSnapshot (node s p) sargs \<noteq> None"
proof -
  show "RequestVote (node s p) vargs \<noteq> None" if "p \<in> ids s"
    using RequestVote_no_panic peer_facts(1)[OF inv e that] by (auto simp: sound_def)
  show "AppendEntries (node s p) aargs \<noteq> None" if a: "(p, aargs) \<in> aeRequests s"
  proof -
    have ok: "appendOk g s p aargs" using safetyInvD(9)[OF inv] a by (auto simp: networkOk_def)
    then have p: "p \<in> ids s" and "wfAppendEntries aargs" using partOf_wf[OF safetyInvD(10)[OF inv]] by (auto simp: appendOk_def)
    then show ?thesis using AppendEntries_keeps peer_facts(1)[OF inv e p] by (fastforce simp: sound_def)
  qed
  show "InstallSnapshot (node s p) sargs \<noteq> None" if a: "(p, sargs) \<in> isRequests s"
  proof -
    have ok: "installOk g s p sargs" using safetyInvD(9)[OF inv] a by (auto simp: networkOk_def)
    then have ic: "nat (isLastIncludedIndex sargs) < length (termLog g (isTerm sargs))" by (simp add: installOk_def committed_def)
    then have "wfInstallSnapshot sargs" using ok canonOkD(2,3)[OF safetyInvD(10)[OF inv] ic]
      by (simp add: wfInstallSnapshot_def installOk_def)
    then show ?thesis using InstallSnapshot_keeps peer_facts(1)[OF inv e] ok by (fastforce simp: installOk_def)
  qed
qed

text \<open>The leader's last entry is never of the term that a follower reports as conflicting: the leader
  would have that follower's entry.\<close>

lemma conflict_not_last:
  assumes inv: "safetyInv g s" and e: "electionInv s" and i: "i \<in> ids s"
    and ok: "appendReplyOk g s p args reply" and c: "conflictReply (node s i) args reply"
  shows "Term (last (Log (node s i))) \<noteq> aerXTerm reply"
proof
  let ?l = "fullLog g i" and ?X = "aerXTerm reply" and ?k = "nat (aePrevLogIndex args)"
  assume x: "Term (last (Log (node s i))) = ?X"
  note f = peer_facts[OF inv e i]
  have lead: "state (node s i) = LEADER" "aeTerm args = CurrentTerm (node s i)" using c by (auto simp: conflictReply_def)
  have part: "partOf args ?l" using ok leader_facts(2)[OF inv i lead(1)] lead(2) by (simp add: appendReplyOk_def appendOk_def)
  have k: "conflictKnown g args reply" using ok c by (auto simp: appendReplyOk_def conflictReply_def)
  have "Term (last ?l) = ?X" using last_term(1)[OF inv e i] x by simp
  then have "initial ?l (termLog g ?X)" using f(8) by (simp add: canonical_def)
  then have "?l ! ?k = termLog g ?X ! ?k" using part by (simp add: partOf_def initial_def)
  then show False using k part by (simp add: conflictKnown_def partOf_def)
qed

lemma replies_return:
  assumes inv: "safetyInv g s" and e: "electionInv s"
  shows "(p, vargs, vreply) \<in> rvReplies s \<Longrightarrow> handleRequestVoteReply (node s (rvCandidateId vargs)) cnt vreply \<noteq> None"
    "(p, aargs, areply) \<in> aeReplies s \<Longrightarrow> handleReplicateOneRoundResponse (node s (aeLeaderId aargs)) p aargs areply \<noteq> None"
    "(p, sargs, sreply) \<in> isReplies s \<Longrightarrow> handleInstallSnapshotResponse (node s (isLeaderId sargs)) p sargs sreply \<noteq> None"
proof -
  have leader: "c \<in> ids s" if "leaderOf g u = Some c" for u c using safetyInvD(4)[OF inv] that unfolding termsOk_def by blast
  show "handleRequestVoteReply (node s (rvCandidateId vargs)) cnt vreply \<noteq> None" if "(p, vargs, vreply) \<in> rvReplies s"
  proof -
    have "rvCandidateId vargs \<in> ids s" using e that by (auto simp: electionInv_def invReplies_def replyOk_def)
    then show ?thesis using handleRequestVoteReply_returns peer_facts(1)[OF inv e] by blast
  qed
  show "handleReplicateOneRoundResponse (node s (aeLeaderId aargs)) p aargs areply \<noteq> None" if "(p, aargs, areply) \<in> aeReplies s"
  proof -
    have ok: "appendReplyOk g s p aargs areply" using safetyInvD(9)[OF inv] that by (auto simp: networkOk_def)
    then have i: "aeLeaderId aargs \<in> ids s" and p: "p \<in> ids s" using leader by (auto simp: appendReplyOk_def appendOk_def)
    note f = peer_facts[OF inv e i]
    have "0 \<le> p" "p < int (peers (node s (aeLeaderId aargs)))" using p f(3) by (auto simp: ids_def)
    from handleReplicateOneRoundResponse_keeps[OF f(1) this, of aargs areply] conflict_not_last[OF inv e i ok]
    show ?thesis by blast
  qed
  show "handleInstallSnapshotResponse (node s (isLeaderId sargs)) p sargs sreply \<noteq> None" if "(p, sargs, sreply) \<in> isReplies s"
  proof -
    have ok: "installReplyOk g s p sargs sreply" using safetyInvD(9)[OF inv] that by (auto simp: networkOk_def)
    then have i: "isLeaderId sargs \<in> ids s" and p: "p \<in> ids s" using leader by (auto simp: installReplyOk_def installOk_def)
    note f = peer_facts[OF inv e i]
    have "0 \<le> p" "p < int (peers (node s (isLeaderId sargs)))" using p f(3) by (auto simp: ids_def)
    from handleInstallSnapshotResponse_keeps[OF f(1) this, of sargs sreply] show ?thesis by fastforce
  qed
qed

section \<open>The property\<close>

text \<open>C4. A cluster never panics: in every reachable cluster every peer is in good order, its timers, its
  applier, its rounds of replication, its client calls, the snapshots its service takes of what it was delivered and its restart from
  disk return, and so does the handler of every request and of every reply in flight, however
  old.  In particular the leader's search after a conflict never runs off its log.\<close>

theorem cluster_never_panics:
  assumes r: "reachable n s"
  shows "(\<forall>i \<in> ids s. sound (node s i) \<and> electionTimeout (node s i) \<noteq> None \<and> applierTake (node s i) \<noteq> None \<and>
        (\<forall>c. Start (node s i) c \<noteq> None) \<and> Make n i (Copy (persister (node s i))) \<noteq> None \<and>
        (\<forall>p \<in> ids s. p \<noteq> i \<longrightarrow> replicateOneRound (node s i) p \<noteq> None) \<and>
        (\<forall>m \<in> set (delivered s i). CommandValid m \<longrightarrow> (\<forall>snap. Snapshot (node s i) (CommandIndex m) snap \<noteq> None))) \<and>
     (\<forall>p args. (p, args) \<in> rvRequests s \<longrightarrow> RequestVote (node s p) args \<noteq> None) \<and>
     (\<forall>p args. (p, args) \<in> aeRequests s \<longrightarrow> AppendEntries (node s p) args \<noteq> None) \<and>
     (\<forall>p args. (p, args) \<in> isRequests s \<longrightarrow> InstallSnapshot (node s p) args \<noteq> None) \<and>
     (\<forall>p args reply cnt. (p, args, reply) \<in> rvReplies s \<longrightarrow> handleRequestVoteReply (node s (rvCandidateId args)) cnt reply \<noteq> None) \<and>
     (\<forall>p args reply. (p, args, reply) \<in> aeReplies s \<longrightarrow> handleReplicateOneRoundResponse (node s (aeLeaderId args)) p args reply \<noteq> None) \<and>
     (\<forall>p args reply. (p, args, reply) \<in> isReplies s \<longrightarrow> handleInstallSnapshotResponse (node s (isLeaderId args)) p args reply \<noteq> None)"
proof -
  obtain g where inv: "safetyInv g s" using reachable_safe[OF r] by blast
  have e: "electionInv s" using reachable_inv[OF r] .
  have n: "csize s = n" using reachable_size[OF r] .
  have rv: "p \<in> ids s" if "(p, args) \<in> rvRequests s" for p args
    using e that by (auto simp: electionInv_def invRequests_def requestOk_def)
  note pr = peer_returns[OF inv e, unfolded n]
  show ?thesis
    by (intro conjI ballI allI impI;
        (rule pr peer_facts(1)[OF inv e] requests_return[OF inv e] replies_return[OF inv e] | erule rv)+; assumption)
qed

theorem cluster_never_panics_witness:
  "\<exists>s :: (nat, nat) Cluster. reachable 3 s \<and> state (node s 0) = LEADER \<and> replicateOneRound (node s 0) 1 \<noteq> None \<and>
     Start (node s 0) (Some 7) \<noteq> None"
proof -
  obtain s :: "(nat, nat) Cluster" where s: "reachable 3 s" "csize s = 3" "node s 0 = electedPeer"
    using demo_run[OF reachable_closed] by blast
  have "state (electedPeer :: (nat, nat) Raft) = LEADER" by code_simp
  moreover have i: "0 \<in> ids s" "1 \<in> ids s" using s(2) by (simp_all add: ids_def)
  note np = bspec[OF conjunct1[OF cluster_never_panics[OF s(1)]] i(1)]
  have "Start (node s 0) (Some 7) \<noteq> None" "\<forall>p \<in> ids s. p \<noteq> 0 \<longrightarrow> replicateOneRound (node s 0) p \<noteq> None"
    using np by fast+
  then have "Start (node s 0) (Some 7) \<noteq> None" "(1 :: int) \<noteq> 0 \<longrightarrow> replicateOneRound (node s 0) 1 \<noteq> None"
    using i(2) by fast+
  ultimately show ?thesis using s by (intro exI[of _ s]) simp
qed

end
