(* ===== verification/ClientCalls.thy ===== *)
theory ClientCalls
  imports Prelude
begin

text \<open>
  The retry loop of the clerks, \<^verbatim>\<open>ok := Call(...); for !ok { ok = Call(...) }\<close>, over a network
  that may lose a request or a reply, and the contract under which it runs an operation
  exactly once: a server that remembers the reply of an operation it has executed.

  One attempt of the loop is preceded by what other clients do at the server in the meantime,
  a list of events; \<^verbatim>\<open>labrpc\<close> runs the handler at most once per call and before the call returns.
\<close>

datatype Outcome = RequestLost | ReplyLost | Answered

fun callLoop ::
  "('s \<Rightarrow> 'e \<Rightarrow> 's) \<Rightarrow> ('s \<Rightarrow> 's \<times> 'r) \<Rightarrow> ('e list \<times> Outcome) list \<Rightarrow> 's \<Rightarrow>
   ('s \<times> 'r \<times> ('e list \<times> Outcome) list) option" where
  "callLoop env handler [] s = None"
| "callLoop env handler ((es, RequestLost) # atts) s = callLoop env handler atts (foldl env s es)"
| "callLoop env handler ((es, ReplyLost) # atts) s =
     callLoop env handler atts (fst (handler (foldl env s es)))"
| "callLoop env handler ((es, Answered) # atts) s =
     (case handler (foldl env s es) of (s', r) \<Rightarrow> Some (s', r, atts))"

text \<open>The events of the other clients during the attempts that the loop used.\<close>

definition eventsDuring :: "('e list \<times> Outcome) list \<Rightarrow> ('e list \<times> Outcome) list \<Rightarrow> 'e list" where
  "eventsDuring atts rest = concat (map fst (take (length atts - length rest) atts))"

lemma callLoop_rest: "callLoop env h atts s = Some (s', r, rest) \<Longrightarrow> length rest < length atts"
  by (induction env h atts s rule: callLoop.induct) (auto split: prod.splits)

lemma eventsDuring_Cons:
  "length rest \<le> length atts \<Longrightarrow> eventsDuring ((es, out) # atts) rest = es @ eventsDuring atts rest"
  by (simp add: eventsDuring_def Suc_diff_le)

lemma callLoop_suffix: "callLoop env h atts s = Some (s', r, rest) \<Longrightarrow> \<exists>used. atts = used @ rest"
  by (induction env h atts s rule: callLoop.induct) (auto split: prod.splits)

lemma eventsDuring_append: "eventsDuring (used @ rest) rest = concat (map fst used)"
  by (simp add: eventsDuring_def)

text \<open>The loop ends as soon as one attempt is answered.\<close>

lemma callLoop_returns: "Answered \<in> snd ` set atts \<Longrightarrow> \<exists>s' r rest. callLoop env h atts s = Some (s', r, rest)"
  by (induction env h atts s rule: callLoop.induct) (auto split: prod.splits)

section \<open>The contract of a server that remembers replies\<close>

locale at_most_once =
  fixes env :: "'s \<Rightarrow> 'e \<Rightarrow> 's" and handler :: "'s \<Rightarrow> 's \<times> 'r"
    and recorded :: "'s \<Rightarrow> 'r option" and alien :: "'e \<Rightarrow> bool"
  assumes first_time: "recorded s = None \<Longrightarrow> handler s = (s', r) \<Longrightarrow> recorded s' = Some r"
    and again: "recorded s = Some r \<Longrightarrow> handler s = (s, r)"
    and others: "alien e \<Longrightarrow> recorded (env s e) = recorded s"
begin

lemma others_all: "list_all alien es \<Longrightarrow> recorded (foldl env s es) = recorded s"
  by (induction es arbitrary: s) (auto simp: others)

lemma repeats:
  assumes "recorded s = Some r" "callLoop env handler atts s = Some (s', r', rest)"
    "\<forall>(es, out) \<in> set atts. list_all alien es"
  shows "r' = r \<and> s' = foldl env s (eventsDuring atts rest)"
  using assms
proof (induction atts arbitrary: s)
  case (Cons a atts)
  obtain es out where a: "a = (es, out)" by (cases a)
  have rec: "recorded (foldl env s es) = Some r" using Cons.prems a by (simp add: others_all)
  have rest: "length rest \<le> length atts" using callLoop_rest[OF Cons.prems(2)] by simp
  show ?case
  proof (cases "out = Answered")
    case True
    then show ?thesis using Cons.prems(2) a again[OF rec] by (auto simp: eventsDuring_def)
  next
    case False
    then have "callLoop env handler atts (foldl env s es) = Some (s', r', rest)"
      using Cons.prems(2) a again[OF rec] by (cases out) auto
    then show ?thesis using Cons.IH[OF rec] Cons.prems(3) a rest by (simp add: eventsDuring_Cons)
  qed
qed simp

text \<open>
  However many attempts the loop makes, the operation runs once: there is a point between the
  events of the other clients at which it takes effect, and the reply is the one it gave there.
\<close>

lemma exactly_once:
  assumes "recorded s = None" "callLoop env handler atts s = Some (s', r, rest)"
    "\<forall>(es, out) \<in> set atts. list_all alien es"
  shows "\<exists>es1 es2 s2. es1 @ es2 = eventsDuring atts rest \<and> handler (foldl env s es1) = (s2, r) \<and>
    s' = foldl env s2 es2 \<and> recorded s' = Some r"
  using assms
proof (induction atts arbitrary: s)
  case (Cons a atts)
  obtain es out where a: "a = (es, out)" by (cases a)
  obtain s2 r2 where h: "handler (foldl env s es) = (s2, r2)" by (cases "handler (foldl env s es)")
  have none: "recorded (foldl env s es) = None" using Cons.prems a by (simp add: others_all)
  have aliens: "\<forall>(es, out) \<in> set atts. list_all alien es" using Cons.prems(3) by simp
  have al: "list_all alien (eventsDuring atts rest)"
    using aliens by (auto simp: eventsDuring_def list_all_iff dest!: in_set_takeD)
  have ev: "eventsDuring (a # atts) rest = es @ eventsDuring atts rest"
    using callLoop_rest[OF Cons.prems(2)] a by (simp add: eventsDuring_Cons)
  show ?case
  proof (cases out)
    case RequestLost
    then have "callLoop env handler atts (foldl env s es) = Some (s', r, rest)" using Cons.prems(2) a by simp
    from Cons.IH[OF none this aliens] obtain es1 es2 s3 where i: "es1 @ es2 = eventsDuring atts rest"
      "handler (foldl env (foldl env s es) es1) = (s3, r)" "s' = foldl env s3 es2" "recorded s' = Some r" by blast
    then have "(es @ es1) @ es2 = eventsDuring (a # atts) rest" "handler (foldl env s (es @ es1)) = (s3, r)"
      by (simp_all add: ev)
    then show ?thesis using i(3,4) by blast
  next
    case ReplyLost
    then have "callLoop env handler atts s2 = Some (s', r, rest)" using Cons.prems(2) a h by simp
    from repeats[OF first_time[OF none h] this aliens]
    have "r = r2" "s' = foldl env s2 (eventsDuring atts rest)" by auto
    then show ?thesis using h ev others_all[OF al] first_time[OF none h] by metis
  next
    case Answered
    then have "s' = s2" "r = r2" "rest = atts" using Cons.prems(2) a h by auto
    moreover have "eventsDuring atts atts = []" by (simp add: eventsDuring_def)
    ultimately show ?thesis
      using h ev first_time[OF none h] by (intro exI[of _ es] exI[of _ "[]"] exI[of _ s2]) simp
  qed
qed simp

end

end
