(* ===== verification/KvSrv.thy ===== *)
theory KvSrv
  imports ClientCalls
begin

text \<open>
  The key/value server of \<^verbatim>\<open>src/kvsrv\<close>: one server with its two maps, its clerks with their retry
  loops.  The server remembers the reply of every operation by the operation's id until the
  clerk deletes it; a clerk chooses a fresh random id per operation and deletes it when it has
  the reply.  The identifiers are the \<^verbatim>\<open>int64\<close> values below \<open>2 ^ 62\<close> that \<^verbatim>\<open>nrand\<close> draws, kept as
  integers: they are only compared.
\<close>

section \<open>Messages\<close>

record PutAppendArgs =
  paKey :: string
  paValue :: string
  paId :: int

record PutAppendReply =
  parValue :: string

record GetArgs =
  gKey :: string
  gId :: int

record GetReply =
  grValue :: string

record DeleteArgs =
  dId :: int

section \<open>The server\<close>

record KVServer =
  kvMp :: "string \<rightharpoonup> string"
  idMp :: "int \<rightharpoonup> string"

definition Get :: "KVServer \<Rightarrow> GetArgs \<Rightarrow> KVServer \<times> GetReply" where
  "Get kv args =
     (case idMp kv (gId args) of
        Some value \<Rightarrow> (kv, \<lparr>grValue = value\<rparr>)
      | None \<Rightarrow>
          (case kvMp kv (gKey args) of
             Some value \<Rightarrow> (kv\<lparr>idMp := (idMp kv)(gId args \<mapsto> value)\<rparr>, \<lparr>grValue = value\<rparr>)
           | None \<Rightarrow> (kv, \<lparr>grValue = []\<rparr>)))"

definition Put :: "KVServer \<Rightarrow> PutAppendArgs \<Rightarrow> KVServer \<times> PutAppendReply" where
  "Put kv args =
     (case idMp kv (paId args) of
        Some _ \<Rightarrow> (kv, \<lparr>parValue = []\<rparr>)
      | None \<Rightarrow>
          (kv\<lparr>kvMp := (kvMp kv)(paKey args \<mapsto> paValue args),
              idMp := (idMp kv)(paId args \<mapsto> paValue args)\<rparr>, \<lparr>parValue = []\<rparr>))"

text \<open>A missing key reads as the empty string, Go's zero value.\<close>

definition valueOf :: "KVServer \<Rightarrow> string \<Rightarrow> string" where
  "valueOf kv key = (case kvMp kv key of Some v \<Rightarrow> v | None \<Rightarrow> [])"

definition Append :: "KVServer \<Rightarrow> PutAppendArgs \<Rightarrow> KVServer \<times> PutAppendReply" where
  "Append kv args =
     (case idMp kv (paId args) of
        Some value \<Rightarrow> (kv, \<lparr>parValue = value\<rparr>)
      | None \<Rightarrow>
          let oldValue = valueOf kv (paKey args)
          in (kv\<lparr>kvMp := (kvMp kv)(paKey args \<mapsto> oldValue @ paValue args),
                 idMp := (idMp kv)(paId args \<mapsto> oldValue)\<rparr>, \<lparr>parValue = oldValue\<rparr>))"

definition DeleteId :: "KVServer \<Rightarrow> DeleteArgs \<Rightarrow> KVServer" where
  "DeleteId kv args = kv\<lparr>idMp := (idMp kv)(dId args := None)\<rparr>"

definition StartKVServer :: KVServer where
  "StartKVServer = \<lparr>kvMp = Map.empty, idMp = Map.empty\<rparr>"

section \<open>The clerk\<close>

text \<open>\<^verbatim>\<open>nrand\<close>: \<^verbatim>\<open>rand.Int\<close> draws below \<open>2 ^ 62\<close>; \<open>bits\<close> is what the random source delivers.\<close>

definition nrand :: "nat \<Rightarrow> int" where
  "nrand bits = int (bits mod 2 ^ 62)"

datatype KvRequest =
    GetRequest GetArgs
  | PutRequest PutAppendArgs
  | AppendRequest PutAppendArgs
  | DeleteRequest DeleteArgs

fun serve :: "KVServer \<Rightarrow> KvRequest \<Rightarrow> KVServer" where
  "serve kv (GetRequest args) = fst (Get kv args)"
| "serve kv (PutRequest args) = fst (Put kv args)"
| "serve kv (AppendRequest args) = fst (Append kv args)"
| "serve kv (DeleteRequest args) = DeleteId kv args"

fun requestId :: "KvRequest \<Rightarrow> int" where
  "requestId (GetRequest args) = gId args"
| "requestId (PutRequest args) = paId args"
| "requestId (AppendRequest args) = paId args"
| "requestId (DeleteRequest args) = dId args"

type_synonym attempts = "(KvRequest list \<times> Outcome) list"

definition ClerkDeleteId :: "int \<Rightarrow> attempts \<Rightarrow> KVServer \<Rightarrow> (KVServer \<times> attempts) option" where
  "ClerkDeleteId i atts kv =
     map_option (\<lambda>(kv, _, rest). (kv, rest)) (callLoop serve (\<lambda>kv. (DeleteId kv \<lparr>dId = i\<rparr>, ())) atts kv)"

definition ClerkGet :: "nat \<Rightarrow> string \<Rightarrow> attempts \<Rightarrow> KVServer \<Rightarrow> (KVServer \<times> string \<times> attempts) option" where
  "ClerkGet bits key atts kv = do {
     let args = \<lparr>gKey = key, gId = nrand bits\<rparr>;
     (kv, reply, atts) \<leftarrow> callLoop serve (\<lambda>kv. Get kv args) atts kv;
     (kv, atts) \<leftarrow> ClerkDeleteId (gId args) atts kv;
     Some (kv, grValue reply, atts)
   }"

text \<open>A method name the server does not have ends the clerk (\<^verbatim>\<open>labrpc\<close> calls \<^verbatim>\<open>log.Fatalf\<close>).\<close>

definition PutAppend ::
  "nat \<Rightarrow> string \<Rightarrow> string \<Rightarrow> string \<Rightarrow> attempts \<Rightarrow> KVServer \<Rightarrow> (KVServer \<times> string \<times> attempts) option" where
  "PutAppend bits key value op atts kv = do {
     let args = \<lparr>paKey = key, paValue = value, paId = nrand bits\<rparr>;
     (kv, reply, atts) \<leftarrow>
       (if op = ''Put'' then callLoop serve (\<lambda>kv. Put kv args) atts kv
        else if op = ''Append'' then callLoop serve (\<lambda>kv. Append kv args) atts kv
        else None);
     (kv, atts) \<leftarrow> ClerkDeleteId (paId args) atts kv;
     Some (kv, parValue reply, atts)
   }"

definition ClerkPut :: "nat \<Rightarrow> string \<Rightarrow> string \<Rightarrow> attempts \<Rightarrow> KVServer \<Rightarrow> (KVServer \<times> attempts) option" where
  "ClerkPut bits key value atts kv =
     map_option (\<lambda>(kv, _, rest). (kv, rest)) (PutAppend bits key value ''Put'' atts kv)"

definition ClerkAppend ::
  "nat \<Rightarrow> string \<Rightarrow> string \<Rightarrow> attempts \<Rightarrow> KVServer \<Rightarrow> (KVServer \<times> string \<times> attempts) option" where
  "ClerkAppend bits key value atts kv = PutAppend bits key value ''Append'' atts kv"

section \<open>The server keeps the contract of \<^theory_text>\<open>at_most_once\<close>\<close>

lemma nrand_bounds: "0 \<le> nrand bits" "nrand bits < 2 ^ 62"
proof -
  have "bits mod 2 ^ 62 < 2 ^ 62" by simp
  then have "int (bits mod 2 ^ 62) < int (2 ^ 62)" by (simp only: of_nat_less_iff)
  then show "nrand bits < 2 ^ 62" by (simp add: nrand_def)
qed (simp add: nrand_def)

lemma serve_other_id: "requestId e \<noteq> i \<Longrightarrow> idMp (serve kv e) i = idMp kv i"
  by (cases e) (auto simp: Get_def Put_def Append_def DeleteId_def split: option.splits)

interpretation kvAppend: at_most_once serve "\<lambda>kv. Append kv args"
    "\<lambda>kv. map_option (\<lambda>v. \<lparr>parValue = v\<rparr>) (idMp kv (paId args))" "\<lambda>e. requestId e \<noteq> paId args" for args
  by unfold_locales (auto simp: Append_def serve_other_id split: option.splits)

interpretation kvPut: at_most_once serve "\<lambda>kv. Put kv args"
    "\<lambda>kv. map_option (\<lambda>v. \<lparr>parValue = []\<rparr>) (idMp kv (paId args))" "\<lambda>e. requestId e \<noteq> paId args" for args
  by unfold_locales (auto simp: Put_def serve_other_id split: option.splits)

interpretation kvDelete: at_most_once serve "\<lambda>kv. (DeleteId kv \<lparr>dId = i\<rparr>, ())"
    "\<lambda>kv. if idMp kv i = None then Some () else None" "\<lambda>e. requestId e \<noteq> i" for i
  by unfold_locales (auto simp: DeleteId_def serve_other_id fun_upd_idem split: if_splits)

text \<open>Forgetting an id commutes with what the other clients do.\<close>

lemma serve_DeleteId:
  "requestId e \<noteq> i \<Longrightarrow> serve (DeleteId kv \<lparr>dId = i\<rparr>) e = DeleteId (serve kv e) \<lparr>dId = i\<rparr>"
  by (cases e) (auto simp: DeleteId_def Get_def Put_def Append_def valueOf_def fun_upd_twist split: option.splits)

lemma foldl_DeleteId:
  "list_all (\<lambda>e. requestId e \<noteq> i) es \<Longrightarrow>
   foldl serve (DeleteId kv \<lparr>dId = i\<rparr>) es = DeleteId (foldl serve kv es) \<lparr>dId = i\<rparr>"
  by (induction es arbitrary: kv) (auto simp: serve_DeleteId)

lemma DeleteId_twice [simp]: "DeleteId (DeleteId kv \<lparr>dId = i\<rparr>) \<lparr>dId = i\<rparr> = DeleteId kv \<lparr>dId = i\<rparr>"
  by (simp add: DeleteId_def)

lemma kvMp_DeleteId [simp]: "kvMp (DeleteId kv args) = kvMp kv"
  by (simp add: DeleteId_def)

lemma idMp_DeleteId [simp]: "idMp (DeleteId kv \<lparr>dId = i\<rparr>) i = None"
  by (simp add: DeleteId_def)

lemma aliens_during:
  "\<forall>(es, out) \<in> set atts. list_all P es \<Longrightarrow> list_all P (eventsDuring atts rest)"
  by (auto simp: eventsDuring_def list_all_iff dest!: in_set_takeD)

text \<open>The clean-up loop deletes the id, whatever is lost.\<close>

lemma ClerkDeleteId_effect:
  assumes "ClerkDeleteId i atts kv = Some (kv', rest)" "\<forall>(es, out) \<in> set atts. list_all (\<lambda>e. requestId e \<noteq> i) es"
  shows "kv' = DeleteId (foldl serve kv (eventsDuring atts rest)) \<lparr>dId = i\<rparr>"
proof -
  have c: "callLoop serve (\<lambda>kv. (DeleteId kv \<lparr>dId = i\<rparr>, ())) atts kv = Some (kv', (), rest)"
    using assms(1) by (auto simp: ClerkDeleteId_def)
  have al: "list_all (\<lambda>e. requestId e \<noteq> i) (eventsDuring atts rest)" using aliens_during[OF assms(2)] .
  show ?thesis
  proof (cases "idMp kv i")
    case None
    then have "kv' = foldl serve kv (eventsDuring atts rest)"
      using kvDelete.repeats[OF _ c assms(2)] by simp
    moreover have "DeleteId kv \<lparr>dId = i\<rparr> = kv" using None by (simp add: DeleteId_def fun_upd_idem)
    ultimately show ?thesis using foldl_DeleteId[OF al, of kv] by simp
  next
    case (Some v)
    then obtain es1 es2 where e: "es1 @ es2 = eventsDuring atts rest"
      "kv' = foldl serve (DeleteId (foldl serve kv es1) \<lparr>dId = i\<rparr>) es2"
      using kvDelete.exactly_once[OF _ c assms(2)] by auto
    then have "list_all (\<lambda>e. requestId e \<noteq> i) es2" using al by (metis list_all_append)
    then show ?thesis using e foldl_DeleteId by (metis foldl_append)
  qed
qed


lemma ClerkDeleteId_suffix: "ClerkDeleteId i atts kv = Some (kv', rest) \<Longrightarrow> \<exists>used. atts = used @ rest"
  by (auto simp: ClerkDeleteId_def dest: callLoop_suffix)

section \<open>Exactly-once\<close>

text \<open>One operation of a clerk, then its clean-up, for any handler that keeps the contract.\<close>

lemma clerk_once:
  assumes h: "\<exists>es1 es2 s2. es1 @ es2 = eventsDuring atts mid \<and> handler (foldl serve kv es1) = (s2, r) \<and>
      kv1 = foldl serve s2 es2 \<and> x"
    and c: "callLoop serve handler atts kv = Some (kv1, r, mid)"
    and d: "ClerkDeleteId i mid kv1 = Some (kv', rest)"
    and a: "\<forall>(es, out) \<in> set atts. list_all (\<lambda>e. requestId e \<noteq> i) es"
  shows "\<exists>es1 es2 s2. es1 @ es2 = eventsDuring atts rest \<and> handler (foldl serve kv es1) = (s2, r) \<and>
      kvMp kv' = kvMp (foldl serve s2 es2) \<and> idMp kv' i = None"
proof -
  obtain used where u: "atts = used @ mid" using callLoop_suffix[OF c] by blast
  obtain used2 where u2: "mid = used2 @ rest" using ClerkDeleteId_suffix[OF d] by blast
  obtain es1 es2 s2 where e: "es1 @ es2 = eventsDuring atts mid" "handler (foldl serve kv es1) = (s2, r)"
    "kv1 = foldl serve s2 es2" using h by blast
  have "kv' = DeleteId (foldl serve kv1 (eventsDuring mid rest)) \<lparr>dId = i\<rparr>"
    using ClerkDeleteId_effect[OF d] a u by simp
  then have "kvMp kv' = kvMp (foldl serve s2 (es2 @ eventsDuring mid rest))" "idMp kv' i = None"
    using e(3) by simp_all
  moreover have "es1 @ es2 @ eventsDuring mid rest = eventsDuring atts rest"
    using e(1) eventsDuring_append[of used mid] eventsDuring_append[of used2 rest]
      eventsDuring_append[of "used @ used2" rest] by (simp add: u u2)
  ultimately show ?thesis using e(2) by blast
qed

text \<open>C7. An Append of a clerk takes effect exactly once, whatever requests and replies the network
  loses and whatever the other clerks do in between: there is a point between their requests
  at which the value was appended, the clerk got the value the key had just then, and its id
  is forgotten afterwards.\<close>

theorem Append_exactly_once:
  assumes "idMp kv (nrand bits) = None"
    and "\<forall>(es, out) \<in> set atts. list_all (\<lambda>e. requestId e \<noteq> nrand bits) es"
    and "ClerkAppend bits key value atts kv = Some (kv', old, rest)"
  shows "\<exists>before after s. before @ after = eventsDuring atts rest \<and>
    old = valueOf (foldl serve kv before) key \<and>
    kvMp s = (kvMp (foldl serve kv before))(key \<mapsto> old @ value) \<and>
    kvMp kv' = kvMp (foldl serve s after) \<and> idMp kv' (nrand bits) = None"
proof -
  let ?a = "\<lparr>paKey = key, paValue = value, paId = nrand bits\<rparr>"
  obtain kv1 r mid where c: "callLoop serve (\<lambda>kv. Append kv ?a) atts kv = Some (kv1, r, mid)"
    "ClerkDeleteId (nrand bits) mid kv1 = Some (kv', rest)" "old = parValue r"
    using assms(3) by (auto simp: ClerkAppend_def PutAppend_def bind_eq_Some_conv)
  from kvAppend.exactly_once[of kv ?a, OF _ c(1)] assms(1,2)
  have "\<exists>es1 es2 s2. es1 @ es2 = eventsDuring atts mid \<and> Append (foldl serve kv es1) ?a = (s2, r) \<and>
      kv1 = foldl serve s2 es2 \<and> True" by fastforce
  from clerk_once[OF this c(1,2) assms(2)] obtain es1 es2 s2 where
    e: "es1 @ es2 = eventsDuring atts rest" "Append (foldl serve kv es1) ?a = (s2, r)"
    "kvMp kv' = kvMp (foldl serve s2 es2)" "idMp kv' (nrand bits) = None" by blast
  have "list_all (\<lambda>e. requestId e \<noteq> nrand bits) es1"
    using aliens_during[OF assms(2)] e(1) by (metis list_all_append)
  then have "idMp (foldl serve kv es1) (nrand bits) = None"
    using kvAppend.others_all[of ?a es1 kv] assms(1) by simp
  then have "old = valueOf (foldl serve kv es1) key" "kvMp s2 = (kvMp (foldl serve kv es1))(key \<mapsto> old @ value)"
    using e(2) c(3) by (auto simp: Append_def)
  then show ?thesis using e by blast
qed

definition demoAttempts :: attempts where
  "demoAttempts = [([], ReplyLost), ([PutRequest \<lparr>paKey = ''y'', paValue = ''1'', paId = 9\<rparr>], RequestLost),
                   ([AppendRequest \<lparr>paKey = ''x'', paValue = ''b'', paId = 8\<rparr>], Answered), ([], Answered)]"

lemma demoAttempts_alien [simp]: "\<forall>(es, out) \<in> set demoAttempts. list_all (\<lambda>e. requestId e \<noteq> nrand 7) es"
  by (simp add: demoAttempts_def nrand_def)

theorem Append_exactly_once_witness:
  "\<exists>kv' rest. ClerkAppend 7 ''x'' ''a'' demoAttempts StartKVServer = Some (kv', [], rest) \<and>
     idMp kv' 7 = None"
proof -
  have n: "nrand 7 = 7" by (simp add: nrand_def)
  obtain kv' rest where r: "ClerkAppend 7 ''x'' ''a'' demoAttempts StartKVServer = Some (kv', [], rest)"
    by (simp add: ClerkAppend_def PutAppend_def ClerkDeleteId_def demoAttempts_def StartKVServer_def Append_def
        Put_def valueOf_def DeleteId_def n)
  show ?thesis using r Append_exactly_once[OF _ demoAttempts_alien r] by (auto simp: n StartKVServer_def)
qed


text \<open>A Put of a clerk takes effect exactly once and a clerk's operation ends as soon as its
  request and its clean-up are each answered once: a retry after a later write of another
  clerk does not put the old value back.\<close>

lemma Put_exactly_once:
  assumes "idMp kv (nrand bits) = None"
    and "\<forall>(es, out) \<in> set atts. list_all (\<lambda>e. requestId e \<noteq> nrand bits) es"
    and "atts = a1 @ (es1, Answered) # a2 @ (es2, Answered) # a3"
  shows "\<exists>kv' rest before after s. ClerkPut bits key value atts kv = Some (kv', rest) \<and>
    before @ after = eventsDuring atts rest \<and>
    kvMp s = (kvMp (foldl serve kv before))(key \<mapsto> value) \<and>
    kvMp kv' = kvMp (foldl serve s after) \<and> idMp kv' (nrand bits) = None"
proof -
  let ?a = "\<lparr>paKey = key, paValue = value, paId = nrand bits\<rparr>"
  have first: "\<exists>kv1 r mid. callLoop serve h (a1 @ (es1, Answered) # tl) kv = Some (kv1, r, mid) \<and>
      (\<exists>b. mid = b @ tl)" for h :: "KVServer \<Rightarrow> KVServer \<times> 'r" and kv tl and a1 :: attempts
  proof (induction a1 arbitrary: kv)
    case (Cons a a1)
    obtain es out where "a = (es, out)" by (cases a)
    then show ?case using Cons by (cases out) (auto split: prod.splits)
  qed (auto split: prod.splits intro: exI[of _ "[]"])
  obtain kv1 r mid b where c: "callLoop serve (\<lambda>kv. Put kv ?a) atts kv = Some (kv1, r, mid)"
    "mid = b @ a2 @ (es2, Answered) # a3" using first[of "\<lambda>kv. Put kv ?a"] assms(3) by blast
  have "Answered \<in> snd ` set mid" using c(2) by (auto simp: image_iff)
  then obtain kv' rest where d: "ClerkDeleteId (nrand bits) mid kv1 = Some (kv', rest)"
    using callLoop_returns[of mid serve "\<lambda>kv. (DeleteId kv \<lparr>dId = nrand bits\<rparr>, ())" kv1]
    by (auto simp: ClerkDeleteId_def)
  have put: "ClerkPut bits key value atts kv = Some (kv', rest)"
    using c(1) d by (simp add: ClerkPut_def PutAppend_def)
  from kvPut.exactly_once[of kv ?a, OF _ c(1)] assms(1,2)
  have "\<exists>es1 es2 s2. es1 @ es2 = eventsDuring atts mid \<and> Put (foldl serve kv es1) ?a = (s2, r) \<and>
      kv1 = foldl serve s2 es2 \<and> True" by fastforce
  from clerk_once[OF this c(1) d assms(2)] obtain es1 es2 s2 where
    e: "es1 @ es2 = eventsDuring atts rest" "Put (foldl serve kv es1) ?a = (s2, r)"
    "kvMp kv' = kvMp (foldl serve s2 es2)" "idMp kv' (nrand bits) = None" by blast
  have "list_all (\<lambda>e. requestId e \<noteq> nrand bits) es1"
    using aliens_during[OF assms(2)] e(1) by (metis list_all_append)
  then have "idMp (foldl serve kv es1) (nrand bits) = None"
    using kvPut.others_all[of ?a es1 kv] assms(1) by simp
  then have "kvMp s2 = (kvMp (foldl serve kv es1))(key \<mapsto> value)" using e(2) by (auto simp: Put_def)
  then show ?thesis using put e by blast
qed

text \<open>Two servers that differ at most in what they remember for one id.\<close>

definition sameBut :: "int \<Rightarrow> KVServer \<Rightarrow> KVServer \<Rightarrow> bool" where
  "sameBut i kv kv' \<longleftrightarrow> kvMp kv' = kvMp kv \<and> (\<forall>j. j \<noteq> i \<longrightarrow> idMp kv' j = idMp kv j)"

lemma sameBut_serve: "sameBut i kv kv' \<Longrightarrow> requestId e \<noteq> i \<Longrightarrow> sameBut i (serve kv e) (serve kv' e)"
  by (cases e)
    (auto simp: sameBut_def Get_def Put_def Append_def DeleteId_def valueOf_def split: option.splits)

lemma sameBut_foldl:
  "list_all (\<lambda>e. requestId e \<noteq> i) es \<Longrightarrow> sameBut i kv kv' \<Longrightarrow> sameBut i (foldl serve kv es) (foldl serve kv' es)"
  by (induction es arbitrary: kv kv') (auto simp: sameBut_serve)

lemma Get_sameBut: "sameBut (gId args) kv (fst (Get kv args))"
  by (auto simp: sameBut_def Get_def split: option.splits)

lemma Get_found:
  "idMp kv (gId args) = None \<Longrightarrow> grValue (snd (Get kv args)) = valueOf kv (gKey args)"
  "idMp kv (gId args) = None \<Longrightarrow> idMp (fst (Get kv args)) (gId args) \<in> {None, Some (valueOf kv (gKey args))}"
  "idMp kv (gId args) = Some v \<Longrightarrow> Get kv args = (kv, \<lparr>grValue = v\<rparr>)"
  by (auto simp: Get_def valueOf_def split: option.splits)

text \<open>The retry loop of a Get, from a server that may already remember a value read earlier.\<close>

lemma Get_loop:
  assumes "callLoop serve (\<lambda>kv. Get kv args) atts kv = Some (kv', r, rest)"
    "\<forall>(es, out) \<in> set atts. list_all (\<lambda>e. requestId e \<noteq> gId args) es" "sameBut (gId args) kv0 kv"
  shows "sameBut (gId args) (foldl serve kv0 (eventsDuring atts rest)) kv' \<and>
    (case idMp kv (gId args) of Some v \<Rightarrow> grValue r = v
     | None \<Rightarrow> \<exists>before after. before @ after = eventsDuring atts rest \<and>
                 grValue r = valueOf (foldl serve kv0 before) (gKey args))"
  using assms
proof (induction atts arbitrary: kv kv0)
  case (Cons a atts)
  obtain es out where a: "a = (es, out)" by (cases a)
  let ?cur = "foldl serve kv es" and ?base = "foldl serve kv0 es"
  have al: "list_all (\<lambda>e. requestId e \<noteq> gId args) es" and als: "\<forall>(es, out) \<in> set atts. list_all (\<lambda>e. requestId e \<noteq> gId args) es"
    using Cons.prems(2) a by auto
  have same: "sameBut (gId args) ?base ?cur" using sameBut_foldl[OF al Cons.prems(3)] .
  have idk: "idMp ?cur (gId args) = idMp kv (gId args)" using al by (induction es arbitrary: kv) (auto simp: serve_other_id)
  have ev: "eventsDuring (a # atts) rest = es @ eventsDuring atts rest"
    using callLoop_rest[OF Cons.prems(1)] a by (simp add: eventsDuring_Cons)
  have v0: "valueOf ?cur (gKey args) = valueOf ?base (gKey args)" using same by (simp add: sameBut_def valueOf_def)
  have sameG: "sameBut (gId args) ?base (fst (Get ?cur args))"
    using same Get_sameBut[of args ?cur] by (auto simp: sameBut_def)
  have here: "\<exists>before after. before @ after = eventsDuring (a # atts) rest \<and>
      valueOf ?cur (gKey args) = valueOf (foldl serve kv0 before) (gKey args)"
    by (intro exI[of _ es] exI[of _ "eventsDuring atts rest"]) (simp add: v0 ev)
  show ?case
  proof (cases out)
    case RequestLost
    then have "callLoop serve (\<lambda>kv. Get kv args) atts ?cur = Some (kv', r, rest)" using Cons.prems(1) a by simp
    note ih = Cons.IH[OF this als same]
    then show ?thesis unfolding ev foldl_append idk by (cases "idMp kv (gId args)") (auto, metis append_assoc foldl_append)
  next
    case ReplyLost
    then have "callLoop serve (\<lambda>kv. Get kv args) atts (fst (Get ?cur args)) = Some (kv', r, rest)" using Cons.prems(1) a by simp
    note ih = Cons.IH[OF this als sameG]
    show ?thesis
    proof (cases "idMp kv (gId args)")
      case (Some v)
      then show ?thesis using ih Get_found(3)[of ?cur args v] idk by (simp add: ev)
    next
      case None
      then consider "idMp (fst (Get ?cur args)) (gId args) = None"
        | "idMp (fst (Get ?cur args)) (gId args) = Some (valueOf ?cur (gKey args))"
        using Get_found(2)[of ?cur args] idk by auto
      then show ?thesis
      proof cases
        case 1
        then show ?thesis using ih None unfolding ev by (auto, metis append_assoc foldl_append)
      next
        case 2
        then show ?thesis using ih None here by (simp add: ev)
      qed
    qed
  next
    case Answered
    then have g: "(kv', r) = Get ?cur args" "rest = atts" using Cons.prems(1) a by (auto split: prod.splits)
    have e0: "eventsDuring atts rest = []" using g(2) by (simp add: eventsDuring_def)
    have kv': "kv' = fst (Get ?cur args)" "r = snd (Get ?cur args)" using g(1) by (metis fst_conv, metis snd_conv)
    show ?thesis
    proof (cases "idMp kv (gId args)")
      case (Some v)
      then show ?thesis using Get_found(3)[of ?cur args v] idk kv' sameG by (simp add: ev e0)
    next
      case None
      then show ?thesis using Get_found(1)[of ?cur args] idk kv' sameG here by (simp add: ev e0)
    qed
  qed
qed simp

text \<open>C35. A Get of a clerk reads a value the key had at some point during the call (the empty
  string when it had none), and leaves the data as the other clerks' requests alone make it.\<close>

theorem Get_reads_in_window:
  assumes "idMp kv (nrand bits) = None"
    and "\<forall>(es, out) \<in> set atts. list_all (\<lambda>e. requestId e \<noteq> nrand bits) es"
    and "ClerkGet bits key atts kv = Some (kv', v, rest)"
  shows "kvMp kv' = kvMp (foldl serve kv (eventsDuring atts rest)) \<and> idMp kv' (nrand bits) = None \<and>
    (\<exists>before after. before @ after = eventsDuring atts rest \<and> v = valueOf (foldl serve kv before) key)"
proof -
  let ?a = "\<lparr>gKey = key, gId = nrand bits\<rparr>"
  obtain kv1 r mid where c: "callLoop serve (\<lambda>kv. Get kv ?a) atts kv = Some (kv1, r, mid)"
    "ClerkDeleteId (nrand bits) mid kv1 = Some (kv', rest)" "v = grValue r"
    using assms(3) by (auto simp: ClerkGet_def bind_eq_Some_conv)
  obtain used where u: "atts = used @ mid" using callLoop_suffix[OF c(1)] by blast
  obtain used2 where u2: "mid = used2 @ rest" using ClerkDeleteId_suffix[OF c(2)] by blast
  have am: "\<forall>(es, out) \<in> set mid. list_all (\<lambda>e. requestId e \<noteq> nrand bits) es" using assms(2) u by auto
  have split: "eventsDuring atts mid @ eventsDuring mid rest = eventsDuring atts rest"
    using eventsDuring_append[of used mid] eventsDuring_append[of used2 rest] eventsDuring_append[of "used @ used2" rest]
    by (simp add: u u2)
  from Get_loop[where args = ?a and ?kv0.0 = kv, OF c(1)] assms(1,2)
  have g: "sameBut (nrand bits) (foldl serve kv (eventsDuring atts mid)) kv1"
    "\<exists>before after. before @ after = eventsDuring atts mid \<and> v = valueOf (foldl serve kv before) key"
    using c(3) by (auto simp: sameBut_def)
  have kv': "kv' = DeleteId (foldl serve kv1 (eventsDuring mid rest)) \<lparr>dId = nrand bits\<rparr>"
    using ClerkDeleteId_effect[OF c(2) am] .
  have "kvMp kv' = kvMp (foldl serve kv (eventsDuring atts rest))"
    using sameBut_foldl[OF aliens_during[OF am] g(1), of rest] by (simp add: kv' sameBut_def split [symmetric])
  moreover have "idMp kv' (nrand bits) = None" by (simp add: kv')
  ultimately show ?thesis using g(2) split by (metis append_assoc)
qed

theorem Get_reads_in_window_witness:
  "\<exists>kv' v rest. ClerkGet 7 ''x'' demoAttempts StartKVServer = Some (kv', v, rest) \<and> v = ''b'' \<and>
     kvMp kv' ''x'' = Some ''b''"
proof -
  have n: "nrand 7 = 7" by (simp add: nrand_def)
  obtain kv' rest where r: "ClerkGet 7 ''x'' demoAttempts StartKVServer = Some (kv', ''b'', rest)" "length rest = 0"
    by (simp add: ClerkGet_def ClerkDeleteId_def demoAttempts_def StartKVServer_def Append_def Get_def
        Put_def valueOf_def DeleteId_def n)
  have "kvMp kv' = kvMp (foldl serve StartKVServer (eventsDuring demoAttempts rest))"
    using Get_reads_in_window[OF _ demoAttempts_alien r(1)] by (simp add: StartKVServer_def)
  then show ?thesis using r
    by (auto simp: eventsDuring_def demoAttempts_def StartKVServer_def Put_def Append_def valueOf_def)
qed

end
