(* ===== verification/KvSrvConfig.thy ===== *)
theory KvSrvConfig
  imports KvSrv LabRpc
begin

text \<open>
  The test harness of the key/value server of lab 2 (\<^verbatim>\<open>src/kvsrv/config.go\<close>): one server, and clients with one end each.
  \<^term>\<open>None\<close> is a panic or a failed test; random names are arguments, a clerk's pointer is a number.
\<close>

section \<open>The configuration\<close>

definition SERVERID :: int where
  "SERVERID = 0"

record config =
  cfgNet :: "(string, int) Network"
  kvserver :: "KVServer option"
  clerks :: "nat \<rightharpoonup> string"
  nextClientId :: int
  rpcs0 :: int
  ops :: "32 word"

definition checkTimeout :: "bool \<Rightarrow> nat \<Rightarrow> unit option" where
  "checkTimeout tFailed seconds = (if \<not> tFailed \<and> seconds > 120 then None else Some ())"

definition cleanup :: "config \<Rightarrow> bool \<Rightarrow> nat \<Rightarrow> config option" where
  "cleanup cfg tFailed seconds =
     (case Cleanup (cfgNet cfg) of
        Ret rn \<Rightarrow> do { checkTimeout tFailed seconds; Some (cfg\<lparr>cfgNet := rn\<rparr>) }
      | _ \<Rightarrow> None)"

section \<open>Clients\<close>

text \<open>A clerk that the map does not have reads as the empty name.\<close>

definition clerkName :: "config \<Rightarrow> nat \<Rightarrow> string" where
  "clerkName cfg ck = (case clerks cfg ck of Some e \<Rightarrow> e | None \<Rightarrow> [])"

definition ConnectClientUnlocked :: "config \<Rightarrow> nat \<Rightarrow> config" where
  "ConnectClientUnlocked cfg ck = cfg\<lparr>cfgNet := Enable (cfgNet cfg) (clerkName cfg ck) True\<rparr>"

definition ConnectClient :: "config \<Rightarrow> nat \<Rightarrow> config" where
  "ConnectClient cfg ck = ConnectClientUnlocked cfg ck"

definition makeClient :: "config \<Rightarrow> nat \<Rightarrow> string \<Rightarrow> (config \<times> string ClientEnd) option" where
  "makeClient cfg ck name =
     (case MakeEnd (cfgNet cfg) name of
        Ret (rn, ce) \<Rightarrow>
          let cfg = cfg\<lparr>cfgNet := Connect rn name SERVERID, clerks := (clerks cfg)(ck \<mapsto> name), nextClientId := nextClientId cfg + 1\<rparr>
          in Some (ConnectClientUnlocked cfg ck, ce)
      | _ \<Rightarrow> None)"

definition deleteClient :: "config \<Rightarrow> nat \<Rightarrow> config option" where
  "deleteClient cfg ck =
     (case DeleteEnd (cfgNet cfg) (clerkName cfg ck) of
        Ret rn \<Rightarrow> Some (cfg\<lparr>cfgNet := rn, clerks := (clerks cfg)(ck := None)\<rparr>)
      | _ \<Rightarrow> None)"

section \<open>The server\<close>

definition StartServer :: "config \<Rightarrow> nat \<Rightarrow> config" where
  "StartServer cfg srv = cfg\<lparr>kvserver := Some StartKVServer, cfgNet := AddServer (cfgNet cfg) 0 srv\<rparr>"

definition make_config :: "bool \<Rightarrow> config" where
  "make_config unreliable =
     (let cfg = \<lparr>cfgNet = MakeNetwork, kvserver = None, clerks = Map.empty, nextClientId = SERVERID + 1, rpcs0 = 0, ops = 0\<rparr>;
          cfg = StartServer cfg 0
      in cfg\<lparr>cfgNet := Reliable (cfgNet cfg) (\<not> unreliable)\<rparr>)"

definition rpcTotal :: "config \<Rightarrow> int" where
  "rpcTotal cfg = GetTotalCount (cfgNet cfg)"

definition beginTest :: "config \<Rightarrow> config" where
  "beginTest cfg = cfg\<lparr>rpcs0 := rpcTotal cfg, ops := 0\<rparr>"

definition op :: "config \<Rightarrow> config" where
  "op cfg = cfg\<lparr>ops := ops cfg + 1\<rparr>"

definition endTest :: "config \<Rightarrow> bool \<Rightarrow> nat \<Rightarrow> (int \<times> int) option option" where
  "endTest cfg tFailed seconds = do {
     checkTimeout tFailed seconds;
     Some (if tFailed = False then Some (rpcTotal cfg - rpcs0 cfg, sint (ops cfg)) else None)
   }"

section \<open>Clients and the server\<close>

text \<open>The configurations of a test; the server runs in between.\<close>

inductive configured :: "config \<Rightarrow> bool" where
  made: "configured (make_config unreliable)"
| newClient: "configured cfg \<Longrightarrow> clerks cfg ck = None \<Longrightarrow> makeClient cfg ck name = Some (cfg', ce) \<Longrightarrow> configured cfg'"
| dropsClient: "configured cfg \<Longrightarrow> clerks cfg ck \<noteq> None \<Longrightarrow> deleteClient cfg ck = Some cfg' \<Longrightarrow> configured cfg'"
| connects: "configured cfg \<Longrightarrow> clerks cfg ck \<noteq> None \<Longrightarrow> configured (ConnectClient cfg ck)"
| counts: "configured cfg \<Longrightarrow> configured (op (beginTest cfg))"
| runs: "configured cfg \<Longrightarrow> configured (cfg\<lparr>kvserver := Some kv\<rparr>)"

text \<open>A name is made exactly when a clerk holds it; it leads to the server and is on, and no two clerks have the same.\<close>

definition clientsOk :: "config \<Rightarrow> bool" where
  "clientsOk cfg \<longleftrightarrow>
     (\<forall>e. ends (cfgNet cfg) e \<noteq> None \<longleftrightarrow> (\<exists>ck. clerks cfg ck = Some e)) \<and>
     (\<forall>e. ends (cfgNet cfg) e \<noteq> None \<longrightarrow> enabled (cfgNet cfg) e \<and> connections (cfgNet cfg) e = Some SERVERID) \<and>
     (\<forall>e. ends (cfgNet cfg) e = None \<longrightarrow> connections (cfgNet cfg) e = None) \<and>
     (\<forall>ck ck' e. clerks cfg ck = Some e \<and> clerks cfg ck' = Some e \<longrightarrow> ck' = ck) \<and>
     servers (cfgNet cfg) SERVERID \<noteq> None"

lemma makeClient_parts:
  "makeClient cfg ck name = Some (cfg', ce) \<longleftrightarrow> ends (cfgNet cfg) name = None \<and> ce = \<lparr>ceName = name\<rparr> \<and>
   cfg' = cfg\<lparr>cfgNet := (cfgNet cfg)\<lparr>ends := (ends (cfgNet cfg))(name \<mapsto> \<lparr>ceName = name\<rparr>), enabled := (enabled (cfgNet cfg))(name := True),
     connections := (connections (cfgNet cfg))(name \<mapsto> SERVERID)\<rparr>, clerks := (clerks cfg)(ck \<mapsto> name), nextClientId := nextClientId cfg + 1\<rparr>"
  by (auto simp: makeClient_def MakeEnd_def Connect_def ConnectClientUnlocked_def clerkName_def Enable_def)

lemma deleteClient_parts:
  "clerks cfg ck = Some e \<Longrightarrow> deleteClient cfg ck = Some cfg' \<longleftrightarrow> ends (cfgNet cfg) e \<noteq> None \<and>
   cfg' = cfg\<lparr>cfgNet := (cfgNet cfg)\<lparr>ends := (ends (cfgNet cfg))(e := None), enabled := (enabled (cfgNet cfg))(e := False),
     connections := (connections (cfgNet cfg))(e := None)\<rparr>, clerks := (clerks cfg)(ck := None)\<rparr>"
  by (auto simp: deleteClient_def DeleteEnd_def clerkName_def)

lemma configured_clientsOk: "configured cfg \<Longrightarrow> clientsOk cfg"
proof (induction rule: configured.induct)
  case (made unreliable)
  then show ?case by (simp add: clientsOk_def make_config_def StartServer_def MakeNetwork_def AddServer_def Reliable_def SERVERID_def)
next
  case (newClient cfg ck name cfg' ce)
  then have "ends (cfgNet cfg) name = None" by (simp add: makeClient_parts)
  moreover from this have "\<forall>k. clerks cfg k \<noteq> Some name" using newClient.IH unfolding clientsOk_def by blast
  ultimately show ?case using newClient by (auto simp: makeClient_parts clientsOk_def) (metis option.distinct(1))
next
  case (dropsClient cfg ck cfg')
  then obtain e where e: "clerks cfg ck = Some e" by auto
  have inj: "\<And>k k' x. clerks cfg k = Some x \<Longrightarrow> clerks cfg k' = Some x \<Longrightarrow> k' = k"
    and ex: "\<And>x. ends (cfgNet cfg) x \<noteq> None \<longleftrightarrow> (\<exists>k. clerks cfg k = Some x)"
    and on: "\<And>x. ends (cfgNet cfg) x \<noteq> None \<Longrightarrow> enabled (cfgNet cfg) x \<and> connections (cfgNet cfg) x = Some SERVERID"
    and off: "\<And>x. ends (cfgNet cfg) x = None \<Longrightarrow> connections (cfgNet cfg) x = None"
    and srv: "servers (cfgNet cfg) SERVERID \<noteq> None" using dropsClient.IH unfolding clientsOk_def by blast+
  have held: "(\<exists>k. ((clerks cfg)(ck := None)) k = Some x) \<longleftrightarrow> x \<noteq> e \<and> (\<exists>k. clerks cfg k = Some x)" for x
  proof
    assume "\<exists>k. ((clerks cfg)(ck := None)) k = Some x"
    then obtain k where "k \<noteq> ck" "clerks cfg k = Some x" by (auto split: if_splits)
    then show "x \<noteq> e \<and> (\<exists>k. clerks cfg k = Some x)" using inj[OF e] by blast
  next
    assume "x \<noteq> e \<and> (\<exists>k. clerks cfg k = Some x)"
    then obtain k where k: "clerks cfg k = Some x" "x \<noteq> e" by blast
    then have "k \<noteq> ck" using e by auto
    with k show "\<exists>k. ((clerks cfg)(ck := None)) k = Some x" by (intro exI[of _ k]) simp
  qed
  have inj': "((clerks cfg)(ck := None)) k = Some x \<Longrightarrow> ((clerks cfg)(ck := None)) k' = Some x \<Longrightarrow> k' = k" for k k' x
    by (simp split: if_splits) (rule inj)
  have p: "cfg' = cfg\<lparr>cfgNet := (cfgNet cfg)\<lparr>ends := (ends (cfgNet cfg))(e := None), enabled := (enabled (cfgNet cfg))(e := False),
     connections := (connections (cfgNet cfg))(e := None)\<rparr>, clerks := (clerks cfg)(ck := None)\<rparr>"
    using dropsClient.hyps(3) deleteClient_parts[OF e] by blast
  show ?case unfolding clientsOk_def
    using inj' srv on off by (intro conjI) (simp_all add: p held ex del: fun_upd_apply, simp_all add: ex[symmetric])
next
  case (connects cfg ck)
  then show ?case by (auto simp: ConnectClient_def ConnectClientUnlocked_def clerkName_def Enable_def clientsOk_def)
next
  case counts then show ?case by (simp add: clientsOk_def op_def beginTest_def)
next
  case runs then show ?case by (simp add: clientsOk_def)
qed

lemma client_reaches_server:
  assumes "configured cfg" "clerks cfg ck = Some (endname req)" "reliable (cfgNet cfg)"
  shows "\<exists>p. reaches (cfgNet cfg) req dice = Some (SERVERID, p)"
proof -
  have ok: "clientsOk cfg" by (rule configured_clientsOk[OF assms(1)])
  then have "enabled (cfgNet cfg) (endname req)" "connections (cfgNet cfg) (endname req) = Some SERVERID"
    using assms(2) unfolding clientsOk_def by blast+
  moreover obtain p where "servers (cfgNet cfg) SERVERID = Some p" using ok unfolding clientsOk_def by blast
  ultimately show ?thesis using assms(3) by (simp add: reaches_def readEndnameInfo_def)
qed

lemma deleted_client_is_cut:
  assumes "configured cfg" "clerks cfg ck = Some (endname req)"
  shows "\<exists>cfg'. deleteClient cfg ck = Some cfg' \<and> reaches (cfgNet cfg') req dice = None \<and> ends (cfgNet cfg') (endname req) = None"
proof -
  have "ends (cfgNet cfg) (endname req) \<noteq> None" using configured_clientsOk[OF assms(1)] assms(2) unfolding clientsOk_def by blast
  then show ?thesis using deleteClient_parts[OF assms(2)] by (auto simp: reaches_def readEndnameInfo_def)
qed

text \<open>A new client reaches the server, and after it is deleted the harness is as before, but for the client counter
  and switches of ends that are not made.\<close>

lemma make_delete_client:
  assumes "configured cfg" "clerks cfg ck = None" "ends (cfgNet cfg) name = None"
  shows "\<exists>cfg1 cfg2. makeClient cfg ck name = Some (cfg1, \<lparr>ceName = name\<rparr>) \<and> deleteClient cfg1 ck = Some cfg2 \<and>
    clerks cfg2 = clerks cfg \<and> ends (cfgNet cfg2) = ends (cfgNet cfg) \<and> connections (cfgNet cfg2) = connections (cfgNet cfg) \<and>
    (\<forall>e. ends (cfgNet cfg) e \<noteq> None \<longrightarrow> enabled (cfgNet cfg2) e = enabled (cfgNet cfg) e)"
proof -
  obtain cfg1 where m: "makeClient cfg ck name = Some (cfg1, \<lparr>ceName = name\<rparr>)" using assms(3) by (simp add: makeClient_parts)
  then have c: "clerks cfg1 ck = Some name" by (simp add: makeClient_parts)
  have k: "connections (cfgNet cfg) name = None" using configured_clientsOk[OF assms(1)] assms(3) unfolding clientsOk_def by blast
  obtain cfg2 where d: "deleteClient cfg1 ck = Some cfg2" using m by (simp add: deleteClient_parts[OF c]) (simp add: makeClient_parts)
  then have "clerks cfg2 = clerks cfg \<and> ends (cfgNet cfg2) = ends (cfgNet cfg) \<and> connections (cfgNet cfg2) = connections (cfgNet cfg) \<and>
    (\<forall>e. ends (cfgNet cfg) e \<noteq> None \<longrightarrow> enabled (cfgNet cfg2) e = enabled (cfgNet cfg) e)"
    using m k assms(2,3) by (auto simp: deleteClient_parts[OF c] makeClient_parts fun_upd_idem)
  then show ?thesis using m d by blast
qed

end
