(* ===== verification/KvRaft.thy ===== *)
theory KvRaft
  imports RaftLeader
begin

text \<open>
  The replicated key/value service of \<^verbatim>\<open>src/kvraft\<close>: the state machine behind its interface, the
  server with its table of the last command of every client, the applier that feeds it from
  Raft, snapshots, and the clerk.

  A function returns \<open>Ret\<close> with the new server, \<open>Panic\<close> where Go panics, or \<open>Blocked\<close> where the
  goroutine blocks for good while it holds the server's mutex.  The Raft peer below the server
  is the record of \<^verbatim>\<open>raft.go\<close>'s model; between two steps of the server it moves on its own.
  A snapshot is the sequence of gob values that \<^verbatim>\<open>encodeSnapShot\<close> writes.  Client ids and
  sequence numbers (\<^verbatim>\<open>int64\<close>) are integers: ids are only compared, and a sequence number
  counts the commands of one clerk.
\<close>

section \<open>Messages and commands\<close>

definition OK :: string where "OK = ''OK''"
definition ErrNoKey :: string where "ErrNoKey = ''ErrNoKey''"
definition ErrWrongLeader :: string where "ErrWrongLeader = ''ErrWrongLeader''"
definition ErrTimeOut :: string where "ErrTimeOut = ''ErrTimeOut''"

definition PutOp :: string where "PutOp = ''Put''"
definition AppendOp :: string where "AppendOp = ''Append''"
definition GetOp :: string where "GetOp = ''Get''"

lemmas op_defs = PutOp_def AppendOp_def GetOp_def
lemmas status_defs = OK_def ErrNoKey_def ErrWrongLeader_def ErrTimeOut_def

record CommandArgs =
  caKey :: string
  caValue :: string
  caOp :: string
  caClientId :: int
  caSequenceNum :: int

record CommandReply =
  crStatus :: string
  crResponse :: string

record Command =
  Key :: string
  Value :: string
  ClientId :: int
  SequenceNum :: int
  CommandOp :: string

section \<open>The state machine\<close>

record MemKV =
  KVMp :: "string \<rightharpoonup> string"

definition newMemKV :: MemKV where
  "newMemKV = \<lparr>KVMp = Map.empty\<rparr>"

definition MemKV_Put :: "MemKV \<Rightarrow> string \<Rightarrow> string \<Rightarrow> MemKV" where
  "MemKV_Put mkv key val = mkv\<lparr>KVMp := (KVMp mkv)(key \<mapsto> val)\<rparr>"

definition MemKV_Append :: "MemKV \<Rightarrow> string \<Rightarrow> string \<Rightarrow> MemKV" where
  "MemKV_Append mkv key val =
     mkv\<lparr>KVMp := (KVMp mkv)(key \<mapsto> (case KVMp mkv key of Some old \<Rightarrow> old | None \<Rightarrow> []) @ val)\<rparr>"

text \<open>\<^verbatim>\<open>Get\<close> returns a value or the error with the text \<^verbatim>\<open>ErrNoKey\<close>.\<close>

definition MemKV_Get :: "MemKV \<Rightarrow> string \<Rightarrow> string + string" where
  "MemKV_Get mkv key = (case KVMp mkv key of Some val \<Rightarrow> Inr val | None \<Rightarrow> Inl ErrNoKey)"

text \<open>What \<^verbatim>\<open>KVStateMachine\<close> promises, and what follows for a sequence of writes.\<close>

locale kv_state_machine =
  fixes put append :: "'s \<Rightarrow> string \<Rightarrow> string \<Rightarrow> 's" and get :: "'s \<Rightarrow> string \<Rightarrow> string + string"
  assumes get_put: "get (put s k v) k' = (if k' = k then Inr v else get s k')"
    and get_append: "get (append s k v) k' =
      (if k' = k then Inr ((case get s k of Inr old \<Rightarrow> old | Inl _ \<Rightarrow> []) @ v) else get s k')"
begin

definition contents :: "'s \<Rightarrow> string \<rightharpoonup> string" where
  "contents s k = (case get s k of Inr v \<Rightarrow> Some v | Inl _ \<Rightarrow> None)"

lemma contents_put: "contents (put s k v) = (contents s)(k \<mapsto> v)"
  by (rule ext) (simp add: contents_def get_put)

lemma contents_append:
  "contents (append s k v) = (contents s)(k \<mapsto> (case contents s k of Some old \<Rightarrow> old | None \<Rightarrow> []) @ v)"
  by (rule ext) (simp add: contents_def get_append split: sum.splits)

text \<open>Appends to one key add up, whatever is written to the other keys.\<close>

lemma appends_add_up:
  "list_all (\<lambda>(isPut, k, v). k = key \<longrightarrow> \<not> isPut) ws \<Longrightarrow> contents s key = Some old \<Longrightarrow>
   contents (foldl (\<lambda>s (isPut, k, v). if isPut then put s k v else append s k v) s ws) key =
     Some (old @ concat (map (\<lambda>(isPut, k, v). if k = key then v else []) ws))"
  by (induction ws arbitrary: s old) (auto simp: contents_put contents_append split: if_splits)

end

interpretation memkv: kv_state_machine MemKV_Put MemKV_Append MemKV_Get
  by unfold_locales (auto simp: MemKV_Put_def MemKV_Append_def MemKV_Get_def split: option.splits)

section \<open>The server\<close>

record CommandResult =
  crSequenceNum :: int
  crrStatus :: string
  crrResponse :: string

record NotifyMsg =
  nmResponse :: string
  nmStatus :: string

text \<open>The values of a snapshot in the order in which they are encoded.\<close>

datatype snapValue = GobMachine MemKV | GobDuplicates "int \<rightharpoonup> CommandResult"

type_synonym bytes = "snapValue list"

text \<open>
  \<open>KVstateMachine\<close> is \<open>None\<close> for the nil interface and \<open>duplicateMp\<close> is \<open>None\<close> for the nil map, which
  a failed decode leaves behind.  A channel of \<open>notifyChMp\<close> is the list of what it buffers; its
  capacity is one.
\<close>

record KVServer =
  kvMe :: int
  rf :: "(Command, snapValue) Raft"
  kvDead :: bool
  maxraftstate :: int
  lastApplied :: int
  KVstateMachine :: "MemKV option"
  duplicateMp :: "(int \<rightharpoonup> CommandResult) option"
  notifyChMp :: "int \<rightharpoonup> NotifyMsg list"

definition StartKVServer ::
  "nat \<Rightarrow> int \<Rightarrow> (Command gobValue, snapValue) Persister \<Rightarrow> int \<Rightarrow> KVServer option" where
  "StartKVServer servers my ps maxstate = do {
     peer \<leftarrow> Make servers my ps;
     Some \<lparr>kvMe = my, rf = peer, kvDead = False, maxraftstate = maxstate, lastApplied = 0,
           KVstateMachine = Some newMemKV, duplicateMp = Some Map.empty, notifyChMp = Map.empty\<rparr>
   }"

text \<open>Reading a nil map finds nothing.\<close>

definition lookupDuplicate :: "KVServer \<Rightarrow> int \<Rightarrow> CommandResult option" where
  "lookupDuplicate kv cid = (case duplicateMp kv of Some mp \<Rightarrow> mp cid | None \<Rightarrow> None)"

definition isDuplicate :: "KVServer \<Rightarrow> int \<Rightarrow> int \<Rightarrow> bool" where
  "isDuplicate kv cid sequenceNum =
     (case lookupDuplicate kv cid of
        None \<Rightarrow> False
      | Some result \<Rightarrow> sequenceNum \<le> crSequenceNum result)"

text \<open>Writing to a nil map panics.\<close>

definition updateDuplicateMp :: "KVServer \<Rightarrow> int \<Rightarrow> int \<Rightarrow> string \<Rightarrow> string \<Rightarrow> KVServer Run" where
  "updateDuplicateMp kv cid sequenceNum st response =
     (case duplicateMp kv of
        None \<Rightarrow> Panic
      | Some mp \<Rightarrow>
          Ret (kv\<lparr>duplicateMp := Some (case mp cid of
                  Some result \<Rightarrow> mp(cid \<mapsto> result\<lparr>crSequenceNum := sequenceNum, crrStatus := st, crrResponse := response\<rparr>)
                | None \<Rightarrow> mp(cid \<mapsto> \<lparr>crSequenceNum = sequenceNum, crrStatus = st, crrResponse = response\<rparr>))\<rparr>))"

definition applyLogToKVStateMachine :: "KVServer \<Rightarrow> Command \<Rightarrow> (KVServer \<times> (string + string)) Run" where
  "applyLogToKVStateMachine kv op =
     (if CommandOp op \<in> {GetOp, PutOp, AppendOp}
      then (case KVstateMachine kv of
              None \<Rightarrow> Panic
            | Some m \<Rightarrow>
                if CommandOp op = GetOp then Ret (kv, MemKV_Get m (Key op))
                else if CommandOp op = PutOp
                then Ret (kv\<lparr>KVstateMachine := Some (MemKV_Put m (Key op) (Value op))\<rparr>, Inr [])
                else Ret (kv\<lparr>KVstateMachine := Some (MemKV_Append m (Key op) (Value op))\<rparr>, Inr []))
      else Panic)"

definition getNotifyCh :: "KVServer \<Rightarrow> int \<Rightarrow> KVServer" where
  "getNotifyCh kv key =
     (case notifyChMp kv key of
        Some ch \<Rightarrow> kv
      | None \<Rightarrow> kv\<lparr>notifyChMp := (notifyChMp kv)(key \<mapsto> [])\<rparr>)"

text \<open>\<^verbatim>\<open>ch <- msg\<close> on the channel of an index, whose buffer holds one message.\<close>

definition sendNotify :: "KVServer \<Rightarrow> int \<Rightarrow> NotifyMsg \<Rightarrow> KVServer Run" where
  "sendNotify kv key msg =
     (case notifyChMp kv key of
        Some [] \<Rightarrow> Ret (kv\<lparr>notifyChMp := (notifyChMp kv)(key \<mapsto> [msg])\<rparr>)
      | _ \<Rightarrow> Blocked)"

section \<open>The Command RPC\<close>

text \<open>
  \<^verbatim>\<open>Command\<close> up to the point where it waits takes a lock three times: the server's for the check for a duplicate, the peer's in
  \<^verbatim>\<open>rf.Start\<close>, and the server's again for the channel.  First the check: the reply to a duplicate, or none.
\<close>

definition commandCheck :: "KVServer \<Rightarrow> CommandArgs \<Rightarrow> CommandReply option option" where
  "commandCheck kv args =
     (if isDuplicate kv (caClientId args) (caSequenceNum args)
      then (case lookupDuplicate kv (caClientId args) of
              Some result \<Rightarrow> Some (Some \<lparr>crStatus = crrStatus result, crResponse = crrResponse result\<rparr>)
            | None \<Rightarrow> None)
      else Some None)"

text \<open>Then the log: the index of the new entry at a leader.\<close>

definition commandStart :: "KVServer \<Rightarrow> CommandArgs \<Rightarrow> (KVServer \<times> int option) option" where
  "commandStart kv args = do {
     (peer, _, commandIndex, _, isLeader) \<leftarrow>
       Start (rf kv) (Some \<lparr>Key = caKey args, Value = caValue args, ClientId = caClientId args,
                            SequenceNum = caSequenceNum args, CommandOp = caOp args\<rparr>);
     Some (kv\<lparr>rf := peer\<rparr>, if isLeader then Some commandIndex else None)
   }"

text \<open>
  The three one after the other, with what the applier, the peer and other requests do to the server in between
  (\<open>before\<close> the peer is asked and \<open>after\<close> it has answered).  The result is the reply, or the log index to wait for.
\<close>

definition CommandRPC ::
  "(KVServer \<Rightarrow> KVServer) \<Rightarrow> (KVServer \<Rightarrow> KVServer) \<Rightarrow> KVServer \<Rightarrow> CommandArgs \<Rightarrow> (KVServer \<times> (CommandReply + int)) option" where
  "CommandRPC before after kv args =
     (case commandCheck kv args of
        None \<Rightarrow> None
      | Some (Some reply) \<Rightarrow> Some (kv, Inl reply)
      | Some None \<Rightarrow> do {
          (kv, started) \<leftarrow> commandStart (before kv) args;
          case started of
            None \<Rightarrow> Some (kv, Inl \<lparr>crStatus = ErrWrongLeader, crResponse = []\<rparr>)
          | Some commandIndex \<Rightarrow> Some (getNotifyCh (after kv) commandIndex, Inr commandIndex)
        })"

text \<open>The two arms of the \<^verbatim>\<open>select\<close>, and the goroutine that deletes the channel afterwards.\<close>

definition commandReceive :: "KVServer \<Rightarrow> int \<Rightarrow> (KVServer \<times> CommandReply) option" where
  "commandReceive kv commandIndex =
     (case notifyChMp kv commandIndex of
        Some (rsp # rest) \<Rightarrow>
          Some (kv\<lparr>notifyChMp := (notifyChMp kv)(commandIndex \<mapsto> rest)\<rparr>,
                \<lparr>crStatus = nmStatus rsp, crResponse = nmResponse rsp\<rparr>)
      | _ \<Rightarrow> None)"

definition commandTimeout :: CommandReply where
  "commandTimeout = \<lparr>crStatus = ErrTimeOut, crResponse = []\<rparr>"

definition commandDeleteCh :: "KVServer \<Rightarrow> int \<Rightarrow> KVServer" where
  "commandDeleteCh kv commandIndex = kv\<lparr>notifyChMp := (notifyChMp kv)(commandIndex := None)\<rparr>"

section \<open>Snapshots and the applier\<close>

definition needTakeSnapShot :: "(Command gobValue \<Rightarrow> nat) \<Rightarrow> KVServer \<Rightarrow> bool" where
  "needTakeSnapShot sz kv = (maxraftstate kv \<noteq> -1 \<and> maxraftstate kv \<le> RaftStateSize sz (rf kv))"

definition needRestoreSnapShot :: "KVServer \<Rightarrow> int \<Rightarrow> int \<Rightarrow> bool" where
  "needRestoreSnapShot kv snapshotTerm snapshotIndex =
     (let (curTerm, _) = GetState (rf kv) in curTerm \<ge> snapshotTerm \<and> snapshotIndex > lastApplied kv)"

text \<open>
  Encoding a nil interface is an error that leaves no value in the buffer; a nil map is
  encoded like an empty one.
\<close>

definition encodeSnapShot :: "KVServer \<Rightarrow> bytes" where
  "encodeSnapShot kv =
     (case KVstateMachine kv of Some m \<Rightarrow> [GobMachine m] | None \<Rightarrow> []) @
     [GobDuplicates (case duplicateMp kv of Some mp \<Rightarrow> mp | None \<Rightarrow> Map.empty)]"

definition takeSnapShot :: "KVServer \<Rightarrow> KVServer Run" where
  "takeSnapShot kv =
     (case Snapshot (rf kv) (lastApplied kv) (encodeSnapShot kv) of
        None \<Rightarrow> Panic
      | Some peer \<Rightarrow> Ret (kv\<lparr>rf := peer\<rparr>))"

text \<open>A decoder reads the next value if it has the expected type; otherwise the variable stays nil.\<close>

fun decodeMachine :: "bytes \<Rightarrow> MemKV option \<times> bytes" where
  "decodeMachine (GobMachine m # d) = (Some m, d)"
| "decodeMachine (v # d) = (None, d)"
| "decodeMachine [] = (None, [])"

fun decodeDuplicates :: "bytes \<Rightarrow> (int \<rightharpoonup> CommandResult) option \<times> bytes" where
  "decodeDuplicates (GobDuplicates mp # d) = (Some mp, d)"
| "decodeDuplicates (v # d) = (None, d)"
| "decodeDuplicates [] = (None, [])"

definition restoreSnapShot :: "KVServer \<Rightarrow> bytes \<Rightarrow> KVServer" where
  "restoreSnapShot kv snap =
     (let (machine, d) = decodeMachine snap; (dup, d) = decodeDuplicates d
      in kv\<lparr>duplicateMp := dup, KVstateMachine := machine\<rparr>)"

text \<open>The body of the applier for one message.\<close>

definition applierStep :: "(Command gobValue \<Rightarrow> nat) \<Rightarrow> KVServer \<Rightarrow> (Command, snapValue) ApplyMsg \<Rightarrow> KVServer Run" where
  "applierStep sz kv m =
     (if CommandValid m
      then
        if CommandIndex m < lastApplied kv then Ret kv
        else
          let kv = kv\<lparr>lastApplied := CommandIndex m\<rparr>
          in (case amCommand m of
                None \<Rightarrow> Panic
              | Some command \<Rightarrow>
                  if isDuplicate kv (ClientId command) (SequenceNum command) then Ret kv
                  else
                    (case applyLogToKVStateMachine kv command of
                       Panic \<Rightarrow> Panic
                     | Blocked \<Rightarrow> Blocked
                     | Ret (kv, result) \<Rightarrow>
                         let (response, st) = (case result of Inl _ \<Rightarrow> ([], ErrNoKey) | Inr resp \<Rightarrow> (resp, OK))
                         in (case updateDuplicateMp kv (ClientId command) (SequenceNum command) st response of
                               Panic \<Rightarrow> Panic
                             | Blocked \<Rightarrow> Blocked
                             | Ret kv \<Rightarrow>
                                 (case (let (curTerm, isLeader) = GetState (rf kv)
                                        in if isLeader \<and> curTerm = CommandTerm m
                                           then sendNotify (getNotifyCh kv (CommandIndex m)) (CommandIndex m)
                                                  \<lparr>nmResponse = response, nmStatus = st\<rparr>
                                           else Ret kv) of
                                    Panic \<Rightarrow> Panic
                                  | Blocked \<Rightarrow> Blocked
                                  | Ret kv \<Rightarrow> if needTakeSnapShot sz kv then takeSnapShot kv else Ret kv))))
      else if SnapshotValid m
      then
        if needRestoreSnapShot kv (SnapshotTerm m) (SnapshotIndex m)
        then Ret ((restoreSnapShot kv (amSnapshot m))\<lparr>lastApplied := SnapshotIndex m\<rparr>)
        else Ret kv
      else Panic)"

definition Kill :: "KVServer \<Rightarrow> KVServer" where
  "Kill kv = kv\<lparr>kvDead := True, rf := RaftNode.Kill (rf kv)\<rparr>"

definition killed :: "KVServer \<Rightarrow> bool" where
  "killed kv = kvDead kv"

section \<open>The clerk\<close>

record Clerk =
  nservers :: nat
  clienId :: int
  commandSequnceNum :: int
  curLeader :: nat

definition nrand :: "nat \<Rightarrow> int" where
  "nrand bits = int (bits mod 2 ^ 62)"

definition MakeClerk :: "nat \<Rightarrow> nat \<Rightarrow> Clerk" where
  "MakeClerk servers bits = \<lparr>nservers = servers, clienId = nrand bits, commandSequnceNum = 0, curLeader = 0\<rparr>"

text \<open>
  The loop of \<^verbatim>\<open>Clerk.Command\<close>.  An element of \<open>answers\<close> gives, for one attempt, what each server
  would answer (\<open>None\<close>: the call fails); the loop is still running when the list is used up.
\<close>

fun commandLoop :: "(nat \<Rightarrow> CommandReply option) list \<Rightarrow> Clerk \<Rightarrow> (Clerk \<times> string) option" where
  "commandLoop [] ck = None"
| "commandLoop (answer # answers) ck =
     (case answer (curLeader ck) of
        Some reply \<Rightarrow>
          if crStatus reply = ErrWrongLeader \<or> crStatus reply = ErrTimeOut
          then commandLoop answers (ck\<lparr>curLeader := (curLeader ck + 1) mod nservers ck\<rparr>)
          else Some (ck, crResponse reply)
      | None \<Rightarrow> commandLoop answers (ck\<lparr>curLeader := (curLeader ck + 1) mod nservers ck\<rparr>))"

definition ClerkCommand ::
  "Clerk \<Rightarrow> CommandArgs \<Rightarrow> (CommandArgs \<Rightarrow> (nat \<Rightarrow> CommandReply option) list) \<Rightarrow> (Clerk \<times> string) option" where
  "ClerkCommand ck args network =
     (let ck = ck\<lparr>commandSequnceNum := commandSequnceNum ck + 1\<rparr>;
          args = args\<lparr>caClientId := clienId ck, caSequenceNum := commandSequnceNum ck\<rparr>
      in commandLoop (network args) ck)"

definition ClerkGet where
  "ClerkGet ck key =
     ClerkCommand ck \<lparr>caKey = key, caValue = [], caOp = GetOp, caClientId = 0, caSequenceNum = 0\<rparr>"

definition ClerkPut where
  "ClerkPut ck key val network = map_option fst
     (ClerkCommand ck \<lparr>caKey = key, caValue = val, caOp = PutOp, caClientId = 0, caSequenceNum = 0\<rparr> network)"

definition ClerkAppend where
  "ClerkAppend ck key val network = map_option fst
     (ClerkCommand ck \<lparr>caKey = key, caValue = val, caOp = AppendOp, caClientId = 0, caSequenceNum = 0\<rparr> network)"

end
