(* ===== verification/KvRaftProps.thy ===== *)
theory KvRaftProps
  imports KvRaft "HOL-Library.Sublist"
begin

text \<open>
  What the replicated key/value service guarantees above a log of commands: each server's state
  machine is the replay of the log with every command executed once, snapshots and replay
  agree, replies are what the state machine computed, and the clerk finds the leader.
\<close>

section \<open>The abstract service\<close>

text \<open>Executing a command on the state machine: the new machine, the response and the status.\<close>

definition execute :: "MemKV \<Rightarrow> Command \<Rightarrow> MemKV \<times> string \<times> string" where
  "execute m c =
     (if CommandOp c = GetOp
      then (m, case KVMp m (Key c) of Some v \<Rightarrow> (v, OK) | None \<Rightarrow> ([], ErrNoKey))
      else if CommandOp c = PutOp then (MemKV_Put m (Key c) (Value c), [], OK)
      else (MemKV_Append m (Key c) (Value c), [], OK))"

definition fresh :: "(int \<rightharpoonup> CommandResult) \<Rightarrow> Command \<Rightarrow> bool" where
  "fresh d c \<longleftrightarrow> (case d (ClientId c) of None \<Rightarrow> True | Some r \<Rightarrow> crSequenceNum r < SequenceNum c)"

definition remember :: "(int \<rightharpoonup> CommandResult) \<Rightarrow> Command \<Rightarrow> string \<times> string \<Rightarrow> (int \<rightharpoonup> CommandResult)" where
  "remember d c out =
     d(ClientId c \<mapsto> \<lparr>crSequenceNum = SequenceNum c, crrStatus = snd out, crrResponse = fst out\<rparr>)"

text \<open>The replay of a log, and the commands of the log that it executes.\<close>

fun replay :: "MemKV \<times> (int \<rightharpoonup> CommandResult) \<Rightarrow> Command list \<Rightarrow> MemKV \<times> (int \<rightharpoonup> CommandResult)" where
  "replay (m, d) [] = (m, d)"
| "replay (m, d) (c # cs) =
     (if fresh d c then replay (fst (execute m c), remember d c (snd (execute m c))) cs
      else replay (m, d) cs)"

fun executed :: "MemKV \<times> (int \<rightharpoonup> CommandResult) \<Rightarrow> Command list \<Rightarrow> Command list" where
  "executed (m, d) [] = []"
| "executed (m, d) (c # cs) =
     (if fresh d c then c # executed (fst (execute m c), remember d c (snd (execute m c))) cs
      else executed (m, d) cs)"

lemma replay_executes: "fst (replay s cs) = foldl (\<lambda>m c. fst (execute m c)) (fst s) (executed s cs)"
  by (induction s cs rule: replay.induct) auto

lemma replay_append: "replay s (cs @ ds) = replay (replay s cs) ds"
  by (induction s cs rule: replay.induct) auto

text \<open>Only commands newer than what is remembered are executed.\<close>

lemma executed_newer:
  "c \<in> set (executed s cs) \<Longrightarrow> fresh (snd s) c"
proof (induction s cs rule: executed.induct)
  case (2 m d c' cs)
  show ?case
  proof (cases "fresh d c'")
    case True
    then show ?thesis
      using "2.IH"(1) "2.prems" by (auto simp: fresh_def remember_def split: option.splits if_splits)
  qed (use 2 in auto)
qed simp

lemma executed_distinct: "distinct (map (\<lambda>c. (ClientId c, SequenceNum c)) (executed s cs))"
proof (induction s cs rule: executed.induct)
  case (2 m d c cs)
  let ?rest = "executed (fst (execute m c), remember d c (snd (execute m c))) cs"
  have "(ClientId c, SequenceNum c) \<noteq> (ClientId e, SequenceNum e)" if "e \<in> set ?rest" for e
    using executed_newer[OF that] by (auto simp: fresh_def remember_def)
  then show ?case using 2 by auto
qed simp

section \<open>The applier refines the replay\<close>

text \<open>
  What the applier meets between two messages: the Raft peer as it is then, the notify
  channels as the Command goroutines left them, and the next message.
\<close>

type_synonym kvEvent =
  "(Command, snapValue) Raft \<times> (int \<rightharpoonup> NotifyMsg list) \<times> (Command, snapValue) ApplyMsg"

fun applierRun :: "(Command gobValue \<Rightarrow> nat) \<Rightarrow> KVServer \<Rightarrow> kvEvent list \<Rightarrow> KVServer Run" where
  "applierRun sz kv [] = Ret kv"
| "applierRun sz kv ((peer, chans, m) # evs) =
     (case applierStep sz (kv\<lparr>rf := peer, notifyChMp := chans\<rparr>) m of
        Ret kv' \<Rightarrow> applierRun sz kv' evs
      | Panic \<Rightarrow> Panic
      | Blocked \<Rightarrow> Blocked)"

text \<open>
  An event in order: a peer in good order that has the entry, a command that a clerk can have
  sent, a channel of that index without an old message.
\<close>

definition eventOk :: "kvEvent \<Rightarrow> bool" where
  "eventOk ev = (case ev of (peer, chans, m) \<Rightarrow>
     sound peer \<and> CommandValid m \<and> CommandIndex m \<le> lastIdx (Log peer) \<and>
     (case amCommand m of Some c \<Rightarrow> CommandOp c \<in> {GetOp, PutOp, AppendOp} | None \<Rightarrow> False) \<and>
     chans (CommandIndex m) \<in> {None, Some []})"

definition commandOf :: "kvEvent \<Rightarrow> Command" where
  "commandOf ev = (case ev of (peer, chans, m) \<Rightarrow> the (amCommand m))"

definition indexOf :: "kvEvent \<Rightarrow> int" where
  "indexOf ev = (case ev of (peer, chans, m) \<Rightarrow> CommandIndex m)"

lemma takeSnapShot_Ret:
  assumes "sound (rf kv)" "lastApplied kv \<le> lastIdx (Log (rf kv))"
  shows "\<exists>peer. takeSnapShot kv = Ret (kv\<lparr>rf := peer\<rparr>)"
  using Snapshot_keeps[OF assms, of "encodeSnapShot kv"] by (auto simp: takeSnapShot_def)

lemma sendNotify_Ret:
  assumes "notifyChMp kv i \<in> {None, Some []}"
  shows "sendNotify (getNotifyCh kv i) i msg = Ret (kv\<lparr>notifyChMp := (notifyChMp kv)(i \<mapsto> [msg])\<rparr>)"
  using assms by (auto simp: sendNotify_def getNotifyCh_def)

lemma isDuplicate_fresh: "duplicateMp kv = Some d \<Longrightarrow> isDuplicate kv (ClientId c) (SequenceNum c) = (\<not> fresh d c)"
  by (auto simp: isDuplicate_def lookupDuplicate_def fresh_def split: option.splits)

lemma applyLog_execute:
  assumes "KVstateMachine kv = Some m" "CommandOp c \<in> {GetOp, PutOp, AppendOp}"
  shows "\<exists>out. applyLogToKVStateMachine kv c = Ret (kv\<lparr>KVstateMachine := Some (fst (execute m c))\<rparr>, out) \<and>
    (case out of Inl _ \<Rightarrow> ([], ErrNoKey) | Inr resp \<Rightarrow> (resp, OK)) = snd (execute m c)"
proof -
  have "kv\<lparr>KVstateMachine := Some m\<rparr> = kv" using assms(1) by (intro KVServer.equality) simp_all
  then show ?thesis
    using assms by (auto simp: applyLogToKVStateMachine_def execute_def MemKV_Get_def op_defs split: option.splits)
qed

lemma updateDuplicateMp_remember:
  assumes "duplicateMp kv = Some d"
  shows "updateDuplicateMp kv (ClientId c) (SequenceNum c) st resp =
    Ret (kv\<lparr>duplicateMp := Some (remember d c (resp, st))\<rparr>)"
proof -
  have eq: "r\<lparr>crSequenceNum := n, crrStatus := a, crrResponse := b\<rparr> =
      \<lparr>crSequenceNum = n, crrStatus = a, crrResponse = b\<rparr>" for r :: CommandResult and n a b
    by (rule CommandResult.equality) simp_all
  show ?thesis using assms by (simp add: updateDuplicateMp_def remember_def eq split: option.split)
qed

text \<open>One message: the state machine, the table and the index move as the replay does.\<close>

lemma applierStep_replay:
  assumes ma: "KVstateMachine kv = Some m" "duplicateMp kv = Some d"
    and ev: "eventOk (rf kv, notifyChMp kv, msg)" and idx: "lastApplied kv < CommandIndex msg"
    and c: "amCommand msg = Some c"
  shows "\<exists>kv'. applierStep sz kv msg = Ret kv' \<and>
    KVstateMachine kv' = Some (fst (replay (m, d) [c])) \<and> duplicateMp kv' = Some (snd (replay (m, d) [c])) \<and>
    lastApplied kv' = CommandIndex msg \<and> maxraftstate kv' = maxraftstate kv \<and>
    (fresh d c \<and> state (rf kv) = LEADER \<and> CurrentTerm (rf kv) = CommandTerm msg \<longrightarrow>
       notifyChMp kv' (CommandIndex msg) =
         Some [\<lparr>nmResponse = fst (snd (execute m c)), nmStatus = snd (snd (execute m c))\<rparr>])"
proof -
  have e: "sound (rf kv)" "CommandValid msg" "CommandIndex msg \<le> lastIdx (Log (rf kv))"
    "CommandOp c \<in> {GetOp, PutOp, AppendOp}" "notifyChMp kv (CommandIndex msg) \<in> {None, Some []}"
    using ev c by (auto simp: eventOk_def)
  let ?kv = "kv\<lparr>lastApplied := CommandIndex msg\<rparr>"
  show ?thesis
  proof (cases "fresh d c")
    case False
    then show ?thesis using ma e idx c isDuplicate_fresh[of ?kv d c] by (simp add: applierStep_def)
  next
    case True
    obtain resp st where ex: "snd (execute m c) = (resp, st)" by (cases "snd (execute m c)")
    obtain out where o: "applyLogToKVStateMachine ?kv c = Ret (?kv\<lparr>KVstateMachine := Some (fst (execute m c))\<rparr>, out)"
      "(case out of Inl _ \<Rightarrow> ([], ErrNoKey) | Inr resp \<Rightarrow> (resp, OK)) = (resp, st)"
      using applyLog_execute[of ?kv m c] assms(1) e(4) ex by auto
    define kv1 where "kv1 = ?kv\<lparr>KVstateMachine := Some (fst (execute m c)), duplicateMp := Some (remember d c (resp, st))\<rparr>"
    have u: "updateDuplicateMp (?kv\<lparr>KVstateMachine := Some (fst (execute m c))\<rparr>) (ClientId c) (SequenceNum c) st resp = Ret kv1"
      using assms(2) updateDuplicateMp_remember[of "?kv\<lparr>KVstateMachine := Some (fst (execute m c))\<rparr>" d c] by (simp add: kv1_def)
    define leads where "leads = (state (rf kv) = LEADER \<and> CurrentTerm (rf kv) = CommandTerm msg)"
    define kv2 where "kv2 = (if leads
       then kv1\<lparr>notifyChMp := (notifyChMp kv)(CommandIndex msg \<mapsto> [\<lparr>nmResponse = resp, nmStatus = st\<rparr>])\<rparr> else kv1)"
    have n: "(let (curTerm, isLeader) = GetState (rf kv1)
        in if isLeader \<and> curTerm = CommandTerm msg
           then sendNotify (getNotifyCh kv1 (CommandIndex msg)) (CommandIndex msg) \<lparr>nmResponse = resp, nmStatus = st\<rparr>
           else Ret kv1) = Ret kv2"
      using sendNotify_Ret[of kv1 "CommandIndex msg"] e(5) by (auto simp: GetState_def kv1_def kv2_def leads_def)
    have k2: "rf kv2 = rf kv" "lastApplied kv2 = CommandIndex msg" "KVstateMachine kv2 = Some (fst (execute m c))"
      "duplicateMp kv2 = Some (remember d c (resp, st))" "maxraftstate kv2 = maxraftstate kv"
      "leads \<Longrightarrow> notifyChMp kv2 (CommandIndex msg) = Some [\<lparr>nmResponse = resp, nmStatus = st\<rparr>]"
      by (auto simp: kv2_def kv1_def)
    obtain peer where p: "(if needTakeSnapShot sz kv2 then takeSnapShot kv2 else Ret kv2) = Ret (kv2\<lparr>rf := peer\<rparr>)"
    proof (cases "needTakeSnapShot sz kv2")
      case False
      moreover have "kv2\<lparr>rf := rf kv2\<rparr> = kv2" by simp
      ultimately show thesis using that[of "rf kv2"] by simp
    next
      case True
      then show thesis using takeSnapShot_Ret[of kv2] e(1,3) k2(1,2) that by auto
    qed
    have "applierStep sz kv msg = Ret (kv2\<lparr>rf := peer\<rparr>)"
      using e(2) idx c o u n p isDuplicate_fresh[of ?kv d c] assms(2) True
      by (simp add: applierStep_def)
    then show ?thesis using k2 True ex by (simp add: leads_def)
  qed
qed


lemma applier_replays:
  assumes "KVstateMachine kv = Some m" "duplicateMp kv = Some d" "list_all eventOk evs"
    and "sorted_wrt (<) (lastApplied kv # map indexOf evs)"
  shows "\<exists>kv'. applierRun sz kv evs = Ret kv' \<and>
    KVstateMachine kv' = Some (fst (replay (m, d) (map commandOf evs))) \<and>
    duplicateMp kv' = Some (snd (replay (m, d) (map commandOf evs))) \<and>
    lastApplied kv' = last (lastApplied kv # map indexOf evs)"
  using assms
proof (induction evs arbitrary: kv m d)
  case (Cons ev evs)
  obtain peer chans msg where ev: "ev = (peer, chans, msg)" by (cases ev)
  let ?kv = "kv\<lparr>rf := peer, notifyChMp := chans\<rparr>"
  have e: "eventOk (rf ?kv, notifyChMp ?kv, msg)" using Cons.prems(3) ev by simp
  obtain c where c: "amCommand msg = Some c" using e by (auto simp: eventOk_def split: option.splits)
  have i: "lastApplied ?kv < CommandIndex msg" using Cons.prems(4) ev by (simp add: indexOf_def)
  obtain kv1 where k: "applierStep sz ?kv msg = Ret kv1" "KVstateMachine kv1 = Some (fst (replay (m, d) [c]))"
    "duplicateMp kv1 = Some (snd (replay (m, d) [c]))" "lastApplied kv1 = CommandIndex msg"
    using applierStep_replay[OF _ _ e i c, of m d sz] Cons.prems(1,2) by auto
  have iv: "indexOf ev = CommandIndex msg" by (simp add: ev indexOf_def)
  have "sorted_wrt (<) (lastApplied kv1 # map indexOf evs)" using Cons.prems(4) k(4) iv by simp
  moreover have "list_all eventOk evs" using Cons.prems(3) by simp
  ultimately obtain kv' where r: "applierRun sz kv1 evs = Ret kv'"
    "KVstateMachine kv' = Some (fst (replay (replay (m, d) [c]) (map commandOf evs)))"
    "duplicateMp kv' = Some (snd (replay (replay (m, d) [c]) (map commandOf evs)))"
    "lastApplied kv' = last (lastApplied kv1 # map indexOf evs)"
    using Cons.IH[OF k(2,3)] unfolding prod.collapse by blast
  have "map commandOf (ev # evs) = [c] @ map commandOf evs" using c by (simp add: ev commandOf_def)
  then have "replay (m, d) (map commandOf (ev # evs)) = replay (replay (m, d) [c]) (map commandOf evs)"
    by (simp only: replay_append)
  moreover have "applierRun sz kv (ev # evs) = Ret kv'" using k(1) r(1) by (simp add: ev)
  moreover have "last (lastApplied kv # map indexOf (ev # evs)) = last (lastApplied kv1 # map indexOf evs)"
    using k(4) iv by simp
  ultimately show ?case using r(2-4) by simp
qed simp


text \<open>C5. The applier refines the replay of the log: fed with the commands of consecutive log
  entries, whatever the Raft peer does in between, whether the server leads, takes snapshots
  or has clients waiting, it neither panics nor blocks, and its state machine and its table of
  last commands are those of the replay.\<close>

theorem applier_refines_replay:
  assumes "KVstateMachine kv = Some m" "duplicateMp kv = Some d" "list_all eventOk evs"
    and "sorted_wrt (<) (lastApplied kv # map indexOf evs)"
  shows "\<exists>kv'. applierRun sz kv evs = Ret kv' \<and>
    KVstateMachine kv' = Some (fst (replay (m, d) (map commandOf evs))) \<and>
    duplicateMp kv' = Some (snd (replay (m, d) (map commandOf evs))) \<and>
    lastApplied kv' = last (lastApplied kv # map indexOf evs)"
  by (rule applier_replays[OF assms])

text \<open>A leader of term 1 with two copies of one client's Append in its log, as a retry leaves them.\<close>

definition demoCommand :: Command where
  "demoCommand = \<lparr>Key = ''x'', Value = ''a'', ClientId = 5, SequenceNum = 1, CommandOp = AppendOp\<rparr>"

definition demoRaft :: "(Command, snapValue) Raft" where
  "demoRaft = persist
     \<lparr>peers = 3, me = 0, dead = False, CurrentTerm = 1, VotedFor = 0,
      Log = [\<lparr>Term = 0, Command = None, Index = 0\<rparr>, \<lparr>Term = 1, Command = Some demoCommand, Index = 1\<rparr>,
             \<lparr>Term = 1, Command = Some demoCommand, Index = 2\<rparr>],
      CommitIndex = 2, LastApplied = 0, state = LEADER, nextIndex = [3, 3, 3], matchIndex = [2, 2, 2],
      persister = MakePersister, snapshotsToPush = [], snapshotsPushed = [], applying = None\<rparr>"

lemma demoRaft_sound [simp]: "sound demoRaft"
  by (simp add: demoRaft_def sound_def wfRaft_def wfLog_def)

definition demoServer :: KVServer where
  "demoServer = \<lparr>kvMe = 0, rf = demoRaft, kvDead = False, maxraftstate = 1, lastApplied = 0,
     KVstateMachine = Some newMemKV, duplicateMp = Some Map.empty, notifyChMp = Map.empty\<rparr>"

definition demoEvents :: "kvEvent list" where
  "demoEvents = map (\<lambda>e. (demoRaft, Map.empty, commandMsg e)) (tl (Log demoRaft))"

lemma demoEvents_ok [simp]: "list_all eventOk demoEvents"
proof -
  have "Log demoRaft = [\<lparr>Term = 0, Command = None, Index = 0\<rparr>, \<lparr>Term = 1, Command = Some demoCommand, Index = 1\<rparr>,
             \<lparr>Term = 1, Command = Some demoCommand, Index = 2\<rparr>]" by (simp add: demoRaft_def)
  then show ?thesis
    by (simp add: demoEvents_def eventOk_def commandMsg_def lastIdx_def demoCommand_def op_defs)
qed

lemma demoEvents_sorted [simp]: "sorted_wrt (<) (lastApplied demoServer # map indexOf demoEvents)"
  by (simp add: demoEvents_def demoRaft_def demoServer_def indexOf_def commandMsg_def)

lemma demoEvents_commands [simp]: "map commandOf demoEvents = [demoCommand, demoCommand]"
  by (simp add: demoEvents_def demoRaft_def commandOf_def commandMsg_def)

lemma demoServer_state: "KVstateMachine demoServer = Some newMemKV" "duplicateMp demoServer = Some Map.empty"
  by (simp_all add: demoServer_def)

theorem applier_refines_replay_witness:
  "\<exists>kv'. applierRun (\<lambda>_. 1) demoServer demoEvents = Ret kv' \<and>
     map_option (\<lambda>m. KVMp m ''x'') (KVstateMachine kv') = Some (Some ''a'')"
  using applier_refines_replay[OF demoServer_state demoEvents_ok demoEvents_sorted, of "\<lambda>_. 1"]
  by (auto simp: fresh_def remember_def execute_def demoCommand_def op_defs MemKV_Append_def newMemKV_def)

lemma executed_subseq: "subseq (executed s cs) cs"
  by (induction s cs rule: executed.induct) auto

lemma remember_le:
  "fresh d c \<Longrightarrow> d i = Some r \<Longrightarrow> \<exists>r'. remember d c out i = Some r' \<and> crSequenceNum r \<le> crSequenceNum r'"
  by (auto simp: remember_def fresh_def)

lemma replay_keeps_newer:
  "snd s i = Some r \<Longrightarrow> \<exists>r'. snd (replay s cs) i = Some r' \<and> crSequenceNum r \<le> crSequenceNum r'"
proof (induction s cs arbitrary: r rule: replay.induct)
  case (2 m d c cs)
  show ?case
  proof (cases "fresh d c")
    case True
    obtain r1 where "remember d c (snd (execute m c)) i = Some r1" "crSequenceNum r \<le> crSequenceNum r1"
      using remember_le[OF True] "2.prems" by fastforce
    then show ?thesis using "2.IH"(1)[OF True, of r1] True by fastforce
  qed (use 2 in auto)
qed auto

lemma replay_remembers:
  "c \<in> set cs \<Longrightarrow> \<exists>r. snd (replay s cs) (ClientId c) = Some r \<and> SequenceNum c \<le> crSequenceNum r"
proof (induction s cs rule: replay.induct)
  case (2 m d c' cs)
  show ?case
  proof (cases "c = c'")
    case False
    then show ?thesis using 2 by auto
  next
    case True
    show ?thesis
    proof (cases "fresh d c'")
      case fr: True
      then show ?thesis
        using True replay_keeps_newer[of "(fst (execute m c'), remember d c' (snd (execute m c')))" "ClientId c'"]
        by (fastforce simp: remember_def)
    next
      case False
      then obtain r where "d (ClientId c') = Some r" "SequenceNum c' \<le> crSequenceNum r"
        by (auto simp: fresh_def split: option.splits)
      then show ?thesis using True False replay_keeps_newer[of "(m, d)" "ClientId c'" r cs] by fastforce
    qed
  qed
qed simp

text \<open>C10. Exactly-once execution: however often a command is in the log, the applier executes it at
  most once, executes commands in log order, never executes one of a client after a newer one
  of the same client, and ends up with a remembered result at least as new as every command
  of the log.\<close>

theorem commands_execute_once:
  assumes "KVstateMachine kv = Some m" "duplicateMp kv = Some d" "list_all eventOk evs"
    and "sorted_wrt (<) (lastApplied kv # map indexOf evs)"
  shows "\<exists>kv' cs d'. applierRun sz kv evs = Ret kv' \<and> subseq cs (map commandOf evs) \<and>
    KVstateMachine kv' = Some (foldl (\<lambda>m c. fst (execute m c)) m cs) \<and> duplicateMp kv' = Some d' \<and>
    distinct (map (\<lambda>c. (ClientId c, SequenceNum c)) cs) \<and> list_all (fresh d) cs \<and>
    (\<forall>c \<in> set (map commandOf evs). \<exists>r. d' (ClientId c) = Some r \<and> SequenceNum c \<le> crSequenceNum r)"
proof -
  let ?cs = "map commandOf evs"
  obtain kv' where r: "applierRun sz kv evs = Ret kv'" "KVstateMachine kv' = Some (fst (replay (m, d) ?cs))"
    "duplicateMp kv' = Some (snd (replay (m, d) ?cs))"
    using applier_replays[OF assms] by blast
  have "list_all (fresh d) (executed (m, d) ?cs)" using executed_newer[of _ "(m, d)"] by (auto simp: list_all_iff)
  then show ?thesis
    using r replay_executes[of "(m, d)" ?cs] executed_subseq[of "(m, d)" ?cs] executed_distinct[of "(m, d)" ?cs]
      replay_remembers[of _ ?cs "(m, d)"]
    by (intro exI[of _ kv'] exI[of _ "executed (m, d) ?cs"] exI[of _ "snd (replay (m, d) ?cs)"]) auto
qed

theorem commands_execute_once_witness:
  "\<exists>kv' cs. applierRun (\<lambda>_. 1) demoServer demoEvents = Ret kv' \<and> subseq cs [demoCommand, demoCommand] \<and>
     distinct (map (\<lambda>c. (ClientId c, SequenceNum c)) cs)"
  using commands_execute_once[OF demoServer_state demoEvents_ok demoEvents_sorted, of "\<lambda>_. 1"]
  unfolding demoEvents_commands by blast


section \<open>Snapshots\<close>

lemma restore_encode:
  "KVstateMachine kv = Some m \<Longrightarrow> duplicateMp kv = Some d \<Longrightarrow>
   restoreSnapShot kv' (encodeSnapShot kv) = kv'\<lparr>duplicateMp := Some d, KVstateMachine := Some m\<rparr>"
  by (simp add: restoreSnapShot_def encodeSnapShot_def)

text \<open>C16. Catching up by snapshot equals replaying the log: a server behind that installs the
  snapshot another server took after a prefix of the log, and then applies the rest, has the
  state machine and the table of the server that applied every entry.\<close>

theorem snapshot_equals_replay:
  assumes a: "KVstateMachine kv = Some m" "duplicateMp kv = Some d"
    and ok: "list_all eventOk (evs1 @ evs2)" "list_all eventOk evs2'"
    and sorted: "sorted_wrt (<) (lastApplied kv # map indexOf (evs1 @ evs2))"
    and same: "map commandOf evs2' = map commandOf evs2" "map indexOf evs2' = map indexOf evs2"
    and run1: "applierRun sz kv evs1 = Ret kv1"
    and behind: "lastApplied lag < lastApplied kv1" "t \<le> CurrentTerm (rf lag)"
  shows "\<exists>kv2 lag1 lag2. applierRun sz kv (evs1 @ evs2) = Ret kv2 \<and>
    applierStep sz lag (snapshotMsg (encodeSnapShot kv1) (lastApplied kv1) t) = Ret lag1 \<and>
    applierRun sz lag1 evs2' = Ret lag2 \<and>
    KVstateMachine lag2 = KVstateMachine kv2 \<and> duplicateMp lag2 = duplicateMp kv2 \<and>
    lastApplied lag2 = lastApplied kv2"
proof -
  have all: "\<exists>kv'. applierRun sz kv (evs1 @ evs2) = Ret kv' \<and>
      KVstateMachine kv' = Some (fst (replay (m, d) (map commandOf (evs1 @ evs2)))) \<and>
      duplicateMp kv' = Some (snd (replay (m, d) (map commandOf (evs1 @ evs2)))) \<and>
      lastApplied kv' = last (lastApplied kv # map indexOf (evs1 @ evs2))"
    by (rule applier_replays[OF a ok(1) sorted])
  have s1: "sorted_wrt (<) (lastApplied kv # map indexOf evs1)" "list_all eventOk evs1"
    using sorted ok(1) by (auto simp: sorted_wrt_append)
  obtain m1 d1 where r1: "replay (m, d) (map commandOf evs1) = (m1, d1)" by (cases "replay (m, d) (map commandOf evs1)")
  have k1: "KVstateMachine kv1 = Some m1" "duplicateMp kv1 = Some d1" "lastApplied kv1 = last (lastApplied kv # map indexOf evs1)"
    using applier_replays[OF a s1(2,1), of sz] run1 r1 by auto
  define lag1 where "lag1 = lag\<lparr>duplicateMp := Some d1, KVstateMachine := Some m1, lastApplied := lastApplied kv1\<rparr>"
  have step: "applierStep sz lag (snapshotMsg (encodeSnapShot kv1) (lastApplied kv1) t) = Ret lag1"
    using behind restore_encode[OF k1(1,2), of lag]
    by (simp add: applierStep_def snapshotMsg_def needRestoreSnapShot_def GetState_def lag1_def)
  have "sorted_wrt (<) (lastApplied lag1 # map indexOf evs2')"
    using sorted k1(3) by (cases "evs1 = []") (auto simp: lag1_def same(2) sorted_wrt_append last_map)
  from applier_replays[OF _ _ ok(2) this, of m1 d1 sz] obtain lag2 where
    l: "applierRun sz lag1 evs2' = Ret lag2" "KVstateMachine lag2 = Some (fst (replay (m1, d1) (map commandOf evs2)))"
    "duplicateMp lag2 = Some (snd (replay (m1, d1) (map commandOf evs2)))"
    "lastApplied lag2 = last (lastApplied kv1 # map indexOf evs2)"
    by (auto simp: lag1_def same)
  have "last (lastApplied kv # map indexOf (evs1 @ evs2)) = last (lastApplied kv1 # map indexOf evs2)"
    using k1(3) by simp
  then show ?thesis
    using all step l unfolding map_append replay_append r1 by auto
qed

theorem snapshot_equals_replay_witness:
  "\<exists>kv1 kv2 lag1 lag2. applierRun (\<lambda>_. 1) demoServer (take 1 demoEvents) = Ret kv1 \<and>
    applierRun (\<lambda>_. 1) demoServer demoEvents = Ret kv2 \<and>
    applierStep (\<lambda>_. 1) demoServer (snapshotMsg (encodeSnapShot kv1) 1 1) = Ret lag1 \<and>
    applierRun (\<lambda>_. 1) lag1 (drop 1 demoEvents) = Ret lag2 \<and> KVstateMachine lag2 = KVstateMachine kv2"
proof -
  have split: "take 1 demoEvents @ drop 1 demoEvents = demoEvents" by simp
  have ok: "list_all eventOk (drop 1 demoEvents)" "list_all eventOk (take 1 demoEvents)"
    using demoEvents_ok split by (metis list_all_append)+
  have st: "sorted_wrt (<) (lastApplied demoServer # map indexOf (take 1 demoEvents))"
    by (simp add: demoEvents_def demoRaft_def demoServer_def indexOf_def commandMsg_def)
  obtain kv1 where k: "applierRun (\<lambda>_. 1) demoServer (take 1 demoEvents) = Ret kv1"
    "lastApplied kv1 = last (lastApplied demoServer # map indexOf (take 1 demoEvents))"
    using applier_replays[OF demoServer_state ok(2) st, of "\<lambda>_. 1"] by blast
  have l1: "lastApplied kv1 = 1" using k(2)
    by (simp add: demoEvents_def demoRaft_def demoServer_def indexOf_def commandMsg_def)
  have t: "(1::int) \<le> CurrentTerm (rf demoServer)" "lastApplied demoServer < lastApplied kv1"
    by (simp_all add: demoServer_def demoRaft_def l1)
  have a: "list_all eventOk (take 1 demoEvents @ drop 1 demoEvents)"
    "sorted_wrt (<) (lastApplied demoServer # map indexOf (take 1 demoEvents @ drop 1 demoEvents))"
    unfolding split by (rule demoEvents_ok, rule demoEvents_sorted)
  show ?thesis
    using snapshot_equals_replay[OF demoServer_state a(1) ok(1) a(2) refl refl k(1) t(2,1)] k(1)
    unfolding split l1 by blast
qed

section \<open>Replies\<close>

text \<open>C20. The reply of a Command is what the state machine computed: when the leader of the entry's
  term applies a new command, the goroutine that waits for that index receives exactly its
  status and response, and a retransmission of the same command is answered with the same
  reply, without another log entry and without touching the server, whatever else would run between its lock regions.\<close>

theorem reply_and_retry_agree:
  assumes "KVstateMachine kv = Some m" "duplicateMp kv = Some d"
    and "eventOk (rf kv, notifyChMp kv, msg)" "lastApplied kv < CommandIndex msg" "amCommand msg = Some c" "fresh d c"
    and "state (rf kv) = LEADER" "CurrentTerm (rf kv) = CommandTerm msg"
    and "execute m c = (m', resp, st)" and "caClientId args = ClientId c" "caSequenceNum args = SequenceNum c"
  shows "\<exists>kv' kv''. applierStep sz kv msg = Ret kv' \<and>
    commandReceive kv' (CommandIndex msg) = Some (kv'', \<lparr>crStatus = st, crResponse = resp\<rparr>) \<and>
    (\<forall>before after. CommandRPC before after kv' args = Some (kv', Inl \<lparr>crStatus = st, crResponse = resp\<rparr>))"
proof -
  obtain kv' where k: "applierStep sz kv msg = Ret kv'" "duplicateMp kv' = Some (remember d c (resp, st))"
    "notifyChMp kv' (CommandIndex msg) = Some [\<lparr>nmResponse = resp, nmStatus = st\<rparr>]"
    using applierStep_replay[OF assms(1-5), of sz] assms(6-9) by auto
  then show ?thesis
    using assms(10,11)
    by (auto simp: commandReceive_def CommandRPC_def commandCheck_def isDuplicate_def lookupDuplicate_def remember_def)
qed

theorem reply_and_retry_agree_witness:
  "\<exists>kv' kv''. applierStep (\<lambda>_. 1) demoServer (commandMsg \<lparr>Term = 1, Command = Some demoCommand, Index = 1\<rparr>) = Ret kv' \<and>
     commandReceive kv' 1 = Some (kv'', \<lparr>crStatus = OK, crResponse = []\<rparr>)"
proof -
  let ?m = "commandMsg \<lparr>Term = 1, Command = Some demoCommand, Index = 1\<rparr> :: (Command, snapValue) ApplyMsg"
  let ?args = "\<lparr>caKey = ''x'', caValue = ''a'', caOp = AppendOp, caClientId = 5, caSequenceNum = 1\<rparr>"
  have d: "eventOk (rf demoServer, notifyChMp demoServer, ?m)" "lastApplied demoServer < CommandIndex ?m"
    "amCommand ?m = Some demoCommand" "fresh Map.empty demoCommand" "state (rf demoServer) = LEADER"
    "CurrentTerm (rf demoServer) = CommandTerm ?m"
    "execute newMemKV demoCommand = (MemKV_Append newMemKV ''x'' ''a'', [], OK)"
    "caClientId ?args = ClientId demoCommand" "caSequenceNum ?args = SequenceNum demoCommand" "CommandIndex ?m = 1"
    by (simp_all add: demoServer_def eventOk_def commandMsg_def fresh_def execute_def demoCommand_def op_defs)
      (simp_all add: demoRaft_def lastIdx_def)
  show ?thesis using reply_and_retry_agree[OF demoServer_state d(1-9), of "\<lambda>_. 1"] unfolding d(10) by blast
qed

text \<open>A Command to a server that does not lead is refused with ErrWrongLeader and changes
  nothing; at a leader a new command is appended to the log and on disk before the server
  opens the channel of its index, whatever happens in between.\<close>

lemma Command_starts:
  assumes "sound (rf kv1)" "\<not> isDuplicate kv (caClientId args) (caSequenceNum args)" "before kv = kv1"
  shows "if state (rf kv1) = LEADER
    then \<exists>kv2. CommandRPC before after kv args = Some (getNotifyCh (after kv2) (lastIdx (Log (rf kv1)) + 1), Inr (lastIdx (Log (rf kv1)) + 1)) \<and>
      sound (rf kv2) \<and> durable (rf kv2) \<and>
      (\<exists>e. Log (rf kv2) = Log (rf kv1) @ [e] \<and> Term e = CurrentTerm (rf kv1) \<and> Index e = lastIdx (Log (rf kv1)) + 1 \<and>
         Command e = Some \<lparr>Key = caKey args, Value = caValue args, ClientId = caClientId args,
                           SequenceNum = caSequenceNum args, CommandOp = caOp args\<rparr>)
    else CommandRPC before after kv args = Some (kv1, Inl \<lparr>crStatus = ErrWrongLeader, crResponse = []\<rparr>)"
proof (cases "state (rf kv1) = LEADER")
  case True
  let ?c = "Some \<lparr>Key = caKey args, Value = caValue args, ClientId = caClientId args,
                  SequenceNum = caSequenceNum args, CommandOp = caOp args\<rparr>"
  obtain peer out where k: "Start (rf kv1) ?c = Some (peer, out)" "sound peer" using Start_keeps[OF assms(1)] by blast
  have "Log peer = Log (rf kv1) @ [\<lparr>Term = CurrentTerm (rf kv1), Command = ?c, Index = lastIdx (Log (rf kv1)) + 1\<rparr>]"
    "snd out = (lastIdx (Log (rf kv1)) + 1, CurrentTerm (rf kv1), True)"
    using k(1) Start_leader[OF soundD(1)[OF assms(1)] True, of ?c] by auto
  moreover obtain sig i t l where "out = (sig, i, t, l)" by (cases out)
  ultimately show ?thesis
    using True k assms(2,3) soundD(2)[OF k(2)]
    by (auto simp: CommandRPC_def commandCheck_def commandStart_def intro!: exI[of _ "kv1\<lparr>rf := peer\<rparr>"])
next
  case False
  moreover have "kv1\<lparr>rf := rf kv1\<rparr> = kv1" by simp
  ultimately show ?thesis using assms(2,3) by (simp add: CommandRPC_def commandCheck_def commandStart_def Start_def)
qed

section \<open>The clerk\<close>

definition decisive :: "CommandReply option \<Rightarrow> bool" where
  "decisive r \<longleftrightarrow> (case r of Some reply \<Rightarrow> crStatus reply \<noteq> ErrWrongLeader \<and> crStatus reply \<noteq> ErrTimeOut | None \<Rightarrow> False)"

lemma commandLoop_finds:
  assumes "0 < nservers ck" "curLeader ck < nservers ck" "L < nservers ck"
    and "\<forall>answer \<in> set answers. decisive (answer L)"
    and "(L + nservers ck - curLeader ck) mod nservers ck < length answers"
  shows "\<exists>k s reply. k \<le> (L + nservers ck - curLeader ck) mod nservers ck \<and> s < nservers ck \<and> (answers ! k) s = Some reply \<and>
    decisive (Some reply) \<and> commandLoop answers ck = Some (ck\<lparr>curLeader := s\<rparr>, crResponse reply)"
  using assms
proof (induction answers arbitrary: ck)
  case (Cons answer answers)
  let ?n = "nservers ck" and ?c = "curLeader ck"
  show ?case
  proof (cases "decisive (answer ?c)")
    case True
    then obtain reply where r: "answer ?c = Some reply" "decisive (Some reply)"
      by (cases "answer ?c") (auto simp: decisive_def)
    moreover have "ck\<lparr>curLeader := ?c\<rparr> = ck" by simp
    ultimately show ?thesis using Cons.prems(2)
      by - (rule exI[of _ 0], rule exI[of _ ?c], rule exI[of _ reply], simp add: decisive_def)
  next
    case False
    then have "?c \<noteq> L" using Cons.prems(4) by auto
    let ?ck = "ck\<lparr>curLeader := (?c + 1) mod ?n\<rparr>"
    have step: "commandLoop (answer # answers) ck = commandLoop answers ?ck"
      using False by (cases "answer ?c") (auto simp: decisive_def)
    have dist: "(L + ?n - ?c) mod ?n = Suc ((L + ?n - (?c + 1) mod ?n) mod ?n)"
    proof (cases "?c + 1 = ?n")
      case True
      have "L + ?n - ?c = Suc L" using True Cons.prems(2) by simp
      moreover have "Suc L < ?n" using \<open>?c \<noteq> L\<close> True Cons.prems(3) by simp
      ultimately show ?thesis using True Cons.prems(3) by simp
    next
      case False
      then have c1: "(?c + 1) mod ?n = ?c + 1" using Cons.prems(2) by simp
      show ?thesis
      proof (cases "?c < L")
        case True
        have "L + ?n - ?c = (L - ?c) + ?n" "L + ?n - (?c + 1) = (L - (?c + 1)) + ?n" using True by simp_all
        moreover have "L - ?c < ?n" "L - (?c + 1) < ?n" using Cons.prems(3) by simp_all
        ultimately have "(L + ?n - ?c) mod ?n = L - ?c" "(L + ?n - (?c + 1)) mod ?n = L - (?c + 1)"
          by (metis mod_add_self2 mod_less)+
        then show ?thesis unfolding c1 using True by simp
      next
        case False
        then have "L < ?c" using \<open>?c \<noteq> L\<close> by simp
        then have "L + ?n - ?c < ?n" "L + ?n - (?c + 1) < ?n" "L + ?n - ?c = Suc (L + ?n - (?c + 1))"
          using Cons.prems(2) by linarith+
        then show ?thesis unfolding c1 by simp
      qed
    qed
    have "\<exists>k s reply. k \<le> (L + ?n - (?c + 1) mod ?n) mod ?n \<and> s < ?n \<and> (answers ! k) s = Some reply \<and>
        decisive (Some reply) \<and> commandLoop answers ?ck = Some (?ck\<lparr>curLeader := s\<rparr>, crResponse reply)"
      using Cons.IH[of ?ck] Cons.prems dist by simp
    then obtain k s reply where "k \<le> (L + ?n - (?c + 1) mod ?n) mod ?n" "s < ?n" "(answers ! k) s = Some reply"
      "decisive (Some reply)" "commandLoop answers ?ck = Some (ck\<lparr>curLeader := s\<rparr>, crResponse reply)" by auto
    then show ?thesis using step dist
      by - (rule exI[of _ "Suc k"], rule exI[of _ s], rule exI[of _ reply], simp)
  qed
qed simp

text \<open>C36. A clerk finds the leader in one round: from whatever server it tries first, if one server
  answers decisively whenever it is asked, the loop returns a decisive answer after at most
  as many attempts as there are servers, the next command is sent with the next sequence
  number, and it goes to the server that answered.\<close>

theorem clerk_finds_leader:
  assumes "curLeader ck < nservers ck" "L < nservers ck"
    and "\<forall>args. nservers ck \<le> length (network args) \<and> (\<forall>answer \<in> set (network args). decisive (answer L))"
  shows "\<exists>k s reply ck'. k < nservers ck \<and> s < nservers ck \<and> decisive (Some reply) \<and>
    ClerkCommand ck args network = Some (ck', crResponse reply) \<and>
    (network (args\<lparr>caClientId := clienId ck, caSequenceNum := commandSequnceNum ck + 1\<rparr>) ! k) s = Some reply \<and>
    commandSequnceNum ck' = commandSequnceNum ck + 1 \<and> clienId ck' = clienId ck \<and> curLeader ck' = s"
proof -
  let ?ck = "ck\<lparr>commandSequnceNum := commandSequnceNum ck + 1\<rparr>"
  let ?args = "args\<lparr>caClientId := clienId ck, caSequenceNum := commandSequnceNum ck + 1\<rparr>"
  have n: "0 < nservers ck" using assms(1) by simp
  have lt: "(L + nservers ck - curLeader ck) mod nservers ck < nservers ck" using n by simp
  also have "\<dots> \<le> length (network ?args)" using assms(3) by blast
  finally have len: "(L + nservers ?ck - curLeader ?ck) mod nservers ?ck < length (network ?args)" by simp
  have ans: "\<forall>answer \<in> set (network ?args). decisive (answer L)" using assms(3) by blast
  obtain k s reply where r: "k \<le> (L + nservers ck - curLeader ck) mod nservers ck" "s < nservers ck"
    "(network ?args ! k) s = Some reply" "decisive (Some reply)"
    "commandLoop (network ?args) ?ck = Some (?ck\<lparr>curLeader := s\<rparr>, crResponse reply)"
    using commandLoop_finds[of ?ck L "network ?args"] n assms(1,2) ans len by auto
  have "k < nservers ck" using r(1) lt by (rule le_less_trans)
  then show ?thesis using r(2-5)
    by - (rule exI[of _ k], rule exI[of _ s], rule exI[of _ reply], rule exI[of _ "?ck\<lparr>curLeader := s\<rparr>"],
      simp add: ClerkCommand_def)
qed

theorem clerk_finds_leader_witness:
  "\<exists>ck'. ClerkCommand (MakeClerk 3 4) \<lparr>caKey = ''x'', caValue = [], caOp = GetOp, caClientId = 0, caSequenceNum = 0\<rparr>
      (\<lambda>_. replicate 3 (\<lambda>s. if s = 2 then Some \<lparr>crStatus = OK, crResponse = ''v''\<rparr>
                            else Some \<lparr>crStatus = ErrWrongLeader, crResponse = []\<rparr>)) = Some (ck', ''v'') \<and>
     curLeader ck' = 2 \<and> commandSequnceNum ck' = 1"
proof -
  let ?net = "\<lambda>_ :: CommandArgs. replicate 3 (\<lambda>s :: nat. if s = 2 then Some \<lparr>crStatus = OK, crResponse = ''v''\<rparr>
                            else Some \<lparr>crStatus = ErrWrongLeader, crResponse = []\<rparr>)"
  let ?a = "\<lparr>caKey = ''x'', caValue = [], caOp = GetOp, caClientId = 0, caSequenceNum = 0\<rparr>"
  have d: "curLeader (MakeClerk 3 4) < nservers (MakeClerk 3 4)" "2 < nservers (MakeClerk 3 4)"
    "\<forall>args. nservers (MakeClerk 3 4) \<le> length (?net args) \<and> (\<forall>answer \<in> set (?net args). decisive (answer 2))"
    by (simp_all add: MakeClerk_def decisive_def status_defs)
  obtain k s reply ck' where r: "k < 3" "decisive (Some reply)"
    "ClerkCommand (MakeClerk 3 4) ?a ?net = Some (ck', crResponse reply)"
    "(?net ?a ! k) s = Some reply" "commandSequnceNum ck' = 1" "curLeader ck' = s"
    using clerk_finds_leader[OF d, of ?a] by (auto simp: MakeClerk_def)
  have "s = 2" using r(1,2,4) by (auto simp: decisive_def status_defs split: if_splits)
  then have "crResponse reply = ''v''" using r(1,4) by (auto split: if_splits)
  then show ?thesis using r(3,5,6) \<open>s = 2\<close> by auto
qed

end
