(* ===== verification/KvCluster.thy ===== *)
theory KvCluster
  imports KvRaftProps RaftOrder
begin

text \<open>
  The replicated store as a whole: key/value servers on the peers of a cluster.  Each server
  applies what its own peer delivers; the theorem says that all of them go through the same states.
\<close>

section \<open>Servers on a cluster\<close>

text \<open>The messages of an event list and the state machine with its table of last commands.\<close>

definition messageOf :: "kvEvent \<Rightarrow> (Command, snapValue) ApplyMsg" where
  "messageOf ev = (case ev of (peer, chans, m) \<Rightarrow> m)"

definition kvState :: "KVServer \<Rightarrow> MemKV \<times> (int \<rightharpoonup> CommandResult)" where
  "kvState kv = (the (KVstateMachine kv), the (duplicateMp kv))"

text \<open>
  What the applier of the server on peer \<open>i\<close> has met by the time the cluster is in state \<open>s\<close>: each message that
  its peer has delivered, together with the peer as it was at some moment from that delivery on and channels
  without an old message for that index.
\<close>

definition serverEvents :: "nat \<Rightarrow> (Command, snapValue) Cluster \<Rightarrow> int \<Rightarrow> kvEvent list \<Rightarrow> bool" where
  "serverEvents n s i evs \<longleftrightarrow>
     map messageOf evs = delivered s i \<and>
     (\<forall>(peer, chans, m) \<in> set evs.
        chans (CommandIndex m) \<in> {None, Some []} \<and>
        (\<exists>u. plainStep\<^sup>*\<^sup>* (bootCluster n) u \<and> i \<in> ids u \<and> m \<in> set (delivered u i) \<and> peer = node u i))"

text \<open>What clerks send.\<close>

definition clerkCommands :: "(Command, snapValue) ApplyMsg list \<Rightarrow> bool" where
  "clerkCommands ms \<longleftrightarrow> (\<forall>m \<in> set ms. \<exists>c. amCommand m = Some c \<and> CommandOp c \<in> {GetOp, PutOp, AppendOp})"

section \<open>One server\<close>

lemma peer_has_delivered:
  assumes "plainStep\<^sup>*\<^sup>* (bootCluster n) u" "i \<in> ids u" "m \<in> set (delivered u i)" "CommandValid m"
  shows "sound (node u i) \<and> CommandIndex m \<le> lastIdx (Log (node u i))"
proof -
  obtain g where "plainInv g u" using plainInv_steps[OF assms(1) plainInv_boot] by blast
  then have inv: "safetyInv g u" "electionInv u" by (auto simp: plainInv_def)
  note f = peer_facts[OF inv assms(2)]
  obtain e where "CommandIndex m = Index e" "taken g (csize u) (ids u) (CurrentTerm (node u i)) (fullLog g i) e"
    using delivered_taken[OF inv assms(2-4)] by blast
  then have "nat (CommandIndex m) < length (fullLog g i)" by (auto simp: taken_def committed_def)
  then show ?thesis using represents_length(5)[OF f(7,6)] f(1) by linarith
qed

lemma serverEvents_ok:
  assumes s: "plainStep\<^sup>*\<^sup>* (bootCluster n) s" "i \<in> ids s" and evs: "serverEvents n s i evs" and c: "clerkCommands (delivered s i)"
  shows "list_all eventOk evs" "map indexOf evs = map (\<lambda>k. int k + 1) [0..<length evs]"
    "map commandOf evs = map (the \<circ> amCommand) (delivered s i)" "length evs = length (delivered s i)"
proof -
  have ms: "map messageOf evs = delivered s i" using evs by (simp add: serverEvents_def)
  then show len: "length evs = length (delivered s i)" by (metis length_map)
  have v: "CommandValid (messageOf ev)" if "ev \<in> set evs" for ev
    using that delivered_order[OF s] ms by (metis in_set_conv_nth length_map nth_map)
  show "list_all eventOk evs" unfolding list_all_iff
  proof
    fix ev assume ev: "ev \<in> set evs"
    obtain peer chans m where e: "ev = (peer, chans, m)" by (cases ev)
    have "messageOf ev \<in> set (map messageOf evs)" using ev by simp
    then have m: "m \<in> set (delivered s i)" unfolding ms by (simp add: e messageOf_def)
    obtain u where u: "plainStep\<^sup>*\<^sup>* (bootCluster n) u" "i \<in> ids u" "m \<in> set (delivered u i)" "peer = node u i"
      "chans (CommandIndex m) \<in> {None, Some []}" using evs ev e unfolding serverEvents_def by blast
    have "CommandValid m" using v[OF ev] e by (simp add: messageOf_def)
    then show "eventOk ev" using peer_has_delivered[OF u(1-3)] u(4,5) c m by (auto simp: eventOk_def e clerkCommands_def)
  qed
  show "map indexOf evs = map (\<lambda>k. int k + 1) [0..<length evs]"
  proof (rule nth_equalityI)
    fix k assume "k < length (map indexOf evs)"
    then have k: "k < length (delivered s i)" using len by simp
    have "map messageOf evs ! k = messageOf (evs ! k)" using k len by simp
    then have "indexOf (evs ! k) = CommandIndex (delivered s i ! k)"
      unfolding ms by (simp add: indexOf_def messageOf_def split: prod.splits)
    then show "map indexOf evs ! k = map (\<lambda>k. int k + 1) [0..<length evs] ! k" using delivered_order[OF s k] k len by simp
  qed simp
  show "map commandOf evs = map (the \<circ> amCommand) (delivered s i)"
    unfolding ms[symmetric] by (auto simp: commandOf_def messageOf_def split: prod.splits)
qed

text \<open>After any number of messages the server has executed the commands of as many messages, in that order.\<close>

lemma server_replays:
  assumes s: "plainStep\<^sup>*\<^sup>* (bootCluster n) s" "i \<in> ids s" and evs: "serverEvents n s i evs" and c: "clerkCommands (delivered s i)"
    and kv: "StartKVServer n i ps maxstate = Some kv" and m: "m \<le> length evs"
  shows "\<exists>kv'. applierRun sz kv (take m evs) = Ret kv' \<and> lastApplied kv' = int m \<and>
    kvState kv' = replay (newMemKV, Map.empty) (map (the \<circ> amCommand) (take m (delivered s i)))"
proof -
  note ok = serverEvents_ok[OF s evs c]
  have k: "KVstateMachine kv = Some newMemKV" "duplicateMp kv = Some Map.empty" "lastApplied kv = 0"
    using kv by (auto simp: StartKVServer_def bind_eq_Some_conv)
  have ix: "map indexOf (take m evs) = map (\<lambda>k. int k + 1) [0..<m]" unfolding take_map[symmetric] ok(2) using m by (simp add: take_map)
  have "sorted_wrt (<) (map (\<lambda>k. int k + 1) [0..<m])" by (simp add: sorted_wrt_iff_nth_less)
  then have so: "sorted_wrt (<) (lastApplied kv # map indexOf (take m evs))" by (auto simp: k(3) ix)
  have ev: "list_all eventOk (take m evs)" using ok(1) by (auto simp: list_all_iff dest: in_set_takeD)
  from applier_replays[OF k(1,2) ev so] obtain kv' where kv': "applierRun sz kv (take m evs) = Ret kv'"
    "KVstateMachine kv' = Some (fst (replay (newMemKV, Map.empty) (map commandOf (take m evs))))"
    "duplicateMp kv' = Some (snd (replay (newMemKV, Map.empty) (map commandOf (take m evs))))"
    "lastApplied kv' = last (lastApplied kv # map indexOf (take m evs))" by blast
  have "last (lastApplied kv # map indexOf (take m evs)) = int m" unfolding ix by (cases m) (simp_all add: k(3))
  moreover have "map commandOf (take m evs) = map (the \<circ> amCommand) (take m (delivered s i))" using ok(3) by (metis take_map)
  ultimately show ?thesis using kv' by (auto simp: kvState_def)
qed

section \<open>All servers\<close>

text \<open>C2. The replicas go through the same states: in a run of the cluster in which no snapshot is handed to a service, where all commands
  are the Get, Put and Append of clerks, take a server that applies what its peer has delivered so far and a server that applies what
  its own peer has delivered then or at any later time.  Neither panics nor blocks, and after any number of messages that both have
  received their data and their tables of last commands are the same: those of executing the delivered commands one after the other.  So
  the one that is behind has exactly a state the other has been in, whichever leaders, losses, reorderings and crashes
  there were.\<close>

theorem replicas_agree:
  assumes s: "plainStep\<^sup>*\<^sup>* (bootCluster n) s" "plainStep\<^sup>*\<^sup>* s t" and ij: "i \<in> ids s" "j \<in> ids s"
    and kv: "StartKVServer n i ps mi = Some kvi" "StartKVServer n j ps' mj = Some kvj"
    and evs: "serverEvents n s i evi" "serverEvents n t j evj"
    and c: "clerkCommands (delivered s i)" "clerkCommands (delivered t j)"
  shows "(\<exists>a. applierRun sz kvi evi = Ret a \<and> lastApplied a = int (length (delivered s i))) \<and>
    (\<exists>b. applierRun sz kvj evj = Ret b \<and> lastApplied b = int (length (delivered t j))) \<and>
    (\<forall>k. k \<le> length evi \<and> k \<le> length evj \<longrightarrow>
       (\<exists>a b. applierRun sz kvi (take k evi) = Ret a \<and> applierRun sz kvj (take k evj) = Ret b \<and>
          lastApplied a = int k \<and> lastApplied b = int k \<and> kvState a = kvState b \<and>
          kvState a = replay (newMemKV, Map.empty) (map (the \<circ> amCommand) (take k (delivered s i)))))"
proof -
  have t: "plainStep\<^sup>*\<^sup>* (bootCluster n) t" "j \<in> ids t"
    using s ij(2) plainInv_steps[OF s(2)] plainInv_steps[OF s(1) plainInv_boot] by (auto dest: rtranclp_trans)
  note ri = server_replays[OF s(1) ij(1) evs(1) c(1) kv(1)] and rj = server_replays[OF t evs(2) c(2) kv(2)]
  note len = serverEvents_ok(4)[OF s(1) ij(1) evs(1) c(1)] serverEvents_ok(4)[OF t evs(2) c(2)]
  have "kvState a = kvState b" if k: "k \<le> length evi" "k \<le> length evj"
    and ab: "kvState a = replay (newMemKV, Map.empty) (map (the \<circ> amCommand) (take k (delivered s i)))"
      "kvState b = replay (newMemKV, Map.empty) (map (the \<circ> amCommand) (take k (delivered t j)))" for k a b
    using delivered_agree[OF s ij, of k] k len ab by simp
  then have "\<exists>a b. applierRun sz kvi (take k evi) = Ret a \<and> applierRun sz kvj (take k evj) = Ret b \<and>
      lastApplied a = int k \<and> lastApplied b = int k \<and> kvState a = kvState b \<and>
      kvState a = replay (newMemKV, Map.empty) (map (the \<circ> amCommand) (take k (delivered s i)))"
    if "k \<le> length evi" "k \<le> length evj" for k using ri[OF that(1), of sz] rj[OF that(2), of sz] that by blast
  then show ?thesis using ri[OF le_refl, of sz] rj[OF le_refl, of sz] len by auto
qed

section \<open>Two servers that apply a command\<close>

definition demoEvent :: "(Command, snapValue) Raft \<Rightarrow> kvEvent" where
  "demoEvent peer = (peer, Map.empty, firstMsg demoCommand)"

lemma demo_server: "\<exists>kv. StartKVServer 3 i MakePersister (-1) = Some kv" if "0 \<le> i" "i < 3"
proof -
  obtain peer :: "(Command, snapValue) Raft" where "Make 3 i MakePersister = Some peer" using bootNode[of i 3] \<open>0 \<le> i\<close> \<open>i < 3\<close> by auto
  then show ?thesis by (simp add: StartKVServer_def)
qed

theorem replicas_agree_witness:
  "\<exists>s t kv kv' a b. plainStep\<^sup>*\<^sup>* (bootCluster 3) s \<and> plainStep\<^sup>*\<^sup>* s t \<and>
     applierRun (\<lambda>_. 1) kv [demoEvent (node s 0)] = Ret a \<and> applierRun (\<lambda>_. 1) kv' [demoEvent (node t 1)] = Ret b \<and>
     lastApplied a = 1 \<and> kvState a = kvState b"
proof -
  obtain s t :: "(Command, snapValue) Cluster" where s: "plainStep\<^sup>*\<^sup>* (bootCluster 3) s" "plainStep\<^sup>*\<^sup>* s t" "csize s = 3"
    "delivered s 0 = [firstMsg demoCommand]" "delivered t 1 = [firstMsg demoCommand]" using demo_delivery[of demoCommand] by blast
  have ids: "ids s = {0..<3}" "ids t = {0..<3}" using s(3) steps_size[OF plain_steps[OF s(2)]] by (auto simp: ids_def)
  have t: "plainStep\<^sup>*\<^sup>* (bootCluster 3) t" using s(1,2) by (rule rtranclp_trans)
  obtain kv kv' where kv: "StartKVServer 3 0 MakePersister (-1) = Some kv" "StartKVServer 3 1 MakePersister (-1) = Some kv'"
    using demo_server[of 0] demo_server[of 1] by auto
  have e: "serverEvents 3 s 0 [demoEvent (node s 0)]" "serverEvents 3 t 1 [demoEvent (node t 1)]"
    using s t ids by (auto simp: serverEvents_def demoEvent_def messageOf_def)
  have c: "clerkCommands (delivered s 0)" "clerkCommands (delivered t 1)"
    by (simp_all add: s(4,5) clerkCommands_def firstMsg_def commandMsg_def demoCommand_def)
  obtain a b where "applierRun (\<lambda>_. 1) kv [demoEvent (node s 0)] = Ret a" "applierRun (\<lambda>_. 1) kv' [demoEvent (node t 1)] = Ret b"
    "lastApplied a = 1" "kvState a = kvState b"
    using replicas_agree[OF s(1,2) _ _ kv e c, of "\<lambda>_. 1"] ids s(4,5) by (auto dest!: spec[of _ 1])
  then show ?thesis using s(1,2) by blast
qed

end
