(* ===== verification/Harness.thy ===== *)
theory Harness
  imports RaftNode LabRpc
begin

text \<open>
  The test harness of the replicated key/value server (\<^verbatim>\<open>src/kvraft/config.go\<close>): it starts and shuts down
  servers on the simulated network, connects them in groups, and makes clients with ends of their own.
  The harness of the shard controller (\<^verbatim>\<open>src/shardctrler/config.go\<close>) is the same code around another
  server, so the operations here leave the server open, as a record of what the harness calls;
  what one harness has in addition extends the record of the configuration.

  \<^term>\<open>None\<close> is a panic or a failed test.  Random names and rolls of the dice are arguments, and a clerk's
  pointer is a number.  \<^verbatim>\<open>cfg.saved[i]\<close> points to the persister that the running server \<open>i\<close> writes to, so its
  content is read off the server while there is one.  The mutex makes every exported operation atomic, so an operation and
  its variant for callers that hold the mutex are the same function.
\<close>

section \<open>The state\<close>

record ('s, 'r, 'b) config =
  cfgNet :: "(string, int) Network"
  cfgN :: nat
  kvservers :: "'s option list"
  saved :: "('r, 'b) Persister option list"
  endnames :: "string list option list"
  clerks :: "nat \<rightharpoonup> string list"
  nextClientId :: int

text \<open>What the harness uses of a server: its Raft peer, \<^verbatim>\<open>Kill\<close>, and the function that starts one.\<close>

record ('s, 'c, 'b) service =
  svcRaft :: "'s \<Rightarrow> ('c, 'b) Raft"
  svcKill :: "'s \<Rightarrow> 's"
  svcStart :: "nat \<Rightarrow> int \<Rightarrow> ('c gobValue, 'b) Persister \<Rightarrow> 's option"

text \<open>Each handle changes places with one at or before its position.\<close>

fun shuffleFrom :: "nat \<Rightarrow> nat list \<Rightarrow> 'a list \<Rightarrow> 'a list" where
  "shuffleFrom i [] sa = sa"
| "shuffleFrom i (r # rs) sa = (let j = r mod (i + 1) in shuffleFrom (i + 1) rs (sa[i := sa ! j, j := sa ! i]))"

definition random_handles :: "(nat \<Rightarrow> nat) \<Rightarrow> 'a list \<Rightarrow> 'a list" where
  "random_handles rolls kvh = shuffleFrom 0 (map rolls [0..<length kvh]) kvh"

definition checkTimeout :: "bool \<Rightarrow> nat \<Rightarrow> unit option" where
  "checkTimeout tFailed seconds = (if \<not> tFailed \<and> seconds > 120 then None else Some ())"

text \<open>The content of \<^verbatim>\<open>cfg.saved[i]\<close>.\<close>

definition savedAt :: "('s, 'c, 'b) service \<Rightarrow> ('s, 'c gobValue, 'b, 'z) config_scheme \<Rightarrow> int \<Rightarrow> ('c gobValue, 'b) Persister option option" where
  "savedAt svc cfg i = do {
     sv \<leftarrow> go_index (saved cfg) i;
     kv \<leftarrow> go_index (kvservers cfg) i;
     Some (case sv of None \<Rightarrow> None | Some p \<Rightarrow> (case kv of None \<Rightarrow> Some p | Some kv \<Rightarrow> Some (persister (svcRaft svc kv))))
   }"

text \<open>The loops that look for the largest size; a nil persister panics.\<close>

fun maxSize :: "(('c gobValue, 'b) Persister \<Rightarrow> int) \<Rightarrow> ('s, 'c, 'b) service \<Rightarrow> ('s, 'c gobValue, 'b, 'z) config_scheme \<Rightarrow> int list \<Rightarrow> int \<Rightarrow> int option" where
  "maxSize szOf svc cfg [] best = Some best"
| "maxSize szOf svc cfg (i # is) best = do {
     p \<leftarrow> savedAt svc cfg i;
     p \<leftarrow> p;
     maxSize szOf svc cfg is (if szOf p > best then szOf p else best)
   }"

definition All :: "('s, 'r, 'b, 'z) config_scheme \<Rightarrow> int list" where
  "All cfg = map int [0..<cfgN cfg]"

definition LogSize :: "('c gobValue \<Rightarrow> nat) \<Rightarrow> ('s, 'c, 'b) service \<Rightarrow> ('s, 'c gobValue, 'b, 'z) config_scheme \<Rightarrow> int option" where
  "LogSize sz svc cfg = maxSize (PersisterRaftStateSize sz) svc cfg (All cfg) 0"

definition SnapshotSize :: "('b \<Rightarrow> nat) \<Rightarrow> ('s, 'c, 'b) service \<Rightarrow> ('s, 'c gobValue, 'b, 'z) config_scheme \<Rightarrow> int option" where
  "SnapshotSize sz svc cfg = maxSize (Persister.SnapshotSize sz) svc cfg (All cfg) 0"

section \<open>Connections between servers\<close>

text \<open>A row of names that was not allocated yet is nil, and indexing it panics.\<close>

definition endAt :: "('s, 'r, 'b, 'z) config_scheme \<Rightarrow> int \<Rightarrow> int \<Rightarrow> string option" where
  "endAt cfg i j = do {
     row \<leftarrow> go_index (endnames cfg) i;
     row \<leftarrow> row;
     go_index row j
   }"

definition enableEnd :: "('s, 'r, 'b, 'z) config_scheme \<Rightarrow> string \<Rightarrow> bool \<Rightarrow> ('s, 'r, 'b, 'z) config_scheme" where
  "enableEnd cfg e yes = cfg\<lparr>cfgNet := Enable (cfgNet cfg) e yes\<rparr>"

text \<open>A loop that switches ends on or off: \<open>pick\<close> gives the name of the end, if any, or panics.\<close>

fun eachEnd ::
  "(('s, 'r, 'b, 'z) config_scheme \<Rightarrow> 'x \<Rightarrow> string option option) \<Rightarrow> bool \<Rightarrow> ('s, 'r, 'b, 'z) config_scheme \<Rightarrow> 'x list \<Rightarrow>
   ('s, 'r, 'b, 'z) config_scheme option" where
  "eachEnd pick yes cfg [] = Some cfg"
| "eachEnd pick yes cfg (x # xs) = do {
     e \<leftarrow> pick cfg x;
     eachEnd pick yes (case e of None \<Rightarrow> cfg | Some e \<Rightarrow> enableEnd cfg e yes) xs
   }"

definition connectUnlocked :: "('s, 'r, 'b, 'z) config_scheme \<Rightarrow> int \<Rightarrow> int list \<Rightarrow> ('s, 'r, 'b, 'z) config_scheme option" where
  "connectUnlocked cfg i to = do {
     cfg \<leftarrow> eachEnd (\<lambda>cfg t. map_option Some (endAt cfg i t)) True cfg to;
     eachEnd (\<lambda>cfg t. map_option Some (endAt cfg t i)) True cfg to
   }"

text \<open>The second loop asks whether row \<open>j\<close> is allocated, the position in the list, but uses row \<^verbatim>\<open>from[j]\<close>.\<close>

definition disconnectUnlocked :: "('s, 'r, 'b, 'z) config_scheme \<Rightarrow> int \<Rightarrow> int list \<Rightarrow> ('s, 'r, 'b, 'z) config_scheme option" where
  "disconnectUnlocked cfg i from = do {
     cfg \<leftarrow> eachEnd (\<lambda>cfg t. do {
         row \<leftarrow> go_index (endnames cfg) i;
         if row \<noteq> None then map_option Some (endAt cfg i t) else Some None
       }) False cfg from;
     eachEnd (\<lambda>cfg (j, t). do {
         row \<leftarrow> go_index (endnames cfg) (int j);
         if row \<noteq> None then map_option Some (endAt cfg t i) else Some None
       }) False cfg (zip [0..<length from] from)
   }"

definition connect :: "('s, 'r, 'b, 'z) config_scheme \<Rightarrow> int \<Rightarrow> int list \<Rightarrow> ('s, 'r, 'b, 'z) config_scheme option" where
  "connect cfg i to = connectUnlocked cfg i to"

definition disconnect :: "('s, 'r, 'b, 'z) config_scheme \<Rightarrow> int \<Rightarrow> int list \<Rightarrow> ('s, 'r, 'b, 'z) config_scheme option" where
  "disconnect cfg i from = disconnectUnlocked cfg i from"

text \<open>A loop over servers.\<close>

fun eachServer :: "('a \<Rightarrow> int \<Rightarrow> 'a option) \<Rightarrow> 'a \<Rightarrow> int list \<Rightarrow> 'a option" where
  "eachServer act cfg [] = Some cfg"
| "eachServer act cfg (i # is) = do { cfg \<leftarrow> act cfg i; eachServer act cfg is }"

definition ConnectAll :: "('s, 'r, 'b, 'z) config_scheme \<Rightarrow> ('s, 'r, 'b, 'z) config_scheme option" where
  "ConnectAll cfg = eachServer (\<lambda>cfg i. connectUnlocked cfg i (All cfg)) cfg (All cfg)"

text \<open>One turn of the loops of \<^verbatim>\<open>partition\<close>: a server leaves those over there and joins those over here.\<close>

definition takeSide :: "int list \<Rightarrow> int list \<Rightarrow> ('s, 'r, 'b, 'z) config_scheme \<Rightarrow> int \<Rightarrow> ('s, 'r, 'b, 'z) config_scheme option" where
  "takeSide here there cfg i = do {
     cfg \<leftarrow> disconnectUnlocked cfg i there;
     connectUnlocked cfg i here
   }"

definition partition :: "('s, 'r, 'b, 'z) config_scheme \<Rightarrow> int list \<Rightarrow> int list \<Rightarrow> ('s, 'r, 'b, 'z) config_scheme option" where
  "partition cfg p1 p2 = do {
     cfg \<leftarrow> eachServer (takeSide p1 p2) cfg p1;
     eachServer (takeSide p2 p1) cfg p2
   }"

section \<open>Clients\<close>

text \<open>The loop that makes ends to the servers from \<open>j\<close> on; a name that is taken fails the test.\<close>

fun makeEnds ::
  "('s, 'r, 'b, 'z) config_scheme \<Rightarrow> int \<Rightarrow> string list \<Rightarrow> (('s, 'r, 'b, 'z) config_scheme \<times> string ClientEnd list) option" where
  "makeEnds cfg j [] = Some (cfg, [])"
| "makeEnds cfg j (e # es) =
     (case MakeEnd (cfgNet cfg) e of
        Ret (rn, ce) \<Rightarrow> do {
          (cfg, ces) \<leftarrow> makeEnds (cfg\<lparr>cfgNet := Connect rn e j\<rparr>) (j + 1) es;
          Some (cfg, ce # ces)
        }
      | _ \<Rightarrow> None)"

text \<open>A clerk that the map does not have reads as nil.\<close>

definition clerkEnd :: "('s, 'r, 'b, 'z) config_scheme \<Rightarrow> nat \<Rightarrow> int \<Rightarrow> string option" where
  "clerkEnd cfg ck j = do { row \<leftarrow> clerks cfg ck; go_index row j }"

definition ConnectClientUnlocked :: "('s, 'r, 'b, 'z) config_scheme \<Rightarrow> nat \<Rightarrow> int list \<Rightarrow> ('s, 'r, 'b, 'z) config_scheme option" where
  "ConnectClientUnlocked cfg ck to = eachEnd (\<lambda>cfg t. map_option Some (clerkEnd cfg ck t)) True cfg to"

definition DisconnectClientUnlocked :: "('s, 'r, 'b, 'z) config_scheme \<Rightarrow> nat \<Rightarrow> int list \<Rightarrow> ('s, 'r, 'b, 'z) config_scheme option" where
  "DisconnectClientUnlocked cfg ck from = eachEnd (\<lambda>cfg t. map_option Some (clerkEnd cfg ck t)) False cfg from"

definition ConnectClient :: "('s, 'r, 'b, 'z) config_scheme \<Rightarrow> nat \<Rightarrow> int list \<Rightarrow> ('s, 'r, 'b, 'z) config_scheme option" where
  "ConnectClient cfg ck to = ConnectClientUnlocked cfg ck to"

definition DisconnectClient :: "('s, 'r, 'b, 'z) config_scheme \<Rightarrow> nat \<Rightarrow> int list \<Rightarrow> ('s, 'r, 'b, 'z) config_scheme option" where
  "DisconnectClient cfg ck from = DisconnectClientUnlocked cfg ck from"

text \<open>\<open>ck\<close> is the pointer to the new clerk, which \<open>mk\<close> makes of its ends; \<open>names\<close> are \<^verbatim>\<open>cfg.n\<close> random names.\<close>

definition makeClient ::
  "(string ClientEnd list \<Rightarrow> 'k) \<Rightarrow> (nat \<Rightarrow> nat) \<Rightarrow> ('s, 'r, 'b, 'z) config_scheme \<Rightarrow> nat \<Rightarrow> string list \<Rightarrow> int list \<Rightarrow>
   (('s, 'r, 'b, 'z) config_scheme \<times> 'k) option" where
  "makeClient mk rolls cfg ck names to = do {
     (cfg, ces) \<leftarrow> makeEnds cfg 0 names;
     let clerk = mk (random_handles rolls ces);
     let cfg = cfg\<lparr>clerks := (clerks cfg)(ck \<mapsto> names), nextClientId := nextClientId cfg + 1\<rparr>;
     cfg \<leftarrow> ConnectClientUnlocked cfg ck to;
     Some (cfg, clerk)
   }"

definition deleteClient :: "('s, 'r, 'b, 'z) config_scheme \<Rightarrow> nat \<Rightarrow> ('s, 'r, 'b, 'z) config_scheme" where
  "deleteClient cfg ck = cfg\<lparr>clerks := (clerks cfg)(ck := None)\<rparr>"

section \<open>Servers\<close>

text \<open>The killed server is the second result: it is no longer the harness's, but it goes on.\<close>

definition ShutdownServer ::
  "('s, 'c, 'b) service \<Rightarrow> ('s, 'c gobValue, 'b, 'z) config_scheme \<Rightarrow> int \<Rightarrow>
   (('s, 'c gobValue, 'b, 'z) config_scheme \<times> 's option) option" where
  "ShutdownServer svc cfg i = do {
     cfg \<leftarrow> disconnectUnlocked cfg i (All cfg);
     let cfg = cfg\<lparr>cfgNet := DeleteServer (cfgNet cfg) i\<rparr>;
     sv \<leftarrow> savedAt svc cfg i;
     saved' \<leftarrow> go_set (saved cfg) i (map_option Copy sv);
     kv \<leftarrow> go_index (kvservers cfg) i;
     kvservers' \<leftarrow> go_set (kvservers cfg) i None;
     Some (cfg\<lparr>saved := saved', kvservers := kvservers'\<rparr>, map_option (svcKill svc) kv)
   }"

text \<open>\<open>names\<close> are the random names of the outgoing ends, \<open>srv\<close> the new server object of the network.\<close>

definition StartServer ::
  "('s, 'c, 'b) service \<Rightarrow> ('s, 'c gobValue, 'b, 'z) config_scheme \<Rightarrow> int \<Rightarrow> string list \<Rightarrow> nat \<Rightarrow>
   ('s, 'c gobValue, 'b, 'z) config_scheme option" where
  "StartServer svc cfg i names srv = do {
     endnames' \<leftarrow> go_set (endnames cfg) i (Some names);
     (cfg, ces) \<leftarrow> makeEnds (cfg\<lparr>endnames := endnames'\<rparr>) 0 names;
     sv \<leftarrow> savedAt svc cfg i;
     let p = (case sv of Some p \<Rightarrow> Copy p | None \<Rightarrow> MakePersister);
     saved' \<leftarrow> go_set (saved cfg) i (Some p);
     kv \<leftarrow> svcStart svc (length ces) i p;
     kvservers' \<leftarrow> go_set (kvservers cfg) i (Some kv);
     Some (cfg\<lparr>saved := saved', kvservers := kvservers', cfgNet := AddServer (cfgNet cfg) i srv\<rparr>)
   }"

text \<open>The first leader found, and otherwise \<open>(false, 0)\<close>; a server that is shut down panics.\<close>

fun leaderFrom :: "('s, 'c, 'b) service \<Rightarrow> ('s, 'c gobValue, 'b, 'z) config_scheme \<Rightarrow> int list \<Rightarrow> (bool \<times> int) option" where
  "leaderFrom svc cfg [] = Some (False, 0)"
| "leaderFrom svc cfg (i # is) = do {
     kv \<leftarrow> go_index (kvservers cfg) i;
     kv \<leftarrow> kv;
     if snd (GetState (svcRaft svc kv)) then Some (True, i) else leaderFrom svc cfg is
   }"

definition Leader :: "('s, 'c, 'b) service \<Rightarrow> ('s, 'c gobValue, 'b, 'z) config_scheme \<Rightarrow> (bool \<times> int) option" where
  "Leader svc cfg = leaderFrom svc cfg (All cfg)"

text \<open>The loop that fills the two sides with everyone but the leader \<open>l\<close>.\<close>

fun fillSides :: "int \<Rightarrow> int list \<Rightarrow> int \<Rightarrow> int list \<Rightarrow> int list \<Rightarrow> (int list \<times> int list) option" where
  "fillSides l [] j p1 p2 = Some (p1, p2)"
| "fillSides l (i # is) j p1 p2 =
     (if i \<noteq> l
      then if j < int (length p1)
        then do { p1 \<leftarrow> go_set p1 j i; fillSides l is (j + 1) p1 p2 }
        else do { p2 \<leftarrow> go_set p2 (j - int (length p1)) i; fillSides l is (j + 1) p1 p2 }
      else fillSides l is j p1 p2)"

definition splitAround :: "nat \<Rightarrow> int \<Rightarrow> (int list \<times> int list) option" where
  "splitAround n l = do {
     (p1, p2) \<leftarrow> fillSides l (map int [0..<n]) 0 (replicate (n div 2 + 1) 0) (replicate (n div 2) 0);
     p2 \<leftarrow> go_set p2 (int (length p2) - 1) l;
     Some (p1, p2)
   }"

definition make_partition :: "('s, 'c, 'b) service \<Rightarrow> ('s, 'c gobValue, 'b, 'z) config_scheme \<Rightarrow> (int list \<times> int list) option" where
  "make_partition svc cfg = do { (_, l) \<leftarrow> Leader svc cfg; splitAround (cfgN cfg) l }"

text \<open>Server \<open>i\<close> gets the names of row \<open>i\<close>.\<close>

fun startAll ::
  "('s, 'c, 'b) service \<Rightarrow> ('s, 'c gobValue, 'b, 'z) config_scheme \<Rightarrow> int \<Rightarrow> string list list \<Rightarrow>
   ('s, 'c gobValue, 'b, 'z) config_scheme option" where
  "startAll svc cfg i [] = Some cfg"
| "startAll svc cfg i (names # rest) = do {
     cfg \<leftarrow> StartServer svc cfg i names (nat i);
     startAll svc cfg (i + 1) rest
   }"

definition setReliable :: "('s, 'r, 'b, 'z) config_scheme \<Rightarrow> bool \<Rightarrow> ('s, 'r, 'b, 'z) config_scheme" where
  "setReliable cfg yes = cfg\<lparr>cfgNet := Reliable (cfgNet cfg) yes\<rparr>"

text \<open>The second half of \<^verbatim>\<open>make_config\<close>, on the configuration as it is allocated.\<close>

definition bringUp ::
  "('s, 'c, 'b) service \<Rightarrow> ('s, 'c gobValue, 'b, 'z) config_scheme \<Rightarrow> string list list \<Rightarrow> bool \<Rightarrow>
   ('s, 'c gobValue, 'b, 'z) config_scheme option" where
  "bringUp svc cfg names unreliable = do {
     cfg \<leftarrow> startAll svc cfg 0 names;
     cfg \<leftarrow> ConnectAll cfg;
     Some (setReliable cfg (\<not> unreliable))
   }"

definition cleanup :: "('s, 'c, 'b) service \<Rightarrow> ('s, 'r, 'b, 'z) config_scheme \<Rightarrow> bool \<Rightarrow> nat \<Rightarrow> ('s, 'r, 'b, 'z) config_scheme option" where
  "cleanup svc cfg tFailed seconds =
     (let cfg = cfg\<lparr>kvservers := map (map_option (svcKill svc)) (kvservers cfg)\<rparr> in
      case Cleanup (cfgNet cfg) of
        Ret rn \<Rightarrow> do { checkTimeout tFailed seconds; Some (cfg\<lparr>cfgNet := rn\<rparr>) }
      | _ \<Rightarrow> None)"

end
