(* ===== verification/HarnessNet.thy ===== *)
theory HarnessNet
  imports Harness
begin

text \<open>
  The connections that the harness of \<^verbatim>\<open>src/kvraft/config.go\<close> keeps.  An end belongs to a server or to a
  clerk and leads to a server; which ends are on is followed through every operation, and the two sides of
  a partition are described.
\<close>

section \<open>Ends and who holds them\<close>

datatype holder = ServerEnd int | ClerkEnd nat

fun nameFrom :: "('s, 'r, 'b, 'z) config_scheme \<Rightarrow> holder \<Rightarrow> int \<Rightarrow> string option" where
  "nameFrom cfg (ServerEnd i) j = endAt cfg i j"
| "nameFrom cfg (ClerkEnd ck) j = clerkEnd cfg ck j"

definition isOn :: "('s, 'r, 'b, 'z) config_scheme \<Rightarrow> holder \<Rightarrow> int \<Rightarrow> bool" where
  "isOn cfg h j = (case nameFrom cfg h j of None \<Rightarrow> False | Some e \<Rightarrow> enabled (cfgNet cfg) e)"

text \<open>Ends that have names are made, have different names and lead to the server of their column.\<close>

definition namesOk :: "('s, 'r, 'b, 'z) config_scheme \<Rightarrow> bool" where
  "namesOk cfg \<longleftrightarrow>
     (\<forall>h j e. nameFrom cfg h j = Some e \<longrightarrow> ends (cfgNet cfg) e \<noteq> None \<and> connections (cfgNet cfg) e = Some j) \<and>
     (\<forall>h j h' j' e. nameFrom cfg h j = Some e \<and> nameFrom cfg h' j' = Some e \<longrightarrow> h' = h \<and> j' = j)"

text \<open>The slices have their lengths, and rows that are allocated have theirs.\<close>

definition shapeOk :: "('s, 'r, 'b, 'z) config_scheme \<Rightarrow> bool" where
  "shapeOk cfg \<longleftrightarrow>
     length (kvservers cfg) = cfgN cfg \<and> length (saved cfg) = cfgN cfg \<and> length (endnames cfg) = cfgN cfg \<and>
     (\<forall>i row. i < cfgN cfg \<and> endnames cfg ! i = Some row \<longrightarrow> length row = cfgN cfg) \<and>
     (\<forall>ck row. clerks cfg ck = Some row \<longrightarrow> length row = cfgN cfg)"

text \<open>After \<^verbatim>\<open>make_config\<close> every row is allocated.\<close>

definition allNamed :: "('s, 'r, 'b, 'z) config_scheme \<Rightarrow> bool" where
  "allNamed cfg \<longleftrightarrow> (\<forall>i < cfgN cfg. endnames cfg ! i \<noteq> None)"

definition inRange :: "('s, 'r, 'b, 'z) config_scheme \<Rightarrow> int \<Rightarrow> bool" where
  "inRange cfg i \<longleftrightarrow> 0 \<le> i \<and> i < int (cfgN cfg)"

lemma endAt_named:
  assumes "shapeOk cfg" "allNamed cfg" "inRange cfg i" "inRange cfg j"
  shows "\<exists>e. endAt cfg i j = Some e"
proof -
  have i: "nat i < cfgN cfg" using assms(3) by (auto simp: inRange_def)
  then obtain row where "endnames cfg ! nat i = Some row" using assms(2) by (auto simp: allNamed_def)
  moreover from this i have "length row = cfgN cfg" using assms(1) by (auto simp: shapeOk_def)
  ultimately show ?thesis using assms by (auto simp: endAt_def go_index_def shapeOk_def inRange_def)
qed

lemma clerkEnd_named:
  "shapeOk cfg \<Longrightarrow> clerks cfg ck \<noteq> None \<Longrightarrow> inRange cfg j \<Longrightarrow> \<exists>e. clerkEnd cfg ck j = Some e"
  by (auto simp: clerkEnd_def go_index_def shapeOk_def inRange_def)

section \<open>Switching ends on and off\<close>

definition switch :: "('s, 'r, 'b, 'z) config_scheme \<Rightarrow> (string \<Rightarrow> bool) \<Rightarrow> ('s, 'r, 'b, 'z) config_scheme" where
  "switch cfg f = cfg\<lparr>cfgNet := (cfgNet cfg)\<lparr>enabled := f\<rparr>\<rparr>"

lemma switch_fields [simp]:
  "cfgN (switch cfg f) = cfgN cfg" "kvservers (switch cfg f) = kvservers cfg" "saved (switch cfg f) = saved cfg"
  "endnames (switch cfg f) = endnames cfg" "clerks (switch cfg f) = clerks cfg"
  "nextClientId (switch cfg f) = nextClientId cfg"
  "enabled (cfgNet (switch cfg f)) = f" "ends (cfgNet (switch cfg f)) = ends (cfgNet cfg)"
  "connections (cfgNet (switch cfg f)) = connections (cfgNet cfg)" "servers (cfgNet (switch cfg f)) = servers (cfgNet cfg)"
  "switch (switch cfg f) g = switch cfg g"
  by (simp_all add: switch_def)

lemma switch_names [simp]:
  "endAt (switch cfg f) i j = endAt cfg i j" "clerkEnd (switch cfg f) ck j = clerkEnd cfg ck j"
  "All (switch cfg f) = All cfg"
  by (simp_all add: endAt_def clerkEnd_def All_def)

lemma switch_nameFrom [simp]: "nameFrom (switch cfg f) h j = nameFrom cfg h j"
  by (cases h) simp_all

lemma switch_ok [simp]:
  "namesOk (switch cfg f) = namesOk cfg" "shapeOk (switch cfg f) = shapeOk cfg" "allNamed (switch cfg f) = allNamed cfg"
  "inRange (switch cfg f) i = inRange cfg i"
  by (simp_all add: namesOk_def shapeOk_def allNamed_def inRange_def)

lemma switch_savedAt [simp]: "savedAt svc (switch cfg f) i = savedAt svc cfg i"
  by (simp add: savedAt_def)

lemma isOn_switch: "isOn (switch cfg f) h j = (case nameFrom cfg h j of None \<Rightarrow> False | Some e \<Rightarrow> f e)"
  by (simp add: isOn_def split: option.splits)

lemma enable_switch: "enableEnd cfg e b = switch cfg ((enabled (cfgNet cfg))(e := b))"
  by (simp add: enableEnd_def switch_def Enable_def)

text \<open>\<open>switched cfg T b cfg'\<close>: the ends in \<open>T\<close> are switched to \<open>b\<close>, and nothing else is changed.\<close>

definition switched :: "('s, 'r, 'b, 'z) config_scheme \<Rightarrow> (holder \<times> int) set \<Rightarrow> bool \<Rightarrow> ('s, 'r, 'b, 'z) config_scheme \<Rightarrow> bool" where
  "switched cfg T b cfg' \<longleftrightarrow>
     (\<exists>f. cfg' = switch cfg f) \<and> (\<forall>h j. nameFrom cfg h j \<noteq> None \<longrightarrow> isOn cfg' h j = (if (h, j) \<in> T then b else isOn cfg h j))"

lemma switched_isOn: "switched cfg T b cfg' \<Longrightarrow> nameFrom cfg h j \<noteq> None \<Longrightarrow> isOn cfg' h j = (if (h, j) \<in> T then b else isOn cfg h j)"
  unfolding switched_def by blast

lemma switched_trans:
  assumes "switched cfg S b cfg1" "switched cfg1 T b cfg2"
  shows "switched cfg (S \<union> T) b cfg2"
proof -
  obtain f g where c: "cfg1 = switch cfg f" "cfg2 = switch cfg g" using assms by (auto simp: switched_def)
  have "isOn cfg2 h j = (if (h, j) \<in> S \<union> T then b else isOn cfg h j)" if "nameFrom cfg h j \<noteq> None" for h j
    using switched_isOn[OF assms(1) that] switched_isOn[OF assms(2)] that by (simp add: c)
  then show ?thesis using c(2) by (auto simp: switched_def)
qed

lemma switched_enable:
  assumes "namesOk cfg" "nameFrom cfg h j = Some e"
  shows "switched cfg {(h, j)} b (enableEnd cfg e b)"
proof -
  have "e' = e \<longleftrightarrow> h' = h \<and> j' = j" if "nameFrom cfg h' j' = Some e'" for h' j' e'
    using assms that unfolding namesOk_def by (metis option.inject)
  then show ?thesis by (auto simp: switched_def enable_switch isOn_switch isOn_def split: option.splits)
qed

lemma eachEnd_switched:
  assumes "namesOk cfg" "\<And>f x. x \<in> set xs \<Longrightarrow> \<exists>e. pick (switch cfg f) x = Some (Some e) \<and> nameFrom cfg (to x) (col x) = Some e"
  shows "\<exists>cfg'. eachEnd pick b cfg xs = Some cfg' \<and> switched cfg ((\<lambda>x. (to x, col x)) ` set xs) b cfg'"
  using assms
proof (induction xs arbitrary: cfg)
  case Nil
  have "switch cfg (enabled (cfgNet cfg)) = cfg" by (simp add: switch_def)
  then show ?case by (auto simp: switched_def intro: exI[of _ "enabled (cfgNet cfg)"])
next
  case (Cons x xs)
  have self: "switch cfg (enabled (cfgNet cfg)) = cfg" by (simp add: switch_def)
  obtain e where e: "pick cfg x = Some (Some e)" "nameFrom cfg (to x) (col x) = Some e"
    using Cons.prems(2)[of x "enabled (cfgNet cfg)"] by (auto simp: self)
  define c1 where "c1 = enableEnd cfg e b"
  have s: "switched cfg {(to x, col x)} b c1" unfolding c1_def by (rule switched_enable[OF Cons.prems(1) e(2)])
  obtain f where f: "c1 = switch cfg f" using s by (auto simp: switched_def)
  have "\<exists>cfg'. eachEnd pick b c1 xs = Some cfg' \<and> switched c1 ((\<lambda>x. (to x, col x)) ` set xs) b cfg'"
    by (rule Cons.IH) (use Cons.prems in \<open>auto simp: f\<close>)
  then show ?case using switched_trans[OF s] e(1) by (auto simp: c1_def)
qed

section \<open>Connecting and disconnecting\<close>

definition ready :: "('s, 'r, 'b, 'z) config_scheme \<Rightarrow> bool" where
  "ready cfg \<longleftrightarrow> namesOk cfg \<and> shapeOk cfg \<and> allNamed cfg"

lemma ready_switch [simp]: "ready (switch cfg f) = ready cfg"
  by (simp add: ready_def)

lemma ready_endAt: "ready cfg \<Longrightarrow> inRange cfg i \<Longrightarrow> inRange cfg j \<Longrightarrow> \<exists>e. endAt cfg i j = Some e"
  by (auto simp: ready_def endAt_named)

text \<open>The ends between server \<open>i\<close> and those of \<open>T\<close>, both ways.\<close>

definition links :: "int \<Rightarrow> int set \<Rightarrow> (holder \<times> int) set" where
  "links i T = {(h, j). h = ServerEnd i \<and> j \<in> T \<or> j = i \<and> (\<exists>t \<in> T. h = ServerEnd t)}"

lemma links_images: "(\<lambda>t. (ServerEnd i, t)) ` T \<union> (\<lambda>t. (ServerEnd t, i)) ` T = links i T"
  by (auto simp: links_def)

lemma connectUnlocked_links:
  assumes r: "ready cfg" and i: "inRange cfg i" and to: "\<forall>t \<in> set to. inRange cfg t"
  shows "\<exists>cfg'. connectUnlocked cfg i to = Some cfg' \<and> switched cfg (links i (set to)) True cfg'"
proof -
  have n: "namesOk cfg" using r by (simp add: ready_def)
  obtain c1 where c1: "eachEnd (\<lambda>cfg t. map_option Some (endAt cfg i t)) True cfg to = Some c1"
    "switched cfg ((\<lambda>t. (ServerEnd i, t)) ` set to) True c1"
    using eachEnd_switched[OF n, of to "\<lambda>cfg t. map_option Some (endAt cfg i t)" "\<lambda>_. ServerEnd i" "\<lambda>t. t" True]
      ready_endAt[OF r i] to by auto
  obtain f where f: "c1 = switch cfg f" using c1(2) by (auto simp: switched_def)
  obtain c2 where c2: "eachEnd (\<lambda>cfg t. map_option Some (endAt cfg t i)) True c1 to = Some c2"
    "switched c1 ((\<lambda>t. (ServerEnd t, i)) ` set to) True c2"
    using eachEnd_switched[of c1 to "\<lambda>cfg t. map_option Some (endAt cfg t i)" "\<lambda>t. ServerEnd t" "\<lambda>_. i" True]
      ready_endAt[OF r _ i] to n f by auto
  show ?thesis using switched_trans[OF c1(2) c2(2)] c1(1) c2(1) by (simp add: links_images connectUnlocked_def)
qed

lemma disconnectUnlocked_links:
  assumes r: "ready cfg" and i: "inRange cfg i" and fr: "\<forall>t \<in> set from. inRange cfg t" "length from \<le> cfgN cfg"
  shows "\<exists>cfg'. disconnectUnlocked cfg i from = Some cfg' \<and> switched cfg (links i (set from)) False cfg'"
proof -
  have n: "namesOk cfg" using r by (simp add: ready_def)
  have row: "\<exists>row. go_index (endnames cfg) j = Some (Some row)" if "inRange cfg j" for j
    using r that by (auto simp: ready_def shapeOk_def allNamed_def inRange_def go_index_def)
  let ?out = "\<lambda>cfg :: ('a, 'b, 'c, 'd) config_scheme. \<lambda>t. do {
      row \<leftarrow> go_index (endnames cfg) i; if row \<noteq> None then map_option Some (endAt cfg i t) else Some None }"
  let ?in = "\<lambda>cfg :: ('a, 'b, 'c, 'd) config_scheme. \<lambda>(j, t). do {
      row \<leftarrow> go_index (endnames cfg) (int j); if row \<noteq> None then map_option Some (endAt cfg t i) else Some None }"
  obtain c1 where c1: "eachEnd ?out False cfg from = Some c1" "switched cfg ((\<lambda>t. (ServerEnd i, t)) ` set from) False c1"
    using eachEnd_switched[OF n, of "from" ?out "\<lambda>_. ServerEnd i" "\<lambda>t. t" False] ready_endAt[OF r i] fr(1) row[OF i] by auto
  obtain f where f: "c1 = switch cfg f" using c1(2) by (auto simp: switched_def)
  have zip: "inRange cfg (int j) \<and> t \<in> set from" if "(j, t) \<in> set (zip [0..<length from] from)" for j t
    using that fr(2) by (auto simp: set_zip inRange_def)
  have img: "(\<lambda>x. (ServerEnd (snd x), i)) ` set (zip [0..<length from] from) = (\<lambda>t. (ServerEnd t, i)) ` set from"
  proof -
    have "set (map snd (zip [0..<length from] from)) = set from" by simp
    then have "set from = snd ` set (zip [0..<length from] from)" by (simp only: set_map)
    then show ?thesis by (simp only: image_image)
  qed
  have "\<exists>cfg'. eachEnd ?in False c1 (zip [0..<length from] from) = Some cfg' \<and>
      switched c1 ((\<lambda>x. (ServerEnd (snd x), i)) ` set (zip [0..<length from] from)) False cfg'"
  proof (rule eachEnd_switched)
    show "namesOk c1" using n f by simp
  next
    fix g x assume x: "x \<in> set (zip [0..<length from] from)"
    obtain j t where "x = (j, t)" by (rule prod.exhaust)
    with zip x fr(1) have jt: "x = (j, t)" "inRange cfg (int j)" "inRange cfg t" by blast+
    then show "\<exists>e. ?in (switch c1 g) x = Some (Some e) \<and> nameFrom c1 (ServerEnd (snd x)) i = Some e"
      using row[OF jt(2)] ready_endAt[OF r jt(3) i] by (auto simp: f)
  qed
  then obtain c2 where c2: "eachEnd ?in False c1 (zip [0..<length from] from) = Some c2"
    "switched c1 ((\<lambda>t. (ServerEnd t, i)) ` set from) False c2" by (auto simp: img)
  show ?thesis using switched_trans[OF c1(2) c2(2)] c1(1) c2(1) by (simp add: links_images disconnectUnlocked_def)
qed

section \<open>Partitions\<close>

text \<open>\<open>rewired cfg On Off cfg'\<close>: of the ends those in \<open>On\<close> are on, the others in \<open>Off\<close> are off, the rest is as before.\<close>

definition rewired :: "('s, 'r, 'b, 'z) config_scheme \<Rightarrow> (holder \<times> int) set \<Rightarrow> (holder \<times> int) set \<Rightarrow> ('s, 'r, 'b, 'z) config_scheme \<Rightarrow> bool" where
  "rewired cfg On Off cfg' \<longleftrightarrow> (\<exists>f. cfg' = switch cfg f) \<and>
     (\<forall>h j. nameFrom cfg h j \<noteq> None \<longrightarrow>
        isOn cfg' h j = (if (h, j) \<in> On then True else if (h, j) \<in> Off then False else isOn cfg h j))"

lemma rewired_isOn:
  "rewired cfg On Off cfg' \<Longrightarrow> nameFrom cfg h j \<noteq> None \<Longrightarrow>
   isOn cfg' h j = (if (h, j) \<in> On then True else if (h, j) \<in> Off then False else isOn cfg h j)"
  unfolding rewired_def by blast

lemma rewired_trans:
  assumes "rewired cfg A B cfg1" "rewired cfg1 A' B' cfg2" "A \<inter> B' = {}"
  shows "rewired cfg (A \<union> A') (B \<union> B') cfg2"
proof -
  obtain f g where c: "cfg1 = switch cfg f" "cfg2 = switch cfg g" using assms by (auto simp: rewired_def)
  have "isOn cfg2 h j = (if (h, j) \<in> A \<union> A' then True else if (h, j) \<in> B \<union> B' then False else isOn cfg h j)"
    if "nameFrom cfg h j \<noteq> None" for h j
  proof -
    have "(h, j) \<in> A \<Longrightarrow> (h, j) \<notin> B'" using assms(3) by blast
    then show ?thesis using rewired_isOn[OF assms(1) that] rewired_isOn[OF assms(2), of h j] that by (simp add: c)
  qed
  then show ?thesis using c(2) by (auto simp: rewired_def)
qed

lemma switched_rewired:
  assumes "switched cfg B False cfg1" "switched cfg1 A True cfg2"
  shows "rewired cfg A B cfg2"
proof -
  obtain f g where c: "cfg1 = switch cfg f" "cfg2 = switch cfg g" using assms by (auto simp: switched_def)
  have "isOn cfg2 h j = (if (h, j) \<in> A then True else if (h, j) \<in> B then False else isOn cfg h j)"
    if "nameFrom cfg h j \<noteq> None" for h j
    using switched_isOn[OF assms(1) that] switched_isOn[OF assms(2), of h j] that by (simp add: c)
  then show ?thesis using c(2) by (auto simp: rewired_def)
qed

lemma takeSide_links:
  assumes "ready cfg" "inRange cfg i" "\<forall>t \<in> set here \<union> set there. inRange cfg t" "length there \<le> cfgN cfg"
  shows "\<exists>cfg'. takeSide here there cfg i = Some cfg' \<and> rewired cfg (links i (set here)) (links i (set there)) cfg'"
proof -
  obtain c1 where c1: "disconnectUnlocked cfg i there = Some c1" "switched cfg (links i (set there)) False c1"
    using disconnectUnlocked_links[OF assms(1,2)] assms(3,4) by blast
  obtain f where f: "c1 = switch cfg f" using c1(2) by (auto simp: switched_def)
  obtain c2 where "connectUnlocked c1 i here = Some c2" "switched c1 (links i (set here)) True c2"
    using connectUnlocked_links[of c1 i here] assms f by auto
  then show ?thesis using c1 switched_rewired[OF c1(2)] by (auto simp: takeSide_def)
qed

lemma eachServer_links:
  assumes "ready cfg" "set is \<subseteq> set here" "\<forall>t \<in> set here \<union> set there. inRange cfg t" "length there \<le> cfgN cfg"
    "set here \<inter> set there = {}"
  shows "\<exists>cfg'. eachServer (takeSide here there) cfg is = Some cfg' \<and>
    rewired cfg (\<Union>i \<in> set is. links i (set here)) (\<Union>i \<in> set is. links i (set there)) cfg'"
  using assms(1-4)
proof (induction "is" arbitrary: cfg)
  case Nil
  have "switch cfg (enabled (cfgNet cfg)) = cfg" by (simp add: switch_def)
  then show ?case by (auto simp: rewired_def intro: exI[of _ "enabled (cfgNet cfg)"])
next
  case (Cons i "is")
  obtain c1 where c1: "takeSide here there cfg i = Some c1" "rewired cfg (links i (set here)) (links i (set there)) c1"
    using takeSide_links[of cfg i here there] Cons.prems by auto
  obtain f where f: "c1 = switch cfg f" using c1(2) by (auto simp: rewired_def)
  obtain c2 where c2: "eachServer (takeSide here there) c1 is = Some c2"
    "rewired c1 (\<Union>i \<in> set is. links i (set here)) (\<Union>i \<in> set is. links i (set there)) c2"
    using Cons.IH[of c1] Cons.prems f by auto
  have "links i (set here) \<inter> (\<Union>i \<in> set is. links i (set there)) = {}"
    using assms(5) Cons.prems(2) by (auto simp: links_def)
  then show ?case using rewired_trans[OF c1(2) c2(2)] c1(1) c2(1) by auto
qed

theorem partition_links:
  assumes r: "ready cfg" and rng: "\<forall>t \<in> set p1 \<union> set p2. inRange cfg t" and dis: "set p1 \<inter> set p2 = {}"
    and len: "length p1 \<le> cfgN cfg" "length p2 \<le> cfgN cfg"
  shows "\<exists>cfg'. partition cfg p1 p2 = Some cfg' \<and> (\<exists>f. cfg' = switch cfg f) \<and>
    (\<forall>i \<in> set p1 \<union> set p2. \<forall>j \<in> set p1 \<union> set p2. isOn cfg' (ServerEnd i) j \<longleftrightarrow> (i \<in> set p1 \<longleftrightarrow> j \<in> set p1)) \<and>
    (\<forall>ck j. isOn cfg' (ClerkEnd ck) j = isOn cfg (ClerkEnd ck) j)"
proof -
  let ?L = "\<lambda>here there. \<Union>i \<in> set here. links i (set there)"
  obtain c1 where c1: "eachServer (takeSide p1 p2) cfg p1 = Some c1" "rewired cfg (?L p1 p1) (?L p1 p2) c1"
    using eachServer_links[OF r _ rng len(2) dis, of p1] by auto
  obtain f where f: "c1 = switch cfg f" using c1(2) by (auto simp: rewired_def)
  obtain c2 where c2: "eachServer (takeSide p2 p1) c1 p2 = Some c2" "rewired c1 (?L p2 p2) (?L p2 p1) c2"
    using eachServer_links[of c1 p2 p2 p1] r rng dis len by (auto simp: f Int_commute)
  have "?L p1 p1 \<inter> ?L p2 p1 = {}" using dis by (auto simp: links_def)
  note w = rewired_trans[OF c1(2) c2(2) this]
  have srv: "isOn c2 (ServerEnd i) j \<longleftrightarrow> (i \<in> set p1 \<longleftrightarrow> j \<in> set p1)" if ij: "i \<in> set p1 \<union> set p2" "j \<in> set p1 \<union> set p2" for i j
  proof -
    have "nameFrom cfg (ServerEnd i) j \<noteq> None" using ready_endAt[OF r, of i j] rng ij by auto
    from rewired_isOn[OF w this] show ?thesis using ij dis by (auto simp: links_def)
  qed
  have clk: "isOn c2 (ClerkEnd ck) j = isOn cfg (ClerkEnd ck) j" for ck j
  proof (cases "nameFrom cfg (ClerkEnd ck) j")
    case None
    obtain g where "c2 = switch cfg g" using w by (auto simp: rewired_def)
    then show ?thesis using None by (simp add: isOn_def)
  next
    case (Some e)
    then show ?thesis using rewired_isOn[OF w, of "ClerkEnd ck" j] by (simp add: links_def)
  qed
  show ?thesis using c1(1) c2(1) w srv clk unfolding partition_def rewired_def by auto
qed

section \<open>Choosing the sides\<close>

lemma fillSides_fills:
  assumes "k + length (filter (\<lambda>i. i \<noteq> l) is) \<le> length p1 + length p2"
  shows "\<exists>q1 q2. fillSides l is (int k) p1 p2 = Some (q1, q2) \<and> length q1 = length p1 \<and> length q2 = length p2 \<and>
    q1 @ q2 = take k (p1 @ p2) @ filter (\<lambda>i. i \<noteq> l) is @ drop (k + length (filter (\<lambda>i. i \<noteq> l) is)) (p1 @ p2)"
  using assms
proof (induction "is" arbitrary: k p1 p2)
  case (Cons i "is")
  show ?case
  proof (cases "i = l")
    case False
    obtain r1 r2 where r: "length r1 = length p1" "length r2 = length p2" "r1 @ r2 = (p1 @ p2)[k := i]"
      "fillSides l (i # is) (int k) p1 p2 = fillSides l is (int (Suc k)) r1 r2"
    proof (cases "k < length p1")
      case True
      then show thesis using False that[of "p1[k := i]" p2] by (simp add: go_set_def list_update_append add.commute)
    next
      case f: False
      have "k - length p1 < length p2" using Cons.prems False f by simp
      then have "go_set p2 (int k - int (length p1)) i = Some (p2[k - length p1 := i])"
        using f by (simp add: go_set_def nat_diff_distrib)
      then show thesis using False f that[of p1 "p2[k - length p1 := i]"]
        by (simp add: list_update_append add.commute)
    qed
    have k: "k < length (p1 @ p2)" using Cons.prems False by simp
    have "take (Suc k) ((p1 @ p2)[k := i]) = take k (p1 @ p2) @ [i]" using k by (simp add: take_Suc_conv_app_nth)
    moreover have "drop (Suc k + m) ((p1 @ p2)[k := i]) = drop (Suc k + m) (p1 @ p2)" for m by simp
    ultimately show ?thesis using Cons.IH[of "Suc k" r1 r2] Cons.prems False r by (simp del: append_assoc) (metis append.assoc append_Cons append_Nil)
  qed (use Cons in auto)
qed (auto simp del: take_append drop_append)

lemma others: "filter (\<lambda>i. i \<noteq> l) (map int [0..<n]) = remove1 l (map int [0..<n])"
  by (simp add: distinct_map distinct_remove1_removeAll removeAll_filter_not_eq) (metis (mono_tags, lifting) filter_cong)

lemma splitAround_odd:
  assumes "odd n" "3 \<le> n" "0 \<le> l" "l < int n"
  shows "\<exists>p1 p2. splitAround n l = Some (p1, p2) \<and> length p1 = n div 2 + 1 \<and> length p2 = n div 2 \<and>
    p1 @ p2 = remove1 l (map int [0..<n]) @ [l]"
proof -
  let ?o = "remove1 l (map int [0..<n])"
  have l: "l \<in> set (map int [0..<n])" using assms(3,4) by (auto simp: image_iff intro!: bexI[of _ "nat l"])
  have len: "length ?o = n - 1" using l by (simp add: length_remove1)
  have n: "n div 2 + 1 + n div 2 = n" using assms(1) by presburger
  obtain q1 q2 where q: "fillSides l (map int [0..<n]) 0 (replicate (n div 2 + 1) 0) (replicate (n div 2) 0) = Some (q1, q2)"
    "length q1 = n div 2 + 1" "length q2 = n div 2" "q1 @ q2 = ?o @ drop (n - 1) (replicate (n div 2 + 1) 0 @ replicate (n div 2) 0)"
    using fillSides_fills[of 0 l "map int [0..<n]" "replicate (n div 2 + 1) 0" "replicate (n div 2) 0"] len n
    by (auto simp: others)
  have "drop (n - 1) (replicate n (0 :: int)) = [0]" using assms(2) by (simp add: drop_replicate numeral_eq_Suc Suc_diff_le)
  moreover have "replicate (n div 2 + 1) (0 :: int) @ replicate (n div 2) 0 = replicate n 0"
    using n by (metis replicate_add)
  ultimately have e: "q1 @ q2 = ?o @ [0]" using q(4) by simp
  have q2: "q2 \<noteq> []" using q(3) assms(2) by auto
  then have "q2 = butlast q2 @ [0]" using e by (metis append_butlast_last_id last_appendR last_snoc)
  then have b: "q1 @ butlast q2 = ?o" using e by (metis append_assoc append_same_eq)
  have "go_set q2 (int (length q2) - 1) l = Some (butlast q2 @ [l])"
    using q2 by (cases q2 rule: rev_cases) (auto simp: go_set_def nat_diff_distrib)
  moreover have "length (butlast q2 @ [l]) = n div 2" using q(3) assms(2) by simp
  moreover have "q1 @ butlast q2 @ [l] = ?o @ [l]" using b by (metis append_assoc)
  ultimately show ?thesis using q(1,2) unfolding splitAround_def by (intro exI[of _ q1] exI[of _ "butlast q2 @ [l]"]) simp
qed

text \<open>For an even number the slices have a place too many, which stays zero.\<close>

lemma even_split_repeats: "splitAround 4 1 = Some ([0, 2, 3], [0, 1])"
  by code_simp

end
