(* ===== verification/HarnessInv.thy ===== *)
theory HarnessInv
  imports HarnessNet "HOL-Library.Multiset"
begin

text \<open>
  What every operation of the harness keeps: names are distinct and lead where they should, slices have
  their lengths, and the network has a server exactly where the harness has one running.  The contract of the
  server that the harness needs is a locale; restarting a server on its persister is proved from it.
\<close>

section \<open>The invariant\<close>

definition serversOk :: "('s, 'r, 'b, 'z) config_scheme \<Rightarrow> bool" where
  "serversOk cfg \<longleftrightarrow> (\<forall>i < cfgN cfg. servers (cfgNet cfg) (int i) \<noteq> None \<longleftrightarrow> kvservers cfg ! i \<noteq> None)"

text \<open>A server that runs has been given a persister.\<close>

definition savedOk :: "('s, 'r, 'b, 'z) config_scheme \<Rightarrow> bool" where
  "savedOk cfg \<longleftrightarrow> (\<forall>i < cfgN cfg. kvservers cfg ! i \<noteq> None \<longrightarrow> saved cfg ! i \<noteq> None)"

definition wellKept :: "('s, 'r, 'b, 'z) config_scheme \<Rightarrow> bool" where
  "wellKept cfg \<longleftrightarrow> namesOk cfg \<and> shapeOk cfg \<and> serversOk cfg \<and> savedOk cfg"

lemma wellKept_switch [simp]: "wellKept (switch cfg f) = wellKept cfg"
  by (simp add: wellKept_def serversOk_def savedOk_def)

lemma ready_iff: "wellKept cfg \<Longrightarrow> ready cfg \<longleftrightarrow> allNamed cfg"
  by (simp add: ready_def wellKept_def)

section \<open>Operations that only switch ends\<close>

lemma switch_same [simp]: "switch cfg (enabled (cfgNet cfg)) = cfg"
  by (simp add: switch_def)

lemma switch_refl: "\<exists>f. cfg = switch cfg f"
  by (rule exI[of _ "enabled (cfgNet cfg)"]) simp

lemma eachEnd_switch: "eachEnd pick b cfg xs = Some cfg' \<Longrightarrow> \<exists>f. cfg' = switch cfg f"
proof (induction xs arbitrary: cfg)
  case Nil
  then show ?case using switch_refl[of cfg] by simp
next
  case (Cons x xs)
  then obtain e where "eachEnd pick b (case e of None \<Rightarrow> cfg | Some e \<Rightarrow> enableEnd cfg e b) xs = Some cfg'"
    by (auto simp: bind_eq_Some_conv)
  from Cons.IH[OF this] show ?case by (cases e) (auto simp: enable_switch)
qed

lemma connectUnlocked_switch: "connectUnlocked cfg i to = Some cfg' \<Longrightarrow> \<exists>f. cfg' = switch cfg f"
  by (auto simp: connectUnlocked_def bind_eq_Some_conv dest!: eachEnd_switch)

lemma disconnectUnlocked_switch: "disconnectUnlocked cfg i from = Some cfg' \<Longrightarrow> \<exists>f. cfg' = switch cfg f"
  by (auto simp: disconnectUnlocked_def bind_eq_Some_conv dest!: eachEnd_switch)

lemma takeSide_switch: "takeSide here there cfg i = Some cfg' \<Longrightarrow> \<exists>f. cfg' = switch cfg f"
  by (auto simp: takeSide_def bind_eq_Some_conv dest!: disconnectUnlocked_switch connectUnlocked_switch)

lemma eachServer_switch:
  assumes "eachServer act cfg is = Some cfg'" "\<And>cfg i cfg'. act cfg i = Some cfg' \<Longrightarrow> \<exists>f. cfg' = switch cfg f"
  shows "\<exists>f. cfg' = switch cfg f"
  using assms(1)
proof (induction "is" arbitrary: cfg)
  case Nil
  then show ?case using switch_refl[of cfg] by simp
next
  case (Cons i "is")
  then obtain c1 where c1: "act cfg i = Some c1" "eachServer act c1 is = Some cfg'" by (auto simp: bind_eq_Some_conv)
  then show ?case using assms(2)[OF c1(1)] Cons.IH[OF c1(2)] by auto
qed

lemma ConnectAll_switch: "ConnectAll cfg = Some cfg' \<Longrightarrow> \<exists>f. cfg' = switch cfg f"
  unfolding ConnectAll_def by (erule eachServer_switch) (rule connectUnlocked_switch)

lemma partition_switch: "partition cfg p1 p2 = Some cfg' \<Longrightarrow> \<exists>f. cfg' = switch cfg f"
  by (auto simp: partition_def bind_eq_Some_conv dest!: eachServer_switch[OF _ takeSide_switch])

lemma clients_switch:
  "ConnectClientUnlocked cfg ck to = Some cfg' \<Longrightarrow> \<exists>f. cfg' = switch cfg f"
  "DisconnectClientUnlocked cfg ck to = Some cfg' \<Longrightarrow> \<exists>f. cfg' = switch cfg f"
  by (auto simp: ConnectClientUnlocked_def DisconnectClientUnlocked_def dest!: eachEnd_switch)

lemmas only_switch = connectUnlocked_switch disconnectUnlocked_switch ConnectAll_switch partition_switch clients_switch

text \<open>Connecting everyone switches every end between servers on, and no other.\<close>

lemma connectEach_links:
  assumes "ready cfg" "\<forall>i \<in> set is. inRange cfg i"
  shows "\<exists>cfg'. eachServer (\<lambda>cfg i. connectUnlocked cfg i (All cfg)) cfg is = Some cfg' \<and>
    switched cfg (\<Union>i \<in> set is. links i (set (All cfg))) True cfg'"
  using assms
proof (induction "is" arbitrary: cfg)
  case Nil
  then show ?case using switch_refl[of cfg] by (simp add: switched_def)
next
  case (Cons i "is")
  have "\<forall>t \<in> set (All cfg). inRange cfg t" by (auto simp: All_def inRange_def)
  then obtain c1 where c1: "connectUnlocked cfg i (All cfg) = Some c1" "switched cfg (links i (set (All cfg))) True c1"
    using connectUnlocked_links[of cfg i "All cfg"] Cons.prems by auto
  obtain f where f: "c1 = switch cfg f" using c1(2) by (auto simp: switched_def)
  obtain c2 where "eachServer (\<lambda>cfg i. connectUnlocked cfg i (All cfg)) c1 is = Some c2"
    "switched c1 (\<Union>i \<in> set is. links i (set (All cfg))) True c2" using Cons.IH[of c1] Cons.prems f by auto
  then show ?case using switched_trans[OF c1(2)] c1(1) by auto
qed

lemma ConnectAll_links:
  assumes "ready cfg"
  shows "\<exists>cfg'. ConnectAll cfg = Some cfg' \<and> (\<exists>f. cfg' = switch cfg f) \<and>
    (\<forall>i j. inRange cfg i \<longrightarrow> inRange cfg j \<longrightarrow> isOn cfg' (ServerEnd i) j) \<and>
    (\<forall>ck j. isOn cfg' (ClerkEnd ck) j = isOn cfg (ClerkEnd ck) j)"
proof -
  have all: "set (All cfg) = {i. inRange cfg i}"
    by (auto simp: All_def inRange_def image_iff intro!: bexI[of _ "nat _"])
  obtain c where c: "ConnectAll cfg = Some c" "switched cfg (\<Union>i \<in> set (All cfg). links i (set (All cfg))) True c"
    using connectEach_links[OF assms, of "All cfg"] all by (auto simp: ConnectAll_def)
  obtain f where f: "c = switch cfg f" using c(2) by (auto simp: switched_def)
  have "isOn c (ServerEnd i) j" if "inRange cfg i" "inRange cfg j" for i j
    using switched_isOn[OF c(2), of "ServerEnd i" j] ready_endAt[OF assms that] that by (auto simp: all links_def)
  moreover have "isOn c (ClerkEnd ck) j = isOn cfg (ClerkEnd ck) j" for ck j
    using switched_isOn[OF c(2), of "ClerkEnd ck" j] by (cases "nameFrom cfg (ClerkEnd ck) j") (auto simp: links_def isOn_def f)
  ultimately show ?thesis using c(1) f by blast
qed

section \<open>New ends\<close>

lemma newEnds_effect:
  assumes "makeEnds cfg j es = Some (cfg', ces)"
  shows "ces = map (\<lambda>e. \<lparr>ceName = e\<rparr>) es \<and> (\<exists>rn. cfg' = cfg\<lparr>cfgNet := rn\<rparr> \<and> servers rn = servers (cfgNet cfg) \<and> distinct es \<and>
    (\<forall>e \<in> set es. ends (cfgNet cfg) e = None) \<and>
    (\<forall>e. e \<notin> set es \<longrightarrow> ends rn e = ends (cfgNet cfg) e \<and> enabled rn e = enabled (cfgNet cfg) e \<and>
       connections rn e = connections (cfgNet cfg) e) \<and>
    (\<forall>k < length es. ends rn (es ! k) \<noteq> None \<and> \<not> enabled rn (es ! k) \<and> connections rn (es ! k) = Some (j + int k)))"
  using assms
proof (induction es arbitrary: cfg j ces)
  case Nil
  then show ?case by (auto intro!: exI[of _ "cfgNet cfg"])
next
  case (Cons e es)
  have new: "ends (cfgNet cfg) e = None" using Cons.prems by (auto simp: MakeEnd_def split: if_splits)
  define c1 where "c1 = cfg\<lparr>cfgNet := Connect ((cfgNet cfg)\<lparr>ends := (ends (cfgNet cfg))(e \<mapsto> \<lparr>ceName = e\<rparr>),
    enabled := (enabled (cfgNet cfg))(e := False), connections := (connections (cfgNet cfg))(e := None)\<rparr>) e j\<rparr>"
  obtain ces1 where m: "makeEnds c1 (j + 1) es = Some (cfg', ces1)" "ces = \<lparr>ceName = e\<rparr> # ces1"
    using Cons.prems new by (auto simp: MakeEnd_def c1_def bind_eq_Some_conv)
  then obtain rn where rn: "cfg' = c1\<lparr>cfgNet := rn\<rparr>" "servers rn = servers (cfgNet c1)" "distinct es"
    "\<forall>e \<in> set es. ends (cfgNet c1) e = None"
    "\<forall>e. e \<notin> set es \<longrightarrow> ends rn e = ends (cfgNet c1) e \<and> enabled rn e = enabled (cfgNet c1) e \<and>
       connections rn e = connections (cfgNet c1) e"
    "\<forall>k < length es. ends rn (es ! k) \<noteq> None \<and> \<not> enabled rn (es ! k) \<and> connections rn (es ! k) = Some (j + 1 + int k)"
    "ces1 = map (\<lambda>e. \<lparr>ceName = e\<rparr>) es"
    using Cons.IH[OF m(1)] by blast
  have fresh: "e \<notin> set es" "\<And>x. x \<in> set es \<Longrightarrow> ends (cfgNet cfg) x = None"
    using rn(4) by (auto simp: c1_def Connect_def split: if_splits)
  have "ends rn ((e # es) ! k) \<noteq> None \<and> \<not> enabled rn ((e # es) ! k) \<and> connections rn ((e # es) ! k) = Some (j + int k)"
    if "k < length (e # es)" for k
    using that rn(5,6) fresh(1) by (cases k) (simp_all add: c1_def Connect_def)
  moreover have "ends rn x = ends (cfgNet cfg) x \<and> enabled rn x = enabled (cfgNet cfg) x \<and> connections rn x = connections (cfgNet cfg) x"
    if "x \<notin> set (e # es)" for x using that rn(5) by (simp add: c1_def Connect_def)
  ultimately show ?case using rn(1-3,7) fresh new m(2) by (auto simp: c1_def Connect_def intro!: exI[of _ rn])
qed

lemma makeEnds_returns:
  assumes "distinct es" "\<forall>e \<in> set es. ends (cfgNet cfg) e = None"
  shows "\<exists>r. makeEnds cfg j es = Some r"
  using assms
proof (induction es arbitrary: cfg j)
  case (Cons e es)
  let ?c = "cfg\<lparr>cfgNet := Connect ((cfgNet cfg)\<lparr>ends := (ends (cfgNet cfg))(e \<mapsto> \<lparr>ceName = e\<rparr>),
    enabled := (enabled (cfgNet cfg))(e := False), connections := (connections (cfgNet cfg))(e := None)\<rparr>) e j\<rparr>"
  have "\<forall>x \<in> set es. ends (cfgNet ?c) x = None" using Cons.prems by (auto simp: Connect_def)
  then obtain c ces where "makeEnds ?c (j + 1) es = Some (c, ces)" using Cons.IH[of ?c "j + 1"] Cons.prems(1) by auto
  then show ?case using Cons.prems by (simp add: MakeEnd_def)
qed simp

text \<open>Names stay in order when a holder gets a row of new ones.\<close>

lemma new_row_namesOk:
  assumes ok: "namesOk cfg" and m: "makeEnds cfg0 0 row = Some (cfg', ces)" "cfgNet cfg0 = cfgNet cfg"
    and new: "\<And>h j. nameFrom cfg2 h j = (if h = own then go_index row j else nameFrom cfg h j)"
    and net: "ends (cfgNet cfg2) = ends (cfgNet cfg')" "connections (cfgNet cfg2) = connections (cfgNet cfg')"
      "enabled (cfgNet cfg2) = enabled (cfgNet cfg')"
  shows "namesOk cfg2" "\<And>j. \<not> isOn cfg2 own j" "\<And>h j. h \<noteq> own \<Longrightarrow> isOn cfg2 h j = isOn cfg h j"
proof -
  obtain rn where rn: "cfg' = cfg0\<lparr>cfgNet := rn\<rparr>" "distinct row" "\<forall>e \<in> set row. ends (cfgNet cfg) e = None"
    "\<forall>e. e \<notin> set row \<longrightarrow> ends rn e = ends (cfgNet cfg) e \<and> enabled rn e = enabled (cfgNet cfg) e \<and>
       connections rn e = connections (cfgNet cfg) e"
    "\<forall>k < length row. ends rn (row ! k) \<noteq> None \<and> \<not> enabled rn (row ! k) \<and> connections rn (row ! k) = Some (0 + int k)"
    using newEnds_effect[OF m(1)] unfolding m(2) by blast
  have old: "ends (cfgNet cfg) e \<noteq> None \<and> connections (cfgNet cfg) e = Some j \<and> e \<notin> set row" if "nameFrom cfg h j = Some e" for h j e
    using ok that rn(3) unfolding namesOk_def by blast
  have row: "0 \<le> j \<and> nat j < length row \<and> e = row ! nat j" if "go_index row j = Some e" for j e
    using that by (auto simp: go_simps)
  have "ends rn e \<noteq> None \<and> connections rn e = Some j" if "nameFrom cfg2 h j = Some e" for h j e
  proof (cases "h = own")
    case True
    then show ?thesis using that new row[of j e] rn(5) by auto
  next
    case False
    then show ?thesis using that new old[of h j e] rn(4) by auto
  qed
  moreover have "h' = h \<and> j' = j" if "nameFrom cfg2 h j = Some e" "nameFrom cfg2 h' j' = Some e" for h j h' j' e
  proof (cases "h = own"; cases "h' = own")
    assume "h = own" "h' = own"
    then show ?thesis using row[of j e] row[of j' e] that new rn(2) by (auto simp: nth_eq_iff_index_eq)
  next
    assume "h = own" "h' \<noteq> own"
    then show ?thesis using row[of j e] old[of h' j' e] that new by auto
  next
    assume "h \<noteq> own" "h' = own"
    then show ?thesis using row[of j' e] old[of h j e] that new by auto
  next
    assume "h \<noteq> own" "h' \<noteq> own"
    then show ?thesis using that new ok unfolding namesOk_def by metis
  qed
  ultimately show "namesOk cfg2" using net rn(1) unfolding namesOk_def by auto
  show "\<not> isOn cfg2 own j" for j
    using row[of j] rn(1,5) net(3) by (auto simp: isOn_def new split: option.splits)
  show "isOn cfg2 h j = isOn cfg h j" if "h \<noteq> own" for h j
    using that old[of h j] rn(1,4) net(3) by (auto simp: isOn_def new split: option.splits)
qed

section \<open>Starting and stopping servers\<close>

lemma savedAt_frame [simp]:
  "savedAt svc (cfg\<lparr>cfgNet := rn\<rparr>) i = savedAt svc cfg i" "savedAt svc (cfg\<lparr>endnames := en\<rparr>) i = savedAt svc cfg i"
  by (simp_all add: savedAt_def)

lemma ShutdownServer_parts:
  assumes "ShutdownServer svc cfg i = Some (cfg', old)"
  shows "\<exists>f sv. disconnectUnlocked cfg i (All cfg) = Some (switch cfg f) \<and> savedAt svc cfg i = Some sv \<and> 0 \<le> i \<and>
    i < int (length (kvservers cfg)) \<and> i < int (length (saved cfg)) \<and> old = map_option (svcKill svc) (kvservers cfg ! nat i) \<and>
    cfg' = (switch cfg f)\<lparr>cfgNet := DeleteServer (cfgNet (switch cfg f)) i, saved := (saved cfg)[nat i := map_option Copy sv],
      kvservers := (kvservers cfg)[nat i := None]\<rparr>"
proof -
  obtain c1 where c1: "disconnectUnlocked cfg i (All cfg) = Some c1"
    using assms by (auto simp: ShutdownServer_def bind_eq_Some_conv)
  then obtain f where f: "c1 = switch cfg f" by (auto dest: disconnectUnlocked_switch)
  show ?thesis using assms unfolding ShutdownServer_def c1 f by (auto simp: bind_eq_Some_conv go_simps)
qed

lemma wellKept_frame:
  assumes "namesOk cfg" "shapeOk cfg" "cfgN cfg' = cfgN cfg" "endnames cfg' = endnames cfg" "clerks cfg' = clerks cfg"
    "length (kvservers cfg') = length (kvservers cfg)" "length (saved cfg') = length (saved cfg)"
    "ends (cfgNet cfg') = ends (cfgNet cfg)" "connections (cfgNet cfg') = connections (cfgNet cfg)"
  shows "namesOk cfg'" "shapeOk cfg'" "\<And>h j. nameFrom cfg' h j = nameFrom cfg h j" "allNamed cfg' = allNamed cfg"
    "\<And>i. inRange cfg' i = inRange cfg i"
proof -
  show nf: "nameFrom cfg' h j = nameFrom cfg h j" for h j using assms by (cases h) (simp_all add: endAt_def clerkEnd_def)
  show "namesOk cfg'" using assms(1,8,9) by (simp add: namesOk_def nf)
  show "shapeOk cfg'" "allNamed cfg' = allNamed cfg" using assms by (simp_all add: shapeOk_def allNamed_def)
  show "inRange cfg' i = inRange cfg i" for i using assms(3) by (simp add: inRange_def)
qed

lemma ShutdownServer_keeps:
  assumes ok: "wellKept cfg" and s: "ShutdownServer svc cfg i = Some (cfg', old)"
  shows "wellKept cfg'" "cfgN cfg' = cfgN cfg" "allNamed cfg' = allNamed cfg"
proof -
  obtain f sv where p: "0 \<le> i" "i < int (length (kvservers cfg))" "i < int (length (saved cfg))"
    "cfg' = (switch cfg f)\<lparr>cfgNet := DeleteServer (cfgNet (switch cfg f)) i, saved := (saved cfg)[nat i := map_option Copy sv],
      kvservers := (kvservers cfg)[nat i := None]\<rparr>" using ShutdownServer_parts[OF s] by blast
  have o: "namesOk cfg" "shapeOk cfg" "serversOk cfg" "savedOk cfg" using ok by (auto simp: wellKept_def)
  have "serversOk cfg'" using o(2,3) p(1,2) by (auto simp: serversOk_def shapeOk_def p(4) DeleteServer_def nth_list_update)
  moreover have "saved cfg' ! k \<noteq> None" if "k < cfgN cfg'" "kvservers cfg' ! k \<noteq> None" for k
    using that o(2,4) p(1-3) by (cases "k = nat i") (auto simp: savedOk_def shapeOk_def p(4))
  then have "savedOk cfg'" by (simp add: savedOk_def)
  ultimately show "wellKept cfg'" "allNamed cfg' = allNamed cfg"
    using wellKept_frame[OF o(1,2), of cfg'] by (simp_all add: wellKept_def p(4) DeleteServer_def)
  show "cfgN cfg' = cfgN cfg" by (simp add: p(4))
qed

lemma StartServer_parts:
  assumes "StartServer svc cfg i names srv = Some cfg'"
  shows "\<exists>c1 ces kv sv. makeEnds (cfg\<lparr>endnames := (endnames cfg)[nat i := Some names]\<rparr>) 0 names = Some (c1, ces) \<and>
    servers (cfgNet c1) = servers (cfgNet cfg) \<and>
    0 \<le> i \<and> i < int (length (endnames cfg)) \<and> i < int (length (saved cfg)) \<and> i < int (length (kvservers cfg)) \<and>
    savedAt svc cfg i = Some sv \<and> svcStart svc (length names) i (case sv of Some p \<Rightarrow> Copy p | None \<Rightarrow> MakePersister) = Some kv \<and>
    cfg' = cfg\<lparr>endnames := (endnames cfg)[nat i := Some names],
      saved := (saved cfg)[nat i := Some (case sv of Some p \<Rightarrow> Copy p | None \<Rightarrow> MakePersister)],
      kvservers := (kvservers cfg)[nat i := Some kv], cfgNet := AddServer (cfgNet c1) i srv\<rparr>"
proof -
  let ?c = "cfg\<lparr>endnames := (endnames cfg)[nat i := Some names]\<rparr>"
  obtain c1 ces where m: "makeEnds ?c 0 names = Some (c1, ces)"
    using assms by (auto simp: StartServer_def bind_eq_Some_conv go_simps)
  obtain rn where rn: "c1 = ?c\<lparr>cfgNet := rn\<rparr>" "servers rn = servers (cfgNet cfg)" and ces: "length ces = length names"
    using newEnds_effect[OF m] by auto
  have i: "go_set (endnames cfg) i (Some names) = Some ((endnames cfg)[nat i := Some names])" "0 \<le> i" "i < int (length (endnames cfg))"
    using assms by (auto simp: StartServer_def bind_eq_Some_conv go_simps)
  show ?thesis using assms rn(2) unfolding StartServer_def i(1) bind.bind_lunit m rn(1)
    by (auto simp: bind_eq_Some_conv go_simps ces i)
qed

lemma StartServer_keeps:
  assumes ok: "wellKept cfg" and s: "StartServer svc cfg i names srv = Some cfg'" and n: "length names = cfgN cfg"
  shows "wellKept cfg'" "cfgN cfg' = cfgN cfg" "endnames cfg' = (endnames cfg)[nat i := Some names]" "clerks cfg' = clerks cfg"
    "\<And>h j. h \<noteq> ServerEnd i \<Longrightarrow> isOn cfg' h j = isOn cfg h j"
proof -
  let ?c = "cfg\<lparr>endnames := (endnames cfg)[nat i := Some names]\<rparr>"
  obtain c1 ces kv p where m: "makeEnds ?c 0 names = Some (c1, ces)" and srv: "servers (cfgNet c1) = servers (cfgNet cfg)"
    and i: "0 \<le> i" "i < int (length (endnames cfg))"
    and c': "cfg' = cfg\<lparr>endnames := (endnames cfg)[nat i := Some names], saved := (saved cfg)[nat i := Some p],
      kvservers := (kvservers cfg)[nat i := Some kv], cfgNet := AddServer (cfgNet c1) i srv\<rparr>"
    using StartServer_parts[OF s] by auto
  have o: "namesOk cfg" "shapeOk cfg" "serversOk cfg" "savedOk cfg" using ok by (auto simp: wellKept_def)
  have nf: "nameFrom cfg' h j = (if h = ServerEnd i then go_index names j else nameFrom cfg h j)" for h j
    using i by (cases h) (auto simp: c' endAt_def clerkEnd_def go_index_def nth_list_update)
  have net: "cfgNet ?c = cfgNet cfg" "ends (cfgNet cfg') = ends (cfgNet c1)" "connections (cfgNet cfg') = connections (cfgNet c1)"
    "enabled (cfgNet cfg') = enabled (cfgNet c1)" by (simp_all add: c' AddServer_def)
  note nr = new_row_namesOk[OF o(1) m net(1) nf net(2-4)]
  have "shapeOk cfg'" using o(2) n i by (auto simp: c' shapeOk_def nth_list_update split: if_splits)
  moreover have "serversOk cfg'" using o(2,3) i srv by (auto simp: serversOk_def shapeOk_def c' AddServer_def nth_list_update)
  moreover have "savedOk cfg'" using o(2,4) i by (auto simp: savedOk_def shapeOk_def c' nth_list_update)
  ultimately show "wellKept cfg'" using nr(1) by (simp add: wellKept_def)
  show "isOn cfg' h j = isOn cfg h j" if "h \<noteq> ServerEnd i" for h j by (rule nr(3)[OF that])
  show "cfgN cfg' = cfgN cfg" "endnames cfg' = (endnames cfg)[nat i := Some names]" "clerks cfg' = clerks cfg" by (simp_all add: c')
qed

lemma startAll_wellKept:
  assumes "startAll svc cfg i rows = Some cfg'" "wellKept cfg" "\<forall>row \<in> set rows. length row = cfgN cfg" "0 \<le> i"
    "nat i + length rows = cfgN cfg" "\<forall>k < nat i. endnames cfg ! k \<noteq> None"
  shows "wellKept cfg' \<and> cfgN cfg' = cfgN cfg \<and> allNamed cfg' \<and> clerks cfg' = clerks cfg"
  using assms
proof (induction rows arbitrary: cfg i)
  case (Cons row rows)
  obtain c1 where c1: "StartServer svc cfg i row (nat i) = Some c1" "startAll svc c1 (i + 1) rows = Some cfg'"
    using Cons.prems(1) by (auto simp: bind_eq_Some_conv)
  note k = StartServer_keeps[OF Cons.prems(2) c1(1)]
  have "length (endnames cfg) = cfgN cfg" using Cons.prems(2) by (simp add: wellKept_def shapeOk_def)
  then have "\<forall>k < nat (i + 1). endnames c1 ! k \<noteq> None"
    using k(3) Cons.prems(3-6) by (auto simp: nth_list_update less_Suc_eq nat_add_distrib)
  then show ?case using Cons.IH[OF c1(2)] k Cons.prems(3-5) by (simp add: nat_add_distrib)
qed (simp add: allNamed_def)

section \<open>Clients\<close>

lemma shuffleFrom_mset: "i + length rs \<le> length sa \<Longrightarrow> mset (shuffleFrom i rs sa) = mset sa"
proof (induction rs arbitrary: i sa)
  case (Cons r rs)
  have "r mod (i + 1) < i + 1" by simp
  then have "r mod (i + 1) < length sa" "i < length sa" using Cons.prems by (simp_all del: mod_less_divisor)
  then have "mset (sa[i := sa ! (r mod (i + 1)), r mod (i + 1) := sa ! i]) = mset sa" by (rule mset_swap)
  then show ?case using Cons by simp
qed simp

lemma random_handles_mset: "mset (random_handles rolls kvh) = mset kvh"
  by (simp add: random_handles_def shuffleFrom_mset)

lemma new_clerk:
  assumes ok: "wellKept cfg" and m: "makeEnds cfg 0 names = Some (c1, ces)" and new: "clerks cfg ck = None" and n: "length names = cfgN cfg"
    and c2: "c2 = c1\<lparr>clerks := (clerks c1)(ck \<mapsto> names), nextClientId := nextClientId c1 + 1\<rparr>"
  shows "wellKept c2" "cfgN c2 = cfgN cfg" "endnames c2 = endnames cfg" "kvservers c2 = kvservers cfg" "saved c2 = saved cfg"
    "clerks c2 = (clerks cfg)(ck \<mapsto> names)" "ces = map (\<lambda>e. \<lparr>ceName = e\<rparr>) names"
    "\<And>j. \<not> isOn c2 (ClerkEnd ck) j" "\<And>h j. h \<noteq> ClerkEnd ck \<Longrightarrow> isOn c2 h j = isOn cfg h j"
    "servers (cfgNet c2) = servers (cfgNet cfg)"
proof -
  obtain rn where rn: "c1 = cfg\<lparr>cfgNet := rn\<rparr>" "servers rn = servers (cfgNet cfg)" and ces: "ces = map (\<lambda>e. \<lparr>ceName = e\<rparr>) names"
    using newEnds_effect[OF m] by blast
  have o: "namesOk cfg" "shapeOk cfg" "serversOk cfg" "savedOk cfg" using ok by (auto simp: wellKept_def)
  have nf: "nameFrom c2 h j = (if h = ClerkEnd ck then go_index names j else nameFrom cfg h j)" for h j
    by (cases h) (auto simp: c2 rn(1) endAt_def clerkEnd_def)
  have net: "cfgNet c2 = cfgNet c1" by (simp add: c2)
  note nr = new_row_namesOk[OF o(1) m refl nf, unfolded net, OF refl refl refl]
  have "shapeOk c2" using o(2) n by (auto simp: c2 rn(1) shapeOk_def split: if_splits)
  moreover have "serversOk c2" "savedOk c2" using o(3,4) rn(2) by (simp_all add: serversOk_def savedOk_def c2 rn(1))
  ultimately show "wellKept c2" using nr(1) by (simp add: wellKept_def)
  show "\<not> isOn c2 (ClerkEnd ck) j" for j by (rule nr(2))
  show "isOn c2 h j = isOn cfg h j" if "h \<noteq> ClerkEnd ck" for h j by (rule nr(3)[OF that])
  show "cfgN c2 = cfgN cfg" "endnames c2 = endnames cfg" "kvservers c2 = kvservers cfg" "saved c2 = saved cfg"
    "clerks c2 = (clerks cfg)(ck \<mapsto> names)" "ces = map (\<lambda>e. \<lparr>ceName = e\<rparr>) names" "servers (cfgNet c2) = servers (cfgNet cfg)"
    using rn ces by (simp_all add: c2)
qed

lemma makeClient_keeps:
  assumes ok: "wellKept cfg" and m: "makeClient mk rolls cfg ck names to = Some (cfg', clerk)" and new: "clerks cfg ck = None"
    and n: "length names = cfgN cfg"
  shows "wellKept cfg'" "cfgN cfg' = cfgN cfg" "allNamed cfg' = allNamed cfg"
proof -
  obtain c1 ces where c: "makeEnds cfg 0 names = Some (c1, ces)"
    "ConnectClientUnlocked (c1\<lparr>clerks := (clerks c1)(ck \<mapsto> names), nextClientId := nextClientId c1 + 1\<rparr>) ck to = Some cfg'"
    using m by (auto simp: makeClient_def bind_eq_Some_conv)
  note k = new_clerk[OF ok c(1) new n refl]
  obtain f where "cfg' = switch (c1\<lparr>clerks := (clerks c1)(ck \<mapsto> names), nextClientId := nextClientId c1 + 1\<rparr>) f"
    using clients_switch(1)[OF c(2)] by auto
  then show "wellKept cfg'" "cfgN cfg' = cfgN cfg" "allNamed cfg' = allNamed cfg" using k(1-3) by (simp_all add: allNamed_def)
qed

lemma makeClient_connects:
  assumes ok: "wellKept cfg" and new: "clerks cfg ck = None" and n: "length names = cfgN cfg" "distinct names"
    "\<forall>e \<in> set names. ends (cfgNet cfg) e = None" and to: "\<forall>t \<in> set to. inRange cfg t"
  shows "\<exists>cfg' hs. makeClient mk rolls cfg ck names to = Some (cfg', mk hs) \<and> mset hs = mset (map (\<lambda>e. \<lparr>ceName = e\<rparr>) names) \<and>
    wellKept cfg' \<and> clerks cfg' = (clerks cfg)(ck \<mapsto> names) \<and> kvservers cfg' = kvservers cfg \<and>
    (\<forall>j. isOn cfg' (ClerkEnd ck) j \<longleftrightarrow> j \<in> set to) \<and> (\<forall>h j. h \<noteq> ClerkEnd ck \<longrightarrow> isOn cfg' h j = isOn cfg h j) \<and>
    cfgN cfg' = cfgN cfg"
proof -
  obtain c1 ces where c: "makeEnds cfg 0 names = Some (c1, ces)" using makeEnds_returns[OF n(2,3), of 0] by auto
  define c2 where "c2 = c1\<lparr>clerks := (clerks c1)(ck \<mapsto> names), nextClientId := nextClientId c1 + 1\<rparr>"
  note k = new_clerk[OF ok c(1) new n(1) c2_def]
  have ck: "\<exists>e. clerkEnd c2 ck t = Some e" if "inRange cfg t" for t
    using clerkEnd_named[of c2 ck t] k(1,2,6) that by (auto simp: wellKept_def inRange_def)
  have "\<exists>c3. eachEnd (\<lambda>cfg t. map_option Some (clerkEnd cfg ck t)) True c2 to = Some c3 \<and>
      switched c2 ((\<lambda>t. (ClerkEnd ck, t)) ` set to) True c3"
    by (rule eachEnd_switched) (use k(1) ck to in \<open>auto simp: wellKept_def\<close>)
  then obtain c3 where c3: "ConnectClientUnlocked c2 ck to = Some c3" "switched c2 ((\<lambda>t. (ClerkEnd ck, t)) ` set to) True c3"
    by (auto simp: ConnectClientUnlocked_def)
  obtain f where f: "c3 = switch c2 f" using c3(2) by (auto simp: switched_def)
  have on: "isOn c3 h j = ((h = ClerkEnd ck \<and> j \<in> set to) \<or> isOn c2 h j)" for h j
  proof (cases "nameFrom c2 h j")
    case None
    then have "\<not> (h = ClerkEnd ck \<and> j \<in> set to)" using ck[of j] to by auto
    then show ?thesis using None by (simp add: isOn_def f)
  next
    case (Some e)
    then show ?thesis using switched_isOn[OF c3(2), of h j] by auto
  qed
  have "makeClient mk rolls cfg ck names to = Some (c3, mk (random_handles rolls ces))"
    using c c3(1) by (simp add: makeClient_def c2_def)
  moreover have "mset (random_handles rolls ces) = mset (map (\<lambda>e. \<lparr>ceName = e\<rparr>) names)" using k(7) by (simp only: random_handles_mset)
  moreover have "wellKept c3" "clerks c3 = (clerks cfg)(ck \<mapsto> names)" "kvservers c3 = kvservers cfg" "cfgN c3 = cfgN cfg"
    using k f by simp_all
  moreover have "isOn c3 (ClerkEnd ck) j \<longleftrightarrow> j \<in> set to" for j using on k(8) by simp
  moreover have "isOn c3 h j = isOn cfg h j" if "h \<noteq> ClerkEnd ck" for h j using on k(9) that by simp
  ultimately show ?thesis by blast
qed

lemma deleteClient_keeps: 
  assumes "wellKept cfg"
  shows "wellKept (deleteClient cfg ck) \<and> cfgN (deleteClient cfg ck) = cfgN cfg \<and> allNamed (deleteClient cfg ck) = allNamed cfg"
proof -
  have "nameFrom (deleteClient cfg ck) h j = (if h = ClerkEnd ck then None else nameFrom cfg h j)" for h j
    by (cases h) (auto simp: deleteClient_def endAt_def clerkEnd_def)
  then have "namesOk (deleteClient cfg ck)" using assms by (simp add: wellKept_def namesOk_def deleteClient_def)
  moreover have "shapeOk (deleteClient cfg ck)" "serversOk (deleteClient cfg ck)" "savedOk (deleteClient cfg ck)"
    using assms by (auto simp: wellKept_def shapeOk_def serversOk_def savedOk_def deleteClient_def split: if_splits)
  ultimately show ?thesis by (simp add: wellKept_def deleteClient_def allNamed_def)
qed

end
