(* ===== verification/HarnessRun.thy ===== *)
theory HarnessRun
  imports HarnessInv RaftLeader
begin

text \<open>
  Tests as a whole: the configurations that the operations of the harness make, what of a request gets
  through the network in them, and what a partition and a restart do.  The server is a
  locale's parameter.
\<close>

section \<open>Everything the harness does\<close>

text \<open>The configuration as \<^verbatim>\<open>make_config\<close> allocates it.\<close>

definition allocated :: "nat \<Rightarrow> ('s, 'r, 'b, 'z) config_scheme \<Rightarrow> bool" where
  "allocated n cfg \<longleftrightarrow> cfgNet cfg = MakeNetwork \<and> cfgN cfg = n \<and> kvservers cfg = replicate n None \<and>
     saved cfg = replicate n None \<and> endnames cfg = replicate n None \<and> clerks cfg = Map.empty"

text \<open>The configurations of a test of \<open>n\<close> servers.  Between the operations of the harness the servers run.\<close>

inductive configured :: "('s, 'c, 'b) service \<Rightarrow> nat \<Rightarrow> ('s, 'c gobValue, 'b, 'z) config_scheme \<Rightarrow> bool" for svc n where
  made: "allocated n cfg0 \<Longrightarrow> length names = n \<Longrightarrow> \<forall>row \<in> set names. length row = n \<Longrightarrow>
    bringUp svc cfg0 names unreliable = Some cfg \<Longrightarrow> configured svc n cfg"
| connects: "configured svc n cfg \<Longrightarrow> connect cfg i to = Some cfg' \<Longrightarrow> configured svc n cfg'"
| disconnects: "configured svc n cfg \<Longrightarrow> disconnect cfg i to = Some cfg' \<Longrightarrow> configured svc n cfg'"
| connectsAll: "configured svc n cfg \<Longrightarrow> ConnectAll cfg = Some cfg' \<Longrightarrow> configured svc n cfg'"
| partitions: "configured svc n cfg \<Longrightarrow> partition cfg p1 p2 = Some cfg' \<Longrightarrow> configured svc n cfg'"
| newClient: "configured svc n cfg \<Longrightarrow> clerks cfg ck = None \<Longrightarrow> length names = n \<Longrightarrow>
    makeClient id rolls cfg ck names to = Some (cfg', handles) \<Longrightarrow> configured svc n cfg'"
| dropsClient: "configured svc n cfg \<Longrightarrow> configured svc n (deleteClient cfg ck)"
| connectsClient: "configured svc n cfg \<Longrightarrow> ConnectClient cfg ck to = Some cfg' \<Longrightarrow> configured svc n cfg'"
| disconnectsClient: "configured svc n cfg \<Longrightarrow> DisconnectClient cfg ck to = Some cfg' \<Longrightarrow> configured svc n cfg'"
| shuts: "configured svc n cfg \<Longrightarrow> ShutdownServer svc cfg i = Some (cfg', old) \<Longrightarrow> configured svc n cfg'"
| starts: "configured svc n cfg \<Longrightarrow> length names = n \<Longrightarrow> StartServer svc cfg i names srv = Some cfg' \<Longrightarrow> configured svc n cfg'"
| runs: "configured svc n cfg \<Longrightarrow> length kvs = n \<Longrightarrow> \<forall>i < n. kvs ! i = None \<longleftrightarrow> kvservers cfg ! i = None \<Longrightarrow>
    configured svc n (cfg\<lparr>kvservers := kvs\<rparr>)"

lemma allocated_ok: "allocated n cfg \<Longrightarrow> wellKept cfg"
proof -
  assume a: "allocated n cfg"
  have "nameFrom cfg h j = None" for h j
    using a by (cases h) (auto simp: allocated_def endAt_def clerkEnd_def go_index_def)
  then have "namesOk cfg" by (simp add: namesOk_def)
  then show ?thesis using a
    by (auto simp: wellKept_def allocated_def shapeOk_def serversOk_def savedOk_def MakeNetwork_def)
qed

lemma setReliable_ok [simp]:
  "wellKept (setReliable cfg b) = wellKept cfg" "cfgN (setReliable cfg b) = cfgN cfg" "allNamed (setReliable cfg b) = allNamed cfg"
proof -
  have "nameFrom (setReliable cfg b) h j = nameFrom cfg h j" for h j
    by (cases h) (simp_all add: setReliable_def endAt_def clerkEnd_def)
  then show "wellKept (setReliable cfg b) = wellKept cfg" "cfgN (setReliable cfg b) = cfgN cfg" "allNamed (setReliable cfg b) = allNamed cfg"
    by (simp_all add: wellKept_def namesOk_def shapeOk_def serversOk_def savedOk_def allNamed_def setReliable_def Reliable_def)
qed

lemma runs_ok:
  assumes "wellKept cfg" "length kvs = cfgN cfg" "\<forall>i < cfgN cfg. kvs ! i = None \<longleftrightarrow> kvservers cfg ! i = None"
  shows "wellKept (cfg\<lparr>kvservers := kvs\<rparr>)"
proof -
  have "nameFrom (cfg\<lparr>kvservers := kvs\<rparr>) h j = nameFrom cfg h j" for h j by (cases h) (simp_all add: endAt_def clerkEnd_def)
  then show ?thesis using assms by (simp add: wellKept_def namesOk_def shapeOk_def serversOk_def savedOk_def)
qed

lemma allNamed_update:
  assumes "allNamed cfg" "endnames cfg' = (endnames cfg)[i := Some row]" "cfgN cfg' = cfgN cfg"
  shows "allNamed cfg'"
proof -
  have "(endnames cfg)[i := Some row] ! k \<noteq> None" if "endnames cfg ! k \<noteq> None" for k
    using that by (cases "i < length (endnames cfg)") (auto simp: nth_list_update list_update_beyond)
  then show ?thesis using assms by (simp add: allNamed_def)
qed

theorem harness_wellKept: "configured svc n cfg \<Longrightarrow> wellKept cfg \<and> cfgN cfg = n \<and> allNamed cfg"
proof (induction rule: configured.induct)
  case (made cfg0 names unreliable cfg)
  obtain c1 c2 where c: "startAll svc cfg0 0 names = Some c1" "ConnectAll c1 = Some c2" "cfg = setReliable c2 (\<not> unreliable)"
    using made(4) by (auto simp: bringUp_def bind_eq_Some_conv)
  have n: "cfgN cfg0 = n" using made(1) by (simp add: allocated_def)
  have "wellKept c1 \<and> cfgN c1 = n \<and> allNamed c1"
    using startAll_wellKept[OF c(1) allocated_ok[OF made(1)]] made(2,3) n by auto
  then show ?case using ConnectAll_switch[OF c(2)] c(3) by auto
next
  case newClient then show ?case using makeClient_keeps[OF _ newClient(4,2)] by simp
next
  case dropsClient then show ?case using deleteClient_keeps by metis
next
  case shuts then show ?case using ShutdownServer_keeps[OF _ shuts(2)] by simp
next
  case (starts cfg names i srv cfg')
  note k = StartServer_keeps[OF _ starts(3)]
  have "allNamed cfg'" using starts k(2,3) allNamed_update by metis
  then show ?case using starts k(1,2) by simp
next
  case (runs cfg kvs) then show ?case using runs_ok[of cfg kvs] by (simp add: allNamed_def)
qed (auto simp: connect_def disconnect_def ConnectClient_def DisconnectClient_def dest!: only_switch)

section \<open>Requests\<close>

text \<open>What happens to a request on an end of the harness.\<close>

lemma reaches_end:
  assumes "namesOk cfg" "nameFrom cfg h j = Some (endname req)"
  shows "reaches (cfgNet cfg) req dice =
    (case servers (cfgNet cfg) j of
       None \<Rightarrow> None
     | Some p \<Rightarrow> if isOn cfg h j \<and> (reliable (cfgNet cfg) \<or> 100 \<le> diceRequest dice mod 1000) then Some (j, p) else None)"
proof -
  have "connections (cfgNet cfg) (endname req) = Some j" using assms unfolding namesOk_def by blast
  then show ?thesis using assms(2) by (auto simp: reaches_def readEndnameInfo_def isOn_def split: option.splits)
qed

lemma reaches_running:
  assumes "wellKept cfg" "inRange cfg j" "kvservers cfg ! nat j \<noteq> None" "nameFrom cfg h j = Some (endname req)" "reliable (cfgNet cfg)"
  shows "(\<exists>p. reaches (cfgNet cfg) req dice = Some (j, p)) \<longleftrightarrow> isOn cfg h j"
proof -
  have j: "0 \<le> j" "nat j < cfgN cfg" using assms(2) by (auto simp: inRange_def)
  then have "servers (cfgNet cfg) (int (nat j)) \<noteq> None" using assms(1,3) unfolding wellKept_def serversOk_def by blast
  then show ?thesis using assms(2,4,5) reaches_end[of cfg h j req dice] assms(1)
    by (auto simp: wellKept_def inRange_def split: if_splits)
qed

lemma reaches_off: "namesOk cfg \<Longrightarrow> nameFrom cfg h j = Some (endname req) \<Longrightarrow> \<not> isOn cfg h j \<Longrightarrow> reaches (cfgNet cfg) req dice = None"
  by (simp add: reaches_end split: option.splits)

section \<open>Partitions around the leader\<close>

lemma leaderFrom_found:
  assumes "\<forall>i \<in> set is. \<exists>kv. go_index (kvservers cfg) i = Some (Some kv)"
  shows "(\<exists>l \<in> set is. \<exists>kv. leaderFrom svc cfg is = Some (True, l) \<and> go_index (kvservers cfg) l = Some (Some kv) \<and>
      state (svcRaft svc kv) = LEADER) \<or>
    leaderFrom svc cfg is = Some (False, 0) \<and>
      (\<forall>i \<in> set is. \<forall>kv. go_index (kvservers cfg) i = Some (Some kv) \<longrightarrow> state (svcRaft svc kv) \<noteq> LEADER)"
  using assms
proof (induction "is")
  case (Cons i "is")
  obtain kv where kv: "go_index (kvservers cfg) i = Some (Some kv)" using Cons.prems by auto
  show ?case
  proof (cases "state (svcRaft svc kv) = LEADER")
    case True
    then have "leaderFrom svc cfg (i # is) = Some (True, i)" using kv by (simp add: GetState_def)
    then show ?thesis using kv True by auto
  next
    case False
    then have "leaderFrom svc cfg (i # is) = leaderFrom svc cfg is" using kv by (simp add: GetState_def)
    then show ?thesis using kv False Cons by auto
  qed
qed simp

lemma leader_in_minority:
  assumes ok: "wellKept cfg" "allNamed cfg" and n: "odd (cfgN cfg)" "3 \<le> cfgN cfg" and l: "inRange cfg l"
  shows "\<exists>p1 p2 cfg'. splitAround (cfgN cfg) l = Some (p1, p2) \<and> partition cfg p1 p2 = Some cfg' \<and>
    mset (p1 @ p2) = mset (All cfg) \<and> length p2 < length p1 \<and> l \<in> set p2 \<and> (\<exists>f. cfg' = switch cfg f) \<and>
    (\<forall>i j. inRange cfg i \<longrightarrow> inRange cfg j \<longrightarrow> isOn cfg' (ServerEnd i) j = (i \<in> set p1 \<longleftrightarrow> j \<in> set p1)) \<and>
    (\<forall>ck j. isOn cfg' (ClerkEnd ck) j = isOn cfg (ClerkEnd ck) j)"
proof -
  let ?a = "map int [0..<cfgN cfg]"
  have l': "0 \<le> l" "l < int (cfgN cfg)" using l by (auto simp: inRange_def)
  obtain p1 p2 where p: "splitAround (cfgN cfg) l = Some (p1, p2)" "length p1 = cfgN cfg div 2 + 1" "length p2 = cfgN cfg div 2"
    "p1 @ p2 = remove1 l ?a @ [l]" using splitAround_odd[OF n l'] by blast
  have "l \<in> set ?a" using l' by (auto simp: image_iff intro!: bexI[of _ "nat l"])
  then have m: "mset (p1 @ p2) = mset ?a" using p(4) by simp
  then have "distinct (p1 @ p2)" by (metis distinct_map distinct_upt inj_on_of_nat mset_eq_imp_distinct_iff)
  then have dis: "set p1 \<inter> set p2 = {}" by simp
  have "set (p1 @ p2) = set ?a" using m by (rule mset_eq_setD)
  then have all: "i \<in> set p1 \<union> set p2 \<longleftrightarrow> inRange cfg i" for i
    by (auto simp: inRange_def image_iff intro!: bexI[of _ "nat _"])
  have "p2 \<noteq> []" using p(3) n(2) by auto
  then have lp: "l \<in> set p2" using p(4) by (metis last_appendR last_in_set last_snoc)
  have len: "length p1 \<le> cfgN cfg" "length p2 \<le> cfgN cfg" using p(2,3) n by auto
  have r: "ready cfg" using ok by (simp add: ready_iff)
  obtain c where c: "partition cfg p1 p2 = Some c" "\<exists>f. c = switch cfg f"
    "\<forall>i \<in> set p1 \<union> set p2. \<forall>j \<in> set p1 \<union> set p2. isOn c (ServerEnd i) j \<longleftrightarrow> (i \<in> set p1 \<longleftrightarrow> j \<in> set p1)"
    "\<forall>ck j. isOn c (ClerkEnd ck) j = isOn cfg (ClerkEnd ck) j"
    using partition_links[OF r _ dis len] all by blast
  have "length p2 < length p1" using p(2,3) by simp
  moreover have "\<forall>i j. inRange cfg i \<longrightarrow> inRange cfg j \<longrightarrow> isOn c (ServerEnd i) j = (i \<in> set p1 \<longleftrightarrow> j \<in> set p1)"
    using c(3) all by blast
  moreover have "mset (p1 @ p2) = mset (All cfg)" using m by (simp only: All_def)
  ultimately show ?thesis using p(1) lp c(1,2,4) by blast
qed

lemma All_inRange: "i \<in> set (All cfg) \<longleftrightarrow> inRange cfg i"
  by (auto simp: All_def inRange_def image_iff intro!: bexI[of _ "nat _"])

lemma leader_found:
  assumes "wellKept cfg" "\<forall>i < cfgN cfg. kvservers cfg ! i \<noteq> None" "0 < cfgN cfg"
  shows "\<exists>found l. Leader svc cfg = Some (found, l) \<and> inRange cfg l \<and>
    (found \<longrightarrow> (\<exists>kv. kvservers cfg ! nat l = Some kv \<and> state (svcRaft svc kv) = LEADER)) \<and>
    (\<not> found \<longrightarrow> (\<forall>i kv. i < cfgN cfg \<longrightarrow> kvservers cfg ! i = Some kv \<longrightarrow> state (svcRaft svc kv) \<noteq> LEADER))"
proof -
  have len: "length (kvservers cfg) = cfgN cfg" using assms(1) by (simp add: wellKept_def shapeOk_def)
  have run: "\<forall>i \<in> set (All cfg). \<exists>kv. go_index (kvservers cfg) i = Some (Some kv)"
    using assms(2) len by (auto simp: All_def go_index_def)
  from leaderFrom_found[OF this, of svc] show ?thesis
  proof (elim disjE bexE exE conjE)
    fix l kv assume l: "l \<in> set (All cfg)" "leaderFrom svc cfg (All cfg) = Some (True, l)"
      "go_index (kvservers cfg) l = Some (Some kv)" "state (svcRaft svc kv) = LEADER"
    have "kvservers cfg ! nat l = Some kv" using l(3) by (simp add: go_simps)
    then show ?thesis using l by (intro exI[of _ True] exI[of _ l]) (simp add: Leader_def All_inRange)
  next
    assume no: "leaderFrom svc cfg (All cfg) = Some (False, 0)"
      "\<forall>i \<in> set (All cfg). \<forall>kv. go_index (kvservers cfg) i = Some (Some kv) \<longrightarrow> state (svcRaft svc kv) \<noteq> LEADER"
    have "state (svcRaft svc kv) \<noteq> LEADER" if "i < cfgN cfg" "kvservers cfg ! i = Some kv" for i kv
      using no(2) that len by (auto simp: All_def go_index_def)
    then show ?thesis using no(1) assms(3) by (intro exI[of _ False] exI[of _ 0]) (simp add: Leader_def inRange_def)
  qed
qed

text \<open>On a reliable network with all servers running, requests arrive exactly within a side.\<close>

lemma sides_apart:
  assumes ok: "wellKept cfg" "allNamed cfg" and n: "odd (cfgN cfg)" "3 \<le> cfgN cfg" and l: "inRange cfg l"
    and up: "\<forall>i < cfgN cfg. kvservers cfg ! i \<noteq> None" and rel: "reliable (cfgNet cfg)"
  shows "\<exists>p1 p2 cfg'. splitAround (cfgN cfg) l = Some (p1, p2) \<and> partition cfg p1 p2 = Some cfg' \<and>
    mset (p1 @ p2) = mset (All cfg) \<and> length p2 < length p1 \<and> l \<in> set p2 \<and>
    (\<forall>i \<in> set (p1 @ p2). \<forall>j \<in> set (p1 @ p2). \<forall>req dice. endAt cfg i j = Some (endname req) \<longrightarrow>
       ((\<exists>p. reaches (cfgNet cfg') req dice = Some (j, p)) \<longleftrightarrow> (i \<in> set p1 \<longleftrightarrow> j \<in> set p1))) \<and>
    (\<forall>ck j. isOn cfg' (ClerkEnd ck) j = isOn cfg (ClerkEnd ck) j)"
proof -
  obtain p1 p2 c where p: "splitAround (cfgN cfg) l = Some (p1, p2)" "partition cfg p1 p2 = Some c" "mset (p1 @ p2) = mset (All cfg)"
    "length p2 < length p1" "l \<in> set p2" "\<exists>f. c = switch cfg f"
    "\<forall>i j. inRange cfg i \<longrightarrow> inRange cfg j \<longrightarrow> isOn c (ServerEnd i) j = (i \<in> set p1 \<longleftrightarrow> j \<in> set p1)"
    "\<forall>ck j. isOn c (ClerkEnd ck) j = isOn cfg (ClerkEnd ck) j"
    using leader_in_minority[OF ok n l] by blast
  have "set (p1 @ p2) = set (All cfg)" using p(3) by (rule mset_eq_setD)
  then have rng: "inRange cfg i" if "i \<in> set (p1 @ p2)" for i using that All_inRange by blast
  obtain f where f: "c = switch cfg f" using p(6) by blast
  have arr: "(\<exists>p. reaches (cfgNet c) req dice = Some (j, p)) \<longleftrightarrow> (i \<in> set p1 \<longleftrightarrow> j \<in> set p1)"
    if "i \<in> set (p1 @ p2)" "j \<in> set (p1 @ p2)" "endAt cfg i j = Some (endname req)" for i j req dice
  proof -
    have "nat j < cfgN cfg" using rng[OF that(2)] by (auto simp: inRange_def)
    then have "kvservers c ! nat j \<noteq> None" using up by (simp add: f)
    then have "(\<exists>p. reaches (cfgNet c) req dice = Some (j, p)) \<longleftrightarrow> isOn c (ServerEnd i) j"
      using reaches_running[of c j "ServerEnd i" req dice] ok(1) rng[OF that(2)] that(3) rel by (simp add: f) (simp add: switch_def)
    then show ?thesis using p(7) rng that(1,2) by blast
  qed
  show ?thesis using p(1-5,8) arr by blast
qed

lemma makeEnds_reliable: "makeEnds cfg j es = Some (cfg', ces) \<Longrightarrow> reliable (cfgNet cfg') = reliable (cfgNet cfg)"
proof (induction es arbitrary: cfg j ces)
  case (Cons e es)
  then show ?case by (fastforce simp: MakeEnd_def Connect_def bind_eq_Some_conv split: if_splits)
qed simp

lemma makeClient_reliable: "makeClient mk rolls cfg ck names to = Some (cfg', clerk) \<Longrightarrow> reliable (cfgNet cfg') = reliable (cfgNet cfg)"
proof -
  have "reliable (cfgNet (switch c f)) = reliable (cfgNet c)" for c :: "('a, 'b, 'c, 'd) config_scheme" and f by (simp add: switch_def)
  then show "makeClient mk rolls cfg ck names to = Some (cfg', clerk) \<Longrightarrow> reliable (cfgNet cfg') = reliable (cfgNet cfg)"
    by (auto simp: makeClient_def bind_eq_Some_conv dest!: clients_switch(1) makeEnds_reliable)
qed

section \<open>Starts and restarts\<close>

lemma Make_again:
  assumes "sound rf" "0 \<le> i" "i < int n"
  shows "\<exists>peer. Make n i (persister rf) = Some peer \<and> sound peer \<and> persister peer = persister rf \<and>
    CurrentTerm peer = CurrentTerm rf \<and> VotedFor peer = VotedFor rf \<and> Log peer = Log rf"
  using Make_recovers[of "persister rf" "CurrentTerm rf" "VotedFor rf" "Log rf" i n] assms
  by (auto simp: sound_def durable_def wfRaft_def)

lemma Make_afresh:
  assumes "0 \<le> i" "i < int n"
  shows "\<exists>peer :: ('c, 'b) Raft. Make n i MakePersister = Some peer \<and> sound peer"
proof -
  have "wfLog [\<lparr>Term = 0, Command = None :: 'c option, Index = 0\<rparr>] 0" by (simp add: wfLog_def firstIdx_def)
  from Make_recovers[OF recovered_fresh this assms] show ?thesis by blast
qed

text \<open>What the harness relies on: a server can be started on an empty persister, and one that is started on the
  persister of a server in good order has that persister, and its peer the same term, vote and log.\<close>

locale raft_service =
  fixes svc :: "('s, 'c, 'b) service"
  assumes start_recovers:
    "sound (svcRaft svc s) \<Longrightarrow> 0 \<le> i \<Longrightarrow> i < int n \<Longrightarrow>
     \<exists>s'. svcStart svc n i (persister (svcRaft svc s)) = Some s' \<and> sound (svcRaft svc s') \<and>
       persister (svcRaft svc s') = persister (svcRaft svc s) \<and> CurrentTerm (svcRaft svc s') = CurrentTerm (svcRaft svc s) \<and>
       VotedFor (svcRaft svc s') = VotedFor (svcRaft svc s) \<and> Log (svcRaft svc s') = Log (svcRaft svc s)"
    and start_afresh: "0 \<le> i \<Longrightarrow> i < int n \<Longrightarrow> \<exists>s. svcStart svc n i MakePersister = Some s \<and> sound (svcRaft svc s)"
begin

lemma shutdown:
  assumes ok: "wellKept cfg" "allNamed cfg" and i: "inRange cfg i" and s: "kvservers cfg ! nat i = Some s"
  shows "\<exists>cfg'. ShutdownServer svc cfg i = Some (cfg', Some (svcKill svc s)) \<and>
    kvservers cfg' = (kvservers cfg)[nat i := None] \<and> savedAt svc cfg' i = Some (Some (persister (svcRaft svc s))) \<and>
    servers (cfgNet cfg') = (servers (cfgNet cfg))(i := None) \<and> ends (cfgNet cfg') = ends (cfgNet cfg) \<and>
    (\<forall>ck j. isOn cfg' (ClerkEnd ck) j = isOn cfg (ClerkEnd ck) j)"
proof -
  have sh: "shapeOk cfg" "savedOk cfg" using ok(1) by (auto simp: wellKept_def)
  have r: "ready cfg" using ok by (simp add: ready_iff)
  have "\<forall>t \<in> set (All cfg). inRange cfg t" "length (All cfg) \<le> cfgN cfg" by (auto simp: All_def inRange_def)
  then obtain c1 where c1: "disconnectUnlocked cfg i (All cfg) = Some c1" "switched cfg (links i (set (All cfg))) False c1"
    using disconnectUnlocked_links[OF r i] by blast
  obtain f where f: "c1 = switch cfg f" using c1(2) by (auto simp: switched_def)
  have idx: "i < int (length (kvservers cfg))" "i < int (length (saved cfg))" "0 \<le> i" using i sh(1) by (auto simp: inRange_def shapeOk_def)
  have "nat i < cfgN cfg" using i by (auto simp: inRange_def)
  then obtain p0 where "saved cfg ! nat i = Some p0" using sh(2) s unfolding savedOk_def by blast
  then have sv: "savedAt svc cfg i = Some (Some (persister (svcRaft svc s)))" using idx s by (simp add: savedAt_def go_index_def)
  define c2 where "c2 = c1\<lparr>cfgNet := DeleteServer (cfgNet c1) i, saved := (saved cfg)[nat i := Some (persister (svcRaft svc s))],
    kvservers := (kvservers cfg)[nat i := None]\<rparr>"
  have "ShutdownServer svc cfg i = Some (c2, Some (svcKill svc s))"
    using c1(1) sv idx s by (simp add: ShutdownServer_def go_index_def go_set_def f c2_def)
  moreover have "isOn c2 (ClerkEnd ck) j = isOn cfg (ClerkEnd ck) j" for ck j
    using switched_isOn[OF c1(2), of "ClerkEnd ck" j]
    by (cases "nameFrom cfg (ClerkEnd ck) j") (auto simp: links_def isOn_def c2_def f clerkEnd_def DeleteServer_def)
  moreover have "savedAt svc c2 i = Some (Some (persister (svcRaft svc s)))" using idx by (simp add: savedAt_def go_index_def c2_def)
  ultimately show ?thesis by (auto simp: c2_def f DeleteServer_def)
qed

lemma start:
  assumes ok: "wellKept cfg" and i: "inRange cfg i" and p: "savedAt svc cfg i = Some (Some (persister (svcRaft svc s)))"
    and s: "sound (svcRaft svc s)" and n: "length names = cfgN cfg" "distinct names" "\<forall>e \<in> set names. ends (cfgNet cfg) e = None"
  shows "\<exists>cfg' s'. StartServer svc cfg i names srv = Some cfg' \<and> kvservers cfg' = (kvservers cfg)[nat i := Some s'] \<and>
    sound (svcRaft svc s') \<and> persister (svcRaft svc s') = persister (svcRaft svc s) \<and> CurrentTerm (svcRaft svc s') = CurrentTerm (svcRaft svc s) \<and>
    VotedFor (svcRaft svc s') = VotedFor (svcRaft svc s) \<and> Log (svcRaft svc s') = Log (svcRaft svc s)"
proof -
  have idx: "nat i < length (kvservers cfg)" "nat i < length (saved cfg)" "nat i < length (endnames cfg)" "0 \<le> i" "i < int (length names)"
    using i ok n(1) by (auto simp: inRange_def wellKept_def shapeOk_def)
  let ?c = "cfg\<lparr>endnames := (endnames cfg)[nat i := Some names]\<rparr>"
  obtain c1 ces where m: "makeEnds ?c 0 names = Some (c1, ces)" using makeEnds_returns[of names ?c 0] n by auto
  obtain rn where rn: "c1 = ?c\<lparr>cfgNet := rn\<rparr>" and ces: "length ces = length names" using newEnds_effect[OF m] by auto
  obtain s' where s': "svcStart svc (length names) i (persister (svcRaft svc s)) = Some s'" "sound (svcRaft svc s')"
    "persister (svcRaft svc s') = persister (svcRaft svc s)" "CurrentTerm (svcRaft svc s') = CurrentTerm (svcRaft svc s)"
    "VotedFor (svcRaft svc s') = VotedFor (svcRaft svc s)" "Log (svcRaft svc s') = Log (svcRaft svc s)"
    using start_recovers[OF s idx(4,5)] by blast
  then show ?thesis using m p idx by (auto simp: StartServer_def go_set_def rn ces)
qed

lemma restart:
  assumes ok: "wellKept cfg" "allNamed cfg" and i: "inRange cfg i" and s: "kvservers cfg ! nat i = Some s" "sound (svcRaft svc s)"
    and n: "length names = cfgN cfg" "distinct names" "\<forall>e \<in> set names. ends (cfgNet cfg) e = None"
  shows "\<exists>cfg1 cfg2 cfg3 s'. ShutdownServer svc cfg i = Some (cfg1, Some (svcKill svc s)) \<and>
    (\<forall>req dice p. reaches (cfgNet cfg1) req dice \<noteq> Some (i, p)) \<and>
    StartServer svc cfg1 i names srv = Some cfg2 \<and> ConnectAll cfg2 = Some cfg3 \<and>
    kvservers cfg3 = (kvservers cfg)[nat i := Some s'] \<and> sound (svcRaft svc s') \<and>
    persister (svcRaft svc s') = persister (svcRaft svc s) \<and> CurrentTerm (svcRaft svc s') = CurrentTerm (svcRaft svc s) \<and>
    VotedFor (svcRaft svc s') = VotedFor (svcRaft svc s) \<and> Log (svcRaft svc s') = Log (svcRaft svc s) \<and>
    (\<forall>a b. inRange cfg a \<longrightarrow> inRange cfg b \<longrightarrow> isOn cfg3 (ServerEnd a) b) \<and>
    (\<forall>ck j. isOn cfg3 (ClerkEnd ck) j = isOn cfg (ClerkEnd ck) j)"
proof -
  obtain c1 where c1: "ShutdownServer svc cfg i = Some (c1, Some (svcKill svc s))" "kvservers c1 = (kvservers cfg)[nat i := None]"
    "savedAt svc c1 i = Some (Some (persister (svcRaft svc s)))" "servers (cfgNet c1) = (servers (cfgNet cfg))(i := None)"
    "ends (cfgNet c1) = ends (cfgNet cfg)" "\<forall>ck j. isOn c1 (ClerkEnd ck) j = isOn cfg (ClerkEnd ck) j"
    using shutdown[OF ok i s(1)] by blast
  note k1 = ShutdownServer_keeps[OF ok(1) c1(1)]
  have i1: "inRange c1 i" using i k1(2) by (simp add: inRange_def)
  obtain c2 s' where c2: "StartServer svc c1 i names srv = Some c2" "kvservers c2 = (kvservers c1)[nat i := Some s']"
    and s': "sound (svcRaft svc s')" "persister (svcRaft svc s') = persister (svcRaft svc s)"
    "CurrentTerm (svcRaft svc s') = CurrentTerm (svcRaft svc s)" "VotedFor (svcRaft svc s') = VotedFor (svcRaft svc s)"
    "Log (svcRaft svc s') = Log (svcRaft svc s)"
    using start[OF k1(1) i1 c1(3) s(2), of names srv] n k1(2) c1(5) by auto
  note k2 = StartServer_keeps[OF k1(1) c2(1)]
  have "allNamed c2" using k2(2,3) k1(2,3) ok(2) n(1) allNamed_update[of c1 c2] by simp
  then have "ready c2" using k2(1) k1(2) n(1) by (simp add: ready_iff)
  then obtain c3 where c3: "ConnectAll c2 = Some c3" "\<exists>f. c3 = switch c2 f" "\<forall>i j. inRange c2 i \<longrightarrow> inRange c2 j \<longrightarrow> isOn c3 (ServerEnd i) j"
    "\<forall>ck j. isOn c3 (ClerkEnd ck) j = isOn c2 (ClerkEnd ck) j" using ConnectAll_links by blast
  have "inRange c2 a = inRange cfg a" for a using k1(2) k2(2) n(1) by (simp add: inRange_def)
  moreover have "isOn c2 (ClerkEnd ck) j = isOn cfg (ClerkEnd ck) j" for ck j using k2(5) k1(2) n(1) c1(6) by simp
  moreover have "reaches (cfgNet c1) req dice \<noteq> Some (i, p)" for req dice p
    using c1(4) by (auto simp: reaches_def readEndnameInfo_def split: option.splits if_splits)
  ultimately show ?thesis using c1(1,2) c2 s' c3 by auto
qed

lemma first_start:
  assumes ok: "wellKept cfg" and i: "inRange cfg i" and p: "saved cfg ! nat i = None"
    and n: "length names = cfgN cfg" "distinct names" "\<forall>e \<in> set names. ends (cfgNet cfg) e = None"
  shows "\<exists>cfg' s. StartServer svc cfg i names srv = Some cfg' \<and> kvservers cfg' = (kvservers cfg)[nat i := Some s] \<and>
    sound (svcRaft svc s) \<and> (\<forall>k. k \<noteq> nat i \<longrightarrow> saved cfg' ! k = saved cfg ! k) \<and>
    (\<forall>e. e \<notin> set names \<longrightarrow> ends (cfgNet cfg') e = ends (cfgNet cfg) e)"
proof -
  have idx: "i < int (length (kvservers cfg))" "i < int (length (saved cfg))" "i < int (length (endnames cfg))" "0 \<le> i" "i < int (length names)"
    using i ok n(1) by (auto simp: inRange_def wellKept_def shapeOk_def)
  let ?c = "cfg\<lparr>endnames := (endnames cfg)[nat i := Some names]\<rparr>"
  obtain c1 ces where m: "makeEnds ?c 0 names = Some (c1, ces)" using makeEnds_returns[of names ?c 0] n by auto
  obtain rn where rn: "c1 = ?c\<lparr>cfgNet := rn\<rparr>" "\<forall>e. e \<notin> set names \<longrightarrow> ends rn e = ends (cfgNet cfg) e" and ces: "length ces = length names"
    using newEnds_effect[OF m] by auto
  obtain s where s: "svcStart svc (length names) i MakePersister = Some s" "sound (svcRaft svc s)"
    using start_afresh[OF idx(4,5)] by blast
  have "savedAt svc cfg i = Some None" using idx p by (simp add: savedAt_def go_index_def)
  then show ?thesis using m idx s rn(2) by (auto simp: StartServer_def go_set_def rn(1) ces AddServer_def)
qed

lemma start_all:
  assumes "wellKept cfg" "0 \<le> i" "nat i + length rows = cfgN cfg" "\<forall>row \<in> set rows. length row = cfgN cfg" "distinct (concat rows)"
    "\<forall>e \<in> set (concat rows). ends (cfgNet cfg) e = None" "\<forall>k. nat i \<le> k \<longrightarrow> k < cfgN cfg \<longrightarrow> saved cfg ! k = None"
    "\<forall>k < nat i. \<exists>s. kvservers cfg ! k = Some s \<and> sound (svcRaft svc s)"
  shows "\<exists>cfg'. startAll svc cfg i rows = Some cfg' \<and> (\<forall>k < cfgN cfg. \<exists>s. kvservers cfg' ! k = Some s \<and> sound (svcRaft svc s)) \<and>
    (\<forall>e. e \<notin> set (concat rows) \<longrightarrow> ends (cfgNet cfg') e = ends (cfgNet cfg) e)"
  using assms
proof (induction rows arbitrary: cfg i)
  case (Cons row rows)
  have i: "inRange cfg i" "nat i < length (kvservers cfg)" using Cons.prems(1-3) by (auto simp: inRange_def wellKept_def shapeOk_def)
  obtain c1 s where c1: "StartServer svc cfg i row (nat i) = Some c1" "kvservers c1 = (kvservers cfg)[nat i := Some s]" "sound (svcRaft svc s)"
    "\<forall>k. k \<noteq> nat i \<longrightarrow> saved c1 ! k = saved cfg ! k" "\<forall>e. e \<notin> set row \<longrightarrow> ends (cfgNet c1) e = ends (cfgNet cfg) e"
    using first_start[OF Cons.prems(1) i(1), of row "nat i"] Cons.prems i by auto
  have k: "wellKept c1" "cfgN c1 = cfgN cfg" using StartServer_keeps[OF Cons.prems(1) c1(1)] Cons.prems(4) by auto
  have "\<forall>e \<in> set (concat rows). ends (cfgNet c1) e = None" using Cons.prems(5,6) c1(5) by fastforce
  moreover have "\<exists>s. kvservers c1 ! m = Some s \<and> sound (svcRaft svc s)" if "m < nat (i + 1)" for m
    using that c1(2,3) Cons.prems(2,8) i(2) by (cases "m = nat i") (auto simp: nat_add_distrib)
  moreover have "\<forall>m. nat (i + 1) \<le> m \<longrightarrow> m < cfgN c1 \<longrightarrow> saved c1 ! m = None" using c1(4) Cons.prems(2,7) k(2) by (simp add: nat_add_distrib)
  ultimately obtain c2 where c2: "startAll svc c1 (i + 1) rows = Some c2"
    "\<forall>k < cfgN cfg. \<exists>s. kvservers c2 ! k = Some s \<and> sound (svcRaft svc s)"
    "\<forall>e. e \<notin> set (concat rows) \<longrightarrow> ends (cfgNet c2) e = ends (cfgNet c1) e"
    using Cons.IH[OF k(1), of "i + 1"] Cons.prems(2-5) k(2) by (auto simp: nat_add_distrib)
  then show ?case using c1(1,5) by simp
qed simp

lemma bring_up:
  assumes a: "allocated n cfg0" and names: "length names = n" "\<forall>row \<in> set names. length row = n" "distinct (concat names)"
  shows "\<exists>cfg. bringUp svc cfg0 names unreliable = Some cfg \<and> configured svc n cfg \<and>
    (\<forall>k < n. \<exists>s. kvservers cfg ! k = Some s \<and> sound (svcRaft svc s)) \<and> reliable (cfgNet cfg) = (\<not> unreliable) \<and>
    (\<forall>a b. inRange cfg a \<longrightarrow> inRange cfg b \<longrightarrow> isOn cfg (ServerEnd a) b) \<and>
    (\<forall>e. e \<notin> set (concat names) \<longrightarrow> ends (cfgNet cfg) e = None)"
proof -
  have n: "cfgN cfg0 = n" "saved cfg0 = replicate n None" "cfgNet cfg0 = MakeNetwork" using a by (auto simp: allocated_def)
  obtain c1 where c1: "startAll svc cfg0 0 names = Some c1" "\<forall>k < n. \<exists>s. kvservers c1 ! k = Some s \<and> sound (svcRaft svc s)"
    "\<forall>e. e \<notin> set (concat names) \<longrightarrow> ends (cfgNet c1) e = None"
    using start_all[OF allocated_ok[OF a], of 0 names] names n by (auto simp: MakeNetwork_def)
  have k: "wellKept c1 \<and> cfgN c1 = n \<and> allNamed c1" using startAll_wellKept[OF c1(1) allocated_ok[OF a]] names n by auto
  then obtain c2 where c2: "ConnectAll c1 = Some c2" "\<exists>f. c2 = switch c1 f" "\<forall>i j. inRange c1 i \<longrightarrow> inRange c1 j \<longrightarrow> isOn c2 (ServerEnd i) j"
    using ConnectAll_links[of c1] by (auto simp: ready_iff)
  have b: "bringUp svc cfg0 names unreliable = Some (setReliable c2 (\<not> unreliable))" using c1(1) c2(1) by (simp add: bringUp_def)
  moreover have "isOn (setReliable c2 r) h j = isOn c2 h j" for r h j
    by (cases h) (simp_all add: isOn_def setReliable_def endAt_def clerkEnd_def Reliable_def split: option.splits)
  moreover have "configured svc n (setReliable c2 (\<not> unreliable))" using configured.made[OF a names(1,2) b] .
  ultimately show ?thesis using c1(2,3) c2(2,3)
    by (auto simp: setReliable_def Reliable_def inRange_def)
qed

end

end
