(* ===== verification/KvConfig.thy ===== *)
theory KvConfig
  imports HarnessRun KvRaft
begin

text \<open>
  The test harness of \<^verbatim>\<open>src/kvraft/config.go\<close> on its own server: what it has in addition to the shared
  operations, and its theorems: a partition around the leader, a restart, and a new client.
\<close>

section \<open>The configuration\<close>

record kvConfig = "(KVServer, Command gobValue, snapValue) config" +
  cfgMaxraftstate :: int
  rpcs0 :: int
  ops :: "32 word"

definition kvService :: "int \<Rightarrow> (KVServer, Command, snapValue) service" where
  "kvService maxstate =
     \<lparr>svcRaft = rf, svcKill = KvRaft.Kill, svcStart = (\<lambda>n i p. StartKVServer n i p maxstate)\<rparr>"

definition emptyConfig :: "nat \<Rightarrow> int \<Rightarrow> kvConfig" where
  "emptyConfig n maxstate =
     \<lparr>cfgNet = MakeNetwork, cfgN = n, kvservers = replicate n None, saved = replicate n None, endnames = replicate n None,
      clerks = Map.empty, nextClientId = int n + 1000, cfgMaxraftstate = maxstate, rpcs0 = 0, ops = 0\<rparr>"

text \<open>\<open>names\<close> has a row of random names for each server.\<close>

definition make_config :: "string list list \<Rightarrow> bool \<Rightarrow> int \<Rightarrow> kvConfig option" where
  "make_config names unreliable maxstate =
     bringUp (kvService maxstate) (emptyConfig (length names) maxstate) names unreliable"

section \<open>Statistics\<close>

definition rpcTotal :: "kvConfig \<Rightarrow> int" where
  "rpcTotal cfg = GetTotalCount (cfgNet cfg)"

definition beginTest :: "kvConfig \<Rightarrow> kvConfig" where
  "beginTest cfg = cfg\<lparr>rpcs0 := rpcTotal cfg, ops := 0\<rparr>"

definition op :: "kvConfig \<Rightarrow> kvConfig" where
  "op cfg = cfg\<lparr>ops := ops cfg + 1\<rparr>"

text \<open>The numbers that \<^verbatim>\<open>end\<close> prints, besides the time; nothing after a failure.\<close>

definition endTest :: "kvConfig \<Rightarrow> bool \<Rightarrow> nat \<Rightarrow> (nat \<times> int \<times> int) option option" where
  "endTest cfg tFailed seconds = do {
     checkTimeout tFailed seconds;
     Some (if tFailed = False then Some (cfgN cfg, rpcTotal cfg - rpcs0 cfg, sint (ops cfg)) else None)
   }"

section \<open>The server meets the contract\<close>

lemma kvService_simps [simp]: "svcRaft (kvService m) = rf" "svcKill (kvService m) = KvRaft.Kill"
  by (simp_all add: kvService_def)

lemma kvService_start:
  assumes "Make n i p = Some peer"
  shows "\<exists>s. svcStart (kvService m) n i p = Some s \<and> rf s = peer"
  using assms by (simp add: kvService_def StartKVServer_def)

interpretation kv: raft_service "kvService m"
proof (unfold_locales)
  fix s :: KVServer and i n assume s: "sound (svcRaft (kvService m) s)" and i: "0 \<le> i" "i < int n"
  then show "\<exists>s'. svcStart (kvService m) n i (persister (svcRaft (kvService m) s)) = Some s' \<and> sound (svcRaft (kvService m) s') \<and>
       persister (svcRaft (kvService m) s') = persister (svcRaft (kvService m) s) \<and>
       CurrentTerm (svcRaft (kvService m) s') = CurrentTerm (svcRaft (kvService m) s) \<and>
       VotedFor (svcRaft (kvService m) s') = VotedFor (svcRaft (kvService m) s) \<and>
       Log (svcRaft (kvService m) s') = Log (svcRaft (kvService m) s)"
    using Make_again[of "rf s" i n] kvService_start by (auto, metis)
next
  fix i n assume i: "(0 :: int) \<le> i" "i < int n"
  then show "\<exists>s. svcStart (kvService m) n i MakePersister = Some s \<and> sound (svcRaft (kvService m) s)"
    using Make_afresh[OF i] kvService_start by (auto, metis)
qed

abbreviation kvConfigured :: "nat \<Rightarrow> int \<Rightarrow> kvConfig \<Rightarrow> bool" where
  "kvConfigured n maxstate \<equiv> configured (kvService maxstate) n"

lemma emptyConfig_allocated: "allocated n (emptyConfig n m)"
  by (simp add: allocated_def emptyConfig_def)

section \<open>Bringing the servers up\<close>

lemma make_config_brings_up:
  assumes "length names = n" "\<forall>row \<in> set names. length row = n" "distinct (concat names)"
  obtains cfg where "make_config names unreliable m = Some cfg" "kvConfigured n m cfg"
    "\<forall>k < n. \<exists>s. kvservers cfg ! k = Some s \<and> sound (rf s)" "reliable (cfgNet cfg) = (\<not> unreliable)"
    "\<forall>a b. inRange cfg a \<longrightarrow> inRange cfg b \<longrightarrow> isOn cfg (ServerEnd a) b" "\<forall>e. e \<notin> set (concat names) \<longrightarrow> ends (cfgNet cfg) e = None"
  using kv.bring_up[OF emptyConfig_allocated[of n m] assms, of m unreliable] that assms(1)
  unfolding make_config_def by auto

text \<open>The names of a test of three servers.\<close>

definition demoNames :: "string list list" where
  "demoNames = [[''00'', ''01'', ''02''], [''10'', ''11'', ''12''], [''20'', ''21'', ''22'']]"

lemma demo_config:
  obtains cfg where "make_config demoNames False 1000 = Some cfg" "kvConfigured 3 1000 cfg"
    "\<forall>k < 3. \<exists>s. kvservers cfg ! k = Some s \<and> sound (rf s)" "reliable (cfgNet cfg)"
    "\<forall>e \<in> {''30'', ''31'', ''32''}. ends (cfgNet cfg) e = None"
  by (rule make_config_brings_up[of demoNames 3 False 1000]) (simp_all add: demoNames_def)

lemma make_config_clerks:
  assumes "make_config names unreliable m = Some cfg"
  shows "clerks cfg = Map.empty"
proof -
  have "clerks c' = clerks c" if "startAll svc c i rows = Some c'" for svc c c' i rows
    using that by (induction rows arbitrary: c i) (auto simp: bind_eq_Some_conv dest!: StartServer_parts)
  then show ?thesis using assms
    by (fastforce simp: make_config_def bringUp_def bind_eq_Some_conv setReliable_def emptyConfig_def dest: ConnectAll_switch)
qed

section \<open>A partition around the leader\<close>

text \<open>C26. With an odd number of servers, at least three and all of them running, \<^verbatim>\<open>make_partition\<close> and \<^verbatim>\<open>partition\<close>
  divide the servers into two sides: everyone is on one side, the leader found, if there is
  one, is on the smaller, and on a reliable network a request from one server to another arrives exactly when both are
  on the same side.  The clients' connections stay as they were.\<close>

theorem partition_around_leader:
  assumes cfg: "kvConfigured n m cfg" and n: "odd n" "3 \<le> n" and up: "\<forall>i < n. kvservers cfg ! i \<noteq> None" and rel: "reliable (cfgNet cfg)"
  shows "\<exists>found l p1 p2 cfg'. Leader (kvService m) cfg = Some (found, l) \<and>
    (found \<longrightarrow> (\<exists>kv. kvservers cfg ! nat l = Some kv \<and> state (rf kv) = LEADER)) \<and>
    (\<not> found \<longrightarrow> (\<forall>i kv. i < n \<longrightarrow> kvservers cfg ! i = Some kv \<longrightarrow> state (rf kv) \<noteq> LEADER)) \<and>
    make_partition (kvService m) cfg = Some (p1, p2) \<and> partition cfg p1 p2 = Some cfg' \<and>
    mset (p1 @ p2) = mset (map int [0..<n]) \<and> length p2 < length p1 \<and> l \<in> set p2 \<and>
    (\<forall>i \<in> set (p1 @ p2). \<forall>j \<in> set (p1 @ p2). \<forall>req dice. endAt cfg i j = Some (endname req) \<longrightarrow>
       ((\<exists>p. reaches (cfgNet cfg') req dice = Some (j, p)) \<longleftrightarrow> (i \<in> set p1 \<longleftrightarrow> j \<in> set p1))) \<and>
    (\<forall>ck j. isOn cfg' (ClerkEnd ck) j = isOn cfg (ClerkEnd ck) j)"
proof -
  have ok: "wellKept cfg" "cfgN cfg = n" "allNamed cfg" using harness_wellKept[OF cfg] by auto
  have "0 < n" using n(2) by simp
  obtain found l where l: "Leader (kvService m) cfg = Some (found, l)" "inRange cfg l"
    "found \<longrightarrow> (\<exists>kv. kvservers cfg ! nat l = Some kv \<and> state (rf kv) = LEADER)"
    "\<not> found \<longrightarrow> (\<forall>i kv. i < n \<longrightarrow> kvservers cfg ! i = Some kv \<longrightarrow> state (rf kv) \<noteq> LEADER)"
    using leader_found[OF ok(1), of "kvService m", unfolded ok(2) kvService_simps, OF up] \<open>0 < n\<close> by blast
  have mp: "make_partition (kvService m) cfg = splitAround n l" using l(1) ok(2) by (simp add: make_partition_def)
  have all: "map int [0..<n] = All cfg" by (simp only: All_def ok(2))
  obtain p1 p2 c where p: "splitAround n l = Some (p1, p2)" "partition cfg p1 p2 = Some c" "mset (p1 @ p2) = mset (All cfg)"
    "length p2 < length p1" "l \<in> set p2"
    "\<forall>i \<in> set (p1 @ p2). \<forall>j \<in> set (p1 @ p2). \<forall>req dice. endAt cfg i j = Some (endname req) \<longrightarrow>
       ((\<exists>p. reaches (cfgNet c) req dice = Some (j, p)) \<longleftrightarrow> (i \<in> set p1 \<longleftrightarrow> j \<in> set p1))"
    "\<forall>ck j. isOn c (ClerkEnd ck) j = isOn cfg (ClerkEnd ck) j"
    using sides_apart[OF ok(1,3) _ _ l(2) _ rel, unfolded ok(2), OF n up] by (elim exE conjE) rule
  show ?thesis unfolding mp all by (intro exI conjI) (fact l(1) l(3) l(4) p)+
qed

theorem partition_around_leader_witness:
  "\<exists>cfg p1 p2 cfg'. make_config demoNames False 1000 = Some cfg \<and> make_partition (kvService 1000) cfg = Some (p1, p2) \<and>
     partition cfg p1 p2 = Some cfg' \<and> mset (p1 @ p2) = {#0, 1, 2#}"
proof -
  obtain cfg where c: "make_config demoNames False 1000 = Some cfg" "kvConfigured 3 1000 cfg"
    "\<forall>k < 3. \<exists>s. kvservers cfg ! k = Some s \<and> sound (rf s)" "reliable (cfgNet cfg)" by (rule demo_config)
  have "\<forall>i < 3. kvservers cfg ! i \<noteq> None" using c(3) by auto
  then obtain p1 p2 cfg' where "make_partition (kvService 1000) cfg = Some (p1, p2)" "partition cfg p1 p2 = Some cfg'"
    "mset (p1 @ p2) = mset (map int [0..<3])"
    using partition_around_leader[OF c(2) _ _ _ c(4)] by auto
  then show ?thesis using c(1) by (auto simp: upt_rec add_mset_commute intro!: exI)
qed

section \<open>Restarts\<close>

text \<open>C25. Shutting a running server down and starting it again, with fresh names for its ends, always succeeds when its
  Raft peer is in good order: while it is down no request of anyone reaches it; the new server has the persister of the
  old one, and its peer the same term, vote and log; after \<^verbatim>\<open>ConnectAll\<close> every server can call every other, and the
  clients' ends and the other servers are as before.\<close>

theorem restart_keeps_state:
  assumes cfg: "kvConfigured n m cfg" and i: "0 \<le> i" "i < int n" and s: "kvservers cfg ! nat i = Some s" "sound (rf s)"
    and names: "length names = n" "distinct names" "\<forall>e \<in> set names. ends (cfgNet cfg) e = None"
  shows "\<exists>cfg1 cfg2 cfg3 s'. ShutdownServer (kvService m) cfg i = Some (cfg1, Some (KvRaft.Kill s)) \<and>
    (\<forall>req dice p. reaches (cfgNet cfg1) req dice \<noteq> Some (i, p)) \<and>
    StartServer (kvService m) cfg1 i names srv = Some cfg2 \<and> ConnectAll cfg2 = Some cfg3 \<and>
    kvservers cfg3 = (kvservers cfg)[nat i := Some s'] \<and> sound (rf s') \<and>
    persister (rf s') = persister (rf s) \<and> CurrentTerm (rf s') = CurrentTerm (rf s) \<and>
    VotedFor (rf s') = VotedFor (rf s) \<and> Log (rf s') = Log (rf s) \<and>
    (\<forall>a b. inRange cfg a \<longrightarrow> inRange cfg b \<longrightarrow> isOn cfg3 (ServerEnd a) b) \<and>
    (\<forall>ck j. isOn cfg3 (ClerkEnd ck) j = isOn cfg (ClerkEnd ck) j)"
proof -
  have ok: "wellKept cfg" "cfgN cfg = n" "allNamed cfg" using harness_wellKept[OF cfg] by auto
  have "inRange cfg i" using i ok(2) by (simp add: inRange_def)
  from kv.restart[where m = m, OF ok(1,3) this s(1), unfolded kvService_simps, OF s(2), of names srv] names ok(2)
  show ?thesis by simp
qed

theorem restart_keeps_state_witness:
  "\<exists>cfg s cfg1 cfg2 cfg3 s'. make_config demoNames False 1000 = Some cfg \<and> kvservers cfg ! 1 = Some s \<and>
     ShutdownServer (kvService 1000) cfg 1 = Some (cfg1, Some (KvRaft.Kill s)) \<and>
     StartServer (kvService 1000) cfg1 1 [''30'', ''31'', ''32''] 7 = Some cfg2 \<and>
     ConnectAll cfg2 = Some cfg3 \<and> kvservers cfg3 = (kvservers cfg)[1 := Some s'] \<and> persister (rf s') = persister (rf s)"
proof -
  obtain cfg where c: "make_config demoNames False 1000 = Some cfg" "kvConfigured 3 1000 cfg"
    "\<forall>k < 3. \<exists>s. kvservers cfg ! k = Some s \<and> sound (rf s)" "\<forall>e \<in> {''30'', ''31'', ''32''}. ends (cfgNet cfg) e = None"
    by (rule demo_config)
  obtain s where s: "kvservers cfg ! nat 1 = Some s" "sound (rf s)" using c(3)[rule_format, of "nat 1"] by auto
  then obtain cfg1 cfg2 cfg3 s' where
    "ShutdownServer (kvService 1000) cfg 1 = Some (cfg1, Some (KvRaft.Kill s))"
    "StartServer (kvService 1000) cfg1 1 [''30'', ''31'', ''32''] 7 = Some cfg2" "ConnectAll cfg2 = Some cfg3"
    "kvservers cfg3 = (kvservers cfg)[1 := Some s']" "persister (rf s') = persister (rf s)"
    using restart_keeps_state[OF c(2) _ _ s, of "[''30'', ''31'', ''32'']" 7] c(4) by auto
  then show ?thesis using c(1) s(1) by (auto intro!: exI)
qed

section \<open>Clients\<close>

text \<open>A new client, with fresh names for its ends, gets one end to each server, in some order; its requests, on a reliable
  network and to a running server, arrive exactly at the servers it was made for, and no other connection changes.\<close>

lemma new_client_connected:
  assumes cfg: "kvConfigured n m cfg" and new: "clerks cfg ck = None" and rel: "reliable (cfgNet cfg)"
    and names: "length names = n" "distinct names" "\<forall>e \<in> set names. ends (cfgNet cfg) e = None"
    and to: "\<forall>t \<in> set to. 0 \<le> t \<and> t < int n"
  shows "\<exists>cfg' hs. makeClient (\<lambda>hs. (hs, MakeClerk (length hs) bits)) rolls cfg ck names to = Some (cfg', hs, MakeClerk n bits) \<and>
    mset (map (\<lambda>h. connections (cfgNet cfg') (ceName h)) hs) = mset (map (\<lambda>j. Some (int j)) [0..<n]) \<and>
    (\<forall>h \<in> set hs. \<forall>req dice j. endname req = ceName h \<longrightarrow> connections (cfgNet cfg') (ceName h) = Some j \<longrightarrow> kvservers cfg ! nat j \<noteq> None \<longrightarrow>
       ((\<exists>p. reaches (cfgNet cfg') req dice = Some (j, p)) \<longleftrightarrow> j \<in> set to)) \<and>
    (\<forall>h j. h \<noteq> ClerkEnd ck \<longrightarrow> isOn cfg' h j = isOn cfg h j)"
proof -
  have ok: "wellKept cfg" "cfgN cfg = n" using harness_wellKept[OF cfg] by auto
  obtain c hs where c: "makeClient (\<lambda>hs. (hs, MakeClerk (length hs) bits)) rolls cfg ck names to = Some (c, hs, MakeClerk (length hs) bits)"
    "mset hs = mset (map (\<lambda>e. \<lparr>ceName = e\<rparr>) names)" "wellKept c" "clerks c = (clerks cfg)(ck \<mapsto> names)" "kvservers c = kvservers cfg"
    "\<forall>j. isOn c (ClerkEnd ck) j \<longleftrightarrow> j \<in> set to" "\<forall>h j. h \<noteq> ClerkEnd ck \<longrightarrow> isOn c h j = isOn cfg h j" "cfgN c = n"
    using makeClient_connects[OF ok(1) new, of names to "\<lambda>hs. (hs, MakeClerk (length hs) bits)" rolls] names to ok(2) by (auto simp: inRange_def)
  have len: "length hs = n" using c(2) names(1) by (metis length_map size_mset)
  have nf: "nameFrom c (ClerkEnd ck) (int j) = Some (names ! j)" if "j < n" for j
    using that names(1) c(4) by (simp add: clerkEnd_def go_index_def)
  have lead: "connections (cfgNet c) (names ! j) = Some (int j)" if "j < n" for j
    using c(3) nf[OF that] unfolding wellKept_def namesOk_def by blast
  have "mset (map (\<lambda>h. connections (cfgNet c) (ceName h)) hs) = mset (map (connections (cfgNet c)) names)"
    using c(2) by (metis (no_types, lifting) mset_map image_mset.compositionality multiset.map_cong0 ClientEnd.select_convs(1) comp_apply map_map)
  also have "map (connections (cfgNet c)) names = map (\<lambda>j. Some (int j)) [0..<n]"
    by (rule nth_equalityI) (use lead names(1) in auto)
  finally have m: "mset (map (\<lambda>h. connections (cfgNet c) (ceName h)) hs) = mset (map (\<lambda>j. Some (int j)) [0..<n])" .
  have rel': "reliable (cfgNet c)" using makeClient_reliable[OF c(1)] rel by simp
  have "(\<exists>p. reaches (cfgNet c) req dice = Some (j, p)) \<longleftrightarrow> j \<in> set to"
    if h: "h \<in> set hs" "endname req = ceName h" "connections (cfgNet c) (ceName h) = Some j" "kvservers cfg ! nat j \<noteq> None" for h req dice j
  proof -
    have "h \<in> set (map (\<lambda>e. \<lparr>ceName = e\<rparr>) names)" using h(1) c(2) mset_eq_setD by metis
    then obtain k where k: "k < n" "ceName h = names ! k" using names(1) by (auto simp: in_set_conv_nth)
    then have "j = int k" using lead h(3) by simp
    then show ?thesis using reaches_running[OF c(3), of j "ClerkEnd ck" req dice] k nf h(2,4) c(5,6,8) rel' by (simp add: inRange_def)
  qed
  then show ?thesis using c(1,7) m len by blast
qed

end
