(* ===== verification/ShardCtrl.thy ===== *)
theory ShardCtrl
  imports RaftNode
begin

text \<open>
  The shard controller of \<^verbatim>\<open>src/shardctrler\<close>: configurations and messages (\<^verbatim>\<open>common.go\<close>), the server,
  whose handlers are still the empty bodies of the lab's skeleton (\<^verbatim>\<open>server.go\<close>), and the clerk
  (\<^verbatim>\<open>client.go\<close>).

  A clerk calls through the network: \<open>call w srv args\<close> gives the world after the call, which holds
  all servers, other clients and the network's choices, and the reply, \<^term>\<open>None\<close> when
  \<^verbatim>\<open>Call\<close> returns false; \<open>sleep w\<close> is the world 100 milliseconds later.  The clerk's
  loop has no exit but a good reply, so it is a partial function: \<^term>\<open>None\<close> is the loop that
  never ends.
\<close>

section \<open>Configurations and messages\<close>

definition NShards :: nat where
  "NShards = 10"

record Config =
  Num :: int
  Shards :: "int list"
  Groups :: "int \<rightharpoonup> string list"

text \<open>The zero value of the struct: the array holds \<^const>\<open>NShards\<close> zeros, the nil map reads as empty.\<close>

definition zeroConfig :: Config where
  "zeroConfig = \<lparr>Num = 0, Shards = replicate NShards 0, Groups = Map.empty\<rparr>"

definition OK :: string where
  "OK = ''OK''"

record JoinArgs =
  jaServers :: "int \<rightharpoonup> string list"

record JoinReply =
  jrWrongLeader :: bool
  jrErr :: string

record LeaveArgs =
  laGIDs :: "int list"

record LeaveReply =
  lrWrongLeader :: bool
  lrErr :: string

record MoveArgs =
  maShard :: int
  maGID :: int

record MoveReply =
  mrWrongLeader :: bool
  mrErr :: string

record QueryArgs =
  qaNum :: int

record QueryReply =
  qrWrongLeader :: bool
  qrErr :: string
  qrConfig :: Config

section \<open>The server\<close>

record ('c, 'b) ShardCtrler =
  scMe :: int
  scRf :: "('c, 'b) Raft"
  configs :: "Config list"

text \<open>A handler gets the reply as \<^verbatim>\<open>labrpc\<close> allocates it, with zero fields, and fills it in.\<close>

definition Join :: "('c, 'b) ShardCtrler \<Rightarrow> JoinArgs \<Rightarrow> JoinReply \<Rightarrow> ('c, 'b) ShardCtrler \<times> JoinReply" where
  "Join sc args reply = (sc, reply)"

definition Leave :: "('c, 'b) ShardCtrler \<Rightarrow> LeaveArgs \<Rightarrow> LeaveReply \<Rightarrow> ('c, 'b) ShardCtrler \<times> LeaveReply" where
  "Leave sc args reply = (sc, reply)"

definition Move :: "('c, 'b) ShardCtrler \<Rightarrow> MoveArgs \<Rightarrow> MoveReply \<Rightarrow> ('c, 'b) ShardCtrler \<times> MoveReply" where
  "Move sc args reply = (sc, reply)"

definition Query :: "('c, 'b) ShardCtrler \<Rightarrow> QueryArgs \<Rightarrow> QueryReply \<Rightarrow> ('c, 'b) ShardCtrler \<times> QueryReply" where
  "Query sc args reply = (sc, reply)"

definition zeroQueryReply :: QueryReply where
  "zeroQueryReply = \<lparr>qrWrongLeader = False, qrErr = [], qrConfig = zeroConfig\<rparr>"

definition Kill :: "('c, 'b) ShardCtrler \<Rightarrow> ('c, 'b) ShardCtrler" where
  "Kill sc = sc\<lparr>scRf := RaftNode.Kill (scRf sc)\<rparr>"

definition RaftOf :: "('c, 'b) ShardCtrler \<Rightarrow> ('c, 'b) Raft" where
  "RaftOf sc = scRf sc"

definition StartServer ::
  "nat \<Rightarrow> int \<Rightarrow> ('c gobValue, 'b) Persister \<Rightarrow> ('c, 'b) ShardCtrler option" where
  "StartServer servers my ps = do {
     peer \<leftarrow> Make servers my ps;
     Some \<lparr>scMe = my, scRf = peer, configs = [zeroConfig\<lparr>Groups := Map.empty\<rparr>]\<rparr>
   }"

section \<open>The clerk\<close>

record 'e Clerk =
  servers :: "'e list"

text \<open>\<^verbatim>\<open>nrand\<close>: \<^verbatim>\<open>rand.Int\<close> draws below \<open>2 ^ 62\<close>; \<open>bits\<close> is what the random source delivers.\<close>

definition nrand :: "nat \<Rightarrow> int" where
  "nrand bits = int (bits mod 2 ^ 62)"

definition MakeClerk :: "'e list \<Rightarrow> 'e Clerk" where
  "MakeClerk ends = \<lparr>servers = ends\<rparr>"

text \<open>The inner loop of every request: each known server once, until one gives a good reply.\<close>

fun tryEach :: "('w \<Rightarrow> 'e \<Rightarrow> 'w \<times> 'r option) \<Rightarrow> ('r \<Rightarrow> bool) \<Rightarrow> 'e list \<Rightarrow> 'w \<Rightarrow> 'w \<times> 'r option" where
  "tryEach call good [] w = (w, None)"
| "tryEach call good (srv # srvs) w =
     (case call w srv of
        (w', Some reply) \<Rightarrow> if good reply then (w', Some reply) else tryEach call good srvs w'
      | (w', None) \<Rightarrow> tryEach call good srvs w')"

partial_function (option) askAll ::
  "('w \<Rightarrow> 'e \<Rightarrow> 'w \<times> 'r option) \<Rightarrow> ('r \<Rightarrow> bool) \<Rightarrow> ('w \<Rightarrow> 'w) \<Rightarrow> 'e list \<Rightarrow> 'w \<Rightarrow> ('w \<times> 'r) option" where
  "askAll call good sleep srvs w =
     (case tryEach call good srvs w of
        (w', Some reply) \<Rightarrow> Some (w', reply)
      | (w', None) \<Rightarrow> askAll call good sleep srvs (sleep w'))"

definition ClerkQuery ::
  "('w \<Rightarrow> 'e \<Rightarrow> QueryArgs \<Rightarrow> 'w \<times> QueryReply option) \<Rightarrow> ('w \<Rightarrow> 'w) \<Rightarrow> 'e Clerk \<Rightarrow> int \<Rightarrow> 'w \<Rightarrow>
   ('w \<times> Config) option" where
  "ClerkQuery call sleep ck num w = do {
     (w', reply) \<leftarrow> askAll (\<lambda>w srv. call w srv \<lparr>qaNum = num\<rparr>) (\<lambda>r. \<not> qrWrongLeader r) sleep (servers ck) w;
     Some (w', qrConfig reply)
   }"

definition ClerkJoin ::
  "('w \<Rightarrow> 'e \<Rightarrow> JoinArgs \<Rightarrow> 'w \<times> JoinReply option) \<Rightarrow> ('w \<Rightarrow> 'w) \<Rightarrow> 'e Clerk \<Rightarrow> (int \<rightharpoonup> string list) \<Rightarrow> 'w \<Rightarrow>
   'w option" where
  "ClerkJoin call sleep ck groups w = map_option fst
     (askAll (\<lambda>w srv. call w srv \<lparr>jaServers = groups\<rparr>) (\<lambda>r. \<not> jrWrongLeader r) sleep (servers ck) w)"

definition ClerkLeave ::
  "('w \<Rightarrow> 'e \<Rightarrow> LeaveArgs \<Rightarrow> 'w \<times> LeaveReply option) \<Rightarrow> ('w \<Rightarrow> 'w) \<Rightarrow> 'e Clerk \<Rightarrow> int list \<Rightarrow> 'w \<Rightarrow>
   'w option" where
  "ClerkLeave call sleep ck gids w = map_option fst
     (askAll (\<lambda>w srv. call w srv \<lparr>laGIDs = gids\<rparr>) (\<lambda>r. \<not> lrWrongLeader r) sleep (servers ck) w)"

definition ClerkMove ::
  "('w \<Rightarrow> 'e \<Rightarrow> MoveArgs \<Rightarrow> 'w \<times> MoveReply option) \<Rightarrow> ('w \<Rightarrow> 'w) \<Rightarrow> 'e Clerk \<Rightarrow> int \<Rightarrow> int \<Rightarrow> 'w \<Rightarrow>
   'w option" where
  "ClerkMove call sleep ck shard gid w = map_option fst
     (askAll (\<lambda>w srv. call w srv \<lparr>maShard = shard, maGID = gid\<rparr>) (\<lambda>r. \<not> mrWrongLeader r) sleep (servers ck) w)"

section \<open>What the loops promise\<close>

text \<open>A reply the loop returns was given by one of the servers and is good.\<close>

lemma tryEach_good:
  "tryEach call good srvs w = (w', Some r) \<Longrightarrow> good r \<and> (\<exists>srv \<in> set srvs. \<exists>w1. call w1 srv = (w', Some r))"
  by (induction call good srvs w rule: tryEach.induct) (auto split: prod.splits option.splits if_splits)

text \<open>A server that always gives a good reply ends the round.\<close>

lemma tryEach_answers:
  assumes "srv \<in> set srvs" "\<And>w. \<exists>w' r. call w srv = (w', Some r) \<and> good r"
  shows "\<exists>w' r. tryEach call good srvs w = (w', Some r)"
  using assms(1)
proof (induction srvs arbitrary: w)
  case (Cons s srvs)
  show ?case
  proof (cases "s = srv")
    case True
    with assms(2)[of w] show ?thesis by (auto split: prod.splits)
  next
    case False
    with Cons show ?thesis by (auto split: prod.splits option.splits)
  qed
qed simp

lemma askAll_good:
  assumes "askAll call good sleep srvs w = Some (w', r)"
  shows "good r \<and> (\<exists>srv \<in> set srvs. \<exists>w1. call w1 srv = (w', Some r))"
proof -
  let ?P = "\<lambda>call good (sleep :: 'a \<Rightarrow> 'a) srvs (w :: 'a) res.
    good (snd res) \<and> (\<exists>srv \<in> set srvs. \<exists>w1. call w1 srv = (fst res, Some (snd res)))"
  have "?P call good sleep srvs w (w', r)"
  proof (rule askAll.raw_induct[of ?P, OF _ assms], goal_cases)
    case (1 askAll call good sleep srvs w res)
    obtain w' rr where te: "tryEach call good srvs w = (w', rr)" by fastforce
    show ?case
    proof (cases rr)
      case None
      with 1(2) te have "askAll call good sleep srvs (sleep w') = Some res" by simp
      from 1(1)[OF this] show ?thesis .
    next
      case (Some r)
      then show ?thesis using 1(2) te by (auto dest: tryEach_good)
    qed
  qed
  then show ?thesis by simp
qed

lemma askAll_answers:
  assumes "srv \<in> set srvs" "\<And>w. \<exists>w' r. call w srv = (w', Some r) \<and> good r"
  shows "\<exists>w' r. askAll call good sleep srvs w = Some (w', r)"
  using tryEach_answers[of srv srvs call good w, OF assms] by (subst askAll.simps) auto

text \<open>No server, no answer: the clerk of an empty list of controllers waits forever.\<close>

lemma askAll_no_servers: "askAll call good sleep [] w = None"
proof (cases "askAll call good sleep [] w")
  case (Some res)
  with askAll_good[of call good sleep "[]" w "fst res" "snd res"] show ?thesis by simp
qed

end
