(* ===== verification/ShardCtrlConfig.thy ===== *)
theory ShardCtrlConfig
  imports HarnessRun ShardCtrl
begin

text \<open>
  The test harness of the shard controller (\<^verbatim>\<open>src/shardctrler/config.go\<close>): the operations of the theory
  \<open>Harness\<close> on the shard controller, and the search for the leader, which here passes over servers that are shut down.
\<close>

type_synonym ('c, 'b) ctrlConfig = "(('c, 'b) ShardCtrler, 'c gobValue, 'b) config"

definition ctrlService :: "(('c, 'b) ShardCtrler, 'c, 'b) service" where
  "ctrlService = \<lparr>svcRaft = scRf, svcKill = ShardCtrl.Kill, svcStart = ShardCtrl.StartServer\<rparr>"

definition ctrlLogSize :: "('c gobValue \<Rightarrow> nat) \<Rightarrow> ('c, 'b) ctrlConfig \<Rightarrow> int option" where
  "ctrlLogSize sz cfg = LogSize sz ctrlService cfg"

definition ctrlShutdownServer :: "('c, 'b) ctrlConfig \<Rightarrow> int \<Rightarrow> (('c, 'b) ctrlConfig \<times> ('c, 'b) ShardCtrler option) option" where
  "ctrlShutdownServer cfg i = ShutdownServer ctrlService cfg i"

definition ctrlStartServer :: "('c, 'b) ctrlConfig \<Rightarrow> int \<Rightarrow> string list \<Rightarrow> nat \<Rightarrow> ('c, 'b) ctrlConfig option" where
  "ctrlStartServer cfg i names srv = Harness.StartServer ctrlService cfg i names srv"

fun ctrlLeaderFrom :: "('c, 'b) ctrlConfig \<Rightarrow> int list \<Rightarrow> (bool \<times> int) option" where
  "ctrlLeaderFrom cfg [] = Some (False, 0)"
| "ctrlLeaderFrom cfg (i # is) = do {
     sc \<leftarrow> go_index (kvservers cfg) i;
     (case sc of
        None \<Rightarrow> ctrlLeaderFrom cfg is
      | Some sc \<Rightarrow> if snd (GetState (scRf sc)) then Some (True, i) else ctrlLeaderFrom cfg is)
   }"

definition ctrlLeader :: "('c, 'b) ctrlConfig \<Rightarrow> (bool \<times> int) option" where
  "ctrlLeader cfg = ctrlLeaderFrom cfg (All cfg)"

definition ctrl_make_partition :: "('c, 'b) ctrlConfig \<Rightarrow> (int list \<times> int list) option" where
  "ctrl_make_partition cfg = do { (_, l) \<leftarrow> ctrlLeader cfg; splitAround (cfgN cfg) l }"

definition ctrlEmptyConfig :: "nat \<Rightarrow> ('c, 'b) ctrlConfig" where
  "ctrlEmptyConfig n =
     \<lparr>cfgNet = MakeNetwork, cfgN = n, kvservers = replicate n None, saved = replicate n None, endnames = replicate n None,
      clerks = Map.empty, nextClientId = int n + 1000\<rparr>"

definition ctrl_make_config :: "string list list \<Rightarrow> bool \<Rightarrow> ('c, 'b) ctrlConfig option" where
  "ctrl_make_config names unreliable = bringUp ctrlService (ctrlEmptyConfig (length names)) names unreliable"

definition ctrl_cleanup :: "('c, 'b) ctrlConfig \<Rightarrow> bool \<Rightarrow> nat \<Rightarrow> ('c, 'b) ctrlConfig option" where
  "ctrl_cleanup cfg tFailed seconds = cleanup ctrlService cfg tFailed seconds"

text \<open>The connections and clients: the same code as in the other harness, on the servers of the controller.\<close>

definition ctrlConnectUnlocked :: "('c, 'b) ctrlConfig \<Rightarrow> int \<Rightarrow> int list \<Rightarrow> ('c, 'b) ctrlConfig option" where
  "ctrlConnectUnlocked cfg i to = connectUnlocked cfg i to"

definition ctrlConnect :: "('c, 'b) ctrlConfig \<Rightarrow> int \<Rightarrow> int list \<Rightarrow> ('c, 'b) ctrlConfig option" where
  "ctrlConnect cfg i to = ctrlConnectUnlocked cfg i to"

definition ctrlDisconnectUnlocked :: "('c, 'b) ctrlConfig \<Rightarrow> int \<Rightarrow> int list \<Rightarrow> ('c, 'b) ctrlConfig option" where
  "ctrlDisconnectUnlocked cfg i from = disconnectUnlocked cfg i from"

definition ctrlDisconnect :: "('c, 'b) ctrlConfig \<Rightarrow> int \<Rightarrow> int list \<Rightarrow> ('c, 'b) ctrlConfig option" where
  "ctrlDisconnect cfg i from = ctrlDisconnectUnlocked cfg i from"

definition ctrlAll :: "('c, 'b) ctrlConfig \<Rightarrow> int list" where
  "ctrlAll cfg = map int [0..<cfgN cfg]"

definition ctrlConnectAll :: "('c, 'b) ctrlConfig \<Rightarrow> ('c, 'b) ctrlConfig option" where
  "ctrlConnectAll cfg = eachServer (\<lambda>cfg i. ctrlConnectUnlocked cfg i (ctrlAll cfg)) cfg (ctrlAll cfg)"

definition ctrlPartition :: "('c, 'b) ctrlConfig \<Rightarrow> int list \<Rightarrow> int list \<Rightarrow> ('c, 'b) ctrlConfig option" where
  "ctrlPartition cfg p1 p2 = do {
     cfg \<leftarrow> eachServer (\<lambda>cfg i. do { cfg \<leftarrow> ctrlDisconnectUnlocked cfg i p2; ctrlConnectUnlocked cfg i p1 }) cfg p1;
     eachServer (\<lambda>cfg i. do { cfg \<leftarrow> ctrlDisconnectUnlocked cfg i p1; ctrlConnectUnlocked cfg i p2 }) cfg p2
   }"

definition ctrlConnectClientUnlocked :: "('c, 'b) ctrlConfig \<Rightarrow> nat \<Rightarrow> int list \<Rightarrow> ('c, 'b) ctrlConfig option" where
  "ctrlConnectClientUnlocked cfg ck to = eachEnd (\<lambda>cfg t. map_option Some (clerkEnd cfg ck t)) True cfg to"

definition ctrlConnectClient :: "('c, 'b) ctrlConfig \<Rightarrow> nat \<Rightarrow> int list \<Rightarrow> ('c, 'b) ctrlConfig option" where
  "ctrlConnectClient cfg ck to = ctrlConnectClientUnlocked cfg ck to"

definition ctrlDisconnectClientUnlocked :: "('c, 'b) ctrlConfig \<Rightarrow> nat \<Rightarrow> int list \<Rightarrow> ('c, 'b) ctrlConfig option" where
  "ctrlDisconnectClientUnlocked cfg ck from = eachEnd (\<lambda>cfg t. map_option Some (clerkEnd cfg ck t)) False cfg from"

definition ctrlDisconnectClient :: "('c, 'b) ctrlConfig \<Rightarrow> nat \<Rightarrow> int list \<Rightarrow> ('c, 'b) ctrlConfig option" where
  "ctrlDisconnectClient cfg ck from = ctrlDisconnectClientUnlocked cfg ck from"

definition ctrlMakeClient ::
  "(nat \<Rightarrow> nat) \<Rightarrow> ('c, 'b) ctrlConfig \<Rightarrow> nat \<Rightarrow> string list \<Rightarrow> int list \<Rightarrow> (('c, 'b) ctrlConfig \<times> string ClientEnd ShardCtrl.Clerk) option" where
  "ctrlMakeClient rolls cfg ck names to = do {
     (cfg, ces) \<leftarrow> makeEnds cfg 0 names;
     let clerk = ShardCtrl.MakeClerk (random_handles rolls ces);
     let cfg = cfg\<lparr>clerks := (clerks cfg)(ck \<mapsto> names), nextClientId := nextClientId cfg + 1\<rparr>;
     cfg \<leftarrow> ctrlConnectClientUnlocked cfg ck to;
     Some (cfg, clerk)
   }"

definition ctrlDeleteClient :: "('c, 'b) ctrlConfig \<Rightarrow> nat \<Rightarrow> ('c, 'b) ctrlConfig" where
  "ctrlDeleteClient cfg ck = cfg\<lparr>clerks := (clerks cfg)(ck := None)\<rparr>"

definition ctrlCheckTimeout :: "bool \<Rightarrow> nat \<Rightarrow> unit option" where
  "ctrlCheckTimeout tFailed seconds = (if \<not> tFailed \<and> seconds > 120 then None else Some ())"

text \<open>So what is shown of the operations of the theory \<open>Harness\<close> holds of these.\<close>

lemma ctrl_shared:
  "ctrlAll cfg = All cfg" "ctrlConnectAll cfg = ConnectAll cfg" "ctrlPartition cfg p1 p2 = partition cfg p1 p2"
  "ctrlConnectClientUnlocked cfg ck to = ConnectClientUnlocked cfg ck to"
  "ctrlDisconnectClientUnlocked cfg ck to = DisconnectClientUnlocked cfg ck to"
  "ctrlMakeClient rolls cfg ck names to = makeClient ShardCtrl.MakeClerk rolls cfg ck names to"
  "ctrlDeleteClient cfg ck = deleteClient cfg ck" "ctrlCheckTimeout tFailed seconds = checkTimeout tFailed seconds"
proof -
  have sides: "takeSide here there = (\<lambda>cfg i. do { cfg \<leftarrow> ctrlDisconnectUnlocked cfg i there; ctrlConnectUnlocked cfg i here })" for here there
    by (simp add: fun_eq_iff takeSide_def ctrlDisconnectUnlocked_def ctrlConnectUnlocked_def)
  show all: "ctrlAll cfg = All cfg" for cfg :: "('c, 'b) ctrlConfig" by (simp add: ctrlAll_def All_def)
  show "ctrlConnectAll cfg = ConnectAll cfg" by (simp add: ctrlConnectAll_def ConnectAll_def ctrlConnectUnlocked_def all)
  show "ctrlPartition cfg p1 p2 = partition cfg p1 p2" by (simp add: ctrlPartition_def partition_def sides)
  show "ctrlConnectClientUnlocked cfg ck to = ConnectClientUnlocked cfg ck to"
    by (simp add: ctrlConnectClientUnlocked_def ConnectClientUnlocked_def)
  show "ctrlDisconnectClientUnlocked cfg ck to = DisconnectClientUnlocked cfg ck to"
    by (simp add: ctrlDisconnectClientUnlocked_def DisconnectClientUnlocked_def)
  show "ctrlMakeClient rolls cfg ck names to = makeClient ShardCtrl.MakeClerk rolls cfg ck names to"
    by (simp add: ctrlMakeClient_def makeClient_def ctrlConnectClientUnlocked_def ConnectClientUnlocked_def)
  show "ctrlDeleteClient cfg ck = deleteClient cfg ck" by (simp add: ctrlDeleteClient_def deleteClient_def)
  show "ctrlCheckTimeout tFailed seconds = checkTimeout tFailed seconds" by (simp add: ctrlCheckTimeout_def checkTimeout_def)
qed

section \<open>The controller meets the contract\<close>

lemma ctrlService_simps [simp]: "svcRaft ctrlService = scRf" "svcKill ctrlService = ShardCtrl.Kill"
  by (simp_all add: ctrlService_def)

lemma ctrlService_start:
  assumes "Make n i p = Some peer"
  shows "\<exists>s. svcStart ctrlService n i p = Some s \<and> scRf s = peer"
  using assms by (simp add: ctrlService_def ShardCtrl.StartServer_def)

interpretation ctrl: raft_service "ctrlService :: (('c, 'b) ShardCtrler, 'c, 'b) service"
proof (unfold_locales)
  fix s :: "('c, 'b) ShardCtrler" and i n assume s: "sound (svcRaft ctrlService s)" and i: "0 \<le> i" "i < int n"
  then show "\<exists>s'. svcStart ctrlService n i (persister (svcRaft ctrlService s)) = Some s' \<and> sound (svcRaft ctrlService s') \<and>
       persister (svcRaft ctrlService s') = persister (svcRaft ctrlService s) \<and>
       CurrentTerm (svcRaft ctrlService s') = CurrentTerm (svcRaft ctrlService s) \<and>
       VotedFor (svcRaft ctrlService s') = VotedFor (svcRaft ctrlService s) \<and>
       Log (svcRaft ctrlService s') = Log (svcRaft ctrlService s)"
    using Make_again[of "scRf s" i n] ctrlService_start by (auto, metis)
next
  fix i n assume i: "(0 :: int) \<le> i" "i < int n"
  then show "\<exists>s. svcStart ctrlService n i MakePersister = Some s \<and> sound (svcRaft ctrlService s)"
    using Make_afresh[OF i] ctrlService_start by (auto, metis)
qed

text \<open>With all servers running the search finds what the other harness would find.\<close>

lemma ctrlLeaderFrom_running:
  "\<forall>i \<in> set is. \<exists>sc. go_index (kvservers cfg) i = Some (Some sc) \<Longrightarrow> ctrlLeaderFrom cfg is = leaderFrom ctrlService cfg is"
  by (induction "is") auto

text \<open>It never panics, whatever is running.\<close>

lemma ctrlLeaderFrom_returns:
  assumes "\<forall>i \<in> set is. inRange cfg i" "length (kvservers cfg) = cfgN cfg" "0 < cfgN cfg"
  shows "\<exists>found l. ctrlLeaderFrom cfg is = Some (found, l) \<and> inRange cfg l \<and>
    (found \<longrightarrow> (\<exists>sc. kvservers cfg ! nat l = Some sc \<and> state (scRf sc) = LEADER))"
  using assms(1)
proof (induction "is")
  case Nil
  then show ?case using assms(3) by (intro exI[of _ False] exI[of _ 0]) (simp add: inRange_def)
next
  case (Cons i "is")
  have "go_index (kvservers cfg) i = Some (kvservers cfg ! nat i)" using Cons.prems assms(2) by (simp add: go_index_def inRange_def)
  then show ?case using Cons by (auto simp: GetState_def split: option.splits)
qed

lemma ctrl_partition_around_leader:
  assumes cfg: "configured ctrlService n (cfg :: ('c, 'b) ctrlConfig)" and n: "odd n" "3 \<le> n"
  shows "\<exists>found l p1 p2 cfg'. ctrlLeader cfg = Some (found, l) \<and> ctrl_make_partition cfg = Some (p1, p2) \<and>
    (found \<longrightarrow> (\<exists>sc. kvservers cfg ! nat l = Some sc \<and> state (scRf sc) = LEADER)) \<and>
    ctrlPartition cfg p1 p2 = Some cfg' \<and> mset (p1 @ p2) = mset (All cfg) \<and> length p2 < length p1 \<and> l \<in> set p2 \<and>
    (\<forall>i j. inRange cfg i \<longrightarrow> inRange cfg j \<longrightarrow> isOn cfg' (ServerEnd i) j = (i \<in> set p1 \<longleftrightarrow> j \<in> set p1))"
proof -
  have ok: "wellKept cfg" "cfgN cfg = n" "allNamed cfg" using harness_wellKept[OF cfg] by auto
  have len: "length (kvservers cfg) = cfgN cfg" using ok(1) by (simp add: wellKept_def shapeOk_def)
  have pos: "0 < cfgN cfg" and n': "odd (cfgN cfg)" "3 \<le> cfgN cfg" using n ok(2) by auto
  have all: "\<forall>i \<in> set (All cfg). inRange cfg i" using All_inRange by blast
  from ctrlLeaderFrom_returns[OF all len pos]
  obtain found l where l: "ctrlLeader cfg = Some (found, l)" "inRange cfg l"
    "found \<longrightarrow> (\<exists>sc. kvservers cfg ! nat l = Some sc \<and> state (scRf sc) = LEADER)"
    unfolding ctrlLeader_def by blast
  have mp: "ctrl_make_partition cfg = splitAround (cfgN cfg) l" using l(1) by (simp add: ctrl_make_partition_def)
  show ?thesis unfolding mp ctrl_shared using leader_in_minority[OF ok(1,3) n' l(2)] l(1,3) by blast
qed

end
