(* ===== verification/ShardKv.thy ===== *)
theory ShardKv
  imports ShardCtrl
begin

text \<open>
  The sharded key/value service of \<^verbatim>\<open>src/shardkv\<close>: messages (\<^verbatim>\<open>common.go\<close>), the server, whose handlers
  are still the empty bodies of the lab's skeleton (\<^verbatim>\<open>server.go\<close>), and the clerk, which routes each
  request to the group that owns the key's shard (\<^verbatim>\<open>client.go\<close>).  Calls and the passing of time
  are as in \<^verbatim>\<open>ShardCtrl\<close>: functions on the world, and \<^term>\<open>None\<close> for a loop that never ends.
\<close>

section \<open>Messages\<close>

definition ErrNoKey :: string where
  "ErrNoKey = ''ErrNoKey''"

definition ErrWrongGroup :: string where
  "ErrWrongGroup = ''ErrWrongGroup''"

definition ErrWrongLeader :: string where
  "ErrWrongLeader = ''ErrWrongLeader''"

lemmas Err_defs = OK_def ErrNoKey_def ErrWrongGroup_def ErrWrongLeader_def

record PutAppendArgs =
  paKey :: string
  paValue :: string
  paOp :: string

record PutAppendReply =
  parErr :: string

record GetArgs =
  gaKey :: string

record GetReply =
  grErr :: string
  grValue :: string

section \<open>The server\<close>

record ('c, 'b, 'e) ShardKV =
  skMe :: int
  skRf :: "('c, 'b) Raft"
  skMakeEnd :: "string \<Rightarrow> 'e"
  skGid :: int
  skCtrlers :: "'e list"
  skMaxraftstate :: int

definition Get :: "('c, 'b, 'e) ShardKV \<Rightarrow> GetArgs \<Rightarrow> GetReply \<Rightarrow> ('c, 'b, 'e) ShardKV \<times> GetReply" where
  "Get kv args reply = (kv, reply)"

definition PutAppend ::
  "('c, 'b, 'e) ShardKV \<Rightarrow> PutAppendArgs \<Rightarrow> PutAppendReply \<Rightarrow> ('c, 'b, 'e) ShardKV \<times> PutAppendReply" where
  "PutAppend kv args reply = (kv, reply)"

definition Kill :: "('c, 'b, 'e) ShardKV \<Rightarrow> ('c, 'b, 'e) ShardKV" where
  "Kill kv = kv\<lparr>skRf := RaftNode.Kill (skRf kv)\<rparr>"

definition StartServer ::
  "nat \<Rightarrow> int \<Rightarrow> ('c gobValue, 'b) Persister \<Rightarrow> int \<Rightarrow> int \<Rightarrow> 'e list \<Rightarrow> (string \<Rightarrow> 'e) \<Rightarrow>
   ('c, 'b, 'e) ShardKV option" where
  "StartServer nservers my ps maxstate gid ctrlers mk = do {
     peer \<leftarrow> Make nservers my ps;
     Some \<lparr>skMe = my, skRf = peer, skMakeEnd = mk, skGid = gid, skCtrlers = ctrlers,
           skMaxraftstate = maxstate\<rparr>
   }"

section \<open>The clerk\<close>

definition key2shard :: "string \<Rightarrow> nat" where
  "key2shard key =
     (let shard = (if length key > 0 then of_char (key ! 0) else 0) in shard mod NShards)"

text \<open>The array of a configuration has \<^const>\<open>NShards\<close> cells: the shard of a key is always in its range.\<close>

lemma key2shard_bound: "key2shard key < NShards"
  by (simp add: key2shard_def NShards_def)

definition nrand :: "nat \<Rightarrow> int" where
  "nrand bits = int (bits mod 2 ^ 62)"

record 'e Clerk =
  sm :: "'e ShardCtrl.Clerk"
  config :: Config
  make_end :: "string \<Rightarrow> 'e"

definition MakeClerk :: "'e list \<Rightarrow> (string \<Rightarrow> 'e) \<Rightarrow> 'e Clerk" where
  "MakeClerk ctrlers mk = \<lparr>sm = ShardCtrl.MakeClerk ctrlers, config = zeroConfig, make_end = mk\<rparr>"

text \<open>
  One pass over the servers of a group: a final reply ends the request, a reply that the group is
  wrong ends the pass, anything else goes on to the next server.
\<close>

fun tryGroup ::
  "('w \<Rightarrow> 'e \<Rightarrow> 'w \<times> 'r option) \<Rightarrow> ('r \<Rightarrow> bool) \<Rightarrow> ('r \<Rightarrow> bool) \<Rightarrow> 'e list \<Rightarrow> 'w \<Rightarrow> 'w \<times> 'r option" where
  "tryGroup call final wrong [] w = (w, None)"
| "tryGroup call final wrong (srv # srvs) w =
     (case call w srv of
        (w', Some reply) \<Rightarrow>
          if final reply then (w', Some reply)
          else if wrong reply then (w', None)
          else tryGroup call final wrong srvs w'
      | (w', None) \<Rightarrow> tryGroup call final wrong srvs w')"

text \<open>The servers of the group that owns the key, in the configuration the clerk knows.\<close>

definition ownersOf :: "Config \<Rightarrow> string \<Rightarrow> string list option" where
  "ownersOf c key = Groups c (Shards c ! key2shard key)"

definition groupRound ::
  "('w \<Rightarrow> 'e \<Rightarrow> 'w \<times> 'r option) \<Rightarrow> ('r \<Rightarrow> bool) \<Rightarrow> ('r \<Rightarrow> bool) \<Rightarrow> 'e Clerk \<Rightarrow> string \<Rightarrow> 'w \<Rightarrow> 'w \<times> 'r option" where
  "groupRound call final wrong ck key w =
     (case ownersOf (config ck) key of
        Some names \<Rightarrow> tryGroup call final wrong (map (make_end ck) names) w
      | None \<Rightarrow> (w, None))"

partial_function (option) routeLoop ::
  "('w \<Rightarrow> 'e \<Rightarrow> 'w \<times> 'r option) \<Rightarrow> ('r \<Rightarrow> bool) \<Rightarrow> ('r \<Rightarrow> bool) \<Rightarrow>
   ('w \<Rightarrow> 'e \<Rightarrow> QueryArgs \<Rightarrow> 'w \<times> QueryReply option) \<Rightarrow> ('w \<Rightarrow> 'w) \<Rightarrow> 'e Clerk \<Rightarrow> string \<Rightarrow> 'w \<Rightarrow>
   ('w \<times> 'e Clerk \<times> 'r) option" where
  "routeLoop call final wrong query sleep ck key w =
     (case groupRound call final wrong ck key w of
        (w', Some reply) \<Rightarrow> Some (w', ck, reply)
      | (w', None) \<Rightarrow> do {
          (w'', c) \<leftarrow> ClerkQuery query sleep (sm ck) (-1) (sleep w');
          routeLoop call final wrong query sleep (ck\<lparr>config := c\<rparr>) key w''
        })"

definition finalGet :: "GetReply \<Rightarrow> bool" where
  "finalGet reply = (grErr reply = OK \<or> grErr reply = ErrNoKey)"

definition ClerkGet ::
  "('w \<Rightarrow> 'e \<Rightarrow> GetArgs \<Rightarrow> 'w \<times> GetReply option) \<Rightarrow>
   ('w \<Rightarrow> 'e \<Rightarrow> QueryArgs \<Rightarrow> 'w \<times> QueryReply option) \<Rightarrow> ('w \<Rightarrow> 'w) \<Rightarrow> 'e Clerk \<Rightarrow> string \<Rightarrow> 'w \<Rightarrow>
   ('w \<times> 'e Clerk \<times> string) option" where
  "ClerkGet call query sleep ck key w = do {
     (w', ck', reply) \<leftarrow> routeLoop (\<lambda>w srv. call w srv \<lparr>gaKey = key\<rparr>) finalGet
        (\<lambda>r. grErr r = ErrWrongGroup) query sleep ck key w;
     Some (w', ck', grValue reply)
   }"

definition ClerkPutAppend ::
  "('w \<Rightarrow> 'e \<Rightarrow> PutAppendArgs \<Rightarrow> 'w \<times> PutAppendReply option) \<Rightarrow>
   ('w \<Rightarrow> 'e \<Rightarrow> QueryArgs \<Rightarrow> 'w \<times> QueryReply option) \<Rightarrow> ('w \<Rightarrow> 'w) \<Rightarrow> 'e Clerk \<Rightarrow> string \<Rightarrow> string \<Rightarrow> string \<Rightarrow> 'w \<Rightarrow>
   ('w \<times> 'e Clerk) option" where
  "ClerkPutAppend call query sleep ck key value op w = do {
     (w', ck', reply) \<leftarrow> routeLoop (\<lambda>w srv. call w srv \<lparr>paKey = key, paValue = value, paOp = op\<rparr>)
        (\<lambda>r. parErr r = OK) (\<lambda>r. parErr r = ErrWrongGroup) query sleep ck key w;
     Some (w', ck')
   }"

definition ClerkPut where
  "ClerkPut call query sleep ck key value w = ClerkPutAppend call query sleep ck key value ''Put'' w"

definition ClerkAppend where
  "ClerkAppend call query sleep ck key value w = ClerkPutAppend call query sleep ck key value ''Append'' w"

section \<open>Lemmas on the routing loop\<close>

lemma tryGroup_final:
  "tryGroup call final wrong srvs w = (w', Some r) \<Longrightarrow>
   final r \<and> (\<exists>srv \<in> set srvs. \<exists>w1. call w1 srv = (w', Some r))"
  by (induction call final wrong srvs w rule: tryGroup.induct) (auto split: prod.splits option.splits if_splits)

lemma tryGroup_answers:
  assumes "srv \<in> set srvs" "\<And>w. \<exists>w' r. call w srv = (w', Some r) \<and> final r"
    and "\<And>s w w' r. s \<in> set srvs \<Longrightarrow> call w s = (w', Some r) \<Longrightarrow> \<not> wrong r"
  shows "\<exists>w' r. tryGroup call final wrong srvs w = (w', Some r)"
  using assms(1,3)
proof (induction srvs arbitrary: w)
  case (Cons s srvs)
  show ?case
  proof (cases "s = srv")
    case True
    with assms(2)[of w] show ?thesis by (auto split: prod.splits)
  next
    case False
    then have "\<exists>w' r. tryGroup call final wrong srvs w = (w', Some r)" for w
      using Cons.prems by (intro Cons.IH) auto
    moreover have "\<not> wrong r" if "call w s = (w', Some r)" for w' r using Cons.prems(2)[OF _ that] by simp
    ultimately show ?thesis by (auto split: prod.splits option.splits)
  qed
qed simp

lemma groupRound_final:
  assumes "groupRound call final wrong ck key w = (w', Some r)"
  shows "final r \<and> (\<exists>names name w1. ownersOf (config ck) key = Some names \<and> name \<in> set names \<and>
    call w1 (make_end ck name) = (w', Some r))"
proof (cases "ownersOf (config ck) key")
  case (Some names)
  with assms have "tryGroup call final wrong (map (make_end ck) names) w = (w', Some r)"
    by (simp add: groupRound_def)
  from tryGroup_final[OF this] Some show ?thesis by auto
qed (use assms in \<open>simp add: groupRound_def\<close>)

text \<open>The reply that ends the loop is final and from a server of the group the clerk takes for the owner.\<close>

definition answeredByOwner where
  "answeredByOwner call final mk key res =
     (final (snd (snd res)) \<and> make_end (fst (snd res)) = mk \<and>
      (\<exists>names name w1. ownersOf (config (fst (snd res))) key = Some names \<and> name \<in> set names \<and>
         call w1 (mk name) = (fst res, Some (snd (snd res)))))"

lemma routeLoop_owner:
  assumes "routeLoop call final wrong query sleep ck key w = Some res"
  shows "answeredByOwner call final (make_end ck) key res"
proof (rule routeLoop.raw_induct[of "\<lambda>call final wrong query sleep ck key w res.
    answeredByOwner call final (make_end ck) key res", OF _ assms], goal_cases)
  case (1 routeLoop call final wrong query sleep ck key w res)
  obtain w' rr where gr: "groupRound call final wrong ck key w = (w', rr)" by fastforce
  show ?case
  proof (cases rr)
    case None
    with 1(2) gr obtain w2 c where "routeLoop call final wrong query sleep (ck\<lparr>config := c\<rparr>) key w2 = Some res"
      by (auto simp: bind_eq_Some_conv)
    from 1(1)[OF this] show ?thesis by simp
  next
    case (Some r)
    with 1(2) gr have "res = (w', ck, r)" by simp
    then show ?thesis using groupRound_final[OF gr[unfolded Some]] by (simp add: answeredByOwner_def)
  qed
qed

lemma routeLoop_returns:
  assumes query: "\<And>w. \<exists>w' c. ClerkQuery query sleep (sm ck) (-1) w = Some (w', c) \<and> ownersOf c key = Some names"
    and srv: "name \<in> set names" "\<And>w. \<exists>w' r. call w (make_end ck name) = (w', Some r) \<and> final r"
    and right: "\<And>n w w' r. n \<in> set names \<Longrightarrow> call w (make_end ck n) = (w', Some r) \<Longrightarrow> \<not> wrong r"
  shows "\<exists>res. routeLoop call final wrong query sleep ck key w = Some res"
proof -
  have known: "\<exists>res. routeLoop call final wrong query sleep (ck\<lparr>config := c\<rparr>) key w = Some res"
    if "ownersOf c key = Some names" for c w
  proof -
    have "\<exists>w' r. tryGroup call final wrong (map (make_end ck) names) w = (w', Some r)"
      using srv right by (intro tryGroup_answers[of "make_end ck name"]) auto
    then show ?thesis using that by (subst routeLoop.simps) (auto simp: groupRound_def)
  qed
  obtain w' rr where gr: "groupRound call final wrong ck key w = (w', rr)" by fastforce
  show ?thesis
  proof (cases rr)
    case None
    obtain w2 c where q: "ClerkQuery query sleep (sm ck) (-1) (sleep w') = Some (w2, c)" "ownersOf c key = Some names"
      using query by blast
    with known[OF q(2), of w2] None gr show ?thesis by (subst routeLoop.simps) auto
  next
    case (Some r)
    with gr show ?thesis by (subst routeLoop.simps) simp
  qed
qed

section \<open>Requests that end, and requests that do not\<close>

lemma ClerkQuery_answers:
  assumes "ctl \<in> set (servers ck)" "\<And>w. \<exists>w' r. query w ctl \<lparr>qaNum = n\<rparr> = (w', Some r) \<and> \<not> qrWrongLeader r"
    and "\<And>e w w' r. query w e \<lparr>qaNum = n\<rparr> = (w', Some r) \<Longrightarrow> \<not> qrWrongLeader r \<Longrightarrow> P (qrConfig r)"
  shows "\<exists>w' c. ClerkQuery query sleep ck n w = Some (w', c) \<and> P c"
proof -
  let ?call = "\<lambda>w srv. query w srv \<lparr>qaNum = n\<rparr>" and ?good = "\<lambda>r. \<not> qrWrongLeader r"
  obtain w' r where a: "askAll ?call ?good sleep (servers ck) w = Some (w', r)"
    using askAll_answers[of ctl "servers ck" ?call ?good] assms(1,2) by blast
  then show ?thesis using askAll_good[OF a] assms(3) by (auto simp: ClerkQuery_def)
qed

text \<open>What the clerk's loop needs of a service that is complete, which the one of this repository is not (below).  Suppose one of the
  controllers the clerk knows always answers as leader, and whoever answers as leader gives a configuration in which the group
  of the key's shard has the servers \<open>names\<close>; one of them always answers OK or ErrNoKey, and none
  says that the group is wrong.  Then, whatever configuration the clerk starts with, the loop ends,
  and the value it returns is that of a final reply of a server which, in the configuration the
  clerk has at the end, belongs to the group that owns the key's shard.\<close>

lemma Get_reaches_owner:
  assumes "ctl \<in> set (servers (sm ck))"
    and "\<forall>w. \<exists>w' r. query w ctl \<lparr>qaNum = -1\<rparr> = (w', Some r) \<and> \<not> qrWrongLeader r"
    and "\<forall>e w w' r. query w e \<lparr>qaNum = -1\<rparr> = (w', Some r) \<longrightarrow> \<not> qrWrongLeader r \<longrightarrow>
      ownersOf (qrConfig r) key = Some names"
    and "name \<in> set names"
    and "\<forall>w. \<exists>w' r. call w (make_end ck name) \<lparr>gaKey = key\<rparr> = (w', Some r) \<and> finalGet r"
    and "\<forall>n \<in> set names. \<forall>w w' r. call w (make_end ck n) \<lparr>gaKey = key\<rparr> = (w', Some r) \<longrightarrow>
      grErr r \<noteq> ErrWrongGroup"
  shows "\<exists>w' ck' r group srv w1. ClerkGet call query sleep ck key w = Some (w', ck', grValue r) \<and>
    ownersOf (config ck') key = Some group \<and> srv \<in> set group \<and>
    call w1 (make_end ck srv) \<lparr>gaKey = key\<rparr> = (w', Some r) \<and> finalGet r"
proof -
  let ?call = "\<lambda>w srv. call w srv \<lparr>gaKey = key\<rparr>"
  have q: "\<exists>w' c. ClerkQuery query sleep (sm ck) (-1) w = Some (w', c) \<and> ownersOf c key = Some names" for w
    using assms(1-3) by (intro ClerkQuery_answers) blast+
  obtain res where res:
    "routeLoop ?call finalGet (\<lambda>r. grErr r = ErrWrongGroup) query sleep ck key w = Some res"
    using routeLoop_returns[OF q assms(4), of ?call finalGet "\<lambda>r. grErr r = ErrWrongGroup"] assms(5,6) by blast
  obtain w' ck' r where "res = (w', ck', r)" by (cases res)
  with res routeLoop_owner[OF res] show ?thesis
    by (auto simp: ClerkGet_def answeredByOwner_def)
qed

text \<open>
  The service as it stands, with any controllers behind the ends and a network that loses what it likes: the controllers' handler leaves
  the reply as it came, so every answer is the zero configuration, in which no group owns a shard.  The clerk asks for a
  configuration again and again, sends no request to any server and never returns.
\<close>

definition stubQuery ::
  "('w \<Rightarrow> 'e \<Rightarrow> 'w \<times> bool) \<Rightarrow> ('w \<Rightarrow> 'e \<Rightarrow> ('c, 'b) ShardCtrler) \<Rightarrow> 'w \<Rightarrow> 'e \<Rightarrow> QueryArgs \<Rightarrow> 'w \<times> QueryReply option" where
  "stubQuery net sc w e args =
     (case net w e of (w', delivered) \<Rightarrow> (w', if delivered then Some (snd (Query (sc w e) args zeroQueryReply)) else None))"

lemma zeroConfig_no_owner: "ownersOf zeroConfig key = None"
  by (simp add: ownersOf_def zeroConfig_def)

lemma ClerkQuery_stub:
  assumes "ClerkQuery (stubQuery net sc) sleep ck n w = Some (w', c)"
  shows "c = zeroConfig"
proof -
  obtain r where "askAll (\<lambda>w srv. stubQuery net sc w srv \<lparr>qaNum = n\<rparr>) (\<lambda>r. \<not> qrWrongLeader r) sleep (servers ck) w = Some (w', r)"
    "c = qrConfig r"
    using assms by (auto simp: ClerkQuery_def bind_eq_Some_conv)
  then show ?thesis
    by (auto dest!: askAll_good simp: stubQuery_def Query_def zeroQueryReply_def split: prod.splits if_splits)
qed

lemma routeLoop_stub:
  assumes "routeLoop call final wrong query sleep ck key w = Some res"
  shows "query = stubQuery net sc \<longrightarrow> config ck = zeroConfig \<longrightarrow> False"
proof (rule routeLoop.raw_induct[of "\<lambda>call final wrong query sleep ck key w res.
    query = stubQuery net sc \<longrightarrow> config ck = zeroConfig \<longrightarrow> False", OF _ assms], goal_cases)
  case (1 routeLoop call final wrong query sleep ck key w res)
  show ?case
  proof (intro impI)
    assume stub: "query = stubQuery net sc" "config ck = zeroConfig"
    then have "groupRound call final wrong ck key w = (w, None)"
      by (simp add: groupRound_def zeroConfig_no_owner)
    with 1(2) obtain w2 c where "ClerkQuery query sleep (sm ck) (-1) (sleep w) = Some (w2, c)"
      and rec: "routeLoop call final wrong query sleep (ck\<lparr>config := c\<rparr>) key w2 = Some res"
      by (auto simp: bind_eq_Some_conv)
    then have "c = zeroConfig" unfolding stub(1) by (elim ClerkQuery_stub)
    with 1(1)[OF rec] stub show False by simp
  qed
qed

lemma routeLoop_stub_None:
  "routeLoop call final wrong (stubQuery net sc) sleep (MakeClerk ctrlers mk) key w = None"
proof (rule ccontr)
  assume "\<not> ?thesis"
  then obtain res where "routeLoop call final wrong (stubQuery net sc) sleep (MakeClerk ctrlers mk) key w = Some res"
    by blast
  from routeLoop_stub[OF this, of net sc] show False by (simp add: MakeClerk_def)
qed

lemma skeleton_never_answers:
  "ClerkGet call (stubQuery net sc) sleep (MakeClerk ctrlers mk) key w = None"
  "ClerkPutAppend put (stubQuery net sc) sleep (MakeClerk ctrlers mk) key val op w = None"
  by (simp_all add: ClerkGet_def ClerkPutAppend_def routeLoop_stub_None)

end
