(* ===== verification/Decimal.thy ===== *)
theory Decimal
  imports Prelude
begin

text \<open>
  Decimal numerals, as \<^verbatim>\<open>strconv.Itoa\<close> prints them: the word counts of the MapReduce applications and the server names of the
  sharded service are made of them.  Different numbers have different numerals, and a numeral has only digits.
\<close>

text \<open>\<^verbatim>\<open>strconv.Itoa\<close> on a number that is not negative.\<close>

definition digit :: "nat \<Rightarrow> char" where
  "digit d = char_of (48 + d)"

fun itoa :: "nat \<Rightarrow> string" where
  "itoa n = (if n < 10 then [digit n] else itoa (n div 10) @ [digit (n mod 10)])"

declare itoa.simps [simp del]

text \<open>The decimal numeral of a number is read back as that number.\<close>

fun atoi :: "string \<Rightarrow> nat" where
  "atoi s = foldl (\<lambda>n c. 10 * n + (of_char c - 48)) 0 s"

lemma atoi_itoa: "atoi (itoa n) = n"
proof (induction n rule: itoa.induct)
  case (1 n)
  have d: "of_char (digit k) - 48 = k" if "k < 10" for k :: nat using that by (simp add: digit_def)
  show ?case
  proof (cases "n < 10")
    case True
    then show ?thesis by (subst itoa.simps) (simp add: d)
  next
    case False
    then have "atoi (itoa (n div 10) @ [digit (n mod 10)]) = 10 * (n div 10) + n mod 10"
      using "1.IH" d[of "n mod 10"] by simp
    then show ?thesis using False by (subst itoa.simps) simp
  qed
qed

text \<open>The value of a string of digits as an integer.\<close>

definition decimalValue :: "string \<Rightarrow> int" where
  "decimalValue s = foldl (\<lambda>n c. 10 * n + (of_char c - 48)) 0 s"

lemma decimalValue_itoa: "decimalValue (itoa n) = int n"
proof (induction n rule: itoa.induct)
  case (1 n)
  have d: "of_char (digit k) - 48 = int k" if "k < 10" for k :: nat
  proof -
    have "(of_char (digit k) :: int) = int (of_char (digit k))" by (simp add: of_nat_of_char)
    also have "of_char (digit k) = 48 + k" using that by (simp add: digit_def)
    finally show ?thesis by simp
  qed
  show ?case
  proof (cases "n < 10")
    case True
    then show ?thesis by (subst itoa.simps) (simp add: d decimalValue_def)
  next
    case False
    then have "decimalValue (itoa (n div 10) @ [digit (n mod 10)]) = 10 * int (n div 10) + int (n mod 10)"
      using "1.IH" d[of "n mod 10"] by (simp add: decimalValue_def)
    also have "\<dots> = int n" by presburger
    finally show ?thesis using False by (subst itoa.simps) simp
  qed
qed

lemma itoa_inj: "itoa m = itoa n \<longleftrightarrow> m = n"
  using atoi_itoa by metis

lemma itoa_no_dash: "CHR ''-'' \<notin> set (itoa n)"
proof (induction n rule: itoa.induct)
  case (1 n)
  have d: "digit k \<noteq> CHR ''-''" if "k < 10" for k
  proof
    assume "digit k = CHR ''-''"
    then have "(of_char (digit k) :: nat) = of_char CHR ''-''" by simp
    then show False using that by (simp add: digit_def)
  qed
  show ?case using 1 d[of n] d[of "n mod 10"] by (subst itoa.simps) auto
qed

text \<open>A numeral ends at a dash, so two numerals with a dash between them can be told apart.\<close>

lemma dash_split: "itoa a @ CHR ''-'' # s = itoa c @ CHR ''-'' # t \<longleftrightarrow> a = c \<and> s = t"
proof -
  have "takeWhile (\<lambda>x. x \<noteq> CHR ''-'') (itoa x @ CHR ''-'' # u) = itoa x" for x u
    using itoa_no_dash[of x] by (subst takeWhile_append2) auto
  then have "itoa a @ CHR ''-'' # s = itoa c @ CHR ''-'' # t \<Longrightarrow> itoa a = itoa c" by metis
  then show ?thesis by (auto simp: itoa_inj)
qed

lemma dashed_inj: "itoa a @ CHR ''-'' # itoa b = itoa c @ CHR ''-'' # itoa d \<longleftrightarrow> a = c \<and> b = d"
  by (simp add: dash_split itoa_inj)

end
