(* ===== verification/ShardKvConfig.thy ===== *)
theory ShardKvConfig
  imports HarnessRun ShardKv Decimal
begin

text \<open>
  The test harness of the sharded key/value service (\<^verbatim>\<open>src/shardkv/config.go\<close>): a replicated shard controller and groups of
  servers on one simulated network, whose servers are known by name here.

  \<^term>\<open>None\<close> is a panic or a failed test.  The random names are an argument, a function of the place where the name
  is used, and so are the server objects of the network.  A row of names that was not allocated yet is \<^term>\<open>None\<close>.
  The function that a server or a clerk is given to make an end to a named server is the argument \<open>mk\<close>; what it does to the
  network is \<open>makeEndTo\<close>.  As in the theory \<open>Harness\<close> the content of a persister is read off the running server that writes to it.
\<close>

section \<open>The state\<close>

type_synonym network = "(string, string) Network"

type_synonym ('c, 'b) kvServer = "('c, 'b, string ClientEnd) ShardKV"

record ('c, 'b) group =
  gid :: int
  gServers :: "('c, 'b) kvServer option list"
  gSaved :: "('c gobValue, 'b) Persister option list"
  gEndnames :: "string list option list"
  mendnames :: "string list option list"

record ('d, 'b) ctrler =
  ctlN :: nat
  ctlServers :: "('d, 'b) ShardCtrler option list"
  ctlNames :: "string list"
  ctlCk :: "string ClientEnd ShardCtrl.Clerk option"

record ('c, 'd, 'b) config =
  skNet :: network
  ctl :: "('d, 'b) ctrler"
  ngroups :: nat
  skN :: nat
  groups :: "('c, 'b) group option list"
  skClerks :: "nat \<rightharpoonup> string list"
  skNextClientId :: int
  cfgMaxraftstate :: int

text \<open>\<^verbatim>\<open>strconv.Itoa\<close>.\<close>

definition itoaInt :: "int \<Rightarrow> string" where
  "itoaInt i = (if i < 0 then CHR ''-'' # itoa (nat (- i)) else itoa (nat i))"

definition ctrlername :: "('d, 'b) ctrler \<Rightarrow> int \<Rightarrow> string option" where
  "ctrlername ct i = go_index (ctlNames ct) i"

definition servername :: "int \<Rightarrow> int \<Rightarrow> string" where
  "servername g i = ''server-'' @ itoaInt g @ ''-'' @ itoaInt i"

text \<open>The content of \<^verbatim>\<open>gg.saved[i]\<close>.\<close>

definition savedIn :: "('c, 'b) group \<Rightarrow> int \<Rightarrow> ('c gobValue, 'b) Persister option option" where
  "savedIn gg i = do {
     sv \<leftarrow> go_index (gSaved gg) i;
     kv \<leftarrow> go_index (gServers gg) i;
     Some (case sv of None \<Rightarrow> None | Some p \<Rightarrow> (case kv of None \<Rightarrow> Some p | Some kv \<Rightarrow> Some (persister (skRf kv))))
   }"

text \<open>A group that was not made yet is nil.\<close>

definition groupAt :: "('c, 'd, 'b) config \<Rightarrow> int \<Rightarrow> ('c, 'b) group option" where
  "groupAt cfg gi = do { gg \<leftarrow> go_index (groups cfg) gi; gg }"

definition setGroup :: "('c, 'd, 'b) config \<Rightarrow> int \<Rightarrow> ('c, 'b) group \<Rightarrow> ('c, 'd, 'b) config" where
  "setGroup cfg gi gg = cfg\<lparr>groups := (groups cfg)[nat gi := Some gg]\<rparr>"

text \<open>The two nested loops of \<^verbatim>\<open>checklogs\<close>; a nil persister panics.\<close>

definition checklog :: "('c gobValue \<Rightarrow> nat) \<Rightarrow> ('b \<Rightarrow> nat) \<Rightarrow> int \<Rightarrow> ('c, 'd, 'b) config \<Rightarrow> int \<Rightarrow> ('c, 'd, 'b) config option" where
  "checklog szR szS gi cfg i = do {
     gg \<leftarrow> groupAt cfg gi;
     sv \<leftarrow> savedIn gg i;
     p \<leftarrow> sv;
     let rft = PersisterRaftStateSize szR p;
     let snap = Persister.SnapshotSize szS p;
     if cfgMaxraftstate cfg \<ge> 0 \<and> rft > 8 * cfgMaxraftstate cfg then None
     else if cfgMaxraftstate cfg < 0 \<and> snap > 0 then None
     else Some cfg
   }"

definition checklogs :: "('c gobValue \<Rightarrow> nat) \<Rightarrow> ('b \<Rightarrow> nat) \<Rightarrow> ('c, 'd, 'b) config \<Rightarrow> ('c, 'd, 'b) config option" where
  "checklogs szR szS cfg =
     eachServer (\<lambda>cfg gi. eachServer (checklog szR szS gi) cfg (map int [0..<skN cfg])) cfg (map int [0..<ngroups cfg])"

section \<open>Ends\<close>

text \<open>A new end, connected and enabled; a name that is taken fails the test.\<close>

definition makeEndTo :: "network \<Rightarrow> string \<Rightarrow> string \<Rightarrow> (network \<times> string ClientEnd) option" where
  "makeEndTo rn e target =
     (case MakeEnd rn e of
        Ret (rn, ce) \<Rightarrow> Some (Enable (Connect rn e target) e True, ce)
      | _ \<Rightarrow> None)"

text \<open>A loop that makes an end to each of a row of servers.\<close>

fun linkEnds :: "network \<Rightarrow> (nat \<Rightarrow> string option) \<Rightarrow> (nat \<Rightarrow> string) \<Rightarrow> nat list \<Rightarrow> (network \<times> string ClientEnd list) option" where
  "linkEnds rn target names [] = Some (rn, [])"
| "linkEnds rn target names (j # js) = do {
     t \<leftarrow> target j;
     (rn, ce) \<leftarrow> makeEndTo rn (names j) t;
     (rn, ces) \<leftarrow> linkEnds rn target names js;
     Some (rn, ce # ces)
   }"

text \<open>The loop of \<^verbatim>\<open>makeClient\<close> runs over the controllers, but the slice of names has as many places as a group has servers.\<close>

fun clientEnds ::
  "network \<Rightarrow> ('d, 'b) ctrler \<Rightarrow> (nat \<Rightarrow> string) \<Rightarrow> nat list \<Rightarrow> string list \<Rightarrow> (network \<times> string list \<times> string ClientEnd list) option" where
  "clientEnds rn ct names [] row = Some (rn, row, [])"
| "clientEnds rn ct names (j # js) row = do {
     row \<leftarrow> go_set row (int j) (names j);
     t \<leftarrow> ctrlername ct (int j);
     (rn, ce) \<leftarrow> makeEndTo rn (names j) t;
     (rn, row, ces) \<leftarrow> clientEnds rn ct names js row;
     Some (rn, row, ce # ces)
   }"

definition makeClient ::
  "(string \<Rightarrow> string ClientEnd) \<Rightarrow> ('c, 'd, 'b) config \<Rightarrow> ('d, 'b) ctrler \<Rightarrow> nat \<Rightarrow> (nat \<Rightarrow> string) \<Rightarrow>
   (('c, 'd, 'b) config \<times> string ClientEnd ShardKv.Clerk) option" where
  "makeClient mk cfg ct ck names = do {
     (rn, row, ces) \<leftarrow> clientEnds (skNet cfg) ct names [0..<ctlN ct] (replicate (skN cfg) []);
     let clerk = ShardKv.MakeClerk ces mk;
     Some (cfg\<lparr>skNet := rn, skClerks := (skClerks cfg)(ck \<mapsto> row), skNextClientId := skNextClientId cfg + 1\<rparr>, clerk)
   }"

definition deleteClient :: "('c, 'd, 'b) config \<Rightarrow> nat \<Rightarrow> ('c, 'd, 'b) config" where
  "deleteClient cfg ck = cfg\<lparr>skClerks := (skClerks cfg)(ck := None)\<rparr>"

section \<open>Servers\<close>

text \<open>The loops that stop a server from sending.\<close>

fun disableRow :: "network \<Rightarrow> string list option list \<Rightarrow> int \<Rightarrow> nat list \<Rightarrow> network option" where
  "disableRow rn rows i [] = Some rn"
| "disableRow rn rows i (j # js) = do {
     row \<leftarrow> go_index rows i;
     row \<leftarrow> row;
     name \<leftarrow> go_index row (int j);
     disableRow (Enable rn name False) rows i js
   }"

definition rowLength :: "string list option list \<Rightarrow> int \<Rightarrow> nat option" where
  "rowLength rows i = do { row \<leftarrow> go_index rows i; Some (case row of None \<Rightarrow> 0 | Some names \<Rightarrow> length names) }"

definition ShutdownServer :: "('c, 'd, 'b) config \<Rightarrow> int \<Rightarrow> int \<Rightarrow> (('c, 'd, 'b) config \<times> ('c, 'b) kvServer option) option" where
  "ShutdownServer cfg gi i = do {
     gg \<leftarrow> groupAt cfg gi;
     rn \<leftarrow> disableRow (skNet cfg) (gEndnames gg) i [0..<length (gServers gg)];
     len \<leftarrow> rowLength (mendnames gg) i;
     rn \<leftarrow> disableRow rn (mendnames gg) i [0..<len];
     let rn = DeleteServer rn (servername (gid gg) i);
     sv \<leftarrow> savedIn gg i;
     saved' \<leftarrow> go_set (gSaved gg) i (map_option Copy sv);
     kv \<leftarrow> go_index (gServers gg) i;
     servers' \<leftarrow> go_set (gServers gg) i None;
     Some (setGroup (cfg\<lparr>skNet := rn\<rparr>) gi (gg\<lparr>gSaved := saved', gServers := servers'\<rparr>), map_option ShardKv.Kill kv)
   }"

definition ShutdownGroup :: "('c, 'd, 'b) config \<Rightarrow> int \<Rightarrow> ('c, 'd, 'b) config option" where
  "ShutdownGroup cfg gi = eachServer (\<lambda>cfg i. map_option fst (ShutdownServer cfg gi i)) cfg (map int [0..<skN cfg])"

definition StartServer ::
  "(string \<Rightarrow> string ClientEnd) \<Rightarrow> ('c, 'd, 'b) config \<Rightarrow> int \<Rightarrow> int \<Rightarrow> (nat \<Rightarrow> string) \<Rightarrow> (nat \<Rightarrow> string) \<Rightarrow> nat \<Rightarrow>
   ('c, 'd, 'b) config option" where
  "StartServer mk cfg gi i names mnames srv = do {
     gg \<leftarrow> groupAt cfg gi;
     row' \<leftarrow> go_set (gEndnames gg) i (Some (map names [0..<skN cfg]));
     (rn, ces) \<leftarrow> linkEnds (skNet cfg) (\<lambda>j. Some (servername (gid gg) (int j))) names [0..<skN cfg];
     mendnames' \<leftarrow> go_set (mendnames gg) i (Some (map mnames [0..<ctlN (ctl cfg)]));
     (rn, mends) \<leftarrow> linkEnds rn (\<lambda>j. ctrlername (ctl cfg) (int j)) mnames [0..<ctlN (ctl cfg)];
     sv \<leftarrow> savedIn gg i;
     let p = (case sv of Some p \<Rightarrow> Copy p | None \<Rightarrow> MakePersister);
     saved' \<leftarrow> go_set (gSaved gg) i (Some p);
     kv \<leftarrow> ShardKv.StartServer (length ces) i p (cfgMaxraftstate cfg) (gid gg) mends mk;
     servers' \<leftarrow> go_set (gServers gg) i (Some kv);
     Some (setGroup (cfg\<lparr>skNet := AddServer rn (servername (gid gg) i) srv\<rparr>) gi
       (gg\<lparr>gServers := servers', gSaved := saved', gEndnames := row', mendnames := mendnames'\<rparr>))
   }"

text \<open>Where a random name is used.\<close>

datatype place =
  CtlName nat
| CtlEnd nat nat
| CtlClerk nat
| GroupEnd nat nat nat
| GroupMend nat nat nat

definition startOne ::
  "(string \<Rightarrow> string ClientEnd) \<Rightarrow> (place \<Rightarrow> string) \<Rightarrow> (nat \<Rightarrow> nat \<Rightarrow> nat) \<Rightarrow> int \<Rightarrow> ('c, 'd, 'b) config \<Rightarrow> int \<Rightarrow> ('c, 'd, 'b) config option" where
  "startOne mk rnd srv gi cfg i =
     StartServer mk cfg gi i (\<lambda>j. rnd (GroupEnd (nat gi) (nat i) j)) (\<lambda>j. rnd (GroupMend (nat gi) (nat i) j)) (srv (nat gi) (nat i))"

definition StartGroup ::
  "(string \<Rightarrow> string ClientEnd) \<Rightarrow> (place \<Rightarrow> string) \<Rightarrow> (nat \<Rightarrow> nat \<Rightarrow> nat) \<Rightarrow> ('c, 'd, 'b) config \<Rightarrow> int \<Rightarrow> ('c, 'd, 'b) config option" where
  "StartGroup mk rnd srv cfg gi = eachServer (startOne mk rnd srv gi) cfg (map int [0..<skN cfg])"

section \<open>The controller\<close>

definition StartCtrlerServer ::
  "network \<Rightarrow> ('d, 'b) ctrler \<Rightarrow> int \<Rightarrow> (nat \<Rightarrow> string) \<Rightarrow> nat \<Rightarrow> (network \<times> ('d, 'b) ctrler) option" where
  "StartCtrlerServer rn ct i names srv = do {
     (rn, ces) \<leftarrow> linkEnds rn (\<lambda>j. ctrlername ct (int j)) names [0..<ctlN ct];
     sc \<leftarrow> ShardCtrl.StartServer (length ces) i MakePersister;
     servers' \<leftarrow> go_set (ctlServers ct) i (Some sc);
     name \<leftarrow> ctrlername ct i;
     Some (AddServer rn name srv, ct\<lparr>ctlServers := servers'\<rparr>)
   }"

definition ctrlerclerk :: "network \<Rightarrow> ('d, 'b) ctrler \<Rightarrow> (nat \<Rightarrow> string) \<Rightarrow> (network \<times> string ClientEnd ShardCtrl.Clerk) option" where
  "ctrlerclerk rn ct names = do {
     (rn, ces) \<leftarrow> linkEnds rn (\<lambda>j. ctrlername ct (int j)) names [0..<ctlN ct];
     Some (rn, ShardCtrl.MakeClerk ces)
   }"

text \<open>The map of a join: each group by its number, with the names of its servers.\<close>

fun joinMap :: "('c, 'd, 'b) config \<Rightarrow> int list \<Rightarrow> (int \<rightharpoonup> string list) \<Rightarrow> (int \<rightharpoonup> string list) option" where
  "joinMap cfg [] m = Some m"
| "joinMap cfg (g # gis) m = do {
     gg \<leftarrow> groupAt cfg g;
     joinMap cfg gis (m(gid gg \<mapsto> map (\<lambda>i. servername (gid gg) (int i)) [0..<skN cfg]))
   }"

text \<open>The clerk's loop may wait forever.\<close>

definition orBlocked :: "'w option \<Rightarrow> 'w Run" where
  "orBlocked r = (case r of None \<Rightarrow> Blocked | Some w \<Rightarrow> Ret w)"

definition joinm ::
  "('w \<Rightarrow> string ClientEnd \<Rightarrow> JoinArgs \<Rightarrow> 'w \<times> JoinReply option) \<Rightarrow> ('w \<Rightarrow> 'w) \<Rightarrow> ('c, 'd, 'b) config \<Rightarrow> int list \<Rightarrow> ('d, 'b) ctrler \<Rightarrow> 'w \<Rightarrow> 'w Run" where
  "joinm call sleep cfg gis ct w =
     (case joinMap cfg gis Map.empty of
        None \<Rightarrow> Panic
      | Some m \<Rightarrow> (case ctlCk ct of None \<Rightarrow> Panic | Some ck \<Rightarrow> orBlocked (ClerkJoin call sleep ck m w)))"

definition join where
  "join call sleep cfg gi w = joinm call sleep cfg [gi] (ctl cfg) w"

definition ctljoin where
  "ctljoin call sleep cfg gi ct w = joinm call sleep cfg [gi] ct w"

fun gidsOf :: "('c, 'd, 'b) config \<Rightarrow> int list \<Rightarrow> int list option" where
  "gidsOf cfg [] = Some []"
| "gidsOf cfg (g # gis) = do { gg \<leftarrow> groupAt cfg g; gids \<leftarrow> gidsOf cfg gis; Some (gid gg # gids) }"

definition leavem ::
  "('w \<Rightarrow> string ClientEnd \<Rightarrow> LeaveArgs \<Rightarrow> 'w \<times> LeaveReply option) \<Rightarrow> ('w \<Rightarrow> 'w) \<Rightarrow> ('c, 'd, 'b) config \<Rightarrow> int list \<Rightarrow> 'w \<Rightarrow> 'w Run" where
  "leavem call sleep cfg gis w =
     (case gidsOf cfg gis of
        None \<Rightarrow> Panic
      | Some gids \<Rightarrow> (case ctlCk (ctl cfg) of None \<Rightarrow> Panic | Some ck \<Rightarrow> orBlocked (ClerkLeave call sleep ck gids w)))"

definition leave where
  "leave call sleep cfg gi w = leavem call sleep cfg [gi] w"

text \<open>The loop that starts the servers of the controller.\<close>

fun ctrlerLoop ::
  "(place \<Rightarrow> string) \<Rightarrow> (nat \<Rightarrow> nat) \<Rightarrow> network \<Rightarrow> ('d, 'b) ctrler \<Rightarrow> nat list \<Rightarrow> (network \<times> ('d, 'b) ctrler) option" where
  "ctrlerLoop rnd srv rn ct [] = Some (rn, ct)"
| "ctrlerLoop rnd srv rn ct (i # is) = do {
     (rn, ct) \<leftarrow> StartCtrlerServer rn ct (int i) (\<lambda>j. rnd (CtlEnd i j)) (srv i);
     ctrlerLoop rnd srv rn ct is
   }"

definition emptyCtrler :: "(place \<Rightarrow> string) \<Rightarrow> ('d, 'b) ctrler" where
  "emptyCtrler rnd =
     \<lparr>ctlN = 3, ctlServers = replicate 3 None, ctlNames = map (\<lambda>i. ''ctlr-'' @ rnd (CtlName i)) [0..<3], ctlCk = None\<rparr>"

definition StartCtrlerService :: "(place \<Rightarrow> string) \<Rightarrow> (nat \<Rightarrow> nat) \<Rightarrow> network \<Rightarrow> (network \<times> ('d, 'b) ctrler) option" where
  "StartCtrlerService rnd srv rn = do {
     let ct = emptyCtrler rnd;
     (rn, ct) \<leftarrow> ctrlerLoop rnd srv rn ct [0..<ctlN ct];
     (rn, ck) \<leftarrow> ctrlerclerk rn ct (\<lambda>j. rnd (CtlClerk j));
     Some (rn, ct\<lparr>ctlCk := Some ck\<rparr>)
   }"

section \<open>Configurations\<close>

definition newGroup :: "('c, 'd, 'b) config \<Rightarrow> int \<Rightarrow> ('c, 'b) group" where
  "newGroup cfg gi =
     \<lparr>gid = 100 + gi, gServers = replicate (skN cfg) None, gSaved = replicate (skN cfg) None,
      gEndnames = replicate (skN cfg) None, mendnames = replicate (ctlN (ctl cfg)) None\<rparr>"

definition bringUpGroup ::
  "(string \<Rightarrow> string ClientEnd) \<Rightarrow> (place \<Rightarrow> string) \<Rightarrow> (nat \<Rightarrow> nat \<Rightarrow> nat) \<Rightarrow> ('c, 'd, 'b) config \<Rightarrow> int \<Rightarrow> ('c, 'd, 'b) config option" where
  "bringUpGroup mk rnd srv cfg gi = do {
     groups' \<leftarrow> go_set (groups cfg) gi (Some (newGroup cfg gi));
     eachServer (startOne mk rnd srv gi) (cfg\<lparr>groups := groups'\<rparr>) (map int [0..<skN cfg])
   }"

definition make_config ::
  "(string \<Rightarrow> string ClientEnd) \<Rightarrow> (place \<Rightarrow> string) \<Rightarrow> (nat \<Rightarrow> nat) \<Rightarrow> (nat \<Rightarrow> nat \<Rightarrow> nat) \<Rightarrow> nat \<Rightarrow> bool \<Rightarrow> int \<Rightarrow>
   ('c, 'd, 'b) config option" where
  "make_config mk rnd csrv srv n unreliable maxraftstate = do {
     (rn, ct) \<leftarrow> StartCtrlerService rnd csrv MakeNetwork;
     let cfg = \<lparr>skNet = rn, ctl = ct, ngroups = 3, skN = n, groups = replicate 3 None, skClerks = Map.empty,
                skNextClientId = 0, cfgMaxraftstate = maxraftstate\<rparr>;
     cfg \<leftarrow> eachServer (bringUpGroup mk rnd srv) cfg (map int [0..<ngroups cfg]);
     Some (cfg\<lparr>skClerks := Map.empty, skNextClientId := int (skN cfg) + 1000, skNet := Reliable (skNet cfg) (\<not> unreliable)\<rparr>)
   }"

text \<open>A controller that is nil panics.\<close>

fun killCtrlers :: "('d, 'b) ctrler \<Rightarrow> nat list \<Rightarrow> ('d, 'b) ctrler option" where
  "killCtrlers ct [] = Some ct"
| "killCtrlers ct (i # is) = do {
     sc \<leftarrow> go_index (ctlServers ct) (int i);
     sc \<leftarrow> sc;
     killCtrlers (ct\<lparr>ctlServers := (ctlServers ct)[i := Some (ShardCtrl.Kill sc)]\<rparr>) is
   }"

definition cleanup :: "('c, 'd, 'b) config \<Rightarrow> bool \<Rightarrow> nat \<Rightarrow> ('c, 'd, 'b) config option" where
  "cleanup cfg tFailed seconds = do {
     cfg \<leftarrow> eachServer ShutdownGroup cfg (map int [0..<ngroups cfg]);
     ct \<leftarrow> killCtrlers (ctl cfg) [0..<ctlN (ctl cfg)];
     (case Cleanup (skNet cfg) of
        Ret rn \<Rightarrow> do { checkTimeout tFailed seconds; Some (cfg\<lparr>ctl := ct, skNet := rn\<rparr>) }
      | _ \<Rightarrow> None)
   }"

end
