(* ===== verification/ShardKvConfigProps.thy ===== *)
theory ShardKvConfigProps
  imports ShardKvConfig
begin

text \<open>
  What the harness of the sharded service keeps: every running server has enabled ends to the servers of its group and to the
  controllers, under names of its own, and the network knows it by its name.  A server that is shut down and started again
  finds what it had persisted.
\<close>

section \<open>Names\<close>

lemma servername_inj: "servername (int a) (int b) = servername (int c) (int d) \<longleftrightarrow> a = c \<and> b = d"
  using dashed_inj[of a b c d] by (simp add: servername_def itoaInt_def)

lemma servername_hd: "servername g i \<noteq> [] \<and> hd (servername g i) = CHR ''s''"
  by (simp add: servername_def)

section \<open>Making ends\<close>

definition leadsTo :: "network \<Rightarrow> string \<Rightarrow> string option \<Rightarrow> bool" where
  "leadsTo rn e t \<longleftrightarrow> ends rn e \<noteq> None \<and> enabled rn e \<and> connections rn e = t"

text \<open>\<open>onlyEnds rn rn' E\<close>: the two networks differ in the ends \<open>E\<close> at most.\<close>

definition onlyEnds :: "network \<Rightarrow> network \<Rightarrow> string set \<Rightarrow> bool" where
  "onlyEnds rn rn' E \<longleftrightarrow>
     Network.servers rn' = Network.servers rn \<and> reliable rn' = reliable rn \<and> doneClosed rn' = doneClosed rn \<and>
     (\<forall>e. e \<notin> E \<longrightarrow> ends rn' e = ends rn e \<and> enabled rn' e = enabled rn e \<and> connections rn' e = connections rn e)"

lemma onlyEnds_refl [simp]: "onlyEnds rn rn E"
  by (simp add: onlyEnds_def)

lemma onlyEnds_trans: "onlyEnds a b E \<Longrightarrow> onlyEnds b c F \<Longrightarrow> onlyEnds a c (E \<union> F)"
  by (simp add: onlyEnds_def)

lemma onlyEnds_servers: "onlyEnds rn rn' E \<Longrightarrow> Network.servers rn' = Network.servers rn"
  by (simp add: onlyEnds_def)

lemma onlyEnds_leadsTo: "onlyEnds rn rn' E \<Longrightarrow> e \<notin> E \<Longrightarrow> leadsTo rn' e t = leadsTo rn e t"
  by (simp add: onlyEnds_def leadsTo_def)

lemma onlyEnds_ends: "onlyEnds rn rn' E \<Longrightarrow> e \<notin> E \<Longrightarrow> ends rn' e = ends rn e"
  by (simp add: onlyEnds_def)

lemma makeEndTo_effect:
  assumes "ends rn e = None"
  shows "\<exists>rn'. makeEndTo rn e t = Some (rn', \<lparr>ceName = e\<rparr>) \<and> onlyEnds rn rn' {e} \<and> leadsTo rn' e (Some t)"
  using assms by (simp add: makeEndTo_def MakeEnd_def Connect_def Enable_def onlyEnds_def leadsTo_def)

lemma linkEnds_effect:
  assumes "distinct js" "inj_on names (set js)" "\<forall>j \<in> set js. ends rn (names j) = None" "\<forall>j \<in> set js. target j \<noteq> None"
  shows "\<exists>rn'. linkEnds rn target names js = Some (rn', map (\<lambda>j. \<lparr>ceName = names j\<rparr>) js) \<and>
    onlyEnds rn rn' (names ` set js) \<and> (\<forall>j \<in> set js. leadsTo rn' (names j) (target j))"
  using assms
proof (induction js arbitrary: rn)
  case (Cons j js)
  obtain t where t: "target j = Some t" using Cons.prems(4) by auto
  have "ends rn (names j) = None" using Cons.prems(3) by simp
  from makeEndTo_effect[OF this, of t] obtain rn1 where
    r1: "makeEndTo rn (names j) t = Some (rn1, \<lparr>ceName = names j\<rparr>)" "onlyEnds rn rn1 {names j}" "leadsTo rn1 (names j) (Some t)" by blast
  have other: "names k \<noteq> names j" if "k \<in> set js" for k using Cons.prems(1,2) that by (auto simp: inj_on_def)
  have "\<forall>k \<in> set js. ends rn1 (names k) = None" using Cons.prems(3) onlyEnds_ends[OF r1(2)] other by auto
  then obtain rn2 where r2: "linkEnds rn1 target names js = Some (rn2, map (\<lambda>j. \<lparr>ceName = names j\<rparr>) js)"
    "onlyEnds rn1 rn2 (names ` set js)" "\<forall>k \<in> set js. leadsTo rn2 (names k) (target k)"
    using Cons.IH[of rn1] Cons.prems(1,2,4) by auto
  have "leadsTo rn2 (names j) (target j)" using onlyEnds_leadsTo[OF r2(2)] r1(3) other t by (metis imageE)
  moreover have "onlyEnds rn rn2 (names ` set (j # js))" using onlyEnds_trans[OF r1(2) r2(2)] by simp
  ultimately show ?case using t r1(1) r2(1,3) by simp
qed simp

section \<open>The invariant\<close>

definition rowNames :: "string list option list \<Rightarrow> nat \<Rightarrow> string set" where
  "rowNames rows i = (if i < length rows then (case rows ! i of None \<Rightarrow> {} | Some row \<Rightarrow> set row) else {})"

definition usedBy :: "('c, 'b) group \<Rightarrow> nat \<Rightarrow> string set" where
  "usedBy gg i = rowNames (gEndnames gg) i \<union> rowNames (mendnames gg) i"

text \<open>A row of ends that are on and lead where they should.\<close>

definition rowLeads :: "network \<Rightarrow> string list option list \<Rightarrow> nat \<Rightarrow> nat \<Rightarrow> (nat \<Rightarrow> string option) \<Rightarrow> bool" where
  "rowLeads rn rows i len target \<longleftrightarrow> (\<exists>row. rows ! i = Some row \<and> length row = len \<and> (\<forall>j < len. leadsTo rn (row ! j) (target j)))"

definition serverUp :: "('c, 'd, 'b) config \<Rightarrow> ('c, 'b) group \<Rightarrow> nat \<Rightarrow> ('c, 'b) kvServer \<Rightarrow> bool" where
  "serverUp cfg gg i kv \<longleftrightarrow>
     sound (skRf kv) \<and> skGid kv = gid gg \<and> gSaved gg ! i \<noteq> None \<and>
     rowLeads (skNet cfg) (gEndnames gg) i (skN cfg) (\<lambda>j. Some (servername (gid gg) (int j))) \<and>
     rowLeads (skNet cfg) (mendnames gg) i (ctlN (ctl cfg)) (\<lambda>j. ctrlername (ctl cfg) (int j))"

definition groupOk :: "('c, 'd, 'b) config \<Rightarrow> ('c, 'b) group \<Rightarrow> bool" where
  "groupOk cfg gg \<longleftrightarrow>
     length (gServers gg) = skN cfg \<and> length (gSaved gg) = skN cfg \<and> length (gEndnames gg) = skN cfg \<and>
     length (mendnames gg) = ctlN (ctl cfg) \<and>
     (\<forall>i < skN cfg. (Network.servers (skNet cfg) (servername (gid gg) (int i)) \<noteq> None \<longleftrightarrow> gServers gg ! i \<noteq> None) \<and>
        (\<forall>kv. gServers gg ! i = Some kv \<longrightarrow> serverUp cfg gg i kv) \<and>
        (\<forall>e \<in> usedBy gg i. ends (skNet cfg) e \<noteq> None))"

definition ctrlersOk :: "('c, 'd, 'b) config \<Rightarrow> bool" where
  "ctrlersOk cfg \<longleftrightarrow>
     skN cfg \<le> ctlN (ctl cfg) \<and> length (ctlNames (ctl cfg)) = ctlN (ctl cfg) \<and> length (groups cfg) = ngroups cfg \<and>
     (\<forall>name \<in> set (ctlNames (ctl cfg)). hd name = CHR ''c'' \<and> Network.servers (skNet cfg) name \<noteq> None)"

definition cfgOk :: "('c, 'd, 'b) config \<Rightarrow> bool" where
  "cfgOk cfg \<longleftrightarrow> ctrlersOk cfg \<and>
     (\<forall>gi < ngroups cfg. \<forall>gg. groups cfg ! gi = Some gg \<longrightarrow> gid gg = int (100 + gi) \<and> groupOk cfg gg) \<and>
     (\<forall>gi < ngroups cfg. \<forall>gi' < ngroups cfg. \<forall>gg gg' i i'.
        groups cfg ! gi = Some gg \<longrightarrow> groups cfg ! gi' = Some gg' \<longrightarrow> i < skN cfg \<longrightarrow> i' < skN cfg \<longrightarrow> (gi, i) \<noteq> (gi', i') \<longrightarrow>
        usedBy gg i \<inter> usedBy gg' i' = {})"

section \<open>Changing one server\<close>

abbreviation setServer :: "network \<Rightarrow> string \<Rightarrow> nat option \<Rightarrow> network" where
  "setServer rn name v \<equiv> rn\<lparr>Network.servers := (Network.servers rn)(name := v)\<rparr>"

lemma leadsTo_servers [simp]: "leadsTo (rn\<lparr>Network.servers := f\<rparr>) e t = leadsTo rn e t"
  by (simp add: leadsTo_def)

lemma rowLeads_servers [simp]: "rowLeads (rn\<lparr>Network.servers := f\<rparr>) rows i len target = rowLeads rn rows i len target"
  by (simp add: rowLeads_def)

lemma rowLeads_frame:
  assumes "rowLeads rn rows i len target" "i < length rows" "rowNames rows i \<inter> E = {}" "onlyEnds rn rn' E"
  shows "rowLeads rn' rows i len target"
proof -
  obtain row where r: "rows ! i = Some row" "length row = len" "\<forall>j < len. leadsTo rn (row ! j) (target j)"
    using assms(1) unfolding rowLeads_def by blast
  have "row ! j \<notin> E" if "j < len" for j
  proof -
    have "row ! j \<in> rowNames rows i" using that r(1,2) assms(2) by (simp add: rowNames_def)
    then show ?thesis using assms(3) by blast
  qed
  then have "\<forall>j < len. leadsTo rn' (row ! j) (target j)" using r(3) onlyEnds_leadsTo[OF assms(4)] by auto
  then show ?thesis using r(1,2) unfolding rowLeads_def by blast
qed

lemma rowNames_update [simp]:
  "i' \<noteq> i \<Longrightarrow> rowNames (rows[i := x]) i' = rowNames rows i'"
  "i < length rows \<Longrightarrow> rowNames (rows[i := Some row]) i = set row"
  by (simp_all add: rowNames_def)

text \<open>No other server has an end of \<open>E\<close>.\<close>

definition ownEnds :: "('c, 'd, 'b) config \<Rightarrow> nat \<Rightarrow> nat \<Rightarrow> string set \<Rightarrow> bool" where
  "ownEnds cfg gi i E \<longleftrightarrow>
     (\<forall>gi' < ngroups cfg. \<forall>gg' i'. groups cfg ! gi' = Some gg' \<longrightarrow> i' < skN cfg \<longrightarrow> (gi', i') \<noteq> (gi, i) \<longrightarrow> usedBy gg' i' \<inter> E = {})"

text \<open>\<open>gg'\<close> differs from \<open>gg\<close> in place \<open>i\<close> only.\<close>

definition oneChanged :: "nat \<Rightarrow> ('c, 'b) group \<Rightarrow> ('c, 'b) group \<Rightarrow> bool" where
  "oneChanged i gg gg' \<longleftrightarrow>
     (\<exists>s p r r'. gg' = gg\<lparr>gServers := (gServers gg)[i := s], gSaved := (gSaved gg)[i := p],
        gEndnames := (gEndnames gg)[i := r], mendnames := (mendnames gg)[i := r']\<rparr>)"

lemma oneChanged_fields:
  assumes "oneChanged i gg gg'"
  shows "gid gg' = gid gg" "length (gServers gg') = length (gServers gg)" "length (gSaved gg') = length (gSaved gg)"
    "length (gEndnames gg') = length (gEndnames gg)" "length (mendnames gg') = length (mendnames gg)"
    "i' \<noteq> i \<Longrightarrow> gServers gg' ! i' = gServers gg ! i'" "i' \<noteq> i \<Longrightarrow> gSaved gg' ! i' = gSaved gg ! i'"
    "i' \<noteq> i \<Longrightarrow> gEndnames gg' ! i' = gEndnames gg ! i'" "i' \<noteq> i \<Longrightarrow> mendnames gg' ! i' = mendnames gg ! i'"
    "i' \<noteq> i \<Longrightarrow> usedBy gg' i' = usedBy gg i'"
  using assms by (auto simp: oneChanged_def usedBy_def)

lemma serverUp_frame:
  assumes up: "serverUp cfg gg i kv" and i: "i < length (gEndnames gg)" "i < length (mendnames gg)"
    and E: "usedBy gg i \<inter> E = {}" "onlyEnds (skNet cfg) rn E"
    and cfg': "skNet cfg' = setServer rn name v" "skN cfg' = skN cfg" "ctl cfg' = ctl cfg"
    and same: "gid gg' = gid gg" "gSaved gg' ! i = gSaved gg ! i" "gEndnames gg' ! i = gEndnames gg ! i" "mendnames gg' ! i = mendnames gg ! i"
  shows "serverUp cfg' gg' i kv"
proof -
  have "rowNames (gEndnames gg) i \<inter> E = {}" "rowNames (mendnames gg) i \<inter> E = {}" using E(1) by (auto simp: usedBy_def)
  then have "rowLeads rn (gEndnames gg) i (skN cfg) (\<lambda>j. Some (servername (gid gg) (int j)))"
    "rowLeads rn (mendnames gg) i (ctlN (ctl cfg)) (\<lambda>j. ctrlername (ctl cfg) (int j))"
    using up i E(2) by (auto simp: serverUp_def intro: rowLeads_frame)
  then show ?thesis using up by (simp add: serverUp_def cfg' same rowLeads_def)
qed

lemma groupOk_frame:
  assumes ok: "groupOk cfg gg" and n: "skN cfg \<le> ctlN (ctl cfg)" and E: "\<forall>i < skN cfg. i \<noteq> k \<longrightarrow> usedBy gg i \<inter> E = {}" "onlyEnds (skNet cfg) rn E"
    and cfg': "skNet cfg' = setServer rn name v" "skN cfg' = skN cfg" "ctl cfg' = ctl cfg"
    and ch: "oneChanged k gg gg'" and name: "\<forall>i < skN cfg. i \<noteq> k \<longrightarrow> servername (gid gg) (int i) \<noteq> name"
    and new: "k < skN cfg \<longrightarrow> (Network.servers (skNet cfg') (servername (gid gg) (int k)) \<noteq> None \<longleftrightarrow> gServers gg' ! k \<noteq> None) \<and>
      (\<forall>kv. gServers gg' ! k = Some kv \<longrightarrow> serverUp cfg' gg' k kv) \<and> (\<forall>e \<in> usedBy gg' k. ends rn e \<noteq> None)"
  shows "groupOk cfg' gg'"
proof -
  note f = oneChanged_fields[OF ch]
  have len: "length (gServers gg) = skN cfg" "length (gSaved gg) = skN cfg" "length (gEndnames gg) = skN cfg"
    "length (mendnames gg) = ctlN (ctl cfg)" using ok by (auto simp: groupOk_def)
  have "(Network.servers (skNet cfg') (servername (gid gg') (int i)) \<noteq> None \<longleftrightarrow> gServers gg' ! i \<noteq> None) \<and>
      (\<forall>kv. gServers gg' ! i = Some kv \<longrightarrow> serverUp cfg' gg' i kv) \<and> (\<forall>e \<in> usedBy gg' i. ends (skNet cfg') e \<noteq> None)"
    if i: "i < skN cfg" for i
  proof (cases "i = k")
    case True
    then show ?thesis using new i by (simp add: f(1) cfg'(1))
  next
    case False
    have old: "(Network.servers (skNet cfg) (servername (gid gg) (int i)) \<noteq> None \<longleftrightarrow> gServers gg ! i \<noteq> None)"
      "\<forall>kv. gServers gg ! i = Some kv \<longrightarrow> serverUp cfg gg i kv" "\<forall>e \<in> usedBy gg i. ends (skNet cfg) e \<noteq> None"
      using ok i unfolding groupOk_def by blast+
    have E': "usedBy gg i \<inter> E = {}" using E(1) i False by blast
    have "\<forall>kv. gServers gg' ! i = Some kv \<longrightarrow> serverUp cfg' gg' i kv"
      using old(2) serverUp_frame[OF _ _ _ E' E(2) cfg'] i n len f(1,6,7,8,9) False by auto
    moreover have "\<forall>e \<in> usedBy gg' i. ends (skNet cfg') e \<noteq> None"
      using old(3) E' onlyEnds_ends[OF E(2)] unfolding f(10)[OF False] cfg'(1) by (metis IntI Network.ext_inject Network.surjective Network.update_convs(6) empty_iff)
    moreover have "Network.servers (skNet cfg') (servername (gid gg') (int i)) = Network.servers (skNet cfg) (servername (gid gg) (int i))"
      using name i False onlyEnds_servers[OF E(2)] by (simp add: f(1) cfg'(1))
    ultimately show ?thesis using old(1) f(6)[OF False] by simp
  qed
  then show ?thesis using len by (simp add: groupOk_def f cfg')
qed

lemma cfgOk_group:
  assumes "cfgOk cfg" "gi < ngroups cfg" "groups cfg ! gi = Some gg"
  shows "gid gg = int (100 + gi)" "groupOk cfg gg"
  using assms unfolding cfgOk_def by blast+

lemma cfgOk_ownEnds:
  assumes "cfgOk cfg" "gi < ngroups cfg" "groups cfg ! gi = Some gg" "i < skN cfg"
  shows "ownEnds cfg gi i (usedBy gg i)"
  using assms unfolding cfgOk_def ownEnds_def by (metis Pair_inject)

lemma fresh_ownEnds:
  assumes "cfgOk cfg" "\<forall>e \<in> E. ends (skNet cfg) e = None"
  shows "ownEnds cfg gi i E"
proof -
  have "e \<notin> E" if "gi' < ngroups cfg" "groups cfg ! gi' = Some gg'" "i' < skN cfg" "e \<in> usedBy gg' i'" for gi' gg' i' e
    using cfgOk_group(2)[OF assms(1) that(1,2)] that(3,4) assms(2) unfolding groupOk_def by blast
  then show ?thesis unfolding ownEnds_def by blast
qed

lemma cfgOk_update:
  assumes ok: "cfgOk cfg" and gi: "gi < ngroups cfg" "groups cfg ! gi = Some gg" and i: "i < skN cfg"
    and ch: "oneChanged i gg gg'" and E: "onlyEnds (skNet cfg) rn E" "ownEnds cfg gi i E" "usedBy gg' i \<subseteq> E" "\<forall>e \<in> usedBy gg' i. ends rn e \<noteq> None"
    and cfg': "cfg' = setGroup (cfg\<lparr>skNet := setServer rn (servername (gid gg) (int i)) v\<rparr>) (int gi) gg'"
    and v: "v \<noteq> None \<longleftrightarrow> gServers gg' ! i \<noteq> None" and up: "\<forall>kv. gServers gg' ! i = Some kv \<longrightarrow> serverUp cfg' gg' i kv"
  shows "cfgOk cfg'"
proof -
  let ?name = "servername (gid gg) (int i)"
  have ctl: "ctrlersOk cfg" using ok by (simp add: cfgOk_def)
  have n: "skN cfg \<le> ctlN (ctl cfg)" "length (groups cfg) = ngroups cfg" using ctl by (auto simp: ctrlersOk_def)
  have fields: "skNet cfg' = setServer rn ?name v" "skN cfg' = skN cfg" "ctl cfg' = ctl cfg" "ngroups cfg' = ngroups cfg"
    "groups cfg' = (groups cfg)[gi := Some gg']" by (simp_all add: cfg' setGroup_def)
  have gid: "gid gg = int (100 + gi)" by (rule cfgOk_group(1)[OF ok gi])
  have one: "gid g = int (100 + k) \<and> groupOk cfg' g" if k: "k < ngroups cfg'" "groups cfg' ! k = Some g" for k g
  proof (cases "k = gi")
    case True
    then have g: "g = gg'" using k(2) gi(1) n(2) by (simp add: fields)
    have "groupOk cfg' gg'"
    proof (rule groupOk_frame[OF cfgOk_group(2)[OF ok gi] n(1) _ E(1) fields(1-3) ch])
      show "\<forall>k < skN cfg. k \<noteq> i \<longrightarrow> usedBy gg k \<inter> E = {}" using E(2) gi unfolding ownEnds_def by auto
      show "\<forall>k < skN cfg. k \<noteq> i \<longrightarrow> servername (gid gg) (int k) \<noteq> ?name" unfolding gid servername_inj by simp
    qed (use v up E(4) fields(1) in auto)
    then show ?thesis using g True gid oneChanged_fields(1)[OF ch] by simp
  next
    case False
    have k': "k < ngroups cfg" "groups cfg ! k = Some g" using k False by (simp_all add: fields)
    note g = cfgOk_group[OF ok k']
    have self: "oneChanged (ctlN (ctl cfg)) g g" using g(2) n(1) unfolding oneChanged_def groupOk_def by (simp add: list_update_beyond)
    have "groupOk cfg' g"
    proof (rule groupOk_frame[OF g(2) n(1) _ E(1) fields(1-3)])
      show "\<forall>j < skN cfg. j \<noteq> ctlN (ctl cfg) \<longrightarrow> usedBy g j \<inter> E = {}" using E(2) k' False unfolding ownEnds_def by auto
      show "\<forall>j < skN cfg. j \<noteq> ctlN (ctl cfg) \<longrightarrow> servername (gid g) (int j) \<noteq> ?name"
        using False unfolding g(1) gid servername_inj by simp
    qed (use self n(1) in auto)
    then show ?thesis using g(1) by simp
  qed
  have dis: "usedBy g j \<inter> usedBy g' j' = {}"
    if t: "k < ngroups cfg'" "k' < ngroups cfg'" "groups cfg' ! k = Some g" "groups cfg' ! k' = Some g'" "j < skN cfg'" "j' < skN cfg'" "(k, j) \<noteq> (k', j')"
    for k k' g g' j j'
  proof -
    have before: "\<exists>h. groups cfg ! k = Some h \<and> usedBy g j = usedBy h j" if "k < ngroups cfg'" "groups cfg' ! k = Some g" "(k, j) \<noteq> (gi, i)" for k g j
      using that gi oneChanged_fields(10)[OF ch, of j] n(2) by (cases "k = gi") (auto simp: fields)
    have mine: "usedBy g j \<subseteq> E" if "groups cfg' ! gi = Some g" "j = i" for g j using that E(3) gi(1) n(2) by (simp add: fields)
    have apart: "usedBy g j \<inter> E = {}" if c: "k < ngroups cfg'" "groups cfg' ! k = Some g" "j < skN cfg'" "(k, j) \<noteq> (gi, i)" for k g j
    proof -
      obtain h where "groups cfg ! k = Some h" "usedBy g j = usedBy h j" using before[OF c(1,2,4)] by blast
      then show ?thesis using E(2) c unfolding ownEnds_def fields by blast
    qed
    show ?thesis
    proof (cases "(k, j) = (gi, i)")
      case True
      then show ?thesis using mine[of g j] apart[of k' g' j'] t by auto
    next
      case kj: False
      show ?thesis
      proof (cases "(k', j') = (gi, i)")
        case True
        then show ?thesis using mine[of g' j'] apart[of k g j] t kj by auto
      next
        case False
        obtain h h' where "groups cfg ! k = Some h" "usedBy g j = usedBy h j" "groups cfg ! k' = Some h'" "usedBy g' j' = usedBy h' j'"
          using before[OF t(1,3) kj] before[OF t(2,4) False] by blast
        then show ?thesis using ok t unfolding cfgOk_def fields by metis
      qed
    qed
  qed
  have "ctrlersOk cfg'" using ctl servername_hd[of "gid gg" "int i"] onlyEnds_servers[OF E(1)] by (auto simp: ctrlersOk_def fields)
  then show ?thesis unfolding cfgOk_def using one dis by blast
qed

section \<open>Starting and stopping a server\<close>

text \<open>The peer of a server has the term, vote and log that are persisted.\<close>

definition samePeer :: "('c, 'b) Raft \<Rightarrow> ('c, 'b) Raft \<Rightarrow> bool" where
  "samePeer rf' rf \<longleftrightarrow> persister rf' = persister rf \<and> CurrentTerm rf' = CurrentTerm rf \<and> VotedFor rf' = VotedFor rf \<and> Log rf' = Log rf"

lemma server_starts:
  fixes sv :: "('c gobValue, 'b) Persister option"
  assumes i: "i < n" and sv: "sv = None \<or> (\<exists>rf. sound rf \<and> sv = Some (persister rf))"
  shows "\<exists>kv. ShardKv.StartServer n (int i) (case sv of Some p \<Rightarrow> Copy p | None \<Rightarrow> MakePersister) maxstate g mends mk = Some kv \<and>
    sound (skRf kv) \<and> skGid kv = g \<and> (\<forall>rf. sound rf \<and> sv = Some (persister rf) \<longrightarrow> samePeer (skRf kv) rf)"
proof (cases sv)
  case None
  obtain peer :: "('c, 'b) Raft" where "Make n (int i) MakePersister = Some peer" "sound peer" using Make_afresh[of "int i" n] i by auto
  then show ?thesis using None by (simp add: ShardKv.StartServer_def)
next
  case (Some p)
  then obtain rf where rf: "sound rf" "p = persister rf" using sv by auto
  obtain peer where peer: "Make n (int i) p = Some peer" "sound peer" "samePeer peer rf"
    using Make_again[OF rf(1), of "int i" n] i rf(2) by (auto simp: samePeer_def)
  have "samePeer peer rf'" if rf': "sound rf'" "p = persister rf'" for rf'
    using Make_again[OF rf'(1), of "int i" n] i rf'(2) peer(1) by (auto simp: samePeer_def)
  then show ?thesis using Some peer by (simp add: ShardKv.StartServer_def Copy_def)
qed

definition freshNames :: "('c, 'd, 'b) config \<Rightarrow> (nat \<Rightarrow> string) \<Rightarrow> (nat \<Rightarrow> string) \<Rightarrow> bool" where
  "freshNames cfg names mnames \<longleftrightarrow>
     inj_on names {..<skN cfg} \<and> inj_on mnames {..<ctlN (ctl cfg)} \<and> names ` {..<skN cfg} \<inter> mnames ` {..<ctlN (ctl cfg)} = {} \<and>
     (\<forall>e \<in> names ` {..<skN cfg} \<union> mnames ` {..<ctlN (ctl cfg)}. ends (skNet cfg) e = None)"

lemma StartServer_effect:
  fixes cfg :: "('c, 'd, 'b) config"
  assumes ok: "cfgOk cfg" and gi: "gi < ngroups cfg" "groups cfg ! gi = Some gg" and i: "i < skN cfg" and down: "gServers gg ! i = None"
    and sv: "gSaved gg ! i = None \<or> (\<exists>rf. sound rf \<and> gSaved gg ! i = Some (persister rf))" and new: "freshNames cfg names mnames"
  shows "\<exists>cfg' gg' kv. StartServer mk cfg (int gi) (int i) names mnames srv = Some cfg' \<and> cfgOk cfg' \<and>
    cfg' = setGroup (cfg\<lparr>skNet := skNet cfg'\<rparr>) (int gi) gg' \<and> oneChanged i gg gg' \<and>
    gServers gg' ! i = Some kv \<and> sound (skRf kv) \<and> (\<forall>rf. sound rf \<and> gSaved gg ! i = Some (persister rf) \<longrightarrow> samePeer (skRf kv) rf) \<and>
    (\<forall>e. e \<notin> names ` {..<skN cfg} \<union> mnames ` {..<ctlN (ctl cfg)} \<longrightarrow>
       ends (skNet cfg') e = ends (skNet cfg) e \<and> (\<forall>t. leadsTo (skNet cfg') e t = leadsTo (skNet cfg) e t)) \<and>
    (\<forall>name. name \<noteq> servername (gid gg) (int i) \<longrightarrow> Network.servers (skNet cfg') name = Network.servers (skNet cfg) name) \<and>
    reliable (skNet cfg') = reliable (skNet cfg)"
proof -
  let ?n = "skN cfg" and ?m = "ctlN (ctl cfg)" and ?E = "names ` {..<skN cfg} \<union> mnames ` {..<ctlN (ctl cfg)}"
  have ctl: "?n \<le> ?m" "length (ctlNames (ctl cfg)) = ?m" "length (groups cfg) = ngroups cfg" using ok by (auto simp: cfgOk_def ctrlersOk_def)
  note g = cfgOk_group[OF ok gi]
  have len: "length (gServers gg) = ?n" "length (gSaved gg) = ?n" "length (gEndnames gg) = ?n" "length (mendnames gg) = ?m"
    using g(2) by (auto simp: groupOk_def)
  let ?t = "\<lambda>j. Some (servername (gid gg) (int j))" and ?u = "\<lambda>j. ctrlername (ctl cfg) (int j)"
  have set0: "set [0..<k] = {..<k}" for k by auto
  obtain rn1 where r1: "linkEnds (skNet cfg) ?t names [0..<?n] = Some (rn1, map (\<lambda>j. \<lparr>ceName = names j\<rparr>) [0..<?n])"
    "onlyEnds (skNet cfg) rn1 (names ` {..<?n})" "\<forall>j < ?n. leadsTo rn1 (names j) (?t j)"
    using linkEnds_effect[of "[0..<?n]" names "skNet cfg" ?t] new unfolding freshNames_def set0 by auto
  have apart: "mnames k \<notin> names ` {..<?n}" if "k < ?m" for k using new that unfolding freshNames_def by blast
  have apart': "names k \<notin> mnames ` {..<?m}" if "k < ?n" for k using new that unfolding freshNames_def by blast
  have "\<forall>j < ?m. ends (skNet cfg) (mnames j) = None" using new unfolding freshNames_def by blast
  then have "\<forall>j < ?m. ends rn1 (mnames j) = None" using onlyEnds_ends[OF r1(2) apart] by simp
  then obtain rn2 where r2: "linkEnds rn1 ?u mnames [0..<?m] = Some (rn2, map (\<lambda>j. \<lparr>ceName = mnames j\<rparr>) [0..<?m])"
    "onlyEnds rn1 rn2 (mnames ` {..<?m})" "\<forall>j < ?m. leadsTo rn2 (mnames j) (?u j)"
    using linkEnds_effect[of "[0..<?m]" mnames rn1 ?u] new ctl(2) unfolding freshNames_def set0 by (auto simp: ctrlername_def go_index_def)
  have only: "onlyEnds (skNet cfg) rn2 ?E" by (rule onlyEnds_trans[OF r1(2) r2(2)])
  have lead1: "\<forall>j < ?n. leadsTo rn2 (names j) (?t j)"
    using r1(3) onlyEnds_leadsTo[OF r2(2) apart'] by simp
  let ?sv = "gSaved gg ! i"
  let ?p = "case ?sv of Some p \<Rightarrow> Copy p | None \<Rightarrow> MakePersister" and ?mends = "map (\<lambda>j. \<lparr>ceName = mnames j\<rparr>) [0..<?m]"
  obtain kv where kv: "ShardKv.StartServer ?n (int i) ?p (cfgMaxraftstate cfg) (gid gg) ?mends mk = Some kv" "sound (skRf kv)" "skGid kv = gid gg"
    "\<forall>rf. sound rf \<and> ?sv = Some (persister rf) \<longrightarrow> samePeer (skRf kv) rf"
    using server_starts[OF i sv, of "cfgMaxraftstate cfg" "gid gg" ?mends mk] by blast
  define gg' where "gg' = gg\<lparr>gServers := (gServers gg)[i := Some kv], gSaved := (gSaved gg)[i := Some ?p],
    gEndnames := (gEndnames gg)[i := Some (map names [0..<?n])], mendnames := (mendnames gg)[i := Some (map mnames [0..<?m])]\<rparr>"
  define cfg' where "cfg' = setGroup (cfg\<lparr>skNet := setServer rn2 (servername (gid gg) (int i)) (Some srv)\<rparr>) (int gi) gg'"
  have "groupAt cfg (int gi) = Some gg" using gi ctl(3) by (simp add: groupAt_def go_index_def)
  moreover have "savedIn gg (int i) = Some ?sv" using i len down by (auto simp: savedIn_def go_index_def split: option.splits)
  ultimately have run: "StartServer mk cfg (int gi) (int i) names mnames srv = Some cfg'"
    using i len ctl(1) r1(1) r2(1) kv(1) by (simp add: StartServer_def go_set_def cfg'_def gg'_def AddServer_def)
  have ch: "oneChanged i gg gg'" unfolding oneChanged_def gg'_def by blast
  have kv_at: "gServers gg' ! i = Some kv" using i len by (simp add: gg'_def)
  have used: "usedBy gg' i = ?E" using i len ctl(1) by (auto simp: usedBy_def gg'_def)
  have made: "\<forall>e \<in> usedBy gg' i. ends rn2 e \<noteq> None" using lead1 r2(3) unfolding used leadsTo_def by blast
  have own: "ownEnds cfg gi i ?E" by (rule fresh_ownEnds[OF ok]) (use new in \<open>auto simp: freshNames_def\<close>)
  have fields: "skNet cfg' = setServer rn2 (servername (gid gg) (int i)) (Some srv)" "skN cfg' = ?n" "ctl cfg' = ctl cfg"
    by (simp_all add: cfg'_def setGroup_def)
  have up: "serverUp cfg' gg' i kv"
    using i len ctl(1) kv(2,3) lead1 r2(3) by (simp add: serverUp_def fields gg'_def rowLeads_def)
  have "cfgOk cfg'" by (rule cfgOk_update[OF ok gi i ch only own _ made cfg'_def]) (use used kv_at up in auto)
  moreover have "reliable rn2 = reliable (skNet cfg)" "Network.servers rn2 = Network.servers (skNet cfg)" using only by (simp_all add: onlyEnds_def)
  ultimately show ?thesis using run ch kv(2,4) kv_at onlyEnds_ends[OF only] onlyEnds_leadsTo[OF only]
    by (intro exI[of _ cfg'] exI[of _ gg'] exI[of _ kv]) (auto simp: cfg'_def setGroup_def)
qed

lemma disableRow_effect:
  assumes "i < length rows" "rows ! i = Some row" "\<forall>j \<in> set js. j < length row"
  shows "\<exists>rn'. disableRow rn rows (int i) js = Some rn' \<and> onlyEnds rn rn' (set row) \<and> ends rn' = ends rn \<and>
    (\<forall>e. enabled rn' e \<longrightarrow> enabled rn e) \<and> (\<forall>j \<in> set js. \<not> enabled rn' (row ! j))"
  using assms(3)
proof (induction js arbitrary: rn)
  case (Cons j js)
  let ?rn = "Enable rn (row ! j) False"
  obtain rn' where r: "disableRow ?rn rows (int i) js = Some rn'" "onlyEnds ?rn rn' (set row)" "ends rn' = ends ?rn"
    "\<forall>e. enabled rn' e \<longrightarrow> enabled ?rn e" "\<forall>j \<in> set js. \<not> enabled rn' (row ! j)"
    using Cons.IH[of ?rn] Cons.prems by auto
  have "onlyEnds rn ?rn (set row)" using Cons.prems by (auto simp: onlyEnds_def Enable_def)
  from onlyEnds_trans[OF this r(2)] have "onlyEnds rn rn' (set row)" by simp
  then show ?case using r assms(1,2) Cons.prems by (auto simp: go_index_def Enable_def split: if_splits)
qed simp

lemma ShutdownServer_effect:
  fixes cfg :: "('c, 'd, 'b) config"
  assumes ok: "cfgOk cfg" and gi: "gi < ngroups cfg" "groups cfg ! gi = Some gg" and i: "i < skN cfg" and kv: "gServers gg ! i = Some kv"
  shows "\<exists>cfg' gg'. ShutdownServer cfg (int gi) (int i) = Some (cfg', Some (ShardKv.Kill kv)) \<and> cfgOk cfg' \<and>
    cfg' = setGroup (cfg\<lparr>skNet := skNet cfg'\<rparr>) (int gi) gg' \<and> oneChanged i gg gg' \<and> gServers gg' ! i = None \<and>
    gSaved gg' ! i = Some (persister (skRf kv)) \<and> Network.servers (skNet cfg') (servername (gid gg) (int i)) = None \<and>
    (\<forall>e \<in> usedBy gg i. \<not> enabled (skNet cfg') e) \<and> ends (skNet cfg') = ends (skNet cfg)"
proof -
  let ?n = "skN cfg" and ?m = "ctlN (ctl cfg)"
  have ctl: "?n \<le> ?m" "length (groups cfg) = ngroups cfg" using ok by (auto simp: cfgOk_def ctrlersOk_def)
  note g = cfgOk_group[OF ok gi]
  have len: "length (gServers gg) = ?n" "length (gSaved gg) = ?n" "length (gEndnames gg) = ?n" "length (mendnames gg) = ?m"
    using g(2) by (auto simp: groupOk_def)
  have im: "i < length (gEndnames gg)" "i < length (mendnames gg)" using i len ctl(1) by simp_all
  have up: "serverUp cfg gg i kv" using g(2) i kv unfolding groupOk_def by blast
  obtain row where row: "gEndnames gg ! i = Some row" "length row = ?n" using up unfolding serverUp_def rowLeads_def by blast
  obtain mrow where mrow: "mendnames gg ! i = Some mrow" "length mrow = ?m" using up unfolding serverUp_def rowLeads_def by blast
  obtain p0 where p0: "gSaved gg ! i = Some p0" using up unfolding serverUp_def by blast
  have used: "usedBy gg i = set row \<union> set mrow" using row(1) mrow(1) im by (simp add: usedBy_def rowNames_def)
  have j1: "\<forall>j \<in> set [0..<?n]. j < length row" and j2: "\<forall>j \<in> set [0..<?m]. j < length mrow" using row(2) mrow(2) by simp_all
  obtain rn1 where r1: "disableRow (skNet cfg) (gEndnames gg) (int i) [0..<?n] = Some rn1" "onlyEnds (skNet cfg) rn1 (set row)" "ends rn1 = ends (skNet cfg)"
    "\<forall>j \<in> set [0..<?n]. \<not> enabled rn1 (row ! j)" using disableRow_effect[OF im(1) row(1) j1, of "skNet cfg"] by blast
  obtain rn2 where r2: "disableRow rn1 (mendnames gg) (int i) [0..<?m] = Some rn2" "onlyEnds rn1 rn2 (set mrow)" "ends rn2 = ends rn1"
    "\<forall>e. enabled rn2 e \<longrightarrow> enabled rn1 e" "\<forall>j \<in> set [0..<?m]. \<not> enabled rn2 (mrow ! j)" using disableRow_effect[OF im(2) mrow(1) j2, of rn1] by blast
  have off: "\<not> enabled rn2 e" if "e \<in> usedBy gg i" for e
    using that r1(4) r2(4,5) row(2) mrow(2) unfolding used by (auto simp: in_set_conv_nth)
  define gg' where "gg' = gg\<lparr>gSaved := (gSaved gg)[i := Some (persister (skRf kv))], gServers := (gServers gg)[i := None]\<rparr>"
  define cfg' where "cfg' = setGroup (cfg\<lparr>skNet := setServer rn2 (servername (gid gg) (int i)) None\<rparr>) (int gi) gg'"
  have "groupAt cfg (int gi) = Some gg" using gi ctl(2) by (simp add: groupAt_def go_index_def)
  moreover have "savedIn gg (int i) = Some (Some (persister (skRf kv)))" using i len kv p0 by (simp add: savedIn_def go_index_def)
  moreover have "rowLength (mendnames gg) (int i) = Some ?m" using im(2) mrow by (simp add: rowLength_def go_index_def)
  ultimately have run: "ShutdownServer cfg (int gi) (int i) = Some (cfg', Some (ShardKv.Kill kv))"
    using i len kv r1(1) r2(1) by (simp add: ShutdownServer_def go_set_def go_index_def cfg'_def gg'_def DeleteServer_def Copy_def)
  have ch: "oneChanged i gg gg'" unfolding oneChanged_def gg'_def
    by (intro exI[of _ None] exI[of _ "Some (persister (skRf kv))"] exI[of _ "gEndnames gg ! i"] exI[of _ "mendnames gg ! i"]) (cases gg, simp)
  have down: "gServers gg' ! i = None" "gSaved gg' ! i = Some (persister (skRf kv))" using i len by (simp_all add: gg'_def)
  have same: "usedBy gg' i = usedBy gg i" by (simp add: usedBy_def gg'_def)
  have only: "onlyEnds (skNet cfg) rn2 (usedBy gg i)" unfolding used by (rule onlyEnds_trans[OF r1(2) r2(2)])
  have made: "\<forall>e \<in> usedBy gg' i. ends rn2 e \<noteq> None" using g(2) i r1(3) r2(3) unfolding groupOk_def same by metis
  have "cfgOk cfg'"
    by (rule cfgOk_update[OF ok gi i ch only cfgOk_ownEnds[OF ok gi i] _ made cfg'_def]) (use same down in auto)
  then show ?thesis using run ch down off r1(3) r2(3)
    by (intro exI[of _ cfg'] exI[of _ gg']) (auto simp: cfg'_def setGroup_def)
qed

text \<open>C27. A server of the sharded service that is shut down and started again: in between no request reaches it and none of its
  ends is on; afterwards its peer has the persister, term, vote and log of the one that was killed, its ends lead to its group and to the controllers again, and no other server has been
  touched.\<close>

theorem shard_restart_keeps_state:
  fixes cfg :: "('c, 'd, 'b) config"
  assumes ok: "cfgOk cfg" and gi: "gi < ngroups cfg" "groups cfg ! gi = Some gg" and i: "i < skN cfg" and kv: "gServers gg ! i = Some kv"
    and new: "freshNames cfg names mnames"
  shows "\<exists>cfg1 cfg2 gg2 kv2. ShutdownServer cfg (int gi) (int i) = Some (cfg1, Some (ShardKv.Kill kv)) \<and> cfgOk cfg1 \<and>
    (\<forall>req dice p. reaches (skNet cfg1) req dice \<noteq> Some (servername (gid gg) (int i), p)) \<and>
    (\<forall>e \<in> usedBy gg i. \<not> enabled (skNet cfg1) e) \<and>
    StartServer mk cfg1 (int gi) (int i) names mnames srv = Some cfg2 \<and> cfgOk cfg2 \<and>
    groups cfg2 = (groups cfg)[gi := Some gg2] \<and> gServers gg2 = (gServers gg)[i := Some kv2] \<and>
    serverUp cfg2 gg2 i kv2 \<and> samePeer (skRf kv2) (skRf kv)"
proof -
  note g = cfgOk_group[OF ok gi]
  have len: "length (groups cfg) = ngroups cfg" "length (gServers gg) = skN cfg"
    using ok g(2) by (auto simp: cfgOk_def ctrlersOk_def groupOk_def)
  obtain cfg1 gg1 where s1: "ShutdownServer cfg (int gi) (int i) = Some (cfg1, Some (ShardKv.Kill kv))" "cfgOk cfg1"
    "cfg1 = setGroup (cfg\<lparr>skNet := skNet cfg1\<rparr>) (int gi) gg1" "oneChanged i gg gg1" "gServers gg1 ! i = None"
    "gSaved gg1 ! i = Some (persister (skRf kv))" "Network.servers (skNet cfg1) (servername (gid gg) (int i)) = None"
    "\<forall>e \<in> usedBy gg i. \<not> enabled (skNet cfg1) e" "ends (skNet cfg1) = ends (skNet cfg)"
    using ShutdownServer_effect[OF ok gi i kv] by blast
  have f1: "ngroups cfg1 = ngroups cfg" "skN cfg1 = skN cfg" "ctl cfg1 = ctl cfg" "groups cfg1 = (groups cfg)[gi := Some gg1]"
    by (subst s1(3), simp add: setGroup_def)+
  have gi1: "gi < ngroups cfg1" "groups cfg1 ! gi = Some gg1" "i < skN cfg1" using gi(1) i len(1) by (simp_all add: f1)
  have snd: "sound (skRf kv)" using g(2) i kv unfolding groupOk_def serverUp_def by blast
  have sv: "gSaved gg1 ! i = None \<or> (\<exists>rf. sound rf \<and> gSaved gg1 ! i = Some (persister rf))" using s1(6) snd by blast
  have new1: "freshNames cfg1 names mnames" using new s1(9) by (simp add: freshNames_def f1)
  obtain cfg2 gg2 kv2 where s2: "StartServer mk cfg1 (int gi) (int i) names mnames srv = Some cfg2" "cfgOk cfg2"
    "cfg2 = setGroup (cfg1\<lparr>skNet := skNet cfg2\<rparr>) (int gi) gg2" "oneChanged i gg1 gg2" "gServers gg2 ! i = Some kv2"
    "\<forall>rf. sound rf \<and> gSaved gg1 ! i = Some (persister rf) \<longrightarrow> samePeer (skRf kv2) rf"
    using StartServer_effect[OF s1(2) gi1(1,2,3) s1(5) sv new1, of mk srv] by blast
  have f2: "ngroups cfg2 = ngroups cfg" "skN cfg2 = skN cfg" "groups cfg2 = (groups cfg)[gi := Some gg2]"
    by (subst s2(3), simp add: setGroup_def f1)+
  have servers: "gServers gg2 = (gServers gg)[i := Some kv2]"
  proof (rule nth_equalityI)
    show l: "length (gServers gg2) = length ((gServers gg)[i := Some kv2])"
      using oneChanged_fields(2)[OF s1(4)] oneChanged_fields(2)[OF s2(4)] by simp
    show "gServers gg2 ! k = (gServers gg)[i := Some kv2] ! k" if "k < length (gServers gg2)" for k
      using that l s2(5) oneChanged_fields(6)[OF s1(4), of k] oneChanged_fields(6)[OF s2(4), of k] by (cases "k = i") auto
  qed
  have "groupOk cfg2 gg2" by (rule cfgOk_group(2)[OF s2(2), of gi]) (use gi(1) len(1) in \<open>simp_all add: f2\<close>)
  then have up: "serverUp cfg2 gg2 i kv2" using i s2(5) unfolding groupOk_def f2 by blast
  have "reaches (skNet cfg1) req dice \<noteq> Some (servername (gid gg) (int i), p)" for req dice p
    using s1(7) by (auto simp: reaches_def readEndnameInfo_def split: option.splits if_splits)
  then show ?thesis using s1(1,2,8) s2(1,2,6) f2(3) servers up snd s1(6)
    by (intro exI[of _ cfg1] exI[of _ cfg2] exI[of _ gg2] exI[of _ kv2]) simp
qed

section \<open>The controllers come up\<close>

lemma ctrler_starts:
  assumes "i < n"
  shows "\<exists>sc. ShardCtrl.StartServer n (int i) MakePersister = Some (sc :: ('d, 'b) ShardCtrler)"
proof -
  obtain peer :: "('d, 'b) Raft" where "Make n (int i) MakePersister = Some peer" using Make_afresh[of "int i" n] assms by auto
  then show ?thesis by (simp add: ShardCtrl.StartServer_def)
qed

lemma ctrlerLoop_up:
  fixes ct :: "('d, 'b) ctrler"
  assumes "inj rnd" "distinct is" "\<forall>i \<in> set is. i < ctlN ct" "length (ctlNames ct) = ctlN ct" "length (ctlServers ct) = ctlN ct"
    "\<forall>i \<in> set is. \<forall>j. ends rn (rnd (CtlEnd i j)) = None" "distinct (ctlNames ct)"
  shows "\<exists>rn' svs. ctrlerLoop rnd srv rn ct is = Some (rn', ct\<lparr>ctlServers := svs\<rparr>) \<and> length svs = ctlN ct \<and>
    (\<forall>i < ctlN ct. i \<in> set is \<or> ctlServers ct ! i \<noteq> None \<longrightarrow> svs ! i \<noteq> None) \<and> reliable rn' = reliable rn \<and>
    (\<forall>name. Network.servers rn' name \<noteq> None \<longleftrightarrow> Network.servers rn name \<noteq> None \<or> (\<exists>i \<in> set is. name = ctlNames ct ! i)) \<and>
    (\<forall>e. (\<forall>i j. e \<noteq> rnd (CtlEnd i j)) \<longrightarrow> ends rn' e = ends rn e) \<and>
    (\<forall>i \<in> set is. Network.servers rn' (ctlNames ct ! i) = Some (srv i) \<and> (\<forall>j < ctlN ct. leadsTo rn' (rnd (CtlEnd i j)) (ctrlername ct (int j)))) \<and>
    (\<forall>i < ctlN ct. i \<notin> set is \<longrightarrow> Network.servers rn' (ctlNames ct ! i) = Network.servers rn (ctlNames ct ! i)) \<and>
    (\<forall>e t. (\<forall>i \<in> set is. \<forall>j. e \<noteq> rnd (CtlEnd i j)) \<longrightarrow> leadsTo rn' e t = leadsTo rn e t)"
  using assms
proof (induction "is" arbitrary: rn ct)
  case Nil
  then show ?case by (intro exI[of _ rn] exI[of _ "ctlServers ct"]) simp
next
  case (Cons i "is")
  let ?n = "ctlN ct" and ?names = "\<lambda>j. rnd (CtlEnd i j)" and ?u = "\<lambda>j. ctrlername ct (int j)"
  have inj: "inj_on ?names (set [0..<?n])" using Cons.prems(1) by (auto simp: inj_on_def dest: injD)
  obtain rn1 where r1: "linkEnds rn ?u ?names [0..<?n] = Some (rn1, map (\<lambda>j. \<lparr>ceName = ?names j\<rparr>) [0..<?n])"
    "onlyEnds rn rn1 (?names ` set [0..<?n])" "\<forall>j \<in> set [0..<?n]. leadsTo rn1 (?names j) (?u j)"
    using linkEnds_effect[OF _ inj, of rn ?u] Cons.prems(4,6) by (auto simp: ctrlername_def go_index_def)
  have i: "i < ?n" using Cons.prems(3) by simp
  obtain sc :: "('d, 'b) ShardCtrler" where sc: "ShardCtrl.StartServer ?n (int i) MakePersister = Some sc" using ctrler_starts[OF i] by blast
  let ?rn = "AddServer rn1 (ctlNames ct ! i) (srv i)" and ?ct = "ct\<lparr>ctlServers := (ctlServers ct)[i := Some sc]\<rparr>"
  have one: "StartCtrlerServer rn ct (int i) ?names (srv i) = Some (?rn, ?ct)"
    using r1(1) sc i Cons.prems(4,5) by (simp add: StartCtrlerServer_def go_set_def ctrlername_def go_index_def)
  have e1: "ends ?rn e = ends rn e" if "\<forall>j. e \<noteq> ?names j" for e using that onlyEnds_ends[OF r1(2), of e] by (auto simp: AddServer_def)
  have fresh: "\<forall>k \<in> set is. \<forall>j. ends ?rn (rnd (CtlEnd k j)) = None"
  proof (intro ballI allI)
    fix k j assume k: "k \<in> set is"
    then have "\<forall>j'. rnd (CtlEnd k j) \<noteq> ?names j'" using Cons.prems(1,2) by (auto dest: injD)
    then show "ends ?rn (rnd (CtlEnd k j)) = None" using e1 Cons.prems(6) k by simp
  qed
  have IH: "distinct is" "\<forall>k \<in> set is. k < ctlN ?ct" "length (ctlNames ?ct) = ctlN ?ct" "length (ctlServers ?ct) = ctlN ?ct"
    and dist: "distinct (ctlNames ?ct)" using Cons.prems by simp_all
  obtain rn' svs where r2: "ctrlerLoop rnd srv ?rn ?ct is = Some (rn', ?ct\<lparr>ctlServers := svs\<rparr>)" "length svs = ?n"
    "\<forall>k < ?n. k \<in> set is \<or> ctlServers ?ct ! k \<noteq> None \<longrightarrow> svs ! k \<noteq> None" "reliable rn' = reliable ?rn"
    "\<forall>name. Network.servers rn' name \<noteq> None \<longleftrightarrow> Network.servers ?rn name \<noteq> None \<or> (\<exists>k \<in> set is. name = ctlNames ct ! k)"
    "\<forall>e. (\<forall>k j. e \<noteq> rnd (CtlEnd k j)) \<longrightarrow> ends rn' e = ends ?rn e"
    "\<forall>k \<in> set is. Network.servers rn' (ctlNames ct ! k) = Some (srv k) \<and> (\<forall>j < ?n. leadsTo rn' (rnd (CtlEnd k j)) (?u j))"
    "\<forall>k < ?n. k \<notin> set is \<longrightarrow> Network.servers rn' (ctlNames ct ! k) = Network.servers ?rn (ctlNames ct ! k)"
    "\<forall>e t. (\<forall>k \<in> set is. \<forall>j. e \<noteq> rnd (CtlEnd k j)) \<longrightarrow> leadsTo rn' e t = leadsTo ?rn e t"
    using Cons.IH[OF Cons.prems(1) IH fresh dist] by (auto simp: ctrlername_def)
  have up: "\<forall>k < ?n. k \<in> set (i # is) \<or> ctlServers ct ! k \<noteq> None \<longrightarrow> svs ! k \<noteq> None"
    using r2(3) i Cons.prems(5) by (auto simp: nth_list_update)
  have s1: "Network.servers ?rn name \<noteq> None \<longleftrightarrow> Network.servers rn name \<noteq> None \<or> name = ctlNames ct ! i" for name
    using onlyEnds_servers[OF r1(2)] by (simp add: AddServer_def)
  have l1: "leadsTo ?rn e t = leadsTo rn1 e t" for e t by (simp add: leadsTo_def AddServer_def)
  have "\<forall>k \<in> set is. \<forall>j'. ?names j \<noteq> rnd (CtlEnd k j')" for j using Cons.prems(1,2) by (auto dest: injD)
  then have own: "Network.servers rn' (ctlNames ct ! i) = Some (srv i)" "\<forall>j < ?n. leadsTo rn' (?names j) (?u j)"
    using r2(8,9) r1(3) l1 i Cons.prems(2) by (auto simp: AddServer_def)
  have frame: "\<forall>e t. (\<forall>k \<in> set (i # is). \<forall>j. e \<noteq> rnd (CtlEnd k j)) \<longrightarrow> leadsTo rn' e t = leadsTo rn e t"
  proof (intro allI impI)
    fix e t assume e: "\<forall>k \<in> set (i # is). \<forall>j. e \<noteq> rnd (CtlEnd k j)"
    then have "e \<notin> ?names ` set [0..<?n]" by auto
    then show "leadsTo rn' e t = leadsTo rn e t" using onlyEnds_leadsTo[OF r1(2)] r2(9) e l1 by simp
  qed
  have others: "\<forall>k < ?n. k \<notin> set (i # is) \<longrightarrow> Network.servers rn' (ctlNames ct ! k) = Network.servers rn (ctlNames ct ! k)"
    using r2(8) onlyEnds_servers[OF r1(2)] i Cons.prems(4,7) by (auto simp: AddServer_def nth_eq_iff_index_eq)
  have "reliable ?rn = reliable rn" using r1(2) by (simp add: AddServer_def onlyEnds_def)
  then show ?case using one r2(1,2,4,5,6,7) up s1 e1 own frame others by (intro exI[of _ rn'] exI[of _ svs]) auto
qed

lemma StartCtrlerService_up:
  assumes "inj rnd"
  shows "\<exists>rn ct. StartCtrlerService rnd srv MakeNetwork = Some (rn, ct :: ('d, 'b) ctrler) \<and> ctlN ct = 3 \<and>
    ctlNames ct = map (\<lambda>i. ''ctlr-'' @ rnd (CtlName i)) [0..<3] \<and> (\<forall>i < 3. ctlServers ct ! i \<noteq> None) \<and> length (ctlServers ct) = 3 \<and>
    ctlCk ct = Some (ShardCtrl.MakeClerk (map (\<lambda>j. \<lparr>ceName = rnd (CtlClerk j)\<rparr>) [0..<3])) \<and>
    (\<forall>j < 3. leadsTo rn (rnd (CtlClerk j)) (Some (ctlNames ct ! j))) \<and>
    (\<forall>i < 3. Network.servers rn (ctlNames ct ! i) = Some (srv i) \<and> (\<forall>j < 3. leadsTo rn (rnd (CtlEnd i j)) (Some (ctlNames ct ! j)))) \<and>
    (\<forall>name. Network.servers rn name \<noteq> None \<longleftrightarrow> name \<in> set (ctlNames ct)) \<and>
    (\<forall>g i j. ends rn (rnd (GroupEnd g i j)) = None \<and> ends rn (rnd (GroupMend g i j)) = None) \<and>
    (\<forall>e. e \<notin> range rnd \<longrightarrow> ends rn e = None)"
proof -
  let ?ct = "emptyCtrler rnd :: ('d, 'b) ctrler" and ?names = "\<lambda>j. rnd (CtlClerk j)"
  have c: "ctlN ?ct = 3" "length (ctlNames ?ct) = 3" "length (ctlServers ?ct) = 3" by (simp_all add: emptyCtrler_def)
  have d: "distinct (ctlNames ?ct)" using assms by (auto simp: emptyCtrler_def distinct_map inj_on_def dest: injD)
  have ne: "rnd p \<noteq> rnd q" if "p \<noteq> q" for p q using assms that by (auto dest: injD)
  obtain rn1 svs where r1: "ctrlerLoop rnd srv MakeNetwork ?ct [0..<3] = Some (rn1, ?ct\<lparr>ctlServers := svs\<rparr>)" "length svs = 3"
    "\<forall>i < 3. svs ! i \<noteq> None" "\<forall>name. Network.servers rn1 name \<noteq> None \<longleftrightarrow> (\<exists>i \<in> set [0..<3]. name = ctlNames ?ct ! i)"
    "\<forall>e. (\<forall>i j. e \<noteq> rnd (CtlEnd i j)) \<longrightarrow> ends rn1 e = None"
    "\<forall>i < 3. Network.servers rn1 (ctlNames ?ct ! i) = Some (srv i) \<and> (\<forall>j < 3. leadsTo rn1 (rnd (CtlEnd i j)) (ctrlername ?ct (int j)))"
    using ctrlerLoop_up[OF assms, of "[0..<3]" ?ct MakeNetwork srv] c d by (auto simp: MakeNetwork_def)
  let ?ct1 = "?ct\<lparr>ctlServers := svs\<rparr>" and ?u = "\<lambda>j. ctrlername (?ct\<lparr>ctlServers := svs\<rparr>) (int j)"
  have u: "?u j = Some (ctlNames ?ct ! j)" if "j < 3" for j using that c by (simp add: ctrlername_def go_index_def)
  have inj: "inj_on ?names (set [0..<3])" using assms by (auto simp: inj_on_def dest: injD)
  obtain rn2 where r2: "linkEnds rn1 ?u ?names [0..<3] = Some (rn2, map (\<lambda>j. \<lparr>ceName = ?names j\<rparr>) [0..<3])"
    "onlyEnds rn1 rn2 (?names ` set [0..<3])" "\<forall>j \<in> set [0..<3]. leadsTo rn2 (?names j) (?u j)"
    using linkEnds_effect[OF _ inj, of rn1 ?u] r1(5) ne u by auto
  have "ends rn2 (rnd p) = None" if "\<forall>j. p \<noteq> CtlClerk j" "\<forall>i j. p \<noteq> CtlEnd i j" for p
    using that r1(5) ne onlyEnds_ends[OF r2(2), of "rnd p"] by (metis imageE)
  then have fresh: "\<forall>g i j. ends rn2 (rnd (GroupEnd g i j)) = None \<and> ends rn2 (rnd (GroupMend g i j)) = None" by simp
  have none: "ends rn2 e = None" if e: "e \<notin> range rnd" for e
  proof -
    have "e \<notin> ?names ` set [0..<3]" "\<forall>i j. e \<noteq> rnd (CtlEnd i j)" using e by auto
    then show ?thesis using r1(5) onlyEnds_ends[OF r2(2), of e] by simp
  qed
  have "Network.servers rn2 name \<noteq> None \<longleftrightarrow> name \<in> set (ctlNames ?ct)" for name
    using r1(4) c(2) unfolding onlyEnds_servers[OF r2(2)] by (auto simp: in_set_conv_nth)
  moreover have "StartCtrlerService rnd srv MakeNetwork =
      Some (rn2, ?ct1\<lparr>ctlCk := Some (ShardCtrl.MakeClerk (map (\<lambda>j. \<lparr>ceName = ?names j\<rparr>) [0..<3]))\<rparr>)"
    using r1(1) r2(1) c by (simp add: StartCtrlerService_def ctrlerclerk_def)
  moreover have "ctlNames ?ct = map (\<lambda>i. ''ctlr-'' @ rnd (CtlName i)) [0..<3]" by (simp add: emptyCtrler_def)
  moreover have "\<forall>j < 3. leadsTo rn2 (?names j) (Some (ctlNames ?ct ! j))" using r2(3) u by simp
  moreover have "\<forall>i < 3. Network.servers rn2 (ctlNames ?ct ! i) = Some (srv i) \<and> (\<forall>j < 3. leadsTo rn2 (rnd (CtlEnd i j)) (Some (ctlNames ?ct ! j)))"
  proof -
    have "rnd (CtlEnd i j) \<notin> ?names ` set [0..<3]" for i j using ne by auto
    then show ?thesis using r1(6) c(2) onlyEnds_servers[OF r2(2)] onlyEnds_leadsTo[OF r2(2)] by (simp add: ctrlername_def go_index_def)
  qed
  ultimately show ?thesis using c r1(2,3) fresh none
    by (intro exI[of _ rn2] exI[of _ "?ct1\<lparr>ctlCk := Some (ShardCtrl.MakeClerk (map (\<lambda>j. \<lparr>ceName = ?names j\<rparr>) [0..<3]))\<rparr>"]) simp
qed

section \<open>The groups come up\<close>

text \<open>The ends of group \<open>g\<close>, among all names.\<close>

definition groupEnds :: "(place \<Rightarrow> string) \<Rightarrow> nat \<Rightarrow> string set" where
  "groupEnds rnd g = {e. \<exists>i j. e = rnd (GroupEnd g i j) \<or> e = rnd (GroupMend g i j)}"

text \<open>What a step for group \<open>g\<close> leaves alone.\<close>

definition groupFrame :: "(place \<Rightarrow> string) \<Rightarrow> nat \<Rightarrow> ('c, 'd, 'b) config \<Rightarrow> ('c, 'd, 'b) config \<Rightarrow> bool" where
  "groupFrame rnd g cfg cfg' \<longleftrightarrow>
     ngroups cfg' = ngroups cfg \<and> skN cfg' = skN cfg \<and> ctl cfg' = ctl cfg \<and> cfgMaxraftstate cfg' = cfgMaxraftstate cfg \<and>
     reliable (skNet cfg') = reliable (skNet cfg) \<and>
     (\<forall>k. k \<noteq> g \<longrightarrow> groups cfg' ! k = groups cfg ! k) \<and>
     (\<forall>e. e \<notin> groupEnds rnd g \<longrightarrow> ends (skNet cfg') e = ends (skNet cfg) e \<and> (\<forall>t. leadsTo (skNet cfg') e t = leadsTo (skNet cfg) e t)) \<and>
     (\<forall>name. (\<forall>i. name \<noteq> servername (int (100 + g)) (int i)) \<longrightarrow> Network.servers (skNet cfg') name = Network.servers (skNet cfg) name)"

lemma groupFrame_trans: "groupFrame rnd g a b \<Longrightarrow> groupFrame rnd g b c \<Longrightarrow> groupFrame rnd g a c"
  unfolding groupFrame_def by auto

text \<open>The names of server \<open>i\<close> of group \<open>g\<close> are not taken.\<close>

definition namesFree :: "(place \<Rightarrow> string) \<Rightarrow> ('c, 'd, 'b) config \<Rightarrow> nat \<Rightarrow> nat \<Rightarrow> bool" where
  "namesFree rnd cfg g i \<longleftrightarrow> (\<forall>j. ends (skNet cfg) (rnd (GroupEnd g i j)) = None \<and> ends (skNet cfg) (rnd (GroupMend g i j)) = None)"

lemma startOne_up:
  fixes cfg :: "('c, 'd, 'b) config"
  assumes inj: "inj rnd" and ok: "cfgOk cfg" and gi: "gi < ngroups cfg" "groups cfg ! gi = Some gg" and i: "i < skN cfg"
    and none: "gServers gg ! i = None" "gSaved gg ! i = None" and free: "namesFree rnd cfg gi i"
  shows "\<exists>cfg' gg'. startOne mk rnd srv (int gi) cfg (int i) = Some cfg' \<and> cfgOk cfg' \<and> groupFrame rnd gi cfg cfg' \<and>
    groups cfg' ! gi = Some gg' \<and> oneChanged i gg gg' \<and> gServers gg' ! i \<noteq> None \<and>
    (\<forall>k. k \<noteq> i \<longrightarrow> namesFree rnd cfg gi k \<longrightarrow> namesFree rnd cfg' gi k)"
proof -
  let ?names = "\<lambda>j. rnd (GroupEnd gi i j)" and ?mnames = "\<lambda>j. rnd (GroupMend gi i j)"
  let ?E = "?names ` {..<skN cfg} \<union> ?mnames ` {..<ctlN (ctl cfg)}"
  have ne: "rnd p = rnd q \<longleftrightarrow> p = q" for p q using inj by (auto dest: injD)
  have new: "freshNames cfg ?names ?mnames" using free ne unfolding freshNames_def namesFree_def by (auto simp: inj_on_def)
  obtain cfg' gg' kv where s: "StartServer mk cfg (int gi) (int i) ?names ?mnames (srv gi i) = Some cfg'" "cfgOk cfg'"
    "cfg' = setGroup (cfg\<lparr>skNet := skNet cfg'\<rparr>) (int gi) gg'" "oneChanged i gg gg'" "gServers gg' ! i = Some kv"
    "\<forall>e. e \<notin> ?E \<longrightarrow> ends (skNet cfg') e = ends (skNet cfg) e \<and> (\<forall>t. leadsTo (skNet cfg') e t = leadsTo (skNet cfg) e t)"
    "\<forall>name. name \<noteq> servername (gid gg) (int i) \<longrightarrow> Network.servers (skNet cfg') name = Network.servers (skNet cfg) name"
    "reliable (skNet cfg') = reliable (skNet cfg)"
    using StartServer_effect[OF ok gi i none(1) disjI1[OF none(2)] new, of mk "srv gi i"] by blast
  have f: "ngroups cfg' = ngroups cfg" "skN cfg' = skN cfg" "ctl cfg' = ctl cfg" "cfgMaxraftstate cfg' = cfgMaxraftstate cfg"
    "groups cfg' = (groups cfg)[gi := Some gg']" by (subst s(3), simp add: setGroup_def)+
  have len: "length (groups cfg) = ngroups cfg" using ok by (simp add: cfgOk_def ctrlersOk_def)
  have sub: "?E \<subseteq> groupEnds rnd gi" unfolding groupEnds_def by blast
  have fr: "\<forall>e. e \<notin> groupEnds rnd gi \<longrightarrow> ends (skNet cfg') e = ends (skNet cfg) e \<and> (\<forall>t. leadsTo (skNet cfg') e t = leadsTo (skNet cfg) e t)"
    using s(6) sub by (meson subsetD)
  have frame: "groupFrame rnd gi cfg cfg'"
    using fr s(7,8) unfolding groupFrame_def f cfgOk_group(1)[OF ok gi] by simp
  have out: "rnd (GroupEnd gi k j) \<notin> ?E \<and> rnd (GroupMend gi k j) \<notin> ?E" if "k \<noteq> i" for k j using that by (auto simp: ne)
  have "namesFree rnd cfg' gi k" if "k \<noteq> i" "namesFree rnd cfg gi k" for k
    using that s(6) out[OF that(1)] unfolding namesFree_def by simp
  then show ?thesis using s(1,2,4,5) frame gi(1) len unfolding startOne_def
    by (intro exI[of _ cfg'] exI[of _ gg']) (simp add: f)
qed

lemma group_comes_up:
  fixes cfg :: "('c, 'd, 'b) config"
  assumes "inj rnd" "cfgOk cfg" "gi < ngroups cfg" "groups cfg ! gi = Some gg" "distinct is"
    "\<forall>i \<in> set is. i < skN cfg \<and> gServers gg ! i = None \<and> gSaved gg ! i = None \<and> namesFree rnd cfg gi i"
  shows "\<exists>cfg' gg'. eachServer (startOne mk rnd srv (int gi)) cfg (map int is) = Some cfg' \<and> cfgOk cfg' \<and> groupFrame rnd gi cfg cfg' \<and>
    groups cfg' ! gi = Some gg' \<and> (\<forall>i. i \<in> set is \<or> gServers gg ! i \<noteq> None \<longrightarrow> gServers gg' ! i \<noteq> None)"
  using assms
proof (induction "is" arbitrary: cfg gg)
  case Nil
  have "groupFrame rnd gi cfg cfg" by (simp add: groupFrame_def)
  then show ?case using Nil by (intro exI[of _ cfg] exI[of _ gg]) simp
next
  case (Cons i "is")
  have h: "i < skN cfg" "gServers gg ! i = None" "gSaved gg ! i = None" "namesFree rnd cfg gi i" using Cons.prems(6) by simp_all
  obtain c1 g1 where s: "startOne mk rnd srv (int gi) cfg (int i) = Some c1" "cfgOk c1" "groupFrame rnd gi cfg c1"
    "groups c1 ! gi = Some g1" "oneChanged i gg g1" "gServers g1 ! i \<noteq> None" "\<forall>k. k \<noteq> i \<longrightarrow> namesFree rnd cfg gi k \<longrightarrow> namesFree rnd c1 gi k"
    using startOne_up[OF Cons.prems(1-4) h, of mk srv] by blast
  have f: "ngroups c1 = ngroups cfg" "skN c1 = skN cfg" using s(3) by (simp_all add: groupFrame_def)
  have rest: "\<forall>k \<in> set is. k < skN c1 \<and> gServers g1 ! k = None \<and> gSaved g1 ! k = None \<and> namesFree rnd c1 gi k"
  proof
    fix k assume k: "k \<in> set is"
    then have "k \<noteq> i" using Cons.prems(5) by auto
    then show "k < skN c1 \<and> gServers g1 ! k = None \<and> gSaved g1 ! k = None \<and> namesFree rnd c1 gi k"
      using oneChanged_fields(6,7)[OF s(5), of k] s(7) Cons.prems(6) k by (simp add: f)
  qed
  obtain c2 g2 where t: "eachServer (startOne mk rnd srv (int gi)) c1 (map int is) = Some c2" "cfgOk c2" "groupFrame rnd gi c1 c2"
    "groups c2 ! gi = Some g2" "\<forall>k. k \<in> set is \<or> gServers g1 ! k \<noteq> None \<longrightarrow> gServers g2 ! k \<noteq> None"
    using Cons.IH[OF Cons.prems(1) s(2) _ s(4) _ rest] Cons.prems(3,5) f(1) by auto
  have "gServers g2 ! k \<noteq> None" if "k \<in> set (i # is) \<or> gServers gg ! k \<noteq> None" for k
    using that t(5) s(6) oneChanged_fields(6)[OF s(5), of k] by (cases "k = i") auto
  then show ?case using s(1) t(1,2,4) groupFrame_trans[OF s(3) t(3)] by (intro exI[of _ c2] exI[of _ g2]) simp
qed

lemma newGroup_ok:
  fixes cfg :: "('c, 'd, 'b) config"
  assumes ok: "cfgOk cfg" and gi: "gi < ngroups cfg" and off: "\<forall>i. Network.servers (skNet cfg) (servername (int (100 + gi)) (int i)) = None"
  shows "cfgOk (cfg\<lparr>groups := (groups cfg)[gi := Some (newGroup cfg (int gi))]\<rparr>)"
proof -
  let ?g = "newGroup cfg (int gi)" and ?cfg = "cfg\<lparr>groups := (groups cfg)[gi := Some (newGroup cfg (int gi))]\<rparr>"
  have len: "length (groups cfg) = ngroups cfg" using ok by (simp add: cfgOk_def ctrlersOk_def)
  have used: "usedBy ?g i = {}" for i by (simp add: usedBy_def rowNames_def newGroup_def)
  have same: "groupOk ?cfg g = groupOk cfg g" for g by (simp add: groupOk_def serverUp_def)
  have "groupOk ?cfg ?g" using off used unfolding same groupOk_def by (simp add: newGroup_def)
  moreover have "gid ?g = int (100 + gi)" by (simp add: newGroup_def)
  moreover have at: "groups ?cfg ! k = (if k = gi then Some ?g else groups cfg ! k)" for k using gi len by simp
  ultimately have one: "gid g = int (100 + k) \<and> groupOk ?cfg g" if "k < ngroups cfg" "groups ?cfg ! k = Some g" for k g
    using that cfgOk_group[OF ok] same by (cases "k = gi") auto
  have dis: "usedBy g i \<inter> usedBy g' i' = {}"
    if "k < ngroups cfg" "k' < ngroups cfg" "groups ?cfg ! k = Some g" "groups ?cfg ! k' = Some g'" "i < skN cfg" "i' < skN cfg" "(k, i) \<noteq> (k', i')"
    for k k' g g' i i'
  proof (cases "k = gi \<or> k' = gi")
    case True
    then show ?thesis using that(3,4) used unfolding at by auto
  next
    case False
    then show ?thesis using that ok unfolding at cfgOk_def by (metis (no_types, lifting))
  qed
  have "ctrlersOk ?cfg" using ok by (simp add: cfgOk_def ctrlersOk_def)
  then show ?thesis unfolding cfgOk_def using one dis by simp
qed

lemma bringUpGroup_up:
  fixes cfg :: "('c, 'd, 'b) config"
  assumes inj: "inj rnd" and ok: "cfgOk cfg" and gi: "gi < ngroups cfg"
    and off: "\<forall>i. Network.servers (skNet cfg) (servername (int (100 + gi)) (int i)) = None" and free: "\<forall>i. namesFree rnd cfg gi i"
  shows "\<exists>cfg' gg'. bringUpGroup mk rnd srv cfg (int gi) = Some cfg' \<and> cfgOk cfg' \<and> groupFrame rnd gi cfg cfg' \<and>
    groups cfg' ! gi = Some gg' \<and> (\<forall>i < skN cfg. gServers gg' ! i \<noteq> None)"
proof -
  let ?g = "newGroup cfg (int gi)" and ?cfg = "cfg\<lparr>groups := (groups cfg)[gi := Some (newGroup cfg (int gi))]\<rparr>"
  have len: "length (groups cfg) = ngroups cfg" using ok by (simp add: cfgOk_def ctrlersOk_def)
  have at: "groups ?cfg ! gi = Some ?g" "gi < ngroups ?cfg" using gi len by simp_all
  have rest: "\<forall>i \<in> set [0..<skN cfg]. i < skN ?cfg \<and> gServers ?g ! i = None \<and> gSaved ?g ! i = None \<and> namesFree rnd ?cfg gi i"
    using free by (auto simp: newGroup_def namesFree_def)
  obtain cfg' gg' where s: "eachServer (startOne mk rnd srv (int gi)) ?cfg (map int [0..<skN cfg]) = Some cfg'" "cfgOk cfg'"
    "groupFrame rnd gi ?cfg cfg'" "groups cfg' ! gi = Some gg'" "\<forall>i. i \<in> set [0..<skN cfg] \<or> gServers ?g ! i \<noteq> None \<longrightarrow> gServers gg' ! i \<noteq> None"
    using group_comes_up[OF inj newGroup_ok[OF ok gi off] at(2,1) _ rest, of mk srv] by auto
  have "groupFrame rnd gi cfg ?cfg" by (simp add: groupFrame_def)
  from groupFrame_trans[OF this s(3)] show ?thesis using s gi len
    by (intro exI[of _ cfg'] exI[of _ gg']) (simp add: bringUpGroup_def go_set_def)
qed

lemma groups_come_up_loop:
  fixes cfg :: "('c, 'd, 'b) config"
  assumes "inj rnd" "cfgOk cfg" "distinct gs"
    "\<forall>g \<in> set gs. g < ngroups cfg \<and> (\<forall>i. Network.servers (skNet cfg) (servername (int (100 + g)) (int i)) = None \<and> namesFree rnd cfg g i)"
  shows "\<exists>cfg'. eachServer (bringUpGroup mk rnd srv) cfg (map int gs) = Some cfg' \<and> cfgOk cfg' \<and>
    ngroups cfg' = ngroups cfg \<and> skN cfg' = skN cfg \<and> ctl cfg' = ctl cfg \<and> reliable (skNet cfg') = reliable (skNet cfg) \<and>
    (\<forall>g \<in> set gs. \<exists>gg. groups cfg' ! g = Some gg \<and> (\<forall>i < skN cfg. gServers gg ! i \<noteq> None)) \<and>
    (\<forall>g. g \<notin> set gs \<longrightarrow> groups cfg' ! g = groups cfg ! g) \<and>
    (\<forall>p t. (\<forall>g i j. p \<noteq> GroupEnd g i j \<and> p \<noteq> GroupMend g i j) \<longrightarrow> leadsTo (skNet cfg') (rnd p) t = leadsTo (skNet cfg) (rnd p) t) \<and>
    (\<forall>e. e \<notin> range rnd \<longrightarrow> ends (skNet cfg') e = ends (skNet cfg) e) \<and>
    (\<forall>name. hd name = CHR ''c'' \<longrightarrow> Network.servers (skNet cfg') name = Network.servers (skNet cfg) name)"
  using assms
proof (induction gs arbitrary: cfg)
  case (Cons g gs)
  have ne: "rnd p = rnd q \<longleftrightarrow> p = q" for p q using Cons.prems(1) by (auto dest: injD)
  have h: "g < ngroups cfg" "\<forall>i. Network.servers (skNet cfg) (servername (int (100 + g)) (int i)) = None" "\<forall>i. namesFree rnd cfg g i"
    using Cons.prems(4) by auto
  obtain c1 gg where s: "bringUpGroup mk rnd srv cfg (int g) = Some c1" "cfgOk c1" "groupFrame rnd g cfg c1" "groups c1 ! g = Some gg"
    "\<forall>i < skN cfg. gServers gg ! i \<noteq> None" using bringUpGroup_up[OF Cons.prems(1,2) h, of mk srv] by blast
  have f: "ngroups c1 = ngroups cfg" "skN c1 = skN cfg" "ctl c1 = ctl cfg" "reliable (skNet c1) = reliable (skNet cfg)"
    "\<forall>k. k \<noteq> g \<longrightarrow> groups c1 ! k = groups cfg ! k"
    and fe: "\<And>e. e \<notin> groupEnds rnd g \<Longrightarrow> ends (skNet c1) e = ends (skNet cfg) e \<and> (\<forall>t. leadsTo (skNet c1) e t = leadsTo (skNet cfg) e t)"
    and fs: "\<And>name. (\<forall>i. name \<noteq> servername (int (100 + g)) (int i)) \<Longrightarrow> Network.servers (skNet c1) name = Network.servers (skNet cfg) name"
    using s(3) unfolding groupFrame_def by blast+
  have rest: "\<forall>k \<in> set gs. k < ngroups c1 \<and>
      (\<forall>i. Network.servers (skNet c1) (servername (int (100 + k)) (int i)) = None \<and> namesFree rnd c1 k i)"
  proof
    fix k assume k: "k \<in> set gs"
    then have kg: "k \<noteq> g" using Cons.prems(3) by auto
    have old: "k < ngroups cfg" "\<And>i. Network.servers (skNet cfg) (servername (int (100 + k)) (int i)) = None" "\<And>i. namesFree rnd cfg k i"
      using Cons.prems(4) k by auto
    have "Network.servers (skNet c1) (servername (int (100 + k)) (int i)) = None" for i
      using fs[of "servername (int (100 + k)) (int i)"] kg old(2) unfolding servername_inj by simp
    moreover have "rnd (GroupEnd k i j) \<notin> groupEnds rnd g" "rnd (GroupMend k i j) \<notin> groupEnds rnd g" for i j
      using kg by (auto simp: groupEnds_def ne)
    then have "namesFree rnd c1 k i" for i using fe old(3) unfolding namesFree_def by simp
    ultimately show "k < ngroups c1 \<and> (\<forall>i. Network.servers (skNet c1) (servername (int (100 + k)) (int i)) = None \<and> namesFree rnd c1 k i)"
      using old(1) f(1) by simp
  qed
  obtain c2 where t: "eachServer (bringUpGroup mk rnd srv) c1 (map int gs) = Some c2" "cfgOk c2"
    "ngroups c2 = ngroups c1" "skN c2 = skN c1" "ctl c2 = ctl c1" "reliable (skNet c2) = reliable (skNet c1)"
    "\<forall>g \<in> set gs. \<exists>gg. groups c2 ! g = Some gg \<and> (\<forall>i < skN c1. gServers gg ! i \<noteq> None)"
    "\<forall>g. g \<notin> set gs \<longrightarrow> groups c2 ! g = groups c1 ! g"
    "\<forall>p t. (\<forall>g i j. p \<noteq> GroupEnd g i j \<and> p \<noteq> GroupMend g i j) \<longrightarrow> leadsTo (skNet c2) (rnd p) t = leadsTo (skNet c1) (rnd p) t"
    "\<forall>e. e \<notin> range rnd \<longrightarrow> ends (skNet c2) e = ends (skNet c1) e"
    "\<forall>name. hd name = CHR ''c'' \<longrightarrow> Network.servers (skNet c2) name = Network.servers (skNet c1) name"
    using Cons.IH[OF Cons.prems(1) s(2) _ rest] Cons.prems(3) by auto
  have "rnd p \<notin> groupEnds rnd g" if "\<forall>g i j. p \<noteq> GroupEnd g i j \<and> p \<noteq> GroupMend g i j" for p using that by (auto simp: groupEnds_def ne)
  then have lead: "\<forall>p t. (\<forall>g i j. p \<noteq> GroupEnd g i j \<and> p \<noteq> GroupMend g i j) \<longrightarrow> leadsTo (skNet c2) (rnd p) t = leadsTo (skNet cfg) (rnd p) t"
    using t(9) fe by simp
  have kept: "\<forall>name. hd name = CHR ''c'' \<longrightarrow> Network.servers (skNet c2) name = Network.servers (skNet cfg) name"
  proof (intro allI impI)
    fix name :: string assume "hd name = CHR ''c''"
    moreover from this have "\<forall>i. name \<noteq> servername (int (100 + g)) (int i)" using servername_hd by auto
    ultimately show "Network.servers (skNet c2) name = Network.servers (skNet cfg) name" using t(11) fs by simp
  qed
  have "e \<notin> groupEnds rnd g" if "e \<notin> range rnd" for e using that by (auto simp: groupEnds_def)
  then have none: "\<forall>e. e \<notin> range rnd \<longrightarrow> ends (skNet c2) e = ends (skNet cfg) e" using t(10) fe by simp
  have "groups c2 ! g = Some gg" using t(8) s(4) Cons.prems(3) by simp
  then have up: "\<forall>k \<in> set (g # gs). \<exists>gg. groups c2 ! k = Some gg \<and> (\<forall>i < skN cfg. gServers gg ! i \<noteq> None)" using t(7) s(5) f(2) by simp
  have "\<forall>k. k \<notin> set (g # gs) \<longrightarrow> groups c2 ! k = groups cfg ! k" using t(8) f(5) by simp
  then show ?case using s(1) t(1-6) f(1-4) up lead none kept by (intro exI[of _ c2]) simp
qed simp

section \<open>More servers than controllers\<close>

lemma StartServer_needs:
  assumes "StartServer mk cfg gi i names mnames srv = Some cfg'" "groupAt cfg gi = Some gg"
  shows "i < int (length (mendnames gg)) \<and> (\<exists>gg'. groupAt cfg' gi = Some gg' \<and> length (mendnames gg') = length (mendnames gg))"
  using assms by (auto simp: StartServer_def bind_eq_Some_conv groupAt_def setGroup_def go_index_def go_set_def split: if_splits)

lemma startOne_needs:
  "eachServer (startOne mk rnd srv gi) cfg (map int is) = Some cfg' \<Longrightarrow> groupAt cfg gi = Some gg \<Longrightarrow> \<forall>i \<in> set is. i < length (mendnames gg)"
proof (induction "is" arbitrary: cfg gg)
  case (Cons i "is")
  obtain c1 where c1: "startOne mk rnd srv gi cfg (int i) = Some c1" "eachServer (startOne mk rnd srv gi) c1 (map int is) = Some cfg'"
    using Cons.prems(1) by (auto simp: bind_eq_Some_conv)
  obtain g1 where "int i < int (length (mendnames gg))" "groupAt c1 gi = Some g1" "length (mendnames g1) = length (mendnames gg)"
    using StartServer_needs[OF c1(1)[unfolded startOne_def] Cons.prems(2)] by blast
  then show ?case using Cons.IH[OF c1(2)] by auto
qed simp

lemma bringUpGroup_needs:
  assumes "bringUpGroup mk rnd srv cfg gi = Some cfg'"
  shows "skN cfg \<le> ctlN (ctl cfg)"
proof -
  let ?cfg = "cfg\<lparr>groups := (groups cfg)[nat gi := Some (newGroup cfg gi)]\<rparr>"
  have gi: "0 \<le> gi" "gi < int (length (groups cfg))" and run: "eachServer (startOne mk rnd srv gi) ?cfg (map int [0..<skN cfg]) = Some cfg'"
    using assms by (auto simp: bringUpGroup_def bind_eq_Some_conv go_set_def split: if_splits)
  have "groupAt ?cfg gi = Some (newGroup cfg gi)" using gi by (simp add: groupAt_def go_index_def)
  from startOne_needs[OF run this] have "\<forall>i < skN cfg. i < ctlN (ctl cfg)" by (simp add: newGroup_def)
  then show ?thesis by (meson leI less_irrefl)
qed

lemma clientEnds_needs: "clientEnds rn ct names js row = Some r \<Longrightarrow> \<forall>j \<in> set js. j < length row"
proof (induction js arbitrary: rn row r)
  case (Cons j js)
  obtain rn1 ce r1 where s: "j < length row" "clientEnds rn1 ct names js (row[j := names j]) = Some r1"
    using Cons.prems by (auto simp: bind_eq_Some_conv go_set_def split: if_splits prod.splits)
  from Cons.IH[OF s(2)] s(1) show ?case by simp
qed simp

text \<open>With fewer servers in a group than there are controllers no client can be made.\<close>

lemma client_needs_three:
  assumes "skN cfg < ctlN ct"
  shows "makeClient mk cfg ct ck names = None"
proof -
  have "clientEnds (skNet cfg) ct names [0..<ctlN ct] (replicate (skN cfg) []) = None"
  proof (rule ccontr)
    assume "clientEnds (skNet cfg) ct names [0..<ctlN ct] (replicate (skN cfg) []) \<noteq> None"
    then obtain r where "clientEnds (skNet cfg) ct names [0..<ctlN ct] (replicate (skN cfg) []) = Some r" by blast
    from clientEnds_needs[OF this] show False using assms by (metis atLeastLessThan_iff le0 length_replicate less_irrefl set_upt)
  qed
  then show ?thesis by (simp add: makeClient_def)
qed

section \<open>The configuration\<close>

lemma leadsTo_Reliable [simp]: "leadsTo (Reliable rn b) e t = leadsTo rn e t"
  by (simp add: leadsTo_def Reliable_def)

lemma Reliable_fields [simp]:
  "Network.servers (Reliable rn b) = Network.servers rn" "ends (Reliable rn b) = ends rn" "reliable (Reliable rn b) = b"
  by (simp_all add: Reliable_def)

lemma cfgOk_finish:
  assumes "cfgOk cfg"
  shows "cfgOk (cfg\<lparr>skClerks := cks, skNextClientId := k, skNet := Reliable (skNet cfg) b\<rparr>)"
proof -
  let ?c = "cfg\<lparr>skClerks := cks, skNextClientId := k, skNet := Reliable (skNet cfg) b\<rparr>"
  have "serverUp ?c g i kv = serverUp cfg g i kv" for g i kv by (simp add: serverUp_def rowLeads_def)
  then have "groupOk ?c g = groupOk cfg g" for g by (simp add: groupOk_def)
  then show ?thesis using assms unfolding cfgOk_def by (simp add: ctrlersOk_def)
qed

text \<open>Group \<open>gi\<close> runs, and the names a join sends are those of its servers on the network.\<close>

definition groupRuns :: "('c, 'd, 'b) config \<Rightarrow> nat \<Rightarrow> bool" where
  "groupRuns cfg gi \<longleftrightarrow>
     (\<exists>gg. groups cfg ! gi = Some gg \<and> (\<forall>i < skN cfg. \<exists>kv. gServers gg ! i = Some kv \<and> serverUp cfg gg i kv) \<and>
        (\<exists>names. joinMap cfg [int gi] Map.empty = Some [int (100 + gi) \<mapsto> names] \<and> length names = skN cfg \<and>
           (\<forall>name \<in> set names. Network.servers (skNet cfg) name \<noteq> None)))"

lemma group_runs:
  assumes ok: "cfgOk cfg" and gi: "gi < ngroups cfg" "groups cfg ! gi = Some gg" and all: "\<forall>i < skN cfg. gServers gg ! i \<noteq> None"
  shows "groupRuns cfg gi"
proof -
  let ?names = "map (\<lambda>i. servername (gid gg) (int i)) [0..<skN cfg]"
  have "length (groups cfg) = ngroups cfg" using ok by (simp add: cfgOk_def ctrlersOk_def)
  then have at: "groupAt cfg (int gi) = Some gg" using gi by (simp add: groupAt_def go_index_def)
  note g = cfgOk_group[OF ok gi]
  have "\<exists>kv. gServers gg ! i = Some kv \<and> serverUp cfg gg i kv" "Network.servers (skNet cfg) (servername (gid gg) (int i)) \<noteq> None"
    if "i < skN cfg" for i using g(2) all that unfolding groupOk_def by blast+
  moreover have "joinMap cfg [int gi] Map.empty = Some [int (100 + gi) \<mapsto> ?names]" using at g(1) by simp
  ultimately show ?thesis using gi(2) unfolding groupRuns_def by (intro exI[of _ gg] conjI exI[of _ ?names]) auto
qed

lemma make_config_up:
  assumes inj: "inj rnd" and n: "n \<le> 3"
  shows "\<exists>cfg :: ('c, 'd, 'b) config. make_config mk rnd csrv srv n unreliable maxraftstate = Some cfg \<and> cfgOk cfg \<and>
      ngroups cfg = 3 \<and> skN cfg = n \<and> reliable (skNet cfg) = (\<not> unreliable) \<and> (\<forall>gi < 3. groupRuns cfg gi) \<and>
      (\<forall>i < 3. ctlServers (ctl cfg) ! i \<noteq> None \<and>
        (\<exists>name. ctrlername (ctl cfg) (int i) = Some name \<and> Network.servers (skNet cfg) name = Some (csrv i)) \<and>
        (\<forall>j < 3. leadsTo (skNet cfg) (rnd (CtlEnd i j)) (ctrlername (ctl cfg) (int j)))) \<and>
      ctlCk (ctl cfg) = Some (ShardCtrl.MakeClerk (map (\<lambda>j. \<lparr>ceName = rnd (CtlClerk j)\<rparr>) [0..<3])) \<and>
      (\<forall>j < 3. leadsTo (skNet cfg) (rnd (CtlClerk j)) (ctrlername (ctl cfg) (int j))) \<and>
      (\<forall>e. e \<notin> range rnd \<longrightarrow> ends (skNet cfg) e = None)"
proof -
  obtain rn ct where c: "StartCtrlerService rnd csrv MakeNetwork = Some (rn, ct :: ('d, 'b) ctrler)" "ctlN ct = 3"
    "ctlNames ct = map (\<lambda>i. ''ctlr-'' @ rnd (CtlName i)) [0..<3]"
    "ctlCk ct = Some (ShardCtrl.MakeClerk (map (\<lambda>j. \<lparr>ceName = rnd (CtlClerk j)\<rparr>) [0..<3]))"
    "\<forall>j < 3. leadsTo rn (rnd (CtlClerk j)) (Some (ctlNames ct ! j))"
    "\<forall>i < 3. Network.servers rn (ctlNames ct ! i) = Some (csrv i) \<and> (\<forall>j < 3. leadsTo rn (rnd (CtlEnd i j)) (Some (ctlNames ct ! j)))"
    "\<forall>i < 3. ctlServers ct ! i \<noteq> None"
    "\<forall>name. Network.servers rn name \<noteq> None \<longleftrightarrow> name \<in> set (ctlNames ct)"
    "\<forall>g i j. ends rn (rnd (GroupEnd g i j)) = None \<and> ends rn (rnd (GroupMend g i j)) = None" "\<forall>e. e \<notin> range rnd \<longrightarrow> ends rn e = None"
    using StartCtrlerService_up[OF inj, of csrv, where ?'d = 'd and ?'b = 'b] by blast
  let ?cfg = "\<lparr>skNet = rn, ctl = ct, ngroups = 3, skN = n, groups = replicate 3 None, skClerks = Map.empty,
                skNextClientId = 0, cfgMaxraftstate = maxraftstate\<rparr> :: ('c, 'd, 'b) config"
  have hd: "\<forall>name \<in> set (ctlNames ct). hd name = CHR ''c''" by (simp add: c(3))
  have ok: "cfgOk ?cfg" using n c(2,8) hd by (auto simp: cfgOk_def ctrlersOk_def c(3))
  have "servername g i \<notin> set (ctlNames ct)" for g i using hd servername_hd[of g i] by auto
  then have off: "Network.servers rn (servername g i) = None" for g i using c(8) by blast
  have free: "namesFree rnd ?cfg g i" for g i using c(9) by (simp add: namesFree_def)
  obtain cfg where s: "eachServer (bringUpGroup mk rnd srv) ?cfg (map int [0..<3]) = Some cfg" "cfgOk cfg"
    "ngroups cfg = 3" "skN cfg = n" "ctl cfg = ct"
    "\<forall>g \<in> set [0..<3]. \<exists>gg. groups cfg ! g = Some gg \<and> (\<forall>i < n. gServers gg ! i \<noteq> None)"
    "\<forall>p t. (\<forall>g i j. p \<noteq> GroupEnd g i j \<and> p \<noteq> GroupMend g i j) \<longrightarrow> leadsTo (skNet cfg) (rnd p) t = leadsTo rn (rnd p) t"
    "\<forall>e. e \<notin> range rnd \<longrightarrow> ends (skNet cfg) e = ends rn e"
    "\<forall>name. hd name = CHR ''c'' \<longrightarrow> Network.servers (skNet cfg) name = Network.servers rn name"
    using groups_come_up_loop[OF inj ok, of "[0..<3]" mk srv] off free by auto
  let ?c = "cfg\<lparr>skClerks := Map.empty, skNextClientId := int (skN cfg) + 1000, skNet := Reliable (skNet cfg) (\<not> unreliable)\<rparr>"
  have okc: "cfgOk ?c" by (rule cfgOk_finish[OF s(2)])
  have "groupRuns ?c gi" if gi: "gi < 3" for gi
  proof -
    obtain gg where "groups ?c ! gi = Some gg" "\<forall>i < skN ?c. gServers gg ! i \<noteq> None" using bspec[OF s(6), of gi] gi s(4) by auto
    then show ?thesis using group_runs[OF okc, of gi gg] gi s(3) by simp
  qed
  moreover have "make_config mk rnd csrv srv n unreliable maxraftstate = Some ?c" using c(1) s(1) by (simp add: make_config_def)
  moreover have "\<forall>j < 3. leadsTo (skNet ?c) (rnd (CtlClerk j)) (ctrlername (ctl ?c) (int j))"
    using c(2,3,5) s(5,7) by (simp add: ctrlername_def go_index_def)
  moreover have "Network.servers (skNet ?c) (ctlNames ct ! i) = Some (csrv i)" if "i < 3" for i
    using that c(6) s(9) hd nth_mem[of i "ctlNames ct"] by (simp add: c(3))
  then have "\<forall>i < 3. ctlServers (ctl ?c) ! i \<noteq> None \<and>
      (\<exists>name. ctrlername (ctl ?c) (int i) = Some name \<and> Network.servers (skNet ?c) name = Some (csrv i)) \<and>
      (\<forall>j < 3. leadsTo (skNet ?c) (rnd (CtlEnd i j)) (ctrlername (ctl ?c) (int j)))"
    using c(3,6,7) s(5,7) by (simp add: ctrlername_def go_index_def)
  ultimately show ?thesis using okc s(3,4,5,8) c(4,10) by (intro exI[of _ ?c]) simp
qed

lemma make_config_panics:
  assumes "3 < n" "inj rnd"
  shows "make_config mk rnd csrv srv n unreliable maxraftstate = (None :: ('c, 'd, 'b) config option)"
proof -
  obtain rn ct where c: "StartCtrlerService rnd csrv MakeNetwork = Some (rn, ct :: ('d, 'b) ctrler)" "ctlN ct = 3"
    using StartCtrlerService_up[OF assms(2), of csrv, where ?'d = 'd and ?'b = 'b] by blast
  let ?cfg = "\<lparr>skNet = rn, ctl = ct, ngroups = 3, skN = n, groups = replicate 3 None, skClerks = Map.empty,
                skNextClientId = 0, cfgMaxraftstate = maxraftstate\<rparr> :: ('c, 'd, 'b) config"
  have "bringUpGroup mk rnd srv ?cfg 0 = None" using bringUpGroup_needs[of mk rnd srv ?cfg 0] assms(1) c(2) by (cases "bringUpGroup mk rnd srv ?cfg 0") auto
  moreover have "[0..<3] = [0, 1, 2 :: nat]" by (simp add: upt_rec)
  ultimately show ?thesis using c(1) by (simp add: make_config_def)
qed

text \<open>C28. For groups of at most three servers \<^verbatim>\<open>make_config\<close> brings up the controllers and three groups: every controller runs, the network has it under its name, and its ends lead to the
  three controllers in their order; every server of a group runs, its ends lead to its group and to
  the controllers, the clerk of the harness has ends to the controllers, and the names that a join
  sends are those under which the network has the servers.  With more than three servers it panics, because the
  rows of names to the controllers are allocated by the number of controllers.\<close>

theorem groups_come_up:
  assumes "inj rnd"
  shows "if n \<le> 3
    then \<exists>cfg :: ('c, 'd, 'b) config. make_config mk rnd csrv srv n unreliable maxraftstate = Some cfg \<and> cfgOk cfg \<and>
      skN cfg = n \<and> reliable (skNet cfg) = (\<not> unreliable) \<and> (\<forall>gi < 3. groupRuns cfg gi) \<and>
      (\<forall>i < 3. ctlServers (ctl cfg) ! i \<noteq> None \<and>
        (\<exists>name. ctrlername (ctl cfg) (int i) = Some name \<and> Network.servers (skNet cfg) name = Some (csrv i)) \<and>
        (\<forall>j < 3. leadsTo (skNet cfg) (rnd (CtlEnd i j)) (ctrlername (ctl cfg) (int j)))) \<and>
      ctlCk (ctl cfg) = Some (ShardCtrl.MakeClerk (map (\<lambda>j. \<lparr>ceName = rnd (CtlClerk j)\<rparr>) [0..<3])) \<and>
      (\<forall>j < 3. leadsTo (skNet cfg) (rnd (CtlClerk j)) (ctrlername (ctl cfg) (int j)))
    else make_config mk rnd csrv srv n unreliable maxraftstate = (None :: ('c, 'd, 'b) config option)"
proof (cases "n \<le> 3")
  case True
  then show ?thesis using make_config_up[OF assms True, of mk csrv srv unreliable maxraftstate, where ?'c = 'c and ?'d = 'd and ?'b = 'b] by auto
next
  case False
  then show ?thesis using make_config_panics[OF _ assms, of n mk csrv srv unreliable maxraftstate, where ?'c = 'c and ?'d = 'd and ?'b = 'b] by simp
qed

section \<open>An example\<close>

definition demoNames :: "place \<Rightarrow> string" where
  "demoNames p = (case p of
     CtlName i \<Rightarrow> ''a'' @ itoa i
   | CtlEnd i j \<Rightarrow> ''b'' @ itoa i @ ''-'' @ itoa j
   | CtlClerk j \<Rightarrow> ''c'' @ itoa j
   | GroupEnd g i j \<Rightarrow> ''d'' @ itoa g @ ''-'' @ itoa i @ ''-'' @ itoa j
   | GroupMend g i j \<Rightarrow> ''e'' @ itoa g @ ''-'' @ itoa i @ ''-'' @ itoa j)"

lemma demoNames_inj: "inj demoNames"
proof
  fix p q assume "demoNames p = demoNames q"
  then show "p = q" by (cases p; cases q) (auto simp: demoNames_def itoa_inj dash_split)
qed

theorem groups_come_up_witness:
  "inj demoNames \<and>
   (\<exists>cfg :: (unit, unit, unit) config. make_config (\<lambda>s. \<lparr>ceName = s\<rparr>) demoNames (\<lambda>i. i) (\<lambda>g i. 3 + 3 * g + i) 3 False (-1) = Some cfg \<and> cfgOk cfg \<and>
      skN cfg = 3 \<and> (\<forall>gi < 3. groupRuns cfg gi)) \<and>
   make_config (\<lambda>s. \<lparr>ceName = s\<rparr>) demoNames (\<lambda>i. i) (\<lambda>g i. 3 + 3 * g + i) 5 False (-1) = (None :: (unit, unit, unit) config option)"
proof -
  let ?mk = "\<lambda>s :: string. \<lparr>ceName = s\<rparr>" and ?c = "\<lambda>i :: nat. i" and ?s = "\<lambda>g i. 3 + 3 * g + i :: nat"
  from groups_come_up[OF demoNames_inj, of 3 ?mk ?c ?s False "-1", where ?'c = unit and ?'d = unit and ?'b = unit]
    groups_come_up[OF demoNames_inj, of 5 ?mk ?c ?s False "-1", where ?'c = unit and ?'d = unit and ?'b = unit]
  show ?thesis using demoNames_inj by auto
qed

lemma demo_shard_config:
  "\<exists>(cfg :: (unit, unit, unit) config) gg kv. cfgOk cfg \<and> 0 < ngroups cfg \<and> groups cfg ! 0 = Some gg \<and> 0 < skN cfg \<and>
     gServers gg ! 0 = Some kv \<and> freshNames cfg (\<lambda>j. ''x'' @ itoa j) (\<lambda>j. ''y'' @ itoa j)"
proof -
  obtain cfg :: "(unit, unit, unit) config" where c: "cfgOk cfg" "ngroups cfg = 3" "skN cfg = 3" "\<forall>gi < 3. groupRuns cfg gi"
    "\<forall>e. e \<notin> range demoNames \<longrightarrow> ends (skNet cfg) e = None"
    using make_config_up[OF demoNames_inj order_refl, of "\<lambda>s. \<lparr>ceName = s\<rparr>" "\<lambda>i. i" "\<lambda>g i. i" False "-1", where ?'c = unit and ?'d = unit and ?'b = unit] by blast
  have "groupRuns cfg 0" using c(4) by simp
  then obtain gg where g0: "groups cfg ! 0 = Some gg" "\<forall>i < skN cfg. \<exists>kv. gServers gg ! i = Some kv \<and> serverUp cfg gg i kv" unfolding groupRuns_def by blast
  then obtain kv where g: "groups cfg ! 0 = Some gg" "gServers gg ! 0 = Some kv" using g0 c(3) by (metis zero_less_numeral)
  have "hd (demoNames p) \<noteq> CHR ''x'' \<and> hd (demoNames p) \<noteq> CHR ''y''" for p by (cases p) (simp_all add: demoNames_def)
  then have "CHR ''x'' # s \<notin> range demoNames \<and> CHR ''y'' # s \<notin> range demoNames" for s by (metis imageE list.sel(1))
  then have "freshNames cfg (\<lambda>j. ''x'' @ itoa j) (\<lambda>j. ''y'' @ itoa j)"
    using c(5) by (auto simp: freshNames_def inj_on_def itoa_inj)
  then show ?thesis using c g by (intro exI[of _ cfg] exI[of _ gg] exI[of _ kv]) simp
qed

theorem shard_restart_keeps_state_witness:
  "\<exists>(cfg :: (unit, unit, unit) config) gg kv cfg1 cfg2 gg2 kv2. cfgOk cfg \<and> groups cfg ! 0 = Some gg \<and> gServers gg ! 0 = Some kv \<and>
     ShutdownServer cfg 0 0 = Some (cfg1, Some (ShardKv.Kill kv)) \<and>
     StartServer (\<lambda>s. \<lparr>ceName = s\<rparr>) cfg1 0 0 (\<lambda>j. ''x'' @ itoa j) (\<lambda>j. ''y'' @ itoa j) 12 = Some cfg2 \<and>
     groups cfg2 = (groups cfg)[0 := Some gg2] \<and> gServers gg2 = (gServers gg)[0 := Some kv2] \<and> samePeer (skRf kv2) (skRf kv)"
proof -
  obtain cfg :: "(unit, unit, unit) config" and gg kv where d: "cfgOk cfg" "0 < ngroups cfg" "groups cfg ! 0 = Some gg" "0 < skN cfg"
    "gServers gg ! 0 = Some kv" "freshNames cfg (\<lambda>j. ''x'' @ itoa j) (\<lambda>j. ''y'' @ itoa j)" using demo_shard_config by blast
  from shard_restart_keeps_state[OF d, of "\<lambda>s. \<lparr>ceName = s\<rparr>" 12, unfolded int_ops(1)]
  obtain cfg1 cfg2 gg2 kv2 where "ShutdownServer cfg 0 0 = Some (cfg1, Some (ShardKv.Kill kv))"
    "StartServer (\<lambda>s. \<lparr>ceName = s\<rparr>) cfg1 0 0 (\<lambda>j. ''x'' @ itoa j) (\<lambda>j. ''y'' @ itoa j) 12 = Some cfg2"
    "groups cfg2 = (groups cfg)[0 := Some gg2]" "gServers gg2 = (gServers gg)[0 := Some kv2]" "samePeer (skRf kv2) (skRf kv)"
    by blast
  with d(1,3,5) show ?thesis by blast
qed

end
