(* ===== verification/Utf8.thy ===== *)
theory Utf8
  imports Prelude
begin

text \<open>
  Strings of Go as sequences of runes: how \<^verbatim>\<open>range\<close> over a string and \<^verbatim>\<open>utf8.DecodeRuneInString\<close> read the bytes, and what is left of
  a string that \<^verbatim>\<open>encoding/json\<close> has written and read again.  A byte that belongs to no rune counts as the rune U+FFFD of width one,
  and JSON replaces it by the three bytes of that rune; every other string comes back as it was.
\<close>

section \<open>Decoding\<close>

definition RuneError :: int where
  "RuneError = 65533"

definition continuation :: "int \<Rightarrow> bool" where
  "continuation b \<longleftrightarrow> 128 \<le> b \<and> b \<le> 191"

text \<open>The range of the second byte, which excludes numbers that have a shorter form, surrogates and numbers that are too large.\<close>

definition secondOk :: "int \<Rightarrow> int \<Rightarrow> bool" where
  "secondOk b0 b1 \<longleftrightarrow>
     (if b0 = 224 then 160 else if b0 = 240 then 144 else 128) \<le> b1 \<and> b1 \<le> (if b0 = 237 then 159 else if b0 = 244 then 143 else 191)"

text \<open>The rune and its width, for the bytes of a string that is not empty.\<close>

fun decodeBytes :: "int list \<Rightarrow> int \<times> nat" where
  "decodeBytes [] = (RuneError, 0)"
| "decodeBytes (b0 # bs) =
     (if b0 < 128 then (b0, 1)
      else if 194 \<le> b0 \<and> b0 \<le> 223
      then (case bs of
              b1 # _ \<Rightarrow> if continuation b1 then ((b0 - 192) * 64 + (b1 - 128), 2) else (RuneError, 1)
            | _ \<Rightarrow> (RuneError, 1))
      else if 224 \<le> b0 \<and> b0 \<le> 239
      then (case bs of
              b1 # b2 # _ \<Rightarrow>
                if secondOk b0 b1 \<and> continuation b2 then ((b0 - 224) * 4096 + (b1 - 128) * 64 + (b2 - 128), 3) else (RuneError, 1)
            | _ \<Rightarrow> (RuneError, 1))
      else if 240 \<le> b0 \<and> b0 \<le> 244
      then (case bs of
              b1 # b2 # b3 # _ \<Rightarrow>
                if secondOk b0 b1 \<and> continuation b2 \<and> continuation b3
                then ((b0 - 240) * 262144 + (b1 - 128) * 4096 + (b2 - 128) * 64 + (b3 - 128), 4) else (RuneError, 1)
            | _ \<Rightarrow> (RuneError, 1))
      else (RuneError, 1))"

definition decodeRune :: "string \<Rightarrow> int \<times> nat" where
  "decodeRune s = decodeBytes (map of_char (take 4 s))"

lemma decodeBytes_width: "bs \<noteq> [] \<Longrightarrow> 1 \<le> snd (decodeBytes bs) \<and> snd (decodeBytes bs) \<le> length bs"
  by (cases bs) (auto split: list.splits)

lemma decodeRune_width:
  assumes "s \<noteq> []"
  shows "1 \<le> snd (decodeRune s)" "snd (decodeRune s) \<le> length s"
  using decodeBytes_width[of "map of_char (take 4 s)"] assms by (auto simp: decodeRune_def)

text \<open>The runes of a string, each with its bytes.\<close>

function runes :: "string \<Rightarrow> (int \<times> string) list" where
  "runes s = (if s = [] then [] else case decodeRune s of (r, n) \<Rightarrow> (r, take n s) # runes (drop n s))"
  by pat_completeness auto
termination
proof (relation "measure length")
  fix s :: string and r n
  assume "s \<noteq> []" "(r, n) = decodeRune s"
  then show "(drop n s, s) \<in> measure length" using decodeRune_width[of s] by (cases "decodeRune s") auto
qed simp

declare runes.simps [simp del]

lemma runes_Nil [simp]: "runes [] = []"
  by (subst runes.simps) simp

lemma runes_concat: "concat (map snd (runes s)) = s"
proof (induction s rule: runes.induct)
  case (1 s)
  then show ?case by (subst runes.simps) (auto split: prod.split)
qed

section \<open>Valid strings and JSON\<close>

definition invalidRune :: "int \<times> string \<Rightarrow> bool" where
  "invalidRune x \<longleftrightarrow> length (snd x) = 1 \<and> fst x = RuneError"

definition validUTF8 :: "string \<Rightarrow> bool" where
  "validUTF8 s \<longleftrightarrow> list_all (\<lambda>x. \<not> invalidRune x) (runes s)"

definition replacement :: string where
  "replacement = [char_of (239 :: nat), char_of (191 :: nat), char_of (189 :: nat)]"

definition jsonString :: "string \<Rightarrow> string" where
  "jsonString s = concat (map (\<lambda>x. if invalidRune x then replacement else snd x) (runes s))"

lemma jsonString_valid: "validUTF8 s \<Longrightarrow> jsonString s = s"
proof -
  assume "validUTF8 s"
  then have same: "map (\<lambda>x. if invalidRune x then replacement else snd x) (runes s) = map snd (runes s)"
    by (auto simp: validUTF8_def list_all_iff)
  show ?thesis unfolding jsonString_def same by (rule runes_concat)
qed

section \<open>A rune can be told from its bytes\<close>

lemma decodeBytes_cases:
  assumes d: "decodeBytes bs = (r, n)" and ok: "\<not> (r = RuneError \<and> n = 1)" and ne: "bs \<noteq> []"
  obtains (one) b0 cs where "bs = b0 # cs" "b0 < 128" "r = b0" "n = 1"
  | (two) b0 b1 cs where "bs = b0 # b1 # cs" "194 \<le> b0" "b0 \<le> 223" "continuation b1" "n = 2"
  | (three) b0 b1 b2 cs where "bs = b0 # b1 # b2 # cs" "224 \<le> b0" "b0 \<le> 239" "secondOk b0 b1" "continuation b2" "n = 3"
  | (four) b0 b1 b2 b3 cs where "bs = b0 # b1 # b2 # b3 # cs" "240 \<le> b0" "b0 \<le> 244" "secondOk b0 b1" "continuation b2" "continuation b3" "n = 4"
proof -
  obtain b0 bs1 where bs: "bs = b0 # bs1" using ne by (cases bs) auto
  consider (a) "b0 < 128" | (b) "\<not> b0 < 128" "194 \<le> b0 \<and> b0 \<le> 223" | (c) "\<not> b0 < 128" "224 \<le> b0 \<and> b0 \<le> 239"
    | (d) "\<not> b0 < 128" "240 \<le> b0 \<and> b0 \<le> 244" | (e) "\<not> b0 < 128" "\<not> (194 \<le> b0 \<and> b0 \<le> 223)" "\<not> (224 \<le> b0 \<and> b0 \<le> 239)" "\<not> (240 \<le> b0 \<and> b0 \<le> 244)"
    by blast
  then show thesis
  proof cases
    case a
    then show thesis using d bs by (intro one) auto
  next
    case b
    then obtain b1 cs where "bs1 = b1 # cs" "continuation b1" "n = 2" using d ok bs by (cases bs1) (auto split: if_splits)
    then show thesis using b bs by (intro two) auto
  next
    case c
    then obtain b1 b2 cs where "bs1 = b1 # b2 # cs" "secondOk b0 b1" "continuation b2" "n = 3"
      using d ok bs by (cases bs1; cases "tl bs1") (auto split: if_splits)
    then show thesis using c bs by (intro three) auto
  next
    case d: d
    then obtain b1 b2 b3 cs where "bs1 = b1 # b2 # b3 # cs" "secondOk b0 b1" "continuation b2" "continuation b3" "n = 4"
      using assms bs by (cases bs1; cases "tl bs1"; cases "tl (tl bs1)") (auto split: if_splits)
    then show thesis using d bs by (intro four[of b0 b1 b2 b3 cs]) auto
  next
    case e
    then show thesis using d ok bs by (auto split: if_splits)
  qed
qed

lemma decodeBytes_prefix:
  assumes "decodeBytes bs = (r, n)" "\<not> (r = RuneError \<and> n = 1)" "bs \<noteq> []"
  shows "decodeBytes (take n bs @ cs) = (r, n)"
  using assms(1) by (cases rule: decodeBytes_cases[OF assms]) auto

text \<open>The bytes of a rune that is longer than one byte are not ASCII.\<close>

lemma decodeBytes_ascii:
  assumes "decodeBytes bs = (r, n)" "\<not> (r = RuneError \<and> n = 1)" "bs \<noteq> []" "b \<in> set (take n bs)" "b < 128"
  shows "b = r"
  using assms(4,5) by (cases rule: decodeBytes_cases[OF assms(1-3)]) (auto simp: continuation_def secondOk_def split: if_splits)

section \<open>Strings made of runes\<close>

text \<open>The bytes of a rune, wherever they stand.\<close>

definition isRune :: "int \<times> string \<Rightarrow> bool" where
  "isRune x \<longleftrightarrow> snd x \<noteq> [] \<and> (\<forall>t. decodeRune (snd x @ t) = (fst x, length (snd x)))"

lemma decodeRune_isRune:
  assumes "s \<noteq> []" "decodeRune s = (r, n)" "\<not> invalidRune (r, take n s)"
  shows "isRune (r, take n s)"
proof -
  have n: "1 \<le> n" "n \<le> length s" "n \<le> 4" using decodeRune_width[OF assms(1)] decodeBytes_width[of "map of_char (take 4 s)"] assms(1,2)
    by (auto simp: decodeRune_def)
  have ok: "\<not> (r = RuneError \<and> n = 1)" using assms(3) n by (auto simp: invalidRune_def)
  have "decodeRune (take n s @ t) = (r, n)" for t
  proof -
    have "take 4 (take n s @ t) = take n (take 4 s) @ take (4 - n) t" using n by (simp add: min_def)
    then have "map of_char (take 4 (take n s @ t)) = take n (map of_char (take 4 s)) @ map (of_char :: char \<Rightarrow> int) (take (4 - n) t)"
      by (simp add: take_map)
    then show ?thesis using decodeBytes_prefix[of "map of_char (take 4 s)" r n] assms(1,2) ok by (simp add: decodeRune_def)
  qed
  then show ?thesis using n assms(1) by (auto simp: isRune_def)
qed

lemma runes_isRune: "x \<in> set (runes s) \<Longrightarrow> \<not> invalidRune x \<Longrightarrow> isRune x"
proof (induction s rule: runes.induct)
  case (1 s)
  show ?case
  proof (cases "s = []")
    case False
    obtain r n where d: "decodeRune s = (r, n)" by (cases "decodeRune s")
    then have "x = (r, take n s) \<or> x \<in> set (runes (drop n s))" using "1.prems"(1) False by (subst (asm) runes.simps) auto
    then show ?thesis using decodeRune_isRune[OF False d] "1.IH"[OF False d[symmetric]] "1.prems"(2) by auto
  qed (use "1.prems" in simp)
qed

lemma runes_of_runes: "list_all isRune xs \<Longrightarrow> runes (concat (map snd xs)) = xs"
proof (induction xs)
  case (Cons x xs)
  then have "decodeRune (snd x @ concat (map snd xs)) = (fst x, length (snd x))" "snd x \<noteq> []" by (auto simp: isRune_def)
  then show ?case using Cons by (subst runes.simps) auto
qed simp

lemma isRune_valid: "isRune x \<Longrightarrow> fst x \<noteq> RuneError \<Longrightarrow> \<not> invalidRune x"
  by (simp add: invalidRune_def)

lemma runes_valid: "list_all isRune xs \<Longrightarrow> list_all (\<lambda>x. \<not> invalidRune x) xs \<Longrightarrow> validUTF8 (concat (map snd xs))"
  by (simp add: validUTF8_def runes_of_runes)

text \<open>A byte below 128 in a rune is the rune.\<close>

lemma isRune_ascii:
  assumes "isRune x" "\<not> invalidRune x" "c \<in> set (snd x)" "(of_char c :: int) < 128"
  shows "fst x = of_char c"
proof -
  let ?bs = "map (of_char :: char \<Rightarrow> int) (take 4 (snd x))"
  have d: "decodeBytes ?bs = (fst x, length (snd x))" "snd x \<noteq> []" using assms(1) unfolding isRune_def decodeRune_def by (metis append_Nil2)+
  have w: "length (snd x) \<le> length ?bs" using decodeBytes_width[of ?bs] d by simp
  then have "of_char c \<in> set (take (length (snd x)) ?bs)" using assms(3) by auto
  moreover have "\<not> (fst x = RuneError \<and> length (snd x) = 1)" using assms(2) by (auto simp: invalidRune_def)
  ultimately show ?thesis using decodeBytes_ascii[OF d(1)] d(2) assms(4) by simp
qed

text \<open>A text of ASCII characters is valid, and its runes are its bytes.\<close>

lemma ascii_isRune: "(of_char c :: int) < 128 \<Longrightarrow> isRune (of_char c, [c])"
  by (simp add: isRune_def decodeRune_def)

lemma ascii_valid:
  assumes "\<forall>c \<in> set s. (of_char c :: int) < 128"
  shows "validUTF8 s"
proof -
  let ?xs = "map (\<lambda>c. (of_char c :: int, [c])) s"
  have "list_all isRune ?xs" using assms ascii_isRune by (auto simp: list_all_iff)
  moreover have "list_all (\<lambda>x. \<not> invalidRune x) ?xs" using assms by (auto simp: list_all_iff invalidRune_def RuneError_def)
  ultimately have "validUTF8 (concat (map snd ?xs))" by (rule runes_valid)
  then show ?thesis by (simp add: o_def)
qed

end
