(* ===== verification/MrWorker.thy ===== *)
theory MrWorker
  imports Utf8 Decimal "HOL-Library.Word" "HOL-Library.Multiset" "HOL-Library.List_Lexorder" "HOL-Library.Char_ord"
begin

text \<open>
  The worker of \<^verbatim>\<open>src/mr/worker.go\<close> and the sequential reference \<^verbatim>\<open>src/main/mrsequential.go\<close>: the hash
  that chooses a reduce task, a map task that partitions its output into the intermediate
  files, a reduce task that reads, sorts and groups them.

  The application's functions are parameters.  Strings are byte sequences.  The sort of Go's
  library is a parameter too, because \<^verbatim>\<open>sort.Sort\<close> leaves the order of equal keys open; what it
  promises is the locale \<open>go_sort\<close>.  The input files are a map from names to contents.  An intermediate file is the
  sequence of the key/value pairs that decoding it gives: JSON leaves a pair as it is if its strings are valid UTF-8, and
  otherwise puts the rune U+FFFD in place of the bytes that are not.
\<close>

unbundle bit_operations_syntax

record KeyValue =
  Key :: string
  Value :: string

section \<open>The hash\<close>

text \<open>FNV-1a on 32 bits, as \<^verbatim>\<open>hash/fnv\<close> computes it, then the low 31 bits as an \<^verbatim>\<open>int\<close>.\<close>

fun fnv32a :: "32 word \<Rightarrow> string \<Rightarrow> 32 word" where
  "fnv32a h [] = h"
| "fnv32a h (b # bs) = fnv32a ((h XOR of_nat (of_char b)) * 16777619) bs"

definition ihash :: "string \<Rightarrow> int" where
  "ihash key = uint (fnv32a 2166136261 key AND 0x7fffffff)"

section \<open>Map\<close>

type_synonym intermediate = "((int \<times> int) \<times> KeyValue list) list"

text \<open>The loop that reads the input files of a task; \<open>None\<close>: a file cannot be opened.\<close>

fun mapFiles :: "(string \<Rightarrow> string \<Rightarrow> KeyValue list) \<Rightarrow> (string \<rightharpoonup> string) \<Rightarrow> string list \<Rightarrow> KeyValue list option" where
  "mapFiles mapf fs [] = Some []"
| "mapFiles mapf fs (filename # names) = do {
     content \<leftarrow> fs filename;
     rest \<leftarrow> mapFiles mapf fs names;
     Some (mapf filename content @ rest)
   }"

text \<open>A pair that \<^verbatim>\<open>enc.Encode\<close> has written and \<^verbatim>\<open>dec.Decode\<close> reads.\<close>

definition jsonPair :: "KeyValue \<Rightarrow> KeyValue" where
  "jsonPair v = \<lparr>Key = jsonString (Key v), Value = jsonString (Value v)\<rparr>"

text \<open>
  The loop that writes each pair to the temporary file of its reduce task; a handle is \<open>None\<close>
  until its file is created.
\<close>

fun writePairs :: "KeyValue list option list \<Rightarrow> nat \<Rightarrow> KeyValue list \<Rightarrow> KeyValue list option list" where
  "writePairs handles n [] = handles"
| "writePairs handles n (v # vs) =
     (let reduceNum = nat (ihash (Key v) mod int n);
          old = (case handles ! reduceNum of Some kvs \<Rightarrow> kvs | None \<Rightarrow> [])
      in writePairs (handles[reduceNum := Some (old @ [jsonPair v])]) n vs)"

definition createWriteFileHandle :: "nat \<Rightarrow> KeyValue list option list" where
  "createWriteFileHandle NReduce = replicate NReduce None"

text \<open>\<^verbatim>\<open>os.Rename\<close> replaces a file of the same name or adds one.\<close>

definition renameInto :: "(int \<times> int) \<Rightarrow> KeyValue list \<Rightarrow> intermediate \<Rightarrow> intermediate" where
  "renameInto name kvs dir =
     (if name \<in> set (map fst dir)
      then map (\<lambda>(f, old). if f = name then (f, kvs) else (f, old)) dir
      else dir @ [(name, kvs)])"

section \<open>Reduce\<close>

text \<open>\<^verbatim>\<open>strings.Split(s, "-")\<close>.\<close>

fun splitDash :: "string \<Rightarrow> string list" where
  "splitDash [] = [[]]"
| "splitDash (c # s) = (if c = CHR ''-'' then [] # splitDash s else (case splitDash s of p # ps \<Rightarrow> (c # p) # ps | [] \<Rightarrow> [[c]]))"

definition isDigit :: "char \<Rightarrow> bool" where
  "isDigit c \<longleftrightarrow> 48 \<le> (of_char c :: nat) \<and> (of_char c :: nat) \<le> 57"

text \<open>\<^verbatim>\<open>strconv.Atoi\<close> with its error dropped: zero for a text that is no number, the largest or smallest \<^verbatim>\<open>int\<close> for one out of range.\<close>

definition atoiGo :: "string \<Rightarrow> int" where
  "atoiGo s =
     (let neg = (s \<noteq> [] \<and> hd s = CHR ''-'');
          ds = (if s \<noteq> [] \<and> (hd s = CHR ''-'' \<or> hd s = CHR ''+'') then tl s else s)
      in if ds \<noteq> [] \<and> list_all isDigit ds
         then max (- (2 ^ 63)) (min (2 ^ 63 - 1) (if neg then - decimalValue ds else decimalValue ds)) else 0)"

text \<open>The files that \<^verbatim>\<open>filepath.Walk\<close> visits, by name; what can be decoded of a directory is nothing.\<close>

definition createReadFileHandle :: "int \<Rightarrow> (string \<times> KeyValue list) list \<Rightarrow> KeyValue list list" where
  "createReadFileHandle num walk = map snd (filter (\<lambda>(name, kvs). atoiGo (last (splitDash name)) = num) walk)"

definition intermediateName :: "int \<Rightarrow> int \<Rightarrow> string" where
  "intermediateName num i = ''mr-'' @ itoa (nat num) @ ''-'' @ itoa (nat i)"

text \<open>
  The grouping loop: \<open>j\<close> moves from \<open>i\<close> to the end of the run of equal keys, the values of the run
  go to the reduce function, its output becomes a line, and \<open>i\<close> moves to \<open>j\<close>.
\<close>

function groupLoop :: "(string \<Rightarrow> string list \<Rightarrow> string) \<Rightarrow> KeyValue list \<Rightarrow> string list" where
  "groupLoop reducef [] = []"
| "groupLoop reducef (kv # kva) =
     (let run = kv # takeWhile (\<lambda>x. Key x = Key kv) kva;
          output = reducef (Key kv) (map Value run)
      in (Key kv @ '' '' @ output @ ''\<newline>'') # groupLoop reducef (dropWhile (\<lambda>x. Key x = Key kv) kva))"
  by pat_completeness auto
termination
  by (relation "measure (\<lambda>(f, kva). length kva)") (auto simp: le_imp_less_Suc length_dropWhile_le)

text \<open>A reduce task on the files of the directory, in the order in which \<^verbatim>\<open>filepath.Walk\<close> visits them.\<close>

definition ReduceTask ::
  "(KeyValue list \<Rightarrow> KeyValue list) \<Rightarrow> (string \<Rightarrow> string list \<Rightarrow> string) \<Rightarrow> int \<Rightarrow> (string \<times> KeyValue list) list \<Rightarrow> string list" where
  "ReduceTask sortf reducef taskNum walk = groupLoop reducef (sortf (concat (createReadFileHandle taskNum walk)))"

section \<open>The sequential reference\<close>

definition mrsequential ::
  "(KeyValue list \<Rightarrow> KeyValue list) \<Rightarrow> (string \<Rightarrow> string \<Rightarrow> KeyValue list) \<Rightarrow> (string \<Rightarrow> string list \<Rightarrow> string) \<Rightarrow>
   (string \<rightharpoonup> string) \<Rightarrow> string list \<Rightarrow> string list option" where
  "mrsequential sortf mapf reducef fs files = do {
     kva \<leftarrow> mapFiles mapf fs files;
     Some (groupLoop reducef (sortf kva))
   }"

end
