(* ===== verification/MrWorkerProps.thy ===== *)
theory MrWorkerProps
  imports MrWorker
begin

text \<open>
  MapReduce computes what the sequential program computes: partitioning by hash, retried map
  tasks and the split into reduce tasks neither lose, duplicate nor mix up key/value pairs.
\<close>

section \<open>Sorting and grouping\<close>

locale go_sort =
  fixes sortf :: "KeyValue list \<Rightarrow> KeyValue list"
  assumes sort_perm: "mset (sortf kva) = mset kva"
    and sort_sorted: "sorted (map Key (sortf kva))"
begin

lemma sort_set: "set (sortf kva) = set kva"
  by (metis sort_perm set_mset_mset)

lemma sort_filter: "mset (map Value (filter P (sortf kva))) = mset (map Value (filter P kva))"
  by (simp add: sort_perm)

end

interpretation byKey: go_sort "sort_key Key"
  by unfold_locales simp_all

definition keysOf :: "KeyValue list \<Rightarrow> string list" where
  "keysOf kva = remdups_adj (map Key kva)"

definition valuesOf :: "string \<Rightarrow> KeyValue list \<Rightarrow> string list" where
  "valuesOf k kva = map Value (filter (\<lambda>x. Key x = k) kva)"

definition outputLine :: "(string \<Rightarrow> string list \<Rightarrow> string) \<Rightarrow> string \<Rightarrow> string list \<Rightarrow> string" where
  "outputLine reducef k vs = k @ '' '' @ reducef k vs @ ''\<newline>''"

lemma sorted_run:
  assumes "sorted (map Key (kv # kva))"
  shows "filter (\<lambda>x. Key x = Key kv) kva = takeWhile (\<lambda>x. Key x = Key kv) kva"
    and "x \<in> set (dropWhile (\<lambda>x. Key x = Key kv) kva) \<Longrightarrow> Key x \<noteq> Key kv"
proof -
  have "x \<in> set (dropWhile (\<lambda>x. Key x = Key kv) kva) \<Longrightarrow> Key x \<noteq> Key kv" for x
    using assms
  proof (induction kva)
    case (Cons y ys)
    show ?case
    proof (cases "Key y = Key kv")
      case False
      then have lt: "Key kv < Key y" using Cons.prems(2) by (simp add: order_less_le)
      have "Key y \<le> Key x" using Cons.prems False by (auto split: if_splits)
      then show ?thesis using lt by auto
    qed (use Cons in auto)
  qed simp
  then show drop: "x \<in> set (dropWhile (\<lambda>x. Key x = Key kv) kva) \<Longrightarrow> Key x \<noteq> Key kv" for x .
  have "filter (\<lambda>x. Key x = Key kv) kva =
      filter (\<lambda>x. Key x = Key kv) (takeWhile (\<lambda>x. Key x = Key kv) kva @ dropWhile (\<lambda>x. Key x = Key kv) kva)" by simp
  also have "\<dots> = takeWhile (\<lambda>x. Key x = Key kv) kva"
  proof -
    have "filter (\<lambda>x. Key x = Key kv) (takeWhile (\<lambda>x. Key x = Key kv) kva) = takeWhile (\<lambda>x. Key x = Key kv) kva"
      by (simp add: filter_id_conv) (blast dest: set_takeWhileD)
    moreover have "filter (\<lambda>x. Key x = Key kv) (dropWhile (\<lambda>x. Key x = Key kv) kva) = []"
      unfolding filter_empty_conv using drop by blast
    ultimately show ?thesis unfolding filter_append by simp
  qed
  finally show "filter (\<lambda>x. Key x = Key kv) kva = takeWhile (\<lambda>x. Key x = Key kv) kva" .
qed

lemma keysOf_set: "set (keysOf kva) = Key ` set kva"
  by (simp add: keysOf_def)

lemma sorted_remdups_adj_strict: "sorted xs \<Longrightarrow> sorted_wrt (<) (remdups_adj xs)"
  for xs :: "'a :: linorder list"
  by (induction xs rule: remdups_adj.induct) (auto simp: order_less_le)

lemma keysOf_distinct: "sorted (map Key kva) \<Longrightarrow> distinct (keysOf kva)"
  unfolding keysOf_def by (drule sorted_remdups_adj_strict) (simp add: strict_sorted_iff)

lemma groupLoop_sorted:
  "sorted (map Key kva) \<Longrightarrow>
   groupLoop reducef kva = map (\<lambda>k. outputLine reducef k (valuesOf k kva)) (keysOf kva)"
proof (induction reducef kva rule: groupLoop.induct)
  case (2 reducef kv kva)
  let ?rest = "dropWhile (\<lambda>x. Key x = Key kv) kva"
  note run = sorted_run[OF "2.prems"]
  have dw: "dropWhile (\<lambda>k. k = Key kv) (map Key kva) = map Key ?rest" by (simp add: dropWhile_map o_def)
  have "sorted (map Key kva)" using "2.prems" by simp
  then have srt: "sorted (map Key ?rest)" unfolding dw [symmetric] by (rule sorted_dropWhile)
  have keys: "keysOf (kv # kva) = Key kv # keysOf ?rest"
    unfolding keysOf_def dw [symmetric] by (simp only: list.map remdups_adj_Cons')
  have vals: "valuesOf k (kv # kva) = valuesOf k ?rest" if kin: "k \<in> set (keysOf ?rest)" for k
  proof -
    obtain x where x: "x \<in> set ?rest" "k = Key x" using kin unfolding keysOf_set by blast
    have ne: "k \<noteq> Key kv" unfolding x(2) by (rule run(2)[OF x(1)])
    have "filter (\<lambda>x. Key x = k) kva =
        filter (\<lambda>x. Key x = k) (takeWhile (\<lambda>x. Key x = Key kv) kva @ ?rest)" by simp
    also have "\<dots> = filter (\<lambda>x. Key x = k) ?rest"
    proof -
      have "filter (\<lambda>x. Key x = k) (takeWhile (\<lambda>x. Key x = Key kv) kva) = []"
        unfolding filter_empty_conv using ne by (blast dest: set_takeWhileD)
      then show ?thesis unfolding filter_append by simp
    qed
    finally show ?thesis using ne by (simp add: valuesOf_def)
  qed
  have ih: "groupLoop reducef ?rest = map (\<lambda>k. outputLine reducef k (valuesOf k ?rest)) (keysOf ?rest)"
    by (rule "2.IH"[OF refl refl srt])
  show ?case
    unfolding keys using ih vals run(1) by (simp add: outputLine_def valuesOf_def)
qed (simp add: keysOf_def)

section \<open>Partitioning\<close>

definition bucket :: "nat \<Rightarrow> KeyValue \<Rightarrow> nat" where
  "bucket n v = nat (ihash (Key v) mod int n)"

lemma bucket_less: "0 < n \<Longrightarrow> bucket n v < n"
  by (simp add: bucket_def nat_less_iff)

text \<open>The hash is a 31-bit number.\<close>

lemma ihash_bounds: "0 \<le> ihash key" "ihash key < 2 ^ 31"
proof -
  have "fnv32a 2166136261 key AND 0x7fffffff \<le> (0x7fffffff :: 32 word)" by (rule word_and_le1)
  then have "uint (fnv32a 2166136261 key AND 0x7fffffff) \<le> uint (0x7fffffff :: 32 word)" by (simp add: word_le_def)
  then show "ihash key < 2 ^ 31" by (simp add: ihash_def)
qed (simp add: ihash_def)

lemma writePairs_nth:
  assumes "0 < n" "length handles = n" "r < n"
  shows "writePairs handles n vs ! r =
    (let mine = map jsonPair (filter (\<lambda>v. bucket n v = r) vs)
     in if mine = [] then handles ! r
        else Some ((case handles ! r of Some kvs \<Rightarrow> kvs | None \<Rightarrow> []) @ mine))"
  using assms
proof (induction handles n vs rule: writePairs.induct)
  case (2 handles n v vs)
  let ?r = "bucket n v"
  let ?h = "handles[?r := Some ((case handles ! ?r of Some kvs \<Rightarrow> kvs | None \<Rightarrow> []) @ [jsonPair v])]"
  have "writePairs handles n (v # vs) = writePairs ?h n vs" by (simp add: bucket_def)
  moreover have "?h ! r = (if r = ?r then Some ((case handles ! r of Some kvs \<Rightarrow> kvs | None \<Rightarrow> []) @ [jsonPair v]) else handles ! r)"
    using "2.prems" bucket_less[OF "2.prems"(1)] by simp
  moreover have "writePairs ?h n vs ! r =
      (let mine = map jsonPair (filter (\<lambda>v. bucket n v = r) vs)
       in if mine = [] then ?h ! r else Some ((case ?h ! r of Some kvs \<Rightarrow> kvs | None \<Rightarrow> []) @ mine))"
    using "2.IH"[OF refl refl] "2.prems" by (simp add: bucket_def)
  ultimately show ?case by (auto simp: Let_def)
qed simp

lemma writePairs_length: "length (writePairs handles n vs) = length handles"
  by (induction handles n vs rule: writePairs.induct) (simp_all add: Let_def)

section \<open>The intermediate directory\<close>

lemma renameInto_lookup: "map_of (renameInto name kvs dir) = (map_of dir)(name \<mapsto> kvs)"
proof (cases "name \<in> set (map fst dir)")
  case True
  have "map_of (map (\<lambda>(f, old). if f = name then (f, kvs) else (f, old)) dir) f =
      (if f = name \<and> name \<in> fst ` set dir then Some kvs else map_of dir f)" for f
  proof (induction dir)
    case (Cons e dir)
    then show ?case by (cases e) (cases "fst e = f"; cases "f = name"; simp)
  qed simp
  then show ?thesis using True by (simp add: renameInto_def fun_eq_iff)
next
  case False
  then have "map_of dir name = None" by (simp add: map_of_eq_None_iff)
  then show ?thesis using False unfolding renameInto_def
    by (simp only: if_False map_of_append) (rule ext, simp add: map_add_def split: option.split)
qed

lemma renameInto_distinct:
  assumes "distinct (map fst dir)"
  shows "distinct (map fst (renameInto name kvs dir))"
proof -
  have "map fst (map (\<lambda>(f, old). if f = name then (f, kvs) else (f, old)) dir) = map fst dir"
    by (induction dir) auto
  then show ?thesis using assms unfolding renameInto_def by (simp del: map_map)
qed

section \<open>The map phase\<close>

definition mapped :: "(string \<Rightarrow> string \<Rightarrow> KeyValue list) \<Rightarrow> (string \<rightharpoonup> string) \<Rightarrow> string \<Rightarrow> KeyValue list" where
  "mapped mapf fs file = mapf file (the (fs file))"

lemma mapFiles_Some:
  "\<forall>f \<in> set files. fs f \<noteq> None \<Longrightarrow> mapFiles mapf fs files = Some (concat (map (mapped mapf fs) files))"
  by (induction files) (auto simp: mapped_def)

section \<open>The reduce phase\<close>

lemma mset_concat_sum:
  "distinct xs \<Longrightarrow> mset (concat (map g xs)) = (\<Sum>x \<in> set xs. mset (g x))"
  by (induction xs) auto

text \<open>The pairs of the files whose names end in the number of a reduce task.\<close>

definition readPairs :: "int \<Rightarrow> intermediate \<Rightarrow> KeyValue list" where
  "readPairs taskNum dir = concat (map snd (filter (\<lambda>((x, y), kvs). y = taskNum) dir))"

lemma readPairs_mset:
  assumes "distinct (map fst dir)"
  shows "mset (readPairs y dir) = (\<Sum>name \<in> {name \<in> set (map fst dir). snd name = y}. mset (the (map_of dir name)))"
proof -
  let ?d = "filter (\<lambda>((x, y'), kvs). y' = y) dir"
  have d: "distinct (map fst ?d)" using assms by (rule distinct_map_filter)
  have v: "kvs = the (map_of dir name)" if "(name, kvs) \<in> set dir" for name kvs
    using map_of_is_SomeI[OF assms that] by simp
  have "readPairs y dir = concat (map (\<lambda>name. the (map_of dir name)) (map fst ?d))"
    unfolding readPairs_def by (rule arg_cong[where f = concat]) (auto dest: v)
  also have "mset \<dots> = (\<Sum>name \<in> set (map fst ?d). mset (the (map_of dir name)))"
    using d by (rule mset_concat_sum)
  also have "set (map fst ?d) = {name \<in> set (map fst dir). snd name = y}" by force
  finally show ?thesis .
qed

lemma mset_buckets:
  fixes b :: "'a \<Rightarrow> nat"
  assumes "\<forall>x \<in> set xs. b x < n"
  shows "mset (concat (map (\<lambda>y. filter (\<lambda>x. b x = y) xs) [0..<n])) = mset xs"
proof -
  have "mset (concat (map (\<lambda>y. filter (\<lambda>x. b x = y) xs) [0..<n])) = (\<Sum>y \<in> {0..<n}. mset (filter (\<lambda>x. b x = y) xs))"
    using mset_concat_sum[of "[0..<n]" "\<lambda>y. filter (\<lambda>x. b x = y) xs"] by simp
  also have "\<dots> = mset xs"
    using assms
  proof (induction xs)
    case (Cons x xs)
    have "(\<Sum>y \<in> {0..<n}. mset (filter (\<lambda>x. b x = y) (x # xs))) =
        (\<Sum>y \<in> {0..<n}. (if b x = y then {#x#} else {#}) + mset (filter (\<lambda>x. b x = y) xs))"
      by (rule sum.cong) auto
    also have "\<dots> = (\<Sum>y \<in> {0..<n}. if b x = y then {#x#} else {#}) + mset xs"
      using Cons by (simp add: sum.distrib)
    also have "(\<Sum>y \<in> {0..<n}. if b x = y then {#x#} else {#}) = {#x#}"
      using Cons.prems by (simp add: sum.delta')
    finally show ?case by simp
  qed simp
  finally show ?thesis .
qed

text \<open>A directory with the pairs of every file, by bucket: a reduce task reads the pairs of its bucket, of all files.\<close>

lemma dir_readPairs:
  assumes d: "distinct (map fst dir)"
    and look: "\<And>i. i < length files \<Longrightarrow> map_of dir (int i, int y) =
      (let g = map jsonPair (filter (\<lambda>v. bucket n v = y) (mapped mapf fs (files ! i))) in if g = [] then None else Some g)"
    and only: "\<And>x kvs. map_of dir (x, int y) = Some kvs \<Longrightarrow> \<exists>i < length files. x = int i"
  shows "mset (readPairs (int y) dir) = mset (map jsonPair (filter (\<lambda>v. bucket n v = y) (concat (map (mapped mapf fs) files))))"
proof -
  let ?g = "\<lambda>i. map jsonPair (filter (\<lambda>v. bucket n v = y) (mapped mapf fs (files ! i)))"
  let ?N = "{name \<in> set (map fst dir). snd name = int y}" and ?I = "{i. i < length files \<and> ?g i \<noteq> []}"
  have N: "?N = (\<lambda>i. (int i, int y)) ` ?I"
  proof
    show "(\<lambda>i. (int i, int y)) ` ?I \<subseteq> ?N"
    proof
      fix name assume "name \<in> (\<lambda>i. (int i, int y)) ` ?I"
      then obtain i where i: "i < length files" "?g i \<noteq> []" "name = (int i, int y)" by blast
      then have "map_of dir name = Some (?g i)" using look by (simp add: Let_def)
      then have "name \<in> set (map fst dir)" using map_of_eq_None_iff[of dir name] by simp
      then show "name \<in> ?N" using i by simp
    qed
    show "?N \<subseteq> (\<lambda>i. (int i, int y)) ` ?I"
    proof
      fix name assume "name \<in> ?N"
      then obtain x where x: "name = (x, int y)" "(x, int y) \<in> set (map fst dir)" by (cases name) auto
      then obtain kvs where k: "map_of dir (x, int y) = Some kvs" by (metis map_of_eq_None_iff option.exhaust set_map)
      then obtain i where i: "i < length files" "x = int i" using only by blast
      have "?g i \<noteq> []"
      proof
        assume "?g i = []"
        then show False using k look[OF i(1)] i(2) by (simp add: Let_def)
      qed
      then show "name \<in> (\<lambda>i. (int i, int y)) ` ?I" using i x(1) by simp
    qed
  qed
  have "mset (readPairs (int y) dir) = (\<Sum>name \<in> ?N. mset (the (map_of dir name)))" using readPairs_mset[OF d] .
  also have "\<dots> = (\<Sum>i \<in> ?I. mset (the (map_of dir (int i, int y))))"
    unfolding N by (rule sum.reindex_cong[OF _ refl refl]) (auto simp: inj_on_def)
  also have "\<dots> = (\<Sum>i \<in> ?I. mset (?g i))" by (rule sum.cong) (auto simp: look)
  also have "\<dots> = (\<Sum>i \<in> {0..<length files}. mset (?g i))" by (rule sum.mono_neutral_left) auto
  also have "\<dots> = mset (concat (map ?g [0..<length files]))" using mset_concat_sum[of "[0..<length files]" ?g] by simp
  also have "map ?g [0..<length files] = map (\<lambda>f. map jsonPair (filter (\<lambda>v. bucket n v = y) (mapped mapf fs f))) files"
    by (rule nth_equalityI) simp_all
  also have "mset (concat \<dots>) = mset (map jsonPair (filter (\<lambda>v. bucket n v = y) (concat (map (mapped mapf fs) files))))"
    by (simp add: filter_concat map_concat o_def)
  finally show ?thesis .
qed

text \<open>A bucket has all the values of its keys.\<close>

lemma bucket_lines:
  assumes sorts: "go_sort sortf" "go_sort sortf'"
    and perm: "\<forall>k vs vs'. mset vs = mset vs' \<longrightarrow> reducef k vs = reducef k vs'"
    and R: "mset (sortf P) = filter_mset (\<lambda>v. bucket n v = y) (mset kva)"
  shows "groupLoop reducef (sortf P) = map (\<lambda>k. outputLine reducef k (valuesOf k (sortf' kva))) (keysOf (sortf P))"
proof -
  have "outputLine reducef k (valuesOf k (sortf P)) = outputLine reducef k (valuesOf k (sortf' kva))" if k: "k \<in> set (keysOf (sortf P))" for k
  proof -
    obtain v where "v \<in> set (sortf P)" "Key v = k" using k unfolding keysOf_set by blast
    then have "nat (ihash k mod int n) = y" using arg_cong[OF R, of set_mset] by (auto simp: bucket_def)
    then have "filter_mset (\<lambda>x. Key x = k) (mset (sortf P)) = filter_mset (\<lambda>x. Key x = k) (mset kva)"
      unfolding R filter_filter_mset by (intro filter_mset_cong) (auto simp: bucket_def)
    then have "mset (valuesOf k (sortf P)) = mset (valuesOf k (sortf' kva))"
      by (simp add: valuesOf_def go_sort.sort_perm[OF sorts(2)])
    then have "reducef k (valuesOf k (sortf P)) = reducef k (valuesOf k (sortf' kva))" using perm by blast
    then show ?thesis by (simp add: outputLine_def)
  qed
  then show ?thesis using groupLoop_sorted[OF go_sort.sort_sorted[OF sorts(1)]] by simp
qed

text \<open>Reducing bucket by bucket gives the lines of reducing everything at once.\<close>

lemma buckets_sequential:
  assumes sorts: "go_sort sortf" "go_sort sortf'"
    and perm: "\<forall>k vs vs'. mset vs = mset vs' \<longrightarrow> reducef k vs = reducef k vs'" and n: "0 < n"
    and P: "\<And>y. y < n \<Longrightarrow> mset (P y) = mset (filter (\<lambda>v. bucket n v = y) kva)"
  shows "mset (concat (map (\<lambda>y. groupLoop reducef (sortf (P y))) [0..<n])) = mset (groupLoop reducef (sortf' kva))"
proof -
  let ?S = "sortf' kva" and ?b = "\<lambda>k. nat (ihash k mod int n)" and ?R = "\<lambda>y. sortf (P y)"
  let ?L = "\<lambda>k. outputLine reducef k (valuesOf k ?S)"
  have mR: "mset (?R y) = filter_mset (\<lambda>v. bucket n v = y) (mset kva)" if "y < n" for y
    using P[OF that] go_sort.sort_perm[OF sorts(1)] by simp
  have setR: "set (?R y) = {v \<in> set kva. bucket n v = y}" if "y < n" for y
    using arg_cong[OF mR[OF that], of set_mset] by simp
  have setS: "set ?S = set kva" by (rule go_sort.sort_set[OF sorts(2)])
  have out: "groupLoop reducef (?R y) = map ?L (keysOf (?R y))" if "y < n" for y
    using bucket_lines[OF sorts perm mR[OF that]] .
  have keys: "mset (keysOf (?R y)) = mset (filter (\<lambda>k. ?b k = y) (keysOf ?S))" if "y < n" for y
  proof -
    have "distinct (keysOf (?R y))" "distinct (filter (\<lambda>k. ?b k = y) (keysOf ?S))"
      by (simp_all add: keysOf_distinct go_sort.sort_sorted[OF sorts(1)] go_sort.sort_sorted[OF sorts(2)])
    moreover have "set (keysOf (?R y)) = set (filter (\<lambda>k. ?b k = y) (keysOf ?S))"
      unfolding set_filter keysOf_set setR[OF that] setS by (auto simp: bucket_def)
    ultimately show ?thesis by (metis set_eq_iff_mset_eq_distinct)
  qed
  have eq: "map (\<lambda>y. groupLoop reducef (?R y)) [0..<n] = map (\<lambda>y. map ?L (keysOf (?R y))) [0..<n]" by (simp add: out)
  have "mset (concat (map (\<lambda>y. groupLoop reducef (?R y)) [0..<n])) = image_mset ?L (mset (concat (map (\<lambda>y. keysOf (?R y)) [0..<n])))"
    unfolding eq by (simp add: map_concat o_def flip: mset_map)
  also have "mset (concat (map (\<lambda>y. keysOf (?R y)) [0..<n])) =
      mset (concat (map (\<lambda>y. filter (\<lambda>k. ?b k = y) (keysOf ?S)) [0..<n]))"
    using mset_concat_sum[of "[0..<n]" "\<lambda>y. keysOf (?R y)"]
      mset_concat_sum[of "[0..<n]" "\<lambda>y. filter (\<lambda>k. ?b k = y) (keysOf ?S)"] keys by simp
  also have "\<dots> = mset (keysOf ?S)" using n by (intro mset_buckets) (simp add: nat_less_iff)
  also have "image_mset ?L (mset (keysOf ?S)) = mset (groupLoop reducef ?S)"
    using groupLoop_sorted[OF go_sort.sort_sorted[OF sorts(2)]] by simp
  finally show ?thesis .
qed

text \<open>A pair of valid strings is read as it was written.\<close>

definition validPair :: "KeyValue \<Rightarrow> bool" where
  "validPair v \<longleftrightarrow> validUTF8 (Key v) \<and> validUTF8 (Value v)"

lemma jsonPair_valid: "validPair v \<Longrightarrow> jsonPair v = v"
  by (simp add: validPair_def jsonPair_def jsonString_valid)

text \<open>Any other pair comes back changed: a byte that belongs to no rune becomes U+FFFD.\<close>

lemma json_changes_bytes: "jsonPair \<lparr>Key = [char_of (255 :: nat)], Value = ''v''\<rparr> = \<lparr>Key = replacement, Value = ''v''\<rparr>"
  by code_simp

lemma jsonPair_map: "\<forall>v \<in> set vs. validPair v \<Longrightarrow> map jsonPair (filter P vs) = filter P vs"
  by (induction vs) (simp_all add: jsonPair_valid)

lemma sort_order_free: "mset vs = mset vs' \<Longrightarrow> sort vs = sort vs'" for vs :: "string list"
  by (rule properties_for_sort) simp_all

definition demoFiles :: "string \<rightharpoonup> string" where
  "demoFiles = [''f'' \<mapsto> ''ab'', ''g'' \<mapsto> ''ba'']"

definition demoMap :: "string \<Rightarrow> string \<Rightarrow> KeyValue list" where
  "demoMap name content = map (\<lambda>c. \<lparr>Key = [c], Value = name\<rparr>) content"

definition demoReduce :: "string \<Rightarrow> string list \<Rightarrow> string" where
  "demoReduce k vs = concat (sort vs)"

lemma demo_ok:
  "\<forall>k vs vs'. mset vs = mset vs' \<longrightarrow> demoReduce k vs = demoReduce k vs'" "\<forall>f \<in> set [''f'', ''g'']. demoFiles f \<noteq> None"
  unfolding demoReduce_def demoFiles_def by (metis sort_order_free) simp

section \<open>Applications\<close>

text \<open>
  What the framework asks of an application: its reduce function must not depend on the order
  of the values, which a map task's partition and an unstable sort leave open.
\<close>

locale mr_app =
  fixes mapf :: "string \<Rightarrow> string \<Rightarrow> KeyValue list" and reducef :: "string \<Rightarrow> string list \<Rightarrow> string"
  assumes order_free: "mset vs = mset vs' \<Longrightarrow> reducef k vs = reducef k vs'"
begin

text \<open>The lines of the sequential output: one per key, with the reduction of all its values.\<close>

lemma sequential_lines:
  assumes "\<forall>f \<in> set files. fs f \<noteq> None"
  shows "\<exists>lines. mrsequential (sort_key Key) mapf reducef fs files = Some lines \<and>
    (let kva = concat (map (mapped mapf fs) files)
     in lines = map (\<lambda>k. outputLine reducef k (valuesOf k kva)) (keysOf (sort_key Key kva)))"
proof -
  let ?kva = "concat (map (mapped mapf fs) files)"
  have "reducef k (valuesOf k (sort_key Key ?kva)) = reducef k (valuesOf k ?kva)" for k
    by (rule order_free) (simp add: valuesOf_def)
  then show ?thesis
    using mapFiles_Some[OF assms, of mapf] groupLoop_sorted[OF byKey.sort_sorted, of reducef ?kva]
    by (simp add: mrsequential_def outputLine_def Let_def)
qed

end

end
