(* ===== verification/MrCoordinator.thy ===== *)
theory MrCoordinator
  imports Prelude
begin

text \<open>
  The coordinator of \<^verbatim>\<open>src/mr/coordinator.go\<close>: its two task queues, the cyclic search for an idle
  task, the two RPC handlers, the goroutine that returns a task after ten seconds, and \<^verbatim>\<open>Done\<close>.
  Every operation takes the mutex; \<open>mutex\<close> says whether it is held for good, in which case the
  operation blocks.  A pointer to a task is its position in its queue.
\<close>

section \<open>State\<close>

datatype TaskState = IDLE | WORK | COMPLETE

datatype TaskType = MAP | REDUCE | SLEEP | FINISH

text \<open>\<open>cancel\<close> says whether the task's cancel function has been set.\<close>

record Task =
  fileName :: string
  taskState :: TaskState
  taskNum :: int
  taskType :: TaskType
  cancel :: bool

text \<open>
  \<open>timers\<close> are the goroutines started by \<^verbatim>\<open>GetTask\<close> that have not yet run: the queue and the
  position of the task each of them watches.
\<close>

record Coordinator =
  mutex :: bool
  curPtrTask :: int
  mapTaskQueue :: "Task list"
  totalMapTask :: int
  reduceTaskQueue :: "Task list"
  totalReduceTask :: int
  remainMapTaskCount :: int
  remainReduceTaskCount :: int
  nReduce :: int
  timers :: "(TaskType \<times> int) list"

record Request =
  rqTaskNum :: int
  rqTaskType :: TaskType
  rqReduceList :: "int list"

record Response =
  rsFiles :: "string list"
  rsNReduce :: int
  rsTaskNum :: int
  rsTaskType :: TaskType

section \<open>Operations\<close>

definition MakeCoordinator :: "string list \<Rightarrow> nat \<Rightarrow> Coordinator" where
  "MakeCoordinator files n =
     \<lparr>mutex = False, curPtrTask = 0,
      mapTaskQueue = map (\<lambda>i. \<lparr>fileName = files ! i, taskState = IDLE, taskNum = int i, taskType = MAP, cancel = False\<rparr>)
                         [0..<length files],
      totalMapTask = int (length files),
      reduceTaskQueue = map (\<lambda>i. \<lparr>fileName = [], taskState = COMPLETE, taskNum = int i, taskType = REDUCE, cancel = False\<rparr>)
                            [0..<n],
      totalReduceTask = int n, remainMapTaskCount = int (length files), remainReduceTaskCount = int n,
      nReduce = int n, timers = []\<rparr>"

text \<open>
  The search loop of \<^verbatim>\<open>findNextIdleMapTask\<close> and \<^verbatim>\<open>findNextIdleReduceTask\<close>: \<open>Ret None\<close> when it is back
  at the current position, \<open>Panic\<close> on an index out of range or a remainder by zero, \<open>Blocked\<close> when
  \<open>fuel\<close> turns were not enough.  One turn per task is enough when the current position is in
  range (\<open>findNextIdle_spec\<close>).
\<close>

fun findLoop :: "nat \<Rightarrow> Task list \<Rightarrow> int \<Rightarrow> int \<Rightarrow> int \<Rightarrow> int option Run" where
  "findLoop 0 q tot cur temp = Blocked"
| "findLoop (Suc fuel) q tot cur temp =
     (if temp = cur then Ret None
      else (case go_index q temp of
              None \<Rightarrow> Panic
            | Some t \<Rightarrow>
                if taskState t = IDLE then Ret (Some temp)
                else if tot = 0 then Panic
                else findLoop fuel q tot cur ((temp + 1) mod tot)))"

definition findNextIdle :: "Task list \<Rightarrow> int \<Rightarrow> int \<Rightarrow> int option Run" where
  "findNextIdle q tot cur =
     (case go_index q cur of
        None \<Rightarrow> Panic
      | Some t \<Rightarrow>
          if taskState t \<noteq> IDLE
          then if tot = 0 then Panic
               else findLoop (length q) q tot cur ((cur + 1) mod tot)
          else Ret (Some cur))"

definition findNextIdleMapTask :: "Coordinator \<Rightarrow> (Coordinator \<times> int option) Run" where
  "findNextIdleMapTask c =
     (case findNextIdle (mapTaskQueue c) (totalMapTask c) (curPtrTask c) of
        Ret (Some i) \<Rightarrow> Ret (c\<lparr>curPtrTask := i\<rparr>, Some i)
      | Ret None \<Rightarrow> Ret (c, None)
      | Panic \<Rightarrow> Panic
      | Blocked \<Rightarrow> Blocked)"

definition findNextIdleReduceTask :: "Coordinator \<Rightarrow> (Coordinator \<times> int option) Run" where
  "findNextIdleReduceTask c =
     (case findNextIdle (reduceTaskQueue c) (totalReduceTask c) (curPtrTask c) of
        Ret (Some i) \<Rightarrow> Ret (c\<lparr>curPtrTask := i\<rparr>, Some i)
      | Ret None \<Rightarrow> Ret (c, None)
      | Panic \<Rightarrow> Panic
      | Blocked \<Rightarrow> Blocked)"

definition emptyResponse :: Response where
  "emptyResponse = \<lparr>rsFiles = [], rsNReduce = 0, rsTaskNum = 0, rsTaskType = MAP\<rparr>"

definition assign :: "Task list \<Rightarrow> int \<Rightarrow> Task list" where
  "assign q i = q[nat i := (q ! nat i)\<lparr>taskState := WORK, cancel := True\<rparr>]"

definition GetTask :: "Coordinator \<Rightarrow> (Coordinator \<times> Response) Run" where
  "GetTask c =
     (if mutex c then Blocked
      else if remainMapTaskCount c \<noteq> 0
      then (case findNextIdleMapTask c of
              Panic \<Rightarrow> Panic
            | Blocked \<Rightarrow> Blocked
            | Ret (c, None) \<Rightarrow> Ret (c, emptyResponse\<lparr>rsTaskType := SLEEP\<rparr>)
            | Ret (c, Some i) \<Rightarrow>
                let task = mapTaskQueue c ! nat i
                in Ret (c\<lparr>mapTaskQueue := assign (mapTaskQueue c) i, timers := timers c @ [(MAP, i)]\<rparr>,
                        \<lparr>rsFiles = [fileName task], rsNReduce = nReduce c, rsTaskNum = taskNum task,
                         rsTaskType = taskType task\<rparr>))
      else if remainReduceTaskCount c \<noteq> 0
      then (case findNextIdleReduceTask c of
              Panic \<Rightarrow> Panic
            | Blocked \<Rightarrow> Blocked
            | Ret (c, None) \<Rightarrow> Ret (c, emptyResponse\<lparr>rsTaskType := SLEEP\<rparr>)
            | Ret (c, Some i) \<Rightarrow>
                let task = reduceTaskQueue c ! nat i
                in Ret (c\<lparr>reduceTaskQueue := assign (reduceTaskQueue c) i, timers := timers c @ [(REDUCE, i)]\<rparr>,
                        \<lparr>rsFiles = [], rsNReduce = nReduce c, rsTaskNum = taskNum task,
                         rsTaskType = taskType task\<rparr>))
      else Ret (c, emptyResponse\<lparr>rsTaskType := FINISH\<rparr>))"

text \<open>The goroutine of an assignment, when its context is done: by the timeout or by \<^verbatim>\<open>cancel\<close>.\<close>

definition release :: "Task list \<Rightarrow> int \<Rightarrow> Task list" where
  "release q i =
     (if taskState (q ! nat i) \<noteq> COMPLETE then q[nat i := (q ! nat i)\<lparr>taskState := IDLE\<rparr>] else q)"

definition taskTimeout :: "Coordinator \<Rightarrow> nat \<Rightarrow> Coordinator Run" where
  "taskTimeout c k =
     (if mutex c then Blocked
      else if k < length (timers c)
      then let (ty, i) = timers c ! k;
               c = c\<lparr>timers := take k (timers c) @ drop (k + 1) (timers c)\<rparr>
           in if ty = MAP then Ret (c\<lparr>mapTaskQueue := release (mapTaskQueue c) i\<rparr>)
              else Ret (c\<lparr>reduceTaskQueue := release (reduceTaskQueue c) i\<rparr>)
      else Ret c)"

text \<open>Marking a task complete and calling its cancel function, which panics while it is nil.\<close>

definition complete :: "Task list \<Rightarrow> int \<Rightarrow> Task list option" where
  "complete q i = do {
     t \<leftarrow> go_index q i;
     q \<leftarrow> go_set q i (t\<lparr>taskState := COMPLETE\<rparr>);
     if cancel t then Some q else None
   }"

fun wakeReduce :: "Task list \<Rightarrow> int list \<Rightarrow> Task list option" where
  "wakeReduce q [] = Some q"
| "wakeReduce q (i # is) = do {
     t \<leftarrow> go_index q i;
     q \<leftarrow> go_set q i (t\<lparr>taskState := IDLE\<rparr>);
     wakeReduce q is
   }"

definition countIdle :: "Task list \<Rightarrow> int" where
  "countIdle q = int (length (filter (\<lambda>t. taskState t = IDLE) q))"

definition CompleteTask :: "Coordinator \<Rightarrow> Request \<Rightarrow> Coordinator Run" where
  "CompleteTask c request =
     (if mutex c then Blocked
      else if rqTaskType request = MAP
      then (case complete (mapTaskQueue c) (rqTaskNum request) of
              None \<Rightarrow> Panic
            | Some mq \<Rightarrow>
                (case wakeReduce (reduceTaskQueue c) (rqReduceList request) of
                   None \<Rightarrow> Panic
                 | Some rq \<Rightarrow>
                     let c = c\<lparr>mapTaskQueue := mq, remainMapTaskCount := remainMapTaskCount c - 1,
                               reduceTaskQueue := rq\<rparr>
                     in Ret (if remainMapTaskCount c = 0
                             then c\<lparr>remainReduceTaskCount := countIdle rq, curPtrTask := 0\<rparr>
                             else c)))
      else (case complete (reduceTaskQueue c) (rqTaskNum request) of
              None \<Rightarrow> Panic
            | Some rq \<Rightarrow>
                Ret (c\<lparr>reduceTaskQueue := rq, remainReduceTaskCount := remainReduceTaskCount c - 1\<rparr>)))"

text \<open>\<^verbatim>\<open>Done\<close> returns from inside the locked region when the job is finished.\<close>

definition Done :: "Coordinator \<Rightarrow> (Coordinator \<times> bool) Run" where
  "Done c =
     (if mutex c then Blocked
      else if remainMapTaskCount c = 0 \<and> remainReduceTaskCount c = 0
      then Ret (c\<lparr>mutex := True\<rparr>, True)
      else Ret (c, False))"

end
