(* ===== verification/MrCoordinatorProps.thy ===== *)
theory MrCoordinatorProps
  imports MrCoordinator
begin

text \<open>
  The coordinator's search and its life cycle: the cyclic search finds an idle task whenever
  there is one; as long as every task is reported complete once, the counters count, reduce
  tasks are handed out only after all map tasks, and \<^const>\<open>Done\<close> is true exactly when all tasks
  are complete.  A task that is reported twice breaks this, and \<^const>\<open>Done\<close> keeps the mutex.
\<close>

section \<open>The cyclic search\<close>

definition idleAt :: "Task list \<Rightarrow> int \<Rightarrow> bool" where
  "idleAt q i \<longleftrightarrow> taskState (q ! nat i) = IDLE"

text \<open>The positions in the order in which the search visits them.\<close>

definition cyclic :: "nat \<Rightarrow> int \<Rightarrow> nat list \<Rightarrow> int list" where
  "cyclic n cur js = map (\<lambda>j. (cur + int j) mod int n) js"

lemma findLoop_cyclic:
  assumes n: "n = length q" "0 \<le> cur" "cur < int n" and k: "1 \<le> k" "k \<le> n"
  shows "findLoop (n + 1 - k) q (int n) cur ((cur + int k) mod int n) =
    Ret (find (idleAt q) (cyclic n cur [k..<n]))"
  using k
proof (induction "n - k" arbitrary: k)
  case 0
  then have "k = n" by simp
  then show ?case using n by (simp add: cyclic_def)
next
  case (Suc d)
  then have kn: "k < n" by simp
  let ?p = "(cur + int k) mod int n"
  have p: "0 \<le> ?p" "?p < int n" using kn by simp_all
  have ne: "?p \<noteq> cur"
  proof
    assume "?p = cur"
    then have "(cur + int k) mod int n = cur mod int n" using n by simp
    then have "int n dvd int k" by (metis add_diff_cancel_left' mod_eq_dvd_iff)
    then show False using Suc.prems kn by (auto dest: zdvd_imp_le)
  qed
  have idx: "go_index q ?p = Some (q ! nat ?p)" using p n by (simp add: go_index_def)
  have next_k: "(?p + 1) mod int n = (cur + int (Suc k)) mod int n" by (simp add: mod_simps ac_simps)
  have fuel: "n + 1 - k = Suc (n + 1 - Suc k)" using kn by simp
  have up: "cyclic n cur [k..<n] = ?p # cyclic n cur [Suc k..<n]" using kn by (simp add: cyclic_def upt_conv_Cons)
  have ih: "findLoop (n + 1 - Suc k) q (int n) cur ((cur + int (Suc k)) mod int n) =
      Ret (find (idleAt q) (cyclic n cur [Suc k..<n]))"
    using Suc.hyps(1)[of "Suc k"] Suc.hyps(2) kn by simp
  show ?case
    unfolding fuel up using ne idx ih next_k kn by (simp add: idleAt_def)
qed

text \<open>The search is a search through all positions, from the current one on and around.\<close>

lemma findNextIdle_spec:
  assumes "0 \<le> cur" "cur < int (length q)"
  shows "findNextIdle q (int (length q)) cur = Ret (find (idleAt q) (cyclic (length q) cur [0..<length q]))"
proof -
  have up: "cyclic (length q) cur [0..<length q] = cur # cyclic (length q) cur [1..<length q]"
    using assms upt_conv_Cons[of 0 "length q"] by (cases "length q = 0") (simp_all add: cyclic_def)
  have idx: "go_index q cur = Some (q ! nat cur)" using assms by (simp add: go_index_def)
  have "findLoop (length q) q (int (length q)) cur ((cur + 1) mod int (length q)) =
      Ret (find (idleAt q) (cyclic (length q) cur [1..<length q]))"
    using findLoop_cyclic[of "length q" q cur 1] assms by simp
  then show ?thesis unfolding up using assms idx by (auto simp: findNextIdle_def idleAt_def)
qed

lemma cyclic_covers:
  assumes "0 \<le> cur" "cur < int n"
  shows "set (cyclic n cur [0..<n]) = {0..<int n}"
proof
  show "set (cyclic n cur [0..<n]) \<subseteq> {0..<int n}" using assms by (auto simp: cyclic_def)
  show "{0..<int n} \<subseteq> set (cyclic n cur [0..<n])"
  proof
    fix p assume p: "p \<in> {0..<int n}"
    define j where "j = nat ((p - cur) mod int n)"
    have "j < n" using assms by (simp add: j_def nat_less_iff)
    moreover have "(cur + int j) mod int n = p" using assms p by (simp add: j_def mod_simps)
    ultimately show "p \<in> set (cyclic n cur [0..<n])" by (auto simp: cyclic_def)
  qed
qed

lemma findNextIdle_cases:
  assumes "0 \<le> cur" "cur < int (length q)"
  obtains (found) i where "findNextIdle q (int (length q)) cur = Ret (Some i)" "0 \<le> i" "i < int (length q)" "idleAt q i"
  | (none) "findNextIdle q (int (length q)) cur = Ret None" "\<forall>t \<in> set q. taskState t \<noteq> IDLE"
proof (cases "find (idleAt q) (cyclic (length q) cur [0..<length q])")
  case None
  then have none: "\<forall>p \<in> {0..<int (length q)}. \<not> idleAt q p"
    using cyclic_covers[OF assms] by (auto simp: find_None_iff)
  have "taskState t \<noteq> IDLE" if "t \<in> set q" for t
  proof -
    obtain k where "k < length q" "q ! k = t" using \<open>t \<in> set q\<close> by (auto simp: in_set_conv_nth)
    then show ?thesis using bspec[OF none, of "int k"] by (simp add: idleAt_def)
  qed
  then show thesis using that(2) None findNextIdle_spec[OF assms] by simp
next
  case (Some i)
  then have "idleAt q i" "i \<in> set (cyclic (length q) cur [0..<length q])"
    by (auto simp: find_Some_iff)
  then show thesis using that(1) Some findNextIdle_spec[OF assms] cyclic_covers[OF assms] by auto
qed

section \<open>Runs in which every task is reported once\<close>

definition unfinished :: "Task list \<Rightarrow> int" where
  "unfinished q = int (length (filter (\<lambda>t. taskState t \<noteq> COMPLETE) q))"

inductive coordStep :: "Coordinator \<Rightarrow> Coordinator \<Rightarrow> bool" where
  getTask: "GetTask c = Ret (c', response) \<Longrightarrow> coordStep c c'"
| timeout: "taskTimeout c k = Ret c' \<Longrightarrow> coordStep c c'"
| mapDone: "\<lbrakk>rqTaskType request = MAP; taskState (mapTaskQueue c ! nat (rqTaskNum request)) \<noteq> COMPLETE;
     CompleteTask c request = Ret c'\<rbrakk> \<Longrightarrow> coordStep c c'"
| reduceDone: "\<lbrakk>rqTaskType request = REDUCE; taskState (reduceTaskQueue c ! nat (rqTaskNum request)) \<noteq> COMPLETE;
     CompleteTask c request = Ret c'\<rbrakk> \<Longrightarrow> coordStep c c'"

inductive coordReachable :: "string list \<Rightarrow> nat \<Rightarrow> Coordinator \<Rightarrow> bool" for files n where
  start: "coordReachable files n (MakeCoordinator files n)"
| step: "coordReachable files n c \<Longrightarrow> coordStep c c' \<Longrightarrow> coordReachable files n c'"

definition coordInv :: "Coordinator \<Rightarrow> bool" where
  "coordInv c \<longleftrightarrow>
     \<not> mutex c \<and> totalMapTask c = int (length (mapTaskQueue c)) \<and> totalReduceTask c = int (length (reduceTaskQueue c)) \<and>
     remainMapTaskCount c = unfinished (mapTaskQueue c) \<and> 0 \<le> curPtrTask c \<and>
     (if remainMapTaskCount c \<noteq> 0
      then curPtrTask c < totalMapTask c \<and> (\<forall>t \<in> set (reduceTaskQueue c). taskState t \<noteq> WORK \<and> \<not> cancel t) \<and>
           (\<forall>(ty, i) \<in> set (timers c). ty = MAP)
      else remainReduceTaskCount c = unfinished (reduceTaskQueue c) \<and>
           (curPtrTask c < totalReduceTask c \<or> reduceTaskQueue c = [])) \<and>
     (\<forall>(ty, i) \<in> set (timers c). 0 \<le> i \<and>
        (if ty = MAP then i < int (length (mapTaskQueue c)) else i < int (length (reduceTaskQueue c))))"


text \<open>How the operations change the number of unfinished tasks.\<close>

lemma unfinished_update:
  assumes "k < length q"
  shows "unfinished (q[k := t]) = unfinished q - (if taskState (q ! k) \<noteq> COMPLETE then 1 else 0)
    + (if taskState t \<noteq> COMPLETE then 1 else 0)"
proof -
  have q: "q = take k q @ q ! k # drop (Suc k) q" using assms by (simp add: id_take_nth_drop)
  have u: "q[k := t] = take k q @ t # drop (Suc k) q" using assms by (simp add: upd_conv_take_nth_drop)
  show ?thesis unfolding u using arg_cong[OF q, of unfinished] by (simp add: unfinished_def)
qed

lemma unfinished_same: "k < length q \<Longrightarrow> taskState (q ! k) \<noteq> COMPLETE \<Longrightarrow> taskState t \<noteq> COMPLETE \<Longrightarrow>
    unfinished (q[k := t]) = unfinished q"
  by (simp add: unfinished_update)

lemma unfinished_0: "unfinished q = 0 \<longleftrightarrow> (\<forall>t \<in> set q. taskState t = COMPLETE)"
  by (auto simp: unfinished_def filter_empty_conv)

lemma countIdle_unfinished: "\<forall>t \<in> set q. taskState t \<noteq> WORK \<Longrightarrow> countIdle q = unfinished q"
proof -
  assume a: "\<forall>t \<in> set q. taskState t \<noteq> WORK"
  have "filter (\<lambda>t. taskState t = IDLE) q = filter (\<lambda>t. taskState t \<noteq> COMPLETE) q"
    using a by (intro filter_cong) (auto, metis TaskState.exhaust)
  then show ?thesis by (simp add: countIdle_def unfinished_def)
qed

lemma release_fields [simp]: "length (release q i) = length q" "release q i = [] \<longleftrightarrow> q = []"
  by (simp_all add: release_def)

lemma unfinished_release: "0 \<le> i \<Longrightarrow> i < int (length q) \<Longrightarrow> unfinished (release q i) = unfinished q"
  by (auto simp: release_def intro: unfinished_same)

lemma assign_fields [simp]: "length (assign q i) = length q"
  by (simp add: assign_def)

lemma unfinished_assign: "idleAt q i \<Longrightarrow> 0 \<le> i \<Longrightarrow> i < int (length q) \<Longrightarrow> unfinished (assign q i) = unfinished q"
  by (auto simp: assign_def idleAt_def intro: unfinished_same)

lemma complete_Some:
  assumes "complete q i = Some q'"
  shows "0 \<le> i \<and> i < int (length q) \<and> cancel (q ! nat i) \<and> q' = q[nat i := (q ! nat i)\<lparr>taskState := COMPLETE\<rparr>]"
  using assms by (auto simp: complete_def bind_eq_Some_conv go_index_def go_set_def split: if_splits)

lemma wakeReduce_Some:
  "wakeReduce q is = Some q' \<Longrightarrow> (\<forall>t \<in> set q. taskState t \<noteq> WORK \<and> \<not> cancel t) \<Longrightarrow>
   length q' = length q \<and> (\<forall>t \<in> set q'. taskState t \<noteq> WORK \<and> \<not> cancel t)"
proof (induction q "is" arbitrary: q' rule: wakeReduce.induct)
  case (2 q i "is")
  then obtain t q1 where h: "go_index q i = Some t" "go_set q i (t\<lparr>taskState := IDLE\<rparr>) = Some q1" "wakeReduce q1 is = Some q'"
    by (auto simp: bind_eq_Some_conv)
  then have q1: "q1 = q[nat i := t\<lparr>taskState := IDLE\<rparr>]" and t: "t \<in> set q"
    by (auto simp: go_index_def go_set_def split: if_splits)
  have "\<forall>u \<in> set q1. u = t\<lparr>taskState := IDLE\<rparr> \<or> u \<in> set q"
    unfolding q1 using set_update_subset_insert[of q "nat i" "t\<lparr>taskState := IDLE\<rparr>"] by blast
  then have "\<forall>u \<in> set q1. taskState u \<noteq> WORK \<and> \<not> cancel u" using t "2.prems"(2) by auto
  from "2.IH"[OF h(1,2) h(3) this] have "length q' = length q1" "\<forall>t \<in> set q'. taskState t \<noteq> WORK \<and> \<not> cancel t"
    by blast+
  moreover have "length q1 = length q" by (simp add: q1)
  ultimately show ?case by metis
qed simp

text \<open>What \<^const>\<open>GetTask\<close> does: it always returns, and it hands out a task of the current phase when one is idle.\<close>

lemma GetTask_map_phase:
  assumes inv: "coordInv c" and busy: "remainMapTaskCount c \<noteq> 0"
  obtains (idle) msg where "GetTask c = Ret (c, msg)" "rsTaskType msg = SLEEP" "\<forall>t \<in> set (mapTaskQueue c). taskState t \<noteq> IDLE"
  | (mapTask) k where "k < length (mapTaskQueue c)" "taskState (mapTaskQueue c ! k) = IDLE"
      "GetTask c = Ret (c\<lparr>curPtrTask := int k, mapTaskQueue := assign (mapTaskQueue c) (int k), timers := timers c @ [(MAP, int k)]\<rparr>,
         \<lparr>rsFiles = [fileName (mapTaskQueue c ! k)], rsNReduce = nReduce c, rsTaskNum = taskNum (mapTaskQueue c ! k),
          rsTaskType = taskType (mapTaskQueue c ! k)\<rparr>)"
proof -
  let ?q = "mapTaskQueue c"
  have r: "0 \<le> curPtrTask c" "curPtrTask c < int (length ?q)" "totalMapTask c = int (length ?q)" "\<not> mutex c"
    using inv busy by (auto simp: coordInv_def)
  from r(1,2) show thesis
  proof (cases rule: findNextIdle_cases)
    case none
    then show thesis using busy r by (intro idle) (auto simp: GetTask_def findNextIdleMapTask_def)
  next
    case (found i)
    then show thesis using busy r by (intro mapTask[of "nat i"]) (auto simp: GetTask_def findNextIdleMapTask_def idleAt_def nat_less_iff)
  qed
qed

lemma GetTask_reduce_phase:
  assumes inv: "coordInv c" and over: "remainMapTaskCount c = 0"
  obtains (idle) msg where "GetTask c = Ret (c, msg)" "rsTaskType msg = (if remainReduceTaskCount c \<noteq> 0 then SLEEP else FINISH)"
      "\<forall>t \<in> set (reduceTaskQueue c). taskState t \<noteq> IDLE"
  | (reduceTask) k where "k < length (reduceTaskQueue c)" "taskState (reduceTaskQueue c ! k) = IDLE"
      "GetTask c = Ret (c\<lparr>curPtrTask := int k, reduceTaskQueue := assign (reduceTaskQueue c) (int k), timers := timers c @ [(REDUCE, int k)]\<rparr>,
         \<lparr>rsFiles = [], rsNReduce = nReduce c, rsTaskNum = taskNum (reduceTaskQueue c ! k), rsTaskType = taskType (reduceTaskQueue c ! k)\<rparr>)"
proof -
  let ?q = "reduceTaskQueue c"
  have u: "remainReduceTaskCount c = unfinished ?q" "\<not> mutex c" using inv over by (auto simp: coordInv_def)
  show thesis
  proof (cases "remainReduceTaskCount c = 0")
    case True
    then have "\<forall>t \<in> set ?q. taskState t = COMPLETE" using u(1) by (simp add: unfinished_0)
    then show thesis using True over u(2) by (intro idle) (auto simp: GetTask_def)
  next
    case nz: False
    then have "?q \<noteq> []" using u(1) by (auto simp: unfinished_def)
    then have r: "0 \<le> curPtrTask c" "curPtrTask c < int (length ?q)" "totalReduceTask c = int (length ?q)"
      using inv over by (auto simp: coordInv_def)
    from r(1,2) show thesis
    proof (cases rule: findNextIdle_cases)
      case none
      then show thesis using over nz r u(2) by (intro idle) (auto simp: GetTask_def findNextIdleReduceTask_def)
    next
      case (found i)
      then show thesis using over nz r u(2)
        by (intro reduceTask[of "nat i"]) (auto simp: GetTask_def findNextIdleReduceTask_def idleAt_def nat_less_iff)
    qed
  qed
qed

lemma GetTask_keeps:
  assumes inv: "coordInv c" and g: "GetTask c = Ret (c', response)"
  shows "coordInv c'"
proof (cases "remainMapTaskCount c = 0")
  case False
  with inv show ?thesis
  proof (cases rule: GetTask_map_phase)
    case (mapTask k)
    have i: "idleAt (mapTaskQueue c) (int k)" using mapTask(2) by (simp add: idleAt_def)
    show ?thesis using inv False mapTask(1,3) g unfinished_assign[OF i] by (auto simp: coordInv_def)
  qed (use inv g in auto)
next
  case True
  with inv show ?thesis
  proof (cases rule: GetTask_reduce_phase)
    case (reduceTask k)
    have i: "idleAt (reduceTaskQueue c) (int k)" using reduceTask(2) by (simp add: idleAt_def)
    show ?thesis using inv True reduceTask(1,3) g unfinished_assign[OF i] by (auto simp: coordInv_def)
  qed (use inv g in auto)
qed

lemma set_without: "set (take k xs @ drop (k + 1) xs) \<subseteq> set xs"
  by (auto dest: in_set_takeD in_set_dropD)

lemma coordInv_timers:
  assumes "coordInv c" "set ts \<subseteq> set (timers c)"
  shows "coordInv (c\<lparr>timers := ts\<rparr>)"
proof -
  have sub: "Ball (set (timers c)) P \<Longrightarrow> Ball (set ts) P" for P using assms(2) by blast
  show ?thesis
    using assms(1) sub[of "\<lambda>(ty, i). ty = MAP"]
      sub[of "\<lambda>(ty, i). 0 \<le> i \<and> (if ty = MAP then i < int (length (mapTaskQueue c)) else i < int (length (reduceTaskQueue c)))"]
    unfolding coordInv_def by (cases "remainMapTaskCount c = 0") auto
qed

lemma release_complete: "\<forall>t \<in> set q. taskState t = COMPLETE \<Longrightarrow> 0 \<le> i \<Longrightarrow> i < int (length q) \<Longrightarrow> release q i = q"
  by (simp add: release_def)

lemma taskTimeout_keeps:
  assumes inv: "coordInv c" and t: "taskTimeout c k = Ret c'"
  shows "coordInv c'"
proof (cases "k < length (timers c)")
  case False
  then show ?thesis using t inv by (auto simp: taskTimeout_def split: if_splits)
next
  case True
  obtain ty i where ti: "timers c ! k = (ty, i)" by (cases "timers c ! k")
  have mem: "(ty, i) \<in> set (timers c)" using True ti by (metis nth_mem)
  define c1 where "c1 = c\<lparr>timers := take k (timers c) @ drop (k + 1) (timers c)\<rparr>"
  have i1: "coordInv c1" unfolding c1_def by (rule coordInv_timers[OF inv set_without])
  have r: "0 \<le> i" "ty = MAP \<Longrightarrow> i < int (length (mapTaskQueue c1))" "ty \<noteq> MAP \<Longrightarrow> i < int (length (reduceTaskQueue c1))"
    "ty \<noteq> MAP \<Longrightarrow> remainMapTaskCount c1 = 0"
    using inv mem by (auto simp: coordInv_def c1_def split: if_splits)
  have c': "c' = (if ty = MAP then c1\<lparr>mapTaskQueue := release (mapTaskQueue c1) i\<rparr>
                  else c1\<lparr>reduceTaskQueue := release (reduceTaskQueue c1) i\<rparr>)"
    using t True ti inv by (simp add: taskTimeout_def c1_def coordInv_def split: if_splits)
  show ?thesis
  proof (cases "ty = MAP")
    case True
    then show ?thesis using c' i1 unfinished_release[OF r(1) r(2)[OF True]] by (auto simp: coordInv_def)
  next
    case False
    then have "length (release (reduceTaskQueue c1) i) = length (reduceTaskQueue c1)" by simp
    then show ?thesis using c' False i1 unfinished_release[OF r(1) r(3)[OF False]] r(4)[OF False]
      by (auto simp: coordInv_def)
  qed
qed

lemma mapDone_keeps:
  assumes inv: "coordInv c" and ty: "rqTaskType request = MAP"
    and once: "taskState (mapTaskQueue c ! nat (rqTaskNum request)) \<noteq> COMPLETE"
    and r: "CompleteTask c request = Ret c'"
  shows "coordInv c'"
proof -
  let ?i = "nat (rqTaskNum request)"
  obtain mq rq where h: "complete (mapTaskQueue c) (rqTaskNum request) = Some mq"
    "wakeReduce (reduceTaskQueue c) (rqReduceList request) = Some rq"
    using r ty by (auto simp: CompleteTask_def split: if_splits option.splits)
  note m = complete_Some[OF h(1)]
  have rng: "?i < length (mapTaskQueue c)" using m by (auto simp: nat_less_iff)
  have u: "unfinished mq = unfinished (mapTaskQueue c) - 1" using m once rng by (simp add: unfinished_update)
  have "mapTaskQueue c ! ?i \<in> set (mapTaskQueue c)" using rng by simp
  then have "unfinished (mapTaskQueue c) \<noteq> 0" using once unfinished_0 by blast
  then have nz: "remainMapTaskCount c \<noteq> 0" using inv by (simp add: coordInv_def)
  have "\<forall>t \<in> set (reduceTaskQueue c). taskState t \<noteq> WORK \<and> \<not> cancel t" using inv nz unfolding coordInv_def by metis
  from wakeReduce_Some[OF h(2) this]
  have w: "length rq = length (reduceTaskQueue c)" "\<forall>t \<in> set rq. taskState t \<noteq> WORK \<and> \<not> cancel t" by blast+
  have idle: "countIdle rq = unfinished rq" using w(2) by (intro countIdle_unfinished) simp
  have len: "length mq = length (mapTaskQueue c)" using m by simp
  have c': "c' = (let c = c\<lparr>mapTaskQueue := mq, remainMapTaskCount := remainMapTaskCount c - 1, reduceTaskQueue := rq\<rparr>
                  in if remainMapTaskCount c = 0 then c\<lparr>remainReduceTaskCount := countIdle rq, curPtrTask := 0\<rparr> else c)"
    using r ty h inv by (simp add: CompleteTask_def coordInv_def)
  show ?thesis
  proof (cases "remainMapTaskCount c - 1 = 0")
    case True
    have "rq = [] \<or> 0 < length rq" by auto
    then show ?thesis using c' True inv nz u w len idle by (auto simp: coordInv_def)
  next
    case False
    then show ?thesis using c' inv nz u w len by (auto simp: coordInv_def)
  qed
qed

lemma reduceDone_keeps:
  assumes inv: "coordInv c" and ty: "rqTaskType request = REDUCE"
    and once: "taskState (reduceTaskQueue c ! nat (rqTaskNum request)) \<noteq> COMPLETE"
    and r: "CompleteTask c request = Ret c'"
  shows "coordInv c'"
proof -
  let ?i = "nat (rqTaskNum request)"
  obtain rq where h: "complete (reduceTaskQueue c) (rqTaskNum request) = Some rq"
    using r ty by (auto simp: CompleteTask_def split: if_splits option.splits)
  note m = complete_Some[OF h]
  have rng: "?i < length (reduceTaskQueue c)" using m by (auto simp: nat_less_iff)
  have u: "unfinished rq = unfinished (reduceTaskQueue c) - 1" using m once rng by (simp add: unfinished_update)
  have "reduceTaskQueue c ! ?i \<in> set (reduceTaskQueue c)" using rng by simp
  then have z: "remainMapTaskCount c = 0" using inv m by (auto simp: coordInv_def split: if_splits)
  have c': "c' = c\<lparr>reduceTaskQueue := rq, remainReduceTaskCount := remainReduceTaskCount c - 1\<rparr>"
    using r ty h inv by (simp add: CompleteTask_def coordInv_def)
  have "length rq = length (reduceTaskQueue c)" using m by simp
  then show ?thesis using c' inv z u by (auto simp: coordInv_def)
qed

lemma MakeCoordinator_inv: "files \<noteq> [] \<Longrightarrow> coordInv (MakeCoordinator files n)"
  by (simp add: coordInv_def MakeCoordinator_def unfinished_def filter_map o_def)

lemma coordReachable_inv: "coordReachable files n c \<Longrightarrow> files \<noteq> [] \<Longrightarrow> coordInv c"
proof (induction rule: coordReachable.induct)
  case (step c c')
  from step(2) show ?case
    using step by cases (auto intro: GetTask_keeps taskTimeout_keeps mapDone_keeps reduceDone_keeps)
qed (rule MakeCoordinator_inv)

text \<open>C17. The coordinator finishes correctly: in every run in which no task is reported complete a
  second time, with at least one input file, \<^const>\<open>Done\<close> answers, and it answers true exactly when
  every map task and every reduce task is complete.\<close>

theorem Done_iff_complete:
  assumes "coordReachable files n c" "files \<noteq> []"
  shows "\<exists>c' finished. Done c = Ret (c', finished) \<and>
    (finished \<longleftrightarrow> (\<forall>t \<in> set (mapTaskQueue c) \<union> set (reduceTaskQueue c). taskState t = COMPLETE))"
proof -
  have inv: "coordInv c" using coordReachable_inv[OF assms] .
  have "remainMapTaskCount c = 0 \<longleftrightarrow> (\<forall>t \<in> set (mapTaskQueue c). taskState t = COMPLETE)"
    using inv by (simp add: coordInv_def unfinished_0)
  moreover have "remainMapTaskCount c = 0 \<Longrightarrow>
      remainReduceTaskCount c = 0 \<longleftrightarrow> (\<forall>t \<in> set (reduceTaskQueue c). taskState t = COMPLETE)"
    using inv by (simp add: coordInv_def unfinished_0)
  ultimately show ?thesis using inv by (auto simp: Done_def coordInv_def)
qed

text \<open>A run with one input file and one reduce task.\<close>

definition demoJob :: Coordinator where
  "demoJob = MakeCoordinator [''in''] 1"

definition runGet :: "Coordinator \<Rightarrow> Coordinator" where
  "runGet c = (case GetTask c of Ret (c', _) \<Rightarrow> c' | _ \<Rightarrow> c)"

definition runComplete :: "Coordinator \<Rightarrow> Request \<Rightarrow> Coordinator" where
  "runComplete c r = (case CompleteTask c r of Ret c' \<Rightarrow> c' | _ \<Rightarrow> c)"

definition mapReport :: Request where
  "mapReport = \<lparr>rqTaskNum = 0, rqTaskType = MAP, rqReduceList = [0]\<rparr>"

definition reduceReport :: Request where
  "reduceReport = \<lparr>rqTaskNum = 0, rqTaskType = REDUCE, rqReduceList = []\<rparr>"

definition demoFinished :: Coordinator where
  "demoFinished = runComplete (runGet (runComplete (runGet demoJob) mapReport)) reduceReport"

lemma runGet_step: "(case GetTask c of Ret (c', _) \<Rightarrow> True | _ \<Rightarrow> False) \<Longrightarrow> \<exists>r. GetTask c = Ret (runGet c, r)"
  by (auto simp: runGet_def split: Run.splits)

lemma runComplete_step: "(case CompleteTask c r of Ret c' \<Rightarrow> True | _ \<Rightarrow> False) \<Longrightarrow> CompleteTask c r = Ret (runComplete c r)"
  by (auto simp: runComplete_def split: Run.splits)

lemma demoFinished_reachable: "coordReachable [''in''] 1 demoFinished"
proof -
  let ?a = "runGet demoJob" and ?b = "runComplete (runGet demoJob) mapReport"
  let ?c = "runGet (runComplete (runGet demoJob) mapReport)"
  have "(case GetTask demoJob of Ret (c', _) \<Rightarrow> True | _ \<Rightarrow> False)"
    "(case CompleteTask ?a mapReport of Ret c' \<Rightarrow> True | _ \<Rightarrow> False)"
    "(case GetTask ?b of Ret (c', _) \<Rightarrow> True | _ \<Rightarrow> False)"
    "(case CompleteTask ?c reduceReport of Ret c' \<Rightarrow> True | _ \<Rightarrow> False)"
    by code_simp+
  note runs = this
  obtain r1 r2 where s: "GetTask demoJob = Ret (?a, r1)" "CompleteTask ?a mapReport = Ret ?b"
    "GetTask ?b = Ret (?c, r2)" "CompleteTask ?c reduceReport = Ret demoFinished"
    using runGet_step[OF runs(1)] runComplete_step[OF runs(2)] runGet_step[OF runs(3)] runComplete_step[OF runs(4)]
    unfolding demoFinished_def by blast
  have t: "taskState (mapTaskQueue ?a ! nat (rqTaskNum mapReport)) \<noteq> COMPLETE"
    "taskState (reduceTaskQueue ?c ! nat (rqTaskNum reduceReport)) \<noteq> COMPLETE"
    "rqTaskType mapReport = MAP" "rqTaskType reduceReport = REDUCE" by code_simp+
  have "coordReachable [''in''] 1 demoJob" unfolding demoJob_def by (rule coordReachable.start)
  note a = coordReachable.step[OF this coordStep.getTask[OF s(1)]]
  note b = coordReachable.step[OF a coordStep.mapDone[OF t(3,1) s(2)]]
  note c = coordReachable.step[OF b coordStep.getTask[OF s(3)]]
  show ?thesis by (rule coordReachable.step[OF c coordStep.reduceDone[OF t(4,2) s(4)]])
qed

theorem Done_iff_complete_witness:
  "\<exists>c'. Done demoFinished = Ret (c', True)"
proof -
  have "\<forall>t \<in> set (mapTaskQueue demoFinished) \<union> set (reduceTaskQueue demoFinished). taskState t = COMPLETE" by code_simp
  then show ?thesis using Done_iff_complete[OF demoFinished_reachable] by auto
qed


text \<open>Handing out tasks: in such a run \<^const>\<open>GetTask\<close> never panics or blocks; it hands out an idle
  task of the current phase whenever there is one and says SLEEP when there is none, says
  FINISH only when everything is complete, and hands out a reduce task only when every map
  task is complete.\<close>

lemma GetTask_hands_out:
  assumes "coordReachable files n c" "files \<noteq> []"
  shows "\<exists>c' response. GetTask c = Ret (c', response) \<and>
    (let maps = mapTaskQueue c; reduces = reduceTaskQueue c; mapping = (\<exists>t \<in> set maps. taskState t \<noteq> COMPLETE)
     in if mapping \<and> (\<exists>t \<in> set maps. taskState t = IDLE)
        then \<exists>i. 0 \<le> i \<and> i < int (length maps) \<and> taskState (maps ! nat i) = IDLE \<and>
               mapTaskQueue c' = maps[nat i := (maps ! nat i)\<lparr>taskState := WORK, cancel := True\<rparr>] \<and>
               rsFiles response = [fileName (maps ! nat i)] \<and> rsTaskNum response = taskNum (maps ! nat i)
        else if \<not> mapping \<and> (\<exists>t \<in> set reduces. taskState t = IDLE)
        then \<exists>i. 0 \<le> i \<and> i < int (length reduces) \<and> taskState (reduces ! nat i) = IDLE \<and>
               reduceTaskQueue c' = reduces[nat i := (reduces ! nat i)\<lparr>taskState := WORK, cancel := True\<rparr>] \<and>
               rsTaskNum response = taskNum (reduces ! nat i)
        else rsTaskType response =
               (if mapping \<or> (\<exists>t \<in> set reduces. taskState t \<noteq> COMPLETE) then SLEEP else FINISH))"
proof -
  have inv: "coordInv c" using coordReachable_inv[OF assms] .
  have mz: "remainMapTaskCount c \<noteq> 0 \<longleftrightarrow> (\<exists>t \<in> set (mapTaskQueue c). taskState t \<noteq> COMPLETE)"
    using inv by (simp add: coordInv_def unfinished_0)
  show ?thesis
  proof (cases "remainMapTaskCount c = 0")
    case False
    with inv show ?thesis
    proof (cases rule: GetTask_map_phase)
      case (mapTask k)
      have "\<exists>t \<in> set (mapTaskQueue c). taskState t = IDLE" using mapTask(1,2) nth_mem by blast
      then show ?thesis using False mz mapTask by (auto simp: Let_def assign_def intro!: exI[of _ "int k"])
    qed (use False mz in auto)
  next
    case True
    have rz: "remainReduceTaskCount c \<noteq> 0 \<longleftrightarrow> (\<exists>t \<in> set (reduceTaskQueue c). taskState t \<noteq> COMPLETE)"
      using inv True by (simp add: coordInv_def unfinished_0)
    from inv True show ?thesis
    proof (cases rule: GetTask_reduce_phase)
      case (reduceTask k)
      have "\<exists>t \<in> set (reduceTaskQueue c). taskState t = IDLE" using reduceTask(1,2) nth_mem by blast
      then show ?thesis using True mz reduceTask by (auto simp: Let_def assign_def intro!: exI[of _ "int k"])
    qed (use True mz rz in auto)
  qed
qed

text \<open>A task reported twice breaks the phases: two reports of one map task (the report of a slow
  worker whose task was handed out again after the timeout) each count, and the coordinator
  hands out a reduce task while another map task is still being worked on.\<close>

lemma late_report_starts_reduce_early:
  "\<exists>c1 c2 r. CompleteTask (runGet (runGet (MakeCoordinator [''a'', ''b''] 1)))
       \<lparr>rqTaskNum = 0, rqTaskType = MAP, rqReduceList = [0]\<rparr> = Ret c1 \<and>
     CompleteTask c1 \<lparr>rqTaskNum = 0, rqTaskType = MAP, rqReduceList = [0]\<rparr> = Ret c2 \<and>
     taskState (mapTaskQueue c2 ! 1) = WORK \<and> (\<exists>c3. GetTask c2 = Ret (c3, r)) \<and> rsTaskType r = REDUCE"
proof -
  let ?r = "\<lparr>rqTaskNum = 0, rqTaskType = MAP, rqReduceList = [0]\<rparr>"
  let ?c0 = "runGet (runGet (MakeCoordinator [''a'', ''b''] 1))"
  have "(case CompleteTask ?c0 ?r of
      Ret c1 \<Rightarrow> (case CompleteTask c1 ?r of
        Ret c2 \<Rightarrow> taskState (mapTaskQueue c2 ! 1) = WORK \<and>
                  (case GetTask c2 of Ret (c3, r) \<Rightarrow> rsTaskType r = REDUCE | _ \<Rightarrow> False)
      | _ \<Rightarrow> False) | _ \<Rightarrow> False)"
    by code_simp
  then show ?thesis by (auto split: Run.splits prod.splits)
qed

text \<open>\<^const>\<open>Done\<close> keeps the mutex when it returns true: from then on no worker gets an answer, not
  even that the job is finished, and the coordinator's own next call of \<^const>\<open>Done\<close> blocks.\<close>

lemma Done_keeps_lock:
  assumes "Done c = Ret (c', True)"
  shows "GetTask c' = Blocked \<and> CompleteTask c' request = Blocked \<and> taskTimeout c' k = Blocked \<and> Done c' = Blocked"
  using assms by (auto simp: Done_def GetTask_def CompleteTask_def taskTimeout_def split: if_splits)

end
