(* ===== verification/MrJob.thy ===== *)
theory MrJob
  imports MrWorkerProps MrCoordinatorProps
begin

text \<open>
  A MapReduce job: the coordinator of \<^verbatim>\<open>src/mr/coordinator.go\<close> and any number of workers that run the loop
  of \<^verbatim>\<open>src/mr/worker.go\<close>, interleaved step by step.  A map task renames its files one after the other, a reduce task
  truncates its output file and writes it line by line, and a worker may end between any two steps, as when its
  process crashes or a call to the coordinator fails.

  The steps assume two things of the world.  A task is taken from its worker only when no living worker has it any more; without
  that a late worker can report a task again (lemma \<open>late_report_starts_reduce_early\<close>) or truncate an output file
  that was complete (lemma \<open>late_reduce_truncates\<close>).  And the random name of a temporary file does not end in the number of a
  reduce task; a file that does is read by that task (lemma \<open>temporary_file_read\<close>).
\<close>

section \<open>The worker\<close>

text \<open>The files of a map task, before they get their names; \<^term>\<open>None\<close> ends the process.\<close>

definition mapHandles :: "(string \<Rightarrow> string \<Rightarrow> KeyValue list) \<Rightarrow> (string \<rightharpoonup> string) \<Rightarrow> Response \<Rightarrow> KeyValue list option list option" where
  "mapHandles mapf fs msg = do {
     kva \<leftarrow> mapFiles mapf fs (rsFiles msg);
     if rsNReduce msg = 0 \<and> kva \<noteq> [] then None
     else Some (writePairs (createWriteFileHandle (nat (rsNReduce msg))) (nat (rsNReduce msg)) kva)
   }"

text \<open>One turn of the loop that renames them.\<close>

definition renameOne :: "int \<Rightarrow> nat \<Rightarrow> KeyValue list option \<Rightarrow> intermediate \<Rightarrow> intermediate" where
  "renameOne num i h dir = (case h of Some kvs \<Rightarrow> renameInto (num, int i) kvs dir | None \<Rightarrow> dir)"

text \<open>The reduce tasks a map task has data for, in any order: they are the keys of a Go map.\<close>

definition neededBy :: "KeyValue list option list \<Rightarrow> int list" where
  "neededBy handles = map int (filter (\<lambda>i. handles ! i \<noteq> None) [0..<length handles])"

definition mapRequest :: "Response \<Rightarrow> int list \<Rightarrow> Request" where
  "mapRequest msg needed = \<lparr>rqTaskNum = rsTaskNum msg, rqTaskType = rsTaskType msg, rqReduceList = needed\<rparr>"

definition reduceRequest :: "Response \<Rightarrow> Request" where
  "reduceRequest msg = \<lparr>rqTaskNum = rsTaskNum msg, rqTaskType = rsTaskType msg, rqReduceList = []\<rparr>"

text \<open>A line written at the writer's own position of the file.\<close>

definition putLine :: "nat \<Rightarrow> string \<Rightarrow> string list \<Rightarrow> string list" where
  "putLine k line file = take k file @ [line] @ drop (Suc k) file"

datatype workerState =
  Asking
| Got Response
| Renaming Response "KeyValue list option list" "string list" nat
| Writing Response "string list" nat
| Reporting Request
| Ended

text \<open>What the loop of \<^verbatim>\<open>Worker\<close> does with an answer.\<close>

definition workerNext :: "Response \<Rightarrow> workerState" where
  "workerNext msg = (case rsTaskType msg of MAP \<Rightarrow> Got msg | REDUCE \<Rightarrow> Got msg | SLEEP \<Rightarrow> Asking | FINISH \<Rightarrow> Ended)"

text \<open>The task that a worker is at.\<close>

fun atTask :: "workerState \<Rightarrow> (TaskType \<times> int) option" where
  "atTask (Got msg) = Some (rsTaskType msg, rsTaskNum msg)"
| "atTask (Renaming msg hs names k) = Some (rsTaskType msg, rsTaskNum msg)"
| "atTask (Writing msg lines k) = Some (rsTaskType msg, rsTaskNum msg)"
| "atTask (Reporting rq) = Some (rqTaskType rq, rqTaskNum rq)"
| "atTask Asking = None"
| "atTask Ended = None"

section \<open>The job\<close>

text \<open>The directory \<^verbatim>\<open>intermediate\<close> has the files \<^verbatim>\<open>mr-X-Y\<close>, by their numbers, and the temporary files, by their names.\<close>

record job =
  coord :: Coordinator
  interm :: intermediate
  temps :: "(string \<times> KeyValue list) list"
  outFiles :: "int \<rightharpoonup> string list"
  workers :: "nat \<Rightarrow> workerState"

definition startJob :: "string list \<Rightarrow> nat \<Rightarrow> job" where
  "startJob files n = \<lparr>coord = MakeCoordinator files n, interm = [], temps = [], outFiles = Map.empty, workers = (\<lambda>_. Asking)\<rparr>"

definition setWorker :: "job \<Rightarrow> nat \<Rightarrow> workerState \<Rightarrow> job" where
  "setWorker j w s = j\<lparr>workers := (workers j)(w := s)\<rparr>"

definition outFile :: "job \<Rightarrow> int \<Rightarrow> string list" where
  "outFile j r = (case outFiles j r of Some f \<Rightarrow> f | None \<Rightarrow> [])"

text \<open>What \<^verbatim>\<open>filepath.Walk\<close> visits: the directory itself, in which there is nothing to decode, and its files in the order of their names.\<close>

definition dirFiles :: "job \<Rightarrow> (string \<times> KeyValue list) list" where
  "dirFiles j = (''intermediate'', []) # sort_key fst (map (\<lambda>((x, y), kvs). (intermediateName x y, kvs)) (interm j) @ temps j)"

text \<open>Names that \<^verbatim>\<open>ioutil.TempFile\<close> can give to new files: they are new, and different.\<close>

definition foreignName :: "int \<Rightarrow> string \<Rightarrow> bool" where
  "foreignName n f \<longleftrightarrow> (n < 2 ^ 63 \<longrightarrow> n \<le> atoiGo (last (splitDash f)))"

definition tempNames :: "job \<Rightarrow> int \<Rightarrow> string list \<Rightarrow> bool" where
  "tempNames j n names \<longleftrightarrow> distinct names \<and> set names \<inter> fst ` set (dirFiles j) = {} \<and> list_all (foreignName n) names"

definition createTemps :: "KeyValue list option list \<Rightarrow> string list \<Rightarrow> (string \<times> KeyValue list) list" where
  "createTemps hs names = map (\<lambda>i. (names ! i, the (hs ! i))) (filter (\<lambda>i. hs ! i \<noteq> None) [0..<length hs])"

definition dropTemp :: "KeyValue list option \<Rightarrow> string \<Rightarrow> (string \<times> KeyValue list) list \<Rightarrow> (string \<times> KeyValue list) list" where
  "dropTemp h name ts = (if h = None then ts else filter (\<lambda>(f, kvs). f \<noteq> name) ts)"

text \<open>The steps.  A call may fail before or after the coordinator has served it; a worker that crashes while it writes its
  temporary files leaves some of them behind, with anything in them.\<close>

inductive jobStep ::
  "(KeyValue list \<Rightarrow> KeyValue list) \<Rightarrow> (string \<Rightarrow> string \<Rightarrow> KeyValue list) \<Rightarrow> (string \<Rightarrow> string list \<Rightarrow> string) \<Rightarrow> (string \<rightharpoonup> string) \<Rightarrow>
   job \<Rightarrow> job \<Rightarrow> bool" for sortf mapf reducef fs where
  ask: "\<lbrakk>workers j w = Asking; GetTask (coord j) = Ret (c, msg)\<rbrakk> \<Longrightarrow>
    jobStep sortf mapf reducef fs j (setWorker (j\<lparr>coord := c\<rparr>) w (workerNext msg))"
| askLost: "\<lbrakk>workers j w = Asking; GetTask (coord j) = Ret (c, msg)\<rbrakk> \<Longrightarrow>
    jobStep sortf mapf reducef fs j (setWorker (j\<lparr>coord := c\<rparr>) w Ended)"
| mapWrite: "\<lbrakk>workers j w = Got msg; rsTaskType msg = MAP; mapHandles mapf fs msg = Some hs; length names = length hs;
     tempNames j (rsNReduce msg) names\<rbrakk> \<Longrightarrow>
    jobStep sortf mapf reducef fs j (setWorker (j\<lparr>temps := temps j @ createTemps hs names\<rparr>) w (Renaming msg hs names 0))"
| mapCrash: "\<lbrakk>workers j w = Got msg; rsTaskType msg = MAP; tempNames j (rsNReduce msg) (map fst ts)\<rbrakk> \<Longrightarrow>
    jobStep sortf mapf reducef fs j (setWorker (j\<lparr>temps := temps j @ ts\<rparr>) w Ended)"
| rename: "\<lbrakk>workers j w = Renaming msg hs names k; k < length hs\<rbrakk> \<Longrightarrow>
    jobStep sortf mapf reducef fs j
      (setWorker (j\<lparr>interm := renameOne (rsTaskNum msg) k (hs ! k) (interm j), temps := dropTemp (hs ! k) (names ! k) (temps j)\<rparr>) w
        (Renaming msg hs names (Suc k)))"
| mapReport: "\<lbrakk>workers j w = Renaming msg hs names k; length hs \<le> k; mset needed = mset (neededBy hs)\<rbrakk> \<Longrightarrow>
    jobStep sortf mapf reducef fs j (setWorker j w (Reporting (mapRequest msg needed)))"
| reduceOpen: "\<lbrakk>workers j w = Got msg; rsTaskType msg = REDUCE\<rbrakk> \<Longrightarrow>
    jobStep sortf mapf reducef fs j
      (setWorker (j\<lparr>outFiles := (outFiles j)(rsTaskNum msg \<mapsto> [])\<rparr>) w
        (Writing msg (ReduceTask sortf reducef (rsTaskNum msg) (dirFiles j)) 0))"
| writeLine: "\<lbrakk>workers j w = Writing msg lines k; k < length lines\<rbrakk> \<Longrightarrow>
    jobStep sortf mapf reducef fs j
      (setWorker (j\<lparr>outFiles := (outFiles j)(rsTaskNum msg \<mapsto> putLine k (lines ! k) (outFile j (rsTaskNum msg)))\<rparr>) w
        (Writing msg lines (Suc k)))"
| reduceReport: "\<lbrakk>workers j w = Writing msg lines k; length lines \<le> k\<rbrakk> \<Longrightarrow>
    jobStep sortf mapf reducef fs j (setWorker j w (Reporting (reduceRequest msg)))"
| report: "\<lbrakk>workers j w = Reporting rq; CompleteTask (coord j) rq = Ret c\<rbrakk> \<Longrightarrow>
    jobStep sortf mapf reducef fs j (setWorker (j\<lparr>coord := c\<rparr>) w Asking)"
| reportLost: "workers j w = Reporting rq \<Longrightarrow> jobStep sortf mapf reducef fs j (setWorker j w Asking)"
| crash: "jobStep sortf mapf reducef fs j (setWorker j w Ended)"
| timeout: "\<lbrakk>k < length (timers (coord j)); \<forall>w. atTask (workers j w) \<noteq> Some (timers (coord j) ! k); taskTimeout (coord j) k = Ret c\<rbrakk> \<Longrightarrow>
    jobStep sortf mapf reducef fs j (j\<lparr>coord := c\<rparr>)"

inductive jobReachable ::
  "(KeyValue list \<Rightarrow> KeyValue list) \<Rightarrow> (string \<Rightarrow> string \<Rightarrow> KeyValue list) \<Rightarrow> (string \<Rightarrow> string list \<Rightarrow> string) \<Rightarrow> (string \<rightharpoonup> string) \<Rightarrow>
   string list \<Rightarrow> nat \<Rightarrow> job \<Rightarrow> bool" for sortf mapf reducef fs files n where
  start: "jobReachable sortf mapf reducef fs files n (startJob files n)"
| step: "jobReachable sortf mapf reducef fs files n j \<Longrightarrow> jobStep sortf mapf reducef fs j j' \<Longrightarrow> jobReachable sortf mapf reducef fs files n j'"

text \<open>The step of one worker as a function; \<^term>\<open>None\<close> when it has none.  Temporary files get the numbers from \<open>rand\<close> on as names.\<close>

definition workerStep ::
  "(KeyValue list \<Rightarrow> KeyValue list) \<Rightarrow> (string \<Rightarrow> string \<Rightarrow> KeyValue list) \<Rightarrow> (string \<Rightarrow> string list \<Rightarrow> string) \<Rightarrow> (string \<rightharpoonup> string) \<Rightarrow>
   nat \<Rightarrow> job \<Rightarrow> nat \<Rightarrow> job option" where
  "workerStep sortf mapf reducef fs rand j w =
     (case workers j w of
        Asking \<Rightarrow> (case GetTask (coord j) of Ret (c, msg) \<Rightarrow> Some (setWorker (j\<lparr>coord := c\<rparr>) w (workerNext msg)) | _ \<Rightarrow> None)
      | Got msg \<Rightarrow>
          (case rsTaskType msg of
             MAP \<Rightarrow> do {
               hs \<leftarrow> mapHandles mapf fs msg;
               let names = map (\<lambda>i. itoa (rand + i)) [0..<length hs];
               if tempNames j (rsNReduce msg) names
               then Some (setWorker (j\<lparr>temps := temps j @ createTemps hs names\<rparr>) w (Renaming msg hs names 0))
               else None
             }
           | REDUCE \<Rightarrow> Some (setWorker (j\<lparr>outFiles := (outFiles j)(rsTaskNum msg \<mapsto> [])\<rparr>) w
               (Writing msg (ReduceTask sortf reducef (rsTaskNum msg) (dirFiles j)) 0))
           | _ \<Rightarrow> None)
      | Renaming msg hs names k \<Rightarrow>
          (if k < length hs
           then Some (setWorker (j\<lparr>interm := renameOne (rsTaskNum msg) k (hs ! k) (interm j), temps := dropTemp (hs ! k) (names ! k) (temps j)\<rparr>) w
             (Renaming msg hs names (Suc k)))
           else Some (setWorker j w (Reporting (mapRequest msg (neededBy hs)))))
      | Writing msg lines k \<Rightarrow>
          (if k < length lines
           then Some (setWorker (j\<lparr>outFiles := (outFiles j)(rsTaskNum msg \<mapsto> putLine k (lines ! k) (outFile j (rsTaskNum msg)))\<rparr>) w
             (Writing msg lines (Suc k)))
           else Some (setWorker j w (Reporting (reduceRequest msg))))
      | Reporting rq \<Rightarrow> (case CompleteTask (coord j) rq of Ret c \<Rightarrow> Some (setWorker (j\<lparr>coord := c\<rparr>) w Asking) | _ \<Rightarrow> None)
      | Ended \<Rightarrow> None)"

text \<open>A run of such steps, with temporary names far away from the reduce tasks.\<close>

fun runJob ::
  "(KeyValue list \<Rightarrow> KeyValue list) \<Rightarrow> (string \<Rightarrow> string \<Rightarrow> KeyValue list) \<Rightarrow> (string \<Rightarrow> string list \<Rightarrow> string) \<Rightarrow> (string \<rightharpoonup> string) \<Rightarrow>
   nat list \<Rightarrow> job \<Rightarrow> job option" where
  "runJob sortf mapf reducef fs [] j = Some j"
| "runJob sortf mapf reducef fs (w # ws) j = do {
     j \<leftarrow> workerStep sortf mapf reducef fs (10 * (length ws + 1)) j w;
     runJob sortf mapf reducef fs ws j
   }"

end
