(* ===== verification/MrJobProps.thy ===== *)
theory MrJobProps
  imports MrJob
begin

text \<open>
  A MapReduce job ends with the right output: in every interleaving of workers, crashes and timeouts of tasks that no living worker
  has, the output files hold the lines of the sequential program when the coordinator is done.
\<close>

section \<open>The names of the intermediate files\<close>

lemma splitDash_dash: "CHR ''-'' \<notin> set s \<Longrightarrow> splitDash (s @ CHR ''-'' # t) = s # splitDash t"
  by (induction s) auto

lemma splitDash_plain: "CHR ''-'' \<notin> set s \<Longrightarrow> splitDash s = [s]"
  by (induction s) auto

lemma itoa_digits: "itoa n \<noteq> [] \<and> list_all isDigit (itoa n)"
proof (induction n rule: itoa.induct)
  case (1 n)
  have d: "isDigit (digit k)" if "k < 10" for k using that by (simp add: isDigit_def digit_def)
  show ?case using 1 d[of n] d[of "n mod 10"] by (subst itoa.simps, subst (2) itoa.simps) auto
qed

lemma atoiGo_itoa:
  assumes "int n < 2 ^ 63"
  shows "atoiGo (itoa n) = int n"
proof -
  obtain c s where s: "itoa n = c # s" using itoa_digits[of n] by (cases "itoa n") auto
  then have "isDigit c" using itoa_digits[of n] by simp
  then have "c \<noteq> CHR ''-''" "c \<noteq> CHR ''+''" by (auto simp: isDigit_def)
  then show ?thesis using itoa_digits[of n] assms decimalValue_itoa[of n] s by (simp add: atoiGo_def)
qed

lemma intermediateName_last:
  assumes "0 \<le> y" "y < 2 ^ 63"
  shows "atoiGo (last (splitDash (intermediateName x y))) = y"
proof -
  have "splitDash (intermediateName x y) = [''mr'', itoa (nat x), itoa (nat y)]"
    using splitDash_dash[of "''mr''"] splitDash_dash[OF itoa_no_dash, of "nat x"] splitDash_plain[OF itoa_no_dash, of "nat y"]
    by (simp add: intermediateName_def)
  then show ?thesis using atoiGo_itoa[of "nat y"] assms by simp
qed

text \<open>Opening the files by the number at the end of their names finds the files of the reduce task, as long as the temporary files
  that workers left behind do not carry that number.\<close>

lemma handles_read:
  assumes "\<forall>((x, y), kvs) \<in> set dir. 0 \<le> y \<and> y < 2 ^ 63"
    and "\<forall>(name, kvs) \<in> set others. kvs = [] \<or> atoiGo (last (splitDash name)) \<noteq> r"
  shows "concat (createReadFileHandle r (map (\<lambda>((x, y), kvs). (intermediateName x y, kvs)) dir @ others)) = readPairs r dir"
proof -
  have o: "concat (createReadFileHandle r others) = []" using assms(2) by (auto simp: createReadFileHandle_def)
  have "createReadFileHandle r (map (\<lambda>((x, y), kvs). (intermediateName x y, kvs)) dir) = map snd (filter (\<lambda>((x, y), kvs). y = r) dir)"
    using assms(1) by (induction dir) (auto simp: createReadFileHandle_def intermediateName_last)
  then show ?thesis using o by (simp add: createReadFileHandle_def readPairs_def)
qed

lemma handles_perm:
  assumes "mset walk = mset walk'"
  shows "mset (concat (createReadFileHandle r walk)) = mset (concat (createReadFileHandle r walk'))"
proof -
  have "mset (createReadFileHandle r walk) = mset (createReadFileHandle r walk')" using assms by (simp add: createReadFileHandle_def)
  then have "image_mset mset (mset (createReadFileHandle r walk)) = image_mset mset (mset (createReadFileHandle r walk'))" by simp
  then show ?thesis unfolding mset_concat sum_mset_sum_list[symmetric] mset_map[symmetric] by simp
qed

lemma dirFiles_read:
  assumes "\<forall>((x, y), kvs) \<in> set (interm j). 0 \<le> y \<and> y < 2 ^ 63" "\<forall>(f, kvs) \<in> set (temps j). atoiGo (last (splitDash f)) \<noteq> r"
  shows "mset (concat (createReadFileHandle r (dirFiles j))) = mset (readPairs r (interm j))"
proof -
  let ?files = "map (\<lambda>((x, y), kvs). (intermediateName x y, kvs)) (interm j) @ temps j"
  have "concat (createReadFileHandle r (dirFiles j)) = concat (createReadFileHandle r (sort_key fst ?files))"
    by (simp add: dirFiles_def createReadFileHandle_def)
  then have "mset (concat (createReadFileHandle r (dirFiles j))) = mset (concat (createReadFileHandle r ?files))"
    using handles_perm[of "sort_key fst ?files" ?files r] by simp
  also have "concat (createReadFileHandle r ?files) = readPairs r (interm j)" using assms by (intro handles_read) auto
  finally show ?thesis .
qed

text \<open>The assumption on the temporary files is needed: a file whose name is a number is read by the reduce task of that number.\<close>

lemma temporary_file_read:
  "concat (createReadFileHandle 3 (dirFiles ((startJob [''f''] 4)\<lparr>temps := [(''3'', [\<lparr>Key = ''k'', Value = ''v''\<rparr>])]\<rparr>))) = [\<lparr>Key = ''k'', Value = ''v''\<rparr>]"
  by code_simp

section \<open>What the coordinator does to the tasks\<close>

definition mapState :: "Coordinator \<Rightarrow> nat \<Rightarrow> TaskState" where
  "mapState c i = taskState (mapTaskQueue c ! i)"

definition redState :: "Coordinator \<Rightarrow> nat \<Rightarrow> TaskState" where
  "redState c r = taskState (reduceTaskQueue c ! r)"

text \<open>What never changes of a task.\<close>

definition statics :: "Task list \<Rightarrow> (string \<times> int \<times> TaskType) list" where
  "statics q = map (\<lambda>t. (fileName t, taskNum t, taskType t)) q"

definition sameJob :: "Coordinator \<Rightarrow> Coordinator \<Rightarrow> bool" where
  "sameJob c c' \<longleftrightarrow> statics (mapTaskQueue c') = statics (mapTaskQueue c) \<and> statics (reduceTaskQueue c') = statics (reduceTaskQueue c) \<and>
     nReduce c' = nReduce c \<and> (\<forall>t \<in> set (timers c'). t \<in> set (timers c) \<or> fst t = MAP \<or> fst t = REDUCE)"

lemma statics_update: "k < length q \<Longrightarrow> fileName t = fileName (q ! k) \<Longrightarrow> taskNum t = taskNum (q ! k) \<Longrightarrow> taskType t = taskType (q ! k) \<Longrightarrow>
    statics (q[k := t]) = statics q"
  unfolding statics_def by (simp add: map_update list_update_same_conv)

lemma states_update: "k < length q \<Longrightarrow> (\<lambda>i. taskState (q[k := t] ! i)) = (\<lambda>i. taskState (q ! i))(k := taskState t)"
  by (auto simp: fun_eq_iff nth_list_update)

lemma GetTask_cases:
  assumes "coordInv c" "GetTask c = Ret (c', msg)"
  obtains (idle) "rsTaskType msg = SLEEP \<or> rsTaskType msg = FINISH" "sameJob c c'" "mapState c' = mapState c" "redState c' = redState c"
      "remainMapTaskCount c' = remainMapTaskCount c"
  | (mapTask) k where "k < length (mapTaskQueue c)" "mapState c k = IDLE" "sameJob c c'" "mapState c' = (mapState c)(k := WORK)"
      "redState c' = redState c" "remainMapTaskCount c' = remainMapTaskCount c" "rsTaskType msg = taskType (mapTaskQueue c ! k)"
      "rsTaskNum msg = taskNum (mapTaskQueue c ! k)" "rsFiles msg = [fileName (mapTaskQueue c ! k)]" "rsNReduce msg = nReduce c"
  | (reduceTask) k where "k < length (reduceTaskQueue c)" "redState c k = IDLE" "sameJob c c'" "mapState c' = mapState c"
      "redState c' = (redState c)(k := WORK)" "remainMapTaskCount c' = remainMapTaskCount c" "rsTaskType msg = taskType (reduceTaskQueue c ! k)"
      "rsTaskNum msg = taskNum (reduceTaskQueue c ! k)"
proof (cases "remainMapTaskCount c = 0")
  case False
  with assms(1) show thesis
  proof (cases rule: GetTask_map_phase)
    case (mapTask k)
    then show thesis using assms(2)
      by (intro that(2)[of k])
        (auto simp: sameJob_def assign_def mapState_def[abs_def] redState_def[abs_def] statics_update states_update)
  qed (use assms(2) in \<open>auto intro: that(1) simp: sameJob_def\<close>)
next
  case True
  with assms(1) show thesis
  proof (cases rule: GetTask_reduce_phase)
    case (reduceTask k)
    then show thesis using assms(2)
      by (intro that(3)[of k])
        (auto simp: sameJob_def assign_def mapState_def[abs_def] redState_def[abs_def] statics_update states_update)
  qed (use assms(2) in \<open>auto intro: that(1) simp: sameJob_def split: if_splits\<close>)
qed

lemma taskTimeout_effect:
  assumes inv: "coordInv c" and t: "taskTimeout c k = Ret c'" and k: "k < length (timers c)"
  shows "sameJob c c' \<and> remainMapTaskCount c' = remainMapTaskCount c \<and>
    (\<exists>i. mapState c' = (if timers c ! k = (MAP, int i) \<and> mapState c i \<noteq> COMPLETE then (mapState c)(i := IDLE) else mapState c) \<and>
      redState c' = (if fst (timers c ! k) \<noteq> MAP \<and> snd (timers c ! k) = int i \<and> redState c i \<noteq> COMPLETE then (redState c)(i := IDLE) else redState c))"
proof -
  obtain ty i where ti: "timers c ! k = (ty, i)" by (cases "timers c ! k")
  have mem: "(ty, i) \<in> set (timers c)" using k ti by (metis nth_mem)
  have r: "0 \<le> i" "ty = MAP \<Longrightarrow> i < int (length (mapTaskQueue c))" "ty \<noteq> MAP \<Longrightarrow> i < int (length (reduceTaskQueue c))"
    using inv mem by (auto simp: coordInv_def)
  have c': "c' = (if ty = MAP then c\<lparr>timers := take k (timers c) @ drop (k + 1) (timers c), mapTaskQueue := release (mapTaskQueue c) i\<rparr>
                  else c\<lparr>timers := take k (timers c) @ drop (k + 1) (timers c), reduceTaskQueue := release (reduceTaskQueue c) i\<rparr>)"
    using t k ti inv by (simp add: taskTimeout_def coordInv_def split: if_splits)
  show ?thesis unfolding ti c'
    using r by (intro conjI exI[of _ "nat i"])
      (use set_without[of k "timers c"] in \<open>auto simp: sameJob_def release_def mapState_def[abs_def] redState_def[abs_def] statics_update states_update
        simp del: set_append\<close>)
qed

lemma wakeReduce_effect:
  assumes "wakeReduce q is = Some q'"
  shows "statics q' = statics q \<and> length q' = length q \<and> (\<lambda>r. taskState (q' ! r)) = (\<lambda>r. if int r \<in> set is then IDLE else taskState (q ! r))"
  using assms
proof (induction q "is" arbitrary: q' rule: wakeReduce.induct)
  case (2 q i "is")
  then obtain t q1 where h: "go_index q i = Some t" "go_set q i (t\<lparr>taskState := IDLE\<rparr>) = Some q1" "wakeReduce q1 is = Some q'"
    by (auto simp: bind_eq_Some_conv)
  then have i: "0 \<le> i" "nat i < length q" "t = q ! nat i" and q1: "q1 = q[nat i := t\<lparr>taskState := IDLE\<rparr>]"
    by (auto simp: go_index_def go_set_def split: if_splits)
  have s: "statics q1 = statics q" "length q1 = length q" "(\<lambda>r. taskState (q1 ! r)) = (\<lambda>r. taskState (q ! r))(nat i := IDLE)"
    using i by (simp_all add: q1 statics_update states_update)
  note IH = "2.IH"[OF h(1,2,3)]
  have "taskState (q' ! r) = (if int r \<in> set (i # is) then IDLE else taskState (q ! r))" for r
    using fun_cong[OF conjunct2[OF conjunct2[OF IH]], of r] fun_cong[OF s(3), of r] i(1) by auto
  then show ?case using IH s(1,2) by (auto simp: fun_eq_iff)
qed simp

lemma CompleteTask_map:
  assumes "CompleteTask c rq = Ret c'" "rqTaskType rq = MAP" "rqTaskNum rq = int i"
  shows "i < length (mapTaskQueue c) \<and> sameJob c c' \<and> mapState c' = (mapState c)(i := COMPLETE) \<and>
    redState c' = (\<lambda>r. if int r \<in> set (rqReduceList rq) then IDLE else redState c r) \<and>
    remainMapTaskCount c' = remainMapTaskCount c - 1"
proof -
  obtain mq rdq where h: "complete (mapTaskQueue c) (int i) = Some mq" "wakeReduce (reduceTaskQueue c) (rqReduceList rq) = Some rdq"
    using assms by (auto simp: CompleteTask_def split: if_splits option.splits)
  note m = complete_Some[OF h(1)] and w = wakeReduce_effect[OF h(2)]
  have c': "timers c' = timers c" "mapTaskQueue c' = mq" "reduceTaskQueue c' = rdq" "nReduce c' = nReduce c" "remainMapTaskCount c' = remainMapTaskCount c - 1"
    using assms h by (auto simp: CompleteTask_def split: if_splits)
  then show ?thesis using m w unfolding redState_def[abs_def] mapState_def[abs_def] by (simp add: sameJob_def statics_update states_update)
qed

lemma CompleteTask_reduce:
  assumes "CompleteTask c rq = Ret c'" "rqTaskType rq = REDUCE" "rqTaskNum rq = int r"
  shows "r < length (reduceTaskQueue c) \<and> sameJob c c' \<and> mapState c' = mapState c \<and> redState c' = (redState c)(r := COMPLETE) \<and>
    remainMapTaskCount c' = remainMapTaskCount c"
proof -
  obtain rdq where h: "complete (reduceTaskQueue c) (int r) = Some rdq"
    using assms by (auto simp: CompleteTask_def split: if_splits option.splits)
  note m = complete_Some[OF h]
  have c': "c' = c\<lparr>reduceTaskQueue := rdq, remainReduceTaskCount := remainReduceTaskCount c - 1\<rparr>"
    using assms h by (auto simp: CompleteTask_def split: if_splits)
  then show ?thesis using m by (simp add: sameJob_def mapState_def[abs_def] redState_def[abs_def] statics_update states_update)
qed

section \<open>The invariant\<close>

text \<open>What a job is given: sort, map and reduce functions, the file system, the input files and the number of reduce tasks.\<close>

record params =
  pSort :: "KeyValue list \<Rightarrow> KeyValue list"
  pMap :: "string \<Rightarrow> string \<Rightarrow> KeyValue list"
  pReduce :: "string \<Rightarrow> string list \<Rightarrow> string"
  pFs :: "string \<rightharpoonup> string"
  pFiles :: "string list"
  pN :: nat

definition goodParams :: "params \<Rightarrow> bool" where
  "goodParams p \<longleftrightarrow> go_sort (pSort p) \<and> (\<forall>f \<in> set (pFiles p). pFs p f \<noteq> None) \<and> pFiles p \<noteq> [] \<and> 0 < pN p"

abbreviation allPairs :: "params \<Rightarrow> KeyValue list" where
  "allPairs p \<equiv> concat (map (mapped (pMap p) (pFs p)) (pFiles p))"

definition pairsOf :: "params \<Rightarrow> nat \<Rightarrow> nat \<Rightarrow> KeyValue list" where
  "pairsOf p i r = map jsonPair (filter (\<lambda>v. bucket (pN p) v = r) (mapped (pMap p) (pFs p) (pFiles p ! i)))"

definition rightHandles :: "params \<Rightarrow> nat \<Rightarrow> KeyValue list option list" where
  "rightHandles p i = map (\<lambda>r. if pairsOf p i r = [] then None else Some (pairsOf p i r)) [0..<pN p]"

definition rightLines :: "params \<Rightarrow> nat \<Rightarrow> string list \<Rightarrow> bool" where
  "rightLines p r lines \<longleftrightarrow>
     (int (pN p) < 2 ^ 63 \<longrightarrow>
       (\<exists>P. mset P = mset (map jsonPair (filter (\<lambda>v. bucket (pN p) v = r) (allPairs p))) \<and> lines = groupLoop (pReduce p) (pSort p P)))"

definition dirHas :: "params \<Rightarrow> intermediate \<Rightarrow> nat \<Rightarrow> nat \<Rightarrow> bool" where
  "dirHas p dir i r \<longleftrightarrow> (pairsOf p i r \<noteq> [] \<longrightarrow> map_of dir (int i, int r) = Some (pairsOf p i r))"

definition dirOk :: "params \<Rightarrow> intermediate \<Rightarrow> bool" where
  "dirOk p dir \<longleftrightarrow> distinct (map fst dir) \<and>
     (\<forall>x y kvs. map_of dir (x, y) = Some kvs \<longrightarrow>
        (\<exists>i < length (pFiles p). \<exists>r < pN p. x = int i \<and> y = int r \<and> kvs = pairsOf p i r \<and> kvs \<noteq> []))"

definition queuesOk :: "params \<Rightarrow> Coordinator \<Rightarrow> bool" where
  "queuesOk p c \<longleftrightarrow>
     statics (mapTaskQueue c) = map (\<lambda>i. (pFiles p ! i, int i, MAP)) [0..<length (pFiles p)] \<and>
     statics (reduceTaskQueue c) = map (\<lambda>r. ([], int r, REDUCE)) [0..<pN p] \<and> nReduce c = int (pN p) \<and>
     (\<forall>t \<in> set (timers c). fst t = MAP \<or> fst t = REDUCE)"

text \<open>A task that a worker is at is marked as worked on, and no two workers are at the same.\<close>

definition working :: "params \<Rightarrow> Coordinator \<Rightarrow> TaskType \<times> int \<Rightarrow> bool" where
  "working p c t \<longleftrightarrow> (\<exists>k. t = (MAP, int k) \<and> k < length (pFiles p) \<and> mapState c k = WORK \<or> t = (REDUCE, int k) \<and> k < pN p \<and> redState c k = WORK)"

definition tasksOk :: "params \<Rightarrow> Coordinator \<Rightarrow> (nat \<Rightarrow> workerState) \<Rightarrow> bool" where
  "tasksOk p c ws \<longleftrightarrow>
     (\<forall>w t. atTask (ws w) = Some t \<longrightarrow> working p c t) \<and> (\<forall>w w' t. atTask (ws w) = Some t \<longrightarrow> atTask (ws w') = Some t \<longrightarrow> w = w')"

fun workerOk :: "params \<Rightarrow> intermediate \<Rightarrow> (int \<rightharpoonup> string list) \<Rightarrow> workerState \<Rightarrow> bool" where
  "workerOk p dir outs (Got msg) \<longleftrightarrow>
     (rsTaskType msg = MAP \<longrightarrow> rsFiles msg = [pFiles p ! nat (rsTaskNum msg)] \<and> rsNReduce msg = int (pN p))"
| "workerOk p dir outs (Renaming msg hs names k) \<longleftrightarrow>
     rsTaskType msg = MAP \<and> hs = rightHandles p (nat (rsTaskNum msg)) \<and> k \<le> pN p \<and> (\<forall>r < k. dirHas p dir (nat (rsTaskNum msg)) r)"
| "workerOk p dir outs (Writing msg lines k) \<longleftrightarrow>
     rsTaskType msg = REDUCE \<and> rightLines p (nat (rsTaskNum msg)) lines \<and> k \<le> length lines \<and> outs (rsTaskNum msg) = Some (take k lines)"
| "workerOk p dir outs (Reporting rq) \<longleftrightarrow>
     (if rqTaskType rq = MAP
      then (\<forall>r < pN p. dirHas p dir (nat (rqTaskNum rq)) r) \<and> (\<forall>x \<in> set (rqReduceList rq). 0 \<le> x) \<and>
        (\<forall>r. int r \<in> set (rqReduceList rq) \<longleftrightarrow> r < pN p \<and> pairsOf p (nat (rqTaskNum rq)) r \<noteq> [])
      else \<exists>lines. rightLines p (nat (rqTaskNum rq)) lines \<and> outs (rqTaskNum rq) = Some lines)"
| "workerOk p dir outs _ \<longleftrightarrow> True"

definition rightOut :: "params \<Rightarrow> (int \<rightharpoonup> string list) \<Rightarrow> nat \<Rightarrow> bool" where
  "rightOut p outs r \<longleftrightarrow> rightLines p r (case outs (int r) of Some f \<Rightarrow> f | None \<Rightarrow> [])"

definition doneOk :: "params \<Rightarrow> Coordinator \<Rightarrow> intermediate \<Rightarrow> (int \<rightharpoonup> string list) \<Rightarrow> bool" where
  "doneOk p c dir outs \<longleftrightarrow>
     (\<forall>i < length (pFiles p). mapState c i = COMPLETE \<longrightarrow> (\<forall>r < pN p. dirHas p dir i r)) \<and>
     (\<forall>r < pN p. redState c r = COMPLETE \<longrightarrow>
        (if remainMapTaskCount c = 0 then rightOut p outs r
         else \<forall>i < length (pFiles p). mapState c i = COMPLETE \<longrightarrow> pairsOf p i r = [])) \<and>
     (remainMapTaskCount c \<noteq> 0 \<longrightarrow> outs = Map.empty)"

definition tempsOk :: "params \<Rightarrow> (string \<times> KeyValue list) list \<Rightarrow> bool" where
  "tempsOk p ts \<longleftrightarrow> list_all (foreignName (int (pN p))) (map fst ts)"

definition jobInv :: "params \<Rightarrow> job \<Rightarrow> bool" where
  "jobInv p j \<longleftrightarrow> coordInv (coord j) \<and> queuesOk p (coord j) \<and> tasksOk p (coord j) (workers j) \<and>
     (\<forall>w. workerOk p (interm j) (outFiles j) (workers j w)) \<and> dirOk p (interm j) \<and> tempsOk p (temps j) \<and>
     doneOk p (coord j) (interm j) (outFiles j)"

lemma queues_length:
  assumes "queuesOk p c"
  shows "length (mapTaskQueue c) = length (pFiles p)" "length (reduceTaskQueue c) = pN p"
  using arg_cong[OF conjunct1[OF assms[unfolded queuesOk_def]], of length]
    arg_cong[OF conjunct1[OF conjunct2[OF assms[unfolded queuesOk_def]]], of length] by (simp_all add: statics_def)

lemma queues_nth:
  assumes "queuesOk p c"
  shows "i < length (pFiles p) \<Longrightarrow> fileName (mapTaskQueue c ! i) = pFiles p ! i \<and> taskNum (mapTaskQueue c ! i) = int i \<and> taskType (mapTaskQueue c ! i) = MAP"
    "r < pN p \<Longrightarrow> taskNum (reduceTaskQueue c ! r) = int r \<and> taskType (reduceTaskQueue c ! r) = REDUCE"
proof -
  note l = queues_length[OF assms]
  show "fileName (mapTaskQueue c ! i) = pFiles p ! i \<and> taskNum (mapTaskQueue c ! i) = int i \<and> taskType (mapTaskQueue c ! i) = MAP" if "i < length (pFiles p)"
    using arg_cong[OF conjunct1[OF assms[unfolded queuesOk_def]], of "\<lambda>xs. xs ! i"] that l by (simp add: statics_def)
  show "taskNum (reduceTaskQueue c ! r) = int r \<and> taskType (reduceTaskQueue c ! r) = REDUCE" if "r < pN p"
    using arg_cong[OF conjunct1[OF conjunct2[OF assms[unfolded queuesOk_def]]], of "\<lambda>xs. xs ! r"] that l by (simp add: statics_def)
qed

lemma queues_same: "queuesOk p c \<Longrightarrow> sameJob c c' \<Longrightarrow> queuesOk p c'"
  unfolding queuesOk_def sameJob_def by metis

text \<open>The map phase is over exactly when every map task is complete, and a reduce task is worked on only then.\<close>

lemma map_phase:
  assumes "coordInv c" "queuesOk p c"
  shows "remainMapTaskCount c = 0 \<longleftrightarrow> (\<forall>i < length (pFiles p). mapState c i = COMPLETE)"
    "r < pN p \<Longrightarrow> redState c r = WORK \<Longrightarrow> remainMapTaskCount c = 0"
proof -
  note l = queues_length[OF assms(2)]
  have "remainMapTaskCount c = 0 \<longleftrightarrow> (\<forall>t \<in> set (mapTaskQueue c). taskState t = COMPLETE)"
    using assms(1) by (simp add: coordInv_def unfinished_0)
  then show "remainMapTaskCount c = 0 \<longleftrightarrow> (\<forall>i < length (pFiles p). mapState c i = COMPLETE)"
    using l(1) by (simp add: mapState_def all_set_conv_all_nth)
  assume r: "r < pN p" "redState c r = WORK"
  have "reduceTaskQueue c ! r \<in> set (reduceTaskQueue c)" using r(1) l(2) by simp
  then show "remainMapTaskCount c = 0" using assms(1) r(2) unfolding coordInv_def redState_def by metis
qed

lemma job_start_inv:
  assumes "goodParams p"
  shows "jobInv p (startJob (pFiles p) (pN p))"
proof -
  let ?c = "MakeCoordinator (pFiles p) (pN p)"
  have inv: "coordInv ?c" using assms by (intro MakeCoordinator_inv) (simp add: goodParams_def)
  have q: "queuesOk p ?c" by (simp add: queuesOk_def statics_def MakeCoordinator_def o_def)
  have m: "mapState ?c i = IDLE" if "i < length (pFiles p)" for i using that by (simp add: mapState_def MakeCoordinator_def)
  have nz: "remainMapTaskCount ?c \<noteq> 0" using assms by (simp add: goodParams_def MakeCoordinator_def)
  have "doneOk p ?c [] Map.empty" unfolding doneOk_def using m nz by simp
  then show ?thesis using inv q by (simp add: jobInv_def startJob_def tasksOk_def dirOk_def tempsOk_def)
qed

section \<open>Steps of a worker alone\<close>

text \<open>A worker goes on with its task or drops it.\<close>

lemma tasksOk_worker:
  assumes "tasksOk p c ws" "atTask s = None \<or> atTask s = atTask (ws w)"
  shows "tasksOk p c (ws(w := s))"
proof -
  have keep: "atTask (ws v) = Some t" if "atTask ((ws(w := s)) v) = Some t" for v t
    using that assms(2) by (cases "v = w") auto
  show ?thesis using assms(1) keep unfolding tasksOk_def by meson
qed

lemma inv_worker:
  assumes "jobInv p j" "atTask s = None \<or> atTask s = atTask (workers j w)" "workerOk p (interm j) (outFiles j) s"
  shows "jobInv p (setWorker j w s)"
  using assms tasksOk_worker[of p "coord j" "workers j" s w] by (auto simp: jobInv_def setWorker_def)

lemma jobInv_worker:
  assumes "jobInv p j" "workers j w = s"
  shows "workerOk p (interm j) (outFiles j) s" "atTask s = Some t \<Longrightarrow> working p (coord j) t"
  using assms unfolding jobInv_def tasksOk_def by blast+

lemma mapHandles_right:
  assumes good: "goodParams p" and i: "i < length (pFiles p)" and msg: "rsFiles msg = [pFiles p ! i]" "rsNReduce msg = int (pN p)"
  shows "mapHandles (pMap p) (pFs p) msg = Some (rightHandles p i)"
proof -
  have f: "pFs p (pFiles p ! i) \<noteq> None" "0 < pN p" using good i by (auto simp: goodParams_def)
  have m: "mapFiles (pMap p) (pFs p) (rsFiles msg) = Some (mapped (pMap p) (pFs p) (pFiles p ! i))"
    using mapFiles_Some[of "[pFiles p ! i]" "pFs p" "pMap p"] f(1) msg(1) by simp
  let ?hs = "writePairs (replicate (pN p) None) (pN p) (mapped (pMap p) (pFs p) (pFiles p ! i))"
  have "mapHandles (pMap p) (pFs p) msg = Some ?hs" using m msg(2) f(2) by (simp add: mapHandles_def createWriteFileHandle_def)
  moreover have "?hs = rightHandles p i"
  proof (rule nth_equalityI)
    show "length ?hs = length (rightHandles p i)" by (simp add: rightHandles_def writePairs_length)
    show "?hs ! r = rightHandles p i ! r" if "r < length ?hs" for r
      using writePairs_nth[OF f(2), of "replicate (pN p) None" r] that by (simp add: rightHandles_def writePairs_length pairsOf_def Let_def)
  qed
  ultimately show ?thesis by simp
qed

section \<open>Renaming a file\<close>

lemma rightHandles_nth: "r < pN p \<Longrightarrow> rightHandles p i ! r = (if pairsOf p i r = [] then None else Some (pairsOf p i r))"
  by (simp add: rightHandles_def)

lemma renameOne_right:
  assumes "dirOk p dir" "i < length (pFiles p)" "k < pN p"
  shows "dirOk p (renameOne (int i) k (rightHandles p i ! k) dir)"
    "dirHas p (renameOne (int i) k (rightHandles p i ! k) dir) i k"
    "dirHas p dir x y \<Longrightarrow> dirHas p (renameOne (int i) k (rightHandles p i ! k) dir) x y"
proof -
  let ?dir = "renameOne (int i) k (rightHandles p i ! k) dir"
  have look: "map_of ?dir = (if pairsOf p i k = [] then map_of dir else (map_of dir)((int i, int k) \<mapsto> pairsOf p i k))"
    using assms(3) by (simp add: renameOne_def rightHandles_nth renameInto_lookup)
  have "distinct (map fst ?dir)"
    using assms(1,3) by (simp add: renameOne_def rightHandles_nth renameInto_distinct dirOk_def)
  then show "dirOk p ?dir" unfolding dirOk_def look using assms by (auto simp: dirOk_def split: if_splits)
  show "dirHas p ?dir i k" unfolding dirHas_def look by simp
  show "dirHas p ?dir x y" if "dirHas p dir x y" using that unfolding dirHas_def look by simp
qed

lemma workerOk_dir:
  assumes "\<And>i r. dirHas p dir i r \<Longrightarrow> dirHas p dir' i r" "workerOk p dir outs s"
  shows "workerOk p dir' outs s"
  using assms by (cases s) auto

lemma tempsOk_drop: "tempsOk p ts \<Longrightarrow> tempsOk p (dropTemp h name ts)"
  by (auto simp: tempsOk_def dropTemp_def list_all_iff)

lemma inv_rename:
  assumes inv: "jobInv p j" and w: "workers j w = Renaming msg hs names k" and k: "k < length hs"
  shows "jobInv p (setWorker (j\<lparr>interm := renameOne (rsTaskNum msg) k (hs ! k) (interm j), temps := dropTemp (hs ! k) (names ! k) (temps j)\<rparr>) w
    (Renaming msg hs names (Suc k)))"
proof -
  let ?dir = "renameOne (rsTaskNum msg) k (hs ! k) (interm j)"
  note ok = jobInv_worker[OF inv w]
  then obtain i where i: "i < length (pFiles p)" "rsTaskNum msg = int i" by (auto simp: working_def)
  have hs: "hs = rightHandles p i" "k < pN p" using ok(1) k i(2) by (auto simp: rightHandles_def)
  have d: "dirOk p (interm j)" using inv by (simp add: jobInv_def)
  note right = renameOne_right[OF d i(1) hs(2), folded hs(1) i(2)]
  have "workerOk p ?dir (outFiles j) (workers j v)" for v
    using inv right(3) workerOk_dir[of p "interm j" ?dir] unfolding jobInv_def by blast
  moreover have "doneOk p (coord j) ?dir (outFiles j)" using inv right(3) unfolding jobInv_def doneOk_def by blast
  ultimately have "jobInv p (j\<lparr>interm := ?dir, temps := dropTemp (hs ! k) (names ! k) (temps j)\<rparr>)"
    using inv right(1) tempsOk_drop[of p "temps j"] by (simp add: jobInv_def)
  moreover have "\<forall>r < Suc k. dirHas p ?dir i r" using ok(1) i(2) right(2,3) by (simp add: less_Suc_eq)
  then have "workerOk p ?dir (outFiles j) (Renaming msg hs names (Suc k))" using ok(1) i(2) hs(2) by simp
  ultimately show ?thesis using w by (intro inv_worker) (simp_all del: workerOk.simps)
qed

section \<open>Writing an output file\<close>

lemma workerOk_out:
  assumes "workerOk p dir outs s" "atTask s \<noteq> Some (REDUCE, x)" "\<And>t. atTask s = Some t \<Longrightarrow> working p c t"
  shows "workerOk p dir (outs(x \<mapsto> f)) s"
  using assms by (cases s) (auto simp: working_def split: if_splits)

lemma inv_write:
  assumes inv: "jobInv p j" and w: "atTask (workers j w) = Some (REDUCE, x)" "atTask s = Some (REDUCE, x)"
    and s: "workerOk p (interm j) ((outFiles j)(x \<mapsto> f)) s"
  shows "jobInv p (setWorker (j\<lparr>outFiles := (outFiles j)(x \<mapsto> f)\<rparr>) w s)"
proof -
  let ?c = "coord j" and ?outs = "(outFiles j)(x \<mapsto> f)"
  have t: "tasksOk p ?c (workers j)" and d: "doneOk p ?c (interm j) (outFiles j)" using inv by (simp_all add: jobInv_def)
  then obtain r where r: "x = int r" "r < pN p" "redState ?c r = WORK" using w(1) unfolding tasksOk_def working_def by fastforce
  have rem: "remainMapTaskCount ?c = 0" using map_phase(2)[OF _ _ r(2,3)] inv by (simp add: jobInv_def)
  have others: "workerOk p (interm j) ?outs (workers j v)" if "v \<noteq> w" for v
    using inv t w(1) that by (intro workerOk_out[of _ _ _ _ _ ?c]) (auto simp: jobInv_def tasksOk_def)
  have "rightOut p ?outs y" if "y < pN p" "redState ?c y = COMPLETE" for y
    using d that rem r by (auto simp: doneOk_def rightOut_def)
  then have "doneOk p ?c (interm j) ?outs" using d rem by (simp add: doneOk_def)
  moreover have "tasksOk p ?c ((workers j)(w := s))" using tasksOk_worker[OF t, of s w] w by simp
  ultimately show ?thesis using inv others s by (simp add: jobInv_def setWorker_def)
qed

text \<open>A reduce task opens its files when the directory is complete.\<close>

lemma reduce_lines_right:
  assumes inv: "jobInv p j" and r: "r < pN p" "redState (coord j) r = WORK"
  shows "rightLines p r (ReduceTask (pSort p) (pReduce p) (int r) (dirFiles j))"
proof -
  let ?c = "coord j" and ?dir = "interm j"
  have c: "coordInv ?c" "queuesOk p ?c" and d: "dirOk p ?dir" and dn: "doneOk p ?c ?dir (outFiles j)" using inv by (simp_all add: jobInv_def)
  have has: "dirHas p ?dir i r" if "i < length (pFiles p)" for i
    using map_phase(1)[OF c] map_phase(2)[OF c r] dn that r(1) by (simp add: doneOk_def)
  have look: "map_of ?dir (int i, int r) = (if pairsOf p i r = [] then None else Some (pairsOf p i r))" if "i < length (pFiles p)" for i
  proof (cases "pairsOf p i r = []")
    case True
    then have "map_of ?dir (int i, int r) \<noteq> Some kvs" for kvs using d unfolding dirOk_def by (metis of_nat_eq_iff)
    then show ?thesis using True option.exhaust by (metis (lifting))
  qed (use has[OF that] in \<open>simp add: dirHas_def\<close>)
  have pairs: "mset (readPairs (int r) ?dir) = mset (map jsonPair (filter (\<lambda>v. bucket (pN p) v = r) (allPairs p)))"
  proof (rule dir_readPairs)
    show "\<exists>i < length (pFiles p). x = int i" if "map_of ?dir (x, int r) = Some kvs" for x kvs
      using d that unfolding dirOk_def by blast
  qed (use d look in \<open>simp_all add: dirOk_def pairsOf_def Let_def\<close>)
  show ?thesis unfolding rightLines_def ReduceTask_def
  proof
    assume n: "int (pN p) < 2 ^ 63"
    have "\<forall>((x, y), kvs) \<in> set ?dir. 0 \<le> y \<and> y < 2 ^ 63"
    proof clarify
      fix x y kvs assume "((x, y), kvs) \<in> set ?dir"
      then have "map_of ?dir (x, y) = Some kvs" using d by (simp add: dirOk_def)
      then obtain r' where "y = int r'" "r' < pN p" using d unfolding dirOk_def by blast
      then show "0 \<le> y \<and> y < 2 ^ 63" using n by simp
    qed
    moreover have "\<forall>(f, kvs) \<in> set (temps j). atoiGo (last (splitDash f)) \<noteq> int r"
      using inv n r(1) by (fastforce simp: jobInv_def tempsOk_def list_all_iff foreignName_def)
    ultimately have "mset (concat (createReadFileHandle (int r) (dirFiles j))) = mset (map jsonPair (filter (\<lambda>v. bucket (pN p) v = r) (allPairs p)))"
      unfolding pairs[symmetric] by (rule dirFiles_read)
    then show "\<exists>P. mset P = mset (map jsonPair (filter (\<lambda>v. bucket (pN p) v = r) (allPairs p))) \<and>
        groupLoop (pReduce p) (pSort p (concat (createReadFileHandle (int r) (dirFiles j)))) = groupLoop (pReduce p) (pSort p P)" by blast
  qed
qed

lemma inv_reduceOpen:
  assumes inv: "jobInv p j" and w: "workers j w = Got msg" "rsTaskType msg = REDUCE"
  shows "jobInv p (setWorker (j\<lparr>outFiles := (outFiles j)(rsTaskNum msg \<mapsto> [])\<rparr>) w
    (Writing msg (ReduceTask (pSort p) (pReduce p) (rsTaskNum msg) (dirFiles j)) 0))"
proof -
  obtain r where r: "rsTaskNum msg = int r" "r < pN p" "redState (coord j) r = WORK"
    using jobInv_worker(2)[OF inv w(1), of "(REDUCE, rsTaskNum msg)"] w(2) by (auto simp: working_def)
  show ?thesis using reduce_lines_right[OF inv r(2,3)] r(1) w by (intro inv_write[OF inv]) simp_all
qed

lemma putLine_next: "k < length lines \<Longrightarrow> putLine k (lines ! k) (take k lines) = take (Suc k) lines"
  by (simp add: putLine_def take_Suc_conv_app_nth)

lemma inv_writeLine:
  assumes inv: "jobInv p j" and w: "workers j w = Writing msg lines k" and k: "k < length lines"
  shows "jobInv p (setWorker (j\<lparr>outFiles := (outFiles j)(rsTaskNum msg \<mapsto> putLine k (lines ! k) (outFile j (rsTaskNum msg)))\<rparr>) w
    (Writing msg lines (Suc k)))"
proof -
  note ok = jobInv_worker(1)[OF inv w]
  then have "putLine k (lines ! k) (outFile j (rsTaskNum msg)) = take (Suc k) lines" using putLine_next[OF k] by (simp add: outFile_def)
  then show ?thesis using ok k w by (intro inv_write[OF inv]) simp_all
qed

section \<open>Steps of the coordinator\<close>

text \<open>Tasks that were not complete and still are not.\<close>

lemma done_same:
  assumes "doneOk p c dir outs" "remainMapTaskCount c' = remainMapTaskCount c"
    and "\<And>i. mapState c' i = COMPLETE \<longleftrightarrow> mapState c i = COMPLETE" "\<And>r. redState c' r = COMPLETE \<longleftrightarrow> redState c r = COMPLETE"
  shows "doneOk p c' dir outs"
  using assms by (simp add: doneOk_def)

lemma tasksOk_coord:
  assumes "tasksOk p c ws" "\<And>w t. atTask (ws w) = Some t \<Longrightarrow> working p c t \<Longrightarrow> working p c' t"
  shows "tasksOk p c' ws"
  using assms unfolding tasksOk_def by blast

lemma inv_coord:
  assumes inv: "jobInv p j" and c: "coordInv c" "sameJob (coord j) c"
    and d: "doneOk p c (interm j) (outFiles j)" and t: "tasksOk p c ((workers j)(w := s))" and s: "workerOk p (interm j) (outFiles j) s"
  shows "jobInv p (setWorker (j\<lparr>coord := c\<rparr>) w s)"
  using assms queues_same[of p "coord j" c] by (simp add: jobInv_def setWorker_def)

text \<open>A worker takes a task that was idle.\<close>

lemma tasksOk_take:
  assumes t: "tasksOk p c ws" and grow: "\<And>t. working p c t \<Longrightarrow> working p c' t"
    and s: "\<And>t. atTask s = Some t \<Longrightarrow> working p c' t \<and> \<not> working p c t"
  shows "tasksOk p c' (ws(w := s))"
proof -
  have "v = v'" if at: "atTask ((ws(w := s)) v) = Some t" "atTask ((ws(w := s)) v') = Some t" for v v' t
  proof (cases "v = w \<or> v' = w")
    case True
    show ?thesis
    proof (rule ccontr)
      assume "v \<noteq> v'"
      then obtain u where "atTask (ws u) = Some t" "atTask s = Some t" using True at by (auto split: if_splits)
      then show False using s t unfolding tasksOk_def by blast
    qed
  next
    case False
    then show ?thesis using at t unfolding tasksOk_def by (metis fun_upd_other)
  qed
  moreover have "working p c' t" if "atTask ((ws(w := s)) v) = Some t" for v t
    using that t s grow unfolding tasksOk_def by (metis fun_upd_apply)
  ultimately show ?thesis unfolding tasksOk_def by blast
qed

lemma inv_GetTask:
  assumes inv: "jobInv p j" and g: "GetTask (coord j) = Ret (c, msg)" and s: "s = workerNext msg \<or> s = Ended"
  shows "jobInv p (setWorker (j\<lparr>coord := c\<rparr>) w s)"
proof -
  have ok: "coordInv (coord j)" "queuesOk p (coord j)" and d: "doneOk p (coord j) (interm j) (outFiles j)"
    and t: "tasksOk p (coord j) (workers j)" using inv by (simp_all add: jobInv_def)
  note keep = GetTask_keeps[OF ok(1) g]
  note ql = queues_length[OF ok(2)] and qn = queues_nth[OF ok(2)]
  from ok(1) g show ?thesis
  proof (cases rule: GetTask_cases)
    case idle
    have "atTask s = None" "workerOk p (interm j) (outFiles j) s" using s idle(1) by (auto simp: workerNext_def)
    then show ?thesis using idle(3-) keep
      by (intro inv_coord[OF inv keep idle(2)] done_same[OF d] tasksOk_take[OF t]) (auto simp: working_def)
  next
    case (mapTask k)
    have k: "k < length (pFiles p)" using mapTask(1) ql by simp
    have at: "atTask s = Some (MAP, int k) \<or> atTask s = None" "workerOk p (interm j) (outFiles j) s"
      using s mapTask(7-) qn(1)[OF k] ok(2) by (auto simp: workerNext_def queuesOk_def)
    show ?thesis using at mapTask(2,4-6) k keep
      by (intro inv_coord[OF inv keep mapTask(3)] done_same[OF d] tasksOk_take[OF t]) (auto simp: working_def)
  next
    case (reduceTask k)
    have k: "k < pN p" using reduceTask(1) ql by simp
    have at: "atTask s = Some (REDUCE, int k) \<or> atTask s = None" "workerOk p (interm j) (outFiles j) s"
      using s reduceTask(7-) qn(2)[OF k] by (auto simp: workerNext_def)
    show ?thesis using at reduceTask(2,4-6) k keep
      by (intro inv_coord[OF inv keep reduceTask(3)] done_same[OF d] tasksOk_take[OF t]) (auto simp: working_def)
  qed
qed

lemma inv_timeout:
  assumes inv: "jobInv p j" and k: "k < length (timers (coord j))" and free: "\<forall>w. atTask (workers j w) \<noteq> Some (timers (coord j) ! k)"
    and c: "taskTimeout (coord j) k = Ret c"
  shows "jobInv p (j\<lparr>coord := c\<rparr>)"
proof -
  have ok: "coordInv (coord j)" "queuesOk p (coord j)" and d: "doneOk p (coord j) (interm j) (outFiles j)"
    and t: "tasksOk p (coord j) (workers j)" using inv by (simp_all add: jobInv_def)
  note keep = taskTimeout_keeps[OF ok(1) c]
  from taskTimeout_effect[OF ok(1) c k] obtain i where e: "sameJob (coord j) c" "remainMapTaskCount c = remainMapTaskCount (coord j)"
    "mapState c = (if timers (coord j) ! k = (MAP, int i) \<and> mapState (coord j) i \<noteq> COMPLETE then (mapState (coord j))(i := IDLE) else mapState (coord j))"
    "redState c = (if fst (timers (coord j) ! k) \<noteq> MAP \<and> snd (timers (coord j) ! k) = int i \<and> redState (coord j) i \<noteq> COMPLETE then (redState (coord j))(i := IDLE) else redState (coord j))"
    by auto
  have ty: "fst (timers (coord j) ! k) = MAP \<or> fst (timers (coord j) ! k) = REDUCE" using ok(2) nth_mem[OF k] unfolding queuesOk_def by blast
  have "working p c u" if at: "atTask (workers j v) = Some u" "working p (coord j) u" for v u
  proof -
    have "u \<noteq> timers (coord j) ! k" using free at(1) by metis
    then show ?thesis using at(2) ty e(3,4) by (cases "timers (coord j) ! k") (auto simp: working_def)
  qed
  then have "tasksOk p c (workers j)" using tasksOk_coord[OF t] by blast
  moreover have "doneOk p c (interm j) (outFiles j)" using done_same[OF d e(2)] e(3,4) by (auto split: if_splits)
  ultimately show ?thesis using inv keep queues_same[OF ok(2) e(1)] by (simp add: jobInv_def)
qed

text \<open>A worker is done with its task.\<close>

lemma tasksOk_drop:
  assumes t: "tasksOk p c ws" and w: "atTask (ws w) = Some t0" "atTask s = None"
    and keep: "\<And>u. working p c u \<Longrightarrow> u \<noteq> t0 \<Longrightarrow> working p c' u"
  shows "tasksOk p c' (ws(w := s))"
proof -
  have at: "atTask (ws v) = Some u \<and> u \<noteq> t0" if "atTask ((ws(w := s)) v) = Some u" for v u
  proof -
    have "v \<noteq> w" "atTask (ws v) = Some u" using that w(2) by (auto split: if_splits)
    then show ?thesis using t w(1) unfolding tasksOk_def by blast
  qed
  then show ?thesis using t keep unfolding tasksOk_def by meson
qed

lemma rightLines_empty:
  assumes "go_sort (pSort p)" "\<And>i. i < length (pFiles p) \<Longrightarrow> pairsOf p i r = []"
  shows "rightLines p r []"
proof -
  have "filter (\<lambda>v. bucket (pN p) v = r) (mapped (pMap p) (pFs p) f) = []" if "f \<in> set (pFiles p)" for f
    using assms(2) that by (auto simp: pairsOf_def in_set_conv_nth)
  then have "filter (\<lambda>v. bucket (pN p) v = r) (allPairs p) = []" by (simp add: filter_concat filter_empty_conv)
  moreover have "pSort p [] = []" using go_sort.sort_perm[OF assms(1), of "[]"] by simp
  ultimately show ?thesis unfolding rightLines_def by (intro impI exI[of _ "[]"]) simp
qed

text \<open>A map task is reported: the reduce tasks it has data for become idle, and after the last map task the others stay complete.\<close>

lemma inv_mapDone:
  assumes good: "goodParams p" and inv: "jobInv p j" and w: "workers j w = Reporting rq" "rqTaskType rq = MAP"
    and r: "CompleteTask (coord j) rq = Ret c"
  shows "jobInv p (setWorker (j\<lparr>coord := c\<rparr>) w Asking)"
proof -
  let ?c = "coord j"
  have ok: "coordInv ?c" "queuesOk p ?c" and d: "doneOk p ?c (interm j) (outFiles j)" and t: "tasksOk p ?c (workers j)"
    using inv by (simp_all add: jobInv_def)
  obtain i where i: "rqTaskNum rq = int i" "i < length (pFiles p)" "mapState ?c i = WORK"
    using jobInv_worker(2)[OF inv w(1), of "(MAP, rqTaskNum rq)"] w(2) by (auto simp: working_def)
  have has: "\<forall>r < pN p. dirHas p (interm j) i r" and list: "\<And>r. int r \<in> set (rqReduceList rq) \<longleftrightarrow> r < pN p \<and> pairsOf p i r \<noteq> []"
    using jobInv_worker(1)[OF inv w(1)] w(2) i(1) by auto
  have e: "sameJob ?c c" "mapState c = (mapState ?c)(i := COMPLETE)" "redState c = (\<lambda>r. if int r \<in> set (rqReduceList rq) then IDLE else redState ?c r)"
    using CompleteTask_map[OF r w(2) i(1)] by simp_all
  have keep: "coordInv c" using mapDone_keeps[OF ok(1) w(2) _ r] i(1,3) by (simp add: mapState_def)
  have q: "queuesOk p c" by (rule queues_same[OF ok(2) e(1)])
  have nz: "remainMapTaskCount ?c \<noteq> 0" using map_phase(1)[OF ok] i(2,3) by auto
  have empty: "pairsOf p x y = []" if xy: "y < pN p" "redState c y = COMPLETE" "x < length (pFiles p)" "mapState c x = COMPLETE" for x y
    using d nz xy list[of y] unfolding doneOk_def e(2,3) by (auto split: if_splits)
  have "rightOut p (outFiles j) y" if y: "y < pN p" "redState c y = COMPLETE" and z: "remainMapTaskCount c = 0" for y
  proof -
    have "rightLines p y []"
      using empty[OF y] map_phase(1)[OF keep q] z good by (intro rightLines_empty) (simp_all add: goodParams_def)
    then show ?thesis using d nz by (simp add: rightOut_def doneOk_def)
  qed
  then have "doneOk p c (interm j) (outFiles j)" using d nz empty has by (auto simp: doneOk_def e(2))
  moreover have "working p c u" if u: "working p ?c u" "u \<noteq> (MAP, int i)" for u
    using u map_phase(2)[OF ok] nz by (auto simp: working_def e(2))
  then have "tasksOk p c ((workers j)(w := Asking))"
    using w i(1) by (intro tasksOk_drop[OF t]) auto
  ultimately show ?thesis by (intro inv_coord[OF inv keep e(1)]) simp_all
qed

lemma inv_reduceDone:
  assumes inv: "jobInv p j" and w: "workers j w = Reporting rq" "rqTaskType rq \<noteq> MAP" and c: "CompleteTask (coord j) rq = Ret c"
  shows "jobInv p (setWorker (j\<lparr>coord := c\<rparr>) w Asking)"
proof -
  let ?c = "coord j"
  have ok: "coordInv ?c" "queuesOk p ?c" and d: "doneOk p ?c (interm j) (outFiles j)" and t: "tasksOk p ?c (workers j)"
    using inv by (simp_all add: jobInv_def)
  obtain r where r: "rqTaskType rq = REDUCE" "rqTaskNum rq = int r" "r < pN p" "redState ?c r = WORK"
    using jobInv_worker(2)[OF inv w(1), of "(rqTaskType rq, rqTaskNum rq)"] w(2) by (auto simp: working_def)
  have e: "sameJob ?c c" "mapState c = mapState ?c" "redState c = (redState ?c)(r := COMPLETE)" "remainMapTaskCount c = remainMapTaskCount ?c"
    using CompleteTask_reduce[OF c r(1,2)] by simp_all
  have keep: "coordInv c" using reduceDone_keeps[OF ok(1) r(1) _ c] r(2,4) by (simp add: redState_def)
  have z: "remainMapTaskCount ?c = 0" by (rule map_phase(2)[OF ok r(3,4)])
  have "rightOut p (outFiles j) r" using jobInv_worker(1)[OF inv w(1)] w(2) r(2) by (auto simp: rightOut_def)
  then have "doneOk p c (interm j) (outFiles j)" using d z by (simp add: doneOk_def e(2-4))
  moreover have "tasksOk p c ((workers j)(w := Asking))"
    using w r by (intro tasksOk_drop[OF t, of w "(REDUCE, int r)"]) (auto simp: working_def e(2,3))
  ultimately show ?thesis by (intro inv_coord[OF inv keep e(1)]) simp_all
qed

section \<open>Every reachable job\<close>

lemma tempsOk_new: "tempsOk p ts \<Longrightarrow> list_all (foreignName (int (pN p))) (map fst ts') \<Longrightarrow> tempsOk p (ts @ ts')"
  by (simp add: tempsOk_def)

lemma createTemps_names: "length names = length hs \<Longrightarrow> list_all P names \<Longrightarrow> list_all P (map fst (createTemps hs names))"
  by (auto simp: createTemps_def list_all_iff)

text \<open>New temporary files, and the worker that made them goes on or ends.\<close>

lemma inv_temps:
  assumes inv: "jobInv p j" and w: "workers j w = Got msg" "rsTaskType msg = MAP"
    and ts: "list_all (foreignName (rsNReduce msg)) (map fst ts)"
    and s: "atTask s = None \<or> atTask s = atTask (workers j w)" "workerOk p (interm j) (outFiles j) s"
  shows "jobInv p (setWorker (j\<lparr>temps := temps j @ ts\<rparr>) w s)"
proof -
  have "rsNReduce msg = int (pN p)" using jobInv_worker(1)[OF inv w(1)] w(2) by simp
  then have "jobInv p (j\<lparr>temps := temps j @ ts\<rparr>)" using inv ts tempsOk_new[of p "temps j" ts] by (simp add: jobInv_def)
  then show ?thesis using s by (intro inv_worker) simp_all
qed

lemma inv_mapWrite:
  assumes good: "goodParams p" and inv: "jobInv p j" and w: "workers j w = Got msg" "rsTaskType msg = MAP"
    and h: "mapHandles (pMap p) (pFs p) msg = Some hs" and n: "length names = length hs" "tempNames j (rsNReduce msg) names"
  shows "jobInv p (setWorker (j\<lparr>temps := temps j @ createTemps hs names\<rparr>) w (Renaming msg hs names 0))"
proof -
  obtain i where i: "rsTaskNum msg = int i" "i < length (pFiles p)"
    using jobInv_worker(2)[OF inv w(1), of "(MAP, rsTaskNum msg)"] w(2) by (auto simp: working_def)
  have "rsFiles msg = [pFiles p ! i]" "rsNReduce msg = int (pN p)" using jobInv_worker(1)[OF inv w(1)] w(2) i(1) by simp_all
  then have "hs = rightHandles p i" using mapHandles_right[OF good i(2)] h by simp
  moreover have "list_all (foreignName (rsNReduce msg)) (map fst (createTemps hs names))"
    using createTemps_names[OF n(1)] n(2) by (simp add: tempNames_def)
  ultimately show ?thesis using w i(1) by (intro inv_temps[OF inv]) simp_all
qed

lemma inv_mapCrash:
  assumes inv: "jobInv p j" and w: "workers j w = Got msg" "rsTaskType msg = MAP" and ts: "tempNames j (rsNReduce msg) (map fst ts)"
  shows "jobInv p (setWorker (j\<lparr>temps := temps j @ ts\<rparr>) w Ended)"
  using ts by (intro inv_temps[OF inv w]) (simp_all add: tempNames_def)

lemma neededBy_right:
  "int r \<in> set (neededBy (rightHandles p i)) \<longleftrightarrow> r < pN p \<and> pairsOf p i r \<noteq> []" "\<forall>x \<in> set (neededBy hs). 0 \<le> x"
  by (auto simp: neededBy_def rightHandles_def)

lemma inv_mapReport:
  assumes inv: "jobInv p j" and w: "workers j w = Renaming msg hs names k" and k: "length hs \<le> k" and n: "mset needed = mset (neededBy hs)"
  shows "jobInv p (setWorker j w (Reporting (mapRequest msg needed)))"
proof -
  note ok = jobInv_worker(1)[OF inv w]
  then have "k = pN p" "hs = rightHandles p (nat (rsTaskNum msg))" using k by (auto simp: rightHandles_def)
  moreover have "set needed = set (neededBy hs)" using n by (rule mset_eq_setD)
  ultimately show ?thesis using ok w by (intro inv_worker[OF inv]) (simp_all add: mapRequest_def neededBy_right)
qed

lemma inv_reduceReport:
  assumes inv: "jobInv p j" and w: "workers j w = Writing msg lines k" and k: "length lines \<le> k"
  shows "jobInv p (setWorker j w (Reporting (reduceRequest msg)))"
  using jobInv_worker(1)[OF inv w] k w by (intro inv_worker[OF inv]) (auto simp: reduceRequest_def)

lemma job_step_inv:
  assumes good: "goodParams p" and inv: "jobInv p j" and "jobStep (pSort p) (pMap p) (pReduce p) (pFs p) j j'"
  shows "jobInv p j'"
  using assms(3)
proof cases
  case (report w rq c)
  then show ?thesis using inv_mapDone[OF good inv report(2) _ report(3)] inv_reduceDone[OF inv report(2) _ report(3)] by blast
next
  case (timeout k c)
  then show ?thesis using inv_timeout[OF inv] by blast
qed (use inv_GetTask[OF inv] inv_mapWrite[OF good inv] inv_mapCrash[OF inv] inv_rename[OF inv] inv_mapReport[OF inv] inv_reduceOpen[OF inv] inv_writeLine[OF inv]
  inv_reduceReport[OF inv] inv_worker[OF inv] in auto)

lemma job_reachable_inv:
  assumes "goodParams p" "jobReachable (pSort p) (pMap p) (pReduce p) (pFs p) (pFiles p) (pN p) j"
  shows "jobInv p j"
  using assms(2) by induction (use assms(1) in \<open>auto intro: job_start_inv job_step_inv\<close>)

lemma workerStep_step:
  assumes "workerStep sortf mapf reducef fs rand j w = Some j'"
  shows "jobStep sortf mapf reducef fs j j'"
  using assms by (auto simp: workerStep_def bind_eq_Some_conv split: workerState.splits Run.splits TaskType.splits if_splits intro: jobStep.intros)

lemma runJob_reachable:
  "runJob sortf mapf reducef fs ws j = Some j' \<Longrightarrow> jobReachable sortf mapf reducef fs files n j \<Longrightarrow> jobReachable sortf mapf reducef fs files n j'"
proof (induction ws arbitrary: j)
  case (Cons w ws)
  then obtain j1 where "workerStep sortf mapf reducef fs (10 * (length ws + 1)) j w = Some j1" "runJob sortf mapf reducef fs ws j1 = Some j'"
    by (auto simp: bind_eq_Some_conv)
  then show ?case using Cons jobReachable.step workerStep_step by blast
qed simp

lemma finished_reduced:
  assumes inv: "jobInv p j" and fin: "Done (coord j) = Ret (c, True)" and r: "r < pN p"
  shows "rightLines p r (outFile j (int r))"
proof -
  have ok: "coordInv (coord j)" "queuesOk p (coord j)" and d: "doneOk p (coord j) (interm j) (outFiles j)" using inv by (simp_all add: jobInv_def)
  have z: "remainMapTaskCount (coord j) = 0" "remainReduceTaskCount (coord j) = 0" using fin by (auto simp: Done_def split: if_splits)
  then have "unfinished (reduceTaskQueue (coord j)) = 0" using ok(1) by (simp add: coordInv_def)
  then have "redState (coord j) r = COMPLETE" using r queues_length(2)[OF ok(2)] by (simp add: unfinished_0 redState_def)
  then show ?thesis using d r z(1) by (simp add: doneOk_def rightOut_def outFile_def)
qed

lemma job_sequential:
  assumes reach: "jobReachable sortf mapf reducef fs files n j" and fin: "Done (coord j) = Ret (c, True)"
    and sorts: "go_sort sortf" "go_sort sortf'"
    and perm: "\<forall>k vs vs'. mset vs = mset vs' \<longrightarrow> reducef k vs = reducef k vs'"
    and ok: "\<forall>f \<in> set files. fs f \<noteq> None" "files \<noteq> []" "0 < n" "int n < 2 ^ 63"
    and utf8: "\<forall>f \<in> set files. \<forall>v \<in> set (mapf f (the (fs f))). validUTF8 (Key v) \<and> validUTF8 (Value v)"
  shows "\<exists>lines. mrsequential sortf' mapf reducef fs files = Some lines \<and>
    mset (concat (map (\<lambda>r. outFile j (int r)) [0..<n])) = mset lines"
proof -
  let ?p = "\<lparr>pSort = sortf, pMap = mapf, pReduce = reducef, pFs = fs, pFiles = files, pN = n\<rparr>"
  let ?kva = "concat (map (mapped mapf fs) files)"
  have inv: "jobInv ?p j" using job_reachable_inv[of ?p j] reach sorts(1) ok by (simp add: goodParams_def)
  have "\<forall>v \<in> set ?kva. validPair v" using utf8 by (auto simp: mapped_def validPair_def)
  then have "\<forall>r < n. \<exists>P. mset P = mset (filter (\<lambda>v. bucket n v = r) ?kva) \<and> outFile j (int r) = groupLoop reducef (sortf P)"
    using finished_reduced[OF inv fin] ok(4) jsonPair_map[of ?kva] by (simp add: rightLines_def)
  then obtain P where P: "\<And>r. r < n \<Longrightarrow> mset (P r) = mset (filter (\<lambda>v. bucket n v = r) ?kva)"
    "\<And>r. r < n \<Longrightarrow> outFile j (int r) = groupLoop reducef (sortf (P r))" by metis
  have out: "map (\<lambda>r. outFile j (int r)) [0..<n] = map (\<lambda>r. groupLoop reducef (sortf (P r))) [0..<n]" using P(2) by simp
  show ?thesis unfolding out using buckets_sequential[OF sorts perm ok(3) P(1)] mapFiles_Some[OF ok(1), of mapf] by (simp add: mrsequential_def)
qed

text \<open>An application whose reduce function ignores the order of the values.\<close>

context mr_app
begin

lemma finished_output:
  assumes reach: "jobReachable sortf mapf reducef fs files n j" and fin: "Done (coord j) = Ret (c, True)" and sort: "go_sort sortf"
    and ok: "\<forall>f \<in> set files. fs f \<noteq> None" "files \<noteq> []" "0 < n" "int n < 2 ^ 63"
    and utf8: "\<forall>f \<in> set files. \<forall>v \<in> set (mapf f (the (fs f))). validUTF8 (Key v) \<and> validUTF8 (Value v)"
  shows "let kva = concat (map (mapped mapf fs) files)
    in mset (concat (map (\<lambda>r. outFile j (int r)) [0..<n])) = mset (map (\<lambda>k. outputLine reducef k (valuesOf k kva)) (keysOf (sort_key Key kva)))"
proof -
  have "\<exists>lines. mrsequential (sort_key Key) mapf reducef fs files = Some lines \<and> mset (concat (map (\<lambda>r. outFile j (int r)) [0..<n])) = mset lines"
    using job_sequential[OF reach fin sort byKey.go_sort_axioms _ ok utf8] order_free by blast
  then show ?thesis using sequential_lines[OF ok(1)] by (auto simp: Let_def)
qed

end


text \<open>Two workers in turns.\<close>

definition demoJob :: "job option" where
  "demoJob = runJob (sort_key Key) demoMap demoReduce demoFiles (concat (replicate 11 [0, 1])) (startJob [''f'', ''g''] 2)"

lemma demoJob_finishes:
  "case demoJob of
     None \<Rightarrow> False
   | Some j \<Rightarrow> (case Done (coord j) of Ret (c, b) \<Rightarrow> b | _ \<Rightarrow> False) \<and> outFile j 0 = [''a fg'' @ [CHR 10]] \<and> outFile j 1 = [''b fg'' @ [CHR 10]]"
  by code_simp

lemma demo_valid: "\<forall>f \<in> set [''f'', ''g'']. \<forall>v \<in> set (demoMap f (the (demoFiles f))). validUTF8 (Key v) \<and> validUTF8 (Value v)"
  by (auto simp: demoMap_def demoFiles_def intro!: ascii_valid)


text \<open>The condition on the timeouts is needed.  A worker that is slow has its reduce task taken away and done by another; when it goes
  on it truncates the output file, and the job is finished with an output that lacks every line.\<close>

definition lateJob :: "(job \<times> job) option" where
  "lateJob = do {
     j \<leftarrow> runJob (sort_key Key) demoMap demoReduce demoFiles (replicate 6 0) (startJob [''f''] 1);
     c \<leftarrow> (case taskTimeout (coord j) 1 of Ret c \<Rightarrow> Some c | _ \<Rightarrow> None);
     j' \<leftarrow> runJob (sort_key Key) demoMap demoReduce demoFiles (replicate 6 1) (j\<lparr>coord := c\<rparr>);
     j'' \<leftarrow> workerStep (sort_key Key) demoMap demoReduce demoFiles 10 j' 0;
     Some (j', j'')
   }"

lemma late_reduce_truncates:
  "case lateJob of
     None \<Rightarrow> False
   | Some (j, j') \<Rightarrow>
       (case Done (coord j) of Ret (c, b) \<Rightarrow> b | _ \<Rightarrow> False) \<and> outFile j 0 = [''a f'' @ [CHR 10], ''b f'' @ [CHR 10]] \<and>
       (case Done (coord j') of Ret (c, b) \<Rightarrow> b | _ \<Rightarrow> False) \<and> outFile j' 0 = []"
  by code_simp

end
