(* ===== verification/MrJobLive.thy ===== *)
theory MrJobLive
  imports MrJobProps
begin

text \<open>
  A MapReduce job can always finish: whatever has happened, whichever workers have crashed and whichever calls were lost, there is a
  continuation after which the coordinator is done.  In particular no reachable job has a coordinator that panics or a lost task.
\<close>

section \<open>Tasks that can be taken back\<close>

text \<open>Every task that is worked on has a cancel function and a timer.\<close>

definition armedQueue :: "TaskType \<Rightarrow> (TaskType \<times> int) list \<Rightarrow> Task list \<Rightarrow> bool" where
  "armedQueue ty ts q \<longleftrightarrow> (\<forall>k < length q. taskState (q ! k) = WORK \<longrightarrow> cancel (q ! k) \<and> (ty, int k) \<in> set ts)"

definition armed :: "Coordinator \<Rightarrow> bool" where
  "armed c \<longleftrightarrow> armedQueue MAP (timers c) (mapTaskQueue c) \<and> armedQueue REDUCE (timers c) (reduceTaskQueue c)"

lemma armedQueue_more: "armedQueue ty ts q \<Longrightarrow> armedQueue ty (ts @ ts') q"
  by (auto simp: armedQueue_def)

lemma armedQueue_assign:
  assumes "armedQueue ty ts q"
  shows "armedQueue ty (ts @ [(ty, int k)]) (assign q (int k))"
  unfolding armedQueue_def
proof (intro allI impI)
  fix m assume m: "m < length (assign q (int k))" "taskState (assign q (int k) ! m) = WORK"
  then show "cancel (assign q (int k) ! m) \<and> (ty, int m) \<in> set (ts @ [(ty, int k)])"
    using assms by (cases "m = k") (simp_all add: armedQueue_def assign_def)
qed

lemma armedQueue_state:
  assumes "armedQueue ty ts q" "length q' = length q"
    and "\<And>k. k < length q \<Longrightarrow> taskState (q' ! k) = WORK \<Longrightarrow> q' ! k = q ! k"
  shows "armedQueue ty ts q'"
  using assms unfolding armedQueue_def by metis

lemma in_without:
  assumes "x \<in> set xs" "x \<noteq> xs ! k"
  shows "x \<in> set (take k xs @ drop (k + 1) xs)"
proof (cases "k < length xs")
  case True
  then have "set xs = set (take k xs @ xs ! k # drop (Suc k) xs)" by (metis id_take_nth_drop)
  then show ?thesis using assms by auto
qed (use assms in simp)

text \<open>A timer that runs takes its task back, so nothing that is worked on is left without one.\<close>

lemma armedQueue_timer:
  assumes a: "armedQueue ty ts q" and q': "length q' = length q" "\<And>m. m < length q \<Longrightarrow> taskState (q' ! m) = WORK \<Longrightarrow> q' ! m = q ! m \<and> (ty, int m) \<noteq> ts ! k"
  shows "armedQueue ty (take k ts @ drop (k + 1) ts) q'"
  unfolding armedQueue_def
proof (intro allI impI)
  fix m assume m: "m < length q'" "taskState (q' ! m) = WORK"
  then have "q' ! m = q ! m" "(ty, int m) \<noteq> ts ! k" using q' by simp_all
  then show "cancel (q' ! m) \<and> (ty, int m) \<in> set (take k ts @ drop (k + 1) ts)"
    using a m q'(1) in_without unfolding armedQueue_def by metis
qed

lemma release_nth: "m < length q \<Longrightarrow> taskState (release q i ! m) = WORK \<Longrightarrow> release q i ! m = q ! m \<and> m \<noteq> nat i"
  by (cases "m = nat i") (auto simp: release_def split: if_splits)

lemma armedQueue_release:
  assumes "armedQueue ty ts q" "ts ! k = (ty', i)"
  shows "armedQueue ty (take k ts @ drop (k + 1) ts) (release q i)"
proof (rule armedQueue_timer[OF assms(1)])
  show "release q i ! m = q ! m \<and> (ty, int m) \<noteq> ts ! k" if "m < length q" "taskState (release q i ! m) = WORK" for m
    using release_nth[OF that] assms(2) by auto
qed simp

lemma armedQueue_other:
  assumes "armedQueue ty ts q" "fst (ts ! k) \<noteq> ty"
  shows "armedQueue ty (take k ts @ drop (k + 1) ts) q"
  using assms by (intro armedQueue_timer[OF assms(1)]) (auto, metis fst_conv)

lemma GetTask_armed:
  assumes inv: "coordInv c" and a: "armed c" and g: "GetTask c = Ret (c', msg)"
  shows "armed c'"
proof (cases "remainMapTaskCount c = 0")
  case False
  with inv show ?thesis
    by (cases rule: GetTask_map_phase) (use a g in \<open>auto simp: armed_def armedQueue_more armedQueue_assign\<close>)
next
  case True
  with inv show ?thesis
    by (cases rule: GetTask_reduce_phase) (use a g in \<open>auto simp: armed_def armedQueue_more armedQueue_assign\<close>)
qed

lemma taskTimeout_armed:
  assumes a: "armed c" and t: "taskTimeout c k = Ret c'"
  shows "armed c'"
proof (cases "k < length (timers c)")
  case True
  obtain ty i where ti: "timers c ! k = (ty, i)" by (cases "timers c ! k")
  have c': "c' = (if ty = MAP then c\<lparr>timers := take k (timers c) @ drop (k + 1) (timers c), mapTaskQueue := release (mapTaskQueue c) i\<rparr>
                  else c\<lparr>timers := take k (timers c) @ drop (k + 1) (timers c), reduceTaskQueue := release (reduceTaskQueue c) i\<rparr>)"
    using t True ti by (simp add: taskTimeout_def split: if_splits)
  show ?thesis using a armedQueue_release[OF _ ti] armedQueue_other[of _ "timers c" _ k] unfolding c' armed_def ti by simp
qed (use a t in \<open>auto simp: taskTimeout_def split: if_splits\<close>)

lemma complete_armed:
  assumes "armedQueue ty ts q" "complete q i = Some q'"
  shows "armedQueue ty ts q'"
proof -
  note c = complete_Some[OF assms(2)]
  show ?thesis
  proof (rule armedQueue_state[OF assms(1)])
    show "q' ! k = q ! k" if "k < length q" "taskState (q' ! k) = WORK" for k using that c by (cases "k = nat i") auto
  qed (use c in simp)
qed

lemma wakeReduce_armed: "armedQueue ty ts q \<Longrightarrow> wakeReduce q is = Some q' \<Longrightarrow> armedQueue ty ts q'"
proof (induction q "is" rule: wakeReduce.induct)
  case (2 q i "is")
  then obtain t q1 where h: "go_index q i = Some t" "go_set q i (t\<lparr>taskState := IDLE\<rparr>) = Some q1" "wakeReduce q1 is = Some q'"
    by (auto simp: bind_eq_Some_conv)
  then have q1: "q1 = q[nat i := t\<lparr>taskState := IDLE\<rparr>]" by (auto simp: go_set_def split: if_splits)
  have "armedQueue ty ts q1"
  proof (rule armedQueue_state[OF "2.prems"(1)])
    show "q1 ! k = q ! k" if "k < length q" "taskState (q1 ! k) = WORK" for k using that q1 by (cases "k = nat i") auto
  qed (simp add: q1)
  then show ?case using "2.IH"[OF h(1,2)] h(3) by blast
qed simp

lemma CompleteTask_armed:
  assumes "armed c" "CompleteTask c rq = Ret c'"
  shows "armed c'"
proof -
  obtain mq rdq where "armedQueue MAP (timers c) mq" "armedQueue REDUCE (timers c) rdq"
    "timers c' = timers c" "mapTaskQueue c' = mq" "reduceTaskQueue c' = rdq"
  proof (cases "rqTaskType rq = MAP")
    case True
    then obtain mq rdq where h: "complete (mapTaskQueue c) (rqTaskNum rq) = Some mq" "wakeReduce (reduceTaskQueue c) (rqReduceList rq) = Some rdq"
      using assms(2) by (auto simp: CompleteTask_def split: if_splits option.splits)
    show thesis
      using assms True h complete_armed[OF _ h(1)] wakeReduce_armed[OF _ h(2)]
      by (intro that[of mq rdq]) (auto simp: CompleteTask_def armed_def split: if_splits)
  next
    case False
    then obtain rdq where h: "complete (reduceTaskQueue c) (rqTaskNum rq) = Some rdq"
      using assms(2) by (auto simp: CompleteTask_def split: if_splits option.splits)
    show thesis
      using assms False h complete_armed[OF _ h]
      by (intro that[of "mapTaskQueue c" rdq]) (auto simp: CompleteTask_def armed_def split: if_splits)
  qed
  then show ?thesis by (simp add: armed_def)
qed

section \<open>The other invariants of a run\<close>

definition liveInv :: "job \<Rightarrow> bool" where
  "liveInv j \<longleftrightarrow> armed (coord j) \<and> finite {w. workers j w \<noteq> Asking}"

lemma finite_workers: "finite {w. ws w \<noteq> Asking} \<Longrightarrow> finite {v. (ws(w := s)) v \<noteq> Asking}"
  by (rule finite_subset[of _ "insert w {w. ws w \<noteq> Asking}"]) auto

lemma live_step:
  assumes "jobInv p j" "liveInv j" "jobStep sortf mapf reducef fs j j'"
  shows "liveInv j'"
proof -
  have inv: "coordInv (coord j)" using assms(1) by (simp add: jobInv_def)
  have a: "armed (coord j)" and f: "finite {w. workers j w \<noteq> Asking}" using assms(2) by (simp_all add: liveInv_def)
  show ?thesis
    using assms(3) by cases
      (use a f GetTask_armed[OF inv a] taskTimeout_armed[OF a] CompleteTask_armed[OF a] finite_workers[OF f] in \<open>auto simp: liveInv_def setWorker_def\<close>)
qed

lemma live_start: "liveInv (startJob files n)"
  by (simp add: liveInv_def startJob_def armed_def armedQueue_def MakeCoordinator_def)

section \<open>A worker finishes its task\<close>

abbreviation steps :: "params \<Rightarrow> job \<Rightarrow> job \<Rightarrow> bool" where
  "steps p \<equiv> rtranclp (jobStep (pSort p) (pMap p) (pReduce p) (pFs p))"

definition goodJob :: "params \<Rightarrow> job \<Rightarrow> bool" where
  "goodJob p j \<longleftrightarrow> goodParams p \<and> jobInv p j \<and> liveInv j"

lemma good_steps: "steps p j j' \<Longrightarrow> goodJob p j \<Longrightarrow> goodJob p j'"
  by (induction rule: rtranclp_induct) (auto simp: goodJob_def intro: job_step_inv live_step)

lemma renaming_reports:
  "workers j w = Renaming msg hs names k \<Longrightarrow> \<exists>j' rq. steps p j j' \<and> coord j' = coord j \<and> workers j' w = Reporting rq"
proof (induction "length hs - k" arbitrary: j k)
  case 0
  let ?j = "setWorker j w (Reporting (mapRequest msg (neededBy hs)))"
  have "jobStep (pSort p) (pMap p) (pReduce p) (pFs p) j ?j" using 0 by (intro jobStep.mapReport) simp_all
  then show ?case by (intro exI[of _ ?j]) (auto simp: setWorker_def)
next
  case (Suc d)
  let ?j = "setWorker (j\<lparr>interm := renameOne (rsTaskNum msg) k (hs ! k) (interm j), temps := dropTemp (hs ! k) (names ! k) (temps j)\<rparr>) w
    (Renaming msg hs names (Suc k))"
  have st: "jobStep (pSort p) (pMap p) (pReduce p) (pFs p) j ?j" using Suc by (intro jobStep.rename) simp_all
  have "\<exists>j' rq. steps p ?j j' \<and> coord j' = coord ?j \<and> workers j' w = Reporting rq" using Suc by (intro Suc.hyps(1)) (simp_all add: setWorker_def)
  then show ?case using converse_rtranclp_into_rtranclp[of "jobStep (pSort p) (pMap p) (pReduce p) (pFs p)", OF st] by (auto simp: setWorker_def)
qed

lemma writing_reports:
  "workers j w = Writing msg lines k \<Longrightarrow> \<exists>j' rq. steps p j j' \<and> coord j' = coord j \<and> workers j' w = Reporting rq"
proof (induction "length lines - k" arbitrary: j k)
  case 0
  let ?j = "setWorker j w (Reporting (reduceRequest msg))"
  have "jobStep (pSort p) (pMap p) (pReduce p) (pFs p) j ?j" using 0 by (intro jobStep.reduceReport) simp_all
  then show ?case by (intro exI[of _ ?j]) (auto simp: setWorker_def)
next
  case (Suc d)
  let ?j = "setWorker (j\<lparr>outFiles := (outFiles j)(rsTaskNum msg \<mapsto> putLine k (lines ! k) (outFile j (rsTaskNum msg)))\<rparr>) w (Writing msg lines (Suc k))"
  have st: "jobStep (pSort p) (pMap p) (pReduce p) (pFs p) j ?j" using Suc by (intro jobStep.writeLine) simp_all
  have "\<exists>j' rq. steps p ?j j' \<and> coord j' = coord ?j \<and> workers j' w = Reporting rq" using Suc by (intro Suc.hyps(1)) (simp_all add: setWorker_def)
  then show ?case using converse_rtranclp_into_rtranclp[of "jobStep (pSort p) (pMap p) (pReduce p) (pFs p)", OF st] by (auto simp: setWorker_def)
qed

text \<open>There are always names for new temporary files.\<close>

lemma fresh_names: "\<exists>names. length names = k \<and> tempNames j n names"
proof -
  let ?f = "\<lambda>i. itoa i @ CHR ''-'' # itoa (nat n)"
  have inj: "inj ?f" by (auto simp: inj_def itoa_inj)
  have "finite {i. ?f i \<in> fst ` set (dirFiles j)}" using finite_vimageI[OF _ inj, of "fst ` set (dirFiles j)"] by (simp add: vimage_def)
  then obtain m where m: "\<forall>i. ?f i \<in> fst ` set (dirFiles j) \<longrightarrow> i < m" unfolding finite_nat_set_iff_bounded by auto
  let ?names = "map (\<lambda>i. ?f (m + i)) [0..<k]"
  have "distinct ?names" using inj by (auto simp: distinct_map inj_on_def itoa_inj)
  moreover have "?f (m + i) \<notin> fst ` set (dirFiles j)" for i using m by (metis add_diff_cancel_left' diff_is_0_eq' less_irrefl not_add_less1)
  then have "set ?names \<inter> fst ` set (dirFiles j) = {}" by auto
  moreover have "foreignName n (?f i)" for i
    using splitDash_dash[OF itoa_no_dash, of i] splitDash_plain[OF itoa_no_dash, of "nat n"] atoiGo_itoa[of "nat n"] by (auto simp: foreignName_def)
  then have "list_all (foreignName n) ?names" by (simp add: list_all_iff)
  ultimately show ?thesis by (intro exI[of _ ?names]) (simp add: tempNames_def)
qed

lemma worker_reports:
  assumes good: "goodJob p j" and w: "atTask (workers j w) = Some t"
  shows "\<exists>j' rq. steps p j j' \<and> coord j' = coord j \<and> workers j' w = Reporting rq"
proof (cases "workers j w")
  case (Got msg)
  have inv: "jobInv p j" and gp: "goodParams p" using good by (simp_all add: goodJob_def)
  obtain k where k: "rsTaskNum msg = int k" "rsTaskType msg = MAP \<and> k < length (pFiles p) \<or> rsTaskType msg = REDUCE"
    using jobInv_worker(2)[OF inv Got] by (auto simp: working_def)
  obtain j1 s where j1: "jobStep (pSort p) (pMap p) (pReduce p) (pFs p) j j1" "coord j1 = coord j" "workers j1 w = s"
    "(\<exists>hs names. s = Renaming msg hs names 0) \<or> (\<exists>lines. s = Writing msg lines 0)"
  proof (cases "rsTaskType msg = MAP")
    case True
    then have h: "mapHandles (pMap p) (pFs p) msg = Some (rightHandles p k)"
      using jobInv_worker(1)[OF inv Got] k mapHandles_right[OF gp, of k msg] by simp
    obtain names where n: "length names = length (rightHandles p k)" "tempNames j (rsNReduce msg) names" using fresh_names by blast
    from jobStep.mapWrite[where w = w, OF Got True h n] show thesis by (rule that) (auto simp: setWorker_def)
  next
    case False
    with k(2) have ty: "rsTaskType msg = REDUCE" by simp
    from jobStep.reduceOpen[where w = w, OF Got ty] show thesis by (rule that) (auto simp: setWorker_def)
  qed
  then obtain j' rq where "steps p j1 j'" "coord j' = coord j" "workers j' w = Reporting rq"
    using renaming_reports[of j1 w] writing_reports[of j1 w] by metis
  then show ?thesis using j1(1) by (meson converse_rtranclp_into_rtranclp)
qed (use w renaming_reports writing_reports in \<open>auto\<close>)

section \<open>Its report is accepted\<close>

definition remaining :: "Coordinator \<Rightarrow> nat \<times> nat" where
  "remaining c = (nat (remainMapTaskCount c), nat (remainReduceTaskCount c))"

lemma complete_returns: "k < length q \<Longrightarrow> cancel (q ! k) \<Longrightarrow> \<exists>q'. complete q (int k) = Some q'"
  by (simp add: complete_def go_index_def go_set_def)

lemma wakeReduce_returns: "\<forall>i \<in> set is. 0 \<le> i \<and> i < int (length q) \<Longrightarrow> \<exists>q'. wakeReduce q is = Some q'"
proof (induction "is" arbitrary: q)
  case (Cons i "is")
  then have i: "0 \<le> i" "nat i < length q" by auto
  have "\<exists>q'. wakeReduce (q[nat i := (q ! nat i)\<lparr>taskState := IDLE\<rparr>]) is = Some q'" using Cons by simp
  then show ?case using i by (simp add: go_index_def go_set_def)
qed simp

lemma unfinished_pos: "k < length q \<Longrightarrow> taskState (q ! k) \<noteq> COMPLETE \<Longrightarrow> 0 < unfinished q"
  using unfinished_0[of q] by (fastforce simp: unfinished_def)

lemma report_returns:
  assumes good: "goodJob p j" and w: "workers j w = Reporting rq"
  shows "\<exists>c. CompleteTask (coord j) rq = Ret c \<and> (remaining c, remaining (coord j)) \<in> less_than <*lex*> less_than"
proof -
  let ?c = "coord j"
  have inv: "jobInv p j" using good by (simp add: goodJob_def)
  have ok: "coordInv ?c" "queuesOk p ?c" and a: "armed ?c" using good by (simp_all add: goodJob_def jobInv_def liveInv_def)
  note ql = queues_length[OF ok(2)]
  have mu: "\<not> mutex ?c" using ok(1) by (simp add: coordInv_def)
  obtain k where k: "rqTaskNum rq = int k"
    "rqTaskType rq = MAP \<and> k < length (pFiles p) \<and> mapState ?c k = WORK \<or> rqTaskType rq = REDUCE \<and> k < pN p \<and> redState ?c k = WORK"
    using jobInv_worker(2)[OF inv w] by (auto simp: working_def)
  from k(2) show ?thesis
  proof (elim disjE conjE)
    assume m: "rqTaskType rq = MAP" "k < length (pFiles p)" "mapState ?c k = WORK"
    then obtain mq where mq: "complete (mapTaskQueue ?c) (int k) = Some mq"
      using a ql(1) complete_returns[of k "mapTaskQueue ?c"] by (auto simp: armed_def armedQueue_def mapState_def)
    have "0 \<le> x \<and> x < int (length (reduceTaskQueue ?c))" if x: "x \<in> set (rqReduceList rq)" for x
    proof -
      have "0 \<le> x" using jobInv_worker(1)[OF inv w] m(1) x by simp
      then obtain r where "x = int r" by (rule nonneg_int_cases)
      then show ?thesis using jobInv_worker(1)[OF inv w] m(1) x ql(2) by simp
    qed
    then obtain rdq where rdq: "wakeReduce (reduceTaskQueue ?c) (rqReduceList rq) = Some rdq" using wakeReduce_returns by blast
    have "0 < remainMapTaskCount ?c" using unfinished_pos[of k "mapTaskQueue ?c"] m ql(1) ok(1) by (simp add: mapState_def coordInv_def)
    then show ?thesis using mu m(1) mq rdq k(1) by (simp add: CompleteTask_def remaining_def Let_def)
  next
    assume m: "rqTaskType rq = REDUCE" "k < pN p" "redState ?c k = WORK"
    then obtain rdq where rdq: "complete (reduceTaskQueue ?c) (int k) = Some rdq"
      using a ql(2) complete_returns[of k "reduceTaskQueue ?c"] by (auto simp: armed_def armedQueue_def redState_def)
    have "0 < remainReduceTaskCount ?c"
      using unfinished_pos[of k "reduceTaskQueue ?c"] m ql(2) ok(1) map_phase(2)[OF ok m(2,3)] by (simp add: redState_def coordInv_def)
    then show ?thesis using mu m(1) rdq k(1) by (simp add: CompleteTask_def remaining_def)
  qed
qed

section \<open>There is a worker with a task\<close>

definition idlePhase :: "Coordinator \<Rightarrow> bool" where
  "idlePhase c \<longleftrightarrow> (\<exists>t \<in> set (if remainMapTaskCount c \<noteq> 0 then mapTaskQueue c else reduceTaskQueue c). taskState t = IDLE)"

lemma take_task:
  assumes good: "goodJob p j" and i: "idlePhase (coord j)"
  shows "\<exists>j' w t. steps p j j' \<and> remaining (coord j') = remaining (coord j) \<and> atTask (workers j' w) = Some t"
proof -
  let ?c = "coord j"
  have ok: "coordInv ?c" "queuesOk p ?c" using good by (simp_all add: goodJob_def jobInv_def)
  note qn = queues_nth[OF ok(2)] and ql = queues_length[OF ok(2)]
  have "finite {w. workers j w \<noteq> Asking}" using good by (simp add: goodJob_def liveInv_def)
  then obtain w where w: "workers j w = Asking" using ex_new_if_finite[OF infinite_UNIV_nat] by blast
  obtain c msg where g: "GetTask ?c = Ret (c, msg)" "remaining c = remaining ?c" "rsTaskType msg = MAP \<or> rsTaskType msg = REDUCE"
  proof (cases "remainMapTaskCount ?c = 0")
    case False
    with ok(1) show thesis
    proof (cases rule: GetTask_map_phase)
      case (mapTask k)
      show thesis using mapTask(1) qn(1)[of k] ql by (intro that[OF mapTask(3)]) (simp_all add: remaining_def)
    qed (use i False in \<open>simp add: idlePhase_def\<close>)
  next
    case True
    with ok(1) show thesis
    proof (cases rule: GetTask_reduce_phase)
      case (reduceTask k)
      show thesis using reduceTask(1) qn(2)[of k] ql by (intro that[OF reduceTask(3)]) (simp_all add: remaining_def)
    qed (use i True in \<open>simp add: idlePhase_def\<close>)
  qed
  let ?j = "setWorker (j\<lparr>coord := c\<rparr>) w (workerNext msg)"
  have "jobStep (pSort p) (pMap p) (pReduce p) (pFs p) j ?j" using w g(1) by (rule jobStep.ask)
  moreover have "\<exists>t. atTask (workers ?j w) = Some t" using g(3) by (auto simp: setWorker_def workerNext_def)
  ultimately show ?thesis using g(2) by (intro exI[of _ ?j] exI[of _ w]) (auto simp: setWorker_def)
qed

lemma unfinished_work:
  assumes "unfinished q \<noteq> 0" "\<not> (\<exists>t \<in> set q. taskState t = IDLE)"
  shows "\<exists>k < length q. taskState (q ! k) = WORK"
proof -
  obtain t where "t \<in> set q" "taskState t \<noteq> COMPLETE" using assms(1) unfinished_0 by blast
  then show ?thesis using assms(2) by (cases "taskState t") (auto simp: in_set_conv_nth)
qed

text \<open>A task that a crashed worker has left is taken back by its timer.\<close>

lemma free_task:
  assumes good: "goodJob p j" and free: "\<forall>w. atTask (workers j w) = None" and more: "remaining (coord j) \<noteq> (0, 0)"
  shows "\<exists>j'. steps p j j' \<and> remaining (coord j') = remaining (coord j) \<and> idlePhase (coord j')"
proof (cases "idlePhase (coord j)")
  case False
  let ?c = "coord j" and ?q = "if remainMapTaskCount (coord j) \<noteq> 0 then mapTaskQueue (coord j) else reduceTaskQueue (coord j)"
  let ?ty = "if remainMapTaskCount (coord j) \<noteq> 0 then MAP else REDUCE"
  have ok: "coordInv ?c" and a: "armed ?c" using good by (simp_all add: goodJob_def jobInv_def liveInv_def)
  have "unfinished ?q \<noteq> 0" using ok more by (auto simp: coordInv_def remaining_def unfinished_def)
  then obtain k where k: "k < length ?q" "taskState (?q ! k) = WORK"
    using False unfinished_work[of ?q] unfolding idlePhase_def by blast
  then have "(?ty, int k) \<in> set (timers ?c)" using a unfolding armed_def armedQueue_def by presburger
  then obtain m where m: "m < length (timers ?c)" "timers ?c ! m = (?ty, int k)" by (auto simp: in_set_conv_nth)
  obtain c where c: "taskTimeout ?c m = Ret c" "remainMapTaskCount c = remainMapTaskCount ?c" "remainReduceTaskCount c = remainReduceTaskCount ?c"
    "(if remainMapTaskCount ?c \<noteq> 0 then mapTaskQueue c else reduceTaskQueue c) = release ?q (int k)"
    using m ok by (cases "remainMapTaskCount ?c = 0") (auto simp: taskTimeout_def coordInv_def)
  have "release ?q (int k) ! k \<in> set (release ?q (int k))" using k by (intro nth_mem) simp
  moreover have "taskState (release ?q (int k) ! k) = IDLE" using k by (simp add: release_def)
  ultimately have "idlePhase c" unfolding idlePhase_def c(2) c(4) by blast
  moreover have "jobStep (pSort p) (pMap p) (pReduce p) (pFs p) j (j\<lparr>coord := c\<rparr>)" using m(1) free c(1) by (intro jobStep.timeout) simp_all
  ultimately show ?thesis using c by (intro exI[of _ "j\<lparr>coord := c\<rparr>"]) (auto simp: remaining_def)
qed auto

section \<open>The job can finish\<close>

lemma task_done:
  assumes good: "goodJob p j" and w: "atTask (workers j w) = Some t"
  shows "\<exists>j'. steps p j j' \<and> (remaining (coord j'), remaining (coord j)) \<in> less_than <*lex*> less_than"
proof -
  obtain j1 rq where j1: "steps p j j1" "coord j1 = coord j" "workers j1 w = Reporting rq" using worker_reports[OF good w] by blast
  obtain c where c: "CompleteTask (coord j1) rq = Ret c" "(remaining c, remaining (coord j1)) \<in> less_than <*lex*> less_than"
    using report_returns[OF good_steps[OF j1(1) good] j1(3)] by blast
  have "steps p j (setWorker (j1\<lparr>coord := c\<rparr>) w Asking)" using j1(1) jobStep.report[where w = w, OF j1(3) c(1)] by (rule rtranclp.rtrancl_into_rtrancl)
  then show ?thesis using c(2) j1(2) by (auto simp: setWorker_def)
qed

lemma can_finish: "goodJob p j \<Longrightarrow> \<exists>j' c. steps p j j' \<and> Done (coord j') = Ret (c, True)"
proof (induction "remaining (coord j)" arbitrary: j rule: wf_induct_rule[OF wf_lex_prod[OF wf_less_than wf_less_than]])
  case 1
  note good = "1.prems"
  have ok: "coordInv (coord j)" using good by (simp add: goodJob_def jobInv_def)
  show ?case
  proof (cases "remaining (coord j) = (0, 0)")
    case True
    then have "Done (coord j) = Ret ((coord j)\<lparr>mutex := True\<rparr>, True)" using ok
      by (auto simp: Done_def remaining_def coordInv_def unfinished_def)
    then show ?thesis by blast
  next
    case False
    obtain j1 w t where j1: "steps p j j1" "remaining (coord j1) = remaining (coord j)" "atTask (workers j1 w) = Some t"
    proof (cases "\<forall>w. atTask (workers j w) = None")
      case True
      obtain j0 where j0: "steps p j j0" "remaining (coord j0) = remaining (coord j)" "idlePhase (coord j0)"
        using free_task[OF good True False] by blast
      then show thesis using take_task[OF good_steps[OF j0(1) good] j0(3)] that by (metis rtranclp_trans)
    next
      case busy: False
      then show thesis using that[of j] by auto
    qed
    obtain j2 where j2: "steps p j1 j2" "(remaining (coord j2), remaining (coord j1)) \<in> less_than <*lex*> less_than"
      using task_done[OF good_steps[OF j1(1) good] j1(3)] by blast
    have "goodJob p j2" using good_steps[OF j2(1)] good_steps[OF j1(1) good] by blast
    then obtain j' c where "steps p j2 j'" "Done (coord j') = Ret (c, True)" using "1.hyps"[of j2] j2(2) j1(2) by auto
    then show ?thesis using j1(1) j2(1) by (meson rtranclp_trans)
  qed
qed

text \<open>C12. A MapReduce job can always finish: in every reachable job, whichever workers have crashed in the middle of a task and whichever
  calls were lost, there are steps of workers and timers after which \<^const>\<open>Done\<close> answers true.  No task is lost, no report makes the
  coordinator panic and no reduce task waits for ever.\<close>

theorem job_can_finish:
  assumes reach: "jobReachable sortf mapf reducef fs files n j" and sort: "go_sort sortf"
    and ok: "\<forall>f \<in> set files. fs f \<noteq> None" "files \<noteq> []" "0 < n"
  shows "\<exists>j' c. (jobStep sortf mapf reducef fs)\<^sup>*\<^sup>* j j' \<and> Done (coord j') = Ret (c, True)"
proof -
  let ?p = "\<lparr>pSort = sortf, pMap = mapf, pReduce = reducef, pFs = fs, pFiles = files, pN = n\<rparr>"
  have good: "goodParams ?p" using sort ok by (simp add: goodParams_def)
  from reach have "goodJob ?p j"
  proof induction
    case start
    show ?case using job_start_inv[OF good] good live_start by (simp add: goodJob_def)
  next
    case (step j j')
    then show ?case using good_steps[of ?p j j'] by auto
  qed
  from can_finish[OF this] show ?thesis by simp
qed

text \<open>A job whose only worker so far has crashed with a map task.\<close>

definition crashedJob :: "job option" where
  "crashedJob = map_option (\<lambda>j. setWorker j 0 Ended) (runJob (sort_key Key) demoMap demoReduce demoFiles [0] (startJob [''f'', ''g''] 2))"

lemma crashedJob_waits:
  "case crashedJob of None \<Rightarrow> False | Some j \<Rightarrow> workers j 0 = Ended \<and> taskState (mapTaskQueue (coord j) ! 0) = WORK"
  by code_simp

theorem job_can_finish_witness:
  "\<exists>j j' c. crashedJob = Some j \<and> taskState (mapTaskQueue (coord j) ! 0) = WORK \<and>
     (jobStep (sort_key Key) demoMap demoReduce demoFiles)\<^sup>*\<^sup>* j j' \<and> Done (coord j') = Ret (c, True)"
proof -
  obtain j where j: "crashedJob = Some j" "taskState (mapTaskQueue (coord j) ! 0) = WORK"
    using crashedJob_waits by (auto split: option.splits)
  then obtain i where i: "runJob (sort_key Key) demoMap demoReduce demoFiles [0] (startJob [''f'', ''g''] 2) = Some i" "j = setWorker i 0 Ended"
    unfolding crashedJob_def by blast
  have "jobReachable (sort_key Key) demoMap demoReduce demoFiles [''f'', ''g''] 2 i" using i(1) by (rule runJob_reachable[OF _ jobReachable.start])
  then have r: "jobReachable (sort_key Key) demoMap demoReduce demoFiles [''f'', ''g''] 2 j"
    unfolding i(2) by (rule jobReachable.step) (rule jobStep.crash)
  have "[''f'', ''g''] \<noteq> []" "(0::nat) < 2" by simp_all
  then show ?thesis using job_can_finish[OF r byKey.go_sort_axioms demo_ok(2)] j by blast
qed

end
