(* ===== verification/MrApps.thy ===== *)
theory MrApps
  imports MrJobProps Decimal
begin

text \<open>
  The MapReduce applications of \<^verbatim>\<open>src/mrapps\<close>: word count, the inverted index, the early-exit test
  and the crash test (whose crashes and delays belong to the run, not to the result; an
  application that crashes is a map or reduce task that is run again).  A text is read rune by rune; which runes beyond
  Latin-1 are letters is a parameter, the table \<^verbatim>\<open>unicode.Letter\<close> of Go's library.
\<close>

section \<open>Library functions\<close>

text \<open>\<^verbatim>\<open>unicode.IsLetter\<close>.\<close>

definition isLetter :: "(int \<Rightarrow> bool) \<Rightarrow> int \<Rightarrow> bool" where
  "isLetter letters r =
     (if r \<le> 255
      then 65 \<le> r \<and> r \<le> 90 \<or> 97 \<le> r \<and> r \<le> 122 \<or> r = 170 \<or> r = 181 \<or> r = 186 \<or> 192 \<le> r \<and> r \<noteq> 215 \<and> r \<noteq> 247
      else letters r)"

text \<open>The maximal runs of elements that do not satisfy the predicate.\<close>

function runsOf :: "('a \<Rightarrow> bool) \<Rightarrow> 'a list \<Rightarrow> 'a list list" where
  "runsOf sep s =
     (let s = dropWhile sep s
      in if s = [] then [] else takeWhile (\<lambda>c. \<not> sep c) s # runsOf sep (dropWhile (\<lambda>c. \<not> sep c) s))"
  by pat_completeness auto
termination
proof (relation "measure (\<lambda>(sep, s). length s)")
  fix sep :: "'a \<Rightarrow> bool" and s x :: "'a list"
  assume x: "x = dropWhile sep s" and ne: "x \<noteq> []"
  have "\<not> sep (hd x)" using x ne hd_dropWhile by blast
  then have "length (dropWhile (\<lambda>c. \<not> sep c) x) < length x"
    using ne by (cases x) (auto simp: le_imp_less_Suc length_dropWhile_le)
  also have "length x \<le> length s" unfolding x by (rule length_dropWhile_le)
  finally show "((sep, dropWhile (\<lambda>c. \<not> sep c) x), (sep, s)) \<in> measure (\<lambda>(sep, s). length s)" by simp
qed simp

declare runsOf.simps [simp del]

text \<open>\<^verbatim>\<open>strings.FieldsFunc\<close>: the bytes of the maximal runs of runes that do not satisfy the predicate.\<close>

definition fieldsFunc :: "(int \<Rightarrow> bool) \<Rightarrow> string \<Rightarrow> string list" where
  "fieldsFunc f s = map (\<lambda>run. concat (map snd run)) (runsOf (\<lambda>x. f (fst x)) (runes s))"

text \<open>\<^verbatim>\<open>strings.Join\<close>.\<close>

fun joinStrings :: "string list \<Rightarrow> string \<Rightarrow> string" where
  "joinStrings [] sep = []"
| "joinStrings [x] sep = x"
| "joinStrings (x # y # ys) sep = x @ sep @ joinStrings (y # ys) sep"

section \<open>Word count\<close>

definition wcMap :: "(int \<Rightarrow> bool) \<Rightarrow> string \<Rightarrow> string \<Rightarrow> KeyValue list" where
  "wcMap letters filename contents = map (\<lambda>w. \<lparr>Key = w, Value = ''1''\<rparr>) (fieldsFunc (\<lambda>r. \<not> isLetter letters r) contents)"

definition wcReduce :: "string \<Rightarrow> string list \<Rightarrow> string" where
  "wcReduce key values = itoa (length values)"

section \<open>Indexer\<close>

text \<open>The words of a document without repetition; Go iterates over its map in any order.\<close>

definition indexerMap :: "(int \<Rightarrow> bool) \<Rightarrow> string \<Rightarrow> string \<Rightarrow> KeyValue list" where
  "indexerMap letters document value =
     map (\<lambda>w. \<lparr>Key = w, Value = document\<rparr>) (remdups (fieldsFunc (\<lambda>x. \<not> isLetter letters x) value))"

definition indexerReduce :: "string \<Rightarrow> string list \<Rightarrow> string" where
  "indexerReduce key values = itoa (length values) @ '' '' @ joinStrings (sort values) '',''"

section \<open>Tests\<close>

definition crashMap :: "string \<Rightarrow> string \<Rightarrow> KeyValue list" where
  "crashMap filename contents =
     [\<lparr>Key = ''a'', Value = filename\<rparr>, \<lparr>Key = ''b'', Value = itoa (length filename)\<rparr>,
      \<lparr>Key = ''c'', Value = itoa (length contents)\<rparr>, \<lparr>Key = ''d'', Value = ''xyzzy''\<rparr>]"

definition crashReduce :: "string \<Rightarrow> string list \<Rightarrow> string" where
  "crashReduce key values = joinStrings (sort values) '' ''"

definition nocrashMap :: "string \<Rightarrow> string \<Rightarrow> KeyValue list" where
  "nocrashMap filename contents =
     [\<lparr>Key = ''a'', Value = filename\<rparr>, \<lparr>Key = ''b'', Value = itoa (length filename)\<rparr>,
      \<lparr>Key = ''c'', Value = itoa (length contents)\<rparr>, \<lparr>Key = ''d'', Value = ''xyzzy''\<rparr>]"

definition nocrashReduce :: "string \<Rightarrow> string list \<Rightarrow> string" where
  "nocrashReduce key values = joinStrings (sort values) '' ''"

definition earlyExitMap :: "string \<Rightarrow> string \<Rightarrow> KeyValue list" where
  "earlyExitMap filename contents = [\<lparr>Key = filename, Value = ''1''\<rparr>]"

definition earlyExitReduce :: "string \<Rightarrow> string list \<Rightarrow> string" where
  "earlyExitReduce key values = itoa (length values)"

definition mtimingReduce :: "string \<Rightarrow> string list \<Rightarrow> string" where
  "mtimingReduce key values = joinStrings (sort values) '' ''"

definition rtimingMap :: "string \<Rightarrow> string \<Rightarrow> KeyValue list" where
  "rtimingMap filename contents =
     map (\<lambda>k. \<lparr>Key = [k], Value = ''1''\<rparr>) ''abcdefghij''"

section \<open>All of them can be distributed\<close>

lemma length_order_free: "mset vs = mset vs' \<Longrightarrow> length vs = length vs'"
  by (rule mset_eq_length)

interpretation wc: mr_app "wcMap letters" wcReduce for letters
  by unfold_locales (metis wcReduce_def length_order_free)

interpretation indexer: mr_app "indexerMap letters" indexerReduce for letters
  by unfold_locales (metis indexerReduce_def length_order_free sort_order_free)

interpretation crash: mr_app crashMap crashReduce
  by unfold_locales (metis crashReduce_def sort_order_free)

interpretation nocrash: mr_app nocrashMap nocrashReduce
  by unfold_locales (metis nocrashReduce_def sort_order_free)

interpretation earlyExit: mr_app earlyExitMap earlyExitReduce
  by unfold_locales (metis earlyExitReduce_def length_order_free)

section \<open>Runs and where they are\<close>

text \<open>The places of the maximal runs of elements that satisfy a predicate.\<close>

definition isSpan :: "('a \<Rightarrow> bool) \<Rightarrow> 'a list \<Rightarrow> nat \<Rightarrow> nat \<Rightarrow> bool" where
  "isSpan P xs i j \<longleftrightarrow> i < j \<and> j \<le> length xs \<and> (\<forall>k. i \<le> k \<and> k < j \<longrightarrow> P (xs ! k)) \<and>
     (i = 0 \<or> \<not> P (xs ! (i - 1))) \<and> (j = length xs \<or> \<not> P (xs ! j))"

definition slice :: "'a list \<Rightarrow> nat \<Rightarrow> nat \<Rightarrow> 'a list" where
  "slice xs i j = take (j - i) (drop i xs)"

text \<open>The first run and the rest.\<close>

lemma isSpan_first:
  assumes a: "\<forall>x \<in> set a. \<not> P x" and b: "\<forall>x \<in> set b. P x" "b \<noteq> []" and c: "c = [] \<or> \<not> P (hd c)"
    and s: "isSpan P (a @ b @ c) i j" and i: "i < length a + length b"
  shows "i = length a \<and> j = length a + length b"
proof -
  let ?xs = "a @ b @ c" and ?o = "length a + length b"
  have ij: "i < j" "j \<le> length ?xs" "\<And>k. i \<le> k \<Longrightarrow> k < j \<Longrightarrow> P (?xs ! k)" "i = 0 \<or> \<not> P (?xs ! (i - 1))" "j = length ?xs \<or> \<not> P (?xs ! j)"
    using s by (auto simp: isSpan_def)
  have inA: "\<not> P (?xs ! k)" if "k < length a" for k using a that by (simp add: nth_append)
  have inB: "P (?xs ! k)" if "length a \<le> k" "k < ?o" for k using b(1) that by (simp add: nth_append)
  have "P (?xs ! i)" using ij(3)[of i] ij(1) by simp
  then have "length a \<le> i" using inA[of i] by (meson leI)
  moreover have "\<not> length a < i"
  proof
    assume "length a < i"
    then have "P (?xs ! (i - 1))" "i \<noteq> 0" using inB[of "i - 1"] i by auto
    then show False using ij(4) by simp
  qed
  ultimately have ia: "i = length a" by simp
  have "j \<le> ?o"
  proof (rule ccontr)
    assume "\<not> j \<le> ?o"
    then have "P (?xs ! ?o)" "c \<noteq> []" using ij(3)[of ?o] ij(2) i by auto
    then show False using c by (simp add: nth_append hd_conv_nth)
  qed
  moreover have "\<not> j < ?o" using inB[of j] ij(1,5) ia by auto
  ultimately show ?thesis using ia by simp
qed

lemma isSpan_rest: "isSpan P (d @ c) (length d + i) (length d + j) \<longleftrightarrow> isSpan P c i j" if "d = [] \<or> P (last d)" "c = [] \<or> \<not> P (hd c)"
proof -
  have nth: "(d @ c) ! (length d + k) = c ! k" for k by (simp add: nth_append)
  have mid: "(\<forall>k. length d + i \<le> k \<and> k < length d + j \<longrightarrow> P ((d @ c) ! k)) \<longleftrightarrow> (\<forall>k. i \<le> k \<and> k < j \<longrightarrow> P (c ! k))"
  proof
    assume h: "\<forall>k. length d + i \<le> k \<and> k < length d + j \<longrightarrow> P ((d @ c) ! k)"
    show "\<forall>k. i \<le> k \<and> k < j \<longrightarrow> P (c ! k)" using h[rule_format, of "length d + k" for k] nth by auto
  next
    assume h: "\<forall>k. i \<le> k \<and> k < j \<longrightarrow> P (c ! k)"
    show "\<forall>k. length d + i \<le> k \<and> k < length d + j \<longrightarrow> P ((d @ c) ! k)"
    proof (intro allI impI)
      fix k assume k: "length d + i \<le> k \<and> k < length d + j"
      then have "i \<le> k - length d" "k - length d < j" "length d \<le> k" by auto
      then show "P ((d @ c) ! k)" using h[rule_format, of "k - length d"] by (simp add: nth_append)
    qed
  qed
  show ?thesis
  proof (cases "i = 0")
    case True
    have "\<not> (isSpan P (d @ c) (length d + i) (length d + j))" if "c \<noteq> []" "\<not> P (hd c)"
      using that True nth[of 0] by (auto simp: isSpan_def hd_conv_nth)
    moreover have "\<not> isSpan P c i j" if "c \<noteq> []" "\<not> P (hd c)" using that True by (auto simp: isSpan_def hd_conv_nth)
    moreover have "\<not> isSpan P (d @ c) (length d + i) (length d + j)" "\<not> isSpan P c i j" if "c = []" using that by (auto simp: isSpan_def)
    ultimately show ?thesis using \<open>c = [] \<or> \<not> P (hd c)\<close> by blast
  next
    case False
    then have "(d @ c) ! (length d + i - 1) = c ! (i - 1)" using nth[of "i - 1"] by simp
    then show ?thesis using False mid nth[of j] by (simp add: isSpan_def)
  qed
qed

lemma isSpan_append:
  assumes a: "\<forall>x \<in> set a. \<not> P x" and b: "\<forall>x \<in> set b. P x" "b \<noteq> []" and c: "c = [] \<or> \<not> P (hd c)"
  shows "{(i, j). isSpan P (a @ b @ c) i j} =
    insert (length a, length a + length b) ((\<lambda>(i, j). (length a + length b + i, length a + length b + j)) ` {(i, j). isSpan P c i j})"
    (is "?L = insert ?x (?f ` ?R)")
proof -
  let ?d = "a @ b"
  have d: "?d = [] \<or> P (last ?d)" using b by simp
  note rest = isSpan_rest[OF d c, unfolded append_assoc length_append]
  have first: "isSpan P (a @ b @ c) (length a) (length a + length b)"
  proof -
    have "\<not> P ((a @ b @ c) ! (length a - 1))" if "a \<noteq> []" using a that by (simp add: nth_append)
    moreover have "\<not> P ((a @ b @ c) ! (length a + length b))" if "c \<noteq> []" using c that by (simp add: nth_append hd_conv_nth)
    moreover have "P ((a @ b @ c) ! k)" if "length a \<le> k" "k < length a + length b" for k using b(1) that by (simp add: nth_append)
    ultimately show ?thesis using b(2) by (auto simp: isSpan_def)
  qed
  show ?thesis
  proof (intro set_eqI iffI)
    fix x assume x: "x \<in> ?L"
    obtain i j where ij: "x = (i, j)" by (cases x)
    show "x \<in> insert ?x (?f ` ?R)"
    proof (cases "i < length a + length b")
      case True
      then show ?thesis using isSpan_first[OF a b c] x ij by auto
    next
      case False
      let ?i = "i - (length a + length b)" and ?j = "j - (length a + length b)"
      have s: "isSpan P (a @ b @ c) i j" using x ij by simp
      then have e: "i = length a + length b + ?i" "j = length a + length b + ?j" using False by (auto simp: isSpan_def)
      then have "isSpan P c ?i ?j" using s rest[of ?i ?j] by simp
      then have "?f (?i, ?j) \<in> ?f ` ?R" by (intro imageI) simp
      then show ?thesis using ij e by simp
    qed
  qed (use first rest in auto)
qed

text \<open>The runs are the slices at those places, each once.\<close>

lemma runs_spans: "\<exists>sp. distinct sp \<and> set sp = {(i, j). isSpan P xs i j} \<and> map (\<lambda>(i, j). slice xs i j) sp = runsOf (\<lambda>x. \<not> P x) xs"
proof (induction "length xs" arbitrary: xs rule: less_induct)
  case less
  let ?a = "takeWhile (\<lambda>x. \<not> P x) xs" and ?s = "dropWhile (\<lambda>x. \<not> P x) xs"
  show ?case
  proof (cases "?s = []")
    case True
    then have "\<not> isSpan P xs i j" for i j by (auto simp: isSpan_def)
    moreover have "runsOf (\<lambda>x. \<not> P x) xs = []" using True by (subst runsOf.simps) simp
    ultimately show ?thesis by (intro exI[of _ "[]"]) simp
  next
    case False
    define a b c where abc: "a = ?a" "b = takeWhile P ?s" "c = dropWhile P ?s"
    let ?o = "length a + length b"
    have xs: "xs = a @ b @ c" by (simp add: abc)
    have b: "b \<noteq> []" using hd_dropWhile[OF False] False unfolding abc by (cases ?s) auto
    have sep: "\<forall>x \<in> set a. \<not> P x" "\<forall>x \<in> set b. P x" unfolding abc by (auto dest: set_takeWhileD)
    have c: "c = [] \<or> \<not> P (hd c)" unfolding abc using hd_dropWhile by blast
    have run: "runsOf (\<lambda>x. \<not> P x) xs = b # runsOf (\<lambda>x. \<not> P x) c" using False unfolding abc by (subst runsOf.simps) (simp add: Let_def)
    have "length c < length xs" using b by (simp add: xs)
    then obtain sp where sp: "distinct sp" "set sp = {(i, j). isSpan P c i j}" "map (\<lambda>(i, j). slice c i j) sp = runsOf (\<lambda>x. \<not> P x) c"
      using less by blast
    let ?sp = "(length a, ?o) # map (\<lambda>(i, j). (?o + i, ?o + j)) sp"
    have "set ?sp = {(i, j). isSpan P xs i j}" unfolding xs isSpan_append[OF sep b c] by (simp add: sp(2))
    moreover have "distinct ?sp" using sp(1) b by (auto simp: distinct_map inj_on_def)
    moreover have "map (\<lambda>(i, j). slice xs i j) ?sp = runsOf (\<lambda>x. \<not> P x) xs"
      unfolding run sp(3)[symmetric] by (simp add: xs slice_def o_def split_def)
    ultimately show ?thesis by blast
  qed
qed

section \<open>Word count counts words\<close>

text \<open>A word of a text: a longest stretch of letters, as the bytes it consists of.\<close>

definition wordAt :: "(int \<Rightarrow> bool) \<Rightarrow> string \<Rightarrow> nat \<Rightarrow> nat \<Rightarrow> string \<Rightarrow> bool" where
  "wordAt letters text i j w \<longleftrightarrow>
     isSpan (\<lambda>x. isLetter letters (fst x)) (runes text) i j \<and> concat (map snd (slice (runes text) i j)) = w"

text \<open>The places of a word in the input files.\<close>

definition occurrences :: "(int \<Rightarrow> bool) \<Rightarrow> (string \<Rightarrow> string option) \<Rightarrow> string list \<Rightarrow> string \<Rightarrow> (nat \<times> nat \<times> nat) set" where
  "occurrences letters fs files w =
     {(k, i, j). k < length files \<and> wordAt letters (the (fs (files ! k))) i j w}"

lemma count_map_distinct: "distinct sp \<Longrightarrow> count_list (map f sp) w = card {x \<in> set sp. f x = w}"
proof (induction sp)
  case (Cons x sp)
  then have "{y \<in> set (x # sp). f y = w} = (if f x = w then insert x {y \<in> set sp. f y = w} else {y \<in> set sp. f y = w})" by auto
  then show ?case using Cons by auto
qed simp

lemma fieldsFunc_count:
  "count_list (fieldsFunc (\<lambda>r. \<not> isLetter letters r) s) w = card {(i, j). wordAt letters s i j w}"
  "finite {(i, j). wordAt letters s i j w}"
proof -
  obtain sp where sp: "distinct sp" "set sp = {(i, j). isSpan (\<lambda>x. isLetter letters (fst x)) (runes s) i j}"
    "map (\<lambda>(i, j). slice (runes s) i j) sp = runsOf (\<lambda>x. \<not> isLetter letters (fst x)) (runes s)"
    using runs_spans by blast
  let ?f = "\<lambda>(i, j). concat (map snd (slice (runes s) i j))"
  have "fieldsFunc (\<lambda>r. \<not> isLetter letters r) s = map ?f sp"
    unfolding fieldsFunc_def sp(3)[symmetric] by (simp add: o_def split_def)
  moreover have "{x \<in> set sp. ?f x = w} = {(i, j). wordAt letters s i j w}" unfolding sp(2) by (auto simp: wordAt_def)
  ultimately show "count_list (fieldsFunc (\<lambda>r. \<not> isLetter letters r) s) w = card {(i, j). wordAt letters s i j w}"
    "finite {(i, j). wordAt letters s i j w}"
    using count_map_distinct[OF sp(1), of ?f w] finite_subset[of "{x \<in> set sp. ?f x = w}" "set sp"] by auto
qed

lemma occurrences_Nil: "occurrences letters fs [] w = {}"
  by (simp add: occurrences_def)

lemma occurrences_Cons:
  "occurrences letters fs (f # files) w =
    Pair 0 ` {(i, j). wordAt letters (the (fs f)) i j w} \<union> (\<lambda>(k, x). (Suc k, x)) ` occurrences letters fs files w"
proof (intro set_eqI iffI)
  fix x assume x: "x \<in> occurrences letters fs (f # files) w"
  obtain k i j where kij: "x = (k, i, j)" by (cases x)
  show "x \<in> Pair 0 ` {(i, j). wordAt letters (the (fs f)) i j w} \<union> (\<lambda>(k, x). (Suc k, x)) ` occurrences letters fs files w"
  proof (cases k)
    case (Suc l)
    then have "(l, i, j) \<in> occurrences letters fs files w" using x kij by (simp add: occurrences_def)
    then show ?thesis using kij Suc by force
  qed (use x kij in \<open>auto simp: occurrences_def\<close>)
qed (auto simp: occurrences_def)

lemma words_count:
  "finite (occurrences letters fs files w) \<and>
   count_list (concat (map (\<lambda>f. fieldsFunc (\<lambda>r. \<not> isLetter letters r) (the (fs f))) files)) w = card (occurrences letters fs files w)"
proof (induction files)
  case (Cons f files)
  let ?A = "{(i, j). wordAt letters (the (fs f)) i j w}" and ?B = "occurrences letters fs files w"
  have "card (Pair (0::nat) ` ?A \<union> (\<lambda>(k, x). (Suc k, x)) ` ?B) = card (Pair (0::nat) ` ?A) + card ((\<lambda>(k, x). (Suc k, x)) ` ?B)"
    using Cons fieldsFunc_count(2)[of letters "the (fs f)" w] by (intro card_Un_disjoint) auto
  also have "\<dots> = card ?A + card ?B" by (intro arg_cong2[where f = "(+)"] card_image) (auto simp: inj_on_def)
  finally show ?case using Cons fieldsFunc_count[of letters "the (fs f)" w] by (simp add: occurrences_Cons)
qed (simp add: occurrences_Nil)

lemma words_set:
  "w \<in> set (concat (map (\<lambda>f. fieldsFunc (\<lambda>r. \<not> isLetter letters r) (the (fs f))) files)) \<longleftrightarrow> occurrences letters fs files w \<noteq> {}"
  using words_count[of letters fs files w] count_list_0_iff card_0_eq by metis

text \<open>The words are valid strings without spaces, because neither the space nor the rune of a bad byte is a letter.\<close>

lemma word_runes:
  assumes "w \<in> set (fieldsFunc (\<lambda>r. \<not> isLetter letters r) s)" "\<not> letters RuneError"
  obtains xs where "w = concat (map snd xs)" "list_all isRune xs" "list_all (\<lambda>x. \<not> invalidRune x) xs" "list_all (\<lambda>x. isLetter letters (fst x)) xs"
proof -
  have "count_list (fieldsFunc (\<lambda>r. \<not> isLetter letters r) s) w \<noteq> 0" using assms(1) count_list_0_iff by metis
  then obtain i j where "wordAt letters s i j w" using fieldsFunc_count[of letters s w] by fastforce
  then have ij: "isSpan (\<lambda>x. isLetter letters (fst x)) (runes s) i j" "concat (map snd (slice (runes s) i j)) = w"
    by (auto simp: wordAt_def)
  let ?xs = "slice (runes s) i j"
  have ltr: "isLetter letters (fst x)" if x: "x \<in> set ?xs" for x
  proof -
    obtain k where k: "k < length ?xs" "x = ?xs ! k" using x by (metis in_set_conv_nth)
    then have "x = runes s ! (i + k)" "i + k < j" by (auto simp: slice_def)
    then show ?thesis using ij(1) by (auto simp: isSpan_def)
  qed
  have sub: "set ?xs \<subseteq> set (runes s)" unfolding slice_def by (meson set_drop_subset set_take_subset subset_trans)
  have good: "\<not> invalidRune x" if "x \<in> set ?xs" for x
    using ltr[OF that] assms(2) by (auto simp: invalidRune_def isLetter_def RuneError_def)
  then have "isRune x" if "x \<in> set ?xs" for x using that sub runes_isRune by blast
  then show thesis using ij(2) ltr good by (intro that[of ?xs]) (auto simp: list_all_iff)
qed

lemma word_valid: "w \<in> set (fieldsFunc (\<lambda>r. \<not> isLetter letters r) s) \<Longrightarrow> \<not> letters RuneError \<Longrightarrow> validUTF8 w"
  by (erule word_runes) (auto intro: runes_valid)

lemma word_no_space: "w \<in> set (fieldsFunc (\<lambda>r. \<not> isLetter letters r) s) \<Longrightarrow> \<not> letters RuneError \<Longrightarrow> CHR '' '' \<notin> set w"
proof
  assume w: "w \<in> set (fieldsFunc (\<lambda>r. \<not> isLetter letters r) s)" "\<not> letters RuneError" "CHR '' '' \<in> set w"
  obtain xs where xs: "w = concat (map snd xs)" "list_all isRune xs" "list_all (\<lambda>x. \<not> invalidRune x) xs" "list_all (\<lambda>x. isLetter letters (fst x)) xs"
    using word_runes[OF w(1,2)] by blast
  then obtain x where x: "x \<in> set xs" "CHR '' '' \<in> set (snd x)" using w(3) by auto
  then have "fst x = of_char CHR '' ''" using xs(2,3) by (intro isRune_ascii) (auto simp: list_all_iff)
  then show False using xs(4) x(1) by (auto simp: list_all_iff isLetter_def)
qed

lemma image_Collect_eq: "f ` A = {f x | x. x \<in> A}"
  by auto

text \<open>Two words do not have the same line, because a word has no space in it.\<close>

lemma line_inj:
  assumes "\<forall>w \<in> W. CHR '' '' \<notin> set w"
  shows "inj_on (\<lambda>w. w @ '' '' @ g w) W"
proof
  fix v w assume vw: "v \<in> W" "w \<in> W" "v @ '' '' @ g v = w @ '' '' @ g w"
  have "takeWhile (\<lambda>c. c \<noteq> CHR '' '') (u @ '' '' @ g u) = u" if u: "u \<in> W" for u
    using assms u by (subst takeWhile_append2) auto
  then show "v = w" using vw by metis
qed


text \<open>One worker, on a text with a letter of two bytes and a bad byte.\<close>

definition wcText :: string where
  "wcText = ''ca'' @ map (char_of :: nat \<Rightarrow> char) [195, 169] @ '' b'' @ [char_of (255 :: nat)] @ ''b ''"

definition wcJob :: "job option" where
  "wcJob = runJob (sort_key Key) (wcMap (\<lambda>_. False)) wcReduce [''f'' \<mapsto> wcText] (replicate 11 0) (startJob [''f''] 1)"

lemma wcJob_finishes:
  "case wcJob of
     None \<Rightarrow> False
   | Some j \<Rightarrow> (case Done (coord j) of Ret (c, b) \<Rightarrow> b | _ \<Rightarrow> False) \<and>
       outFile j 0 = [''b 2'' @ [CHR 10], ''ca'' @ map (char_of :: nat \<Rightarrow> char) [195, 169] @ '' 1'' @ [CHR 10]]"
  by code_simp


end
