(* ===== verification/MrProbe.thy ===== *)
theory MrProbe
  imports MrApps
begin

text \<open>
  The MapReduce applications that probe processes and files: \<^verbatim>\<open>mtiming.go\<close> and \<^verbatim>\<open>rtiming.go\<close> count the workers that run at the same
  time, \<^verbatim>\<open>jobcount.go\<close> counts the calls of its Map.  The working directory is the list of the names in it; which processes are alive
  is an argument; the time, as text, is an argument too.  Sleeping and closing the directory are left out.
\<close>

section \<open>Files\<close>

text \<open>\<^verbatim>\<open>ioutil.WriteFile\<close> and \<^verbatim>\<open>os.Remove\<close>; removing a file that is not there is an error.\<close>

definition writeFile :: "string \<Rightarrow> string list \<Rightarrow> string list" where
  "writeFile f dir = (if f \<in> set dir then dir else dir @ [f])"

definition removeFile :: "string \<Rightarrow> string list \<Rightarrow> string list option" where
  "removeFile f dir = (if f \<in> set dir then Some (filter (\<lambda>g. g \<noteq> f) dir) else None)"

text \<open>What \<^verbatim>\<open>%d\<close> of \<^verbatim>\<open>fmt.Sscanf\<close> reads: blanks, a sign and digits, of which there must be one; the number must fit into 64 bits.
  What follows is left.\<close>

definition isBlank :: "char \<Rightarrow> bool" where
  "isBlank c \<longleftrightarrow> c \<in> {CHR '' '', CHR 9, CHR 11, CHR 12, CHR 13}"

definition scanInt :: "string \<Rightarrow> int option" where
  "scanInt s =
     (let s = dropWhile isBlank s;
          neg = (s \<noteq> [] \<and> hd s = CHR ''-'');
          ds = takeWhile isDigit (if s \<noteq> [] \<and> (hd s = CHR ''-'' \<or> hd s = CHR ''+'') then tl s else s);
          v = (if neg then - decimalValue ds else decimalValue ds)
      in if ds \<noteq> [] \<and> - (2 ^ 63) \<le> v \<and> v < 2 ^ 63 then Some v else None)"

definition workerPrefix :: "string \<Rightarrow> string" where
  "workerPrefix phase = ''mr-worker-'' @ phase @ ''-''"

definition scanName :: "string \<Rightarrow> string \<Rightarrow> int option" where
  "scanName phase name =
     (let p = workerPrefix phase in if take (length p) name = p then scanInt (drop (length p) name) else None)"

section \<open>mtiming and rtiming\<close>

definition workerFile :: "string \<Rightarrow> nat \<Rightarrow> string" where
  "workerFile phase pid = workerPrefix phase @ itoa pid"

text \<open>\<^verbatim>\<open>nparallel\<close> up to its sleep, and after it.  An empty directory would be an error, but the worker's own file is in it.\<close>

definition nparallelBegin :: "(int \<Rightarrow> bool) \<Rightarrow> string \<Rightarrow> nat \<Rightarrow> string list \<Rightarrow> string list \<times> nat" where
  "nparallelBegin alive phase pid dir =
     (let dir = writeFile (workerFile phase pid) dir;
          names = take 1000000 dir
      in (dir, length (filter (\<lambda>name. case scanName phase name of Some xpid \<Rightarrow> alive xpid | None \<Rightarrow> False) names)))"

definition nparallelEnd :: "string \<Rightarrow> nat \<Rightarrow> string list \<Rightarrow> string list option" where
  "nparallelEnd phase pid dir = removeFile (workerFile phase pid) dir"

text \<open>\<^verbatim>\<open>Map\<close> of mtiming and \<^verbatim>\<open>Reduce\<close> of rtiming, up to the sleep in \<^verbatim>\<open>nparallel\<close>: the directory and the answer.\<close>

definition mtimingMap :: "(int \<Rightarrow> bool) \<Rightarrow> string \<Rightarrow> nat \<Rightarrow> string list \<Rightarrow> string list \<times> KeyValue list" where
  "mtimingMap alive ts pid dir =
     (let (dir, n) = nparallelBegin alive ''map'' pid dir
      in (dir, [\<lparr>Key = ''times-'' @ itoa pid, Value = ts\<rparr>, \<lparr>Key = ''parallel-'' @ itoa pid, Value = itoa n\<rparr>]))"

definition rtimingReduce :: "(int \<Rightarrow> bool) \<Rightarrow> nat \<Rightarrow> string list \<Rightarrow> string list \<times> string" where
  "rtimingReduce alive pid dir = (let (dir, n) = nparallelBegin alive ''reduce'' pid dir in (dir, itoa n))"

section \<open>jobcount\<close>

definition jobcountFile :: "nat \<Rightarrow> nat \<Rightarrow> string" where
  "jobcountFile me cnt = ''mr-worker-jobcount-'' @ itoa me @ ''-'' @ itoa cnt"

text \<open>The state is the counter of the process and the directory.\<close>

definition jobcountMap :: "nat \<Rightarrow> nat \<times> string list \<Rightarrow> (nat \<times> string list) \<times> KeyValue list" where
  "jobcountMap me = (\<lambda>(cnt, dir). ((cnt + 1, writeFile (jobcountFile me cnt) dir), [\<lparr>Key = ''a'', Value = ''x''\<rparr>]))"

definition hasPrefix :: "string \<Rightarrow> string \<Rightarrow> bool" where
  "hasPrefix s p \<longleftrightarrow> take (length p) s = p"

definition jobcountReduce :: "string list \<Rightarrow> string" where
  "jobcountReduce dir = itoa (length (filter (\<lambda>f. hasPrefix f ''mr-worker-jobcount'') dir))"

section \<open>Names and numbers\<close>

definition phases :: "string set" where
  "phases = {''map'', ''reduce''}"

lemma takeWhile_digits: "takeWhile isDigit (itoa n) = itoa n"
  using itoa_digits[of n] by (simp add: takeWhile_eq_all_conv list_all_iff)

lemma scanInt_itoa:
  assumes "int n < 2 ^ 63"
  shows "scanInt (itoa n) = Some (int n)"
proof -
  obtain c s where s: "itoa n = c # s" using itoa_digits[of n] by (cases "itoa n") auto
  then have "isDigit c" using itoa_digits[of n] by simp
  then have "c \<noteq> CHR ''-''" "c \<noteq> CHR ''+''" "\<not> isBlank c" by (auto simp: isDigit_def isBlank_def)
  then show ?thesis using takeWhile_digits[of n] decimalValue_itoa[of n] assms s by (simp add: scanInt_def Let_def)
qed

lemma scanName_own: "int pid < 2 ^ 63 \<Longrightarrow> scanName phase (workerFile phase pid) = Some (int pid)"
  by (simp add: scanName_def workerFile_def scanInt_itoa)

lemma scanName_other:
  assumes "phase \<noteq> phase'" "phase \<in> phases" "phase' \<in> phases"
  shows "scanName phase (workerFile phase' pid) = None"
  using assms by (auto simp: phases_def scanName_def workerFile_def workerPrefix_def)

section \<open>The workers that run at the same time\<close>

text \<open>Processes with different numbers start, probe and end or die; a number is not used again.  A process that dies while it probes
  leaves its file behind.\<close>

record probes =
  pDir :: "string list"
  pAlive :: "nat set"
  pUsed :: "nat set"
  pRunning :: "nat \<rightharpoonup> string"

definition aliveIn :: "probes \<Rightarrow> int \<Rightarrow> bool" where
  "aliveIn s x \<longleftrightarrow> 0 \<le> x \<and> nat x \<in> pAlive s"

inductive probeStep :: "probes \<Rightarrow> probes \<Rightarrow> bool" where
  spawn: "\<lbrakk>pid \<notin> pUsed s; int pid < 2 ^ 63\<rbrakk> \<Longrightarrow> probeStep s (s\<lparr>pAlive := insert pid (pAlive s), pUsed := insert pid (pUsed s)\<rparr>)"
| enter: "\<lbrakk>pid \<in> pAlive s; pRunning s pid = None; phase \<in> phases\<rbrakk> \<Longrightarrow>
    probeStep s (s\<lparr>pDir := fst (nparallelBegin (aliveIn s) phase pid (pDir s)), pRunning := (pRunning s)(pid \<mapsto> phase)\<rparr>)"
| leave: "\<lbrakk>pid \<in> pAlive s; pRunning s pid = Some phase; nparallelEnd phase pid (pDir s) = Some dir\<rbrakk> \<Longrightarrow>
    probeStep s (s\<lparr>pDir := dir, pRunning := (pRunning s)(pid := None)\<rparr>)"
| die: "probeStep s (s\<lparr>pAlive := pAlive s - {pid}, pRunning := (pRunning s)(pid := None)\<rparr>)"

inductive probeReachable :: "string list \<Rightarrow> probes \<Rightarrow> bool" for others where
  start: "probeReachable others \<lparr>pDir = others, pAlive = {}, pUsed = {}, pRunning = Map.empty\<rparr>"
| step: "probeReachable others s \<Longrightarrow> probeStep s s' \<Longrightarrow> probeReachable others s'"

definition probeInv :: "string list \<Rightarrow> probes \<Rightarrow> bool" where
  "probeInv others s \<longleftrightarrow>
     distinct (pDir s) \<and> pAlive s \<subseteq> pUsed s \<and> (\<forall>pid \<in> pUsed s. int pid < 2 ^ 63) \<and>
     (\<forall>pid phase. pRunning s pid = Some phase \<longrightarrow> pid \<in> pAlive s \<and> phase \<in> phases) \<and>
     (\<forall>name \<in> set (pDir s). name \<in> set others \<or> (\<exists>pid \<in> pUsed s. \<exists>phase \<in> phases. name = workerFile phase pid)) \<and>
     (\<forall>pid \<in> pAlive s. \<forall>phase \<in> phases. workerFile phase pid \<in> set (pDir s) \<longleftrightarrow> pRunning s pid = Some phase)"

definition foreign :: "string list \<Rightarrow> bool" where
  "foreign others \<longleftrightarrow> distinct others \<and> (\<forall>name \<in> set others. \<forall>phase \<in> phases. scanName phase name = None)"

lemma workerFile_inj:
  assumes "phase \<in> phases" "phase' \<in> phases"
  shows "workerFile phase pid = workerFile phase' pid' \<longleftrightarrow> phase = phase' \<and> pid = pid'"
  using assms by (auto simp: phases_def workerFile_def workerPrefix_def itoa_inj)

lemma foreign_file:
  assumes "foreign others" "phase \<in> phases" "int pid < 2 ^ 63"
  shows "workerFile phase pid \<notin> set others"
  using assms scanName_own[OF assms(3), of phase] unfolding foreign_def by fastforce

lemma probeInv_file: "probeInv others s \<Longrightarrow> pid \<in> pAlive s \<Longrightarrow> phase \<in> phases \<Longrightarrow> workerFile phase pid \<in> set (pDir s) \<longleftrightarrow> pRunning s pid = Some phase"
  unfolding probeInv_def by blast

lemma probeInv_running: "probeInv others s \<Longrightarrow> pRunning s pid = Some phase \<Longrightarrow> pid \<in> pAlive s \<and> pid \<in> pUsed s \<and> phase \<in> phases"
  unfolding probeInv_def by blast

lemma probeInv_name:
  "probeInv others s \<Longrightarrow> name \<in> set (pDir s) \<Longrightarrow> name \<in> set others \<or> (\<exists>pid \<in> pUsed s. \<exists>phase \<in> phases. name = workerFile phase pid)"
  unfolding probeInv_def by blast

lemma probeInv_pid: "probeInv others s \<Longrightarrow> pid \<in> pUsed s \<Longrightarrow> int pid < 2 ^ 63" "probeInv others s \<Longrightarrow> pid \<in> pAlive s \<Longrightarrow> pid \<in> pUsed s"
  unfolding probeInv_def by blast+

text \<open>The files of the live processes follow what the processes do.\<close>

lemma probe_files:
  assumes inv: "probeInv others s" and dir: "distinct dir" "set dir = set (pDir s) \<union> {workerFile phase pid}" "run = (pRunning s)(pid \<mapsto> phase)" and p: "pid \<in> pAlive s" "pRunning s pid = None" "phase \<in> phases"
  shows "probeInv others (s\<lparr>pDir := dir, pRunning := run\<rparr>)"
proof -
  have "workerFile ph q \<in> set dir \<longleftrightarrow> run q = Some ph" if "q \<in> pAlive s" "ph \<in> phases" for q ph
    using probeInv_file[OF inv that] workerFile_inj[OF that(2) p(3)] p(2) by (auto simp: dir)
  moreover have "name \<in> set others \<or> (\<exists>pid \<in> pUsed s. \<exists>phase \<in> phases. name = workerFile phase pid)" if "name \<in> set dir" for name
    using probeInv_name[OF inv, of name] that p probeInv_pid(2)[OF inv p(1)] by (auto simp: dir)
  ultimately show ?thesis using inv p dir(1) by (simp add: probeInv_def dir(3))
qed

lemma probe_spawn:
  assumes f: "foreign others" and inv: "probeInv others s" and p: "pid \<notin> pUsed s" "int pid < 2 ^ 63"
  shows "probeInv others (s\<lparr>pAlive := insert pid (pAlive s), pUsed := insert pid (pUsed s)\<rparr>)"
proof -
  have "workerFile ph q \<in> set (pDir s) \<longleftrightarrow> pRunning s q = Some ph" if q: "q \<in> insert pid (pAlive s)" "ph \<in> phases" for q ph
  proof (cases "q = pid")
    case True
    have "workerFile ph pid \<notin> set (pDir s)"
    proof
      assume "workerFile ph pid \<in> set (pDir s)"
      then obtain q' ph' where "q' \<in> pUsed s" "ph' \<in> phases" "workerFile ph pid = workerFile ph' q'"
        using probeInv_name[OF inv] foreign_file[OF f q(2) p(2)] by blast
      then show False using workerFile_inj[OF q(2)] p(1) by simp
    qed
    then show ?thesis using True p(1) probeInv_running[OF inv] by auto
  qed (use probeInv_file[OF inv _ q(2)] q(1) in simp)
  then show ?thesis using inv p(2) unfolding probeInv_def by simp blast
qed

lemma probe_leave:
  assumes inv: "probeInv others s" and p: "pRunning s pid = Some phase"
  shows "probeInv others (s\<lparr>pDir := filter (\<lambda>g. g \<noteq> workerFile phase pid) (pDir s), pRunning := (pRunning s)(pid := None)\<rparr>)"
proof -
  have ph: "phase \<in> phases" using probeInv_running[OF inv p] by blast
  have "workerFile ph q \<in> set (filter (\<lambda>g. g \<noteq> workerFile phase pid) (pDir s)) \<longleftrightarrow> ((pRunning s)(pid := None)) q = Some ph"
    if "q \<in> pAlive s" "ph \<in> phases" for q ph
    using probeInv_file[OF inv that] workerFile_inj[OF that(2) ph] p by auto
  then show ?thesis using inv unfolding probeInv_def by simp
qed

lemma probe_keeps:
  assumes f: "foreign others" and inv: "probeInv others s" and "probeStep s s'"
  shows "probeInv others s'"
  using assms(3)
proof cases
  case (spawn pid)
  then show ?thesis using probe_spawn[OF f inv] by simp
next
  case (enter pid phase)
  have "workerFile phase pid \<notin> set (pDir s)" using probeInv_file[OF inv enter(2,4)] enter(3) by simp
  then have "fst (nparallelBegin (aliveIn s) phase pid (pDir s)) = pDir s @ [workerFile phase pid]" "distinct (pDir s @ [workerFile phase pid])"
    using inv by (simp_all add: nparallelBegin_def writeFile_def Let_def probeInv_def)
  then show ?thesis unfolding enter(1) using enter(2-4) by (intro probe_files[OF inv]) auto
next
  case (leave pid phase dir)
  then have "dir = filter (\<lambda>g. g \<noteq> workerFile phase pid) (pDir s)" by (simp add: nparallelEnd_def removeFile_def split: if_splits)
  then show ?thesis unfolding leave(1) using probe_leave[OF inv leave(3)] by simp
next
  case (die pid)
  then show ?thesis using inv unfolding probeInv_def by auto
qed

lemma probeReachable_inv: "probeReachable others s \<Longrightarrow> foreign others \<Longrightarrow> probeInv others s"
proof (induction rule: probeReachable.induct)
  case start
  then show ?case by (simp add: probeInv_def foreign_def)
qed (rule probe_keeps)

text \<open>The number a worker gets is that of the live workers in the same phase, itself among them: files left behind by dead workers and
  files of the other phase do not count.\<close>

lemma nparallel_counts:
  assumes reach: "probeReachable others s" and f: "foreign others"
    and p: "pid \<in> pAlive s" "pRunning s pid = None" "phase \<in> phases" and small: "length (pDir s) < 1000000"
  shows "snd (nparallelBegin (aliveIn s) phase pid (pDir s)) = card (insert pid {q. pRunning s q = Some phase})"
proof -
  let ?f = "workerFile phase pid" and ?P = "\<lambda>name. case scanName phase name of Some xpid \<Rightarrow> aliveIn s xpid | None \<Rightarrow> False"
  have inv: "probeInv others s" using probeReachable_inv[OF reach f] .
  have new: "?f \<notin> set (pDir s)" using probeInv_file[OF inv p(1,3)] p(2) by simp
  have iff: "?P name \<longleftrightarrow> (\<exists>q. pRunning s q = Some phase \<and> name = workerFile phase q)" if n: "name \<in> set (pDir s)" for name
  proof (cases "name \<in> set others")
    case True
    have "name \<noteq> workerFile phase q" if "pRunning s q = Some phase" for q
      using foreign_file[OF f p(3) probeInv_pid(1)[OF inv]] probeInv_running[OF inv that] True by blast
    moreover have "scanName phase name = None" using f p(3) True by (simp add: foreign_def)
    ultimately show ?thesis by auto
  next
    case False
    then obtain q ph where q: "q \<in> pUsed s" "ph \<in> phases" "name = workerFile ph q" using probeInv_name[OF inv n] by blast
    note lt = probeInv_pid(1)[OF inv q(1)]
    show ?thesis
    proof (cases "ph = phase")
      case True
      then have "?P name \<longleftrightarrow> q \<in> pAlive s" using scanName_own[OF lt, of phase] q(3) by (simp add: aliveIn_def)
      moreover have "q \<in> pAlive s \<longleftrightarrow> pRunning s q = Some phase" 
        using probeInv_file[OF inv _ p(3), of q] probeInv_running[OF inv, of q phase] n q(3) True by blast
      ultimately show ?thesis using workerFile_inj[OF p(3) p(3)] q(3) True by auto
    next
      case False
      then show ?thesis using scanName_other[of phase ph q] workerFile_inj[OF q(2) p(3)] q(2,3) p(3) by auto
    qed
  qed
  have own: "?P ?f" using p(1) scanName_own[OF probeInv_pid(1)[OF inv probeInv_pid(2)[OF inv p(1)]]] by (simp add: aliveIn_def)
  have sub: "workerFile phase q \<in> set (pDir s)" if "pRunning s q = Some phase" for q
    using probeInv_file[OF inv _ p(3)] probeInv_running[OF inv that] that by blast
  have set: "set (filter ?P (pDir s @ [?f])) = workerFile phase ` insert pid {q. pRunning s q = Some phase}"
  proof -
    have "set (filter ?P (pDir s)) = workerFile phase ` {q. pRunning s q = Some phase}" using iff sub by (auto simp del: option.case_eq_if)
    then show ?thesis using own by simp
  qed
  have "snd (nparallelBegin (aliveIn s) phase pid (pDir s)) = length (filter ?P (pDir s @ [?f]))"
    using new small by (simp add: nparallelBegin_def writeFile_def Let_def)
  also have "\<dots> = card (set (filter ?P (pDir s @ [?f])))"
    using inv new by (subst distinct_card) (auto simp: probeInv_def)
  also have "\<dots> = card (insert pid {q. pRunning s q = Some phase})"
    unfolding set using workerFile_inj[OF p(3) p(3)] by (intro card_image) (simp add: inj_on_def)
  finally show ?thesis .
qed

lemma rtiming_answers:
  assumes "probeReachable others s" "foreign others" "pid \<in> pAlive s" "pRunning s pid = None" "length (pDir s) < 1000000"
  shows "snd (rtimingReduce (aliveIn s) pid (pDir s)) = itoa (card (insert pid {q. pRunning s q = Some ''reduce''}))"
  using nparallel_counts[OF assms(1-4) _ assms(5), of "''reduce''"] by (simp add: rtimingReduce_def phases_def split_beta)

section \<open>jobcount counts the calls of Map\<close>

text \<open>A run of calls, each in some process with its own counter.\<close>

fun runMaps :: "nat list \<Rightarrow> (nat \<Rightarrow> nat) \<Rightarrow> string list \<Rightarrow> string list" where
  "runMaps [] cnts dir = dir"
| "runMaps (me # ms) cnts dir = (case fst (jobcountMap me (cnts me, dir)) of (c, dir) \<Rightarrow> runMaps ms (cnts(me := c)) dir)"

lemma jobcountFile_inj: "jobcountFile a b = jobcountFile c d \<longleftrightarrow> a = c \<and> b = d"
  by (simp add: jobcountFile_def dashed_inj)

lemma runMaps_counts:
  assumes "\<And>me k. cnts me \<le> k \<Longrightarrow> jobcountFile me k \<notin> set dir"
  shows "length (filter (\<lambda>f. hasPrefix f ''mr-worker-jobcount'') (runMaps ms cnts dir)) =
    length (filter (\<lambda>f. hasPrefix f ''mr-worker-jobcount'') dir) + length ms"
  using assms
proof (induction ms arbitrary: cnts dir)
  case (Cons me ms)
  let ?f = "jobcountFile me (cnts me)"
  have new: "?f \<notin> set dir" using Cons.prems by simp
  have "hasPrefix ?f ''mr-worker-jobcount''" by (simp add: hasPrefix_def jobcountFile_def)
  moreover have "jobcountFile q k \<notin> set (dir @ [?f])" if "(cnts(me := cnts me + 1)) q \<le> k" for q k
    using Cons.prems[of q k] that by (auto simp: jobcountFile_inj split: if_splits)
  ultimately show ?case using Cons.IH[of "cnts(me := cnts me + 1)" "dir @ [?f]"] new by (simp add: jobcountMap_def writeFile_def fun_upd_def)
qed simp

lemma jobcount_counts_calls:
  assumes "\<forall>f \<in> set dir. \<not> hasPrefix f ''mr-worker-jobcount''"
  shows "jobcountReduce (runMaps ms (\<lambda>_. 0) dir) = itoa (length ms)"
proof -
  have "hasPrefix (jobcountFile me k) ''mr-worker-jobcount''" for me k by (simp add: hasPrefix_def jobcountFile_def)
  then have "jobcountFile me k \<notin> set dir" for me k using assms by blast
  moreover have "filter (\<lambda>f. hasPrefix f ''mr-worker-jobcount'') dir = []" using assms by (simp add: filter_empty_conv)
  ultimately show ?thesis using runMaps_counts[of "\<lambda>_. 0" dir ms] by (simp add: jobcountReduce_def)
qed

end
