(* ===== verification/PorcupineBitset.thy ===== *)
theory PorcupineBitset
  imports Prelude "HOL-Library.Word"
begin

text \<open>
  The bit sets of \<^verbatim>\<open>src/porcupine/bitset.go\<close>: bits 0 to 63 in the first machine word, the next 64 in
  the second, and so on.  An access outside the slice panics; the operations return \<open>None\<close> there.
  Positions are \<^verbatim>\<open>uint\<close> values, given as natural numbers.  The operations of the source change their
  receiver in place and return it; the model returns the changed value.
\<close>

unbundle bit_operations_syntax

type_synonym bitset = "64 word list"

definition newBitset :: "nat \<Rightarrow> bitset" where
  "newBitset bits =
     (let extra = (if bits mod 64 \<noteq> 0 then 1 else 0);
          chunks = bits div 64 + extra
      in replicate chunks 0)"

text \<open>A copy: a fresh slice with the same words.\<close>

definition bitset_clone :: "bitset \<Rightarrow> bitset" where
  "bitset_clone b = take (length b) b"

definition bitsetIndex :: "nat \<Rightarrow> nat \<times> nat" where
  "bitsetIndex pos = (pos div 64, pos mod 64)"

definition bitset_set :: "bitset \<Rightarrow> nat \<Rightarrow> bitset option" where
  "bitset_set b pos =
     (let (major, minor) = bitsetIndex pos
      in if major < length b then Some (b[major := b ! major OR push_bit minor 1]) else None)"

definition bitset_clear :: "bitset \<Rightarrow> nat \<Rightarrow> bitset option" where
  "bitset_clear b pos =
     (let (major, minor) = bitsetIndex pos
      in if major < length b then Some (b[major := b ! major AND NOT (push_bit minor 1)]) else None)"

definition bitset_get :: "bitset \<Rightarrow> nat \<Rightarrow> bool option" where
  "bitset_get b pos =
     (let (major, minor) = bitsetIndex pos
      in if major < length b then Some (b ! major AND push_bit minor 1 \<noteq> 0) else None)"

text \<open>\<^verbatim>\<open>bits.OnesCount64\<close>.\<close>

definition onesCount64 :: "64 word \<Rightarrow> nat" where
  "onesCount64 v = length (filter (bit v) [0..<64])"

definition popcnt :: "bitset \<Rightarrow> nat" where
  "popcnt b = foldl (\<lambda>total v. total + onesCount64 v) 0 b"

definition bitset_hash :: "bitset \<Rightarrow> 64 word" where
  "bitset_hash b = foldl (\<lambda>hash v. hash XOR v) (of_nat (popcnt b)) b"

fun equalsLoop :: "bitset \<Rightarrow> bitset \<Rightarrow> bool" where
  "equalsLoop (x # b) (y # b2) = (if x \<noteq> y then False else equalsLoop b b2)"
| "equalsLoop _ _ = True"

definition bitset_equals :: "bitset \<Rightarrow> bitset \<Rightarrow> bool" where
  "bitset_equals b b2 = (if length b \<noteq> length b2 then False else equalsLoop b b2)"

section \<open>The set a bit set stands for\<close>

definition bitsOf :: "bitset \<Rightarrow> nat set" where
  "bitsOf b = {p. p < 64 * length b \<and> bit (b ! (p div 64)) (p mod 64)}"

lemma div64_less [simp]: "p div 64 < n \<longleftrightarrow> p < 64 * n" for p n :: nat
  by (simp add: div_less_iff_less_mult mult.commute)

lemma bitset_clone_same [simp]: "bitset_clone b = b"
  by (simp add: bitset_clone_def)

lemma newBitset_room:
  assumes "p < n"
  shows "p < 64 * length (newBitset n)"
proof (cases "n mod 64 = 0")
  case True
  then have "n = 64 * (n div 64)" by auto
  then show ?thesis using assms True by (simp add: newBitset_def)
next
  case False
  have "n = 64 * (n div 64) + n mod 64" "n mod 64 < 64" by simp_all
  then have "p < 64 * (n div 64) + 64" using assms by linarith
  then show ?thesis using False by (simp add: newBitset_def)
qed

lemma newBitset_empty [simp]: "bitsOf (newBitset n) = {}"
  by (auto simp: bitsOf_def newBitset_def)

lemma bit_one_word [simp]: "bit (2 ^ m :: 64 word) i \<longleftrightarrow> i = m \<and> m < 64"
  by (auto simp: bit_exp_iff)

lemma bitset_set_bits:
  assumes "p < 64 * length b"
  obtains b' where "bitset_set b p = Some b'" "length b' = length b" "bitsOf b' = insert p (bitsOf b)"
proof -
  let ?b = "b[p div 64 := b ! (p div 64) OR push_bit (p mod 64) 1]"
  have s: "bitset_set b p = Some ?b" using assms by (simp add: bitset_set_def bitsetIndex_def)
  have "q \<in> bitsOf ?b \<longleftrightarrow> q \<in> insert p (bitsOf b)" for q
  proof -
    have "q = p \<longleftrightarrow> q div 64 = p div 64 \<and> q mod 64 = p mod 64" by (metis div_mult_mod_eq)
    then show ?thesis using assms by (auto simp: bitsOf_def nth_list_update bit_or_iff)
  qed
  then have "bitsOf ?b = insert p (bitsOf b)" by blast
  then show ?thesis using s that by simp
qed

lemma bitset_clear_bits:
  assumes "p < 64 * length b"
  obtains b' where "bitset_clear b p = Some b'" "length b' = length b" "bitsOf b' = bitsOf b - {p}"
proof -
  let ?b = "b[p div 64 := b ! (p div 64) AND NOT (push_bit (p mod 64) 1)]"
  have s: "bitset_clear b p = Some ?b" using assms by (simp add: bitset_clear_def bitsetIndex_def)
  have "q \<in> bitsOf ?b \<longleftrightarrow> q \<in> bitsOf b - {p}" for q
  proof -
    have "q = p \<longleftrightarrow> q div 64 = p div 64 \<and> q mod 64 = p mod 64" by (metis div_mult_mod_eq)
    then show ?thesis using assms by (auto simp: bitsOf_def nth_list_update bit_and_iff bit_not_iff)
  qed
  then have "bitsOf ?b = bitsOf b - {p}" by blast
  then show ?thesis using s that by simp
qed

lemma and_one_bit: "w AND 2 ^ m \<noteq> 0 \<longleftrightarrow> bit w m" if "m < 64" for w :: "64 word"
proof -
  have "w AND 2 ^ m = (if bit w m then 2 ^ m else 0)"
    by (rule bit_eqI) (auto simp: bit_and_iff)
  moreover have "(2 ^ m :: 64 word) \<noteq> 0" using that bit_one_word[of m m] by (metis bit_0_eq bot_apply bot_bool_def)
  ultimately show ?thesis by simp
qed

lemma bitset_get_bits: "bitset_get b p = (if p < 64 * length b then Some (p \<in> bitsOf b) else None)"
  by (auto simp: bitset_get_def bitsetIndex_def bitsOf_def and_one_bit)

lemma bitset_equals_eq [simp]: "bitset_equals b b2 \<longleftrightarrow> b = b2"
proof -
  have "length b = length b2 \<Longrightarrow> equalsLoop b b2 \<longleftrightarrow> b = b2"
    by (induction b b2 rule: list_induct2) auto
  then show ?thesis by (auto simp: bitset_equals_def)
qed

lemma bitsOf_inj:
  assumes "length b = length b2"
  shows "bitsOf b = bitsOf b2 \<longleftrightarrow> b = b2"
proof
  assume eq: "bitsOf b = bitsOf b2"
  show "b = b2"
  proof (rule nth_equalityI[OF assms])
    fix i assume i: "i < length b"
    show "b ! i = b2 ! i"
    proof (rule bit_eqI)
      fix m assume "possible_bit TYPE(64 word) m"
      then have m: "m < 64" by simp
      have d: "(64 * i + m) div 64 = i" "(64 * i + m) mod 64 = m" using m by simp_all
      have lt: "64 * i + m < 64 * length b" using i m by linarith
      have "64 * i + m \<in> bitsOf b \<longleftrightarrow> 64 * i + m \<in> bitsOf b2" using eq by simp
      then show "bit (b ! i) m = bit (b2 ! i) m" using lt assms unfolding bitsOf_def mem_Collect_eq d by simp
    qed
  qed
qed simp

lemma popcnt_append: "popcnt (b @ [v]) = popcnt b + onesCount64 v"
  by (simp add: popcnt_def)

lemma onesCount64_card: "onesCount64 v = card {m. m < 64 \<and> bit v m}"
proof -
  have "{m. m < 64 \<and> bit v m} = set (filter (bit v) [0..<64])" by auto
  then show ?thesis unfolding onesCount64_def using distinct_card[of "filter (bit v) [0..<64]"] by simp
qed

lemma bitsOf_append: "bitsOf (b @ [v]) = bitsOf b \<union> (\<lambda>m. 64 * length b + m) ` {m. m < 64 \<and> bit v m}"
proof (rule set_eqI)
  fix p
  have hi: "p div 64 = length b \<longleftrightarrow> \<not> p < 64 * length b \<and> p < 64 * Suc (length b)"
    unfolding div64_less[symmetric] by auto
  have dm: "p = 64 * (p div 64) + p mod 64" by simp
  show "p \<in> bitsOf (b @ [v]) \<longleftrightarrow> p \<in> bitsOf b \<union> (\<lambda>m. 64 * length b + m) ` {m. m < 64 \<and> bit v m}"
  proof (cases "p < 64 * length b")
    case True
    then show ?thesis by (auto simp: bitsOf_def nth_append)
  next
    case False
    then have "p \<notin> bitsOf b" by (simp add: bitsOf_def)
    moreover have "p \<in> bitsOf (b @ [v]) \<longleftrightarrow> p div 64 = length b \<and> bit v (p mod 64)"
      using False hi by (auto simp: bitsOf_def nth_append)
    moreover have "p div 64 = length b \<and> bit v (p mod 64) \<longleftrightarrow> p \<in> (\<lambda>m. 64 * length b + m) ` {m. m < 64 \<and> bit v m}"
    proof
      assume a: "p div 64 = length b \<and> bit v (p mod 64)"
      then have "p = 64 * length b + p mod 64" using dm by metis
      then show "p \<in> (\<lambda>m. 64 * length b + m) ` {m. m < 64 \<and> bit v m}" using a by (intro image_eqI[of _ _ "p mod 64"]) auto
    next
      assume "p \<in> (\<lambda>m. 64 * length b + m) ` {m. m < 64 \<and> bit v m}"
      then obtain m where "p = 64 * length b + m" "m < 64" "bit v m" by auto
      then show "p div 64 = length b \<and> bit v (p mod 64)" by simp
    qed
    ultimately show ?thesis by blast
  qed
qed

lemma bitsOf_finite [simp]: "finite (bitsOf b)"
  by (rule finite_subset[of _ "{..<64 * length b}"]) (auto simp: bitsOf_def)

lemma popcnt_card: "popcnt b = card (bitsOf b)"
proof (induction b rule: rev_induct)
  case (snoc v b)
  let ?M = "{m. m < 64 \<and> bit v m}"
  have "bitsOf b \<inter> (\<lambda>m. 64 * length b + m) ` ?M = {}" by (auto simp: bitsOf_def)
  moreover have "card ((\<lambda>m. 64 * length b + m) ` ?M) = card ?M" by (rule card_image) simp
  ultimately show ?case using snoc by (simp add: popcnt_append bitsOf_append onesCount64_card card_Un_disjoint)
qed (simp add: popcnt_def bitsOf_def)

end
