(* ===== verification/PorcupineModel.thy ===== *)
theory PorcupineModel
  imports Prelude "HOL-Library.Word" "HOL-Library.List_Lexorder" "HOL-Library.Char_ord" "HOL-Library.AList"
begin

text \<open>
  The data of \<^verbatim>\<open>src/porcupine/model.go\<close> and the key/value model of \<^verbatim>\<open>src/models/kv.go\<close>.

  An \<^verbatim>\<open>interface{}\<close> that carries inputs and outputs is a type \<open>'v\<close>, a state is a type \<open>'s\<close>.  The functions
  of a model are fields of its record; one that the source allows to be nil is an option.  A
  function returns \<open>None\<close> where the source panics (a failed type assertion).  What \<^verbatim>\<open>fmt.Sprintf\<close> prints for
  \<^verbatim>\<open>%v\<close> is a parameter of the default descriptions, and \<open>fillDescribe\<close> is the part of \<^verbatim>\<open>fillDefault\<close> that
  fills them in: the checker itself never reads them.
\<close>

record 'v Operation =
  ClientId :: int
  Input :: 'v
  Call :: int
  Output :: 'v
  Return :: int

datatype EventKind = CallEvent | ReturnEvent

record 'v Event =
  evClientId :: int
  Kind :: EventKind
  evValue :: 'v
  Id :: int

record ('v, 's) Model =
  Partition :: "('v Operation list \<Rightarrow> 'v Operation list list option) option"
  PartitionEvent :: "('v Event list \<Rightarrow> 'v Event list list option) option"
  Init :: 's
  Step :: "'s \<Rightarrow> 'v \<Rightarrow> 'v \<Rightarrow> (bool \<times> 's) option"
  Equal :: "('s \<Rightarrow> 's \<Rightarrow> bool) option"
  DescribeOperation :: "('v \<Rightarrow> 'v \<Rightarrow> string option) option"
  DescribeState :: "('s \<Rightarrow> string option) option"

definition NoPartition :: "'v Operation list \<Rightarrow> 'v Operation list list option" where
  "NoPartition history = Some [history]"

definition NoPartitionEvent :: "'v Event list \<Rightarrow> 'v Event list list option" where
  "NoPartitionEvent history = Some [history]"

definition ShallowEqual :: "'s \<Rightarrow> 's \<Rightarrow> bool" where
  "ShallowEqual state1 state2 \<longleftrightarrow> state1 = state2"

definition DefaultDescribeOperation :: "('v \<Rightarrow> string) \<Rightarrow> 'v \<Rightarrow> 'v \<Rightarrow> string option" where
  "DefaultDescribeOperation fmtValue input output = Some (fmtValue input @ '' -> '' @ fmtValue output)"

definition DefaultDescribeState :: "('s \<Rightarrow> string) \<Rightarrow> 's \<Rightarrow> string option" where
  "DefaultDescribeState fmtState state = Some (fmtState state)"

definition fillDefault :: "('v, 's) Model \<Rightarrow> ('v, 's) Model" where
  "fillDefault model =
     (let model = (if Partition model = None then model\<lparr>Partition := Some NoPartition\<rparr> else model);
          model = (if PartitionEvent model = None then model\<lparr>PartitionEvent := Some NoPartitionEvent\<rparr> else model);
          model = (if Equal model = None then model\<lparr>Equal := Some ShallowEqual\<rparr> else model)
      in model)"

definition fillDescribe :: "('v \<Rightarrow> string) \<Rightarrow> ('s \<Rightarrow> string) \<Rightarrow> ('v, 's) Model \<Rightarrow> ('v, 's) Model" where
  "fillDescribe fmtValue fmtState model =
     (let model = (if DescribeOperation model = None then model\<lparr>DescribeOperation := Some (DefaultDescribeOperation fmtValue)\<rparr> else model);
          model = (if DescribeState model = None then model\<lparr>DescribeState := Some (DefaultDescribeState fmtState)\<rparr> else model)
      in model)"

datatype CheckResult = Unknown | Ok | Illegal

section \<open>The key/value model\<close>

record KvInput =
  Op :: "8 word"
  Key :: string
  Value :: string

record KvOutput =
  outValue :: string

datatype KvAny = KvIn KvInput | KvOut KvOutput

text \<open>The operations by key, in a map; the keys in the order in which they were first met.\<close>

fun kvGroup :: "KvAny Operation list \<Rightarrow> (string \<times> KvAny Operation list) list \<Rightarrow> (string \<times> KvAny Operation list) list option" where
  "kvGroup [] m = Some m"
| "kvGroup (v # history) m =
     (case Input v of
        KvIn inp \<Rightarrow>
          let key = Key inp;
              old = (case map_of m key of Some ops \<Rightarrow> ops | None \<Rightarrow> [])
          in kvGroup history (AList.update key (old @ [v]) m)
      | KvOut _ \<Rightarrow> None)"

definition kvPartition :: "KvAny Operation list \<Rightarrow> KvAny Operation list list option" where
  "kvPartition history = do {
     m \<leftarrow> kvGroup history [];
     let keys = sort (map fst m);
     Some (map (\<lambda>k. the (map_of m k)) keys)
   }"

fun kvStep :: "string \<Rightarrow> KvAny \<Rightarrow> KvAny \<Rightarrow> (bool \<times> string) option" where
  "kvStep st (KvIn inp) (KvOut out) = Some
     (if Op inp = 0 then (outValue out = st, st)
      else if Op inp = 1 then (True, Value inp)
      else if Op inp = 2 then (True, st @ Value inp)
      else (outValue out = st, st @ Value inp))"
| "kvStep st _ _ = None"

fun kvDescribe :: "KvAny \<Rightarrow> KvAny \<Rightarrow> string option" where
  "kvDescribe (KvIn inp) (KvOut out) = Some
     (if Op inp = 0 then ''get('' @ [CHR 0x27] @ Key inp @ [CHR 0x27] @ '') -> '' @ [CHR 0x27] @ outValue out @ [CHR 0x27]
      else if Op inp = 1 then ''put('' @ [CHR 0x27] @ Key inp @ [CHR 0x27] @ '', '' @ [CHR 0x27] @ Value inp @ [CHR 0x27] @ '')''
      else if Op inp = 2 then ''append('' @ [CHR 0x27] @ Key inp @ [CHR 0x27] @ '', '' @ [CHR 0x27] @ Value inp @ [CHR 0x27] @ '')''
      else ''<invalid>'')"
| "kvDescribe _ _ = None"

definition KvModel :: "(KvAny, string) Model" where
  "KvModel = \<lparr>Partition = Some kvPartition, PartitionEvent = None, Init = '''', Step = kvStep, Equal = None,
     DescribeOperation = Some kvDescribe, DescribeState = None\<rparr>"

end
