(* ===== verification/PorcupineChecker.thy ===== *)
theory PorcupineChecker
  imports PorcupineBitset PorcupineModel "HOL-Library.While_Combinator" "HOL-Library.Multiset"
begin

text \<open>
  The linearizability checker of \<^verbatim>\<open>src/porcupine/checker.go\<close> and \<^verbatim>\<open>src/porcupine/porcupine.go\<close>.

  The doubly linked list of the search lives in a heap: the list of the allocated nodes, a
  pointer being a position in it and nil being \<open>None\<close>.  \<open>lift\<close> and \<open>unlift\<close> change the links of
  the heap in place, as the source does; they and the bit sets return \<open>None\<close> where the source
  would dereference nil or index out of range.  The loop of \<open>checkSingle\<close> is a \<open>while_option\<close>
  over its local variables.  What the atomic load of the kill flag yields in each iteration is an
  argument, and so is the order in which the goroutines of \<open>checkParallel\<close> report.
\<close>

section \<open>Entries\<close>

datatype entryKind = callEntry | returnEntry

record 'v entry =
  eKind :: entryKind
  eValue :: 'v
  eId :: int
  eTime :: int
  eClientId :: int

definition byTimeLess :: "'v entry \<Rightarrow> 'v entry \<Rightarrow> bool" where
  "byTimeLess a b =
     (if eTime a \<noteq> eTime b then eTime a < eTime b
      else eKind a = callEntry \<and> eKind b = returnEntry)"

fun entriesOf :: "int \<Rightarrow> 'v Operation list \<Rightarrow> 'v entry list" where
  "entriesOf i [] = []"
| "entriesOf i (elem # history) =
     \<lparr>eKind = callEntry, eValue = Input elem, eId = i, eTime = Call elem, eClientId = ClientId elem\<rparr> #
     \<lparr>eKind = returnEntry, eValue = Output elem, eId = i, eTime = Return elem, eClientId = ClientId elem\<rparr> #
     entriesOf (i + 1) history"

text \<open>\<^verbatim>\<open>sort.Sort\<close> is a parameter: it is not stable, and leaves the order of equal elements open.\<close>

definition makeEntries :: "('v entry list \<Rightarrow> 'v entry list) \<Rightarrow> 'v Operation list \<Rightarrow> 'v entry list" where
  "makeEntries sortf history = sortf (entriesOf 0 history)"

fun renumberLoop :: "'v Event list \<Rightarrow> (int \<rightharpoonup> int) \<Rightarrow> int \<Rightarrow> 'v Event list" where
  "renumberLoop [] m i = []"
| "renumberLoop (v # events) m i =
     (case m (Id v) of
        Some r \<Rightarrow> v\<lparr>Id := r\<rparr> # renumberLoop events m i
      | None \<Rightarrow> v\<lparr>Id := i\<rparr> # renumberLoop events (m(Id v \<mapsto> i)) (i + 1))"

definition renumber :: "'v Event list \<Rightarrow> 'v Event list" where
  "renumber events = renumberLoop events (\<lambda>_. None) 0"

fun convertLoop :: "int \<Rightarrow> 'v Event list \<Rightarrow> 'v entry list" where
  "convertLoop i [] = []"
| "convertLoop i (elem # events) =
     \<lparr>eKind = (if Kind elem = ReturnEvent then returnEntry else callEntry), eValue = evValue elem,
      eId = Id elem, eTime = i, eClientId = evClientId elem\<rparr> # convertLoop (i + 1) events"

definition convertEntries :: "'v Event list \<Rightarrow> 'v entry list" where
  "convertEntries events = convertLoop 0 events"

section \<open>The linked list\<close>

record 'v node =
  nValue :: "'v option"
  nMatch :: "nat option"
  nId :: int
  nNext :: "nat option"
  nPrev :: "nat option"

type_synonym 'v heap = "'v node list"

definition setNext :: "'v heap \<Rightarrow> nat \<Rightarrow> nat option \<Rightarrow> 'v heap" where
  "setNext h a p = h[a := (h ! a)\<lparr>nNext := p\<rparr>]"

definition setPrev :: "'v heap \<Rightarrow> nat \<Rightarrow> nat option \<Rightarrow> 'v heap" where
  "setPrev h a p = h[a := (h ! a)\<lparr>nPrev := p\<rparr>]"

definition insertBefore :: "'v heap \<Rightarrow> nat \<Rightarrow> nat option \<Rightarrow> 'v heap" where
  "insertBefore h n mark =
     (case mark of
        None \<Rightarrow> h
      | Some mark \<Rightarrow>
          let beforeMark = nPrev (h ! mark);
              h = setPrev h mark (Some n);
              h = setNext h n (Some mark)
          in case beforeMark of
               None \<Rightarrow> h
             | Some beforeMark \<Rightarrow> setNext (setPrev h n (Some beforeMark)) beforeMark (Some n))"

partial_function (option) nodeLength :: "'v heap \<Rightarrow> nat option \<Rightarrow> nat \<Rightarrow> nat option" where
  "nodeLength h n l =
     (case n of
        None \<Rightarrow> Some l
      | Some a \<Rightarrow> nodeLength h (nNext (h ! a)) (Suc l))"

fun linkLoop :: "'v entry list \<Rightarrow> 'v heap \<Rightarrow> nat option \<Rightarrow> (int \<rightharpoonup> nat) \<Rightarrow> 'v heap \<times> nat option" where
  "linkLoop [] h root match = (h, root)"
| "linkLoop (elem # before) h root match =
     (let a = length h in
      if eKind elem = returnEntry then
        let h = h @ [\<lparr>nValue = Some (eValue elem), nMatch = None, nId = eId elem, nNext = None, nPrev = None\<rparr>]
        in linkLoop before (insertBefore h a root) (Some a) (match(eId elem \<mapsto> a))
      else
        let h = h @ [\<lparr>nValue = Some (eValue elem), nMatch = match (eId elem), nId = eId elem, nNext = None, nPrev = None\<rparr>]
        in linkLoop before (insertBefore h a root) (Some a) match)"

definition makeLinkedEntries :: "'v entry list \<Rightarrow> 'v heap \<times> nat option" where
  "makeLinkedEntries entries = linkLoop (rev entries) [] None (\<lambda>_. None)"

definition lift :: "'v heap \<Rightarrow> nat \<Rightarrow> 'v heap option" where
  "lift h entry = do {
     prev \<leftarrow> nPrev (h ! entry);
     let h = setNext h prev (nNext (h ! entry));
     next \<leftarrow> nNext (h ! entry);
     let h = setPrev h next (nPrev (h ! entry));
     match \<leftarrow> nMatch (h ! entry);
     mprev \<leftarrow> nPrev (h ! match);
     let h = setNext h mprev (nNext (h ! match));
     Some (case nNext (h ! match) of None \<Rightarrow> h | Some mnext \<Rightarrow> setPrev h mnext (nPrev (h ! match)))
   }"

definition unlift :: "'v heap \<Rightarrow> nat \<Rightarrow> 'v heap option" where
  "unlift h entry = do {
     match \<leftarrow> nMatch (h ! entry);
     mprev \<leftarrow> nPrev (h ! match);
     let h = setNext h mprev (Some match);
     let h = (case nNext (h ! match) of None \<Rightarrow> h | Some mnext \<Rightarrow> setPrev h mnext (Some match));
     prev \<leftarrow> nPrev (h ! entry);
     let h = setNext h prev (Some entry);
     next \<leftarrow> nNext (h ! entry);
     Some (setPrev h next (Some entry))
   }"

section \<open>The cache\<close>

record 's cacheEntry =
  linearized :: bitset
  cstate :: 's

type_synonym 's cache = "64 word \<Rightarrow> 's cacheEntry list"

definition cacheContains :: "('v, 's) Model \<Rightarrow> 's cache \<Rightarrow> 's cacheEntry \<Rightarrow> bool" where
  "cacheContains model cache entry =
     list_ex (\<lambda>elem. bitset_equals (linearized entry) (linearized elem) \<and> the (Equal model) (cstate entry) (cstate elem))
       (cache (bitset_hash (linearized entry)))"

section \<open>The search\<close>

record ('v, 's) Search =
  heap :: "'v heap"
  curEntry :: "nat option"
  curLinearized :: bitset
  cache :: "'s cache"
  calls :: "(nat \<times> 's) list"
  seqs :: "int list list"
  longest :: "nat option list"
  curState :: 's

datatype 'c Progress = Running 'c | Returned bool 'c | Panicked

text \<open>Go's conversion of an \<^verbatim>\<open>int\<close> to \<^verbatim>\<open>uint\<close>.\<close>

definition uintOf :: "int \<Rightarrow> nat" where
  "uintOf i = nat (i mod 2 ^ 64)"

text \<open>The branch of the loop for a call entry.\<close>

definition tryCall :: "('v, 's) Model \<Rightarrow> nat \<Rightarrow> ('v, 's) Search \<Rightarrow> nat \<Rightarrow> nat \<Rightarrow> ('v, 's) Search Progress" where
  "tryCall model headEntry c entry matching =
     (let n = heap c ! entry in
      case (nValue n, nValue (heap c ! matching)) of
        (Some inp, Some out) \<Rightarrow>
          (case Step model (curState c) inp out of
             None \<Rightarrow> Panicked
           | Some (ok, newState) \<Rightarrow>
               if ok then
                 (case bitset_set (bitset_clone (curLinearized c)) (uintOf (nId n)) of
                    None \<Rightarrow> Panicked
                  | Some newLinearized \<Rightarrow>
                      let newCacheEntry = \<lparr>linearized = newLinearized, cstate = newState\<rparr> in
                      if \<not> cacheContains model (cache c) newCacheEntry then
                        let hash = bitset_hash newLinearized;
                            cache' = (cache c)(hash := cache c hash @ [newCacheEntry])
                        in case bitset_set (curLinearized c) (uintOf (nId n)) of
                             None \<Rightarrow> Panicked
                           | Some linearized' \<Rightarrow>
                               (case lift (heap c) entry of
                                  None \<Rightarrow> Panicked
                                | Some heap' \<Rightarrow>
                                    Running (c\<lparr>heap := heap', curEntry := nNext (heap' ! headEntry),
                                       curLinearized := linearized', cache := cache',
                                       calls := calls c @ [(entry, curState c)], curState := newState\<rparr>))
                      else Running (c\<lparr>curEntry := nNext n\<rparr>))
               else Running (c\<lparr>curEntry := nNext n\<rparr>))
      | _ \<Rightarrow> Panicked)"

text \<open>The loop that notes the calls so far as the longest linearization of each of them.\<close>

fun longestLoop ::
  "int list \<Rightarrow> int list \<Rightarrow> nat option \<Rightarrow> int list list \<Rightarrow> nat option list \<Rightarrow> (int list list \<times> nat option list) option" where
  "longestLoop ids [] cur sqs lng = Some (sqs, lng)"
| "longestLoop ids (i # is) cur sqs lng =
     (if i < 0 \<or> int (length lng) \<le> i then None
      else
        let better = (case lng ! nat i of None \<Rightarrow> True | Some p \<Rightarrow> length ids > length (sqs ! p))
        in if better then
             (case cur of
                None \<Rightarrow> longestLoop ids is (Some (length sqs)) (sqs @ [ids]) (lng[nat i := Some (length sqs)])
              | Some s \<Rightarrow> longestLoop ids is cur sqs (lng[nat i := Some s]))
           else longestLoop ids is cur sqs lng)"

definition callIds :: "('v, 's) Search \<Rightarrow> int list" where
  "callIds c = map (\<lambda>v. nId (heap c ! fst v)) (calls c)"

text \<open>The branch of the loop for a return entry.\<close>

definition backtrack :: "bool \<Rightarrow> ('v, 's) Search \<Rightarrow> ('v, 's) Search Progress" where
  "backtrack computePartial c =
     (if calls c = [] then Returned False c
      else
        case (if computePartial then longestLoop (callIds c) (callIds c) None (seqs c) (longest c)
              else Some (seqs c, longest c)) of
          None \<Rightarrow> Panicked
        | Some (seqs', longest') \<Rightarrow>
            let (entry, state) = last (calls c) in
            case bitset_clear (curLinearized c) (uintOf (nId (heap c ! entry))) of
              None \<Rightarrow> Panicked
            | Some linearized' \<Rightarrow>
                (case unlift (heap c) entry of
                   None \<Rightarrow> Panicked
                 | Some heap' \<Rightarrow>
                     Running (c\<lparr>heap := heap', curEntry := nNext (heap' ! entry), curLinearized := linearized',
                        calls := butlast (calls c), seqs := seqs', longest := longest', curState := state\<rparr>)))"

text \<open>One iteration, with the value of the kill flag it reads; after the last one every entry of
  \<open>longest\<close> is the complete linearization.\<close>

definition checkStep :: "('v, 's) Model \<Rightarrow> bool \<Rightarrow> nat \<Rightarrow> bool \<Rightarrow> ('v, 's) Search \<Rightarrow> ('v, 's) Search Progress" where
  "checkStep model computePartial headEntry kill c =
     (if nNext (heap c ! headEntry) \<noteq> None then
        if kill then Returned False c
        else
          case curEntry c of
            None \<Rightarrow> Panicked
          | Some entry \<Rightarrow>
              (case nMatch (heap c ! entry) of
                 Some matching \<Rightarrow> tryCall model headEntry c entry matching
               | None \<Rightarrow> backtrack computePartial c)
      else Returned True (c\<lparr>seqs := seqs c @ [callIds c],
             longest := replicate (length (longest c)) (Some (length (seqs c)))\<rparr>))"

definition checkLoop ::
  "('v, 's) Model \<Rightarrow> bool \<Rightarrow> nat \<Rightarrow> (nat \<Rightarrow> bool) \<Rightarrow> ('v, 's) Search \<Rightarrow> (nat \<times> ('v, 's) Search Progress) option" where
  "checkLoop model computePartial headEntry kill c =
     while_option (\<lambda>(k, p). case p of Running c \<Rightarrow> True | _ \<Rightarrow> False)
       (\<lambda>(k, p). case p of Running c \<Rightarrow> (Suc k, checkStep model computePartial headEntry (kill k) c) | _ \<Rightarrow> (k, p))
       (0, Running c)"

text \<open>The variables of \<open>checkSingle\<close> before the loop; \<open>None\<close>: computing the length does not end.\<close>

definition startSearch :: "('v, 's) Model \<Rightarrow> 'v entry list \<Rightarrow> (nat \<times> ('v, 's) Search) option" where
  "startSearch model history = do {
     let (h, entry) = makeLinkedEntries history;
     l \<leftarrow> nodeLength h entry 0;
     let n = l div 2;
     let headEntry = length h;
     let h = insertBefore (h @ [\<lparr>nValue = None, nMatch = None, nId = -1, nNext = None, nPrev = None\<rparr>]) headEntry entry;
     Some (headEntry, \<lparr>heap = h, curEntry = entry, curLinearized = newBitset n, cache = (\<lambda>_. []), calls = [],
        seqs = [], longest = replicate n None, curState = Init model\<rparr>)
   }"

text \<open>The result and, for each operation, the longest partial linearization with it (a pointer
  into the sequences).  \<open>Blocked\<close>: the search does not end.\<close>

definition checkSingle ::
  "('v, 's) Model \<Rightarrow> 'v entry list \<Rightarrow> bool \<Rightarrow> (nat \<Rightarrow> bool) \<Rightarrow> (bool \<times> int list list \<times> nat option list) Run" where
  "checkSingle model history computePartial kill =
     (case startSearch model history of
        None \<Rightarrow> Blocked
      | Some (headEntry, c) \<Rightarrow>
          (case checkLoop model computePartial headEntry kill c of
             Some (_, Returned ok c) \<Rightarrow> Ret (ok, seqs c, longest c)
           | Some (_, Panicked) \<Rightarrow> Panic
           | _ \<Rightarrow> Blocked))"

section \<open>All partitions\<close>

record 'v linearizationInfo =
  infoHistory :: "'v entry list list"
  partialLinearizations :: "int list list list"

text \<open>What the select statement of \<open>checkParallel\<close> receives: the result of the goroutine of a
  partition, or the timer.\<close>

datatype Arrival = Reported nat | TimerFired

text \<open>The loop: it goes on until a partition fails (unless the information is wanted), all have
  reported, or the timer fires.  Without a timeout the channel of the timer is nil, and nothing
  ever comes from it.  If nothing more arrives, the loop waits forever.\<close>

fun collect ::
  "bool \<Rightarrow> bool \<Rightarrow> nat \<Rightarrow> (nat \<Rightarrow> (bool \<times> int list list \<times> nat option list) Run) \<Rightarrow> Arrival list \<Rightarrow> nat \<Rightarrow> bool \<Rightarrow>
   (bool \<times> bool) Run" where
  "collect computeInfo timed len results [] cnt ok = Blocked"
| "collect computeInfo timed len results (TimerFired # arrivals) cnt ok =
     (if timed then Ret (ok, True) else collect computeInfo timed len results arrivals cnt ok)"
| "collect computeInfo timed len results (Reported i # arrivals) cnt ok =
     (case results i of
        Panic \<Rightarrow> Panic
      | Blocked \<Rightarrow> Blocked
      | Ret (result, _) \<Rightarrow>
          let cnt = cnt + 1;
              ok = (ok \<and> result)
          in if \<not> ok \<and> \<not> computeInfo then Ret (ok, False)
             else if len \<le> cnt then Ret (ok, False)
             else collect computeInfo timed len results arrivals cnt ok)"

text \<open>The distinct sequences the pointers of a partition point to (a Go map of pointers; its order
  is open).\<close>

definition partialsOf :: "bool \<times> int list list \<times> nat option list \<Rightarrow> int list list" where
  "partialsOf res = (case res of (_, sqs, lng) \<Rightarrow> map (\<lambda>p. sqs ! p) (remdups (List.map_filter (\<lambda>v. v) lng)))"

fun allPartials :: "(nat \<Rightarrow> (bool \<times> int list list \<times> nat option list) Run) \<Rightarrow> nat list \<Rightarrow> int list list list Run" where
  "allPartials results [] = Ret []"
| "allPartials results (i # is) =
     (case results i of
        Panic \<Rightarrow> Panic
      | Blocked \<Rightarrow> Blocked
      | Ret res \<Rightarrow>
          (case allPartials results is of
             Panic \<Rightarrow> Panic
           | Blocked \<Rightarrow> Blocked
           | Ret rest \<Rightarrow> Ret (partialsOf res # rest)))"

text \<open>\<open>kills i\<close> is what goroutine \<open>i\<close> reads from the kill flag, iteration by iteration; \<open>arrivals\<close> is the
  order in which results and timer arrive.\<close>

definition checkParallel ::
  "('v, 's) Model \<Rightarrow> 'v entry list list \<Rightarrow> bool \<Rightarrow> int \<Rightarrow> (nat \<Rightarrow> nat \<Rightarrow> bool) \<Rightarrow> Arrival list \<Rightarrow>
   (CheckResult \<times> 'v linearizationInfo) Run" where
  "checkParallel model history computeInfo timeout kills arrivals =
     (let results = (\<lambda>i. checkSingle model (history ! i) computeInfo (kills i)) in
      case collect computeInfo (timeout > 0) (length history) results arrivals 0 True of
        Panic \<Rightarrow> Panic
      | Blocked \<Rightarrow> Blocked
      | Ret (ok, timedOut) \<Rightarrow>
          (case (if computeInfo then allPartials results [0..<length history] else Ret []) of
             Panic \<Rightarrow> Panic
           | Blocked \<Rightarrow> Blocked
           | Ret partials \<Rightarrow>
               Ret (if \<not> ok then Illegal else if timedOut then Unknown else Ok,
                    if computeInfo then \<lparr>infoHistory = history, partialLinearizations = partials\<rparr>
                    else \<lparr>infoHistory = [], partialLinearizations = []\<rparr>)))"

definition checkEvents ::
  "('v, 's) Model \<Rightarrow> 'v Event list \<Rightarrow> bool \<Rightarrow> int \<Rightarrow> (nat \<Rightarrow> nat \<Rightarrow> bool) \<Rightarrow> Arrival list \<Rightarrow>
   (CheckResult \<times> 'v linearizationInfo) Run" where
  "checkEvents model history verbose timeout kills arrivals =
     (let model = fillDefault model in
      case the (PartitionEvent model) history of
        None \<Rightarrow> Panic
      | Some partitions \<Rightarrow>
          let l = map (\<lambda>subhistory. convertEntries (renumber subhistory)) partitions
          in checkParallel model l verbose timeout kills arrivals)"

definition checkOperations ::
  "('v entry list \<Rightarrow> 'v entry list) \<Rightarrow> ('v, 's) Model \<Rightarrow> 'v Operation list \<Rightarrow> bool \<Rightarrow> int \<Rightarrow> (nat \<Rightarrow> nat \<Rightarrow> bool) \<Rightarrow>
   Arrival list \<Rightarrow> (CheckResult \<times> 'v linearizationInfo) Run" where
  "checkOperations sortf model history verbose timeout kills arrivals =
     (let model = fillDefault model in
      case the (Partition model) history of
        None \<Rightarrow> Panic
      | Some partitions \<Rightarrow>
          let l = map (makeEntries sortf) partitions
          in checkParallel model l verbose timeout kills arrivals)"

section \<open>The interface\<close>

definition resultOf :: "(CheckResult \<times> 'v linearizationInfo) Run \<Rightarrow> CheckResult Run" where
  "resultOf r = (case r of Ret (res, _) \<Rightarrow> Ret res | Panic \<Rightarrow> Panic | Blocked \<Rightarrow> Blocked)"

definition isOk :: "CheckResult Run \<Rightarrow> bool Run" where
  "isOk r = (case r of Ret res \<Rightarrow> Ret (res = Ok) | Panic \<Rightarrow> Panic | Blocked \<Rightarrow> Blocked)"

definition CheckOperations where
  "CheckOperations sortf model history kills arrivals =
     isOk (resultOf (checkOperations sortf model history False 0 kills arrivals))"

definition CheckOperationsTimeout where
  "CheckOperationsTimeout sortf model history timeout kills arrivals =
     resultOf (checkOperations sortf model history False timeout kills arrivals)"

definition CheckOperationsVerbose where
  "CheckOperationsVerbose sortf model history timeout kills arrivals =
     checkOperations sortf model history True timeout kills arrivals"

definition CheckEvents where
  "CheckEvents model history kills arrivals =
     isOk (resultOf (checkEvents model history False 0 kills arrivals))"

definition CheckEventsTimeout where
  "CheckEventsTimeout model history timeout kills arrivals =
     resultOf (checkEvents model history False timeout kills arrivals)"

definition CheckEventsVerbose where
  "CheckEventsVerbose model history timeout kills arrivals =
     checkEvents model history True timeout kills arrivals"

end
