(* ===== verification/PorcupineHeap.thy ===== *)
theory PorcupineHeap
  imports PorcupineChecker
begin

text \<open>
  The linked list of the checker: what it means that a heap holds a doubly linked list, that
  building it from the entries yields one, that \<open>lift\<close> takes a call and its return out of it, and
  that \<open>unlift\<close> puts them back at their places, because the nodes taken out keep their own links.
\<close>

section \<open>Fields\<close>

lemma setNext_length [simp]: "length (setNext h a p) = length h"
  by (simp add: setNext_def)

lemma setPrev_length [simp]: "length (setPrev h a p) = length h"
  by (simp add: setPrev_def)

lemma update_nth: "(h[a := f (h ! a)]) ! b = (if a = b \<and> a < length h then f (h ! b) else h ! b)"
  by (cases "a < length h") (auto simp: nth_list_update list_update_beyond)

lemma setNext_fields [simp]:
  "nValue (setNext h a p ! b) = nValue (h ! b)" "nMatch (setNext h a p ! b) = nMatch (h ! b)"
  "nId (setNext h a p ! b) = nId (h ! b)" "nPrev (setNext h a p ! b) = nPrev (h ! b)"
  "a < length h \<Longrightarrow> nNext (setNext h a p ! b) = (if a = b then p else nNext (h ! b))"
  "b \<noteq> a \<Longrightarrow> nNext (setNext h a p ! b) = nNext (h ! b)"
  by (auto simp: setNext_def update_nth)

lemma setPrev_fields [simp]:
  "nValue (setPrev h a p ! b) = nValue (h ! b)" "nMatch (setPrev h a p ! b) = nMatch (h ! b)"
  "nId (setPrev h a p ! b) = nId (h ! b)" "nNext (setPrev h a p ! b) = nNext (h ! b)"
  "a < length h \<Longrightarrow> nPrev (setPrev h a p ! b) = (if a = b then p else nPrev (h ! b))"
  "b \<noteq> a \<Longrightarrow> nPrev (setPrev h a p ! b) = nPrev (h ! b)"
  by (auto simp: setPrev_def update_nth)

lemma setNext_same: "nNext (h ! a) = p \<Longrightarrow> setNext h a p = h"
  unfolding setNext_def by (metis list_update_id node.surjective node.update_convs(4))

lemma setPrev_same: "nPrev (h ! a) = p \<Longrightarrow> setPrev h a p = h"
  unfolding setPrev_def by (metis list_update_id node.surjective node.update_convs(5))

lemma setNext_setNext [simp]: "setNext (setNext h a p) a q = setNext h a q"
  by (cases "a < length h") (auto simp: setNext_def list_update_beyond)

lemma setPrev_setPrev [simp]: "setPrev (setPrev h a p) a q = setPrev h a q"
  by (cases "a < length h") (auto simp: setPrev_def list_update_beyond)

lemma setNext_setPrev: "a \<noteq> b \<Longrightarrow> setNext (setPrev h b q) a p = setPrev (setNext h a p) b q"
  by (simp add: setNext_def setPrev_def list_update_swap)

section \<open>Doubly linked lists\<close>

definition firstOf :: "nat list \<Rightarrow> nat option \<Rightarrow> nat option" where
  "firstOf xs q = (case xs of [] \<Rightarrow> q | x # _ \<Rightarrow> Some x)"

definition lastOf :: "nat option \<Rightarrow> nat list \<Rightarrow> nat option" where
  "lastOf p xs = (if xs = [] then p else Some (last xs))"

lemma firstOf_simps [simp]: "firstOf [] q = q" "firstOf (x # xs) q = Some x"
  by (simp_all add: firstOf_def)

lemma firstOf_append [simp]: "firstOf (xs @ ys) q = firstOf xs (firstOf ys q)"
  by (cases xs) simp_all

lemma lastOf_simps [simp]: "lastOf p [] = p" "lastOf p (x # xs) = lastOf (Some x) xs"
  "lastOf p (xs @ [x]) = Some x"
  by (simp_all add: lastOf_def)

fun seg :: "'v heap \<Rightarrow> nat option \<Rightarrow> nat list \<Rightarrow> nat option \<Rightarrow> bool" where
  "seg h p [] q \<longleftrightarrow> True"
| "seg h p (a # as) q \<longleftrightarrow>
     a < length h \<and> nPrev (h ! a) = p \<and> nNext (h ! a) = firstOf as q \<and> seg h (Some a) as q"

definition dll :: "'v heap \<Rightarrow> nat list \<Rightarrow> bool" where
  "dll h xs \<longleftrightarrow> distinct xs \<and> seg h None xs None"

lemma seg_append: "seg h p (xs @ ys) q \<longleftrightarrow> seg h p xs (firstOf ys q) \<and> seg h (lastOf p xs) ys q"
  by (induction xs arbitrary: p) auto

lemma seg_less: "seg h p xs q \<Longrightarrow> a \<in> set xs \<Longrightarrow> a < length h"
  by (induction xs arbitrary: p) auto

lemma seg_setNext [simp]: "a \<notin> set xs \<Longrightarrow> seg (setNext h a v) p xs q \<longleftrightarrow> seg h p xs q"
  by (induction xs arbitrary: p) auto

lemma seg_setPrev [simp]: "a \<notin> set xs \<Longrightarrow> seg (setPrev h a v) p xs q \<longleftrightarrow> seg h p xs q"
  by (induction xs arbitrary: p) auto

lemma seg_end: "seg h p (xs @ [a]) q \<Longrightarrow> a \<notin> set xs \<Longrightarrow> seg (setNext h a v) p (xs @ [a]) v"
  by (auto simp: seg_append)

lemma seg_start: "seg h p (a # xs) q \<Longrightarrow> a \<notin> set xs \<Longrightarrow> seg (setPrev h a v) v (a # xs) q"
  by auto

text \<open>Taking a node out of the list, and putting it back.\<close>

definition unlink :: "'v heap \<Rightarrow> nat \<Rightarrow> 'v heap" where
  "unlink h a =
     (let h = setNext h (the (nPrev (h ! a))) (nNext (h ! a))
      in case nNext (h ! a) of None \<Rightarrow> h | Some b \<Rightarrow> setPrev h b (nPrev (h ! a)))"

definition relink :: "'v heap \<Rightarrow> nat \<Rightarrow> 'v heap" where
  "relink h a =
     (let h = setNext h (the (nPrev (h ! a))) (Some a)
      in case nNext (h ! a) of None \<Rightarrow> h | Some b \<Rightarrow> setPrev h b (Some a))"

lemma dll_split:
  assumes "dll h (xs @ u # a # ys)"
  shows "u \<noteq> a" "u \<notin> set xs" "a \<notin> set xs" "u \<notin> set ys" "a \<notin> set ys" "nPrev (h ! a) = Some u" "nNext (h ! a) = firstOf ys None"
    "nNext (h ! u) = Some a" "u < length h" "a < length h" "distinct (xs @ ys)"
  using assms by (auto simp: dll_def seg_append)

lemma unlink_fields [simp]:
  "length (unlink h a) = length h" "nValue (unlink h a ! b) = nValue (h ! b)"
  "nMatch (unlink h a ! b) = nMatch (h ! b)" "nId (unlink h a ! b) = nId (h ! b)"
  by (auto simp: unlink_def split: option.split)

lemma dll_unlink:
  assumes "dll h (xs @ u # a # ys)"
  shows "dll (unlink h a) (xs @ u # ys)"
proof -
  note s = dll_split[OF assms]
  have seg: "seg h None xs (Some u)" "nPrev (h ! u) = lastOf None xs" "seg h (Some a) ys None"
    using assms by (auto simp: dll_def seg_append)
  show ?thesis
  proof (cases ys)
    case Nil
    then show ?thesis using s seg by (auto simp: dll_def unlink_def seg_append)
  next
    case (Cons b zs)
    have d: "b \<notin> set zs" "b \<noteq> u" "b \<notin> set xs" "b \<noteq> a" using s Cons assms by (auto simp: dll_def)
    then show ?thesis using s seg Cons by (auto simp: dll_def unlink_def seg_append)
  qed
qed

lemma relink_unlink:
  assumes "dll h (xs @ u # a # ys)"
  shows "relink (unlink h a) a = h"
proof -
  note s = dll_split[OF assms]
  show ?thesis
  proof (cases ys)
    case Nil
    then show ?thesis using s by (simp add: unlink_def relink_def setNext_same)
  next
    case (Cons b zs)
    have b: "nPrev (h ! b) = Some a" "b \<noteq> u" "b \<noteq> a" using assms Cons by (auto simp: dll_def seg_append)
    then show ?thesis using s Cons
      by (simp add: unlink_def relink_def setNext_setPrev setNext_same setPrev_same)
  qed
qed

section \<open>Lift and unlift\<close>

lemma lift_unlinks:
  assumes "dll h (xs @ u # e # ys @ m # zs)" "nMatch (h ! e) = Some m"
  shows "lift h e = Some (unlink (unlink h e) m)"
proof -
  note s = dll_split[OF assms(1)]
  have n: "nNext (h ! e) = firstOf (ys @ m # zs) None" using s by simp
  then obtain n where n: "nNext (h ! e) = Some n" by (cases ys) auto
  have "dll (unlink h e) ((xs @ u # ys) @ m # zs)" using dll_unlink[OF assms(1)] by simp
  moreover obtain ws w where "xs @ u # ys = ws @ [w]" by (metis append_is_Nil_conv list.distinct(1) rev_exhaust)
  ultimately have "dll (unlink h e) (ws @ w # m # zs)" by simp
  note t = dll_split[OF this]
  have u: "unlink h e = setPrev (setNext h u (Some n)) n (Some u)"
    using s(1,6,9) n by (simp add: unlink_def)
  let ?rest = "\<lambda>g. do { mprev \<leftarrow> nPrev (g ! m); let g = setNext g mprev (nNext (g ! m));
      Some (case nNext (g ! m) of None \<Rightarrow> g | Some mnext \<Rightarrow> setPrev g mnext (nPrev (g ! m)))}"
  have "lift h e = ?rest (unlink h e)" unfolding u using s(1,6,9) n assms(2) by (simp add: lift_def cong: option.case_cong)
  also have "\<dots> = Some (unlink (unlink h e) m)" using t by (simp add: unlink_def[of "unlink h e"])
  finally show ?thesis .
qed

lemma dll_lift:
  assumes "dll h (xs @ u # e # ys @ m # zs)" "nMatch (h ! e) = Some m"
  shows "\<exists>h'. lift h e = Some h' \<and> dll h' (xs @ u # ys @ zs) \<and> unlift h' e = Some h \<and>
    length h' = length h \<and> (\<forall>b. nValue (h' ! b) = nValue (h ! b) \<and> nMatch (h' ! b) = nMatch (h ! b) \<and> nId (h' ! b) = nId (h ! b))"
proof -
  let ?g = "unlink h e" and ?h = "unlink (unlink h e) m"
  obtain ws w where ws: "xs @ u # ys = ws @ [w]" by (metis append_is_Nil_conv list.distinct(1) rev_exhaust)
  have "dll ?g ((xs @ u # ys) @ m # zs)" using dll_unlink[OF assms(1)] by simp
  then have g: "dll ?g (ws @ w # m # zs)" using ws by simp
  have h: "dll ?h (ws @ w # zs)" by (rule dll_unlink[OF g])
  note s = dll_split[OF assms(1)] and t = dll_split[OF g]
  have me: "m \<noteq> e" using s by auto
  have r: "relink ?h m = ?g" by (rule relink_unlink[OF g])
  have r2: "relink ?g e = h" by (rule relink_unlink[OF assms(1)])
  obtain n where n: "nNext (h ! e) = Some n" using s by (cases ys) auto
  have ne: "n \<noteq> e" "n \<noteq> u" using s n by (cases ys; auto)+
  have ge: "?g ! e = h ! e"
    using s(1,6,9,10) n ne by (simp add: unlink_def setPrev_def setNext_def nth_list_update)
  have hm: "?h ! m = ?g ! m"
    using t by (cases zs) (auto simp: unlink_def setPrev_def setNext_def nth_list_update)
  have "unlift ?h e = Some h"
  proof -
    have "unlift ?h e = (let g = relink ?h m in do { prev \<leftarrow> nPrev (g ! e); let g = setNext g prev (Some e);
        next \<leftarrow> nNext (g ! e); Some (setPrev g next (Some e))})"
      using t hm assms(2) by (simp add: unlift_def relink_def split: option.split)
    also have "\<dots> = Some (relink ?g e)" unfolding r using s(1,6,9,10) n ge by (simp add: relink_def)
    finally show ?thesis using r2 by simp
  qed
  moreover have "ws @ w # zs = xs @ u # ys @ zs" using arg_cong[OF ws, of "\<lambda>l. l @ zs"] by simp
  ultimately show ?thesis using lift_unlinks[OF assms] h by (intro exI[of _ ?h]) (simp only: unlink_fields, simp)
qed

section \<open>Building the list\<close>

lemma seg_snoc: "\<forall>x \<in> set xs. x < length h \<Longrightarrow> seg (h @ [nd]) p xs q \<longleftrightarrow> seg h p xs q"
  by (induction xs arbitrary: p) (auto simp: nth_append)

lemma seg_all_less: "seg h p xs q \<Longrightarrow> \<forall>x \<in> set xs. x < length h"
  using seg_less by blast

lemma insertBefore_fields [simp]:
  "length (insertBefore h n mark) = length h" "nValue (insertBefore h n mark ! b) = nValue (h ! b)"
  "nMatch (insertBefore h n mark ! b) = nMatch (h ! b)" "nId (insertBefore h n mark ! b) = nId (h ! b)"
  by (auto simp: insertBefore_def split: option.split)

lemma dll_insertBefore:
  assumes "dll h xs" "nNext nd = None" "nPrev nd = None"
  shows "dll (insertBefore (h @ [nd]) (length h) (firstOf xs None)) (length h # xs)"
proof -
  have lt: "\<forall>x \<in> set xs. x < length h" using assms(1) seg_all_less unfolding dll_def by blast
  then have new: "length h \<notin> set xs" by blast
  have seg: "seg (h @ [nd]) None xs None" using assms(1) seg_snoc[OF lt] by (simp add: dll_def)
  show ?thesis
  proof (cases xs)
    case Nil
    then show ?thesis using assms by (simp add: dll_def insertBefore_def)
  next
    case (Cons x ys)
    have x: "x < length h" "x \<noteq> length h" "x \<notin> set ys" "distinct ys" "length h \<notin> set ys"
      using lt Cons assms(1) new by (auto simp: dll_def)
    have i: "insertBefore (h @ [nd]) (length h) (firstOf xs None) =
        setNext (setPrev (h @ [nd]) x (Some (length h))) (length h) (Some x)"
      using seg Cons by (simp add: insertBefore_def)
    show ?thesis using seg x assms(2,3) unfolding i unfolding Cons by (simp add: dll_def)
  qed
qed

lemma nodeLength_seg: "seg h p xs None \<Longrightarrow> nodeLength h (firstOf xs None) l = Some (l + length xs)"
  by (induction xs arbitrary: p l; subst nodeLength.simps) auto

text \<open>What the nodes of a list of entries hold; the entries are given in the order in which
  they are linked, the last one of the history first.\<close>

definition nodesOf :: "'v entry list \<Rightarrow> 'v heap \<Rightarrow> bool" where
  "nodesOf re h \<longleftrightarrow>
     (\<forall>a < length re. nValue (h ! a) = Some (eValue (re ! a)) \<and> nId (h ! a) = eId (re ! a) \<and>
        (\<forall>b. nMatch (h ! a) = Some b \<longleftrightarrow>
           eKind (re ! a) = callEntry \<and> b < a \<and> eKind (re ! b) = returnEntry \<and> eId (re ! b) = eId (re ! a)))"

definition returnsOf :: "'v entry list \<Rightarrow> (int \<rightharpoonup> nat) \<Rightarrow> bool" where
  "returnsOf re m \<longleftrightarrow> (\<forall>i b. m i = Some b \<longleftrightarrow> b < length re \<and> eKind (re ! b) = returnEntry \<and> eId (re ! b) = i)"

lemma returnsOf_call: "returnsOf re m \<Longrightarrow> eKind e = callEntry \<Longrightarrow> returnsOf (re @ [e]) m"
  by (auto simp: returnsOf_def nth_append less_Suc_eq)

lemma returnsOf_return:
  assumes "returnsOf re m" "eKind e = returnEntry" "(returnEntry, eId e) \<notin> (\<lambda>e. (eKind e, eId e)) ` set re"
  shows "returnsOf (re @ [e]) (m(eId e \<mapsto> length re))"
proof -
  have "eId (re ! b) \<noteq> eId e" if "b < length re" "eKind (re ! b) = returnEntry" for b
    using assms(3) that by (metis (mono_tags, lifting) image_eqI nth_mem)
  then show ?thesis using assms(1,2) by (auto simp: returnsOf_def nth_append less_Suc_eq)
qed

lemma nodesOf_snoc:
  assumes "nodesOf re h" "length h = length re" "nValue nd = Some (eValue e)" "nId nd = eId e"
    and "\<forall>b. nMatch nd = Some b \<longleftrightarrow>
      eKind e = callEntry \<and> b < length re \<and> eKind (re ! b) = returnEntry \<and> eId (re ! b) = eId e"
  shows "nodesOf (re @ [e]) (insertBefore (h @ [nd]) n mark)"
  using assms by (auto simp: nodesOf_def nth_append less_Suc_eq)

lemma linkLoop_links:
  assumes "dll h (rev [0..<length dn])" "length h = length dn" "nodesOf dn h" "returnsOf dn m"
    and "root = firstOf (rev [0..<length dn]) None" "distinct (map (\<lambda>e. (eKind e, eId e)) (dn @ todo))"
  shows "\<exists>h'. linkLoop todo h root m = (h', firstOf (rev [0..<length (dn @ todo)]) None) \<and>
    dll h' (rev [0..<length (dn @ todo)]) \<and> length h' = length (dn @ todo) \<and> nodesOf (dn @ todo) h'"
  using assms
proof (induction todo arbitrary: h root m dn)
  case (Cons e todo)
  let ?k = "length dn"
  define nd where "nd = \<lparr>nValue = Some (eValue e), nMatch = (if eKind e = returnEntry then None else m (eId e)),
    nId = eId e, nNext = None, nPrev = None\<rparr>"
  define m' where "m' = (if eKind e = returnEntry then m(eId e \<mapsto> ?k) else m)"
  let ?h = "insertBefore (h @ [nd]) ?k root"
  have step: "linkLoop (e # todo) h root m = linkLoop todo ?h (Some ?k) m'"
    using Cons.prems(2) by (simp add: nd_def m'_def)
  have "dll ?h (?k # rev [0..<?k])"
    using dll_insertBefore[OF Cons.prems(1), of nd] Cons.prems(2,5) by (simp add: nd_def)
  then have d: "dll ?h (rev [0..<length (dn @ [e])])" by simp
  have n: "nodesOf (dn @ [e]) ?h"
    by (rule nodesOf_snoc[OF Cons.prems(3,2)]) (use Cons.prems(4) in \<open>auto simp: nd_def returnsOf_def intro: entryKind.exhaust\<close>)
  have r: "returnsOf (dn @ [e]) m'"
    using returnsOf_call[OF Cons.prems(4), of e] returnsOf_return[OF Cons.prems(4), of e] Cons.prems(6)
    by (cases "eKind e") (auto simp: m'_def)
  show ?case unfolding step
    using Cons.IH[OF d _ n r, of "Some ?k"] Cons.prems(2,6) by simp
qed simp

end
