(* ===== verification/PorcupineSearch.thy ===== *)
theory PorcupineSearch
  imports PorcupineHeap
begin

text \<open>
  The search of the checker, on the list of nodes that are still linked.

  A node is named by its address: in a history of \<open>N\<close> entries the addresses run from \<open>N - 1\<close> for
  the first entry down to \<open>0\<close> for the last.  \<open>m\<close> gives the return of a call and \<open>None\<close> for a return;
  \<open>f s c\<close> is the state after call \<open>c\<close> in state \<open>s\<close>, or \<open>None\<close> if the model does not accept it there.
\<close>

section \<open>The choices that are left\<close>

definition remaining :: "nat \<Rightarrow> (nat \<Rightarrow> nat option) \<Rightarrow> nat set \<Rightarrow> nat list" where
  "remaining N m C = filter (\<lambda>a. a \<notin> C \<and> (\<forall>c \<in> C. m c \<noteq> Some a)) (rev [0..<N])"

text \<open>
  A set \<open>C\<close> of linearized calls in state \<open>s\<close> can be completed if nothing is left, or if some call
  before the first return that is left is accepted and the rest can be completed.
\<close>

inductive completes :: "nat \<Rightarrow> (nat \<Rightarrow> nat option) \<Rightarrow> ('s \<Rightarrow> nat \<Rightarrow> 's option) \<Rightarrow> nat set \<Rightarrow> 's \<Rightarrow> bool"
  for N m f where
  finish: "remaining N m C = [] \<Longrightarrow> completes N m f C s"
| choose: "\<lbrakk>remaining N m C = xs @ c # ys; \<forall>x \<in> set xs. m x \<noteq> None; m c \<noteq> None; f s c = Some s';
    completes N m f (insert c C) s'\<rbrakk> \<Longrightarrow> completes N m f C s"

inductive_cases completesE: "completes N m f C s"

definition dead :: "nat \<Rightarrow> (nat \<Rightarrow> nat option) \<Rightarrow> ('s \<Rightarrow> nat \<Rightarrow> 's option) \<Rightarrow> nat set \<Rightarrow> 's \<Rightarrow> nat \<Rightarrow> bool" where
  "dead N m f C s x \<longleftrightarrow> m x \<noteq> None \<and> (\<forall>s'. f s x = Some s' \<longrightarrow> \<not> completes N m f (insert x C) s')"

lemma remaining_distinct [simp]: "distinct (remaining N m C)"
  by (simp add: remaining_def)

lemma remaining_set: "a \<in> set (remaining N m C) \<longleftrightarrow> a < N \<and> a \<notin> C \<and> (\<forall>c \<in> C. m c \<noteq> Some a)"
  by (auto simp: remaining_def)

lemma remaining_insert:
  "remaining N m (insert c C) = filter (\<lambda>a. a \<noteq> c \<and> m c \<noteq> Some a) (remaining N m C)"
  unfolding remaining_def filter_filter by (rule filter_cong) auto

lemma remaining_empty [simp]: "remaining N m {} = rev [0..<N]"
  by (simp add: remaining_def filter_id_conv)

lemma remaining_sorted: "sorted_wrt (>) (remaining N m C)"
  unfolding remaining_def by (intro sorted_wrt_filter) (simp add: sorted_wrt_rev)

text \<open>If all calls before the first return are dead choices, the configuration cannot be
  completed.\<close>

lemma dead_end:
  assumes "remaining N m C = xs @ r # ys" "m r = None" "\<forall>x \<in> set xs. dead N m f C s x"
  shows "\<not> completes N m f C s"
proof
  assume "completes N m f C s"
  then show False
  proof cases
    case finish
    then show False using assms(1) by simp
  next
    case (choose us c vs s')
    have eq: "us @ c # vs = xs @ r # ys" using assms(1) choose(1) by simp
    have "r \<notin> set us" using assms(2) choose(2) by auto
    moreover have "c \<noteq> r" using assms(2) choose(3) by auto
    ultimately have "c \<in> set xs" using eq
      by (induction us arbitrary: xs) (auto simp: Cons_eq_append_conv append_eq_Cons_conv)
    then show False using assms(3) choose(4,5) by (auto simp: dead_def)
  qed
qed

section \<open>Calls and their returns\<close>

locale calls_and_returns =
  fixes N :: nat and m :: "nat \<Rightarrow> nat option" and sid :: "nat \<Rightarrow> int" and n :: nat
  assumes match_less: "a < N \<Longrightarrow> m a = Some b \<Longrightarrow> b < a"
    and match_return: "a < N \<Longrightarrow> m a = Some b \<Longrightarrow> m b = None"
    and match_inj: "a < N \<Longrightarrow> a' < N \<Longrightarrow> m a = Some b \<Longrightarrow> m a' = Some b \<Longrightarrow> a = a'"
    and match_onto: "b < N \<Longrightarrow> m b = None \<Longrightarrow> \<exists>a < N. m a = Some b"
    and id_range: "a < N \<Longrightarrow> 0 \<le> sid a \<and> sid a < int n"
    and id_inj: "a < N \<Longrightarrow> a' < N \<Longrightarrow> m a \<noteq> None \<Longrightarrow> m a' \<noteq> None \<Longrightarrow> sid a = sid a' \<Longrightarrow> a = a'"
begin

definition callSet :: "nat set \<Rightarrow> bool" where
  "callSet C \<longleftrightarrow> (\<forall>a \<in> C. a < N \<and> m a \<noteq> None)"

lemma callSet_insert: "callSet C \<Longrightarrow> c < N \<Longrightarrow> m c \<noteq> None \<Longrightarrow> callSet (insert c C)"
  by (auto simp: callSet_def)

lemma callSet_empty [simp]: "callSet {}"
  by (simp add: callSet_def)

text \<open>A call that is left comes with its return, later in the list.\<close>

lemma return_left:
  assumes "callSet C" "c \<in> set (remaining N m C)" "m c = Some r"
  shows "r \<in> set (remaining N m C)"
proof -
  have c: "c < N" "c \<notin> C" using assms(2) by (simp_all add: remaining_set)
  have "r < N" using match_less[OF c(1) assms(3)] c(1) by simp
  moreover have "r \<notin> C" using match_return[OF c(1) assms(3)] assms(1) by (auto simp: callSet_def)
  moreover have "\<forall>d \<in> C. m d \<noteq> Some r" using match_inj[OF _ c(1) _ assms(3)] c(2) assms(1) by (auto simp: callSet_def)
  ultimately show ?thesis by (simp add: remaining_set)
qed

lemma call_left:
  assumes "callSet C" "r \<in> set (remaining N m C)" "m r = None"
  obtains c where "c \<in> set (remaining N m C)" "m c = Some r"
proof -
  have r: "r < N" "\<forall>d \<in> C. m d \<noteq> Some r" using assms(2) by (simp_all add: remaining_set)
  obtain c where c: "c < N" "m c = Some r" using match_onto[OF r(1) assms(3)] by blast
  have "c \<notin> C" using c(2) r(2) by auto
  moreover have "\<forall>d \<in> C. m d \<noteq> Some c" using match_return assms(1) c(2) by (fastforce simp: callSet_def)
  ultimately show ?thesis using that[OF _ c(2)] c(1) by (simp add: remaining_set)
qed

lemma return_behind:
  assumes "callSet C" "remaining N m C = xs @ c # ys" "m c = Some r"
  shows "r \<in> set ys"
proof -
  have c: "c \<in> set (remaining N m C)" using assms(2) by simp
  have r: "r \<in> set (xs @ c # ys)" using return_left[OF assms(1) c assms(3)] assms(2) by simp
  have "r < c" using match_less[OF _ assms(3)] c by (simp add: remaining_set)
  moreover have "\<forall>x \<in> set xs. x > c" using remaining_sorted[of N m C] unfolding assms(2) by (auto simp: sorted_wrt_append)
  ultimately show ?thesis using r by fastforce
qed

text \<open>The last node that is left is a return.\<close>

lemma some_return_left:
  assumes "callSet C" "remaining N m C = xs @ ys" "\<forall>x \<in> set xs. m x \<noteq> None" "remaining N m C \<noteq> []"
  shows "ys \<noteq> []"
proof
  assume "ys = []"
  then have all: "\<forall>x \<in> set (remaining N m C). m x \<noteq> None" using assms(2,3) by simp
  obtain c where c: "c \<in> set (remaining N m C)" using assms(4) by (cases "remaining N m C") auto
  then obtain r where r: "m c = Some r" using all by auto
  have "r \<in> set (remaining N m C)" by (rule return_left[OF assms(1) c r])
  moreover have "m r = None" using match_return[OF _ r] c by (simp add: remaining_set)
  ultimately show False using all by auto
qed

text \<open>Taking a call and its return out of the list.\<close>

lemma remaining_take:
  assumes "callSet C" "remaining N m C = xs @ c # ys" "m c = Some r"
  obtains us vs where "ys = us @ r # vs" "remaining N m (insert c C) = xs @ us @ vs"
proof -
  obtain us vs where ys: "ys = us @ r # vs" using return_behind[OF assms] by (auto simp: in_set_conv_decomp)
  have d: "distinct (xs @ c # us @ r # vs)" using remaining_distinct[of N m C] unfolding assms(2) ys by simp
  have "filter (\<lambda>a. a \<noteq> c \<and> m c \<noteq> Some a) (xs @ c # us @ r # vs) = xs @ us @ vs"
  proof -
    have "filter (\<lambda>a. a \<noteq> c \<and> m c \<noteq> Some a) ws = ws" if "c \<notin> set ws" "r \<notin> set ws" for ws
      using that assms(3) by (induction ws) auto
    then show ?thesis using d assms(3) by simp
  qed
  then show ?thesis using that[OF ys] unfolding remaining_insert assms(2) ys by simp
qed

text \<open>The set of identifiers of a set of calls.\<close>

definition idSet :: "nat set \<Rightarrow> nat set" where
  "idSet C = (\<lambda>c. nat (sid c)) ` C"

lemma idSet_insert [simp]: "idSet (insert c C) = insert (nat (sid c)) (idSet C)"
  by (simp add: idSet_def)

lemma idSet_empty [simp]: "idSet {} = {}"
  by (simp add: idSet_def)

lemma nat_id_inj:
  assumes "a < N" "a' < N" "m a \<noteq> None" "m a' \<noteq> None" "nat (sid a) = nat (sid a')"
  shows "a = a'"
proof -
  have "sid a = sid a'" using id_range[OF assms(1)] id_range[OF assms(2)] assms(5) by linarith
  then show ?thesis by (rule id_inj[OF assms(1-4)])
qed

lemma idSet_inj:
  assumes "callSet C" "callSet D"
  shows "idSet C = idSet D \<longleftrightarrow> C = D"
proof -
  have "inj_on (\<lambda>c. nat (sid c)) (C \<union> D)"
  proof (rule inj_onI)
    fix a b assume "a \<in> C \<union> D" "b \<in> C \<union> D" and eq: "nat (sid a) = nat (sid b)"
    then have "a < N" "m a \<noteq> None" "b < N" "m b \<noteq> None" using assms unfolding callSet_def by blast+
    then show "a = b" using eq nat_id_inj by blast
  qed
  then show ?thesis unfolding idSet_def by (metis inj_on_Un_image_eq_iff)
qed

lemma idSet_new:
  assumes "callSet C" "c < N" "m c \<noteq> None" "c \<notin> C"
  shows "nat (sid c) \<notin> idSet C"
proof
  assume "nat (sid c) \<in> idSet C"
  then obtain d where d: "d \<in> C" "nat (sid c) = nat (sid d)" unfolding idSet_def by blast
  then have "c = d" using nat_id_inj[of c d] assms unfolding callSet_def by blast
  then show False using d(1) assms(4) by simp
qed

lemma callSet_finite: "callSet C \<Longrightarrow> finite C"
  by (rule finite_subset[of _ "{..<N}"]) (auto simp: callSet_def)

end

section \<open>The heap during the search\<close>

text \<open>The heap of a search is the heap it started with, with the calls on the stack lifted one
  after the other.\<close>

primrec lifts :: "'v heap \<Rightarrow> nat list \<Rightarrow> 'v heap option" where
  "lifts h [] = Some h"
| "lifts h (e # es) = Option.bind (lift h e) (\<lambda>h. lifts h es)"

lemma lifts_snoc: "lifts h (es @ [e]) = Option.bind (lifts h es) (\<lambda>h. lift h e)"
  by (induction es arbitrary: h) (auto split: Option.bind_splits)

definition sameNodes :: "'v heap \<Rightarrow> 'v heap \<Rightarrow> bool" where
  "sameNodes h g \<longleftrightarrow> (\<forall>b. nValue (h ! b) = nValue (g ! b) \<and> nMatch (h ! b) = nMatch (g ! b) \<and> nId (h ! b) = nId (g ! b))"

text \<open>What a call does to the state, according to the nodes and the model.\<close>

definition accept :: "'v heap \<Rightarrow> ('v, 's) Model \<Rightarrow> 's \<Rightarrow> nat \<Rightarrow> 's option" where
  "accept h model s a =
     (case nMatch (h ! a) of
        None \<Rightarrow> None
      | Some b \<Rightarrow>
          (case Step model s (the (nValue (h ! a))) (the (nValue (h ! b))) of
             Some (True, s') \<Rightarrow> Some s'
           | _ \<Rightarrow> None))"

lemma accept_same: "sameNodes h g \<Longrightarrow> accept h model = accept g model"
  by (intro ext) (simp add: accept_def sameNodes_def cong: option.case_cong)

primrec runs :: "('s \<Rightarrow> nat \<Rightarrow> 's option) \<Rightarrow> 's \<Rightarrow> nat list \<Rightarrow> 's option" where
  "runs f s [] = Some s"
| "runs f s (a # p) = Option.bind (f s a) (\<lambda>s'. runs f s' p)"

lemma runs_snoc: "runs f s (p @ [a]) = Option.bind (runs f s p) (\<lambda>t. f t a)"
  by (induction p arbitrary: s) (auto split: Option.bind_splits)

section \<open>The stack\<close>

text \<open>Each call on the stack was chosen after all calls before it turned out to be dead.\<close>

inductive stack :: "nat \<Rightarrow> (nat \<Rightarrow> nat option) \<Rightarrow> ('s \<Rightarrow> nat \<Rightarrow> 's option) \<Rightarrow> 's \<Rightarrow> (nat \<times> 's) list \<Rightarrow> 's \<Rightarrow> bool"
  for N m f init where
  empty: "stack N m f init [] init"
| push: "\<lbrakk>stack N m f init cs s; remaining N m (set (map fst cs)) = xs @ c # ys;
    \<forall>x \<in> set xs. dead N m f (set (map fst cs)) s x; m c \<noteq> None; f s c = Some s'\<rbrakk>
    \<Longrightarrow> stack N m f init (cs @ [(c, s)]) s'"

inductive_cases stack_emptyE: "stack N m f init [] s"

lemma stack_popE:
  assumes "stack N m f init (cs @ [(c, t)]) s"
  obtains xs ys where "stack N m f init cs t" "remaining N m (set (map fst cs)) = xs @ c # ys"
    "\<forall>x \<in> set xs. dead N m f (set (map fst cs)) t x" "m c \<noteq> None" "f t c = Some s"
  using assms by (cases rule: stack.cases) auto

lemma stack_completes:
  "stack N m f init cs s \<Longrightarrow> completes N m f (set (map fst cs)) s \<Longrightarrow> completes N m f {} init"
proof (induction rule: stack.induct)
  case (push cs s xs c ys s')
  have "completes N m f (set (map fst cs)) s"
    by (rule completes.choose[where xs = xs and c = c and ys = ys and s' = s']) (use push in \<open>auto simp: dead_def\<close>)
  then show ?case by (rule push.IH)
qed simp

lemma stack_runs: "stack N m f init cs s \<Longrightarrow> runs f init (map fst cs) = Some s"
  by (induction rule: stack.induct) (auto simp: runs_snoc)

lemma stack_distinct: "stack N m f init cs s \<Longrightarrow> distinct (map fst cs)"
proof (induction rule: stack.induct)
  case (push cs s xs c ys s')
  have "c \<in> set (remaining N m (set (map fst cs)))" using push.hyps(2) by simp
  then show ?case using push.IH by (auto simp: remaining_set)
qed simp

text \<open>The configurations on the stack.\<close>

fun onStack :: "nat set \<Rightarrow> (nat \<times> 's) list \<Rightarrow> 's \<Rightarrow> (nat set \<times> 's) set" where
  "onStack C [] s = {}"
| "onStack C [(c, _)] s = {(insert c C, s)}"
| "onStack C ((c, _) # (d, t) # cs) s = insert (insert c C, t) (onStack (insert c C) ((d, t) # cs) s)"

lemma onStack_snoc:
  "onStack C (cs @ [(c, t)]) s = insert (insert c (C \<union> set (map fst cs)), s) (onStack C cs t)"
proof (induction C cs t rule: onStack.induct)
  case (3 C c u d t cs s')
  then show ?case by (cases cs) (auto simp: insert_commute)
qed auto

lemma onStack_card:
  "(D, t) \<in> onStack C cs s \<Longrightarrow> finite C \<Longrightarrow> card D \<le> card C + length cs"
proof (induction C cs s rule: onStack.induct)
  case (3 C c u d t' cs s)
  have "card (insert c C) \<le> Suc (card C)" by (rule card_insert_le_m1) auto
  then show ?case using 3 by (auto simp: card_insert_if split: if_splits)
qed (auto simp: card_insert_if)

end
