(* ===== verification/PorcupineLoop.thy ===== *)
theory PorcupineLoop
  imports PorcupineSearch
begin

text \<open>
  The loop of \<open>checkSingle\<close>: its invariant, what each iteration does to it, and that it ends.

  The invariant is that of a depth-first search: a cached configuration is on the stack or cannot
  be completed, and so is every choice that was passed over.  An iteration that chooses a call adds
  a configuration to the cache, of which there are finitely many; the others take a call off the
  stack or move forward in the list.
\<close>

context calls_and_returns
begin

text \<open>The heap and the model a search starts with.\<close>

definition started :: "'v heap \<Rightarrow> ('v, 's) Model \<Rightarrow> bool" where
  "started h0 model \<longleftrightarrow>
     dll h0 (N # rev [0..<N]) \<and>
     (\<forall>a < N. nMatch (h0 ! a) = m a \<and> nId (h0 ! a) = sid a \<and> nValue (h0 ! a) \<noteq> None) \<and>
     (\<forall>a < N. \<forall>b s. m a = Some b \<longrightarrow> Step model s (the (nValue (h0 ! a))) (the (nValue (h0 ! b))) \<noteq> None) \<and>
     (\<forall>s t. the (Equal model) s t \<longleftrightarrow> s = t) \<and> n \<le> 2 ^ 64"

lemma lift_step:
  assumes h: "dll h (N # remaining N m C)" and C: "callSet C" and c: "c \<in> set (remaining N m C)" "m c = Some r"
    and nm: "nMatch (h ! c) = Some r"
  shows "\<exists>h'. lift h c = Some h' \<and> dll h' (N # remaining N m (insert c C)) \<and> unlift h' c = Some h \<and> sameNodes h' h"
proof -
  obtain xs ys where x: "remaining N m C = xs @ c # ys" using c(1) by (auto simp: in_set_conv_decomp)
  obtain us vs where y: "ys = us @ r # vs" "remaining N m (insert c C) = xs @ us @ vs"
    by (rule remaining_take[OF C x c(2)])
  obtain ws u where w: "N # xs = ws @ [u]" by (cases "N # xs" rule: rev_exhaust) auto
  have eq: "N # xs @ ts = ws @ u # ts" for ts using arg_cong[OF w, of "\<lambda>l. l @ ts"] by simp
  have "dll h (ws @ u # c # us @ r # vs)" using h unfolding x y(1) eq by simp
  from dll_lift[OF this nm] show ?thesis unfolding y(2) eq sameNodes_def by blast
qed

lemma lifts_heap:
  assumes "started h0 model" "callSet (set es)" "distinct es"
  shows "\<exists>h. lifts h0 es = Some h \<and> dll h (N # remaining N m (set es)) \<and> sameNodes h h0"
  using assms(2,3)
proof (induction es rule: rev_induct)
  case Nil
  then show ?case using assms(1) by (simp add: started_def sameNodes_def)
next
  case (snoc c es)
  then have C: "callSet (set es)" and ces: "c \<notin> set es" "distinct es" "c < N" "m c \<noteq> None" by (auto simp: callSet_def)
  then obtain r where r: "m c = Some r" by auto
  obtain h where h: "lifts h0 es = Some h" "dll h (N # remaining N m (set es))" "sameNodes h h0"
    using snoc.IH[OF C ces(2)] by blast
  have "m d \<noteq> Some c" if "d \<in> set es" for d
    using match_return[of d c] C ces(4) that unfolding callSet_def by auto
  then have c: "c \<in> set (remaining N m (set es))" using ces by (simp add: remaining_set)
  have "nMatch (h ! c) = Some r" using h(3) assms(1) ces(3) r by (simp add: sameNodes_def started_def)
  from lift_step[OF h(2) C c r this] h show ?case by (auto simp: lifts_snoc sameNodes_def)
qed

lemma stack_callSet: "stack N m f init cs s \<Longrightarrow> callSet (set (map fst cs))"
proof (induction rule: stack.induct)
  case (push cs s xs c ys s')
  have "c \<in> set (remaining N m (set (map fst cs)))" using push.hyps(2) by simp
  then show ?case using push by (auto simp: remaining_set callSet_def)
qed simp

section \<open>The invariant\<close>

definition bitsOk :: "nat set \<Rightarrow> bitset \<Rightarrow> bool" where
  "bitsOk C b \<longleftrightarrow> length b = length (newBitset n) \<and> bitsOf b = idSet C"

definition cacheOk :: "'v heap \<Rightarrow> ('v, 's) Model \<Rightarrow> ('v, 's) Search \<Rightarrow> 64 word \<Rightarrow> 's cacheEntry \<Rightarrow> bool" where
  "cacheOk h0 model c hsh ce \<longleftrightarrow>
     bitset_hash (linearized ce) = hsh \<and>
     (\<exists>C. callSet C \<and> bitsOk C (linearized ce) \<and>
        ((C, cstate ce) \<in> onStack {} (calls c) (curState c) \<or> \<not> completes N m (accept h0 model) C (cstate ce)))"

definition reachable :: "'v heap \<Rightarrow> ('v, 's) Model \<Rightarrow> 's cacheEntry set" where
  "reachable h0 model =
     {ce. length (linearized ce) = length (newBitset n) \<and>
        (\<exists>p. distinct p \<and> set p \<subseteq> {..<N} \<and> runs (accept h0 model) (Init model) p = Some (cstate ce))}"

definition cached :: "('v, 's) Search \<Rightarrow> 's cacheEntry set" where
  "cached c = (\<Union>hsh. set (cache c hsh))"

definition called :: "('v, 's) Search \<Rightarrow> nat set" where
  "called c = set (map fst (calls c))"

definition positionOk :: "'v heap \<Rightarrow> ('v, 's) Model \<Rightarrow> ('v, 's) Search \<Rightarrow> nat list \<Rightarrow> nat list \<Rightarrow> bool" where
  "positionOk h0 model c xs ys \<longleftrightarrow>
     remaining N m (called c) = xs @ ys \<and> curEntry c = firstOf ys None \<and>
     (\<forall>x \<in> set xs. dead N m (accept h0 model) (called c) (curState c) x)"

definition searchInv :: "'v heap \<Rightarrow> ('v, 's) Model \<Rightarrow> ('v, 's) Search \<Rightarrow> bool" where
  "searchInv h0 model c \<longleftrightarrow>
     stack N m (accept h0 model) (Init model) (calls c) (curState c) \<and>
     lifts h0 (map fst (calls c)) = Some (heap c) \<and>
     bitsOk (called c) (curLinearized c) \<and>
     (\<exists>xs ys. positionOk h0 model c xs ys) \<and>
     (\<forall>hsh. \<forall>ce \<in> set (cache c hsh). cacheOk h0 model c hsh ce) \<and>
     cached c \<subseteq> reachable h0 model \<and> length (longest c) = n"

definition rest :: "('v, 's) Search \<Rightarrow> nat list" where
  "rest c = dropWhile (\<lambda>x. Some x \<noteq> curEntry c) (remaining N m (called c))"

definition progress :: "'v heap \<Rightarrow> ('v, 's) Model \<Rightarrow> (('v, 's) Search \<times> ('v, 's) Search) set" where
  "progress h0 model = measures [\<lambda>c. card (reachable h0 model - cached c), \<lambda>c. length (calls c), \<lambda>c. length (rest c)]"

lemma rest_eq:
  assumes "positionOk h0 model c xs ys"
  shows "rest c = ys"
proof -
  have d: "distinct (xs @ ys)" using assms remaining_distinct[of N m "called c"] by (simp add: positionOk_def)
  have "dropWhile (\<lambda>x. Some x \<noteq> firstOf ys None) (xs @ ys) = ys"
    using d by (cases ys) (auto simp: dropWhile_append)
  then show ?thesis using assms by (simp add: rest_def positionOk_def)
qed

lemma reachable_finite: "finite (reachable h0 model)"
proof -
  let ?P = "{p. distinct p \<and> set p \<subseteq> {..<N}}"
  have "?P \<subseteq> {p. set p \<subseteq> {..<N} \<and> length p \<le> N}"
    using card_mono[of "{..<N}"] by (auto simp: distinct_card[symmetric])
  then have P: "finite ?P" using finite_lists_length_le[of "{..<N}" N] finite_subset by blast
  let ?B = "{b :: bitset. length b = length (newBitset n)}"
  have B: "finite ?B" using finite_lists_length_eq[of "UNIV :: 64 word set" "length (newBitset n)"] by simp
  have "reachable h0 model \<subseteq> (\<lambda>(b, p). \<lparr>linearized = b, cstate = the (runs (accept h0 model) (Init model) p)\<rparr>) ` (?B \<times> ?P)"
  proof
    fix ce assume "ce \<in> reachable h0 model"
    then obtain p where p: "distinct p" "set p \<subseteq> {..<N}" "runs (accept h0 model) (Init model) p = Some (cstate ce)"
      "length (linearized ce) = length (newBitset n)" by (auto simp: reachable_def)
    have "ce = (\<lambda>(b, p). \<lparr>linearized = b, cstate = the (runs (accept h0 model) (Init model) p)\<rparr>) (linearized ce, p)"
      using p(3) by simp
    then show "ce \<in> (\<lambda>(b, p). \<lparr>linearized = b, cstate = the (runs (accept h0 model) (Init model) p)\<rparr>) ` (?B \<times> ?P)"
      using p(1,2,4) by blast
  qed
  then show ?thesis using finite_subset finite_imageI[OF finite_cartesian_product[OF B P]] by blast
qed

lemma bitsOk_eq: "callSet C \<Longrightarrow> callSet D \<Longrightarrow> bitsOk C b \<Longrightarrow> bitsOk D b2 \<Longrightarrow> b = b2 \<longleftrightarrow> C = D"
  using bitsOf_inj[of b b2] idSet_inj[of C D] by (auto simp: bitsOk_def)

lemma position_room: "a < N \<Longrightarrow> n \<le> 2 ^ 64 \<Longrightarrow> uintOf (sid a) = nat (sid a) \<and> nat (sid a) < 64 * length (newBitset n)"
proof -
  assume a: "a < N" "n \<le> 2 ^ 64"
  have r: "0 \<le> sid a" "sid a < int n" using id_range[OF a(1)] by simp_all
  have "int n \<le> 2 ^ 64" using a(2) by (metis of_nat_le_iff of_nat_numeral of_nat_power)
  then have "sid a < 2 ^ 64" using r(2) by linarith
  then show ?thesis using r newBitset_room[of "nat (sid a)" n] by (simp add: uintOf_def)
qed

section \<open>Facts of a state that satisfies the invariant\<close>

lemma dll_next: "dll h (xs @ a # ys) \<Longrightarrow> nNext (h ! a) = firstOf ys None"
  by (simp add: dll_def seg_append)

lemma inv_facts:
  assumes "started h0 model" "searchInv h0 model c"
  shows "callSet (called c)" "distinct (map fst (calls c))" "dll (heap c) (N # remaining N m (called c))"
    "sameNodes (heap c) h0" "card (called c) = length (calls c)" "finite (called c)"
proof -
  have st: "stack N m (accept h0 model) (Init model) (calls c) (curState c)"
    and l: "lifts h0 (map fst (calls c)) = Some (heap c)"
    using assms(2) by (simp_all add: searchInv_def)
  show C: "callSet (called c)" using stack_callSet[OF st] by (simp add: called_def)
  show d: "distinct (map fst (calls c))" by (rule stack_distinct[OF st])
  show "dll (heap c) (N # remaining N m (called c))" "sameNodes (heap c) h0"
    using lifts_heap[OF assms(1) C[unfolded called_def] d] l by (simp_all add: called_def)
  show "card (called c) = length (calls c)" using distinct_card[OF d] by (simp add: called_def)
  show "finite (called c)" by (rule callSet_finite[OF C])
qed

lemma inv_head: "started h0 model \<Longrightarrow> searchInv h0 model c \<Longrightarrow> nNext (heap c ! N) = firstOf (remaining N m (called c)) None"
  using dll_next[of "heap c" "[]" N] inv_facts(3)[of h0 model c] by simp

section \<open>Moving on\<close>

lemma advance:
  assumes st: "started h0 model" and inv: "searchInv h0 model c" and pos: "positionOk h0 model c xs (e # ys)"
    and dead: "dead N m (accept h0 model) (called c) (curState c) e"
  shows "searchInv h0 model (c\<lparr>curEntry := nNext (heap c ! e)\<rparr>) \<and>
    (c\<lparr>curEntry := nNext (heap c ! e)\<rparr>, c) \<in> progress h0 model"
proof -
  let ?c = "c\<lparr>curEntry := nNext (heap c ! e)\<rparr>"
  have r: "remaining N m (called c) = xs @ e # ys" using pos by (simp add: positionOk_def)
  have nx: "nNext (heap c ! e) = firstOf ys None"
    using inv_facts(3)[OF st inv] dll_next[of "heap c" "N # xs" e ys] r by simp
  have p: "positionOk h0 model ?c (xs @ [e]) ys"
    using pos dead nx r by (auto simp: positionOk_def called_def)
  have "rest ?c = ys" "rest c = e # ys" using rest_eq[OF p] rest_eq[OF pos] by simp_all
  then have "(?c, c) \<in> progress h0 model" by (simp add: progress_def cached_def)
  moreover have "searchInv h0 model ?c"
    using inv p unfolding searchInv_def by (auto simp: called_def cached_def cacheOk_def)
  ultimately show ?thesis by blast
qed

section \<open>Choosing a call\<close>

lemma push_step:
  assumes st: "started h0 model" and inv: "searchInv h0 model c" and pos: "positionOk h0 model c xs (e # ys)"
    and e: "m e = Some r" "accept h0 model (curState c) e = Some s'"
    and b: "bitset_set (curLinearized c) (nat (sid e)) = Some b" "bitsOk (insert e (called c)) b"
    and new: "\<lparr>linearized = b, cstate = s'\<rparr> \<notin> cached c"
    and l: "lift (heap c) e = Some h'" "dll h' (N # remaining N m (insert e (called c)))"
  defines "ce \<equiv> \<lparr>linearized = b, cstate = s'\<rparr>"
  defines "c' \<equiv> c\<lparr>heap := h', curEntry := nNext (h' ! N), curLinearized := b,
      cache := (cache c)(bitset_hash b := cache c (bitset_hash b) @ [ce]),
      calls := calls c @ [(e, curState c)], curState := s'\<rparr>"
  shows "searchInv h0 model c' \<and> (c', c) \<in> progress h0 model"
proof -
  have stk: "stack N m (accept h0 model) (Init model) (calls c) (curState c)"
    and li: "lifts h0 (map fst (calls c)) = Some (heap c)"
    and ca: "\<forall>hsh. \<forall>ce \<in> set (cache c hsh). cacheOk h0 model c hsh ce"
    and re: "cached c \<subseteq> reachable h0 model"
    using inv by (simp_all add: searchInv_def)
  have C: "called c' = insert e (called c)" by (simp add: c'_def called_def)
  have r: "remaining N m (called c) = xs @ e # ys" "\<forall>x \<in> set xs. dead N m (accept h0 model) (called c) (curState c) x"
    using pos by (simp_all add: positionOk_def)
  have me: "m e \<noteq> None" using e(1) by simp
  have stk': "stack N m (accept h0 model) (Init model) (calls c') (curState c')"
    using stack.push[OF stk r[unfolded called_def] me e(2)] by (simp add: c'_def)
  have cc: "callSet (insert e (called c))"
    using stack_callSet[OF stk'] C unfolding called_def by simp
  have on: "onStack {} (calls c') (curState c') = insert (insert e (called c), s') (onStack {} (calls c) (curState c))"
    by (simp add: c'_def onStack_snoc called_def)
  have cache': "cacheOk h0 model c' hsh x" if "x \<in> set (cache c' hsh)" for hsh x
  proof (cases "x \<in> set (cache c hsh)")
    case True
    then show ?thesis using ca unfolding cacheOk_def on by blast
  next
    case False
    then have "x = ce" "hsh = bitset_hash b" using that by (auto simp: c'_def split: if_splits)
    then show ?thesis using cc b(2) unfolding cacheOk_def on ce_def by auto
  qed
  have chd: "cached c' = insert ce (cached c)" by (auto simp: cached_def c'_def split: if_splits)
  have "ce \<in> reachable h0 model"
    using stack_runs[OF stk'] stack_distinct[OF stk'] stack_callSet[OF stk'] b(2)
    unfolding reachable_def ce_def bitsOk_def callSet_def c'_def by (auto intro!: exI[of _ "map fst (calls c')"] simp: c'_def)
  then have re': "cached c' \<subseteq> reachable h0 model" "ce \<in> reachable h0 model - cached c"
    using re new unfolding chd ce_def by blast+
  have "positionOk h0 model c' [] (remaining N m (called c'))"
    using dll_next[of h' "[]"] l(2) unfolding positionOk_def C by (simp add: c'_def)
  then have "searchInv h0 model c'"
    using stk' li l(1) b(2) cache' re'(1) inv unfolding searchInv_def C by (auto simp: c'_def lifts_snoc)
  moreover have "card (reachable h0 model - cached c') < card (reachable h0 model - cached c)"
    using re'(2) reachable_finite unfolding chd by (intro psubset_card_mono) auto
  ultimately show ?thesis by (simp add: progress_def)
qed

lemma set_id:
  assumes st: "started h0 model" and inv: "searchInv h0 model c" and e: "e < N"
  shows "\<exists>b. bitset_set (curLinearized c) (uintOf (sid e)) = Some b \<and> bitsOk (insert e (called c)) b"
proof -
  have n: "n \<le> 2 ^ 64" using st by (simp add: started_def)
  have b: "bitsOk (called c) (curLinearized c)" using inv by (simp add: searchInv_def)
  then have "nat (sid e) < 64 * length (curLinearized c)" using position_room[OF e n] by (simp add: bitsOk_def)
  from bitset_set_bits[OF this] obtain b' where "bitset_set (curLinearized c) (nat (sid e)) = Some b'"
    "length b' = length (curLinearized c)" "bitsOf b' = insert (nat (sid e)) (bitsOf (curLinearized c))" by blast
  then show ?thesis using b position_room[OF e n] by (simp add: bitsOk_def)
qed

text \<open>A configuration that is cached when its call is tried is not on the stack, so it is known to
  have no completion.\<close>

lemma cached_dead:
  assumes st: "started h0 model" and inv: "searchInv h0 model c"
    and e: "e < N" "m e \<noteq> None" "e \<notin> called c" "accept h0 model (curState c) e = Some s'"
    and b: "bitsOk (insert e (called c)) b" "\<lparr>linearized = b, cstate = s'\<rparr> \<in> cached c"
  shows "dead N m (accept h0 model) (called c) (curState c) e"
proof -
  note f = inv_facts[OF st inv]
  obtain hsh where "\<lparr>linearized = b, cstate = s'\<rparr> \<in> set (cache c hsh)" using b(2) by (auto simp: cached_def)
  then have "cacheOk h0 model c hsh \<lparr>linearized = b, cstate = s'\<rparr>" using inv by (simp add: searchInv_def)
  then obtain D where D: "callSet D" "bitsOk D b"
    "(D, s') \<in> onStack {} (calls c) (curState c) \<or> \<not> completes N m (accept h0 model) D s'"
    by (auto simp: cacheOk_def)
  have eq: "D = insert e (called c)"
    using bitsOk_eq[OF D(1) callSet_insert[OF f(1) e(1,2)] D(2) b(1)] by simp
  have "card D = Suc (length (calls c))" using e(3) f(5,6) unfolding eq by simp
  then have "(D, s') \<notin> onStack {} (calls c) (curState c)" using onStack_card[of D s' "{}" "calls c"] by fastforce
  then show ?thesis using D(3) e(2,4) unfolding dead_def eq by auto
qed

lemma cacheContains_cached:
  assumes "started h0 model" "searchInv h0 model c"
  shows "cacheContains model (cache c) ce \<longleftrightarrow> ce \<in> cached c"
proof -
  have eq: "the (Equal model) s t \<longleftrightarrow> s = t" for s t using assms(1) by (simp add: started_def)
  have hash: "x \<in> set (cache c hsh) \<Longrightarrow> bitset_hash (linearized x) = hsh" for x hsh
    using assms(2) by (auto simp: searchInv_def cacheOk_def)
  have "linearized ce = linearized x \<and> cstate ce = cstate x \<longleftrightarrow> ce = x" for x by (cases ce; cases x) auto
  then have "cacheContains model (cache c) ce \<longleftrightarrow> ce \<in> set (cache c (bitset_hash (linearized ce)))"
    by (simp add: cacheContains_def eq list_ex_iff)
  then show ?thesis using hash by (auto simp: cached_def)
qed

lemma try_step:
  assumes st: "started h0 model" and inv: "searchInv h0 model c" and pos: "positionOk h0 model c xs (e # ys)"
    and e: "m e = Some r"
  shows "\<exists>c'. tryCall model N c e r = Running c' \<and> searchInv h0 model c' \<and> (c', c) \<in> progress h0 model"
proof -
  note f = inv_facts[OF st inv]
  have rem: "e \<in> set (remaining N m (called c))" using pos by (simp add: positionOk_def)
  have eN: "e < N" "e \<notin> called c" using rem by (simp_all add: remaining_set)
  have rN: "r < N" using match_less[OF eN(1) e] eN(1) by simp
  obtain i out where io: "nValue (h0 ! e) = Some i" "nValue (h0 ! r) = Some out" 
    using st eN(1) rN unfolding started_def by (metis option.exhaust)
  have nd: "nMatch (h0 ! e) = Some r" "nId (h0 ! e) = sid e" using st eN(1) e by (simp_all add: started_def)
  have hn: "nValue (heap c ! e) = Some i" "nValue (heap c ! r) = Some out" "nId (heap c ! e) = sid e" "nMatch (heap c ! e) = Some r"
    using f(4) io nd by (simp_all add: sameNodes_def)
  obtain ok s' where stp: "Step model (curState c) i out = Some (ok, s')"
    using st eN(1) e io unfolding started_def by (metis option.exhaust option.sel surj_pair)
  have acc: "accept h0 model (curState c) e = (if ok then Some s' else None)" by (simp add: accept_def nd io stp)
  obtain b where b: "bitset_set (curLinearized c) (uintOf (sid e)) = Some b" "bitsOk (insert e (called c)) b"
    using set_id[OF st inv eN(1)] by blast
  have n: "n \<le> 2 ^ 64" using st by (simp add: started_def)
  obtain h' where h': "lift (heap c) e = Some h'" "dll h' (N # remaining N m (insert e (called c)))"
    using lift_step[OF f(3,1) rem e hn(4)] by blast
  let ?ce = "\<lparr>linearized = b, cstate = s'\<rparr>"
  show ?thesis
  proof (cases "ok \<and> ?ce \<notin> cached c")
    case True
    have "accept h0 model (curState c) e = Some s'" using acc True by simp
    from push_step[OF st inv pos e this _ b(2) _ h'] b(1) True position_room[OF eN(1) n]
    show ?thesis by (simp add: tryCall_def hn stp cacheContains_cached[OF st inv] b(1) h'(1))
  next
    case False
    have "dead N m (accept h0 model) (called c) (curState c) e"
      using cached_dead[OF st inv eN(1) _ eN(2) _ b(2), of s'] acc e False by (cases ok) (simp_all add: dead_def)
    from advance[OF st inv pos this] show ?thesis
      using False by (cases ok) (simp_all add: tryCall_def hn stp cacheContains_cached[OF st inv] b(1))
  qed
qed

section \<open>Going back\<close>

lemma longestLoop_ok:
  "\<forall>i \<in> set is. 0 \<le> i \<and> i < int (length lng) \<Longrightarrow>
     \<exists>sqs' lng'. longestLoop ids is cur sqs lng = Some (sqs', lng') \<and> length lng' = length lng"
proof (induction "is" arbitrary: cur sqs lng)
  case (Cons i "is")
  show ?case
    using Cons.IH[of "lng[nat i := Some (length sqs)]" "Some (length sqs)" "sqs @ [ids]"] Cons.IH[of lng cur sqs] Cons.prems
      Cons.IH[of "lng[nat i := cur]" cur sqs]
    by (auto split: option.split)
qed simp

lemma pop_step:
  assumes st: "started h0 model" and inv: "searchInv h0 model c" and pos: "positionOk h0 model c xs (r # ys)"
    and r: "m r = None" and cs: "calls c = cs @ [(e, t)]"
  shows "\<exists>c'. backtrack computePartial c = Running c' \<and> searchInv h0 model c' \<and> (c', c) \<in> progress h0 model"
proof -
  note f = inv_facts[OF st inv]
  let ?f = "accept h0 model" and ?C = "set (map fst cs)"
  have nc: "\<not> completes N m ?f (called c) (curState c)"
    using dead_end[of N m "called c" xs r ys ?f "curState c"] pos r by (simp add: positionOk_def)
  have stk: "stack N m ?f (Init model) (cs @ [(e, t)]) (curState c)"
    and li: "lifts h0 (map fst (calls c)) = Some (heap c)"
    and bits: "bitsOk (called c) (curLinearized c)"
    and ca: "\<forall>hsh. \<forall>ce \<in> set (cache c hsh). cacheOk h0 model c hsh ce"
    using inv cs by (simp_all add: searchInv_def)
  obtain us vs where p: "stack N m ?f (Init model) cs t" "remaining N m ?C = us @ e # vs"
    "\<forall>x \<in> set us. dead N m ?f ?C t x" "m e \<noteq> None" "?f t e = Some (curState c)" by (rule stack_popE[OF stk])
  have C: "called c = insert e ?C" by (simp add: called_def cs)
  have cC: "callSet ?C" by (rule stack_callSet[OF p(1)])
  have er: "e \<in> set (remaining N m ?C)" using p(2) by simp
  have eN: "e < N" "e \<notin> ?C" using er unfolding remaining_set by blast+
  obtain q where q: "m e = Some q" using p(4) by auto
  obtain h1 where h1: "lifts h0 (map fst cs) = Some h1" "dll h1 (N # remaining N m ?C)" "sameNodes h1 h0"
    using lifts_heap[OF st cC stack_distinct[OF p(1)]] by blast
  have "nMatch (h1 ! e) = Some q" using h1(3) st eN(1) q by (simp add: sameNodes_def started_def)
  then obtain h2 where h2: "lift h1 e = Some h2" "unlift h2 e = Some h1"
    using lift_step[OF h1(2) cC er q] by blast
  have "h2 = heap c" using li h1(1) h2(1) cs by (simp add: lifts_snoc)
  then have un: "unlift (heap c) e = Some h1" using h2(2) by simp
  have id: "nId (heap c ! e) = sid e" using f(4) st eN(1) by (simp add: sameNodes_def started_def)
  have n: "n \<le> 2 ^ 64" using st by (simp add: started_def)
  have "nat (sid e) < 64 * length (curLinearized c)" using bits position_room[OF eN(1) n] by (simp add: bitsOk_def)
  from bitset_clear_bits[OF this] obtain b where b: "bitset_clear (curLinearized c) (nat (sid e)) = Some b"
    "length b = length (curLinearized c)" "bitsOf b = bitsOf (curLinearized c) - {nat (sid e)}" by blast
  have b': "bitsOk ?C b" using b(2,3) bits idSet_new[OF cC eN(1) p(4) eN(2)] unfolding C bitsOk_def by simp
  have "\<forall>i \<in> set (callIds c). 0 \<le> i \<and> i < int (length (longest c))"
  proof -
    have "length (longest c) = n" using inv by (simp add: searchInv_def)
    moreover have "nId (heap c ! a) = sid a" "a < N" if "a \<in> set (map fst (calls c))" for a
      using that f(1,4) st by (auto simp: called_def callSet_def sameNodes_def started_def)
    ultimately show ?thesis using id_range by (auto simp: callIds_def)
  qed
  from longestLoop_ok[OF this, of "callIds c" None "seqs c"] obtain sq lg where
    lg: "(if computePartial then longestLoop (callIds c) (callIds c) None (seqs c) (longest c) else Some (seqs c, longest c)) = Some (sq, lg)"
    "length lg = length (longest c)" by (cases computePartial) auto
  let ?c = "c\<lparr>heap := h1, curEntry := nNext (h1 ! e), curLinearized := b, calls := cs, seqs := sq, longest := lg, curState := t\<rparr>"
  have bt: "backtrack computePartial c = Running ?c"
    using lg(1) b(1) un position_room[OF eN(1) n] by (simp add: backtrack_def cs id del: longestLoop.simps)
  have nx: "nNext (h1 ! e) = firstOf vs None" using h1(2) dll_next[of h1 "N # us" e vs] p(2) by simp
  have "dead N m ?f ?C t e" using nc p(4,5) unfolding dead_def C by auto
  then have "positionOk h0 model ?c (us @ [e]) vs" using p(2,3) nx by (auto simp: positionOk_def called_def)
  moreover have "cacheOk h0 model ?c hsh ce" if "ce \<in> set (cache c hsh)" for hsh ce
  proof -
    have "cacheOk h0 model c hsh ce" using ca that by blast
    then show ?thesis using nc unfolding cacheOk_def C by (auto simp: cs onStack_snoc)
  qed
  moreover have "cached ?c = cached c" by (simp add: cached_def)
  ultimately have "searchInv h0 model ?c" using inv p(1) h1(1) b' lg(2) unfolding searchInv_def by (auto simp: called_def)
  moreover have "(?c, c) \<in> progress h0 model" by (simp add: progress_def cached_def cs)
  ultimately show ?thesis using bt by blast
qed

lemma check_step:
  assumes st: "started h0 model" and inv: "searchInv h0 model c"
  shows "case checkStep model computePartial N kill c of
     Running c' \<Rightarrow> searchInv h0 model c' \<and> (c', c) \<in> progress h0 model
   | Returned ok c' \<Rightarrow> (if ok then completes N m (accept h0 model) {} (Init model)
       else kill \<or> \<not> completes N m (accept h0 model) {} (Init model))
   | Panicked \<Rightarrow> False"
proof (cases "remaining N m (called c) = []")
  case True
  have stk: "stack N m (accept h0 model) (Init model) (calls c) (curState c)" using inv by (simp add: searchInv_def)
  have "completes N m (accept h0 model) {} (Init model)"
    by (rule stack_completes[OF stk completes.finish]) (use True in \<open>simp add: called_def\<close>)
  then show ?thesis using True inv_head[OF st inv] by (simp add: checkStep_def)
next
  case False
  then have hd: "nNext (heap c ! N) \<noteq> None" using inv_head[OF st inv] by (cases "remaining N m (called c)") auto
  note f = inv_facts[OF st inv]
  obtain xs ys where pos: "positionOk h0 model c xs ys" using inv by (auto simp: searchInv_def)
  have ne: "ys \<noteq> []"
    using some_return_left[OF f(1) _ _ False, of xs ys] pos by (auto simp: positionOk_def dead_def)
  then obtain e zs where ys: "ys = e # zs" by (cases ys) auto
  have cur: "curEntry c = Some e" using pos ys by (simp add: positionOk_def)
  have "e < N" using pos ys remaining_set[of e N m "called c"] by (simp add: positionOk_def)
  then have nm: "nMatch (heap c ! e) = m e" using f(4) st by (simp add: sameNodes_def started_def)
  show ?thesis
  proof (cases "m e")
    case (Some r)
    then show ?thesis using try_step[OF st inv pos[unfolded ys] Some] hd cur nm by (auto simp: checkStep_def)
  next
    case None
    show ?thesis
    proof (cases "calls c" rule: rev_exhaust)
      case Nil
      have "stack N m (accept h0 model) (Init model) (calls c) (curState c)" using inv unfolding searchInv_def by blast
      then have "stack N m (accept h0 model) (Init model) [] (curState c)" unfolding Nil .
      then have "curState c = Init model" by (rule stack_emptyE)
      then have "\<not> completes N m (accept h0 model) {} (Init model)"
        using dead_end[of N m "{}" xs e zs "accept h0 model" "Init model"] pos ys None Nil by (simp add: positionOk_def called_def)
      then show ?thesis using Nil hd cur nm None by (simp add: checkStep_def backtrack_def)
    next
      case (snoc cs x)
      obtain e' t where x: "x = (e', t)" by (cases x) auto
      from pop_step[OF st inv pos[unfolded ys] None snoc[unfolded x], of computePartial] show ?thesis
        using hd cur nm None by (auto simp: checkStep_def)
    qed
  qed
qed

section \<open>The loop ends with the right answer\<close>

lemma check_loop:
  assumes st: "started h0 model" and inv: "searchInv h0 model c"
  shows "\<exists>k ok c'. checkLoop model computePartial N kill c = Some (k, Returned ok c') \<and>
    (if ok then completes N m (accept h0 model) {} (Init model)
     else (\<exists>j. kill j) \<or> \<not> completes N m (accept h0 model) {} (Init model))"
proof -
  let ?b = "\<lambda>(k :: nat, p :: ('v, 's) Search Progress). case p of Running c \<Rightarrow> True | _ \<Rightarrow> False"
  let ?s = "\<lambda>(k, p). case p of Running c \<Rightarrow> (Suc k, checkStep model computePartial N (kill k) c) | _ \<Rightarrow> (k, p)"
  let ?I = "\<lambda>(k :: nat, p). case p of Running c \<Rightarrow> searchInv h0 model c
    | Returned ok c' \<Rightarrow> (if ok then completes N m (accept h0 model) {} (Init model)
        else (\<exists>j. kill j) \<or> \<not> completes N m (accept h0 model) {} (Init model))
    | Panicked \<Rightarrow> False"
  have keep: "?I (?s x)" if I: "?I x" and b: "?b x" for x
  proof -
    obtain k d where x: "x = (k, Running d)" using b by (cases x; cases "snd x") auto
    have "searchInv h0 model d" using I x by simp
    from check_step[OF st this, where computePartial = computePartial and kill = "kill k"] show ?thesis
      unfolding x by (cases "checkStep model computePartial N (kill k) d") (auto split: if_splits)
  qed
  have wf: "wf {(t, x). (?I x \<and> ?b x) \<and> t = ?s x}"
  proof -
    let ?rank = "\<lambda>(k :: nat, p). case p of Running c \<Rightarrow> (1 :: nat, c) | Returned ok c \<Rightarrow> (0, c) | Panicked \<Rightarrow> (0, c)"
    have "wf (progress h0 model)" by (simp add: progress_def)
    then have "wf (inv_image (less_than <*lex*> progress h0 model) ?rank)" by (intro wf_inv_image wf_lex_prod) auto
    moreover have "{(t, x). (?I x \<and> ?b x) \<and> t = ?s x} \<subseteq> inv_image (less_than <*lex*> progress h0 model) ?rank"
    proof (rule subsetI)
      fix z assume z: "z \<in> {(t, x). (?I x \<and> ?b x) \<and> t = ?s x}"
      obtain t k p where tkp: "z = (t, (k, p))" by (metis surj_pair)
      have "?I (k, p)" "?b (k, p)" "t = ?s (k, p)" using z tkp by simp_all
      then obtain d where p: "p = Running d" "searchInv h0 model d" "z = (?s (k, p), (k, p))"
        using tkp by (cases p) auto
      show "z \<in> inv_image (less_than <*lex*> progress h0 model) ?rank"
        using check_step[OF st p(2), where computePartial = computePartial and kill = "kill k"] p(1) unfolding p(3)
        by (cases "checkStep model computePartial N (kill k) d") auto
    qed
    ultimately show ?thesis by (rule wf_subset)
  qed
  have I0: "?I (0, Running c)" using inv by simp
  obtain t where t: "while_option ?b ?s (0, Running c) = Some t"
    using wf_while_option_Some[where P = ?I and b = ?b and c = ?s and s = "(0, Running c)"] wf keep I0 by blast
  have It: "?I t" by (rule while_option_rule[where P = ?I, OF keep t I0])
  have nb: "\<not> ?b t" by (rule while_option_stop[OF t])
  obtain k p where kp: "t = (k, p)" by (cases t)
  show ?thesis
  proof (cases p)
    case (Running d)
    then show ?thesis using nb kp by simp
  next
    case (Returned ok d)
    then show ?thesis using t It kp unfolding checkLoop_def by auto
  next
    case Panicked
    then show ?thesis using It kp by simp
  qed
qed

end

end
