(* ===== verification/PorcupineSpec.thy ===== *)
theory PorcupineSpec
  imports PorcupineLoop
begin

text \<open>
  What the checker decides.  A history is well formed if every operation has one call and one
  return, in this order, and the operations are numbered from 0.  It is linearizable if the
  operations can be put in an order that the model accepts and in which an operation that returned
  before another was called comes first.
\<close>

section \<open>Linearizability\<close>

definition wfHistory :: "'v entry list \<Rightarrow> bool" where
  "wfHistory es \<longleftrightarrow>
     length es = 2 * (length es div 2) \<and> length es < 2 ^ 63 \<and>
     distinct (map (\<lambda>e. (eKind e, eId e)) es) \<and>
     (\<forall>e \<in> set es. 0 \<le> eId e \<and> eId e < int (length es div 2)) \<and>
     sorted_wrt (\<lambda>a b. \<not> (eKind a = returnEntry \<and> eKind b = callEntry \<and> eId a = eId b)) es"

definition valueAt :: "'v entry list \<Rightarrow> entryKind \<Rightarrow> int \<Rightarrow> 'v" where
  "valueAt es k i = eValue (the (find (\<lambda>e. eKind e = k \<and> eId e = i) es))"

text \<open>Operation \<open>i\<close> returns before operation \<open>j\<close> is called.\<close>

definition precedes :: "'v entry list \<Rightarrow> int \<Rightarrow> int \<Rightarrow> bool" where
  "precedes es i j \<longleftrightarrow>
     (\<exists>b < length es. \<exists>a < b. eKind (es ! a) = returnEntry \<and> eId (es ! a) = i \<and>
        eKind (es ! b) = callEntry \<and> eId (es ! b) = j)"

fun legal :: "('v, 's) Model \<Rightarrow> 'v entry list \<Rightarrow> 's \<Rightarrow> int list \<Rightarrow> bool" where
  "legal model es s [] \<longleftrightarrow> True"
| "legal model es s (i # p) \<longleftrightarrow>
     (case Step model s (valueAt es callEntry i) (valueAt es returnEntry i) of
        Some (True, s') \<Rightarrow> legal model es s' p
      | _ \<Rightarrow> False)"

definition linearizable :: "('v, 's) Model \<Rightarrow> 'v entry list \<Rightarrow> bool" where
  "linearizable model es \<longleftrightarrow>
     (\<exists>p. distinct p \<and> set p = eId ` set es \<and> sorted_wrt (\<lambda>i j. \<not> precedes es j i) p \<and>
        legal model es (Init model) p)"

section \<open>Completions are orders of the calls\<close>

context calls_and_returns
begin

definition returnsBefore :: "nat \<Rightarrow> nat \<Rightarrow> bool" where
  "returnsBefore b a \<longleftrightarrow> (\<exists>r. m b = Some r \<and> a < r)"

lemma calls_remain: "callSet C \<Longrightarrow> a < N \<Longrightarrow> m a \<noteq> None \<Longrightarrow> a \<in> set (remaining N m C) \<longleftrightarrow> a \<notin> C"
proof -
  assume C: "callSet C" and a: "a < N" "m a \<noteq> None"
  have "m d \<noteq> Some a" if "d \<in> C" for d
    using match_return[of d a] C a(2) that by (auto simp: callSet_def)
  then show ?thesis using a(1) by (auto simp: remaining_set)
qed

lemma completes_order:
  "completes N m f C s \<Longrightarrow> callSet C \<Longrightarrow>
    \<exists>q. distinct q \<and> set q = {a. a < N \<and> m a \<noteq> None} - C \<and> sorted_wrt (\<lambda>a b. \<not> returnsBefore b a) q \<and> runs f s q \<noteq> None"
proof (induction rule: completes.induct)
  case (finish C s)
  have "{a. a < N \<and> m a \<noteq> None} - C = {}" using calls_remain[OF finish.prems] finish.hyps by auto
  then show ?case by (intro exI[of _ "[]"]) simp
next
  case (choose C xs c ys s s')
  have c: "c \<in> set (remaining N m C)" using choose.hyps(1) by simp
  then have cN: "c < N" "c \<notin> C" by (simp_all add: remaining_set)
  obtain q where q: "distinct q" "set q = {a. a < N \<and> m a \<noteq> None} - insert c C"
    "sorted_wrt (\<lambda>a b. \<not> returnsBefore b a) q" "runs f s' q \<noteq> None"
    using choose.IH callSet_insert[OF choose.prems cN(1) choose.hyps(3)] by blast
  have "\<not> returnsBefore b c" if "b \<in> set q" for b
  proof
    assume "returnsBefore b c"
    then obtain r where r: "m b = Some r" "c < r" by (auto simp: returnsBefore_def)
    have b: "b < N" "m b \<noteq> None" "b \<notin> C" using that q(2) by auto
    then have "b \<in> set (remaining N m C)" using calls_remain[OF choose.prems] by blast
    then have "r \<in> set (xs @ c # ys)" using return_left[OF choose.prems _ r(1)] choose.hyps(1) by simp
    moreover have "\<forall>y \<in> set ys. y < c" using remaining_sorted[of N m C] unfolding choose.hyps(1) by (auto simp: sorted_wrt_append)
    ultimately have "r \<in> set xs" using r(2) by fastforce
    then show False using choose.hyps(2) match_return[OF b(1) r(1)] by blast
  qed
  moreover have "set (c # q) = {a. a < N \<and> m a \<noteq> None} - C" using q(2) cN choose.hyps(3) by auto
  ultimately show ?case using q choose.hyps(4) by (intro exI[of _ "c # q"]) auto
qed

lemma order_completes:
  "\<lbrakk>distinct q; set q = {a. a < N \<and> m a \<noteq> None} - C; sorted_wrt (\<lambda>a b. \<not> returnsBefore b a) q; runs f s q \<noteq> None;
    callSet C\<rbrakk> \<Longrightarrow> completes N m f C s"
proof (induction q arbitrary: C s)
  case Nil
  have "remaining N m C = []"
  proof (rule ccontr)
    assume "remaining N m C \<noteq> []"
    then obtain x where x: "x \<in> set (remaining N m C)" by (cases "remaining N m C") auto
    obtain c where "c \<in> set (remaining N m C)" "m c \<noteq> None"
    proof (cases "m x = None")
      case True
      then show ?thesis using call_left[OF Nil.prems(5) x] that by (metis option.distinct(1))
    qed (use x that in blast)
    then show False using Nil.prems(2) by (auto simp: remaining_set)
  qed
  then show ?case by (rule completes.finish)
next
  case (Cons c q)
  have cN: "c < N" "m c \<noteq> None" "c \<notin> C" "c \<notin> set q" using Cons.prems(1,2) by auto
  have "c \<in> set (remaining N m C)" using calls_remain[OF Cons.prems(5) cN(1,2)] cN(3) by simp
  then obtain xs ys where x: "remaining N m C = xs @ c # ys" by (auto simp: in_set_conv_decomp)
  have gt: "\<forall>x \<in> set xs. c < x" using remaining_sorted[of N m C] unfolding x by (auto simp: sorted_wrt_append)
  have xs: "\<forall>x \<in> set xs. m x \<noteq> None"
  proof (intro ballI notI)
    fix x' assume x': "x' \<in> set xs" "m x' = None"
    obtain b where b: "b \<in> set (remaining N m C)" "m b = Some x'"
      using call_left[OF Cons.prems(5) _ x'(2)] x x'(1) by auto
    have "x' \<in> set ys" if "b = c" using return_behind[OF Cons.prems(5) x] b(2) that by simp
    then have "b \<noteq> c" using remaining_distinct[of N m C] x'(1) unfolding x by auto
    moreover have "b < N" "b \<notin> C" using b(1) by (simp_all add: remaining_set)
    ultimately have "b \<in> set q" using Cons.prems(2) b(2) by auto
    moreover have "returnsBefore b c" using gt x'(1) b(2) by (auto simp: returnsBefore_def)
    ultimately show False using Cons.prems(3) by simp
  qed
  obtain s' where s': "f s c = Some s'" "runs f s' q \<noteq> None" using Cons.prems(4) by (cases "f s c") auto
  have "set q = {a. a < N \<and> m a \<noteq> None} - insert c C" using Cons.prems(1,2) by auto
  then have "completes N m f (insert c C) s'"
    using Cons.IH Cons.prems(1,3) s'(2) callSet_insert[OF Cons.prems(5) cN(1,2)] by simp
  then show ?case
    using completes.choose[where N = N and m = m and f = f and C = C and xs = xs and c = c and ys = ys and s = s and s' = s']
      x xs cN(2) s'(1) by blast
qed

lemma completes_iff:
  "completes N m f {} s \<longleftrightarrow>
    (\<exists>q. distinct q \<and> set q = {a. a < N \<and> m a \<noteq> None} \<and> sorted_wrt (\<lambda>a b. \<not> returnsBefore b a) q \<and> runs f s q \<noteq> None)"
  using completes_order[of f "{}" s] order_completes[of _ "{}" f s] by auto

end

section \<open>The nodes of a well-formed history\<close>

lemma entryKind_UNIV: "(UNIV :: entryKind set) = {callEntry, returnEntry}"
  using entryKind.exhaust by auto

lemma wf_pairs:
  assumes "wfHistory es"
  shows "(\<lambda>e. (eKind e, eId e)) ` set es = UNIV \<times> {0..<int (length es div 2)}"
proof (rule card_subset_eq)
  let ?n = "length es div 2"
  have "distinct (map (\<lambda>e. (eKind e, eId e)) es)" using assms by (simp add: wfHistory_def)
  from distinct_card[OF this] have "card ((\<lambda>e. (eKind e, eId e)) ` set es) = 2 * ?n"
    using assms by (simp add: wfHistory_def)
  then show "card ((\<lambda>e. (eKind e, eId e)) ` set es) = card (UNIV \<times> {0..<int ?n} :: (entryKind \<times> int) set)"
    by (simp add: card_cartesian_product entryKind_UNIV)
  show "(\<lambda>e. (eKind e, eId e)) ` set es \<subseteq> UNIV \<times> {0..<int ?n}" using assms by (auto simp: wfHistory_def)
qed (simp add: entryKind_UNIV)

lemma wf_ids: "wfHistory es \<Longrightarrow> eId ` set es = {0..<int (length es div 2)}"
proof -
  assume "wfHistory es"
  from wf_pairs[OF this] have "snd ` (\<lambda>e. (eKind e, eId e)) ` set es = snd ` ((UNIV :: entryKind set) \<times> {0..<int (length es div 2)})"
    by simp
  then show ?thesis by (simp add: image_image)
qed

text \<open>The entry of a kind and an identifier, by its address.\<close>

lemma wf_address:
  assumes "wfHistory es" "0 \<le> i" "i < int (length es div 2)"
  obtains a where "a < length es" "eKind (rev es ! a) = k" "eId (rev es ! a) = i"
proof -
  have "(k, i) \<in> (\<lambda>e. (eKind e, eId e)) ` set es" using wf_pairs[OF assms(1)] assms(2,3) by auto
  then obtain e where e: "e \<in> set (rev es)" "eKind e = k" "eId e = i" by auto
  then obtain a where "a < length (rev es)" "rev es ! a = e" by (metis in_set_conv_nth)
  then show ?thesis using that e(2,3) by simp
qed

lemma wf_address_unique:
  assumes "wfHistory es" "a < length es" "b < length es" "eKind (rev es ! a) = eKind (rev es ! b)" "eId (rev es ! a) = eId (rev es ! b)"
  shows "a = b"
proof -
  have "distinct (map (\<lambda>e. (eKind e, eId e)) (rev es))" using assms(1) by (simp add: wfHistory_def rev_map[symmetric])
  from nth_eq_iff_index_eq[OF this, of a b] show ?thesis using assms by simp
qed

lemma wf_return_after:
  assumes "wfHistory es" "a < length es" "b < length es" "eKind (rev es ! a) = callEntry" "eKind (rev es ! b) = returnEntry"
    "eId (rev es ! a) = eId (rev es ! b)"
  shows "b < a"
proof (rule ccontr)
  assume "\<not> b < a"
  then have "a < b" using assms(4,5) by (cases "a = b") auto
  moreover have "sorted_wrt (\<lambda>a b. \<not> (eKind b = returnEntry \<and> eKind a = callEntry \<and> eId b = eId a)) (rev es)"
    using assms(1) by (simp add: wfHistory_def sorted_wrt_rev)
  ultimately show False using assms sorted_wrt_nth_less by fastforce
qed

definition tokenCount :: "'v entry list \<Rightarrow> nat" where
  "tokenCount es = (if wfHistory es then length es else 0)"

definition tokenMatch :: "'v entry list \<Rightarrow> nat \<Rightarrow> nat option" where
  "tokenMatch es a = nMatch (fst (makeLinkedEntries es) ! a)"

definition tokenId :: "'v entry list \<Rightarrow> nat \<Rightarrow> int" where
  "tokenId es a = nId (fst (makeLinkedEntries es) ! a)"

lemma linked_entries:
  assumes "wfHistory es"
  shows "\<exists>h. makeLinkedEntries es = (h, firstOf (rev [0..<length es]) None) \<and> dll h (rev [0..<length es]) \<and>
    length h = length es \<and> nodesOf (rev es) h"
proof -
  have "distinct (map (\<lambda>e. (eKind e, eId e)) (rev es))" using assms by (simp add: wfHistory_def rev_map[symmetric])
  then show ?thesis
    using linkLoop_links[of "[]" "[]" "\<lambda>_. None" None "rev es"]
    by (simp add: makeLinkedEntries_def dll_def nodesOf_def returnsOf_def)
qed

lemma token_facts:
  assumes "wfHistory es" "a < length es"
  shows "tokenId es a = eId (rev es ! a)"
    and "tokenMatch es a = Some b \<longleftrightarrow>
      eKind (rev es ! a) = callEntry \<and> b < a \<and> eKind (rev es ! b) = returnEntry \<and> eId (rev es ! b) = eId (rev es ! a)"
  using linked_entries[OF assms(1)] assms(2) by (auto simp: tokenId_def tokenMatch_def nodesOf_def)

lemma token_call:
  assumes "wfHistory es" "a < length es"
  shows "tokenMatch es a \<noteq> None \<longleftrightarrow> eKind (rev es ! a) = callEntry"
proof
  assume k: "eKind (rev es ! a) = callEntry"
  have "rev es ! a \<in> set es" using assms(2) by (metis length_rev nth_mem set_rev)
  then have i: "0 \<le> eId (rev es ! a)" "eId (rev es ! a) < int (length es div 2)"
    using assms(1) by (simp_all add: wfHistory_def)
  obtain b where "b < length es" "eKind (rev es ! b) = returnEntry" "eId (rev es ! b) = eId (rev es ! a)"
    by (rule wf_address[OF assms(1) i])
  then show "tokenMatch es a \<noteq> None"
    using token_facts(2)[OF assms, of b] wf_return_after[OF assms(1,2), of b] k by simp
qed (use token_facts(2)[OF assms] in auto)

interpretation linked: calls_and_returns "tokenCount es" "tokenMatch es" "tokenId es" "length es div 2"
proof
  fix a b assume a: "a < tokenCount es" "tokenMatch es a = Some b"
  then have w: "wfHistory es" "a < length es" by (auto simp: tokenCount_def split: if_splits)
  have f: "b < a" "eKind (rev es ! b) = returnEntry" using token_facts(2)[OF w, of b] a(2) by simp_all
  show "b < a" by (rule f(1))
  show "tokenMatch es b = None" using token_call[OF w(1), of b] f w(2) by simp
next
  fix a a' b assume a: "a < tokenCount es" "a' < tokenCount es" "tokenMatch es a = Some b" "tokenMatch es a' = Some b"
  then have w: "wfHistory es" "a < length es" "a' < length es" by (auto simp: tokenCount_def split: if_splits)
  show "a = a'" using a(3,4) token_facts(2)[OF w(1,2)] token_facts(2)[OF w(1,3)] wf_address_unique[OF w] by simp
next
  fix b assume b: "b < tokenCount es" "tokenMatch es b = None"
  then have w: "wfHistory es" "b < length es" by (auto simp: tokenCount_def split: if_splits)
  then have k: "eKind (rev es ! b) = returnEntry" using token_call[OF w] b(2) by (cases "eKind (rev es ! b)") auto
  have "rev es ! b \<in> set es" using w(2) by (metis length_rev nth_mem set_rev)
  then have i: "0 \<le> eId (rev es ! b)" "eId (rev es ! b) < int (length es div 2)"
    using w(1) by (simp_all add: wfHistory_def)
  obtain a where a: "a < length es" "eKind (rev es ! a) = callEntry" "eId (rev es ! a) = eId (rev es ! b)"
    by (rule wf_address[OF w(1) i])
  have "b < a" by (rule wf_return_after[OF w(1) a(1) w(2) a(2) k a(3)])
  then have "tokenMatch es a = Some b" using token_facts(2)[OF w(1) a(1)] a(2,3) k by simp
  then show "\<exists>a < tokenCount es. tokenMatch es a = Some b" using a(1) w(1) by (auto simp: tokenCount_def)
next
  fix a assume "a < tokenCount es"
  then have w: "wfHistory es" "a < length es" by (auto simp: tokenCount_def split: if_splits)
  have "rev es ! a \<in> set es" using w(2) by (metis length_rev nth_mem set_rev)
  then show "0 \<le> tokenId es a \<and> tokenId es a < int (length es div 2)"
    using w(1) token_facts(1)[OF w] by (simp add: wfHistory_def)
next
  fix a a' assume a: "a < tokenCount es" "a' < tokenCount es" "tokenMatch es a \<noteq> None" "tokenMatch es a' \<noteq> None" "tokenId es a = tokenId es a'"
  then have w: "wfHistory es" "a < length es" "a' < length es" by (auto simp: tokenCount_def split: if_splits)
  show "a = a'" using a(3-5) token_call[OF w(1,2)] token_call[OF w(1,3)] token_facts(1)[OF w(1,2)] token_facts(1)[OF w(1,3)]
      wf_address_unique[OF w] by simp
qed

end
