(* ===== verification/PorcupineCorrect.thy ===== *)
theory PorcupineCorrect
  imports PorcupineSpec
begin

text \<open>
  Correctness of \<open>checkSingle\<close>: on a well-formed history it ends, without a panic, and says whether
  the history is linearizable.
\<close>

section \<open>Completions and linearizations\<close>

lemma valueAt_entry:
  assumes "wfHistory es" "a < length es"
  shows "valueAt es (eKind (rev es ! a)) (eId (rev es ! a)) = eValue (rev es ! a)"
proof -
  let ?P = "\<lambda>e. eKind e = eKind (rev es ! a) \<and> eId e = eId (rev es ! a)"
  have in_es: "rev es ! a \<in> set es" using assms(2) by (metis length_rev nth_mem set_rev)
  then obtain e where e: "find ?P es = Some e" using find_None_iff[of ?P es] by (cases "find ?P es") auto
  then obtain i where i: "i < length es" "e = es ! i" "?P e" by (auto simp: find_Some_iff)
  let ?b = "length es - Suc i"
  have b: "?b < length es" "rev es ! ?b = e" using i by (simp_all add: rev_nth)
  have "?b = a" using wf_address_unique[OF assms(1) b(1) assms(2)] b(2) i(3) by simp
  then show ?thesis using e b(2) by (simp add: valueAt_def)
qed

lemma precedes_tokens:
  assumes w: "wfHistory es" and ab: "a < length es" "b < length es" "tokenMatch es a \<noteq> None" "tokenMatch es b \<noteq> None"
  shows "precedes es (tokenId es b) (tokenId es a) \<longleftrightarrow> (\<exists>r. tokenMatch es b = Some r \<and> a < r)"
proof -
  have k: "eKind (rev es ! a) = callEntry" "eKind (rev es ! b) = callEntry" using token_call[OF w] ab by blast+
  have i: "tokenId es a = eId (rev es ! a)" "tokenId es b = eId (rev es ! b)" using token_facts(1)[OF w] ab by blast+
  show ?thesis
  proof
    assume "precedes es (tokenId es b) (tokenId es a)"
    then obtain x y where xy: "y < length es" "x < y" "eKind (es ! x) = returnEntry" "eId (es ! x) = eId (rev es ! b)"
      "eKind (es ! y) = callEntry" "eId (es ! y) = eId (rev es ! a)" by (auto simp: precedes_def i)
    let ?x = "length es - Suc x" and ?y = "length es - Suc y"
    have r: "?x < length es" "?y < length es" "rev es ! ?x = es ! x" "rev es ! ?y = es ! y" "?y < ?x"
      using xy(1,2) by (auto simp: rev_nth)
    have "?y = a" using wf_address_unique[OF w r(2) ab(1)] r(4) xy(5,6) k(1) by simp
    moreover have "?x < b" using wf_return_after[OF w ab(2) r(1) k(2)] r(3) xy(3,4) by simp
    ultimately show "\<exists>r. tokenMatch es b = Some r \<and> a < r"
      using token_facts(2)[OF w ab(2), of ?x] r(3,5) xy(3,4) k(2) by (intro exI[of _ ?x]) simp
  next
    assume "\<exists>r. tokenMatch es b = Some r \<and> a < r"
    then obtain r where r: "tokenMatch es b = Some r" "a < r" by blast
    then have f: "r < b" "eKind (rev es ! r) = returnEntry" "eId (rev es ! r) = eId (rev es ! b)"
      using token_facts(2)[OF w ab(2), of r] by simp_all
    let ?x = "length es - Suc r" and ?y = "length es - Suc a"
    have "?x < ?y" "?y < length es" "es ! ?x = rev es ! r" "es ! ?y = rev es ! a"
      using f(1) r(2) ab(1,2) by (auto simp: rev_nth)
    then show "precedes es (tokenId es b) (tokenId es a)"
      unfolding precedes_def i using f(2,3) k(1) by (intro exI[of _ ?y] exI[of _ ?x] conjI) auto
  qed
qed

lemma accept_tokens:
  assumes w: "wfHistory es" and a: "a < length es" "tokenMatch es a \<noteq> None"
    and h: "nodesOf (rev es) h"
  shows "accept h model s a =
    (case Step model s (valueAt es callEntry (tokenId es a)) (valueAt es returnEntry (tokenId es a)) of
       Some (True, s') \<Rightarrow> Some s' | _ \<Rightarrow> None)"
proof -
  obtain b where b: "tokenMatch es a = Some b" using a(2) by auto
  then have f: "b < a" "eKind (rev es ! a) = callEntry" "eKind (rev es ! b) = returnEntry" "eId (rev es ! b) = eId (rev es ! a)"
    using token_facts(2)[OF w a(1), of b] by simp_all
  have hm: "nMatch (h ! a) = Some b" using h a(1) f by (simp add: nodesOf_def)
  have hv: "nValue (h ! a) = Some (eValue (rev es ! a))" "nValue (h ! b) = Some (eValue (rev es ! b))"
    using h a(1) f(1) by (simp_all add: nodesOf_def)
  have "valueAt es callEntry (tokenId es a) = eValue (rev es ! a)" "valueAt es returnEntry (tokenId es a) = eValue (rev es ! b)"
    using valueAt_entry[OF w a(1)] valueAt_entry[OF w, of b] f a(1) token_facts(1)[OF w a(1)] by simp_all
  then show ?thesis by (simp add: accept_def hm hv)
qed

lemma legal_runs:
  assumes w: "wfHistory es" and h: "nodesOf (rev es) h"
  shows "\<forall>a \<in> set q. a < length es \<and> tokenMatch es a \<noteq> None \<Longrightarrow>
    legal model es s (map (tokenId es) q) \<longleftrightarrow> runs (accept h model) s q \<noteq> None"
proof (induction q arbitrary: s)
  case (Cons a q)
  then have acc: "accept h model s a =
      (case Step model s (valueAt es callEntry (tokenId es a)) (valueAt es returnEntry (tokenId es a)) of
       Some (True, s') \<Rightarrow> Some s' | _ \<Rightarrow> None)" using accept_tokens[OF w _ _ h, of a model s] by simp
  show ?case
  proof (cases "accept h model s a")
    case None
    then show ?thesis using acc by (auto split: option.splits prod.splits bool.splits)
  next
    case (Some s')
    then have "Step model s (valueAt es callEntry (tokenId es a)) (valueAt es returnEntry (tokenId es a)) = Some (True, s')"
      using acc by (auto split: option.splits prod.splits bool.splits)
    then show ?thesis using Some Cons by simp
  qed
qed simp

lemma tokens_of_calls:
  assumes "wfHistory es"
  shows "tokenId es ` {a. a < length es \<and> tokenMatch es a \<noteq> None} = eId ` set es"
proof
  show "tokenId es ` {a. a < length es \<and> tokenMatch es a \<noteq> None} \<subseteq> eId ` set es"
    using token_facts(1)[OF assms] by (auto simp: rev_nth)
  show "eId ` set es \<subseteq> tokenId es ` {a. a < length es \<and> tokenMatch es a \<noteq> None}"
  proof
    fix i assume "i \<in> eId ` set es"
    then have i: "0 \<le> i" "i < int (length es div 2)" using wf_ids[OF assms] by auto
    obtain a where "a < length es" "eKind (rev es ! a) = callEntry" "eId (rev es ! a) = i" by (rule wf_address[OF assms i])
    then show "i \<in> tokenId es ` {a. a < length es \<and> tokenMatch es a \<noteq> None}"
      using token_call[OF assms] token_facts(1)[OF assms] by (auto intro!: image_eqI[of _ _ a])
  qed
qed

lemma tokenId_inj: "wfHistory es \<Longrightarrow> inj_on (tokenId es) {a. a < length es \<and> tokenMatch es a \<noteq> None}"
  using linked.id_inj[of _ es] by (auto simp: inj_on_def tokenCount_def)

lemma linearizable_completes:
  assumes w: "wfHistory es" and h: "nodesOf (rev es) h"
  shows "linearizable model es \<longleftrightarrow> completes (length es) (tokenMatch es) (accept h model) {} (Init model)"
proof -
  let ?A = "{a. a < length es \<and> tokenMatch es a \<noteq> None}"
  let ?before = "\<lambda>b a. \<exists>r. tokenMatch es b = Some r \<and> a < r"
  have comp: "completes (length es) (tokenMatch es) (accept h model) {} (Init model) \<longleftrightarrow>
      (\<exists>q. distinct q \<and> set q = ?A \<and> sorted_wrt (\<lambda>a b. \<not> ?before b a) q \<and> runs (accept h model) (Init model) q \<noteq> None)"
    using linked.completes_iff[of es "accept h model" "Init model"] w by (simp add: tokenCount_def linked.returnsBefore_def)
  have ordered: "sorted_wrt (\<lambda>i j. \<not> precedes es j i) (map (tokenId es) q) \<longleftrightarrow> sorted_wrt (\<lambda>a b. \<not> ?before b a) q"
    if "set q = ?A" for q
  proof -
    have "set q \<subseteq> ?A" using that by simp
    then show ?thesis unfolding sorted_wrt_map
    proof (induction q)
      case (Cons a q)
      have "\<not> precedes es (tokenId es b) (tokenId es a) \<longleftrightarrow> \<not> ?before b a" if "b \<in> set q" for b
        using precedes_tokens[OF w, of a b] Cons.prems that by auto
      then show ?case using Cons by simp
    qed simp
  qed
  have legal: "legal model es (Init model) (map (tokenId es) q) \<longleftrightarrow> runs (accept h model) (Init model) q \<noteq> None"
    if "set q = ?A" for q using legal_runs[OF w h, of q model "Init model"] that by auto
  show ?thesis
  proof
    assume "linearizable model es"
    then obtain p where p: "distinct p" "set p = eId ` set es" "sorted_wrt (\<lambda>i j. \<not> precedes es j i) p"
      "legal model es (Init model) p" by (auto simp: linearizable_def)
    let ?q = "map (the_inv_into ?A (tokenId es)) p"
    have bij: "bij_betw (tokenId es) ?A (set p)" using tokenId_inj[OF w] tokens_of_calls[OF w] p(2) by (simp add: bij_betw_def)
    have q: "map (tokenId es) ?q = p"
      using f_the_inv_into_f_bij_betw[OF bij] by (auto intro!: map_idI simp: o_def)
    have "inj_on (the_inv_into ?A (tokenId es)) (set p)" using bij_betw_the_inv_into[OF bij] by (simp add: bij_betw_def)
    then have "distinct ?q" using p(1) by (simp add: distinct_map)
    moreover have qA: "set ?q = ?A" using bij_betw_the_inv_into[OF bij] by (simp add: bij_betw_def)
    ultimately show "completes (length es) (tokenMatch es) (accept h model) {} (Init model)"
      unfolding comp using ordered[OF qA] legal[OF qA] p(3,4) unfolding q by blast
  next
    assume "completes (length es) (tokenMatch es) (accept h model) {} (Init model)"
    then obtain q where q: "distinct q" "set q = ?A" "sorted_wrt (\<lambda>a b. \<not> ?before b a) q"
      "runs (accept h model) (Init model) q \<noteq> None" unfolding comp by blast
    have "distinct (map (tokenId es) q)" using q(1) tokenId_inj[OF w] unfolding distinct_map q(2) by blast
    moreover have "set (map (tokenId es) q) = eId ` set es" using tokens_of_calls[OF w] q(2) by simp
    ultimately show "linearizable model es"
      unfolding linearizable_def using ordered[OF q(2)] legal[OF q(2)] q(3,4) by blast
  qed
qed

section \<open>The start of the search\<close>

text \<open>The model's step function handles every operation of the history; its equality is equality.\<close>

definition handles :: "('v, 's) Model \<Rightarrow> 'v entry list \<Rightarrow> bool" where
  "handles model es \<longleftrightarrow>
     (\<forall>s. \<forall>i \<in> eId ` set es. Step model s (valueAt es callEntry i) (valueAt es returnEntry i) \<noteq> None) \<and>
     (\<exists>eq. Equal model = Some eq \<and> (\<forall>s t. eq s t \<longleftrightarrow> s = t))"

lemma start_search:
  fixes es :: "'v entry list"
  assumes w: "wfHistory es" and hd: "handles model es"
  shows "\<exists>c. startSearch model es = Some (length es, c) \<and> nodesOf (rev es) (heap c) \<and>
    linked.started TYPE('v) es (heap c) model \<and> linked.searchInv TYPE('v) es (heap c) model c"
proof -
  let ?N = "length es" and ?n = "length es div 2"
  obtain h where h: "makeLinkedEntries es = (h, firstOf (rev [0..<?N]) None)" "dll h (rev [0..<?N])"
    "length h = ?N" "nodesOf (rev es) h" using linked_entries[OF w] by blast
  let ?nd = "\<lparr>nValue = None, nMatch = None, nId = -1, nNext = None, nPrev = None\<rparr>"
  let ?h = "insertBefore (h @ [?nd]) ?N (firstOf (rev [0..<?N]) None)"
  let ?c = "\<lparr>heap = ?h, curEntry = firstOf (rev [0..<?N]) None, curLinearized = newBitset ?n, cache = (\<lambda>_. []), calls = [],
     seqs = [], longest = replicate ?n None, curState = Init model\<rparr>"
  have "nodeLength h (firstOf (rev [0..<?N]) None) 0 = Some ?N"
    using nodeLength_seg[of h None "rev [0..<?N]" 0] h(2) by (simp add: dll_def)
  then have s: "startSearch model es = Some (?N, ?c)" using h(1,3) by (simp add: startSearch_def)
  have d: "dll ?h (?N # rev [0..<?N])" using dll_insertBefore[OF h(2), of ?nd] h(3) by simp
  have nodes: "nodesOf (rev es) ?h" using h(3,4) by (auto simp: nodesOf_def nth_append)
  have tc: "tokenCount es = ?N" using w by (simp add: tokenCount_def)
  have static: "nMatch (?h ! a) = tokenMatch es a \<and> nId (?h ! a) = tokenId es a \<and> nValue (?h ! a) \<noteq> None" if "a < ?N" for a
    using that h by (auto simp: tokenMatch_def tokenId_def nth_append nodesOf_def)
  have step: "Step model s (the (nValue (?h ! a))) (the (nValue (?h ! b))) \<noteq> None"
    if a: "a < ?N" "tokenMatch es a = Some b" for a b s
  proof -
    have f: "b < a" "eKind (rev es ! a) = callEntry" "eKind (rev es ! b) = returnEntry" "eId (rev es ! b) = eId (rev es ! a)"
      using token_facts(2)[OF w a(1), of b] a(2) by simp_all
    have "valueAt es callEntry (eId (rev es ! a)) = eValue (rev es ! a)" "valueAt es returnEntry (eId (rev es ! a)) = eValue (rev es ! b)"
      using valueAt_entry[OF w a(1)] valueAt_entry[OF w, of b] f a(1) by simp_all
    moreover have "eId (rev es ! a) \<in> eId ` set es" using a(1) by (metis image_eqI length_rev nth_mem set_rev)
    ultimately have "Step model s (eValue (rev es ! a)) (eValue (rev es ! b)) \<noteq> None"
      using hd unfolding handles_def by metis
    moreover have "nValue (?h ! a) = Some (eValue (rev es ! a))" "nValue (?h ! b) = Some (eValue (rev es ! b))"
      using nodes a(1) f(1) unfolding nodesOf_def by (simp_all del: insertBefore_fields)
    ultimately show ?thesis by (simp del: insertBefore_fields)
  qed
  have eq: "\<forall>s t. the (Equal model) s t \<longleftrightarrow> s = t" using hd by (auto simp: handles_def)
  have "?n \<le> 2 ^ 64" using w by (simp add: wfHistory_def)
  then have st: "linked.started TYPE('v) es ?h model"
    unfolding linked.started_def unfolding tc using d static step eq by blast
  have "linked.searchInv TYPE('v) es ?h model ?c"
    unfolding linked.searchInv_def linked.positionOk_def linked.called_def linked.cached_def linked.bitsOk_def unfolding tc
    by (auto intro: stack.empty exI[of _ "[]"])
  then show ?thesis using s nodes st by auto
qed

text \<open>The checker on one partition.  The kill flag can only turn the answer into False.\<close>

lemma checkSingle_decides:
  fixes es :: "'v entry list"
  assumes w: "wfHistory es" and hd: "handles model es"
  shows "\<exists>ok info. checkSingle model es computePartial kill = Ret (ok, info) \<and>
    (if ok then linearizable model es else (\<exists>j. kill j) \<or> \<not> linearizable model es)"
proof -
  obtain c where c: "startSearch model es = Some (length es, c)" "nodesOf (rev es) (heap c)"
    "linked.started TYPE('v) es (heap c) model" "linked.searchInv TYPE('v) es (heap c) model c" using start_search[OF w hd] by blast
  have tc: "tokenCount es = length es" using w by (simp add: tokenCount_def)
  obtain k ok c' where l: "checkLoop model computePartial (length es) kill c = Some (k, Returned ok c')"
    "if ok then completes (length es) (tokenMatch es) (accept (heap c) model) {} (Init model)
     else (\<exists>j. kill j) \<or> \<not> completes (length es) (tokenMatch es) (accept (heap c) model) {} (Init model)"
    using linked.check_loop[OF c(3,4), of computePartial kill] unfolding tc by blast
  then show ?thesis using c(1) linearizable_completes[OF w c(2), of model] by (simp add: checkSingle_def)
qed

end
