(* ===== verification/PorcupineProps.thy ===== *)
theory PorcupineProps
  imports PorcupineCorrect
begin

text \<open>
  Correctness of the checker on histories of operations: the sort yields a well-formed history with
  the real-time order of the operations, each partition is decided, the results are put together
  in any order in which they arrive, and what this means for the key/value model.
\<close>

section \<open>Sorting by time\<close>

text \<open>What \<^verbatim>\<open>sort.Sort\<close> promises for \<open>byTimeLess\<close>.\<close>

locale sort_by_time =
  fixes sortf :: "'v entry list \<Rightarrow> 'v entry list"
  assumes sort_perm: "mset (sortf es) = mset es"
    and sort_ordered: "sorted_wrt (\<lambda>x y. \<not> byTimeLess y x) (sortf es)"
begin

lemma sort_set [simp]: "set (sortf es) = set es"
  using sort_perm mset_eq_setD by blast

lemma sort_length [simp]: "length (sortf es) = length es"
  using sort_perm by (rule mset_eq_length)

end

definition timeKey :: "'v entry \<Rightarrow> int" where
  "timeKey e = 2 * eTime e + (if eKind e = callEntry then 0 else 1)"

lemma byTimeLess_key: "byTimeLess a b \<longleftrightarrow> timeKey a < timeKey b"
  by (cases "eKind a"; cases "eKind b") (auto simp: byTimeLess_def timeKey_def)

interpretation stable: sort_by_time "sort_key timeKey"
proof
  fix es :: "'a entry list"
  show "mset (sort_key timeKey es) = mset es" by simp
  have "sorted (map timeKey (sort_key timeKey es))" by simp
  then show "sorted_wrt (\<lambda>x y. \<not> byTimeLess y x) (sort_key timeKey es)"
    unfolding sorted_map byTimeLess_key by (rule sorted_wrt_mono_rel[rotated]) simp
qed

section \<open>Histories of operations\<close>

definition opsOk :: "'v Operation list \<Rightarrow> bool" where
  "opsOk ops \<longleftrightarrow> (\<forall>op \<in> set ops. Call op \<le> Return op) \<and> length ops < 2 ^ 62"

fun opsLegal :: "('v, 's) Model \<Rightarrow> 'v Operation list \<Rightarrow> 's \<Rightarrow> nat list \<Rightarrow> bool" where
  "opsLegal model ops s [] \<longleftrightarrow> True"
| "opsLegal model ops s (i # p) \<longleftrightarrow>
     (case Step model s (Input (ops ! i)) (Output (ops ! i)) of
        Some (True, s') \<Rightarrow> opsLegal model ops s' p
      | _ \<Rightarrow> False)"

text \<open>An order of the operations that the model accepts and that keeps the order of operations that
  do not overlap in time.\<close>

definition opsLinearizable :: "('v, 's) Model \<Rightarrow> 'v Operation list \<Rightarrow> bool" where
  "opsLinearizable model ops \<longleftrightarrow>
     (\<exists>p. distinct p \<and> set p = {..<length ops} \<and>
        sorted_wrt (\<lambda>i j. \<not> Return (ops ! j) < Call (ops ! i)) p \<and> opsLegal model ops (Init model) p)"

definition callOf :: "'v Operation list \<Rightarrow> int \<Rightarrow> nat \<Rightarrow> 'v entry" where
  "callOf ops k i = \<lparr>eKind = callEntry, eValue = Input (ops ! i), eId = k + int i, eTime = Call (ops ! i), eClientId = ClientId (ops ! i)\<rparr>"

definition returnOf :: "'v Operation list \<Rightarrow> int \<Rightarrow> nat \<Rightarrow> 'v entry" where
  "returnOf ops k i = \<lparr>eKind = returnEntry, eValue = Output (ops ! i), eId = k + int i, eTime = Return (ops ! i), eClientId = ClientId (ops ! i)\<rparr>"

lemma callOf_fields [simp]:
  "eKind (callOf ops k i) = callEntry" "eValue (callOf ops k i) = Input (ops ! i)" "eId (callOf ops k i) = k + int i"
  "eTime (callOf ops k i) = Call (ops ! i)"
  by (simp_all add: callOf_def)

lemma returnOf_fields [simp]:
  "eKind (returnOf ops k i) = returnEntry" "eValue (returnOf ops k i) = Output (ops ! i)" "eId (returnOf ops k i) = k + int i"
  "eTime (returnOf ops k i) = Return (ops ! i)"
  by (simp_all add: returnOf_def)

lemma entriesOf_set: "set (entriesOf k ops) = callOf ops k ` {..<length ops} \<union> returnOf ops k ` {..<length ops}"
proof (induction ops arbitrary: k)
  case (Cons op ops)
  have sh: "callOf (op # ops) k (Suc i) = callOf ops (k + 1) i" "returnOf (op # ops) k (Suc i) = returnOf ops (k + 1) i" for i
    by (simp_all add: callOf_def returnOf_def)
  have "{..<length (op # ops)} = insert 0 (Suc ` {..<length ops})" by (auto simp: image_iff less_Suc_eq_0_disj)
  then show ?case using Cons by (auto simp: sh image_image callOf_def returnOf_def)
qed simp

lemma entriesOf_length: "length (entriesOf k ops) = 2 * length ops"
  by (induction ops arbitrary: k) auto

lemma entriesOf_distinct: "distinct (map (\<lambda>e. (eKind e, eId e)) (entriesOf k ops))"
proof (induction ops arbitrary: k)
  case (Cons op ops)
  have "eId ` set (entriesOf (k + 1) ops) = (\<lambda>i. k + 1 + int i) ` {..<length ops}"
    unfolding entriesOf_set by (auto simp: image_Un image_image)
  then have "k \<notin> eId ` set (entriesOf (k + 1) ops)" by auto
  then have "eId e \<noteq> k" if "e \<in> set (entriesOf (k + 1) ops)" for e using that by blast
  then show ?case using Cons by auto
qed simp

context sort_by_time
begin

lemma entries_set: "set (makeEntries sortf ops) = callOf ops 0 ` {..<length ops} \<union> returnOf ops 0 ` {..<length ops}"
  by (simp add: makeEntries_def entriesOf_set)

lemma entries_wf:
  assumes "opsOk ops"
  shows "wfHistory (makeEntries sortf ops)"
proof -
  let ?es = "makeEntries sortf ops"
  have len: "length ?es = 2 * length ops" by (simp add: makeEntries_def entriesOf_length)
  have "mset (map (\<lambda>e. (eKind e, eId e)) ?es) = mset (map (\<lambda>e. (eKind e, eId e)) (entriesOf 0 ops))"
    by (simp add: makeEntries_def sort_perm)
  then have d: "distinct (map (\<lambda>e. (eKind e, eId e)) ?es)"
    using entriesOf_distinct mset_eq_imp_distinct_iff by blast
  have "sorted_wrt (\<lambda>x y. \<not> byTimeLess y x) ?es" by (simp add: makeEntries_def sort_ordered)
  then have "sorted_wrt (\<lambda>a b. \<not> (eKind a = returnEntry \<and> eKind b = callEntry \<and> eId a = eId b)) ?es"
  proof (rule sorted_wrt_mono_rel[rotated])
    fix x y assume xy: "x \<in> set ?es" "y \<in> set ?es" "\<not> byTimeLess y x"
    show "\<not> (eKind x = returnEntry \<and> eKind y = callEntry \<and> eId x = eId y)"
    proof
      assume k: "eKind x = returnEntry \<and> eKind y = callEntry \<and> eId x = eId y"
      then obtain i where i: "i < length ops" "x = returnOf ops 0 i" "y = callOf ops 0 i"
        using xy(1,2) unfolding entries_set by auto
      then have "Call (ops ! i) \<le> Return (ops ! i)" using assms by (simp add: opsOk_def)
      then show False using xy(3) i(2,3) by (auto simp: byTimeLess_def split: if_splits)
    qed
  qed
  moreover have "length ?es < 2 ^ 63" using assms len by (simp add: opsOk_def)
  moreover have "\<forall>e \<in> set ?es. 0 \<le> eId e \<and> eId e < int (length ?es div 2)"
    unfolding entries_set len by auto
  ultimately show ?thesis using d len by (simp add: wfHistory_def)
qed

lemma entries_valueAt:
  assumes "opsOk ops" "i < length ops"
  shows "valueAt (makeEntries sortf ops) callEntry (int i) = Input (ops ! i)"
    "valueAt (makeEntries sortf ops) returnEntry (int i) = Output (ops ! i)"
proof -
  let ?es = "makeEntries sortf ops"
  have at: "valueAt ?es (eKind e) (eId e) = eValue e" if "e \<in> set ?es" for e
  proof -
    have "e \<in> set (rev ?es)" using that by simp
    then obtain a where "a < length ?es" "rev ?es ! a = e" by (metis in_set_conv_nth length_rev)
    then show ?thesis using valueAt_entry[OF entries_wf[OF assms(1)]] by blast
  qed
  have "callOf ops 0 i \<in> set ?es" "returnOf ops 0 i \<in> set ?es" using assms(2) by (simp_all add: entries_set)
  from at[OF this(1)] at[OF this(2)]
  show "valueAt ?es callEntry (int i) = Input (ops ! i)" "valueAt ?es returnEntry (int i) = Output (ops ! i)"
    by simp_all
qed

text \<open>The order of the entries is the real-time order of the operations, whatever the sort does
  with equal elements.\<close>

lemma entries_precedes:
  assumes "i < length ops" "j < length ops"
  shows "precedes (makeEntries sortf ops) (int i) (int j) \<longleftrightarrow> Return (ops ! i) < Call (ops ! j)"
proof -
  let ?es = "makeEntries sortf ops"
  have ord: "sorted_wrt (\<lambda>x y. \<not> byTimeLess y x) ?es" by (simp add: makeEntries_def sort_ordered)
  have ret: "x = returnOf ops 0 i" if "x \<in> set ?es" "eKind x = returnEntry" "eId x = int i" for x
    using that unfolding entries_set by auto
  have call: "x = callOf ops 0 j" if "x \<in> set ?es" "eKind x = callEntry" "eId x = int j" for x
    using that unfolding entries_set by auto
  show ?thesis
  proof
    assume "precedes ?es (int i) (int j)"
    then obtain a b where l: "b < length ?es" "a < b" and k: "eKind (?es ! a) = returnEntry" "eId (?es ! a) = int i"
      "eKind (?es ! b) = callEntry" "eId (?es ! b) = int j" unfolding precedes_def by blast
    have "?es ! a \<in> set ?es" "?es ! b \<in> set ?es" using l by simp_all
    then have ab: "b < length ?es" "a < b" "?es ! a = returnOf ops 0 i" "?es ! b = callOf ops 0 j"
      using ret[OF _ k(1,2)] call[OF _ k(3,4)] l by blast+
    have "\<not> byTimeLess (callOf ops 0 j) (returnOf ops 0 i)" using sorted_wrt_nth_less[OF ord ab(2,1)] ab(3,4) by simp
    then show "Return (ops ! i) < Call (ops ! j)" by (auto simp: byTimeLess_def split: if_splits)
  next
    assume lt: "Return (ops ! i) < Call (ops ! j)"
    have "returnOf ops 0 i \<in> set ?es" "callOf ops 0 j \<in> set ?es" using assms by (simp_all add: entries_set)
    then obtain a b where ab: "a < length ?es" "b < length ?es" "?es ! a = returnOf ops 0 i" "?es ! b = callOf ops 0 j"
      by (auto simp: in_set_conv_nth)
    have "a \<noteq> b" using ab(3,4) by (metis callOf_fields(1) entryKind.distinct(1) returnOf_fields(1))
    moreover have "\<not> b < a"
    proof
      assume "b < a"
      then have "\<not> byTimeLess (returnOf ops 0 i) (callOf ops 0 j)" using sorted_wrt_nth_less[OF ord _ ab(1)] ab(3,4) by fastforce
      then show False using lt by (simp add: byTimeLess_def)
    qed
    ultimately have "a < b" by simp
    then show "precedes ?es (int i) (int j)"
      unfolding precedes_def using ab by (intro exI[of _ b] exI[of _ a] conjI) auto
  qed
qed

lemma entries_legal:
  assumes "opsOk ops"
  shows "\<forall>i \<in> set p. i < length ops \<Longrightarrow> legal model (makeEntries sortf ops) s (map int p) \<longleftrightarrow> opsLegal model ops s p"
  by (induction p arbitrary: s) (auto simp: entries_valueAt[OF assms] split: option.split prod.split bool.split)

lemma entries_linearizable:
  assumes "opsOk ops"
  shows "linearizable model (makeEntries sortf ops) \<longleftrightarrow> opsLinearizable model ops"
proof -
  let ?es = "makeEntries sortf ops"
  have ids: "eId ` set ?es = int ` {..<length ops}"
    unfolding entries_set by (auto simp: image_Un image_image)
  have ordered: "sorted_wrt (\<lambda>i j. \<not> precedes ?es j i) (map int q) \<longleftrightarrow>
      sorted_wrt (\<lambda>i j. \<not> Return (ops ! j) < Call (ops ! i)) q" if "set q \<subseteq> {..<length ops}" for q
    using that unfolding sorted_wrt_map
  proof (induction q)
    case (Cons i q)
    have "precedes ?es (int j) (int i) \<longleftrightarrow> Return (ops ! j) < Call (ops ! i)" if "j \<in> set q" for j
      using entries_precedes[of j ops i] Cons.prems that by auto
    then show ?case using Cons by auto
  qed simp
  show ?thesis
  proof
    assume "linearizable model ?es"
    then obtain p where p: "distinct p" "set p = int ` {..<length ops}" "sorted_wrt (\<lambda>i j. \<not> precedes ?es j i) p"
      "legal model ?es (Init model) p" unfolding linearizable_def ids by blast
    have q: "map int (map nat p) = p" using p(2) by (auto simp: o_def intro!: map_idI)
    have s: "set (map nat p) = {..<length ops}" using p(2) by (simp add: image_image)
    have "distinct (map int (map nat p))" unfolding q by (rule p(1))
    then have "distinct (map nat p)" unfolding distinct_map by blast
    moreover have "sorted_wrt (\<lambda>i j. \<not> precedes ?es j i) (map int (map nat p))" "legal model ?es (Init model) (map int (map nat p))"
      unfolding q by (rule p(3), rule p(4))
    ultimately show "opsLinearizable model ops"
      unfolding opsLinearizable_def using s ordered[of "map nat p"] entries_legal[OF assms, of "map nat p" model "Init model"]
      by (intro exI[of _ "map nat p"]) (auto simp del: set_map map_map)
  next
    assume "opsLinearizable model ops"
    then obtain p where p: "distinct p" "set p = {..<length ops}" "sorted_wrt (\<lambda>i j. \<not> Return (ops ! j) < Call (ops ! i)) p"
      "opsLegal model ops (Init model) p" by (auto simp: opsLinearizable_def)
    have "distinct (map int p)" using p(1) by (simp add: distinct_map)
    then show "linearizable model ?es" unfolding linearizable_def ids
      using p ordered[of p] entries_legal[OF assms, of p model "Init model"] by (intro exI[of _ "map int p"]) auto
  qed
qed

lemma entries_handles:
  assumes "opsOk ops" "\<forall>s. \<forall>op \<in> set ops. Step model s (Input op) (Output op) \<noteq> None"
    "\<forall>eq. Equal model = Some eq \<longrightarrow> (\<forall>s t. eq s t \<longleftrightarrow> s = t)"
  shows "handles (fillDefault model) (makeEntries sortf ops)"
proof -
  have ids: "eId ` set (makeEntries sortf ops) = int ` {..<length ops}"
    unfolding entries_set by (auto simp: image_Un image_image)
  have "Step (fillDefault model) = Step model" by (simp add: fillDefault_def)
  moreover have "\<exists>eq. Equal (fillDefault model) = Some eq \<and> (\<forall>s t. eq s t \<longleftrightarrow> s = t)"
    using assms(3) by (cases "Equal model") (auto simp: fillDefault_def ShallowEqual_def)
  ultimately show ?thesis using assms(1,2) unfolding handles_def ids by (auto simp: entries_valueAt)
qed

end

lemma fillDefault_fields [simp]: "Step (fillDefault model) = Step model" "Init (fillDefault model) = Init model"
  by (simp_all add: fillDefault_def)

lemma fillDefault_linearizable [simp]: "opsLinearizable (fillDefault model) ops \<longleftrightarrow> opsLinearizable model ops"
proof -
  have "opsLegal (fillDefault model) ops s p \<longleftrightarrow> opsLegal model ops s p" for s p
    by (induction p arbitrary: s) (simp_all split: option.split prod.split bool.split)
  then show ?thesis by (simp add: opsLinearizable_def)
qed

section \<open>Putting the results together\<close>

definition reports :: "Arrival list \<Rightarrow> nat list" where
  "reports arrivals = List.map_filter (\<lambda>a. case a of Reported i \<Rightarrow> Some i | TimerFired \<Rightarrow> None) arrivals"

lemma reports_simps [simp]:
  "reports [] = []" "reports (Reported i # as) = i # reports as" "reports (TimerFired # as) = reports as"
  by (simp_all add: reports_def List.map_filter_def)

lemma reports_map [simp]: "reports (map Reported ns) = ns"
  by (induction ns) auto

lemma collect_all:
  assumes "\<forall>i \<in> set ns. \<exists>x. results i = Ret (r i, x)" "len = cnt + length ns" "ns \<noteq> []"
  shows "collect computeInfo timed len results (map Reported ns) cnt ok = Ret (ok \<and> (\<forall>i \<in> set ns. r i), False)"
  using assms
proof (induction ns arbitrary: cnt ok)
  case (Cons i ns)
  obtain x where x: "results i = Ret (r i, x)" using Cons.prems(1) by auto
  show ?case
  proof (cases "ns = []")
    case True
    then show ?thesis using x Cons.prems(2) by auto
  next
    case False
    then show ?thesis using x Cons.IH[of "Suc cnt" "ok \<and> r i"] Cons.prems by auto
  qed
qed simp

lemma collect_answers:
  assumes "collect computeInfo timed len results arrivals cnt ok = Ret (ok', t)"
    and "\<forall>i \<in> set (reports arrivals). \<exists>x. results i = Ret (r i, x)"
  shows "(ok' \<and> \<not> t \<longrightarrow> (\<exists>k. len \<le> cnt + k \<and> k \<le> length (reports arrivals) \<and> (\<forall>i \<in> set (take k (reports arrivals)). r i))) \<and>
    (\<not> ok' \<longrightarrow> \<not> ok \<or> (\<exists>i \<in> set (reports arrivals). \<not> r i)) \<and> (t \<longrightarrow> timed) \<and> (ok' \<longrightarrow> ok)"
  using assms
proof (induction computeInfo timed len results arrivals cnt ok rule: collect.induct)
  case (3 computeInfo timed len results i arrivals cnt ok)
  obtain x where x: "results i = Ret (r i, x)" using 3(3) by auto
  show ?case
  proof (cases "(\<not> (ok \<and> r i) \<and> \<not> computeInfo) \<or> len \<le> cnt + 1")
    case True
    then have "ok' = (ok \<and> r i)" "\<not> t" using 3(2) x by (auto split: if_splits)
    then show ?thesis using True by (auto intro!: exI[of _ 1])
  next
    case False
    then have c: "collect computeInfo timed len results arrivals (cnt + 1) (ok \<and> r i) = Ret (ok', t)"
      using 3(2) x by (auto split: if_splits)
    have IH: "(ok' \<and> \<not> t \<longrightarrow> (\<exists>k. len \<le> cnt + 1 + k \<and> k \<le> length (reports arrivals) \<and> (\<forall>i \<in> set (take k (reports arrivals)). r i))) \<and>
        (\<not> ok' \<longrightarrow> \<not> (ok \<and> r i) \<or> (\<exists>i \<in> set (reports arrivals). \<not> r i)) \<and> (t \<longrightarrow> timed) \<and> (ok' \<longrightarrow> ok \<and> r i)"
      using 3(1)[of "(r i, x)" "r i" x, OF x refl refl refl] False c 3(3) by simp
    show ?thesis
    proof (intro conjI impI)
      assume a: "ok' \<and> \<not> t"
      then obtain k where k: "len \<le> cnt + 1 + k" "k \<le> length (reports arrivals)" "\<forall>i \<in> set (take k (reports arrivals)). r i"
        using IH by blast
      have "r i" using IH a by blast
      then show "\<exists>k. len \<le> cnt + k \<and> k \<le> length (reports (Reported i # arrivals)) \<and>
          (\<forall>i \<in> set (take k (reports (Reported i # arrivals))). r i)"
        using k by (intro exI[of _ "Suc k"]) simp
    qed (use IH in auto)
  qed
qed (auto split: if_splits)

lemma distinct_cover:
  assumes "distinct ns" "set ns \<subseteq> {..<len}" "len \<le> k" "k \<le> length ns"
  shows "set (take k ns) = {..<len}"
proof (rule card_subset_eq)
  show "set (take k ns) \<subseteq> {..<len}" using assms(2) set_take_subset by fast
  have "card (set (take k ns)) = k" using assms(1,4) by (simp add: distinct_card)
  moreover have "card (set (take k ns)) \<le> len" using card_mono[OF _ \<open>set (take k ns) \<subseteq> {..<len}\<close>] by simp
  ultimately show "card (set (take k ns)) = card {..<len}" using assms(3) by simp
qed simp

lemma checkParallel_result:
  assumes "checkParallel model history computeInfo timeout kills arrivals = Ret (res, info)"
  obtains ok t where "collect computeInfo (timeout > 0) (length history)
      (\<lambda>i. checkSingle model (history ! i) computeInfo (kills i)) arrivals 0 True = Ret (ok, t)"
    "res = (if \<not> ok then Illegal else if t then Unknown else Ok)"
proof -
  let ?results = "\<lambda>i. checkSingle model (history ! i) computeInfo (kills i)"
  let ?p = "if computeInfo then allPartials ?results [0..<length history] else Ret []"
  obtain ok t where c: "collect computeInfo (timeout > 0) (length history) ?results arrivals 0 True = Ret (ok, t)"
    using assms unfolding checkParallel_def Let_def by (cases "collect computeInfo (timeout > 0) (length history) ?results arrivals 0 True") auto
  moreover obtain ps where "?p = Ret ps" using assms c unfolding checkParallel_def Let_def by (cases ?p) auto
  ultimately show ?thesis using assms that unfolding checkParallel_def Let_def by simp
qed

definition demoHistory :: "KvAny entry list" where
  "demoHistory =
    [\<lparr>eKind = callEntry, eValue = KvIn \<lparr>Op = 1, Key = ''k'', Value = ''v''\<rparr>, eId = 0, eTime = 0, eClientId = 0\<rparr>,
     \<lparr>eKind = callEntry, eValue = KvIn \<lparr>Op = 0, Key = ''k'', Value = []\<rparr>, eId = 1, eTime = 1, eClientId = 1\<rparr>,
     \<lparr>eKind = returnEntry, eValue = KvOut \<lparr>outValue = ''v''\<rparr>, eId = 1, eTime = 2, eClientId = 1\<rparr>,
     \<lparr>eKind = returnEntry, eValue = KvOut \<lparr>outValue = []\<rparr>, eId = 0, eTime = 3, eClientId = 0\<rparr>]"

lemma demoHistory_ok: "wfHistory demoHistory" "handles (fillDefault KvModel) demoHistory"
  by (simp add: wfHistory_def demoHistory_def)
    (auto simp: handles_def demoHistory_def fillDefault_def KvModel_def ShallowEqual_def valueAt_def)

lemma checkParallel_answers:
  assumes wf: "\<forall>es \<in> set history. wfHistory es \<and> handles model es"
    and arr: "distinct (reports arrivals)" "set (reports arrivals) \<subseteq> {..<length history}"
    and kill: "\<forall>i \<in> set (reports arrivals). \<forall>j. \<not> kills i j"
    and run: "checkParallel model history computeInfo timeout kills arrivals = Ret (res, info)"
  shows "(res = Ok \<longrightarrow> (\<forall>es \<in> set history. linearizable model es)) \<and>
    (res = Illegal \<longrightarrow> (\<exists>es \<in> set history. \<not> linearizable model es)) \<and> (res = Unknown \<longrightarrow> timeout > 0)"
proof -
  let ?results = "\<lambda>i. checkSingle model (history ! i) computeInfo (kills i)"
  let ?r = "\<lambda>i. linearizable model (history ! i)"
  have ret: "\<forall>i \<in> set (reports arrivals). \<exists>x. ?results i = Ret (?r i, x)"
  proof
    fix i assume i: "i \<in> set (reports arrivals)"
    then have "history ! i \<in> set history" using arr(2) by auto
    then obtain ok x where "?results i = Ret (ok, x)" "if ok then ?r i else (\<exists>j. kills i j) \<or> \<not> ?r i"
      using checkSingle_decides[of "history ! i" model computeInfo "kills i"] wf by blast
    then show "\<exists>x. ?results i = Ret (?r i, x)" using kill i by (cases ok) auto
  qed
  obtain ok t where c: "collect computeInfo (timeout > 0) (length history) ?results arrivals 0 True = Ret (ok, t)"
    "res = (if \<not> ok then Illegal else if t then Unknown else Ok)" by (rule checkParallel_result[OF run])
  from collect_answers[OF c(1) ret] have a: "ok \<and> \<not> t \<longrightarrow> (\<exists>k. length history \<le> k \<and> k \<le> length (reports arrivals) \<and>
      (\<forall>i \<in> set (take k (reports arrivals)). ?r i))" "\<not> ok \<longrightarrow> (\<exists>i \<in> set (reports arrivals). \<not> ?r i)" "t \<longrightarrow> timeout > 0" by simp_all
  have "\<forall>es \<in> set history. linearizable model es" if "ok \<and> \<not> t"
  proof
    fix es assume "es \<in> set history"
    then obtain i where i: "i < length history" "es = history ! i" by (auto simp: in_set_conv_nth)
    obtain k where "length history \<le> k" "k \<le> length (reports arrivals)" "\<forall>i \<in> set (take k (reports arrivals)). ?r i"
      using a(1) \<open>ok \<and> \<not> t\<close> by blast
    then show "linearizable model es" using distinct_cover[OF arr] i by auto
  qed
  moreover have "\<exists>es \<in> set history. \<not> linearizable model es" if "\<not> ok"
    using a(2) that arr(2) nth_mem by fastforce
  ultimately show ?thesis using c(2) a(3) by (cases ok; cases t) auto
qed

text \<open>C19. Whatever the order in which the partitions report and whenever the timer fires: the
  checker says Ok only if every partition is linearizable, Illegal only if some partition is not,
  and Unknown only if there is a timeout.\<close>

theorem checkParallel_sound:
  assumes wf: "\<forall>es \<in> set history. wfHistory es \<and> handles model es"
    and arr: "distinct (reports arrivals)" "set (reports arrivals) \<subseteq> {..<length history}"
    and kill: "\<forall>i \<in> set (reports arrivals). \<forall>j. \<not> kills i j"
    and run: "checkParallel model history computeInfo timeout kills arrivals = Ret (res, info)"
  shows "(res = Ok \<longrightarrow> (\<forall>es \<in> set history. linearizable model es)) \<and>
    (res = Illegal \<longrightarrow> (\<exists>es \<in> set history. \<not> linearizable model es)) \<and> (res = Unknown \<longrightarrow> timeout > 0)"
  using checkParallel_answers[OF assms] .

theorem checkParallel_sound_witness:
  "\<exists>res info. checkParallel (fillDefault KvModel) [demoHistory] False 0 (\<lambda>_ _. False) [Reported 0] = Ret (res, info) \<and>
     (res = Ok \<longrightarrow> linearizable (fillDefault KvModel) demoHistory) \<and>
     (res = Illegal \<longrightarrow> \<not> linearizable (fillDefault KvModel) demoHistory)"
proof -
  let ?m = "fillDefault KvModel"
  have w: "\<forall>es \<in> set [demoHistory]. wfHistory es \<and> handles ?m es" using demoHistory_ok by simp
  have r: "distinct (reports [Reported 0])" "set (reports [Reported 0]) \<subseteq> {..<length [demoHistory]}"
    "\<forall>i \<in> set (reports [Reported 0]). \<forall>j. \<not> (\<lambda>_ _. False) i j" by simp_all
  obtain ok x where "checkSingle ?m demoHistory False (\<lambda>_. False) = Ret (ok, x)"
    using checkSingle_decides[OF demoHistory_ok, of False "\<lambda>_. False"] by blast
  then have c: "\<exists>res info. checkParallel ?m [demoHistory] False 0 (\<lambda>_ _. False) [Reported 0] = Ret (res, info)"
    by (cases ok) (simp_all add: checkParallel_def)
  then obtain res info where c: "checkParallel ?m [demoHistory] False 0 (\<lambda>_ _. False) [Reported 0] = Ret (res, info)" by blast
  from checkParallel_sound[OF w r c] c show ?thesis by simp
qed

lemma checkOperations_all:
  assumes srt: "sort_by_time sortf" and part: "the (Partition (fillDefault model)) history = Some ps" "ps \<noteq> []"
    and ops: "\<forall>h \<in> set ps. opsOk h \<and> (\<forall>s. \<forall>op \<in> set h. Step model s (Input op) (Output op) \<noteq> None)"
    and eq: "\<forall>eq. Equal model = Some eq \<longrightarrow> (\<forall>s t. eq s t \<longleftrightarrow> s = t)"
    and ns: "mset ns = mset [0..<length ps]"
  shows "CheckOperations sortf model history (\<lambda>_ _. False) (map Reported ns) = Ret (\<forall>h \<in> set ps. opsLinearizable model h)"
proof -
  let ?m = "fillDefault model" and ?l = "map (makeEntries sortf) ps"
  let ?results = "\<lambda>i. checkSingle ?m (?l ! i) False (\<lambda>_. False)"
  let ?r = "\<lambda>i. opsLinearizable model (ps ! i)"
  have set_ns: "set ns = {..<length ps}" using mset_eq_setD[OF ns] by (simp add: atLeast0LessThan)
  have len: "length ns = length ps" using mset_eq_length[OF ns] by simp
  have ret: "\<forall>i \<in> set ns. \<exists>x. ?results i = Ret (?r i, x)"
  proof
    fix i assume "i \<in> set ns"
    then have i: "i < length ps" using set_ns by simp
    then have "ps ! i \<in> set ps" by simp
    then have h: "opsOk (ps ! i)" "\<forall>s. \<forall>op \<in> set (ps ! i). Step model s (Input op) (Output op) \<noteq> None" using ops by blast+
    obtain ok x where o: "?results i = Ret (ok, x)" "if ok then linearizable ?m (?l ! i) else \<not> linearizable ?m (?l ! i)"
      using checkSingle_decides[of "?l ! i" ?m False "\<lambda>_. False"] sort_by_time.entries_wf[OF srt h(1)]
        sort_by_time.entries_handles[OF srt h eq] i by (auto split: if_splits)
    have "linearizable ?m (?l ! i) \<longleftrightarrow> ?r i"
      using sort_by_time.entries_linearizable[OF srt h(1), of ?m] i by simp
    then show "\<exists>x. ?results i = Ret (?r i, x)" using o by (cases ok) auto
  qed
  have ne: "ns \<noteq> []" using len part(2) by auto
  have "length ps = 0 + length ns" using len by simp
  from collect_all[OF ret this ne, where computeInfo = False and timed = False and ok = True]
  have "collect False False (length ps) ?results (map Reported ns) 0 True = Ret (\<forall>i \<in> set ns. ?r i, False)"
    by (simp only: simp_thms)
  moreover have "(\<forall>i \<in> set ns. ?r i) \<longleftrightarrow> (\<forall>h \<in> set ps. opsLinearizable model h)"
    unfolding set_ns by (auto simp: all_set_conv_all_nth)
  ultimately show ?thesis using part(1)
    by (simp add: CheckOperations_def checkOperations_def checkParallel_def resultOf_def isOk_def)
qed

section \<open>The key/value model\<close>

definition opKey :: "KvAny Operation \<Rightarrow> string" where
  "opKey op = (case Input op of KvIn inp \<Rightarrow> Key inp | KvOut _ \<Rightarrow> [])"

definition kvOp :: "KvAny Operation \<Rightarrow> bool" where
  "kvOp op \<longleftrightarrow> (\<exists>inp out. Input op = KvIn inp \<and> Output op = KvOut out)"

text \<open>Grouping by key: every key of the history has its operations in their order.\<close>

lemma kvGroup_keys:
  assumes "\<forall>op \<in> set history. kvOp op" "distinct (map fst m)"
  shows "\<exists>m'. kvGroup history m = Some m' \<and> distinct (map fst m') \<and> set (map fst m') = set (map fst m) \<union> opKey ` set history \<and>
    (\<forall>k \<in> set (map fst m'). map_of m' k = Some ((case map_of m k of Some ops \<Rightarrow> ops | None \<Rightarrow> []) @ filter (\<lambda>op. opKey op = k) history))"
  using assms
proof (induction history arbitrary: m)
  case Nil
  then show ?case by (auto simp: map_of_eq_None_iff split: option.split)
next
  case (Cons op history)
  obtain inp where inp: "Input op = KvIn inp" using Cons.prems(1) by (auto simp: kvOp_def)
  have k: "opKey op = Key inp" by (simp add: opKey_def inp)
  let ?old = "case map_of m (Key inp) of Some ops \<Rightarrow> ops | None \<Rightarrow> []"
  let ?m = "AList.update (Key inp) (?old @ [op]) m"
  have d: "distinct (map fst ?m)" using Cons.prems(2) by (rule distinct_update)
  obtain m' where m': "kvGroup history ?m = Some m'" "distinct (map fst m')" "set (map fst m') = set (map fst ?m) \<union> opKey ` set history"
    "\<forall>k \<in> set (map fst m'). map_of m' k = Some ((case map_of ?m k of Some ops \<Rightarrow> ops | None \<Rightarrow> []) @ filter (\<lambda>op. opKey op = k) history)"
    using Cons.IH[OF _ d] Cons.prems(1) by (meson list.set_intros(2))
  have s: "set (map fst ?m) = insert (Key inp) (set (map fst m))" using dom_update[of "Key inp" _ m] by (simp add: dom_map_of_conv_image_fst)
  show ?case
  proof (intro exI[of _ m'] conjI ballI)
    show "kvGroup (op # history) m = Some m'" using m'(1) by (simp add: inp)
    show "distinct (map fst m')" by (rule m'(2))
    show "set (map fst m') = set (map fst m) \<union> opKey ` set (op # history)" using m'(3) s k by auto
    fix k' assume "k' \<in> set (map fst m')"
    then have "map_of m' k' = Some ((case map_of ?m k' of Some ops \<Rightarrow> ops | None \<Rightarrow> []) @ filter (\<lambda>op. opKey op = k') history)"
      using m'(4) by blast
    then show "map_of m' k' = Some ((case map_of m k' of Some ops \<Rightarrow> ops | None \<Rightarrow> []) @ filter (\<lambda>op. opKey op = k') (op # history))"
      using k by (simp add: update_conv')
  qed
qed

lemma kvPartition_keys:
  assumes "\<forall>op \<in> set history. kvOp op"
  shows "\<exists>ks. kvPartition history = Some (map (\<lambda>k. filter (\<lambda>op. opKey op = k) history) ks) \<and>
    sorted ks \<and> distinct ks \<and> set ks = opKey ` set history"
proof -
  obtain m where m: "kvGroup history [] = Some m" "distinct (map fst m)" "set (map fst m) = opKey ` set history"
    "\<forall>k \<in> set (map fst m). map_of m k = Some (filter (\<lambda>op. opKey op = k) history)"
    using kvGroup_keys[OF assms, of "[]"] by (simp only: list.map distinct.simps list.set map_of.simps option.case append_Nil Un_empty_left) blast
  have "kvPartition history = Some (map (\<lambda>k. the (map_of m k)) (sort (map fst m)))" by (simp add: kvPartition_def m(1))
  also have "map (\<lambda>k. the (map_of m k)) (sort (map fst m)) = map (\<lambda>k. filter (\<lambda>op. opKey op = k) history) (sort (map fst m))"
    using m(4) by (intro map_cong) auto
  finally show ?thesis using m(2,3) by (intro exI[of _ "sort (map fst m)"] conjI) simp_all
qed

lemma kvStep_handles: "kvOp op \<Longrightarrow> Step KvModel s (Input op) (Output op) \<noteq> None"
  by (auto simp: kvOp_def KvModel_def)

text \<open>Checking the key/value model: the history is accepted exactly if the operations of each key,
  taken alone, are linearizable as operations on one value.\<close>

lemma kv_all:
  assumes srt: "sort_by_time sortf" and ops: "\<forall>op \<in> set history. kvOp op" "opsOk history" "history \<noteq> []"
    and ns: "mset ns = mset [0..<card (opKey ` set history)]"
  shows "CheckOperations sortf KvModel history (\<lambda>_ _. False) (map Reported ns) =
    Ret (\<forall>k \<in> opKey ` set history. opsLinearizable KvModel (filter (\<lambda>op. opKey op = k) history))"
proof -
  obtain ks where ks: "kvPartition history = Some (map (\<lambda>k. filter (\<lambda>op. opKey op = k) history) ks)"
    "distinct ks" "set ks = opKey ` set history" using kvPartition_keys[OF ops(1)] by blast
  let ?ps = "map (\<lambda>k. filter (\<lambda>op. opKey op = k) history) ks"
  have p: "the (Partition (fillDefault KvModel)) history = Some ?ps" using ks(1) by (simp add: fillDefault_def KvModel_def)
  have ne: "?ps \<noteq> []" using ks(3) ops(3) by auto
  have "opsOk (filter P history)" for P
  proof -
    have "length (filter P history) < 2 ^ 62" using ops(2) unfolding opsOk_def by (meson length_filter_le le_less_trans)
    then show ?thesis using ops(2) by (simp add: opsOk_def)
  qed
  then have h: "\<forall>h \<in> set ?ps. opsOk h \<and> (\<forall>s. \<forall>op \<in> set h. Step KvModel s (Input op) (Output op) \<noteq> None)"
    using ops(1) kvStep_handles by auto
  have eq: "\<forall>eq. Equal KvModel = Some eq \<longrightarrow> (\<forall>s t. eq s t \<longleftrightarrow> s = t)" by (simp add: KvModel_def)
  have "length ?ps = card (opKey ` set history)" using distinct_card[OF ks(2)] ks(3) by simp
  then have n: "mset ns = mset [0..<length ?ps]" using ns by simp
  show ?thesis using checkOperations_all[OF srt p ne h eq n] ks(3) by simp
qed

section \<open>Properties\<close>

text \<open>C6. The search of one partition is correct and ends: on a well-formed history, with a step
  function that handles its operations, \<open>checkSingle\<close> returns, without a panic, and returns true
  exactly if the history is linearizable.\<close>

theorem checkSingle_correct:
  assumes "wfHistory es" "handles model es"
  shows "\<exists>info. checkSingle model es computePartial (\<lambda>_. False) = Ret (linearizable model es, info)"
  using checkSingle_decides[OF assms, of computePartial "\<lambda>_. False"] by (auto split: if_splits)

theorem checkSingle_correct_witness:
  "\<exists>info. checkSingle (fillDefault KvModel) demoHistory False (\<lambda>_. False) =
     Ret (linearizable (fillDefault KvModel) demoHistory, info)"
  by (rule checkSingle_correct[OF demoHistory_ok])

text \<open>Lifting a call and its return out of the list of entries takes exactly these two nodes out,
  and unlifting puts the heap back as it was, whatever the other nodes are.\<close>

lemma lift_unlift:
  assumes "dll h (xs @ u # e # ys @ m # zs)" "nMatch (h ! e) = Some m"
  shows "\<exists>h'. lift h e = Some h' \<and> dll h' (xs @ u # ys @ zs) \<and> unlift h' e = Some h"
  using dll_lift[OF assms] by blast

definition demoHeap :: "nat heap" where
  "demoHeap =
    [\<lparr>nValue = None, nMatch = None, nId = -1, nNext = Some 1, nPrev = None\<rparr>,
     \<lparr>nValue = Some 7, nMatch = Some 2, nId = 0, nNext = Some 2, nPrev = Some 0\<rparr>,
     \<lparr>nValue = Some 8, nMatch = None, nId = 0, nNext = None, nPrev = Some 1\<rparr>]"

text \<open>C39. A bit set of the size of the history implements a set of operation numbers: setting and
  clearing a bit add and remove the number, reading it tests membership, and the population count
  is the size.\<close>

theorem bitset_implements_set:
  assumes "p < n" "length b = length (newBitset n)"
  shows "\<exists>b1 b2. bitset_set (bitset_clone b) p = Some b1 \<and> bitset_clear b p = Some b2 \<and>
    length b1 = length b \<and> length b2 = length b \<and>
    bitsOf b1 = insert p (bitsOf b) \<and> bitsOf b2 = bitsOf b - {p} \<and>
    bitset_get b p = Some (p \<in> bitsOf b) \<and> popcnt b = card (bitsOf b)"
proof -
  have r: "p < 64 * length b" using newBitset_room[OF assms(1)] assms(2) by simp
  obtain b1 where "bitset_set b p = Some b1" "length b1 = length b" "bitsOf b1 = insert p (bitsOf b)" by (rule bitset_set_bits[OF r])
  moreover obtain b2 where "bitset_clear b p = Some b2" "length b2 = length b" "bitsOf b2 = bitsOf b - {p}" by (rule bitset_clear_bits[OF r])
  ultimately show ?thesis using r by (simp add: bitset_get_bits popcnt_card)
qed

theorem bitset_implements_set_witness:
  "\<exists>b1. bitset_set (newBitset 70) 65 = Some b1 \<and> bitsOf b1 = {65}"
  using bitset_implements_set[of 65 70 "newBitset 70"] by auto

text \<open>C13. The checker on a history of operations: whatever sort by time is used and in whatever order
  the partitions report, the answer is whether every partition is linearizable in real time.\<close>

theorem CheckOperations_correct:
  assumes "sort_by_time sortf" "the (Partition (fillDefault model)) history = Some ps" "ps \<noteq> []"
    and "\<forall>h \<in> set ps. opsOk h \<and> (\<forall>s. \<forall>op \<in> set h. Step model s (Input op) (Output op) \<noteq> None)"
    and "\<forall>eq. Equal model = Some eq \<longrightarrow> (\<forall>s t. eq s t \<longleftrightarrow> s = t)"
    and "mset ns = mset [0..<length ps]"
  shows "CheckOperations sortf model history (\<lambda>_ _. False) (map Reported ns) = Ret (\<forall>h \<in> set ps. opsLinearizable model h)"
  by (rule checkOperations_all[OF assms])

definition demoOps :: "KvAny Operation list" where
  "demoOps =
    [\<lparr>ClientId = 0, Input = KvIn \<lparr>Op = 1, Key = ''k'', Value = ''v''\<rparr>, Call = 0, Output = KvOut \<lparr>outValue = []\<rparr>, Return = 2\<rparr>,
     \<lparr>ClientId = 1, Input = KvIn \<lparr>Op = 0, Key = ''k'', Value = []\<rparr>, Call = 1, Output = KvOut \<lparr>outValue = ''v''\<rparr>, Return = 3\<rparr>]"

definition demoModel :: "(KvAny, string) Model" where
  "demoModel = KvModel\<lparr>Partition := None\<rparr>"

theorem CheckOperations_correct_witness:
  "CheckOperations (sort_key timeKey) demoModel demoOps (\<lambda>_ _. False) [Reported 0] = Ret (opsLinearizable demoModel demoOps)"
proof -
  have p: "the (Partition (fillDefault demoModel)) demoOps = Some [demoOps]" "[demoOps] \<noteq> []"
    by (simp_all add: fillDefault_def demoModel_def KvModel_def NoPartition_def)
  have o: "\<forall>h \<in> set [demoOps]. opsOk h \<and> (\<forall>s. \<forall>op \<in> set h. Step demoModel s (Input op) (Output op) \<noteq> None)"
    by (auto simp: demoOps_def opsOk_def demoModel_def KvModel_def)
  have e: "\<forall>eq. Equal demoModel = Some eq \<longrightarrow> (\<forall>s t. eq s t \<longleftrightarrow> s = t)" by (simp add: demoModel_def KvModel_def)
  have n: "mset [0] = mset [0..<length [demoOps]]" by simp
  from CheckOperations_correct[OF stable.sort_by_time_axioms p o e n] show ?thesis by simp
qed



text \<open>An empty history of key/value operations has no partition, so nothing ever reports:
  \<^verbatim>\<open>CheckOperations\<close> never returns, and with a timeout the answer is Unknown instead of Ok.\<close>

lemma empty_history_hangs:
  "CheckOperations sortf KvModel [] kills [] = Blocked \<and>
   CheckOperationsTimeout sortf KvModel [] 1 kills [TimerFired] = Ret Unknown"
  by (simp add: CheckOperations_def CheckOperationsTimeout_def checkOperations_def checkParallel_def resultOf_def isOk_def
      fillDefault_def KvModel_def kvPartition_def)

end
