(* ===== verification/PorcupinePartial.thy ===== *)
theory PorcupinePartial
  imports PorcupineProps
begin

text \<open>
  What \<open>checkSingle\<close> reports besides its answer: the partial linearizations it noted on the way.  Each of them is the stack of
  calls of some moment of the search, so the model accepts it, and it takes no operation before one
  that had returned when the operation was called.  For an accepted history a complete linearization is among them.
\<close>

section \<open>The invariant of the notes\<close>

context calls_and_returns
begin

definition noted :: "'v heap \<Rightarrow> ('v, 's) Model \<Rightarrow> int list \<Rightarrow> bool" where
  "noted h0 model q \<longleftrightarrow> (\<exists>cs s. stack N m (accept h0 model) (Init model) cs s \<and> q = map (\<lambda>x. sid (fst x)) cs)"

definition notesOk :: "'v heap \<Rightarrow> ('v, 's) Model \<Rightarrow> int list list \<Rightarrow> nat option list \<Rightarrow> bool" where
  "notesOk h0 model sqs lng \<longleftrightarrow>
     (\<forall>q \<in> set sqs. noted h0 model q) \<and>
     (\<forall>i < length lng. \<forall>k. lng ! i = Some k \<longrightarrow> k < length sqs \<and> int i \<in> set (sqs ! k))"

lemma longestLoop_notes:
  assumes "longestLoop ids is cur sqs lng = Some (sqs', lng')" "notesOk h0 model sqs lng" "noted h0 model ids"
    "set is \<subseteq> set ids" "\<forall>k. cur = Some k \<longrightarrow> k < length sqs \<and> sqs ! k = ids"
  shows "notesOk h0 model sqs' lng'"
  using assms
proof (induction "is" arbitrary: cur sqs lng)
  case (Cons i "is")
  have i: "0 \<le> i" "i < int (length lng)" using Cons.prems(1) by (simp_all split: if_splits)
  have int: "int (nat i) = i" "i \<in> set ids" "nat i < length lng" using i Cons.prems(4) by auto
  show ?case
  proof (cases "case lng ! nat i of None \<Rightarrow> True | Some p \<Rightarrow> length ids > length (sqs ! p)")
    case better: True
    show ?thesis
    proof (cases cur)
      case None
      have "notesOk h0 model (sqs @ [ids]) (lng[nat i := Some (length sqs)])"
        using Cons.prems(2,3) int unfolding notesOk_def by (auto simp: nth_append nth_list_update split: if_splits)
      then show ?thesis
        using Cons.IH[of "Some (length sqs)" "sqs @ [ids]" "lng[nat i := Some (length sqs)]"] Cons.prems better None i by simp
    next
      case (Some k)
      have "notesOk h0 model sqs (lng[nat i := Some k])"
        using Cons.prems(2,5) Some int unfolding notesOk_def by (auto simp: nth_list_update split: if_splits)
      then show ?thesis using Cons.IH[of "Some k" sqs "lng[nat i := Some k]"] Cons.prems better Some i by simp
    qed
  next
    case False
    then show ?thesis using Cons.IH[of cur sqs lng] Cons.prems i by simp
  qed
qed simp

lemma callIds_noted:
  assumes st: "started h0 model" and inv: "searchInv h0 model c"
  shows "callIds c = map (\<lambda>x. sid (fst x)) (calls c)" "noted h0 model (callIds c)"
proof -
  note f = inv_facts[OF st inv]
  have "nId (heap c ! a) = sid a" if "a \<in> set (map fst (calls c))" for a
    using that f(1,4) st by (auto simp: called_def callSet_def sameNodes_def started_def)
  then show ids: "callIds c = map (\<lambda>x. sid (fst x)) (calls c)" by (auto simp: callIds_def)
  have "stack N m (accept h0 model) (Init model) (calls c) (curState c)" using inv by (simp add: searchInv_def)
  then show "noted h0 model (callIds c)" unfolding noted_def ids by blast
qed

lemma tryCall_notes: "tryCall model N c e r = Running c' \<Longrightarrow> seqs c' = seqs c \<and> longest c' = longest c"
  by (auto simp: tryCall_def split: option.splits prod.splits if_splits)

lemma tryCall_runs_on: "tryCall model N c e r \<noteq> Returned ok c'"
  by (auto simp: tryCall_def split: option.splits prod.splits if_splits)

lemma backtrack_notes:
  assumes st: "started h0 model" and inv: "searchInv h0 model c" and ok: "notesOk h0 model (seqs c) (longest c)"
  shows "backtrack computePartial c = Running c' \<Longrightarrow> notesOk h0 model (seqs c') (longest c')"
    "backtrack computePartial c = Returned b c' \<Longrightarrow> \<not> b \<and> c' = c"
proof -
  have "notesOk h0 model sq lg"
    if "(if computePartial then longestLoop (callIds c) (callIds c) None (seqs c) (longest c) else Some (seqs c, longest c)) = Some (sq, lg)" for sq lg
    using that ok longestLoop_notes[OF _ ok callIds_noted(2)[OF st inv]] by (auto split: if_splits)
  then show "backtrack computePartial c = Running c' \<Longrightarrow> notesOk h0 model (seqs c') (longest c')"
    by (auto simp: backtrack_def split: if_splits option.splits prod.splits)
  show "backtrack computePartial c = Returned b c' \<Longrightarrow> \<not> b \<and> c' = c"
    by (auto simp: backtrack_def split: if_splits option.splits prod.splits)
qed

text \<open>With the answer true the last note is a run through all calls, and every operation points to it.\<close>

definition allNoted :: "'v heap \<Rightarrow> ('v, 's) Model \<Rightarrow> int list list \<Rightarrow> nat option list \<Rightarrow> bool" where
  "allNoted h0 model sqs lng \<longleftrightarrow>
     (\<exists>cs s. stack N m (accept h0 model) (Init model) cs s \<and> remaining N m (set (map fst cs)) = [] \<and>
        (\<forall>p \<in> set lng. \<exists>k. p = Some k \<and> k < length sqs \<and> sqs ! k = map (\<lambda>x. sid (fst x)) cs))"

lemma step_notes:
  assumes st: "started h0 model" and inv: "searchInv h0 model c" and ok: "notesOk h0 model (seqs c) (longest c)"
  shows "case checkStep model computePartial N kill c of
     Running c' \<Rightarrow> notesOk h0 model (seqs c') (longest c')
   | Returned b c' \<Rightarrow> (\<forall>q \<in> set (seqs c'). noted h0 model q) \<and> (\<forall>k. Some k \<in> set (longest c') \<longrightarrow> k < length (seqs c')) \<and>
       (b \<longrightarrow> allNoted h0 model (seqs c') (longest c'))
   | Panicked \<Rightarrow> True"
proof (cases "nNext (heap c ! N) = None")
  case True
  have "firstOf (remaining N m (called c)) None = None" using inv_head[OF st inv] True by simp
  then have e: "remaining N m (set (map fst (calls c))) = []" by (cases "remaining N m (called c)") (simp_all add: called_def)
  note ids = callIds_noted[OF st inv]
  have stk: "stack N m (accept h0 model) (Init model) (calls c) (curState c)" using inv by (simp add: searchInv_def)
  have "allNoted h0 model (seqs c @ [callIds c]) (replicate (length (longest c)) (Some (length (seqs c))))"
    unfolding allNoted_def using stk e ids(1) by (intro exI[of _ "calls c"] exI[of _ "curState c"]) auto
  then show ?thesis using True ok ids(2) by (auto simp: checkStep_def notesOk_def)
next
  case False
  have out: "(\<forall>q \<in> set (seqs c). noted h0 model q) \<and> (\<forall>k. Some k \<in> set (longest c) \<longrightarrow> k < length (seqs c))"
    using ok unfolding notesOk_def by (metis in_set_conv_nth)
  show ?thesis
  proof (cases "checkStep model computePartial N kill c")
    case (Running c')
    then show ?thesis using False ok tryCall_notes[of model c _ _ c'] backtrack_notes(1)[OF st inv ok, of computePartial c']
      by (auto simp: checkStep_def split: if_splits option.splits)
  next
    case (Returned b c')
    then have "\<not> b \<and> c' = c" using False backtrack_notes(2)[OF st inv ok]
      by (auto simp: checkStep_def tryCall_runs_on split: if_splits option.splits)
    then show ?thesis using Returned out by simp
  qed simp
qed

lemma loop_notes:
  assumes st: "started h0 model" and inv: "searchInv h0 model c" and ok: "notesOk h0 model (seqs c) (longest c)"
    and run: "checkLoop model computePartial N kill c = Some (k, Returned b c')"
  shows "(\<forall>q \<in> set (seqs c'). noted h0 model q) \<and> (\<forall>k. Some k \<in> set (longest c') \<longrightarrow> k < length (seqs c')) \<and>
    (b \<longrightarrow> allNoted h0 model (seqs c') (longest c'))"
proof -
  let ?b = "\<lambda>(k :: nat, p :: ('v, 's) Search Progress). case p of Running c \<Rightarrow> True | _ \<Rightarrow> False"
  let ?s = "\<lambda>(k, p). case p of Running c \<Rightarrow> (Suc k, checkStep model computePartial N (kill k) c) | _ \<Rightarrow> (k, p)"
  let ?I = "\<lambda>(k :: nat, p). case p of Running c \<Rightarrow> searchInv h0 model c \<and> notesOk h0 model (seqs c) (longest c)
    | Returned b c' \<Rightarrow> (\<forall>q \<in> set (seqs c'). noted h0 model q) \<and> (\<forall>k. Some k \<in> set (longest c') \<longrightarrow> k < length (seqs c')) \<and>
        (b \<longrightarrow> allNoted h0 model (seqs c') (longest c'))
    | Panicked \<Rightarrow> True"
  have keep: "?I (?s x)" if I: "?I x" and b: "?b x" for x
  proof -
    obtain k d where x: "x = (k, Running d)" using b by (cases x; cases "snd x") auto
    then have d: "searchInv h0 model d" "notesOk h0 model (seqs d) (longest d)" using I by simp_all
    from check_step[OF st d(1), where computePartial = computePartial and kill = "kill k"]
      step_notes[OF st d, where computePartial = computePartial and kill = "kill k"]
    show ?thesis unfolding x by (cases "checkStep model computePartial N (kill k) d") auto
  qed
  have I0: "?I (0, Running c)" using inv ok by simp
  have "?I (k, Returned b c')" by (rule while_option_rule[where P = ?I, OF keep run[unfolded checkLoop_def] I0])
  then show ?thesis by simp
qed

text \<open>A call on the stack was chosen when all operations that had returned before it were taken.\<close>

lemma stack_predecessors:
  "stack N m f init cs s \<Longrightarrow> k < length cs \<Longrightarrow> b < N \<Longrightarrow> m b = Some r \<Longrightarrow> fst (cs ! k) < r \<Longrightarrow> b \<in> fst ` set (take k cs)"
proof (induction rule: stack.induct)
  case (push cs s xs c ys s')
  show ?case
  proof (cases "k < length cs")
    case True
    then show ?thesis using push by (simp add: nth_append)
  next
    case False
    then have k: "k = length cs" using push.prems(1) by simp
    have C: "callSet (set (map fst cs))" by (rule stack_callSet[OF push.hyps(1)])
    have cr: "c < r" using push.prems(4) k by simp
    have "b \<in> set (map fst cs)"
    proof (rule ccontr)
      assume "b \<notin> set (map fst cs)"
      moreover have "m d \<noteq> Some b" if "d \<in> set (map fst cs)" for d
        using match_return[of d b] C push.prems(3) that by (auto simp: callSet_def)
      ultimately have "b \<in> set (remaining N m (set (map fst cs)))" using push.prems(2) by (simp add: remaining_set del: set_map)
      then have "r \<in> set (xs @ c # ys)" using return_left[OF C _ push.prems(3)] push.hyps(2) by simp
      moreover have "\<forall>y \<in> set ys. y < c" using remaining_sorted[of N m "set (map fst cs)"] unfolding push.hyps(2) by (auto simp: sorted_wrt_append)
      ultimately have "r \<in> set xs" using cr by fastforce
      then show False using push.hyps(3) match_return[OF push.prems(2,3)] by (auto simp: dead_def)
    qed
    then show ?thesis using k by simp
  qed
qed simp

end

section \<open>Valid partial linearizations\<close>

text \<open>Some operations in an order that the model accepts, each after all those that had returned before it was called.\<close>

definition validPartial :: "('v, 's) Model \<Rightarrow> 'v entry list \<Rightarrow> int list \<Rightarrow> bool" where
  "validPartial model es p \<longleftrightarrow>
     distinct p \<and> set p \<subseteq> eId ` set es \<and> legal model es (Init model) p \<and>
     (\<forall>k < length p. \<forall>j. precedes es j (p ! k) \<longrightarrow> j \<in> set (take k p))"

lemma start_search_notes:
  assumes "wfHistory es" "startSearch model es = Some (k, c)"
  shows "seqs c = [] \<and> longest c = replicate (length es div 2) None"
proof -
  obtain h where h: "makeLinkedEntries es = (h, firstOf (rev [0..<length es]) None)" "dll h (rev [0..<length es])"
    using linked_entries[OF assms(1)] by blast
  have "nodeLength h (firstOf (rev [0..<length es]) None) 0 = Some (length es)"
    using nodeLength_seg[of h None "rev [0..<length es]" 0] h(2) by (simp add: dll_def)
  then show ?thesis using assms(2) h(1) by (auto simp: startSearch_def)
qed

lemma longestLoop_length: "longestLoop ids is cur sqs lng = Some (sqs', lng') \<Longrightarrow> length lng' = length lng"
  by (induction "is" arbitrary: cur sqs lng) (auto split: if_splits option.splits)

lemma checkStep_longest:
  "case checkStep model computePartial N kill c of Running c' \<Rightarrow> length (longest c') = length (longest c)
   | Returned b c' \<Rightarrow> length (longest c') = length (longest c) | Panicked \<Rightarrow> True"
  by (auto simp: checkStep_def tryCall_def backtrack_def dest: longestLoop_length split: if_splits option.splits prod.splits)

lemma checkLoop_longest:
  assumes "checkLoop model computePartial N kill c = Some (k, Returned b c')"
  shows "length (longest c') = length (longest c)"
proof -
  let ?b = "\<lambda>(k :: nat, p :: ('a, 'b) Search Progress). case p of Running c \<Rightarrow> True | _ \<Rightarrow> False"
  let ?s = "\<lambda>(k, p). case p of Running c \<Rightarrow> (Suc k, checkStep model computePartial N (kill k) c) | _ \<Rightarrow> (k, p)"
  let ?I = "\<lambda>(k :: nat, p :: ('a, 'b) Search Progress). case p of Running d \<Rightarrow> length (longest d) = length (longest c)
    | Returned b d \<Rightarrow> length (longest d) = length (longest c) | Panicked \<Rightarrow> True"
  have keep: "?I (?s x)" if I: "?I x" and b: "?b x" for x
  proof -
    obtain j d where x: "x = (j, Running d)" using b by (cases x; cases "snd x") auto
    show ?thesis using I checkStep_longest[where model = model and computePartial = computePartial and N = N and kill = "kill j" and c = d] unfolding x
      by (cases "checkStep model computePartial N (kill j) d") auto
  qed
  have I0: "?I (0, Running c)" by simp
  have "?I (k, Returned b c')" by (rule while_option_rule[where P = ?I, OF keep assms[unfolded checkLoop_def] I0])
  then show ?thesis by simp
qed

lemma stack_valid:
  fixes es :: "'v entry list"
  assumes w: "wfHistory es" and h: "nodesOf (rev es) h"
    and stk: "stack (length es) (tokenMatch es) (accept h model) (Init model) cs s"
  shows "validPartial model es (map (\<lambda>x. tokenId es (fst x)) cs)"
proof -
  have tc: "tokenCount es = length es" using w by (simp add: tokenCount_def)
  have stk': "stack (tokenCount es) (tokenMatch es) (accept h model) (Init model) cs s" using stk by (simp only: tc)
  have calls: "a < length es \<and> tokenMatch es a \<noteq> None" if "a \<in> set (map fst cs)" for a
    using linked.stack_callSet[OF stk'] that unfolding linked.callSet_def unfolding tc by blast
  have map: "map (\<lambda>x. tokenId es (fst x)) cs = map (tokenId es) (map fst cs)" by simp
  have "inj_on (tokenId es) (set (map fst cs))" by (rule inj_on_subset[OF tokenId_inj[OF w]]) (use calls in blast)
  then have "distinct (map (tokenId es) (map fst cs))" using stack_distinct[OF stk] unfolding distinct_map[of "tokenId es"] by blast
  moreover have "set (map (tokenId es) (map fst cs)) \<subseteq> eId ` set es"
    unfolding tokens_of_calls[OF w, symmetric] set_map[of "tokenId es"] by (rule image_mono) (use calls in blast)
  moreover have "legal model es (Init model) (map (tokenId es) (map fst cs))"
    using legal_runs[OF w h, of "map fst cs" model "Init model"] calls stack_runs[OF stk] by auto
  moreover have "j \<in> set (take k (map (tokenId es) (map fst cs)))"
    if k: "k < length cs" and pr: "precedes es j (tokenId es (fst (cs ! k)))" for k j
  proof -
    have "j \<in> eId ` set es" using pr by (auto simp: precedes_def)
    then obtain b where b: "b < length es" "tokenMatch es b \<noteq> None" "j = tokenId es b" unfolding tokens_of_calls[OF w, symmetric] by blast
    have a: "fst (cs ! k) < length es" "tokenMatch es (fst (cs ! k)) \<noteq> None" using calls[of "fst (cs ! k)"] k by auto
    obtain r where "tokenMatch es b = Some r" "fst (cs ! k) < r" using precedes_tokens[OF w a(1) b(1) a(2) b(2)] pr b(3) by blast
    then have "b \<in> fst ` set (take k cs)"
      using linked.stack_predecessors[OF stk' k, of b r] b(1) unfolding tc by blast
    then show ?thesis using b(3) by (auto simp: take_map)
  qed
  ultimately show ?thesis unfolding validPartial_def map by simp
qed

lemma checkSingle_partials:
  fixes es :: "'v entry list"
  assumes w: "wfHistory es" and hd: "handles model es" and run: "checkSingle model es computePartial kill = Ret (ok, sqs, lng)"
  shows "\<forall>p \<in> set (partialsOf (ok, sqs, lng)). validPartial model es p"
    "ok \<Longrightarrow> es \<noteq> [] \<Longrightarrow> \<exists>p \<in> set (partialsOf (ok, sqs, lng)). set p = eId ` set es"
proof -
  obtain c where c: "startSearch model es = Some (length es, c)" "nodesOf (rev es) (heap c)"
    "linked.started TYPE('v) es (heap c) model" "linked.searchInv TYPE('v) es (heap c) model c" using start_search[OF w hd] by blast
  have tc: "tokenCount es = length es" using w by (simp add: tokenCount_def)
  have emp: "seqs c = []" "longest c = replicate (length es div 2) None"
    using start_search_notes[OF w c(1)] by auto
  obtain k c' where l: "checkLoop model computePartial (length es) kill c = Some (k, Returned ok c')" "sqs = seqs c'" "lng = longest c'"
    using run c(1) by (auto simp: checkSingle_def split: option.splits Progress.splits)
  have n0: "linked.notesOk TYPE('v) es (heap c) model (seqs c) (longest c)" by (simp add: linked.notesOk_def emp)
  have l1: "checkLoop model computePartial (tokenCount es) kill c = Some (k, Returned ok c')" using l(1) by (simp only: tc)
  note r = linked.loop_notes[OF c(3,4) n0 l1]
  have in_partials: "q \<in> set (partialsOf (ok, sqs, lng)) \<longleftrightarrow> (\<exists>k. Some k \<in> set lng \<and> q = sqs ! k)" for q
    by (auto simp: partialsOf_def map_filter_def image_iff)
  show "\<forall>p \<in> set (partialsOf (ok, sqs, lng)). validPartial model es p"
  proof
    fix p assume "p \<in> set (partialsOf (ok, sqs, lng))"
    then have "p \<in> set (seqs c')" using r l(2,3) unfolding in_partials by auto
    then have "linked.noted TYPE('v) es (heap c) model p" using r by blast
    then obtain cs s where "stack (length es) (tokenMatch es) (accept (heap c) model) (Init model) cs s"
      "p = map (\<lambda>x. tokenId es (fst x)) cs" unfolding linked.noted_def unfolding tc by blast
    then show "validPartial model es p" using stack_valid[OF w c(2)] by simp
  qed
  assume "ok" "es \<noteq> []"
  then obtain cs s where cs: "stack (length es) (tokenMatch es) (accept (heap c) model) (Init model) cs s"
    "remaining (length es) (tokenMatch es) (set (map fst cs)) = []"
    "\<forall>p \<in> set lng. \<exists>k. p = Some k \<and> k < length sqs \<and> sqs ! k = map (\<lambda>x. tokenId es (fst x)) cs"
    using r unfolding linked.allNoted_def unfolding tc l(2,3) by blast
  have "length lng = length es div 2" using checkLoop_longest[OF l(1)] emp l(3) by simp
  moreover have "0 < length es div 2" using w \<open>es \<noteq> []\<close> unfolding wfHistory_def by (cases "length es div 2") auto
  ultimately obtain p where "p \<in> set lng" by (cases lng) auto
  then have "map (\<lambda>x. tokenId es (fst x)) cs \<in> set (partialsOf (ok, sqs, lng))" using cs(3) unfolding in_partials by metis
  moreover have "set (map (\<lambda>x. tokenId es (fst x)) cs) = eId ` set es"
  proof -
    have "stack (tokenCount es) (tokenMatch es) (accept (heap c) model) (Init model) cs s" using cs(1) by (simp only: tc)
    note C = linked.stack_callSet[OF this]
    have "set (map fst cs) = {a. a < length es \<and> tokenMatch es a \<noteq> None}"
      using C linked.calls_remain[OF C] cs(2) unfolding linked.callSet_def unfolding tc by auto
    then show ?thesis using tokens_of_calls[OF w] by (metis (no_types, lifting) list.map_comp comp_apply map_eq_conv set_map)
  qed
  ultimately show "\<exists>p \<in> set (partialsOf (ok, sqs, lng)). set p = eId ` set es" by blast
qed

section \<open>What \<open>checkParallel\<close> hands to the visualization\<close>

lemma allPartials_nth:
  "allPartials results is = Ret ps \<Longrightarrow>
   length ps = length is \<and> (\<forall>k < length is. \<exists>r. results (is ! k) = Ret r \<and> ps ! k = partialsOf r)"
proof (induction "is" arbitrary: ps)
  case (Cons i "is")
  obtain r rest where r: "results i = Ret r" "allPartials results is = Ret rest" "ps = partialsOf r # rest"
    using Cons.prems by (auto split: Run.splits)
  show ?case using Cons.IH[OF r(2)] r(1,3) by (cases r) (auto simp: nth_Cons split: nat.splits)
qed simp

lemma checkParallel_info:
  assumes "checkParallel model history True timeout kills arrivals = Ret (res, info)"
  shows "infoHistory info = history" "length (partialLinearizations info) = length history"
    "k < length history \<Longrightarrow> \<exists>r. checkSingle model (history ! k) True (kills k) = Ret r \<and> partialLinearizations info ! k = partialsOf r"
proof -
  let ?results = "\<lambda>i. checkSingle model (history ! i) True (kills i)"
  obtain ps where ps: "allPartials ?results [0..<length history] = Ret ps" "info = \<lparr>infoHistory = history, partialLinearizations = ps\<rparr>"
    using assms unfolding checkParallel_def Let_def by (auto split: Run.splits prod.splits)
  show "infoHistory info = history" "length (partialLinearizations info) = length history"
    "k < length history \<Longrightarrow> \<exists>r. checkSingle model (history ! k) True (kills k) = Ret r \<and> partialLinearizations info ! k = partialsOf r"
    using allPartials_nth[OF ps(1)] ps(2) by auto
qed

lemma ok_all_true:
  assumes arr: "distinct (reports arrivals)" "set (reports arrivals) \<subseteq> {..<length history}"
    and run: "checkParallel model history True timeout kills arrivals = Ret (Ok, info)" and k: "k < length history"
  shows "\<exists>x. checkSingle model (history ! k) True (kills k) = Ret (True, x)"
proof -
  let ?results = "\<lambda>i. checkSingle model (history ! i) True (kills i)"
  let ?r = "\<lambda>i. \<exists>x. ?results i = Ret (True, x)"
  have one: "\<exists>x. ?results i = Ret (?r i, x)" if i: "i < length history" for i
  proof -
    obtain ok x where "?results i = Ret (ok, x)" using checkParallel_info(3)[OF run i] by auto
    then show ?thesis by (cases ok) auto
  qed
  have ret: "\<forall>i \<in> set (reports arrivals). \<exists>x. ?results i = Ret (?r i, x)"
  proof
    fix i assume "i \<in> set (reports arrivals)"
    then show "\<exists>x. ?results i = Ret (?r i, x)" using arr(2) by (intro one) auto
  qed
  obtain ok t where c: "collect True (timeout > 0) (length history) ?results arrivals 0 True = Ret (ok, t)"
    "Ok = (if \<not> ok then Illegal else if t then Unknown else Ok)" by (rule checkParallel_result[OF run])
  have "ok \<and> \<not> t" using c(2) by (auto split: if_splits)
  then obtain n where "length history \<le> n" "n \<le> length (reports arrivals)" "\<forall>i \<in> set (take n (reports arrivals)). ?r i"
    using collect_answers[OF c(1) ret] by auto
  then show ?thesis using distinct_cover[OF arr, of n] k by auto
qed

text \<open>C29. The linearizations the checker reports when it is asked for them are real: each is an order of
  distinct operations of its partition that the model accepts, and no operation is in it without those that
  had returned before its call, in front of it.  If the answer is Ok, each partition that is not empty has among
  them one of all its operations.\<close>

theorem partials_are_valid:
  assumes wf: "\<forall>es \<in> set history. wfHistory es \<and> handles model es"
    and arr: "distinct (reports arrivals)" "set (reports arrivals) \<subseteq> {..<length history}"
    and run: "checkParallel model history True timeout kills arrivals = Ret (res, info)"
  shows "infoHistory info = history \<and> length (partialLinearizations info) = length history \<and>
    (\<forall>k < length history. (\<forall>p \<in> set (partialLinearizations info ! k). validPartial model (history ! k) p) \<and>
       (res = Ok \<and> history ! k \<noteq> [] \<longrightarrow>
          (\<exists>p \<in> set (partialLinearizations info ! k). set p = eId ` set (history ! k))))"
proof (intro conjI allI impI)
  fix k assume k: "k < length history"
  obtain ok sqs lng where r: "checkSingle model (history ! k) True (kills k) = Ret (ok, sqs, lng)"
    "partialLinearizations info ! k = partialsOf (ok, sqs, lng)" using checkParallel_info(3)[OF run k] by auto
  have wh: "wfHistory (history ! k)" "handles model (history ! k)" using wf k by simp_all
  show "\<forall>p \<in> set (partialLinearizations info ! k). validPartial model (history ! k) p"
    unfolding r(2) by (rule checkSingle_partials(1)[OF wh r(1)])
  assume a: "res = Ok \<and> history ! k \<noteq> []"
  then have ok using ok_all_true[OF arr _ k] run r(1) by fastforce
  then show "\<exists>p \<in> set (partialLinearizations info ! k). set p = eId ` set (history ! k)"
    unfolding r(2) using checkSingle_partials(2)[OF wh r(1)] a by blast
qed (use checkParallel_info[OF run] in simp_all)

lemma demo_checked: "\<exists>res info. checkParallel (fillDefault KvModel) [demoHistory] True 0 (\<lambda>_ _. False) [Reported 0] = Ret (res, info)"
proof -
  obtain ok x where "checkSingle (fillDefault KvModel) demoHistory True (\<lambda>_. False) = Ret (ok, x)"
    using checkSingle_decides[OF demoHistory_ok, of True "\<lambda>_. False"] by blast
  then show ?thesis by (cases ok) (simp_all add: checkParallel_def)
qed

theorem partials_are_valid_witness:
  "\<exists>res info. checkParallel (fillDefault KvModel) [demoHistory] True 0 (\<lambda>_ _. False) [Reported 0] = Ret (res, info) \<and>
     (\<forall>p \<in> set (partialLinearizations info ! 0). validPartial (fillDefault KvModel) demoHistory p) \<and>
     (res = Ok \<longrightarrow> (\<exists>p \<in> set (partialLinearizations info ! 0). set p = {0, 1}))"
proof -
  let ?m = "fillDefault KvModel"
  obtain res info where c: "checkParallel ?m [demoHistory] True 0 (\<lambda>_ _. False) [Reported 0] = Ret (res, info)" using demo_checked by blast
  have w: "\<forall>es \<in> set [demoHistory]. wfHistory es \<and> handles ?m es" using demoHistory_ok by simp
  have r: "distinct (reports [Reported 0])" "set (reports [Reported 0]) \<subseteq> {..<length [demoHistory]}" by simp_all
  have e: "demoHistory \<noteq> []" "eId ` set demoHistory = {0, 1}" by (auto simp: demoHistory_def)
  from partials_are_valid[OF w r c] e c show ?thesis by simp
qed

end
