(* ===== verification/PorcupineVisual.thy ===== *)
theory PorcupineVisual
  imports PorcupinePartial "HOL-Library.Multiset"
begin

text \<open>
  \<^verbatim>\<open>src/porcupine/visualization.go\<close>: the data of the picture of a checked history.  The page it is printed into
  (\<^verbatim>\<open>html\<close>), \<^verbatim>\<open>json.Marshal\<close>, \<^verbatim>\<open>fmt.Fprintf\<close> and \<^verbatim>\<open>os.Create\<close> are parameters; so is \<^verbatim>\<open>sort.Slice\<close>, which sorts in
  place and leaves the order of equal elements open.  \<open>nilv\<close> is the value nil that a Go map gives for a
  key it has not, and \<open>None\<close> is a panic.
\<close>

section \<open>The data\<close>

record historyElement =
  heClientId :: int
  heStart :: int
  heEnd :: int
  heDescription :: string

record linearizationStep =
  lsIndex :: int
  StateDescription :: string

type_synonym partialLinearization = "linearizationStep list"

record partitionVisualizationData =
  vHistory :: "historyElement list"
  PartialLinearizations :: "partialLinearization list"
  Largest :: "int \<rightharpoonup> nat"

definition zeroElement :: historyElement where
  "zeroElement = \<lparr>heClientId = 0, heStart = 0, heEnd = 0, heDescription = []\<rparr>"

definition mapValue :: "'v \<Rightarrow> (int \<rightharpoonup> 'v) \<Rightarrow> int \<Rightarrow> 'v" where
  "mapValue zero m i = (case m i of Some v \<Rightarrow> v | None \<Rightarrow> zero)"

section \<open>One partition\<close>

text \<open>The loop over the entries: the elements of the history, the values of the calls and of the returns.\<close>

fun elementsLoop ::
  "'v \<Rightarrow> ('v \<Rightarrow> 'v \<Rightarrow> string option) \<Rightarrow> 'v entry list \<Rightarrow> historyElement list \<Rightarrow> (int \<rightharpoonup> 'v) \<Rightarrow> (int \<rightharpoonup> 'v) \<Rightarrow>
   (historyElement list \<times> (int \<rightharpoonup> 'v) \<times> (int \<rightharpoonup> 'v)) option" where
  "elementsLoop nilv describe [] history callValue returnValue = Some (history, callValue, returnValue)"
| "elementsLoop nilv describe (elem # es) history callValue returnValue =
     (if \<not> (0 \<le> eId elem \<and> eId elem < int (length history)) then None
      else let i = nat (eId elem) in
        case eKind elem of
          callEntry \<Rightarrow>
            elementsLoop nilv describe es
              (history[i := (history ! i)\<lparr>heClientId := eClientId elem, heStart := eTime elem\<rparr>])
              (callValue(eId elem \<mapsto> eValue elem)) returnValue
        | returnEntry \<Rightarrow>
            (case describe (mapValue nilv callValue (eId elem)) (eValue elem) of
               None \<Rightarrow> None
             | Some desc \<Rightarrow>
                 elementsLoop nilv describe es
                   (history[i := (history ! i)\<lparr>heEnd := eTime elem, heDescription := desc\<rparr>])
                   callValue (returnValue(eId elem \<mapsto> eValue elem))))"

text \<open>The steps of linearization \<open>i\<close>, of \<open>len\<close> operations: the model runs through it, and an operation
  is noted with the first of the longest linearizations it is in.\<close>

fun stepsLoop ::
  "'v \<Rightarrow> ('v, 's) Model \<Rightarrow> (int \<rightharpoonup> 'v) \<Rightarrow> (int \<rightharpoonup> 'v) \<Rightarrow> nat \<Rightarrow> nat \<Rightarrow> int list \<Rightarrow> 's \<Rightarrow> (int \<rightharpoonup> nat) \<Rightarrow> (int \<rightharpoonup> nat) \<Rightarrow>
   (partialLinearization \<times> (int \<rightharpoonup> nat) \<times> (int \<rightharpoonup> nat)) option" where
  "stepsLoop nilv model callValue returnValue i len [] state largestSize largestIndex = Some ([], largestSize, largestIndex)"
| "stepsLoop nilv model callValue returnValue i len (histId # partial) state largestSize largestIndex =
     (case Step model state (mapValue nilv callValue histId) (mapValue nilv returnValue histId) of
        None \<Rightarrow> None
      | Some (ok, state) \<Rightarrow>
          if \<not> ok then None
          else case the (DescribeState model) state of
            None \<Rightarrow> None
          | Some stateDesc \<Rightarrow>
              let larger = mapValue 0 largestSize histId < len;
                  largestSize = (if larger then largestSize(histId \<mapsto> len) else largestSize);
                  largestIndex = (if larger then largestIndex(histId \<mapsto> i) else largestIndex)
              in case stepsLoop nilv model callValue returnValue i len partial state largestSize largestIndex of
                   None \<Rightarrow> None
                 | Some (linearization, r) \<Rightarrow> Some (\<lparr>lsIndex = histId, StateDescription = stateDesc\<rparr> # linearization, r))"

fun partialsLoop ::
  "'v \<Rightarrow> ('v, 's) Model \<Rightarrow> (int \<rightharpoonup> 'v) \<Rightarrow> (int \<rightharpoonup> 'v) \<Rightarrow> nat \<Rightarrow> int list list \<Rightarrow> (int \<rightharpoonup> nat) \<Rightarrow> (int \<rightharpoonup> nat) \<Rightarrow>
   (partialLinearization list \<times> (int \<rightharpoonup> nat)) option" where
  "partialsLoop nilv model callValue returnValue i [] largestSize largestIndex = Some ([], largestIndex)"
| "partialsLoop nilv model callValue returnValue i (partial # partials) largestSize largestIndex =
     (case stepsLoop nilv model callValue returnValue i (length partial) partial (Init model) largestSize largestIndex of
        None \<Rightarrow> None
      | Some (linearization, largestSize, largestIndex) \<Rightarrow>
          (case partialsLoop nilv model callValue returnValue (i + 1) partials largestSize largestIndex of
             None \<Rightarrow> None
           | Some (linearizations, largestIndex) \<Rightarrow> Some (linearization # linearizations, largestIndex)))"

text \<open>The body of the loop over the partitions; with the data it gives the linearizations as sorted in place.\<close>

definition visualPartition ::
  "(int list list \<Rightarrow> int list list) \<Rightarrow> 'v \<Rightarrow> ('v, 's) Model \<Rightarrow> 'v entry list \<Rightarrow> int list list \<Rightarrow>
   (partitionVisualizationData \<times> int list list) option" where
  "visualPartition sortf nilv model es partials =
     (let n = length es div 2 in
      case elementsLoop nilv (the (DescribeOperation model)) es (replicate n zeroElement) Map.empty Map.empty of
        None \<Rightarrow> None
      | Some (history, callValue, returnValue) \<Rightarrow>
          let partials = sortf partials in
          case partialsLoop nilv model callValue returnValue 0 partials Map.empty Map.empty of
            None \<Rightarrow> None
          | Some (linearizations, largestIndex) \<Rightarrow>
              Some (\<lparr>vHistory = history, PartialLinearizations = linearizations, Largest = largestIndex\<rparr>, partials))"

section \<open>The picture\<close>

fun visualLoop ::
  "(int list list \<Rightarrow> int list list) \<Rightarrow> 'v \<Rightarrow> ('v, 's) Model \<Rightarrow> nat list \<Rightarrow> 'v linearizationInfo \<Rightarrow>
   (partitionVisualizationData list \<times> 'v linearizationInfo) option" where
  "visualLoop sortf nilv model [] info = Some ([], info)"
| "visualLoop sortf nilv model (part # rest) info =
     (if \<not> part < length (partialLinearizations info) then None
      else case visualPartition sortf nilv model (infoHistory info ! part) (partialLinearizations info ! part) of
        None \<Rightarrow> None
      | Some (d, partials) \<Rightarrow>
          (case visualLoop sortf nilv model rest
              (info\<lparr>partialLinearizations := (partialLinearizations info)[part := partials]\<rparr>) of
             None \<Rightarrow> None
           | Some (data, info) \<Rightarrow> Some (d # data, info)))"

definition computeVisualizationData ::
  "(int list list \<Rightarrow> int list list) \<Rightarrow> 'v \<Rightarrow> ('v \<Rightarrow> string) \<Rightarrow> ('s \<Rightarrow> string) \<Rightarrow> ('v, 's) Model \<Rightarrow> 'v linearizationInfo \<Rightarrow>
   (partitionVisualizationData list \<times> 'v linearizationInfo) option" where
  "computeVisualizationData sortf nilv fmtValue fmtState model info =
     visualLoop sortf nilv (fillDescribe fmtValue fmtState (fillDefault model)) [0..<length (infoHistory info)] info"

text \<open>\<open>Visualize\<close> gives the error it returns, if any, and the writer afterwards.\<close>

definition Visualize ::
  "(int list list \<Rightarrow> int list list) \<Rightarrow> 'v \<Rightarrow> ('v \<Rightarrow> string) \<Rightarrow> ('s \<Rightarrow> string) \<Rightarrow>
   (partitionVisualizationData list \<Rightarrow> 'e + 'j) \<Rightarrow> ('w \<Rightarrow> 'j \<Rightarrow> 'e option \<times> 'w) \<Rightarrow>
   ('v, 's) Model \<Rightarrow> 'v linearizationInfo \<Rightarrow> 'w \<Rightarrow> ('e option \<times> 'w) option" where
  "Visualize sortf nilv fmtValue fmtState marshal printHtml model info output =
     (case computeVisualizationData sortf nilv fmtValue fmtState model info of
        None \<Rightarrow> None
      | Some (data, _) \<Rightarrow>
          (case marshal data of
             Inl err \<Rightarrow> Some (Some err, output)
           | Inr jsonData \<Rightarrow>
               (case printHtml output jsonData of
                  (Some err, output) \<Rightarrow> Some (Some err, output)
                | (None, output) \<Rightarrow> Some (None, output))))"

text \<open>The file is closed on every path on which it was opened, by the deferred call.\<close>

definition VisualizePath ::
  "(int list list \<Rightarrow> int list list) \<Rightarrow> 'v \<Rightarrow> ('v \<Rightarrow> string) \<Rightarrow> ('s \<Rightarrow> string) \<Rightarrow>
   (partitionVisualizationData list \<Rightarrow> 'e + 'j) \<Rightarrow> ('w \<Rightarrow> 'j \<Rightarrow> 'e option \<times> 'w) \<Rightarrow> (string \<Rightarrow> 'e + 'w) \<Rightarrow> ('w \<Rightarrow> 'w) \<Rightarrow>
   ('v, 's) Model \<Rightarrow> 'v linearizationInfo \<Rightarrow> string \<Rightarrow> ('e option \<times> 'w option) option" where
  "VisualizePath sortf nilv fmtValue fmtState marshal printHtml create close model info path =
     (case create path of
        Inl err \<Rightarrow> Some (Some err, None)
      | Inr f \<Rightarrow>
          (case Visualize sortf nilv fmtValue fmtState marshal printHtml model info f of
             None \<Rightarrow> None
           | Some (err, f) \<Rightarrow> Some (err, Some (close f))))"

section \<open>The elements of the history\<close>

definition entryAt :: "'v entry list \<Rightarrow> entryKind \<Rightarrow> int \<Rightarrow> 'v entry option" where
  "entryAt es k i = find (\<lambda>e. eKind e = k \<and> eId e = i) es"

definition valuesAt :: "'v entry list \<Rightarrow> entryKind \<Rightarrow> int \<rightharpoonup> 'v" where
  "valuesAt es k i = map_option eValue (entryAt es k i)"

lemma find_snoc: "find P (xs @ [x]) = (case find P xs of Some y \<Rightarrow> Some y | None \<Rightarrow> if P x then Some x else None)"
  by (induction xs) auto

lemma valuesAt_Nil [simp]: "valuesAt [] k = Map.empty"
  by (simp add: valuesAt_def entryAt_def fun_eq_iff)

lemma valuesAt_snoc:
  assumes "\<forall>e' \<in> set pre. \<not> (eKind e' = eKind e \<and> eId e' = eId e)"
  shows "valuesAt (pre @ [e]) k = (if eKind e = k then (valuesAt pre k)(eId e \<mapsto> eValue e) else valuesAt pre k)"
proof
  fix i
  have "entryAt pre (eKind e) (eId e) = None" using assms by (auto simp: entryAt_def find_None_iff)
  then show "valuesAt (pre @ [e]) k i = (if eKind e = k then (valuesAt pre k)(eId e \<mapsto> eValue e) else valuesAt pre k) i"
    by (auto simp: valuesAt_def entryAt_def find_snoc split: option.splits)
qed

text \<open>What the element of an operation says of an entry of it.\<close>

definition shown :: "'v entry list \<Rightarrow> ('v \<Rightarrow> 'v \<Rightarrow> string option) \<Rightarrow> historyElement list \<Rightarrow> 'v entry \<Rightarrow> bool" where
  "shown es describe history e \<longleftrightarrow>
     (let h = history ! nat (eId e) in
      case eKind e of
        callEntry \<Rightarrow> heClientId h = eClientId e \<and> heStart h = eTime e
      | returnEntry \<Rightarrow> heEnd h = eTime e \<and> describe (valueAt es callEntry (eId e)) (eValue e) = Some (heDescription h))"

lemma wf_entry: "wfHistory es \<Longrightarrow> e \<in> set es \<Longrightarrow> 0 \<le> eId e \<and> eId e < int (length es div 2)"
  unfolding wfHistory_def by blast

lemma wf_new:
  assumes "wfHistory (pre @ e # post)"
  shows "\<forall>e' \<in> set pre. \<not> (eKind e' = eKind e \<and> eId e' = eId e)"
proof -
  have "distinct (map (\<lambda>e. (eKind e, eId e)) (pre @ e # post))" using assms unfolding wfHistory_def by blast
  then have "(eKind e, eId e) \<notin> (\<lambda>e. (eKind e, eId e)) ` set pre" by simp
  then show ?thesis by (metis (mono_tags, lifting) image_eqI)
qed

lemma wf_call_before:
  assumes w: "wfHistory (pre @ e # post)" and e: "eKind e = returnEntry"
  shows "\<exists>c. entryAt pre callEntry (eId e) = Some c"
proof -
  let ?es = "pre @ e # post"
  have i: "0 \<le> eId e" "eId e < int (length ?es div 2)" using wf_entry[OF w, of e] by auto
  obtain a where a: "a < length ?es" "eKind (rev ?es ! a) = callEntry" "eId (rev ?es ! a) = eId e" by (rule wf_address[OF w i])
  then have "rev ?es ! a \<in> set ?es" by (metis length_rev nth_mem set_rev)
  moreover have "rev ?es ! a \<notin> set post" 
  proof -
    have "sorted_wrt (\<lambda>a b. \<not> (eKind a = returnEntry \<and> eKind b = callEntry \<and> eId a = eId b)) ?es" using w unfolding wfHistory_def by blast
    then show ?thesis using a e by (auto simp: sorted_wrt_append)
  qed
  moreover have "rev ?es ! a \<noteq> e" using a e by auto
  ultimately have "rev ?es ! a \<in> set pre" by auto
  then show ?thesis using a(2,3) by (cases "entryAt pre callEntry (eId e)") (auto simp: entryAt_def find_None_iff)
qed

lemma entryAt_prefix: "entryAt pre k i = Some c \<Longrightarrow> entryAt (pre @ post) k i = Some c"
  unfolding entryAt_def by (induction pre) (auto split: if_splits)

lemma valueAt_entryAt: "valueAt es k i = eValue (the (entryAt es k i))"
  by (simp add: valueAt_def entryAt_def)

lemma mapValue_valuesAt: "entryAt es k i \<noteq> None \<Longrightarrow> mapValue nilv (valuesAt es k) i = valueAt es k i"
  by (auto simp: mapValue_def valuesAt_def valueAt_entryAt)

lemma shown_update:
  assumes "shown es describe history e'" "0 \<le> eId e'" "0 \<le> i" "i < int (length history)" "(k, i) \<noteq> (eKind e', eId e')"
    "k = callEntry \<Longrightarrow> h = (history ! nat i)\<lparr>heClientId := x, heStart := t\<rparr>"
    "k = returnEntry \<Longrightarrow> h = (history ! nat i)\<lparr>heEnd := t, heDescription := d\<rparr>"
  shows "shown es describe (history[nat i := h]) e'"
proof (cases "eId e' = i")
  case True
  then show ?thesis using assms by (cases k; cases "eKind e'") (auto simp: shown_def)
next
  case False
  then have "nat (eId e') \<noteq> nat i" using assms(2,3) by simp
  then show ?thesis using assms(1) by (simp add: shown_def)
qed

lemma elementsLoop_shows:
  assumes w: "wfHistory (pre @ es)"
    and desc: "\<forall>e \<in> set (pre @ es). eKind e = returnEntry \<longrightarrow> describe (valueAt (pre @ es) callEntry (eId e)) (eValue e) \<noteq> None"
    and len: "length history = length (pre @ es) div 2" and pre: "\<forall>e \<in> set pre. shown (pre @ es) describe history e"
  shows "\<exists>history'. elementsLoop nilv describe es history (valuesAt pre callEntry) (valuesAt pre returnEntry) =
      Some (history', valuesAt (pre @ es) callEntry, valuesAt (pre @ es) returnEntry) \<and>
    length history' = length history \<and> (\<forall>e \<in> set (pre @ es). shown (pre @ es) describe history' e)"
  using assms
proof (induction es arbitrary: pre history)
  case (Cons e es)
  let ?i = "nat (eId e)" and ?es = "pre @ e # es"
  have i: "0 \<le> eId e" "eId e < int (length history)" using wf_entry[OF Cons.prems(1), of e] Cons.prems(3) by simp_all
  note new = wf_new[OF Cons.prems(1)]
  have pos: "0 \<le> eId e'" "(eKind e, eId e) \<noteq> (eKind e', eId e')" if "e' \<in> set pre" for e'
    using wf_entry[OF Cons.prems(1), of e'] new that by auto
  have app: "(pre @ [e]) @ es = ?es" by simp
  have step: "?case" if h: "length h = length history" "shown ?es describe h e" "\<forall>e' \<in> set pre. shown ?es describe h e'"
    and run: "elementsLoop nilv describe (e # es) history (valuesAt pre callEntry) (valuesAt pre returnEntry) =
      elementsLoop nilv describe es h (valuesAt (pre @ [e]) callEntry) (valuesAt (pre @ [e]) returnEntry)" for h
    using Cons.IH[of "pre @ [e]" h, unfolded app] Cons.prems(1,2,3) h unfolding run by simp
  show ?case
  proof (cases "eKind e")
    case callEntry
    let ?h = "history[?i := (history ! ?i)\<lparr>heClientId := eClientId e, heStart := eTime e\<rparr>]"
    have "shown ?es describe ?h e" using i callEntry by (simp add: shown_def)
    moreover have "\<forall>e' \<in> set pre. shown ?es describe ?h e'"
      using Cons.prems(4) pos i callEntry by (intro ballI shown_update[where k = callEntry]) auto
    ultimately show ?thesis
      using i callEntry by (intro step[of ?h]) (simp_all add: valuesAt_snoc[OF new])
  next
    case returnEntry
    obtain c where c: "entryAt pre callEntry (eId e) = Some c" using wf_call_before[OF Cons.prems(1) returnEntry] by blast
    have call: "mapValue nilv (valuesAt pre callEntry) (eId e) = valueAt ?es callEntry (eId e)"
      using c entryAt_prefix[OF c, of "e # es"] by (simp add: mapValue_valuesAt valueAt_entryAt)
    obtain d where d: "describe (valueAt ?es callEntry (eId e)) (eValue e) = Some d" using Cons.prems(2) returnEntry by auto
    let ?h = "history[?i := (history ! ?i)\<lparr>heEnd := eTime e, heDescription := d\<rparr>]"
    have "shown ?es describe ?h e" using i returnEntry d by (simp add: shown_def)
    moreover have "\<forall>e' \<in> set pre. shown ?es describe ?h e'"
      using Cons.prems(4) pos i returnEntry by (intro ballI shown_update[where k = returnEntry]) auto
    ultimately show ?thesis
      using i returnEntry d call by (intro step[of ?h]) (simp_all add: valuesAt_snoc[OF new])
  qed
qed simp

section \<open>The linearizations and the longest of each operation\<close>

lemma wf_entryAt: "wfHistory es \<Longrightarrow> i \<in> eId ` set es \<Longrightarrow> entryAt es k i \<noteq> None"
proof -
  assume w: "wfHistory es" and i: "i \<in> eId ` set es"
  then have b: "0 \<le> i" "i < int (length es div 2)" using wf_ids[OF w] by auto
  obtain a where a: "a < length es" "eKind (rev es ! a) = k" "eId (rev es ! a) = i" by (rule wf_address[OF w b])
  then have "rev es ! a \<in> set es" by (metis length_rev nth_mem set_rev)
  then show ?thesis using a(2,3) by (auto simp: entryAt_def find_None_iff)
qed

lemma stepsLoop_runs:
  assumes w: "wfHistory es" and desc: "\<forall>s. the (DescribeState model) s \<noteq> None"
  shows "set p \<subseteq> eId ` set es \<Longrightarrow> legal model es s p \<Longrightarrow> 0 < len \<Longrightarrow>
    \<exists>lin. stepsLoop nilv model (valuesAt es callEntry) (valuesAt es returnEntry) i len p s ls li =
      Some (lin, \<lambda>j. if j \<in> set p \<and> mapValue 0 ls j < len then Some len else ls j,
                 \<lambda>j. if j \<in> set p \<and> mapValue 0 ls j < len then Some i else li j) \<and> map lsIndex lin = p"
proof (induction p arbitrary: s ls li)
  case (Cons h p)
  have v: "mapValue nilv (valuesAt es k) h = valueAt es k h" for k
    using wf_entryAt[OF w] Cons.prems(1) by (intro mapValue_valuesAt) auto
  obtain s' where s': "Step model s (valueAt es callEntry h) (valueAt es returnEntry h) = Some (True, s')" "legal model es s' p"
    using Cons.prems(2) by (auto split: option.splits prod.splits bool.splits)
  obtain d where d: "the (DescribeState model) s' = Some d" using desc by blast
  let ?ls = "if mapValue 0 ls h < len then ls(h \<mapsto> len) else ls" and ?li = "if mapValue 0 ls h < len then li(h \<mapsto> i) else li"
  obtain lin where lin: "stepsLoop nilv model (valuesAt es callEntry) (valuesAt es returnEntry) i len p s' ?ls ?li =
      Some (lin, \<lambda>j. if j \<in> set p \<and> mapValue 0 ?ls j < len then Some len else ?ls j,
                 \<lambda>j. if j \<in> set p \<and> mapValue 0 ?ls j < len then Some i else ?li j)" "map lsIndex lin = p"
    using Cons.IH[OF _ s'(2) Cons.prems(3), of ?ls ?li] Cons.prems(1) by auto
  have "(\<lambda>j. if j \<in> set p \<and> mapValue 0 ?ls j < len then Some len else ?ls j) =
      (\<lambda>j. if j \<in> set (h # p) \<and> mapValue 0 ls j < len then Some len else ls j)"
    "(\<lambda>j. if j \<in> set p \<and> mapValue 0 ?ls j < len then Some i else ?li j) =
      (\<lambda>j. if j \<in> set (h # p) \<and> mapValue 0 ls j < len then Some i else li j)"
    by (auto simp: fun_eq_iff mapValue_def)
  with lin show ?case using s'(1) d by (intro exI[of _ "\<lparr>lsIndex = h, StateDescription = d\<rparr> # lin"]) (simp add: v)
qed simp

text \<open>After the linearizations \<open>pre\<close>: every operation in one of them is noted with a longest one it is in.\<close>

definition longestNoted :: "int list list \<Rightarrow> (int \<rightharpoonup> nat) \<Rightarrow> (int \<rightharpoonup> nat) \<Rightarrow> bool" where
  "longestNoted pre ls li \<longleftrightarrow>
     (\<forall>j. case li j of
        None \<Rightarrow> ls j = None \<and> (\<forall>p \<in> set pre. j \<notin> set p)
      | Some x \<Rightarrow> x < length pre \<and> j \<in> set (pre ! x) \<and> ls j = Some (length (pre ! x)) \<and>
          (\<forall>p \<in> set pre. j \<in> set p \<longrightarrow> length p \<le> length (pre ! x)))"

lemma longestNoted_snoc:
  assumes "longestNoted pre ls li"
  shows "longestNoted (pre @ [p])
    (\<lambda>j. if j \<in> set p \<and> mapValue 0 ls j < length p then Some (length p) else ls j)
    (\<lambda>j. if j \<in> set p \<and> mapValue 0 ls j < length p then Some (length pre) else li j)"
  unfolding longestNoted_def
proof
  fix j
  have "case li j of None \<Rightarrow> ls j = None \<and> (\<forall>p \<in> set pre. j \<notin> set p)
      | Some x \<Rightarrow> x < length pre \<and> j \<in> set (pre ! x) \<and> ls j = Some (length (pre ! x)) \<and>
          (\<forall>p \<in> set pre. j \<in> set p \<longrightarrow> length p \<le> length (pre ! x))" using assms unfolding longestNoted_def by blast
  moreover have "j \<in> set p \<Longrightarrow> 0 < length p" by (cases p) auto
  ultimately show "case if j \<in> set p \<and> mapValue 0 ls j < length p then Some (length pre) else li j of
        None \<Rightarrow> (if j \<in> set p \<and> mapValue 0 ls j < length p then Some (length p) else ls j) = None \<and> (\<forall>q \<in> set (pre @ [p]). j \<notin> set q)
      | Some x \<Rightarrow> x < length (pre @ [p]) \<and> j \<in> set ((pre @ [p]) ! x) \<and>
          (if j \<in> set p \<and> mapValue 0 ls j < length p then Some (length p) else ls j) = Some (length ((pre @ [p]) ! x)) \<and>
          (\<forall>q \<in> set (pre @ [p]). j \<in> set q \<longrightarrow> length q \<le> length ((pre @ [p]) ! x))"
    by (cases "li j") (auto simp: mapValue_def nth_append)
qed

lemma partialsLoop_runs:
  assumes w: "wfHistory es" and desc: "\<forall>s. the (DescribeState model) s \<noteq> None"
    and ps: "\<forall>p \<in> set ps. set p \<subseteq> eId ` set es \<and> legal model es (Init model) p" and n: "longestNoted pre ls li"
  shows "\<exists>lins ls' li'. partialsLoop nilv model (valuesAt es callEntry) (valuesAt es returnEntry) (length pre) ps ls li = Some (lins, li') \<and>
    map (map lsIndex) lins = ps \<and> longestNoted (pre @ ps) ls' li'"
  using ps n
proof (induction ps arbitrary: pre ls li)
  case (Cons p ps)
  let ?ls = "\<lambda>j. if j \<in> set p \<and> mapValue 0 ls j < length p then Some (length p) else ls j"
  let ?li = "\<lambda>j. if j \<in> set p \<and> mapValue 0 ls j < length p then Some (length pre) else li j"
  obtain lin where lin: "stepsLoop nilv model (valuesAt es callEntry) (valuesAt es returnEntry) (length pre) (length p) p (Init model) ls li =
      Some (lin, ?ls, ?li)" "map lsIndex lin = p"
    using stepsLoop_runs[OF w desc, of p "Init model" "length p" nilv "length pre" ls li] Cons.prems(1) by (cases p) auto
  obtain lins ls' li' where r: "partialsLoop nilv model (valuesAt es callEntry) (valuesAt es returnEntry) (length (pre @ [p])) ps ?ls ?li = Some (lins, li')"
    "map (map lsIndex) lins = ps" "longestNoted ((pre @ [p]) @ ps) ls' li'"
    using Cons.IH[OF _ longestNoted_snoc[OF Cons.prems(2)]] Cons.prems(1) by fastforce
  show ?case
    by (intro exI[of _ "lin # lins"] exI[of _ ls'] exI[of _ li'] conjI) (use lin r in simp_all)
qed (auto intro!: exI)

section \<open>The data of a checked history\<close>

text \<open>The promise of \<^verbatim>\<open>sort.Slice\<close> with the longer first.\<close>

definition longest_first :: "(int list list \<Rightarrow> int list list) \<Rightarrow> bool" where
  "longest_first sortf \<longleftrightarrow> (\<forall>ps. mset (sortf ps) = mset ps \<and> sorted_wrt (\<lambda>p q. length q \<le> length p) (sortf ps))"

text \<open>The functions of the model describe the history without a panic.\<close>

definition describable :: "('v, 's) Model \<Rightarrow> 'v entry list \<Rightarrow> bool" where
  "describable model es \<longleftrightarrow>
     (\<forall>e \<in> set es. eKind e = returnEntry \<longrightarrow> the (DescribeOperation model) (valueAt es callEntry (eId e)) (eValue e) \<noteq> None) \<and>
     (\<forall>s. the (DescribeState model) s \<noteq> None)"

text \<open>The picture of a partition: its elements say when and by which client each operation ran, the
  linearizations are those of the checker, longer ones first, and \<open>Largest\<close> leads from every
  operation that is in one to a longest one that it is in.\<close>

definition depicts ::
  "('v, 's) Model \<Rightarrow> 'v entry list \<Rightarrow> int list list \<Rightarrow> partitionVisualizationData \<Rightarrow> bool" where
  "depicts model es ps d \<longleftrightarrow>
     (let lins = map (map lsIndex) (PartialLinearizations d) in
      length (vHistory d) = length es div 2 \<and>
      (\<forall>e \<in> set es. shown es (the (DescribeOperation model)) (vHistory d) e) \<and>
      mset lins = mset ps \<and> sorted_wrt (\<lambda>p q. length q \<le> length p) lins \<and>
      (\<forall>i. case Largest d i of
         None \<Rightarrow> \<forall>p \<in> set ps. i \<notin> set p
       | Some x \<Rightarrow> x < length lins \<and> i \<in> set (lins ! x) \<and> (\<forall>p \<in> set ps. i \<in> set p \<longrightarrow> length p \<le> length (lins ! x))))"

lemma visualPartition_depicts:
  assumes w: "wfHistory es" and desc: "describable model es" and srt: "longest_first sortf"
    and ps: "\<forall>p \<in> set ps. set p \<subseteq> eId ` set es \<and> legal model es (Init model) p"
  shows "\<exists>d. visualPartition sortf nilv model es ps = Some (d, sortf ps) \<and> depicts model es ps d"
proof -
  let ?describe = "the (DescribeOperation model)"
  have st: "\<forall>s. the (DescribeState model) s \<noteq> None" using desc unfolding describable_def by blast
  have m: "mset (sortf ps) = mset ps" "sorted_wrt (\<lambda>p q. length q \<le> length p) (sortf ps)" using srt unfolding longest_first_def by blast+
  have s: "set (sortf ps) = set ps" using m(1) by (metis set_mset_mset)
  obtain h where h: "elementsLoop nilv ?describe es (replicate (length es div 2) zeroElement) Map.empty Map.empty =
      Some (h, valuesAt es callEntry, valuesAt es returnEntry)" "length h = length es div 2" "\<forall>e \<in> set es. shown es ?describe h e"
    using elementsLoop_shows[of "[]" es ?describe "replicate (length es div 2) zeroElement" nilv] w desc unfolding describable_def by auto
  have n0: "longestNoted [] Map.empty Map.empty" by (simp add: longestNoted_def)
  obtain lins ls' li' where l: "partialsLoop nilv model (valuesAt es callEntry) (valuesAt es returnEntry) 0 (sortf ps) Map.empty Map.empty = Some (lins, li')"
    "map (map lsIndex) lins = sortf ps" "longestNoted (sortf ps) ls' li'"
    using partialsLoop_runs[OF w st _ n0, of "sortf ps" nilv] ps unfolding s by auto
  let ?d = "\<lparr>vHistory = h, PartialLinearizations = lins, Largest = li'\<rparr>"
  have "case li' i of None \<Rightarrow> \<forall>p \<in> set ps. i \<notin> set p
       | Some x \<Rightarrow> x < length (sortf ps) \<and> i \<in> set (sortf ps ! x) \<and> (\<forall>p \<in> set ps. i \<in> set p \<longrightarrow> length p \<le> length (sortf ps ! x))" for i
    using spec[OF l(3)[unfolded longestNoted_def s], of i] by (cases "li' i") simp_all
  then have "depicts model es ps ?d" unfolding depicts_def using h(2,3) m l(2) by simp
  then show ?thesis using h(1) l(1) by (simp add: visualPartition_def)
qed

lemma visualLoop_runs:
  assumes "distinct is" "\<forall>k \<in> set is. k < length (partialLinearizations info)"
    "\<forall>k \<in> set is. visualPartition sortf nilv model (infoHistory info ! k) (partialLinearizations info ! k) =
      Some (d k, sortf (partialLinearizations info ! k))"
  shows "\<exists>info'. visualLoop sortf nilv model is info = Some (map d is, info') \<and> infoHistory info' = infoHistory info \<and>
    length (partialLinearizations info') = length (partialLinearizations info) \<and>
    (\<forall>k. partialLinearizations info' ! k =
       (if k \<in> set is then sortf (partialLinearizations info ! k) else partialLinearizations info ! k))"
  using assms
proof (induction "is" arbitrary: info)
  case (Cons i "is")
  let ?info = "info\<lparr>partialLinearizations := (partialLinearizations info)[i := sortf (partialLinearizations info ! i)]\<rparr>"
  have other: "partialLinearizations ?info ! k = partialLinearizations info ! k" if "k \<in> set is" for k
    using that Cons.prems(1) by (cases "i = k") auto
  obtain info' where r: "visualLoop sortf nilv model is ?info = Some (map d is, info')" "infoHistory info' = infoHistory ?info"
    "length (partialLinearizations info') = length (partialLinearizations ?info)"
    "\<forall>k. partialLinearizations info' ! k =
       (if k \<in> set is then sortf (partialLinearizations ?info ! k) else partialLinearizations ?info ! k)"
    using Cons.IH[of ?info] Cons.prems other by auto
  show ?case
    by (intro exI[of _ info'] conjI) (use r Cons.prems other in \<open>auto simp: nth_list_update\<close>)
qed simp

lemma fillDescribe_fields [simp]:
  "Step (fillDescribe fv fs model) = Step model" "Init (fillDescribe fv fs model) = Init model"
  by (simp_all add: fillDescribe_def)

lemma legal_Step: "Step model = Step model' \<Longrightarrow> legal model es s p = legal model' es s p"
  by (induction p arbitrary: s) (auto split: option.splits prod.splits bool.splits)

text \<open>C30. A history that was checked can be drawn: the panic on a linearization that the model does not accept is
  never reached, whatever the order in which the sort leaves linearizations of equal length.  The picture of each partition shows
  the client, the times and the description of every operation and the linearizations of the checker, longer ones first, and leads from
  every operation in one of them to a longest one with it; the linearizations of the caller are left sorted.\<close>

theorem checked_history_drawn:
  fixes model :: "('v, 's) Model"
  assumes wf: "\<forall>es \<in> set history. wfHistory es \<and> handles (fillDefault model) es \<and> describable (fillDescribe fmtValue fmtState (fillDefault model)) es"
    and srt: "longest_first sortf"
    and run: "checkParallel (fillDefault model) history True timeout kills arrivals = Ret (res, info)"
  shows "\<exists>data info'. computeVisualizationData sortf nilv fmtValue fmtState model info = Some (data, info') \<and>
    length data = length history \<and>
    (\<forall>k < length history. depicts (fillDescribe fmtValue fmtState (fillDefault model)) (history ! k) (partialLinearizations info ! k) (data ! k)) \<and>
    infoHistory info' = history \<and> partialLinearizations info' = map sortf (partialLinearizations info)"
proof -
  let ?m = "fillDescribe fmtValue fmtState (fillDefault model)"
  note info = checkParallel_info[OF run]
  let ?ps = "partialLinearizations info"
  have "\<exists>d. visualPartition sortf nilv ?m (history ! k) (?ps ! k) = Some (d, sortf (?ps ! k)) \<and> depicts ?m (history ! k) (?ps ! k) d"
    if k: "k < length history" for k
  proof (rule visualPartition_depicts)
    have wh: "wfHistory (history ! k)" "handles (fillDefault model) (history ! k)" using wf k by simp_all
    obtain ok sqs lng where r: "checkSingle (fillDefault model) (history ! k) True (kills k) = Ret (ok, sqs, lng)"
      "?ps ! k = partialsOf (ok, sqs, lng)" using info(3)[OF k] by auto
    have "legal ?m es s p = legal (fillDefault model) es s p" for es s p by (rule legal_Step) simp
    then show "\<forall>p \<in> set (?ps ! k). set p \<subseteq> eId ` set (history ! k) \<and> legal ?m (history ! k) (Init ?m) p"
      using checkSingle_partials(1)[OF wh r(1)] unfolding r(2) validPartial_def by simp
  qed (use wf k srt in simp_all)
  then obtain d where d: "\<forall>k < length history. visualPartition sortf nilv ?m (history ! k) (?ps ! k) = Some (d k, sortf (?ps ! k)) \<and>
      depicts ?m (history ! k) (?ps ! k) (d k)" by metis
  obtain info' where v: "visualLoop sortf nilv ?m [0..<length history] info = Some (map d [0..<length history], info')"
    "infoHistory info' = history" "length (partialLinearizations info') = length history"
    "\<forall>k. partialLinearizations info' ! k = (if k \<in> set [0..<length history] then sortf (?ps ! k) else ?ps ! k)"
    using visualLoop_runs[of "[0..<length history]" info sortf nilv ?m d] d info(1,2) by auto
  have "partialLinearizations info' = map sortf ?ps" by (rule nth_equalityI) (use v(3,4) info(2) in simp_all)
  then show ?thesis using v(1,2) d info(1) by (simp add: computeVisualizationData_def)
qed

text \<open>The history of the example, drawn with the descriptions of the key/value model.\<close>

lemma demo_describable: "describable (fillDescribe fv fs (fillDefault KvModel)) demoHistory"
  by (auto simp: describable_def demoHistory_def fillDescribe_def fillDefault_def KvModel_def DefaultDescribeState_def valueAt_def)

definition byLength :: "int list list \<Rightarrow> int list list" where
  "byLength = sort_key (\<lambda>p. - int (length p))"

lemma byLength_ok: "longest_first byLength"
proof -
  have "sorted_wrt (\<lambda>p q. length q \<le> length p) (byLength ps)" for ps
    using sorted_sort_key[of "\<lambda>p. - int (length p)" ps] unfolding byLength_def sorted_map by (simp add: sorted_wrt_mono_rel)
  then show ?thesis by (simp add: longest_first_def byLength_def)
qed

theorem checked_history_drawn_witness:
  "\<exists>res info data info'. checkParallel (fillDefault KvModel) [demoHistory] True 0 (\<lambda>_ _. False) [Reported 0] = Ret (res, info) \<and>
     computeVisualizationData byLength (KvIn \<lparr>Op = 0, Key = [], Value = []\<rparr>) (\<lambda>_. []) id KvModel info = Some (data, info') \<and>
     length data = 1 \<and>
     depicts (fillDescribe (\<lambda>_. []) id (fillDefault KvModel)) demoHistory (partialLinearizations info ! 0) (data ! 0)"
proof -
  obtain res info where c: "checkParallel (fillDefault KvModel) [demoHistory] True 0 (\<lambda>_ _. False) [Reported 0] = Ret (res, info)"
    using demo_checked by blast
  have w: "\<forall>es \<in> set [demoHistory]. wfHistory es \<and> handles (fillDefault KvModel) es \<and>
      describable (fillDescribe (\<lambda>_. []) id (fillDefault KvModel)) es" using demoHistory_ok demo_describable by simp
  from checked_history_drawn[OF w byLength_ok c, of "KvIn \<lparr>Op = 0, Key = [], Value = []\<rparr>"] c show ?thesis by auto
qed

text \<open>The description calls an append with return value invalid, though the model runs it.\<close>

lemma append_with_value_described_invalid:
  "kvDescribe (KvIn \<lparr>Op = 3, Key = k, Value = v\<rparr>) (KvOut \<lparr>outValue = st\<rparr>) = Some ''<invalid>'' \<and>
   kvStep st (KvIn \<lparr>Op = 3, Key = k, Value = v\<rparr>) (KvOut \<lparr>outValue = st\<rparr>) = Some (True, st @ v)"
  by simp

end
