(* ===== verification/LabGob.thy ===== *)
theory LabGob
  imports Prelude "HOL-Library.Char_ord"
begin

text \<open>
  The checks of \<^verbatim>\<open>src/labgob/labgob.go\<close> around \<^verbatim>\<open>encoding/gob\<close>: lower-case fields of the types that are
  encoded, and non-default values that are decoded into.

  A Go type is an entry of a table of types that refer to each other by number, so that a type may
  contain itself.  The recursion of \<open>checkType\<close> is a list of what is still to be visited: the rest of
  the fields of a type is visited after all that its first fields lead to.  Field names are ASCII.
  The texts that are printed are left out; the counter of errors and the types seen are the state.
\<close>

datatype GoType =
    TStruct "(string \<times> nat) list"
  | TSlice nat
  | TArray nat
  | TPtr nat
  | TMap nat nat
  | TBasic

record Checker =
  checked :: "nat set"
  errorCount :: int

definition typeAt :: "GoType list \<Rightarrow> nat \<Rightarrow> GoType" where
  "typeAt types t = (if t < length types then types ! t else TBasic)"

definition isUpper :: "string \<Rightarrow> bool" where
  "isUpper name = (case name of [] \<Rightarrow> False | c # _ \<Rightarrow> CHR ''A'' \<le> c \<and> c \<le> CHR ''Z'')"

datatype Todo = Visit nat | Field string nat

definition fieldItems :: "(string \<times> nat) list \<Rightarrow> Todo list" where
  "fieldItems fs = map (\<lambda>(name, t). Field name t) fs"

fun weight :: "Todo \<Rightarrow> nat" where
  "weight (Visit t) = 1"
| "weight (Field name t) = 2"

lemma fewer_unchecked:
  assumes "t \<notin> C" "typeAt types t \<noteq> TBasic"
  shows "card ({..<length types} - insert t C) < card ({..<length types} - C)"
proof -
  have "t < length types" using assms(2) by (auto simp: typeAt_def split: if_splits)
  then show ?thesis using assms(1) by (intro psubset_card_mono) auto
qed

function checkItems :: "GoType list \<Rightarrow> Todo list \<Rightarrow> Checker \<Rightarrow> Checker" where
  "checkItems types [] g = g"
| "checkItems types (Field name t # todo) g =
     checkItems types (Visit t # todo) (if isUpper name = False then g\<lparr>errorCount := errorCount g + 1\<rparr> else g)"
| "checkItems types (Visit t # todo) g =
     (if t \<in> checked g then checkItems types todo g
      else
        let g = g\<lparr>checked := insert t (checked g)\<rparr> in
        case typeAt types t of
          TStruct fs \<Rightarrow> checkItems types (fieldItems fs @ todo) g
        | TSlice e \<Rightarrow> checkItems types (Visit e # todo) g
        | TArray e \<Rightarrow> checkItems types (Visit e # todo) g
        | TPtr e \<Rightarrow> checkItems types (Visit e # todo) g
        | TMap k e \<Rightarrow> checkItems types (Visit e # Visit k # todo) g
        | TBasic \<Rightarrow> checkItems types todo g)"
  by pat_completeness auto

termination
proof (relation "measures [\<lambda>(types, todo, g). card ({..<length types} - checked g), \<lambda>(types, todo, g). sum_list (map weight todo)]")
  fix types t todo and g x :: Checker
  assume t: "t \<notin> checked g" "x = g\<lparr>checked := insert t (checked g)\<rparr>"
  show "((types, todo, x), types, Visit t # todo, g)
      \<in> measures [\<lambda>(types, todo, g). card ({..<length types} - checked g), \<lambda>(types, todo, g). sum_list (map weight todo)]"
  proof (cases "t < length types")
    case True
    have "card ({..<length types} - insert t (checked g)) < card ({..<length types} - checked g)"
      using True t(1) by (intro psubset_card_mono) auto
    then show ?thesis using t(2) by simp
  next
    case False
    then have "{..<length types} - insert t (checked g) = {..<length types} - checked g" by auto
    then show ?thesis using t(2) by simp
  qed
qed (use fewer_unchecked in \<open>auto\<close>)

definition checkType :: "GoType list \<Rightarrow> nat \<Rightarrow> Checker \<Rightarrow> Checker" where
  "checkType types t g = checkItems types [Visit t] g"

section \<open>Values that are decoded into\<close>

text \<open>A value as the check sees it: scalars are zero or not.\<close>

datatype GoValue =
    VStruct "GoValue list"
  | VPtr "GoValue option"
  | VScalar bool
  | VOther

fun checkDefault1 :: "GoValue \<Rightarrow> nat \<Rightarrow> int \<Rightarrow> int"
and checkFields :: "GoValue list \<Rightarrow> nat \<Rightarrow> int \<Rightarrow> int" where
  "checkDefault1 (VStruct vs) depth errs = (if depth > 3 then errs else checkFields vs (depth + 1) errs)"
| "checkDefault1 (VPtr None) depth errs = errs"
| "checkDefault1 (VPtr (Some v)) depth errs = (if depth > 3 then errs else checkDefault1 v (depth + 1) errs)"
| "checkDefault1 (VScalar isZero) depth errs = (if depth > 3 then errs else if isZero = False then errs + 1 else errs)"
| "checkDefault1 VOther depth errs = errs"
| "checkFields [] depth errs = errs"
| "checkFields (v # vs) depth errs = checkFields vs depth (checkDefault1 v depth errs)"

definition checkDefault :: "GoValue option \<Rightarrow> Checker \<Rightarrow> Checker" where
  "checkDefault v g = (case v of None \<Rightarrow> g | Some v \<Rightarrow> g\<lparr>errorCount := checkDefault1 v 1 (errorCount g)\<rparr>)"

section \<open>Encoding and decoding\<close>

text \<open>The codec of the library is a parameter; the wrappers run the checks first.\<close>

definition Encode :: "('a \<Rightarrow> 'b option) \<Rightarrow> GoType list \<Rightarrow> ('a \<Rightarrow> nat) \<Rightarrow> 'a \<Rightarrow> Checker \<Rightarrow> Checker \<times> 'b option" where
  "Encode gob types typ e g = (checkType types (typ e) g, gob e)"

definition Decode ::
  "('b \<Rightarrow> 'a option) \<Rightarrow> GoType list \<Rightarrow> nat \<Rightarrow> GoValue option \<Rightarrow> 'b \<Rightarrow> Checker \<Rightarrow> Checker \<times> 'a option" where
  "Decode gob types t target b g = (checkDefault target (checkType types t g), gob b)"

definition EncodeValue :: "('a \<Rightarrow> 'b option) \<Rightarrow> GoType list \<Rightarrow> ('a \<Rightarrow> nat) \<Rightarrow> 'a \<Rightarrow> Checker \<Rightarrow> Checker \<times> 'b option" where
  "EncodeValue gobValue types typ e g = (checkType types (typ e) g, gobValue e)"

definition RegisterName :: "GoType list \<Rightarrow> string \<Rightarrow> nat \<Rightarrow> Checker \<Rightarrow> Checker" where
  "RegisterName types name t g = checkType types t g"

definition Register :: "GoType list \<Rightarrow> nat \<Rightarrow> Checker \<Rightarrow> Checker" where
  "Register types t g = checkType types t g"

section \<open>What the check of a type does\<close>

definition lower :: "(string \<times> nat) list \<Rightarrow> int" where
  "lower fs = int (length (filter (\<lambda>(name, t). \<not> isUpper name) fs))"

definition lowerFields :: "GoType list \<Rightarrow> nat \<Rightarrow> int" where
  "lowerFields types t = (case typeAt types t of TStruct fs \<Rightarrow> lower fs | _ \<Rightarrow> 0)"

definition contains :: "GoType list \<Rightarrow> (nat \<times> nat) set" where
  "contains types = {(t, u). case typeAt types t of
     TStruct fs \<Rightarrow> u \<in> snd ` set fs | TSlice e \<Rightarrow> u = e | TArray e \<Rightarrow> u = e | TPtr e \<Rightarrow> u = e
   | TMap k e \<Rightarrow> u = k \<or> u = e | TBasic \<Rightarrow> False}"

fun target :: "Todo \<Rightarrow> nat" where
  "target (Visit t) = t"
| "target (Field name t) = t"

fun lowerItem :: "Todo \<Rightarrow> int" where
  "lowerItem (Visit t) = 0"
| "lowerItem (Field name t) = (if isUpper name then 0 else 1)"

text \<open>What a type leads to, as a list of things to visit.\<close>

definition todoOf :: "GoType \<Rightarrow> Todo list" where
  "todoOf ty = (case ty of TStruct fs \<Rightarrow> fieldItems fs | TSlice e \<Rightarrow> [Visit e] | TArray e \<Rightarrow> [Visit e] | TPtr e \<Rightarrow> [Visit e]
     | TMap k e \<Rightarrow> [Visit e, Visit k] | TBasic \<Rightarrow> [])"

lemma checkItems_visit:
  "t \<notin> checked g \<Longrightarrow> checkItems types (Visit t # todo) g =
     checkItems types (todoOf (typeAt types t) @ todo) (g\<lparr>checked := insert t (checked g)\<rparr>)"
  by (cases "typeAt types t") (simp_all add: todoOf_def)

lemma todoOf_targets: "(t, u) \<in> contains types \<longleftrightarrow> u \<in> target ` set (todoOf (typeAt types t))"
proof -
  have "target ` set (fieldItems fs) = snd ` set fs" for fs by (auto simp: fieldItems_def image_image split_def)
  then show ?thesis by (auto simp: contains_def todoOf_def split: GoType.split)
qed

lemma todoOf_lower: "sum_list (map lowerItem (todoOf (typeAt types t))) = lowerFields types t"
proof -
  have "sum_list (map lowerItem (fieldItems fs)) = lower fs" for fs
    by (induction fs) (auto simp: fieldItems_def lower_def)
  then show ?thesis by (auto simp: todoOf_def lowerFields_def split: GoType.split)
qed

lemma checkItems_induct [consumes 0, case_names none field seen visit]:
  assumes "\<And>g. P [] g"
    and "\<And>name t todo g. P (Visit t # todo) (if isUpper name = False then g\<lparr>errorCount := errorCount g + 1\<rparr> else g) \<Longrightarrow> P (Field name t # todo) g"
    and "\<And>t todo g. t \<in> checked g \<Longrightarrow> P todo g \<Longrightarrow> P (Visit t # todo) g"
    and "\<And>t todo g. t \<notin> checked g \<Longrightarrow> P (todoOf (typeAt types t) @ todo) (g\<lparr>checked := insert t (checked g)\<rparr>) \<Longrightarrow> P (Visit t # todo) g"
  shows "P todo (g :: Checker)"
proof -
  have "ty = types \<Longrightarrow> P todo g" for ty
  proof (induction ty todo g rule: checkItems.induct)
    case (1 ty g)
    show ?case by (rule assms(1))
  next
    case (2 ty name t todo g)
    then show ?case by (intro assms(2)) blast
  next
    case (3 ty t todo g)
    show ?case
    proof (cases "t \<in> checked g")
      case True
      then show ?thesis using 3 by (intro assms(3)) blast+
    next
      case False
      have "P (todoOf (typeAt types t) @ todo) (g\<lparr>checked := insert t (checked g)\<rparr>)"
        using 3 False by (cases "typeAt types t") (auto simp: todoOf_def)
      then show ?thesis by (rule assms(4)[OF False])
    qed
  qed
  then show ?thesis by blast
qed

declare checkItems.simps(3) [simp del]

lemma checkItems_seen [simp]: "t \<in> checked g \<Longrightarrow> checkItems types (Visit t # todo) g = checkItems types todo g"
  by (simp add: checkItems.simps(3))

lemma checkItems_visits:
  "checked g \<union> target ` set todo \<subseteq> checked (checkItems types todo g) \<and>
    checked (checkItems types todo g) \<subseteq> checked g \<union> (contains types)\<^sup>* `` (target ` set todo)"
proof (induction todo g rule: checkItems_induct[where types = types])
  case (visit t todo g)
  let ?R = "(contains types)\<^sup>*"
  let ?C = "checked (checkItems types (todoOf (typeAt types t) @ todo) (g\<lparr>checked := insert t (checked g)\<rparr>))"
  have "?R `` (target ` set (todoOf (typeAt types t))) \<subseteq> ?R `` {t}"
    using todoOf_targets[of t _ types] by (auto intro: converse_rtrancl_into_rtrancl)
  then have sub: "?R `` (target ` set (todoOf (typeAt types t) @ todo)) \<subseteq> ?R `` (target ` set (Visit t # todo))" by auto
  have t: "t \<in> ?R `` (target ` set (Visit t # todo))" by auto
  have up: "?C \<subseteq> insert t (checked g) \<union> ?R `` (target ` set (todoOf (typeAt types t) @ todo))" using visit(2) by simp
  have "?C \<subseteq> checked g \<union> ?R `` (target ` set (Visit t # todo))" using up sub t by blast
  moreover have "checked g \<union> target ` set (Visit t # todo) \<subseteq> ?C" using visit(2) by auto
  ultimately show ?case unfolding checkItems_visit[OF visit(1)] by blast
next
  case (seen t todo g)
  have "(contains types)\<^sup>* `` (target ` set todo) \<subseteq> (contains types)\<^sup>* `` (target ` set (Visit t # todo))" by auto
  then show ?case using seen by simp blast
qed auto

lemma checkItems_closed:
  "(\<forall>t \<in> checked g. \<forall>u. (t, u) \<in> contains types \<longrightarrow> u \<in> checked g \<union> target ` set todo) \<Longrightarrow>
    \<forall>t \<in> checked (checkItems types todo g). \<forall>u. (t, u) \<in> contains types \<longrightarrow> u \<in> checked (checkItems types todo g)"
proof (induction todo g rule: checkItems_induct[where types = types])
  case (visit t todo g)
  show ?case unfolding checkItems_visit[OF visit(1)]
    by (rule visit(2)) (use visit(3) todoOf_targets[of t _ types] in auto)
qed auto

lemma checkItems_count:
  "finite (checked g) \<Longrightarrow> finite (checked (checkItems types todo g)) \<and>
    errorCount (checkItems types todo g) = errorCount g + (\<Sum>t \<in> checked (checkItems types todo g) - checked g. lowerFields types t) +
      sum_list (map lowerItem todo)"
proof (induction todo g rule: checkItems_induct[where types = types])
  case (visit t todo g)
  let ?g = "g\<lparr>checked := insert t (checked g)\<rparr>" and ?todo = "todoOf (typeAt types t) @ todo"
  let ?C = "checked (checkItems types ?todo ?g)"
  have IH: "finite ?C" "errorCount (checkItems types ?todo ?g) = errorCount g + (\<Sum>t \<in> ?C - insert t (checked g). lowerFields types t) +
      sum_list (map lowerItem ?todo)" using visit(2,3) by simp_all
  have "t \<in> ?C" using checkItems_visits[of ?g ?todo types] by auto
  then have eq: "?C - checked g = insert t (?C - insert t (checked g))" using visit(1) by blast
  have "(\<Sum>t \<in> ?C - checked g. lowerFields types t) = lowerFields types t + (\<Sum>t \<in> ?C - insert t (checked g). lowerFields types t)"
    unfolding eq by (rule sum.insert) (use IH(1) in simp_all)
  then show ?case using IH todoOf_lower[of types t] unfolding checkItems_visit[OF visit(1)] by simp
qed auto

text \<open>The check of a type ends, also for types that contain themselves, sees exactly the types that
  the type leads to, and counts each of their lower-case fields once; checking the same type again
  counts nothing.\<close>

lemma checkType_counts_once:
  "checked (checkType types t \<lparr>checked = {}, errorCount = n\<rparr>) = (contains types)\<^sup>* `` {t} \<and>
   errorCount (checkType types t \<lparr>checked = {}, errorCount = n\<rparr>) = n + (\<Sum>u \<in> (contains types)\<^sup>* `` {t}. lowerFields types u) \<and>
   checkType types t (checkType types t \<lparr>checked = {}, errorCount = n\<rparr>) = checkType types t \<lparr>checked = {}, errorCount = n\<rparr>"
proof -
  let ?g = "\<lparr>checked = {}, errorCount = n\<rparr>"
  let ?g' = "checkType types t ?g"
  have v: "t \<in> checked ?g'" "checked ?g' \<subseteq> (contains types)\<^sup>* `` {t}"
    using checkItems_visits[of ?g "[Visit t]" types] by (simp_all add: checkType_def)
  have cl: "\<forall>a \<in> checked ?g'. \<forall>u. (a, u) \<in> contains types \<longrightarrow> u \<in> checked ?g'"
    using checkItems_closed[of ?g types "[Visit t]"] by (simp add: checkType_def)
  have "u \<in> checked ?g'" if "(t, u) \<in> (contains types)\<^sup>*" for u
    using that by (induction rule: rtrancl_induct) (use v cl in blast)+
  then have eq: "checked ?g' = (contains types)\<^sup>* `` {t}" using v(2) by blast
  moreover have "errorCount ?g' = n + (\<Sum>u \<in> checked ?g'. lowerFields types u)"
    using checkItems_count[of ?g types "[Visit t]"] by (simp add: checkType_def)
  moreover have "checkType types t ?g' = ?g'" using v(1) by (simp add: checkType_def[of types t ?g'])
  ultimately show ?thesis by simp
qed

text \<open>A value that is zero everywhere raises no warning.\<close>

fun allZero :: "GoValue \<Rightarrow> bool" where
  "allZero (VStruct vs) \<longleftrightarrow> list_all allZero vs"
| "allZero (VPtr None) \<longleftrightarrow> True"
| "allZero (VPtr (Some v)) \<longleftrightarrow> allZero v"
| "allZero (VScalar isZero) \<longleftrightarrow> isZero"
| "allZero VOther \<longleftrightarrow> True"

lemma checkDefault1_zero:
  "allZero v \<Longrightarrow> checkDefault1 v depth errs = errs"
  "list_all allZero vs \<Longrightarrow> checkFields vs depth errs = errs"
  by (induction v depth errs and vs depth errs rule: checkDefault1_checkFields.induct) auto

end
