(* ===== verification/Spec2Isabelle.thy ===== *)
theory Spec2Isabelle
  imports RaftConfigProps RaftNoPanic KvSrvConfig KvCluster KvConfig ShardCtrlConfig ShardKvConfigProps MrJobLive MrProbe PorcupineVisual LabRpcProps LabGob ShardKv
begin

text \<open>
  Verification of the 6.5840 labs: MapReduce, a key/value server, Raft, a replicated key/value server
  on top of it, the linearizability checker, the simulated network and the harnesses that the tests use, and the
  clerks of the sharded service.

  \<^bold>\<open>The program and its parts.\<close>  \<^verbatim>\<open>src/raft\<close> replicates a log; a peer talks to the other peers by
  RPC over \<^verbatim>\<open>src/labrpc\<close>, keeps its term, vote and log in a persister, and pushes committed commands
  and snapshots to the service above it.  \<^verbatim>\<open>src/kvraft\<close> is that service: it starts each client's
  command in Raft, applies what comes back in log order, recognises repetitions and answers.
  \<^verbatim>\<open>src/kvsrv\<close> is the same store on one machine.  \<^verbatim>\<open>src/mr\<close> is a coordinator that hands out map and
  reduce tasks, and workers that carry them out with the functions of \<^verbatim>\<open>src/mrapps\<close>;
  \<^verbatim>\<open>src/main/mrsequential.go\<close> is the reference.  \<^verbatim>\<open>src/porcupine\<close> with \<^verbatim>\<open>src/models\<close> decides whether a
  recorded history of the store is linearizable.  \<^verbatim>\<open>src/labgob\<close> checks types around the encoder.
  \<^verbatim>\<open>src/shardctrler\<close> and \<^verbatim>\<open>src/shardkv\<close> have clerks; their servers are empty skeletons.

  \<^bold>\<open>How the code is modelled.\<close>  A struct is a record, an operation a function that takes and returns
  the record; what one goroutine does while it holds the lock is one function or one step.
  A run-time panic (index out of range, write to a nil map, nil dereference, \<^verbatim>\<open>log.Fatalf\<close>) is a value: \<^term>\<open>None\<close> where a
  function can only panic, the type \<open>Run\<close> of \<^verbatim>\<open>Prelude\<close> with \<open>Ret\<close>, \<open>Panic\<close> and \<open>Blocked\<close> where it can also wait forever.
  Random numbers, the order in which goroutines report and what the network does with a message
  are arguments or the choice of a step relation, so a theorem holds for all of them.
  Third-party code is a parameter: the byte encoding of \<^verbatim>\<open>encoding/gob\<close>, the sort of \<^verbatim>\<open>sort.Sort\<close> (any
  function that sorts), the table of letters beyond Latin-1 in \<^verbatim>\<open>unicode\<close>, the plugin's functions.  Go's \<^verbatim>\<open>int\<close> is \<^typ>\<open>int\<close> for terms, indices and counters,
  which never come near 2^63; the words of the bit set and the hash of a key are machine words.

  \<^bold>\<open>The theories.\<close>
  \<^item> \<^verbatim>\<open>Prelude\<close>: slices, binary search, the type \<open>Run\<close>, majorities, the rules for reasoning about \<^const>\<open>pred_option\<close>.
  \<^item> \<^verbatim>\<open>Persister\<close>, \<^verbatim>\<open>RaftTypes\<close>, \<^verbatim>\<open>RaftNode\<close>: \<^verbatim>\<open>persister.go\<close>, \<^verbatim>\<open>raftUtil.go\<close> and every function of \<^verbatim>\<open>raft.go\<close>.  \<^verbatim>\<open>RaftInv\<close>: the invariant of a
    peer (contiguous log with rising terms, indices in range, what is on disk).  \<^verbatim>\<open>RaftHandlers\<close>, \<^verbatim>\<open>RaftLeader\<close>: the effect of each
    handler and of the leader's goroutines on every branch.  \<^verbatim>\<open>RaftContract\<close>: the locale of an RPC
    handler, interpreted on the three handlers and on the peer.  \<^verbatim>\<open>RaftCluster\<close>: peers, network and
    crashes as a step relation, the invariant behind election safety.  \<^verbatim>\<open>RaftProps\<close>: the properties of a peer.
    \<^verbatim>\<open>RaftRuns\<close>: runs in which no snapshot reaches a service, and a concrete one.
  \<^item> Safety of the replicated log.  \<^verbatim>\<open>RaftHistory\<close>: the history of a run (leaders, the log of each term, votes with the logs they
    were cast with, acknowledgements) and why a chosen entry is in every later leader's log.  \<^verbatim>\<open>RaftReplica\<close>: a compacted log as the end of a
    complete one, and what merging a request makes of it.  \<^verbatim>\<open>RaftSafety\<close>: the invariant that ties a cluster to a history, and how it
    survives a growing history.  \<^verbatim>\<open>RaftSafetySteps\<close>, \<^verbatim>\<open>RaftSafetyLocal\<close>, \<^verbatim>\<open>RaftSafetyNet\<close>, \<^verbatim>\<open>RaftSafetyElect\<close>, \<^verbatim>\<open>RaftSafetyStart\<close>: every step
    keeps it (steps of one peer, replication, elections, a new command).  \<^verbatim>\<open>RaftSafetyProps\<close>: state machine safety, leader
    completeness and log matching.  \<^verbatim>\<open>RaftNoPanic\<close>: no handler, timer or call of a reachable cluster panics.  \<^verbatim>\<open>RaftOrder\<close>: peers deliver in order,
    and what two of them deliver is one log.
  \<^item> The tests' harness.  \<^verbatim>\<open>RaftConfig\<close>: \<^verbatim>\<open>src/raft/config.go\<close> over the network of \<^verbatim>\<open>LabRpc\<close> and the peers of \<^verbatim>\<open>RaftNode\<close>.  \<^verbatim>\<open>RaftConfigNet\<close>: the links it keeps,
    in every configuration its operations make.  \<^verbatim>\<open>RaftConfigRun\<close>: runs of the cluster with the readers of the harness.
    \<^verbatim>\<open>RaftConfigProps\<close>: its readers and checks accept what the peers do, and its switches cut exactly the links they name.
  \<^item> The harnesses of the services.  \<^verbatim>\<open>Harness\<close>: \<^verbatim>\<open>src/kvraft/config.go\<close> with the server left open; connections, partitions, clients, shutdown and
    restart.  \<^verbatim>\<open>HarnessNet\<close>: which ends each operation switches on or off.  \<^verbatim>\<open>HarnessInv\<close>: what all operations keep.  \<^verbatim>\<open>HarnessRun\<close>: the
    configurations of a test, requests in them, and the locale of a server that can be restarted on its persister.  \<^verbatim>\<open>KvConfig\<close>,
    \<^verbatim>\<open>ShardCtrlConfig\<close>: the harnesses of \<^verbatim>\<open>src/kvraft\<close> and \<^verbatim>\<open>src/shardctrler\<close>, which interpret it.  \<^verbatim>\<open>KvSrvConfig\<close>: \<^verbatim>\<open>src/kvsrv/config.go\<close>.
    \<^verbatim>\<open>ShardKvConfig\<close>: \<^verbatim>\<open>src/shardkv/config.go\<close>, controllers and groups on one network.  \<^verbatim>\<open>ShardKvConfigProps\<close>: the connections it keeps, a restart, and for
    how many servers it comes up.  \<^verbatim>\<open>Decimal\<close>: decimal numerals, of which its server names are made.
  \<^item> \<^verbatim>\<open>ClientCalls\<close>: the retry loop of a clerk and the locale of a server that remembers replies.
    \<^verbatim>\<open>KvSrv\<close>: \<^verbatim>\<open>src/kvsrv\<close>, interpreted for Put and Append: exactly-once execution.
  \<^item> \<^verbatim>\<open>KvRaft\<close>: \<^verbatim>\<open>src/kvraft\<close> over the Raft peer of \<^verbatim>\<open>RaftNode\<close>.  \<^verbatim>\<open>KvRaftProps\<close>: the abstract replay of a log
    and the refinement of it by the applier, duplicates, snapshots, replies, the clerk.  \<^verbatim>\<open>KvCluster\<close>: servers on the peers of a cluster
    go through the same states.
  \<^item> \<^verbatim>\<open>MrCoordinator\<close>, \<^verbatim>\<open>MrCoordinatorProps\<close>: \<^verbatim>\<open>coordinator.go\<close> with its mutex, timers and counters, and the
    reachable states of a run.  \<^verbatim>\<open>Utf8\<close>: strings as runes, and what JSON keeps of a string.  \<^verbatim>\<open>MrWorker\<close>, \<^verbatim>\<open>MrWorkerProps\<close>: map and reduce tasks
    on files, grouping and buckets, the sequential program.  \<^verbatim>\<open>MrJob\<close>, \<^verbatim>\<open>MrJobProps\<close>: a whole job, the coordinator and any number of worker
    loops in any interleaving with crashes and lost calls, on a directory that also holds the temporary files of running and crashed maps, and
    that its output is that of the sequential program.  \<^verbatim>\<open>MrJobLive\<close>: from every state of a job it can finish.
    \<^verbatim>\<open>MrApps\<close>: the applications; word count counts words, which are specified by their places in the texts.  \<^verbatim>\<open>MrProbe\<close>: those that probe processes
    and files (\<^verbatim>\<open>mtiming\<close>, \<^verbatim>\<open>rtiming\<close>, \<^verbatim>\<open>jobcount\<close>), and that they count what they mean to.
  \<^item> \<^verbatim>\<open>PorcupineBitset\<close>, \<^verbatim>\<open>PorcupineModel\<close>, \<^verbatim>\<open>PorcupineChecker\<close>: \<^verbatim>\<open>bitset.go\<close>, \<^verbatim>\<open>model.go\<close>, \<^verbatim>\<open>models/kv.go\<close>, \<^verbatim>\<open>checker.go\<close> and
    \<^verbatim>\<open>porcupine.go\<close>, the list of entries on an explicit heap.  \<^verbatim>\<open>PorcupineHeap\<close>: doubly linked lists, lift and
    unlift.  \<^verbatim>\<open>PorcupineSearch\<close>, \<^verbatim>\<open>PorcupineLoop\<close>: the search abstractly and the loop's invariant and measure.
    \<^verbatim>\<open>PorcupineSpec\<close>, \<^verbatim>\<open>PorcupineCorrect\<close>, \<^verbatim>\<open>PorcupineProps\<close>: linearizability and that the checker decides it.
    \<^verbatim>\<open>PorcupinePartial\<close>: the partial linearizations it reports are valid.  \<^verbatim>\<open>PorcupineVisual\<close>: \<^verbatim>\<open>visualization.go\<close> without its web page, and that
    the panic in it is never reached after a check.
  \<^item> \<^verbatim>\<open>LabRpc\<close>, \<^verbatim>\<open>LabRpcProps\<close>: \<^verbatim>\<open>labrpc.go\<close>; a request runs its handler on the servers behind the network, among whatever others do to
    them.  \<^verbatim>\<open>LabGob\<close>: the checks of \<^verbatim>\<open>labgob.go\<close>.
  \<^item> \<^verbatim>\<open>ShardCtrl\<close>, \<^verbatim>\<open>ShardKv\<close>: clerks, messages and skeleton servers of \<^verbatim>\<open>src/shardctrler\<close> and \<^verbatim>\<open>src/shardkv\<close>.

  \<^bold>\<open>Loops, bounds and fuel.\<close>  Loops over data are recursive functions with a termination proof.
  The search of the checker is a while loop whose termination is proved for every well-formed
  history; a search that would not end is \<open>Blocked\<close>.  The coordinator's cyclic search carries the number of tasks
  as its bound, which is the number of cells it can visit before it is back at its start.  The retry
  loops of the clerks run over the list of outcomes the network gives, and \<^term>\<open>None\<close> says
  that the list is over before the loop; the loops of the shard clerks are partial functions.

  \<^bold>\<open>Not modelled.\<close>  Wall-clock time, condition variables and \<^verbatim>\<open>time.Sleep\<close> (any step may happen next); logging; the
  web page of \<^verbatim>\<open>porcupine/visualization.go\<close>, a JavaScript program in a constant; the entry points under
  \<^verbatim>\<open>src/main\<close> other than \<^verbatim>\<open>mrsequential.go\<close>; sockets and dialling in \<^verbatim>\<open>mr\<close>; data races on memory, in
  particular slices of the log that a request shares with the peer; what a peer that was killed still does: a crash ends its applier at
  once, while the code's goes on pushing the batch it has taken to the service of the dead server.
\<close>

end
